(* ===== verification/Fluke_Prelude.thy ===== *)
theory Fluke_Prelude
  imports Main "HOL-Library.Word" "HOL-Library.Monad_Syntax"
begin

text \<open>
  Shared vocabulary of the development.

  \<^item> Machine integers: the kernel's \<open>u8\<close> .. \<open>u64\<close> of \<open>kernel/src/kdef.h\<close> are words, so that every
    wrap-around of the C code is the wrap-around of the model.
  \<^item> Error codes: \<open>include/fluke/defs/errno.h\<close>, as a datatype with its numbers.
  \<^item> Panics: an operation that can panic (a failed \<open>assert\<close> or a call of \<open>panic\<close>) returns an
    \<open>option\<close>; \<open>None\<close> is "the kernel halted". An error code returned to the caller is a value
    \<open>Inl e\<close> of a sum, never a panic.
  \<^item> Generic lemmas on options, lists and words that several components use.
\<close>

unbundle bit_operations_syntax

type_synonym u8 = "8 word"
type_synonym u16 = "16 word"
type_synonym u32 = "32 word"
type_synonym u64 = "64 word"

named_theorems kernel_defs \<open>definitions of small accessors and state updates that are always unfolded\<close>
named_theorems frame_simps \<open>what an operation leaves unchanged\<close>
named_theorems no_panic_intros \<open>conditions under which an operation does not panic\<close>

section \<open>Error codes\<close>

datatype errno =
    EINVAL | ENOSYS | EIO | ENOMEM | ENOENT | ENAMETOOLONG | EMFILE | EBADF | EFAULT | EEXIST
  | ENOEXEC | EPIPE | EBUSY | EAGAIN | EINTR | EDOM | ERANGE | ESPIPE | E2BIG | EPERM | EIPCIO
  | ENODEV | EOVERFLOW | EIPCNX

fun errno_code :: "errno \<Rightarrow> nat" where
  "errno_code EINVAL = 1"
| "errno_code ENOSYS = 2"
| "errno_code EIO = 3"
| "errno_code ENOMEM = 4"
| "errno_code ENOENT = 5"
| "errno_code ENAMETOOLONG = 6"
| "errno_code EMFILE = 7"
| "errno_code EBADF = 8"
| "errno_code EFAULT = 9"
| "errno_code EEXIST = 10"
| "errno_code ENOEXEC = 11"
| "errno_code EPIPE = 12"
| "errno_code EBUSY = 13"
| "errno_code EAGAIN = 14"
| "errno_code EINTR = 15"
| "errno_code EDOM = 16"
| "errno_code ERANGE = 17"
| "errno_code ESPIPE = 18"
| "errno_code E2BIG = 19"
| "errno_code EPERM = 20"
| "errno_code EIPCIO = 21"
| "errno_code ENODEV = 22"
| "errno_code EOVERFLOW = 23"
| "errno_code EIPCNX = 24"

lemma errno_code_inj: "errno_code a = errno_code b \<Longrightarrow> a = b"
  by (cases a; cases b; simp)

lemma errno_code_range: "0 < errno_code e \<and> errno_code e < 25"
  by (cases e) simp_all

text \<open>Error codes are ordered by their numbers.\<close>

instantiation errno :: linorder
begin

definition less_eq_errno :: "errno \<Rightarrow> errno \<Rightarrow> bool" where
  "less_eq_errno a b \<longleftrightarrow> errno_code a \<le> errno_code b"

definition less_errno :: "errno \<Rightarrow> errno \<Rightarrow> bool" where
  "less_errno a b \<longleftrightarrow> errno_code a < errno_code b"

instance
  by standard (auto simp: less_eq_errno_def less_errno_def intro: errno_code_inj)

end

text \<open>The value a failed system call leaves in the result register: \<open>-errno\<close> as a 64-bit word.\<close>

definition neg_errno :: "errno \<Rightarrow> u64" where
  "neg_errno e = - word_of_nat (errno_code e)"

section \<open>Assertions\<close>

definition kassert :: "bool \<Rightarrow> unit option" where
  "kassert b = (if b then Some () else None)"

lemma kassert_True [simp]: "kassert True = Some ()"
  by (simp add: kassert_def)

lemma kassert_False [simp]: "kassert False = None"
  by (simp add: kassert_def)

lemma kassert_Some_iff [simp]: "kassert b = Some u \<longleftrightarrow> b"
  by (simp add: kassert_def)

lemma kassert_bind [simp]: "Option.bind (kassert b) f = (if b then f () else None)"
  by (simp add: kassert_def)

section \<open>Lists with optional ends\<close>

text \<open>\<open>first_or e xs\<close> and \<open>last_or e xs\<close>: the end of a list as a pointer, \<open>e\<close> for the empty list.\<close>

fun first_or :: "'a option \<Rightarrow> 'a list \<Rightarrow> 'a option" where
  "first_or e [] = e"
| "first_or e (x # xs) = Some x"

fun last_or :: "'a option \<Rightarrow> 'a list \<Rightarrow> 'a option" where
  "last_or e [] = e"
| "last_or e (x # xs) = last_or (Some x) xs"

lemma first_or_append [simp]: "first_or e (xs @ ys) = first_or (first_or e ys) xs"
  by (cases xs) simp_all

lemma last_or_append [simp]: "last_or e (xs @ ys) = last_or (last_or e xs) ys"
  by (induction xs arbitrary: e) simp_all

lemma last_or_nonempty: "xs \<noteq> [] \<Longrightarrow> last_or e xs = Some (last xs)"
  by (induction xs arbitrary: e) auto

lemma first_or_nonempty: "xs \<noteq> [] \<Longrightarrow> first_or e xs = Some (hd xs)"
  by (cases xs) simp_all

lemma first_or_None_iff [simp]: "first_or None xs = None \<longleftrightarrow> xs = []"
  by (cases xs) simp_all

lemma last_or_None_iff [simp]: "last_or None xs = None \<longleftrightarrow> xs = []"
  by (cases xs rule: rev_cases) simp_all

lemma first_or_Some_in: "first_or None xs = Some x \<Longrightarrow> x \<in> set xs"
  by (cases xs) auto

lemma last_or_Some_in: "last_or None xs = Some x \<Longrightarrow> x \<in> set xs"
  by (cases xs rule: rev_cases) auto

section \<open>Words\<close>

lemma sint_small: "unat (w :: u64) < 2 ^ 63 \<Longrightarrow> sint w = int (unat w)"
proof -
  assume w: "unat w < 2 ^ 63"
  have "sint w = signed_take_bit 63 (uint w)" by (simp add: sint_uint)
  also have "uint w = int (unat w)" by simp
  also have "signed_take_bit 63 (int (unat w)) = int (unat w)"
  proof (rule signed_take_bit_int_eq_self)
    show "- (2 ^ 63) \<le> int (unat w)" by (rule order_trans [of _ 0]) simp_all
    have "int (unat w) < int (2 ^ 63)" using w by (simp only: of_nat_less_iff)
    then show "int (unat w) < 2 ^ 63" by (simp only: of_nat_power of_nat_numeral)
  qed
  finally show ?thesis .
qed

lemma signed_less: "unat (a :: u64) < 2 ^ 63 \<Longrightarrow> unat b < 2 ^ 63 \<Longrightarrow> a <s b \<longleftrightarrow> unat a < unat b"
  by (simp only: word_sless_alt sint_small of_nat_less_iff)

lemma and_not_mask: "(v :: 'a :: len word) AND NOT (mask k) = push_bit k (drop_bit k v)"
  by (rule bit_eqI) (auto simp: bit_simps)

lemma unat_and_not_mask: "unat ((v :: u64) AND NOT (mask k)) = unat v div 2 ^ k * 2 ^ k"
proof -
  have le: "unat v div 2 ^ k * 2 ^ k \<le> unat v" by (rule div_times_less_eq_dividend)
  moreover have "unat v < 2 ^ 64" by (rule order_less_le_trans [OF unsigned_less]) simp
  ultimately have "unat v div 2 ^ k * 2 ^ k < 2 ^ 64" by linarith
  then show ?thesis
    unfolding and_not_mask unsigned_push_bit_eq unat_drop_bit_eq
    by (simp add: push_bit_eq_mult drop_bit_eq_div take_bit_nat_eq_self)
qed

lemma pow_minus_1: "(2 :: u64) ^ k - 1 = mask k"
  by (simp add: mask_eq_exp_minus_1)

lemma unat64_less: "unat (w :: u64) < 2 ^ 64"
  by (rule order_less_le_trans [OF unsigned_less]) simp

lemma and_8: "(w :: u64) AND 8 \<noteq> 0 \<longleftrightarrow> odd (unat w div 8)"
proof -
  have "(w AND 8 \<noteq> 0) = bit w 3" by (simp add: and_exp_eq_0_iff_not_bit [of w 3, simplified])
  also have "\<dots> = bit (unat w) 3" by (simp add: bit_unsigned_iff bit_imp_le_length)
  finally show ?thesis by (simp add: bit_iff_odd)
qed

end
