(* ===== verification/Queue.thy ===== *)
theory Queue
  imports Fluke_Prelude
begin

text \<open>
  The intrusive doubly linked queue of \<open>kernel/src/containers/queue.c\<close>.

  A node lives inside another object (a thread), so the model keeps one heap: every node by its
  name \<open>'n\<close>, every queue head by its name \<open>'q\<close>. The three operations are pointer updates on that
  heap, with the code's assertions. The abstraction \<open>queue_rep\<close> says that every queue of the heap is
  a well-formed list, and the lemmas show that the operations are append, take-first and delete on
  those lists. The locale \<open>wait_queues\<close> states that contract for the clients (scheduler, IPC, IRQ).
\<close>

section \<open>Nodes, queues and the three operations\<close>

record ('n, 'q) qnode =
  qn_next :: "'n option"
  qn_prev :: "'n option"
  qn_root :: "'q option"

record 'n qhead =
  q_head :: "'n option"
  q_tail :: "'n option"

record ('n, 'q) qheap =
  qnodes :: "'n \<Rightarrow> ('n, 'q) qnode"
  queues :: "'q \<Rightarrow> 'n qhead"

definition zero_node :: "('n, 'q) qnode" where
  "zero_node = \<lparr>qn_next = None, qn_prev = None, qn_root = None\<rparr>"

definition upd_node :: "'n \<Rightarrow> (('n, 'q) qnode \<Rightarrow> ('n, 'q) qnode) \<Rightarrow> ('n, 'q) qheap \<Rightarrow> ('n, 'q) qheap" where
  "upd_node n f s = s\<lparr>qnodes := (qnodes s)(n := f (qnodes s n))\<rparr>"

definition upd_head :: "'q \<Rightarrow> ('n qhead \<Rightarrow> 'n qhead) \<Rightarrow> ('n, 'q) qheap \<Rightarrow> ('n, 'q) qheap" where
  "upd_head q f s = s\<lparr>queues := (queues s)(q := f (queues s q))\<rparr>"

definition queue_pop :: "'q \<Rightarrow> ('n, 'q) qheap \<Rightarrow> ('n option \<times> ('n, 'q) qheap) option" where
  "queue_pop q s =
     (case q_head (queues s q) of
        None \<Rightarrow> Some (None, s)
      | Some n \<Rightarrow> do {
          kassert (qn_prev (qnodes s n) = None);
          kassert (qn_root (qnodes s n) = Some q);
          let nx = qn_next (qnodes s n);
          let s = upd_head q (\<lambda>h. h\<lparr>q_head := nx\<rparr>) s;
          let s = (case nx of
                     Some m \<Rightarrow> upd_node m (\<lambda>x. x\<lparr>qn_prev := None\<rparr>) s
                   | None \<Rightarrow> upd_head q (\<lambda>h. h\<lparr>q_tail := None\<rparr>) s);
          Some (Some n, upd_node n (\<lambda>_. zero_node) s)
        })"

definition queue_push :: "'q \<Rightarrow> 'n \<Rightarrow> ('n, 'q) qheap \<Rightarrow> ('n, 'q) qheap option" where
  "queue_push q n s = do {
     kassert (qn_root (qnodes s n) = None);
     let s = upd_node n (\<lambda>_. \<lparr>qn_next = None, qn_prev = q_tail (queues s q), qn_root = Some q\<rparr>) s;
     let s = (case q_tail (queues s q) of
                Some t \<Rightarrow> upd_node t (\<lambda>x. x\<lparr>qn_next := Some n\<rparr>) s
              | None \<Rightarrow> upd_head q (\<lambda>h. h\<lparr>q_head := Some n\<rparr>) s);
     Some (upd_head q (\<lambda>h. h\<lparr>q_tail := Some n\<rparr>) s)
   }"

definition queue_node_remove :: "'n \<Rightarrow> ('n, 'q) qheap \<Rightarrow> ('n, 'q) qheap option" where
  "queue_node_remove n s =
     (case qn_root (qnodes s n) of
        None \<Rightarrow> None
      | Some q \<Rightarrow>
          (let s = (case qn_prev (qnodes s n) of
                      Some p \<Rightarrow> upd_node p (\<lambda>x. x\<lparr>qn_next := qn_next (qnodes s n)\<rparr>) s
                    | None \<Rightarrow> upd_head q (\<lambda>h. h\<lparr>q_head := qn_next (qnodes s n)\<rparr>) s);
               s = (case qn_next (qnodes s n) of
                      Some m \<Rightarrow> upd_node m (\<lambda>x. x\<lparr>qn_prev := qn_prev (qnodes s n)\<rparr>) s
                    | None \<Rightarrow> upd_head q (\<lambda>h. h\<lparr>q_tail := qn_prev (qnodes s n)\<rparr>) s)
           in Some (upd_node n (\<lambda>_. zero_node) s)))"

section \<open>Well-formed queues\<close>

text \<open>
  \<open>dseg f q p xs e\<close>: the nodes \<open>xs\<close> of queue \<open>q\<close> are linked in this order, the first one's
  predecessor is \<open>p\<close> and the last one's successor is \<open>e\<close>.
\<close>

fun dseg :: "('n \<Rightarrow> ('n, 'q) qnode) \<Rightarrow> 'q \<Rightarrow> 'n option \<Rightarrow> 'n list \<Rightarrow> 'n option \<Rightarrow> bool" where
  "dseg f q p [] e \<longleftrightarrow> True"
| "dseg f q p (x # xs) e \<longleftrightarrow>
     f x = \<lparr>qn_next = first_or e xs, qn_prev = p, qn_root = Some q\<rparr> \<and> dseg f q (Some x) xs e"

definition is_queue :: "('n, 'q) qheap \<Rightarrow> 'q \<Rightarrow> 'n list \<Rightarrow> bool" where
  "is_queue s q xs \<longleftrightarrow>
     queues s q = \<lparr>q_head = first_or None xs, q_tail = last_or None xs\<rparr> \<and>
     dseg (qnodes s) q None xs None \<and> distinct xs \<and>
     (\<forall>n. qn_root (qnodes s n) = Some q \<longrightarrow> n \<in> set xs)"

definition queue_rep :: "('n, 'q) qheap \<Rightarrow> ('q \<Rightarrow> 'n list) \<Rightarrow> bool" where
  "queue_rep s c \<longleftrightarrow>
     (\<forall>q. is_queue s q (c q)) \<and> (\<forall>n. qn_root (qnodes s n) = None \<longrightarrow> qnodes s n = zero_node)"

definition empty_qheap :: "('n, 'q) qheap" where
  "empty_qheap = \<lparr>qnodes = (\<lambda>_. zero_node), queues = (\<lambda>_. \<lparr>q_head = None, q_tail = None\<rparr>)\<rparr>"

lemma queue_rep_empty: "queue_rep empty_qheap (\<lambda>_. [])"
  by (simp add: queue_rep_def is_queue_def empty_qheap_def zero_node_def)

lemma dseg_append:
  "dseg f q p (xs @ ys) e \<longleftrightarrow> dseg f q p xs (first_or e ys) \<and> dseg f q (last_or p xs) ys e"
  by (induction xs arbitrary: p) auto

lemma dseg_upd_notin [simp]: "n \<notin> set xs \<Longrightarrow> dseg (f(n := v)) q p xs e = dseg f q p xs e"
  by (induction xs arbitrary: p) auto

lemma dseg_root: "dseg f q p xs e \<Longrightarrow> x \<in> set xs \<Longrightarrow> qn_root (f x) = Some q"
  by (induction xs arbitrary: p) auto

lemma dseg_head_prev:
  "dseg f q p (x # xs) e \<Longrightarrow> x \<notin> set xs \<Longrightarrow> dseg (f(x := (f x)\<lparr>qn_prev := p'\<rparr>)) q p' (x # xs) e"
  by simp

lemma dseg_last_next:
  "dseg f q p (xs @ [x]) e \<Longrightarrow> x \<notin> set xs \<Longrightarrow>
   dseg (f(x := (f x)\<lparr>qn_next := e'\<rparr>)) q p (xs @ [x]) e'"
  by (simp add: dseg_append)

lemma queue_rep_root_iff:
  assumes "queue_rep s c"
  shows "qn_root (qnodes s n) = Some q \<longleftrightarrow> n \<in> set (c q)"
  using assms by (auto simp: queue_rep_def is_queue_def dest: dseg_root)

lemma queue_rep_distinct: "queue_rep s c \<Longrightarrow> distinct (c q)"
  by (simp add: queue_rep_def is_queue_def)

lemma queue_rep_disjoint:
  assumes "queue_rep s c" and "n \<in> set (c q)" and "n \<in> set (c q')"
  shows "q = q'"
  using queue_rep_root_iff [OF assms(1)] assms(2,3) by (metis option.inject)

lemma queue_rep_root_None:
  assumes "queue_rep s c"
  shows "qn_root (qnodes s n) = None \<longleftrightarrow> (\<forall>q. n \<notin> set (c q))"
  using queue_rep_root_iff [OF assms] by (metis not_None_eq)

text \<open>A queue untouched by an operation keeps its shape.\<close>

lemma is_queue_frame:
  assumes "is_queue s q xs" and "queues s' q = queues s q"
    and "\<And>x. x \<in> set xs \<Longrightarrow> qnodes s' x = qnodes s x"
    and "\<And>n. qn_root (qnodes s' n) = Some q \<Longrightarrow> qn_root (qnodes s n) = Some q"
  shows "is_queue s' q xs"
proof -
  have "dseg (qnodes s') q p ys e \<longleftrightarrow> dseg (qnodes s) q p ys e" if "set ys \<subseteq> set xs" for p ys e
    using that assms(3) by (induction ys arbitrary: p) auto
  then show ?thesis using assms(1,2,4) by (auto simp: is_queue_def)
qed

section \<open>The operations on the lists\<close>

lemma queue_push_rep:
  assumes rep: "queue_rep s c" and free: "qn_root (qnodes s n) = None"
  shows "\<exists>s'. queue_push q n s = Some s' \<and> queue_rep s' (c(q := c q @ [n]))"
proof -
  from rep have q: "is_queue s q (c q)" by (simp add: queue_rep_def)
  have n: "n \<notin> set (c q')" for q' using rep free by (simp add: queue_rep_root_None)
  define nd where "nd = \<lparr>qn_next = None, qn_prev = last_or None (c q), qn_root = Some q\<rparr>"
  define f where "f = (case last_or None (c q) of
      Some t \<Rightarrow> (qnodes s)(n := nd, t := (qnodes s t)\<lparr>qn_next := Some n\<rparr>)
    | None \<Rightarrow> (qnodes s)(n := nd))"
  have tail: "t \<in> set (c q)" "t \<noteq> n" if "last_or None (c q) = Some t" for t
    using that n [of q] by (auto dest: last_or_Some_in)
  have "\<exists>s'. queue_push q n s = Some s' \<and> qnodes s' = f \<and>
    queues s' = (queues s)(q := \<lparr>q_head = first_or None (c q @ [n]), q_tail = Some n\<rparr>)"
  proof (cases "c q" rule: rev_cases)
    case Nil
    then show ?thesis using q free
      by (simp add: queue_push_def is_queue_def f_def nd_def upd_node_def upd_head_def Let_def)
  next
    case (snoc ys t)
    then have "t \<noteq> n" using tail by simp
    moreover have "first_or None (ys @ [t, n]) = first_or None (ys @ [t])" by (cases ys) simp_all
    ultimately show ?thesis using q free snoc
      by (simp add: queue_push_def is_queue_def f_def nd_def upd_node_def upd_head_def Let_def)
  qed
  then obtain s' where s': "queue_push q n s = Some s'" "qnodes s' = f"
    "queues s' = (queues s)(q := \<lparr>q_head = first_or None (c q @ [n]), q_tail = Some n\<rparr>)" by blast
  have seg: "dseg f q None (c q @ [n]) None"
  proof (cases "c q" rule: rev_cases)
    case Nil then show ?thesis by (simp add: f_def nd_def)
  next
    case (snoc ys t)
    moreover have "t \<notin> set ys" "t \<noteq> n" "n \<notin> set ys"
      using q snoc n [of q] by (auto simp: is_queue_def)
    ultimately show ?thesis using q by (auto simp: f_def nd_def is_queue_def dseg_append)
  qed
  have root: "qn_root (f m) = Some q' \<longleftrightarrow> (if m = n then q' = q else qn_root (qnodes s m) = Some q')" for m q'
    using tail by (auto simp: f_def nd_def split: option.splits)
  have other: "f m = qnodes s m" if "m \<noteq> n" "m \<notin> set (c q)" for m
    using that tail by (auto simp: f_def split: option.splits)
  have "is_queue s' q' ((c(q := c q @ [n])) q')" for q'
  proof (cases "q' = q")
    case True
    then show ?thesis using seg s' q n root by (auto simp: is_queue_def)
  next
    case False
    have "qnodes s' x = qnodes s x" if x: "x \<in> set (c q')" for x
    proof -
      from False have "x \<notin> set (c q)" using queue_rep_disjoint [OF rep x] by blast
      moreover have "x \<noteq> n" using x n by blast
      ultimately show ?thesis using s'(2) other by simp
    qed
    moreover have "qn_root (qnodes s m) = Some q'" if "qn_root (qnodes s' m) = Some q'" for m
      using that s'(2) root [of m] False by (simp split: if_splits)
    moreover have "is_queue s q' (c q')" using rep by (simp add: queue_rep_def)
    ultimately show ?thesis using s'(3) False by (simp add: is_queue_frame [of s])
  qed
  moreover have "qnodes s' m = zero_node" if "qn_root (qnodes s' m) = None" for m
  proof -
    have m: "m \<noteq> n" "qn_root (qnodes s m) = None"
      using that root [of m] s'(2) by (auto split: if_splits) (metis not_None_eq)+
    then have "m \<notin> set (c q)" using rep by (simp add: queue_rep_root_None)
    with m show ?thesis using rep s'(2) other by (simp add: queue_rep_def)
  qed
  ultimately show ?thesis using s'(1) by (auto simp: queue_rep_def)
qed

text \<open>Taking a node out of the middle, the common core of \<open>queue_pop\<close> and \<open>queue_node_remove\<close>.\<close>

definition splice :: "('n \<Rightarrow> ('n, 'q) qnode) \<Rightarrow> 'n list \<Rightarrow> 'n \<Rightarrow> 'n list \<Rightarrow> ('n \<Rightarrow> ('n, 'q) qnode)" where
  "splice f as n bs =
     (let f1 = (case last_or None as of
                  Some p \<Rightarrow> f(p := (f p)\<lparr>qn_next := first_or None bs\<rparr>) | None \<Rightarrow> f);
          f2 = (case first_or None bs of
                  Some m \<Rightarrow> f1(m := (f1 m)\<lparr>qn_prev := last_or None as\<rparr>) | None \<Rightarrow> f1)
      in f2(n := zero_node))"

lemma splice_rep:
  assumes rep: "queue_rep s c" and cq: "c q = as @ n # bs"
    and s': "qnodes s' = splice (qnodes s) as n bs"
    "queues s' = (queues s)(q := \<lparr>q_head = first_or None (as @ bs), q_tail = last_or None (as @ bs)\<rparr>)"
  shows "queue_rep s' (c(q := as @ bs))"
proof -
  let ?f = "splice (qnodes s) as n bs"
  from rep have q: "is_queue s q (as @ n # bs)" using cq by (metis queue_rep_def)
  then have d: "distinct (as @ n # bs)" and seg: "dseg (qnodes s) q None (as @ n # bs) None"
    by (simp_all add: is_queue_def)
  have ends: "\<And>p. last_or None as = Some p \<Longrightarrow> p \<in> set as" "\<And>m. first_or None bs = Some m \<Longrightarrow> m \<in> set bs"
    by (auto dest: last_or_Some_in first_or_Some_in)
  have root: "qn_root (?f m) = (if m = n then None else qn_root (qnodes s m))" for m
    by (auto simp: splice_def zero_node_def Let_def split: option.splits)
  have other: "?f m = qnodes s m" if "m \<notin> set (as @ n # bs)" for m
    using that ends by (auto simp: splice_def Let_def split: option.splits)
  have seg': "dseg ?f q None (as @ bs) None"
  proof (cases as rule: rev_cases)
    case Nil
    then show ?thesis using seg d by (cases bs) (auto simp: splice_def Let_def)
  next
    case (snoc as' p)
    then show ?thesis using seg d
      by (cases bs) (auto simp: splice_def Let_def dseg_append)
  qed
  have "is_queue s' q' ((c(q := as @ bs)) q')" for q'
  proof (cases "q' = q")
    case True
    then show ?thesis using seg' s' q d root by (auto simp: is_queue_def)
  next
    case False
    have "qnodes s' x = qnodes s x" if x: "x \<in> set (c q')" for x
    proof -
      from False have "x \<notin> set (c q)" using queue_rep_disjoint [OF rep x] by blast
      then show ?thesis using s'(1) other cq by simp
    qed
    moreover have "qn_root (qnodes s m) = Some q'" if "qn_root (qnodes s' m) = Some q'" for m
      using that s'(1) root [of m] False by (simp split: if_splits)
    moreover have "is_queue s q' (c q')" using rep by (simp add: queue_rep_def)
    ultimately show ?thesis using s'(2) False by (simp add: is_queue_frame [of s])
  qed
  moreover have "qnodes s' m = zero_node" if "qn_root (qnodes s' m) = None" for m
  proof (cases "m = n")
    case True then show ?thesis using s'(1) by (simp add: splice_def Let_def)
  next
    case False
    with that s'(1) root [of m] have m: "qn_root (qnodes s m) = None" by simp
    then have "m \<notin> set (as @ n # bs)" using rep cq by (metis queue_rep_root_None)
    with m rep s'(1) other show ?thesis by (simp add: queue_rep_def)
  qed
  ultimately show ?thesis by (simp add: queue_rep_def)
qed

lemma queue_pop_rep_Nil:
  "queue_rep s c \<Longrightarrow> c q = [] \<Longrightarrow> queue_pop q s = Some (None, s)"
  by (auto simp: queue_rep_def is_queue_def queue_pop_def dest!: spec [of _ q])

lemma queue_pop_rep_Cons:
  assumes rep: "queue_rep s c" and cq: "c q = n # xs"
  shows "\<exists>s'. queue_pop q s = Some (Some n, s') \<and> queue_rep s' (c(q := xs))"
proof -
  from rep have q: "is_queue s q (n # xs)" using cq by (metis queue_rep_def)
  then have n: "qnodes s n = \<lparr>qn_next = first_or None xs, qn_prev = None, qn_root = Some q\<rparr>"
    and hd: "queues s q = \<lparr>q_head = Some n, q_tail = last_or (Some n) xs\<rparr>" by (simp_all add: is_queue_def)
  have "\<exists>s'. queue_pop q s = Some (Some n, s') \<and> qnodes s' = splice (qnodes s) [] n xs \<and>
    queues s' = (queues s)(q := \<lparr>q_head = first_or None ([] @ xs), q_tail = last_or None ([] @ xs)\<rparr>)"
    using n hd by (cases xs) (simp_all add: queue_pop_def splice_def upd_node_def upd_head_def Let_def)
  then obtain s' where s': "queue_pop q s = Some (Some n, s')"
    "qnodes s' = splice (qnodes s) [] n xs"
    "queues s' = (queues s)(q := \<lparr>q_head = first_or None ([] @ xs), q_tail = last_or None ([] @ xs)\<rparr>)"
    by blast
  with splice_rep [OF rep, of q "[]" n xs s'] cq show ?thesis by auto
qed

lemma queue_node_remove_rep:
  assumes rep: "queue_rep s c" and cq: "c q = as @ n # bs"
  shows "\<exists>s'. queue_node_remove n s = Some s' \<and> queue_rep s' (c(q := as @ bs))"
proof -
  from rep have q: "is_queue s q (as @ n # bs)" using cq by (metis queue_rep_def)
  then have n: "qnodes s n = \<lparr>qn_next = first_or None bs, qn_prev = last_or None as, qn_root = Some q\<rparr>"
    and hd: "queues s q = \<lparr>q_head = first_or None (as @ [n]), q_tail = last_or (Some n) bs\<rparr>"
    and d: "distinct (as @ n # bs)"
    by (auto simp: is_queue_def dseg_append)
  have "\<exists>s'. queue_node_remove n s = Some s' \<and> qnodes s' = splice (qnodes s) as n bs \<and>
    queues s' = (queues s)(q := \<lparr>q_head = first_or None (as @ bs), q_tail = last_or None (as @ bs)\<rparr>)"
  proof (cases as rule: rev_cases)
    case Nil
    then show ?thesis using n hd
      by (cases bs) (simp_all add: queue_node_remove_def splice_def upd_node_def upd_head_def Let_def)
  next
    case (snoc as' p)
    then have "p \<noteq> n" "last_or None as = Some p" using d by auto
    moreover have "first_or None (as' @ p # ys) = first_or None (as' @ [p])" for ys by (cases as') auto
    ultimately show ?thesis using n hd snoc d
      by (cases bs)
        (simp_all add: queue_node_remove_def splice_def upd_node_def upd_head_def Let_def fun_upd_idem)
  qed
  then obtain s' where s': "queue_node_remove n s = Some s'"
    "qnodes s' = splice (qnodes s) as n bs"
    "queues s' = (queues s)(q := \<lparr>q_head = first_or None (as @ bs), q_tail = last_or None (as @ bs)\<rparr>)"
    by blast
  with splice_rep [OF rep cq s'(2,3)] show ?thesis by auto
qed

lemma queue_node_remove_idle:
  "queue_rep s c \<Longrightarrow> (\<And>q. n \<notin> set (c q)) \<Longrightarrow> queue_node_remove n s = None"
  by (simp add: queue_node_remove_def queue_rep_root_None [THEN iffD2])

section \<open>The contract of a family of wait queues\<close>

text \<open>
  What the scheduler, the IPC channels and the IRQ handlers rely on: named queues over a shared
  population of nodes, each node in at most one queue.
\<close>

locale wait_queues =
  fixes pop :: "'q \<Rightarrow> 'h \<Rightarrow> ('n option \<times> 'h) option"
    and push :: "'q \<Rightarrow> 'n \<Rightarrow> 'h \<Rightarrow> 'h option"
    and remove :: "'n \<Rightarrow> 'h \<Rightarrow> 'h option"
    and rep :: "'h \<Rightarrow> ('q \<Rightarrow> 'n list) \<Rightarrow> bool"
  assumes pop_Nil: "rep h c \<Longrightarrow> c q = [] \<Longrightarrow> pop q h = Some (None, h)"
    and pop_Cons: "rep h c \<Longrightarrow> c q = n # ns \<Longrightarrow>
      \<exists>h'. pop q h = Some (Some n, h') \<and> rep h' (c(q := ns))"
    and push_idle: "rep h c \<Longrightarrow> (\<And>q'. n \<notin> set (c q')) \<Longrightarrow>
      \<exists>h'. push q n h = Some h' \<and> rep h' (c(q := c q @ [n]))"
    and remove_queued: "rep h c \<Longrightarrow> c q = as @ n # bs \<Longrightarrow>
      \<exists>h'. remove n h = Some h' \<and> rep h' (c(q := as @ bs))"
    and rep_distinct: "rep h c \<Longrightarrow> distinct (c q)"
    and rep_disjoint: "rep h c \<Longrightarrow> n \<in> set (c q) \<Longrightarrow> n \<in> set (c q') \<Longrightarrow> q = q'"

fun push_all :: "('q \<Rightarrow> 'n \<Rightarrow> 'h \<Rightarrow> 'h option) \<Rightarrow> 'q \<Rightarrow> 'n list \<Rightarrow> 'h \<Rightarrow> 'h option" where
  "push_all push q [] h = Some h"
| "push_all push q (n # ns) h = Option.bind (push q n h) (push_all push q ns)"

fun pop_many :: "('q \<Rightarrow> 'h \<Rightarrow> ('n option \<times> 'h) option) \<Rightarrow> 'q \<Rightarrow> nat \<Rightarrow> 'h \<Rightarrow> ('n option list \<times> 'h) option" where
  "pop_many pop q 0 h = Some ([], h)"
| "pop_many pop q (Suc k) h = do {
     (r, h) \<leftarrow> pop q h;
     (rs, h) \<leftarrow> pop_many pop q k h;
     Some (r # rs, h)
   }"

context wait_queues begin

lemma push_all_rep:
  "rep h c \<Longrightarrow> distinct ns \<Longrightarrow> (\<And>n q'. n \<in> set ns \<Longrightarrow> n \<notin> set (c q')) \<Longrightarrow>
   \<exists>h'. push_all push q ns h = Some h' \<and> rep h' (c(q := c q @ ns))"
proof (induction ns arbitrary: h c)
  case Nil
  then show ?case by simp
next
  case (Cons n ns)
  from Cons.prems obtain h1 where h1: "push q n h = Some h1" "rep h1 (c(q := c q @ [n]))"
    using push_idle [of h c n q] by auto
  have "m \<notin> set ((c(q := c q @ [n])) q')" if "m \<in> set ns" for m q'
    using that Cons.prems(2,3) by auto
  with Cons.IH [OF h1(2)] Cons.prems(2) obtain h2 where
    "push_all push q ns h1 = Some h2" "rep h2 (c(q := c q @ n # ns))"
    by (auto simp del: fun_upd_apply simp: fun_upd_same)
  with h1(1) show ?case by (auto simp del: fun_upd_apply)
qed

lemma pop_many_rep:
  "rep h c \<Longrightarrow> c q = ns @ ms \<Longrightarrow>
   \<exists>h'. pop_many pop q (length ns) h = Some (map Some ns, h') \<and> rep h' (c(q := ms))"
proof (induction ns arbitrary: h c)
  case Nil
  then show ?case by (simp add: fun_upd_idem)
next
  case (Cons n ns)
  then obtain h1 where h1: "pop q h = Some (Some n, h1)" "rep h1 (c(q := ns @ ms))"
    using pop_Cons [of h c q n "ns @ ms"] by auto
  from Cons.IH [OF h1(2)] obtain h2 where
    "pop_many pop q (length ns) h1 = Some (map Some ns, h2)" "rep h2 (c(q := ms))"
    by (auto simp del: fun_upd_apply simp: fun_upd_same)
  with h1(1) show ?case by (auto simp del: fun_upd_apply)
qed

lemma fifo:
  assumes "rep h c" and "distinct ns" and "\<And>n q'. n \<in> set ns \<Longrightarrow> n \<notin> set (c q')" and "c q = []"
  shows "\<exists>h1 h2. push_all push q ns h = Some h1 \<and>
    pop_many pop q (length ns) h1 = Some (map Some ns, h2) \<and> pop q h2 = Some (None, h2)"
proof -
  obtain h1 where h1: "push_all push q ns h = Some h1" "rep h1 (c(q := ns))"
    using push_all_rep [OF assms(1-3)] assms(4) by fastforce
  obtain h2 where "pop_many pop q (length ns) h1 = Some (map Some ns, h2)" "rep h2 (c(q := []))"
    using pop_many_rep [OF h1(2), of q ns "[]"] by auto
  with h1 show ?thesis using pop_Nil by fastforce
qed

end

interpretation fluke_queue: wait_queues queue_pop queue_push queue_node_remove queue_rep
  by unfold_locales
    (auto simp: queue_pop_rep_Nil queue_rep_distinct queue_rep_root_None
      dest: queue_pop_rep_Cons queue_node_remove_rep queue_rep_disjoint intro!: queue_push_rep)

section \<open>Properties of the kernel's queues\<close>

text \<open>The intrusive queue is first in, first out: nodes pushed on an empty queue of a consistent heap are
  popped in the order they came, after which the queue reports empty; no assertion fails on the way, and the
  other queues that share the nodes' heap keep their contents.\<close>

theorem queue_fifo:
  assumes "queue_rep h c" and "c q = []" and "distinct ns" and "\<forall>n\<in>set ns. \<forall>q'. n \<notin> set (c q')"
  shows "\<exists>h1 h2. push_all queue_push q ns h = Some h1 \<and> queue_rep h1 (c(q := ns)) \<and>
    pop_many queue_pop q (length ns) h1 = Some (map Some ns, h2) \<and> queue_rep h2 c \<and> queue_pop q h2 = Some (None, h2)"
proof -
  have idle: "\<And>n q'. n \<in> set ns \<Longrightarrow> n \<notin> set (c q')" using assms(4) by blast
  obtain h1 where h1: "push_all queue_push q ns h = Some h1" "queue_rep h1 (c(q := c q @ ns))"
    using fluke_queue.push_all_rep [OF assms(1,3) idle, where q = q] by blast
  have rep1: "queue_rep h1 (c(q := ns))" using h1(2) assms(2) by (simp del: fun_upd_apply)
  have "(c(q := ns)) q = ns @ []" by simp
  from fluke_queue.pop_many_rep [OF rep1 this] obtain h2 where
    h2: "pop_many queue_pop q (length ns) h1 = Some (map Some ns, h2)" "queue_rep h2 ((c(q := ns))(q := []))" by blast
  have "(c(q := ns))(q := []) = c" using assms(2) by (auto simp: fun_eq_iff)
  then have rep2: "queue_rep h2 c" using h2(2) by simp
  then have "queue_pop q h2 = Some (None, h2)" using assms(2) by (rule fluke_queue.pop_Nil)
  with h1(1) rep1 h2(1) rep2 show ?thesis by blast
qed

theorem queue_fifo_witness:
  "\<exists>h1 h2. push_all queue_push True [1::nat, 2, 3] empty_qheap = Some h1 \<and> queue_rep h1 ((\<lambda>_. [])(True := [1, 2, 3])) \<and>
    pop_many queue_pop True (length [1::nat, 2, 3]) h1 = Some (map Some [1, 2, 3], h2) \<and> queue_rep h2 (\<lambda>_. []) \<and>
    queue_pop True h2 = Some (None, h2)"
  by (rule queue_fifo [OF queue_rep_empty]) simp_all

text \<open>A node can leave any place of the queue it is in: \<open>queue_node_remove\<close> finds the queue through the
  node, keeps the order of the other nodes, and leaves every other queue as it was.\<close>

theorem queue_remove_anywhere:
  assumes "queue_rep h c" and "n \<in> set (c q)"
  shows "\<exists>h'. queue_node_remove n h = Some h' \<and> queue_rep h' (c(q := remove1 n (c q)))"
proof -
  obtain as bs where s: "c q = as @ n # bs" and "n \<notin> set as" using split_list_first [OF assms(2)] by blast
  then have "remove1 n (c q) = as @ bs" by (simp add: remove1_append)
  with fluke_queue.remove_queued [OF assms(1) s] show ?thesis by simp
qed

theorem queue_remove_anywhere_witness:
  "\<exists>h h'. push_all queue_push True [1::nat, 2, 3] empty_qheap = Some h \<and> queue_node_remove 2 h = Some h' \<and>
    queue_rep h' (((\<lambda>_. [])(True := [1, 2, 3]))(True := remove1 2 (((\<lambda>_. [])(True := [1, 2, 3])) True)))"
proof -
  have "\<exists>h. push_all queue_push True [1::nat, 2, 3] empty_qheap = Some h \<and> queue_rep h ((\<lambda>_. [])(True := (\<lambda>_. []) True @ [1, 2, 3]))"
    by (rule fluke_queue.push_all_rep [OF queue_rep_empty]) simp_all
  then obtain h where h: "push_all queue_push True [1::nat, 2, 3] empty_qheap = Some h"
    "queue_rep h ((\<lambda>_. [])(True := [1, 2, 3]))" by (auto simp del: fun_upd_apply)
  have "2 \<in> set (((\<lambda>_. [])(True := [1::nat, 2, 3])) True)" by simp
  from queue_remove_anywhere [OF h(2) this] h(1) show ?thesis by blast
qed

end
