(* ===== verification/Alloc.thy ===== *)
theory Alloc
  imports Fluke_Prelude "HOL-Library.Multiset" "HOL-Library.Signed_Division"
begin

text \<open>
  Physical pages and kernel heap: \<open>kernel/src/mem/pmm.c\<close>, \<open>kernel/src/mem/alloc.c\<close> and
  \<open>kernel/src/mem/alloc.h\<close>.

  Both allocators keep their free lists inside the free memory itself, so the model has a memory of
  64-bit cells (\<open>words\<close>, by address) and every list pointer is an address read from it; 0 is the null
  pointer. Addresses in the lists are natural numbers (below \<open>2 ^ 64\<close>; no arithmetic on them can wrap, since
  every block lies inside one page); the addresses and the length of a region of memory, which come from the boot
  loader, are 64-bit words. The ghost argument \<open>live\<close> of the invariant lists the blocks the
  callers hold; the invariant says that free pages, free heap blocks and live blocks are pairwise
  disjoint, and every operation keeps it. So no block is ever handed out twice.
\<close>

section \<open>State\<close>

datatype tail_ptr = FreeListHead | NextOf nat

record mem_state =
  words :: "nat \<Rightarrow> nat"
  pmm_free_list :: nat
  pmm_tail :: tail_ptr
  pmm_free_count :: nat
  pmm_total_count :: nat
  pools :: "nat \<Rightarrow> nat"
  stat_free :: "nat \<Rightarrow> nat"
  stat_total :: "nat \<Rightarrow> nat"

definition PAGE_SIZE :: nat where
  "PAGE_SIZE = 0x1000"

definition MEM_HIGH_HALF_MIN :: nat where
  "MEM_HIGH_HALF_MIN = 0xffff800000000000"

definition page_aligned :: "nat \<Rightarrow> bool" where
  "page_aligned a \<longleftrightarrow> a mod PAGE_SIZE = 0"

definition kernel_pointer :: "nat \<Rightarrow> bool" where
  "kernel_pointer a \<longleftrightarrow> MEM_HIGH_HALF_MIN \<le> a"

text \<open>\<open>memset(p, c, n)\<close> on the cells of \<open>[p, p + n)\<close>.\<close>

definition fill :: "nat \<Rightarrow> nat \<Rightarrow> nat \<Rightarrow> (nat \<Rightarrow> nat) \<Rightarrow> (nat \<Rightarrow> nat)" where
  "fill p n c w = (\<lambda>a. if p \<le> a \<and> a < p + n then c * 0x0101010101010101 else w a)"

section \<open>The page allocator\<close>

definition store_tail :: "nat \<Rightarrow> mem_state \<Rightarrow> mem_state" where
  "store_tail v s = (case pmm_tail s of
     FreeListHead \<Rightarrow> s\<lparr>pmm_free_list := v\<rparr>
   | NextOf p \<Rightarrow> s\<lparr>words := (words s)(p := v)\<rparr>)"

text \<open>\<open>vpage\<close> is \<open>phys_to_virt\<close> of the page, a 64-bit address; \<open>k\<close> rounds of the loop are left.\<close>

fun add_pages_loop :: "u64 \<Rightarrow> nat \<Rightarrow> mem_state \<Rightarrow> mem_state" where
  "add_pages_loop vpage 0 s = s"
| "add_pages_loop vpage (Suc k) s =
     add_pages_loop (vpage + word_of_nat PAGE_SIZE) k ((store_tail (unat vpage) s)\<lparr>pmm_tail := NextOf (unat vpage)\<rparr>)"

text \<open>\<open>len\<close> is an \<open>isize\<close>: a negative one runs no round of the loop. The counters are 64 bits wide.\<close>

definition add_size :: "nat \<Rightarrow> u64 \<Rightarrow> nat" where
  "add_size n d = unat (word_of_nat n + d)"

definition pmm_add_pages :: "u64 \<Rightarrow> u64 \<Rightarrow> u64 \<Rightarrow> mem_state \<Rightarrow> mem_state option" where
  "pmm_add_pages hhdm_offset start len s = do {
     kassert (page_aligned (unat start));
     kassert (page_aligned (unat len));
     let s = add_pages_loop (start + hhdm_offset) (nat (sint len) div PAGE_SIZE) s;
     let s = store_tail 0 s;
     let pages = word_of_int (sint len sdiv int PAGE_SIZE);
     Some (s\<lparr>pmm_total_count := add_size (pmm_total_count s) pages,
             pmm_free_count := add_size (pmm_free_count s) pages\<rparr>)
   }"

definition alloc_page :: "mem_state \<Rightarrow> (nat \<times> mem_state) option" where
  "alloc_page s =
     (let page = pmm_free_list s in
      if page = 0 then Some (0, s)
      else do {
        let s = s\<lparr>pmm_free_list := words s page\<rparr>;
        kassert (0 < pmm_free_count s);
        Some (page, s\<lparr>pmm_free_count := pmm_free_count s - 1,
                      words := fill page PAGE_SIZE 0xdd (words s)\<rparr>)
      })"

definition free_page :: "nat \<Rightarrow> mem_state \<Rightarrow> mem_state option" where
  "free_page page s = do {
     kassert (page \<noteq> 0);
     kassert (page_aligned page);
     kassert (kernel_pointer page);
     Some (s\<lparr>words := (fill page PAGE_SIZE 0xee (words s))(page := pmm_free_list s),
             pmm_free_list := page,
             pmm_free_count := pmm_free_count s + 1\<rparr>)
   }"

section \<open>Size classes\<close>

text \<open>\<open>__builtin_clzl\<close> on a 64-bit value, by the number of its significant bits.\<close>

fun bit_len :: "nat \<Rightarrow> nat" where
  "bit_len n = (if n = 0 then 0 else Suc (bit_len (n div 2)))"

declare bit_len.simps [simp del]

definition clzl :: "nat \<Rightarrow> int" where
  "clzl n = 64 - int (bit_len n)"

definition ALLOC_MAX :: nat where
  "ALLOC_MAX = PAGE_SIZE"

definition alloc_calc_size_class :: "nat \<Rightarrow> int" where
  "alloc_calc_size_class allocation =
     (if allocation < 8 then 0
      else if allocation > ALLOC_MAX then -1
      else 61 - clzl (allocation - 1))"

definition class_size :: "nat \<Rightarrow> nat" where
  "class_size c = 8 * 2 ^ c"

section \<open>The heap allocator\<close>

definition debug_memset :: "nat \<Rightarrow> nat \<Rightarrow> nat \<Rightarrow> mem_state \<Rightarrow> mem_state" where
  "debug_memset p c sclass s = s\<lparr>words := fill p (class_size sclass) c (words s)\<rparr>"

text \<open>The loop that threads a fresh page onto a free list: \<open>lst\<close> is the head built so far.\<close>

function carve :: "nat \<Rightarrow> nat \<Rightarrow> nat \<Rightarrow> nat \<Rightarrow> (nat \<Rightarrow> nat) \<Rightarrow> nat \<times> (nat \<Rightarrow> nat)" where
  "carve page c offset lst w =
     (if offset < PAGE_SIZE
      then carve page c (offset + class_size c) (page + offset) (w(page + offset := lst))
      else (lst, w))"
  by pat_completeness auto
termination
  by (relation "measure (\<lambda>(page, c, offset, lst, w). PAGE_SIZE - offset)")
    (auto simp: class_size_def intro!: diff_less_mono2)

declare carve.simps [simp del]

definition alloc_from_fresh_page :: "nat \<Rightarrow> mem_state \<Rightarrow> (nat \<times> mem_state) option" where
  "alloc_from_fresh_page sclass s = do {
     kassert (pools s sclass = 0);
     (page, s) \<leftarrow> alloc_page s;
     if page = 0 then Some (0, s)
     else do {
       let entry_count = (PAGE_SIZE div 8) div 2 ^ sclass;
       let (lst, w) = carve page sclass (class_size sclass) 0 (words s);
       let s = s\<lparr>words := w, pools := (pools s)(sclass := lst),
                 stat_free := (stat_free s)(sclass := stat_free s sclass + (entry_count - 1)),
                 stat_total := (stat_total s)(sclass := stat_total s sclass + entry_count)\<rparr>;
       Some (page, debug_memset page 0xaa sclass s)
     }
   }"

definition kalloc_class :: "int \<Rightarrow> mem_state \<Rightarrow> (nat \<times> mem_state) option" where
  "kalloc_class sclass s = do {
     kassert (0 \<le> sclass \<and> sclass < 10);
     let c = nat sclass;
     let entry = pools s c;
     if entry \<noteq> 0 then
       Some (entry, debug_memset entry 0xbb c
         (s\<lparr>pools := (pools s)(c := words s entry),
             stat_free := (stat_free s)(c := stat_free s c - 1)\<rparr>))
     else alloc_from_fresh_page c s
   }"

definition kfree_class :: "nat \<Rightarrow> int \<Rightarrow> mem_state \<Rightarrow> mem_state option" where
  "kfree_class ptr sclass s = do {
     kassert (ptr \<noteq> 0);
     kassert (0 \<le> sclass \<and> sclass < 10);
     let c = nat sclass;
     let s = debug_memset ptr 0xcc c s;
     Some (s\<lparr>words := (words s)(ptr := pools s c),
             pools := (pools s)(c := ptr),
             stat_free := (stat_free s)(c := stat_free s c + 1)\<rparr>)
   }"

definition kalloc :: "nat \<Rightarrow> mem_state \<Rightarrow> (nat \<times> mem_state) option" where
  "kalloc n s = kalloc_class (alloc_calc_size_class n) s"

definition kfree :: "nat \<Rightarrow> nat \<Rightarrow> mem_state \<Rightarrow> mem_state option" where
  "kfree ptr n s = kfree_class ptr (alloc_calc_size_class n) s"

text \<open>The totals that \<open>alloc_print_info\<close> reports: bytes free and bytes in all pools.\<close>

definition alloc_info_bytes :: "mem_state \<Rightarrow> nat \<times> nat" where
  "alloc_info_bytes s =
     (\<Sum>i<10. class_size i * stat_free s i, \<Sum>i<10. class_size i * stat_total s i)"

section \<open>Size classes fit tightly\<close>

lemma bit_len_0 [simp]: "bit_len 0 = 0"
  by (simp add: bit_len.simps)

lemma bit_len_bounds: "n < 2 ^ bit_len n \<and> (0 < n \<longrightarrow> 2 ^ bit_len n \<le> 2 * n)"
proof (induction n rule: bit_len.induct)
  case (1 n)
  show ?case
  proof (cases "n = 0")
    case False
    let ?k = "bit_len (n div 2)"
    have l: "bit_len n = Suc ?k" using False by (simp add: bit_len.simps)
    from "1.IH" [OF False] have ih: "n div 2 < 2 ^ ?k" "0 < n div 2 \<longrightarrow> 2 ^ ?k \<le> 2 * (n div 2)" by auto
    have "n < 2 * 2 ^ ?k" using ih(1) by simp
    moreover have "2 * 2 ^ ?k \<le> 2 * n"
    proof (cases "n div 2 = 0")
      case True then have "?k = 0" by simp
      then show ?thesis using False by simp
    next
      case False
      with ih(2) have "2 ^ ?k \<le> 2 * (n div 2)" by simp
      then show ?thesis by simp
    qed
    ultimately show ?thesis using l by simp
  qed simp
qed

lemma bit_len_mono_pow: "n < 2 ^ k \<Longrightarrow> bit_len n \<le> k"
proof (induction n arbitrary: k rule: bit_len.induct)
  case (1 n)
  show ?case
  proof (cases "n = 0")
    case False
    with "1.prems" obtain k' where k: "k = Suc k'" by (cases k) auto
    with "1.prems" have "n div 2 < 2 ^ k'" by simp
    then have "bit_len (n div 2) \<le> k'" by (rule "1.IH" [OF False])
    then show ?thesis using False k by (simp add: bit_len.simps [of n])
  qed simp
qed

lemma bit_len_ge_pow: "2 ^ k \<le> n \<Longrightarrow> k < bit_len n"
  using bit_len_bounds [of n] by (metis le_less_trans nat_power_less_imp_less zero_less_numeral)

lemma size_class_small: "a \<le> 8 \<Longrightarrow> alloc_calc_size_class a = 0"
  using bit_len_ge_pow [of 2 7] bit_len_mono_pow [of 7 3]
  by (cases "a = 8") (auto simp: alloc_calc_size_class_def ALLOC_MAX_def PAGE_SIZE_def clzl_def)

lemma size_class_range:
  assumes "a \<le> ALLOC_MAX"
  shows "0 \<le> alloc_calc_size_class a \<and> alloc_calc_size_class a < 10"
proof (cases "a \<le> 8")
  case False
  then have "2 < bit_len (a - 1)" "bit_len (a - 1) \<le> 12"
    using assms by (auto intro!: bit_len_ge_pow bit_len_mono_pow simp: ALLOC_MAX_def PAGE_SIZE_def)
  then show ?thesis using assms by (auto simp: alloc_calc_size_class_def clzl_def)
qed (simp add: size_class_small)

lemma size_class_value:
  assumes "8 \<le> a" "a \<le> ALLOC_MAX"
  shows "bit_len (a - 1) = nat (alloc_calc_size_class a) + 3"
proof -
  have "2 < bit_len (a - 1)" using assms(1) by (intro bit_len_ge_pow) simp
  then show ?thesis using assms by (simp add: alloc_calc_size_class_def clzl_def)
qed

section \<open>Blocks and disjointness\<close>

type_synonym block = "nat \<times> nat"  \<comment> \<open>address and size\<close>

definition disj :: "block \<Rightarrow> block \<Rightarrow> bool" where
  "disj a b \<longleftrightarrow> fst a + snd a \<le> fst b \<or> fst b + snd b \<le> fst a"

definition inside :: "block \<Rightarrow> block \<Rightarrow> bool" where
  "inside a b \<longleftrightarrow> fst b \<le> fst a \<and> fst a + snd a \<le> fst b + snd b"

definition msep :: "block multiset \<Rightarrow> bool" where
  "msep M \<longleftrightarrow> (\<forall>a\<in>#M. \<forall>b\<in>#M - {#a#}. disj a b)"

lemma disj_sym: "disj a b \<Longrightarrow> disj b a"
  by (auto simp: disj_def)

lemma disj_inside: "disj a b \<Longrightarrow> inside c a \<Longrightarrow> disj c b"
  by (auto simp: disj_def inside_def)

lemma msep_empty [simp]: "msep {#}"
  by (simp add: msep_def)

lemma msep_add [simp]: "msep (add_mset a M) \<longleftrightarrow> (\<forall>b\<in>#M. disj a b) \<and> msep M"
proof
  assume l: "msep (add_mset a M)"
  have "disj x y" if "x \<in># M" "y \<in># M - {#x#}" for x y
  proof -
    have "y \<in># add_mset a M - {#x#}" using that
      by (cases "a = x") (auto dest: in_diffD)
    with l that show ?thesis by (auto simp: msep_def)
  qed
  with l show "(\<forall>b\<in>#M. disj a b) \<and> msep M" by (auto simp: msep_def)
next
  assume r: "(\<forall>b\<in>#M. disj a b) \<and> msep M"
  have "disj x y" if "x \<in># add_mset a M" "y \<in># add_mset a M - {#x#}" for x y
  proof (cases "x = a")
    case True with that r show ?thesis by simp
  next
    case False
    then have "x \<in># M" "y = a \<or> y \<in># M - {#x#}" using that by (auto split: if_splits)
    with r show ?thesis by (auto simp: msep_def intro: disj_sym)
  qed
  then show "msep (add_mset a M)" by (simp add: msep_def)
qed

lemma msep_union:
  "msep (M + N) \<longleftrightarrow> msep M \<and> msep N \<and> (\<forall>a\<in>#M. \<forall>b\<in>#N. disj a b)"
  by (induction M) auto

lemma msep_refine:
  assumes "msep (add_mset a M)" and "msep N" and "\<And>b. b \<in># N \<Longrightarrow> inside b a"
  shows "msep (N + M)"
  using assms by (auto simp: msep_union intro: disj_inside)

section \<open>Free lists in memory\<close>

fun chain :: "(nat \<Rightarrow> nat) \<Rightarrow> nat \<Rightarrow> nat list \<Rightarrow> bool" where
  "chain w p [] \<longleftrightarrow> p = 0"
| "chain w p (x # xs) \<longleftrightarrow> p = x \<and> x \<noteq> 0 \<and> chain w (w x) xs"

lemma chain_cong: "(\<And>x. x \<in> set xs \<Longrightarrow> w' x = w x) \<Longrightarrow> chain w' p xs = chain w p xs"
  by (induction xs arbitrary: p) auto

lemma chain_0 [simp]: "chain w 0 xs \<longleftrightarrow> xs = []"
  by (cases xs) auto

lemma chain_nonzero: "p \<noteq> 0 \<Longrightarrow> chain w p xs \<Longrightarrow> \<exists>ys. xs = p # ys \<and> chain w (w p) ys"
  by (cases xs) auto

definition page_blocks :: "nat list \<Rightarrow> block multiset" where
  "page_blocks ps = mset (map (\<lambda>p. (p, PAGE_SIZE)) ps)"

definition pool_blocks :: "(nat \<Rightarrow> nat list) \<Rightarrow> block multiset" where
  "pool_blocks fs = (\<Sum>c<10. mset (map (\<lambda>p. (p, class_size c)) (fs c)))"

definition all_blocks :: "nat list \<Rightarrow> (nat \<Rightarrow> nat list) \<Rightarrow> block list \<Rightarrow> block multiset" where
  "all_blocks ps fs live = page_blocks ps + pool_blocks fs + mset live"

text \<open>
  The invariant: \<open>ps\<close> are the free pages, \<open>fs c\<close> the free blocks of class \<open>c\<close>, \<open>live\<close> what the
  callers hold; free pages are page-aligned kernel addresses, free heap blocks aligned to their size.
\<close>

definition mem_inv :: "mem_state \<Rightarrow> nat list \<Rightarrow> (nat \<Rightarrow> nat list) \<Rightarrow> block list \<Rightarrow> bool" where
  "mem_inv s ps fs live \<longleftrightarrow>
     chain (words s) (pmm_free_list s) ps \<and>
     (\<forall>c<10. chain (words s) (pools s c) (fs c)) \<and>
     pmm_free_count s = length ps \<and>
     (\<forall>c<10. stat_free s c = length (fs c)) \<and>
     (\<forall>p\<in>set ps. page_aligned p) \<and>
     (\<forall>c<10. \<forall>p\<in>set (fs c). p mod class_size c = 0) \<and>
     (\<forall>b\<in>#all_blocks ps fs live. 0 < fst b \<and> 0 < snd b) \<and>
     msep (all_blocks ps fs live)"

lemma pool_blocks_upd:
  assumes "c < 10"
  shows "pool_blocks (fs(c := xs)) + mset (map (\<lambda>p. (p, class_size c)) (fs c)) =
    pool_blocks fs + mset (map (\<lambda>p. (p, class_size c)) xs)"
proof -
  let ?g = "\<lambda>f d. mset (map (\<lambda>p. (p, class_size d)) (f d :: nat list))"
  have i: "{..<10} = insert c ({..<10} - {c})" using assms by auto
  have "pool_blocks f = ?g f c + (\<Sum>d\<in>{..<10} - {c}. ?g f d)" for f
    unfolding pool_blocks_def by (subst i, subst sum.insert) auto
  moreover have "(\<Sum>d\<in>{..<10} - {c}. ?g (fs(c := xs)) d) = (\<Sum>d\<in>{..<10} - {c}. ?g fs d)"
    by (rule sum.cong) auto
  ultimately show ?thesis by simp
qed

lemma pool_blocks_Cons:
  "c < 10 \<Longrightarrow> pool_blocks (fs(c := p # xs)) = add_mset (p, class_size c) (pool_blocks (fs(c := xs)))"
  using pool_blocks_upd [of c "fs(c := xs)" "p # xs"] by simp

lemma pool_blocks_mem: "c < 10 \<Longrightarrow> p \<in> set (fs c) \<Longrightarrow> (p, class_size c) \<in># pool_blocks fs"
  by (auto simp: pool_blocks_def set_mset_sum)

lemma class_size_pos [simp]: "0 < class_size c"
  by (simp add: class_size_def)

text \<open>Writing inside a block leaves the free lists that avoid the block as they are.\<close>

lemma free_lists_frame:
  assumes sep: "msep (add_mset a (all_blocks ps fs live))"
    and w: "\<And>x. \<not> (fst a \<le> x \<and> x < fst a + snd a) \<Longrightarrow> w' x = w x"
    and pos: "\<And>b. b \<in># all_blocks ps fs live \<Longrightarrow> 0 < snd b"
  shows "chain w' p ps = chain w p ps" and "c < 10 \<Longrightarrow> chain w' p (fs c) = chain w p (fs c)"
proof -
  have out: "w' x = w x" if "(x, n) \<in># all_blocks ps fs live" for x n
    using w [of x] sep that pos [OF that] by (fastforce simp: disj_def)
  have "(x, PAGE_SIZE) \<in># all_blocks ps fs live" if "x \<in> set ps" for x
    using that by (auto simp: all_blocks_def page_blocks_def)
  then show "chain w' p ps = chain w p ps" by (intro chain_cong out)
  have "(x, class_size c) \<in># all_blocks ps fs live" if "c < 10" "x \<in> set (fs c)" for x
    using that by (simp add: all_blocks_def pool_blocks_mem)
  then show "chain w' p (fs c) = chain w p (fs c)" if "c < 10" using that by (intro chain_cong out)
qed

lemma fill_outside: "\<not> (p \<le> x \<and> x < p + n) \<Longrightarrow> fill p n c w x = w x"
  by (auto simp: fill_def)

section \<open>The page allocator keeps the invariant\<close>

lemma alloc_page_none:
  "mem_inv s [] fs live \<Longrightarrow> alloc_page s = Some (0, s)"
  by (simp add: mem_inv_def alloc_page_def)

lemma alloc_page_some:
  assumes inv: "mem_inv s (p # ps) fs live"
  shows "\<exists>s'. alloc_page s = Some (p, s') \<and> mem_inv s' ps fs ((p, PAGE_SIZE) # live) \<and>
    pools s' = pools s \<and> stat_free s' = stat_free s \<and> p \<noteq> 0 \<and> page_aligned p"
proof -
  have blocks: "all_blocks (p # ps) fs live = add_mset (p, PAGE_SIZE) (all_blocks ps fs live)"
    "all_blocks ps fs ((p, PAGE_SIZE) # live) = add_mset (p, PAGE_SIZE) (all_blocks ps fs live)"
    by (simp_all add: all_blocks_def page_blocks_def)
  let ?w = "fill p PAGE_SIZE 0xdd (words s)"
  have sep: "msep (add_mset (p, PAGE_SIZE) (all_blocks ps fs live))"
    and pos: "\<And>b. b \<in># all_blocks ps fs live \<Longrightarrow> 0 < snd b"
    using inv blocks(1) by (simp_all add: mem_inv_def)
  have out: "\<not> (fst (p, PAGE_SIZE) \<le> x \<and> x < fst (p, PAGE_SIZE) + snd (p, PAGE_SIZE)) \<Longrightarrow>
    ?w x = words s x" for x
    by (auto simp: fill_def PAGE_SIZE_def)
  have frame: "chain ?w q ps = chain (words s) q ps" "d < 10 \<Longrightarrow> chain ?w q (fs d) = chain (words s) q (fs d)" for q d
    by (rule free_lists_frame [OF sep out pos]; assumption)+
  from inv have "alloc_page s = Some (p, s\<lparr>pmm_free_list := words s p, pmm_free_count := length ps, words := ?w\<rparr>)"
    by (simp add: mem_inv_def alloc_page_def)
  with inv frame show ?thesis by (auto simp: mem_inv_def blocks)
qed

lemma free_page_inv:
  assumes inv: "mem_inv s ps fs live" and l: "(p, PAGE_SIZE) \<in> set live"
    and p: "page_aligned p" "kernel_pointer p"
  shows "\<exists>s'. free_page p s = Some s' \<and> mem_inv s' (p # ps) fs (remove1 (p, PAGE_SIZE) live)"
proof -
  let ?live = "remove1 (p, PAGE_SIZE) live"
  have live: "mset live = add_mset (p, PAGE_SIZE) (mset ?live)" using l by simp
  have blocks: "all_blocks ps fs live = add_mset (p, PAGE_SIZE) (all_blocks ps fs ?live)"
    "all_blocks (p # ps) fs ?live = add_mset (p, PAGE_SIZE) (all_blocks ps fs ?live)"
    using live by (simp_all add: all_blocks_def page_blocks_def)
  let ?w = "(fill p PAGE_SIZE 0xee (words s))(p := pmm_free_list s)"
  have sep: "msep (add_mset (p, PAGE_SIZE) (all_blocks ps fs ?live))"
    and pos: "\<And>b. b \<in># all_blocks ps fs ?live \<Longrightarrow> 0 < snd b"
    using inv blocks(1) by (simp_all add: mem_inv_def)
  have out: "\<not> (fst (p, PAGE_SIZE) \<le> x \<and> x < fst (p, PAGE_SIZE) + snd (p, PAGE_SIZE)) \<Longrightarrow>
    ?w x = words s x" for x
    by (auto simp: fill_def PAGE_SIZE_def)
  have frame: "chain ?w q ps = chain (words s) q ps" "d < 10 \<Longrightarrow> chain ?w q (fs d) = chain (words s) q (fs d)" for q d
    by (rule free_lists_frame [OF sep out pos]; assumption)+
  have p0: "p \<noteq> 0" using inv blocks(1) by (simp add: mem_inv_def)
  then have "free_page p s = Some (s\<lparr>words := ?w, pmm_free_list := p, pmm_free_count := pmm_free_count s + 1\<rparr>)"
    using p by (simp add: free_page_def)
  with inv frame p p0 show ?thesis by (simp add: mem_inv_def blocks)
qed

lemma class_size_neq_0 [simp]: "class_size c \<noteq> 0"
  by (simp add: class_size_def)

section \<open>The heap allocator keeps the invariant\<close>

lemma kfree_class_inv:
  assumes inv: "mem_inv s ps fs live" and l: "(p, class_size c) \<in> set live"
    and c: "c < 10" and al: "p mod class_size c = 0"
  shows "\<exists>s'. kfree_class p (int c) s = Some s' \<and>
    mem_inv s' ps (fs(c := p # fs c)) (remove1 (p, class_size c) live)"
proof -
  let ?b = "(p, class_size c)" and ?live = "remove1 (p, class_size c) live"
  have live: "mset live = add_mset ?b (mset ?live)" using l by simp
  have blocks: "all_blocks ps fs live = add_mset ?b (all_blocks ps fs ?live)"
    "all_blocks ps (fs(c := p # fs c)) ?live = add_mset ?b (all_blocks ps fs ?live)"
    using live c by (simp_all add: all_blocks_def pool_blocks_Cons)
  let ?w = "(fill p (class_size c) 0xcc (words s))(p := pools s c)"
  have sep: "msep (add_mset ?b (all_blocks ps fs ?live))"
    and pos: "\<And>b. b \<in># all_blocks ps fs ?live \<Longrightarrow> 0 < snd b"
    using inv blocks(1) by (simp_all add: mem_inv_def)
  have out: "\<not> (fst ?b \<le> x \<and> x < fst ?b + snd ?b) \<Longrightarrow> ?w x = words s x" for x
    by (auto simp: fill_def)
  have frame: "chain ?w q ps = chain (words s) q ps" "d < 10 \<Longrightarrow> chain ?w q (fs d) = chain (words s) q (fs d)" for q d
    by (rule free_lists_frame [OF sep out pos]; assumption)+
  have p0: "p \<noteq> 0" using inv blocks(1) by (simp add: mem_inv_def)
  then have "kfree_class p (int c) s = Some (s\<lparr>words := ?w, pools := (pools s)(c := p),
      stat_free := (stat_free s)(c := stat_free s c + 1)\<rparr>)"
    using c by (simp add: kfree_class_def debug_memset_def Let_def)
  with inv frame al p0 c show ?thesis by (simp add: mem_inv_def blocks)
qed

lemma kalloc_class_hit:
  assumes inv: "mem_inv s ps (fs(c := p # xs)) live" and c: "c < 10"
  shows "\<exists>s'. kalloc_class (int c) s = Some (p, s') \<and> p \<noteq> 0 \<and> p mod class_size c = 0 \<and>
    mem_inv s' ps (fs(c := xs)) ((p, class_size c) # live)"
proof -
  let ?b = "(p, class_size c)" and ?fs = "fs(c := xs)"
  have blocks: "all_blocks ps (fs(c := p # xs)) live = add_mset ?b (all_blocks ps ?fs live)"
    "all_blocks ps ?fs (?b # live) = add_mset ?b (all_blocks ps ?fs live)"
    using c by (simp_all add: all_blocks_def pool_blocks_Cons)
  let ?w = "fill p (class_size c) 0xbb (words s)"
  have sep: "msep (add_mset ?b (all_blocks ps ?fs live))"
    and pos: "\<And>b. b \<in># all_blocks ps ?fs live \<Longrightarrow> 0 < snd b"
    using inv blocks(1) by (simp_all add: mem_inv_def)
  have out: "\<not> (fst ?b \<le> x \<and> x < fst ?b + snd ?b) \<Longrightarrow> ?w x = words s x" for x
    by (auto simp: fill_def)
  have frame: "chain ?w q ps = chain (words s) q ps" "d < 10 \<Longrightarrow> chain ?w q (?fs d) = chain (words s) q (?fs d)" for q d
    by (rule free_lists_frame [OF sep out pos]; assumption)+
  have pl: "pools s c = p" "p \<noteq> 0" "stat_free s c = Suc (length xs)" "chain (words s) (words s p) xs"
    using inv c by (auto simp: mem_inv_def split: if_splits)
  then have *: "kalloc_class (int c) s = Some (p, s\<lparr>pools := (pools s)(c := words s p),
      stat_free := (stat_free s)(c := length xs), words := ?w\<rparr>)"
    using c by (simp add: kalloc_class_def debug_memset_def Let_def)
  from inv c have "\<forall>d<10. chain (words s) (((pools s)(c := words s p)) d) (?fs d)"
    using pl by (auto simp: mem_inv_def)
  with * inv pl frame c show ?thesis by (auto simp: mem_inv_def blocks)
qed

text \<open>A fresh page is cut into \<open>2 ^ (9 - c)\<close> blocks of class \<open>c\<close>; the first one is returned.\<close>

definition page_entries :: "nat \<Rightarrow> nat" where
  "page_entries c = 2 ^ (9 - c)"

lemma page_entries: "c < 10 \<Longrightarrow> page_entries c * class_size c = PAGE_SIZE"
  unfolding page_entries_def class_size_def PAGE_SIZE_def
  by (simp add: mult.left_commute flip: power_add)

lemma page_entries_div: "c < 10 \<Longrightarrow> (PAGE_SIZE div 8) div 2 ^ c = page_entries c"
  using page_entries [of c]
  by (metis class_size_def div_mult2_eq nonzero_mult_div_cancel_right power_not_zero
      mult_eq_0_iff zero_neq_numeral)

lemma page_entries_pos [simp]: "0 < page_entries c"
  by (simp add: page_entries_def)

definition cuts :: "nat \<Rightarrow> nat \<Rightarrow> nat \<Rightarrow> nat list" where
  "cuts page c k = rev (map (\<lambda>i. page + i * class_size c) [k..<page_entries c])"

lemma carve_chain:
  assumes "c < 10" and "0 < page"
    and "chain w lst xs" and "\<And>x i. x \<in> set xs \<Longrightarrow> k \<le> i \<Longrightarrow> x \<noteq> page + i * class_size c"
    and "carve page c (k * class_size c) lst w = (lst', w')"
  shows "chain w' lst' (cuts page c k @ xs) \<and>
    (\<forall>a. (\<forall>i. k \<le> i \<longrightarrow> i < page_entries c \<longrightarrow> a \<noteq> page + i * class_size c) \<longrightarrow> w' a = w a)"
  using assms(3-5)
proof (induction "page_entries c - k" arbitrary: k lst w xs)
  case 0
  then have "page_entries c \<le> k" by simp
  then have "PAGE_SIZE \<le> k * class_size c"
    using page_entries [OF assms(1)] by (metis mult_le_mono1)
  with 0 show ?case
    by (simp add: carve.simps [of _ _ "k * class_size c"] cuts_def \<open>page_entries c \<le> k\<close>)
next
  case (Suc n)
  let ?e = "page + k * class_size c"
  have k: "k < page_entries c" using Suc.hyps(2) by simp
  then have "k * class_size c < PAGE_SIZE"
    using page_entries [OF assms(1)] by (metis class_size_pos mult_less_mono1)
  then have step: "carve page c (Suc k * class_size c) ?e (w(?e := lst)) = (lst', w')"
    using Suc.prems(3) by (simp add: carve.simps [of _ _ "k * class_size c"] add.commute)
  have "chain (w(?e := lst)) ?e (?e # xs)"
    using Suc.prems(1,2) assms(2) chain_cong [of xs "w(?e := lst)" w] by auto
  moreover have "x \<noteq> page + i * class_size c" if "x \<in> set (?e # xs)" "Suc k \<le> i" for x i
  proof (cases "x = ?e")
    case True with that show ?thesis by simp
  next
    case False with that Suc.prems(2) [of x i] show ?thesis by simp
  qed
  moreover have "n = page_entries c - Suc k" using Suc.hyps(2) by simp
  ultimately have ih: "chain w' lst' (cuts page c (Suc k) @ ?e # xs) \<and>
    (\<forall>a. (\<forall>i. Suc k \<le> i \<longrightarrow> i < page_entries c \<longrightarrow> a \<noteq> page + i * class_size c) \<longrightarrow>
      w' a = (w(?e := lst)) a)"
    using Suc.hyps(1) step by blast
  have "cuts page c k = cuts page c (Suc k) @ [?e]"
    using k by (simp add: cuts_def upt_conv_Cons)
  with ih show ?case using k by auto
qed

lemma cuts_inside:
  assumes "c < 10" "x \<in> set (cuts page c k)"
  shows "inside (x, class_size c) (page, PAGE_SIZE)"
proof -
  from assms(2) obtain i where i: "x = page + i * class_size c" "i < page_entries c"
    by (auto simp: cuts_def)
  then have "Suc i * class_size c \<le> PAGE_SIZE"
    using page_entries [OF assms(1)] by (metis Suc_leI mult_le_mono1)
  with i show ?thesis by (simp add: inside_def)
qed

lemma cuts_msep: "msep (mset (map (\<lambda>x. (x, class_size c)) (cuts page c k)))"
proof -
  have "msep (mset (map (\<lambda>i. (page + i * class_size c, class_size c)) [k..<n]))" for n
  proof (induction n)
    case (Suc n)
    have "disj (page + n * class_size c, class_size c) (page + i * class_size c, class_size c)"
      if "i < n" for i
      using that mult_le_mono1 [of "Suc i" n "class_size c"] by (auto simp: disj_def)
    with Suc show ?case by auto
  qed simp
  then show ?thesis by (simp add: cuts_def image_mset.compositionality comp_def)
qed

lemma cuts_aligned:
  assumes "c < 10" "page_aligned page" "x \<in> set (cuts page c k)"
  shows "x mod class_size c = 0"
proof -
  have "class_size c dvd PAGE_SIZE" using page_entries [OF assms(1)] by (metis dvd_triv_right)
  then have "class_size c dvd page" using assms(2) by (auto simp: page_aligned_def dvd_trans)
  with assms(3) show ?thesis by (auto simp: cuts_def)
qed

lemma mem_inv_pool_Nil:
  "mem_inv s ps fs live \<Longrightarrow> c < 10 \<Longrightarrow> fs c = [] \<Longrightarrow> pools s c = 0 \<and> stat_free s c = 0"
  by (force simp: mem_inv_def)

lemma kalloc_class_empty:
  "mem_inv s [] fs live \<Longrightarrow> c < 10 \<Longrightarrow> fs c = [] \<Longrightarrow> kalloc_class (int c) s = Some (0, s)"
  by (simp add: kalloc_class_def alloc_from_fresh_page_def mem_inv_pool_Nil alloc_page_none)

lemma kalloc_class_fresh:
  assumes inv: "mem_inv s (p # ps) fs live" and c: "c < 10" and e: "fs c = []"
  shows "\<exists>s'. kalloc_class (int c) s = Some (p, s') \<and> p \<noteq> 0 \<and> p mod class_size c = 0 \<and>
    mem_inv s' ps (fs(c := cuts p c 1)) ((p, class_size c) # live)"
proof -
  let ?b = "(p, PAGE_SIZE)" and ?fs = "fs(c := cuts p c 1)" and ?B = "all_blocks ps fs live"
  from alloc_page_some [OF inv] obtain s1 where
    s1: "alloc_page s = Some (p, s1)" "pools s1 = pools s" "stat_free s1 = stat_free s"
    and inv1: "mem_inv s1 ps fs (?b # live)" and p: "p \<noteq> 0" "page_aligned p" by blast
  obtain lst w where carve: "carve p c (1 * class_size c) 0 (words s1) = (lst, w)"
    by (cases "carve p c (class_size c) 0 (words s1)") auto
  let ?w = "fill p (class_size c) 0xaa w"
  have B: "all_blocks ps fs (?b # live) = add_mset ?b ?B" by (simp add: all_blocks_def)
  with inv1 have sep: "msep (add_mset ?b ?B)" and pos: "\<And>b. b \<in># ?B \<Longrightarrow> 0 < snd b"
    by (simp_all add: mem_inv_def)
  have cut0: "cuts p c 0 = cuts p c 1 @ [p]" by (simp add: cuts_def upt_conv_Cons)
  have B': "all_blocks ps ?fs ((p, class_size c) # live) = mset (map (\<lambda>x. (x, class_size c)) (cuts p c 0)) + ?B"
    using pool_blocks_upd [OF c, of fs "cuts p c 1"] e by (simp add: all_blocks_def cut0)
  have sep': "msep (all_blocks ps ?fs ((p, class_size c) # live))"
    unfolding B' by (rule msep_refine [OF sep cuts_msep]) (use cuts_inside [OF c] in auto)
  have carved: "chain w lst (cuts p c 1)"
    "\<And>a. (\<forall>i. 1 \<le> i \<longrightarrow> i < page_entries c \<longrightarrow> a \<noteq> p + i * class_size c) \<Longrightarrow> w a = words s1 a"
    using carve_chain [OF c _ _ _ carve, of "[]"] p by auto
  have out: "\<not> (fst ?b \<le> x \<and> x < fst ?b + snd ?b) \<Longrightarrow> ?w x = words s1 x" for x
  proof -
    assume x: "\<not> (fst ?b \<le> x \<and> x < fst ?b + snd ?b)"
    have "x \<noteq> p + i * class_size c" if "i < page_entries c" for i
      using x that page_entries [OF c] by (metis add_less_cancel_left class_size_pos fst_conv
          le_add1 mult_less_mono1 snd_conv)
    moreover have "class_size c \<le> PAGE_SIZE"
      using page_entries [OF c] page_entries_pos [of c] by (metis One_nat_def Suc_leI mult.left_neutral mult_le_mono1)
    ultimately show ?thesis using x carved(2) [of x] by (auto simp: fill_def)
  qed
  have frame: "chain ?w q ps = chain (words s1) q ps" "d < 10 \<Longrightarrow> chain ?w q (fs d) = chain (words s1) q (fs d)" for q d
    by (rule free_lists_frame [OF sep out pos]; assumption)+
  have cut: "chain ?w lst (cuts p c 1)"
  proof -
    have "?w x = w x" if "x \<in> set (cuts p c 1)" for x
      using that class_size_pos [of c] by (fastforce simp: cuts_def fill_def)
    then show ?thesis using carved(1) chain_cong by metis
  qed
  have pc: "p mod class_size c = 0" using cuts_aligned [OF c p(2), of p 0] by (simp add: cut0)
  have n: "page_entries c - 1 = length (cuts p c 1)" by (simp add: cuts_def)
  define s' where "s' = s1\<lparr>words := ?w, pools := (pools s1)(c := lst),
      stat_free := (stat_free s1)(c := stat_free s1 c + (page_entries c - 1)),
      stat_total := (stat_total s1)(c := stat_total s1 c + page_entries c)\<rparr>"
  have "pools s c = 0" "stat_free s1 c = 0"
    using mem_inv_pool_Nil [OF inv c] mem_inv_pool_Nil [OF inv1 c] e by simp_all
  then have run: "kalloc_class (int c) s = Some (p, s')"
    using c s1 p(1) carve
    by (simp add: kalloc_class_def alloc_from_fresh_page_def page_entries_div Let_def debug_memset_def s'_def)
  have "chain ?w (((pools s1)(c := lst)) d) (?fs d)" if "d < 10" for d
    using that inv1 cut frame(2) by (simp add: mem_inv_def)
  then have pl: "\<forall>d<10. chain (words s') (pools s' d) (?fs d)" by (simp add: s'_def)
  have ct: "\<forall>d<10. stat_free s' d = length (?fs d)"
    using inv1 \<open>stat_free s1 c = 0\<close> n by (simp add: s'_def mem_inv_def)
  have al: "\<forall>d<10. \<forall>q\<in>set (?fs d). q mod class_size d = 0"
    using inv1 cuts_aligned [OF c p(2)] by (simp add: mem_inv_def)
  have nz: "\<forall>b\<in>#all_blocks ps ?fs ((p, class_size c) # live). 0 < fst b \<and> 0 < snd b"
    using inv1 p(1) unfolding B' by (auto simp: mem_inv_def B cuts_def)
  have pg: "chain (words s') (pmm_free_list s') ps" "pmm_free_count s' = length ps"
    "\<forall>q\<in>set ps. page_aligned q"
    using inv1 frame(1) by (simp_all add: s'_def mem_inv_def)
  have "mem_inv s' ps ?fs ((p, class_size c) # live)"
    unfolding mem_inv_def by (intro conjI pl ct al nz pg sep')
  with run p(1) pc show ?thesis by (intro exI [of _ s'] conjI)
qed

section \<open>Boot: adding pages\<close>

definition tail_ok :: "mem_state \<Rightarrow> nat list \<Rightarrow> bool" where
  "tail_ok s ps \<longleftrightarrow> pmm_tail s = (if ps = [] then FreeListHead else NextOf (last ps))"

definition boot_state :: "(nat \<Rightarrow> nat) \<Rightarrow> mem_state" where
  "boot_state w = \<lparr>words = w, pmm_free_list = 0, pmm_tail = FreeListHead, pmm_free_count = 0,
     pmm_total_count = 0, pools = (\<lambda>_. 0), stat_free = (\<lambda>_. 0), stat_total = (\<lambda>_. 0)\<rparr>"

lemma mem_inv_boot: "mem_inv (boot_state w) [] (\<lambda>_. []) []"
  by (simp add: mem_inv_def boot_state_def all_blocks_def page_blocks_def pool_blocks_def)

text \<open>While pages are being added the last link is still unset; \<open>lchain\<close> is the list up to there.\<close>

fun lchain :: "(nat \<Rightarrow> nat) \<Rightarrow> nat \<Rightarrow> nat list \<Rightarrow> bool" where
  "lchain w p [] \<longleftrightarrow> True"
| "lchain w p (x # xs) \<longleftrightarrow> p = x \<and> x \<noteq> 0 \<and> (xs \<noteq> [] \<longrightarrow> lchain w (w x) xs)"

lemma lchain_snoc:
  "lchain w p xs \<Longrightarrow> xs \<noteq> [] \<Longrightarrow> v \<noteq> 0 \<Longrightarrow> distinct xs \<Longrightarrow>
   lchain (w(last xs := v)) p (xs @ [v])"
proof (induction xs arbitrary: p)
  case (Cons x xs)
  then show ?case by (cases xs) auto
qed simp

lemma lchain_close:
  "lchain w p xs \<Longrightarrow> xs \<noteq> [] \<Longrightarrow> distinct xs \<Longrightarrow> chain (w(last xs := 0)) p xs"
proof (induction xs arbitrary: p)
  case (Cons x xs)
  then show ?case by (cases xs) auto
qed simp

lemma chain_lchain: "chain w p xs \<Longrightarrow> lchain w p xs"
  by (induction xs arbitrary: p) auto

definition new_pages :: "nat \<Rightarrow> nat \<Rightarrow> nat list" where
  "new_pages v k = map (\<lambda>i. v + i * PAGE_SIZE) [0..<k]"

lemma new_pages_Suc: "new_pages v (Suc k) = v # new_pages (v + PAGE_SIZE) k"
  by (simp add: new_pages_def upt_conv_Cons map_Suc_upt [symmetric] del: upt_Suc)

lemma add_pages_loop_chain:
  assumes "tail_ok s ps" and "lchain (words s) (pmm_free_list s) ps" and "distinct (ps @ new_pages (unat v) k)"
    and "0 < v" and "unat v + k * PAGE_SIZE \<le> 2 ^ 64"
  shows "let s' = add_pages_loop v k s; ps' = ps @ new_pages (unat v) k in
    tail_ok s' ps' \<and> lchain (words s') (pmm_free_list s') ps' \<and>
    (\<forall>a. a \<notin> set ps' \<longrightarrow> words s' a = words s a) \<and> pools s' = pools s \<and> stat_free s' = stat_free s \<and>
    pmm_free_count s' = pmm_free_count s \<and> (ps' = [] \<longrightarrow> pmm_free_list s' = pmm_free_list s)"
  using assms
proof (induction k arbitrary: v s ps)
  case 0
  then show ?case by (simp add: new_pages_def)
next
  case (Suc k)
  let ?v = "unat v" let ?s1 = "(store_tail ?v s)\<lparr>pmm_tail := NextOf ?v\<rparr>"
  have d: "distinct ps" "?v \<notin> set ps" using Suc.prems(3) by (auto simp: new_pages_Suc)
  have pos: "0 < ?v" using Suc.prems(4) by (simp add: word_gt_0 unat_gt_0)
  have t1: "tail_ok ?s1 (ps @ [?v])" by (simp add: tail_ok_def)
  have c1: "lchain (words ?s1) (pmm_free_list ?s1) (ps @ [?v])"
  proof (cases "ps = []")
    case True
    then show ?thesis using Suc.prems pos by (simp add: tail_ok_def store_tail_def)
  next
    case False
    with Suc.prems d pos show ?thesis by (simp add: tail_ok_def store_tail_def lchain_snoc)
  qed
  have w1: "words ?s1 a = words s a" if "a \<notin> set ps" for a
    using that Suc.prems(1) by (auto simp: tail_ok_def store_tail_def)
  have r1: "pools ?s1 = pools s \<and> stat_free ?s1 = stat_free s \<and> pmm_free_count ?s1 = pmm_free_count s"
    by (auto simp: store_tail_def split: tail_ptr.splits)
  show ?case
  proof (cases k)
    case 0
    then show ?thesis using t1 c1 w1 r1 by (auto simp: new_pages_def Let_def)
  next
    case (Suc j)
    have le: "?v + PAGE_SIZE + k * PAGE_SIZE \<le> 2 ^ 64" using Suc.prems(5) by simp
    then have u: "unat (v + word_of_nat PAGE_SIZE) = ?v + PAGE_SIZE"
      using Suc by (simp add: unat_plus_if' unat_of_nat PAGE_SIZE_def)
    then have "0 < v + word_of_nat PAGE_SIZE" by (simp add: word_gt_0 unat_eq_0 [symmetric] PAGE_SIZE_def)
    then show ?thesis
      using Suc.IH [of ?s1 "ps @ [?v]" "v + word_of_nat PAGE_SIZE"] Suc.prems(3) le u t1 c1 w1 r1
      by (auto simp: new_pages_Suc Let_def)
  qed
qed

lemma new_pages_msep: "msep (page_blocks (new_pages v k))"
proof (induction k)
  case (Suc k)
  have "disj (v + k * PAGE_SIZE, PAGE_SIZE) (v + i * PAGE_SIZE, PAGE_SIZE)" if "i < k" for i
    using that mult_le_mono1 [of "Suc i" k PAGE_SIZE] by (auto simp: disj_def)
  with Suc show ?case by (auto simp: page_blocks_def new_pages_def)
qed (simp add: page_blocks_def new_pages_def)

lemma total_store_tail [simp]: "pmm_total_count (store_tail v s) = pmm_total_count s"
  by (simp add: store_tail_def split: tail_ptr.split)

lemma total_add_pages_loop [simp]: "pmm_total_count (add_pages_loop v k s) = pmm_total_count s"
  by (induction v k s rule: add_pages_loop.induct) simp_all

lemma length_new_pages [simp]: "length (new_pages v k) = k"
  by (simp add: new_pages_def)

lemma add_size_small: "n + unat d < 2 ^ 64 \<Longrightarrow> add_size n d = n + unat d"
  by (simp add: add_size_def unat_plus_if' unat_of_nat)

lemma pages_of_length:
  assumes "unat (len :: u64) < 2 ^ 63"
  shows "unat (word_of_int (sint len sdiv int PAGE_SIZE) :: u64) = unat len div PAGE_SIZE" "nat (sint len) = unat len"
proof -
  have s: "sint len = int (unat len)" using assms by (rule sint_small)
  then show "nat (sint len) = unat len" by simp
  have "sint len sdiv int PAGE_SIZE = int (unat len div PAGE_SIZE)"
    unfolding s by (cases "unat len = 0") (simp_all add: signed_divide_int_def zdiv_int PAGE_SIZE_def sgn_if)
  moreover have "unat len div PAGE_SIZE < 2 ^ 64" using assms by (simp add: PAGE_SIZE_def)
  ultimately show "unat (word_of_int (sint len sdiv int PAGE_SIZE) :: u64) = unat len div PAGE_SIZE" by (simp add: unat_of_nat)
qed

text \<open>A region whose addresses in the direct map are below the end of the address space is added as it is.\<close>

lemma pmm_add_pages_inv:
  assumes inv: "mem_inv s ps fs live" and tl: "tail_ok s ps"
    and al: "page_aligned (unat start)" "page_aligned (unat len)" "page_aligned (unat hhdm)" and pos: "0 < hhdm"
    and nowrap: "unat start + unat hhdm + unat len < 2 ^ 64" "unat len < 2 ^ 63"
    and counts: "pmm_total_count s + unat len div PAGE_SIZE < 2 ^ 64" "length ps + unat len div PAGE_SIZE < 2 ^ 64"
    and fresh: "\<forall>b\<in>#all_blocks ps fs live. disj (unat start + unat hhdm, unat len) b"
  shows "\<exists>s'. pmm_add_pages hhdm start len s = Some s' \<and>
    mem_inv s' (ps @ new_pages (unat start + unat hhdm) (unat len div PAGE_SIZE)) fs live \<and>
    tail_ok s' (ps @ new_pages (unat start + unat hhdm) (unat len div PAGE_SIZE)) \<and>
    pmm_total_count s' = pmm_total_count s + unat len div PAGE_SIZE"
proof -
  let ?v = "unat start + unat hhdm" and ?k = "unat len div PAGE_SIZE"
  let ?new = "new_pages ?v ?k" let ?ps = "ps @ ?new"
  have len: "?k * PAGE_SIZE = unat len" using al(2) by (auto simp: page_aligned_def PAGE_SIZE_def)
  have v: "unat (start + hhdm) = ?v" using nowrap by (simp add: unat_plus_if')
  have pos': "0 < ?v" using pos by (simp add: word_gt_0 unat_gt_0)
  have P: "0 < PAGE_SIZE" by (simp add: PAGE_SIZE_def)
  have new: "inside (x, PAGE_SIZE) (?v, unat len)" if x: "x \<in> set ?new" for x
  proof -
    obtain i where i: "x = ?v + i * PAGE_SIZE" "i < ?k" using x by (auto simp: new_pages_def PAGE_SIZE_def)
    then have "Suc i * PAGE_SIZE \<le> unat len" using len by (metis Suc_leI mult_le_mono1)
    with i show ?thesis by (simp add: inside_def)
  qed
  have blocks: "all_blocks ?ps fs live = page_blocks ?new + all_blocks ps fs live"
    by (simp add: all_blocks_def page_blocks_def)
  have sep: "msep (all_blocks ?ps fs live)"
    unfolding blocks msep_union using inv new new_pages_msep fresh
    by (auto simp: mem_inv_def page_blocks_def intro: disj_inside)
  have in_ps: "(x, PAGE_SIZE) \<in># all_blocks ?ps fs live" if "x \<in> set ?ps" for x
    using that by (auto simp: all_blocks_def page_blocks_def)
  have dist: "distinct ?ps"
  proof -
    have "distinct xs" if "msep (page_blocks xs)" for xs
      using that P by (induction xs) (auto simp: page_blocks_def disj_def)
    moreover have "msep (page_blocks ?ps)" using sep by (simp add: all_blocks_def msep_union)
    ultimately show ?thesis by blast
  qed
  have ch: "lchain (words s) (pmm_free_list s) ps" using inv by (simp add: mem_inv_def chain_lchain)
  define s1 where "s1 = add_pages_loop (start + hhdm) ?k s"
  have "0 < start + hhdm" using pos' v by (metis unat_gt_0 word_gt_0)
  moreover have "unat (start + hhdm) + ?k * PAGE_SIZE \<le> 2 ^ 64" using nowrap len v by simp
  moreover have "distinct (ps @ new_pages (unat (start + hhdm)) ?k)" using dist v by simp
  ultimately have "let s' = s1; ps' = ?ps in
    tail_ok s' ps' \<and> lchain (words s') (pmm_free_list s') ps' \<and>
    (\<forall>a. a \<notin> set ps' \<longrightarrow> words s' a = words s a) \<and> pools s' = pools s \<and> stat_free s' = stat_free s \<and>
    pmm_free_count s' = pmm_free_count s \<and> (ps' = [] \<longrightarrow> pmm_free_list s' = pmm_free_list s)"
    using add_pages_loop_chain [OF tl ch, of "start + hhdm" ?k] v by (simp add: s1_def)
  then
  have s1: "tail_ok s1 ?ps" "lchain (words s1) (pmm_free_list s1) ?ps"
    "\<And>a. a \<notin> set ?ps \<Longrightarrow> words s1 a = words s a"
    "pools s1 = pools s" "stat_free s1 = stat_free s" "pmm_free_count s1 = pmm_free_count s"
    "?ps = [] \<Longrightarrow> pmm_free_list s1 = pmm_free_list s"
    unfolding Let_def by blast+
  define s2 where "s2 = store_tail 0 s1"
  have c2: "chain (words s2) (pmm_free_list s2) ?ps"
  proof (cases "?ps = []")
    case True
    then show ?thesis using s1(1) by (simp add: s2_def store_tail_def tail_ok_def)
  next
    case False
    with s1(1,2) dist lchain_close [of "words s1" "pmm_free_list s1" ?ps] show ?thesis
      by (simp add: s2_def store_tail_def tail_ok_def del: last_append)
  qed
  have w2: "words s2 a = words s a" if "a \<notin> set ?ps" for a
  proof -
    have "?ps \<noteq> [] \<Longrightarrow> a \<noteq> last ?ps" using that last_in_set [of ?ps] by metis
    then show ?thesis using s1(1) s1(3) [OF that] by (auto simp: s2_def store_tail_def tail_ok_def simp del: last_append)
  qed
  have f2: "chain (words s2) q (fs c) = chain (words s) q (fs c)" if "c < 10" for q c
  proof (rule chain_cong, rule w2)
    fix x assume x: "x \<in> set (fs c)"
    then have "disj (y, PAGE_SIZE) (x, class_size c)" if "y \<in> set ?ps" for y
      using that sep pool_blocks_mem [of c x fs, OF \<open>c < 10\<close> x] in_ps
      by (auto simp: all_blocks_def msep_union page_blocks_def)
    then show "x \<notin> set ?ps" using P class_size_pos [of c] by (fastforce simp: disj_def)
  qed
  have rest: "pools s2 = pools s" "stat_free s2 = stat_free s" "pmm_free_count s2 = pmm_free_count s"
    "pmm_tail s2 = pmm_tail s1"
    using s1 by (auto simp: s2_def store_tail_def split: tail_ptr.splits)
  have tot: "pmm_total_count s2 = pmm_total_count s"
    by (simp add: s2_def s1_def total_store_tail total_add_pages_loop)
  define s' where "s' = s2\<lparr>pmm_total_count := pmm_total_count s2 + ?k, pmm_free_count := pmm_free_count s2 + ?k\<rparr>"
  have run: "pmm_add_pages hhdm start len s = Some s'"
    using al counts inv rest(3) tot pages_of_length [OF nowrap(2)]
    by (simp add: pmm_add_pages_def s'_def s2_def s1_def Let_def add_size_small mem_inv_def)
  have pg: "page_aligned x" if "x \<in> set ?new" for x
    using that al by (auto simp: new_pages_def page_aligned_def mod_add_eq [symmetric])
  have c': "chain (words s') (pmm_free_list s') ?ps" using c2 by (simp add: s'_def)
  have f': "\<forall>c<10. chain (words s') (pools s' c) (fs c)"
    using inv rest f2 by (simp add: s'_def mem_inv_def)
  have n': "pmm_free_count s' = length ?ps" "\<forall>c<10. stat_free s' c = length (fs c)"
    using inv rest by (simp_all add: s'_def mem_inv_def new_pages_def)
  have a': "\<forall>q\<in>set ?ps. page_aligned q" "\<forall>c<10. \<forall>q\<in>set (fs c). q mod class_size c = 0"
    using inv pg by (auto simp: mem_inv_def)
  have p': "\<forall>b\<in>#all_blocks ?ps fs live. 0 < fst b \<and> 0 < snd b"
    using inv P pos' unfolding blocks by (auto simp: mem_inv_def page_blocks_def new_pages_def)
  have "mem_inv s' ?ps fs live"
    unfolding mem_inv_def by (intro conjI c' f' n' a' p' sep)
  moreover have "tail_ok s' ?ps" using s1(1) rest(4) by (simp add: s'_def tail_ok_def)
  moreover have "pmm_total_count s' = pmm_total_count s + ?k" using tot by (simp add: s'_def)
  ultimately show ?thesis using run by (intro exI [of _ s'] conjI)
qed

section \<open>Any sequence of calls\<close>

text \<open>
  \<open>heap_step\<close> runs one call and keeps the ghost list of live blocks. A caller frees only what it
  holds: a free of a block that is not live is not made.
\<close>

datatype heap_op = Op_kalloc nat | Op_kfree nat nat | Op_alloc_page | Op_free_page nat

definition alloc_block :: "nat \<Rightarrow> nat \<Rightarrow> block" where
  "alloc_block p n = (p, class_size (nat (alloc_calc_size_class n)))"

fun heap_step :: "heap_op \<Rightarrow> mem_state \<times> block list \<Rightarrow> (mem_state \<times> block list) option" where
  "heap_step (Op_kalloc n) (s, live) = do {
     (p, s) \<leftarrow> kalloc n s;
     Some (s, if p = 0 then live else alloc_block p n # live)
   }"
| "heap_step (Op_kfree p n) (s, live) =
     (if alloc_block p n \<in> set live
      then do { s \<leftarrow> kfree p n s; Some (s, remove1 (alloc_block p n) live) }
      else Some (s, live))"
| "heap_step Op_alloc_page (s, live) = do {
     (p, s) \<leftarrow> alloc_page s;
     Some (s, if p = 0 then live else (p, PAGE_SIZE) # live)
   }"
| "heap_step (Op_free_page p) (s, live) =
     (if (p, PAGE_SIZE) \<in> set live
      then do { s \<leftarrow> free_page p s; Some (s, remove1 (p, PAGE_SIZE) live) }
      else Some (s, live))"

fun heap_run :: "heap_op list \<Rightarrow> mem_state \<times> block list \<Rightarrow> (mem_state \<times> block list) option" where
  "heap_run [] st = Some st"
| "heap_run (x # xs) st = Option.bind (heap_step x st) (heap_run xs)"

fun op_fits :: "heap_op \<Rightarrow> bool" where
  "op_fits (Op_kalloc n) \<longleftrightarrow> n \<le> ALLOC_MAX"
| "op_fits (Op_kfree p n) \<longleftrightarrow> n \<le> ALLOC_MAX"
| "op_fits _ \<longleftrightarrow> True"

definition live_ok :: "block list \<Rightarrow> bool" where
  "live_ok live \<longleftrightarrow> (\<forall>b\<in>set live. \<exists>c<10. snd b = class_size c \<and> fst b mod snd b = 0)"

definition heap_ok :: "mem_state \<Rightarrow> block list \<Rightarrow> bool" where
  "heap_ok s live \<longleftrightarrow> (\<exists>ps fs. mem_inv s ps fs live \<and>
     (\<forall>b\<in>#all_blocks ps fs live. kernel_pointer (fst b))) \<and> live_ok live"

lemma class_size_9: "class_size 9 = PAGE_SIZE"
  by (simp add: class_size_def PAGE_SIZE_def)

lemma live_ok_page: "page_aligned p \<Longrightarrow> live_ok live \<Longrightarrow> live_ok ((p, PAGE_SIZE) # live)"
  using class_size_9 by (auto simp: live_ok_def page_aligned_def intro: exI [of _ 9])

lemma live_ok_remove1: "live_ok live \<Longrightarrow> live_ok (remove1 b live)"
  using set_remove1_subset [of b live] by (auto simp: live_ok_def)

lemma heap_ok_msep: "heap_ok s live \<Longrightarrow> msep (mset live)"
  by (auto simp: heap_ok_def mem_inv_def all_blocks_def msep_union)

lemma kalloc_class_inv:
  assumes inv: "mem_inv s ps fs live" and c: "c < 10"
    and kp: "\<forall>b\<in>#all_blocks ps fs live. kernel_pointer (fst b)"
  shows "\<exists>p s'. kalloc_class (int c) s = Some (p, s') \<and>
    (if p = 0 then s' = s \<and> ps = [] \<and> fs c = []
     else p mod class_size c = 0 \<and> (\<exists>ps' fs'. mem_inv s' ps' fs' ((p, class_size c) # live) \<and>
       (\<forall>b\<in>#all_blocks ps' fs' ((p, class_size c) # live). kernel_pointer (fst b))))"
proof (cases "fs c")
  case (Cons p xs)
  then have fs: "fs(c := p # xs) = fs" by (simp add: fun_upd_idem)
  from kalloc_class_hit [of s ps fs c p xs live, unfolded fs, OF inv c] obtain s' where
    s': "kalloc_class (int c) s = Some (p, s')" "p \<noteq> 0" "p mod class_size c = 0"
    "mem_inv s' ps (fs(c := xs)) ((p, class_size c) # live)" by (elim exE conjE)
  have "all_blocks ps (fs(c := p # xs)) live = all_blocks ps (fs(c := xs)) ((p, class_size c) # live)"
    by (simp add: all_blocks_def pool_blocks_Cons c)
  with kp have "\<forall>b\<in>#all_blocks ps (fs(c := xs)) ((p, class_size c) # live). kernel_pointer (fst b)"
    unfolding fs by simp
  with s'(4) have "\<exists>ps' fs'. mem_inv s' ps' fs' ((p, class_size c) # live) \<and>
      (\<forall>b\<in>#all_blocks ps' fs' ((p, class_size c) # live). kernel_pointer (fst b))"
    by (intro exI [of _ ps] exI [of _ "fs(c := xs)"] conjI)
  with s'(1-3) show ?thesis by (intro exI [of _ p] exI [of _ s']) simp
next
  case Nil
  show ?thesis
  proof (cases ps)
    case Nil
    then show ?thesis using kalloc_class_empty [of s fs live c] inv c \<open>fs c = []\<close> by auto
  next
    case (Cons p qs)
    have eq: "all_blocks qs (fs(c := cuts p c 1)) ((p, class_size c) # live) =
        mset (map (\<lambda>x. (x, class_size c)) (cuts p c 0)) + all_blocks qs fs live"
      using pool_blocks_upd [OF c, of fs "cuts p c 1"] Nil
      by (simp add: all_blocks_def cuts_def upt_conv_Cons)
    have kpc: "kernel_pointer x" if "x \<in> set (cuts p c 0)" for x
      using that kp Cons by (auto simp: cuts_def all_blocks_def page_blocks_def kernel_pointer_def)
    have "\<forall>b\<in>#all_blocks qs (fs(c := cuts p c 1)) ((p, class_size c) # live). kernel_pointer (fst b)"
      unfolding eq using kpc kp Cons by (auto simp: all_blocks_def page_blocks_def)
    moreover from kalloc_class_fresh [of s p qs fs live c, OF inv [unfolded Cons] c Nil] obtain s' where
      s': "kalloc_class (int c) s = Some (p, s')" "p \<noteq> 0" "p mod class_size c = 0"
      "mem_inv s' qs (fs(c := cuts p c 1)) ((p, class_size c) # live)" by (elim exE conjE)
    ultimately have "\<exists>ps' fs'. mem_inv s' ps' fs' ((p, class_size c) # live) \<and>
      (\<forall>b\<in>#all_blocks ps' fs' ((p, class_size c) # live). kernel_pointer (fst b))"
      by (intro exI [of _ qs] exI [of _ "fs(c := cuts p c 1)"] conjI)
    with s'(1-3) show ?thesis by (intro exI [of _ p] exI [of _ s']) simp
  qed
qed

lemma heap_okE:
  assumes "heap_ok s live"
  obtains ps fs where "mem_inv s ps fs live" "\<forall>b\<in>#all_blocks ps fs live. kernel_pointer (fst b)" "live_ok live"
  using assms by (auto simp: heap_ok_def)

lemma heap_okI:
  "mem_inv s ps fs live \<Longrightarrow> \<forall>b\<in>#all_blocks ps fs live. kernel_pointer (fst b) \<Longrightarrow> live_ok live \<Longrightarrow> heap_ok s live"
  unfolding heap_ok_def by blast

lemma live_ok_block:
  "c < 10 \<Longrightarrow> p mod class_size c = 0 \<Longrightarrow> live_ok live \<Longrightarrow> live_ok ((p, class_size c) # live)"
  by (auto simp: live_ok_def)

lemma class_size_inj: "class_size a = class_size b \<Longrightarrow> a = b"
  by (simp add: class_size_def)

lemma live_ok_mem: "live_ok live \<Longrightarrow> (p, class_size c) \<in> set live \<Longrightarrow> p mod class_size c = 0"
  by (auto simp: live_ok_def)

lemma all_blocks_free_page:
  assumes "(p, PAGE_SIZE) \<in> set live"
  shows "all_blocks (p # ps) fs (remove1 (p, PAGE_SIZE) live) = all_blocks ps fs live"
proof -
  have "mset live = add_mset (p, PAGE_SIZE) (mset (remove1 (p, PAGE_SIZE) live))" using assms by simp
  then show ?thesis by (simp add: all_blocks_def page_blocks_def)
qed

lemma all_blocks_kfree:
  assumes "(p, class_size c) \<in> set live" "c < 10"
  shows "all_blocks ps (fs(c := p # fs c)) (remove1 (p, class_size c) live) = all_blocks ps fs live"
proof -
  have "mset live = add_mset (p, class_size c) (mset (remove1 (p, class_size c) live))" using assms by simp
  then show ?thesis using assms(2) by (simp add: all_blocks_def pool_blocks_Cons)
qed

text \<open>Allocation and release on a heap that is in order.\<close>

lemma heap_kalloc:
  assumes ok: "heap_ok s live" and c: "c < 10"
  shows "\<exists>p s'. kalloc_class (int c) s = Some (p, s') \<and> heap_ok s' (if p = 0 then live else (p, class_size c) # live)"
proof -
  from ok obtain ps fs where inv: "mem_inv s ps fs live"
    and kp: "\<forall>b\<in>#all_blocks ps fs live. kernel_pointer (fst b)" and lo: "live_ok live"
    by (rule heap_okE)
  from kalloc_class_inv [OF inv c kp] obtain p s' where
    run: "kalloc_class (int c) s = Some (p, s')"
    and res: "if p = 0 then s' = s \<and> ps = [] \<and> fs c = []
      else p mod class_size c = 0 \<and> (\<exists>ps' fs'. mem_inv s' ps' fs' ((p, class_size c) # live) \<and>
        (\<forall>b\<in>#all_blocks ps' fs' ((p, class_size c) # live). kernel_pointer (fst b)))"
    by (elim exE conjE)
  show ?thesis
  proof (cases "p = 0")
    case True
    then show ?thesis using run res ok by auto
  next
    case False
    with res obtain ps' fs' where "mem_inv s' ps' fs' ((p, class_size c) # live)"
      "\<forall>b\<in>#all_blocks ps' fs' ((p, class_size c) # live). kernel_pointer (fst b)" "p mod class_size c = 0" by auto
    with live_ok_block [OF c _ lo] False run show ?thesis by (auto intro: heap_okI)
  qed
qed

lemma heap_kfree:
  assumes ok: "heap_ok s live" and mem: "(p, class_size c) \<in> set live" and c: "c < 10"
  shows "\<exists>s'. kfree_class p (int c) s = Some s' \<and> heap_ok s' (remove1 (p, class_size c) live)"
proof -
  from ok obtain ps fs where inv: "mem_inv s ps fs live"
    and kp: "\<forall>b\<in>#all_blocks ps fs live. kernel_pointer (fst b)" and lo: "live_ok live"
    by (rule heap_okE)
  from kfree_class_inv [OF inv mem c live_ok_mem [OF lo mem]] obtain s' where
    s': "kfree_class p (int c) s = Some s'"
    "mem_inv s' ps (fs(c := p # fs c)) (remove1 (p, class_size c) live)" by (elim exE conjE)
  then show ?thesis using kp lo all_blocks_kfree [OF mem c] by (metis heap_okI live_ok_remove1)
qed

lemma heap_step_ok:
  assumes ok: "heap_ok s live" and fits: "op_fits x"
  shows "\<exists>s' live'. heap_step x (s, live) = Some (s', live') \<and> heap_ok s' live'"
proof -
  from ok obtain ps fs where inv: "mem_inv s ps fs live"
    and kp: "\<forall>b\<in>#all_blocks ps fs live. kernel_pointer (fst b)" and lo: "live_ok live"
    by (rule heap_okE)
  show ?thesis
  proof (cases x)
    case (Op_kalloc n)
    define c where "c = nat (alloc_calc_size_class n)"
    have c: "c < 10" "alloc_calc_size_class n = int c"
      using size_class_range [of n] fits Op_kalloc by (auto simp: c_def)
    from heap_kalloc [OF ok c(1)] show ?thesis using Op_kalloc c by (auto simp: kalloc_def alloc_block_def)
  next
    case (Op_kfree p n)
    define c where "c = nat (alloc_calc_size_class n)"
    have c: "c < 10" "alloc_calc_size_class n = int c"
      using size_class_range [of n] fits Op_kfree by (auto simp: c_def)
    show ?thesis
    proof (cases "(p, class_size c) \<in> set live")
      case True
      from heap_kfree [OF ok True c(1)] show ?thesis using True Op_kfree c by (auto simp: kfree_def alloc_block_def)
    next
      case False
      then show ?thesis using Op_kfree c ok by (simp add: alloc_block_def)
    qed
  next
    case Op_alloc_page
    show ?thesis
    proof (cases ps)
      case Nil
      then show ?thesis using alloc_page_none [of s fs live] inv ok Op_alloc_page by simp
    next
      case (Cons p qs)
      from alloc_page_some [of s p qs fs live] inv Cons obtain s' where
        s': "alloc_page s = Some (p, s')" "mem_inv s' qs fs ((p, PAGE_SIZE) # live)" "p \<noteq> 0" "page_aligned p"
        by auto
      have "all_blocks ps fs live = all_blocks qs fs ((p, PAGE_SIZE) # live)"
        using Cons by (simp add: all_blocks_def page_blocks_def)
      with s' kp lo show ?thesis using Op_alloc_page by (auto intro!: heap_okI live_ok_page)
    qed
  next
    case (Op_free_page p)
    show ?thesis
    proof (cases "(p, PAGE_SIZE) \<in> set live")
      case True
      have "page_aligned p" using live_ok_mem [OF lo, of p 9] True by (simp add: class_size_9 page_aligned_def)
      moreover have "kernel_pointer p" using kp True by (force simp: all_blocks_def)
      ultimately obtain s' where
        s': "free_page p s = Some s'" "mem_inv s' (p # ps) fs (remove1 (p, PAGE_SIZE) live)"
        using free_page_inv [OF inv True] by auto
      then have "heap_ok s' (remove1 (p, PAGE_SIZE) live)"
        using kp lo all_blocks_free_page [OF True] by (metis heap_okI live_ok_remove1)
      with s'(1) True show ?thesis using Op_free_page by simp
    next
      case False
      then show ?thesis using Op_free_page ok by simp
    qed
  qed
qed

lemma heap_run_ok:
  "heap_ok s live \<Longrightarrow> \<forall>x\<in>set xs. op_fits x \<Longrightarrow>
   \<exists>s' live'. heap_run xs (s, live) = Some (s', live') \<and> heap_ok s' live'"
proof (induction xs arbitrary: s live)
  case (Cons x xs)
  from heap_step_ok [of s live x] Cons.prems obtain s1 live1 where
    s1: "heap_step x (s, live) = Some (s1, live1)" "heap_ok s1 live1" by auto
  with Cons.IH [OF s1(2)] Cons.prems(2) show ?case by auto
qed simp

lemma heap_ok_boot:
  assumes "page_aligned (unat start)" "page_aligned (unat len)" "page_aligned (unat hhdm)" "MEM_HIGH_HALF_MIN \<le> unat hhdm"
    and "unat start + unat hhdm + unat len < 2 ^ 64"
  shows "\<exists>s. pmm_add_pages hhdm start len (boot_state w) = Some s \<and> heap_ok s []"
proof -
  let ?v = "unat start + unat hhdm" and ?k = "unat len div PAGE_SIZE"
  have len: "unat len < 2 ^ 63" "unat len div PAGE_SIZE < 2 ^ 64" and h: "0 < hhdm"
    using assms(4,5) by (auto simp: MEM_HIGH_HALF_MIN_def PAGE_SIZE_def word_gt_0)
  have c: "pmm_total_count (boot_state w) + ?k < 2 ^ 64" "length ([] :: nat list) + ?k < 2 ^ 64" using len by (simp_all add: boot_state_def)
  have "\<exists>s. pmm_add_pages hhdm start len (boot_state w) = Some s \<and> mem_inv s ([] @ new_pages ?v ?k) (\<lambda>_. []) [] \<and>
      tail_ok s ([] @ new_pages ?v ?k) \<and> pmm_total_count s = pmm_total_count (boot_state w) + ?k"
    by (rule pmm_add_pages_inv [OF mem_inv_boot _ assms(1-3) h assms(5) len(1) c])
      (simp_all add: tail_ok_def boot_state_def all_blocks_def page_blocks_def pool_blocks_def)
  then obtain s where
    s: "pmm_add_pages hhdm start len (boot_state w) = Some s" "mem_inv s (new_pages ?v ?k) (\<lambda>_. []) []" by auto
  have "\<forall>b\<in>#all_blocks (new_pages ?v ?k) (\<lambda>_. []) []. kernel_pointer (fst b)"
    using assms(4) by (auto simp: all_blocks_def page_blocks_def pool_blocks_def new_pages_def kernel_pointer_def)
  with s show ?thesis by (auto intro: heap_okI simp: live_ok_def)
qed

section \<open>Properties\<close>

text \<open>C7. The kernel heap and the page allocator are memory safe: from the boot state with one usable
  region, page aligned and below the end of the address space when mapped in the upper half, any sequence of \<open>kalloc\<close>, \<open>kfree\<close>, \<open>alloc_page\<close> and \<open>free_page\<close> calls in which no request is larger
  than a page (\<open>ALLOC_MAX\<close>, 4096 bytes: \<open>kalloc\<close> asserts it) and callers free only blocks they hold runs without a
  failed assertion, and the blocks held at the end are pairwise disjoint, each of a size class and aligned to its
  size. No block is handed out twice.\<close>

theorem heap_sequence_safe:
  assumes "page_aligned (unat start)" "page_aligned (unat len)" "page_aligned (unat hhdm)" "MEM_HIGH_HALF_MIN \<le> unat hhdm"
    and "unat start + unat hhdm + unat len < 2 ^ 64" and "\<forall>x\<in>set ops. op_fits x"
  shows "\<exists>s0 s live. pmm_add_pages hhdm start len (boot_state w) = Some s0 \<and>
    heap_run ops (s0, []) = Some (s, live) \<and> msep (mset live) \<and> live_ok live"
proof -
  from heap_ok_boot [OF assms(1-5)] obtain s0 where
    s0: "pmm_add_pages hhdm start len (boot_state w) = Some s0" "heap_ok s0 []" by blast
  with heap_run_ok [OF s0(2) assms(6)] show ?thesis
    by (auto simp: heap_ok_def dest: heap_ok_msep)
       (metis heap_ok_def heap_ok_msep)
qed

theorem heap_sequence_safe_witness:
  "\<exists>s0 s live. pmm_add_pages 0xffff800000000000 0x1000 0x3000 (boot_state (\<lambda>_. 0)) = Some s0 \<and>
    heap_run [Op_kalloc 24, Op_alloc_page, Op_kalloc 4096, Op_kalloc 24, Op_kfree 0xffff800000001000 24] (s0, []) =
      Some (s, live) \<and> msep (mset live) \<and> live_ok live"
  by (rule heap_sequence_safe)
    (simp_all add: page_aligned_def PAGE_SIZE_def MEM_HIGH_HALF_MIN_def ALLOC_MAX_def)

text \<open>Size classes fit tightly: for every request up to a page the class of \<open>alloc_calc_size_class\<close> is
  one of the ten pools, its blocks hold the request, and (above the smallest class) they are less than
  twice as large.\<close>

theorem size_class_fits:
  assumes "a \<le> ALLOC_MAX"
  shows "0 \<le> alloc_calc_size_class a \<and> alloc_calc_size_class a < 10 \<and>
    a \<le> class_size (nat (alloc_calc_size_class a)) \<and>
    (8 < a \<longrightarrow> class_size (nat (alloc_calc_size_class a)) < 2 * a)"
proof (cases "a \<le> 8")
  case True
  then show ?thesis by (simp add: size_class_small class_size_def)
next
  case False
  define c where "c = nat (alloc_calc_size_class a)"
  have "bit_len (a - 1) = c + 3" unfolding c_def using False assms by (intro size_class_value) auto
  then have "a - 1 < 2 ^ (c + 3)" "2 ^ (c + 3) \<le> 2 * (a - 1)"
    using bit_len_bounds [of "a - 1"] False by auto
  moreover have "class_size c = 2 ^ (c + 3)" by (simp add: class_size_def power_add)
  ultimately show ?thesis using size_class_range [OF assms] False unfolding c_def [symmetric] by linarith
qed

theorem size_class_fits_witness:
  "(0::int) \<le> alloc_calc_size_class 100 \<and> alloc_calc_size_class 100 < 10 \<and>
    100 \<le> class_size (nat (alloc_calc_size_class 100)) \<and> class_size (nat (alloc_calc_size_class 100)) < 200"
proof -
  have "100 \<le> ALLOC_MAX" by (simp add: ALLOC_MAX_def PAGE_SIZE_def)
  from size_class_fits [OF this] show ?thesis by simp
qed

end
