(* ===== verification/Descriptor.thy ===== *)
theory Descriptor
  imports Fluke_Prelude
begin

text \<open>
  Handles and descriptor tables: \<open>kernel/src/user/handle.cxx\<close>, \<open>handle.hxx\<close>, \<open>descriptor.cxx\<close> and
  \<open>descriptor.hxx\<close>.

  A handle is a kernel object with a reference count and a virtual \<open>close\<close>; the model keeps every
  handle's count and the list of handles whose \<open>close\<close> has run, in order. A descriptor is a handle
  pointer whose lowest bit is the close-on-exec flag (\<open>None\<close> is the null word). A table has eight
  direct descriptors and four optional blocks of sixteen. The allocation of a block can fail: its
  outcome is an argument (\<open>mem_ok\<close>, whether \<open>kalloc_class\<close> returned a block).
\<close>

section \<open>Handles\<close>

type_synonym hid = nat

record handles =
  ref_count :: "hid \<Rightarrow> int"
  closed_log :: "hid list"

definition handle_dup :: "hid \<Rightarrow> handles \<Rightarrow> handles" where
  "handle_dup h hs = hs\<lparr>ref_count := (ref_count hs)(h := ref_count hs h + 1)\<rparr>"

definition handle_release :: "hid \<Rightarrow> handles \<Rightarrow> handles option" where
  "handle_release h hs = do {
     kassert (0 < ref_count hs h);
     let n = ref_count hs h - 1;
     let hs = hs\<lparr>ref_count := (ref_count hs)(h := n)\<rparr>;
     Some (if n = 0 then hs\<lparr>closed_log := closed_log hs @ [h]\<rparr> else hs)
   }"

section \<open>Descriptors\<close>

text \<open>The tagged word: the handle and the close-on-exec bit.\<close>

type_synonym descriptor = "(hid \<times> bool) option"

definition desc_is_open :: "descriptor \<Rightarrow> bool" where
  "desc_is_open d \<longleftrightarrow> d \<noteq> None"

definition desc_is_cloexec :: "descriptor \<Rightarrow> bool" where
  "desc_is_cloexec d = (case d of None \<Rightarrow> False | Some (h, c) \<Rightarrow> c)"

definition desc_handle :: "descriptor \<Rightarrow> hid option" where
  "desc_handle d = map_option fst d"

definition desc_assign :: "hid \<Rightarrow> bool \<Rightarrow> descriptor \<Rightarrow> handles \<Rightarrow> (descriptor \<times> handles) option" where
  "desc_assign h cloexec d hs = do {
     kassert (\<not> desc_is_open d);
     kassert (0 \<le> ref_count hs h);
     Some (Some (h, cloexec), handle_dup h hs)
   }"

definition desc_close :: "descriptor \<Rightarrow> handles \<Rightarrow> (descriptor \<times> handles) option" where
  "desc_close d hs = (case d of
     None \<Rightarrow> None
   | Some (h, c) \<Rightarrow> do { hs \<leftarrow> handle_release h hs; Some (None, hs) })"

section \<open>The table\<close>

definition L0 :: nat where "L0 = 8"
definition L1 :: nat where "L1 = 4"
definition L1L0 :: nat where "L1L0 = 16"
definition DIRECT :: int where "DIRECT = int L0"
definition INDIRECT :: int where "INDIRECT = int (L1 * L1L0)"

record table =
  tab_l0 :: "descriptor list"
  tab_l1 :: "descriptor list option list"

definition empty_block :: "descriptor list" where
  "empty_block = replicate L1L0 None"

definition empty_table :: table where
  "empty_table = \<lparr>tab_l0 = replicate L0 None, tab_l1 = replicate L1 None\<rparr>"

text \<open>A pointer to a descriptor of the table, as the code returns it.\<close>

datatype slot = Slot0 nat | Slot1 nat nat

definition read_slot :: "table \<Rightarrow> slot \<Rightarrow> descriptor" where
  "read_slot t sl = (case sl of
     Slot0 i \<Rightarrow> tab_l0 t ! i
   | Slot1 b j \<Rightarrow> (case tab_l1 t ! b of None \<Rightarrow> None | Some bl \<Rightarrow> bl ! j))"

definition write_slot :: "slot \<Rightarrow> descriptor \<Rightarrow> table \<Rightarrow> table" where
  "write_slot sl d t = (case sl of
     Slot0 i \<Rightarrow> t\<lparr>tab_l0 := (tab_l0 t)[i := d]\<rparr>
   | Slot1 b j \<Rightarrow> (case tab_l1 t ! b of
       None \<Rightarrow> t
     | Some bl \<Rightarrow> t\<lparr>tab_l1 := (tab_l1 t)[b := Some (bl[j := d])]\<rparr>))"

text \<open>The scans of \<open>alloc\<close>: the first closed descriptor of an array, counting from \<open>n\<close>.\<close>

fun scan :: "descriptor list \<Rightarrow> nat \<Rightarrow> nat option" where
  "scan [] n = None"
| "scan (d # ds) n = (if desc_is_open d then scan ds (Suc n) else Some n)"

fun alloc_indirect :: "bool \<Rightarrow> descriptor list option list \<Rightarrow> nat \<Rightarrow> nat \<Rightarrow> table \<Rightarrow> (errno + slot \<times> int) \<times> table" where
  "alloc_indirect mem_ok [] b n t = (Inl EMFILE, t)"
| "alloc_indirect mem_ok (None # bls) b n t =
     (if mem_ok
      then (Inr (Slot1 b 0, int n), t\<lparr>tab_l1 := (tab_l1 t)[b := Some empty_block]\<rparr>)
      else (Inl ENOMEM, t))"
| "alloc_indirect mem_ok (Some bl # bls) b n t =
     (case scan bl 0 of
        Some j \<Rightarrow> (Inr (Slot1 b j, int (n + j)), t)
      | None \<Rightarrow> alloc_indirect mem_ok bls (Suc b) (n + length bl) t)"

definition table_alloc :: "bool \<Rightarrow> table \<Rightarrow> (errno + slot \<times> int) \<times> table" where
  "table_alloc mem_ok t =
     (case scan (tab_l0 t) 0 of
        Some i \<Rightarrow> (Inr (Slot0 i, int i), t)
      | None \<Rightarrow> alloc_indirect mem_ok (tab_l1 t) 0 (length (tab_l0 t)) t)"

definition close_if_open :: "slot \<Rightarrow> table \<Rightarrow> handles \<Rightarrow> (table \<times> handles) option" where
  "close_if_open sl t hs =
     (if desc_is_open (read_slot t sl)
      then do { (d, hs) \<leftarrow> desc_close (read_slot t sl) hs; Some (write_slot sl d t, hs) }
      else Some (t, hs))"

definition table_alloc_overwrite ::
    "bool \<Rightarrow> int \<Rightarrow> table \<Rightarrow> handles \<Rightarrow> ((errno + slot) \<times> table \<times> handles) option" where
  "table_alloc_overwrite mem_ok fd t hs =
     (if fd < 0 then Some (Inl EBADF, t, hs)
      else if fd < DIRECT then do {
        (t, hs) \<leftarrow> close_if_open (Slot0 (nat fd)) t hs;
        Some (Inr (Slot0 (nat fd)), t, hs)
      }
      else let fd = fd - DIRECT in
        if fd < INDIRECT then
          (let b = nat fd div L1L0; j = nat fd mod L1L0 in
           case tab_l1 t ! b of
             None \<Rightarrow>
               (if mem_ok
                then do {
                  let t = t\<lparr>tab_l1 := (tab_l1 t)[b := Some empty_block]\<rparr>;
                  (t, hs) \<leftarrow> close_if_open (Slot1 b j) t hs;
                  Some (Inr (Slot1 b j), t, hs)
                }
                else Some (Inl ENOMEM, t, hs))
           | Some bl \<Rightarrow> do {
               (t, hs) \<leftarrow> close_if_open (Slot1 b j) t hs;
               Some (Inr (Slot1 b j), t, hs)
             })
        else Some (Inl EBADF, t, hs))"

definition table_get :: "int \<Rightarrow> table \<Rightarrow> errno + slot" where
  "table_get fd t =
     (if fd < 0 then Inl EBADF
      else if fd < DIRECT then
        (if desc_is_open (tab_l0 t ! nat fd) then Inr (Slot0 (nat fd)) else Inl EBADF)
      else let fd = fd - DIRECT in
        if fd < INDIRECT then
          (let b = nat fd div L1L0; j = nat fd mod L1L0 in
           case tab_l1 t ! b of
             None \<Rightarrow> Inl EBADF
           | Some bl \<Rightarrow> (if desc_is_open (bl ! j) then Inr (Slot1 b j) else Inl EBADF))
        else Inl EBADF)"

definition table_close :: "int \<Rightarrow> table \<Rightarrow> handles \<Rightarrow> ((errno + unit) \<times> table \<times> handles) option" where
  "table_close fd t hs =
     (case table_get fd t of
        Inl e \<Rightarrow> Some (Inl e, t, hs)
      | Inr sl \<Rightarrow> do {
          (d, hs) \<leftarrow> desc_close (read_slot t sl) hs;
          Some (Inr (), write_slot sl d t, hs)
        })"

text \<open>The array clone: the target array must be closed everywhere.\<close>

fun clone_array :: "descriptor list \<Rightarrow> descriptor list \<Rightarrow> handles \<Rightarrow> (descriptor list \<times> handles) option" where
  "clone_array [] to hs = Some (to, hs)"
| "clone_array (d # ds) [] hs = None"
| "clone_array (d # ds) (e # es) hs = do {
     kassert (\<not> desc_is_open e);
     (e, hs) \<leftarrow> (case d of
        None \<Rightarrow> Some (e, hs)
      | Some (h, c) \<Rightarrow> desc_assign h c e hs);
     (es, hs) \<leftarrow> clone_array ds es hs;
     Some (e # es, hs)
   }"

text \<open>The block loop of \<open>clone\<close>; \<open>mem_oks\<close> are the outcomes of its allocations, in order.\<close>

fun clone_blocks :: "bool list \<Rightarrow> descriptor list option list \<Rightarrow> descriptor list option list \<Rightarrow> handles \<Rightarrow>
    ((errno + unit) \<times> descriptor list option list \<times> handles) option" where
  "clone_blocks ms [] to hs = Some (Inr (), to, hs)"
| "clone_blocks ms (b # bs) [] hs = None"
| "clone_blocks ms (b # bs) (e # es) hs = do {
     kassert (e = None);
     case b of
       None \<Rightarrow> do {
         (r, es, hs) \<leftarrow> clone_blocks ms bs es hs;
         Some (r, e # es, hs)
       }
     | Some bl \<Rightarrow>
         (case ms of
            True # ms \<Rightarrow> do {
              (nb, hs) \<leftarrow> clone_array bl empty_block hs;
              (r, es, hs) \<leftarrow> clone_blocks ms bs es hs;
              Some (r, Some nb # es, hs)
            }
          | _ \<Rightarrow> Some (Inl ENOMEM, e # es, hs))
   }"

definition table_clone :: "bool list \<Rightarrow> table \<Rightarrow> table \<Rightarrow> handles \<Rightarrow> ((errno + unit) \<times> table \<times> handles) option" where
  "table_clone ms t to hs = do {
     (l0, hs) \<leftarrow> clone_array (tab_l0 t) (tab_l0 to) hs;
     (r, l1, hs) \<leftarrow> clone_blocks ms (tab_l1 t) (tab_l1 to) hs;
     Some (r, \<lparr>tab_l0 = l0, tab_l1 = l1\<rparr>, hs)
   }"

fun cloexec_array :: "descriptor list \<Rightarrow> handles \<Rightarrow> (descriptor list \<times> handles) option" where
  "cloexec_array [] hs = Some ([], hs)"
| "cloexec_array (d # ds) hs = do {
     (d, hs) \<leftarrow> (if desc_is_cloexec d then desc_close d hs else Some (d, hs));
     (ds, hs) \<leftarrow> cloexec_array ds hs;
     Some (d # ds, hs)
   }"

fun cloexec_blocks :: "descriptor list option list \<Rightarrow> handles \<Rightarrow> (descriptor list option list \<times> handles) option" where
  "cloexec_blocks [] hs = Some ([], hs)"
| "cloexec_blocks (None # bs) hs = do { (bs, hs) \<leftarrow> cloexec_blocks bs hs; Some (None # bs, hs) }"
| "cloexec_blocks (Some bl # bs) hs = do {
     (bl, hs) \<leftarrow> cloexec_array bl hs;
     (bs, hs) \<leftarrow> cloexec_blocks bs hs;
     Some (Some bl # bs, hs)
   }"

definition table_cloexec :: "table \<Rightarrow> handles \<Rightarrow> (table \<times> handles) option" where
  "table_cloexec t hs = do {
     (l0, hs) \<leftarrow> cloexec_array (tab_l0 t) hs;
     (l1, hs) \<leftarrow> cloexec_blocks (tab_l1 t) hs;
     Some (\<lparr>tab_l0 = l0, tab_l1 = l1\<rparr>, hs)
   }"

text \<open>The destructor of a table: members and array elements are destroyed in reverse order, and every
  open descriptor is released.\<close>

fun release_all :: "descriptor list \<Rightarrow> handles \<Rightarrow> handles option" where
  "release_all [] hs = Some hs"
| "release_all (d # ds) hs = do {
     hs \<leftarrow> (case d of None \<Rightarrow> Some hs | Some (h, c) \<Rightarrow> handle_release h hs);
     release_all ds hs
   }"

definition table_destroy :: "table \<Rightarrow> handles \<Rightarrow> handles option" where
  "table_destroy t hs = do {
     hs \<leftarrow> release_all (rev (concat (map (\<lambda>b. case b of None \<Rightarrow> [] | Some bl \<Rightarrow> bl) (tab_l1 t)))) hs;
     release_all (rev (tab_l0 t)) hs
   }"

section \<open>The table as a flat array\<close>

text \<open>The abstraction: descriptor number \<open>fd\<close> is entry \<open>fd\<close> of a list of 72 descriptors.\<close>

definition block_view :: "descriptor list option \<Rightarrow> descriptor list" where
  "block_view b = (case b of None \<Rightarrow> empty_block | Some bl \<Rightarrow> bl)"

definition flat :: "table \<Rightarrow> descriptor list" where
  "flat t = tab_l0 t @ concat (map block_view (tab_l1 t))"

definition wf_table :: "table \<Rightarrow> bool" where
  "wf_table t \<longleftrightarrow> length (tab_l0 t) = L0 \<and> length (tab_l1 t) = L1 \<and>
     (\<forall>bl. Some bl \<in> set (tab_l1 t) \<longrightarrow> length bl = L1L0)"

definition FD_MAX :: nat where
  "FD_MAX = L0 + L1 * L1L0"

fun slot_index :: "slot \<Rightarrow> nat" where
  "slot_index (Slot0 i) = i"
| "slot_index (Slot1 b j) = L0 + (b * L1L0 + j)"

fun slot_ok :: "table \<Rightarrow> slot \<Rightarrow> bool" where
  "slot_ok t (Slot0 i) \<longleftrightarrow> i < L0"
| "slot_ok t (Slot1 b j) \<longleftrightarrow> b < L1 \<and> j < L1L0 \<and> tab_l1 t ! b \<noteq> None"

lemma nth_concat_uniform:
  "\<forall>x\<in>set xs. length x = k \<Longrightarrow> b < length xs \<Longrightarrow> j < k \<Longrightarrow> concat xs ! (b * k + j) = xs ! b ! j"
proof (induction xs arbitrary: b)
  case (Cons x xs)
  then show ?case by (cases b) (auto simp: nth_append add.assoc)
qed simp

lemma update_concat_uniform:
  "\<forall>x\<in>set xs. length x = k \<Longrightarrow> b < length xs \<Longrightarrow> j < k \<Longrightarrow>
   (concat xs)[b * k + j := v] = concat (xs[b := (xs ! b)[j := v]])"
proof (induction xs arbitrary: b)
  case (Cons x xs)
  then show ?case by (cases b) (auto simp: list_update_append add.assoc)
qed simp

lemma length_concat_uniform: "\<forall>x\<in>set xs. length x = k \<Longrightarrow> length (concat xs) = length xs * k"
  by (induction xs) auto

lemma block_view_length: "wf_table t \<Longrightarrow> b \<in> set (tab_l1 t) \<Longrightarrow> length (block_view b) = L1L0"
  by (cases b) (auto simp: wf_table_def block_view_def empty_block_def)

lemma blocks_uniform: "wf_table t \<Longrightarrow> \<forall>x\<in>set (map block_view (tab_l1 t)). length x = L1L0"
  by (auto simp: block_view_length)

lemma flat_length [simp]: "wf_table t \<Longrightarrow> length (flat t) = FD_MAX"
  by (simp add: flat_def FD_MAX_def length_concat_uniform [OF blocks_uniform]) (simp add: wf_table_def)

lemma slot_index_less: "slot_ok t sl \<Longrightarrow> slot_index sl < FD_MAX"
  by (cases sl) (auto simp: FD_MAX_def L0_def L1_def L1L0_def)

lemma flat_slot:
  assumes "wf_table t" "slot_ok t sl"
  shows "flat t ! slot_index sl = read_slot t sl"
proof (cases sl)
  case (Slot0 i)
  then show ?thesis using assms by (simp add: flat_def read_slot_def nth_append wf_table_def)
next
  case (Slot1 b j)
  then have "b < length (map block_view (tab_l1 t))" "j < L1L0" "length (tab_l0 t) = L0"
    using assms by (auto simp: wf_table_def)
  with Slot1 assms show ?thesis
    using nth_concat_uniform [OF blocks_uniform [OF assms(1)], of b j]
    by (auto simp: flat_def read_slot_def nth_append block_view_def)
qed

lemma wf_write: "wf_table t \<Longrightarrow> wf_table (write_slot sl d t)"
proof (cases sl)
  case (Slot1 b j)
  assume wf: "wf_table t"
  show ?thesis
  proof (cases "tab_l1 t ! b")
    case (Some bl)
    show ?thesis
    proof (cases "b < length (tab_l1 t)")
      case True
      then have "Some bl \<in> set (tab_l1 t)" using Some by (metis nth_mem)
      then have "length bl = L1L0" using wf by (simp add: wf_table_def)
      with wf Slot1 Some True show ?thesis
        by (auto simp: write_slot_def wf_table_def dest!: set_update_subset_insert [THEN subsetD])
    next
      case False
      with wf Slot1 Some show ?thesis by (simp add: write_slot_def wf_table_def list_update_beyond)
    qed
  qed (use wf Slot1 in \<open>simp add: write_slot_def\<close>)
qed (simp add: write_slot_def wf_table_def)

lemma flat_write:
  assumes "wf_table t" "slot_ok t sl"
  shows "flat (write_slot sl d t) = (flat t)[slot_index sl := d]"
proof (cases sl)
  case (Slot0 i)
  then show ?thesis using assms by (simp add: flat_def write_slot_def list_update_append wf_table_def)
next
  case (Slot1 b j)
  then obtain bl where bl: "tab_l1 t ! b = Some bl" using assms(2) by auto
  have b: "b < length (tab_l1 t)" "j < L1L0" "length (tab_l0 t) = L0"
    using assms Slot1 by (auto simp: wf_table_def)
  then have "(concat (map block_view (tab_l1 t)))[b * L1L0 + j := d] =
      concat (map block_view ((tab_l1 t)[b := Some (bl[j := d])]))"
    using update_concat_uniform [OF blocks_uniform [OF assms(1)], of b j d] bl
    by (simp add: map_update block_view_def)
  with Slot1 bl b show ?thesis by (simp add: flat_def write_slot_def list_update_append)
qed

lemma slot_ok_write [simp]: "wf_table t \<Longrightarrow> slot_ok (write_slot sl d t) sl' = slot_ok t sl'"
proof (cases sl; cases sl')
  fix b j b' j'
  assume "wf_table t" "sl = Slot1 b j" "sl' = Slot1 b' j'"
  then show ?thesis
    by (cases "b = b'") (auto simp: write_slot_def wf_table_def split: option.splits)
qed (auto simp: write_slot_def split: option.splits)

text \<open>Every descriptor number has a slot; a missing block reads as closed.\<close>

lemma table_get_flat:
  assumes wf: "wf_table t"
  shows "case table_get fd t of
      Inl e \<Rightarrow> e = EBADF \<and> \<not> (0 \<le> fd \<and> fd < int FD_MAX \<and> desc_is_open (flat t ! nat fd))
    | Inr sl \<Rightarrow> 0 \<le> fd \<and> fd < int FD_MAX \<and> slot_ok t sl \<and> slot_index sl = nat fd \<and> desc_is_open (flat t ! nat fd)"
proof (cases "0 \<le> fd \<and> fd < int FD_MAX")
  case False
  then show ?thesis by (auto simp: table_get_def DIRECT_def INDIRECT_def FD_MAX_def Let_def L0_def L1_def L1L0_def)
next
  case True
  show ?thesis
  proof (cases "fd < DIRECT")
    case True
    with \<open>0 \<le> fd \<and> _\<close> have i: "nat fd < L0" by (simp add: DIRECT_def nat_less_iff)
    then have "flat t ! nat fd = tab_l0 t ! nat fd" using wf by (simp add: flat_def wf_table_def nth_append)
    with True \<open>0 \<le> fd \<and> _\<close> i show ?thesis by (auto simp: table_get_def)
  next
    case False
    let ?n = "nat (fd - DIRECT)"
    let ?b = "?n div L1L0" and ?j = "?n mod L1L0"
    have n: "?n < L1 * L1L0" "\<not> fd < 0" "fd - DIRECT < INDIRECT"
      using True False by (auto simp: DIRECT_def INDIRECT_def FD_MAX_def L0_def L1_def L1L0_def)
    then have b: "?b < L1" "?j < L1L0" by (simp_all add: L1L0_def L1_def less_mult_imp_div_less)
    have eq: "nat fd = L0 + (?b * L1L0 + ?j)" using False by (simp add: DIRECT_def)
    have view: "flat t ! nat fd = block_view (tab_l1 t ! ?b) ! ?j"
      using nth_concat_uniform [OF blocks_uniform [OF wf], of ?b ?j] b wf unfolding eq
      by (simp add: flat_def nth_append wf_table_def)
    show ?thesis
    proof (cases "tab_l1 t ! ?b")
      case None
      then have "\<not> desc_is_open (flat t ! nat fd)"
        using b by (simp add: view block_view_def empty_block_def desc_is_open_def)
      then show ?thesis using None False n by (simp add: table_get_def Let_def)
    next
      case (Some bl)
      then show ?thesis using False True n b eq view
        by (auto simp: table_get_def Let_def block_view_def)
    qed
  qed
qed

section \<open>Allocation finds the lowest free number\<close>

lemma scan_Some: "scan ds n = Some i \<Longrightarrow> n \<le> i \<and> i - n < length ds \<and> \<not> desc_is_open (ds ! (i - n)) \<and>
    (\<forall>k < i - n. desc_is_open (ds ! k))"
proof (induction ds arbitrary: n)
  case (Cons d ds)
  show ?case
  proof (cases "desc_is_open d")
    case True
    with Cons have "Suc n \<le> i \<and> i - Suc n < length ds \<and> \<not> desc_is_open (ds ! (i - Suc n)) \<and>
        (\<forall>k < i - Suc n. desc_is_open (ds ! k))" by simp
    with True show ?thesis by (auto simp: nth_Cons' Suc_diff_Suc)
  qed (use Cons.prems in auto)
qed simp

lemma scan_None: "scan ds n = None \<Longrightarrow> d \<in> set ds \<Longrightarrow> desc_is_open d"
  by (induction ds arbitrary: n) (auto split: if_splits)

lemma prefix_length:
  assumes "wf_table t" "tab_l1 t = pre @ bls" "length pre = b"
  shows "length (tab_l0 t @ concat (map block_view pre)) = L0 + b * L1L0"
proof -
  have "\<forall>x\<in>set (map block_view pre). length x = L1L0"
    using blocks_uniform [OF assms(1)] assms(2) by simp
  then show ?thesis using length_concat_uniform [of "map block_view pre" L1L0] assms
    by (simp add: wf_table_def)
qed

text \<open>The block scan, relative to the blocks already passed.\<close>

lemma alloc_indirect_spec:
  assumes "wf_table t" and "tab_l1 t = pre @ bls" and "length pre = b" and "n = L0 + b * L1L0"
    and "\<forall>d\<in>set (tab_l0 t @ concat (map block_view pre)). desc_is_open d"
    and "alloc_indirect ok bls b n t = (r, t')"
  shows "wf_table t' \<and> flat t' = flat t \<and>
    (case r of
       Inl e \<Rightarrow> t' = t \<and> (e = EMFILE \<and> (\<forall>d\<in>set (flat t). desc_is_open d) \<or> e = ENOMEM \<and> \<not> ok)
     | Inr (sl, fd) \<Rightarrow> slot_ok t' sl \<and> fd = int (slot_index sl) \<and> \<not> desc_is_open (flat t ! slot_index sl) \<and>
         (\<forall>i < slot_index sl. desc_is_open (flat t ! i)))"
  using assms
proof (induction ok bls b n t arbitrary: pre rule: alloc_indirect.induct)
  case (1 ok b n t)
  then show ?case by (auto simp: flat_def)
next
  case (2 ok bls b n t)
  let ?t = "t\<lparr>tab_l1 := (tab_l1 t)[b := Some empty_block]\<rparr>"
  have b: "b < length (tab_l1 t)" "tab_l1 t ! b = None" "b < L1" using 2 by (auto simp: wf_table_def)
  have upd: "map block_view ((tab_l1 t)[b := Some empty_block]) = map block_view (tab_l1 t)"
    using b by (simp add: map_update block_view_def list_update_same_conv)
  then have fl: "flat ?t = flat t" by (simp add: flat_def)
  have wf: "wf_table ?t" using 2 b
    by (auto simp: wf_table_def empty_block_def dest!: set_update_subset_insert [THEN subsetD])
  have len: "length (tab_l0 t @ concat (map block_view pre)) = L0 + b * L1L0"
    by (rule prefix_length [OF "2.prems"(1-3)])
  have fs: "flat t = (tab_l0 t @ concat (map block_view pre)) @ empty_block @ concat (map block_view bls)"
    using 2 by (simp add: flat_def block_view_def)
  have low: "desc_is_open (flat t ! i)" if "i < L0 + b * L1L0" for i
    using that "2.prems"(5) len unfolding fs by (metis nth_append nth_mem)
  have cl: "flat t ! (L0 + b * L1L0) = None"
    unfolding fs nth_append len by (simp add: empty_block_def L1L0_def)
  show ?case
  proof (cases ok)
    case True
    with 2 have "r = Inr (Slot1 b 0, int n)" "t' = ?t" by auto
    with b wf fl low cl 2(4) show ?thesis by (auto simp: L1L0_def desc_is_open_def)
  next
    case False
    with 2 show ?thesis by auto
  qed
next
  case (3 ok bl bls b n t)
  have bl: "length bl = L1L0" "b < L1" "tab_l1 t ! b = Some bl" using 3 by (auto simp: wf_table_def)
  have len: "length (tab_l0 t @ concat (map block_view pre)) = L0 + b * L1L0"
    by (rule prefix_length [OF "3.prems"(1-3)])
  have fs: "flat t = (tab_l0 t @ concat (map block_view pre)) @ bl @ concat (map block_view bls)"
    using 3 by (simp add: flat_def block_view_def)
  show ?case
  proof (cases "scan bl 0")
    case None
    have rec: "alloc_indirect ok bls (Suc b) (n + length bl) t = (r, t')" using "3.prems"(6) None by simp
    have all: "\<forall>d\<in>set (tab_l0 t @ concat (map block_view (pre @ [Some bl]))). desc_is_open d"
      using "3.prems"(5) scan_None [OF None] by (auto simp: block_view_def)
    show ?thesis
      by (rule "3.IH" [OF None "3.prems"(1) _ _ _ all rec])
        (use "3.prems" bl in \<open>simp_all add: add.assoc\<close>)
  next
    case (Some j)
    then have j: "j < L1L0" "\<not> desc_is_open (bl ! j)" "\<And>k. k < j \<Longrightarrow> desc_is_open (bl ! k)"
      using scan_Some [OF Some] bl by auto
    have low: "desc_is_open (flat t ! i)" if "i < L0 + b * L1L0 + j" for i
    proof (cases "i < L0 + b * L1L0")
      case True
      then show ?thesis using "3.prems"(5) len unfolding fs by (metis nth_append nth_mem)
    next
      case False
      define k where "k = i - (L0 + b * L1L0)"
      have k: "i = L0 + b * L1L0 + k" "k < j" using False that by (simp_all add: k_def)
      with j(1) bl(1) have "flat t ! i = bl ! k"
        unfolding fs nth_append [of "tab_l0 t @ concat (map block_view pre)"] len by (simp add: nth_append)
      with j(3) [OF k(2)] show ?thesis by simp
    qed
    have "flat t ! (L0 + b * L1L0 + j) = bl ! j"
      unfolding fs nth_append [of "tab_l0 t @ concat (map block_view pre)"] len using j(1) bl(1) by (simp add: nth_append)
    with Some 3 bl j low show ?thesis by (auto simp: add.assoc)
  qed
qed

lemma table_alloc_spec:
  assumes "wf_table t" and "table_alloc ok t = (r, t')"
  shows "wf_table t' \<and> flat t' = flat t \<and>
    (case r of
       Inl e \<Rightarrow> t' = t \<and> (e = EMFILE \<and> (\<forall>d\<in>set (flat t). desc_is_open d) \<or> e = ENOMEM \<and> \<not> ok)
     | Inr (sl, fd) \<Rightarrow> slot_ok t' sl \<and> fd = int (slot_index sl) \<and> \<not> desc_is_open (flat t ! slot_index sl) \<and>
         (\<forall>i < slot_index sl. desc_is_open (flat t ! i)))"
proof (cases "scan (tab_l0 t) 0")
  case None
  then have run: "alloc_indirect ok (tab_l1 t) 0 (length (tab_l0 t)) t = (r, t')"
    using assms(2) by (simp add: table_alloc_def)
  show ?thesis
    by (rule alloc_indirect_spec [OF assms(1) _ _ _ _ run, of "[]"])
      (use assms(1) scan_None [OF None] in \<open>auto simp: wf_table_def\<close>)
next
  case (Some i)
  with assms(2) have r: "r = Inr (Slot0 i, int i)" "t' = t" by (simp_all add: table_alloc_def)
  have i: "i < L0" "\<not> desc_is_open (tab_l0 t ! i)" "\<And>k. k < i \<Longrightarrow> desc_is_open (tab_l0 t ! k)"
    using scan_Some [OF Some] assms(1) by (simp_all add: wf_table_def)
  moreover have "flat t ! k = tab_l0 t ! k" if "k < L0" for k
    using that assms(1) by (simp add: flat_def nth_append wf_table_def)
  ultimately show ?thesis using r assms(1) by simp
qed

lemma alloc_indirect_slots:
  "alloc_indirect ok bls b n t = (r, t') \<Longrightarrow> slot_ok t sl \<Longrightarrow> slot_ok t' sl"
proof (induction ok bls b n t rule: alloc_indirect.induct)
  case (2 ok bls b n t)
  have "slot_ok (t\<lparr>tab_l1 := (tab_l1 t)[b := Some empty_block]\<rparr>) sl" if "slot_ok t sl"
  proof (cases sl)
    case (Slot1 b' j)
    with that show ?thesis
      by (cases "b' = b"; cases "b < length (tab_l1 t)") (auto simp: list_update_beyond)
  qed (use that in simp)
  with 2 show ?case by (auto split: if_splits)
qed (auto split: option.splits)

lemma table_alloc_slots: "wf_table t \<Longrightarrow> table_alloc ok t = (r, t') \<Longrightarrow> slot_ok t sl \<Longrightarrow> slot_ok t' sl"
  by (auto simp: table_alloc_def split: option.splits intro: alloc_indirect_slots)

text \<open>\<open>Descriptor_table::alloc\<close> returns the lowest free descriptor number and leaves every
  descriptor as it was (a fresh block reads as closed); it fails with \<open>EMFILE\<close> only when all 72 numbers
  are open, and with \<open>ENOMEM\<close> only when a block was needed and could not be allocated.\<close>

theorem table_alloc_least:
  assumes "wf_table t" and "table_alloc ok t = (r, t')"
  shows "wf_table t' \<and> flat t' = flat t \<and>
    (case r of
       Inl e \<Rightarrow> t' = t \<and> (e = EMFILE \<and> (\<forall>d\<in>set (flat t). desc_is_open d) \<or> e = ENOMEM \<and> \<not> ok)
     | Inr (sl, fd) \<Rightarrow> slot_ok t' sl \<and> fd = int (slot_index sl) \<and> \<not> desc_is_open (flat t ! slot_index sl) \<and>
         (\<forall>i < slot_index sl. desc_is_open (flat t ! i)))"
  using assms by (rule table_alloc_spec)

theorem table_alloc_least_witness:
  "let t = write_slot (Slot0 0) (Some (3, False)) empty_table; (r, t') = table_alloc True t
   in wf_table t' \<and> flat t' = flat t \<and>
    (case r of
       Inl e \<Rightarrow> t' = t \<and> (e = EMFILE \<and> (\<forall>d\<in>set (flat t). desc_is_open d) \<or> e = ENOMEM \<and> \<not> True)
     | Inr (sl, fd) \<Rightarrow> slot_ok t' sl \<and> fd = int (slot_index sl) \<and> \<not> desc_is_open (flat t ! slot_index sl) \<and>
         (\<forall>i < slot_index sl. desc_is_open (flat t ! i)))"
proof -
  let ?t = "write_slot (Slot0 0) (Some (3, False)) empty_table"
  have wf: "wf_table ?t" by (intro wf_write) (simp add: wf_table_def empty_table_def L1_def eval_nat_numeral)
  show ?thesis
    unfolding Let_def split_beta by (rule table_alloc_least [OF wf, of True, unfolded split_beta, OF prod.collapse [symmetric]])
qed

section \<open>The interface of a descriptor array, and reference counting over it\<close>

definition refs :: "hid \<Rightarrow> descriptor list \<Rightarrow> int" where
  "refs h ds = int (length (filter (\<lambda>d. desc_handle d = Some h) ds))"

lemma refs_Nil [simp]: "refs h [] = 0"
  by (simp add: refs_def)

lemma refs_Cons [simp]: "refs h (d # ds) = (if desc_handle d = Some h then 1 else 0) + refs h ds"
  by (simp add: refs_def)

lemma refs_append [simp]: "refs h (ds @ es) = refs h ds + refs h es"
  by (simp add: refs_def)

lemma refs_replicate_None [simp]: "refs h (replicate n None) = 0"
  by (induction n) (simp_all add: desc_handle_def)

lemma refs_nonneg [simp]: "0 \<le> refs h ds"
  by (simp add: refs_def)

lemma refs_update:
  "i < length ds \<Longrightarrow> refs h (ds[i := d]) =
   refs h ds - (if desc_handle (ds ! i) = Some h then 1 else 0) + (if desc_handle d = Some h then 1 else 0)"
proof (induction ds arbitrary: i)
  case (Cons e ds)
  then show ?case by (cases i) auto
qed simp

lemma refs_pos: "i < length ds \<Longrightarrow> desc_handle (ds ! i) = Some h \<Longrightarrow> 0 < refs h ds"
  using refs_update [of i ds h None] refs_nonneg [of h "ds[i := None]"] by (simp add: desc_handle_def)

locale descriptor_array =
  fixes view :: "'t \<Rightarrow> descriptor list"
    and inv :: "'t \<Rightarrow> bool"
    and rd :: "'t \<Rightarrow> 's \<Rightarrow> descriptor"
    and wr :: "'s \<Rightarrow> descriptor \<Rightarrow> 't \<Rightarrow> 't"
    and ok :: "'t \<Rightarrow> 's \<Rightarrow> bool"
    and idx :: "'s \<Rightarrow> nat"
  assumes idx_less: "inv t \<Longrightarrow> ok t sl \<Longrightarrow> idx sl < length (view t)"
    and read_view: "inv t \<Longrightarrow> ok t sl \<Longrightarrow> rd t sl = view t ! idx sl"
    and write_view: "inv t \<Longrightarrow> ok t sl \<Longrightarrow> view (wr sl d t) = (view t)[idx sl := d]"
    and write_inv: "inv t \<Longrightarrow> inv (wr sl d t)"

text \<open>
  \<open>counted ext v hs\<close>: every handle's reference count is the number of open descriptors of \<open>v\<close> that hold
  it plus \<open>ext h\<close>, the references held elsewhere.
\<close>

definition counted :: "(hid \<Rightarrow> int) \<Rightarrow> descriptor list \<Rightarrow> handles \<Rightarrow> bool" where
  "counted ext v hs \<longleftrightarrow> (\<forall>h. 0 \<le> ext h \<and> ref_count hs h = ext h + refs h v)"

lemma counted_close:
  assumes "counted ext v hs" and "i < length v" and "v ! i = Some (h, c)"
  shows "\<exists>hs'. desc_close (v ! i) hs = Some (None, hs') \<and> counted ext (v[i := None]) hs' \<and>
    closed_log hs' = closed_log hs @ (if ext h + refs h (v[i := None]) = 0 then [h] else [])"
proof -
  have "0 < refs h v" using assms(2,3) by (intro refs_pos [of i]) (simp_all add: desc_handle_def)
  then have pos: "0 < ref_count hs h" using assms(1) by (auto simp: counted_def dest: spec [of _ h])
  have n: "ref_count hs h - 1 = ext h + refs h (v[i := None])"
    using assms by (simp add: counted_def refs_update desc_handle_def)
  have oth: "refs h' (v[i := None]) = refs h' v" if "h' \<noteq> h" for h'
    using assms(2,3) that by (simp add: refs_update desc_handle_def)
  show ?thesis using pos n assms(1,3) oth
    by (auto simp: desc_close_def handle_release_def counted_def Let_def)
qed

lemma counted_assign:
  assumes "counted ext v hs" and "i < length v" and "v ! i = None"
  shows "\<exists>hs'. desc_assign h c (v ! i) hs = Some (Some (h, c), hs') \<and> counted ext (v[i := Some (h, c)]) hs' \<and>
    closed_log hs' = closed_log hs"
proof -
  have "0 \<le> ref_count hs h" using assms(1) by (auto simp: counted_def)
  with assms show ?thesis
    by (auto simp: desc_assign_def desc_is_open_def handle_dup_def counted_def refs_update desc_handle_def)
qed

context descriptor_array begin

lemma close_slot:
  assumes "inv t" "ok t sl" "counted ext (view t) hs" "rd t sl = Some (h, c)"
  shows "\<exists>hs'. desc_close (rd t sl) hs = Some (None, hs') \<and> counted ext (view (wr sl None t)) hs' \<and>
    closed_log hs' = closed_log hs @ (if ext h + refs h ((view t)[idx sl := None]) = 0 then [h] else [])"
  using counted_close [OF assms(3) idx_less [OF assms(1,2)]] assms by (simp add: read_view write_view)

lemma assign_slot:
  assumes "inv t" "ok t sl" "counted ext (view t) hs" "rd t sl = None"
  shows "\<exists>hs'. desc_assign h c (rd t sl) hs = Some (Some (h, c), hs') \<and>
    counted ext (view (wr sl (Some (h, c)) t)) hs' \<and> closed_log hs' = closed_log hs"
  using counted_assign [OF assms(3) idx_less [OF assms(1,2)]] assms by (simp add: read_view write_view)

end

interpretation fd_array: descriptor_array flat wf_table read_slot write_slot slot_ok slot_index
  by unfold_locales (simp_all add: slot_index_less flat_slot flat_write wf_write)

lemma read_slot_open_iff: "desc_is_open d \<longleftrightarrow> (\<exists>h c. d = Some (h, c))"
  by (cases d) (auto simp: desc_is_open_def)

lemma close_if_open_counted:
  assumes "wf_table t" "slot_ok t sl" "counted ext (flat t) hs"
  shows "\<exists>t' hs'. close_if_open sl t hs = Some (t', hs') \<and> wf_table t' \<and>
    (\<forall>sl'. slot_ok t' sl' = slot_ok t sl') \<and> flat t' = (flat t)[slot_index sl := None] \<and>
    counted ext (flat t') hs' \<and>
    (closed_log hs' = closed_log hs \<or>
      (\<exists>h c. read_slot t sl = Some (h, c) \<and> ext h + refs h (flat t') = 0 \<and> closed_log hs' = closed_log hs @ [h]))"
proof (cases "read_slot t sl")
  case None
  then have "(flat t)[slot_index sl := None] = flat t"
    using assms flat_slot [OF assms(1,2)] slot_index_less [OF assms(2)] by (simp add: list_update_same_conv)
  with None assms show ?thesis by (simp add: close_if_open_def desc_is_open_def)
next
  case (Some hc)
  obtain h c where r: "read_slot t sl = Some (h, c)" using Some by (cases hc) simp
  from fd_array.close_slot [OF assms r] obtain hs' where
    hs': "desc_close (read_slot t sl) hs = Some (None, hs')" "counted ext (flat (write_slot sl None t)) hs'"
    "closed_log hs' = closed_log hs @ (if ext h + refs h ((flat t)[slot_index sl := None]) = 0 then [h] else [])"
    by blast
  have "close_if_open sl t hs = Some (write_slot sl None t, hs')"
    using hs'(1) r by (simp add: close_if_open_def desc_is_open_def)
  with hs' r assms show ?thesis by (auto simp: flat_write wf_write)
qed

text \<open>A fresh block reads as closed, so adding it changes no descriptor.\<close>

lemma add_block:
  assumes "wf_table t" "b < L1" "tab_l1 t ! b = None"
  shows "wf_table (t\<lparr>tab_l1 := (tab_l1 t)[b := Some empty_block]\<rparr>) \<and>
    flat (t\<lparr>tab_l1 := (tab_l1 t)[b := Some empty_block]\<rparr>) = flat t \<and>
    (\<forall>sl. slot_ok t sl \<longrightarrow> slot_ok (t\<lparr>tab_l1 := (tab_l1 t)[b := Some empty_block]\<rparr>) sl)"
proof -
  have b: "b < length (tab_l1 t)" using assms by (simp add: wf_table_def)
  then have "map block_view ((tab_l1 t)[b := Some empty_block]) = map block_view (tab_l1 t)"
    using assms(3) by (simp add: map_update block_view_def list_update_same_conv)
  moreover have "slot_ok (t\<lparr>tab_l1 := (tab_l1 t)[b := Some empty_block]\<rparr>) sl" if "slot_ok t sl" for sl
    using that b by (cases sl) (auto simp: nth_list_update)
  ultimately show ?thesis using assms(1)
    by (auto simp: flat_def wf_table_def empty_block_def dest!: set_update_subset_insert [THEN subsetD])
qed

lemma table_alloc_overwrite_spec:
  assumes wf: "wf_table t" and c: "counted ext (flat t) hs"
  shows "\<exists>r t' hs'. table_alloc_overwrite ok fd t hs = Some (r, t', hs') \<and> wf_table t' \<and>
    counted ext (flat t') hs' \<and> (\<forall>sl. slot_ok t sl \<longrightarrow> slot_ok t' sl) \<and>
    (case r of
       Inl e \<Rightarrow> t' = t \<and> hs' = hs \<and> (e = EBADF \<and> \<not> (0 \<le> fd \<and> fd < int FD_MAX) \<or> e = ENOMEM \<and> \<not> ok)
     | Inr sl \<Rightarrow> 0 \<le> fd \<and> fd < int FD_MAX \<and> slot_ok t' sl \<and> slot_index sl = nat fd \<and>
         flat t' = (flat t)[nat fd := None] \<and>
         (closed_log hs' = closed_log hs \<or> (\<exists>h. ext h + refs h (flat t') = 0 \<and> closed_log hs' = closed_log hs @ [h])))"
proof (cases "0 \<le> fd \<and> fd < int FD_MAX")
  case False
  then show ?thesis using wf c
    by (auto simp: table_alloc_overwrite_def DIRECT_def INDIRECT_def FD_MAX_def Let_def L0_def L1_def L1L0_def)
next
  case fd: True
  show ?thesis
  proof (cases "fd < DIRECT")
    case True
    with fd have ok: "slot_ok t (Slot0 (nat fd))" by (simp add: DIRECT_def nat_less_iff)
    from close_if_open_counted [OF wf ok c] obtain t' hs' where
      "close_if_open (Slot0 (nat fd)) t hs = Some (t', hs')" "wf_table t'"
      "\<forall>sl'. slot_ok t' sl' = slot_ok t sl'" "flat t' = (flat t)[nat fd := None]" "counted ext (flat t') hs'"
      "closed_log hs' = closed_log hs \<or> (\<exists>h. ext h + refs h (flat t') = 0 \<and> closed_log hs' = closed_log hs @ [h])"
      by auto
    with True fd ok show ?thesis by (simp add: table_alloc_overwrite_def)
  next
    case False
    let ?n = "nat (fd - DIRECT)"
    define b where "b = ?n div L1L0"
    define j where "j = ?n mod L1L0"
    have n: "?n < L1 * L1L0" "\<not> fd < 0" "fd - DIRECT < INDIRECT"
      using fd False by (auto simp: DIRECT_def INDIRECT_def FD_MAX_def L0_def L1_def L1L0_def)
    have bj: "b < L1" "j < L1L0" using n(1) unfolding b_def j_def
      by (simp_all add: L1L0_def L1_def less_mult_imp_div_less)
    have ix: "slot_index (Slot1 b j) = nat fd"
      using False unfolding b_def j_def by (simp add: DIRECT_def)
    define t1 where "t1 = (if tab_l1 t ! b = None then t\<lparr>tab_l1 := (tab_l1 t)[b := Some empty_block]\<rparr> else t)"
    have t1: "wf_table t1" "flat t1 = flat t" "\<forall>sl. slot_ok t sl \<longrightarrow> slot_ok t1 sl"
      using add_block [OF wf bj(1)] wf by (auto simp: t1_def)
    have ok1: "slot_ok t1 (Slot1 b j)"
      using bj wf by (auto simp: t1_def wf_table_def)
    from close_if_open_counted [OF t1(1) ok1, of ext hs] c t1(2) obtain t' hs' where
      cl: "close_if_open (Slot1 b j) t1 hs = Some (t', hs')" "wf_table t'"
      "\<forall>sl'. slot_ok t' sl' = slot_ok t1 sl'" "flat t' = (flat t)[nat fd := None]" "counted ext (flat t') hs'"
      "closed_log hs' = closed_log hs \<or> (\<exists>h. ext h + refs h (flat t') = 0 \<and> closed_log hs' = closed_log hs @ [h])"
      unfolding ix t1(2) by auto
    show ?thesis
    proof (cases "tab_l1 t ! b = None \<and> \<not> ok")
      case True
      with n False wf c show ?thesis
        by (simp add: table_alloc_overwrite_def Let_def b_def [symmetric])
    next
      case nf: False
      have "table_alloc_overwrite ok fd t hs = Some (Inr (Slot1 b j), t', hs')"
        using n False nf cl(1) unfolding t1_def
        by (cases "tab_l1 t ! b") (simp_all add: table_alloc_overwrite_def Let_def b_def [symmetric] j_def [symmetric])
      moreover have "slot_ok t' (Slot1 b j)" "\<forall>sl. slot_ok t sl \<longrightarrow> slot_ok t' sl"
        using cl(3) ok1 t1(3) by blast+
      ultimately show ?thesis using cl fd ix
        by (simp del: slot_ok.simps slot_index.simps)
    qed
  qed
qed

section \<open>Closing a descriptor, and \<open>dup\<close>\<close>

lemma table_close_spec:
  assumes wf: "wf_table t" and c: "counted ext (flat t) hs"
  shows "case table_close fd t hs of
      None \<Rightarrow> False
    | Some (Inl e, t', hs') \<Rightarrow> e = EBADF \<and> t' = t \<and> hs' = hs \<and>
        \<not> (0 \<le> fd \<and> fd < int FD_MAX \<and> desc_is_open (flat t ! nat fd))
    | Some (Inr _, t', hs') \<Rightarrow> 0 \<le> fd \<and> fd < int FD_MAX \<and> desc_is_open (flat t ! nat fd) \<and>
        wf_table t' \<and> flat t' = (flat t)[nat fd := None] \<and> counted ext (flat t') hs' \<and>
        (\<exists>h c. flat t ! nat fd = Some (h, c) \<and>
          closed_log hs' = closed_log hs @ (if ext h + refs h (flat t') = 0 then [h] else []))"
proof (cases "table_get fd t")
  case (Inl e)
  then show ?thesis using table_get_flat [OF wf, of fd] by (simp add: table_close_def)
next
  case (Inr sl)
  have g: "0 \<le> fd" "fd < int FD_MAX" "slot_ok t sl" "slot_index sl = nat fd" "desc_is_open (flat t ! nat fd)"
    using table_get_flat [OF wf, of fd] Inr by simp_all
  obtain h d where hd: "flat t ! nat fd = Some (h, d)" using g(5) read_slot_open_iff by blast
  have r: "read_slot t sl = Some (h, d)" using flat_slot [OF wf g(3)] g(4) hd by simp
  from fd_array.close_slot [OF wf g(3) c r] obtain hs' where
    hs': "desc_close (read_slot t sl) hs = Some (None, hs')" "counted ext (flat (write_slot sl None t)) hs'"
    "closed_log hs' = closed_log hs @ (if ext h + refs h ((flat t)[slot_index sl := None]) = 0 then [h] else [])"
    by blast
  have fw: "flat (write_slot sl None t) = (flat t)[nat fd := None]" using flat_write [OF wf g(3)] g(4) by simp
  have "table_close fd t hs = Some (Inr (), write_slot sl None t, hs')"
    using Inr hs'(1) by (simp add: table_close_def)
  with hs'(2,3) g fw wf hd show ?thesis by (simp add: wf_write)
qed

text \<open>\<open>do_syscall_dup\<close> of \<open>syscall.cxx\<close>: the source is looked up, the target is the given number or
  the lowest free one, and the target takes a new reference.\<close>

definition fd_dup :: "bool \<Rightarrow> int \<Rightarrow> int \<Rightarrow> bool \<Rightarrow> table \<Rightarrow> handles \<Rightarrow> ((errno + int) \<times> table \<times> handles) option" where
  "fd_dup mem_ok oldfd newfd cloexec t hs =
     (if oldfd = newfd then Some (Inl EINVAL, t, hs)
      else case table_get oldfd t of
        Inl e \<Rightarrow> Some (Inl e, t, hs)
      | Inr olddesc \<Rightarrow> do {
          (r, t, hs) \<leftarrow>
            (if 0 \<le> newfd then do {
               (r, t, hs) \<leftarrow> table_alloc_overwrite mem_ok newfd t hs;
               Some (map_sum id (\<lambda>sl. (sl, newfd)) r, t, hs)
             }
             else (let (r, t) = table_alloc mem_ok t in Some (r, t, hs)));
          case r of
            Inl e \<Rightarrow> Some (Inl e, t, hs)
          | Inr (newdesc, fd) \<Rightarrow> do {
              h \<leftarrow> desc_handle (read_slot t olddesc);
              (d, hs) \<leftarrow> desc_assign h cloexec (read_slot t newdesc) hs;
              Some (Inr fd, write_slot newdesc d t, hs)
            }
        })"

lemma fd_dup_finish:
  assumes wf: "wf_table t" and c: "counted ext (flat t) hs" and ok: "slot_ok t olds" "slot_ok t news"
    and v: "flat t ! slot_index olds = Some (h, d)" "flat t ! slot_index news = None"
  shows "\<exists>hs'. do {
              h \<leftarrow> desc_handle (read_slot t olds);
              (d, hs) \<leftarrow> desc_assign h cx (read_slot t news) hs;
              Some (Inr fd, write_slot news d t, hs)
            } = Some (Inr fd :: errno + int, write_slot news (Some (h, cx)) t, hs') \<and>
     wf_table (write_slot news (Some (h, cx)) t) \<and>
     flat (write_slot news (Some (h, cx)) t) = (flat t)[slot_index news := Some (h, cx)] \<and>
     counted ext (flat (write_slot news (Some (h, cx)) t)) hs' \<and> closed_log hs' = closed_log hs"
proof -
  have r: "read_slot t olds = Some (h, d)" "read_slot t news = None"
    using flat_slot [OF wf ok(1)] flat_slot [OF wf ok(2)] v by simp_all
  from fd_array.assign_slot [OF wf ok(2) c r(2), of h cx] obtain hs' where
    "desc_assign h cx (read_slot t news) hs = Some (Some (h, cx), hs')"
    "counted ext (flat (write_slot news (Some (h, cx)) t)) hs'" "closed_log hs' = closed_log hs" by blast
  with r wf ok(2) show ?thesis by (simp add: desc_handle_def wf_write flat_write)
qed

text \<open>\<open>dup\<close> on a consistent table never panics. When it succeeds the new descriptor holds the
  source's handle with the requested close-on-exec bit, every other descriptor is unchanged, every
  count equals the number of open descriptors again, and the source's handle is never closed, not even
  when the overwritten target held the same handle. When it fails no descriptor has changed.\<close>

theorem fd_dup_correct:
  assumes wf: "wf_table t" and c: "counted ext (flat t) hs"
  shows "case fd_dup ok old new cx t hs of
      None \<Rightarrow> False
    | Some (Inl e, t', hs') \<Rightarrow> wf_table t' \<and> flat t' = flat t \<and> hs' = hs
    | Some (Inr fd, t', hs') \<Rightarrow> 0 \<le> fd \<and> fd < int FD_MAX \<and> (0 \<le> new \<longrightarrow> fd = new) \<and>
        wf_table t' \<and> counted ext (flat t') hs' \<and>
        (\<exists>h d. flat t ! nat old = Some (h, d) \<and> flat t' = (flat t)[nat fd := Some (h, cx)] \<and>
          (closed_log hs' = closed_log hs \<or>
            (\<exists>h'. h' \<noteq> h \<and> refs h' (flat t') = 0 \<and> closed_log hs' = closed_log hs @ [h'])))"
proof (cases "old = new")
  case True
  then show ?thesis using wf by (simp add: fd_dup_def)
next
  case ne: False
  show ?thesis
  proof (cases "table_get old t")
    case (Inl e)
    then show ?thesis using wf ne by (simp add: fd_dup_def)
  next
    case (Inr olds)
    have g: "0 \<le> old" "old < int FD_MAX" "slot_ok t olds" "slot_index olds = nat old" "desc_is_open (flat t ! nat old)"
      using table_get_flat [OF wf, of old] Inr by simp_all
    obtain h d where hd: "flat t ! nat old = Some (h, d)" using g(5) read_slot_open_iff by blast
    show ?thesis
    proof (cases "0 \<le> new")
      case True
      obtain r t1 hs1 where tao: "table_alloc_overwrite ok new t hs = Some (r, t1, hs1)"
        and w1: "wf_table t1" "counted ext (flat t1) hs1" "\<forall>sl. slot_ok t sl \<longrightarrow> slot_ok t1 sl"
        and sp: "case r of
           Inl e \<Rightarrow> t1 = t \<and> hs1 = hs \<and> (e = EBADF \<and> \<not> (0 \<le> new \<and> new < int FD_MAX) \<or> e = ENOMEM \<and> \<not> ok)
         | Inr sl \<Rightarrow> 0 \<le> new \<and> new < int FD_MAX \<and> slot_ok t1 sl \<and> slot_index sl = nat new \<and>
             flat t1 = (flat t)[nat new := None] \<and>
             (closed_log hs1 = closed_log hs \<or> (\<exists>h. ext h + refs h (flat t1) = 0 \<and> closed_log hs1 = closed_log hs @ [h]))"
        using table_alloc_overwrite_spec [OF wf c, of ok new] by blast
      show ?thesis
      proof (cases r)
        case (Inl e)
        then show ?thesis using sp tao ne True Inr wf by (simp add: fd_dup_def)
      next
        case r: (Inr sl)
        have s: "new < int FD_MAX" "slot_ok t1 sl" "slot_index sl = nat new" "flat t1 = (flat t)[nat new := None]"
          and cl: "closed_log hs1 = closed_log hs \<or>
             (\<exists>h. ext h + refs h (flat t1) = 0 \<and> closed_log hs1 = closed_log hs @ [h])"
          using sp unfolding r sum.case by blast+
        have len: "nat new < length (flat t)" "nat old < length (flat t)" "nat old \<noteq> nat new"
          using s(1) g True ne wf by (simp_all add: nat_less_iff)
        have o1: "slot_ok t1 olds" using w1(3) g(3) by blast
        have v: "flat t1 ! slot_index olds = Some (h, d)" "flat t1 ! slot_index sl = None"
          using len hd s g(4) by (simp_all add: nth_list_update)
        obtain hs2 where f: "do {
              h \<leftarrow> desc_handle (read_slot t1 olds);
              (d, hs) \<leftarrow> desc_assign h cx (read_slot t1 sl) hs1;
              Some (Inr new, write_slot sl d t1, hs)
            } = Some (Inr new :: errno + int, write_slot sl (Some (h, cx)) t1, hs2)"
          and w2: "wf_table (write_slot sl (Some (h, cx)) t1)"
          "flat (write_slot sl (Some (h, cx)) t1) = (flat t1)[slot_index sl := Some (h, cx)]"
          "counted ext (flat (write_slot sl (Some (h, cx)) t1)) hs2" "closed_log hs2 = closed_log hs1"
          using fd_dup_finish [OF w1(1,2) o1 s(2) v, of cx new] by blast
        have run: "fd_dup ok old new cx t hs = Some (Inr new, write_slot sl (Some (h, cx)) t1, hs2)"
          using ne Inr True tao r f by (simp add: fd_dup_def)
        have fl: "flat (write_slot sl (Some (h, cx)) t1) = (flat t)[nat new := Some (h, cx)]"
          using w2(2) s(3,4) by simp
        have pos: "0 < refs h (flat t1)" using v(1) len s(4) g(4)
          by (intro refs_pos [of "nat old"]) (simp_all add: desc_handle_def)
        have ex: "0 \<le> ext x" for x using c by (simp add: counted_def)
        have "closed_log hs2 = closed_log hs \<or>
            (\<exists>h'. h' \<noteq> h \<and> refs h' ((flat t)[nat new := Some (h, cx)]) = 0 \<and> closed_log hs2 = closed_log hs @ [h'])"
          using cl
        proof
          assume "\<exists>h. ext h + refs h (flat t1) = 0 \<and> closed_log hs1 = closed_log hs @ [h]"
          then obtain h' where h': "ext h' + refs h' (flat t1) = 0" "closed_log hs1 = closed_log hs @ [h']" by blast
          have "refs h' (flat t1) = 0" using h'(1) ex [of h'] refs_nonneg [of h' "flat t1"] by linarith
          moreover from this pos have "h' \<noteq> h" by auto
          ultimately have "refs h' ((flat t)[nat new := Some (h, cx)]) = 0"
            using s(4) len(1) by (simp add: refs_update desc_handle_def)
          with \<open>h' \<noteq> h\<close> h'(2) w2(4) show ?thesis by auto
        qed (use w2(4) in simp)
        moreover have "\<exists>d. flat t ! nat old = Some (h, d)" using hd by blast
        ultimately show ?thesis using run w2(1,3) fl s(1) True hd by (simp only: option.case sum.case prod.case) auto
      qed
    next
      case neg: False
      obtain r t1 where ta: "table_alloc ok t = (r, t1)" by (cases "table_alloc ok t")
      note sp = table_alloc_spec [OF wf ta]
      show ?thesis
      proof (cases r)
        case (Inl e)
        then show ?thesis using sp ta ne neg Inr wf by (simp add: fd_dup_def)
      next
        case r: (Inr p)
        obtain sl fd where p: "p = (sl, fd)" by (cases p)
        have s: "wf_table t1" "flat t1 = flat t" "slot_ok t1 sl" "fd = int (slot_index sl)"
          "\<not> desc_is_open (flat t ! slot_index sl)"
          using sp r p by simp_all
        have o1: "slot_ok t1 olds" using table_alloc_slots [OF wf ta] g(3) by blast
        have v: "flat t1 ! slot_index olds = Some (h, d)" "flat t1 ! slot_index sl = None"
          using hd s(2,5) g(4) by (simp_all only: desc_is_open_def not_not)
        have c1: "counted ext (flat t1) hs" using c s(2) by simp
        obtain hs2 where f: "do {
              h \<leftarrow> desc_handle (read_slot t1 olds);
              (d, hs) \<leftarrow> desc_assign h cx (read_slot t1 sl) hs;
              Some (Inr fd, write_slot sl d t1, hs)
            } = Some (Inr fd :: errno + int, write_slot sl (Some (h, cx)) t1, hs2)"
          and w2: "wf_table (write_slot sl (Some (h, cx)) t1)"
          "flat (write_slot sl (Some (h, cx)) t1) = (flat t1)[slot_index sl := Some (h, cx)]"
          "counted ext (flat (write_slot sl (Some (h, cx)) t1)) hs2" "closed_log hs2 = closed_log hs"
          using fd_dup_finish [OF s(1) c1 o1 s(3) v, of cx fd] by blast
        have run: "fd_dup ok old new cx t hs = Some (Inr fd, write_slot sl (Some (h, cx)) t1, hs2)"
          using ne Inr neg ta r p f by (simp add: fd_dup_def)
        have "slot_index sl < FD_MAX" using slot_index_less [OF s(3)] .
        with run w2 s hd neg show ?thesis by simp
      qed
    qed
  qed
qed

theorem fd_dup_correct_witness:
  "let t = write_slot (Slot0 0) (Some (3, False)) empty_table;
       hs = \<lparr>ref_count = (\<lambda>_. 0)(3 := 1), closed_log = []\<rparr>
   in case fd_dup True 0 (-1) True t hs of
      None \<Rightarrow> False
    | Some (Inl e, t', hs') \<Rightarrow> wf_table t' \<and> flat t' = flat t \<and> hs' = hs
    | Some (Inr fd, t', hs') \<Rightarrow> 0 \<le> fd \<and> fd < int FD_MAX \<and> (0 \<le> (-1::int) \<longrightarrow> fd = -1) \<and>
        wf_table t' \<and> counted (\<lambda>_. 0) (flat t') hs' \<and>
        (\<exists>h d. flat t ! nat 0 = Some (h, d) \<and> flat t' = (flat t)[nat fd := Some (h, True)] \<and>
          (closed_log hs' = closed_log hs \<or>
            (\<exists>h'. h' \<noteq> h \<and> refs h' (flat t') = 0 \<and> closed_log hs' = closed_log hs @ [h'])))"
  unfolding Let_def
  by (rule fd_dup_correct)
    (simp_all add: wf_table_def empty_table_def write_slot_def counted_def flat_def refs_def
      L0_def L1_def block_view_def empty_block_def desc_handle_def eval_nat_numeral ex_bool_eq)

section \<open>Closing many descriptors\<close>

text \<open>\<open>released hs k hs'\<close>: every count has gone down by \<open>k\<close>, and exactly the handles whose count
  reached zero on the way have been closed, once each.\<close>

definition released :: "handles \<Rightarrow> (hid \<Rightarrow> int) \<Rightarrow> handles \<Rightarrow> bool" where
  "released hs k hs' \<longleftrightarrow> (\<forall>h. 0 \<le> k h \<and> ref_count hs' h = ref_count hs h - k h) \<and>
     (\<exists>l. closed_log hs' = closed_log hs @ l \<and> distinct l \<and>
       set l = {h. 0 < ref_count hs h \<and> ref_count hs' h \<le> 0})"

lemma released_refl [simp]: "released hs (\<lambda>h. 0) hs"
  by (auto simp: released_def)

lemma released_trans:
  assumes 1: "released hs k hs1" and 2: "released hs1 k' hs2" and e: "\<And>h. m h = k h + k' h"
  shows "released hs m hs2"
proof -
  obtain l where l: "closed_log hs1 = closed_log hs @ l" "distinct l"
    "set l = {h. 0 < ref_count hs h \<and> ref_count hs1 h \<le> 0}" using 1 by (auto simp: released_def)
  obtain l' where l': "closed_log hs2 = closed_log hs1 @ l'" "distinct l'"
    "set l' = {h. 0 < ref_count hs1 h \<and> ref_count hs2 h \<le> 0}" using 2 by (auto simp: released_def)
  have n: "0 \<le> k h" "ref_count hs1 h = ref_count hs h - k h" "0 \<le> k' h"
    "ref_count hs2 h = ref_count hs1 h - k' h" for h
    using 1 2 by (simp_all add: released_def)
  have "set (l @ l') = {h. 0 < ref_count hs h \<and> ref_count hs2 h \<le> 0}"
  proof -
    have "(0 < ref_count hs h \<and> ref_count hs1 h \<le> 0 \<or> 0 < ref_count hs1 h \<and> ref_count hs2 h \<le> 0) \<longleftrightarrow>
        0 < ref_count hs h \<and> ref_count hs2 h \<le> 0" for h
      using n [of h] by linarith
    then show ?thesis using l(3) l'(3) by auto
  qed
  moreover have "distinct (l @ l')" using l l' by auto
  moreover have "closed_log hs2 = closed_log hs @ (l @ l')" using l(1) l'(1) by simp
  ultimately have "\<exists>l. closed_log hs2 = closed_log hs @ l \<and> distinct l \<and>
       set l = {h. 0 < ref_count hs h \<and> ref_count hs2 h \<le> 0}" by blast
  moreover have "0 \<le> m h \<and> ref_count hs2 h = ref_count hs h - m h" for h using n [of h] e [of h] by linarith
  ultimately show ?thesis unfolding released_def by blast
qed

lemma handle_release_released:
  assumes "0 < ref_count hs h"
  shows "\<exists>hs'. handle_release h hs = Some hs' \<and> released hs (\<lambda>x. if Some h = Some x then 1 else 0) hs'"
proof (cases "ref_count hs h = 1")
  case True
  have "{x. 0 < ref_count hs x \<and> ((ref_count hs)(h := 0)) x \<le> 0} = {h}" using True by auto
  with True show ?thesis by (auto simp: handle_release_def released_def Let_def intro!: exI [of _ "[h]"])
next
  case False
  with assms show ?thesis by (auto simp: handle_release_def released_def Let_def)
qed

lemma release_all_released:
  "(\<And>h. refs h ds \<le> ref_count hs h) \<Longrightarrow>
   \<exists>hs'. release_all ds hs = Some hs' \<and> released hs (\<lambda>h. refs h ds) hs'"
proof (induction ds arbitrary: hs)
  case (Cons d ds)
  show ?case
  proof (cases d)
    case None
    then have "\<And>h. refs h ds \<le> ref_count hs h" using Cons.prems by (simp add: desc_handle_def)
    from Cons.IH [OF this] None show ?thesis by (simp add: desc_handle_def)
  next
    case (Some hc)
    obtain h c where d: "d = Some (h, c)" using Some by (cases hc) simp
    have "1 + refs h ds \<le> ref_count hs h" using Cons.prems [of h] d by (simp add: desc_handle_def)
    then have "0 < ref_count hs h" using refs_nonneg [of h ds] by linarith
    from handle_release_released [OF this] obtain hs1 where
      1: "handle_release h hs = Some hs1" "released hs (\<lambda>x. if Some h = Some x then 1 else 0) hs1" by blast
    have "refs x ds \<le> ref_count hs1 x" for x
      using Cons.prems [of x] 1(2) d by (auto simp: released_def desc_handle_def split: if_splits)
    from Cons.IH [OF this] obtain hs2 where
      2: "release_all ds hs1 = Some hs2" "released hs1 (\<lambda>h. refs h ds) hs2" by blast
    have "released hs (\<lambda>x. refs x (d # ds)) hs2"
      by (rule released_trans [OF 1(2) 2(2)]) (simp add: d desc_handle_def)
    with 1 2 d show ?thesis by simp
  qed
qed simp

lemma refs_rev [simp]: "refs h (rev ds) = refs h ds"
  by (induction ds) simp_all

lemma refs_blocks:
  "refs h (concat (map (\<lambda>b. case b of None \<Rightarrow> [] | Some bl \<Rightarrow> bl) bs)) = refs h (concat (map block_view bs))"
  by (induction bs) (auto simp: block_view_def empty_block_def split: option.splits)

lemma refs_flat: "refs h (flat t) = refs h (tab_l0 t) + refs h (concat (map block_view (tab_l1 t)))"
  by (simp add: flat_def)

lemma table_destroy_released:
  assumes "\<And>h. refs h (flat t) \<le> ref_count hs h"
  shows "\<exists>hs'. table_destroy t hs = Some hs' \<and> released hs (\<lambda>h. refs h (flat t)) hs'"
proof -
  let ?b = "rev (concat (map (\<lambda>b. case b of None \<Rightarrow> [] | Some bl \<Rightarrow> bl) (tab_l1 t)))"
  have b: "refs h ?b = refs h (concat (map block_view (tab_l1 t)))" for h by (simp only: refs_rev refs_blocks)
  have "refs h ?b \<le> ref_count hs h" for h
    using assms [of h] refs_nonneg [of h "tab_l0 t"] unfolding b refs_flat by linarith
  from release_all_released [OF this] obtain hs1 where
    1: "release_all ?b hs = Some hs1" "released hs (\<lambda>h. refs h ?b) hs1" by blast
  have r1: "ref_count hs1 h = ref_count hs h - refs h ?b" for h using 1(2) unfolding released_def by blast
  have "refs h (rev (tab_l0 t)) \<le> ref_count hs1 h" for h
    using assms [of h] r1 [of h] b [of h] refs_flat [of h t] by simp
  from release_all_released [OF this] obtain hs2 where
    2: "release_all (rev (tab_l0 t)) hs1 = Some hs2" "released hs1 (\<lambda>h. refs h (rev (tab_l0 t))) hs2" by blast
  have "released hs (\<lambda>h. refs h (flat t)) hs2"
    by (rule released_trans [OF 1(2) 2(2)]) (simp only: refs_flat refs_rev refs_blocks add.commute)
  with 1 2 show ?thesis by (simp add: table_destroy_def)
qed

section \<open>Close on exec\<close>

definition drop_cloexec :: "descriptor \<Rightarrow> descriptor" where
  "drop_cloexec d = (if desc_is_cloexec d then None else d)"

lemma cloexec_array_released:
  "(\<And>h. refs h ds \<le> ref_count hs h) \<Longrightarrow>
   \<exists>hs'. cloexec_array ds hs = Some (map drop_cloexec ds, hs') \<and>
     released hs (\<lambda>h. refs h ds - refs h (map drop_cloexec ds)) hs'"
proof (induction ds arbitrary: hs)
  case (Cons d ds)
  show ?case
  proof (cases "desc_is_cloexec d")
    case False
    have "refs h ds \<le> ref_count hs h" for h using Cons.prems [of h] by (auto split: if_splits)
    from Cons.IH [OF this] obtain hs' where
      "cloexec_array ds hs = Some (map drop_cloexec ds, hs')"
      "released hs (\<lambda>h. refs h ds - refs h (map drop_cloexec ds)) hs'" by blast
    moreover have "drop_cloexec d = d" using False by (simp add: drop_cloexec_def)
    ultimately show ?thesis using False by simp
  next
    case True
    then obtain h where d: "d = Some (h, True)" by (auto simp: desc_is_cloexec_def split: option.splits)
    have "1 + refs h ds \<le> ref_count hs h" using Cons.prems [of h] d by (simp add: desc_handle_def)
    then have "0 < ref_count hs h" using refs_nonneg [of h ds] by linarith
    from handle_release_released [OF this] obtain hs1 where
      1: "handle_release h hs = Some hs1" "released hs (\<lambda>x. if Some h = Some x then 1 else 0) hs1" by blast
    have "refs x ds \<le> ref_count hs1 x" for x
      using Cons.prems [of x] 1(2) d by (auto simp: released_def desc_handle_def split: if_splits)
    from Cons.IH [OF this] obtain hs2 where
      2: "cloexec_array ds hs1 = Some (map drop_cloexec ds, hs2)"
      "released hs1 (\<lambda>h. refs h ds - refs h (map drop_cloexec ds)) hs2" by blast
    have "released hs (\<lambda>x. refs x (d # ds) - refs x (map drop_cloexec (d # ds))) hs2"
      by (rule released_trans [OF 1(2) 2(2)]) (simp add: d desc_handle_def drop_cloexec_def desc_is_cloexec_def)
    moreover have "drop_cloexec d = None" using True by (simp add: drop_cloexec_def)
    ultimately show ?thesis using 1 2 d True by (simp add: desc_close_def)
  qed
qed simp

lemma refs_drop_cloexec_le: "refs h (map drop_cloexec ds) \<le> refs h ds"
  by (induction ds) (auto simp: drop_cloexec_def desc_handle_def)

lemma block_view_None [simp]: "block_view None = empty_block"
  by (simp add: block_view_def)

lemma block_view_Some [simp]: "block_view (Some bl) = bl"
  by (simp add: block_view_def)

lemma map_drop_empty [simp]: "map drop_cloexec empty_block = empty_block"
  by (simp add: empty_block_def drop_cloexec_def)

lemma refs_empty_block [simp]: "refs h empty_block = 0"
  by (simp add: empty_block_def)

lemma cloexec_blocks_released:
  "(\<And>h. refs h (concat (map block_view bs)) \<le> ref_count hs h) \<Longrightarrow>
   \<exists>hs'. cloexec_blocks bs hs = Some (map (map_option (map drop_cloexec)) bs, hs') \<and>
     released hs (\<lambda>h. refs h (concat (map block_view bs)) -
       refs h (concat (map block_view (map (map_option (map drop_cloexec)) bs)))) hs'"
proof (induction bs hs rule: cloexec_blocks.induct)
  case (2 bs hs)
  have "refs h (concat (map block_view bs)) \<le> ref_count hs h" for h using "2.prems" [of h] by simp
  from "2.IH" [OF this] show ?case by auto
next
  case (3 bl bs hs)
  have "refs h bl \<le> ref_count hs h" for h
    using "3.prems" [of h] refs_nonneg [of h "concat (map block_view bs)"]
    unfolding list.map block_view_Some concat.simps refs_append by linarith
  from cloexec_array_released [OF this] obtain hs1 where
    1: "cloexec_array bl hs = Some (map drop_cloexec bl, hs1)"
    "released hs (\<lambda>h. refs h bl - refs h (map drop_cloexec bl)) hs1" by blast
  have r1: "ref_count hs1 h = ref_count hs h - (refs h bl - refs h (map drop_cloexec bl))" for h
    using 1(2) unfolding released_def by blast
  have le: "refs h (concat (map block_view bs)) \<le> ref_count hs1 h" for h
    using "3.prems" [of h] refs_nonneg [of h "map drop_cloexec bl"]
    unfolding r1 list.map block_view_Some concat.simps refs_append by linarith
  from "3.IH" [OF 1(1) refl le] obtain hs2 where
    2: "cloexec_blocks bs hs1 = Some (map (map_option (map drop_cloexec)) bs, hs2)"
     "released hs1 (\<lambda>h. refs h (concat (map block_view bs)) -
       refs h (concat (map block_view (map (map_option (map drop_cloexec)) bs)))) hs2" by blast
  have "released hs (\<lambda>h. refs h (concat (map block_view (Some bl # bs))) -
       refs h (concat (map block_view (map (map_option (map drop_cloexec)) (Some bl # bs))))) hs2"
    by (rule released_trans [OF 1(2) 2(2)]) simp
  with 1 2 show ?case by simp
qed simp

text \<open>\<open>exec\<close> closes exactly the descriptors marked close-on-exec: it never panics, every other
  descriptor keeps its handle and its number, every count is again the number of open descriptors plus
  the outside references, and each handle that lost its last reference is closed once.\<close>

theorem table_cloexec_correct:
  assumes wf: "wf_table t" and c: "counted ext (flat t) hs"
  shows "\<exists>t' hs'. table_cloexec t hs = Some (t', hs') \<and> wf_table t' \<and> flat t' = map drop_cloexec (flat t) \<and>
    counted ext (flat t') hs' \<and> released hs (\<lambda>h. refs h (flat t) - refs h (flat t')) hs'"
proof -
  define t' where "t' = \<lparr>tab_l0 = map drop_cloexec (tab_l0 t), tab_l1 = map (map_option (map drop_cloexec)) (tab_l1 t)\<rparr>"
  have view: "block_view (map_option (map drop_cloexec) b) = map drop_cloexec (block_view b)" for b
    by (cases b) simp_all
  have fl: "flat t' = map drop_cloexec (flat t)"
    by (simp add: t'_def flat_def map_concat view comp_def)
  have "length bl = L1L0" if x: "Some bl \<in> set (tab_l1 t')" for bl
  proof -
    obtain bl0 where "Some bl0 \<in> set (tab_l1 t)" "bl = map drop_cloexec bl0"
    proof -
      have "Some bl \<in> map_option (map drop_cloexec) ` set (tab_l1 t)" using x by (simp add: t'_def)
      then obtain x where "x \<in> set (tab_l1 t)" "Some bl = map_option (map drop_cloexec) x" by (rule imageE)
      then show thesis by (cases x rule: option.exhaust) (simp_all add: that)
    qed
    with wf show ?thesis by (simp add: wf_table_def)
  qed
  then have wf': "wf_table t'" using wf by (simp add: t'_def wf_table_def)
  have tot: "refs h (flat t) \<le> ref_count hs h" for h using c by (simp add: counted_def)
  have "refs h (tab_l0 t) \<le> ref_count hs h" for h
    using tot [of h] refs_nonneg [of h "concat (map block_view (tab_l1 t))"] unfolding refs_flat by linarith
  from cloexec_array_released [OF this] obtain hs1 where
    1: "cloexec_array (tab_l0 t) hs = Some (map drop_cloexec (tab_l0 t), hs1)"
    "released hs (\<lambda>h. refs h (tab_l0 t) - refs h (map drop_cloexec (tab_l0 t))) hs1" by blast
  have r1: "ref_count hs1 h = ref_count hs h - (refs h (tab_l0 t) - refs h (map drop_cloexec (tab_l0 t)))" for h
    using 1(2) unfolding released_def by blast
  have "refs h (concat (map block_view (tab_l1 t))) \<le> ref_count hs1 h" for h
    using tot [of h] refs_nonneg [of h "map drop_cloexec (tab_l0 t)"] unfolding refs_flat r1 by linarith
  from cloexec_blocks_released [OF this] obtain hs2 where
    2: "cloexec_blocks (tab_l1 t) hs1 = Some (tab_l1 t', hs2)"
     "released hs1 (\<lambda>h. refs h (concat (map block_view (tab_l1 t))) -
       refs h (concat (map block_view (tab_l1 t')))) hs2" by (auto simp: t'_def)
  have rel: "released hs (\<lambda>h. refs h (flat t) - refs h (flat t')) hs2"
    by (rule released_trans [OF 1(2) 2(2)]) (simp add: refs_flat t'_def)
  have run: "table_cloexec t hs = Some (t', hs2)"
    using 1(1) 2(1) by (simp add: table_cloexec_def t'_def)
  have "counted ext (flat t') hs2" using rel c by (simp add: released_def counted_def)
  with run wf' fl rel show ?thesis by blast
qed

theorem table_cloexec_correct_witness:
  "let t = write_slot (Slot0 0) (Some (3, True)) empty_table;
       hs = \<lparr>ref_count = (\<lambda>_. 0)(3 := 1), closed_log = []\<rparr>
   in \<exists>t' hs'. table_cloexec t hs = Some (t', hs') \<and> wf_table t' \<and> flat t' = map drop_cloexec (flat t) \<and>
    counted (\<lambda>_. 0) (flat t') hs' \<and> released hs (\<lambda>h. refs h (flat t) - refs h (flat t')) hs'"
  unfolding Let_def
  by (rule table_cloexec_correct)
    (simp_all add: wf_table_def empty_table_def write_slot_def counted_def flat_def refs_def
      L0_def L1_def block_view_def empty_block_def desc_handle_def eval_nat_numeral ex_bool_eq)

section \<open>Cloning a table\<close>

text \<open>\<open>acquired hs k hs'\<close>: every count has gone up by \<open>k\<close> and nothing was closed.\<close>

definition acquired :: "handles \<Rightarrow> (hid \<Rightarrow> int) \<Rightarrow> handles \<Rightarrow> bool" where
  "acquired hs k hs' \<longleftrightarrow> (\<forall>h. 0 \<le> k h \<and> ref_count hs' h = ref_count hs h + k h) \<and> closed_log hs' = closed_log hs"

lemma acquired_refl [simp]: "acquired hs (\<lambda>h. 0) hs"
  by (simp add: acquired_def)

lemma acquired_trans:
  "acquired hs k hs1 \<Longrightarrow> acquired hs1 k' hs2 \<Longrightarrow> (\<And>h. m h = k h + k' h) \<Longrightarrow> acquired hs m hs2"
  by (simp add: acquired_def)

lemma acquired_nonneg: "acquired hs k hs' \<Longrightarrow> (\<And>h. 0 \<le> ref_count hs h) \<Longrightarrow> 0 \<le> ref_count hs' h"
  by (simp add: acquired_def)

lemma clone_array_acquired:
  "(\<And>h. 0 \<le> ref_count hs h) \<Longrightarrow>
   \<exists>hs'. clone_array ds (replicate (length ds) None) hs = Some (ds, hs') \<and> acquired hs (\<lambda>h. refs h ds) hs'"
proof (induction ds arbitrary: hs)
  case (Cons d ds)
  define hs1 where "hs1 = (case d of None \<Rightarrow> hs | Some (h, c) \<Rightarrow> handle_dup h hs)"
  have 1: "acquired hs (\<lambda>x. if desc_handle d = Some x then 1 else 0) hs1"
    by (cases d) (auto simp: hs1_def acquired_def handle_dup_def desc_handle_def)
  from Cons.IH [of hs1] acquired_nonneg [OF 1 Cons.prems] obtain hs2 where
    2: "clone_array ds (replicate (length ds) None) hs1 = Some (ds, hs2)" "acquired hs1 (\<lambda>h. refs h ds) hs2" by blast
  have "acquired hs (\<lambda>x. refs x (d # ds)) hs2" by (rule acquired_trans [OF 1 2(2)]) simp
  with 2 Cons.prems show ?case
    by (cases d) (auto simp: hs1_def desc_is_open_def desc_assign_def)
qed simp

lemma clone_blocks_acquired:
  "(\<And>h. 0 \<le> ref_count hs h) \<Longrightarrow> \<forall>bl. Some bl \<in> set bs \<longrightarrow> length bl = L1L0 \<Longrightarrow>
   \<exists>r to hs'. clone_blocks ms bs (replicate (length bs) None) hs = Some (r, to, hs') \<and>
     length to = length bs \<and> (\<forall>bl. Some bl \<in> set to \<longrightarrow> Some bl \<in> set bs) \<and>
     acquired hs (\<lambda>h. refs h (concat (map block_view to))) hs' \<and>
     (case r of Inr _ \<Rightarrow> to = bs | Inl e \<Rightarrow> e = ENOMEM \<and> \<not> (length bs \<le> length ms \<and> (\<forall>m\<in>set ms. m)))"
proof (induction bs arbitrary: ms hs)
  case (Cons b bs)
  have bs: "\<forall>bl. Some bl \<in> set bs \<longrightarrow> length bl = L1L0" using Cons.prems(2) by simp
  show ?case
  proof (cases b)
    case None
    obtain r to hs' where ih: "clone_blocks ms bs (replicate (length bs) None) hs = Some (r, to, hs')"
      "length to = length bs" "\<forall>bl. Some bl \<in> set to \<longrightarrow> Some bl \<in> set bs"
      "acquired hs (\<lambda>h. refs h (concat (map block_view to))) hs'"
      "case r of Inr _ \<Rightarrow> to = bs | Inl e \<Rightarrow> e = ENOMEM \<and> \<not> (length bs \<le> length ms \<and> (\<forall>m\<in>set ms. m))"
      using Cons.IH [OF Cons.prems(1) bs, of ms] by blast
    have "clone_blocks ms (b # bs) (replicate (length (b # bs)) None) hs = Some (r, None # to, hs')"
      using None ih(1) by simp
    moreover have "case r of Inr _ \<Rightarrow> None # to = b # bs
        | Inl e \<Rightarrow> e = ENOMEM \<and> \<not> (length (b # bs) \<le> length ms \<and> (\<forall>m\<in>set ms. m))"
      using ih(5) None by (cases r) auto
    moreover have "\<forall>bl. Some bl \<in> set (None # to) \<longrightarrow> Some bl \<in> set (b # bs)" using ih(3) by simp
    moreover have "acquired hs (\<lambda>h. refs h (concat (map block_view (None # to)))) hs'" using ih(4) by simp
    ultimately show ?thesis using ih(2) by (intro exI conjI) (assumption | simp)+
  next
    case (Some bl)
    show ?thesis
    proof (cases "\<exists>ms'. ms = True # ms'")
      case False
      have "clone_blocks ms (b # bs) (replicate (length (b # bs)) None) hs =
          Some (Inl ENOMEM, replicate (length (b # bs)) None, hs)"
        using Some False by (cases ms) (auto split: bool.splits)
      moreover have "refs h (concat (map block_view (replicate k None))) = 0" for h k
        by (induction k) simp_all
      moreover have "\<not> (length (b # bs) \<le> length ms \<and> (\<forall>m\<in>set ms. m))" using False by (cases ms) auto
      ultimately show ?thesis by simp
    next
      case True
      then obtain ms' where ms: "ms = True # ms'" by blast
      have len: "length bl = L1L0" using Cons.prems(2) Some by simp
      from clone_array_acquired [OF Cons.prems(1), of bl] obtain hs1 where
        1: "clone_array bl empty_block hs = Some (bl, hs1)" "acquired hs (\<lambda>h. refs h bl) hs1"
        by (auto simp: len empty_block_def)
      obtain r to hs' where ih: "clone_blocks ms' bs (replicate (length bs) None) hs1 = Some (r, to, hs')"
        "length to = length bs" "\<forall>bl. Some bl \<in> set to \<longrightarrow> Some bl \<in> set bs"
        "acquired hs1 (\<lambda>h. refs h (concat (map block_view to))) hs'"
        "case r of Inr _ \<Rightarrow> to = bs | Inl e \<Rightarrow> e = ENOMEM \<and> \<not> (length bs \<le> length ms' \<and> (\<forall>m\<in>set ms'. m))"
        using Cons.IH [OF acquired_nonneg [OF 1(2) Cons.prems(1)] bs, of ms'] by blast
      have "clone_blocks ms (b # bs) (replicate (length (b # bs)) None) hs = Some (r, Some bl # to, hs')"
        using Some ms 1(1) ih(1) by simp
      moreover have "acquired hs (\<lambda>h. refs h (concat (map block_view (Some bl # to)))) hs'"
        by (rule acquired_trans [OF 1(2) ih(4)]) simp
      moreover have "case r of Inr _ \<Rightarrow> Some bl # to = b # bs
          | Inl e \<Rightarrow> e = ENOMEM \<and> \<not> (length (b # bs) \<le> length ms \<and> (\<forall>m\<in>set ms. m))"
        using ih(5) Some ms by (cases r) auto
      moreover have "\<forall>x. Some x \<in> set (Some bl # to) \<longrightarrow> Some x \<in> set (b # bs)" using ih(3) Some by auto
      ultimately show ?thesis using ih(2) by (intro exI conjI) (assumption | simp)+
    qed
  qed
qed simp

text \<open>C29. Cloning a table for \<open>fork\<close> into a fresh table never panics and closes nothing. On success the
  new table is equal to the old one, with one more reference per open descriptor; a failed block
  allocation gives \<open>ENOMEM\<close> and a partial table, and destroying that table, as the failing \<open>fork\<close>
  does, gives every reference back.\<close>

theorem table_clone_correct:
  assumes wf: "wf_table t" and pos: "\<forall>h. 0 \<le> ref_count hs h"
  shows "\<exists>r to hs1 hs2. table_clone ms t empty_table hs = Some (r, to, hs1) \<and> wf_table to \<and>
    closed_log hs1 = closed_log hs \<and> (\<forall>h. ref_count hs1 h = ref_count hs h + refs h (flat to)) \<and>
    (case r of Inr _ \<Rightarrow> to = t | Inl e \<Rightarrow> e = ENOMEM \<and> \<not> (L1 \<le> length ms \<and> (\<forall>m\<in>set ms. m))) \<and>
    table_destroy to hs1 = Some hs2 \<and> ref_count hs2 = ref_count hs"
proof -
  have len: "length (tab_l0 t) = L0" "length (tab_l1 t) = L1" and
    bl: "\<forall>bl. Some bl \<in> set (tab_l1 t) \<longrightarrow> length bl = L1L0" using wf by (simp_all add: wf_table_def)
  have p: "0 \<le> ref_count hs h" for h using pos by blast
  from clone_array_acquired [OF p, of "tab_l0 t"] obtain hs0 where
    1: "clone_array (tab_l0 t) (replicate L0 None) hs = Some (tab_l0 t, hs0)"
    "acquired hs (\<lambda>h. refs h (tab_l0 t)) hs0" by (auto simp: len)
  obtain r l1 hs1 where 2: "clone_blocks ms (tab_l1 t) (replicate L1 None) hs0 = Some (r, l1, hs1)"
    "length l1 = L1" "\<forall>bl. Some bl \<in> set l1 \<longrightarrow> Some bl \<in> set (tab_l1 t)"
    "acquired hs0 (\<lambda>h. refs h (concat (map block_view l1))) hs1"
    "case r of Inr _ \<Rightarrow> l1 = tab_l1 t | Inl e \<Rightarrow> e = ENOMEM \<and> \<not> (L1 \<le> length ms \<and> (\<forall>m\<in>set ms. m))"
    using clone_blocks_acquired [OF acquired_nonneg [OF 1(2) p] bl, of ms] unfolding len by blast
  define to where "to = \<lparr>tab_l0 = tab_l0 t, tab_l1 = l1\<rparr>"
  have run: "table_clone ms t empty_table hs = Some (r, to, hs1)"
    using 1(1) 2(1) by (simp add: table_clone_def empty_table_def to_def)
  have acq: "acquired hs (\<lambda>h. refs h (flat to)) hs1"
    by (rule acquired_trans [OF 1(2) 2(4)]) (simp add: refs_flat to_def)
  then have rc: "ref_count hs1 h = ref_count hs h + refs h (flat to)" for h by (simp add: acquired_def)
  have "refs h (flat to) \<le> ref_count hs1 h" for h using p [of h] by (simp add: rc)
  from table_destroy_released [OF this] obtain hs2 where
    3: "table_destroy to hs1 = Some hs2" "released hs1 (\<lambda>h. refs h (flat to)) hs2" by blast
  have "ref_count hs2 = ref_count hs"
  proof
    show "ref_count hs2 h = ref_count hs h" for h using 3(2) rc [of h] by (simp add: released_def)
  qed
  moreover have "wf_table to" using 2(2,3) len bl by (simp add: wf_table_def to_def)
  moreover have "case r of Inr _ \<Rightarrow> to = t | Inl e \<Rightarrow> e = ENOMEM \<and> \<not> (L1 \<le> length ms \<and> (\<forall>m\<in>set ms. m))"
    using 2(5) by (cases r) (simp_all add: to_def)
  moreover have "closed_log hs1 = closed_log hs" using acq by (simp add: acquired_def)
  ultimately show ?thesis using run 3(1) rc by blast
qed

theorem table_clone_correct_witness:
  "let t = write_slot (Slot0 0) (Some (3, True)) empty_table;
       hs = \<lparr>ref_count = (\<lambda>_. 0)(3 := 1), closed_log = []\<rparr>
   in \<exists>r to hs1 hs2. table_clone [] t empty_table hs = Some (r, to, hs1) \<and> wf_table to \<and>
    closed_log hs1 = closed_log hs \<and> (\<forall>h. ref_count hs1 h = ref_count hs h + refs h (flat to)) \<and>
    (case r of Inr _ \<Rightarrow> to = t | Inl e \<Rightarrow> e = ENOMEM \<and> \<not> (L1 \<le> length ([]::bool list) \<and> (\<forall>m\<in>set ([]::bool list). m))) \<and>
    table_destroy to hs1 = Some hs2 \<and> ref_count hs2 = ref_count hs"
  unfolding Let_def
  by (rule table_clone_correct [of _ _ "[]"])
    (simp_all add: wf_table_def empty_table_def write_slot_def L1_def eval_nat_numeral)

end
