(* ===== verification/Memory.thy ===== *)
theory Memory
  imports Alloc
begin

text \<open>
  Access to user memory: \<open>kernel/src/mem/memory.c\<close>, the assembly routine \<open>memcpy_catch_fault.s\<close> and the
  part of \<open>x86_64/entry.c\<close> that recovers from its page faults.

  Physical memory is a function from addresses to bytes. What the processor does with a virtual address
  is the parameter \<open>tr\<close>: \<open>tr a w\<close> is the physical address of the byte at \<open>a\<close> for a read (or, with
  \<open>w\<close>, a write), or the present bit of the page fault it raises. The page table walk of
  \<open>memcpy_user_user_catch_fault\<close> is the parameter \<open>v2p\<close>.
\<close>

type_synonym bytes = "nat \<Rightarrow> u8"
type_synonym translation = "u64 \<Rightarrow> bool \<Rightarrow> bool + nat"

section \<open>Pointer ranges\<close>

definition MEM_LOW_HALF_MAX :: nat where "MEM_LOW_HALF_MAX = 0x800000000000"

definition is_user_pointer :: "u64 \<Rightarrow> bool" where
  "is_user_pointer v \<longleftrightarrow> v < word_of_nat MEM_LOW_HALF_MAX"

definition check_user_range :: "u64 \<Rightarrow> u64 \<Rightarrow> errno option" where
  "check_user_range v len =
     (if is_user_pointer v \<and> is_user_pointer (v + len - 1) \<and> 0 <s len then None else Some EFAULT)"

section \<open>The copy that survives page faults\<close>

definition MEMCPY_FAULT_READ :: u32 where "MEMCPY_FAULT_READ = 1"
definition MEMCPY_FAULT_WRITE :: u32 where "MEMCPY_FAULT_WRITE = 2"

text \<open>The error code the processor pushes for a data access of the kernel.\<close>

definition fault_code :: "bool \<Rightarrow> bool \<Rightarrow> u32" where
  "fault_code present w = (if present then 1 else 0) OR (if w then 2 else 0)"

text \<open>\<open>exception_kernel_entry\<close> for exception 14 at the copy instruction: the value the copy returns, or
  \<open>None\<close> when the handler goes on to its panic.\<close>

definition catch_page_fault :: "u32 \<Rightarrow> u32 \<Rightarrow> u32 option" where
  "catch_page_fault err catch =
     (if err AND 0b10100 = 0 then
        (let throw = (if err AND 0b10 \<noteq> 0 then MEMCPY_FAULT_WRITE else MEMCPY_FAULT_READ)
         in if throw AND catch = throw then Some throw else None)
      else None)"

text \<open>\<open>rep movsb\<close> with the handler behind it.\<close>

fun memcpy_catch_fault :: "translation \<Rightarrow> u32 \<Rightarrow> nat \<Rightarrow> u64 \<Rightarrow> u64 \<Rightarrow> bytes \<Rightarrow> (u32 \<times> bytes) option" where
  "memcpy_catch_fault tr catch 0 dst src m = Some (0, m)"
| "memcpy_catch_fault tr catch (Suc n) dst src m =
     (case tr src False of
        Inl pr \<Rightarrow> do { r \<leftarrow> catch_page_fault (fault_code pr False) catch; Some (r, m) }
      | Inr p \<Rightarrow>
          (case tr dst True of
             Inl pr \<Rightarrow> do { r \<leftarrow> catch_page_fault (fault_code pr True) catch; Some (r, m) }
           | Inr q \<Rightarrow> memcpy_catch_fault tr catch n (dst + 1) (src + 1) (m(q := m p))))"

definition copy_to_user :: "translation \<Rightarrow> u64 \<Rightarrow> u64 \<Rightarrow> u64 \<Rightarrow> bytes \<Rightarrow> (errno option \<times> bytes) option" where
  "copy_to_user tr dest src len m =
     (case check_user_range dest len of
        Some e \<Rightarrow> Some (Some e, m)
      | None \<Rightarrow> do {
          (fault, m) \<leftarrow> memcpy_catch_fault tr MEMCPY_FAULT_WRITE (unat len) dest src m;
          Some (if fault \<noteq> 0 then Some EFAULT else None, m)
        })"

definition copy_to_user8 :: "translation \<Rightarrow> u64 \<Rightarrow> u64 \<Rightarrow> bytes \<Rightarrow> (errno option \<times> bytes) option" where
  "copy_to_user8 tr dest value_at m = copy_to_user tr dest value_at 8 m"

definition copy_from_user :: "translation \<Rightarrow> u64 \<Rightarrow> u64 \<Rightarrow> u64 \<Rightarrow> bytes \<Rightarrow> (errno option \<times> bytes) option" where
  "copy_from_user tr dest src len m =
     (case check_user_range src len of
        Some e \<Rightarrow> Some (Some e, m)
      | None \<Rightarrow> do {
          (fault, m) \<leftarrow> memcpy_catch_fault tr MEMCPY_FAULT_READ (unat len) dest src m;
          Some (if fault \<noteq> 0 then Some EFAULT else None, m)
        })"

text \<open>The page-wise loop of \<open>memcpy_user_user_catch_fault\<close>; \<open>off\<close> is the base of the direct map.\<close>

definition chunk :: "u64 \<Rightarrow> nat \<Rightarrow> nat" where
  "chunk src cnt = min (PAGE_SIZE - unat (src AND word_of_nat (PAGE_SIZE - 1))) cnt"

lemma chunk_bounds:
  assumes "0 < cnt"
  shows "0 < chunk src cnt" "chunk src cnt \<le> cnt"
proof -
  have "unat (src AND word_of_nat (PAGE_SIZE - 1)) \<le> unat (word_of_nat (PAGE_SIZE - 1) :: u64)"
    by (simp add: word_le_nat_alt [symmetric] word_and_le1)
  also have "\<dots> < PAGE_SIZE" by (simp add: PAGE_SIZE_def)
  finally show "0 < chunk src cnt" "chunk src cnt \<le> cnt" using assms unfolding chunk_def by linarith+
qed

function user_user_loop :: "translation \<Rightarrow> (u64 \<Rightarrow> u64) \<Rightarrow> u64 \<Rightarrow> nat \<Rightarrow> u64 \<Rightarrow> u64 \<Rightarrow> bytes \<Rightarrow> (u32 \<times> bytes) option" where
  "user_user_loop tr v2p off cnt dst src m =
     (if cnt = 0 then Some (0, m)
      else let n = chunk src cnt in do {
        (err, m) \<leftarrow> memcpy_catch_fault tr (MEMCPY_FAULT_READ OR MEMCPY_FAULT_WRITE) n dst (v2p src + off) m;
        if err \<noteq> 0 then Some (err, m)
        else user_user_loop tr v2p off (cnt - n) (dst + word_of_nat n) (src + word_of_nat n) m
      })"
  by pat_completeness auto
termination
  by (relation "measure (\<lambda>(tr, v2p, off, cnt, dst, src, m). cnt)") (simp_all add: chunk_bounds)

declare user_user_loop.simps [simp del]

definition memcpy_user_user_catch_fault ::
    "translation \<Rightarrow> (u64 \<Rightarrow> u64) \<Rightarrow> u64 \<Rightarrow> bool \<Rightarrow> u64 \<Rightarrow> u64 \<Rightarrow> u64 \<Rightarrow> bytes \<Rightarrow> (u32 \<times> bytes) option" where
  "memcpy_user_user_catch_fault tr v2p off thread_current dst src len m =
     (if check_user_range src len \<noteq> None then Some (MEMCPY_FAULT_READ, m)
      else if check_user_range dst len \<noteq> None then Some (MEMCPY_FAULT_WRITE, m)
      else do {
        kassert (\<not> thread_current);
        user_user_loop tr v2p off (unat len) dst src m
      })"

section \<open>Range checks admit exactly the ranges of the lower half\<close>

lemma user_limit: "unat (word_of_nat MEM_LOW_HALF_MAX :: u64) = 2 ^ 47"
  by (simp add: MEM_LOW_HALF_MAX_def)

lemma sint_pos_unat: "0 <s (w :: u64) \<longleftrightarrow> 0 < unat w \<and> unat w < 2 ^ 63"
proof -
  have "sint w = signed_take_bit 63 (uint w)" by (simp add: sint_uint)
  also have "\<dots> = take_bit (Suc 63) (uint w + 2 ^ 63) - 2 ^ 63" by (rule signed_take_bit_eq_take_bit_shift)
  also have "Suc 63 = 64" by simp
  finally have s: "sint w = (uint w + 2 ^ 63) mod 2 ^ 64 - 2 ^ 63" by (simp only: take_bit_eq_mod)
  have r: "0 \<le> uint w" "uint w < 2 ^ 64" using uint_bounded [of w] by simp_all
  have "0 < sint w \<longleftrightarrow> 0 < uint w \<and> uint w < 2 ^ 63"
  proof (cases "uint w < 2 ^ 63")
    case True
    then have "(uint w + 2 ^ 63) mod 2 ^ 64 = uint w + 2 ^ 63" using r by (intro mod_pos_pos_trivial) simp_all
    with True show ?thesis unfolding s by simp
  next
    case False
    have "uint w + 2 ^ 63 = uint w - 2 ^ 63 + 2 ^ 64" by simp
    then have "(uint w + 2 ^ 63) mod 2 ^ 64 = (uint w - 2 ^ 63 + 2 ^ 64) mod 2 ^ 64" by (simp only:)
    also have "\<dots> = (uint w - 2 ^ 63) mod 2 ^ 64" by (rule mod_add_self2)
    also have "\<dots> = uint w - 2 ^ 63" using False r by (intro mod_pos_pos_trivial) simp_all
    finally show ?thesis using False r unfolding s by simp
  qed
  moreover have e: "int (unat w) = uint w" by simp
  have "0 < unat w \<longleftrightarrow> 0 < uint w" using e by linarith
  moreover have "unat w < 2 ^ 63 \<longleftrightarrow> uint w < 2 ^ 63"
    using of_nat_less_numeral_power_cancel_iff [where ?'a = int, of "unat w" "num.Bit0 num.One" 63] unfolding e by (rule sym)
  ultimately show ?thesis by (simp only: word_sless_alt sint_0)
qed

lemma check_user_range_iff:
  "check_user_range v len = None \<longleftrightarrow> 0 < unat len \<and> unat len < 2 ^ 63 \<and> unat v + unat len \<le> 2 ^ 47"
proof -
  have P: "is_user_pointer w \<longleftrightarrow> unat w < 2 ^ 47" for w
    using user_limit by (simp add: is_user_pointer_def word_less_nat_alt)
  show ?thesis
  proof (cases "0 < unat len \<and> unat len < 2 ^ 63 \<and> unat v < 2 ^ 47")
    case True
    then have "unat (len - 1) = unat len - 1" by (simp add: unat_minus_one unat_gt_0)
    moreover from this True have "unat v + unat (len - 1) < 2 ^ LENGTH(64)"
      by simp linarith
    then have "unat (v + (len - 1)) = unat v + unat (len - 1)" by (simp only: unat_add_lem)
    ultimately have "unat (v + len - 1) = unat v + (unat len - 1)" by (simp add: add_diff_eq)
    with True show ?thesis by (auto simp: check_user_range_def P sint_pos_unat)
  next
    case False
    then show ?thesis by (auto simp: check_user_range_def P sint_pos_unat)
  qed
qed

text \<open>C30. \<open>check_user_range\<close> accepts a buffer exactly when it is not empty, its length is positive as a
  signed number, and all of it, computed without wrap-around, lies in the lower half: no accepted buffer
  can reach kernel memory, whatever the pointer and length a program passes.\<close>

theorem check_user_range_exact:
  "check_user_range v len = (if 0 < unat len \<and> unat len < 2 ^ 63 \<and> unat v + unat len \<le> 2 ^ 47
     then None else Some EFAULT)"
  using check_user_range_iff [of v len] by (auto simp: check_user_range_def)

section \<open>What a copy can change\<close>

lemma memcpy_frame:
  "memcpy_catch_fault tr catch n dst src m = Some (r, m') \<Longrightarrow>
   (\<And>i. i < n \<Longrightarrow> tr (dst + word_of_nat i) True \<noteq> Inr q) \<Longrightarrow> m' q = m q"
proof (induction tr catch n dst src m rule: memcpy_catch_fault.induct)
  case (2 tr catch n dst src m)
  show ?case
  proof (cases "tr src False")
    case (Inl pr)
    then show ?thesis using "2.prems"(1) by (auto simp: bind_eq_Some_conv)
  next
    case (Inr p)
    show ?thesis
    proof (cases "tr dst True")
      case (Inl pr)
      then show ?thesis using "2.prems"(1) Inr by (auto simp: bind_eq_Some_conv)
    next
      case q': (Inr q')
      have ne: "q' \<noteq> q" using "2.prems"(2) [of 0] q' by auto
      have later: "tr (dst + 1 + word_of_nat i) True \<noteq> Inr q" if "i < n" for i
        using "2.prems"(2) [of "Suc i"] that by (simp add: add.assoc)
      have "m' q = (m(q' := m p)) q"
        using "2.IH" [OF Inr q' _ later] "2.prems"(1) Inr q' by (simp del: fun_upd_apply)
      with ne show ?thesis by simp
    qed
  qed
qed simp

lemma memcpy_result:
  "memcpy_catch_fault tr catch n dst src m = Some (r, m') \<Longrightarrow>
   r = 0 \<or> r = MEMCPY_FAULT_READ \<and> r AND catch = r \<or> r = MEMCPY_FAULT_WRITE \<and> r AND catch = r"
proof (induction tr catch n dst src m rule: memcpy_catch_fault.induct)
  case (2 tr catch n dst src m)
  then show ?case
    by (auto simp: catch_page_fault_def Let_def bind_eq_Some_conv simp del: fun_upd_apply split: sum.splits if_splits)
qed simp

lemma memcpy_full:
  "memcpy_catch_fault tr catch n dst src m = Some (0, m') \<Longrightarrow>
   (\<And>i. i < n \<Longrightarrow> tr (src + word_of_nat i) False = Inr (p i)) \<Longrightarrow>
   (\<And>i. i < n \<Longrightarrow> tr (dst + word_of_nat i) True = Inr (q i)) \<Longrightarrow>
   inj_on q {..<n} \<Longrightarrow> p ` {..<n} \<inter> q ` {..<n} = {} \<Longrightarrow> i < n \<Longrightarrow> m' (q i) = m (p i)"
proof (induction tr catch n dst src m arbitrary: p q i rule: memcpy_catch_fault.induct)
  case (2 tr catch n dst src m)
  have 0: "tr src False = Inr (p 0)" "tr dst True = Inr (q 0)"
    using "2.prems"(2) [of 0] "2.prems"(3) [of 0] by simp_all
  let ?m = "m(q 0 := m (p 0))"
  have run: "memcpy_catch_fault tr catch n (dst + 1) (src + 1) ?m = Some (0, m')"
    using "2.prems"(1) 0 by simp
  have p': "tr (src + 1 + word_of_nat i) False = Inr (p (Suc i))" if "i < n" for i
    using "2.prems"(2) [of "Suc i"] that by (simp add: add.assoc)
  have q': "tr (dst + 1 + word_of_nat i) True = Inr (q (Suc i))" if "i < n" for i
    using "2.prems"(3) [of "Suc i"] that by (simp add: add.assoc)
  have dis: "p j \<noteq> q k" if "j < Suc n" "k < Suc n" for j k
    using "2.prems"(5) that by blast
  have inj: "q j \<noteq> q k" if "j < Suc n" "k < Suc n" "j \<noteq> k" for j k
    using "2.prems"(4) that by (auto dest: inj_onD)
  show ?case
  proof (cases i)
    case 0
    have "m' (q 0) = ?m (q 0)"
    proof (rule memcpy_frame [OF run])
      fix k assume "k < n"
      then show "tr (dst + 1 + word_of_nat k) True \<noteq> Inr (q 0)" using q' [of k] inj [of "Suc k" 0] by simp
    qed
    with 0 show ?thesis by simp
  next
    case (Suc j)
    have "m' ((q \<circ> Suc) j) = ?m ((p \<circ> Suc) j)"
    proof (rule "2.IH" [OF 0 run, where p = "p \<circ> Suc" and q = "q \<circ> Suc" and i = j])
      show "inj_on (q \<circ> Suc) {..<n}"
      proof (rule inj_onI, rule ccontr)
        fix x y assume "x \<in> {..<n}" "y \<in> {..<n}" "(q \<circ> Suc) x = (q \<circ> Suc) y" "x \<noteq> y"
        then show False using inj [of "Suc x" "Suc y"] by simp
      qed
      show "(p \<circ> Suc) ` {..<n} \<inter> (q \<circ> Suc) ` {..<n} = {}" using dis by auto
      show "j < n" using Suc "2.prems"(6) by simp
    qed (simp_all add: p' q')
    moreover have "p (Suc j) \<noteq> q 0" using dis "2.prems"(6) Suc by blast
    ultimately show ?thesis using Suc by simp
  qed
qed simp

lemma copy_to_user_ok:
  assumes "copy_to_user tr dest src len m = Some (e, m')"
  shows "e \<noteq> None \<longrightarrow> e = Some EFAULT" and
    "(\<And>i. i < unat len \<Longrightarrow> unat dest + i < 2 ^ 47 \<Longrightarrow> tr (dest + word_of_nat i) True \<noteq> Inr q) \<Longrightarrow> m' q = m q"
proof -
  show "e \<noteq> None \<longrightarrow> e = Some EFAULT"
    using assms by (auto simp: copy_to_user_def check_user_range_def bind_eq_Some_conv split: if_splits)
  assume h: "\<And>i. i < unat len \<Longrightarrow> unat dest + i < 2 ^ 47 \<Longrightarrow> tr (dest + word_of_nat i) True \<noteq> Inr q"
  show "m' q = m q"
  proof (cases "check_user_range dest len")
    case (Some x)
    with assms show ?thesis by (simp add: copy_to_user_def)
  next
    case None
    then obtain f where run: "memcpy_catch_fault tr MEMCPY_FAULT_WRITE (unat len) dest src m = Some (f, m')"
      using assms by (auto simp: copy_to_user_def bind_eq_Some_conv)
    have "unat dest + unat len \<le> 2 ^ 47" using None check_user_range_iff by blast
    with memcpy_frame [OF run, of q] h show ?thesis by simp
  qed
qed

text \<open>C31. \<open>copy_to_user\<close> never writes outside the caller's buffer: a byte of physical memory that no user
  address of the buffer is mapped to is unchanged, whether the copy succeeds, is refused or stops at a
  fault; its only error is \<open>EFAULT\<close>; and when it reports success on a buffer mapped without aliases, every
  byte has been copied.\<close>

theorem copy_to_user_confined:
  assumes run: "copy_to_user tr dest src len m = Some (e, m')"
  shows "(e = None \<or> e = Some EFAULT) \<and>
    ((\<forall>i < unat len. unat dest + i < 2 ^ 47 \<longrightarrow> tr (dest + word_of_nat i) True \<noteq> Inr x) \<longrightarrow> m' x = m x) \<and>
    (e = None \<longrightarrow>
      (\<forall>i < unat len. tr (src + word_of_nat i) False = Inr (p i) \<and> tr (dest + word_of_nat i) True = Inr (q i)) \<longrightarrow>
      inj_on q {..<unat len} \<longrightarrow> p ` {..<unat len} \<inter> q ` {..<unat len} = {} \<longrightarrow>
      (\<forall>i < unat len. m' (q i) = m (p i)))"
proof (intro conjI impI allI)
  show "e = None \<or> e = Some EFAULT" using copy_to_user_ok(1) [OF run] by blast
  show "m' x = m x" if "\<forall>i < unat len. unat dest + i < 2 ^ 47 \<longrightarrow> tr (dest + word_of_nat i) True \<noteq> Inr x"
    using copy_to_user_ok(2) [OF run] that by blast
  fix i
  assume e: "e = None" and t: "\<forall>i < unat len. tr (src + word_of_nat i) False = Inr (p i) \<and> tr (dest + word_of_nat i) True = Inr (q i)"
    and inj: "inj_on q {..<unat len}" and dis: "p ` {..<unat len} \<inter> q ` {..<unat len} = {}" and i: "i < unat len"
  have "memcpy_catch_fault tr MEMCPY_FAULT_WRITE (unat len) dest src m = Some (0, m')"
    using run e by (auto simp: copy_to_user_def bind_eq_Some_conv split: option.splits if_splits)
  from memcpy_full [OF this _ _ inj dis i] t show "m' (q i) = m (p i)" by blast
qed

theorem copy_to_user_confined_witness:
  "let tr = (\<lambda>a w. Inr (unat a)); m = (\<lambda>_. 0)(0xffff800000000000 := 7); m' = m(0x1000 := 7)
   in copy_to_user tr 0x1000 0xffff800000000000 1 m = Some (None, m') \<and> m' 5 = m 5 \<and> m' 0x1000 = m 0xffff800000000000"
proof -
  let ?tr = "\<lambda>a w. Inr (unat a) :: bool + nat"
  let ?m = "(\<lambda>_. 0 :: u8)(0xffff800000000000 := 7)"
  have run: "copy_to_user ?tr 0x1000 0xffff800000000000 1 ?m = Some (None, ?m(0x1000 := 7))"
    by (simp add: copy_to_user_def check_user_range_def is_user_pointer_def MEM_LOW_HALF_MAX_def sint_pos_unat)
  show ?thesis
    using run copy_to_user_confined [OF run, of 5 "\<lambda>_. 0xffff800000000000" "\<lambda>_. 0x1000"] by simp
qed

text \<open>The page-wise copy between two processes.\<close>

lemma user_user_frame:
  "user_user_loop tr v2p off cnt dst src m = Some (r, m') \<Longrightarrow>
   (\<And>i. i < cnt \<Longrightarrow> tr (dst + word_of_nat i) True \<noteq> Inr x) \<Longrightarrow> m' x = m x"
proof (induction tr v2p off cnt dst src m rule: user_user_loop.induct)
  case (1 tr v2p off cnt dst src m)
  show ?case
  proof (cases "cnt = 0")
    case True
    then show ?thesis using "1.prems"(1) by (simp add: user_user_loop.simps)
  next
    case False
    let ?n = "chunk src cnt"
    have n: "?n \<le> cnt" "0 < ?n" using False by (simp_all add: chunk_bounds)
    obtain err m1 where c: "memcpy_catch_fault tr (MEMCPY_FAULT_READ OR MEMCPY_FAULT_WRITE) ?n dst (v2p src + off) m =
        Some (err, m1)" and rest: "(if err \<noteq> 0 then Some (err, m1)
        else user_user_loop tr v2p off (cnt - ?n) (dst + word_of_nat ?n) (src + word_of_nat ?n) m1) = Some (r, m')"
      using "1.prems"(1) False
      by (subst (asm) user_user_loop.simps) (auto simp: Let_def bind_eq_Some_conv)
    have m1: "m1 x = m x" by (rule memcpy_frame [OF c]) (use "1.prems"(2) n in simp)
    show ?thesis
    proof (cases "err = 0")
      case True
      have later: "tr (dst + word_of_nat ?n + word_of_nat i) True \<noteq> Inr x" if "i < cnt - ?n" for i
        using "1.prems"(2) [of "?n + i"] that by (simp add: add.assoc)
      have "m' x = m1 x"
        by (rule "1.IH" [OF False refl c refl _ _ later]) (use True rest in simp_all)
      with m1 show ?thesis by simp
    qed (use rest m1 in simp)
  qed
qed

text \<open>A fault of either kind is one the copy asked to catch, so the copy always returns.\<close>

lemma fault_caught: "catch_page_fault (fault_code pr wr) (MEMCPY_FAULT_READ OR MEMCPY_FAULT_WRITE) =
    Some (if wr then MEMCPY_FAULT_WRITE else MEMCPY_FAULT_READ)"
  by (cases pr; cases wr) (simp_all add: catch_page_fault_def fault_code_def MEMCPY_FAULT_READ_def MEMCPY_FAULT_WRITE_def)

lemma memcpy_both_total:
  "\<exists>r m'. memcpy_catch_fault tr (MEMCPY_FAULT_READ OR MEMCPY_FAULT_WRITE) n dst src m = Some (r, m') \<and>
     r \<in> {0, MEMCPY_FAULT_READ, MEMCPY_FAULT_WRITE}"
proof (induction n arbitrary: dst src m)
  case (Suc n)
  show ?case
  proof (cases "tr src False")
    case (Inl a)
    then show ?thesis by (simp add: fault_caught)
  next
    case (Inr p)
    then show ?thesis using Suc by (cases "tr dst True") (simp_all add: fault_caught del: fun_upd_apply)
  qed
qed simp

lemma user_user_loop_total:
  "\<exists>r m'. user_user_loop tr v2p off cnt dst src m = Some (r, m') \<and> r \<in> {0, MEMCPY_FAULT_READ, MEMCPY_FAULT_WRITE}"
proof (induction tr v2p off cnt dst src m rule: user_user_loop.induct)
  case (1 tr v2p off cnt dst src m)
  show ?case
  proof (cases "cnt = 0")
    case True
    then show ?thesis by (subst user_user_loop.simps) simp
  next
    case False
    obtain r m' where c: "memcpy_catch_fault tr (MEMCPY_FAULT_READ OR MEMCPY_FAULT_WRITE) (chunk src cnt) dst (v2p src + off) m = Some (r, m')"
      and r: "r \<in> {0, MEMCPY_FAULT_READ, MEMCPY_FAULT_WRITE}" using memcpy_both_total by blast
    show ?thesis
    proof (cases "r = 0")
      case True
      from "1.IH" [OF False refl c refl] True obtain r2 m2 where
        "user_user_loop tr v2p off (cnt - chunk src cnt) (dst + word_of_nat (chunk src cnt)) (src + word_of_nat (chunk src cnt)) m' = Some (r2, m2)"
        "r2 \<in> {0, MEMCPY_FAULT_READ, MEMCPY_FAULT_WRITE}" by blast
      then show ?thesis using False c True by (subst user_user_loop.simps) (simp add: Let_def)
    next
      case ne: False
      then show ?thesis using False c r by (subst user_user_loop.simps) (simp add: Let_def)
    qed
  qed
qed

lemma user_user_total:
  "\<exists>r m'. memcpy_user_user_catch_fault tr v2p off False dst src len m = Some (r, m') \<and>
     r \<in> {0, MEMCPY_FAULT_READ, MEMCPY_FAULT_WRITE}"
  using user_user_loop_total by (auto simp: memcpy_user_user_catch_fault_def)

text \<open>C32. The copy between two processes, which walks the source page by page and is made while no thread is current, always
  returns: with success or with one of the two kinds of fault, never with a panic. It refuses buffers outside the lower half before it
  touches any memory, and writes nothing but bytes the destination buffer is mapped to.\<close>

theorem memcpy_user_user_confined:
  "\<exists>r m'. memcpy_user_user_catch_fault tr v2p off False dst src len m = Some (r, m') \<and>
    (r = 0 \<or> r = MEMCPY_FAULT_READ \<or> r = MEMCPY_FAULT_WRITE) \<and>
    (2 ^ 47 < unat dst + unat len \<or> 2 ^ 47 < unat src + unat len \<longrightarrow> r \<noteq> 0 \<and> m' = m) \<and>
    (\<forall>x. (\<forall>i < unat len. tr (dst + word_of_nat i) True \<noteq> Inr x) \<longrightarrow> m' x = m x)"
proof (cases "check_user_range src len = None \<and> check_user_range dst len = None")
  case True
  obtain r m' where run: "user_user_loop tr v2p off (unat len) dst src m = Some (r, m')"
    "r = 0 \<or> r = MEMCPY_FAULT_READ \<or> r = MEMCPY_FAULT_WRITE" using user_user_loop_total by blast
  have "memcpy_user_user_catch_fault tr v2p off False dst src len m = Some (r, m')"
    using True run by (simp add: memcpy_user_user_catch_fault_def)
  moreover have "unat src + unat len \<le> 2 ^ 47" "unat dst + unat len \<le> 2 ^ 47" using True check_user_range_iff by blast+
  ultimately show ?thesis using run(2) user_user_frame [OF run(1)] by fastforce
next
  case False
  then show ?thesis
    by (auto simp: memcpy_user_user_catch_fault_def MEMCPY_FAULT_READ_def MEMCPY_FAULT_WRITE_def)
qed

theorem memcpy_user_user_confined_witness:
  "\<exists>r m'. memcpy_user_user_catch_fault (\<lambda>a w. Inr (unat a)) (\<lambda>a. a) 0 False 0x1000 0x2000 1 (\<lambda>_. 7) = Some (r, m') \<and> m' 5 = 7"
  using memcpy_user_user_confined [of "\<lambda>a w. Inr (unat a)" "\<lambda>a. a" 0 "0x1000" "0x2000" 1 "\<lambda>_. 7"] by auto

text \<open>A source page that is not mapped is not detected: \<open>virt_to_phys\<close> answers zero for it, the answer is
  not tested, and the copy delivers the bytes at physical address zero to the other process instead of a
  read fault.\<close>

theorem unmapped_source_reads_page_zero:
  assumes "unat src + 1 \<le> 2 ^ 47" and "unat dst + 1 \<le> 2 ^ 47" and "v2p src = 0"
    and "tr off False = Inr zero_page" and "tr dst True = Inr q"
  shows "memcpy_user_user_catch_fault tr v2p off False dst src 1 m = Some (0, m(q := m zero_page))"
proof -
  have "check_user_range src 1 = None" "check_user_range dst 1 = None"
    using assms(1,2) by (simp_all add: check_user_range_iff)
  moreover have "chunk src (Suc 0) = 1" using chunk_bounds [of "Suc 0" src] by simp
  ultimately show ?thesis using assms(3-5)
    by (simp add: memcpy_user_user_catch_fault_def user_user_loop.simps Let_def del: fun_upd_apply)
qed

theorem unmapped_source_reads_page_zero_witness:
  "let m = (\<lambda>_. 0)(0xffff800000000000 := 7) in
   memcpy_user_user_catch_fault (\<lambda>a w. Inr (unat a)) (\<lambda>_. 0) 0xffff800000000000 False 0x1000 0x2000 1 m =
   Some (0, m(0x1000 := m 0xffff800000000000))"
  unfolding Let_def by (rule unmapped_source_reads_page_zero) simp_all

end
