(* ===== verification/Schedule.thy ===== *)
theory Schedule
  imports Queue
begin

text \<open>
  Threads and the scheduler: \<open>kernel/src/user/schedule.cxx\<close>, \<open>kernel/src/user/thread.cxx\<close>, the thread state
  machine of \<open>kernel/src/x86_64/cpu.h\<close> and the context switches of \<open>kernel/src/x86_64/cpu.c\<close>.

  Run queue, channel queues and interrupt queues are the intrusive queues of \<open>Queue\<close>. The sleep list is
  the code's own pointer structure: every sleeper has a \<open>next\<close> pointer and a \<open>prev\<close> that is the address
  of the field pointing at it (\<open>SleepHead\<close> or the \<open>next\<close> field of another thread).

  The clock is the argument \<open>now\<close> (one reading of \<open>nanoseconds()\<close>). A function that leaves the kernel by
  restoring a thread or by going idle returns the state it leaves with; \<open>current = None\<close> is then the
  idle processor. Floating-point state and model-specific registers are not modelled.
\<close>

section \<open>The state\<close>

record registers =
  reg_rax :: u64 reg_rbx :: u64 reg_rcx :: u64 reg_rdx :: u64
  reg_rsi :: u64 reg_rdi :: u64 reg_rbp :: u64
  reg_r8 :: u64 reg_r9 :: u64 reg_r10 :: u64 reg_r11 :: u64
  reg_r12 :: u64 reg_r13 :: u64 reg_r14 :: u64 reg_r15 :: u64
  reg_isrno :: u64 reg_error_code :: u64 reg_rip :: u64 reg_cs :: u64
  reg_rflags :: u64 reg_rsp :: u64 reg_ss :: u64

definition GDT_KERNEL_CODE :: u64 where "GDT_KERNEL_CODE = 0x08"
definition GDT_KERNEL_DATA :: u64 where "GDT_KERNEL_DATA = 0x10"
definition GDT_USER_DATA :: u64 where "GDT_USER_DATA = 0x23"
definition GDT_USER64_CODE :: u64 where "GDT_USER64_CODE = 0x2b"

definition zero_registers :: registers where
  "zero_registers = \<lparr>reg_rax = 0, reg_rbx = 0, reg_rcx = 0, reg_rdx = 0, reg_rsi = 0, reg_rdi = 0,
     reg_rbp = 0, reg_r8 = 0, reg_r9 = 0, reg_r10 = 0, reg_r11 = 0, reg_r12 = 0, reg_r13 = 0, reg_r14 = 0,
     reg_r15 = 0, reg_isrno = 0, reg_error_code = 0, reg_rip = 0, reg_cs = 0, reg_rflags = 0, reg_rsp = 0,
     reg_ss = 0\<rparr>"

datatype thread_state = FLOATING | RUNNING | READY | WAITING | SLEEPING | CALLING

type_synonym tid = nat

datatype sleep_slot = SleepHead | NextField tid

record thread =
  t_page_map :: u64
  t_ctx :: registers
  t_state :: thread_state
  t_prev :: "sleep_slot option"
  t_next :: "tid option"
  t_ns :: u64
  t_caller :: "tid option"

text \<open>The queues threads can wait in: the run queue, one per interrupt, one per channel of a server.\<close>

datatype qid = RunQueue | IrqQueue nat | ChanQueue nat nat

record kernel =
  threads :: "tid \<Rightarrow> thread"
  wait_q :: "(tid, qid) qheap"
  sleep_head :: "tid option"
  current :: "tid option"
  user_ctx :: registers
  cr3 :: u64

definition upd_thread :: "tid \<Rightarrow> (thread \<Rightarrow> thread) \<Rightarrow> kernel \<Rightarrow> kernel" where
  "upd_thread t f k = k\<lparr>threads := (threads k)(t := f (threads k t))\<rparr>"

definition set_state :: "tid \<Rightarrow> thread_state \<Rightarrow> kernel \<Rightarrow> kernel" where
  "set_state t s = upd_thread t (t_state_update (\<lambda>_. s))"

definition upd_ctx :: "tid \<Rightarrow> (registers \<Rightarrow> registers) \<Rightarrow> kernel \<Rightarrow> kernel" where
  "upd_ctx t f = upd_thread t (t_ctx_update f)"

text \<open>\<open>CTX_SYS_R0(&thread->ctx) = v\<close>.\<close>

definition set_r0 :: "tid \<Rightarrow> u64 \<Rightarrow> kernel \<Rightarrow> kernel" where
  "set_r0 t v = upd_ctx t (reg_rax_update (\<lambda>_. v))"

definition in_queue :: "tid \<Rightarrow> kernel \<Rightarrow> bool" where
  "in_queue t k \<longleftrightarrow> qn_root (qnodes (wait_q k) t) \<noteq> None"

section \<open>Queues of threads\<close>

definition kqueue_push :: "qid \<Rightarrow> tid \<Rightarrow> kernel \<Rightarrow> kernel option" where
  "kqueue_push q t k = do { h \<leftarrow> queue_push q t (wait_q k); Some (k\<lparr>wait_q := h\<rparr>) }"

definition kqueue_pop :: "qid \<Rightarrow> kernel \<Rightarrow> (tid option \<times> kernel) option" where
  "kqueue_pop q k = do { (r, h) \<leftarrow> queue_pop q (wait_q k); Some (r, k\<lparr>wait_q := h\<rparr>) }"

definition kqueue_remove :: "tid \<Rightarrow> kernel \<Rightarrow> kernel option" where
  "kqueue_remove t k = do { h \<leftarrow> queue_node_remove t (wait_q k); Some (k\<lparr>wait_q := h\<rparr>) }"

section \<open>The sleep list\<close>

definition read_sleep :: "sleep_slot \<Rightarrow> kernel \<Rightarrow> tid option" where
  "read_sleep p k = (case p of SleepHead \<Rightarrow> sleep_head k | NextField t \<Rightarrow> t_next (threads k t))"

definition write_sleep :: "sleep_slot \<Rightarrow> tid option \<Rightarrow> kernel \<Rightarrow> kernel" where
  "write_sleep p v k = (case p of
     SleepHead \<Rightarrow> k\<lparr>sleep_head := v\<rparr>
   | NextField t \<Rightarrow> upd_thread t (t_next_update (\<lambda>_. v)) k)"

text \<open>\<open>Thread::Timeout::cancel\<close>.\<close>

definition timeout_cancel :: "tid \<Rightarrow> kernel \<Rightarrow> kernel" where
  "timeout_cancel t k =
     (case t_prev (threads k t) of
        None \<Rightarrow> k
      | Some p \<Rightarrow>
          (let nx = t_next (threads k t);
               k = (case nx of None \<Rightarrow> k | Some n \<Rightarrow> upd_thread n (t_prev_update (\<lambda>_. Some p)) k);
               k = write_sleep p nx k
           in upd_thread t (\<lambda>th. th\<lparr>t_prev := None, t_next := None, t_ns := 0\<rparr>) k))"

text \<open>The search of \<open>set_timeout\<close>: the field to insert at, and the thread after it. A cyclic list would
  make it run forever, which is \<open>None\<close>.\<close>

partial_function (option) find_slot :: "u64 \<Rightarrow> sleep_slot \<Rightarrow> kernel \<Rightarrow> (sleep_slot \<times> tid option) option" where
  "find_slot timeout p k =
     (case read_sleep p k of
        None \<Rightarrow> Some (p, None)
      | Some nx \<Rightarrow>
          (if timeout < t_ns (threads k nx) then Some (p, Some nx)
           else find_slot timeout (NextField nx) k))"

definition set_timeout :: "u64 \<Rightarrow> tid \<Rightarrow> u64 \<Rightarrow> kernel \<Rightarrow> kernel option" where
  "set_timeout now t ns k = do {
     kassert (t_prev (threads k t) = None);
     kassert (t_next (threads k t) = None);
     let timeout = ns + now;
     let k = upd_thread t (t_ns_update (\<lambda>_. timeout)) k;
     (p, nx) \<leftarrow> find_slot timeout SleepHead k;
     let k = (case nx of None \<Rightarrow> k | Some n \<Rightarrow> upd_thread n (t_prev_update (\<lambda>_. Some (NextField t))) k);
     let k = upd_thread t (\<lambda>th. th\<lparr>t_next := read_sleep p k, t_prev := Some p\<rparr>) k;
     Some (write_sleep p (Some t) k)
   }"

section \<open>Thread operations\<close>

definition push_into :: "tid \<Rightarrow> qid \<Rightarrow> kernel \<Rightarrow> kernel option" where
  "push_into t q k = do {
     kassert (t_state (threads k t) = FLOATING);
     kassert (\<not> in_queue t k);
     kassert (t_prev (threads k t) = None);
     kassert (t_next (threads k t) = None);
     kqueue_push q t (set_state t WAITING k)
   }"

definition pop_from :: "qid \<Rightarrow> kernel \<Rightarrow> (tid option \<times> kernel) option" where
  "pop_from q k = do {
     (r, k) \<leftarrow> kqueue_pop q k;
     case r of
       None \<Rightarrow> Some (None, k)
     | Some t \<Rightarrow> do {
         kassert (t_state (threads k t) = WAITING);
         Some (Some t, timeout_cancel t (set_state t FLOATING k))
       }
   }"

definition schedule_ready :: "tid \<Rightarrow> kernel \<Rightarrow> kernel option" where
  "schedule_ready t k = do {
     kassert (t_state (threads k t) = FLOATING);
     kqueue_push RunQueue t (set_state t READY k)
   }"

definition run_queue_pop :: "kernel \<Rightarrow> (tid option \<times> kernel) option" where
  "run_queue_pop k = do {
     (r, k) \<leftarrow> kqueue_pop RunQueue k;
     case r of
       None \<Rightarrow> Some (None, k)
     | Some t \<Rightarrow> do {
         kassert (t_state (threads k t) = READY);
         Some (Some t, set_state t FLOATING k)
       }
   }"

definition schedule_nanosleep :: "u64 \<Rightarrow> tid \<Rightarrow> u64 \<Rightarrow> kernel \<Rightarrow> kernel option" where
  "schedule_nanosleep now t wait_ns k = do {
     kassert (t_state (threads k t) = FLOATING);
     kassert (\<not> in_queue t k);
     let k = set_state t SLEEPING k;
     kassert (0 <s wait_ns);
     set_timeout now t wait_ns k
   }"

definition schedule_queue_with_timeout :: "u64 \<Rightarrow> tid \<Rightarrow> qid \<Rightarrow> u64 \<Rightarrow> errno \<Rightarrow> kernel \<Rightarrow> kernel option" where
  "schedule_queue_with_timeout now t q wait_ns e k = do {
     kassert (0 <s wait_ns);
     let k = set_r0 t (neg_errno e) k;
     k \<leftarrow> push_into t q k;
     set_timeout now t wait_ns k
   }"

definition schedule_wake :: "tid \<Rightarrow> u64 \<Rightarrow> kernel \<Rightarrow> kernel option" where
  "schedule_wake t v k = do {
     kassert (t_state (threads k t) = SLEEPING \<or> t_state (threads k t) = WAITING);
     kassert (\<not> in_queue t k);
     let k = timeout_cancel t (set_r0 t v (set_state t FLOATING k));
     schedule_ready t k
   }"

partial_function (option) schedule_wake_all :: "qid \<Rightarrow> u64 \<Rightarrow> kernel \<Rightarrow> kernel option" where
  "schedule_wake_all q v k = do {
     (r, k) \<leftarrow> kqueue_pop q k;
     case r of
       None \<Rightarrow> Some k
     | Some t \<Rightarrow> do { k \<leftarrow> schedule_wake t v k; schedule_wake_all q v k }
   }"

text \<open>The loop of \<open>wakeup_sleepers\<close>; the result is the first thread that stays asleep.\<close>

partial_function (option) wake_loop :: "u64 \<Rightarrow> tid option \<Rightarrow> kernel \<Rightarrow> (tid option \<times> kernel) option" where
  "wake_loop now queued k =
     (case queued of
        None \<Rightarrow> Some (None, k)
      | Some t \<Rightarrow>
          (if t_ns (threads k t) < now then do {
             k \<leftarrow> (case t_state (threads k t) of
                      WAITING \<Rightarrow> kqueue_remove t k
                    | SLEEPING \<Rightarrow> do { kassert (\<not> in_queue t k); Some k }
                    | _ \<Rightarrow> None);
             let k = set_state t FLOATING k;
             let nx = t_next (threads k t);
             let k = upd_thread t (\<lambda>th. th\<lparr>t_prev := None, t_next := None, t_ns := 0\<rparr>) k;
             k \<leftarrow> schedule_ready t k;
             wake_loop now nx k
           }
           else Some (Some t, k)))"

definition wakeup_sleepers :: "u64 \<Rightarrow> kernel \<Rightarrow> kernel option" where
  "wakeup_sleepers now k = do {
     (r, k) \<leftarrow> wake_loop now (sleep_head k) k;
     let k = k\<lparr>sleep_head := r\<rparr>;
     Some (case r of None \<Rightarrow> k | Some t \<Rightarrow> upd_thread t (t_prev_update (\<lambda>_. Some SleepHead)) k)
   }"

section \<open>Context switches\<close>

definition cpu_context_save :: "kernel \<Rightarrow> (tid \<times> kernel) option" where
  "cpu_context_save k = do {
     t \<leftarrow> current k;
     kassert (reg_cs (user_ctx k) = GDT_USER64_CODE);
     kassert (t_state (threads k t) = RUNNING);
     let k = upd_thread t (\<lambda>th. th\<lparr>t_ctx := user_ctx k, t_state := FLOATING\<rparr>) k;
     Some (t, k\<lparr>current := None\<rparr>)
   }"

definition cpu_context_restore_and_exit :: "tid \<Rightarrow> kernel \<Rightarrow> kernel option" where
  "cpu_context_restore_and_exit t k = do {
     kassert (current k = None);
     kassert (t_state (threads k t) = FLOATING);
     kassert (reg_cs (t_ctx (threads k t)) = GDT_USER64_CODE);
     let k = k\<lparr>cr3 := t_page_map (threads k t), current := Some t\<rparr>;
     let k = set_state t RUNNING k;
     Some (k\<lparr>user_ctx := t_ctx (threads k t)\<rparr>)
   }"

text \<open>\<open>idle_rip\<close> and \<open>kernel_stack\<close> are addresses the build fixes.\<close>

definition cpu_exit_idle :: "u64 \<Rightarrow> u64 \<Rightarrow> kernel \<Rightarrow> kernel option" where
  "cpu_exit_idle idle_rip kernel_stack k = do {
     kassert (current k = None);
     Some (k\<lparr>user_ctx := zero_registers\<lparr>reg_cs := GDT_KERNEL_CODE, reg_ss := GDT_KERNEL_DATA,
       reg_rflags := 0x202, reg_rip := idle_rip, reg_rsp := kernel_stack\<rparr>\<rparr>)
   }"

definition cpu_context_initialise_user :: "bool \<Rightarrow> tid \<Rightarrow> u64 \<Rightarrow> u64 \<Rightarrow> u64 \<Rightarrow> kernel \<Rightarrow> (errno option \<times> kernel)" where
  "cpu_context_initialise_user mem_ok t page_map code stack k =
     (let k = upd_thread t (\<lambda>th. th\<lparr>t_state := FLOATING, t_page_map := page_map,
           t_ctx := zero_registers\<lparr>reg_cs := GDT_USER64_CODE, reg_ss := GDT_USER_DATA, reg_rflags := 0x3202,
             reg_rip := code, reg_rsp := stack\<rparr>\<rparr>) k
      in if mem_ok then (None, k) else (Some ENOMEM, k))"

definition cpu_context_clone_current :: "bool \<Rightarrow> tid \<Rightarrow> kernel \<Rightarrow> (errno option \<times> kernel) option" where
  "cpu_context_clone_current mem_ok t k = do {
     cur \<leftarrow> current k;
     kassert (t_state (threads k cur) = RUNNING);
     let k = upd_thread t (\<lambda>th. th\<lparr>t_state := FLOATING, t_ctx := user_ctx k,
       t_page_map := t_page_map (threads k cur)\<rparr>) k;
     Some (if mem_ok then None else Some ENOMEM, k)
   }"

text \<open>\<open>schedule\<close> returns (\<open>False\<close>) when no thread is ready, and otherwise leaves the kernel (\<open>True\<close>).\<close>

definition schedule :: "u64 \<Rightarrow> kernel \<Rightarrow> (bool \<times> kernel) option" where
  "schedule now k = do {
     k \<leftarrow> wakeup_sleepers now k;
     (r, k) \<leftarrow> run_queue_pop k;
     case r of
       None \<Rightarrow> Some (False, k)
     | Some t \<Rightarrow> do {
         k \<leftarrow> (case current k of
                  None \<Rightarrow> Some k
                | Some running \<Rightarrow> do { (_, k) \<leftarrow> cpu_context_save k; schedule_ready running k });
         k \<leftarrow> cpu_context_restore_and_exit t k;
         Some (True, k)
       }
   }"

definition schedule_or_exit :: "u64 \<Rightarrow> u64 \<Rightarrow> u64 \<Rightarrow> kernel \<Rightarrow> kernel option" where
  "schedule_or_exit idle_rip kernel_stack now k = do {
     (left, k) \<leftarrow> schedule now k;
     if left then Some k else cpu_exit_idle idle_rip kernel_stack k
   }"

section \<open>The sleep list as a list\<close>

fun sseg :: "(tid \<Rightarrow> sleep_slot option) \<Rightarrow> (tid \<Rightarrow> tid option) \<Rightarrow> sleep_slot \<Rightarrow> tid list \<Rightarrow> tid option \<Rightarrow> bool" where
  "sseg pv nx p [] e \<longleftrightarrow> True"
| "sseg pv nx p (x # xs) e \<longleftrightarrow> pv x = Some p \<and> nx x = first_or e xs \<and> sseg pv nx (NextField x) xs e"

fun end_slot :: "sleep_slot \<Rightarrow> tid list \<Rightarrow> sleep_slot" where
  "end_slot p [] = p"
| "end_slot p (x # xs) = end_slot (NextField x) xs"

definition sleep_rep :: "(tid \<Rightarrow> sleep_slot option) \<Rightarrow> (tid \<Rightarrow> tid option) \<Rightarrow> tid option \<Rightarrow> tid list \<Rightarrow> bool" where
  "sleep_rep pv nx h xs \<longleftrightarrow> h = first_or None xs \<and> distinct xs \<and> sseg pv nx SleepHead xs None \<and>
     (\<forall>t. t \<notin> set xs \<longrightarrow> pv t = None \<and> nx t = None)"

lemma end_slot_append [simp]: "end_slot p (xs @ ys) = end_slot (end_slot p xs) ys"
  by (induction xs arbitrary: p) simp_all

lemma sseg_append: "sseg pv nx p (xs @ ys) e \<longleftrightarrow> sseg pv nx p xs (first_or e ys) \<and> sseg pv nx (end_slot p xs) ys e"
  by (induction xs arbitrary: p) auto

lemma sseg_cong:
  "(\<And>x. x \<in> set xs \<Longrightarrow> pv' x = pv x \<and> nx' x = nx x) \<Longrightarrow> sseg pv' nx' p xs e = sseg pv nx p xs e"
  by (induction xs arbitrary: p) auto

lemma sseg_upd_pv [simp]: "t \<notin> set xs \<Longrightarrow> sseg (pv(t := v)) nx p xs e = sseg pv nx p xs e"
  by (rule sseg_cong) auto

lemma sseg_upd_nx [simp]: "t \<notin> set xs \<Longrightarrow> sseg pv (nx(t := v)) p xs e = sseg pv nx p xs e"
  by (rule sseg_cong) auto

lemma end_slot_cases: "end_slot p xs = (if xs = [] then p else NextField (last xs))"
  by (induction xs arbitrary: p) auto

text \<open>What the code writes when it links \<open>t\<close> in at slot \<open>p\<close>, before \<open>nx\<close>.\<close>

lemma sleep_rep_head: "sleep_rep pv nx h xs \<Longrightarrow> h = first_or None xs"
  by (simp add: sleep_rep_def)

lemma sseg_slot_value:
  assumes "sseg pv nx p (as @ bs) None" "h = first_or None (as @ bs)" "p = SleepHead"
  shows "(case end_slot p as of SleepHead \<Rightarrow> h | NextField x \<Rightarrow> nx x) = first_or None bs"
proof (cases as rule: rev_cases)
  case Nil
  then show ?thesis using assms by simp
next
  case (snoc ys y)
  then show ?thesis using assms by (simp add: sseg_append)
qed

definition link_in :: "sleep_slot \<Rightarrow> tid \<Rightarrow> tid option \<Rightarrow>
    (tid \<Rightarrow> sleep_slot option) \<times> (tid \<Rightarrow> tid option) \<times> tid option \<Rightarrow>
    (tid \<Rightarrow> sleep_slot option) \<times> (tid \<Rightarrow> tid option) \<times> tid option" where
  "link_in p t n = (\<lambda>(pv, nx, h).
     let pv = (case n of None \<Rightarrow> pv | Some m \<Rightarrow> pv(m := Some (NextField t)));
         pv = pv(t := Some p); nx = nx(t := n)
     in (case p of SleepHead \<Rightarrow> (pv, nx, Some t) | NextField x \<Rightarrow> (pv, nx(x := Some t), h)))"

lemma link_in_rep:
  assumes rep: "sleep_rep pv nx h (as @ bs)" and t: "t \<notin> set (as @ bs)"
    and l: "link_in (end_slot SleepHead as) t (first_or None bs) (pv, nx, h) = (pv', nx', h')"
  shows "sleep_rep pv' nx' h' (as @ t # bs)"
proof (cases as rule: rev_cases)
  case Nil
  then show ?thesis using assms by (cases bs) (auto simp: link_in_def sleep_rep_def Let_def)
next
  case (snoc ys y)
  then have d: "distinct (ys @ y # bs)" "y \<noteq> t" "y \<notin> set ys" "y \<notin> set bs" "t \<notin> set ys" "t \<notin> set bs"
    using rep t by (auto simp: sleep_rep_def)
  show ?thesis
  proof (cases bs)
    case Nil
    then show ?thesis using assms snoc d by (auto simp: link_in_def sleep_rep_def Let_def sseg_append)
  next
    case (Cons b cs)
    then show ?thesis using assms snoc d by (auto simp: link_in_def sleep_rep_def Let_def sseg_append)
  qed
qed

definition link_out :: "tid \<Rightarrow>
    (tid \<Rightarrow> sleep_slot option) \<times> (tid \<Rightarrow> tid option) \<times> tid option \<Rightarrow>
    (tid \<Rightarrow> sleep_slot option) \<times> (tid \<Rightarrow> tid option) \<times> tid option" where
  "link_out t = (\<lambda>(pv, nx, h). case pv t of
      None \<Rightarrow> (pv, nx, h)
    | Some p \<Rightarrow>
      (let n = nx t;
           pv = (case n of None \<Rightarrow> pv | Some m \<Rightarrow> pv(m := Some p));
           (nx, h) = (case p of SleepHead \<Rightarrow> (nx, n) | NextField x \<Rightarrow> (nx(x := n), h))
       in (pv(t := None), nx(t := None), h)))"

lemma link_out_rep:
  assumes rep: "sleep_rep pv nx h (as @ t # bs)" and l: "link_out t (pv, nx, h) = (pv', nx', h')"
  shows "sleep_rep pv' nx' h' (as @ bs)"
proof (cases as rule: rev_cases)
  case Nil
  then show ?thesis using assms by (cases bs) (auto simp: link_out_def sleep_rep_def Let_def)
next
  case (snoc ys y)
  then have d: "distinct (ys @ y # t # bs)" "y \<noteq> t" "y \<notin> set ys" "y \<notin> set bs" "t \<notin> set ys" "t \<notin> set bs"
    using rep by (auto simp: sleep_rep_def)
  show ?thesis
  proof (cases bs)
    case Nil
    then show ?thesis using assms snoc d by (auto simp: link_out_def sleep_rep_def Let_def sseg_append)
  next
    case (Cons b cs)
    then show ?thesis using assms snoc d by (auto simp: link_out_def sleep_rep_def Let_def sseg_append)
  qed
qed

lemma link_out_idle: "sleep_rep pv nx h xs \<Longrightarrow> t \<notin> set xs \<Longrightarrow> link_out t (pv, nx, h) = (pv, nx, h)"
  by (simp add: sleep_rep_def link_out_def)

text \<open>The list pointers of a kernel state.\<close>

definition slinks :: "kernel \<Rightarrow> (tid \<Rightarrow> sleep_slot option) \<times> (tid \<Rightarrow> tid option) \<times> tid option" where
  "slinks k = (\<lambda>t. t_prev (threads k t), \<lambda>t. t_next (threads k t), sleep_head k)"

lemma slinks_upd_thread:
  "(\<And>th. t_prev (f th) = t_prev th) \<Longrightarrow> (\<And>th. t_next (f th) = t_next th) \<Longrightarrow> slinks (upd_thread t f k) = slinks k"
  by (auto simp: slinks_def upd_thread_def)

lemma timeout_cancel_links: "slinks (timeout_cancel t k) = link_out t (slinks k)"
  by (auto simp: slinks_def link_out_def timeout_cancel_def write_sleep_def upd_thread_def Let_def fun_eq_iff
      split: option.splits sleep_slot.splits)

lemma upd_thread_sel [simp]:
  "threads (upd_thread t f k) = (threads k)(t := f (threads k t))"
  "wait_q (upd_thread t f k) = wait_q k" "sleep_head (upd_thread t f k) = sleep_head k"
  "current (upd_thread t f k) = current k" "user_ctx (upd_thread t f k) = user_ctx k" "cr3 (upd_thread t f k) = cr3 k"
  by (simp_all add: upd_thread_def)

lemma cancel_sel [simp]:
  "t_state (threads (timeout_cancel t k) x) = t_state (threads k x)"
  "t_ctx (threads (timeout_cancel t k) x) = t_ctx (threads k x)"
  "t_page_map (threads (timeout_cancel t k) x) = t_page_map (threads k x)"
  "t_caller (threads (timeout_cancel t k) x) = t_caller (threads k x)"
  "wait_q (timeout_cancel t k) = wait_q k" "current (timeout_cancel t k) = current k"
  "user_ctx (timeout_cancel t k) = user_ctx k" "cr3 (timeout_cancel t k) = cr3 k"
  by (auto simp: timeout_cancel_def write_sleep_def Let_def split: option.splits sleep_slot.splits)

lemma cancel_ns: "x \<noteq> t \<Longrightarrow> t_ns (threads (timeout_cancel t k) x) = t_ns (threads k x)"
  by (auto simp: timeout_cancel_def write_sleep_def Let_def split: option.splits sleep_slot.splits)

section \<open>The scheduler's invariant\<close>

definition links_ok :: "kernel \<Rightarrow> tid list \<Rightarrow> bool" where
  "links_ok k xs \<longleftrightarrow> (case slinks k of (pv, nx, h) \<Rightarrow> sleep_rep pv nx h xs)"

definition states_ok :: "(tid \<Rightarrow> thread_state) \<Rightarrow> tid option \<Rightarrow> (qid \<Rightarrow> tid list) \<Rightarrow> tid list \<Rightarrow> bool" where
  "states_ok st cur c xs \<longleftrightarrow>
     (\<forall>q t. t \<in> set (c q) \<longrightarrow> st t = (if q = RunQueue then READY else WAITING)) \<and>
     (\<forall>t. st t = READY \<longrightarrow> t \<in> set (c RunQueue)) \<and>
     (\<forall>t. st t = WAITING \<longrightarrow> (\<exists>q. q \<noteq> RunQueue \<and> t \<in> set (c q))) \<and>
     (\<forall>t. t \<in> set xs \<longrightarrow> st t = SLEEPING \<or> st t = WAITING) \<and>
     (\<forall>t. st t = SLEEPING \<longrightarrow> t \<in> set xs) \<and>
     (\<forall>t. cur = Some t \<longleftrightarrow> st t = RUNNING)"

abbreviation state_of :: "kernel \<Rightarrow> tid \<Rightarrow> thread_state" where
  "state_of k \<equiv> (\<lambda>t. t_state (threads k t))"

abbreviation ns_of :: "kernel \<Rightarrow> tid \<Rightarrow> u64" where
  "ns_of k \<equiv> (\<lambda>t. t_ns (threads k t))"

abbreviation user_mode :: "registers \<Rightarrow> bool" where
  "user_mode r \<equiv> reg_cs r = GDT_USER64_CODE"

definition modes_ok :: "kernel \<Rightarrow> bool" where
  "modes_ok k \<longleftrightarrow> (current k \<noteq> None \<longrightarrow> user_mode (user_ctx k)) \<and>
     (\<forall>t. state_of k t \<notin> {FLOATING, RUNNING} \<longrightarrow> user_mode (t_ctx (threads k t)))"

text \<open>
  \<open>sched_inv k c xs\<close>: \<open>c\<close> gives the contents of every queue and \<open>xs\<close> the sleepers in order of their
  timeouts; a thread is in the run queue exactly when it is \<open>READY\<close>, in exactly one other queue when it is
  \<open>WAITING\<close>, in the sleep list when it is \<open>SLEEPING\<close> (or waits with a timeout), and it is the processor's
  current thread exactly when it is \<open>RUNNING\<close>.
\<close>

definition sched_inv :: "kernel \<Rightarrow> (qid \<Rightarrow> tid list) \<Rightarrow> tid list \<Rightarrow> bool" where
  "sched_inv k c xs \<longleftrightarrow> queue_rep (wait_q k) c \<and> links_ok k xs \<and> states_ok (state_of k) (current k) c xs \<and>
     sorted (map (ns_of k) xs) \<and> modes_ok k"

lemma states_okI:
  assumes "\<And>q t. t \<in> set (c q) \<Longrightarrow> st t = (if q = RunQueue then READY else WAITING)"
    and "\<And>t. st t = READY \<Longrightarrow> t \<in> set (c RunQueue)"
    and "\<And>t. st t = WAITING \<Longrightarrow> \<exists>q. q \<noteq> RunQueue \<and> t \<in> set (c q)"
    and "\<And>t. t \<in> set xs \<Longrightarrow> st t = SLEEPING \<or> st t = WAITING"
    and "\<And>t. st t = SLEEPING \<Longrightarrow> t \<in> set xs"
    and "\<And>t. cur = Some t \<longleftrightarrow> st t = RUNNING"
  shows "states_ok st cur c xs"
  unfolding states_ok_def using assms by blast

lemma states_okD:
  assumes "states_ok st cur c xs"
  shows "\<And>q t. t \<in> set (c q) \<Longrightarrow> st t = (if q = RunQueue then READY else WAITING)"
    and "\<And>t. st t = READY \<Longrightarrow> t \<in> set (c RunQueue)"
    and "\<And>t. st t = WAITING \<Longrightarrow> \<exists>q. q \<noteq> RunQueue \<and> t \<in> set (c q)"
    and "\<And>t. t \<in> set xs \<Longrightarrow> st t = SLEEPING \<or> st t = WAITING"
    and "\<And>t. st t = SLEEPING \<Longrightarrow> t \<in> set xs"
    and "\<And>t. cur = Some t \<longleftrightarrow> st t = RUNNING"
  using assms unfolding states_ok_def by blast+

lemma states_idle:
  assumes s: "states_ok st cur c xs" and t: "st t \<in> {FLOATING, RUNNING, CALLING}"
  shows "t \<notin> set (c q)" "t \<notin> set xs"
  using states_okD(1) [OF s, of t q] states_okD(4) [OF s, of t] t by (auto split: if_splits)

text \<open>The transitions of the state machine, on the abstract view.\<close>

lemma states_ready:
  assumes s: "states_ok st cur c xs" and t: "st t = FLOATING"
  shows "states_ok (st(t := READY)) cur (c(RunQueue := c RunQueue @ [t])) xs"
proof -
  have n: "t \<notin> set (c q)" "t \<notin> set xs" for q using states_idle [OF s] t by auto
  show ?thesis
    by (rule states_okI) (use n t states_okD [OF s] in \<open>force split: if_splits\<close>)+
qed

lemma states_unready:
  assumes s: "states_ok st cur c xs" and c: "c RunQueue = t # ts" "t \<notin> set ts"
  shows "states_ok (st(t := FLOATING)) cur (c(RunQueue := ts)) xs"
proof -
  have t: "st t = READY" using states_okD(1) [OF s, of t RunQueue] c by simp
  have n: "t \<notin> set (c q)" "t \<notin> set xs" if "q \<noteq> RunQueue" for q
    using states_okD(1) [OF s, of t q] states_okD(4) [OF s, of t] t that by auto
  have r: "x \<in> set ts \<longleftrightarrow> st x = READY \<and> x \<noteq> t" for x
    using states_okD(1) [OF s, of x RunQueue] states_okD(2) [OF s, of x] c by auto
  show ?thesis
  proof (rule states_okI)
    fix q x assume "x \<in> set ((c(RunQueue := ts)) q)"
    then show "(st(t := FLOATING)) x = (if q = RunQueue then READY else WAITING)"
      using r [of x] n [of q] states_okD(1) [OF s, of x q] by (auto split: if_splits)
  next
    fix x assume "(st(t := FLOATING)) x = WAITING"
    then obtain q where "q \<noteq> RunQueue" "x \<in> set (c q)" using states_okD(3) [OF s, of x] by (auto split: if_splits)
    then show "\<exists>q. q \<noteq> RunQueue \<and> x \<in> set ((c(RunQueue := ts)) q)" by (intro exI [of _ q]) simp
  next
    fix x assume x: "x \<in> set xs"
    with n(2) [of "IrqQueue 0"] have "x \<noteq> t" by auto
    with states_okD(4) [OF s x] show "(st(t := FLOATING)) x = SLEEPING \<or> (st(t := FLOATING)) x = WAITING" by simp
  qed (use r t states_okD(5,6) [OF s] in \<open>auto split: if_splits\<close>)
qed

lemma states_wait:
  assumes s: "states_ok st cur c xs" and t: "st t = FLOATING" and q: "q \<noteq> RunQueue"
  shows "states_ok (st(t := WAITING)) cur (c(q := c q @ [t])) xs"
proof -
  have n: "t \<notin> set (c q')" "t \<notin> set xs" for q' using states_idle [OF s] t by auto
  show ?thesis
  proof (rule states_okI)
    fix x assume "(st(t := WAITING)) x = WAITING"
    then show "\<exists>q'. q' \<noteq> RunQueue \<and> x \<in> set ((c(q := c q @ [t])) q')"
    proof (cases "x = t")
      case False
      then obtain q' where "q' \<noteq> RunQueue" "x \<in> set (c q')"
        using states_okD(3) [OF s, of x] \<open>(st(t := WAITING)) x = WAITING\<close> by auto
      then show ?thesis by (intro exI [of _ q']) auto
    qed (use q in \<open>intro exI [of _ q], simp\<close>)
  next
    fix q' x assume "x \<in> set ((c(q := c q @ [t])) q')"
    then show "(st(t := WAITING)) x = (if q' = RunQueue then READY else WAITING)"
      using states_okD(1) [OF s, of x q'] n(1) [of q'] q by (auto split: if_splits)
  qed (use n t q states_okD(2,4,5,6) [OF s] in \<open>auto split: if_splits\<close>)
qed

lemma states_sleep:
  assumes s: "states_ok st cur c xs" and t: "st t = FLOATING" and ys: "set ys = insert t (set xs)"
  shows "states_ok (st(t := SLEEPING)) cur c ys"
proof -
  have n: "t \<notin> set (c q')" for q' using states_idle [OF s] t by auto
  show ?thesis
  proof (rule states_okI)
    fix q x assume x: "x \<in> set (c q)"
    with n have "x \<noteq> t" by blast
    with states_okD(1) [OF s x] show "(st(t := SLEEPING)) x = (if q = RunQueue then READY else WAITING)" by simp
  next
    fix x assume "(st(t := SLEEPING)) x = WAITING"
    then show "\<exists>q. q \<noteq> RunQueue \<and> x \<in> set (c q)" using states_okD(3) [OF s, of x] by (auto split: if_splits)
  qed (use ys t states_okD(2,4,5,6) [OF s] in \<open>auto split: if_splits\<close>)
qed

lemma states_add_sleep:
  assumes s: "states_ok st cur c xs" and t: "st t = WAITING" and ys: "set ys = insert t (set xs)"
  shows "states_ok st cur c ys"
proof (rule states_okI)
  fix x assume "x \<in> set ys"
  then show "st x = SLEEPING \<or> st x = WAITING" using states_okD(4) [OF s, of x] t ys by auto
qed (use states_okD(1,2,3,5,6) [OF s] ys in \<open>simp_all\<close>)

lemma states_unwait:
  assumes s: "states_ok st cur c xs" and c: "c q = as @ t # bs" and q: "q \<noteq> RunQueue"
    and d: "t \<notin> set (as @ bs)" "\<And>q'. t \<in> set (c q') \<Longrightarrow> q' = q" and ys: "set ys = set xs - {t}"
  shows "states_ok (st(t := FLOATING)) cur (c(q := as @ bs)) ys"
proof -
  have w: "st t = WAITING" using states_okD(1) [OF s, of t q] c q by simp
  have m: "x \<in> set ((c(q := as @ bs)) q') \<longleftrightarrow> x \<in> set (c q') \<and> x \<noteq> t" for x q'
    using c d by (cases "q' = q") auto
  show ?thesis
  proof (rule states_okI)
    fix q' x assume "x \<in> set ((c(q := as @ bs)) q')"
    then show "(st(t := FLOATING)) x = (if q' = RunQueue then READY else WAITING)"
      unfolding m using states_okD(1) [OF s, of x q'] by simp
  next
    fix x assume "(st(t := FLOATING)) x = READY"
    then show "x \<in> set ((c(q := as @ bs)) RunQueue)"
      unfolding m using states_okD(2) [OF s, of x] by (simp split: if_splits)
  next
    fix x assume "(st(t := FLOATING)) x = WAITING"
    then show "\<exists>q'. q' \<noteq> RunQueue \<and> x \<in> set ((c(q := as @ bs)) q')"
      unfolding m using states_okD(3) [OF s, of x] by (simp split: if_splits)
  qed (use ys w states_okD(4,5,6) [OF s] in \<open>auto split: if_splits\<close>)
qed

lemma states_unsleep:
  assumes s: "states_ok st cur c xs" and t: "st t = SLEEPING" and ys: "set ys = set xs - {t}"
  shows "states_ok (st(t := FLOATING)) cur c ys"
proof -
  have n: "t \<notin> set (c q)" for q using states_okD(1) [OF s, of t q] t by (auto split: if_splits)
  show ?thesis
  proof (rule states_okI)
    fix q x assume x: "x \<in> set (c q)"
    with n have "x \<noteq> t" by blast
    with states_okD(1) [OF s x] show "(st(t := FLOATING)) x = (if q = RunQueue then READY else WAITING)" by simp
  next
    fix x assume "(st(t := FLOATING)) x = WAITING"
    then show "\<exists>q. q \<noteq> RunQueue \<and> x \<in> set (c q)" using states_okD(3) [OF s, of x] by (auto split: if_splits)
  qed (use ys t states_okD(2,4,5,6) [OF s] in \<open>auto split: if_splits\<close>)
qed

text \<open>Between the states that no queue knows: \<open>FLOATING\<close>, \<open>CALLING\<close> and the processor's \<open>RUNNING\<close>.\<close>

lemma states_loose:
  assumes s: "states_ok st cur c xs" and t: "st t \<in> {FLOATING, CALLING, RUNNING}" "v \<in> {FLOATING, CALLING, RUNNING}"
    and cur: "\<And>x. cur' = Some x \<longleftrightarrow> (st(t := v)) x = RUNNING"
  shows "states_ok (st(t := v)) cur' c xs"
proof -
  have n: "t \<notin> set (c q)" "t \<notin> set xs" for q using states_idle [OF s, of t] t(1) by auto
  show ?thesis
  proof (rule states_okI)
    fix q x assume x: "x \<in> set (c q)"
    with n have "x \<noteq> t" by blast
    with states_okD(1) [OF s x] show "(st(t := v)) x = (if q = RunQueue then READY else WAITING)" by simp
  next
    fix x assume "(st(t := v)) x = READY"
    then show "x \<in> set (c RunQueue)" using states_okD(2) [OF s, of x] t(2) by (auto split: if_splits)
  next
    fix x assume "(st(t := v)) x = WAITING"
    then show "\<exists>q. q \<noteq> RunQueue \<and> x \<in> set (c q)" using states_okD(3) [OF s, of x] t(2) by (auto split: if_splits)
  next
    fix x assume x: "x \<in> set xs"
    with n have "x \<noteq> t" by blast
    with states_okD(4) [OF s x] show "(st(t := v)) x = SLEEPING \<or> (st(t := v)) x = WAITING" by simp
  next
    fix x assume "(st(t := v)) x = SLEEPING"
    then show "x \<in> set xs" using states_okD(5) [OF s, of x] t(2) by (auto split: if_splits)
  qed (rule cur)
qed

lemma states_save: "states_ok st (Some t) c xs \<Longrightarrow> states_ok (st(t := FLOATING)) None c xs"
  using states_okD(6) [of st "Some t" c xs, symmetric] by (intro states_loose [of st "Some t"]) auto

lemma states_run: "states_ok st None c xs \<Longrightarrow> st t = FLOATING \<Longrightarrow> states_ok (st(t := RUNNING)) (Some t) c xs"
  using states_okD(6) [of st None c xs] by (intro states_loose [of st None]) auto

lemma states_calling:
  "states_ok st cur c xs \<Longrightarrow> st t \<in> {FLOATING, CALLING} \<Longrightarrow> v \<in> {FLOATING, CALLING} \<Longrightarrow> states_ok (st(t := v)) cur c xs"
  using states_okD(6) [of st cur c xs] by (intro states_loose [of st cur]) auto

section \<open>Operations on the sleep list\<close>

lemma links_idle: "links_ok k xs \<Longrightarrow> t \<notin> set xs \<Longrightarrow> t_prev (threads k t) = None \<and> t_next (threads k t) = None"
  by (simp add: links_ok_def slinks_def sleep_rep_def)

lemma links_cong: "slinks k' = slinks k \<Longrightarrow> links_ok k' xs = links_ok k xs"
  by (simp add: links_ok_def)

lemma links_cancel_in: "links_ok k (as @ t # bs) \<Longrightarrow> links_ok (timeout_cancel t k) (as @ bs)"
  unfolding links_ok_def timeout_cancel_links
  by (cases "slinks k"; cases "link_out t (slinks k)") (auto intro: link_out_rep)

lemma links_cancel_out: "links_ok k xs \<Longrightarrow> t \<notin> set xs \<Longrightarrow> links_ok (timeout_cancel t k) xs"
  unfolding links_ok_def timeout_cancel_links by (cases "slinks k") (auto simp: link_out_idle)

lemma links_cancel:
  assumes "links_ok k xs"
  shows "links_ok (timeout_cancel t k) (removeAll t xs)"
proof (cases "t \<in> set xs")
  case True
  then obtain as bs where xs: "xs = as @ t # bs" by (auto dest: split_list)
  then have "t \<notin> set as" "t \<notin> set bs" using assms by (auto simp: links_ok_def slinks_def sleep_rep_def)
  then have "removeAll t xs = as @ bs" using xs by simp
  with links_cancel_in assms xs show ?thesis by simp
next
  case False
  then show ?thesis using links_cancel_out [OF assms False] by simp
qed

lemma read_sleep_slot:
  assumes "links_ok k (as @ bs)"
  shows "read_sleep (end_slot SleepHead as) k = first_or None bs"
  using sseg_slot_value [OF _ _ refl, of "\<lambda>t. t_prev (threads k t)" "\<lambda>t. t_next (threads k t)" as bs "sleep_head k"] assms
  by (simp add: links_ok_def slinks_def sleep_rep_def read_sleep_def)

definition ins_timeout :: "(tid \<Rightarrow> u64) \<Rightarrow> u64 \<Rightarrow> tid \<Rightarrow> tid list \<Rightarrow> tid list" where
  "ins_timeout f v t xs = takeWhile (\<lambda>y. \<not> v < f y) xs @ t # dropWhile (\<lambda>y. \<not> v < f y) xs"

lemma find_slot_spec:
  "links_ok k (as @ bs) \<Longrightarrow>
   find_slot v (end_slot SleepHead as) k =
     Some (end_slot SleepHead (as @ takeWhile (\<lambda>y. \<not> v < ns_of k y) bs),
       first_or None (dropWhile (\<lambda>y. \<not> v < ns_of k y) bs))"
proof (induction bs arbitrary: as)
  case Nil
  have "read_sleep (end_slot SleepHead as) k = None" using read_sleep_slot [OF Nil.prems] by simp
  then show ?case by (subst find_slot.simps) simp
next
  case (Cons b bs)
  have r: "read_sleep (end_slot SleepHead as) k = Some b" using read_sleep_slot [OF Cons.prems] by simp
  show ?case
  proof (cases "v < ns_of k b")
    case True
    with r show ?thesis by (subst find_slot.simps) simp
  next
    case False
    have "links_ok k ((as @ [b]) @ bs)" using Cons.prems by simp
    from Cons.IH [OF this] r False show ?thesis by (subst find_slot.simps) simp
  qed
qed

lemma set_ins_timeout [simp]: "set (ins_timeout f v t xs) = insert t (set xs)"
proof -
  have "set xs = set (takeWhile P xs) \<union> set (dropWhile P xs)" for P
    by (metis set_append takeWhile_dropWhile_id)
  then show ?thesis unfolding ins_timeout_def by (metis Un_insert_right list.simps(15) set_append)
qed

lemma sorted_ins_timeout:
  assumes "sorted (map f xs)" and "v = f t"
  shows "sorted (map f (ins_timeout f v t xs))"
proof -
  let ?P = "\<lambda>y. \<not> v < f y"
  have "sorted (map f (takeWhile ?P xs @ dropWhile ?P xs))" using assms by simp
  then have s: "sorted (map f (takeWhile ?P xs))" "sorted (map f (dropWhile ?P xs))"
    "\<forall>x\<in>set (takeWhile ?P xs). \<forall>y\<in>set (dropWhile ?P xs). f x \<le> f y"
    by (simp_all add: sorted_append del: takeWhile_dropWhile_id)
  have lo: "f x \<le> v" if "x \<in> set (takeWhile ?P xs)" for x using that by (auto dest: set_takeWhileD)
  have hi: "v \<le> f y" if "y \<in> set (dropWhile ?P xs)" for y
  proof (cases "dropWhile ?P xs")
    case (Cons z zs)
    then have "v < f z" by (metis dropWhile_eq_Cons_conv)
    moreover have "f z \<le> f y" using s(2) that Cons by (auto simp: Cons)
    ultimately show ?thesis by simp
  next
    case Nil
    show ?thesis using that unfolding Nil by simp
  qed
  show ?thesis unfolding ins_timeout_def using s lo hi assms(2) by (auto simp: sorted_append)
qed

lemma set_timeout_spec:
  assumes rep: "links_ok k xs" and t: "t \<notin> set xs"
  shows "\<exists>k'. set_timeout now t ns k = Some k' \<and> links_ok k' (ins_timeout (ns_of k) (ns + now) t xs) \<and>
    (\<forall>x. t_state (threads k' x) = t_state (threads k x) \<and> t_ctx (threads k' x) = t_ctx (threads k x) \<and>
      t_page_map (threads k' x) = t_page_map (threads k x) \<and> t_caller (threads k' x) = t_caller (threads k x) \<and>
      t_ns (threads k' x) = (if x = t then ns + now else t_ns (threads k x))) \<and>
    wait_q k' = wait_q k \<and> current k' = current k \<and> user_ctx k' = user_ctx k \<and> cr3 k' = cr3 k"
proof -
  let ?v = "ns + now"
  define k1 where "k1 = upd_thread t (t_ns_update (\<lambda>_. ?v)) k"
  have l1: "slinks k1 = slinks k" unfolding k1_def by (rule slinks_upd_thread) simp_all
  have rep1: "links_ok k1 ([] @ xs)" using rep links_cong [OF l1] by simp
  have ns1: "ns_of k1 y = ns_of k y" if "y \<in> set xs" for y using that t by (auto simp: k1_def)
  define as where "as = takeWhile (\<lambda>y. \<not> ?v < ns_of k y) xs"
  define bs where "bs = dropWhile (\<lambda>y. \<not> ?v < ns_of k y) xs"
  have tw: "takeWhile (\<lambda>y. \<not> ?v < ns_of k1 y) xs = as" "dropWhile (\<lambda>y. \<not> ?v < ns_of k1 y) xs = bs"
    unfolding as_def bs_def by (auto intro: takeWhile_cong dropWhile_cong simp: ns1)
  have xs: "xs = as @ bs" by (simp add: as_def bs_def)
  have find: "find_slot ?v SleepHead k1 = Some (end_slot SleepHead as, first_or None bs)"
    using find_slot_spec [OF rep1, of ?v] unfolding tw by simp
  have idle: "t_prev (threads k t) = None" "t_next (threads k t) = None" using links_idle [OF rep t] by simp_all
  let ?p = "end_slot SleepHead as" and ?n = "first_or None bs"
  define k2 where "k2 = (case ?n of None \<Rightarrow> k1 | Some n \<Rightarrow> upd_thread n (t_prev_update (\<lambda>_. Some (NextField t))) k1)"
  have rd: "read_sleep ?p k2 = ?n"
  proof -
    have "read_sleep ?p k2 = read_sleep ?p k1"
      by (auto simp: k2_def read_sleep_def split: option.splits sleep_slot.splits)
    also have "\<dots> = ?n" using read_sleep_slot [of k1 as bs] rep1 xs by simp
    finally show ?thesis .
  qed
  define k' where "k' = write_sleep ?p (Some t)
    (upd_thread t (\<lambda>th. th\<lparr>t_next := read_sleep ?p k2, t_prev := Some ?p\<rparr>) k2)"
  have run: "set_timeout now t ns k = Some k'"
    unfolding set_timeout_def Let_def k1_def [symmetric] using idle find
    by (simp add: k2_def [symmetric] k'_def)
  have nm: "n \<noteq> t" if "?n = Some n" for n using that first_or_Some_in [of bs n] t xs by auto
  have lk: "slinks k' = link_in ?p t ?n (slinks k1)"
    using nm unfolding k'_def rd
    by (auto simp: slinks_def link_in_def write_sleep_def k2_def Let_def fun_eq_iff split: option.splits sleep_slot.splits)
  have "links_ok k' (as @ t # bs)"
    using rep1 t xs unfolding links_ok_def lk
    by (cases "slinks k1"; cases "link_in ?p t ?n (slinks k1)") (auto intro: link_in_rep)
  moreover have "as @ t # bs = ins_timeout (ns_of k) ?v t xs" by (simp add: ins_timeout_def as_def bs_def)
  moreover have "t_state (threads k' x) = t_state (threads k x) \<and> t_ctx (threads k' x) = t_ctx (threads k x) \<and>
      t_page_map (threads k' x) = t_page_map (threads k x) \<and> t_caller (threads k' x) = t_caller (threads k x) \<and>
      t_ns (threads k' x) = (if x = t then ns + now else t_ns (threads k x))" for x
    by (auto simp: k'_def k2_def k1_def write_sleep_def split: option.splits sleep_slot.splits)
  moreover have "wait_q k' = wait_q k \<and> current k' = current k \<and> user_ctx k' = user_ctx k \<and> cr3 k' = cr3 k"
    by (auto simp: k'_def k2_def k1_def write_sleep_def split: option.splits sleep_slot.splits)
  ultimately show ?thesis using run by metis
qed

section \<open>What each operation does to the invariant\<close>

text \<open>The invariant without the list pointers, for the states in the middle of a list operation.\<close>

definition core_inv :: "kernel \<Rightarrow> (qid \<Rightarrow> tid list) \<Rightarrow> tid list \<Rightarrow> bool" where
  "core_inv k c xs \<longleftrightarrow> queue_rep (wait_q k) c \<and> states_ok (state_of k) (current k) c xs \<and>
     sorted (map (ns_of k) xs) \<and> modes_ok k"

lemma sched_inv_core: "sched_inv k c xs \<longleftrightarrow> core_inv k c xs \<and> links_ok k xs"
  by (auto simp: sched_inv_def core_inv_def)

lemma set_state_sel [simp]:
  "threads (set_state t s k) = (threads k)(t := (threads k t)\<lparr>t_state := s\<rparr>)"
  "wait_q (set_state t s k) = wait_q k" "sleep_head (set_state t s k) = sleep_head k"
  "current (set_state t s k) = current k" "user_ctx (set_state t s k) = user_ctx k" "cr3 (set_state t s k) = cr3 k"
  by (simp_all add: set_state_def)

lemma upd_ctx_sel [simp]:
  "threads (upd_ctx t f k) = (threads k)(t := t_ctx_update f (threads k t))"
  "wait_q (upd_ctx t f k) = wait_q k" "sleep_head (upd_ctx t f k) = sleep_head k"
  "current (upd_ctx t f k) = current k" "user_ctx (upd_ctx t f k) = user_ctx k" "cr3 (upd_ctx t f k) = cr3 k"
  by (simp_all add: upd_ctx_def)

lemma core_invI:
  assumes "queue_rep (wait_q k) c" and "states_ok st cur c xs" and "\<And>x. t_state (threads k x) = st x"
    and "current k = cur" and "sorted (map f xs)" and "\<And>x. x \<in> set xs \<Longrightarrow> t_ns (threads k x) = f x" and "modes_ok k"
  shows "core_inv k c xs"
proof -
  have "state_of k = st" using assms(3) by (simp add: fun_eq_iff)
  moreover have "map (ns_of k) xs = map f xs" using assms(6) by simp
  ultimately show ?thesis using assms(1,2,4,5,7) by (simp only: core_inv_def)
qed

lemma slinks_set_state [simp]: "slinks (set_state t s k) = slinks k"
  unfolding set_state_def by (rule slinks_upd_thread) simp_all

lemma slinks_upd_ctx [simp]: "slinks (upd_ctx t f k) = slinks k"
  unfolding upd_ctx_def by (rule slinks_upd_thread) simp_all

lemma slinks_wait_q [simp]: "slinks (k\<lparr>wait_q := h\<rparr>) = slinks k"
  by (simp add: slinks_def)

lemma slinks_current [simp]: "slinks (k\<lparr>current := x\<rparr>) = slinks k" "slinks (k\<lparr>user_ctx := r\<rparr>) = slinks k"
  "slinks (k\<lparr>cr3 := p\<rparr>) = slinks k"
  by (simp_all add: slinks_def)

lemma not_in_queue: "queue_rep (wait_q k) c \<Longrightarrow> (\<And>q. t \<notin> set (c q)) \<Longrightarrow> \<not> in_queue t k"
  by (simp add: in_queue_def queue_rep_root_None)

lemma schedule_ready_core:
  assumes inv: "core_inv k c xs" and t: "state_of k t = FLOATING" "user_mode (t_ctx (threads k t))"
  shows "\<exists>h. schedule_ready t k = Some ((set_state t READY k)\<lparr>wait_q := h\<rparr>) \<and>
    core_inv ((set_state t READY k)\<lparr>wait_q := h\<rparr>) (c(RunQueue := c RunQueue @ [t])) xs"
proof -
  have s: "states_ok (state_of k) (current k) c xs" and q: "queue_rep (wait_q k) c"
    and m: "modes_ok k" and so: "sorted (map (ns_of k) xs)" using inv by (simp_all add: core_inv_def)
  have idle: "t \<notin> set (c q)" for q using states_idle(1) [OF s, of t q] t(1) by simp
  obtain h where h: "queue_push RunQueue t (wait_q k) = Some h" "queue_rep h (c(RunQueue := c RunQueue @ [t]))"
    using fluke_queue.push_idle [OF q idle, of RunQueue] by blast
  have "core_inv ((set_state t READY k)\<lparr>wait_q := h\<rparr>) (c(RunQueue := c RunQueue @ [t])) xs"
    by (rule core_invI [OF _ states_ready [OF s t(1)] _ _ so]) (use h(2) m t(2) in \<open>auto simp: modes_ok_def\<close>)
  with h(1) t(1) show ?thesis by (auto simp: schedule_ready_def kqueue_push_def)
qed

lemma push_into_core:
  assumes inv: "core_inv k c xs" and l: "links_ok k xs" and t: "state_of k t = FLOATING" "user_mode (t_ctx (threads k t))"
    and q: "q \<noteq> RunQueue"
  shows "\<exists>h. push_into t q k = Some ((set_state t WAITING k)\<lparr>wait_q := h\<rparr>) \<and>
    core_inv ((set_state t WAITING k)\<lparr>wait_q := h\<rparr>) (c(q := c q @ [t])) xs"
proof -
  have s: "states_ok (state_of k) (current k) c xs" and qr: "queue_rep (wait_q k) c"
    and m: "modes_ok k" and so: "sorted (map (ns_of k) xs)" using inv by (simp_all add: core_inv_def)
  have idle: "t \<notin> set (c q)" "t \<notin> set xs" for q using states_idle [OF s, of t] t(1) by simp_all
  obtain h where h: "queue_push q t (wait_q k) = Some h" "queue_rep h (c(q := c q @ [t]))"
    using fluke_queue.push_idle [OF qr idle(1), of q] by blast
  have "core_inv ((set_state t WAITING k)\<lparr>wait_q := h\<rparr>) (c(q := c q @ [t])) xs"
    by (rule core_invI [OF _ states_wait [OF s t(1) q] _ _ so]) (use h(2) m t(2) in \<open>auto simp: modes_ok_def\<close>)
  with h(1) t(1) not_in_queue [OF qr idle(1)] links_idle [OF l idle(2)] show ?thesis
    by (auto simp: push_into_def kqueue_push_def)
qed

lemma kqueue_pop_Nil: "queue_rep (wait_q k) c \<Longrightarrow> c q = [] \<Longrightarrow> kqueue_pop q k = Some (None, k)"
  by (simp add: kqueue_pop_def fluke_queue.pop_Nil)

lemma kqueue_pop_Cons:
  assumes "queue_rep (wait_q k) c" and "c q = t # ts"
  shows "\<exists>h. kqueue_pop q k = Some (Some t, k\<lparr>wait_q := h\<rparr>) \<and> queue_rep h (c(q := ts))"
  using fluke_queue.pop_Cons [OF assms] by (auto simp: kqueue_pop_def)

lemma run_queue_pop_core:
  assumes inv: "core_inv k c xs" and c: "c RunQueue = t # ts"
  shows "\<exists>h. run_queue_pop k = Some (Some t, set_state t FLOATING (k\<lparr>wait_q := h\<rparr>)) \<and>
    core_inv (set_state t FLOATING (k\<lparr>wait_q := h\<rparr>)) (c(RunQueue := ts)) xs \<and>
    user_mode (t_ctx (threads k t)) \<and> state_of k t = READY"
proof -
  have s: "states_ok (state_of k) (current k) c xs" and q: "queue_rep (wait_q k) c"
    and m: "modes_ok k" and so: "sorted (map (ns_of k) xs)" using inv by (simp_all add: core_inv_def)
  obtain h where h: "kqueue_pop RunQueue k = Some (Some t, k\<lparr>wait_q := h\<rparr>)" "queue_rep h (c(RunQueue := ts))"
    using kqueue_pop_Cons [OF q c] by blast
  have r: "state_of k t = READY" using states_okD(1) [OF s, of t RunQueue] c by simp
  have "t \<notin> set ts" using queue_rep_distinct [OF q, of RunQueue] c by simp
  then have "core_inv (set_state t FLOATING (k\<lparr>wait_q := h\<rparr>)) (c(RunQueue := ts)) xs"
    by (intro core_invI [OF _ states_unready [OF s c] _ _ so]) (use h(2) m in \<open>auto simp: modes_ok_def\<close>)
  moreover have "user_mode (t_ctx (threads k t))" using m r by (simp add: modes_ok_def)
  ultimately show ?thesis using h(1) r by (intro exI [of _ h]) (simp add: run_queue_pop_def)
qed

text \<open>A thread taken out of a queue other than the run queue, with its timeout cancelled.\<close>

lemma unwait_core:
  assumes inv: "core_inv k c xs" and l: "links_ok k xs" and c: "c q = as @ t # bs" and q: "q \<noteq> RunQueue"
    and h: "queue_rep h (c(q := as @ bs))"
  defines "k' \<equiv> timeout_cancel t (set_state t FLOATING (k\<lparr>wait_q := h\<rparr>))"
  shows "core_inv k' (c(q := as @ bs)) (removeAll t xs)" and "links_ok k' (removeAll t xs)"
    and "user_mode (t_ctx (threads k' t))" and "state_of k t = WAITING"
proof -
  have s: "states_ok (state_of k) (current k) c xs" and qr: "queue_rep (wait_q k) c"
    and m: "modes_ok k" and so: "sorted (map (ns_of k) xs)" using inv by (simp_all add: core_inv_def)
  show w: "state_of k t = WAITING" using states_okD(1) [OF s, of t q] c q by simp
  have d: "t \<notin> set (as @ bs)" using queue_rep_distinct [OF qr, of q] c by simp
  have u: "q' = q" if "t \<in> set (c q')" for q' using queue_rep_disjoint [OF qr that] c by simp
  have "states_ok ((state_of k)(t := FLOATING)) (current k) (c(q := as @ bs)) (removeAll t xs)"
    by (rule states_unwait [OF s c q d u]) auto
  moreover have "sorted (map (ns_of k) (removeAll t xs))"
    using so by (induction xs) auto
  ultimately show "core_inv k' (c(q := as @ bs)) (removeAll t xs)"
    by (intro core_invI [where st = "(state_of k)(t := FLOATING)" and cur = "current k" and f = "ns_of k"]) (use h m in \<open>auto simp: k'_def modes_ok_def cancel_ns\<close>)
  show "links_ok k' (removeAll t xs)"
    unfolding k'_def by (rule links_cancel) (use l in \<open>simp add: links_ok_def\<close>)
  show "user_mode (t_ctx (threads k' t))" using m w by (simp add: k'_def modes_ok_def)
qed

lemma pop_from_core:
  assumes inv: "core_inv k c xs" and l: "links_ok k xs" and c: "c q = t # ts" and q: "q \<noteq> RunQueue"
  shows "\<exists>h. pop_from q k = Some (Some t, timeout_cancel t (set_state t FLOATING (k\<lparr>wait_q := h\<rparr>))) \<and>
    queue_rep h (c(q := ts))"
proof -
  have s: "states_ok (state_of k) (current k) c xs" and qr: "queue_rep (wait_q k) c"
    using inv by (simp_all add: core_inv_def)
  have w: "state_of k t = WAITING" using states_okD(1) [OF s, of t q] c q by simp
  from kqueue_pop_Cons [OF qr c] w show ?thesis by (auto simp: pop_from_def)
qed

lemma pop_from_Nil: "core_inv k c xs \<Longrightarrow> c q = [] \<Longrightarrow> pop_from q k = Some (None, k)"
  using kqueue_pop_Nil [of k c q] by (simp add: pop_from_def core_inv_def)

lemma context_save_core:
  assumes inv: "core_inv k c xs" and t: "current k = Some t"
  defines "k' \<equiv> (upd_thread t (\<lambda>th. th\<lparr>t_ctx := user_ctx k, t_state := FLOATING\<rparr>) k)\<lparr>current := None\<rparr>"
  shows "cpu_context_save k = Some (t, k')" and "core_inv k' c xs" and "slinks k' = slinks k"
    and "user_mode (user_ctx k)"
proof -
  have s: "states_ok (state_of k) (current k) c xs" and qr: "queue_rep (wait_q k) c"
    and m: "modes_ok k" and so: "sorted (map (ns_of k) xs)" using inv by (simp_all add: core_inv_def)
  have r: "state_of k t = RUNNING" using states_okD(6) [OF s, of t] t by simp
  show u: "user_mode (user_ctx k)" using m t by (simp add: modes_ok_def)
  with r t show "cpu_context_save k = Some (t, k')" by (simp add: cpu_context_save_def k'_def)
  have "states_ok ((state_of k)(t := FLOATING)) None c xs" using states_save [of "state_of k" t c xs] s t by simp
  then show "core_inv k' c xs"
    by (intro core_invI [OF _ _ _ _ so, where st = "(state_of k)(t := FLOATING)" and cur = None]) (use qr m in \<open>auto simp: k'_def modes_ok_def\<close>)
  show "slinks k' = slinks k" by (simp add: k'_def slinks_upd_thread)
qed

lemma context_restore_core:
  assumes inv: "core_inv k c xs" and cur: "current k = None" and t: "state_of k t = FLOATING" "user_mode (t_ctx (threads k t))"
  shows "\<exists>k'. cpu_context_restore_and_exit t k = Some k' \<and> core_inv k' c xs \<and> slinks k' = slinks k \<and>
    current k' = Some t \<and> cr3 k' = t_page_map (threads k t) \<and> user_ctx k' = t_ctx (threads k t) \<and>
    threads k' = (threads k)(t := (threads k t)\<lparr>t_state := RUNNING\<rparr>)"
proof -
  have s: "states_ok (state_of k) None c xs" and qr: "queue_rep (wait_q k) c"
    and m: "modes_ok k" and so: "sorted (map (ns_of k) xs)" using inv cur by (simp_all add: core_inv_def)
  define k' where "k' = (set_state t RUNNING (k\<lparr>cr3 := t_page_map (threads k t), current := Some t\<rparr>))
    \<lparr>user_ctx := t_ctx (threads k t)\<rparr>"
  have run: "cpu_context_restore_and_exit t k = Some k'"
    using cur t by (simp add: cpu_context_restore_and_exit_def k'_def Let_def)
  have "core_inv k' c xs"
    by (rule core_invI [OF _ states_run [OF s t(1)] _ _ so]) (use qr m t(2) in \<open>auto simp: k'_def modes_ok_def\<close>)
  moreover have "slinks k' = slinks k" by (simp add: k'_def)
  moreover have "current k' = Some t \<and> cr3 k' = t_page_map (threads k t) \<and> user_ctx k' = t_ctx (threads k t) \<and>
    threads k' = (threads k)(t := (threads k t)\<lparr>t_state := RUNNING\<rparr>)" by (simp add: k'_def)
  ultimately show ?thesis using run by blast
qed

text \<open>What an operation leaves alone: saved registers other than those of \<open>S\<close>, callers, address spaces, the
  processor's registers.\<close>

definition kframe :: "tid set \<Rightarrow> kernel \<Rightarrow> kernel \<Rightarrow> bool" where
  "kframe S k k' \<longleftrightarrow>
     (\<forall>x. t_caller (threads k' x) = t_caller (threads k x) \<and> t_page_map (threads k' x) = t_page_map (threads k x) \<and>
       (x \<notin> S \<longrightarrow> t_ctx (threads k' x) = t_ctx (threads k x)) \<and>
       (t_state (threads k' x) = CALLING \<longleftrightarrow> t_state (threads k x) = CALLING)) \<and>
     cr3 k' = cr3 k \<and> user_ctx k' = user_ctx k \<and> current k' = current k"

lemma kframe_refl [simp]: "kframe S k k"
  by (simp add: kframe_def)

lemma kframe_trans:
  assumes 1: "kframe S k k1" and 2: "kframe T k1 k2" and s: "S \<subseteq> U" "T \<subseteq> U"
  shows "kframe U k k2"
proof -
  have "t_ctx (threads k2 x) = t_ctx (threads k x)" if "x \<notin> U" for x
  proof -
    have "x \<notin> S" "x \<notin> T" using that s by auto
    with 1 2 show ?thesis by (simp add: kframe_def)
  qed
  with 1 2 show ?thesis by (simp add: kframe_def)
qed

lemma kframe_ctx: "kframe S k k' \<Longrightarrow> x \<notin> S \<Longrightarrow> t_ctx (threads k' x) = t_ctx (threads k x)"
  by (simp add: kframe_def)

lemma kframe_current: "kframe S k k' \<Longrightarrow> current k' = current k"
  by (simp add: kframe_def)

section \<open>Going to sleep\<close>

lemma set_timeout_core:
  assumes q: "queue_rep (wait_q k) c" and l: "links_ok k xs" and t: "t \<notin> set xs"
    and s: "\<And>ys. set ys = insert t (set xs) \<Longrightarrow> states_ok (state_of k) (current k) c ys"
    and so: "sorted (map (ns_of k) xs)" and m: "modes_ok k"
  shows "\<exists>k'. set_timeout now t ns k = Some k' \<and> sched_inv k' c (ins_timeout (ns_of k) (ns + now) t xs) \<and>
    kframe {} k k' \<and> state_of k' = state_of k \<and> t_ns (threads k' t) = ns + now"
proof -
  let ?ys = "ins_timeout (ns_of k) (ns + now) t xs"
  obtain k' where run: "set_timeout now t ns k = Some k'" and l': "links_ok k' ?ys" and
    f: "\<forall>x. t_state (threads k' x) = t_state (threads k x) \<and> t_ctx (threads k' x) = t_ctx (threads k x) \<and>
      t_page_map (threads k' x) = t_page_map (threads k x) \<and> t_caller (threads k' x) = t_caller (threads k x) \<and>
      t_ns (threads k' x) = (if x = t then ns + now else t_ns (threads k x))"
    and g: "wait_q k' = wait_q k" "current k' = current k" "user_ctx k' = user_ctx k" "cr3 k' = cr3 k"
    using set_timeout_spec [OF l t, of now ns] by blast
  let ?f = "(ns_of k)(t := ns + now)"
  have "ins_timeout ?f (ns + now) t xs = ?ys"
  proof -
    have "(\<not> ns + now < ?f y) = (\<not> ns + now < ns_of k y)" if "y \<in> set xs" for y using that t by auto
    then show ?thesis unfolding ins_timeout_def by (simp only: cong: takeWhile_cong dropWhile_cong)
  qed
  moreover have "sorted (map ?f xs)" using so t by (simp add: map_fun_upd)
  ultimately have srt: "sorted (map ?f ?ys)" using sorted_ins_timeout [of ?f xs "ns + now" t] by simp
  have "core_inv k' c ?ys"
    by (rule core_invI [OF _ s [of ?ys] _ _ srt]) (use q g f m in \<open>auto simp: modes_ok_def\<close>)
  moreover have "kframe {} k k'" using f g by (simp add: kframe_def)
  ultimately show ?thesis using run l' f by (auto simp: sched_inv_core)
qed

lemma nanosleep_inv:
  assumes inv: "sched_inv k c xs" and t: "state_of k t = FLOATING" "user_mode (t_ctx (threads k t))" and p: "0 <s ns"
  shows "\<exists>k'. schedule_nanosleep now t ns k = Some k' \<and> sched_inv k' c (ins_timeout (ns_of k) (ns + now) t xs) \<and>
    kframe {} k k' \<and> state_of k' = (state_of k)(t := SLEEPING) \<and> t_ns (threads k' t) = ns + now"
proof -
  have s: "states_ok (state_of k) (current k) c xs" and qr: "queue_rep (wait_q k) c"
    and m: "modes_ok k" and so: "sorted (map (ns_of k) xs)" and l: "links_ok k xs"
    using inv by (simp_all add: sched_inv_def)
  let ?k = "set_state t SLEEPING k"
  have idle: "t \<notin> set (c q)" "t \<notin> set xs" for q using states_idle [OF s, of t] t(1) by simp_all
  have st: "state_of ?k = (state_of k)(t := SLEEPING)" by (simp add: fun_eq_iff)
  have ns: "ns_of ?k = ns_of k" by (simp add: fun_eq_iff)
  have "\<exists>k'. set_timeout now t ns ?k = Some k' \<and> sched_inv k' c (ins_timeout (ns_of ?k) (ns + now) t xs) \<and>
    kframe {} ?k k' \<and> state_of k' = state_of ?k \<and> t_ns (threads k' t) = ns + now"
  proof (rule set_timeout_core)
    show "states_ok (state_of ?k) (current ?k) c ys" if y: "set ys = insert t (set xs)" for ys
      unfolding st using states_sleep [OF s t(1) y] by simp
    show "sorted (map (ns_of ?k) xs)" using so unfolding ns .
    show "links_ok ?k xs" using l by (simp add: links_ok_def)
    show "modes_ok ?k" using m t(2) by (auto simp: modes_ok_def)
  qed (simp_all add: qr idle)
  then obtain k' where k': "set_timeout now t ns ?k = Some k'" "sched_inv k' c (ins_timeout (ns_of k) (ns + now) t xs)"
    "kframe {} ?k k'" "state_of k' = state_of ?k" "t_ns (threads k' t) = ns + now" unfolding ns by blast
  have "kframe {} k ?k" using t(1) by (auto simp: kframe_def)
  then have "kframe {} k k'" using k'(3) kframe_trans by blast
  moreover have "schedule_nanosleep now t ns k = Some k'"
    using t(1) not_in_queue [OF qr idle(1)] p k'(1) by (simp add: schedule_nanosleep_def)
  ultimately show ?thesis using k' st by metis
qed

lemma upd_ctx_core:
  assumes "core_inv k c xs" and "\<And>r. user_mode (f r) = user_mode r"
  shows "core_inv (upd_ctx t f k) c xs"
proof -
  have st: "state_of (upd_ctx t f k) = state_of k" "ns_of (upd_ctx t f k) = ns_of k" by (simp_all add: fun_eq_iff)
  have "modes_ok (upd_ctx t f k)" using assms by (auto simp: core_inv_def modes_ok_def)
  with assms(1) show ?thesis unfolding core_inv_def st by simp
qed

lemma queue_with_timeout_inv:
  assumes inv: "sched_inv k c xs" and t: "state_of k t = FLOATING" "user_mode (t_ctx (threads k t))" and p: "0 <s ns"
    and q: "q \<noteq> RunQueue"
  shows "\<exists>k'. schedule_queue_with_timeout now t q ns e k = Some k' \<and>
    sched_inv k' (c(q := c q @ [t])) (ins_timeout (ns_of k) (ns + now) t xs) \<and>
    kframe {t} k k' \<and> state_of k' = (state_of k)(t := WAITING) \<and> t_ns (threads k' t) = ns + now \<and>
    t_ctx (threads k' t) = (t_ctx (threads k t))\<lparr>reg_rax := neg_errno e\<rparr>"
proof -
  have l: "links_ok k xs" and core: "core_inv k c xs" using inv by (simp_all add: sched_inv_core)
  define k1 where "k1 = set_r0 t (neg_errno e) k"
  have core1: "core_inv k1 c xs" unfolding k1_def set_r0_def by (rule upd_ctx_core [OF core]) simp
  have l1: "links_ok k1 xs" using l by (simp add: k1_def set_r0_def links_ok_def)
  have t1: "state_of k1 t = FLOATING" "user_mode (t_ctx (threads k1 t))" using t by (simp_all add: k1_def set_r0_def)
  obtain h where h: "push_into t q k1 = Some ((set_state t WAITING k1)\<lparr>wait_q := h\<rparr>)"
    "core_inv ((set_state t WAITING k1)\<lparr>wait_q := h\<rparr>) (c(q := c q @ [t])) xs"
    using push_into_core [OF core1 l1 t1 q] by blast
  define k2 where "k2 = (set_state t WAITING k1)\<lparr>wait_q := h\<rparr>"
  have st2: "state_of k2 = (state_of k)(t := WAITING)" and ns2: "ns_of k2 = ns_of k"
    by (simp_all add: k2_def k1_def set_r0_def fun_eq_iff)
  have s2: "states_ok (state_of k2) (current k2) (c(q := c q @ [t])) xs" and q2: "queue_rep (wait_q k2) (c(q := c q @ [t]))"
    and m2: "modes_ok k2" and so2: "sorted (map (ns_of k2) xs)" using h(2) by (simp_all add: core_inv_def k2_def)
  have idle: "t \<notin> set xs" using states_idle(2) [of "state_of k" "current k" c xs t] core t(1) by (simp add: core_inv_def)
  have "\<exists>k'. set_timeout now t ns k2 = Some k' \<and> sched_inv k' (c(q := c q @ [t])) (ins_timeout (ns_of k2) (ns + now) t xs) \<and>
    kframe {} k2 k' \<and> state_of k' = state_of k2 \<and> t_ns (threads k' t) = ns + now"
  proof (rule set_timeout_core [OF q2 _ idle _ so2 m2])
    show "states_ok (state_of k2) (current k2) (c(q := c q @ [t])) ys" if y: "set ys = insert t (set xs)" for ys
      by (rule states_add_sleep [OF s2 _ y]) (use fun_cong [OF st2, of t] in simp)
    show "links_ok k2 xs" using l1 by (simp add: links_ok_def k2_def)
  qed
  then obtain k' where k': "set_timeout now t ns k2 = Some k'"
    "sched_inv k' (c(q := c q @ [t])) (ins_timeout (ns_of k) (ns + now) t xs)"
    "kframe {} k2 k'" "state_of k' = state_of k2" "t_ns (threads k' t) = ns + now" unfolding ns2 by blast
  have "kframe {t} k k2" using t(1) by (auto simp: kframe_def k2_def k1_def set_r0_def)
  then have "kframe {t} k k'" using k'(3) kframe_trans by blast
  moreover have "t_ctx (threads k' t) = (t_ctx (threads k t))\<lparr>reg_rax := neg_errno e\<rparr>"
    using kframe_ctx [OF k'(3), of t] by (simp add: k2_def k1_def set_r0_def)
  moreover have "schedule_queue_with_timeout now t q ns e k = Some k'"
    using p h(1) k'(1) by (simp add: schedule_queue_with_timeout_def k1_def [symmetric] k2_def)
  ultimately show ?thesis using k' st2 by metis
qed

section \<open>Waking up\<close>

text \<open>Taking the first waiter of a queue and waking it, as the interrupt handler and
  \<open>schedule_wake_all\<close> do.\<close>

lemma pop_wake_inv:
  assumes inv: "sched_inv k c xs" and c: "c q = t # ts" and q: "q \<noteq> RunQueue"
  shows "\<exists>k1 k'. kqueue_pop q k = Some (Some t, k1) \<and> schedule_wake t v k1 = Some k' \<and>
    sched_inv k' (c(q := ts, RunQueue := c RunQueue @ [t])) (removeAll t xs) \<and> kframe {t} k k' \<and>
    state_of k' = (state_of k)(t := READY) \<and> t_ctx (threads k' t) = (t_ctx (threads k t))\<lparr>reg_rax := v\<rparr>"
proof -
  have l: "links_ok k xs" and core: "core_inv k c xs" and qr: "queue_rep (wait_q k) c"
    using inv by (simp_all add: sched_inv_core core_inv_def)
  obtain h where h: "kqueue_pop q k = Some (Some t, k\<lparr>wait_q := h\<rparr>)" "queue_rep h (c(q := ts))"
    using kqueue_pop_Cons [OF qr c] by blast
  define k2 where "k2 = timeout_cancel t (set_state t FLOATING (k\<lparr>wait_q := h\<rparr>))"
  have k2: "core_inv k2 (c(q := ts)) (removeAll t xs)" "links_ok k2 (removeAll t xs)"
    "user_mode (t_ctx (threads k2 t))" and w: "state_of k t = WAITING"
    using unwait_core [OF core l _ q, of "[]" t ts h] c h(2) by (simp_all add: k2_def)
  define k3 where "k3 = timeout_cancel t (set_r0 t v (set_state t FLOATING (k\<lparr>wait_q := h\<rparr>)))"
  have k3: "k3 = set_r0 t v k2"
    by (auto simp: k3_def k2_def set_r0_def upd_ctx_def set_state_def timeout_cancel_def write_sleep_def upd_thread_def
        Let_def fun_eq_iff split: option.splits sleep_slot.splits)
  have core3: "core_inv k3 (c(q := ts)) (removeAll t xs)"
    unfolding k3 set_r0_def by (rule upd_ctx_core [OF k2(1)]) simp
  have l3: "links_ok k3 (removeAll t xs)" using k2(2) by (simp add: k3 set_r0_def links_ok_def)
  have t3: "state_of k3 t = FLOATING" "user_mode (t_ctx (threads k3 t))" using k2(3) by (simp_all add: k3 set_r0_def k2_def)
  obtain h' where h': "schedule_ready t k3 = Some ((set_state t READY k3)\<lparr>wait_q := h'\<rparr>)"
    "core_inv ((set_state t READY k3)\<lparr>wait_q := h'\<rparr>) ((c(q := ts))(RunQueue := (c(q := ts)) RunQueue @ [t])) (removeAll t xs)"
    using schedule_ready_core [OF core3 t3] by blast
  define k' where "k' = (set_state t READY k3)\<lparr>wait_q := h'\<rparr>"
  have cq: "(c(q := ts)) RunQueue = c RunQueue" using q by simp
  have inv': "sched_inv k' (c(q := ts, RunQueue := c RunQueue @ [t])) (removeAll t xs)"
    using h'(2) l3 unfolding cq by (simp add: sched_inv_core k'_def links_ok_def)
  have idle: "t \<notin> set (c' q')" if "queue_rep h c'" "c' = c(q := ts)" for c' q'
    using queue_rep_distinct [OF qr, of q] queue_rep_disjoint [OF qr, of t q q'] c that by auto
  have "\<not> in_queue t (k\<lparr>wait_q := h\<rparr>)"
    by (rule not_in_queue [of _ "c(q := ts)"]) (use h(2) idle in auto)
  then have wake: "schedule_wake t v (k\<lparr>wait_q := h\<rparr>) = Some k'"
    using w h'(1) by (simp add: schedule_wake_def k3_def [symmetric] k'_def in_queue_def)
  have fr: "kframe {t} k k'" using w by (auto simp: kframe_def k'_def k3_def set_r0_def)
  have "state_of k' = (state_of k)(t := READY)" by (auto simp: fun_eq_iff k'_def k3_def set_r0_def)
  moreover have "t_ctx (threads k' t) = (t_ctx (threads k t))\<lparr>reg_rax := v\<rparr>"
    by (simp add: k'_def k3_def set_r0_def)
  ultimately show ?thesis using h(1) wake inv' fr by blast
qed

lemma wake_all_inv:
  "sched_inv k c xs \<Longrightarrow> q \<noteq> RunQueue \<Longrightarrow> c q = ts \<Longrightarrow>
   \<exists>k'. schedule_wake_all q v k = Some k' \<and>
     sched_inv k' (c(q := [], RunQueue := c RunQueue @ ts)) (filter (\<lambda>t. t \<notin> set ts) xs) \<and> kframe (set ts) k k' \<and>
     (\<forall>t. state_of k' t = (if t \<in> set ts then READY else state_of k t)) \<and>
     (\<forall>t \<in> set ts. t_ctx (threads k' t) = (t_ctx (threads k t))\<lparr>reg_rax := v\<rparr>)"
proof (induction ts arbitrary: k c xs)
  case Nil
  have "kqueue_pop q k = Some (None, k)" using Nil by (auto simp: sched_inv_def kqueue_pop_Nil)
  then have "schedule_wake_all q v k = Some k" by (subst schedule_wake_all.simps) simp
  moreover have "c(q := [], RunQueue := c RunQueue @ []) = c" using Nil by auto
  ultimately show ?case using Nil by (simp del: fun_upd_apply)
next
  case (Cons t ts)
  obtain k0 k1 where k1: "kqueue_pop q k = Some (Some t, k0)" "schedule_wake t v k0 = Some k1"
    "sched_inv k1 (c(q := ts, RunQueue := c RunQueue @ [t])) (removeAll t xs)" "kframe {t} k k1"
    "state_of k1 = (state_of k)(t := READY)" "t_ctx (threads k1 t) = (t_ctx (threads k t))\<lparr>reg_rax := v\<rparr>"
    using pop_wake_inv [OF Cons.prems(1,3,2), of v] by blast
  let ?c = "c(q := ts, RunQueue := c RunQueue @ [t])"
  have cq: "?c q = ts" "?c RunQueue = c RunQueue @ [t]" using Cons.prems(2) by simp_all
  obtain k' where k': "schedule_wake_all q v k1 = Some k'"
    "sched_inv k' (?c(q := [], RunQueue := ?c RunQueue @ ts)) (filter (\<lambda>t. t \<notin> set ts) (removeAll t xs))"
    "kframe (set ts) k1 k'" "\<forall>x. state_of k' x = (if x \<in> set ts then READY else state_of k1 x)"
    "\<forall>x \<in> set ts. t_ctx (threads k' x) = (t_ctx (threads k1 x))\<lparr>reg_rax := v\<rparr>"
    using Cons.IH [OF k1(3) Cons.prems(2) cq(1)] by blast
  have qr: "distinct (t # ts)" using Cons.prems(1,3) queue_rep_distinct [of "wait_q k" c q] by (simp add: sched_inv_def)
  have "?c(q := [], RunQueue := ?c RunQueue @ ts) = c(q := [], RunQueue := c RunQueue @ t # ts)"
    using Cons.prems(2) by (auto simp: fun_eq_iff)
  moreover have "filter (\<lambda>t. t \<notin> set ts) (removeAll t xs) = filter (\<lambda>x. x \<notin> set (t # ts)) xs"
    by (auto simp: removeAll_filter_not_eq filter_filter intro: filter_cong)
  ultimately have inv': "sched_inv k' (c(q := [], RunQueue := c RunQueue @ t # ts)) (filter (\<lambda>x. x \<notin> set (t # ts)) xs)"
    using k'(2) by simp
  have run: "schedule_wake_all q v k = Some k'" using k1(1,2) k'(1) by (subst schedule_wake_all.simps) simp
  have fr: "kframe (set (t # ts)) k k'" by (rule kframe_trans [OF k1(4) k'(3)]) auto
  have st: "state_of k' x = (if x \<in> set (t # ts) then READY else state_of k x)" for x
    using k'(4) fun_cong [OF k1(5), of x] by auto
  have "t_ctx (threads k' x) = (t_ctx (threads k x))\<lparr>reg_rax := v\<rparr>" if "x \<in> set (t # ts)" for x
  proof (cases "x = t")
    case True
    then show ?thesis using kframe_ctx [OF k'(3), of t] k1(6) qr by simp
  next
    case False
    then show ?thesis using that k'(5) kframe_ctx [OF k1(4), of x] by simp
  qed
  with run inv' fr st show ?case by blast
qed

section \<open>Expired sleepers\<close>

definition woken_queues :: "(qid \<Rightarrow> tid list) \<Rightarrow> tid list \<Rightarrow> qid \<Rightarrow> tid list" where
  "woken_queues c ws = (\<lambda>q. if q = RunQueue then c RunQueue @ ws else filter (\<lambda>t. t \<notin> set ws) (c q))"

lemma woken_Nil [simp]: "woken_queues c [] = c"
  by (auto simp: woken_queues_def)

lemma woken_Cons: "woken_queues (woken_queues c [t]) ws = woken_queues c (t # ws)"
  by (auto simp: woken_queues_def fun_eq_iff filter_filter intro: filter_cong)

text \<open>The sleep list while its head is being consumed.\<close>

definition tail_links :: "kernel \<Rightarrow> tid list \<Rightarrow> sleep_slot \<Rightarrow> bool" where
  "tail_links k xs p \<longleftrightarrow> (case slinks k of (pv, nx, h) \<Rightarrow> distinct xs \<and> sseg pv nx p xs None \<and>
     (\<forall>t. t \<notin> set xs \<longrightarrow> pv t = None \<and> nx t = None))"

lemma tail_links_start: "links_ok k xs \<Longrightarrow> tail_links k xs SleepHead \<and> sleep_head k = first_or None xs"
  by (auto simp: links_ok_def tail_links_def slinks_def sleep_rep_def)

lemma tail_links_finish:
  assumes "tail_links k xs p"
  defines "k1 \<equiv> k\<lparr>sleep_head := first_or None xs\<rparr>"
  shows "links_ok (case first_or None xs of None \<Rightarrow> k1 | Some t \<Rightarrow> upd_thread t (t_prev_update (\<lambda>_. Some SleepHead)) k1) xs"
proof (cases xs)
  case Nil
  then show ?thesis using assms(1) by (simp add: k1_def links_ok_def tail_links_def slinks_def sleep_rep_def)
next
  case (Cons t ts)
  let ?pv = "\<lambda>x. t_prev (threads k x)" and ?nx = "\<lambda>x. t_next (threads k x)"
  have a: "t \<notin> set ts" "distinct ts" "?nx t = first_or None ts" "sseg ?pv ?nx (NextField t) ts None"
    "\<And>x. x \<noteq> t \<Longrightarrow> x \<notin> set ts \<Longrightarrow> ?pv x = None \<and> ?nx x = None"
    using assms(1) Cons by (auto simp: tail_links_def slinks_def)
  have "sseg (\<lambda>x. t_prev (((threads k)(t := (threads k t)\<lparr>t_prev := Some SleepHead\<rparr>)) x))
      (\<lambda>x. t_next (((threads k)(t := (threads k t)\<lparr>t_prev := Some SleepHead\<rparr>)) x)) (NextField t) ts None"
    using a(1,4) by (subst sseg_cong [of ts _ ?pv _ ?nx]) auto
  with a Cons show ?thesis by (auto simp: k1_def links_ok_def slinks_def sleep_rep_def)
qed

text \<open>One iteration of the wake-up loop.\<close>

definition wake_step :: "tid \<Rightarrow> kernel \<Rightarrow> (tid option \<times> kernel) option" where
  "wake_step t k = do {
     k \<leftarrow> (case t_state (threads k t) of
              WAITING \<Rightarrow> kqueue_remove t k
            | SLEEPING \<Rightarrow> do { kassert (\<not> in_queue t k); Some k }
            | _ \<Rightarrow> None);
     let k = set_state t FLOATING k;
     let nx = t_next (threads k t);
     let k = upd_thread t (\<lambda>th. th\<lparr>t_prev := None, t_next := None, t_ns := 0\<rparr>) k;
     k \<leftarrow> schedule_ready t k;
     Some (nx, k)
   }"

lemma wake_loop_step:
  "wake_loop now (Some t) k =
     (if t_ns (threads k t) < now then do { (nx, k) \<leftarrow> wake_step t k; wake_loop now nx k } else Some (Some t, k))"
  by (subst wake_loop.simps) (auto simp: wake_step_def Let_def split: thread_state.splits Option.bind_splits)

lemma wake_loop_None [simp]: "wake_loop now None k = Some (None, k)"
  by (subst wake_loop.simps) simp

lemma wake_step_inv:
  assumes inv: "core_inv k c (t # xs)" and l: "tail_links k (t # xs) p"
  shows "\<exists>k'. wake_step t k = Some (first_or None xs, k') \<and> core_inv k' (woken_queues c [t]) xs \<and>
    tail_links k' xs (NextField t) \<and> kframe {} k k' \<and> state_of k' = (state_of k)(t := READY) \<and>
    (\<forall>x. x \<noteq> t \<longrightarrow> t_ns (threads k' x) = t_ns (threads k x))"
proof -
  have s: "states_ok (state_of k) (current k) c (t # xs)" and qr: "queue_rep (wait_q k) c"
    and m: "modes_ok k" and so: "sorted (map (ns_of k) (t # xs))" using inv by (simp_all add: core_inv_def)
  have tn: "t \<notin> set xs" and nx: "t_next (threads k t) = first_or None xs"
    using l by (simp_all add: tail_links_def slinks_def)
  have st: "state_of k t = SLEEPING \<or> state_of k t = WAITING" using states_okD(4) [OF s, of t] by simp
  have um: "user_mode (t_ctx (threads k t))" using m st by (auto simp: modes_ok_def)
  let ?clear = "\<lambda>k. upd_thread t (\<lambda>th. th\<lparr>t_prev := None, t_next := None, t_ns := 0\<rparr>) (set_state t FLOATING k)"
  \<comment> \<open>out of its wait queue, if any\<close>
  have "\<exists>h c1. (case state_of k t of WAITING \<Rightarrow> kqueue_remove t k
            | SLEEPING \<Rightarrow> do { kassert (\<not> in_queue t k); Some k } | _ \<Rightarrow> None) = Some (k\<lparr>wait_q := h\<rparr>) \<and>
      queue_rep h c1 \<and> c1(RunQueue := c1 RunQueue @ [t]) = woken_queues c [t] \<and>
      states_ok ((state_of k)(t := FLOATING)) (current k) c1 xs"
  proof (cases "state_of k t = WAITING")
    case False
    then have sl: "state_of k t = SLEEPING" using st by simp
    have idle: "t \<notin> set (c q)" for q using states_okD(1) [OF s, of t q] sl by (auto split: if_splits)
    have "\<not> in_queue t k" by (rule not_in_queue [OF qr idle])
    moreover have "c(RunQueue := c RunQueue @ [t]) = woken_queues c [t]"
      using idle by (auto simp: woken_queues_def fun_eq_iff intro!: filter_True [symmetric])
    moreover have "states_ok ((state_of k)(t := FLOATING)) (current k) c xs"
      by (rule states_unsleep [OF s sl]) (use tn in auto)
    ultimately show ?thesis using qr sl by (intro exI [of _ "wait_q k"] exI [of _ c]) simp
  next
    case True
    then obtain q where q: "q \<noteq> RunQueue" "t \<in> set (c q)" using states_okD(3) [OF s] by blast
    then obtain as bs where c: "c q = as @ t # bs" by (auto dest: split_list)
    have d: "t \<notin> set (as @ bs)" using queue_rep_distinct [OF qr, of q] c by simp
    have u: "q' = q" if "t \<in> set (c q')" for q' using queue_rep_disjoint [OF qr that q(2)] .
    obtain h where h: "queue_node_remove t (wait_q k) = Some h" "queue_rep h (c(q := as @ bs))"
      using fluke_queue.remove_queued [OF qr c] by blast
    have "filter (\<lambda>x. x \<noteq> t) (c q') = (if q' = q then as @ bs else c q')" for q'
    proof (cases "q' = q")
      case True
      have "filter (\<lambda>x. x \<noteq> t) as = as" "filter (\<lambda>x. x \<noteq> t) bs = bs" using d by (auto intro: filter_True)
      with True c show ?thesis by simp
    next
      case False
      with u [of q'] show ?thesis by (auto intro!: filter_True)
    qed
    then have "(c(q := as @ bs))(RunQueue := (c(q := as @ bs)) RunQueue @ [t]) = woken_queues c [t]"
      using q(1) by (auto simp: woken_queues_def fun_eq_iff)
    moreover have "states_ok ((state_of k)(t := FLOATING)) (current k) (c(q := as @ bs)) xs"
      by (rule states_unwait [OF s c q(1) d u]) (use tn in auto)
    ultimately show ?thesis using h True by (intro exI [of _ h] exI [of _ "c(q := as @ bs)"]) (simp add: kqueue_remove_def)
  qed
  then obtain h c1 where r: "(case state_of k t of WAITING \<Rightarrow> kqueue_remove t k
            | SLEEPING \<Rightarrow> do { kassert (\<not> in_queue t k); Some k } | _ \<Rightarrow> None) = Some (k\<lparr>wait_q := h\<rparr>)"
    and c1: "queue_rep h c1" "c1(RunQueue := c1 RunQueue @ [t]) = woken_queues c [t]"
      "states_ok ((state_of k)(t := FLOATING)) (current k) c1 xs" by blast
  define k2 where "k2 = ?clear (k\<lparr>wait_q := h\<rparr>)"
  have so2: "sorted (map (ns_of k) xs)" using so by simp
  have core2: "core_inv k2 c1 xs"
    by (rule core_invI [OF _ c1(3) _ _ so2]) (use c1(1) m tn in \<open>auto simp: k2_def modes_ok_def\<close>)
  have t2: "state_of k2 t = FLOATING" "user_mode (t_ctx (threads k2 t))" using um by (simp_all add: k2_def)
  obtain h' where h': "schedule_ready t k2 = Some ((set_state t READY k2)\<lparr>wait_q := h'\<rparr>)"
    "core_inv ((set_state t READY k2)\<lparr>wait_q := h'\<rparr>) (c1(RunQueue := c1 RunQueue @ [t])) xs"
    using schedule_ready_core [OF core2 t2] by blast
  define k' where "k' = (set_state t READY k2)\<lparr>wait_q := h'\<rparr>"
  have run: "wake_step t k = Some (first_or None xs, k')"
    using r h'(1) nx by (simp add: wake_step_def k2_def Let_def k'_def)
  have core': "core_inv k' (woken_queues c [t]) xs" using h'(2) c1(2) by (simp add: k'_def)
  have sl: "slinks k' = (case slinks k of (pv, nx, h) \<Rightarrow> (pv(t := None), nx(t := None), h))"
    by (auto simp: k'_def k2_def slinks_def fun_eq_iff)
  have "tail_links k' xs (NextField t)" using l tn unfolding tail_links_def sl by (auto split: prod.splits)
  moreover have "kframe {} k k'" using st by (auto simp: kframe_def k'_def k2_def)
  moreover have "state_of k' = (state_of k)(t := READY)" by (auto simp: k'_def k2_def fun_eq_iff)
  moreover have "\<forall>x. x \<noteq> t \<longrightarrow> t_ns (threads k' x) = t_ns (threads k x)" by (auto simp: k'_def k2_def)
  ultimately show ?thesis using run core' by blast
qed

lemma wake_loop_inv:
  "core_inv k c xs \<Longrightarrow> tail_links k xs p \<Longrightarrow>
   \<exists>k' p'. let ws = takeWhile (\<lambda>t. ns_of k t < now) xs; rest = dropWhile (\<lambda>t. ns_of k t < now) xs in
     wake_loop now (first_or None xs) k = Some (first_or None rest, k') \<and> core_inv k' (woken_queues c ws) rest \<and>
     tail_links k' rest p' \<and> kframe {} k k' \<and>
     (\<forall>x. state_of k' x = (if x \<in> set ws then READY else state_of k x))"
proof (induction xs arbitrary: k c p)
  case Nil
  then show ?case by (intro exI [of _ k] exI [of _ p]) simp
next
  case (Cons t xs)
  show ?case
  proof (cases "ns_of k t < now")
    case False
    then show ?thesis using Cons.prems by (intro exI [of _ k] exI [of _ p]) (simp add: wake_loop_step)
  next
    case True
    obtain k1 where k1: "wake_step t k = Some (first_or None xs, k1)" "core_inv k1 (woken_queues c [t]) xs"
      "tail_links k1 xs (NextField t)" "kframe {} k k1" "state_of k1 = (state_of k)(t := READY)"
      "\<forall>x. x \<noteq> t \<longrightarrow> t_ns (threads k1 x) = t_ns (threads k x)"
      using wake_step_inv [OF Cons.prems] by blast
    have tn: "t \<notin> set xs" using Cons.prems(2) by (simp add: tail_links_def slinks_def)
    have ns: "(ns_of k1 x < now) = (ns_of k x < now)" if "x \<in> set xs" for x using that tn k1(6) by auto
    have tw: "takeWhile (\<lambda>t. ns_of k1 t < now) xs = takeWhile (\<lambda>t. ns_of k t < now) xs"
      "dropWhile (\<lambda>t. ns_of k1 t < now) xs = dropWhile (\<lambda>t. ns_of k t < now) xs"
      using ns by (simp_all only: cong: takeWhile_cong dropWhile_cong)
    let ?ws = "takeWhile (\<lambda>t. ns_of k t < now) xs" and ?rest = "dropWhile (\<lambda>t. ns_of k t < now) xs"
    obtain k' p' where k': "wake_loop now (first_or None xs) k1 = Some (first_or None ?rest, k')"
      "core_inv k' (woken_queues (woken_queues c [t]) ?ws) ?rest" "tail_links k' ?rest p'" "kframe {} k1 k'"
      "\<forall>x. state_of k' x = (if x \<in> set ?ws then READY else state_of k1 x)"
      using Cons.IH [OF k1(2,3)] unfolding tw Let_def by blast
    have fr: "kframe {} k k'" by (rule kframe_trans [OF k1(4) k'(4)]) simp_all
    have run: "wake_loop now (first_or None (t # xs)) k = Some (first_or None ?rest, k')"
      using True k1(1) k'(1) by (simp add: wake_loop_step)
    have st: "state_of k' x = (if x \<in> set (t # ?ws) then READY else state_of k x)" for x
      using k'(5) fun_cong [OF k1(5), of x] by auto
    have e: "takeWhile (\<lambda>t. ns_of k t < now) (t # xs) = t # ?ws" "dropWhile (\<lambda>t. ns_of k t < now) (t # xs) = ?rest"
      using True by simp_all
    show ?thesis unfolding Let_def e
      by (intro exI [of _ k'] exI [of _ p'] conjI allI run fr st k'(3)) (use k'(2) in \<open>simp add: woken_Cons\<close>)
  qed
qed

lemma wakeup_sleepers_inv:
  assumes inv: "sched_inv k c xs" and ws_def: "ws = takeWhile (\<lambda>t. ns_of k t < now) xs"
    and rest_def: "rest = dropWhile (\<lambda>t. ns_of k t < now) xs"
  shows "\<exists>k'. wakeup_sleepers now k = Some k' \<and> sched_inv k' (woken_queues c ws) rest \<and> kframe {} k k' \<and>
     (\<forall>x. state_of k' x = (if x \<in> set ws then READY else state_of k x))"
proof -
  have core: "core_inv k c xs" and l: "links_ok k xs" using inv by (simp_all add: sched_inv_core)
  have tl: "tail_links k xs SleepHead" and hd: "sleep_head k = first_or None xs" using tail_links_start [OF l] by simp_all
  obtain k1 p where k1: "wake_loop now (first_or None xs) k = Some (first_or None rest, k1)"
    "core_inv k1 (woken_queues c ws) rest" "tail_links k1 rest p" "kframe {} k k1"
    "\<forall>x. state_of k1 x = (if x \<in> set ws then READY else state_of k x)"
    using wake_loop_inv [OF core tl, of now] unfolding Let_def ws_def rest_def by blast
  define k2 where "k2 = k1\<lparr>sleep_head := first_or None rest\<rparr>"
  define k' where "k' = (case first_or None rest of None \<Rightarrow> k2 | Some t \<Rightarrow> upd_thread t (t_prev_update (\<lambda>_. Some SleepHead)) k2)"
  have same: "t_state (threads k' x) = t_state (threads k1 x)" "t_ns (threads k' x) = t_ns (threads k1 x)"
    "t_ctx (threads k' x) = t_ctx (threads k1 x)" "t_caller (threads k' x) = t_caller (threads k1 x)"
    "t_page_map (threads k' x) = t_page_map (threads k1 x)"
    "wait_q k' = wait_q k1" "current k' = current k1" "user_ctx k' = user_ctx k1" "cr3 k' = cr3 k1" for x
    by (auto simp: k'_def k2_def split: option.splits)
  have core': "core_inv k' (woken_queues c ws) rest" using k1(2) by (simp add: core_inv_def modes_ok_def same)
  have "links_ok k' rest" unfolding k'_def k2_def by (rule tail_links_finish [OF k1(3)])
  then have "sched_inv k' (woken_queues c ws) rest" using core' by (simp add: sched_inv_core)
  moreover have "kframe {} k k'" using k1(4) by (simp add: kframe_def same)
  moreover have "wakeup_sleepers now k = Some k'"
    using k1(1) hd unfolding k'_def k2_def by (simp add: wakeup_sleepers_def Let_def)
  moreover have "\<forall>x. state_of k' x = (if x \<in> set ws then READY else state_of k x)" using k1(5) by (simp add: same)
  ultimately show ?thesis by blast
qed

section \<open>The scheduler\<close>

text \<open>What stays of every thread when the processor changes hands.\<close>

definition tframe :: "kernel \<Rightarrow> kernel \<Rightarrow> bool" where
  "tframe k k' \<longleftrightarrow> (\<forall>x. t_caller (threads k' x) = t_caller (threads k x) \<and>
     t_page_map (threads k' x) = t_page_map (threads k x) \<and>
     (current k \<noteq> Some x \<longrightarrow> t_ctx (threads k' x) = t_ctx (threads k x)) \<and>
     (t_state (threads k' x) = CALLING \<longleftrightarrow> t_state (threads k x) = CALLING))"

lemma schedule_inv:
  assumes inv: "sched_inv k c xs" and ws_def: "ws = takeWhile (\<lambda>t. ns_of k t < now) xs"
    and rest_def: "rest = dropWhile (\<lambda>t. ns_of k t < now) xs" and rq_def: "rq = c RunQueue @ ws"
  shows "\<exists>k'. schedule now k = Some (rq \<noteq> [], k') \<and> tframe k k' \<and>
     (if rq = [] then sched_inv k' c rest \<and> current k' = current k \<and> kframe {} k k'
      else current k' = Some (hd rq) \<and> user_ctx k' = t_ctx (threads k (hd rq)) \<and>
        cr3 k' = t_page_map (threads k (hd rq)) \<and>
        sched_inv k' ((woken_queues c ws)(RunQueue := tl rq @ (case current k of None \<Rightarrow> [] | Some r \<Rightarrow> [r]))) rest \<and>
        (\<forall>r. current k = Some r \<longrightarrow> t_ctx (threads k' r) = user_ctx k \<and> state_of k' r = READY))"
proof -
  obtain k1 where k1: "wakeup_sleepers now k = Some k1" "sched_inv k1 (woken_queues c ws) rest" "kframe {} k k1"
    using wakeup_sleepers_inv [OF inv ws_def rest_def] by blast
  have core1: "core_inv k1 (woken_queues c ws) rest" and l1: "links_ok k1 rest" using k1(2) by (simp_all add: sched_inv_core)
  have rq: "woken_queues c ws RunQueue = rq" by (simp add: rq_def woken_queues_def)
  have f1: "current k1 = current k" "user_ctx k1 = user_ctx k" "\<And>x. t_ctx (threads k1 x) = t_ctx (threads k x)"
    "\<And>x. t_page_map (threads k1 x) = t_page_map (threads k x)" "\<And>x. t_caller (threads k1 x) = t_caller (threads k x)"
    "\<And>x. state_of k1 x = CALLING \<longleftrightarrow> state_of k x = CALLING"
    using k1(3) by (simp_all add: kframe_def)
  show ?thesis
  proof (cases rq)
    case Nil
    then have w: "ws = []" by (simp add: rq_def)
    have "kqueue_pop RunQueue k1 = Some (None, k1)"
      using kqueue_pop_Nil [of k1 "woken_queues c ws" RunQueue] core1 rq Nil by (simp add: core_inv_def)
    then have "schedule now k = Some (False, k1)" using k1(1) by (simp add: schedule_def run_queue_pop_def)
    then show ?thesis using Nil k1(2,3) f1 w by (simp add: tframe_def)
  next
    case (Cons t ts)
    then have rqC: "woken_queues c ws RunQueue = t # ts" using rq by simp
    obtain h where h: "run_queue_pop k1 = Some (Some t, set_state t FLOATING (k1\<lparr>wait_q := h\<rparr>))"
      "core_inv (set_state t FLOATING (k1\<lparr>wait_q := h\<rparr>)) ((woken_queues c ws)(RunQueue := ts)) rest"
      and um: "user_mode (t_ctx (threads k1 t))" and rdy: "state_of k1 t = READY"
      using run_queue_pop_core [OF core1 rqC] by blast
    define k2 where "k2 = set_state t FLOATING (k1\<lparr>wait_q := h\<rparr>)"
    define c2 where "c2 = (woken_queues c ws)(RunQueue := ts)"
    have core2: "core_inv k2 c2 rest" and sl2: "slinks k2 = slinks k1" and f2: "current k2 = current k" "user_ctx k2 = user_ctx k"
      "\<And>x. t_ctx (threads k2 x) = t_ctx (threads k x)" "\<And>x. t_page_map (threads k2 x) = t_page_map (threads k x)"
      "\<And>x. t_caller (threads k2 x) = t_caller (threads k x)" "\<And>x. state_of k2 x = CALLING \<longleftrightarrow> state_of k x = CALLING"
      and st2: "state_of k2 t = FLOATING"
    proof -
      have "state_of k t \<noteq> CALLING" using f1(6) [of t] rdy by simp
      then show "state_of k2 x = CALLING \<longleftrightarrow> state_of k x = CALLING" for x
        using f1(6) [of x] by (simp add: k2_def)
    qed (use h(2) in \<open>simp_all add: k2_def c2_def f1(1-5)\<close>)
    have "\<exists>k3. (case current k2 of None \<Rightarrow> Some k2
        | Some running \<Rightarrow> do { (_, k) \<leftarrow> cpu_context_save k2; schedule_ready running k }) = Some k3 \<and>
        core_inv k3 (c2(RunQueue := ts @ (case current k of None \<Rightarrow> [] | Some r \<Rightarrow> [r]))) rest \<and> slinks k3 = slinks k1 \<and>
        current k3 = None \<and> state_of k3 t = FLOATING \<and> t_ctx (threads k3 t) = t_ctx (threads k t) \<and>
        (\<forall>x. t_caller (threads k3 x) = t_caller (threads k x) \<and> t_page_map (threads k3 x) = t_page_map (threads k x) \<and>
          (current k \<noteq> Some x \<longrightarrow> t_ctx (threads k3 x) = t_ctx (threads k x)) \<and>
          (current k = Some x \<longrightarrow> t_ctx (threads k3 x) = user_ctx k \<and> state_of k3 x = READY) \<and>
          (state_of k3 x = CALLING \<longleftrightarrow> state_of k x = CALLING))"
    proof (cases "current k")
      case None
      then show ?thesis using core2 sl2 f2 st2 by (intro exI [of _ k2]) (simp add: c2_def)
    next
      case (Some r)
      have cur: "current k2 = Some r" using Some f2 by simp
      define k2' where "k2' = (upd_thread r (\<lambda>th. th\<lparr>t_ctx := user_ctx k2, t_state := FLOATING\<rparr>) k2)\<lparr>current := None\<rparr>"
      have sv: "cpu_context_save k2 = Some (r, k2')" "core_inv k2' c2 rest" "slinks k2' = slinks k2" "user_mode (user_ctx k2)"
        using context_save_core [OF core2 cur] by (simp_all add: k2'_def)
      have rr: "state_of k2 r = RUNNING" using core2 cur states_okD(6) [of "state_of k2" "current k2" c2 rest r]
        by (simp add: core_inv_def)
      then have rt: "r \<noteq> t" using st2 by auto
      have r2: "state_of k2' r = FLOATING" "user_mode (t_ctx (threads k2' r))" using sv(4) by (simp_all add: k2'_def)
      obtain h' where h': "schedule_ready r k2' = Some ((set_state r READY k2')\<lparr>wait_q := h'\<rparr>)"
        "core_inv ((set_state r READY k2')\<lparr>wait_q := h'\<rparr>) (c2(RunQueue := c2 RunQueue @ [r])) rest"
        using schedule_ready_core [OF sv(2) r2] by blast
      have c2r: "c2(RunQueue := c2 RunQueue @ [r]) = c2(RunQueue := ts @ [r])" by (simp add: c2_def)
      have nc: "state_of k r \<noteq> CALLING" using rr f2(6) [of r] by simp
      show ?thesis
        using sv(1,3) h' sl2 cur Some f2 st2 rt nc unfolding c2r
        by (intro exI [of _ "(set_state r READY k2')\<lparr>wait_q := h'\<rparr>"]) (auto simp: k2'_def slinks_upd_thread)
    qed
    then obtain k3 where k3: "(case current k2 of None \<Rightarrow> Some k2
        | Some running \<Rightarrow> do { (_, k) \<leftarrow> cpu_context_save k2; schedule_ready running k }) = Some k3"
      and core3: "core_inv k3 (c2(RunQueue := ts @ (case current k of None \<Rightarrow> [] | Some r \<Rightarrow> [r]))) rest"
      and sl3: "slinks k3 = slinks k1" and cur3: "current k3 = None" and t3: "state_of k3 t = FLOATING"
        "t_ctx (threads k3 t) = t_ctx (threads k t)"
      and f3: "\<forall>x. t_caller (threads k3 x) = t_caller (threads k x) \<and> t_page_map (threads k3 x) = t_page_map (threads k x) \<and>
          (current k \<noteq> Some x \<longrightarrow> t_ctx (threads k3 x) = t_ctx (threads k x)) \<and>
          (current k = Some x \<longrightarrow> t_ctx (threads k3 x) = user_ctx k \<and> state_of k3 x = READY) \<and>
          (state_of k3 x = CALLING \<longleftrightarrow> state_of k x = CALLING)" by blast
    have um3: "user_mode (t_ctx (threads k3 t))" using um f1(3) t3(2) by simp
    obtain k' where k': "cpu_context_restore_and_exit t k3 = Some k'"
      "core_inv k' (c2(RunQueue := ts @ (case current k of None \<Rightarrow> [] | Some r \<Rightarrow> [r]))) rest" "slinks k' = slinks k3"
      "current k' = Some t" "cr3 k' = t_page_map (threads k3 t)" "user_ctx k' = t_ctx (threads k3 t)"
      "threads k' = (threads k3)(t := (threads k3 t)\<lparr>t_state := RUNNING\<rparr>)"
      using context_restore_core [OF core3 cur3 t3(1) um3] by blast
    have "schedule now k = Some (True, k')"
      using k1(1) h(1) k3 k'(1) by (simp add: schedule_def k2_def [symmetric])
    moreover have "links_ok k' rest" using l1 k'(3) sl3 by (simp add: links_ok_def)
    moreover have "c2(RunQueue := ts @ l) = (woken_queues c ws)(RunQueue := ts @ l)" for l by (simp add: c2_def)
    moreover have "tframe k k'"
    proof -
      have "state_of k3 t = CALLING \<longleftrightarrow> state_of k t = CALLING" using f3 by blast
      then have "state_of k t \<noteq> CALLING" using t3(1) by simp
      then show ?thesis unfolding tframe_def k'(7) using f3 by (auto split: if_splits)
    qed
    moreover have "t_ctx (threads k' r) = user_ctx k \<and> state_of k' r = READY" if r: "current k = Some r" for r
    proof -
      have "r \<noteq> t" using f3 r t3(1) by auto
      then show ?thesis unfolding k'(7) using f3 r by simp
    qed
    ultimately show ?thesis using Cons k'(2,4,5,6) t3(2) f3 by (simp add: sched_inv_core)
  qed
qed

lemma schedule_total:
  assumes "sched_inv k c xs"
  shows "\<exists>left k' c' xs'. schedule now k = Some (left, k') \<and> sched_inv k' c' xs' \<and> tframe k k' \<and>
    (\<not> left \<longrightarrow> kframe {} k k')"
proof -
  let ?rq = "c RunQueue @ takeWhile (\<lambda>t. ns_of k t < now) xs"
  from schedule_inv [OF assms refl refl refl, of now] obtain k' where
    k': "schedule now k = Some (?rq \<noteq> [], k')" "tframe k k'" and
    r: "?rq = [] \<longrightarrow> (\<exists>xs'. sched_inv k' c xs') \<and> kframe {} k k'" "?rq \<noteq> [] \<longrightarrow> (\<exists>c' xs'. sched_inv k' c' xs')"
    by (elim exE conjE) (simp split: if_splits, blast+)
  then show ?thesis by (cases "?rq = []") blast+
qed

text \<open>C33. The scheduler is round robin and wakes on time: in every consistent state it does not panic; the
  sleepers whose timeout has passed, and only those, leave the sleep list and any queue they waited in and
  join the run queue in the order of their timeouts; the first thread of that queue then runs with its saved
  registers and address space; and the interrupted thread, its registers saved, goes to the back. With an
  empty run queue the current thread keeps the processor.\<close>

theorem schedule_round_robin:
  assumes "sched_inv k c xs"
  shows "let ws = takeWhile (\<lambda>t. ns_of k t < now) xs; rest = dropWhile (\<lambda>t. ns_of k t < now) xs; rq = c RunQueue @ ws in
    \<exists>k'. schedule now k = Some (rq \<noteq> [], k') \<and>
     (if rq = [] then sched_inv k' c rest \<and> current k' = current k
      else current k' = Some (hd rq) \<and> user_ctx k' = t_ctx (threads k (hd rq)) \<and>
        cr3 k' = t_page_map (threads k (hd rq)) \<and>
        sched_inv k' ((woken_queues c ws)(RunQueue := tl rq @ (case current k of None \<Rightarrow> [] | Some r \<Rightarrow> [r]))) rest \<and>
        (\<forall>r. current k = Some r \<longrightarrow> t_ctx (threads k' r) = user_ctx k \<and> state_of k' r = READY))"
  using schedule_inv [OF assms refl refl refl, of now] unfolding Let_def by (auto split: if_splits)

definition idle_thread :: thread where
  "idle_thread = \<lparr>t_page_map = 0, t_ctx = zero_registers, t_state = FLOATING, t_prev = None, t_next = None,
     t_ns = 0, t_caller = None\<rparr>"

definition boot_kernel :: kernel where
  "boot_kernel = \<lparr>threads = (\<lambda>_. idle_thread), wait_q = empty_qheap, sleep_head = None, current = None,
     user_ctx = zero_registers, cr3 = 0\<rparr>"

lemma boot_inv: "sched_inv boot_kernel (\<lambda>_. []) []"
  by (simp add: sched_inv_def boot_kernel_def idle_thread_def queue_rep_empty links_ok_def slinks_def sleep_rep_def
      states_ok_def modes_ok_def)

text \<open>A state with one ready thread, for the witnesses.\<close>

definition one_ready :: kernel where
  "one_ready = the (schedule_ready 1 (upd_thread 1
     (t_ctx_update (\<lambda>_. zero_registers\<lparr>reg_cs := GDT_USER64_CODE\<rparr>)) boot_kernel))"

lemma one_ready_inv: "sched_inv one_ready ((\<lambda>_. [])(RunQueue := [1])) []"
proof -
  let ?k = "upd_thread 1 (t_ctx_update (\<lambda>_. zero_registers\<lparr>reg_cs := GDT_USER64_CODE\<rparr>)) boot_kernel"
  have st: "state_of ?k = state_of boot_kernel" by (simp add: fun_eq_iff)
  have core: "core_inv ?k (\<lambda>_. []) []"
    using boot_inv unfolding sched_inv_core core_inv_def st by (simp add: modes_ok_def boot_kernel_def idle_thread_def)
  have sl: "slinks ?k = slinks boot_kernel" by (rule slinks_upd_thread) simp_all
  have t: "state_of ?k 1 = FLOATING" "user_mode (t_ctx (threads ?k 1))" by (simp_all add: boot_kernel_def idle_thread_def)
  obtain h where h: "schedule_ready 1 ?k = Some ((set_state 1 READY ?k)\<lparr>wait_q := h\<rparr>)"
    "core_inv ((set_state 1 READY ?k)\<lparr>wait_q := h\<rparr>) ((\<lambda>_. [])(RunQueue := [] @ [1])) []"
    using schedule_ready_core [OF core t] by blast
  have "links_ok ((set_state 1 READY ?k)\<lparr>wait_q := h\<rparr>) []" using boot_inv sl by (simp add: sched_inv_core links_ok_def)
  with h show ?thesis by (simp add: one_ready_def sched_inv_core)
qed

theorem schedule_round_robin_witness:
  "let c = (\<lambda>_. [])(RunQueue := [1]); xs = ([] :: tid list);
     ws = takeWhile (\<lambda>t. ns_of one_ready t < 5) xs; rest = dropWhile (\<lambda>t. ns_of one_ready t < 5) xs; rq = c RunQueue @ ws in
    \<exists>k'. schedule 5 one_ready = Some (rq \<noteq> [], k') \<and>
     (if rq = [] then sched_inv k' c rest \<and> current k' = current one_ready
      else current k' = Some (hd rq) \<and> user_ctx k' = t_ctx (threads one_ready (hd rq)) \<and>
        cr3 k' = t_page_map (threads one_ready (hd rq)) \<and>
        sched_inv k' ((woken_queues c ws)(RunQueue := tl rq @ (case current one_ready of None \<Rightarrow> [] | Some r \<Rightarrow> [r]))) rest \<and>
        (\<forall>r. current one_ready = Some r \<longrightarrow> t_ctx (threads k' r) = user_ctx one_ready \<and> state_of k' r = READY))"
  using schedule_round_robin [OF one_ready_inv, of 5] unfolding Let_def .

text \<open>C34. In a consistent state of the scheduler, \<open>schedule_nanosleep\<close> on a detached thread whose saved context
  is one of user mode, for a positive signed time (the code asserts \<open>wait_ns > 0\<close>), does not panic and keeps the
  sleep list sorted by timeout, with the thread behind those that are due at the same time; no other thread is
  touched.\<close>

theorem nanosleep_sorted:
  assumes "sched_inv k c xs" and "state_of k t = FLOATING" and "user_mode (t_ctx (threads k t))" and "0 <s ns"
  shows "\<exists>k'. schedule_nanosleep now t ns k = Some k' \<and> state_of k' = (state_of k)(t := SLEEPING) \<and>
    t_ns (threads k' t) = ns + now \<and> kframe {} k k' \<and>
    (\<exists>as bs. xs = as @ bs \<and> sched_inv k' c (as @ t # bs) \<and> (\<forall>x\<in>set as. ns_of k x \<le> ns + now) \<and>
      (\<forall>x\<in>set bs. ns + now < ns_of k x))"
proof -
  obtain k' where k': "schedule_nanosleep now t ns k = Some k'" "sched_inv k' c (ins_timeout (ns_of k) (ns + now) t xs)"
    "kframe {} k k'" "state_of k' = (state_of k)(t := SLEEPING)" "t_ns (threads k' t) = ns + now"
    using nanosleep_inv [OF assms] by blast
  let ?P = "\<lambda>y. \<not> ns + now < ns_of k y"
  have lo: "\<forall>x\<in>set (takeWhile ?P xs). ns_of k x \<le> ns + now" by (auto dest: set_takeWhileD)
  have hi: "ns + now < ns_of k x" if x: "x \<in> set (dropWhile ?P xs)" for x
  proof -
    obtain z zs where z: "dropWhile ?P xs = z # zs" using x by (cases "dropWhile ?P xs") auto
    then have "ns + now < ns_of k z" by (metis dropWhile_eq_Cons_conv)
    moreover have "sorted (map (ns_of k) (takeWhile ?P xs @ dropWhile ?P xs))"
      using assms(1) by (simp add: sched_inv_def)
    then have "sorted (map (ns_of k) (z # zs))" unfolding z map_append sorted_append by blast
    then have "ns_of k z \<le> ns_of k x" using x unfolding z by auto
    ultimately show ?thesis by simp
  qed
  have sp: "xs = takeWhile ?P xs @ dropWhile ?P xs" by (rule takeWhile_dropWhile_id [symmetric])
  have "\<exists>as bs. xs = as @ bs \<and> sched_inv k' c (as @ t # bs) \<and> (\<forall>x\<in>set as. ns_of k x \<le> ns + now) \<and>
      (\<forall>x\<in>set bs. ns + now < ns_of k x)"
    by (intro exI conjI, rule sp, rule k'(2) [unfolded ins_timeout_def], rule lo, rule ballI, rule hi)
  then show ?thesis by (intro exI [of _ k'] conjI k')
qed

theorem nanosleep_sorted_witness:
  "let k = upd_thread 2 (t_ctx_update (\<lambda>_. zero_registers\<lparr>reg_cs := GDT_USER64_CODE\<rparr>)) one_ready
   in \<exists>k'. schedule_nanosleep 5 2 7 k = Some k' \<and> state_of k' = (state_of k)(2 := SLEEPING) \<and>
    t_ns (threads k' 2) = 7 + 5 \<and> kframe {} k k' \<and>
    (\<exists>as bs. [] = as @ bs \<and> sched_inv k' ((\<lambda>_. [])(RunQueue := [1])) (as @ 2 # bs) \<and> (\<forall>x\<in>set as. ns_of k x \<le> 7 + 5) \<and>
      (\<forall>x\<in>set bs. 7 + 5 < ns_of k x))"
proof -
  let ?k = "upd_thread 2 (t_ctx_update (\<lambda>_. zero_registers\<lparr>reg_cs := GDT_USER64_CODE\<rparr>)) one_ready"
  have st: "state_of ?k = state_of one_ready" by (simp add: fun_eq_iff)
  have "slinks ?k = slinks one_ready" by (rule slinks_upd_thread) simp_all
  then have inv: "sched_inv ?k ((\<lambda>_. [])(RunQueue := [1])) []"
    using one_ready_inv unfolding sched_inv_core core_inv_def st by (auto simp: modes_ok_def links_ok_def)
  have "state_of one_ready 2 = FLOATING"
    by (simp add: one_ready_def schedule_ready_def boot_kernel_def idle_thread_def kqueue_push_def queue_push_def
      empty_qheap_def zero_node_def upd_node_def upd_head_def Let_def)
  then show ?thesis unfolding Let_def by (intro nanosleep_sorted [OF inv]) (simp_all add: word_sless_alt)
qed

text \<open>Waking a queue (a closed channel or interrupt) empties it: all its threads, in order, become ready
  with the given result in their result register, those that waited with a timeout are off the sleep list, the
  loop ends, and no other thread or queue changes.\<close>

theorem wake_all_correct:
  assumes "sched_inv k c xs" and "q \<noteq> RunQueue"
  shows "\<exists>k'. schedule_wake_all q v k = Some k' \<and>
     sched_inv k' (c(q := [], RunQueue := c RunQueue @ c q)) (filter (\<lambda>t. t \<notin> set (c q)) xs) \<and>
     (\<forall>t. state_of k' t = (if t \<in> set (c q) then READY else state_of k t)) \<and>
     (\<forall>t. t_ctx (threads k' t) =
       (if t \<in> set (c q) then (t_ctx (threads k t))\<lparr>reg_rax := v\<rparr> else t_ctx (threads k t)))"
proof -
  obtain k' where k': "schedule_wake_all q v k = Some k'"
    "sched_inv k' (c(q := [], RunQueue := c RunQueue @ c q)) (filter (\<lambda>t. t \<notin> set (c q)) xs)" "kframe (set (c q)) k k'"
    "\<forall>t. state_of k' t = (if t \<in> set (c q) then READY else state_of k t)"
    "\<forall>t \<in> set (c q). t_ctx (threads k' t) = (t_ctx (threads k t))\<lparr>reg_rax := v\<rparr>"
    using wake_all_inv [OF assms refl, of v] by blast
  have "t_ctx (threads k' t) = (if t \<in> set (c q) then (t_ctx (threads k t))\<lparr>reg_rax := v\<rparr> else t_ctx (threads k t))" for t
    using k'(5) kframe_ctx [OF k'(3), of t] by simp
  with k' show ?thesis by blast
qed

theorem wake_all_correct_witness:
  "let c = (\<lambda>_. [])(RunQueue := [1]); k = one_ready; q = IrqQueue 3 in
   \<exists>k'. schedule_wake_all q 5 k = Some k' \<and>
     sched_inv k' (c(q := [], RunQueue := c RunQueue @ c q)) (filter (\<lambda>t. t \<notin> set (c q)) []) \<and>
     (\<forall>t. state_of k' t = (if t \<in> set (c q) then READY else state_of k t)) \<and>
     (\<forall>t. t_ctx (threads k' t) =
       (if t \<in> set (c q) then (t_ctx (threads k t))\<lparr>reg_rax := 5\<rparr> else t_ctx (threads k t)))"
  unfolding Let_def by (rule wake_all_correct [OF one_ready_inv]) simp

end
