(* ===== verification/Interrupt.thy ===== *)
theory Interrupt
  imports Schedule
begin

text \<open>
  Hardware interrupts: \<open>kernel/src/user/irq.cxx\<close> (the handles user programs wait on), the I/O APIC of
  \<open>kernel/src/x86_64/ioapic.c\<close> and \<open>interrupt_entry\<close> of \<open>kernel/src/x86_64/entry.c\<close>.

  The I/O APIC is its register file. The local APIC's end-of-interrupt write has no effect in the model.
\<close>

section \<open>The I/O APIC\<close>

record ioredtbl =
  interrupt_vector :: u8
  delivery_mode :: u64
  destination_mode :: u64
  delivery_status :: u64
  polarity :: u64
  remote_irr :: bool
  trigger_mode :: u64
  masked :: bool
  destination_field :: u8

text \<open>The packed layout of the entry: bit positions 0, 8, 11, 12, 13, 14, 15, 16 and 56.\<close>

definition entry_bits :: "ioredtbl \<Rightarrow> u64" where
  "entry_bits e = ucast (interrupt_vector e) OR push_bit 8 (take_bit 3 (delivery_mode e)) OR
     push_bit 11 (take_bit 1 (destination_mode e)) OR push_bit 12 (take_bit 1 (delivery_status e)) OR
     push_bit 13 (take_bit 1 (polarity e)) OR push_bit 14 (if remote_irr e then 1 else 0) OR
     push_bit 15 (take_bit 1 (trigger_mode e)) OR push_bit 16 (if masked e then 1 else 0) OR
     push_bit 56 (ucast (destination_field e))"

definition bits_entry :: "u64 \<Rightarrow> ioredtbl" where
  "bits_entry b = \<lparr>interrupt_vector = ucast b, delivery_mode = take_bit 3 (drop_bit 8 b),
     destination_mode = take_bit 1 (drop_bit 11 b), delivery_status = take_bit 1 (drop_bit 12 b),
     polarity = take_bit 1 (drop_bit 13 b), remote_irr = bit b 14, trigger_mode = take_bit 1 (drop_bit 15 b),
     masked = bit b 16, destination_field = ucast (drop_bit 56 b)\<rparr>"

type_synonym ioapic = "u32 \<Rightarrow> u32"

definition IOAPIC_REDIRECT_TABLE :: u32 where "IOAPIC_REDIRECT_TABLE = 0x10"

definition ioapic_set_entry :: "u8 \<Rightarrow> ioredtbl \<Rightarrow> ioapic \<Rightarrow> ioapic" where
  "ioapic_set_entry index e io =
     (let bits = entry_bits e; r = IOAPIC_REDIRECT_TABLE + push_bit 1 (ucast index)
      in io(r := ucast bits, r + 1 := ucast (drop_bit 32 bits)))"

definition ioapic_get_entry :: "u8 \<Rightarrow> ioapic \<Rightarrow> ioredtbl" where
  "ioapic_get_entry index io =
     (let r = IOAPIC_REDIRECT_TABLE + push_bit 1 (ucast index)
      in bits_entry (ucast (io r) OR push_bit 32 (ucast (io (r + 1)))))"

definition IRQ_OFFSET :: int where "IRQ_OFFSET = 32"
definition IRQ_COUNT :: int where "IRQ_COUNT = 16"
definition IRQ_MAX :: int where "IRQ_MAX = 15"

definition isr_to_irq :: "int \<Rightarrow> int" where
  "isr_to_irq isr = (if IRQ_OFFSET \<le> isr \<and> isr < IRQ_OFFSET + IRQ_COUNT then isr - IRQ_OFFSET else -1)"

definition irq_entry :: "int \<Rightarrow> bool \<Rightarrow> ioredtbl" where
  "irq_entry irq enable = \<lparr>interrupt_vector = word_of_int (irq + IRQ_OFFSET), delivery_mode = 0,
     destination_mode = 0, delivery_status = 0, polarity = 0, remote_irr = False, trigger_mode = 0,
     masked = (\<not> enable), destination_field = 0\<rparr>"

definition ioapic_enable_irq :: "int \<Rightarrow> bool \<Rightarrow> ioapic \<Rightarrow> ioapic option" where
  "ioapic_enable_irq irq enable io =
     (if irq < 0 \<or> IRQ_COUNT \<le> irq then None
      else Some (ioapic_set_entry (word_of_int irq) (irq_entry irq enable) io))"

section \<open>Interrupt handles\<close>

record irq_handle =
  is_claimed :: bool
  interrupt_occurred :: bool

record irq_world =
  iw_kernel :: kernel
  iw_handlers :: "nat \<Rightarrow> irq_handle"
  iw_ioapic :: ioapic

definition upd_handler :: "nat \<Rightarrow> (irq_handle \<Rightarrow> irq_handle) \<Rightarrow> irq_world \<Rightarrow> irq_world" where
  "upd_handler n f w = w\<lparr>iw_handlers := (iw_handlers w)(n := f (iw_handlers w n))\<rparr>"

definition irq_claim :: "int \<Rightarrow> irq_world \<Rightarrow> (errno + nat) \<times> irq_world" where
  "irq_claim irq w =
     (if irq < 0 \<or> IRQ_MAX < irq then (Inl EINVAL, w)
      else if is_claimed (iw_handlers w (nat irq)) then (Inl EBUSY, w)
      else (Inr (nat irq), upd_handler (nat irq) (is_claimed_update (\<lambda>_. True)) w))"

definition IRQ_CTL_WAIT :: u32 where "IRQ_CTL_WAIT = 1"
definition IRQ_CTL_ENABLE :: u32 where "IRQ_CTL_ENABLE = 2"

text \<open>A system call either returns a value or leaves the kernel through another thread or the idle loop.\<close>

datatype 'a outcome = Returned 'a | Departed

definition irq_ctl :: "u64 \<Rightarrow> u64 \<Rightarrow> u64 \<Rightarrow> u64 \<Rightarrow> nat \<Rightarrow> registers \<Rightarrow> u32 \<Rightarrow> irq_world \<Rightarrow>
    ((errno + u64) outcome \<times> irq_world) option" where
  "irq_ctl idle_rip kernel_stack now now' irq ctx op w = do {
     kassert (is_claimed (iw_handlers w irq));
     if op AND NOT (IRQ_CTL_ENABLE OR IRQ_CTL_WAIT) \<noteq> 0 then Some (Returned (Inl EINVAL), w)
     else do {
       w \<leftarrow> (if op AND IRQ_CTL_ENABLE \<noteq> 0
             then do { io \<leftarrow> ioapic_enable_irq (int irq) True (iw_ioapic w); Some (w\<lparr>iw_ioapic := io\<rparr>) }
             else Some w);
       if op AND IRQ_CTL_WAIT \<noteq> 0 then
         (if interrupt_occurred (iw_handlers w irq) then
            Some (Returned (Inr 0), upd_handler irq (interrupt_occurred_update (\<lambda>_. False)) w)
          else if reg_rdx ctx \<le>s 0 then Some (Returned (Inl EAGAIN), w)
          else do {
            (t, k) \<leftarrow> cpu_context_save (iw_kernel w);
            k \<leftarrow> schedule_queue_with_timeout now t (IrqQueue irq) (reg_rdx ctx) EAGAIN k;
            k \<leftarrow> schedule_or_exit idle_rip kernel_stack now' k;
            Some (Departed, w\<lparr>iw_kernel := k\<rparr>)
          })
       else Some (Returned (Inr 0), w)
     }
   }"

definition user_on_irq_receive :: "int \<Rightarrow> irq_world \<Rightarrow> irq_world option" where
  "user_on_irq_receive irq w =
     (if irq < 0 \<or> IRQ_MAX < irq then Some w
      else do {
        (r, k) \<leftarrow> kqueue_pop (IrqQueue (nat irq)) (iw_kernel w);
        case r of
          Some t \<Rightarrow> do { k \<leftarrow> schedule_wake t 1 k; Some (w\<lparr>iw_kernel := k\<rparr>) }
        | None \<Rightarrow> Some (upd_handler (nat irq) (interrupt_occurred_update (\<lambda>_. True)) (w\<lparr>iw_kernel := k\<rparr>))
      })"

definition irq_close :: "nat \<Rightarrow> irq_world \<Rightarrow> irq_world option" where
  "irq_close irq w = do {
     let w = upd_handler irq (is_claimed_update (\<lambda>_. False)) w;
     k \<leftarrow> schedule_wake_all (IrqQueue irq) (neg_errno EBADF) (iw_kernel w);
     Some (w\<lparr>iw_kernel := k\<rparr>)
   }"

text \<open>\<open>interrupt_entry\<close>: first the interrupt is served and the local APIC told that it has ended; the registers of the
  local APIC and the write to its end-of-interrupt register are parameters. Then another thread may be chosen; \<open>ctx\<close> are
  the interrupted registers. The result says whether the processor went to another thread; otherwise the interrupted code
  continues.\<close>

definition serve_interrupt :: "('a \<Rightarrow> 'a) \<Rightarrow> nat \<Rightarrow> irq_world \<Rightarrow> 'a \<Rightarrow> (irq_world \<times> 'a) option" where
  "serve_interrupt send_eoi intr w apic =
     (if intr < 254 then do {
        let irq = isr_to_irq (int intr);
        kassert (0 \<le> irq);
        io \<leftarrow> ioapic_enable_irq irq False (iw_ioapic w);
        let apic = send_eoi apic;
        w \<leftarrow> user_on_irq_receive irq (w\<lparr>iw_ioapic := io\<rparr>);
        Some (w, apic)
      }
      else Some (w, send_eoi apic))"

definition interrupt_entry :: "('a \<Rightarrow> 'a) \<Rightarrow> u64 \<Rightarrow> nat \<Rightarrow> registers \<Rightarrow> irq_world \<Rightarrow> 'a \<Rightarrow> (bool \<times> irq_world \<times> 'a) option" where
  "interrupt_entry send_eoi now intr ctx w apic = do {
     (w, apic) \<leftarrow> serve_interrupt send_eoi intr w apic;
     let k = (iw_kernel w)\<lparr>user_ctx := ctx\<rparr>;
     (left, k) \<leftarrow> schedule now k;
     Some (left, w\<lparr>iw_kernel := k\<rparr>, apic)
   }"

section \<open>Redirection entries\<close>

text \<open>The bit fields of an entry hold values of their widths.\<close>

definition entry_ok :: "ioredtbl \<Rightarrow> bool" where
  "entry_ok e \<longleftrightarrow> take_bit 3 (delivery_mode e) = delivery_mode e \<and> take_bit 1 (destination_mode e) = destination_mode e \<and>
     take_bit 1 (delivery_status e) = delivery_status e \<and> take_bit 1 (polarity e) = polarity e \<and>
     take_bit 1 (trigger_mode e) = trigger_mode e"

lemma field_vector: "bit (ucast (v :: u8) :: u64) n \<longleftrightarrow> n < 8 \<and> bit v n"
  by (auto simp: bit_simps dest: bit_imp_le_length)

lemma field_take: "m + w \<le> 64 \<Longrightarrow> bit (push_bit m (take_bit w d) :: u64) n \<longleftrightarrow> m \<le> n \<and> n < m + w \<and> bit d (n - m)"
  by (auto simp: bit_push_bit_iff bit_take_bit_iff)

lemma field_flag: "m < 64 \<Longrightarrow> bit (push_bit m (if c then 1 else 0) :: u64) n \<longleftrightarrow> n = m \<and> c"
  by (auto simp: bit_simps)

lemma field_destination: "bit (push_bit 56 (ucast (f :: u8)) :: u64) n \<longleftrightarrow> 56 \<le> n \<and> n < 64 \<and> bit f (n - 56)"
  by (auto simp: bit_push_bit_iff bit_simps dest: bit_imp_le_length)

lemma entry_bits_nth:
  "bit (entry_bits e) n \<longleftrightarrow> n < 8 \<and> bit (interrupt_vector e) n \<or> 8 \<le> n \<and> n < 11 \<and> bit (delivery_mode e) (n - 8) \<or>
     n = 11 \<and> bit (destination_mode e) 0 \<or> n = 12 \<and> bit (delivery_status e) 0 \<or> n = 13 \<and> bit (polarity e) 0 \<or>
     n = 14 \<and> remote_irr e \<or> n = 15 \<and> bit (trigger_mode e) 0 \<or> n = 16 \<and> masked e \<or>
     56 \<le> n \<and> n < 64 \<and> bit (destination_field e) (n - 56)"
proof -
  have one: "m < 64 \<Longrightarrow> bit (push_bit m (take_bit 1 d) :: u64) n \<longleftrightarrow> n = m \<and> bit d 0" for m d
    by (subst field_take) (auto simp: le_Suc_eq less_Suc_eq)
  have e3: "bit (push_bit 8 (take_bit 3 (delivery_mode e)) :: u64) n \<longleftrightarrow> 8 \<le> n \<and> n < 11 \<and> bit (delivery_mode e) (n - 8)"
    by (subst field_take) simp_all
  have lt: "11 < (64 :: nat)" "12 < (64 :: nat)" "13 < (64 :: nat)" "15 < (64 :: nat)" "14 < (64 :: nat)" "16 < (64 :: nat)"
    by simp_all
  show ?thesis
    unfolding entry_bits_def
    by (simp only: bit_or_iff field_vector field_destination e3 one [OF lt(1)] one [OF lt(2)]
      one [OF lt(3)] one [OF lt(4)] field_flag [OF lt(5)] field_flag [OF lt(6)] disj_assoc)
qed

lemma take_bit_eq_bits: "take_bit m b = take_bit m (x :: u64) \<longleftrightarrow> (\<forall>i < m. bit b i \<longleftrightarrow> bit x i)"
proof
  assume "take_bit m b = take_bit m x"
  then have "bit (take_bit m b) i \<longleftrightarrow> bit (take_bit m x) i" for i by (simp only:)
  then show "\<forall>i < m. bit b i \<longleftrightarrow> bit x i" unfolding bit_take_bit_iff by blast
next
  assume "\<forall>i < m. bit b i \<longleftrightarrow> bit x i"
  then show "take_bit m b = take_bit m x" by (intro bit_eqI) (auto simp: bit_take_bit_iff)
qed

lemma bits_entry_bits:
  assumes "entry_ok e"
  shows "bits_entry (entry_bits e) = e"
proof -
  have v: "ucast (entry_bits e) = interrupt_vector e"
    by (rule bit_word_eqI) (simp add: bit_ucast_iff entry_bits_nth)
  have d: "ucast (drop_bit 56 (entry_bits e)) = destination_field e"
    by (rule bit_word_eqI) (simp add: bit_ucast_iff bit_drop_bit_eq entry_bits_nth)
  have t: "take_bit 3 (drop_bit 8 (entry_bits e)) = take_bit 3 (delivery_mode e)"
    unfolding take_bit_eq_bits by (auto simp: bit_drop_bit_eq entry_bits_nth)
  have o: "take_bit 1 (drop_bit 11 (entry_bits e)) = take_bit 1 (destination_mode e)"
    "take_bit 1 (drop_bit 12 (entry_bits e)) = take_bit 1 (delivery_status e)"
    "take_bit 1 (drop_bit 13 (entry_bits e)) = take_bit 1 (polarity e)"
    "take_bit 1 (drop_bit 15 (entry_bits e)) = take_bit 1 (trigger_mode e)"
    unfolding take_bit_eq_bits by (simp_all add: bit_drop_bit_eq entry_bits_nth)
  have f: "bit (entry_bits e) 14 = remote_irr e" "bit (entry_bits e) 16 = masked e"
    by (simp_all add: entry_bits_nth)
  show ?thesis using assms unfolding bits_entry_def v d t o f entry_ok_def by simp
qed

lemma split_halves: "ucast (ucast b :: u32) OR push_bit 32 (ucast (ucast (drop_bit 32 b) :: u32)) = (b :: u64)"
  by (rule bit_word_eqI) (auto simp: bit_simps)

lemma index_regs_ne: "(r :: u32) \<noteq> r + 1" "r + 1 \<noteq> r"
  by simp_all

text \<open>Redirection entries survive the trip through the I/O APIC's two 32-bit registers: reading back the
  entry just written gives every bit field again, for every entry whose fields fit their widths.\<close>

theorem ioapic_roundtrip:
  assumes "entry_ok e"
  shows "ioapic_get_entry i (ioapic_set_entry i e io) = e"
  using bits_entry_bits [OF assms]
  by (simp add: ioapic_get_entry_def ioapic_set_entry_def Let_def split_halves)

theorem ioapic_roundtrip_witness:
  "ioapic_get_entry 3 (ioapic_set_entry 3 (irq_entry 3 False) (\<lambda>_. 0)) = irq_entry 3 False"
  by (rule ioapic_roundtrip) (simp add: entry_ok_def irq_entry_def)

section \<open>Delivery\<close>

lemma enable_irq_ok:
  assumes "0 \<le> irq" "irq < IRQ_COUNT"
  shows "\<exists>io'. ioapic_enable_irq irq en io = Some io' \<and> ioapic_get_entry (word_of_int irq) io' = irq_entry irq en"
proof -
  have "entry_ok (irq_entry irq en)" by (simp add: entry_ok_def irq_entry_def)
  then have "ioapic_get_entry (word_of_int irq) (ioapic_set_entry (word_of_int irq) (irq_entry irq en) io) = irq_entry irq en"
    using bits_entry_bits by (simp add: ioapic_get_entry_def ioapic_set_entry_def Let_def split_halves)
  with assms show ?thesis by (simp add: ioapic_enable_irq_def)
qed

lemma irq_receive_spec:
  assumes inv: "sched_inv (iw_kernel w) c xs" and irq: "0 \<le> irq" "irq \<le> IRQ_MAX"
  shows "\<exists>w'. user_on_irq_receive irq w = Some w' \<and> iw_ioapic w' = iw_ioapic w \<and>
    (case c (IrqQueue (nat irq)) of
       [] \<Rightarrow> iw_kernel w' = iw_kernel w \<and>
         iw_handlers w' = (iw_handlers w)(nat irq := (iw_handlers w (nat irq))\<lparr>interrupt_occurred := True\<rparr>)
     | t # ts \<Rightarrow> iw_handlers w' = iw_handlers w \<and>
         sched_inv (iw_kernel w') (c(IrqQueue (nat irq) := ts, RunQueue := c RunQueue @ [t])) (removeAll t xs) \<and>
         kframe {t} (iw_kernel w) (iw_kernel w') \<and> state_of (iw_kernel w') = (state_of (iw_kernel w))(t := READY) \<and>
         t_ctx (threads (iw_kernel w') t) = (t_ctx (threads (iw_kernel w) t))\<lparr>reg_rax := 1\<rparr>)"
proof (cases "c (IrqQueue (nat irq))")
  case Nil
  have "kqueue_pop (IrqQueue (nat irq)) (iw_kernel w) = Some (None, iw_kernel w)"
    using kqueue_pop_Nil [of "iw_kernel w" c] inv Nil unfolding sched_inv_def by blast
  then show ?thesis using Nil irq by (simp add: user_on_irq_receive_def upd_handler_def)
next
  case (Cons t ts)
  obtain k1 k' where "kqueue_pop (IrqQueue (nat irq)) (iw_kernel w) = Some (Some t, k1)" "schedule_wake t 1 k1 = Some k'"
    and r: "sched_inv k' (c(IrqQueue (nat irq) := ts, RunQueue := c RunQueue @ [t])) (removeAll t xs)"
      "kframe {t} (iw_kernel w) k'" "state_of k' = (state_of (iw_kernel w))(t := READY)"
      "t_ctx (threads k' t) = (t_ctx (threads (iw_kernel w) t))\<lparr>reg_rax := 1\<rparr>"
    using pop_wake_inv [OF inv Cons, of 1] by blast
  then have "user_on_irq_receive irq w = Some (w\<lparr>iw_kernel := k'\<rparr>)"
    using irq by (simp add: user_on_irq_receive_def)
  with r Cons show ?thesis by simp
qed

text \<open>No interrupt is lost and none is delivered twice: an interrupt on a claimable line either makes the
  longest waiting thread ready with result 1 (and off the sleep list), or, with nobody waiting, is remembered;
  then the next \<open>IRQ_CTL_WAIT\<close> on the handle returns at once and forgets it.\<close>

theorem irq_delivered_once:
  assumes inv: "sched_inv (iw_kernel w) c xs" and irq: "0 \<le> irq" "irq \<le> IRQ_MAX"
    and cl: "is_claimed (iw_handlers w (nat irq))"
  shows "\<exists>w'. user_on_irq_receive irq w = Some w' \<and>
    (case c (IrqQueue (nat irq)) of
       t # ts \<Rightarrow> iw_handlers w' = iw_handlers w \<and> state_of (iw_kernel w') t = READY \<and>
         reg_rax (t_ctx (threads (iw_kernel w') t)) = 1 \<and>
         sched_inv (iw_kernel w') (c(IrqQueue (nat irq) := ts, RunQueue := c RunQueue @ [t])) (removeAll t xs)
     | [] \<Rightarrow> iw_kernel w' = iw_kernel w \<and>
         (\<exists>w''. irq_ctl idle st now now' (nat irq) ctx IRQ_CTL_WAIT w' = Some (Returned (Inr 0), w'') \<and>
           iw_kernel w'' = iw_kernel w \<and> \<not> interrupt_occurred (iw_handlers w'' (nat irq))))"
proof -
  obtain w' where w': "user_on_irq_receive irq w = Some w'" and
    cs: "case c (IrqQueue (nat irq)) of
       [] \<Rightarrow> iw_kernel w' = iw_kernel w \<and>
         iw_handlers w' = (iw_handlers w)(nat irq := (iw_handlers w (nat irq))\<lparr>interrupt_occurred := True\<rparr>)
     | t # ts \<Rightarrow> iw_handlers w' = iw_handlers w \<and>
         sched_inv (iw_kernel w') (c(IrqQueue (nat irq) := ts, RunQueue := c RunQueue @ [t])) (removeAll t xs) \<and>
         kframe {t} (iw_kernel w) (iw_kernel w') \<and> state_of (iw_kernel w') = (state_of (iw_kernel w))(t := READY) \<and>
         t_ctx (threads (iw_kernel w') t) = (t_ctx (threads (iw_kernel w) t))\<lparr>reg_rax := 1\<rparr>"
    using irq_receive_spec [OF inv irq] by blast
  show ?thesis
  proof (cases "c (IrqQueue (nat irq))")
    case Nil
    with cs cl have "irq_ctl idle st now now' (nat irq) ctx IRQ_CTL_WAIT w' =
        Some (Returned (Inr 0), upd_handler (nat irq) (interrupt_occurred_update (\<lambda>_. False)) w')"
      by (simp add: irq_ctl_def IRQ_CTL_WAIT_def IRQ_CTL_ENABLE_def)
    then show ?thesis using w' cs Nil by (simp add: upd_handler_def)
  next
    case (Cons t ts)
    then have st: "state_of (iw_kernel w') = (state_of (iw_kernel w))(t := READY)" using cs by simp
    have "state_of (iw_kernel w') t = READY" using fun_cong [OF st, of t] by simp
    then show ?thesis using w' cs Cons by simp
  qed
qed

definition irq_boot :: irq_world where
  "irq_boot = \<lparr>iw_kernel = one_ready, iw_handlers = (\<lambda>_. \<lparr>is_claimed = True, interrupt_occurred = False\<rparr>), iw_ioapic = (\<lambda>_. 0)\<rparr>"

lemma irq_boot_inv: "sched_inv (iw_kernel irq_boot) ((\<lambda>_. [])(RunQueue := [1])) []"
  by (simp only: irq_boot_def irq_world.select_convs one_ready_inv)

theorem irq_delivered_once_witness:
  "let c = (\<lambda>_. [])(RunQueue := [1]); irq = 4; w = irq_boot in \<exists>w'. user_on_irq_receive irq w = Some w' \<and>
    (case c (IrqQueue (nat irq)) of
       t # ts \<Rightarrow> iw_handlers w' = iw_handlers w \<and> state_of (iw_kernel w') t = READY \<and>
         reg_rax (t_ctx (threads (iw_kernel w') t)) = 1 \<and>
         sched_inv (iw_kernel w') (c(IrqQueue (nat irq) := ts, RunQueue := c RunQueue @ [t])) (removeAll t [])
     | [] \<Rightarrow> iw_kernel w' = iw_kernel w \<and>
         (\<exists>w''. irq_ctl 0 0 1 2 (nat irq) zero_registers IRQ_CTL_WAIT w' = Some (Returned (Inr 0), w'') \<and>
           iw_kernel w'' = iw_kernel w \<and> \<not> interrupt_occurred (iw_handlers w'' (nat irq))))"
  unfolding Let_def by (rule irq_delivered_once [OF irq_boot_inv]) (simp_all add: irq_boot_def IRQ_MAX_def)

text \<open>Serving an interrupt: the line of a device is masked, a waiting driver is made ready, and the local APIC hears of
  the end once.\<close>

lemma serve_interrupt_ok:
  assumes inv: "sched_inv (iw_kernel w) c xs" and v: "254 \<le> intr \<or> (32 \<le> intr \<and> intr < 48)"
  shows "\<exists>w1 c1 xs1. serve_interrupt send_eoi intr w apic = Some (w1, send_eoi apic) \<and>
    sched_inv (iw_kernel w1) c1 xs1 \<and> current (iw_kernel w1) = current (iw_kernel w) \<and>
    (intr < 254 \<longrightarrow> ioapic_get_entry (word_of_nat (intr - 32)) (iw_ioapic w1) = irq_entry (int intr - 32) False)"
proof (cases "intr < 254")
  case False
  then show ?thesis using inv by (auto simp: serve_interrupt_def)
next
  case True
  define irq where "irq = int intr - 32"
  have irq: "isr_to_irq (int intr) = irq" "0 \<le> irq" "irq < IRQ_COUNT" "irq \<le> IRQ_MAX"
    using v True by (auto simp: isr_to_irq_def irq_def IRQ_OFFSET_def IRQ_COUNT_def IRQ_MAX_def)
  obtain io where io: "ioapic_enable_irq irq False (iw_ioapic w) = Some io" "ioapic_get_entry (word_of_int irq) io = irq_entry irq False"
    using enable_irq_ok [OF irq(2,3)] by blast
  let ?w = "w\<lparr>iw_ioapic := io\<rparr>"
  have inv': "sched_inv (iw_kernel ?w) c xs" using inv by simp
  obtain w1 where w1: "user_on_irq_receive irq ?w = Some w1" "iw_ioapic w1 = iw_ioapic ?w" and
    cs: "case c (IrqQueue (nat irq)) of
     [] \<Rightarrow> iw_kernel w1 = iw_kernel ?w \<and> iw_handlers w1 = (iw_handlers ?w)(nat irq := (iw_handlers ?w (nat irq))\<lparr>interrupt_occurred := True\<rparr>)
   | t # ts \<Rightarrow> iw_handlers w1 = iw_handlers ?w \<and>
       sched_inv (iw_kernel w1) (c(IrqQueue (nat irq) := ts, RunQueue := c RunQueue @ [t])) (removeAll t xs) \<and>
       kframe {t} (iw_kernel ?w) (iw_kernel w1) \<and> state_of (iw_kernel w1) = (state_of (iw_kernel ?w))(t := READY) \<and>
       t_ctx (threads (iw_kernel w1) t) = (t_ctx (threads (iw_kernel ?w) t))\<lparr>reg_rax := 1\<rparr>"
    using irq_receive_spec [OF inv' irq(2,4)] by blast
  have "irq = int (intr - 32)" using v True by (simp add: irq_def)
  then have w: "word_of_nat (intr - 32) = (word_of_int irq :: u8)" by (simp only: of_int_of_nat_eq)
  have "\<exists>c1 xs1. sched_inv (iw_kernel w1) c1 xs1 \<and> current (iw_kernel w1) = current (iw_kernel w)"
    using cs inv by (cases "c (IrqQueue (nat irq))") (auto simp: kframe_def)
  then obtain c1 xs1 where inv1: "sched_inv (iw_kernel w1) c1 xs1" "current (iw_kernel w1) = current (iw_kernel w)" by blast
  have "serve_interrupt send_eoi intr w apic = Some (w1, send_eoi apic)"
    using True irq(1,2) io(1) w1(1) by (simp add: serve_interrupt_def)
  moreover have "ioapic_get_entry (word_of_nat (intr - 32)) (iw_ioapic w1) = irq_entry (int intr - 32) False"
    unfolding irq_def [symmetric] w using io(2) w1(2) by simp
  ultimately show ?thesis using inv1 by blast
qed

text \<open>C35. Entering the kernel through an interrupt is safe: for the timer, and for every vector the I/O APIC is
  programmed with, the handler does not panic, tells the local APIC once that the interrupt has ended, leaves a consistent
  scheduler state, and masks the line of a device interrupt until the driver enables it again.\<close>

theorem interrupt_entry_safe:
  assumes inv: "sched_inv (iw_kernel w) c xs" and v: "254 \<le> intr \<or> (32 \<le> intr \<and> intr < 48)"
    and m: "current (iw_kernel w) \<noteq> None \<longrightarrow> user_mode ctx"
  shows "\<exists>left w'. interrupt_entry send_eoi now intr ctx w apic = Some (left, w', send_eoi apic) \<and>
    (\<exists>c' xs'. sched_inv (iw_kernel w') c' xs') \<and>
    (intr < 254 \<longrightarrow> ioapic_get_entry (word_of_nat (intr - 32)) (iw_ioapic w') = irq_entry (int intr - 32) False)"
proof -
  from serve_interrupt_ok [OF inv v, of send_eoi apic] obtain w1 c1 xs1 where w1: "serve_interrupt send_eoi intr w apic = Some (w1, send_eoi apic)"
    and inv1: "sched_inv (iw_kernel w1) c1 xs1" and cur: "current (iw_kernel w1) = current (iw_kernel w)"
    and msk: "intr < 254 \<longrightarrow> ioapic_get_entry (word_of_nat (intr - 32)) (iw_ioapic w1) = irq_entry (int intr - 32) False"
    by (elim exE conjE)
  define k where "k = (iw_kernel w1)\<lparr>user_ctx := ctx\<rparr>"
  have kinv: "sched_inv k c1 xs1"
    using inv1 m cur by (auto simp: sched_inv_def k_def modes_ok_def links_ok_def)
  obtain left k' c' xs' where k': "schedule now k = Some (left, k')" "sched_inv k' c' xs'"
    using schedule_total [OF kinv] by blast
  have "interrupt_entry send_eoi now intr ctx w apic = Some (left, w1\<lparr>iw_kernel := k'\<rparr>, send_eoi apic)"
    using w1 k'(1) unfolding interrupt_entry_def by (simp add: k_def)
  moreover have "sched_inv (iw_kernel (w1\<lparr>iw_kernel := k'\<rparr>)) c' xs'" using k'(2) by simp
  ultimately show ?thesis using msk by (intro exI conjI) (assumption, assumption, simp)
qed

theorem interrupt_entry_safe_witness:
  "\<exists>left w'. interrupt_entry Suc 9 36 zero_registers irq_boot 0 = Some (left, w', Suc 0) \<and> (\<exists>c' xs'. sched_inv (iw_kernel w') c' xs') \<and>
    ((36::nat) < 254 \<longrightarrow> ioapic_get_entry (word_of_nat (36 - 32)) (iw_ioapic w') = irq_entry (int 36 - 32) False)"
proof -
  have "current one_ready = None"
    by (simp add: one_ready_def schedule_ready_def boot_kernel_def idle_thread_def kqueue_push_def queue_push_def
      empty_qheap_def zero_node_def upd_node_def upd_head_def Let_def)
  then show ?thesis
    by (intro interrupt_entry_safe [OF irq_boot_inv]) (simp_all add: irq_boot_def)
qed

text \<open>Closing an interrupt handle does not clear its memory of an unclaimed interrupt: a program that
  claims the line afterwards is told by its first wait that an interrupt has happened, although none has since
  it claimed the line.\<close>

theorem stale_interrupt_after_reclaim:
  assumes inv: "sched_inv (iw_kernel w) c xs" and irq: "0 \<le> irq" "irq \<le> IRQ_MAX"
    and cl: "is_claimed (iw_handlers w (nat irq))" and q: "c (IrqQueue (nat irq)) = []"
  shows "\<exists>w1 w2 w3 w4. user_on_irq_receive irq w = Some w1 \<and> irq_close (nat irq) w1 = Some w2 \<and>
    irq_claim irq w2 = (Inr (nat irq), w3) \<and>
    irq_ctl idle st now now' (nat irq) ctx IRQ_CTL_WAIT w3 = Some (Returned (Inr 0), w4)"
proof -
  obtain w1 where w1: "user_on_irq_receive irq w = Some w1" "iw_kernel w1 = iw_kernel w"
    "iw_handlers w1 = (iw_handlers w)(nat irq := (iw_handlers w (nat irq))\<lparr>interrupt_occurred := True\<rparr>)"
    using irq_receive_spec [OF inv irq] q by auto
  obtain k where k: "schedule_wake_all (IrqQueue (nat irq)) (neg_errno EBADF) (iw_kernel w) = Some k"
    using wake_all_inv [OF inv _ q, of "neg_errno EBADF"] by auto
  show ?thesis using w1 k irq
    by (simp add: irq_close_def irq_claim_def irq_ctl_def upd_handler_def IRQ_CTL_WAIT_def IRQ_CTL_ENABLE_def)
qed

theorem stale_interrupt_after_reclaim_witness:
  "\<exists>w1 w2 w3 w4. user_on_irq_receive 4 irq_boot = Some w1 \<and> irq_close (nat 4) w1 = Some w2 \<and>
    irq_claim 4 w2 = (Inr (nat 4), w3) \<and>
    irq_ctl 0 0 1 2 (nat 4) zero_registers IRQ_CTL_WAIT w3 = Some (Returned (Inr 0), w4)"
  by (rule stale_interrupt_after_reclaim [OF irq_boot_inv]) (simp_all add: irq_boot_def IRQ_MAX_def)

end
