(* ===== verification/Treap.thy ===== *)
theory Treap
  imports Fluke_Prelude "HOL-Library.Tree"
begin

text \<open>
  Intrusive treaps: \<open>kernel/src/containers/tree.cxx\<close>. Nodes are named by numbers (their addresses); the store
  gives every node's fields. Null pointers are \<open>None\<close>; using one is the undefined behaviour \<open>None\<close> of the
  operations. The priority generator's state is part of the store.
\<close>

section \<open>The store\<close>

record tnode =
  tn_parent :: "nat option"
  tn_left :: "nat option"
  tn_right :: "nat option"
  tn_priority :: int
  tn_dir :: bool

record ttree =
  tnodes :: "nat \<Rightarrow> tnode"
  troot :: "nat option"
  rng_state :: u64

definition null_node :: tnode where
  "null_node = \<lparr>tn_parent = None, tn_left = None, tn_right = None, tn_priority = 0, tn_dir = False\<rparr>"

text \<open>The members of the union: \<open>child[0]\<close> is \<open>left\<close>, \<open>child[1]\<close> is \<open>right\<close>.\<close>

definition tn_child :: "bool \<Rightarrow> tnode \<Rightarrow> nat option" where
  "tn_child d n = (if d then tn_right n else tn_left n)"

definition set_child :: "bool \<Rightarrow> nat option \<Rightarrow> tnode \<Rightarrow> tnode" where
  "set_child d v n = (if d then n\<lparr>tn_right := v\<rparr> else n\<lparr>tn_left := v\<rparr>)"

definition upd_node :: "nat \<Rightarrow> (tnode \<Rightarrow> tnode) \<Rightarrow> ttree \<Rightarrow> ttree" where
  "upd_node x f t = t\<lparr>tnodes := (tnodes t)(x := f (tnodes t x))\<rparr>"

definition upd_opt :: "nat option \<Rightarrow> (tnode \<Rightarrow> tnode) \<Rightarrow> ttree \<Rightarrow> ttree" where
  "upd_opt p f t = (case p of None \<Rightarrow> t | Some x \<Rightarrow> upd_node x f t)"

text \<open>The generator: the upper half of the state, as an \<open>int\<close>.\<close>

definition rng :: "ttree \<Rightarrow> int \<times> ttree" where
  "rng t = (let s = rng_state t * 6364136223846793005 + 1442695040888963407
            in (sint (ucast (drop_bit 32 s) :: u32), t\<lparr>rng_state := s\<rparr>))"

section \<open>Insertion\<close>

partial_function (option) rotate_up :: "nat \<Rightarrow> nat \<Rightarrow> ttree \<Rightarrow> ttree option" where
  "rotate_up parent child t = (
     let dir = tn_dir (tnodes t child);
         G = tn_parent (tnodes t parent);
         t = upd_node child (\<lambda>n. n\<lparr>tn_parent := G, tn_dir := tn_dir (tnodes t parent)\<rparr>) t;
         y = tn_child (\<not> dir) (tnodes t child);
         t = upd_node parent (set_child dir y) t;
         t = upd_opt y (\<lambda>n. n\<lparr>tn_parent := Some parent, tn_dir := dir\<rparr>) t;
         t = upd_node child (set_child (\<not> dir) (Some parent)) t;
         t = upd_node parent (\<lambda>n. n\<lparr>tn_parent := Some child, tn_dir := \<not> dir\<rparr>) t
     in case G of
          None \<Rightarrow> Some (t\<lparr>troot := Some child\<rparr>)
        | Some g \<Rightarrow>
            (let t = upd_node g (set_child (tn_dir (tnodes t child)) (Some child)) t in
             if tn_priority (tnodes t g) < tn_priority (tnodes t child) then rotate_up g child t else Some t))"

definition insert_root :: "nat \<Rightarrow> ttree \<Rightarrow> ttree option" where
  "insert_root node t = do {
     kassert (troot t = None);
     kassert (tn_parent (tnodes t node) = None);
     let t = t\<lparr>troot := Some node\<rparr>;
     let (p, t) = rng t;
     Some (upd_node node (\<lambda>_. null_node\<lparr>tn_priority := p\<rparr>) t)
   }"

definition insert_at :: "nat option \<Rightarrow> bool \<Rightarrow> nat \<Rightarrow> ttree \<Rightarrow> ttree option" where
  "insert_at parent dir child t = (case parent of
     None \<Rightarrow> insert_root child t
   | Some p \<Rightarrow> do {
       kassert (tn_child dir (tnodes t p) = None);
       kassert (tn_parent (tnodes t child) = None);
       let t = upd_node p (set_child dir (Some child)) t;
       let (pr, t) = rng t;
       let t = upd_node child (\<lambda>_. null_node\<lparr>tn_parent := Some p, tn_priority := pr, tn_dir := dir\<rparr>) t;
       if tn_priority (tnodes t p) < tn_priority (tnodes t child) then rotate_up p child t else Some t
     })"

section \<open>Removal\<close>

text \<open>A pointer to a pointer to a node: the root, or a child field.\<close>

datatype tree_slot = RootSlot | ChildSlot nat bool

definition read_slot_t :: "tree_slot \<Rightarrow> ttree \<Rightarrow> nat option" where
  "read_slot_t sl t = (case sl of RootSlot \<Rightarrow> troot t | ChildSlot p d \<Rightarrow> tn_child d (tnodes t p))"

definition write_slot_t :: "tree_slot \<Rightarrow> nat option \<Rightarrow> ttree \<Rightarrow> ttree" where
  "write_slot_t sl v t = (case sl of RootSlot \<Rightarrow> t\<lparr>troot := v\<rparr> | ChildSlot p d \<Rightarrow> upd_node p (set_child d v) t)"

partial_function (option) tree_remove_at :: "tree_slot \<Rightarrow> nat \<Rightarrow> ttree \<Rightarrow> ttree option" where
  "tree_remove_at slot node t =
     (if read_slot_t slot t \<noteq> Some node then None
      else (let n = tnodes t node in
        case (tn_left n, tn_right n) of
          (None, None) \<Rightarrow> Some (write_slot_t slot None t)
        | (Some l, None) \<Rightarrow>
            Some (upd_node l (\<lambda>m. m\<lparr>tn_parent := tn_parent n, tn_dir := tn_dir n\<rparr>) (write_slot_t slot (Some l) t))
        | (None, Some r) \<Rightarrow>
            Some (upd_node r (\<lambda>m. m\<lparr>tn_parent := tn_parent n, tn_dir := tn_dir n\<rparr>) (write_slot_t slot (Some r) t))
        | (Some l, Some r) \<Rightarrow>
            (let dir = (tn_priority (tnodes t r) < tn_priority (tnodes t l));
                 C = (if dir then l else r);
                 y = tn_child dir (tnodes t C);
                 t = write_slot_t slot (Some C) t;
                 t = upd_node C (\<lambda>m. m\<lparr>tn_parent := tn_parent n, tn_dir := tn_dir n\<rparr>) t;
                 t = upd_node C (set_child dir (Some node)) t;
                 t = upd_node node (\<lambda>m. m\<lparr>tn_dir := dir, tn_parent := Some C\<rparr>) t;
                 t = upd_node node (set_child (\<not> dir) y) t;
                 t = upd_opt y (\<lambda>m. m\<lparr>tn_dir := \<not> dir, tn_parent := Some node\<rparr>) t
             in tree_remove_at (ChildSlot C dir) node t)))"

definition tree_remove :: "nat \<Rightarrow> ttree \<Rightarrow> ttree option" where
  "tree_remove node t = do {
     kassert (troot t \<noteq> None);
     let slot = (case tn_parent (tnodes t node) of Some p \<Rightarrow> ChildSlot p (tn_dir (tnodes t node)) | None \<Rightarrow> RootSlot);
     t \<leftarrow> tree_remove_at slot node t;
     Some (upd_node node (\<lambda>_. null_node) t)
   }"

section \<open>Iteration\<close>

partial_function (option) leftmost :: "nat \<Rightarrow> ttree \<Rightarrow> nat option" where
  "leftmost node t = (case tn_left (tnodes t node) of None \<Rightarrow> Some node | Some l \<Rightarrow> leftmost l t)"

definition tree_begin :: "ttree \<Rightarrow> nat option option" where
  "tree_begin t = (case troot t of None \<Rightarrow> Some None | Some r \<Rightarrow> map_option Some (leftmost r t))"

partial_function (option) climb :: "nat \<Rightarrow> ttree \<Rightarrow> nat option option" where
  "climb n t = (if tn_dir (tnodes t n) then (case tn_parent (tnodes t n) of None \<Rightarrow> None | Some p \<Rightarrow> climb p t)
     else Some (tn_parent (tnodes t n)))"

definition tree_next :: "nat \<Rightarrow> ttree \<Rightarrow> nat option option" where
  "tree_next node t = (case tn_right (tnodes t node) of
     Some r \<Rightarrow> map_option Some (leftmost r t)
   | None \<Rightarrow> climb node t)"

section \<open>Stores that hold a tree\<close>

lemma tn_child_set_child [simp]: "tn_child d (set_child e v n) = (if d = e then v else tn_child d n)"
  by (auto simp: tn_child_def set_child_def)

lemma set_child_fields [simp]:
  "tn_parent (set_child d v n) = tn_parent n" "tn_dir (set_child d v n) = tn_dir n"
  "tn_priority (set_child d v n) = tn_priority n"
  by (auto simp: set_child_def)

lemma tn_child_fields [simp]:
  "tn_child d (n\<lparr>tn_parent := p\<rparr>) = tn_child d n" "tn_child d (n\<lparr>tn_dir := b\<rparr>) = tn_child d n"
  "tn_child d (n\<lparr>tn_priority := i\<rparr>) = tn_child d n" "tn_child d null_node = None"
  by (auto simp: tn_child_def null_node_def)

lemma tn_child_dirs: "tn_left n = tn_child False n" "tn_right n = tn_child True n"
  by (simp_all add: tn_child_def)

lemma upd_node_simps [simp]:
  "tnodes (upd_node x f t) = (tnodes t)(x := f (tnodes t x))" "troot (upd_node x f t) = troot t"
  "rng_state (upd_node x f t) = rng_state t"
  by (simp_all add: upd_node_def)

lemma upd_opt_simps [simp]:
  "tnodes (upd_opt q f t) = (\<lambda>x. if q = Some x then f (tnodes t x) else tnodes t x)" "troot (upd_opt q f t) = troot t"
  "rng_state (upd_opt q f t) = rng_state t"
  by (auto simp: upd_opt_def split: option.split)

text \<open>\<open>shape t p d q tr\<close>: the pointer \<open>q\<close> is the root of the tree \<open>tr\<close>, whose parent field holds \<open>p\<close> and
  whose direction is \<open>d\<close>.\<close>

fun shape :: "ttree \<Rightarrow> nat option \<Rightarrow> bool \<Rightarrow> nat option \<Rightarrow> nat tree \<Rightarrow> bool" where
  "shape t p d q Leaf \<longleftrightarrow> q = None"
| "shape t p d q (Node l x r) \<longleftrightarrow> q = Some x \<and> tn_parent (tnodes t x) = p \<and> tn_dir (tnodes t x) = d
     \<and> shape t (Some x) False (tn_child False (tnodes t x)) l \<and> shape t (Some x) True (tn_child True (tnodes t x)) r"

text \<open>A tree with a hole: the way up from the hole, each step with its direction and the other subtree.\<close>

type_synonym tree_path = "(bool \<times> nat \<times> nat tree) list"

definition fork :: "bool \<Rightarrow> nat tree \<Rightarrow> nat \<Rightarrow> nat tree \<Rightarrow> nat tree" where
  "fork d s x other = (if d then Node other x s else Node s x other)"

fun plug :: "tree_path \<Rightarrow> nat tree \<Rightarrow> nat tree" where
  "plug [] s = s"
| "plug ((d, x, other) # c) s = plug c (fork d s x other)"

fun path_parent :: "tree_path \<Rightarrow> nat option" where
  "path_parent [] = None"
| "path_parent ((d, x, other) # c) = Some x"

fun path_dir :: "tree_path \<Rightarrow> bool" where
  "path_dir [] = False"
| "path_dir ((d, x, other) # c) = d"

fun path_slot :: "tree_path \<Rightarrow> tree_slot" where
  "path_slot [] = RootSlot"
| "path_slot ((d, x, other) # c) = ChildSlot x d"

fun path_shape :: "ttree \<Rightarrow> nat option \<Rightarrow> tree_path \<Rightarrow> bool" where
  "path_shape t q [] \<longleftrightarrow> troot t = q"
| "path_shape t q ((d, x, other) # c) \<longleftrightarrow> tn_child d (tnodes t x) = q \<and> tn_parent (tnodes t x) = path_parent c
     \<and> tn_dir (tnodes t x) = path_dir c \<and> shape t (Some x) (\<not> d) (tn_child (\<not> d) (tnodes t x)) other
     \<and> path_shape t (Some x) c"

fun path_nodes :: "tree_path \<Rightarrow> nat set" where
  "path_nodes [] = {}"
| "path_nodes ((d, x, other) # c) = insert x (set_tree other \<union> path_nodes c)"

definition tree_of :: "ttree \<Rightarrow> nat tree \<Rightarrow> bool" where
  "tree_of t tr \<longleftrightarrow> shape t None False (troot t) tr \<and> distinct (inorder tr)"

lemma set_fork [simp]: "set_tree (fork d s x other) = insert x (set_tree s \<union> set_tree other)"
  by (auto simp: fork_def)

lemma set_plug [simp]: "set_tree (plug c s) = path_nodes c \<union> set_tree s"
  by (induction c arbitrary: s) auto

lemma shape_cong:
  "(\<And>x. x \<in> set_tree tr \<Longrightarrow> tnodes t' x = tnodes t x) \<Longrightarrow> shape t' p d q tr = shape t p d q tr"
  by (induction tr arbitrary: p d q) auto

lemma path_shape_cong:
  "(\<And>x. x \<in> path_nodes c \<Longrightarrow> tnodes t' x = tnodes t x) \<Longrightarrow> troot t' = troot t \<Longrightarrow> path_shape t' q c = path_shape t q c"
  by (induction t q c rule: path_shape.induct) (auto simp: shape_cong [where t' = t'])

lemma shape_fork:
  "shape t p e q (fork d s x other) \<longleftrightarrow> q = Some x \<and> tn_parent (tnodes t x) = p \<and> tn_dir (tnodes t x) = e
     \<and> shape t (Some x) d (tn_child d (tnodes t x)) s \<and> shape t (Some x) (\<not> d) (tn_child (\<not> d) (tnodes t x)) other"
  by (cases d) (auto simp: fork_def)

lemma shape_plug:
  "shape t None False (troot t) (plug c s) \<longleftrightarrow> (\<exists>q. path_shape t q c \<and> shape t (path_parent c) (path_dir c) q s)"
proof (induction c arbitrary: s)
  case Nil
  then show ?case by simp
next
  case (Cons f c)
  obtain d x other where f: "f = (d, x, other)" by (cases f)
  show ?case unfolding f plug.simps Cons.IH shape_fork by auto
qed

text \<open>In-order traversal around a hole.\<close>

fun path_before :: "tree_path \<Rightarrow> nat list" where
  "path_before [] = []"
| "path_before ((d, x, other) # c) = path_before c @ (if d then inorder other @ [x] else [])"

fun path_after :: "tree_path \<Rightarrow> nat list" where
  "path_after [] = []"
| "path_after ((d, x, other) # c) = (if d then [] else x # inorder other) @ path_after c"

lemma inorder_plug: "inorder (plug c s) = path_before c @ inorder s @ path_after c"
  by (induction c arbitrary: s) (auto simp: fork_def)

lemma path_nodes_lists: "path_nodes c = set (path_before c) \<union> set (path_after c)"
  by (induction c) (auto simp: set_inorder split: if_split_asm)

fun path_distinct :: "tree_path \<Rightarrow> bool" where
  "path_distinct [] \<longleftrightarrow> True"
| "path_distinct ((d, x, other) # c) \<longleftrightarrow> x \<notin> set_tree other \<and> x \<notin> path_nodes c \<and> distinct (inorder other)
     \<and> set_tree other \<inter> path_nodes c = {} \<and> path_distinct c"

lemma distinct_fork: "distinct (inorder (fork d s x other)) \<longleftrightarrow> distinct (inorder s) \<and> distinct (inorder other)
    \<and> x \<notin> set_tree s \<and> x \<notin> set_tree other \<and> set_tree s \<inter> set_tree other = {}"
  by (auto simp: fork_def)

lemma distinct_plug:
  "distinct (inorder (plug c s)) \<longleftrightarrow> distinct (inorder s) \<and> path_distinct c \<and> set_tree s \<inter> path_nodes c = {}"
proof (induction c arbitrary: s)
  case Nil
  then show ?case by simp
next
  case (Cons f c)
  obtain d x other where f: "f = (d, x, other)" by (cases f)
  show ?case unfolding f plug.simps Cons.IH distinct_fork set_fork path_distinct.simps path_nodes.simps by blast
qed

lemma find_path: "x \<in> set_tree tr \<Longrightarrow> \<exists>c l r. tr = plug c (Node l x r)"
proof (induction tr)
  case Leaf
  then show ?case by simp
next
  case (Node l y r)
  have app: "plug (c @ c') s = plug c' (plug c s)" for c c' s
    by (induction c arbitrary: s) auto
  from Node.prems consider "x = y" | "x \<in> set_tree l" | "x \<in> set_tree r" by auto
  then show ?case
  proof cases
    case 1
    then show ?thesis by (metis plug.simps(1))
  next
    case 2
    then obtain c l' r' where "l = plug c (Node l' x r')" using Node.IH by blast
    then have "Node l y r = plug (c @ [(False, y, r)]) (Node l' x r')" by (simp add: app fork_def)
    then show ?thesis by blast
  next
    case 3
    then obtain c l' r' where "r = plug c (Node l' x r')" using Node.IH by blast
    then have "Node l y r = plug (c @ [(True, y, l)]) (Node l' x r')" by (simp add: app fork_def)
    then show ?thesis by blast
  qed
qed

section \<open>Iteration is in-order traversal\<close>

lemma leftmost_first:
  "shape t p d (Some x) tr \<Longrightarrow> leftmost x t = Some (hd (inorder tr))"
proof (induction tr arbitrary: x p d)
  case Leaf
  then show ?case by simp
next
  case (Node l y r)
  then have y: "y = x" by simp
  show ?case
  proof (cases l)
    case Leaf
    then show ?thesis using Node.prems by (subst leftmost.simps) (simp add: tn_child_dirs)
  next
    case (Node ll z lr)
    then have "tn_child False (tnodes t x) = Some z" using Node.prems y by simp
    moreover have "leftmost z t = Some (hd (inorder l))" using Node.IH(1) Node.prems y Node by simp
    moreover have "inorder l \<noteq> []" using Node by simp
    ultimately show ?thesis by (subst leftmost.simps) (simp add: tn_child_dirs)
  qed
qed

lemma climb_after:
  "tn_dir (tnodes t x) = path_dir c \<Longrightarrow> tn_parent (tnodes t x) = path_parent c \<Longrightarrow> path_shape t (Some x) c \<Longrightarrow>
   climb x t = Some (first_or None (path_after c))"
proof (induction c arbitrary: x)
  case Nil
  then show ?case by (subst climb.simps) simp
next
  case (Cons f c)
  obtain d y other where f: "f = (d, y, other)" by (cases f)
  show ?case
  proof (cases d)
    case True
    then have "climb y t = Some (first_or None (path_after c))" using Cons f by simp
    with Cons.prems f True show ?thesis by (subst climb.simps) simp
  next
    case False
    with Cons.prems f show ?thesis by (subst climb.simps) simp
  qed
qed

lemma tree_begin_first: "tree_of t tr \<Longrightarrow> tree_begin t = Some (first_or None (inorder tr))"
proof (cases tr)
  case (Node l x r)
  assume "tree_of t tr"
  with Node have "shape t None False (Some x) tr" "troot t = Some x" by (auto simp: tree_of_def)
  moreover have "inorder tr \<noteq> []" using Node by simp
  ultimately show ?thesis using leftmost_first by (simp add: tree_begin_def first_or_nonempty)
qed (simp add: tree_of_def tree_begin_def)

lemma tree_next_successor:
  assumes tr: "tree_of t tr" and io: "inorder tr = xs @ x # ys"
  shows "tree_next x t = Some (first_or None ys)"
proof -
  have "x \<in> set_tree tr" using io by (simp flip: set_inorder)
  then obtain c l r where c: "tr = plug c (Node l x r)" using find_path by blast
  obtain q where sh: "path_shape t q c" "shape t (path_parent c) (path_dir c) q (Node l x r)"
    using tr shape_plug [of t c "Node l x r"] unfolding tree_of_def c by blast
  have "(path_before c @ inorder l) @ x # (inorder r @ path_after c) = xs @ x # ys"
    using io by (simp add: c inorder_plug)
  moreover have "x \<notin> set (path_before c @ inorder l)" "x \<notin> set (inorder r @ path_after c)"
    using tr by (auto simp: tree_of_def c inorder_plug)
  ultimately have ys: "ys = inorder r @ path_after c" by (subst (asm) append_Cons_eq_iff) simp_all
  show ?thesis
  proof (cases r)
    case Leaf
    then have "climb x t = Some (first_or None ys)" using climb_after [of t x c] sh ys by simp
    then show ?thesis using sh Leaf by (simp add: tree_next_def tn_child_dirs)
  next
    case (Node rl z rr)
    then have "leftmost z t = Some (hd (inorder r))" using sh leftmost_first [of t "Some x" True z r] by auto
    moreover have "inorder r \<noteq> []" using Node by simp
    then have "first_or None ys = Some (hd (inorder r))" by (simp add: ys first_or_nonempty)
    moreover have "tn_right (tnodes t x) = Some z" using sh Node by (simp add: tn_child_dirs)
    ultimately show ?thesis by (simp add: tree_next_def)
  qed
qed

section \<open>Priorities\<close>

text \<open>No node has a priority above that of an ancestor.\<close>

fun heap_tree :: "(nat \<Rightarrow> int) \<Rightarrow> nat tree \<Rightarrow> bool" where
  "heap_tree pr Leaf \<longleftrightarrow> True"
| "heap_tree pr (Node l x r) \<longleftrightarrow> heap_tree pr l \<and> heap_tree pr r \<and> (\<forall>y\<in>set_tree l \<union> set_tree r. pr y \<le> pr x)"

fun heap_path :: "(nat \<Rightarrow> int) \<Rightarrow> tree_path \<Rightarrow> nat set \<Rightarrow> bool" where
  "heap_path pr [] S \<longleftrightarrow> True"
| "heap_path pr ((d, x, other) # c) S \<longleftrightarrow> heap_tree pr other \<and> (\<forall>y\<in>S \<union> set_tree other. pr y \<le> pr x)
     \<and> heap_path pr c (insert x (S \<union> set_tree other))"

lemma heap_fork: "heap_tree pr (fork d s x other) \<longleftrightarrow> heap_tree pr s \<and> heap_tree pr other
    \<and> (\<forall>y\<in>set_tree s \<union> set_tree other. pr y \<le> pr x)"
  by (auto simp: fork_def)

lemma heap_plug: "heap_tree pr (plug c s) \<longleftrightarrow> heap_tree pr s \<and> heap_path pr c (set_tree s)"
proof (induction c arbitrary: s)
  case Nil
  then show ?case by simp
next
  case (Cons f c)
  obtain d x other where f: "f = (d, x, other)" by (cases f)
  show ?case unfolding f plug.simps Cons.IH heap_fork heap_path.simps set_fork by blast
qed

lemma heap_path_mono: "heap_path pr c S \<Longrightarrow> S' \<subseteq> S \<Longrightarrow> heap_path pr c S'"
proof (induction c arbitrary: S S')
  case Nil
  then show ?case by simp
next
  case (Cons f c)
  obtain d x other where f: "f = (d, x, other)" by (cases f)
  have "insert x (S' \<union> set_tree other) \<subseteq> insert x (S \<union> set_tree other)" using Cons.prems(2) by auto
  then show ?case using Cons.IH Cons.prems by (auto simp: f)
qed

lemma heap_path_le:
  "heap_path pr c S \<Longrightarrow> (\<forall>y\<in>S'. \<exists>x\<in>S. pr y \<le> pr x) \<Longrightarrow> heap_path pr c S'"
proof (induction c arbitrary: S S')
  case Nil
  then show ?case by simp
next
  case (Cons f c)
  obtain d x other where f: "f = (d, x, other)" by (cases f)
  have "\<forall>y\<in>insert x (S' \<union> set_tree other). \<exists>z\<in>insert x (S \<union> set_tree other). pr y \<le> pr z"
    using Cons.prems(2) by auto
  then have "heap_path pr c (insert x (S' \<union> set_tree other))"
    using Cons.IH Cons.prems(1) unfolding f heap_path.simps by blast
  moreover have "\<forall>y\<in>S'. pr y \<le> pr x"
    using Cons.prems unfolding f heap_path.simps by (meson UnI1 order_trans)
  ultimately show ?case using Cons.prems(1) unfolding f heap_path.simps by blast
qed

section \<open>Rotations up the tree\<close>

text \<open>The functional counterpart of \<open>rotate_up\<close>: the node with the subtrees \<open>l\<close>, \<open>r\<close> rises along the path.\<close>

fun rise :: "(nat \<Rightarrow> int) \<Rightarrow> tree_path \<Rightarrow> nat tree \<Rightarrow> nat \<Rightarrow> nat tree \<Rightarrow> nat tree" where
  "rise pr [] l x r = Node l x r"
| "rise pr ((d, y, other) # c) l x r =
     (if pr y < pr x
      then rise pr c (if d then Node other y l else l) x (if d then r else Node r y other)
      else plug ((d, y, other) # c) (Node l x r))"

lemma inorder_rise: "inorder (rise pr c l x r) = inorder (plug c (Node l x r))"
  by (induction pr c l x r rule: rise.induct) (auto simp: inorder_plug fork_def)

lemma heap_rise:
  "heap_tree pr (Node l x r) \<Longrightarrow> heap_path pr c (set_tree l \<union> set_tree r) \<Longrightarrow> heap_tree pr (rise pr c l x r)"
proof (induction pr c l x r rule: rise.induct)
  case (1 pr l x r)
  then show ?case by simp
next
  case (2 pr d y other c l x r)
  show ?case
  proof (cases "pr y < pr x")
    case True
    have p: "heap_tree pr other" "\<forall>z\<in>set_tree l \<union> set_tree r \<union> set_tree other. pr z \<le> pr y"
      "heap_path pr c (insert y (set_tree l \<union> set_tree r \<union> set_tree other))"
      using "2.prems"(2) by auto
    have "heap_path pr c (set_tree (if d then Node other y l else l) \<union> set_tree (if d then r else Node r y other))"
      by (rule heap_path_mono [OF p(3)]) auto
    moreover have "heap_tree pr (Node (if d then Node other y l else l) x (if d then r else Node r y other))"
      using "2.prems"(1) p True by force
    ultimately show ?thesis using "2.IH" True by simp
  next
    case False
    then have le: "pr x \<le> pr y" by simp
    have s: "\<forall>z\<in>insert x (set_tree l \<union> set_tree r). pr z \<le> pr y" using "2.prems" le by auto
    have "heap_path pr ((d, y, other) # c) (insert x (set_tree l \<union> set_tree r))"
    proof -
      have "heap_path pr c (insert y (insert x (set_tree l \<union> set_tree r) \<union> set_tree other))"
        by (rule heap_path_le [of _ _ "insert y (set_tree l \<union> set_tree r \<union> set_tree other)"])
          (use "2.prems"(2) le in auto)
      then show ?thesis using "2.prems"(2) s by auto
    qed
    then show ?thesis using "2.prems"(1) False by (simp add: heap_plug del: plug.simps heap_path.simps)
  qed
qed

text \<open>One rotation.\<close>

definition rotate1 :: "nat \<Rightarrow> nat \<Rightarrow> ttree \<Rightarrow> ttree" where
  "rotate1 parent child t = (
     let dir = tn_dir (tnodes t child);
         G = tn_parent (tnodes t parent);
         t = upd_node child (\<lambda>n. n\<lparr>tn_parent := G, tn_dir := tn_dir (tnodes t parent)\<rparr>) t;
         y = tn_child (\<not> dir) (tnodes t child);
         t = upd_node parent (set_child dir y) t;
         t = upd_opt y (\<lambda>n. n\<lparr>tn_parent := Some parent, tn_dir := dir\<rparr>) t;
         t = upd_node child (set_child (\<not> dir) (Some parent)) t;
         t = upd_node parent (\<lambda>n. n\<lparr>tn_parent := Some child, tn_dir := \<not> dir\<rparr>) t
     in case G of
          None \<Rightarrow> t\<lparr>troot := Some child\<rparr>
        | Some g \<Rightarrow> upd_node g (set_child (tn_dir (tnodes t child)) (Some child)) t)"

lemma rotate_up_rotate1:
  "rotate_up parent child t = (let t' = rotate1 parent child t in
     case tn_parent (tnodes t parent) of None \<Rightarrow> Some t'
     | Some g \<Rightarrow> if tn_priority (tnodes t' g) < tn_priority (tnodes t' child) then rotate_up g child t' else Some t')"
  by (subst rotate_up.simps) (simp add: rotate1_def Let_def split: option.split)

text \<open>The store after one rotation, node by node.\<close>

lemma rotate1_nodes:
  assumes "x \<noteq> y" "tn_parent (tnodes t y) = G" "tn_dir (tnodes t x) = d" "tn_child (\<not> d) (tnodes t x) = q"
    "q \<noteq> Some x" "q \<noteq> Some y" "G \<noteq> Some x" "G \<noteq> Some y" "G = None \<or> G \<noteq> q"
  shows "tnodes (rotate1 y x t) z =
      (if z = x then set_child (\<not> d) (Some y) ((tnodes t x)\<lparr>tn_parent := G, tn_dir := tn_dir (tnodes t y)\<rparr>)
       else if z = y then (set_child d q (tnodes t y))\<lparr>tn_parent := Some x, tn_dir := \<not> d\<rparr>
       else if q = Some z then (tnodes t z)\<lparr>tn_parent := Some y, tn_dir := d\<rparr>
       else if G = Some z then set_child (tn_dir (tnodes t y)) (Some x) (tnodes t z)
       else tnodes t z)"
  and "troot (rotate1 y x t) = (if G = None then Some x else troot t)"
proof -
  define t1 where "t1 = upd_node x (\<lambda>n. n\<lparr>tn_parent := tn_parent (tnodes t y), tn_dir := tn_dir (tnodes t y)\<rparr>) t"
  define y1 where "y1 = tn_child (\<not> tn_dir (tnodes t x)) (tnodes t1 x)"
  define t2 where "t2 = upd_node y (set_child (tn_dir (tnodes t x)) y1) t1"
  define t3 where "t3 = upd_opt y1 (\<lambda>n. n\<lparr>tn_parent := Some y, tn_dir := tn_dir (tnodes t x)\<rparr>) t2"
  define t4 where "t4 = upd_node x (set_child (\<not> tn_dir (tnodes t x)) (Some y)) t3"
  define t5 where "t5 = upd_node y (\<lambda>n. n\<lparr>tn_parent := Some x, tn_dir := \<not> tn_dir (tnodes t x)\<rparr>) t4"
  have eq: "rotate1 y x t = (case tn_parent (tnodes t y) of None \<Rightarrow> t5\<lparr>troot := Some x\<rparr>
      | Some g \<Rightarrow> upd_node g (set_child (tn_dir (tnodes t5 x)) (Some x)) t5)"
    unfolding rotate1_def Let_def t5_def t4_def t3_def t2_def y1_def t1_def by (rule refl)
  have y1: "y1 = q" using assms by (simp add: y1_def t1_def)
  have t5x: "tnodes t5 x = set_child (\<not> d) (Some y) ((tnodes t x)\<lparr>tn_parent := G, tn_dir := tn_dir (tnodes t y)\<rparr>)"
    using assms by (simp add: t5_def t4_def t3_def t2_def t1_def y1)
  have t5y: "tnodes t5 y = (set_child d q (tnodes t y))\<lparr>tn_parent := Some x, tn_dir := \<not> d\<rparr>"
    using assms by (simp add: t5_def t4_def t3_def t2_def t1_def y1)
  have t5z: "tnodes t5 z = (if q = Some z then (tnodes t z)\<lparr>tn_parent := Some y, tn_dir := d\<rparr> else tnodes t z)"
    if "z \<noteq> x" "z \<noteq> y" for z
    using that assms(3) by (simp add: t5_def t4_def t3_def t2_def t1_def y1)
  have r: "troot t5 = troot t" by (simp add: t5_def t4_def t3_def t2_def t1_def)
  show "troot (rotate1 y x t) = (if G = None then Some x else troot t)"
    unfolding eq using r assms(2) by (simp split: option.split)
  show "tnodes (rotate1 y x t) z =
      (if z = x then set_child (\<not> d) (Some y) ((tnodes t x)\<lparr>tn_parent := G, tn_dir := tn_dir (tnodes t y)\<rparr>)
       else if z = y then (set_child d q (tnodes t y))\<lparr>tn_parent := Some x, tn_dir := \<not> d\<rparr>
       else if q = Some z then (tnodes t z)\<lparr>tn_parent := Some y, tn_dir := d\<rparr>
       else if G = Some z then set_child (tn_dir (tnodes t y)) (Some x) (tnodes t z)
       else tnodes t z)"
  proof (cases G)
    case None
    then show ?thesis unfolding eq using assms(2) t5x t5y t5z by simp
  next
    case (Some g)
    then have "g \<noteq> x" "g \<noteq> y" "q \<noteq> Some g" using assms by auto
    then show ?thesis unfolding eq using assms(2) Some t5x t5y t5z by auto
  qed
qed

lemma shape_reroot:
  assumes "shape t p d q s" "distinct (inorder s)"
    "\<And>z. z \<in> set_tree s \<Longrightarrow> tnodes t' z = (if q = Some z then (tnodes t z)\<lparr>tn_parent := p', tn_dir := d'\<rparr> else tnodes t z)"
  shows "shape t' p' d' q s"
proof (cases s)
  case Leaf
  with assms show ?thesis by simp
next
  case (Node l x r)
  have "q = Some x" "x \<notin> set_tree l \<union> set_tree r" using assms(1,2) Node by auto
  then have "tnodes t' z = tnodes t z" if "z \<in> set_tree l \<union> set_tree r" for z
    using assms(3) [of z] that Node by auto
  then have "shape t' p d q l = shape t p d q l" "shape t' p d q r = shape t p d q r" for p d q
    by (auto intro!: shape_cong)
  with assms Node show ?thesis by simp
qed

lemma shape_root_in: "shape t p d (Some z) s \<Longrightarrow> z \<in> set_tree s"
  by (cases s) auto

lemma rotate1_shape:
  assumes path: "path_shape t (Some x) ((d, y, other) # c)"
    and sub: "shape t (Some y) d (Some x) (fork (\<not> d) inner x outer)"
    and dist: "distinct (inorder (plug ((d, y, other) # c) (fork (\<not> d) inner x outer)))"
  defines "t' \<equiv> rotate1 y x t"
  shows "path_shape t' (Some x) c \<and> shape t' (path_parent c) (path_dir c) (Some x) (fork (\<not> d) (fork d inner y other) x outer)
    \<and> (\<forall>z. tn_priority (tnodes t' z) = tn_priority (tnodes t z))
    \<and> (\<forall>z. z \<notin> insert x (insert y (set_tree inner \<union> path_nodes c)) \<longrightarrow> tnodes t' z = tnodes t z)"
proof -
  let ?G = "path_parent c" and ?q = "tn_child (\<not> d) (tnodes t x)"
  have P: "tn_child d (tnodes t y) = Some x" "tn_parent (tnodes t y) = ?G" "tn_dir (tnodes t y) = path_dir c"
    "shape t (Some y) (\<not> d) (tn_child (\<not> d) (tnodes t y)) other" "path_shape t (Some y) c"
    using path by simp_all
  have S: "tn_parent (tnodes t x) = Some y" "tn_dir (tnodes t x) = d" "shape t (Some x) (\<not> d) ?q inner"
    "shape t (Some x) d (tn_child d (tnodes t x)) outer"
    using sub by (simp_all add: shape_fork)
  have D: "x \<noteq> y" "x \<notin> set_tree inner" "x \<notin> set_tree outer" "x \<notin> set_tree other" "x \<notin> path_nodes c"
    "y \<notin> set_tree inner" "y \<notin> set_tree outer" "y \<notin> set_tree other" "y \<notin> path_nodes c"
    "set_tree inner \<inter> set_tree outer = {}" "set_tree inner \<inter> set_tree other = {}" "set_tree inner \<inter> path_nodes c = {}"
    "set_tree outer \<inter> set_tree other = {}" "set_tree outer \<inter> path_nodes c = {}" "set_tree other \<inter> path_nodes c = {}"
    "distinct (inorder inner)"
    using dist unfolding distinct_plug distinct_fork set_fork path_distinct.simps path_nodes.simps by blast+
  have q: "z \<in> set_tree inner" if "?q = Some z" for z using S(3) that shape_root_in by simp
  have G: "z \<in> path_nodes c" if "?G = Some z" for z using that by (cases c) auto
  have cond: "?q \<noteq> Some x" "?q \<noteq> Some y" "?G \<noteq> Some x" "?G \<noteq> Some y" using q G D by auto
  have cond5: "?G = None \<or> ?G \<noteq> ?q"
  proof (cases ?G)
    case (Some g)
    then show ?thesis using q [of g] G [of g] D(12) by auto
  qed simp
  note nodes = rotate1_nodes(1) [OF D(1) P(2) S(2) refl cond cond5, folded t'_def]
    and root = rotate1_nodes(2) [OF D(1) P(2) S(2) refl cond cond5, folded t'_def]
  have same: "tnodes t' z = tnodes t z" if "z \<noteq> x" "z \<noteq> y" "z \<notin> set_tree inner" "?G \<noteq> Some z" for z
    using that q by (auto simp: nodes)
  have "shape t' (Some y) d ?q inner"
    by (rule shape_reroot [OF S(3) D(16)]) (use D G in \<open>auto simp: nodes\<close>)
  moreover have "shape t' p e r other = shape t p e r other" for p e r
    by (rule shape_cong) (rule same; use D G in auto)
  moreover have "shape t' p e r outer = shape t p e r outer" for p e r
    by (rule shape_cong) (rule same; use D G in auto)
  moreover have "tnodes t' x = set_child (\<not> d) (Some y) ((tnodes t x)\<lparr>tn_parent := ?G, tn_dir := path_dir c\<rparr>)"
    "tnodes t' y = (set_child d ?q (tnodes t y))\<lparr>tn_parent := Some x, tn_dir := \<not> d\<rparr>"
    using D(1) P(3) by (simp_all add: nodes)
  ultimately have 1: "shape t' ?G (path_dir c) (Some x) (fork (\<not> d) (fork d inner y other) x outer)"
    using P S by (simp add: shape_fork)
  have 2: "path_shape t' (Some x) c"
  proof (cases c)
    case Nil
    then show ?thesis using root by simp
  next
    case (Cons f c')
    obtain e g o' where f: "f = (e, g, o')" by (cases f)
    have dg: "g \<notin> set_tree o'" "g \<notin> path_nodes c'" "set_tree o' \<inter> path_nodes c' = {}"
      using dist unfolding distinct_plug Cons f path_distinct.simps by blast+
    have "g \<in> path_nodes c" by (simp add: Cons f)
    then have "g \<noteq> x" "g \<noteq> y" "?q \<noteq> Some g" using D(5,9,12) q [of g] by auto
    moreover have "?G = Some g" "path_dir c = e" by (simp_all add: Cons f)
    ultimately have g: "tnodes t' g = set_child e (Some x) (tnodes t g)" using P(3) by (simp add: nodes)
    have "shape t' p b r o' = shape t p b r o'" for p b r
      by (rule shape_cong) (rule same; use D dg in \<open>auto simp: Cons f\<close>)
    moreover have "path_shape t' (Some g) c' = path_shape t (Some g) c'"
    proof (rule path_shape_cong)
      show "tnodes t' z = tnodes t z" if "z \<in> path_nodes c'" for z
        by (rule same) (use that D dg in \<open>auto simp: Cons f\<close>)
      show "troot t' = troot t" using root by (simp add: Cons f)
    qed
    ultimately show ?thesis using P(5) g by (simp add: Cons f)
  qed
  have 3: "tn_priority (tnodes t' z) = tn_priority (tnodes t z)" for z by (simp add: nodes)
  have 4: "z \<notin> insert x (insert y (set_tree inner \<union> path_nodes c)) \<longrightarrow> tnodes t' z = tnodes t z" for z
    using same G by auto
  show ?thesis using 1 2 3 4 by blast
qed

lemma fork_sides: "fork (\<not> d) (if d then l else r) x (if d then r else l) = Node l x r"
  by (simp add: fork_def)

lemma distinct_rise: "distinct (inorder (rise pr c l x r)) \<longleftrightarrow> distinct (inorder (plug c (Node l x r)))"
  by (simp add: inorder_rise)

lemma rotate_up_rise:
  assumes "path_shape t (Some x) ((d, y, other) # c)" "shape t (Some y) d (Some x) (Node l x r)"
    "distinct (inorder (plug ((d, y, other) # c) (Node l x r)))"
    "pr = (\<lambda>z. tn_priority (tnodes t z))" "pr y < pr x"
  shows "\<exists>t'. rotate_up y x t = Some t' \<and> shape t' None False (troot t') (rise pr ((d, y, other) # c) l x r)
    \<and> (\<forall>z. tn_priority (tnodes t' z) = pr z)
    \<and> (\<forall>z. z \<notin> insert x (insert y (set_tree l \<union> set_tree r \<union> set_tree other \<union> path_nodes c)) \<longrightarrow> tnodes t' z = tnodes t z)"
  using assms
proof (induction c arbitrary: d y other l r t)
  case Nil
  let ?t = "rotate1 y x t"
  note 1 = rotate1_shape [OF Nil(1) Nil(2) [folded fork_sides [of d l r x]] Nil(3) [folded fork_sides [of d l r x]]]
  have "rotate_up y x t = Some ?t" using Nil(1) by (subst rotate_up_rotate1) (simp add: Let_def)
  moreover have "fork (\<not> d) (fork d (if d then l else r) y other) x (if d then r else l) = rise pr [(d, y, other)] l x r"
    using Nil by (simp add: fork_def)
  ultimately show ?case using 1 Nil(4) by (auto split: if_split_asm)
next
  case (Cons f c)
  obtain e g o' where f: "f = (e, g, o')" by (cases f)
  let ?t = "rotate1 y x t"
  let ?l = "if d then Node other y l else l" and ?r = "if d then r else Node r y other"
  note 1 = rotate1_shape [OF Cons.prems(1) Cons.prems(2) [folded fork_sides [of d l r x]] Cons.prems(3) [folded fork_sides [of d l r x]]]
  have node: "fork (\<not> d) (fork d (if d then l else r) y other) x (if d then r else l) = Node ?l x ?r"
    by (simp add: fork_def)
  have pr: "pr = (\<lambda>z. tn_priority (tnodes ?t z))" using 1 Cons.prems(4) by auto
  have path: "path_shape ?t (Some x) ((e, g, o') # c)" and sub: "shape ?t (Some g) e (Some x) (Node ?l x ?r)"
    using 1 unfolding node f by auto
  have dist: "distinct (inorder (plug ((e, g, o') # c) (Node ?l x ?r)))"
    using Cons.prems(3) unfolding f by (auto simp: inorder_plug fork_def)
  have frame: "\<forall>z. z \<notin> insert x (insert y (set_tree l \<union> set_tree r \<union> set_tree other \<union> path_nodes (f # c))) \<longrightarrow> tnodes ?t z = tnodes t z"
    using 1 by (auto split: if_split_asm)
  have G: "tn_parent (tnodes t y) = Some g" using Cons.prems(1) f by simp
  have rise: "rise pr ((d, y, other) # f # c) l x r = rise pr ((e, g, o') # c) ?l x ?r" using Cons.prems(5) f by simp
  show ?case
  proof (cases "pr g < pr x")
    case True
    from Cons.IH [OF path sub dist pr True] obtain t' where t': "rotate_up g x ?t = Some t'"
      "shape t' None False (troot t') (rise pr ((e, g, o') # c) ?l x ?r)" "\<forall>z. tn_priority (tnodes t' z) = pr z"
      "\<forall>z. z \<notin> insert x (insert g (set_tree ?l \<union> set_tree ?r \<union> set_tree o' \<union> path_nodes c)) \<longrightarrow> tnodes t' z = tnodes ?t z"
      by blast
    have "rotate_up y x t = Some t'"
      using t'(1) True G fun_cong [OF pr, of g] fun_cong [OF pr, of x] by (subst rotate_up_rotate1) (simp add: Let_def)
    moreover have "\<forall>z. z \<notin> insert x (insert y (set_tree l \<union> set_tree r \<union> set_tree other \<union> path_nodes (f # c))) \<longrightarrow> tnodes t' z = tnodes t z"
      using t'(4) frame by (auto simp: f split: if_split_asm)
    ultimately show ?thesis using t'(2, 3) unfolding rise by blast
  next
    case False
    have "rotate_up y x t = Some ?t"
      using False G fun_cong [OF pr, of g] fun_cong [OF pr, of x] by (subst rotate_up_rotate1) (simp add: Let_def)
    moreover have "rise pr ((e, g, o') # c) ?l x ?r = plug ((e, g, o') # c) (Node ?l x ?r)" using False by simp
    moreover have "shape ?t None False (troot ?t) (plug ((e, g, o') # c) (Node ?l x ?r))"
      unfolding shape_plug using path sub by auto
    ultimately show ?thesis using pr frame unfolding rise by metis
  qed
qed

section \<open>Insertion keeps the tree and its order\<close>

definition treap_of :: "ttree \<Rightarrow> nat tree \<Rightarrow> bool" where
  "treap_of t tr \<longleftrightarrow> tree_of t tr \<and> heap_tree (\<lambda>z. tn_priority (tnodes t z)) tr"

lemma heap_tree_cong: "(\<And>z. z \<in> set_tree tr \<Longrightarrow> pr' z = pr z) \<Longrightarrow> heap_tree pr' tr = heap_tree pr tr"
  by (induction tr) auto

lemma split_at_node:
  assumes "distinct (inorder (plug c (Node l x r)))" "inorder (plug c (Node l x r)) = xs @ x # ys"
  shows "xs = path_before c @ inorder l" "ys = inorder r @ path_after c"
proof -
  have "(path_before c @ inorder l) @ x # (inorder r @ path_after c) = xs @ x # ys"
    using assms(2) by (simp add: inorder_plug)
  moreover have "x \<notin> set (path_before c @ inorder l)" "x \<notin> set (inorder r @ path_after c)"
    using assms(1) by (auto simp: inorder_plug)
  ultimately show "xs = path_before c @ inorder l" "ys = inorder r @ path_after c"
    by (subst (asm) append_Cons_eq_iff; simp)+
qed

lemma rng_fields [simp]: "rng t = (p, t') \<Longrightarrow> tnodes t' = tnodes t" "rng t = (p, t') \<Longrightarrow> troot t' = troot t"
  by (auto simp: rng_def Let_def)

lemma insert_at_node:
  assumes tr: "treap_of t (plug c (fork dir Leaf p other))" and new: "child \<notin> set_tree (plug c (fork dir Leaf p other))"
    and par: "tn_parent (tnodes t child) = None"
  shows "\<exists>t' tr'. insert_at (Some p) dir child t = Some t' \<and> treap_of t' tr' \<and>
    inorder tr' = path_before ((dir, p, other) # c) @ child # path_after ((dir, p, other) # c) \<and>
    (\<forall>z. z \<notin> set_tree tr' \<longrightarrow> tnodes t' z = tnodes t z)"
proof -
  let ?c = "(dir, p, other) # c"
  obtain i t0 where rng: "rng (upd_node p (set_child dir (Some child)) t) = (i, t0)" by fastforce
  define t1 where "t1 = upd_node child (\<lambda>_. null_node\<lparr>tn_parent := Some p, tn_priority := i, tn_dir := dir\<rparr>) t0"
  let ?pr = "\<lambda>z. tn_priority (tnodes t1 z)"
  let ?tr = "rise ?pr ?c Leaf child Leaf"
  have dist: "distinct (inorder (plug c (fork dir Leaf p other)))" using tr by (simp add: treap_of_def tree_of_def)
  have nodes: "tnodes t1 = (tnodes t)(p := set_child dir (Some child) (tnodes t p),
      child := null_node\<lparr>tn_parent := Some p, tn_priority := i, tn_dir := dir\<rparr>)" and root: "troot t1 = troot t"
    using rng_fields [OF rng] by (simp_all add: t1_def)
  have ch: "child \<noteq> p" "child \<notin> set_tree other" "child \<notin> path_nodes c" using new by auto
  have p: "p \<notin> set_tree other" "p \<notin> path_nodes c" using dist unfolding distinct_plug distinct_fork by auto
  obtain q where old: "path_shape t q c" "shape t (path_parent c) (path_dir c) q (fork dir Leaf p other)"
    using tr shape_plug [of t c "fork dir Leaf p other"] unfolding treap_of_def tree_of_def by blast
  then have qp: "q = Some p" and free: "tn_child dir (tnodes t p) = None" by (simp_all add: shape_fork)
  have "path_shape t1 (Some p) c = path_shape t (Some p) c"
    by (rule path_shape_cong) (use nodes root ch p in auto)
  moreover have "shape t1 (Some p) (\<not> dir) (tn_child (\<not> dir) (tnodes t p)) other
      = shape t (Some p) (\<not> dir) (tn_child (\<not> dir) (tnodes t p)) other"
    by (rule shape_cong) (use nodes ch p in auto)
  ultimately have path: "path_shape t1 (Some child) ?c"
    using old ch(1) by (simp add: nodes qp shape_fork)
  have sub: "shape t1 (Some p) dir (Some child) (Node Leaf child Leaf)"
    by (simp add: nodes)
  have dist': "distinct (inorder (plug ?c (Node Leaf child Leaf)))"
    using dist ch unfolding plug.simps distinct_plug distinct_fork by auto
  have go: "insert_at (Some p) dir child t = (if ?pr p < ?pr child then rotate_up p child t1 else Some t1)"
    using free par rng by (simp add: insert_at_def Let_def t1_def)
  have heap: "heap_tree ?pr ?tr"
  proof (rule heap_rise)
    have pr: "?pr z = tn_priority (tnodes t z)" if "z \<noteq> child" for z using that by (simp add: nodes)
    have "heap_tree ?pr (plug c (fork dir Leaf p other)) = heap_tree (\<lambda>z. tn_priority (tnodes t z)) (plug c (fork dir Leaf p other))"
      by (rule heap_tree_cong, rule pr) (use new in auto)
    then have "heap_tree ?pr (plug c (fork dir Leaf p other))" using tr by (simp add: treap_of_def)
    then show "heap_path ?pr ?c (set_tree Leaf \<union> set_tree Leaf)" unfolding heap_plug heap_fork by simp
  qed simp
  obtain t' where t': "insert_at (Some p) dir child t = Some t'" "shape t' None False (troot t') ?tr"
    "\<forall>z. tn_priority (tnodes t' z) = ?pr z"
    "\<forall>z. z \<notin> insert child (insert p (set_tree other \<union> path_nodes c)) \<longrightarrow> tnodes t' z = tnodes t1 z"
  proof (cases "?pr p < ?pr child")
    case True
    then show ?thesis using rotate_up_rise [OF path sub dist' refl True] go that by (simp del: rise.simps) blast
  next
    case False
    have "shape t1 None False (troot t1) (plug ?c (Node Leaf child Leaf))"
      using shape_plug [of t1 ?c "Node Leaf child Leaf"] path sub by auto
    moreover have "?tr = plug ?c (Node Leaf child Leaf)" using False by simp
    ultimately show ?thesis using go False that [of t1] by (simp only: if_False simp_thms)
  qed
  have "(\<lambda>z. tn_priority (tnodes t' z)) = ?pr" using t'(3) by auto
  then have "treap_of t' ?tr"
    using t'(2) heap dist' unfolding treap_of_def tree_of_def distinct_rise by (simp del: rise.simps plug.simps)
  moreover have "inorder ?tr = path_before ?c @ child # path_after ?c"
    by (simp add: inorder_rise inorder_plug del: rise.simps plug.simps)
  moreover have "tnodes t' z = tnodes t z" if "z \<notin> set_tree ?tr" for z
  proof -
    have "set_tree ?tr = insert child (insert p (set_tree other \<union> path_nodes c))"
      using arg_cong [OF inorder_rise, of set ?pr ?c Leaf child Leaf] by (simp del: rise.simps) auto
    then have "z \<noteq> child" "z \<noteq> p" "tnodes t' z = tnodes t1 z" using that t'(4) by auto
    then show ?thesis by (simp add: nodes)
  qed
  ultimately show ?thesis using t'(1) by blast
qed

lemma tree_insert_root:
  assumes "treap_of t Leaf" "tn_parent (tnodes t node) = None"
  shows "\<exists>t'. insert_at None dir node t = Some t' \<and> treap_of t' (Node Leaf node Leaf)
    \<and> (\<forall>z. z \<noteq> node \<longrightarrow> tnodes t' z = tnodes t z)"
proof -
  obtain i t0 where rng: "rng (t\<lparr>troot := Some node\<rparr>) = (i, t0)" by fastforce
  then show ?thesis using assms rng_fields [OF rng]
    by (simp add: insert_at_def insert_root_def treap_of_def tree_of_def Let_def) (simp add: null_node_def)
qed

section \<open>Removal\<close>

text \<open>The functional counterpart of \<open>tree_remove_at\<close>: the two subtrees of the removed node joined by priority.\<close>

fun join_trees :: "(nat \<Rightarrow> int) \<Rightarrow> nat tree \<Rightarrow> nat tree \<Rightarrow> nat tree" where
  "join_trees pr l Leaf = l"
| "join_trees pr Leaf r = r"
| "join_trees pr (Node ll a lr) (Node rl b rr) =
     (if pr b < pr a then Node ll a (join_trees pr lr (Node rl b rr)) else Node (join_trees pr (Node ll a lr) rl) b rr)"

lemma join_Leaf [simp]: "join_trees pr Leaf r = r"
  by (cases r) simp_all

lemma inorder_join: "inorder (join_trees pr l r) = inorder l @ inorder r"
  by (induction pr l r rule: join_trees.induct) simp_all

lemma set_join: "set_tree (join_trees pr l r) = set_tree l \<union> set_tree r"
  using arg_cong [OF inorder_join, of set pr l r] by simp

lemma heap_join: "heap_tree pr l \<Longrightarrow> heap_tree pr r \<Longrightarrow> heap_tree pr (join_trees pr l r)"
proof (induction pr l r rule: join_trees.induct)
  case (3 pr ll a lr rl b rr)
  show ?case
  proof (cases "pr b < pr a")
    case True
    have "\<forall>y\<in>set_tree ll \<union> set_tree (join_trees pr lr (Node rl b rr)). pr y \<le> pr a"
      using "3.prems" True by (simp add: set_join ball_Un) (meson less_imp_le order_trans)
    then show ?thesis using 3 True by simp
  next
    case False
    have "\<forall>y\<in>set_tree (join_trees pr (Node ll a lr) rl) \<union> set_tree rr. pr y \<le> pr b"
      using "3.prems" False by (simp add: set_join ball_Un) (meson not_less order_trans)
    then show ?thesis using 3 False by simp
  qed
qed simp_all

lemma path_slot_read: "path_shape t q c \<Longrightarrow> read_slot_t (path_slot c) t = q"
  by (cases "(t, q, c)" rule: path_shape.cases) (auto simp: read_slot_t_def)

lemma path_slot_write:
  assumes "path_shape t q c" "path_distinct c"
  shows "path_shape (write_slot_t (path_slot c) v t) v c"
    "z \<notin> path_nodes c \<Longrightarrow> tnodes (write_slot_t (path_slot c) v t) z = tnodes t z"
    "tn_priority (tnodes (write_slot_t (path_slot c) v t) z) = tn_priority (tnodes t z)"
proof -
  show "path_shape (write_slot_t (path_slot c) v t) v c"
  proof (cases c)
    case Nil
    then show ?thesis by (simp add: write_slot_t_def)
  next
    case (Cons f c')
    obtain d x other where f: "f = (d, x, other)" by (cases f)
    let ?t = "upd_node x (set_child d v) t"
    have "shape ?t p e q other = shape t p e q other" for p e q
      by (rule shape_cong) (use assms(2) in \<open>auto simp: Cons f\<close>)
    moreover have "path_shape ?t q c' = path_shape t q c'" for q
      by (rule path_shape_cong) (use assms(2) in \<open>auto simp: Cons f\<close>)
    ultimately show ?thesis using assms(1) by (simp add: Cons f write_slot_t_def)
  qed
  show "z \<notin> path_nodes c \<Longrightarrow> tnodes (write_slot_t (path_slot c) v t) z = tnodes t z"
    by (cases c rule: path_slot.cases) (auto simp: write_slot_t_def)
  show "tn_priority (tnodes (write_slot_t (path_slot c) v t) z) = tn_priority (tnodes t z)"
    by (cases c rule: path_slot.cases) (auto simp: write_slot_t_def)
qed

text \<open>A node with one child is replaced by it.\<close>

lemma replace_by_child:
  assumes path: "path_shape t (Some n) c" and dist: "distinct (inorder (plug c s))" and s: "shape t p d (Some m) s"
  defines "t' \<equiv> upd_node m (\<lambda>x. x\<lparr>tn_parent := path_parent c, tn_dir := path_dir c\<rparr>) (write_slot_t (path_slot c) (Some m) t)"
  shows "shape t' None False (troot t') (plug c s)" "tn_priority (tnodes t' z) = tn_priority (tnodes t z)"
    "z \<notin> path_nodes c \<Longrightarrow> z \<notin> set_tree s \<Longrightarrow> tnodes t' z = tnodes t z"
proof -
  let ?w = "write_slot_t (path_slot c) (Some m) t"
  have d: "path_distinct c" "set_tree s \<inter> path_nodes c = {}" "distinct (inorder s)" using dist by (auto simp: distinct_plug)
  note w = path_slot_write [OF path d(1), where v = "Some m"]
  have m: "m \<in> set_tree s" using s shape_root_in by blast
  have same: "tnodes ?w z = tnodes t z" if "z \<in> set_tree s" for z using w(2) that d(2) by auto
  have "path_shape t' (Some m) c = path_shape ?w (Some m) c"
    by (rule path_shape_cong) (use m d(2) in \<open>auto simp: t'_def\<close>)
  moreover have "shape t' (path_parent c) (path_dir c) (Some m) s"
  proof (rule shape_reroot [OF s d(3)])
    show "tnodes t' z = (if Some m = Some z then (tnodes t z)\<lparr>tn_parent := path_parent c, tn_dir := path_dir c\<rparr> else tnodes t z)"
      if "z \<in> set_tree s" for z
      using same [OF that] by (auto simp: t'_def)
  qed
  ultimately show "shape t' None False (troot t') (plug c s)" using w(1) shape_plug [of t' c s] by auto
  show "tn_priority (tnodes t' z) = tn_priority (tnodes t z)" using w(3) by (simp add: t'_def)
  show "z \<notin> path_nodes c \<Longrightarrow> z \<notin> set_tree s \<Longrightarrow> tnodes t' z = tnodes t z" using w(2) m by (auto simp: t'_def)
qed

text \<open>The step for a node with two children is the rotation of the child above it.\<close>

definition sink1 :: "tree_slot \<Rightarrow> nat \<Rightarrow> nat \<Rightarrow> bool \<Rightarrow> ttree \<Rightarrow> ttree" where
  "sink1 slot node C dir t =
     (let n = tnodes t node;
          y = tn_child dir (tnodes t C);
          t = write_slot_t slot (Some C) t;
          t = upd_node C (\<lambda>m. m\<lparr>tn_parent := tn_parent n, tn_dir := tn_dir n\<rparr>) t;
          t = upd_node C (set_child dir (Some node)) t;
          t = upd_node node (\<lambda>m. m\<lparr>tn_dir := dir, tn_parent := Some C\<rparr>) t;
          t = upd_node node (set_child (\<not> dir) y) t
      in upd_opt y (\<lambda>m. m\<lparr>tn_dir := \<not> dir, tn_parent := Some node\<rparr>) t)"

lemma tree_remove_at_unfold:
  "tree_remove_at slot node t =
     (if read_slot_t slot t \<noteq> Some node then None
      else (let n = tnodes t node in
        case (tn_left n, tn_right n) of
          (None, None) \<Rightarrow> Some (write_slot_t slot None t)
        | (Some l, None) \<Rightarrow>
            Some (upd_node l (\<lambda>m. m\<lparr>tn_parent := tn_parent n, tn_dir := tn_dir n\<rparr>) (write_slot_t slot (Some l) t))
        | (None, Some r) \<Rightarrow>
            Some (upd_node r (\<lambda>m. m\<lparr>tn_parent := tn_parent n, tn_dir := tn_dir n\<rparr>) (write_slot_t slot (Some r) t))
        | (Some l, Some r) \<Rightarrow>
            (let dir = (tn_priority (tnodes t r) < tn_priority (tnodes t l));
                 C = (if dir then l else r)
             in tree_remove_at (ChildSlot C dir) node (sink1 slot node C dir t))))"
  by (subst tree_remove_at.simps) (simp only: sink1_def Let_def)

lemma set_child_commute:
  "set_child d v (n\<lparr>tn_parent := p, tn_dir := b\<rparr>) = (set_child d v n)\<lparr>tn_parent := p, tn_dir := b\<rparr>"
  "n\<lparr>tn_dir := b, tn_parent := p\<rparr> = n\<lparr>tn_parent := p, tn_dir := b\<rparr>"
  by (cases n; simp add: set_child_def)+


lemma sink1_rotate1:
  assumes path: "path_shape t (Some n) c" and par: "tn_parent (tnodes t n) = path_parent c" "tn_dir (tnodes t n) = path_dir c"
    and C: "tn_child (\<not> dir) (tnodes t n) = Some C" "tn_dir (tnodes t C) = (\<not> dir)"
    and q: "tn_child dir (tnodes t C) = q" "q \<noteq> Some C" "q \<noteq> Some n" "C \<noteq> n"
    and G: "path_parent c \<noteq> Some C" "path_parent c \<noteq> Some n" "path_parent c = None \<or> path_parent c \<noteq> q"
  shows "sink1 (path_slot c) n C dir t = rotate1 n C t"
proof -
  have q': "tn_child (\<not> \<not> dir) (tnodes t C) = q" using q(1) by simp
  note r = rotate1_nodes [OF q(4) par(1) C(2) q' q(2,3) G]
  define t1 where "t1 = write_slot_t (path_slot c) (Some C) t"
  define t2 where "t2 = upd_node C (\<lambda>m. m\<lparr>tn_parent := tn_parent (tnodes t n), tn_dir := tn_dir (tnodes t n)\<rparr>) t1"
  define t3 where "t3 = upd_node C (set_child dir (Some n)) t2"
  define t4 where "t4 = upd_node n (\<lambda>m. m\<lparr>tn_dir := dir, tn_parent := Some C\<rparr>) t3"
  define t5 where "t5 = upd_node n (set_child (\<not> dir) q) t4"
  define t6 where "t6 = upd_opt q (\<lambda>m. m\<lparr>tn_dir := \<not> dir, tn_parent := Some n\<rparr>) t5"
  have eq: "sink1 (path_slot c) n C dir t = t6"
    unfolding sink1_def Let_def t6_def t5_def t4_def t3_def t2_def t1_def q(1) by (rule refl)
  have w: "tnodes t1 z = (if path_parent c = Some z then set_child (path_dir c) (Some C) (tnodes t z) else tnodes t z)" for z
    by (cases c rule: path_slot.cases) (auto simp: t1_def write_slot_t_def)
  have root: "troot t6 = troot (rotate1 n C t)"
    unfolding r by (cases c rule: path_slot.cases) (simp_all add: t6_def t5_def t4_def t3_def t2_def t1_def write_slot_t_def)
  have rng: "rng_state t6 = rng_state (rotate1 n C t)"
  proof -
    have "rng_state t6 = rng_state t"
      by (cases c rule: path_slot.cases) (simp_all add: t6_def t5_def t4_def t3_def t2_def t1_def write_slot_t_def)
    moreover have "rng_state (rotate1 n C t) = rng_state t" by (simp add: rotate1_def Let_def split: option.split)
    ultimately show ?thesis by simp
  qed
  have "tnodes t6 z = tnodes (rotate1 n C t) z" for z
  proof -
    have C6: "tnodes t6 C = set_child dir (Some n) ((tnodes t C)\<lparr>tn_parent := path_parent c, tn_dir := path_dir c\<rparr>)"
      using q G w [of C] par by (simp add: t6_def t5_def t4_def t3_def t2_def)
    have n6: "tnodes t6 n = set_child (\<not> dir) q ((tnodes t n)\<lparr>tn_dir := dir, tn_parent := Some C\<rparr>)"
      using q G w [of n] by (simp add: t6_def t5_def t4_def t3_def t2_def)
    have z6: "tnodes t6 z = (if q = Some z then (tnodes t1 z)\<lparr>tn_dir := \<not> dir, tn_parent := Some n\<rparr> else tnodes t1 z)"
      if "z \<noteq> C" "z \<noteq> n"
      using that by (simp add: t6_def t5_def t4_def t3_def t2_def)
    show ?thesis
      using C6 n6 z6 w [of z] G(3) par(2) unfolding r(1) by (auto simp: set_child_commute)
  qed
  then have "tnodes t6 = tnodes (rotate1 n C t)" by (rule ext)
  with root rng show ?thesis unfolding eq by simp
qed

text \<open>The recursion: the node sinks along the joined subtrees until it has no children.\<close>

lemma remove_at_join:
  assumes "path_shape t (Some n) c" "shape t (path_parent c) (path_dir c) (Some n) (Node l n r)"
    "distinct (inorder (plug c (Node l n r)))" "pr = (\<lambda>z. tn_priority (tnodes t z))"
  shows "\<exists>t'. tree_remove_at (path_slot c) n t = Some t' \<and> shape t' None False (troot t') (plug c (join_trees pr l r))
    \<and> (\<forall>z. tn_priority (tnodes t' z) = pr z)
    \<and> (\<forall>z. z \<notin> path_nodes c \<longrightarrow> z \<notin> set_tree (Node l n r) \<longrightarrow> tnodes t' z = tnodes t z)"
  using assms
proof (induction pr l r arbitrary: c t rule: join_trees.induct)
  case (1 pr l)
  note dist = "1.prems"(3)
  have read: "read_slot_t (path_slot c) t = Some n" by (rule path_slot_read [OF "1.prems"(1)])
  have d: "path_distinct c" using dist by (simp add: distinct_plug)
  show ?case
  proof (cases l)
    case Leaf
    have "shape (write_slot_t (path_slot c) None t) None False (troot (write_slot_t (path_slot c) None t)) (plug c Leaf)"
      using shape_plug path_slot_write(1) [OF "1.prems"(1) d] by auto
    then show ?thesis
      using read "1.prems"(2,4) Leaf path_slot_write(2,3) [OF "1.prems"(1) d]
      by (subst tree_remove_at_unfold) (simp add: tn_child_dirs)
  next
    case (Node ll m lr)
    have sub: "shape t (Some n) False (Some m) l" "tn_child False (tnodes t n) = Some m" "tn_child True (tnodes t n) = None"
      using "1.prems"(2) Node by auto
    have "distinct (inorder (plug c l))" using dist by (auto simp: distinct_plug)
    note 1 = replace_by_child [OF "1.prems"(1) this sub(1)]
    then show ?thesis using read "1.prems"(2,4) sub by (subst tree_remove_at_unfold) (simp add: tn_child_dirs)
  qed
next
  case (2 pr rl m rr)
  let ?r = "Node rl m rr"
  have read: "read_slot_t (path_slot c) t = Some n" by (rule path_slot_read [OF "2.prems"(1)])
  have sub: "shape t (Some n) True (Some m) ?r" "tn_child True (tnodes t n) = Some m" "tn_child False (tnodes t n) = None"
    using "2.prems"(2) by auto
  have "distinct (inorder (plug c ?r))" using "2.prems"(3) by (auto simp: distinct_plug)
  note 1 = replace_by_child [OF "2.prems"(1) this sub(1)]
  then show ?case using read "2.prems"(2,4) sub by (subst tree_remove_at_unfold) (simp add: tn_child_dirs)
next
  case (3 pr ll a lr rl b rr)
  let ?dir = "pr b < pr a"
  let ?C = "if ?dir then a else b"
  let ?inner = "if ?dir then lr else rl" and ?outer = "if ?dir then ll else rr"
  let ?other = "if ?dir then Node rl b rr else Node ll a lr"
  let ?t = "rotate1 n ?C t"
  have S: "tn_parent (tnodes t n) = path_parent c" "tn_dir (tnodes t n) = path_dir c"
    "tn_child False (tnodes t n) = Some a" "tn_child True (tnodes t n) = Some b" "tn_parent (tnodes t a) = Some n"
    "\<not> tn_dir (tnodes t a)" "tn_parent (tnodes t b) = Some n" "tn_dir (tnodes t b)"
    "shape t (Some n) False (Some a) (Node ll a lr)" "shape t (Some n) True (Some b) (Node rl b rr)"
    using "3.prems"(2) by auto
  have Cs: "fork ?dir ?inner ?C ?outer = (if ?dir then Node ll a lr else Node rl b rr)"
    and nd: "Node (Node ll a lr) n (Node rl b rr) = fork (\<not> ?dir) (fork ?dir ?inner ?C ?outer) n ?other"
    by (simp_all add: fork_def)
  have path: "path_shape t (Some ?C) ((\<not> ?dir, n, ?other) # c)" using "3.prems"(1) S by auto
  have sub: "shape t (Some n) (\<not> ?dir) (Some ?C) (fork (\<not> \<not> ?dir) ?inner ?C ?outer)"
    using S unfolding not_not Cs by auto
  have dist: "distinct (inorder (plug ((\<not> ?dir, n, ?other) # c) (fork (\<not> \<not> ?dir) ?inner ?C ?outer)))"
    using "3.prems"(3) unfolding nd not_not plug.simps .
  note rot = rotate1_shape [OF path sub dist, unfolded not_not]
  have read: "read_slot_t (path_slot c) t = Some n" by (rule path_slot_read [OF "3.prems"(1)])
  have D: "a \<noteq> n" "b \<noteq> n" "a \<noteq> b" "a \<notin> path_nodes c" "b \<notin> path_nodes c" "n \<notin> path_nodes c"
     "n \<notin> set_tree ?inner" "?C \<notin> set_tree ?inner" "set_tree ?inner \<inter> path_nodes c = {}"
    using "3.prems"(3) unfolding distinct_plug by (auto split: if_split_asm)
  define q where "q = tn_child ?dir (tnodes t ?C)"
  have "shape t (Some ?C) ?dir q ?inner" using sub unfolding not_not shape_fork q_def by simp
  then have q: "z \<in> set_tree ?inner" if "q = Some z" for z using that shape_root_in by simp
  have G: "z \<in> path_nodes c" if "path_parent c = Some z" for z using that by (cases c rule: path_slot.cases) auto
  have "sink1 (path_slot c) n ?C ?dir t = ?t"
  proof (rule sink1_rotate1 [OF "3.prems"(1) S(1,2)])
    show "tn_child (\<not> ?dir) (tnodes t n) = Some ?C" "tn_dir (tnodes t ?C) = (\<not> ?dir)" using S by auto
    show "tn_child ?dir (tnodes t ?C) = q" by (simp only: q_def)
    show "q \<noteq> Some ?C" "q \<noteq> Some n" using q D by blast+
    show "?C \<noteq> n" using D by simp
    show "path_parent c \<noteq> Some ?C" "path_parent c \<noteq> Some n" using G D by auto
    show "path_parent c = None \<or> path_parent c \<noteq> q" using G q D(9) by (cases "path_parent c") auto
  qed
  then have step: "tree_remove_at (path_slot c) n t = tree_remove_at (path_slot ((?dir, ?C, ?outer) # c)) n ?t"
    using read S fun_cong [OF "3.prems"(4), of a] fun_cong [OF "3.prems"(4), of b]
    by (subst tree_remove_at_unfold) (simp add: tn_child_dirs Let_def)
  have p': "path_shape ?t (Some n) ((?dir, ?C, ?outer) # c)"
    and s': "shape ?t (Some ?C) ?dir (Some n) (fork (\<not> ?dir) ?inner n ?other)"
    using rot unfolding shape_fork by auto
  have d': "distinct (inorder (plug ((?dir, ?C, ?outer) # c) (fork (\<not> ?dir) ?inner n ?other)))"
    using dist unfolding not_not plug.simps distinct_plug distinct_fork set_fork by blast
  have pr': "pr = (\<lambda>z. tn_priority (tnodes ?t z))" using rot "3.prems"(4) by auto
  define t1 where "t1 = ?t"
  have frame: "tnodes t1 z = tnodes t z" if "z \<notin> path_nodes c" "z \<notin> set_tree (Node (Node ll a lr) n (Node rl b rr))" for z
  proof -
    have "z \<notin> insert ?C (insert n (set_tree ?inner \<union> path_nodes c))" using that by auto
    then show ?thesis using rot unfolding t1_def by blast
  qed
  note facts = p' [folded t1_def] s' [folded t1_def] d' pr' [folded t1_def] and step' = step [folded t1_def]
  show ?case
  proof (cases ?dir)
    case True
    then have "path_shape t1 (Some n) ((True, a, ll) # c)"
      "shape t1 (path_parent ((True, a, ll) # c)) (path_dir ((True, a, ll) # c)) (Some n) (Node lr n (Node rl b rr))"
      "distinct (inorder (plug ((True, a, ll) # c) (Node lr n (Node rl b rr))))"
      using facts by (simp_all only: if_True path_parent.simps path_dir.simps fork_def not_True_eq_False if_False)
    from "3.IH"(1) [OF True this facts(4)] obtain t' where t': "tree_remove_at (path_slot ((True, a, ll) # c)) n t1 = Some t'"
      "shape t' None False (troot t') (plug ((True, a, ll) # c) (join_trees pr lr (Node rl b rr)))" "\<forall>z. tn_priority (tnodes t' z) = pr z"
      "\<forall>z. z \<notin> path_nodes ((True, a, ll) # c) \<longrightarrow> z \<notin> set_tree (Node lr n (Node rl b rr)) \<longrightarrow> tnodes t' z = tnodes t1 z"
      by blast
    have "tnodes t' z = tnodes t z" if "z \<notin> path_nodes c" "z \<notin> set_tree (Node (Node ll a lr) n (Node rl b rr))" for z
      using that t'(4) frame by simp
    then show ?thesis using t'(1-3) True unfolding step' by (auto simp add: fork_def)
  next
    case False
    then have "path_shape t1 (Some n) ((False, b, rr) # c)"
      "shape t1 (path_parent ((False, b, rr) # c)) (path_dir ((False, b, rr) # c)) (Some n) (Node (Node ll a lr) n rl)"
      "distinct (inorder (plug ((False, b, rr) # c) (Node (Node ll a lr) n rl)))"
      using facts by (simp_all only: if_False path_parent.simps path_dir.simps fork_def not_False_eq_True if_True)
    from "3.IH"(2) [OF False this facts(4)] obtain t' where t': "tree_remove_at (path_slot ((False, b, rr) # c)) n t1 = Some t'"
      "shape t' None False (troot t') (plug ((False, b, rr) # c) (join_trees pr (Node ll a lr) rl))" "\<forall>z. tn_priority (tnodes t' z) = pr z"
      "\<forall>z. z \<notin> path_nodes ((False, b, rr) # c) \<longrightarrow> z \<notin> set_tree (Node (Node ll a lr) n rl) \<longrightarrow> tnodes t' z = tnodes t1 z"
      by blast
    have "tnodes t' z = tnodes t z" if "z \<notin> path_nodes c" "z \<notin> set_tree (Node (Node ll a lr) n (Node rl b rr))" for z
      using that t'(4) frame by simp
    then show ?thesis using t'(1-3) False unfolding step' by (auto simp add: fork_def)
  qed
qed

lemma treap_remove_sequence:
  assumes tr: "treap_of t tr" and io: "inorder tr = xs @ n # ys"
  shows "\<exists>t' tr'. tree_remove n t = Some t' \<and> treap_of t' tr' \<and> inorder tr' = xs @ ys \<and> tnodes t' n = null_node
    \<and> (\<forall>z. z \<notin> set_tree tr \<longrightarrow> tnodes t' z = tnodes t z)"
proof -
  have "n \<in> set_tree tr" using io by (simp flip: set_inorder)
  then obtain c l r where c: "tr = plug c (Node l n r)" using find_path by blast
  let ?pr = "\<lambda>z. tn_priority (tnodes t z)"
  have dist: "distinct (inorder (plug c (Node l n r)))" using tr by (simp add: treap_of_def tree_of_def c)
  obtain q where "path_shape t q c" "shape t (path_parent c) (path_dir c) q (Node l n r)"
    using tr shape_plug [of t c "Node l n r"] unfolding treap_of_def tree_of_def c by blast
  then have sh: "path_shape t (Some n) c" "shape t (path_parent c) (path_dir c) (Some n) (Node l n r)" by simp_all
  from remove_at_join [OF sh dist refl] obtain t' where t': "tree_remove_at (path_slot c) n t = Some t'"
    "shape t' None False (troot t') (plug c (join_trees ?pr l r))" "\<forall>z. tn_priority (tnodes t' z) = ?pr z"
    "\<forall>z. z \<notin> path_nodes c \<longrightarrow> z \<notin> set_tree (Node l n r) \<longrightarrow> tnodes t' z = tnodes t z" by blast
  let ?t = "upd_node n (\<lambda>_. null_node) t'" and ?tr = "plug c (join_trees ?pr l r)"
  have slot: "(case tn_parent (tnodes t n) of Some p \<Rightarrow> ChildSlot p (tn_dir (tnodes t n)) | None \<Rightarrow> RootSlot) = path_slot c"
    using sh(2) by (cases c rule: path_slot.cases) auto
  have "troot t \<noteq> None" using tr io by (cases tr) (auto simp: treap_of_def tree_of_def)
  then have run: "tree_remove n t = Some ?t" using slot t'(1) by (simp add: tree_remove_def)
  note sp = split_at_node [OF dist io [unfolded c]]
  have io': "inorder ?tr = xs @ ys" by (simp add: inorder_plug inorder_join sp)
  have d': "distinct (inorder ?tr)" using dist by (auto simp: inorder_plug inorder_join)
  have n: "n \<notin> set_tree ?tr" using dist unfolding distinct_plug by (auto simp: set_join)
  have "shape ?t None False (troot t') ?tr = shape t' None False (troot t') ?tr"
    by (rule shape_cong) (use n in auto)
  moreover have "heap_tree (\<lambda>z. tn_priority (tnodes ?t z)) ?tr = heap_tree ?pr ?tr"
    by (rule heap_tree_cong) (use n t'(3) in auto)
  moreover have "heap_tree ?pr ?tr"
  proof -
    have h: "heap_tree ?pr l" "heap_tree ?pr r" "heap_path ?pr c (set_tree (Node l n r))"
      using tr unfolding treap_of_def c heap_plug by simp_all
    have "heap_path ?pr c (set_tree (join_trees ?pr l r))"
      by (rule heap_path_mono [OF h(3)]) (auto simp: set_join)
    then show ?thesis unfolding heap_plug using heap_join [OF h(1,2)] by simp
  qed
  ultimately have "treap_of ?t ?tr" using t'(2) d' by (simp add: treap_of_def tree_of_def)
  moreover have "tnodes ?t z = tnodes t z" if "z \<notin> set_tree tr" for z
    using that t'(4) by (auto simp: c)
  ultimately show ?thesis using run io' by auto
qed


text \<open>C37. Removing a node: it leaves a tree with the same order of the other nodes, in which no priority is
  above that of an ancestor, and its own fields are cleared; no assertion fails and no other node outside the
  tree is touched.\<close>

theorem treap_remove:
  assumes "treap_of t tr" "inorder tr = xs @ n # ys"
  shows "\<exists>t' tr'. tree_remove n t = Some t' \<and> treap_of t' tr' \<and> inorder tr' = xs @ ys \<and> tnodes t' n = null_node
    \<and> (\<forall>z. z \<notin> set_tree tr \<longrightarrow> tnodes t' z = tnodes t z)"
  using assms by (rule treap_remove_sequence)

text \<open>C11. Inserting a node: on a free side of any node of the tree, it ends up next to that node in the order,
  before it on the left side and behind it on the right; whatever its priority, the rotations keep the order
  and no priority is above that of an ancestor; no assertion fails.\<close>

theorem treap_insert:
  assumes tr: "treap_of t tr" and io: "inorder tr = xs @ p # ys" and free: "tn_child dir (tnodes t p) = None"
    and new: "child \<notin> set_tree tr" "tn_parent (tnodes t child) = None"
  shows "\<exists>t' tr'. insert_at (Some p) dir child t = Some t' \<and> treap_of t' tr'
    \<and> inorder tr' = xs @ (if dir then [p, child] else [child, p]) @ ys
    \<and> (\<forall>z. z \<notin> set_tree tr' \<longrightarrow> tnodes t' z = tnodes t z)"
proof -
  have "p \<in> set_tree tr" using io by (simp flip: set_inorder)
  then obtain c l r where c: "tr = plug c (Node l p r)" using find_path by blast
  obtain q where "path_shape t q c" "shape t (path_parent c) (path_dir c) q (Node l p r)"
    using tr shape_plug [of t c "Node l p r"] unfolding treap_of_def tree_of_def c by blast
  then have "(if dir then r else l) = Leaf" using free by (cases l; cases r; cases dir) auto
  then have f: "Node l p r = fork dir Leaf p (if dir then l else r)" by (auto simp: fork_def)
  have dist: "distinct (inorder (plug c (Node l p r)))" using tr by (simp add: treap_of_def tree_of_def c)
  note sp = split_at_node [OF dist io [unfolded c]]
  show ?thesis
    using insert_at_node [OF tr [unfolded c f] new(1) [unfolded c f] new(2)] sp f
    by (cases dir) (auto simp: fork_def)
qed

definition small_treap :: ttree where
  "small_treap = \<lparr>tnodes = (\<lambda>_. null_node)(1 := null_node\<lparr>tn_left := Some 2, tn_priority := 7\<rparr>,
     2 := null_node\<lparr>tn_parent := Some 1, tn_priority := 3\<rparr>), troot = Some 1, rng_state = 0\<rparr>"

lemma small_treap: "treap_of small_treap (Node (Node Leaf 2 Leaf) 1 Leaf)"
  by (simp add: treap_of_def tree_of_def small_treap_def null_node_def tn_child_def)

lemma treap_insert_witness:
  "\<exists>t' tr'. insert_at (Some 2) True 5 small_treap = Some t' \<and> treap_of t' tr' \<and> inorder tr' = [2, 5, 1]"
  using treap_insert [OF small_treap, of "[]" 2 "[1]" True 5]
  by (auto simp: small_treap_def null_node_def tn_child_def)

lemma treap_remove_witness:
  "\<exists>t' tr'. tree_remove 1 small_treap = Some t' \<and> treap_of t' tr' \<and> inorder tr' = [2] \<and> tnodes t' 1 = null_node"
  using treap_remove [OF small_treap, of "[2]" 1 "[]"] by auto

section \<open>An interface: ordered sequences of nodes\<close>

text \<open>What the clients of the tree rely on: a store holds a sequence of nodes, which can be walked from the
  first on, and from which any node can be removed.\<close>

locale node_sequence =
  fixes holds :: "'s \<Rightarrow> 'n list \<Rightarrow> bool"
    and first_node :: "'s \<Rightarrow> 'n option option"
    and next_node :: "'n \<Rightarrow> 's \<Rightarrow> 'n option option"
    and drop_node :: "'n \<Rightarrow> 's \<Rightarrow> 's option"
  assumes first_law: "holds s xs \<Longrightarrow> first_node s = Some (first_or None xs)"
    and next_law: "holds s (xs @ x # ys) \<Longrightarrow> next_node x s = Some (first_or None ys)"
    and drop_law: "holds s (xs @ x # ys) \<Longrightarrow> \<exists>s'. drop_node x s = Some s' \<and> holds s' (xs @ ys)"

text \<open>The walk of a client: \<open>for (n = begin(); n; n = n->next())\<close>, with the nodes seen.\<close>

fun walk_from :: "nat \<Rightarrow> ('n \<Rightarrow> 's \<Rightarrow> 'n option option) \<Rightarrow> 's \<Rightarrow> 'n option \<Rightarrow> 'n list option" where
  "walk_from fuel nx s None = Some []"
| "walk_from 0 nx s (Some n) = None"
| "walk_from (Suc fuel) nx s (Some n) = do { m \<leftarrow> nx n s; ns \<leftarrow> walk_from fuel nx s m; Some (n # ns) }"

context node_sequence
begin

lemma walk_rest: "holds s (xs @ ys) \<Longrightarrow> length ys \<le> fuel \<Longrightarrow> walk_from fuel next_node s (first_or None ys) = Some ys"
proof (induction ys arbitrary: xs fuel)
  case Nil
  then show ?case by (cases fuel) simp_all
next
  case (Cons y ys)
  then obtain f where f: "fuel = Suc f" "length ys \<le> f" by (cases fuel) auto
  have "walk_from f next_node s (first_or None ys) = Some ys" using Cons.IH [of "xs @ [y]"] Cons.prems f by simp
  then show ?case using next_law [OF Cons.prems(1)] f by simp
qed

lemma walk_all: "holds s xs \<Longrightarrow> \<exists>n. first_node s = Some n \<and> walk_from (length xs) next_node s n = Some xs"
  using walk_rest [of s "[]" xs] first_law by auto

lemma drop_all: "holds s (xs @ ys) \<Longrightarrow> \<exists>s'. foldl (\<lambda>r x. Option.bind r (drop_node x)) (Some s) xs = Some s' \<and> holds s' ys"
proof (induction xs arbitrary: s)
  case Nil
  then show ?case by simp
next
  case (Cons x xs)
  from drop_law [of s "[]" x "xs @ ys"] Cons.prems obtain s1 where "drop_node x s = Some s1" "holds s1 (xs @ ys)" by auto
  with Cons.IH show ?case by auto
qed

end

definition treap_holds :: "ttree \<Rightarrow> nat list \<Rightarrow> bool" where
  "treap_holds t xs \<longleftrightarrow> (\<exists>tr. treap_of t tr \<and> inorder tr = xs)"

interpretation treap: node_sequence treap_holds tree_begin tree_next tree_remove
proof
  show "treap_holds s xs \<Longrightarrow> tree_begin s = Some (first_or None xs)" for s xs
    using tree_begin_first by (auto simp: treap_holds_def treap_of_def)
  show "treap_holds s (xs @ x # ys) \<Longrightarrow> tree_next x s = Some (first_or None ys)" for s xs x ys
    using tree_next_successor by (auto simp: treap_holds_def treap_of_def)
  show "treap_holds s (xs @ x # ys) \<Longrightarrow> \<exists>s'. tree_remove x s = Some s' \<and> treap_holds s' (xs @ ys)" for s xs x ys
    using treap_remove_sequence [of s _ xs x ys] unfolding treap_holds_def by blast
qed

text \<open>C38. Walking a tree from \<open>begin\<close> by \<open>next\<close> ends, and visits every node exactly once, in the order of the
  tree.\<close>

theorem treap_walk:
  assumes "treap_of t tr"
  shows "\<exists>n. tree_begin t = Some n \<and> walk_from (length (inorder tr)) tree_next t n = Some (inorder tr)"
  using treap.walk_all [of t "inorder tr"] assms by (auto simp: treap_holds_def)

lemma treap_walk_witness:
  "tree_begin small_treap = Some (Some 2) \<and> walk_from 2 tree_next small_treap (Some 2) = Some [2, 1]"
  using treap_walk [OF small_treap] tree_begin_first [of small_treap] small_treap by (auto simp: treap_of_def numeral_2_eq_2)

end
