(* ===== verification/Ipc.thy ===== *)
theory Ipc
  imports Interrupt Memory Treap
begin

text \<open>
  Inter-process calls: \<open>kernel/src/user/ipc.cxx\<close>.

  A server has up to five channels. Callers and listeners meet on a channel: whoever comes first waits in
  the channel's queue, whose state says which side is waiting. A call transfers registers or a string to the
  listener and leaves the caller in state \<open>CALLING\<close> until the listener responds.

  The machine is a parameter: the address translation of each address space (for the string copies), the
  base of the direct map, and the addresses the idle context uses. Servers are numbered; a freed server is
  \<open>None\<close>, and using it is the undefined behaviour \<open>None\<close> of the operations.
\<close>

section \<open>State\<close>

record machine =
  m_translate :: "u64 \<Rightarrow> translation"
  m_virt_to_phys :: "u64 \<Rightarrow> u64 \<Rightarrow> u64"
  m_hhdm :: u64
  m_idle_rip :: u64
  m_kernel_stack :: u64

datatype channel_state = CH_EMPTY | CH_LISTENING | CH_CALLING

record ipc_server =
  transfer_map :: "u8 list"
  channel_count :: nat
  closed_call :: bool
  closed_listen :: bool
  channels :: "nat \<Rightarrow> channel_state"

record ipc_world =
  pw_kernel :: kernel
  pw_servers :: "nat \<Rightarrow> ipc_server option"
  pw_mem :: bytes

definition TRANSFER_MAX :: nat where "TRANSFER_MAX = 5"

definition IPC_CLASS_MASK :: u32 where "IPC_CLASS_MASK = 0xffff0000"
definition IPC_SYSTEM_READ :: u64 where "IPC_SYSTEM_READ = 0x100"
definition IPC_SYSTEM_WRITE :: u64 where "IPC_SYSTEM_WRITE = 0x200"
definition IPC_CALL_TXSTR :: u64 where "IPC_CALL_TXSTR = 0x01"
definition IPC_CALL_RXSTR :: u64 where "IPC_CALL_RXSTR = 0x02"
definition IPC_CALL_FRAGMENT :: u64 where "IPC_CALL_FRAGMENT = 0x04"
definition IPC_TRANSFER_REGISTER :: nat where "IPC_TRANSFER_REGISTER = 0"
definition IPC_TRANSFER_SMALLSTR :: nat where "IPC_TRANSFER_SMALLSTR = 1"
definition IPC_TRANSFER_LARGESTR :: nat where "IPC_TRANSFER_LARGESTR = 2"
definition IPC_TRANSFER_READ :: nat where "IPC_TRANSFER_READ = 3"
definition IPC_TRANSFER_WRITE :: nat where "IPC_TRANSFER_WRITE = 4"
definition PATH_MAX :: u64 where "PATH_MAX = 4096"

text \<open>The roles of the registers: \<open>CTX_PTR\<close> is rsi, \<open>CTX_LEN\<close> rdx, \<open>CTX_MODE\<close> r10.\<close>

definition ctx_of :: "tid \<Rightarrow> ipc_world \<Rightarrow> registers" where
  "ctx_of t w = t_ctx (threads (pw_kernel w) t)"

definition on_kernel :: "(kernel \<Rightarrow> kernel) \<Rightarrow> ipc_world \<Rightarrow> ipc_world" where
  "on_kernel f w = w\<lparr>pw_kernel := f (pw_kernel w)\<rparr>"

definition with_kernel :: "(kernel \<Rightarrow> kernel option) \<Rightarrow> ipc_world \<Rightarrow> ipc_world option" where
  "with_kernel f w = do { k \<leftarrow> f (pw_kernel w); Some (w\<lparr>pw_kernel := k\<rparr>) }"

definition set_channel :: "nat \<Rightarrow> nat \<Rightarrow> channel_state \<Rightarrow> ipc_world \<Rightarrow> ipc_world" where
  "set_channel s i st w = w\<lparr>pw_servers := (pw_servers w)(s :=
     map_option (\<lambda>sv. sv\<lparr>channels := (channels sv)(i := st)\<rparr>) (pw_servers w s))\<rparr>"

definition queue_empty :: "nat \<Rightarrow> nat \<Rightarrow> ipc_world \<Rightarrow> bool" where
  "queue_empty s i w \<longleftrightarrow> q_head (queues (wait_q (pw_kernel w)) (ChanQueue s i)) = None"

section \<open>Transfers\<close>

definition call_transfer_mode :: "registers \<Rightarrow> errno + nat" where
  "call_transfer_mode ctx =
     (let call_mode = ucast (reg_r10 ctx) :: u32 in
      if call_mode AND IPC_CLASS_MASK = 0 then Inl EPERM
      else if call_mode AND ucast IPC_CALL_TXSTR \<noteq> 0 then
        (case check_user_range (reg_rsi ctx) (reg_rdx ctx) of
           Some e \<Rightarrow> Inl e
         | None \<Rightarrow> Inr (if reg_rdx ctx \<le> PATH_MAX then IPC_TRANSFER_SMALLSTR else IPC_TRANSFER_LARGESTR))
      else Inr IPC_TRANSFER_REGISTER)"

definition depart :: "machine \<Rightarrow> u64 \<Rightarrow> ipc_world \<Rightarrow> ipc_world option" where
  "depart m now = with_kernel (schedule_or_exit (m_idle_rip m) (m_kernel_stack m) now)"

definition transfer_error :: "machine \<Rightarrow> u64 \<Rightarrow> errno \<Rightarrow> tid \<Rightarrow> tid \<Rightarrow> ipc_world \<Rightarrow> ipc_world option" where
  "transfer_error m now shame guilty innocent w = do {
     let w = on_kernel (\<lambda>k. set_r0 innocent (neg_errno EIPCIO) (set_r0 guilty (neg_errno shame) k)) w;
     w \<leftarrow> with_kernel (schedule_ready guilty) w;
     w \<leftarrow> with_kernel (schedule_ready innocent) w;
     depart m now w
   }"

text \<open>\<open>copy_string\<close> either returns (\<open>Inr\<close>) or has left the kernel through \<open>transfer_error\<close> (\<open>Inl\<close>).\<close>

definition copy_string :: "machine \<Rightarrow> u64 \<Rightarrow> tid \<Rightarrow> tid \<Rightarrow> u64 \<Rightarrow> ipc_world \<Rightarrow> (ipc_world + ipc_world) option" where
  "copy_string m now source dest cnt w = do {
     let k = pw_kernel w;
     let dmap = t_page_map (threads k dest);
     let smap = t_page_map (threads k source);
     (err, mem) \<leftarrow> memcpy_user_user_catch_fault (m_translate m dmap) (m_virt_to_phys m smap) (m_hhdm m)
        (current k \<noteq> None) (reg_rsi (ctx_of dest w)) (reg_rsi (ctx_of source w)) cnt (pw_mem w);
     let checked = (check_user_range (reg_rsi (ctx_of source w)) cnt = None \<and>
                    check_user_range (reg_rsi (ctx_of dest w)) cnt = None);
     let w = w\<lparr>pw_mem := mem, pw_kernel := (if checked then k\<lparr>cr3 := dmap\<rparr> else k)\<rparr>;
     if err = 0 then Some (Inr w)
     else if err = MEMCPY_FAULT_READ then map_option Inl (transfer_error m now EFAULT source dest w)
     else map_option Inl (transfer_error m now EFAULT dest source w)
   }"

text \<open>The end of \<open>call_transfer\<close>: the listener runs its callback.\<close>

definition deliver :: "tid \<Rightarrow> tid \<Rightarrow> u64 \<Rightarrow> ipc_world \<Rightarrow> ipc_world option" where
  "deliver caller listener callback w = do {
     let w = on_kernel (set_state caller CALLING) w;
     let w = on_kernel (upd_thread listener (t_caller_update (\<lambda>_. Some caller))) w;
     let w = on_kernel (upd_ctx listener (reg_rip_update (\<lambda>_. callback))) w;
     with_kernel (cpu_context_restore_and_exit listener) w
   }"

definition deliver_string :: "machine \<Rightarrow> u64 \<Rightarrow> tid \<Rightarrow> tid \<Rightarrow> u64 \<Rightarrow> u64 \<Rightarrow> ipc_world \<Rightarrow> ipc_world option" where
  "deliver_string m now caller listener callback len w = do {
     r \<leftarrow> copy_string m now caller listener len w;
     case r of Inl w \<Rightarrow> Some w | Inr w \<Rightarrow> deliver caller listener callback w
   }"

definition call_transfer :: "machine \<Rightarrow> u64 \<Rightarrow> tid \<Rightarrow> tid \<Rightarrow> nat \<Rightarrow> ipc_world \<Rightarrow> ipc_world option" where
  "call_transfer m now caller listener mode w = do {
     kassert (state_of (pw_kernel w) caller = FLOATING);
     kassert (state_of (pw_kernel w) listener = FLOATING);
     kassert (t_caller (threads (pw_kernel w) listener) = None);
     let callback = reg_r8 (ctx_of listener w);
     let c = ctx_of caller w;
     let w = on_kernel (upd_ctx listener (\<lambda>l. l\<lparr>reg_r8 := reg_r8 c, reg_r9 := reg_r9 c\<rparr>)) w;
     let l = ctx_of listener w;
     if mode = IPC_TRANSFER_REGISTER then
       deliver caller listener callback
         (on_kernel (upd_ctx listener (\<lambda>l. l\<lparr>reg_rsi := reg_rsi c, reg_rdx := reg_rdx c, reg_r10 := reg_r10 c\<rparr>)) w)
     else if mode = IPC_TRANSFER_SMALLSTR \<or> mode = IPC_TRANSFER_LARGESTR then
       (if reg_rdx l < reg_rdx c \<and> reg_r10 c AND IPC_CALL_FRAGMENT = 0
        then transfer_error m now E2BIG caller listener w
        else let len = (if reg_rdx l < reg_rdx c then reg_rdx l else reg_rdx c) in
          deliver_string m now caller listener callback len
            (on_kernel (upd_ctx listener (\<lambda>l. l\<lparr>reg_rdx := len, reg_r10 := reg_r10 c\<rparr>)) w))
     else if mode = IPC_TRANSFER_WRITE then
       (let len = (if reg_rdx l < reg_rdx c then reg_rdx l else reg_rdx c);
            w = on_kernel (upd_ctx listener (\<lambda>l. l\<lparr>reg_rdx := len,
                  reg_r10 := IPC_SYSTEM_WRITE OR IPC_CALL_TXSTR OR IPC_CALL_FRAGMENT\<rparr>)) w;
            w = on_kernel (upd_ctx caller (reg_r10_update (\<lambda>_. 0))) w
        in deliver_string m now caller listener callback len w)
     else if mode = IPC_TRANSFER_READ then
       (let w = on_kernel (upd_ctx listener (\<lambda>l. l\<lparr>reg_rdx := reg_rdx c,
                  reg_r10 := IPC_SYSTEM_READ OR IPC_CALL_RXSTR\<rparr>)) w;
            w = on_kernel (upd_ctx caller (reg_r10_update (\<lambda>_. IPC_CALL_RXSTR))) w
        in deliver caller listener callback w)
     else None
   }"

section \<open>Calling, listening, responding\<close>

text \<open>\<open>IPC_handle::ipc_call\<close> with a transfer mode: an error code, or the kernel is left.\<close>

definition ipc_call_mode :: "machine \<Rightarrow> u64 \<Rightarrow> nat \<Rightarrow> nat \<Rightarrow> ipc_world \<Rightarrow> (errno outcome \<times> ipc_world) option" where
  "ipc_call_mode m now s mode w = do {
     sv \<leftarrow> pw_servers w s;
     if closed_listen sv then Some (Returned EPIPE, w)
     else do {
       kassert (\<not> closed_call sv);
       let id = unat (transfer_map sv ! mode);
       if id = 0 then Some (Returned EIPCNX, w)
       else do {
         let i = id - 1;
         (caller, k) \<leftarrow> cpu_context_save (pw_kernel w);
         let w = w\<lparr>pw_kernel := upd_ctx caller (reg_rdi_update (\<lambda>_. word_of_nat mode)) k\<rparr>;
         w \<leftarrow> (case channels sv i of
            CH_EMPTY \<Rightarrow> do {
              kassert (queue_empty s i w);
              let w = set_channel s i CH_CALLING w;
              w \<leftarrow> with_kernel (push_into caller (ChanQueue s i)) w;
              depart m now w
            }
          | CH_LISTENING \<Rightarrow> do {
              (r, k) \<leftarrow> pop_from (ChanQueue s i) (pw_kernel w);
              listener \<leftarrow> r;
              let w = w\<lparr>pw_kernel := k\<rparr>;
              let w = (if queue_empty s i w then set_channel s i CH_EMPTY w else w);
              call_transfer m now caller listener mode w
            }
          | CH_CALLING \<Rightarrow> do {
              kassert (\<not> queue_empty s i w);
              w \<leftarrow> with_kernel (push_into caller (ChanQueue s i)) w;
              depart m now w
            });
         Some (Departed, w)
       }
     }
   }"

text \<open>\<open>IPC::listen\<close>. A channel id of zero passes the test and indexes \<open>channels[-1]\<close>: the model stops there.\<close>

definition ipc_listen :: "machine \<Rightarrow> u64 \<Rightarrow> nat \<Rightarrow> registers \<Rightarrow> ipc_world \<Rightarrow> (errno outcome \<times> ipc_world) option" where
  "ipc_listen m now s ctx w = do {
     sv \<leftarrow> pw_servers w s;
     if closed_call sv then Some (Returned EPIPE, w)
     else do {
       kassert (\<not> closed_listen sv);
       let id = unat (reg_r10 ctx);
       if channel_count sv < id then Some (Returned EINVAL, w)
       else do {
         kassert (id \<noteq> 0);
         let i = id - 1;
         (listener, k) \<leftarrow> cpu_context_save (pw_kernel w);
         let w = w\<lparr>pw_kernel := k\<rparr>;
         w \<leftarrow> (case channels sv i of
            CH_EMPTY \<Rightarrow> do {
              kassert (queue_empty s i w);
              let w = set_channel s i CH_LISTENING w;
              w \<leftarrow> with_kernel (push_into listener (ChanQueue s i)) w;
              depart m now w
            }
          | CH_LISTENING \<Rightarrow> do {
              kassert (\<not> queue_empty s i w);
              w \<leftarrow> with_kernel (push_into listener (ChanQueue s i)) w;
              depart m now w
            }
          | CH_CALLING \<Rightarrow> do {
              (r, k) \<leftarrow> pop_from (ChanQueue s i) (pw_kernel w);
              caller \<leftarrow> r;
              let w = w\<lparr>pw_kernel := k\<rparr>;
              let w = (if queue_empty s i w then set_channel s i CH_EMPTY w else w);
              call_transfer m now caller listener (unat (reg_rdi (ctx_of caller w))) w
            });
         Some (Departed, w)
       }
     }
   }"

definition response_error :: "tid \<Rightarrow> errno \<Rightarrow> ipc_world \<Rightarrow> ((errno + unit) outcome \<times> ipc_world) option" where
  "response_error caller shame w = do {
     w \<leftarrow> with_kernel (schedule_ready caller) (on_kernel (set_r0 caller (neg_errno EIPCIO)) w);
     Some (Returned (Inl shame), w)
   }"

definition ipc_respond :: "machine \<Rightarrow> u64 \<Rightarrow> registers \<Rightarrow> ipc_world \<Rightarrow> ((errno + unit) outcome \<times> ipc_world) option" where
  "ipc_respond m now rctx w = do {
     self \<leftarrow> current (pw_kernel w);
     let r = t_caller (threads (pw_kernel w) self);
     let w = on_kernel (upd_thread self (t_caller_update (\<lambda>_. None))) w;
     case r of
       None \<Rightarrow> Some (Returned (Inl ENODEV), w)
     | Some caller \<Rightarrow> do {
         kassert (state_of (pw_kernel w) caller = CALLING);
         let w = on_kernel (set_state caller FLOATING) w;
         if reg_r10 rctx AND IPC_CALL_RXSTR = 0 then do {
           w \<leftarrow> with_kernel (schedule_ready caller)
             (on_kernel (upd_ctx caller (\<lambda>c. c\<lparr>reg_rax := reg_rdi rctx, reg_rdx := reg_rsi rctx\<rparr>)) w);
           Some (Returned (Inr ()), w)
         }
         else if reg_r10 (ctx_of caller w) AND IPC_CALL_RXSTR = 0 then response_error caller EINVAL w
         else if reg_rdx (ctx_of caller w) < reg_rdx rctx then response_error caller E2BIG w
         else do {
           let len = reg_rdx rctx;
           (responder, k) \<leftarrow> cpu_context_save (pw_kernel w);
           r \<leftarrow> copy_string m now responder caller len (w\<lparr>pw_kernel := k\<rparr>);
           case r of
             Inl w \<Rightarrow> Some (Departed, w)
           | Inr w \<Rightarrow> do {
               let w = on_kernel (upd_ctx caller (\<lambda>c. c\<lparr>reg_rax := reg_rdi (ctx_of responder w), reg_rdx := len\<rparr>)) w;
               let w = on_kernel (set_r0 responder 0) w;
               w \<leftarrow> with_kernel (schedule_ready responder) w;
               w \<leftarrow> with_kernel (cpu_context_restore_and_exit caller) w;
               Some (Departed, w)
             }
         }
       }
   }"

section \<open>Entry points through a handle\<close>

definition ipc_read :: "machine \<Rightarrow> u64 \<Rightarrow> nat \<Rightarrow> ipc_world \<Rightarrow> (errno outcome \<times> ipc_world) option" where
  "ipc_read m now s = ipc_call_mode m now s IPC_TRANSFER_READ"

definition ipc_write :: "machine \<Rightarrow> u64 \<Rightarrow> nat \<Rightarrow> ipc_world \<Rightarrow> (errno outcome \<times> ipc_world) option" where
  "ipc_write m now s = ipc_call_mode m now s IPC_TRANSFER_WRITE"

definition ipc_call :: "machine \<Rightarrow> u64 \<Rightarrow> nat \<Rightarrow> registers \<Rightarrow> ipc_world \<Rightarrow> (errno outcome \<times> ipc_world) option" where
  "ipc_call m now s ctx w =
     (case call_transfer_mode ctx of
        Inl e \<Rightarrow> Some (Returned e, w)
      | Inr mode \<Rightarrow> ipc_call_mode m now s mode w)"

section \<open>Closing and creating\<close>

text \<open>The channel loops of the two \<open>close\<close> functions: waiting listeners get one code, waiting callers the
  other. The channel's state stays as it was.\<close>

fun close_channels :: "nat \<Rightarrow> errno \<Rightarrow> errno \<Rightarrow> nat list \<Rightarrow> ipc_server \<Rightarrow> ipc_world \<Rightarrow> ipc_world option" where
  "close_channels s e_listen e_call [] sv w = Some w"
| "close_channels s e_listen e_call (i # is) sv w = do {
     w \<leftarrow> (case channels sv i of
        CH_EMPTY \<Rightarrow> do { kassert (queue_empty s i w); Some w }
      | CH_LISTENING \<Rightarrow> do {
          kassert (\<not> queue_empty s i w);
          with_kernel (schedule_wake_all (ChanQueue s i) (neg_errno e_listen)) w
        }
      | CH_CALLING \<Rightarrow> do {
          kassert (\<not> queue_empty s i w);
          with_kernel (schedule_wake_all (ChanQueue s i) (neg_errno e_call)) w
        });
     close_channels s e_listen e_call is sv w
   }"

definition upd_server :: "nat \<Rightarrow> ipc_server option \<Rightarrow> ipc_world \<Rightarrow> ipc_world" where
  "upd_server s sv w = w\<lparr>pw_servers := (pw_servers w)(s := sv)\<rparr>"

definition ipc_handle_close :: "nat \<Rightarrow> ipc_world \<Rightarrow> ipc_world option" where
  "ipc_handle_close s w = do {
     sv \<leftarrow> pw_servers w s;
     let sv = sv\<lparr>closed_call := True\<rparr>;
     w \<leftarrow> close_channels s EPIPE EBADF [0..<channel_count sv] sv (upd_server s (Some sv) w);
     Some (if closed_listen sv then upd_server s None w else w)
   }"

text \<open>\<open>tree_root\<close> is the tree that links the servers a process listens on, by the node \<open>tree\<close> of each; the
  nodes are the numbers of the servers.\<close>

definition ipc_close :: "nat \<Rightarrow> ttree \<Rightarrow> ipc_world \<Rightarrow> (ttree \<times> ipc_world) option" where
  "ipc_close s tree_root w = do {
     sv \<leftarrow> pw_servers w s;
     let sv = sv\<lparr>closed_listen := True\<rparr>;
     w \<leftarrow> close_channels s EBADF EPIPE [0..<channel_count sv] sv (upd_server s (Some sv) w);
     tree_root \<leftarrow> tree_remove s tree_root;
     Some (tree_root, if closed_call sv then upd_server s None w else w)
   }"

fun scan_transfers :: "u8 list \<Rightarrow> nat \<Rightarrow> errno + nat" where
  "scan_transfers [] mx = Inr mx"
| "scan_transfers (ch # chs) mx =
     (if ch = 0 then scan_transfers chs mx
      else if word_of_nat TRANSFER_MAX < ch then Inl EINVAL
      else scan_transfers chs (if mx < unat ch then unat ch else mx))"

definition ipc_create :: "bool \<Rightarrow> u8 list \<Rightarrow> errno + ipc_server" where
  "ipc_create mem_ok transfers =
     (case scan_transfers transfers 0 of
        Inl e \<Rightarrow> Inl e
      | Inr mx \<Rightarrow>
          (if mem_ok then Inr \<lparr>transfer_map = transfers, channel_count = mx, closed_call = False,
             closed_listen = False, channels = (\<lambda>_. CH_EMPTY)\<rparr>
           else Inl ENOMEM))"

section \<open>The invariant of calls\<close>

text \<open>Every pending caller is in state \<open>CALLING\<close> and owed an answer by one thread only.\<close>

definition callers_ok :: "kernel \<Rightarrow> bool" where
  "callers_ok k \<longleftrightarrow> (\<forall>t cl. t_caller (threads k t) = Some cl \<longrightarrow> state_of k cl = CALLING \<and>
     (\<forall>t'. t_caller (threads k t') = Some cl \<longrightarrow> t' = t))"

text \<open>The state of a channel says what its queue holds, as long as neither end is closed: listeners without
  a pending caller, or callers whose transfer mode is in their first argument register. Channel waits have no
  timeout.\<close>

definition channel_ok :: "kernel \<Rightarrow> channel_state \<Rightarrow> tid list \<Rightarrow> bool" where
  "channel_ok k st ts \<longleftrightarrow> (case st of
     CH_EMPTY \<Rightarrow> ts = []
   | CH_LISTENING \<Rightarrow> ts \<noteq> [] \<and> (\<forall>t\<in>set ts. t_caller (threads k t) = None)
   | CH_CALLING \<Rightarrow> ts \<noteq> [] \<and> (\<forall>t\<in>set ts. unat (reg_rdi (t_ctx (threads k t))) < TRANSFER_MAX))"

definition server_ok :: "kernel \<Rightarrow> (nat \<Rightarrow> tid list) \<Rightarrow> ipc_server \<Rightarrow> bool" where
  "server_ok k qs sv \<longleftrightarrow> length (transfer_map sv) = TRANSFER_MAX \<and>
     (\<forall>i. channel_ok k (channels sv i) (qs i))"

definition chans_ok :: "(nat \<Rightarrow> ipc_server option) \<Rightarrow> kernel \<Rightarrow> (qid \<Rightarrow> tid list) \<Rightarrow> tid list \<Rightarrow> bool" where
  "chans_ok srv k c xs \<longleftrightarrow> (\<forall>s i t. t \<in> set (c (ChanQueue s i)) \<longrightarrow> t \<notin> set xs) \<and>
     (\<forall>s sv. srv s = Some sv \<and> \<not> closed_call sv \<and> \<not> closed_listen sv \<longrightarrow> server_ok k (\<lambda>i. c (ChanQueue s i)) sv)"

definition ipc_inv :: "ipc_world \<Rightarrow> (qid \<Rightarrow> tid list) \<Rightarrow> tid list \<Rightarrow> bool" where
  "ipc_inv w c xs \<longleftrightarrow> sched_inv (pw_kernel w) c xs \<and> callers_ok (pw_kernel w) \<and> chans_ok (pw_servers w) (pw_kernel w) c xs"

lemma channel_ok_cong:
  "channel_ok k st ts \<Longrightarrow> (\<And>t. t \<in> set ts \<Longrightarrow> t_caller (threads k' t) = t_caller (threads k t) \<and>
     t_ctx (threads k' t) = t_ctx (threads k t)) \<Longrightarrow> channel_ok k' st ts"
  by (cases st) (auto simp: channel_ok_def)

lemma chans_ok_cong:
  assumes ok: "chans_ok srv k c xs" and c: "\<And>s i. c' (ChanQueue s i) = c (ChanQueue s i)" and xs: "set xs' \<subseteq> set xs"
    and f: "\<And>s i t. t \<in> set (c (ChanQueue s i)) \<Longrightarrow> t_caller (threads k' t) = t_caller (threads k t) \<and>
      t_ctx (threads k' t) = t_ctx (threads k t)"
  shows "chans_ok srv k' c' xs'"
proof -
  have "server_ok k' (\<lambda>i. c' (ChanQueue s i)) sv" if "srv s = Some sv" "\<not> closed_call sv" "\<not> closed_listen sv" for s sv
  proof -
    have "server_ok k (\<lambda>i. c (ChanQueue s i)) sv" using ok that by (simp add: chans_ok_def)
    then have "length (transfer_map sv) = TRANSFER_MAX" and ck: "channel_ok k (channels sv i) (c (ChanQueue s i))" for i
      by (simp_all add: server_ok_def)
    moreover have "channel_ok k' (channels sv i) (c (ChanQueue s i))" for i
      by (rule channel_ok_cong [OF ck]) (rule f)
    ultimately show ?thesis unfolding server_ok_def c by blast
  qed
  moreover have "\<forall>s i t. t \<in> set (c' (ChanQueue s i)) \<longrightarrow> t \<notin> set xs'"
    using ok xs unfolding chans_ok_def c by blast
  ultimately show ?thesis unfolding chans_ok_def by blast
qed

lemma callers_ok_cong:
  assumes "callers_ok k" and "\<And>t. t_caller (threads k' t) = t_caller (threads k t)"
    and "\<And>t. state_of k' t = CALLING \<longleftrightarrow> state_of k t = CALLING"
  shows "callers_ok k'"
  using assms(1) unfolding callers_ok_def assms(2,3) .

lemma waiting_state:
  assumes "sched_inv k c xs" and "t \<in> set (c (ChanQueue s i))"
  shows "state_of k t = WAITING"
  using states_okD(1) [of "state_of k" "current k" c xs t "ChanQueue s i"] assms by (simp add: sched_inv_def)

lemma queue_empty_iff:
  assumes "sched_inv (pw_kernel w) c xs"
  shows "queue_empty s i w \<longleftrightarrow> c (ChanQueue s i) = []"
proof -
  have "is_queue (wait_q (pw_kernel w)) (ChanQueue s i) (c (ChanQueue s i))"
    using assms by (simp add: sched_inv_def queue_rep_def)
  then show ?thesis by (simp add: queue_empty_def is_queue_def)
qed

lemma idle_exit:
  assumes "sched_inv k c xs" and "current k = None"
  shows "\<exists>k'. cpu_exit_idle r s k = Some k' \<and> sched_inv k' c xs \<and> threads k' = threads k \<and> current k' = None"
  using assms by (simp add: cpu_exit_idle_def sched_inv_def links_ok_def modes_ok_def)

text \<open>Leaving the kernel keeps the invariant.\<close>

lemma depart_inv:
  assumes inv: "ipc_inv w c xs" and cur: "current (pw_kernel w) = None"
  shows "\<exists>w' c' xs'. depart m now w = Some w' \<and> ipc_inv w' c' xs' \<and> pw_servers w' = pw_servers w \<and> pw_mem w' = pw_mem w \<and>
    (\<forall>x. t_caller (threads (pw_kernel w') x) = t_caller (threads (pw_kernel w) x) \<and>
      t_ctx (threads (pw_kernel w') x) = t_ctx (threads (pw_kernel w) x) \<and>
      (state_of (pw_kernel w') x = CALLING \<longleftrightarrow> state_of (pw_kernel w) x = CALLING))"
proof -
  let ?k = "pw_kernel w"
  have s: "sched_inv ?k c xs" and co: "callers_ok ?k" and ch: "chans_ok (pw_servers w) ?k c xs"
    using inv by (simp_all add: ipc_inv_def)
  define ws where "ws = takeWhile (\<lambda>t. ns_of ?k t < now) xs"
  define rest where "rest = dropWhile (\<lambda>t. ns_of ?k t < now) xs"
  define rq where "rq = c RunQueue @ ws"
  have sub: "set ws \<subseteq> set xs" "set rest \<subseteq> set xs"
    by (auto simp: ws_def rest_def dest: set_takeWhileD set_dropWhileD)
  have "\<exists>k' c' xs'. schedule_or_exit (m_idle_rip m) (m_kernel_stack m) now ?k = Some k' \<and> sched_inv k' c' xs' \<and> tframe ?k k' \<and>
      (\<forall>s i. c' (ChanQueue s i) = c (ChanQueue s i)) \<and> set xs' \<subseteq> set xs"
  proof (cases "rq = []")
    case True
    obtain k1 where k1: "schedule now ?k = Some (False, k1)" "tframe ?k k1" "sched_inv k1 c rest" "current k1 = None"
      using schedule_inv [OF s ws_def rest_def rq_def] True cur by auto
    obtain k' where k': "cpu_exit_idle (m_idle_rip m) (m_kernel_stack m) k1 = Some k'" "sched_inv k' c rest" "threads k' = threads k1"
      using idle_exit [OF k1(3,4)] by blast
    have "tframe ?k k'" using k1(2) k'(3) by (simp add: tframe_def)
    then show ?thesis using k1(1) k'(1,2) sub(2) by (auto simp: schedule_or_exit_def)
  next
    case False
    obtain k' where k': "schedule now ?k = Some (True, k')" "tframe ?k k'"
      "sched_inv k' ((woken_queues c ws)(RunQueue := tl rq @ (case current ?k of None \<Rightarrow> [] | Some r \<Rightarrow> [r]))) rest"
      using schedule_inv [OF s ws_def rest_def rq_def] False by auto
    let ?c = "(woken_queues c ws)(RunQueue := tl rq @ (case current ?k of None \<Rightarrow> [] | Some r \<Rightarrow> [r]))"
    have "?c (ChanQueue s i) = c (ChanQueue s i)" for s i
    proof -
      have "t \<notin> set ws" if "t \<in> set (c (ChanQueue s i))" for t using ch that sub(1) unfolding chans_ok_def by blast
      then show ?thesis by (auto simp: woken_queues_def intro: filter_True)
    qed
    moreover have "schedule_or_exit (m_idle_rip m) (m_kernel_stack m) now ?k = Some k'" using k'(1) by (simp add: schedule_or_exit_def)
    ultimately show ?thesis using k'(2,3) sub(2) by blast
  qed
  then obtain k' c' xs' where k': "schedule_or_exit (m_idle_rip m) (m_kernel_stack m) now ?k = Some k'" "sched_inv k' c' xs'"
    "tframe ?k k'" "\<And>s i. c' (ChanQueue s i) = c (ChanQueue s i)" "set xs' \<subseteq> set xs" by blast
  have f: "t_caller (threads k' x) = t_caller (threads ?k x) \<and> t_ctx (threads k' x) = t_ctx (threads ?k x) \<and>
      (state_of k' x = CALLING \<longleftrightarrow> state_of ?k x = CALLING)" for x
    using k'(3) cur by (simp add: tframe_def)
  have "callers_ok k'" by (rule callers_ok_cong [OF co]) (use f in blast)+
  moreover have "chans_ok (pw_servers w) k' c' xs'"
    by (rule chans_ok_cong [OF ch k'(4,5)]) (use f in blast)
  ultimately have "ipc_inv (w\<lparr>pw_kernel := k'\<rparr>) c' xs'" using k'(2) by (simp add: ipc_inv_def)
  moreover have "depart m now w = Some (w\<lparr>pw_kernel := k'\<rparr>)" using k'(1) by (simp add: depart_def with_kernel_def)
  ultimately show ?thesis using f by (intro exI conjI allI) (assumption | simp)+
qed

text \<open>Registers of a thread that no queue holds may change freely.\<close>

lemma not_waiting:
  assumes "sched_inv k c xs" and "state_of k t \<in> {FLOATING, RUNNING, CALLING}"
  shows "t \<notin> set (c q)" "t \<notin> set xs"
  using states_idle [of "state_of k" "current k" c xs t] assms by (simp_all add: sched_inv_def)

lemma upd_ctx_inv:
  assumes inv: "ipc_inv w c xs" and t: "state_of (pw_kernel w) t \<in> {FLOATING, CALLING}" and f: "\<And>r. user_mode (f r) = user_mode r"
  shows "ipc_inv (on_kernel (upd_ctx t f) w) c xs"
proof -
  let ?k = "pw_kernel w"
  have s: "sched_inv ?k c xs" and co: "callers_ok ?k" and ch: "chans_ok (pw_servers w) ?k c xs"
    using inv by (simp_all add: ipc_inv_def)
  have nw: "t \<notin> set (c q)" for q using not_waiting(1) [OF s, of t q] t by auto
  have "sched_inv (upd_ctx t f ?k) c xs"
    using upd_ctx_core [of ?k c xs f t] s f by (simp add: sched_inv_core links_ok_def)
  moreover have "callers_ok (upd_ctx t f ?k)" by (rule callers_ok_cong [OF co]) auto
  moreover have "chans_ok (pw_servers w) (upd_ctx t f ?k) c xs"
    by (rule chans_ok_cong [OF ch refl]) (use nw in \<open>auto split: if_splits\<close>)
  ultimately show ?thesis by (simp add: ipc_inv_def on_kernel_def)
qed

lemma ready_inv:
  assumes inv: "ipc_inv w c xs" and t: "state_of (pw_kernel w) t = FLOATING" "user_mode (ctx_of t w)"
  shows "\<exists>w'. with_kernel (schedule_ready t) w = Some w' \<and> ipc_inv w' (c(RunQueue := c RunQueue @ [t])) xs \<and>
    pw_servers w' = pw_servers w \<and> pw_mem w' = pw_mem w \<and> current (pw_kernel w') = current (pw_kernel w) \<and>
    threads (pw_kernel w') = (threads (pw_kernel w))(t := (threads (pw_kernel w) t)\<lparr>t_state := READY\<rparr>)"
proof -
  let ?k = "pw_kernel w"
  have core: "core_inv ?k c xs" and l: "links_ok ?k xs" and co: "callers_ok ?k" and ch: "chans_ok (pw_servers w) ?k c xs"
    using inv by (simp_all add: ipc_inv_def sched_inv_core)
  obtain h where h: "schedule_ready t ?k = Some ((set_state t READY ?k)\<lparr>wait_q := h\<rparr>)"
    "core_inv ((set_state t READY ?k)\<lparr>wait_q := h\<rparr>) (c(RunQueue := c RunQueue @ [t])) xs"
    using schedule_ready_core [OF core t(1)] t(2) by (auto simp: ctx_of_def)
  define k' where "k' = (set_state t READY ?k)\<lparr>wait_q := h\<rparr>"
  have "sched_inv k' (c(RunQueue := c RunQueue @ [t])) xs" using h(2) l by (simp add: sched_inv_core k'_def links_ok_def)
  moreover have "callers_ok k'" by (rule callers_ok_cong [OF co]) (use t(1) in \<open>auto simp: k'_def\<close>)
  moreover have "chans_ok (pw_servers w) k' (c(RunQueue := c RunQueue @ [t])) xs"
    by (rule chans_ok_cong [OF ch]) (auto simp: k'_def)
  ultimately have "ipc_inv (w\<lparr>pw_kernel := k'\<rparr>) (c(RunQueue := c RunQueue @ [t])) xs" by (simp add: ipc_inv_def)
  then show ?thesis using h(1) by (simp add: with_kernel_def k'_def)
qed

lemma transfer_error_inv:
  assumes inv: "ipc_inv w c xs" and cur: "current (pw_kernel w) = None"
    and g: "state_of (pw_kernel w) g = FLOATING" "user_mode (ctx_of g w)"
    and i: "state_of (pw_kernel w) i = FLOATING" "user_mode (ctx_of i w)" and ne: "g \<noteq> i"
  shows "\<exists>w' c' xs'. transfer_error m now e g i w = Some w' \<and> ipc_inv w' c' xs' \<and> pw_servers w' = pw_servers w \<and>
    pw_mem w' = pw_mem w \<and> reg_rax (ctx_of g w') = neg_errno e \<and> reg_rax (ctx_of i w') = neg_errno EIPCIO"
proof -
  define w1 where "w1 = on_kernel (\<lambda>k. set_r0 i (neg_errno EIPCIO) (set_r0 g (neg_errno e) k)) w"
  have w1': "w1 = on_kernel (upd_ctx i (reg_rax_update (\<lambda>_. neg_errno EIPCIO)))
      (on_kernel (upd_ctx g (reg_rax_update (\<lambda>_. neg_errno e))) w)"
    by (simp add: w1_def on_kernel_def set_r0_def)
  have inv1: "ipc_inv w1 c xs"
    unfolding w1' by (intro upd_ctx_inv inv) (use g i in \<open>simp_all add: on_kernel_def\<close>)
  have g1: "state_of (pw_kernel w1) g = FLOATING" "user_mode (ctx_of g w1)"
    and i1: "state_of (pw_kernel w1) i = FLOATING" "user_mode (ctx_of i w1)"
    and cur1: "current (pw_kernel w1) = None" and r1: "reg_rax (ctx_of g w1) = neg_errno e" "reg_rax (ctx_of i w1) = neg_errno EIPCIO"
    using g i ne cur by (simp_all add: w1_def on_kernel_def set_r0_def ctx_of_def)
  obtain w2 where w2: "with_kernel (schedule_ready g) w1 = Some w2" "ipc_inv w2 (c(RunQueue := c RunQueue @ [g])) xs"
    "pw_servers w2 = pw_servers w1" "pw_mem w2 = pw_mem w1" "current (pw_kernel w2) = current (pw_kernel w1)"
    "threads (pw_kernel w2) = (threads (pw_kernel w1))(g := (threads (pw_kernel w1) g)\<lparr>t_state := READY\<rparr>)"
    using ready_inv [OF inv1 g1] by blast
  let ?c2 = "c(RunQueue := c RunQueue @ [g])"
  have i2: "state_of (pw_kernel w2) i = FLOATING" "user_mode (ctx_of i w2)" using i1 ne w2(6) by (simp_all add: ctx_of_def)
  obtain w3 where w3: "with_kernel (schedule_ready i) w2 = Some w3" "ipc_inv w3 (?c2(RunQueue := ?c2 RunQueue @ [i])) xs"
    "pw_servers w3 = pw_servers w2" "pw_mem w3 = pw_mem w2" "current (pw_kernel w3) = current (pw_kernel w2)"
    "threads (pw_kernel w3) = (threads (pw_kernel w2))(i := (threads (pw_kernel w2) i)\<lparr>t_state := READY\<rparr>)"
    using ready_inv [OF w2(2) i2] by blast
  have cur3: "current (pw_kernel w3) = None" using w3(5) w2(5) cur1 by simp
  obtain w' c' xs' where w': "depart m now w3 = Some w'" "ipc_inv w' c' xs'" "pw_servers w' = pw_servers w3" "pw_mem w' = pw_mem w3"
    "\<And>x. t_ctx (threads (pw_kernel w') x) = t_ctx (threads (pw_kernel w3) x)"
    using depart_inv [OF w3(2) cur3] by blast
  have "reg_rax (ctx_of g w') = neg_errno e" "reg_rax (ctx_of i w') = neg_errno EIPCIO"
    using r1 ne by (simp_all add: ctx_of_def w'(5) w3(6) w2(6))
  moreover have "transfer_error m now e g i w = Some w'"
    using w2(1) w3(1) w'(1) by (simp add: transfer_error_def w1_def [symmetric])
  moreover have "pw_servers w' = pw_servers w" "pw_mem w' = pw_mem w"
    using w'(3,4) w3(3,4) w2(3,4) by (simp_all add: w1_def on_kernel_def)
  ultimately show ?thesis using w'(2) by blast
qed

section \<open>Delivering a call\<close>

text \<open>The copy between the two parties: it succeeds, or it blames one of them and leaves.\<close>

lemma mem_inv [simp]: "ipc_inv (w\<lparr>pw_mem := mem\<rparr>) c xs = ipc_inv w c xs"
  by (simp add: ipc_inv_def)

lemma cr3_inv:
  assumes "ipc_inv w c xs"
  shows "ipc_inv (w\<lparr>pw_kernel := (pw_kernel w)\<lparr>cr3 := p\<rparr>\<rparr>) c xs"
proof -
  let ?k = "pw_kernel w"
  have s: "sched_inv ?k c xs" and co: "callers_ok ?k" and ch: "chans_ok (pw_servers w) ?k c xs"
    using assms by (simp_all add: ipc_inv_def)
  have "sched_inv (?k\<lparr>cr3 := p\<rparr>) c xs" using s by (simp add: sched_inv_def links_ok_def modes_ok_def)
  moreover have "callers_ok (?k\<lparr>cr3 := p\<rparr>)" by (rule callers_ok_cong [OF co]) simp_all
  moreover have "chans_ok (pw_servers w) (?k\<lparr>cr3 := p\<rparr>) c xs" by (rule chans_ok_cong [OF ch]) simp_all
  ultimately show ?thesis by (simp add: ipc_inv_def)
qed

lemma copy_string_inv:
  assumes inv: "ipc_inv w c xs" and cur: "current (pw_kernel w) = None"
    and g: "state_of (pw_kernel w) a = FLOATING" "user_mode (ctx_of a w)"
    and i: "state_of (pw_kernel w) b = FLOATING" "user_mode (ctx_of b w)" and ne: "a \<noteq> b"
  shows "\<exists>r. copy_string m now a b len w = Some r \<and>
    (case r of
       Inl w' \<Rightarrow> (\<exists>c' xs'. ipc_inv w' c' xs') \<and> pw_servers w' = pw_servers w \<and>
         (\<exists>g i. {g, i} = {a, b} \<and> reg_rax (ctx_of g w') = neg_errno EFAULT \<and> reg_rax (ctx_of i w') = neg_errno EIPCIO)
     | Inr w' \<Rightarrow> ipc_inv w' c xs \<and> pw_servers w' = pw_servers w \<and>
         (\<exists>mem p. w' = w\<lparr>pw_mem := mem, pw_kernel := (pw_kernel w)\<lparr>cr3 := p\<rparr>\<rparr>))"
proof -
  let ?k = "pw_kernel w"
  let ?d = "t_page_map (threads ?k b)"
  obtain err mem where cp: "memcpy_user_user_catch_fault (m_translate m ?d) (m_virt_to_phys m (t_page_map (threads ?k a))) (m_hhdm m)
        False (reg_rsi (ctx_of b w)) (reg_rsi (ctx_of a w)) len (pw_mem w) = Some (err, mem)"
      and err: "err \<in> {0, MEMCPY_FAULT_READ, MEMCPY_FAULT_WRITE}"
    using user_user_total by blast
  let ?chk = "check_user_range (reg_rsi (ctx_of a w)) len = None \<and> check_user_range (reg_rsi (ctx_of b w)) len = None"
  define w1 where "w1 = w\<lparr>pw_mem := mem, pw_kernel := (if ?chk then ?k\<lparr>cr3 := ?d\<rparr> else ?k)\<rparr>"
  have run: "copy_string m now a b len w = (if err = 0 then Some (Inr w1)
     else if err = MEMCPY_FAULT_READ then map_option Inl (transfer_error m now EFAULT a b w1)
     else map_option Inl (transfer_error m now EFAULT b a w1))"
    using cp cur by (simp add: copy_string_def Let_def w1_def)
  have same: "w\<lparr>pw_mem := mem, pw_kernel := ?k\<rparr> = (w\<lparr>pw_mem := mem\<rparr>)\<lparr>pw_kernel := ?k\<lparr>cr3 := cr3 ?k\<rparr>\<rparr>" by simp
  have eq: "\<exists>p. w1 = (w\<lparr>pw_mem := mem\<rparr>)\<lparr>pw_kernel := (pw_kernel (w\<lparr>pw_mem := mem\<rparr>))\<lparr>cr3 := p\<rparr>\<rparr>"
  proof (cases ?chk)
    case True show ?thesis unfolding w1_def if_P [OF True] by (intro exI [of _ ?d]) simp
  next
    case False show ?thesis unfolding w1_def if_not_P [OF False] by (intro exI [of _ "cr3 ?k"]) simp
  qed
  then obtain p where p: "w1 = (w\<lparr>pw_mem := mem\<rparr>)\<lparr>pw_kernel := (pw_kernel (w\<lparr>pw_mem := mem\<rparr>))\<lparr>cr3 := p\<rparr>\<rparr>" by blast
  have inv1: "ipc_inv w1 c xs" unfolding p by (rule cr3_inv) (use inv in simp)
  have f1: "current (pw_kernel w1) = None" "state_of (pw_kernel w1) a = FLOATING" "user_mode (ctx_of a w1)"
    "state_of (pw_kernel w1) b = FLOATING" "user_mode (ctx_of b w1)" "pw_servers w1 = pw_servers w"
    using cur g i by (simp_all add: p ctx_of_def)
  consider "err = 0" | "err = MEMCPY_FAULT_READ" "err \<noteq> 0" | "err = MEMCPY_FAULT_WRITE" "err \<noteq> 0" "err \<noteq> MEMCPY_FAULT_READ"
    using err by (auto simp: MEMCPY_FAULT_READ_def MEMCPY_FAULT_WRITE_def)
  then show ?thesis
  proof cases
    case 1
    then have "copy_string m now a b len w = Some (Inr w1)" using run by simp
    moreover have "w1 = w\<lparr>pw_mem := mem, pw_kernel := (pw_kernel w)\<lparr>cr3 := p\<rparr>\<rparr>" using p by simp
    ultimately show ?thesis using inv1 f1(6) by auto
  next
    case 2
    obtain w' c' xs' where w': "transfer_error m now EFAULT a b w1 = Some w'" "ipc_inv w' c' xs'" "pw_servers w' = pw_servers w1"
      "reg_rax (ctx_of a w') = neg_errno EFAULT" "reg_rax (ctx_of b w') = neg_errno EIPCIO"
      using transfer_error_inv [OF inv1 f1(1-5) ne, of m now EFAULT] by blast
    have "copy_string m now a b len w = Some (Inl w')" using run 2 w'(1) by simp
    moreover have "\<exists>g i. {g, i} = {a, b} \<and> reg_rax (ctx_of g w') = neg_errno EFAULT \<and> reg_rax (ctx_of i w') = neg_errno EIPCIO"
      using w'(4,5) by blast
    ultimately show ?thesis using w'(2,3) f1(6) by auto
  next
    case 3
    obtain w' c' xs' where w': "transfer_error m now EFAULT b a w1 = Some w'" "ipc_inv w' c' xs'" "pw_servers w' = pw_servers w1"
      "reg_rax (ctx_of b w') = neg_errno EFAULT" "reg_rax (ctx_of a w') = neg_errno EIPCIO"
      using transfer_error_inv [OF inv1 f1(1) f1(4,5) f1(2,3) ne [symmetric], of m now EFAULT] by blast
    have "copy_string m now a b len w = Some (Inl w')" using run 3 w'(1) by simp
    moreover have "\<exists>g i. {g, i} = {a, b} \<and> reg_rax (ctx_of g w') = neg_errno EFAULT \<and> reg_rax (ctx_of i w') = neg_errno EIPCIO"
      using w'(4,5) by blast
    ultimately show ?thesis using w'(2,3) f1(6) by auto
  qed
qed

lemma deliver_inv:
  assumes inv: "ipc_inv w c xs" and cur: "current (pw_kernel w) = None"
    and cl: "state_of (pw_kernel w) caller = FLOATING" "user_mode (ctx_of caller w)"
    and ls: "state_of (pw_kernel w) listener = FLOATING" "user_mode (ctx_of listener w)" and ne: "caller \<noteq> listener"
    and idle: "t_caller (threads (pw_kernel w) listener) = None"
  shows "\<exists>w'. deliver caller listener cb w = Some w' \<and> ipc_inv w' c xs \<and> pw_servers w' = pw_servers w \<and> pw_mem w' = pw_mem w \<and>
    current (pw_kernel w') = Some listener \<and> user_ctx (pw_kernel w') = (ctx_of listener w)\<lparr>reg_rip := cb\<rparr> \<and>
    cr3 (pw_kernel w') = t_page_map (threads (pw_kernel w) listener) \<and>
    state_of (pw_kernel w') caller = CALLING \<and> t_caller (threads (pw_kernel w') listener) = Some caller \<and>
    ctx_of caller w' = ctx_of caller w"
proof -
  let ?k = "pw_kernel w"
  have core: "core_inv ?k c xs" and l: "links_ok ?k xs" and co: "callers_ok ?k" and ch: "chans_ok (pw_servers w) ?k c xs"
    and s: "sched_inv ?k c xs"
    using inv by (simp_all add: ipc_inv_def sched_inv_core)
  have st: "states_ok (state_of ?k) (current ?k) c xs" and qr: "queue_rep (wait_q ?k) c" and m: "modes_ok ?k"
    and so: "sorted (map (ns_of ?k) xs)" using core by (simp_all add: core_inv_def)
  define k1 where "k1 = upd_ctx listener (reg_rip_update (\<lambda>_. cb))
      (upd_thread listener (t_caller_update (\<lambda>_. Some caller)) (set_state caller CALLING ?k))"
  have st1: "states_ok ((state_of ?k)(caller := CALLING)) (current ?k) c xs"
    by (rule states_calling [OF st]) (use cl in simp_all)
  have core1: "core_inv k1 c xs"
    by (rule core_invI [OF _ st1 _ _ so]) (use qr m cl ls ne in \<open>auto simp: k1_def modes_ok_def ctx_of_def\<close>)
  have sl1: "slinks k1 = slinks ?k" by (simp add: k1_def slinks_upd_thread)
  have ls1: "state_of k1 listener = FLOATING" "user_mode (t_ctx (threads k1 listener))" "current k1 = None"
    using ls ne cur by (simp_all add: k1_def ctx_of_def)
  obtain k' where k': "cpu_context_restore_and_exit listener k1 = Some k'" "core_inv k' c xs" "slinks k' = slinks k1"
    "current k' = Some listener" "cr3 k' = t_page_map (threads k1 listener)" "user_ctx k' = t_ctx (threads k1 listener)"
    "threads k' = (threads k1)(listener := (threads k1 listener)\<lparr>t_state := RUNNING\<rparr>)"
    using context_restore_core [OF core1 ls1(3) ls1(1,2)] by blast
  have s': "sched_inv k' c xs" using k'(2,3) sl1 l by (simp add: sched_inv_core links_ok_def)
  have "callers_ok k'"
  proof -
    have nc: "t_caller (threads ?k t) \<noteq> Some caller" for t
      using co cl(1) unfolding callers_ok_def by (metis thread_state.distinct(9))
    have tc: "t_caller (threads k' t) = (if t = listener then Some caller else t_caller (threads ?k t))" for t
      using ne by (simp add: k'(7) k1_def)
    have sc: "state_of k' x = (if x = listener then RUNNING else if x = caller then CALLING else state_of ?k x)" for x
      using ne by (simp add: k'(7) k1_def)
    have "state_of k' cl = CALLING \<and> (\<forall>t'. t_caller (threads k' t') = Some cl \<longrightarrow> t' = t)"
      if t: "t_caller (threads k' t) = Some cl" for t cl
    proof (cases "t = listener")
      case True
      then have "cl = caller" using t tc by simp
      then show ?thesis using True ne nc unfolding sc tc by auto
    next
      case False
      then have t0: "t_caller (threads ?k t) = Some cl" using t tc by simp
      then have "state_of ?k cl = CALLING" "\<forall>t'. t_caller (threads ?k t') = Some cl \<longrightarrow> t' = t"
        using co unfolding callers_ok_def by blast+
      moreover have "cl \<noteq> listener" using calculation(1) ls(1) by auto
      moreover have "cl \<noteq> caller" using nc [of t] t0 by auto
      ultimately show ?thesis unfolding sc tc by auto
    qed
    then show ?thesis unfolding callers_ok_def by blast
  qed
  moreover have "chans_ok (pw_servers w) k' c xs"
  proof (rule chans_ok_cong [OF ch refl subset_refl])
    fix s i t assume t: "t \<in> set (c (ChanQueue s i))"
    have "t \<noteq> caller" "t \<noteq> listener"
      using waiting_state [OF s t] cl(1) ls(1) by auto
    then show "t_caller (threads k' t) = t_caller (threads ?k t) \<and> t_ctx (threads k' t) = t_ctx (threads ?k t)"
      by (simp add: k'(7) k1_def)
  qed
  ultimately have "ipc_inv (w\<lparr>pw_kernel := k'\<rparr>) c xs" using s' by (simp add: ipc_inv_def)
  moreover have "deliver caller listener cb w = Some (w\<lparr>pw_kernel := k'\<rparr>)"
    using k'(1) by (simp add: deliver_def on_kernel_def with_kernel_def k1_def)
  ultimately show ?thesis using k'(4-7) ne by (simp add: k1_def ctx_of_def)
qed

section \<open>The transfer\<close>

lemma on_kernel_sel [simp]:
  "pw_servers (on_kernel f w) = pw_servers w" "pw_mem (on_kernel f w) = pw_mem w" "pw_kernel (on_kernel f w) = f (pw_kernel w)"
  by (simp_all add: on_kernel_def)

lemma ctx_of_upd [simp]: "ctx_of t' (on_kernel (upd_ctx t f) w) = (if t' = t then f (ctx_of t w) else ctx_of t' w)"
  by (simp add: ctx_of_def)

text \<open>Two threads about to exchange a message: both detached, in user mode, the listener not answering anyone.\<close>

definition parties :: "ipc_world \<Rightarrow> tid \<Rightarrow> tid \<Rightarrow> bool" where
  "parties w caller listener \<longleftrightarrow> current (pw_kernel w) = None \<and> caller \<noteq> listener \<and>
     state_of (pw_kernel w) caller = FLOATING \<and> user_mode (ctx_of caller w) \<and>
     state_of (pw_kernel w) listener = FLOATING \<and> user_mode (ctx_of listener w) \<and>
     t_caller (threads (pw_kernel w) listener) = None"

lemma parties_upd:
  assumes "parties w a b" and "ipc_inv w c xs" and "t = a \<or> t = b" and "\<And>r. user_mode (f r) = user_mode r"
  shows "ipc_inv (on_kernel (upd_ctx t f) w) c xs \<and> parties (on_kernel (upd_ctx t f) w) a b"
  using assms by (auto simp: parties_def intro!: upd_ctx_inv)

lemma parties_deliver:
  assumes "parties w a b" and "ipc_inv w c xs"
  shows "\<exists>w'. deliver a b cb w = Some w' \<and> ipc_inv w' c xs \<and> pw_servers w' = pw_servers w"
proof -
  have "current (pw_kernel w) = None" "state_of (pw_kernel w) a = FLOATING" "user_mode (ctx_of a w)"
    "state_of (pw_kernel w) b = FLOATING" "user_mode (ctx_of b w)" "a \<noteq> b" "t_caller (threads (pw_kernel w) b) = None"
    using assms(1) by (simp_all add: parties_def)
  from deliver_inv [OF assms(2) this, of cb] show ?thesis by blast
qed

lemma parties_error:
  assumes "parties w a b" and "ipc_inv w c xs"
  shows "\<exists>w' c' xs'. transfer_error m now e a b w = Some w' \<and> ipc_inv w' c' xs' \<and> pw_servers w' = pw_servers w"
proof -
  have p: "current (pw_kernel w) = None" "state_of (pw_kernel w) a = FLOATING" "user_mode (ctx_of a w)"
    "state_of (pw_kernel w) b = FLOATING" "user_mode (ctx_of b w)" "a \<noteq> b"
    using assms(1) by (simp_all add: parties_def)
  from transfer_error_inv [OF assms(2) p, of m now e] show ?thesis by blast
qed

lemma parties_string:
  assumes "parties w a b" and "ipc_inv w c xs"
  shows "\<exists>w' c' xs'. deliver_string m now a b cb len w = Some w' \<and> ipc_inv w' c' xs' \<and> pw_servers w' = pw_servers w"
proof -
  have p: "current (pw_kernel w) = None" "state_of (pw_kernel w) a = FLOATING" "user_mode (ctx_of a w)"
    "state_of (pw_kernel w) b = FLOATING" "user_mode (ctx_of b w)" "a \<noteq> b"
    using assms(1) by (simp_all add: parties_def)
  obtain r where r: "copy_string m now a b len w = Some r" and
    cs: "case r of
       Inl w' \<Rightarrow> (\<exists>c' xs'. ipc_inv w' c' xs') \<and> pw_servers w' = pw_servers w \<and>
         (\<exists>g i. {g, i} = {a, b} \<and> reg_rax (ctx_of g w') = neg_errno EFAULT \<and> reg_rax (ctx_of i w') = neg_errno EIPCIO)
     | Inr w' \<Rightarrow> ipc_inv w' c xs \<and> pw_servers w' = pw_servers w \<and>
         (\<exists>mem p. w' = w\<lparr>pw_mem := mem, pw_kernel := (pw_kernel w)\<lparr>cr3 := p\<rparr>\<rparr>)"
    using copy_string_inv [OF assms(2) p, of m now len] by blast
  show ?thesis
  proof (cases r)
    case (Inl w')
    then show ?thesis using cs r by (simp add: deliver_string_def)
  next
    case (Inr w1)
    then have w1: "ipc_inv w1 c xs" "pw_servers w1 = pw_servers w" using cs by simp_all
    have "\<exists>mem p. w1 = w\<lparr>pw_mem := mem, pw_kernel := (pw_kernel w)\<lparr>cr3 := p\<rparr>\<rparr>" using cs Inr by simp
    then have "parties w1 a b" using assms(1) by (elim exE) (simp add: parties_def ctx_of_def)
    from parties_deliver [OF this w1(1), of cb] obtain w' where
      "deliver a b cb w1 = Some w'" "ipc_inv w' c xs" "pw_servers w' = pw_servers w1" by blast
    then show ?thesis using r Inr w1(2) by (auto simp: deliver_string_def)
  qed
qed

lemma call_transfer_inv:
  assumes p: "parties w caller listener" and inv: "ipc_inv w c xs" and mode: "mode < TRANSFER_MAX"
  shows "\<exists>w' c' xs'. call_transfer m now caller listener mode w = Some w' \<and> ipc_inv w' c' xs' \<and> pw_servers w' = pw_servers w"
proof -
  have pre: "state_of (pw_kernel w) caller = FLOATING" "state_of (pw_kernel w) listener = FLOATING"
    "t_caller (threads (pw_kernel w) listener) = None" using p by (simp_all add: parties_def)
  let ?c = "ctx_of caller w"
  define w1 where "w1 = on_kernel (upd_ctx listener (\<lambda>l. l\<lparr>reg_r8 := reg_r8 ?c, reg_r9 := reg_r9 ?c\<rparr>)) w"
  have w1: "ipc_inv w1 c xs" "parties w1 caller listener" "pw_servers w1 = pw_servers w"
    using parties_upd [OF p inv, of listener] by (simp_all add: w1_def)
  let ?l = "ctx_of listener w1" and ?cb = "reg_r8 (ctx_of listener w)"
  consider "mode = IPC_TRANSFER_REGISTER" | "mode = IPC_TRANSFER_SMALLSTR \<or> mode = IPC_TRANSFER_LARGESTR"
    | "mode = IPC_TRANSFER_WRITE" | "mode = IPC_TRANSFER_READ"
    using mode by (fastforce simp: TRANSFER_MAX_def IPC_TRANSFER_REGISTER_def IPC_TRANSFER_SMALLSTR_def
        IPC_TRANSFER_LARGESTR_def IPC_TRANSFER_WRITE_def IPC_TRANSFER_READ_def)
  then show ?thesis
  proof cases
    case 1
    define w2 where "w2 = on_kernel (upd_ctx listener (\<lambda>l. l\<lparr>reg_rsi := reg_rsi ?c, reg_rdx := reg_rdx ?c, reg_r10 := reg_r10 ?c\<rparr>)) w1"
    have w2: "ipc_inv w2 c xs" "parties w2 caller listener" "pw_servers w2 = pw_servers w"
      using parties_upd [OF w1(2,1), of listener] w1(3) by (simp_all add: w2_def)
    have "call_transfer m now caller listener mode w = deliver caller listener ?cb w2"
      using 1 pre by (simp add: call_transfer_def Let_def w1_def [symmetric] w2_def [symmetric])
    with parties_deliver [OF w2(2,1), of ?cb] w2(3) show ?thesis by auto
  next
    case 2
    then have nr: "mode \<noteq> IPC_TRANSFER_REGISTER"
      by (auto simp: IPC_TRANSFER_REGISTER_def IPC_TRANSFER_SMALLSTR_def IPC_TRANSFER_LARGESTR_def)
    show ?thesis
    proof (cases "reg_rdx ?l < reg_rdx ?c \<and> reg_r10 ?c AND IPC_CALL_FRAGMENT = 0")
      case True
      then have "call_transfer m now caller listener mode w = transfer_error m now E2BIG caller listener w1"
        using 2 nr pre True unfolding call_transfer_def Let_def w1_def [symmetric] by auto
      with parties_error [OF w1(2,1), of m now E2BIG] w1(3) show ?thesis by auto
    next
      case False
      let ?len = "if reg_rdx ?l < reg_rdx ?c then reg_rdx ?l else reg_rdx ?c"
      define w2 where "w2 = on_kernel (upd_ctx listener (\<lambda>l. l\<lparr>reg_rdx := ?len, reg_r10 := reg_r10 ?c\<rparr>)) w1"
      have w2: "ipc_inv w2 c xs" "parties w2 caller listener" "pw_servers w2 = pw_servers w"
        using parties_upd [OF w1(2,1), of listener] w1(3) by (simp_all add: w2_def)
      have "call_transfer m now caller listener mode w = deliver_string m now caller listener ?cb ?len w2"
        using 2 nr pre False unfolding call_transfer_def Let_def w1_def [symmetric] w2_def [symmetric] by auto
      with parties_string [OF w2(2,1), of m now ?cb ?len] w2(3) show ?thesis by auto
    qed
  next
    case 3
    then have nr: "mode \<noteq> IPC_TRANSFER_REGISTER" "\<not> (mode = IPC_TRANSFER_SMALLSTR \<or> mode = IPC_TRANSFER_LARGESTR)"
      by (auto simp: IPC_TRANSFER_REGISTER_def IPC_TRANSFER_SMALLSTR_def IPC_TRANSFER_LARGESTR_def IPC_TRANSFER_WRITE_def)
    let ?len = "if reg_rdx ?l < reg_rdx ?c then reg_rdx ?l else reg_rdx ?c"
    define w2 where "w2 = on_kernel (upd_ctx listener (\<lambda>l. l\<lparr>reg_rdx := ?len,
                  reg_r10 := IPC_SYSTEM_WRITE OR IPC_CALL_TXSTR OR IPC_CALL_FRAGMENT\<rparr>)) w1"
    have w2: "ipc_inv w2 c xs" "parties w2 caller listener" "pw_servers w2 = pw_servers w"
      using parties_upd [OF w1(2,1), of listener] w1(3) by (simp_all add: w2_def)
    define w3 where "w3 = on_kernel (upd_ctx caller (reg_r10_update (\<lambda>_. 0))) w2"
    have w3: "ipc_inv w3 c xs" "parties w3 caller listener" "pw_servers w3 = pw_servers w"
      using parties_upd [OF w2(2,1), of caller] w2(3) by (simp_all add: w3_def)
    have "call_transfer m now caller listener mode w = deliver_string m now caller listener ?cb ?len w3"
      using 3 nr pre unfolding call_transfer_def Let_def w1_def [symmetric] w2_def [symmetric] w3_def [symmetric] by simp
    with parties_string [OF w3(2,1), of m now ?cb ?len] w3(3) show ?thesis by auto
  next
    case 4
    then have nr: "mode \<noteq> IPC_TRANSFER_REGISTER" "\<not> (mode = IPC_TRANSFER_SMALLSTR \<or> mode = IPC_TRANSFER_LARGESTR)"
      "mode \<noteq> IPC_TRANSFER_WRITE"
      by (auto simp: IPC_TRANSFER_REGISTER_def IPC_TRANSFER_SMALLSTR_def IPC_TRANSFER_LARGESTR_def IPC_TRANSFER_WRITE_def
          IPC_TRANSFER_READ_def)
    define w2 where "w2 = on_kernel (upd_ctx listener (\<lambda>l. l\<lparr>reg_rdx := reg_rdx ?c,
                  reg_r10 := IPC_SYSTEM_READ OR IPC_CALL_RXSTR\<rparr>)) w1"
    have w2: "ipc_inv w2 c xs" "parties w2 caller listener" "pw_servers w2 = pw_servers w"
      using parties_upd [OF w1(2,1), of listener] w1(3) by (simp_all add: w2_def)
    define w3 where "w3 = on_kernel (upd_ctx caller (reg_r10_update (\<lambda>_. IPC_CALL_RXSTR))) w2"
    have w3: "ipc_inv w3 c xs" "parties w3 caller listener" "pw_servers w3 = pw_servers w"
      using parties_upd [OF w2(2,1), of caller] w2(3) by (simp_all add: w3_def)
    have "call_transfer m now caller listener mode w = deliver caller listener ?cb w3"
      using 4 nr pre unfolding call_transfer_def Let_def w1_def [symmetric] w2_def [symmetric] w3_def [symmetric] by simp
    with parties_deliver [OF w3(2,1), of ?cb] w3(3) show ?thesis by auto
  qed
qed

section \<open>Entering the kernel and waiting on a channel\<close>

lemma save_inv:
  assumes inv: "ipc_inv w c xs" and cur: "current (pw_kernel w) = Some t"
  shows "\<exists>k. cpu_context_save (pw_kernel w) = Some (t, k) \<and> ipc_inv (w\<lparr>pw_kernel := k\<rparr>) c xs \<and> current k = None \<and>
    state_of k t = FLOATING \<and> t_ctx (threads k t) = user_ctx (pw_kernel w) \<and> user_mode (user_ctx (pw_kernel w)) \<and>
    (\<forall>x. t_caller (threads k x) = t_caller (threads (pw_kernel w) x)) \<and>
    (\<forall>x. x \<noteq> t \<longrightarrow> threads k x = threads (pw_kernel w) x)"
proof -
  let ?k = "pw_kernel w"
  have core: "core_inv ?k c xs" and l: "links_ok ?k xs" and co: "callers_ok ?k" and ch: "chans_ok (pw_servers w) ?k c xs"
    and s: "sched_inv ?k c xs"
    using inv by (simp_all add: ipc_inv_def sched_inv_core)
  define k where "k = (upd_thread t (\<lambda>th. th\<lparr>t_ctx := user_ctx ?k, t_state := FLOATING\<rparr>) ?k)\<lparr>current := None\<rparr>"
  have sv: "cpu_context_save ?k = Some (t, k)" "core_inv k c xs" "slinks k = slinks ?k" "user_mode (user_ctx ?k)"
    using context_save_core [OF core cur] by (simp_all add: k_def)
  have r: "state_of ?k t = RUNNING" using core cur states_okD(6) [of "state_of ?k" "current ?k" c xs t] by (simp add: core_inv_def)
  have "callers_ok k" by (rule callers_ok_cong [OF co]) (use r in \<open>auto simp: k_def\<close>)
  moreover have "chans_ok (pw_servers w) k c xs"
  proof (rule chans_ok_cong [OF ch refl subset_refl])
    fix s' i x assume "x \<in> set (c (ChanQueue s' i))"
    then have "x \<noteq> t" using waiting_state [OF s] r by auto
    then show "t_caller (threads k x) = t_caller (threads ?k x) \<and> t_ctx (threads k x) = t_ctx (threads ?k x)"
      by (simp add: k_def)
  qed
  moreover have "sched_inv k c xs" using sv(2,3) l by (simp add: sched_inv_core links_ok_def)
  ultimately have "ipc_inv (w\<lparr>pw_kernel := k\<rparr>) c xs" by (simp add: ipc_inv_def)
  then show ?thesis using sv(1,4) by (auto simp: k_def)
qed

text \<open>Joining the queue of a channel in state \<open>st\<close>, and leaving the kernel.\<close>

lemma wait_inv:
  assumes inv: "ipc_inv w c xs" and cur: "current (pw_kernel w) = None"
    and t: "state_of (pw_kernel w) t = FLOATING" "user_mode (ctx_of t w)"
    and sv: "pw_servers w s = Some sv" and st: "channels sv i = st'" "st \<noteq> CH_EMPTY" "st' = CH_EMPTY \<or> st' = st"
    and ok: "\<not> closed_call sv \<and> \<not> closed_listen sv"
    and role: "st = CH_LISTENING \<Longrightarrow> t_caller (threads (pw_kernel w) t) = None"
      "st = CH_CALLING \<Longrightarrow> unat (reg_rdi (ctx_of t w)) < TRANSFER_MAX"
  shows "\<exists>w' c' xs'. do { w \<leftarrow> with_kernel (push_into t (ChanQueue s i)) (set_channel s i st w); depart m now w } = Some w' \<and>
    ipc_inv w' c' xs'"
proof -
  let ?k = "pw_kernel w" and ?q = "ChanQueue s i"
  have core: "core_inv ?k c xs" and l: "links_ok ?k xs" and co: "callers_ok ?k" and ch: "chans_ok (pw_servers w) ?k c xs"
    and si: "sched_inv ?k c xs" using inv by (simp_all add: ipc_inv_def sched_inv_core)
  obtain h where h: "push_into t ?q ?k = Some ((set_state t WAITING ?k)\<lparr>wait_q := h\<rparr>)"
    "core_inv ((set_state t WAITING ?k)\<lparr>wait_q := h\<rparr>) (c(?q := c ?q @ [t])) xs"
    using push_into_core [OF core l t(1), of ?q] t(2) by (auto simp: ctx_of_def)
  define k where "k = (set_state t WAITING ?k)\<lparr>wait_q := h\<rparr>"
  let ?c = "c(?q := c ?q @ [t])"
  define w1 where "w1 = (set_channel s i st w)\<lparr>pw_kernel := k\<rparr>"
  have nt: "t \<notin> set (c q)" "t \<notin> set xs" for q using not_waiting [OF si, of t] t(1) by simp_all
  have s1: "sched_inv k ?c xs" using h(2) l by (simp add: sched_inv_core k_def links_ok_def)
  have co1: "callers_ok k" by (rule callers_ok_cong [OF co]) (use t(1) in \<open>auto simp: k_def\<close>)
  have same: "t_caller (threads k x) = t_caller (threads ?k x)" "t_ctx (threads k x) = t_ctx (threads ?k x)" for x
    by (simp_all add: k_def)
  have "chans_ok (pw_servers w1) k ?c xs"
  proof -
    have "server_ok k (\<lambda>j. ?c (ChanQueue s' j)) sv'"
      if sv': "pw_servers w1 s' = Some sv'" "\<not> closed_call sv'" "\<not> closed_listen sv'" for s' sv'
    proof (cases "s' = s")
      case False
      then have "server_ok ?k (\<lambda>j. c (ChanQueue s' j)) sv'" using ch sv' by (simp add: chans_ok_def w1_def set_channel_def)
      then show ?thesis using False channel_ok_cong [of ?k _ _ k] same by (auto simp: server_ok_def)
    next
      case True
      have old: "server_ok ?k (\<lambda>j. c (ChanQueue s j)) sv" using ch sv ok by (simp add: chans_ok_def)
      have sv2: "sv' = sv\<lparr>channels := (channels sv)(i := st)\<rparr>" using sv' sv True by (simp add: w1_def set_channel_def)
      have "channel_ok k (((channels sv)(i := st)) j) (?c (ChanQueue s j))" for j
      proof (cases "j = i")
        case False
        then show ?thesis using old channel_ok_cong [of ?k _ _ k] same by (auto simp: server_ok_def)
      next
        case ji: True
        have o: "channel_ok ?k st' (c ?q)" using old st(1) by (auto simp: server_ok_def)
        have tc: "t_caller (threads k t) = t_caller (threads ?k t)" "t_ctx (threads k t) = ctx_of t w"
          using same by (simp_all add: ctx_of_def)
        have "channel_ok k st (c ?q @ [t])"
          using o st(2,3) role tc same by (cases st) (auto simp: channel_ok_def)
        then show ?thesis using ji by simp
      qed
      then show ?thesis using old True sv2 by (simp add: server_ok_def)
    qed
    moreover have "x \<notin> set xs" if "x \<in> set (?c (ChanQueue s' j))" for x s' j
      using that ch nt(2) unfolding chans_ok_def by (auto split: if_splits)
    ultimately show ?thesis unfolding chans_ok_def by blast
  qed
  then have inv1: "ipc_inv w1 ?c xs" using s1 co1 by (simp add: ipc_inv_def w1_def)
  have cur1: "current (pw_kernel w1) = None" using cur by (simp add: w1_def k_def)
  have "with_kernel (push_into t ?q) (set_channel s i st w) = Some w1"
    using h(1) by (simp add: with_kernel_def w1_def k_def set_channel_def)
  with depart_inv [OF inv1 cur1, of m now] show ?thesis by auto
qed

text \<open>Taking the other party out of a channel.\<close>

definition leave_channel :: "nat \<Rightarrow> nat \<Rightarrow> kernel \<Rightarrow> ipc_world \<Rightarrow> ipc_world" where
  "leave_channel s i k w = (let w = w\<lparr>pw_kernel := k\<rparr> in if queue_empty s i w then set_channel s i CH_EMPTY w else w)"

lemma leave_channel_sel [simp]: "pw_kernel (leave_channel s i k w) = k" "pw_mem (leave_channel s i k w) = pw_mem w"
  by (simp_all add: leave_channel_def set_channel_def Let_def)

lemma take_inv:
  assumes inv: "ipc_inv w c xs" and q: "c (ChanQueue s i) = t # ts"
    and sv: "pw_servers w s = Some sv" and ok: "\<not> closed_call sv \<and> \<not> closed_listen sv"
  shows "\<exists>k xs'. pop_from (ChanQueue s i) (pw_kernel w) = Some (Some t, k) \<and>
    ipc_inv (leave_channel s i k w) (c(ChanQueue s i := ts)) xs' \<and>
    current k = current (pw_kernel w) \<and> state_of k = (state_of (pw_kernel w))(t := FLOATING) \<and>
    user_mode (t_ctx (threads k t)) \<and> state_of (pw_kernel w) t = WAITING \<and>
    (\<forall>x. t_ctx (threads k x) = t_ctx (threads (pw_kernel w) x)) \<and>
    (\<forall>x. t_caller (threads k x) = t_caller (threads (pw_kernel w) x)) \<and>
    (\<forall>x. t_page_map (threads k x) = t_page_map (threads (pw_kernel w) x))"
proof -
  let ?k = "pw_kernel w" and ?q = "ChanQueue s i"
  have core: "core_inv ?k c xs" and l: "links_ok ?k xs" and co: "callers_ok ?k" and ch: "chans_ok (pw_servers w) ?k c xs"
    using inv by (simp_all add: ipc_inv_def sched_inv_core)
  obtain h where h: "pop_from ?q ?k = Some (Some t, timeout_cancel t (set_state t FLOATING (?k\<lparr>wait_q := h\<rparr>)))"
    "queue_rep h (c(?q := ts))" using pop_from_core [OF core l q] by blast
  define k where "k = timeout_cancel t (set_state t FLOATING (?k\<lparr>wait_q := h\<rparr>))"
  have u: "core_inv k (c(?q := ts)) (removeAll t xs)" "links_ok k (removeAll t xs)"
    "user_mode (t_ctx (threads k t))" "state_of ?k t = WAITING"
    using unwait_core [OF core l _ _, of ?q "[]" t ts h] q h(2) by (simp_all add: k_def)
  have st: "state_of k = (state_of ?k)(t := FLOATING)" by (auto simp: k_def fun_eq_iff)
  have same: "t_caller (threads k x) = t_caller (threads ?k x)" "t_ctx (threads k x) = t_ctx (threads ?k x)"
    "t_page_map (threads k x) = t_page_map (threads ?k x)" for x
    by (simp_all add: k_def)
  have s1: "sched_inv k (c(?q := ts)) (removeAll t xs)" using u(1,2) by (simp add: sched_inv_core)
  have co1: "callers_ok k"
    by (rule callers_ok_cong [OF co]) (use u(4) same(1) st in \<open>simp_all add: fun_eq_iff\<close>)
  have e: "queue_empty s i (w\<lparr>pw_kernel := k\<rparr>) \<longleftrightarrow> ts = []"
    using queue_empty_iff [of "w\<lparr>pw_kernel := k\<rparr>" "c(?q := ts)" "removeAll t xs" s i] s1 by simp
  let ?w = "leave_channel s i k w"
  have w2: "pw_servers ?w = (if ts = [] then (pw_servers w)(s := Some (sv\<lparr>channels := (channels sv)(i := CH_EMPTY)\<rparr>)) else pw_servers w)"
    using sv by (simp add: leave_channel_def Let_def e set_channel_def)
  have old: "server_ok ?k (\<lambda>j. c (ChanQueue s j)) sv" using ch sv ok by (simp add: chans_ok_def)
  have ck: "channel_ok k (if ts = [] \<and> j = i then CH_EMPTY else channels sv j) ((c(?q := ts)) (ChanQueue s j))" for j
  proof (cases "j = i")
    case False
    then show ?thesis using old channel_ok_cong [of ?k _ _ k] same by (auto simp: server_ok_def)
  next
    case True
    have "channel_ok ?k (channels sv i) (t # ts)" using old q unfolding server_ok_def by metis
    then show ?thesis using True same by (cases "channels sv i") (auto simp: channel_ok_def)
  qed
  have "chans_ok (pw_servers ?w) k (c(?q := ts)) (removeAll t xs)"
  proof -
    have "server_ok k (\<lambda>j. (c(?q := ts)) (ChanQueue s' j)) sv'"
      if sv': "pw_servers ?w s' = Some sv'" "\<not> closed_call sv'" "\<not> closed_listen sv'" for s' sv'
    proof (cases "s' = s")
      case False
      then have "server_ok ?k (\<lambda>j. c (ChanQueue s' j)) sv'"
        using ch sv' unfolding w2 by (auto simp: chans_ok_def split: if_splits)
      then show ?thesis using False channel_ok_cong [of ?k _ _ k] same by (auto simp: server_ok_def)
    next
      case True
      have "transfer_map sv' = transfer_map sv" and cs: "channels sv' j = (if ts = [] \<and> j = i then CH_EMPTY else channels sv j)" for j
        using sv'(1) sv True unfolding w2 by (auto split: if_splits)
      then show ?thesis using old ck True unfolding server_ok_def cs by simp
    qed
    moreover have "x \<notin> set (removeAll t xs)" if "x \<in> set ((c(?q := ts)) (ChanQueue s' j))" for x s' j
    proof -
      have "x \<in> set (c (ChanQueue s' j))" using that q by (auto split: if_splits)
      then show ?thesis using ch unfolding chans_ok_def by auto
    qed
    ultimately show ?thesis unfolding chans_ok_def by blast
  qed
  then have "ipc_inv ?w (c(?q := ts)) (removeAll t xs)" using s1 co1 by (simp add: ipc_inv_def)
  moreover have "current k = current ?k" by (simp add: k_def)
  ultimately show ?thesis using h(1) u(3,4) st same unfolding k_def [symmetric]
    by (intro exI conjI allI) (assumption | simp)+
qed

section \<open>Calling and listening never panic\<close>

lemma server_channel:
  assumes inv: "ipc_inv w c xs" and sv: "pw_servers w s = Some sv" and ok: "\<not> closed_call sv \<and> \<not> closed_listen sv"
  shows "channel_ok (pw_kernel w) (channels sv i) (c (ChanQueue s i))" and "length (transfer_map sv) = TRANSFER_MAX"
  using inv sv ok by (simp_all add: ipc_inv_def chans_ok_def server_ok_def)

lemma mode_rdi: "mode < TRANSFER_MAX \<Longrightarrow> unat (word_of_nat mode :: u64) = mode"
  by (simp add: TRANSFER_MAX_def unat_of_nat take_bit_eq_mod)

lemma ipc_call_mode_inv:
  assumes inv: "ipc_inv w c xs" and cur: "current (pw_kernel w) = Some t"
    and sv: "pw_servers w s = Some sv" "\<not> closed_call sv" and mode: "mode < TRANSFER_MAX"
  shows "\<exists>r w' c' xs'. ipc_call_mode m now s mode w = Some (r, w') \<and> ipc_inv w' c' xs'"
proof (cases "closed_listen sv \<or> unat (transfer_map sv ! mode) = 0")
  case True
  then have "\<exists>r. ipc_call_mode m now s mode w = Some (r, w)"
    using sv by (auto simp: ipc_call_mode_def Let_def)
  then show ?thesis using inv by blast
next
  case False
  define i where "i = unat (transfer_map sv ! mode) - 1"
  have ok: "\<not> closed_call sv \<and> \<not> closed_listen sv" using False sv by simp
  obtain k0 where sv0: "cpu_context_save (pw_kernel w) = Some (t, k0)" "ipc_inv (w\<lparr>pw_kernel := k0\<rparr>) c xs" "current k0 = None"
    "state_of k0 t = FLOATING" "t_ctx (threads k0 t) = user_ctx (pw_kernel w)" "user_mode (user_ctx (pw_kernel w))"
    using save_inv [OF inv cur] by blast
  define w1 where "w1 = w\<lparr>pw_kernel := upd_ctx t (reg_rdi_update (\<lambda>_. word_of_nat mode)) k0\<rparr>"
  have w1': "w1 = on_kernel (upd_ctx t (reg_rdi_update (\<lambda>_. word_of_nat mode))) (w\<lparr>pw_kernel := k0\<rparr>)"
    by (simp add: w1_def on_kernel_def)
  have w1: "ipc_inv w1 c xs" unfolding w1' by (rule upd_ctx_inv [OF sv0(2)]) (use sv0(4) in simp_all)
  have f1: "current (pw_kernel w1) = None" "state_of (pw_kernel w1) t = FLOATING" "user_mode (ctx_of t w1)"
    "pw_servers w1 s = Some sv" "unat (reg_rdi (ctx_of t w1)) < TRANSFER_MAX"
    using sv0(3-6) sv(1) mode by (simp_all add: w1_def ctx_of_def mode_rdi)
  note ck = server_channel(1) [OF w1 f1(4) ok, of i]
  have s1: "sched_inv (pw_kernel w1) c xs" using w1 by (simp add: ipc_inv_def)
  have run: "ipc_call_mode m now s mode w = do { w \<leftarrow>
     (case channels sv i of
        CH_EMPTY \<Rightarrow> do {
          kassert (queue_empty s i w1);
          let w = set_channel s i CH_CALLING w1;
          w \<leftarrow> with_kernel (push_into t (ChanQueue s i)) w;
          depart m now w
        }
      | CH_LISTENING \<Rightarrow> do {
          (r, k) \<leftarrow> pop_from (ChanQueue s i) (pw_kernel w1);
          listener \<leftarrow> r;
          call_transfer m now t listener mode (leave_channel s i k w1)
        }
      | CH_CALLING \<Rightarrow> do {
          kassert (\<not> queue_empty s i w1);
          w \<leftarrow> with_kernel (push_into t (ChanQueue s i)) w1;
          depart m now w
        }); Some (Departed, w) }"
    using False sv sv0(1) by (simp add: ipc_call_mode_def Let_def i_def w1_def leave_channel_def cong: channel_state.case_cong if_cong option.case_cong)
  show ?thesis
  proof (cases "channels sv i")
    case CH_EMPTY
    then have "queue_empty s i w1" using ck queue_empty_iff [OF s1] by (simp add: channel_ok_def)
    moreover obtain w' c' xs' where "do { w \<leftarrow> with_kernel (push_into t (ChanQueue s i)) (set_channel s i CH_CALLING w1); depart m now w } = Some w'"
      "ipc_inv w' c' xs'"
      using wait_inv [OF w1 f1(1-4) CH_EMPTY _ _ ok, of CH_CALLING m now] f1(5) by auto
    ultimately show ?thesis using run CH_EMPTY by auto
  next
    case CH_CALLING
    then have "\<not> queue_empty s i w1" using ck queue_empty_iff [OF s1] by (simp add: channel_ok_def)
    moreover have "set_channel s i CH_CALLING w1 = w1" using f1(4) CH_CALLING by (auto simp: set_channel_def fun_upd_idem)
    moreover obtain w' c' xs' where "do { w \<leftarrow> with_kernel (push_into t (ChanQueue s i)) (set_channel s i CH_CALLING w1); depart m now w } = Some w'"
      "ipc_inv w' c' xs'"
      using wait_inv [OF w1 f1(1-4) CH_CALLING _ _ ok, of CH_CALLING m now] f1(5) by auto
    ultimately show ?thesis using run CH_CALLING by auto
  next
    case CH_LISTENING
    then obtain l ls where q: "c (ChanQueue s i) = l # ls" and lc: "t_caller (threads (pw_kernel w1) l) = None"
      using ck by (cases "c (ChanQueue s i)") (auto simp: channel_ok_def)
    obtain k xs' where k: "pop_from (ChanQueue s i) (pw_kernel w1) = Some (Some l, k)"
      "ipc_inv (leave_channel s i k w1) (c(ChanQueue s i := ls)) xs'" "current k = current (pw_kernel w1)"
      "state_of k = (state_of (pw_kernel w1))(l := FLOATING)" "user_mode (t_ctx (threads k l))" "state_of (pw_kernel w1) l = WAITING"
      "\<And>x. t_ctx (threads k x) = t_ctx (threads (pw_kernel w1) x)" "\<And>x. t_caller (threads k x) = t_caller (threads (pw_kernel w1) x)"
      using take_inv [OF w1 q f1(4) ok] by blast
    have "t \<noteq> l" using f1(2) k(6) by auto
    then have p: "parties (leave_channel s i k w1) t l"
      using k(3-8) f1(1-3) lc by (simp add: parties_def ctx_of_def fun_eq_iff)
    obtain w' c' xs'' where "call_transfer m now t l mode (leave_channel s i k w1) = Some w'" "ipc_inv w' c' xs''"
      using call_transfer_inv [OF p k(2) mode] by blast
    then show ?thesis using run CH_LISTENING k(1) by auto
  qed
qed

lemma ipc_listen_inv:
  assumes inv: "ipc_inv w c xs" and cur: "current (pw_kernel w) = Some t"
    and sv: "pw_servers w s = Some sv" "\<not> closed_listen sv" and id: "reg_r10 ctx \<noteq> 0"
    and idle: "t_caller (threads (pw_kernel w) t) = None"
  shows "\<exists>r w' c' xs'. ipc_listen m now s ctx w = Some (r, w') \<and> ipc_inv w' c' xs'"
proof (cases "closed_call sv \<or> channel_count sv < unat (reg_r10 ctx)")
  case True
  then have "\<exists>r. ipc_listen m now s ctx w = Some (r, w)"
    using sv by (auto simp: ipc_listen_def Let_def)
  then show ?thesis using inv by blast
next
  case False
  define i where "i = unat (reg_r10 ctx) - 1"
  have nz: "unat (reg_r10 ctx) \<noteq> 0" using id by (simp add: unat_eq_zero)
  have ok: "\<not> closed_call sv \<and> \<not> closed_listen sv" using False sv by simp
  obtain k0 where sv0: "cpu_context_save (pw_kernel w) = Some (t, k0)" "ipc_inv (w\<lparr>pw_kernel := k0\<rparr>) c xs" "current k0 = None"
    "state_of k0 t = FLOATING" "t_ctx (threads k0 t) = user_ctx (pw_kernel w)" "user_mode (user_ctx (pw_kernel w))"
    "\<And>x. t_caller (threads k0 x) = t_caller (threads (pw_kernel w) x)"
    using save_inv [OF inv cur] by blast
  define w1 where "w1 = w\<lparr>pw_kernel := k0\<rparr>"
  have w1: "ipc_inv w1 c xs" using sv0(2) by (simp add: w1_def)
  have f1: "current (pw_kernel w1) = None" "state_of (pw_kernel w1) t = FLOATING" "user_mode (ctx_of t w1)"
    "pw_servers w1 s = Some sv" "t_caller (threads (pw_kernel w1) t) = None"
    using sv0(3-7) sv(1) idle by (simp_all add: w1_def ctx_of_def)
  note ck = server_channel(1) [OF w1 f1(4) ok, of i]
  have s1: "sched_inv (pw_kernel w1) c xs" using w1 by (simp add: ipc_inv_def)
  have run: "ipc_listen m now s ctx w = do { w \<leftarrow>
     (case channels sv i of
        CH_EMPTY \<Rightarrow> do {
          kassert (queue_empty s i w1);
          let w = set_channel s i CH_LISTENING w1;
          w \<leftarrow> with_kernel (push_into t (ChanQueue s i)) w;
          depart m now w
        }
      | CH_LISTENING \<Rightarrow> do {
          kassert (\<not> queue_empty s i w1);
          w \<leftarrow> with_kernel (push_into t (ChanQueue s i)) w1;
          depart m now w
        }
      | CH_CALLING \<Rightarrow> do {
          (r, k) \<leftarrow> pop_from (ChanQueue s i) (pw_kernel w1);
          caller \<leftarrow> r;
          call_transfer m now caller t (unat (reg_rdi (ctx_of caller (leave_channel s i k w1)))) (leave_channel s i k w1)
        }); Some (Departed, w) }"
    using False sv sv0(1) nz by (simp add: ipc_listen_def Let_def i_def w1_def leave_channel_def cong: channel_state.case_cong if_cong option.case_cong)
  show ?thesis
  proof (cases "channels sv i")
    case CH_EMPTY
    then have "queue_empty s i w1" using ck queue_empty_iff [OF s1] by (simp add: channel_ok_def)
    moreover obtain w' c' xs' where "do { w \<leftarrow> with_kernel (push_into t (ChanQueue s i)) (set_channel s i CH_LISTENING w1); depart m now w } = Some w'"
      "ipc_inv w' c' xs'"
      using wait_inv [OF w1 f1(1-4) CH_EMPTY _ _ ok, of CH_LISTENING m now] f1(5) by auto
    ultimately show ?thesis using run CH_EMPTY by auto
  next
    case CH_LISTENING
    then have "\<not> queue_empty s i w1" using ck queue_empty_iff [OF s1] by (simp add: channel_ok_def)
    moreover have "set_channel s i CH_LISTENING w1 = w1" using f1(4) CH_LISTENING by (auto simp: set_channel_def fun_upd_idem)
    moreover obtain w' c' xs' where "do { w \<leftarrow> with_kernel (push_into t (ChanQueue s i)) (set_channel s i CH_LISTENING w1); depart m now w } = Some w'"
      "ipc_inv w' c' xs'"
      using wait_inv [OF w1 f1(1-4) CH_LISTENING _ _ ok, of CH_LISTENING m now] f1(5) by auto
    ultimately show ?thesis using run CH_LISTENING by auto
  next
    case CH_CALLING
    then obtain l ls where q: "c (ChanQueue s i) = l # ls" and lc: "unat (reg_rdi (t_ctx (threads (pw_kernel w1) l))) < TRANSFER_MAX"
      using ck by (cases "c (ChanQueue s i)") (auto simp: channel_ok_def)
    obtain k xs' where k: "pop_from (ChanQueue s i) (pw_kernel w1) = Some (Some l, k)"
      "ipc_inv (leave_channel s i k w1) (c(ChanQueue s i := ls)) xs'" "current k = current (pw_kernel w1)"
      "state_of k = (state_of (pw_kernel w1))(l := FLOATING)" "user_mode (t_ctx (threads k l))" "state_of (pw_kernel w1) l = WAITING"
      "\<And>x. t_ctx (threads k x) = t_ctx (threads (pw_kernel w1) x)" "\<And>x. t_caller (threads k x) = t_caller (threads (pw_kernel w1) x)"
      using take_inv [OF w1 q f1(4) ok] by blast
    let ?w2 = "leave_channel s i k w1"
    have "t \<noteq> l" using f1(2) k(6) by auto
    then have p: "parties ?w2 l t"
      using k(3-8) f1(1-3,5) by (simp add: parties_def ctx_of_def fun_eq_iff)
    have "unat (reg_rdi (ctx_of l ?w2)) < TRANSFER_MAX" using lc k(7) by (simp add: ctx_of_def)
    then obtain w' c' xs'' where "call_transfer m now l t (unat (reg_rdi (ctx_of l ?w2))) ?w2 = Some w'" "ipc_inv w' c' xs''"
      using call_transfer_inv [OF p k(2)] by blast
    then show ?thesis using run CH_CALLING k(1) by auto
  qed
qed

section \<open>Responding never panics\<close>

lemma settle_inv:
  assumes inv: "ipc_inv w c xs" and cur: "current (pw_kernel w) = Some self"
    and cl: "t_caller (threads (pw_kernel w) self) = Some cl"
  defines "w1 \<equiv> on_kernel (set_state cl FLOATING) (on_kernel (upd_thread self (t_caller_update (\<lambda>_. None))) w)"
  shows "ipc_inv w1 c xs" and "state_of (pw_kernel w) cl = CALLING" and "state_of (pw_kernel w1) cl = FLOATING"
    and "user_mode (ctx_of cl w1)" and "cl \<noteq> self" and "current (pw_kernel w1) = Some self"
    and "t_caller (threads (pw_kernel w1) self) = None"
proof -
  let ?k = "pw_kernel w"
  have core: "core_inv ?k c xs" and l: "links_ok ?k xs" and co: "callers_ok ?k" and ch: "chans_ok (pw_servers w) ?k c xs"
    and s: "sched_inv ?k c xs"
    using inv by (simp_all add: ipc_inv_def sched_inv_core)
  have st: "states_ok (state_of ?k) (current ?k) c xs" and qr: "queue_rep (wait_q ?k) c" and m: "modes_ok ?k"
    and so: "sorted (map (ns_of ?k) xs)" using core by (simp_all add: core_inv_def)
  show cc: "state_of ?k cl = CALLING" using co cl by (auto simp: callers_ok_def)
  have r: "state_of ?k self = RUNNING" using states_okD(6) [OF st, of self] cur by simp
  show ne: "cl \<noteq> self" using cc r by auto
  define k1 where "k1 = set_state cl FLOATING (upd_thread self (t_caller_update (\<lambda>_. None)) ?k)"
  have w1: "w1 = w\<lparr>pw_kernel := k1\<rparr>" by (simp add: w1_def on_kernel_def k1_def)
  have st1: "states_ok ((state_of ?k)(cl := FLOATING)) (current ?k) c xs"
    by (rule states_calling [OF st]) (use cc in simp_all)
  have core1: "core_inv k1 c xs"
    by (rule core_invI [OF _ st1 _ _ so]) (use qr m ne in \<open>auto simp: k1_def modes_ok_def\<close>)
  have "slinks k1 = slinks ?k" by (simp add: k1_def slinks_upd_thread)
  then have s1: "sched_inv k1 c xs" using core1 l by (simp add: sched_inv_core links_ok_def)
  have tc: "t_caller (threads k1 x) = (if x = self then None else t_caller (threads ?k x))" for x
    using ne by (simp add: k1_def)
  have sc: "state_of k1 x = (if x = cl then FLOATING else state_of ?k x)" for x by (simp add: k1_def)
  have "callers_ok k1"
  proof -
    have "state_of k1 a = CALLING \<and> (\<forall>t'. t_caller (threads k1 t') = Some a \<longrightarrow> t' = t)" if "t_caller (threads k1 t) = Some a" for t a
    proof -
      have t: "t \<noteq> self" "t_caller (threads ?k t) = Some a" using that unfolding tc by (auto split: if_splits)
      have u: "state_of ?k a = CALLING" "\<forall>t'. t_caller (threads ?k t') = Some a \<longrightarrow> t' = t"
        using co t(2) unfolding callers_ok_def by blast+
      have "a \<noteq> cl" using u(2) cl t(1) by auto
      then show ?thesis using u unfolding tc sc by auto
    qed
    then show ?thesis unfolding callers_ok_def by blast
  qed
  moreover have "chans_ok (pw_servers w) k1 c xs"
  proof (rule chans_ok_cong [OF ch refl subset_refl])
    fix s' i t assume t: "t \<in> set (c (ChanQueue s' i))"
    have "t \<noteq> self" "t \<noteq> cl" using waiting_state [OF s t] r cc by auto
    then show "t_caller (threads k1 t) = t_caller (threads ?k t) \<and> t_ctx (threads k1 t) = t_ctx (threads ?k t)"
      by (simp add: k1_def)
  qed
  ultimately show "ipc_inv w1 c xs" using s1 by (simp add: ipc_inv_def w1)
  have "user_mode (t_ctx (threads ?k cl))" using m cc by (simp add: modes_ok_def)
  then show "state_of (pw_kernel w1) cl = FLOATING" "user_mode (ctx_of cl w1)" "current (pw_kernel w1) = Some self"
    "t_caller (threads (pw_kernel w1) self) = None"
    using cur ne by (simp_all add: w1 k1_def ctx_of_def)
qed

lemma clear_caller_inv:
  assumes inv: "ipc_inv w c xs" and cl: "t_caller (threads (pw_kernel w) self) = None"
  shows "on_kernel (upd_thread self (t_caller_update (\<lambda>_. None))) w = w"
proof -
  have "(threads (pw_kernel w))(self := (threads (pw_kernel w) self)\<lparr>t_caller := None\<rparr>) = threads (pw_kernel w)"
    using cl by (simp add: fun_upd_idem_iff)
  then show ?thesis by (simp add: on_kernel_def upd_thread_def)
qed

lemma exit_to_inv:
  assumes inv: "ipc_inv w c xs" and cur: "current (pw_kernel w) = None"
    and t: "state_of (pw_kernel w) t = FLOATING" "user_mode (ctx_of t w)"
  shows "\<exists>k'. cpu_context_restore_and_exit t (pw_kernel w) = Some k' \<and> ipc_inv (w\<lparr>pw_kernel := k'\<rparr>) c xs \<and>
    current k' = Some t \<and> user_ctx k' = ctx_of t w"
proof -
  let ?k = "pw_kernel w"
  have core: "core_inv ?k c xs" and l: "links_ok ?k xs" and co: "callers_ok ?k" and ch: "chans_ok (pw_servers w) ?k c xs"
    using inv by (simp_all add: ipc_inv_def sched_inv_core)
  obtain k' where k': "cpu_context_restore_and_exit t ?k = Some k'" "core_inv k' c xs" "slinks k' = slinks ?k"
    "current k' = Some t" "user_ctx k' = t_ctx (threads ?k t)"
    "threads k' = (threads ?k)(t := (threads ?k t)\<lparr>t_state := RUNNING\<rparr>)"
    using context_restore_core [OF core cur] t by (auto simp: ctx_of_def)
  have "sched_inv k' c xs" using k'(2,3) l by (simp add: sched_inv_core links_ok_def)
  moreover have "callers_ok k'" by (rule callers_ok_cong [OF co]) (use t(1) k'(6) in auto)
  moreover have "chans_ok (pw_servers w) k' c xs" by (rule chans_ok_cong [OF ch refl]) (use k'(6) in auto)
  ultimately show ?thesis using k'(1,4,5) by (auto simp: ipc_inv_def ctx_of_def)
qed

lemma response_error_inv:
  assumes inv: "ipc_inv w c xs" and t: "state_of (pw_kernel w) cl = FLOATING" "user_mode (ctx_of cl w)"
  shows "\<exists>w' c'. response_error cl e w = Some (Returned (Inl e), w') \<and> ipc_inv w' c' xs"
proof -
  let ?w = "on_kernel (set_r0 cl (neg_errno EIPCIO)) w"
  have e: "?w = on_kernel (upd_ctx cl (reg_rax_update (\<lambda>_. neg_errno EIPCIO))) w" by (simp add: on_kernel_def set_r0_def)
  have i: "ipc_inv ?w c xs" unfolding e by (rule upd_ctx_inv [OF inv]) (use t in simp_all)
  have "state_of (pw_kernel ?w) cl = FLOATING" "user_mode (ctx_of cl ?w)" using t unfolding e by simp_all
  from ready_inv [OF i this] show ?thesis by (elim exE conjE) (auto simp: response_error_def simp del: fun_upd_apply)
qed

lemma ipc_respond_inv:
  assumes inv: "ipc_inv w c xs" and cur: "current (pw_kernel w) = Some self"
  shows "\<exists>r w' c' xs'. ipc_respond m now rctx w = Some (r, w') \<and> ipc_inv w' c' xs'"
proof (cases "t_caller (threads (pw_kernel w) self)")
  case None
  then show ?thesis using inv cur by (auto simp: ipc_respond_def clear_caller_inv [OF inv None])
next
  case (Some cl)
  define w1 where "w1 = on_kernel (set_state cl FLOATING) (on_kernel (upd_thread self (t_caller_update (\<lambda>_. None))) w)"
  note w1 = settle_inv [OF inv cur Some, folded w1_def]
  have cc: "state_of (pw_kernel (on_kernel (upd_thread self (t_caller_update (\<lambda>_. None))) w)) cl = CALLING"
    using w1(2,5) by simp
  note run = ipc_respond_def [of m now rctx w, unfolded cur Let_def Option.bind.simps(2) Some option.case(2)
      kassert_def if_P [OF cc] w1_def [symmetric]]
  show ?thesis
  proof (cases "reg_r10 rctx AND IPC_CALL_RXSTR = 0")
    case True
    let ?w = "on_kernel (upd_ctx cl (\<lambda>c. c\<lparr>reg_rax := reg_rdi rctx, reg_rdx := reg_rsi rctx\<rparr>)) w1"
    have i: "ipc_inv ?w c xs" by (rule upd_ctx_inv [OF w1(1)]) (use w1(3) in simp_all)
    have "state_of (pw_kernel ?w) cl = FLOATING" "user_mode (ctx_of cl ?w)" using w1(3,4) by simp_all
    from ready_inv [OF i this] show ?thesis using True unfolding run by (elim exE conjE) (auto simp del: fun_upd_apply)
  next
    case rx: False
    consider "reg_r10 (ctx_of cl w1) AND IPC_CALL_RXSTR = 0"
      | "reg_r10 (ctx_of cl w1) AND IPC_CALL_RXSTR \<noteq> 0" "reg_rdx (ctx_of cl w1) < reg_rdx rctx"
      | "reg_r10 (ctx_of cl w1) AND IPC_CALL_RXSTR \<noteq> 0" "\<not> reg_rdx (ctx_of cl w1) < reg_rdx rctx" by blast
    then show ?thesis
    proof cases
      case 1
      then show ?thesis using rx response_error_inv [OF w1(1,3,4), of EINVAL] unfolding run by auto
    next
      case 2
      then show ?thesis using rx response_error_inv [OF w1(1,3,4), of E2BIG] unfolding run by auto
    next
      case 3
      obtain k0 where sv0: "cpu_context_save (pw_kernel w1) = Some (self, k0)" "ipc_inv (w1\<lparr>pw_kernel := k0\<rparr>) c xs" "current k0 = None"
        "state_of k0 self = FLOATING" "t_ctx (threads k0 self) = user_ctx (pw_kernel w1)" "user_mode (user_ctx (pw_kernel w1))"
        "\<And>x. x \<noteq> self \<Longrightarrow> threads k0 x = threads (pw_kernel w1) x"
        using save_inv [OF w1(1,6)] by blast
      let ?w = "w1\<lparr>pw_kernel := k0\<rparr>"
      have a: "state_of (pw_kernel ?w) self = FLOATING" "user_mode (ctx_of self ?w)" "current (pw_kernel ?w) = None"
        and b: "state_of (pw_kernel ?w) cl = FLOATING" "user_mode (ctx_of cl ?w)"
        using sv0(3-7) w1(3-5) by (simp_all add: ctx_of_def)
      obtain r where r: "copy_string m now self cl (reg_rdx rctx) ?w = Some r" and
        cs: "case r of
           Inl w' \<Rightarrow> (\<exists>c' xs'. ipc_inv w' c' xs') \<and> pw_servers w' = pw_servers ?w \<and>
             (\<exists>g i. {g, i} = {self, cl} \<and> reg_rax (ctx_of g w') = neg_errno EFAULT \<and> reg_rax (ctx_of i w') = neg_errno EIPCIO)
         | Inr w' \<Rightarrow> ipc_inv w' c xs \<and> pw_servers w' = pw_servers ?w \<and>
             (\<exists>mem p. w' = ?w\<lparr>pw_mem := mem, pw_kernel := (pw_kernel ?w)\<lparr>cr3 := p\<rparr>\<rparr>)"
        using copy_string_inv [OF sv0(2) a(3) a(1,2) b w1(5) [symmetric], of m now "reg_rdx rctx"] by blast
      show ?thesis
      proof (cases r)
        case (Inl w')
        then show ?thesis using cs r rx 3 sv0(1) unfolding run by (auto simp: kassert_def)
      next
        case (Inr w2)
        then have w2: "ipc_inv w2 c xs" using cs by simp
        obtain mem p where e2: "w2 = ?w\<lparr>pw_mem := mem, pw_kernel := (pw_kernel ?w)\<lparr>cr3 := p\<rparr>\<rparr>" using cs Inr by auto
        define w3 where "w3 = on_kernel (upd_ctx cl (\<lambda>c. c\<lparr>reg_rax := reg_rdi (ctx_of self w2), reg_rdx := reg_rdx rctx\<rparr>)) w2"
        have w3: "ipc_inv w3 c xs" unfolding w3_def by (rule upd_ctx_inv [OF w2]) (use b(1) e2 in simp_all)
        have f3: "state_of (pw_kernel w3) x = state_of k0 x" "reg_cs (ctx_of x w3) = reg_cs (ctx_of x ?w)"
          "current (pw_kernel w3) = None" for x
          using a(3) by (simp_all add: w3_def e2) (simp_all add: ctx_of_def)
        define w4 where "w4 = on_kernel (upd_ctx self (reg_rax_update (\<lambda>_. 0))) w3"
        have w4: "ipc_inv w4 c xs" unfolding w4_def by (rule upd_ctx_inv [OF w3]) (use a(1) f3 in simp_all)
        have f4: "state_of (pw_kernel w4) x = state_of k0 x" "reg_cs (ctx_of x w4) = reg_cs (ctx_of x ?w)"
          "current (pw_kernel w4) = None" for x
          using f3 by (simp_all add: w4_def)
        have s4: "state_of (pw_kernel w4) self = FLOATING" "user_mode (ctx_of self w4)" using a(1,2) f4 by simp_all
        obtain w5 where w5: "with_kernel (schedule_ready self) w4 = Some w5" "ipc_inv w5 (c(RunQueue := c RunQueue @ [self])) xs"
          "current (pw_kernel w5) = current (pw_kernel w4)"
          "threads (pw_kernel w5) = (threads (pw_kernel w4))(self := (threads (pw_kernel w4) self)\<lparr>t_state := READY\<rparr>)"
          using ready_inv [OF w4 s4] by blast
        have s5: "current (pw_kernel w5) = None" "state_of (pw_kernel w5) cl = FLOATING" "user_mode (ctx_of cl w5)"
          using w5(3,4) f4(3) f4(1) [of cl] f4(2) [of cl] b w1(5) by (simp_all add: ctx_of_def)
        obtain k' where k': "cpu_context_restore_and_exit cl (pw_kernel w5) = Some k'" "ipc_inv (w5\<lparr>pw_kernel := k'\<rparr>) (c(RunQueue := c RunQueue @ [self])) xs"
          using exit_to_inv [OF w5(2) s5] by blast
        have w45: "on_kernel (set_r0 self 0) w3 = w4" by (simp add: w4_def on_kernel_def set_r0_def)
        have x: "with_kernel (cpu_context_restore_and_exit cl) w5 = Some (w5\<lparr>pw_kernel := k'\<rparr>)"
          using k'(1) by (simp add: with_kernel_def)
        have "ipc_respond m now rctx w = Some (Departed, w5\<lparr>pw_kernel := k'\<rparr>)"
          using 3 unfolding run if_not_P [OF rx] if_not_P [OF 3(1)] if_not_P [OF 3(2)]
          by (simp add: sv0(1) r Inr w3_def [symmetric] w45 w5(1) x)
        with k'(2) show ?thesis by blast
      qed
    qed
  qed
qed

section \<open>Sequences of calls\<close>

text \<open>
  What a user thread can do with servers, as one step each: a thread is started (as \<open>process_spawn\<close> does
  with a thread it has just allocated), the current thread runs and changes its registers, an idle
  processor looks for work, a server is created, and the calls on servers.
\<close>

datatype ipc_op =
    Start tid registers
  | User registers
  | Tick
  | Create nat "u8 list"
  | Call nat registers
  | Read nat
  | Write nat
  | Listen nat registers
  | Respond registers

definition run_op :: "machine \<Rightarrow> u64 \<Rightarrow> ipc_op \<Rightarrow> ipc_world \<Rightarrow> ipc_world option" where
  "run_op m now op w = (case op of
     Start t r \<Rightarrow> with_kernel (schedule_ready t) (on_kernel (upd_ctx t (\<lambda>_. r)) w)
   | User r \<Rightarrow> Some (on_kernel (user_ctx_update (\<lambda>_. r)) w)
   | Tick \<Rightarrow> depart m now w
   | Create s tr \<Rightarrow> (case ipc_create True tr of Inl e \<Rightarrow> Some w | Inr sv \<Rightarrow> Some (upd_server s (Some sv) w))
   | Call s ctx \<Rightarrow> map_option snd (ipc_call m now s ctx w)
   | Read s \<Rightarrow> map_option snd (ipc_read m now s w)
   | Write s \<Rightarrow> map_option snd (ipc_write m now s w)
   | Listen s ctx \<Rightarrow> map_option snd (ipc_listen m now s ctx w)
   | Respond ctx \<Rightarrow> map_option snd (ipc_respond m now ctx w))"

text \<open>What must hold for a step to happen. A handle keeps its server alive; the two hypotheses of
  \<open>Listen\<close> beyond that are what the code does not check: the channel number is not zero, and the listener
  owes nobody an answer.\<close>

definition allowed :: "ipc_world \<Rightarrow> ipc_op \<Rightarrow> bool" where
  "allowed w op \<longleftrightarrow> (case op of
     Start t r \<Rightarrow> state_of (pw_kernel w) t = FLOATING \<and> user_mode r
   | User r \<Rightarrow> current (pw_kernel w) \<noteq> None \<and> user_mode r
   | Tick \<Rightarrow> current (pw_kernel w) = None
   | Create s tr \<Rightarrow> length tr = TRANSFER_MAX \<and> (\<forall>i. queue_empty s i w)
   | Call s ctx \<Rightarrow> current (pw_kernel w) \<noteq> None \<and> (case pw_servers w s of None \<Rightarrow> False | Some sv \<Rightarrow> \<not> closed_call sv)
   | Read s \<Rightarrow> current (pw_kernel w) \<noteq> None \<and> (case pw_servers w s of None \<Rightarrow> False | Some sv \<Rightarrow> \<not> closed_call sv)
   | Write s \<Rightarrow> current (pw_kernel w) \<noteq> None \<and> (case pw_servers w s of None \<Rightarrow> False | Some sv \<Rightarrow> \<not> closed_call sv)
   | Listen s ctx \<Rightarrow> (case pw_servers w s of None \<Rightarrow> False | Some sv \<Rightarrow> \<not> closed_listen sv) \<and> reg_r10 ctx \<noteq> 0 \<and>
       (case current (pw_kernel w) of None \<Rightarrow> False | Some t \<Rightarrow> t_caller (threads (pw_kernel w) t) = None)
   | Respond ctx \<Rightarrow> current (pw_kernel w) \<noteq> None)"

definition boot_world :: "bytes \<Rightarrow> ipc_world" where
  "boot_world mem = \<lparr>pw_kernel = boot_kernel, pw_servers = (\<lambda>_. None), pw_mem = mem\<rparr>"

inductive reachable :: "machine \<Rightarrow> ipc_world \<Rightarrow> bool" for m :: machine where
  boot: "reachable m (boot_world mem)"
| step: "reachable m w \<Longrightarrow> allowed w op \<Longrightarrow> run_op m now op w = Some w' \<Longrightarrow> reachable m w'"

lemma boot_world_inv: "ipc_inv (boot_world mem) (\<lambda>_. []) []"
  using boot_inv by (simp add: ipc_inv_def boot_world_def callers_ok_def chans_ok_def boot_kernel_def idle_thread_def)

lemma call_transfer_mode_bound: "call_transfer_mode ctx = Inr mode \<Longrightarrow> mode < TRANSFER_MAX"
  by (auto simp: call_transfer_mode_def Let_def IPC_TRANSFER_SMALLSTR_def IPC_TRANSFER_LARGESTR_def
      IPC_TRANSFER_REGISTER_def TRANSFER_MAX_def split: if_splits option.splits)

lemma scan_transfers_cases:
  "(case scan_transfers chs mx of
      Inl e \<Rightarrow> e = EINVAL \<and> (\<exists>ch\<in>set chs. 5 < unat ch)
    | Inr n \<Rightarrow> (\<forall>ch\<in>set chs. unat ch \<le> 5 \<and> unat ch \<le> n) \<and> mx \<le> n \<and> (n = mx \<or> n \<in> unat ` set chs))"
proof (induction chs arbitrary: mx)
  case (Cons ch chs)
  have five: "word_of_nat TRANSFER_MAX < ch \<longleftrightarrow> 5 < unat ch" by (simp add: TRANSFER_MAX_def word_less_nat_alt)
  have z: "ch = 0 \<Longrightarrow> unat ch = 0" by simp
  show ?case using Cons [of mx] Cons [of "if mx < unat ch then unat ch else mx"]
    by (auto simp: five not_less split: sum.splits if_splits)
qed simp

lemma op_inv:
  assumes inv: "ipc_inv w c xs" and al: "allowed w op"
  shows "\<exists>w' c' xs'. run_op m now op w = Some w' \<and> ipc_inv w' c' xs'"
proof (cases op)
  case (Start t r)
  have t: "state_of (pw_kernel w) t = FLOATING" "user_mode r" using al Start by (simp_all add: allowed_def)
  let ?k = "pw_kernel w" and ?w = "on_kernel (upd_ctx t (\<lambda>_. r)) w"
  have s: "sched_inv ?k c xs" and co: "callers_ok ?k" and ch: "chans_ok (pw_servers w) ?k c xs"
    using inv by (simp_all add: ipc_inv_def)
  have nw: "t \<notin> set (c q)" for q using not_waiting(1) [OF s, of t q] t by auto
  have "modes_ok (upd_ctx t (\<lambda>_. r) ?k)" using s t by (auto simp: sched_inv_def modes_ok_def)
  moreover have st: "state_of (upd_ctx t (\<lambda>_. r) ?k) = state_of ?k" "ns_of (upd_ctx t (\<lambda>_. r) ?k) = ns_of ?k"
    by (simp_all add: fun_eq_iff)
  ultimately have "sched_inv (upd_ctx t (\<lambda>_. r) ?k) c xs"
    using s unfolding sched_inv_def st by (simp add: links_ok_def)
  moreover have "callers_ok (upd_ctx t (\<lambda>_. r) ?k)" by (rule callers_ok_cong [OF co]) auto
  moreover have "chans_ok (pw_servers w) (upd_ctx t (\<lambda>_. r) ?k) c xs"
    by (rule chans_ok_cong [OF ch refl]) (use nw in \<open>auto split: if_splits\<close>)
  ultimately have i: "ipc_inv ?w c xs" by (simp add: ipc_inv_def on_kernel_def)
  have "state_of (pw_kernel ?w) t = FLOATING" "user_mode (ctx_of t ?w)" using t by simp_all
  from ready_inv [OF i this] show ?thesis unfolding Start by (elim exE conjE) (auto simp: run_op_def simp del: fun_upd_apply)
next
  case (User r)
  have t: "current (pw_kernel w) \<noteq> None" "user_mode r" using al User by (simp_all add: allowed_def)
  let ?k = "pw_kernel w"
  have s: "sched_inv ?k c xs" and co: "callers_ok ?k" and ch: "chans_ok (pw_servers w) ?k c xs"
    using inv by (simp_all add: ipc_inv_def)
  have "sched_inv (?k\<lparr>user_ctx := r\<rparr>) c xs" using s t by (simp add: sched_inv_def links_ok_def modes_ok_def)
  moreover have "callers_ok (?k\<lparr>user_ctx := r\<rparr>)" by (rule callers_ok_cong [OF co]) simp_all
  moreover have "chans_ok (pw_servers w) (?k\<lparr>user_ctx := r\<rparr>) c xs" by (rule chans_ok_cong [OF ch]) simp_all
  ultimately have "ipc_inv (on_kernel (user_ctx_update (\<lambda>_. r)) w) c xs" by (simp add: ipc_inv_def on_kernel_def)
  then show ?thesis using User by (auto simp: run_op_def)
next
  case Tick
  then have "current (pw_kernel w) = None" using al by (simp add: allowed_def)
  from depart_inv [OF inv this, of m now] show ?thesis unfolding Tick by (auto simp: run_op_def)
next
  case (Create s tr)
  have l: "length tr = TRANSFER_MAX" and e: "\<And>i. queue_empty s i w" using al Create by (simp_all add: allowed_def)
  have si: "sched_inv (pw_kernel w) c xs" using inv by (simp add: ipc_inv_def)
  have q: "c (ChanQueue s i) = []" for i using e queue_empty_iff [OF si] by simp
  show ?thesis
  proof (cases "ipc_create True tr")
    case (Inl e)
    then show ?thesis using Create inv by (auto simp: run_op_def)
  next
    case (Inr sv)
    then have "server_ok (pw_kernel w) (\<lambda>i. c (ChanQueue s i)) sv"
      using l q by (auto simp: ipc_create_def server_ok_def channel_ok_def split: sum.splits)
    then have "ipc_inv (upd_server s (Some sv) w) c xs"
      using inv by (simp add: ipc_inv_def upd_server_def chans_ok_def)
    then show ?thesis using Create Inr by (auto simp: run_op_def)
  qed
next
  case (Call s ctx)
  then obtain t sv where t: "current (pw_kernel w) = Some t" "pw_servers w s = Some sv" "\<not> closed_call sv"
    using al by (auto simp: allowed_def split: option.splits)
  show ?thesis
  proof (cases "call_transfer_mode ctx")
    case (Inl e)
    then show ?thesis using Call inv by (auto simp: run_op_def ipc_call_def)
  next
    case (Inr mode)
    with ipc_call_mode_inv [OF inv t call_transfer_mode_bound [OF Inr], of m now] Call show ?thesis
      by (auto simp: run_op_def ipc_call_def)
  qed
next
  case (Read s)
  then obtain t sv where t: "current (pw_kernel w) = Some t" "pw_servers w s = Some sv" "\<not> closed_call sv"
    using al by (auto simp: allowed_def split: option.splits)
  have "IPC_TRANSFER_READ < TRANSFER_MAX" by (simp add: IPC_TRANSFER_READ_def TRANSFER_MAX_def)
  from ipc_call_mode_inv [OF inv t this, of m now] Read show ?thesis by (auto simp: run_op_def ipc_read_def)
next
  case (Write s)
  then obtain t sv where t: "current (pw_kernel w) = Some t" "pw_servers w s = Some sv" "\<not> closed_call sv"
    using al by (auto simp: allowed_def split: option.splits)
  have "IPC_TRANSFER_WRITE < TRANSFER_MAX" by (simp add: IPC_TRANSFER_WRITE_def TRANSFER_MAX_def)
  from ipc_call_mode_inv [OF inv t this, of m now] Write show ?thesis by (auto simp: run_op_def ipc_write_def)
next
  case (Listen s ctx)
  then obtain t sv where t: "current (pw_kernel w) = Some t" "pw_servers w s = Some sv" "\<not> closed_listen sv"
    "reg_r10 ctx \<noteq> 0" "t_caller (threads (pw_kernel w) t) = None"
    using al by (auto simp: allowed_def split: option.splits)
  from ipc_listen_inv [OF inv t, of m now] Listen show ?thesis by (auto simp: run_op_def)
next
  case (Respond ctx)
  then obtain t where t: "current (pw_kernel w) = Some t" using al by (auto simp: allowed_def)
  from ipc_respond_inv [OF inv t, of m now ctx] Respond show ?thesis by (auto simp: run_op_def)
qed

lemma reachable_inv: "reachable m w \<Longrightarrow> \<exists>c xs. ipc_inv w c xs"
proof (induction rule: reachable.induct)
  case (boot mem)
  then show ?case using boot_world_inv by blast
next
  case (step w op now w')
  then obtain c xs where "ipc_inv w c xs" by blast
  from op_inv [OF this step.hyps(2), of m now] step.hyps(3) show ?case by auto
qed

section \<open>What a call and a response do\<close>

text \<open>C10. Inter-process calls never bring the kernel down, with two conditions the code does not check: in
  every state reachable from boot by starting threads, running user code, creating servers, calling,
  reading, writing, listening and responding, each further such step that its caller may make completes
  without a failed assertion, as long as a listener names a channel other than 0 and owes no answer.\<close>

theorem ipc_never_panics:
  assumes "reachable m w" and "allowed w op"
  shows "\<exists>w'. run_op m now op w = Some w' \<and> reachable m w'"
proof -
  obtain c xs where inv: "ipc_inv w c xs" using reachable_inv [OF assms(1)] by blast
  from op_inv [OF inv assms(2), of m now] obtain w' where "run_op m now op w = Some w'" by blast
  with assms show ?thesis by (blast intro: reachable.step)
qed

definition small_machine :: machine where
  "small_machine = \<lparr>m_translate = (\<lambda>_ a _. Inr (unat a)), m_virt_to_phys = (\<lambda>_ a. a), m_hhdm = 0, m_idle_rip = 0, m_kernel_stack = 0\<rparr>"

theorem ipc_never_panics_witness:
  "\<exists>w'. run_op small_machine 0 (Start 1 (zero_registers\<lparr>reg_cs := GDT_USER64_CODE\<rparr>)) (boot_world (\<lambda>_. 0)) = Some w' \<and> reachable small_machine w'"
  by (rule ipc_never_panics [OF reachable.boot]) (simp add: allowed_def boot_world_def boot_kernel_def idle_thread_def)

text \<open>Creating a server succeeds exactly when every transfer is mapped to a channel number of at most
  5; the number of channels is then the largest one mapped, so every mapped channel exists, all channels are empty and
  both ends are open. Otherwise the error is \<open>EINVAL\<close>, before any memory is asked for; without memory it
  is \<open>ENOMEM\<close>.\<close>

theorem ipc_create_exact:
  "ipc_create mem_ok transfers =
     (if \<exists>ch\<in>set transfers. 5 < unat ch then Inl EINVAL
      else if mem_ok then Inr \<lparr>transfer_map = transfers, channel_count = Max (insert 0 (unat ` set transfers)),
        closed_call = False, closed_listen = False, channels = (\<lambda>_. CH_EMPTY)\<rparr>
      else Inl ENOMEM)"
proof (cases "scan_transfers transfers 0")
  case (Inl e)
  then show ?thesis using scan_transfers_cases [of transfers 0] by (auto simp: ipc_create_def)
next
  case (Inr n)
  then have n: "\<forall>ch\<in>set transfers. unat ch \<le> 5 \<and> unat ch \<le> n" "n = 0 \<or> n \<in> unat ` set transfers"
    using scan_transfers_cases [of transfers 0] by auto
  have "Max (insert 0 (unat ` set transfers)) = n" by (rule Max_eqI) (use n in auto)
  then show ?thesis using Inr n(1) by (force simp: ipc_create_def)
qed


text \<open>A response without a string goes to the thread that is owed one and to no other: the caller
  becomes ready with the responder's first two arguments as its results, its other registers and every other thread's are as
  they were, the responder goes on running with nothing owed, and answering again gives \<open>ENODEV\<close>.\<close>

theorem ipc_respond_registers:
  assumes inv: "ipc_inv w c xs" and cur: "current (pw_kernel w) = Some self"
    and cl: "t_caller (threads (pw_kernel w) self) = Some cl" and rx: "reg_r10 rctx AND IPC_CALL_RXSTR = 0"
  shows "\<exists>w'. ipc_respond m now rctx w = Some (Returned (Inr ()), w') \<and>
    ipc_inv w' (c(RunQueue := c RunQueue @ [cl])) xs \<and> current (pw_kernel w') = Some self \<and>
    ctx_of cl w' = (ctx_of cl w)\<lparr>reg_rax := reg_rdi rctx, reg_rdx := reg_rsi rctx\<rparr> \<and>
    (\<forall>x. x \<noteq> cl \<longrightarrow> ctx_of x w' = ctx_of x w \<and> state_of (pw_kernel w') x = state_of (pw_kernel w) x) \<and>
    ipc_respond m now' rctx' w' = Some (Returned (Inl ENODEV), w')"
proof -
  define w1 where "w1 = on_kernel (set_state cl FLOATING) (on_kernel (upd_thread self (t_caller_update (\<lambda>_. None))) w)"
  note w1 = settle_inv [OF inv cur cl, folded w1_def]
  have cc: "state_of (pw_kernel (on_kernel (upd_thread self (t_caller_update (\<lambda>_. None))) w)) cl = CALLING"
    using w1(2,5) by simp
  note run = ipc_respond_def [of m now rctx w, unfolded cur Let_def Option.bind.simps(2) cl option.case(2)
      kassert_def if_P [OF cc] w1_def [symmetric]]
  let ?w = "on_kernel (upd_ctx cl (\<lambda>c. c\<lparr>reg_rax := reg_rdi rctx, reg_rdx := reg_rsi rctx\<rparr>)) w1"
  have i: "ipc_inv ?w c xs" by (rule upd_ctx_inv [OF w1(1)]) (use w1(3) in simp_all)
  have "state_of (pw_kernel ?w) cl = FLOATING" "user_mode (ctx_of cl ?w)" using w1(3,4) by simp_all
  from ready_inv [OF i this] obtain w' where w': "with_kernel (schedule_ready cl) ?w = Some w'"
    "ipc_inv w' (c(RunQueue := c RunQueue @ [cl])) xs" "current (pw_kernel w') = current (pw_kernel ?w)"
    "threads (pw_kernel w') = (threads (pw_kernel ?w))(cl := (threads (pw_kernel ?w) cl)\<lparr>t_state := READY\<rparr>)"
    by blast
  have r: "ipc_respond m now rctx w = Some (Returned (Inr ()), w')"
    unfolding run by (simp add: rx w'(1))
  have x1: "ctx_of x w1 = ctx_of x w" "x \<noteq> cl \<Longrightarrow> state_of (pw_kernel w1) x = state_of (pw_kernel w) x" for x
    by (simp_all add: w1_def ctx_of_def)
  have x2: "ctx_of x w' = ctx_of x ?w" "x \<noteq> cl \<Longrightarrow> state_of (pw_kernel w') x = state_of (pw_kernel w1) x" for x
    using w'(4) by (simp_all add: ctx_of_def)
  have x3: "current (pw_kernel w') = Some self" "t_caller (threads (pw_kernel w') self) = None"
    using w'(3,4) w1(5-7) by simp_all
  have "ipc_respond m now' rctx' w' = Some (Returned (Inl ENODEV), w')"
    using clear_caller_inv [OF w'(2) x3(2)] x3 by (simp add: ipc_respond_def)
  with r w'(2) x1 x2 x3(1) show ?thesis by (simp del: fun_upd_apply)
qed

text \<open>The detailed form of the property below, shared with the witnesses.\<close>

lemma call_delivers:
  assumes inv: "ipc_inv w c xs" and cur: "current (pw_kernel w) = Some t"
    and sv: "pw_servers w s = Some sv" "\<not> closed_call sv" "\<not> closed_listen sv"
    and id: "transfer_map sv ! IPC_TRANSFER_REGISTER \<noteq> 0" "i = unat (transfer_map sv ! IPC_TRANSFER_REGISTER) - 1"
    and li: "channels sv i = CH_LISTENING" and q: "c (ChanQueue s i) = l # ls"
  shows "\<exists>w' xs'. ipc_call_mode m now s IPC_TRANSFER_REGISTER w = Some (Departed, w') \<and>
    ipc_inv w' (c(ChanQueue s i := ls)) xs' \<and> current (pw_kernel w') = Some l \<and>
    cr3 (pw_kernel w') = t_page_map (threads (pw_kernel w) l) \<and>
    user_ctx (pw_kernel w') = (let a = user_ctx (pw_kernel w); b = ctx_of l w in
      b\<lparr>reg_rip := reg_r8 b, reg_rsi := reg_rsi a, reg_rdx := reg_rdx a, reg_r10 := reg_r10 a, reg_r8 := reg_r8 a, reg_r9 := reg_r9 a\<rparr>) \<and>
    state_of (pw_kernel w') t = CALLING \<and> t_caller (threads (pw_kernel w') l) = Some t"
proof -
  have ok: "\<not> closed_call sv \<and> \<not> closed_listen sv" using sv by simp
  obtain k0 where sv0: "cpu_context_save (pw_kernel w) = Some (t, k0)" "ipc_inv (w\<lparr>pw_kernel := k0\<rparr>) c xs" "current k0 = None"
    "state_of k0 t = FLOATING" "t_ctx (threads k0 t) = user_ctx (pw_kernel w)" "user_mode (user_ctx (pw_kernel w))"
    "\<And>x. x \<noteq> t \<Longrightarrow> threads k0 x = threads (pw_kernel w) x"
    using save_inv [OF inv cur] by blast
  let ?f = "reg_rdi_update (\<lambda>_. word_of_nat IPC_TRANSFER_REGISTER)"
  define w1 where "w1 = w\<lparr>pw_kernel := upd_ctx t ?f k0\<rparr>"
  have w1': "w1 = on_kernel (upd_ctx t ?f) (w\<lparr>pw_kernel := k0\<rparr>)"
    by (simp add: w1_def on_kernel_def)
  have w1: "ipc_inv w1 c xs" unfolding w1' by (rule upd_ctx_inv [OF sv0(2)]) (use sv0(4) in simp_all)
  have f1: "current (pw_kernel w1) = None" "state_of (pw_kernel w1) t = FLOATING" "user_mode (ctx_of t w1)"
    "pw_servers w1 s = Some sv" using sv0(3-6) sv(1) by (simp_all add: w1_def ctx_of_def)
  have lc: "t_caller (threads (pw_kernel w1) l) = None"
    using server_channel(1) [OF w1 f1(4) ok, of i] q li by (simp add: channel_ok_def)
  obtain k xs' where k: "pop_from (ChanQueue s i) (pw_kernel w1) = Some (Some l, k)"
    "ipc_inv (leave_channel s i k w1) (c(ChanQueue s i := ls)) xs'" "current k = current (pw_kernel w1)"
    "state_of k = (state_of (pw_kernel w1))(l := FLOATING)" "user_mode (t_ctx (threads k l))" "state_of (pw_kernel w1) l = WAITING"
    "\<And>x. t_ctx (threads k x) = t_ctx (threads (pw_kernel w1) x)" "\<And>x. t_caller (threads k x) = t_caller (threads (pw_kernel w1) x)"
    "\<And>x. t_page_map (threads k x) = t_page_map (threads (pw_kernel w1) x)"
    using take_inv [OF w1 q f1(4) ok] by blast
  let ?w2 = "leave_channel s i k w1"
  have tl: "t \<noteq> l" using f1(2) k(6) by auto
  have p: "parties ?w2 t l"
    using tl k(3-8) f1(1-3) lc by (simp add: parties_def ctx_of_def fun_eq_iff)
  define a where "a = ctx_of t ?w2"
  define b where "b = ctx_of l ?w2"
  define w3 where "w3 = on_kernel (upd_ctx l (\<lambda>l. l\<lparr>reg_r8 := reg_r8 a, reg_r9 := reg_r9 a\<rparr>)) ?w2"
  have w3: "ipc_inv w3 (c(ChanQueue s i := ls)) xs'" "parties w3 t l"
    using parties_upd [OF p k(2), of l] by (simp_all add: w3_def)
  define w4 where "w4 = on_kernel (upd_ctx l (\<lambda>l. l\<lparr>reg_rsi := reg_rsi a, reg_rdx := reg_rdx a, reg_r10 := reg_r10 a\<rparr>)) w3"
  have w4: "ipc_inv w4 (c(ChanQueue s i := ls)) xs'" "parties w4 t l"
    using parties_upd [OF w3(2,1), of l] by (simp_all add: w4_def)
  have pp: "current (pw_kernel w4) = None" "state_of (pw_kernel w4) t = FLOATING" "user_mode (ctx_of t w4)"
    "state_of (pw_kernel w4) l = FLOATING" "user_mode (ctx_of l w4)" "t \<noteq> l" "t_caller (threads (pw_kernel w4) l) = None"
    using w4(2) by (simp_all add: parties_def)
  obtain w' where w': "deliver t l (reg_r8 b) w4 = Some w'" "ipc_inv w' (c(ChanQueue s i := ls)) xs'"
    "current (pw_kernel w') = Some l" "user_ctx (pw_kernel w') = (ctx_of l w4)\<lparr>reg_rip := reg_r8 b\<rparr>"
    "cr3 (pw_kernel w') = t_page_map (threads (pw_kernel w4) l)"
    "state_of (pw_kernel w') t = CALLING" "t_caller (threads (pw_kernel w') l) = Some t"
    using deliver_inv [OF w4(1) pp(1-7), of "reg_r8 b"] by blast
  have pre: "state_of (pw_kernel ?w2) t = FLOATING" "state_of (pw_kernel ?w2) l = FLOATING"
    "t_caller (threads (pw_kernel ?w2) l) = None" using p by (simp_all add: parties_def)
  have "call_transfer m now t l IPC_TRANSFER_REGISTER ?w2 = deliver t l (reg_r8 b) w4"
    using pre unfolding call_transfer_def Let_def b_def [symmetric] a_def [symmetric] w3_def [symmetric] w4_def [symmetric]
    by simp
  then have run: "ipc_call_mode m now s IPC_TRANSFER_REGISTER w = Some (Departed, w')"
    using w'(1) k(1) id sv sv0(1) li by (simp add: ipc_call_mode_def Let_def w1_def leave_channel_def unat_eq_zero cong: if_cong)
  have ab: "reg_rsi a = reg_rsi (user_ctx (pw_kernel w))" "reg_rdx a = reg_rdx (user_ctx (pw_kernel w))"
    "reg_r10 a = reg_r10 (user_ctx (pw_kernel w))" "reg_r8 a = reg_r8 (user_ctx (pw_kernel w))"
    "reg_r9 a = reg_r9 (user_ctx (pw_kernel w))" "b = ctx_of l w"
    using tl k(7) sv0(5,7) by (simp_all add: a_def b_def ctx_of_def w1_def)
  have pm: "t_page_map (threads (pw_kernel w4) l) = t_page_map (threads (pw_kernel w) l)"
    using tl k(9) sv0(7) by (simp add: w4_def w3_def w1_def)
  have "ctx_of l w4 = b\<lparr>reg_r8 := reg_r8 a, reg_r9 := reg_r9 a, reg_rsi := reg_rsi a, reg_rdx := reg_rdx a, reg_r10 := reg_r10 a\<rparr>"
    by (simp add: w4_def w3_def b_def)
  then have "user_ctx (pw_kernel w') = b\<lparr>reg_rip := reg_r8 b, reg_rsi := reg_rsi a, reg_rdx := reg_rdx a, reg_r10 := reg_r10 a,
      reg_r8 := reg_r8 a, reg_r9 := reg_r9 a\<rparr>" using w'(4) by simp
  then show ?thesis using run w'(2,3,5-7) ab pm unfolding Let_def by (intro exI conjI) (assumption | simp)+
qed

text \<open>C36. A call by registers to a channel where a thread listens reaches the first listener: it runs at once at the
  callback it gave, in its own address space, with the caller's arguments after the first in the same argument registers, and the caller is stopped until that listener answers. The rest of the channel's queue stays.\<close>

theorem ipc_call_delivers:
  assumes inv: "ipc_inv w c xs" and cur: "current (pw_kernel w) = Some t"
    and sv: "pw_servers w s = Some sv" "\<not> closed_call sv" "\<not> closed_listen sv"
    and id: "transfer_map sv ! IPC_TRANSFER_REGISTER \<noteq> 0" "i = unat (transfer_map sv ! IPC_TRANSFER_REGISTER) - 1"
    and li: "channels sv i = CH_LISTENING" and q: "c (ChanQueue s i) = l # ls"
  shows "\<exists>w' xs'. ipc_call_mode m now s IPC_TRANSFER_REGISTER w = Some (Departed, w') \<and>
    ipc_inv w' (c(ChanQueue s i := ls)) xs' \<and> current (pw_kernel w') = Some l \<and>
    cr3 (pw_kernel w') = t_page_map (threads (pw_kernel w) l) \<and>
    user_ctx (pw_kernel w') = (let a = user_ctx (pw_kernel w); b = ctx_of l w in
      b\<lparr>reg_rip := reg_r8 b, reg_rsi := reg_rsi a, reg_rdx := reg_rdx a, reg_r10 := reg_r10 a, reg_r8 := reg_r8 a, reg_r9 := reg_r9 a\<rparr>) \<and>
    state_of (pw_kernel w') t = CALLING \<and> t_caller (threads (pw_kernel w') l) = Some t"
  using call_delivers [OF assms] .


text \<open>A small world for the witnesses: thread 1 listens on the only channel of server 0, thread 2 runs.\<close>

definition users :: kernel where
  "users = upd_ctx 1 (\<lambda>_. zero_registers\<lparr>reg_cs := GDT_USER64_CODE\<rparr>)
     (upd_ctx 2 (\<lambda>_. zero_registers\<lparr>reg_cs := GDT_USER64_CODE\<rparr>) boot_kernel)"

definition small_server :: ipc_server where
  "small_server = \<lparr>transfer_map = [1, 1, 1, 1, 1], channel_count = 1, closed_call = False, closed_listen = False,
     channels = (\<lambda>_. CH_EMPTY)(0 := CH_LISTENING)\<rparr>"

definition listening :: kernel where
  "listening = the (push_into 1 (ChanQueue 0 0) users)"

definition listening_world :: ipc_world where
  "listening_world = \<lparr>pw_kernel = the (cpu_context_restore_and_exit 2 listening),
     pw_servers = (\<lambda>_. None)(0 := Some small_server), pw_mem = (\<lambda>_. 0)\<rparr>"

lemma listening_world_ok:
  "ipc_inv listening_world ((\<lambda>_. [])(ChanQueue 0 0 := [1])) []" "current (pw_kernel listening_world) = Some 2"
  "pw_servers listening_world 0 = Some small_server"
proof -
  have st: "state_of users = state_of boot_kernel" "ns_of users = ns_of boot_kernel" by (simp_all add: users_def fun_eq_iff)
  have "modes_ok users" by (simp add: modes_ok_def users_def boot_kernel_def idle_thread_def)
  then have core: "core_inv users (\<lambda>_. []) []"
    using boot_inv unfolding sched_inv_core core_inv_def st by (simp add: users_def)
  have l: "links_ok users []" using boot_inv by (simp add: users_def sched_inv_core links_ok_def)
  have t: "state_of users 1 = FLOATING" "user_mode (t_ctx (threads users 1))" "state_of users 2 = FLOATING" "user_mode (t_ctx (threads users 2))"
    by (simp_all add: users_def boot_kernel_def idle_thread_def)
  obtain h where h: "push_into 1 (ChanQueue 0 0) users = Some ((set_state 1 WAITING users)\<lparr>wait_q := h\<rparr>)"
    "core_inv ((set_state 1 WAITING users)\<lparr>wait_q := h\<rparr>) ((\<lambda>_. [])(ChanQueue 0 0 := [] @ [1])) []"
    using push_into_core [OF core l t(1), of "ChanQueue 0 0"] t(2) by blast
  have k: "listening = (set_state 1 WAITING users)\<lparr>wait_q := h\<rparr>" using h(1) by (simp add: listening_def)
  let ?c = "(\<lambda>_. [])(ChanQueue 0 0 := [1])"
  have s: "sched_inv listening ?c []" using h(2) l unfolding k by (simp add: sched_inv_core links_ok_def)
  let ?w = "\<lparr>pw_kernel = listening, pw_servers = (\<lambda>_. None)(0 := Some small_server), pw_mem = (\<lambda>_. 0)\<rparr>"
  have tc: "t_caller (threads listening x) = None" for x by (simp add: k users_def boot_kernel_def idle_thread_def)
  have "ipc_inv ?w ?c []"
    using s tc by (auto simp: ipc_inv_def callers_ok_def chans_ok_def server_ok_def small_server_def TRANSFER_MAX_def channel_ok_def)
  moreover have "current (pw_kernel ?w) = None" "state_of (pw_kernel ?w) 2 = FLOATING" "user_mode (ctx_of 2 ?w)"
    using t(3,4) by (simp_all add: k ctx_of_def users_def boot_kernel_def)
  ultimately obtain k' where k': "cpu_context_restore_and_exit 2 (pw_kernel ?w) = Some k'"
    "ipc_inv (?w\<lparr>pw_kernel := k'\<rparr>) ?c []" "current k' = Some 2" using exit_to_inv by blast
  have e: "listening_world = ?w\<lparr>pw_kernel := k'\<rparr>" using k'(1) by (simp add: listening_world_def)
  show "ipc_inv listening_world ?c []" unfolding e by (rule k'(2))
  show "current (pw_kernel listening_world) = Some 2" unfolding e by (simp add: k'(3))
  show "pw_servers listening_world 0 = Some small_server" unfolding e by simp
qed

lemma small_server_open: "\<not> closed_call small_server" "\<not> closed_listen small_server"
  "transfer_map small_server ! IPC_TRANSFER_REGISTER \<noteq> 0"
  "0 = unat (transfer_map small_server ! IPC_TRANSFER_REGISTER) - 1" "channels small_server 0 = CH_LISTENING"
  by (simp_all add: small_server_def IPC_TRANSFER_REGISTER_def)

theorem ipc_call_delivers_witness:
  "\<exists>w'. ipc_call_mode small_machine 7 0 IPC_TRANSFER_REGISTER listening_world = Some (Departed, w') \<and>
    current (pw_kernel w') = Some 1 \<and> state_of (pw_kernel w') 2 = CALLING"
  using ipc_call_delivers [OF listening_world_ok small_server_open, of 1 "[]" small_machine 7] by auto

text \<open>The world after that call.\<close>

definition called_world :: ipc_world where
  "called_world = snd (the (ipc_call_mode small_machine 7 0 IPC_TRANSFER_REGISTER listening_world))"

lemma called_world_ok: "\<exists>c xs. ipc_inv called_world c xs" "current (pw_kernel called_world) = Some 1"
  "t_caller (threads (pw_kernel called_world) 1) = Some 2"
proof -
  obtain w' xs' where "ipc_call_mode small_machine 7 0 IPC_TRANSFER_REGISTER listening_world = Some (Departed, w')"
    "ipc_inv w' ((\<lambda>_. [])(ChanQueue 0 0 := [])) xs'" "current (pw_kernel w') = Some 1"
    "t_caller (threads (pw_kernel w') 1) = Some 2"
    using call_delivers [OF listening_world_ok small_server_open, of 1 "[]" small_machine 7]
    by (auto simp: fun_upd_idem_iff)
  then show "\<exists>c xs. ipc_inv called_world c xs" "current (pw_kernel called_world) = Some 1"
    "t_caller (threads (pw_kernel called_world) 1) = Some 2" by (auto simp: called_world_def)
qed

theorem ipc_respond_registers_witness:
  "\<exists>w'. ipc_respond small_machine 8 zero_registers called_world = Some (Returned (Inr ()), w')"
proof -
  obtain c xs where inv: "ipc_inv called_world c xs" using called_world_ok(1) by blast
  have "reg_r10 zero_registers AND IPC_CALL_RXSTR = 0" by (simp add: zero_registers_def)
  from ipc_respond_registers [OF inv called_world_ok(2,3) this, of small_machine 8 0 zero_registers] show ?thesis by blast
qed

section \<open>Closing both ends\<close>

text \<open>Waking the waiters does not reset the channel, so the channel's own test fails when the other end is closed.\<close>

lemma close_channels_run:
  "sched_inv (pw_kernel w) c xs \<Longrightarrow> distinct is \<Longrightarrow> \<forall>i\<in>set is. channels sv i = CH_EMPTY \<longleftrightarrow> c (ChanQueue s i) = [] \<Longrightarrow>
   \<exists>w' c' xs'. close_channels s a b is sv w = Some w' \<and> sched_inv (pw_kernel w') c' xs' \<and> pw_servers w' = pw_servers w \<and>
     (\<forall>i\<in>set is. c' (ChanQueue s i) = []) \<and> (\<forall>i. i \<notin> set is \<longrightarrow> c' (ChanQueue s i) = c (ChanQueue s i))"
proof (induction "is" arbitrary: w c xs)
  case (Cons i js)
  have qe: "queue_empty s i w \<longleftrightarrow> c (ChanQueue s i) = []" using Cons.prems(1) queue_empty_iff by blast
  show ?case
  proof (cases "channels sv i")
    case CH_EMPTY
    then have e: "c (ChanQueue s i) = []" using Cons.prems(3) by simp
    obtain w' c' xs' where r: "close_channels s a b js sv w = Some w'" "sched_inv (pw_kernel w') c' xs'" "pw_servers w' = pw_servers w"
      "\<forall>i\<in>set js. c' (ChanQueue s i) = []" "\<forall>i. i \<notin> set js \<longrightarrow> c' (ChanQueue s i) = c (ChanQueue s i)"
      using Cons.IH [OF Cons.prems(1)] Cons.prems(2,3) by auto
    have "close_channels s a b (i # js) sv w = Some w'" using r(1) CH_EMPTY qe e by simp
    with r(2-5) e Cons.prems(2) show ?thesis by auto
  next
    case CH_LISTENING
    let ?c = "c(ChanQueue s i := [], RunQueue := c RunQueue @ c (ChanQueue s i))"
    obtain k where k: "schedule_wake_all (ChanQueue s i) (neg_errno a) (pw_kernel w) = Some k"
      "sched_inv k ?c (filter (\<lambda>t. t \<notin> set (c (ChanQueue s i))) xs)"
      using wake_all_inv [OF Cons.prems(1), of "ChanQueue s i", OF _ refl] by blast
    let ?w = "w\<lparr>pw_kernel := k\<rparr>"
    have h: "\<forall>j\<in>set js. channels sv j = CH_EMPTY \<longleftrightarrow> ?c (ChanQueue s j) = []" using Cons.prems(2,3) by auto
    have k2: "sched_inv (pw_kernel ?w) ?c (filter (\<lambda>t. t \<notin> set (c (ChanQueue s i))) xs)" using k(2) by (simp del: fun_upd_apply)
    have d: "distinct js" using Cons.prems(2) by simp
    obtain w' c' xs' where r: "close_channels s a b js sv ?w = Some w'" "sched_inv (pw_kernel w') c' xs'" "pw_servers w' = pw_servers ?w"
      "\<forall>i\<in>set js. c' (ChanQueue s i) = []" "\<forall>i. i \<notin> set js \<longrightarrow> c' (ChanQueue s i) = ?c (ChanQueue s i)" using Cons.IH [OF k2 d h] by blast
    have "close_channels s a b (i # js) sv w = Some w'"
      using r(1) k(1) CH_LISTENING Cons.prems(3) qe by (simp add: with_kernel_def)
    with r(2-5) Cons.prems(2) show ?thesis by auto
  next
    case CH_CALLING
    let ?c = "c(ChanQueue s i := [], RunQueue := c RunQueue @ c (ChanQueue s i))"
    obtain k where k: "schedule_wake_all (ChanQueue s i) (neg_errno b) (pw_kernel w) = Some k"
      "sched_inv k ?c (filter (\<lambda>t. t \<notin> set (c (ChanQueue s i))) xs)"
      using wake_all_inv [OF Cons.prems(1), of "ChanQueue s i", OF _ refl] by blast
    let ?w = "w\<lparr>pw_kernel := k\<rparr>"
    have h: "\<forall>j\<in>set js. channels sv j = CH_EMPTY \<longleftrightarrow> ?c (ChanQueue s j) = []" using Cons.prems(2,3) by auto
    have k2: "sched_inv (pw_kernel ?w) ?c (filter (\<lambda>t. t \<notin> set (c (ChanQueue s i))) xs)" using k(2) by (simp del: fun_upd_apply)
    have d: "distinct js" using Cons.prems(2) by simp
    obtain w' c' xs' where r: "close_channels s a b js sv ?w = Some w'" "sched_inv (pw_kernel w') c' xs'" "pw_servers w' = pw_servers ?w"
      "\<forall>i\<in>set js. c' (ChanQueue s i) = []" "\<forall>i. i \<notin> set js \<longrightarrow> c' (ChanQueue s i) = ?c (ChanQueue s i)" using Cons.IH [OF k2 d h] by blast
    have "close_channels s a b (i # js) sv w = Some w'"
      using r(1) k(1) CH_CALLING Cons.prems(3) qe by (simp add: with_kernel_def)
    with r(2-5) Cons.prems(2) show ?thesis by auto
  qed
qed auto

lemma close_channels_stuck:
  "sched_inv (pw_kernel w) c xs \<Longrightarrow> \<forall>j\<in>set is. c (ChanQueue s j) = [] \<Longrightarrow> i \<in> set is \<Longrightarrow> channels sv i \<noteq> CH_EMPTY \<Longrightarrow>
   close_channels s a b is sv w = None"
proof (induction "is")
  case (Cons j js)
  have e: "queue_empty s j w" using Cons.prems(1,2) queue_empty_iff by (metis list.set_intros(1))
  show ?case
  proof (cases "channels sv j")
    case CH_EMPTY
    then have "i \<in> set js" using Cons.prems by auto
    then show ?thesis using Cons CH_EMPTY e by simp
  qed (use e in simp_all)
qed simp

text \<open>Closing the call side of a server wakes all the waiters of its channels, but a channel that had any keeps
  its state, and closing the listening side of that server then fails the channel's own assertion: the
  kernel panics. Any two processes sharing a server can reach this by exiting while one of them waits.\<close>

theorem ipc_double_close_panics:
  assumes inv: "ipc_inv w c xs" and sv: "pw_servers w s = Some sv" "\<not> closed_call sv" "\<not> closed_listen sv"
    and i: "i < channel_count sv" "channels sv i \<noteq> CH_EMPTY"
  shows "\<exists>w'. ipc_handle_close s w = Some w' \<and> ipc_close s tree_root w' = None"
proof -
  let ?sv = "sv\<lparr>closed_call := True\<rparr>" and ?is = "[0..<channel_count sv]"
  let ?w = "upd_server s (Some ?sv) w"
  have s: "sched_inv (pw_kernel ?w) c xs" using inv by (simp add: ipc_inv_def upd_server_def)
  have ch: "channel_ok (pw_kernel w) (channels sv j) (c (ChanQueue s j))" for j
    using inv sv by (simp add: ipc_inv_def chans_ok_def server_ok_def)
  have q: "\<forall>j\<in>set ?is. channels ?sv j = CH_EMPTY \<longleftrightarrow> c (ChanQueue s j) = []"
  proof
    fix j show "channels ?sv j = CH_EMPTY \<longleftrightarrow> c (ChanQueue s j) = []"
      using ch [of j] by (cases "channels sv j") (auto simp: channel_ok_def)
  qed
  obtain w' c' xs' where w': "close_channels s EPIPE EBADF ?is ?sv ?w = Some w'" "sched_inv (pw_kernel w') c' xs'"
    "pw_servers w' = pw_servers ?w" "\<forall>j\<in>set ?is. c' (ChanQueue s j) = []"
    using close_channels_run [OF s distinct_upt q, of EPIPE EBADF] by blast
  have c1: "ipc_handle_close s w = Some w'" using w'(1) sv by (simp add: ipc_handle_close_def)
  let ?sv2 = "?sv\<lparr>closed_listen := True\<rparr>"
  have "sched_inv (pw_kernel (upd_server s (Some ?sv2) w')) c' xs'" using w'(2) by (simp add: upd_server_def)
  from close_channels_stuck [OF this w'(4), of i ?sv2] i
  have "close_channels s EBADF EPIPE ?is ?sv2 (upd_server s (Some ?sv2) w') = None" by simp
  then have "ipc_close s tree_root w' = None" using w'(3) by (simp add: ipc_close_def upd_server_def)
  with c1 show ?thesis by blast
qed

theorem ipc_double_close_panics_witness:
  "\<exists>w'. ipc_handle_close 0 listening_world = Some w' \<and> ipc_close 0 \<lparr>tnodes = \<lambda>_. null_node, troot = Some 0, rng_state = 1\<rparr> w' = None"
  by (rule ipc_double_close_panics [OF listening_world_ok(1,3), of 0]) (simp_all add: small_server_def)

end
