(* ===== verification/Mmu.thy ===== *)
theory Mmu
  imports Alloc Memory
begin

unbundle bit_operations_syntax

text \<open>
  Page tables: \<open>kernel/src/x86_64/mmu.c\<close>.

  The tables live in the memory of the page allocator (\<open>mem_state\<close>, 64-bit cells by virtual address), so
  that allocating, clearing and freeing a table is the allocator's own operation on the same cells. \<open>h\<close>
  is the base of the direct map (\<open>hhdm_offset\<close>). A page map is the physical address of its top table;
  \<open>CR3\<close> is the argument \<open>cr3\<close>. A failed assertion or a panic, and an access outside a table, is \<open>None\<close>.

  A depth is the number of the level, 4 for \<open>PML4\<close> down to 1 for \<open>PT\<close>.
\<close>

section \<open>Cells and pages\<close>

definition phys_to_virt :: "u64 \<Rightarrow> u64 \<Rightarrow> nat" where
  "phys_to_virt h p = unat (p + h)"

definition hhdm_virt_to_phys :: "u64 \<Rightarrow> nat \<Rightarrow> u64" where
  "hhdm_virt_to_phys h v = word_of_nat v - h"

definition load64 :: "nat \<Rightarrow> mem_state \<Rightarrow> u64" where
  "load64 a s = word_of_nat (words s a)"

definition store64 :: "nat \<Rightarrow> u64 \<Rightarrow> mem_state \<Rightarrow> mem_state" where
  "store64 a v s = s\<lparr>words := (words s)(a := unat v)\<rparr>"

text \<open>\<open>memcpy\<close> between disjoint blocks.\<close>

definition copy_cells :: "nat \<Rightarrow> nat \<Rightarrow> nat \<Rightarrow> mem_state \<Rightarrow> mem_state" where
  "copy_cells dst src n s = s\<lparr>words := (\<lambda>a. if dst \<le> a \<and> a < dst + n then words s (src + (a - dst)) else words s a)\<rparr>"

definition mmu_alloc_page :: "mem_state \<Rightarrow> (nat \<times> mem_state) option" where
  "mmu_alloc_page s = do {
     (page, s) \<leftarrow> alloc_page s;
     kassert (page \<noteq> 0);
     Some (page, s\<lparr>words := fill page PAGE_SIZE 0 (words s)\<rparr>)
   }"

section \<open>Entries\<close>

definition PRESENT :: u64 where "PRESENT = 1"
definition PTE_WRITE :: u64 where "PTE_WRITE = 2"
definition PTE_USER :: u64 where "PTE_USER = 4"
definition WRITE_THROUGH :: u64 where "WRITE_THROUGH = 8"
definition CACHE_DISABLE :: u64 where "CACHE_DISABLE = 16"
definition PS_BIT :: u64 where "PS_BIT = 128"
definition NO_EXECUTE :: u64 where "NO_EXECUTE = 0x8000000000000000"
definition INTERMEDIATE :: u64 where "INTERMEDIATE = PRESENT OR PTE_WRITE OR PTE_USER"

definition MMU_MODE_EXEC :: u32 where "MMU_MODE_EXEC = 1"
definition MMU_MODE_WRITE :: u32 where "MMU_MODE_WRITE = 2"
definition MMU_MODE_USER :: u32 where "MMU_MODE_USER = 4"
definition MMU_CACHE_NONE :: u32 where "MMU_CACHE_NONE = 1"

definition TABLE_ENTRY_COUNT :: nat where "TABLE_ENTRY_COUNT = 512"
definition TABLE_ENTRY_ADDRESS_MASK :: u64 where "TABLE_ENTRY_ADDRESS_MASK = 0x000ffffffffff000"

abbreviation present :: "u64 \<Rightarrow> bool" where
  "present e \<equiv> e AND PRESENT \<noteq> 0"

definition entry_address_bits :: "u64 \<Rightarrow> nat \<Rightarrow> u64" where
  "entry_address_bits h page = hhdm_virt_to_phys h page AND TABLE_ENTRY_ADDRESS_MASK"

definition entry_target :: "u64 \<Rightarrow> u64 \<Rightarrow> nat" where
  "entry_target h e = phys_to_virt h (e AND TABLE_ENTRY_ADDRESS_MASK)"

definition entry_flags :: "u32 \<Rightarrow> u32 \<Rightarrow> u64" where
  "entry_flags cache mode =
     (let e = PRESENT;
          e = (if mode AND MMU_MODE_EXEC = 0 then e OR NO_EXECUTE else e);
          e = (if mode AND MMU_MODE_USER \<noteq> 0 then e OR PTE_USER else e);
          e = (if mode AND MMU_MODE_WRITE \<noteq> 0 then e OR PTE_WRITE else e)
      in (if cache AND MMU_CACHE_NONE \<noteq> 0 then e OR (WRITE_THROUGH OR CACHE_DISABLE) else e))"

definition virt_shift :: "nat \<Rightarrow> nat" where
  "virt_shift d = 3 + 9 * d"

definition table_index :: "nat \<Rightarrow> u64 \<Rightarrow> nat" where
  "table_index d address = unat (0x1ff AND drop_bit (virt_shift d) address)"

text \<open>The cell of entry \<open>i\<close>. An index beyond the table is an access out of bounds.\<close>

definition entry_cell :: "nat \<Rightarrow> nat \<Rightarrow> nat" where
  "entry_cell table i = table + 8 * i"

section \<open>Translation\<close>

definition virt_to_phys :: "u64 \<Rightarrow> u64 \<Rightarrow> u64 \<Rightarrow> mem_state \<Rightarrow> u64" where
  "virt_to_phys h pm address s =
     (let e = load64 (entry_cell (phys_to_virt h pm) (table_index 4 address)) s in
      if \<not> present e then 0
      else let e = load64 (entry_cell (entry_target h e) (table_index 3 address)) s in
      if \<not> present e then 0
      else if e AND PS_BIT \<noteq> 0 then (e AND 0x000fffffc0000000) OR (address AND 0x3fffffff)
      else let e = load64 (entry_cell (entry_target h e) (table_index 2 address)) s in
      if \<not> present e then 0
      else if e AND PS_BIT \<noteq> 0 then (e AND 0x000fffffffe00000) OR (address AND 0x1fffff)
      else let e = load64 (entry_cell (entry_target h e) (table_index 1 address)) s in
      if \<not> present e then 0
      else (e AND 0x000ffffffffff000) OR (address AND 0xfff))"

section \<open>Walking over a range\<close>

text \<open>A loop whose body may fail.\<close>

fun mfold :: "('a \<Rightarrow> 's \<Rightarrow> 's option) \<Rightarrow> 'a list \<Rightarrow> 's \<Rightarrow> 's option" where
  "mfold f [] s = Some s"
| "mfold f (x # xs) s = f x s \<bind> mfold f xs"

definition round_down_p2 :: "u64 \<Rightarrow> u64 \<Rightarrow> u64" where
  "round_down_p2 v p = v AND NOT (p - 1)"

definition round_up_p2 :: "u64 \<Rightarrow> u64 \<Rightarrow> u64" where
  "round_up_p2 v p = (v + p - 1) AND NOT (p - 1)"

text \<open>The prologue that the walks share: the size of what an entry covers, the base of the table, and the
  first and one past the last index of the range.\<close>

definition pointee_size :: "nat \<Rightarrow> u64" where
  "pointee_size d = push_bit (virt_shift d) 1"

definition table_base :: "nat \<Rightarrow> u64 \<Rightarrow> u64" where
  "table_base d vbegin = round_down_p2 vbegin (512 * pointee_size d)"

definition index_range :: "nat \<Rightarrow> u64 \<Rightarrow> u64 \<Rightarrow> nat list" where
  "index_range d vbegin vend =
     [unat (drop_bit (virt_shift d) (round_down_p2 vbegin (pointee_size d) - table_base d vbegin))
      ..< unat (drop_bit (virt_shift d) (round_up_p2 vend (pointee_size d) - table_base d vbegin))]"

definition next_vbegin :: "nat \<Rightarrow> u64 \<Rightarrow> nat \<Rightarrow> u64" where
  "next_vbegin d vbegin i = max (push_bit (virt_shift d) (word_of_nat i) + table_base d vbegin) vbegin"

definition next_vend :: "nat \<Rightarrow> u64 \<Rightarrow> u64 \<Rightarrow> nat \<Rightarrow> u64" where
  "next_vend d vbegin vend i = min (push_bit (virt_shift d) (word_of_nat (i + 1)) + table_base d vbegin) vend"

text \<open>The variant of \<open>edit\<close>, which subtracts one so that an end of \<open>2 ^ 64\<close> compares as the largest address.\<close>

definition next_vend_edit :: "nat \<Rightarrow> u64 \<Rightarrow> u64 \<Rightarrow> nat \<Rightarrow> u64" where
  "next_vend_edit d vbegin vend i =
     min (push_bit (virt_shift d) (word_of_nat (i + 1)) + table_base d vbegin - 1) (vend - 1) + 1"

section \<open>Mapping, unmapping, changing, copying\<close>

primrec assign :: "nat \<Rightarrow> u64 \<Rightarrow> nat \<Rightarrow> u64 \<Rightarrow> u64 \<Rightarrow> u64 \<Rightarrow> mem_state \<Rightarrow> mem_state option" where
  "assign 0 h table vbegin vend flags s = None"
| "assign (Suc d) h table vbegin vend flags s =
     mfold (\<lambda>i s. do {
       kassert (i < TABLE_ENTRY_COUNT);
       let cell = entry_cell table i;
       let e = load64 cell s;
       if 0 < d then do {
         (next_page, s) \<leftarrow> (if \<not> present e then do {
             (p, s) \<leftarrow> mmu_alloc_page s;
             Some (p, store64 cell (entry_address_bits h p OR INTERMEDIATE) s)
           } else Some (entry_target h e, s));
         assign d h next_page (next_vbegin (Suc d) vbegin i) (next_vend (Suc d) vbegin vend i) flags s
       } else do {
         kassert (\<not> present e);
         (p, s) \<leftarrow> mmu_alloc_page s;
         Some (store64 cell (entry_address_bits h p OR flags) s)
       }
     }) (index_range (Suc d) vbegin vend) s"

text \<open>The result of \<open>clear\<close> says that the table has become empty.\<close>

definition table_empty :: "nat \<Rightarrow> mem_state \<Rightarrow> bool" where
  "table_empty table s \<longleftrightarrow> (\<forall>i\<in>set [0..<TABLE_ENTRY_COUNT]. \<not> present (load64 (entry_cell table i) s))"

primrec clear :: "nat \<Rightarrow> u64 \<Rightarrow> nat \<Rightarrow> u64 \<Rightarrow> u64 \<Rightarrow> mem_state \<Rightarrow> (bool \<times> mem_state) option" where
  "clear 0 h table vbegin vend s = None"
| "clear (Suc d) h table vbegin vend s = do {
     s \<leftarrow> mfold (\<lambda>i s. do {
       kassert (i < TABLE_ENTRY_COUNT);
       let cell = entry_cell table i;
       let e = load64 cell s;
       if present e then do {
         let target = entry_target h e;
         (gone, s) \<leftarrow> (if d = 0 then Some (True, s)
           else clear d h target (next_vbegin (Suc d) vbegin i) (next_vend (Suc d) vbegin vend i) s);
         if gone then do { s \<leftarrow> free_page target s; Some (store64 cell 0 s) } else Some s
       } else Some s
     }) (index_range (Suc d) vbegin vend) s;
     Some (table_empty table s, s)
   }"

primrec edit :: "nat \<Rightarrow> u64 \<Rightarrow> nat \<Rightarrow> u64 \<Rightarrow> u64 \<Rightarrow> u64 \<Rightarrow> mem_state \<Rightarrow> mem_state option" where
  "edit 0 h table vbegin vend flags s = None"
| "edit (Suc d) h table vbegin vend flags s = do {
     kassert (vbegin < vend);
     mfold (\<lambda>i s. do {
       kassert (i < TABLE_ENTRY_COUNT);
       let cell = entry_cell table i;
       let e = load64 cell s;
       kassert (present e);
       let target = entry_target h e;
       if 0 < d
       then edit d h target (next_vbegin (Suc d) vbegin i) (next_vend_edit (Suc d) vbegin vend i) flags s
       else Some (store64 cell (entry_address_bits h target OR flags) s)
     }) (index_range (Suc d) vbegin vend) s
   }"

primrec clone_table :: "nat \<Rightarrow> u64 \<Rightarrow> nat \<Rightarrow> nat \<Rightarrow> mem_state \<Rightarrow> mem_state option" where
  "clone_table 0 h inn out s = None"
| "clone_table (Suc d) h inn out s =
     mfold (\<lambda>i s. do {
       let e = load64 (entry_cell inn i) s;
       let to = entry_cell out i;
       if present e then do {
         (next_page, s) \<leftarrow> mmu_alloc_page s;
         if 0 < d then do {
           let s = store64 to (entry_address_bits h next_page OR INTERMEDIATE) s;
           clone_table d h (entry_target h e) next_page s
         } else do {
           let permissions = e AND NOT TABLE_ENTRY_ADDRESS_MASK;
           let s = store64 to (entry_address_bits h next_page OR permissions) s;
           Some (copy_cells next_page (entry_target h e) PAGE_SIZE s)
         }
       } else Some s
     }) [0..<(if Suc d = 4 then TABLE_ENTRY_COUNT div 2 else TABLE_ENTRY_COUNT)] s"

section \<open>The operations on a page map\<close>

definition validate_limits :: "u64 \<Rightarrow> u64 \<Rightarrow> unit option" where
  "validate_limits address len = do {
     kassert ((address OR len) AND word_of_nat (PAGE_SIZE - 1) = 0);
     kassert (0 < sint len);
     if unat address \<le> MEM_LOW_HALF_MAX then kassert (unat (address + len) \<le> MEM_LOW_HALF_MAX)
     else do {
       kassert (MEM_HIGH_HALF_MIN \<le> unat address);
       kassert (MEM_HIGH_HALF_MIN \<le> unat (address + len))
     }
   }"

definition mmu_assign :: "u64 \<Rightarrow> u64 \<Rightarrow> u64 \<Rightarrow> u64 \<Rightarrow> u32 \<Rightarrow> u32 \<Rightarrow> mem_state \<Rightarrow> mem_state option" where
  "mmu_assign h pm address len mode cache s = do {
     validate_limits address len;
     assign 4 h (phys_to_virt h pm) address (address + len) (entry_flags cache mode) s
   }"

definition mmu_clear :: "u64 \<Rightarrow> u64 \<Rightarrow> u64 \<Rightarrow> u64 \<Rightarrow> mem_state \<Rightarrow> mem_state option" where
  "mmu_clear h pm address len s = do {
     validate_limits address len;
     map_option snd (clear 4 h (phys_to_virt h pm) address (address + len) s)
   }"

definition mmu_edit :: "u64 \<Rightarrow> u64 \<Rightarrow> u64 \<Rightarrow> u64 \<Rightarrow> u32 \<Rightarrow> u32 \<Rightarrow> mem_state \<Rightarrow> mem_state option" where
  "mmu_edit h pm address len mode cache s = do {
     validate_limits address len;
     edit 4 h (phys_to_virt h pm) address (address + len) (entry_flags cache mode) s
   }"

text \<open>One step of \<open>mmu_point1\<close>: the next table, allocated when it is missing. Below the top level an entry
  that maps a large page is a panic.\<close>

definition point_step :: "u64 \<Rightarrow> nat \<Rightarrow> u64 \<Rightarrow> nat \<Rightarrow> mem_state \<Rightarrow> (nat \<times> mem_state) option" where
  "point_step h d address table s = do {
     let cell = entry_cell table (table_index d address);
     let e = load64 cell s;
     s \<leftarrow> (if \<not> present e then do {
         (p, s) \<leftarrow> mmu_alloc_page s;
         Some (store64 cell (entry_address_bits h p OR INTERMEDIATE) s)
       } else do { kassert (\<not> (d < 4 \<and> e AND PS_BIT \<noteq> 0)); Some s });
     Some (entry_target h (load64 cell s), s)
   }"

definition mmu_point1 :: "u64 \<Rightarrow> u64 \<Rightarrow> u64 \<Rightarrow> u64 \<Rightarrow> u32 \<Rightarrow> u32 \<Rightarrow> mem_state \<Rightarrow> mem_state option" where
  "mmu_point1 h pm address target mode cache s = do {
     let table = phys_to_virt h pm;
     (table, s) \<leftarrow> point_step h 4 address table s;
     (table, s) \<leftarrow> point_step h 3 address table s;
     (table, s) \<leftarrow> point_step h 2 address table s;
     let cell = entry_cell table (table_index 1 address);
     kassert (\<not> present (load64 cell s));
     Some (store64 cell ((target AND TABLE_ENTRY_ADDRESS_MASK) OR entry_flags cache mode) s)
   }"

text \<open>Creating and cloning: the upper half of the top table, the kernel's, is shared.\<close>

definition mmu_create_address_space :: "u64 \<Rightarrow> u64 \<Rightarrow> u64 \<Rightarrow> mem_state \<Rightarrow> (u64 \<times> mem_state) option" where
  "mmu_create_address_space h cr3 out s = do {
     kassert (out = 0);
     (page, s) \<leftarrow> mmu_alloc_page s;
     let current = phys_to_virt h cr3;
     let half = PAGE_SIZE div 2;
     let s = copy_cells (page + half) (current + half) half s;
     Some (hhdm_virt_to_phys h page, s)
   }"

definition mmu_destroy_address_space :: "u64 \<Rightarrow> u64 \<Rightarrow> u64 \<Rightarrow> mem_state \<Rightarrow> mem_state option" where
  "mmu_destroy_address_space h cr3 pm s = do {
     kassert (pm \<noteq> cr3);
     s \<leftarrow> mmu_clear h pm 0 (word_of_nat MEM_LOW_HALF_MAX) s;
     free_page (phys_to_virt h pm) s
   }"

definition mmu_clone_address_space :: "u64 \<Rightarrow> u64 \<Rightarrow> u64 \<Rightarrow> mem_state \<Rightarrow> (u64 \<times> mem_state) option" where
  "mmu_clone_address_space h inn out s = do {
     kassert (out = 0);
     (to, s) \<leftarrow> mmu_alloc_page s;
     let from = phys_to_virt h inn;
     let half = PAGE_SIZE div 2;
     let s = copy_cells (to + half) (from + half) half s;
     s \<leftarrow> clone_table 4 h from to s;
     Some (hhdm_virt_to_phys h to, s)
   }"

text \<open>At boot the page map found in \<open>CR3\<close> becomes the root map, emptied of user mappings.\<close>

definition mmu_configure_root_address_space :: "u64 \<Rightarrow> u64 \<Rightarrow> mem_state \<Rightarrow> (u64 \<times> mem_state) option" where
  "mmu_configure_root_address_space h cr3 s = do {
     s \<leftarrow> mmu_clear h cr3 0 (word_of_nat MEM_LOW_HALF_MAX) s;
     Some (cr3, s)
   }"

text \<open>Loading \<open>CR3\<close>; the optimised form leaves it when it already holds the map.\<close>

definition mmu_set_address_space :: "u64 \<Rightarrow> u64 \<Rightarrow> u64" where
  "mmu_set_address_space pm cr3 = pm"

definition mmu_set_address_space_opt :: "u64 \<Rightarrow> u64 \<Rightarrow> u64" where
  "mmu_set_address_space_opt pm cr3 = (if cr3 \<noteq> pm then mmu_set_address_space pm cr3 else cr3)"

end
