(* ===== verification/Page_Tables.thy ===== *)
theory Page_Tables
  imports Mmu
begin

unbundle bit_operations_syntax

text \<open>
  Correctness of the page tables of \<open>Mmu\<close> for the user half of an address space.

  The invariant \<open>pt_inv\<close> describes the pages an address space owns by a ghost map \<open>G\<close>: a page has a depth (4 for
  the top table down to 1, 0 for a frame) and the first address it serves. What an operation means is its
  effect on \<open>leaf_entry\<close>, the entry a walk for an address ends at. Five primitive steps (a new table, a new
  frame, their removal, new permissions) are proved once; the recursive walks compose them.
\<close>

section \<open>Addresses and indices\<close>

definition span :: "nat \<Rightarrow> nat" where "span d = 2 ^ (3 + 9 * d)"

definition USER_END :: nat where "USER_END = 2 ^ 47"

lemma span_pos [simp]: "0 < span d"
  by (simp add: span_def)

lemma span_neq_0 [simp]: "span d \<noteq> 0"
  by (simp add: span_def)

lemma span_Suc: "span (Suc d) = 512 * span d"
  by (simp add: span_def power_add)

lemma span_vals: "span 0 = 8" "span 1 = 4096" "span 2 = 2 ^ 21" "span 3 = 2 ^ 30" "span 4 = 2 ^ 39" "span 5 = 2 ^ 48"
  by (simp_all add: span_def)

lemma span_le: "d \<le> 4 \<Longrightarrow> span d \<le> 2 ^ 39"
  unfolding span_def by (rule power_increasing) auto

definition tindex :: "nat \<Rightarrow> nat \<Rightarrow> nat" where "tindex d n = n div span d mod 512"

lemma table_index_nat: "d \<le> 4 \<Longrightarrow> table_index d a = tindex d (unat a)"
proof -
  have m: "(0x1ff :: u64) = mask 9" by (simp add: mask_eq_exp_minus_1)
  have "0x1ff AND drop_bit (virt_shift d) a = take_bit 9 (drop_bit (virt_shift d) a)"
    by (simp only: m take_bit_eq_mask and.commute)
  then have "table_index d a = unat (take_bit 9 (drop_bit (virt_shift d) a))" by (simp only: table_index_def)
  also have "\<dots> = take_bit 9 (drop_bit (virt_shift d) (unat a))"
    by (simp only: unsigned_take_bit_eq unat_drop_bit_eq)
  also have "\<dots> = tindex d (unat a)"
    by (simp add: take_bit_eq_mod drop_bit_eq_div tindex_def span_def virt_shift_def)
  finally show ?thesis .
qed

lemma tindex_less [simp]: "tindex d n < 512"
  by (simp add: tindex_def)

lemma tindex_at:
  assumes "span (Suc d) dvd b" "i < 512" "b + i * span d \<le> n" "n < b + (i + 1) * span d"
  shows "tindex d n = i"
proof -
  obtain k where b: "b = span (Suc d) * k" using assms(1) by (auto simp: dvd_def)
  have "n div span d = 512 * k + i"
    by (rule div_nat_eqI) (use assms in \<open>simp_all add: b span_Suc algebra_simps\<close>)
  then show ?thesis using assms(2) by (simp add: tindex_def)
qed

lemma tindex_region:
  assumes "span (Suc d) dvd b" "b \<le> n" "n < b + span (Suc d)"
  shows "b + tindex d n * span d \<le> n" "n < b + (tindex d n + 1) * span d"
proof -
  define i where "i = (n - b) div span d"
  have "(n - b) < 512 * span d" using assms by (simp add: span_Suc)
  then have i: "i < 512" unfolding i_def by (simp add: less_mult_imp_div_less)
  have lo: "i * span d \<le> n - b" unfolding i_def by (rule div_times_less_eq_dividend)
  have "n - b < span d * (i + 1)" unfolding i_def by (metis dividend_less_div_times span_pos mult.commute Suc_eq_plus1 mult_Suc_right add.commute)
  then have hi: "n - b < (i + 1) * span d" by (simp add: mult.commute)
  have "b + i * span d \<le> n" "n < b + (i + 1) * span d" using lo hi assms(2) by linarith+
  moreover from this have "tindex d n = i" by (intro tindex_at [OF assms(1) i])
  ultimately show "b + tindex d n * span d \<le> n" "n < b + (tindex d n + 1) * span d" by simp_all
qed

lemma pointee_size_pow: "d \<le> 4 \<Longrightarrow> pointee_size d = 2 ^ (3 + 9 * d)"
  by (simp add: pointee_size_def virt_shift_def push_bit_eq_mult)

lemma table_base_nat:
  assumes d: "1 \<le> d" "d \<le> 4" and b: "span (Suc d) dvd b" "b \<le> unat vb" "unat vb < b + span (Suc d)"
  shows "unat (table_base d vb) = b"
proof -
  have p: "512 * pointee_size d = (2 :: u64) ^ (3 + 9 * Suc d)"
    using d by (simp add: pointee_size_pow power_add)
  have "unat (table_base d vb) = unat vb div span (Suc d) * span (Suc d)"
    unfolding table_base_def round_down_p2_def p pow_minus_1 unat_and_not_mask span_def ..
  also have "unat vb div span (Suc d) = b div span (Suc d)"
    using b by (auto simp: dvd_def intro!: div_nat_eqI)
  finally show ?thesis using b(1) by simp
qed

lemma index_range_nat:
  assumes d: "1 \<le> d" "d \<le> 4" and b: "span (Suc d) dvd b" "b \<le> unat vb" "unat vb < unat ve"
    "unat ve \<le> b + span (Suc d)" "unat ve \<le> USER_END"
  shows "index_range d vb ve = [(unat vb - b) div span d ..< (unat ve - b + span d - 1) div span d]"
proof -
  let ?k = "3 + 9 * d"
  have tb: "unat (table_base d vb) = b" using b by (intro table_base_nat d) auto
  have sd: "span d dvd b" using b(1) by (auto simp: span_Suc dvd_def)
  have s: "span d = 2 ^ ?k" by (simp add: span_def)
  have ps: "pointee_size d = 2 ^ ?k" using d by (simp add: pointee_size_pow)
  have big: "span d \<le> 2 ^ 39" by (rule span_le [OF d(2)])
  have lo: "unat (round_down_p2 vb (pointee_size d)) = unat vb div span d * span d"
    unfolding round_down_p2_def ps pow_minus_1 unat_and_not_mask s ..
  have up1: "unat (ve + 2 ^ ?k - 1) = unat ve + span d - 1"
  proof -
    have k: "?k < 64" using d by simp
    have "unat (word_of_nat (2 ^ ?k) :: u64) = 2 ^ ?k mod 2 ^ 64" by (simp only: unat_of_nat) simp
    moreover have "(2 :: nat) ^ ?k < 2 ^ 64" using k by (intro power_strict_increasing) auto
    ultimately have e: "unat ((2 :: u64) ^ ?k) = span d" by (simp add: s)
    have sum: "unat (ve + 2 ^ ?k) = unat ve + span d"
      unfolding unat_word_ariths(1) e using b(5) big by (simp add: USER_END_def)
    have "(1 :: u64) \<le> ve + 2 ^ ?k" unfolding word_le_nat_alt sum using span_pos [of d] by (simp add: Suc_le_eq)
    then show ?thesis using sum by (simp add: unat_sub)
  qed
  have hi: "unat (round_up_p2 ve (pointee_size d)) = (unat ve + span d - 1) div span d * span d"
    unfolding round_up_p2_def ps pow_minus_1 unat_and_not_mask up1 s ..
  have bl: "b \<le> unat vb div span d * span d" "b \<le> (unat ve + span d - 1) div span d * span d"
  proof -
    obtain k where k: "b = k * span d" using sd by (auto simp: dvd_def mult.commute)
    then have "k \<le> unat vb div span d" using b(2) by (simp add: less_eq_div_iff_mult_less_eq)
    then show "b \<le> unat vb div span d * span d" by (simp add: k)
    have "k \<le> (unat ve + span d - 1) div span d" using b(2,3) k by (simp add: less_eq_div_iff_mult_less_eq)
    then show "b \<le> (unat ve + span d - 1) div span d * span d" by (simp add: k)
  qed
  have sub: "unat (x - table_base d vb) = unat x - b" if "b \<le> unat x" for x
    using that by (simp add: unat_sub tb word_le_nat_alt)
  have div: "(n div span d * span d - b) div span d = (n - b) div span d" for n
  proof -
    obtain k where k: "b = k * span d" using sd by (auto simp: dvd_def mult.commute)
    have "(n div span d * span d - b) div span d = n div span d - k"
      by (simp add: k flip: diff_mult_distrib)
    also have "\<dots> = (n - b) div span d"
    proof (cases "b \<le> n")
      case True
      then obtain m where "n = m + k * span d" by (auto simp: k le_iff_add)
      then show ?thesis by (simp add: k)
    next
      case False
      then have "n div span d < k" by (simp add: k div_less_iff_less_mult)
      with False show ?thesis by simp
    qed
    finally show ?thesis .
  qed
  have dr: "unat (drop_bit (virt_shift d) x) = unat x div span d" for x :: u64
    by (simp only: unat_drop_bit_eq) (simp add: drop_bit_eq_div s virt_shift_def)
  show ?thesis
    unfolding index_range_def dr using bl b(2,3)
    by (simp add: sub lo hi div)
qed


text \<open>\<open>fits d b vb ve\<close>: the pages of \<open>[vb, ve)\<close> are served by the table of depth \<open>d\<close> that starts at \<open>b\<close>.\<close>

definition fits :: "nat \<Rightarrow> nat \<Rightarrow> u64 \<Rightarrow> u64 \<Rightarrow> bool" where
  "fits d b vb ve \<longleftrightarrow> span (Suc d) dvd b \<and> b \<le> unat vb \<and> unat vb < unat ve \<and> unat ve \<le> b + span (Suc d) \<and>
     unat ve \<le> USER_END \<and> span 1 dvd unat vb \<and> span 1 dvd unat ve"

lemma span_dvd: "a \<le> b \<Longrightarrow> span a dvd span b"
  by (auto simp: span_def intro: le_imp_power_dvd)

lemma shifted_index:
  assumes d: "1 \<le> d" "d \<le> 4" and f: "fits d b vb ve" and i: "i \<le> 512"
  shows "unat (push_bit (virt_shift d) (word_of_nat i) + table_base d vb) = b + i * span d"
proof -
  have tb: "unat (table_base d vb) = b" using f by (intro table_base_nat d) (auto simp: fits_def)
  have le: "i * span d \<le> span (Suc d)" using i by (simp add: span_Suc)
  have b: "b < 2 ^ 47" using f by (auto simp: fits_def USER_END_def)
  have le': "span (Suc d) \<le> 2 ^ 48" using d span_le [OF d(2)] by (simp add: span_Suc)
  have "unat (word_of_nat i :: u64) = i" using i by (simp add: unat_of_nat)
  then have "unat (push_bit (virt_shift d) (word_of_nat i :: u64)) = take_bit 64 (push_bit (virt_shift d) i)"
    by (simp add: unsigned_push_bit_eq)
  also have "\<dots> = i * span d mod 2 ^ 64" by (simp add: push_bit_eq_mult take_bit_eq_mod virt_shift_def span_def)
  also have "\<dots> = i * span d" using le le' by simp
  finally have p: "unat (push_bit (virt_shift d) (word_of_nat i :: u64)) = i * span d" .
  show ?thesis unfolding unat_word_ariths(1) p tb using le le' b by simp
qed

lemma next_vbegin_nat:
  assumes "1 \<le> d" "d \<le> 4" "fits d b vb ve" "i < 512"
  shows "unat (next_vbegin d vb i) = max (b + i * span d) (unat vb)"
  using shifted_index [OF assms(1-3), of i] assms(4)
  by (simp add: next_vbegin_def max_def word_le_nat_alt)

lemma next_vend_nat:
  assumes "1 \<le> d" "d \<le> 4" "fits d b vb ve" "i < 512"
  shows "unat (next_vend d vb ve i) = min (b + Suc i * span d) (unat ve)"
  using shifted_index [OF assms(1-3), of "i + 1"] assms(4)
  by (simp add: next_vend_def min_def word_le_nat_alt del: of_nat_Suc)

lemma next_vend_edit_same:
  assumes "1 \<le> d" "d \<le> 4" "fits d b vb ve" "i < 512"
  shows "next_vend_edit d vb ve i = next_vend d vb ve i"
proof -
  define x where "x = push_bit (virt_shift d) (word_of_nat (i + 1)) + table_base d vb"
  have x: "unat x = b + Suc i * span d" using shifted_index [OF assms(1-3), of "i + 1"] assms(4) by (simp add: x_def)
  have pos: "0 < unat x" "0 < unat ve" using x assms(3) by (auto simp: fits_def)
  have le: "1 \<le> w" if "0 < unat w" for w :: u64 using that by (simp add: word_le_nat_alt)
  then have sub: "unat (w - 1) = unat w - 1" if "0 < unat w" for w :: u64 using that by (simp add: unat_sub)
  have "(x - 1 \<le> ve - 1) = (x \<le> ve)" using pos by (auto simp: word_le_nat_alt sub)
  then have "min (x - 1) (ve - 1) + 1 = min x ve" by (simp add: min_def)
  then show ?thesis by (simp add: next_vend_edit_def next_vend_def x_def)
qed

text \<open>The entries a walk visits, and what each of them covers.\<close>

definition visits :: "nat \<Rightarrow> nat \<Rightarrow> u64 \<Rightarrow> u64 \<Rightarrow> nat list" where
  "visits d b vb ve = [(unat vb - b) div span d ..< (unat ve - b + span d - 1) div span d]"

lemma index_range_visits: "1 \<le> d \<Longrightarrow> d \<le> 4 \<Longrightarrow> fits d b vb ve \<Longrightarrow> index_range d vb ve = visits d b vb ve"
  unfolding visits_def by (rule index_range_nat) (auto simp: fits_def)

lemma visits_iff:
  assumes "fits d b vb ve"
  shows "i \<in> set (visits d b vb ve) \<longleftrightarrow> unat vb < b + Suc i * span d \<and> b + i * span d < unat ve"
proof -
  have le: "b \<le> unat vb" "b < unat ve" using assms by (auto simp: fits_def)
  have "(unat vb - b) div span d \<le> i \<longleftrightarrow> unat vb - b < Suc i * span d"
    by (simp add: less_Suc_eq_le [symmetric] div_less_iff_less_mult del: mult_Suc)
  moreover have "i < (unat ve - b + span d - 1) div span d \<longleftrightarrow> i * span d < unat ve - b"
  proof -
    have "i < (unat ve - b + span d - 1) div span d \<longleftrightarrow> Suc i * span d \<le> unat ve - b + span d - 1"
      by (metis Suc_le_eq less_eq_div_iff_mult_less_eq span_pos)
    also have "\<dots> \<longleftrightarrow> i * span d < unat ve - b" unfolding mult_Suc using span_pos [of d] le by (intro iffI) linarith+
    finally show ?thesis .
  qed
  ultimately show ?thesis using le by (auto simp: visits_def)
qed

lemma visits_less:
  assumes "fits d b vb ve" "i \<in> set (visits d b vb ve)"
  shows "i < 512"
proof -
  have "b + i * span d < unat ve" using assms by (simp add: visits_iff)
  also have "\<dots> \<le> b + 512 * span d" using assms(1) by (simp add: fits_def span_Suc)
  finally show ?thesis by simp
qed

lemma visits_distinct [simp]: "distinct (visits d b vb ve)"
  by (simp add: visits_def)

lemma fits_child:
  assumes d: "1 \<le> d" "Suc d \<le> 4" and f: "fits (Suc d) b vb ve" and i: "i \<in> set (visits (Suc d) b vb ve)"
  shows "fits d (b + i * span (Suc d)) (next_vbegin (Suc d) vb i) (next_vend (Suc d) vb ve i)"
proof -
  have i': "i < 512" using f i by (rule visits_less)
  have n: "unat (next_vbegin (Suc d) vb i) = max (b + i * span (Suc d)) (unat vb)"
    "unat (next_vend (Suc d) vb ve i) = min (b + Suc i * span (Suc d)) (unat ve)"
    using next_vbegin_nat [OF _ d(2) f i'] next_vend_nat [OF _ d(2) f i'] by simp_all
  have bd: "span (Suc d) dvd b" using f span_dvd [of "Suc d" "Suc (Suc d)"] by (auto simp: fits_def intro: dvd_trans)
  have s1: "span 1 dvd span (Suc d)" by (rule span_dvd) simp
  have "span 1 dvd b" using bd s1 by (rule dvd_trans [rotated])
  with s1 have al: "span 1 dvd b + j * span (Suc d)" for j by simp
  have vd: "span 1 dvd unat vb" "span 1 dvd unat ve" using f by (auto simp: fits_def)
  have "unat vb < b + Suc i * span (Suc d)" "b + i * span (Suc d) < unat ve" "unat vb < unat ve" "unat ve \<le> USER_END"
    using i f by (auto simp: visits_iff fits_def)
  then show ?thesis
    unfolding fits_def n using bd al [of i] al [of "Suc i"] vd by (auto simp: max_def min_def)
qed

definition within :: "u64 \<Rightarrow> u64 \<Rightarrow> nat set" where "within vb ve = {unat vb ..< unat ve}"

definition region :: "nat \<Rightarrow> nat \<Rightarrow> nat set" where "region d b = {b ..< b + span (Suc d)}"

lemma region_child: "region d (b + i * span (Suc d)) = {b + i * span (Suc d) ..< b + Suc i * span (Suc d)}"
  by (simp add: region_def algebra_simps)

lemma within_child:
  assumes "1 \<le> d" "d \<le> 4" "fits d b vb ve" "i < 512"
  shows "within (next_vbegin d vb i) (next_vend d vb ve i) = within vb ve \<inter> {b + i * span d ..< b + Suc i * span d}"
  unfolding within_def next_vbegin_nat [OF assms] next_vend_nat [OF assms] by auto

lemma within_visits:
  assumes "fits d b vb ve"
  shows "within vb ve = (\<Union>i\<in>set (visits d b vb ve). within vb ve \<inter> {b + i * span d ..< b + Suc i * span d})"
proof -
  have "\<exists>i\<in>set (visits d b vb ve). a \<in> {b + i * span d ..< b + Suc i * span d}" if a: "a \<in> within vb ve" for a
  proof -
    have r: "span (Suc d) dvd b" "b \<le> a" "a < b + span (Suc d)" using assms a by (auto simp: fits_def within_def)
    note t = tindex_region [OF r]
    have "tindex d a \<in> set (visits d b vb ve)" using t a by (auto simp: visits_iff [OF assms] within_def)
    then show ?thesis using t by (intro bexI [of _ "tindex d a"]) auto
  qed
  then show ?thesis by blast
qed


section \<open>Entries\<close>

text \<open>A page whose address survives the round trip through an entry.\<close>

definition frame_ok :: "u64 \<Rightarrow> nat \<Rightarrow> bool" where
  "frame_ok h p \<longleftrightarrow> p < 2 ^ 64 \<and> hhdm_virt_to_phys h p AND TABLE_ENTRY_ADDRESS_MASK = hhdm_virt_to_phys h p"

definition flag_bits :: "u64 \<Rightarrow> bool" where
  "flag_bits f \<longleftrightarrow> f AND TABLE_ENTRY_ADDRESS_MASK = 0 \<and> f AND PRESENT = PRESENT"

lemma entry_address:
  assumes "f AND TABLE_ENTRY_ADDRESS_MASK = 0"
  shows "(entry_address_bits h p OR f) AND TABLE_ENTRY_ADDRESS_MASK = entry_address_bits h p"
  using assms by (simp add: entry_address_bits_def bit.conj_disj_distrib2 and.assoc)

lemma entry_flag_bits:
  assumes "f AND m = 0"
  shows "((x AND m) OR f) AND NOT m = (f :: u64)"
proof (rule bit_eqI)
  fix n assume "possible_bit TYPE(u64) n"
  have "\<not> (bit f n \<and> bit m n)" using arg_cong [OF assms, of "\<lambda>w. bit w n"] by (simp add: bit_simps)
  then show "bit (((x AND m) OR f) AND NOT m) n = bit f n" using \<open>possible_bit TYPE(u64) n\<close> by (auto simp: bit_simps)
qed

lemma entry_target_made:
  assumes "frame_ok h p" "f AND TABLE_ENTRY_ADDRESS_MASK = 0"
  shows "entry_target h (entry_address_bits h p OR f) = p"
proof -
  have "(hhdm_virt_to_phys h p + h :: u64) = word_of_nat p" by (simp add: hhdm_virt_to_phys_def)
  moreover have "unat (word_of_nat p :: u64) = p" using assms(1) by (simp add: frame_ok_def unat_of_nat)
  moreover have "(entry_address_bits h p OR f) AND TABLE_ENTRY_ADDRESS_MASK = hhdm_virt_to_phys h p"
    unfolding entry_address [OF assms(2)] using assms(1) by (simp add: entry_address_bits_def frame_ok_def)
  ultimately show ?thesis by (simp add: entry_target_def phys_to_virt_def)
qed

lemma address_low_bits: "entry_address_bits h p AND PRESENT = 0" "entry_address_bits h p AND PS_BIT = 0"
  by (simp_all add: entry_address_bits_def TABLE_ENTRY_ADDRESS_MASK_def PRESENT_def PS_BIT_def and.assoc)

lemma present_made: "flag_bits f \<Longrightarrow> present (entry_address_bits h p OR f)"
  by (simp add: flag_bits_def bit.conj_disj_distrib2 address_low_bits) (simp add: PRESENT_def)

lemma flag_bits_intermediate: "flag_bits INTERMEDIATE"
  by (simp add: flag_bits_def INTERMEDIATE_def PRESENT_def PTE_WRITE_def PTE_USER_def TABLE_ENTRY_ADDRESS_MASK_def)

lemma intermediate_no_ps: "(entry_address_bits h p OR INTERMEDIATE) AND PS_BIT = 0"
  by (simp add: bit.conj_disj_distrib2 address_low_bits)
    (simp add: INTERMEDIATE_def PRESENT_def PTE_WRITE_def PTE_USER_def PS_BIT_def)

lemma flag_bits_entry_flags: "flag_bits (entry_flags cache mode)"
  unfolding flag_bits_def entry_flags_def Let_def
  by (simp add: bit.conj_disj_distrib2 and.assoc)
    (simp add: PRESENT_def PTE_WRITE_def PTE_USER_def NO_EXECUTE_def WRITE_THROUGH_def CACHE_DISABLE_def
      TABLE_ENTRY_ADDRESS_MASK_def)

section \<open>The allocator's invariant, for page tables\<close>

definition store_ok :: "u64 \<Rightarrow> mem_state \<Rightarrow> block list \<Rightarrow> bool" where
  "store_ok h s live \<longleftrightarrow> (\<exists>ps fs. mem_inv s ps fs live \<and> (\<forall>b\<in>#all_blocks ps fs live. kernel_pointer (fst b)) \<and>
     (\<forall>p\<in>set ps. frame_ok h p))"

lemma store_okE:
  assumes "store_ok h s live"
  obtains ps fs where "mem_inv s ps fs live" "\<forall>b\<in>#all_blocks ps fs live. kernel_pointer (fst b)"
    "\<forall>p\<in>set ps. frame_ok h p"
  using assms by (auto simp: store_ok_def)

lemma msep_mset_distinct:
  "msep (mset xs) \<Longrightarrow> \<forall>b\<in>set xs. 0 < snd b \<Longrightarrow> distinct xs \<and> (\<forall>a\<in>set xs. \<forall>b\<in>set xs. a \<noteq> b \<longrightarrow> disj a b)"
proof (induction xs)
  case (Cons x xs)
  from Cons.prems have "0 < snd x" "\<forall>b\<in>set xs. disj x b" by simp_all
  then have "x \<notin> set xs" by (force simp: disj_def)
  then show ?case using Cons by (auto intro: disj_sym)
qed simp

lemma store_ok_blocks:
  assumes "store_ok h s live"
  shows "distinct live" "a \<in> set live \<Longrightarrow> b \<in> set live \<Longrightarrow> a \<noteq> b \<Longrightarrow> disj a b"
    "a \<in> set live \<Longrightarrow> kernel_pointer (fst a) \<and> 0 < fst a" "a \<in> set live \<Longrightarrow> 0 < snd a"
proof -
  obtain ps fs where "mem_inv s ps fs live" "\<forall>b\<in>#all_blocks ps fs live. kernel_pointer (fst b)"
    using assms by (rule store_okE)
  then have l: "msep (mset live)" "\<forall>b\<in>set live. 0 < fst b \<and> 0 < snd b" "\<forall>b\<in>set live. kernel_pointer (fst b)"
    by (auto simp: mem_inv_def all_blocks_def msep_union)
  from msep_mset_distinct [OF l(1)] l(2)
  show "distinct live" "a \<in> set live \<Longrightarrow> b \<in> set live \<Longrightarrow> a \<noteq> b \<Longrightarrow> disj a b" by blast+
  show "a \<in> set live \<Longrightarrow> kernel_pointer (fst a) \<and> 0 < fst a" "a \<in> set live \<Longrightarrow> 0 < snd a" using l by blast+
qed

text \<open>A write inside a live block.\<close>

lemma store_ok_write:
  assumes inv: "store_ok h s live" and b: "(p, n) \<in> set live"
    and w: "\<And>x. \<not> (p \<le> x \<and> x < p + n) \<Longrightarrow> w' x = words s x"
  shows "store_ok h (s\<lparr>words := w'\<rparr>) live"
proof -
  obtain ps fs where i: "mem_inv s ps fs live" "\<forall>b\<in>#all_blocks ps fs live. kernel_pointer (fst b)"
    "\<forall>p\<in>set ps. frame_ok h p"
    using inv by (rule store_okE)
  have live: "mset live = add_mset (p, n) (mset (remove1 (p, n) live))" using b by simp
  have blocks: "all_blocks ps fs live = add_mset (p, n) (all_blocks ps fs (remove1 (p, n) live))"
    unfolding all_blocks_def using live by simp
  have sep: "msep (add_mset (p, n) (all_blocks ps fs (remove1 (p, n) live)))"
    and pos: "\<And>b. b \<in># all_blocks ps fs (remove1 (p, n) live) \<Longrightarrow> 0 < snd b"
    using i(1) blocks by (simp_all add: mem_inv_def)
  have out: "\<not> (fst (p, n) \<le> x \<and> x < fst (p, n) + snd (p, n)) \<Longrightarrow> w' x = words s x" for x using w by simp
  have frame: "chain w' q ps = chain (words s) q ps" "d < 10 \<Longrightarrow> chain w' q (fs d) = chain (words s) q (fs d)" for q d
    by (rule free_lists_frame [OF sep out pos]; assumption)+
  have "mem_inv (s\<lparr>words := w'\<rparr>) ps fs live" using i(1) frame by (simp add: mem_inv_def)
  then show ?thesis unfolding store_ok_def using i(2,3) by (intro exI [of _ ps] exI [of _ fs]) simp
qed

lemma store_ok_store64:
  assumes "store_ok h s live" "(p, PAGE_SIZE) \<in> set live" "i < 512"
  shows "store_ok h (store64 (entry_cell p i) v s) live"
  unfolding store64_def
  by (rule store_ok_write [OF assms(1,2)]) (use assms(3) in \<open>auto simp: entry_cell_def PAGE_SIZE_def\<close>)

lemma store_ok_alloc:
  assumes inv: "store_ok h s live" and n: "0 < pmm_free_count s"
  shows "\<exists>p s'. mmu_alloc_page s = Some (p, s') \<and> store_ok h s' ((p, PAGE_SIZE) # live) \<and> frame_ok h p \<and>
    page_aligned p \<and> kernel_pointer p \<and> (\<forall>x. p \<le> x \<and> x < p + PAGE_SIZE \<longrightarrow> words s' x = 0) \<and>
    (\<forall>x. \<not> (p \<le> x \<and> x < p + PAGE_SIZE) \<longrightarrow> words s' x = words s x) \<and> pmm_free_count s = Suc (pmm_free_count s')"
proof -
  obtain ps fs where i: "mem_inv s ps fs live" "\<forall>b\<in>#all_blocks ps fs live. kernel_pointer (fst b)"
    "\<forall>p\<in>set ps. frame_ok h p"
    using inv by (rule store_okE)
  have "length ps = pmm_free_count s" using i(1) by (simp add: mem_inv_def)
  then obtain p qs where ps: "ps = p # qs" using n by (cases ps) auto
  obtain s1 where s1: "alloc_page s = Some (p, s1)" "mem_inv s1 qs fs ((p, PAGE_SIZE) # live)" "p \<noteq> 0" "page_aligned p"
    using alloc_page_some [of s p qs fs live] i(1) unfolding ps by blast
  have fc: "pmm_free_count s = Suc (length qs)" "pmm_free_count s1 = length qs"
    using i(1) s1(2) by (simp_all add: mem_inv_def ps)
  have w1: "words s1 = fill p PAGE_SIZE 0xdd (words s)"
    using s1(1) fc(1) i(1) by (auto simp: alloc_page_def mem_inv_def ps)
  define s2 where "s2 = s1\<lparr>words := fill p PAGE_SIZE 0 (words s1)\<rparr>"
  have blocks: "all_blocks qs fs ((p, PAGE_SIZE) # live) = all_blocks ps fs live"
    by (simp add: all_blocks_def page_blocks_def ps)
  have "store_ok h s1 ((p, PAGE_SIZE) # live)"
    unfolding store_ok_def using s1(2) i(2,3) blocks ps by (intro exI [of _ qs] exI [of _ fs]) simp
  then have "store_ok h s2 ((p, PAGE_SIZE) # live)"
    unfolding s2_def by (rule store_ok_write [where p = p and n = PAGE_SIZE]) (simp_all add: fill_outside)
  moreover have "mmu_alloc_page s = Some (p, s2)" using s1 by (simp add: mmu_alloc_page_def s2_def)
  moreover have "kernel_pointer p" using i(2) by (simp add: all_blocks_def page_blocks_def ps)
  ultimately show ?thesis
    using s1(3,4) i(3) ps fc w1 by (intro exI [of _ p] exI [of _ s2]) (auto simp: s2_def fill_def)
qed

lemma store_ok_free:
  assumes inv: "store_ok h s live" and l: "(p, PAGE_SIZE) \<in> set live" and p: "page_aligned p" "frame_ok h p"
  shows "\<exists>s'. free_page p s = Some s' \<and> store_ok h s' (remove1 (p, PAGE_SIZE) live) \<and>
    (\<forall>x. \<not> (p \<le> x \<and> x < p + PAGE_SIZE) \<longrightarrow> words s' x = words s x) \<and> pmm_free_count s' = Suc (pmm_free_count s)"
proof -
  obtain ps fs where i: "mem_inv s ps fs live" "\<forall>b\<in>#all_blocks ps fs live. kernel_pointer (fst b)"
    "\<forall>p\<in>set ps. frame_ok h p"
    using inv by (rule store_okE)
  have k: "kernel_pointer p" using store_ok_blocks(3) [OF inv l] by simp
  obtain s1 where s1: "free_page p s = Some s1" "mem_inv s1 (p # ps) fs (remove1 (p, PAGE_SIZE) live)"
    using free_page_inv [OF i(1) l p(1) k] by blast
  have blocks: "all_blocks (p # ps) fs (remove1 (p, PAGE_SIZE) live) = all_blocks ps fs live"
    using l by (simp add: all_blocks_def page_blocks_def)
  have "store_ok h s1 (remove1 (p, PAGE_SIZE) live)"
    unfolding store_ok_def using s1(2) i(2,3) blocks p(2) by (intro exI [of _ "p # ps"] exI [of _ fs]) simp
  then show ?thesis using s1(1) by (auto simp: free_page_def fill_outside PAGE_SIZE_def kassert_def split: if_splits)
qed


section \<open>The invariant of an address space\<close>

abbreviation entry :: "nat \<Rightarrow> nat \<Rightarrow> mem_state \<Rightarrow> u64" where
  "entry p i s \<equiv> load64 (entry_cell p i) s"

type_synonym ghost = "nat \<Rightarrow> (nat \<times> nat) option"

definition pages_ok :: "u64 \<Rightarrow> block list \<Rightarrow> ghost \<Rightarrow> bool" where
  "pages_ok h live G \<longleftrightarrow> (\<forall>p d b. G p = Some (d, b) \<longrightarrow> d \<le> 4 \<and> span (Suc d) dvd b \<and> b < USER_END \<and> frame_ok h p \<and>
     page_aligned p \<and> (p, PAGE_SIZE) \<in> set live)"

text \<open>Every present entry leads to a page of the space one level down, and every page but the top table has the
  entry that leads to it.\<close>

definition down_ok :: "u64 \<Rightarrow> mem_state \<Rightarrow> ghost \<Rightarrow> bool" where
  "down_ok h s G \<longleftrightarrow> (\<forall>p d b i. G p = Some (Suc d, b) \<and> i < 512 \<and> b + i * span (Suc d) < USER_END \<and> present (entry p i s) \<longrightarrow>
     G (entry_target h (entry p i s)) = Some (d, b + i * span (Suc d)) \<and> (0 < d \<longrightarrow> entry p i s AND PS_BIT = 0))"

definition up_ok :: "u64 \<Rightarrow> nat \<Rightarrow> mem_state \<Rightarrow> ghost \<Rightarrow> bool" where
  "up_ok h root s G \<longleftrightarrow> (\<forall>p d b. G p = Some (d, b) \<and> p \<noteq> root \<longrightarrow>
     (\<exists>q c i. G q = Some (Suc d, c) \<and> i < 512 \<and> b = c + i * span (Suc d) \<and> present (entry q i s) \<and>
        entry_target h (entry q i s) = p))"

definition space_ok :: "u64 \<Rightarrow> nat \<Rightarrow> mem_state \<Rightarrow> block list \<Rightarrow> ghost \<Rightarrow> bool" where
  "space_ok h root s live G \<longleftrightarrow> store_ok h s live \<and> G root = Some (4, 0) \<and> pages_ok h live G \<and> down_ok h s G \<and> up_ok h root s G"

lemma space_okD:
  assumes "space_ok h root s live G"
  shows "store_ok h s live" "G root = Some (4, 0)" "pages_ok h live G" "down_ok h s G" "up_ok h root s G"
  using assms by (simp_all add: space_ok_def)

lemma pages_okD:
  assumes "pages_ok h live G" "G p = Some (d, b)"
  shows "d \<le> 4" "span (Suc d) dvd b" "b < USER_END" "frame_ok h p" "page_aligned p" "(p, PAGE_SIZE) \<in> set live"
  using assms unfolding pages_ok_def by blast+

lemma space_pageD:
  assumes "space_ok h root s live G" "G p = Some (d, b)"
  shows "d \<le> 4" "span (Suc d) dvd b" "b < USER_END" "frame_ok h p" "page_aligned p" "(p, PAGE_SIZE) \<in> set live"
  using pages_okD [OF space_okD(3) [OF assms(1)] assms(2)] by simp_all

lemma space_downD:
  assumes "space_ok h root s live G" "G p = Some (Suc d, b)" "i < 512" "b + i * span (Suc d) < USER_END"
    "present (entry p i s)"
  shows "G (entry_target h (entry p i s)) = Some (d, b + i * span (Suc d))" "0 < d \<Longrightarrow> entry p i s AND PS_BIT = 0"
  using space_okD(4) [OF assms(1)] assms(2-) unfolding down_ok_def by blast+

lemma space_upE:
  assumes "space_ok h root s live G" "G p = Some (d, b)" "p \<noteq> root"
  obtains q c i where "G q = Some (Suc d, c)" "i < 512" "b = c + i * span (Suc d)" "present (entry q i s)"
    "entry_target h (entry q i s) = p"
  using space_okD(5) [OF assms(1)] assms(2,3) unfolding up_ok_def by blast

lemma aligned_same:
  assumes "span d dvd b" "span d dvd c" "b \<le> a" "a < b + span d" "c \<le> a" "a < c + span d"
  shows "b = c"
proof -
  obtain k l where k: "b = span d * k" "c = span d * l" using assms(1,2) by (auto simp: dvd_def)
  have "a div span d = k" "a div span d = l" using assms k by (auto intro!: div_nat_eqI)
  then show ?thesis using k by simp
qed

lemma region_of_child:
  assumes "i < 512" "a \<in> {b + i * span (Suc d) ..< b + Suc i * span (Suc d)}"
  shows "a \<in> region (Suc d) b"
proof -
  have "a < b + Suc i * span (Suc d)" using assms(2) by simp
  also have "\<dots> \<le> b + 512 * span (Suc d)" using assms(1) by (intro add_left_mono mult_le_mono1) simp
  finally show ?thesis using assms(2) by (auto simp: region_def span_Suc [of "Suc d"])
qed

lemma region_index:
  assumes "span (Suc d) dvd b" "a \<in> region d b"
  shows "a \<in> {b + tindex d a * span d ..< b + Suc (tindex d a) * span d}"
  using tindex_region [of d b a] assms by (simp add: region_def)

lemma index_in_child:
  assumes "span (Suc d) dvd b" "i < 512" "a \<in> {b + i * span d ..< b + Suc i * span d}"
  shows "tindex d a = i"
  using assms by (intro tindex_at [of d b]) auto

lemma children_disjoint:
  assumes "span (Suc (Suc d)) dvd b" "i < 512" "j < 512" "i \<noteq> j"
  shows "region d (b + i * span (Suc d)) \<inter> region d (b + j * span (Suc d)) = {}"
proof (rule equals0I)
  fix a assume a: "a \<in> region d (b + i * span (Suc d)) \<inter> region d (b + j * span (Suc d))"
  have "tindex (Suc d) a = i" by (rule index_in_child [OF assms(1,2)]) (use a in \<open>simp add: region_child\<close>)
  moreover have "tindex (Suc d) a = j" by (rule index_in_child [OF assms(1,3)]) (use a in \<open>simp add: region_child\<close>)
  ultimately show False using assms(4) by simp
qed

lemma same_depth_page:
  assumes inv: "space_ok h root s live G" and d: "d \<le> 4"
  shows "G p = Some (d, b) \<Longrightarrow> G q = Some (d, c) \<Longrightarrow> a \<in> region d b \<Longrightarrow> a \<in> region d c \<Longrightarrow> p = q \<and> b = c"
  using d
proof (induction d arbitrary: p q b c a rule: inc_induct)
  case base
  have "x = root" if x: "G x = Some (4, y)" for x y
  proof (rule ccontr)
    assume "x \<noteq> root"
    from space_upE [OF inv x this] obtain r e where "G r = Some (Suc 4, e)" by metis
    from space_pageD(1) [OF inv this] show False by simp
  qed
  from this [OF base(1)] this [OF base(2)] base show ?case by simp
next
  case (step n)
  have bc: "b = c"
    using space_pageD(2) [OF inv step.prems(1)] space_pageD(2) [OF inv step.prems(2)] step.prems(3,4)
    by (intro aligned_same [of "Suc n" _ _ a]) (auto simp: region_def)
  have nr: "p \<noteq> root" "q \<noteq> root" using step space_okD(2) [OF inv] by auto
  obtain p' b' i where p': "G p' = Some (Suc n, b')" "i < 512" "b = b' + i * span (Suc n)" "entry_target h (entry p' i s) = p"
    using space_upE [OF inv step.prems(1) nr(1)] by metis
  obtain q' c' j where q': "G q' = Some (Suc n, c')" "j < 512" "c = c' + j * span (Suc n)" "entry_target h (entry q' j s) = q"
    using space_upE [OF inv step.prems(2) nr(2)] by metis
  have "b \<in> region (Suc n) b'" using region_of_child [OF p'(2), of b b' n] p'(3) by simp
  moreover have "c \<in> region (Suc n) c'" using region_of_child [OF q'(2), of c c' n] q'(3) by simp
  ultimately have r: "b \<in> region (Suc n) b'" "b \<in> region (Suc n) c'" using bc by simp_all
  have "p' = q'" "b' = c'" using step.IH [OF p'(1) q'(1) r] by simp_all
  moreover from this have "i = j" using p'(3) q'(3) bc by simp
  ultimately show ?case using p'(4) q'(4) bc by simp
qed

section \<open>The entry a walk ends at\<close>

primrec leaf_entry :: "nat \<Rightarrow> u64 \<Rightarrow> nat \<Rightarrow> nat \<Rightarrow> mem_state \<Rightarrow> u64" where
  "leaf_entry 0 h t a s = 0"
| "leaf_entry (Suc d) h t a s =
     (let e = entry t (tindex (Suc d) a) s in
      if \<not> present e then 0 else if d = 0 then e else leaf_entry d h (entry_target h e) a s)"

text \<open>The walk for an address passes through every table that covers it.\<close>

lemma leaf_at:
  assumes inv: "space_ok h root s live G" and d: "d \<le> 4"
  shows "1 \<le> d \<Longrightarrow> G p = Some (d, b) \<Longrightarrow> a \<in> region d b \<Longrightarrow> leaf_entry 4 h root a s = leaf_entry d h p a s"
  using d
proof (induction d arbitrary: p b rule: inc_induct)
  case base
  have "a \<in> region 4 0" using space_pageD [OF inv base(2)] base(3) by (auto simp: region_def span_vals USER_END_def dvd_def)
  then have "p = root" using same_depth_page [OF inv _ base(2) space_okD(2) [OF inv] base(3)] by simp
  then show ?case by simp
next
  case (step n)
  have nr: "p \<noteq> root" using step space_okD(2) [OF inv] by auto
  obtain q c i where q: "G q = Some (Suc n, c)" "i < 512" "b = c + i * span (Suc n)" "present (entry q i s)"
    "entry_target h (entry q i s) = p"
    using space_upE [OF inv step.prems(2) nr] by metis
  have a: "a \<in> {c + i * span (Suc n) ..< c + Suc i * span (Suc n)}" using step.prems(3) q(3) by (auto simp: region_def)
  have "leaf_entry 4 h root a s = leaf_entry (Suc n) h q a s"
    using step.IH [OF _ q(1)] region_of_child [OF q(2) a] by simp
  also have "tindex (Suc n) a = i" using space_pageD(2) [OF inv q(1)] q(2) a by (intro index_in_child)
  then have "leaf_entry (Suc n) h q a s = leaf_entry n h p a s" using q(4,5) step.prems(1) by simp
  finally show ?case .
qed

text \<open>Writes that leave alone the entries of the walk.\<close>

lemma leaf_cong:
  assumes inv: "space_ok h root s live G" and a: "a < USER_END"
    and same: "\<And>q e c. G q = Some (Suc e, c) \<Longrightarrow> a \<in> region (Suc e) c \<Longrightarrow> e < n \<Longrightarrow>
      entry q (tindex (Suc e) a) s' = entry q (tindex (Suc e) a) s"
  shows "d \<le> n \<Longrightarrow> 1 \<le> d \<Longrightarrow> G p = Some (d, b) \<Longrightarrow> a \<in> region d b \<Longrightarrow> leaf_entry d h p a s' = leaf_entry d h p a s"
proof (induction d arbitrary: p b)
  case (Suc d)
  have e: "entry p (tindex (Suc d) a) s' = entry p (tindex (Suc d) a) s"
    using same [OF Suc.prems(3,4)] Suc.prems(1) by simp
  show ?case
  proof (cases "present (entry p (tindex (Suc d) a) s) \<and> d \<noteq> 0")
    case True
    let ?i = "tindex (Suc d) a"
    have al: "span (Suc (Suc d)) dvd b" by (rule space_pageD(2) [OF inv Suc.prems(3)])
    have r: "a \<in> {b + ?i * span (Suc d) ..< b + Suc ?i * span (Suc d)}" by (rule region_index [OF al Suc.prems(4)])
    have g: "G (entry_target h (entry p ?i s)) = Some (d, b + ?i * span (Suc d))"
      using True a r by (intro space_downD(1) [OF inv Suc.prems(3)]) auto
    have "a \<in> region d (b + ?i * span (Suc d))" using r by (simp add: region_child)
    then show ?thesis using Suc.IH [OF _ _ g] Suc.prems(1) True e by simp
  next
    case False
    then show ?thesis using e by (auto simp: Let_def)
  qed
qed simp


lemma leaf_outside:
  assumes inv: "space_ok h root s live G" and p: "G p = Some (Suc d, b)" "i < 512"
    and same: "\<And>q e c j. G q = Some (Suc e, c) \<Longrightarrow> j < 512 \<Longrightarrow> (q, j) \<noteq> (p, i) \<Longrightarrow>
      (Suc e, c) \<noteq> (d, b + i * span (Suc d)) \<Longrightarrow> entry q j s' = entry q j s"
    and a: "a < USER_END" "a \<notin> region d (b + i * span (Suc d))"
  shows "leaf_entry 4 h root a s' = leaf_entry 4 h root a s"
proof (rule leaf_cong [OF inv a(1), of 4 s' 4 root 0])
  fix q e c assume q: "G q = Some (Suc e, c)" "a \<in> region (Suc e) c"
  have al: "span (Suc (Suc e)) dvd c" by (rule space_pageD(2) [OF inv q(1)])
  note r = region_index [OF al q(2)]
  show "entry q (tindex (Suc e) a) s' = entry q (tindex (Suc e) a) s"
  proof (rule same [OF q(1)])
    show "(q, tindex (Suc e) a) \<noteq> (p, i)" using r a(2) p(1) q(1) by (auto simp: region_child)
    show "(Suc e, c) \<noteq> (d, b + i * span (Suc d))" using q(2) a(2) by auto
  qed simp
qed (use a space_okD(2) [OF inv] in \<open>auto simp: region_def USER_END_def span_vals\<close>)

lemma load_store [simp]: "load64 a (store64 b v s) = (if a = b then v else load64 a s)"
  by (simp add: load64_def store64_def)

lemma store64_simps [simp]: "words (store64 a v s) = (words s)(a := unat v)" "pmm_free_count (store64 a v s) = pmm_free_count s"
  by (simp_all add: store64_def)

lemma entry_cell_in: "i < 512 \<Longrightarrow> p \<le> entry_cell p i \<and> entry_cell p i < p + PAGE_SIZE"
  by (simp add: entry_cell_def PAGE_SIZE_def)

lemma pages_apart:
  assumes "store_ok h s live" "(p, PAGE_SIZE) \<in> set live" "(q, PAGE_SIZE) \<in> set live" "p \<noteq> q"
    "p \<le> x" "x < p + PAGE_SIZE"
  shows "\<not> (q \<le> x \<and> x < q + PAGE_SIZE)"
  using store_ok_blocks(2) [OF assms(1-3)] assms(4-) by (auto simp: disj_def)

lemma cells_apart:
  assumes "store_ok h s live" "(p, PAGE_SIZE) \<in> set live" "(q, PAGE_SIZE) \<in> set live" "i < 512" "j < 512" "(p, i) \<noteq> (q, j)"
  shows "entry_cell p i \<noteq> entry_cell q j"
proof (cases "p = q")
  case True
  then show ?thesis using assms(6) by (simp add: entry_cell_def)
next
  case False
  then show ?thesis
    using pages_apart [OF assms(1-3) False, of "entry_cell p i"] entry_cell_in [OF assms(4), of p] entry_cell_in [OF assms(5), of q]
    by auto
qed

lemma load_cong: "words s' x = words s x \<Longrightarrow> load64 x s' = load64 x s"
  by (simp add: load64_def)

text \<open>What the entries of the space do when the entry \<open>i\<close> of \<open>p\<close> is rewritten.\<close>

abbreviation child_base :: "nat \<Rightarrow> nat \<Rightarrow> nat \<Rightarrow> nat" where
  "child_base d b i \<equiv> b + i * span (Suc d)"

lemma space_add_page:
  assumes inv: "space_ok h root s live G" and p: "G p = Some (Suc d, b)" "i < 512" "child_base d b i < USER_END"
    and e: "\<not> present (entry p i s)" and n: "0 < pmm_free_count s"
    and f: "flag_bits f" "\<And>q. 0 < d \<Longrightarrow> (entry_address_bits h q OR f) AND PS_BIT = 0"
  obtains q s1 s2 where "mmu_alloc_page s = Some (q, s1)" "s2 = store64 (entry_cell p i) (entry_address_bits h q OR f) s1"
    "space_ok h root s2 ((q, PAGE_SIZE) # live) (G(q \<mapsto> (d, child_base d b i)))" "G q = None" "\<forall>n. (q, n) \<notin> set live"
    "entry p i s2 = entry_address_bits h q OR f" "\<forall>x. q \<le> x \<and> x < q + PAGE_SIZE \<longrightarrow> words s2 x = 0"
    "\<forall>x. x \<noteq> entry_cell p i \<and> \<not> (q \<le> x \<and> x < q + PAGE_SIZE) \<longrightarrow> words s2 x = words s x"
    "pmm_free_count s = Suc (pmm_free_count s2)" "frame_ok h q"
    "\<forall>a. a < USER_END \<and> a \<notin> region d (child_base d b i) \<longrightarrow> leaf_entry 4 h root a s2 = leaf_entry 4 h root a s"
    "\<forall>a. 0 < d \<and> a \<in> region d (child_base d b i) \<and> a < USER_END \<longrightarrow> leaf_entry 4 h root a s2 = leaf_entry 4 h root a s"
    "\<forall>a. d = 0 \<and> a \<in> region d (child_base d b i) \<longrightarrow> leaf_entry 4 h root a s2 = entry_address_bits h q OR f"
proof -
  obtain q s1 where q: "mmu_alloc_page s = Some (q, s1)" "store_ok h s1 ((q, PAGE_SIZE) # live)" "frame_ok h q"
    "page_aligned q" "\<forall>x. q \<le> x \<and> x < q + PAGE_SIZE \<longrightarrow> words s1 x = 0"
    "\<forall>x. \<not> (q \<le> x \<and> x < q + PAGE_SIZE) \<longrightarrow> words s1 x = words s x" "pmm_free_count s = Suc (pmm_free_count s1)"
    using store_ok_alloc [OF space_okD(1) [OF inv] n] by blast
  note pp = space_pageD [OF inv p(1)]
  have fresh: "(q, n) \<notin> set live" for n
  proof
    assume l: "(q, n) \<in> set live"
    show False
    proof (cases "n = PAGE_SIZE")
      case True
      then show ?thesis using l store_ok_blocks(1) [OF q(2)] by simp
    next
      case False
      then have "disj (q, n) (q, PAGE_SIZE)" using l by (intro store_ok_blocks(2) [OF q(2)]) auto
      then show ?thesis using store_ok_blocks(4) [OF space_okD(1) [OF inv] l] by (simp add: disj_def PAGE_SIZE_def)
    qed
  qed
  then have Gq: "G q = None" using space_pageD(6) [OF inv, of q] by (cases "G q") auto
  define s2 where "s2 = store64 (entry_cell p i) (entry_address_bits h q OR f) s1"
  define G2 where "G2 = G(q \<mapsto> (d, child_base d b i))"
  have pq: "p \<noteq> q" using p(1) Gq by auto
  have zero: "words s2 x = 0" if "q \<le> x" "x < q + PAGE_SIZE" for x
    using q(5) that pages_apart [OF q(2), of p q "entry_cell p i"] entry_cell_in [OF p(2), of p] pp(6) pq by (auto simp: s2_def)
  have other: "words s2 x = words s x" if "x \<noteq> entry_cell p i" "\<not> (q \<le> x \<and> x < q + PAGE_SIZE)" for x
    using q(6) that by (simp add: s2_def)
  have same: "entry r j s2 = entry r j s" if r: "G r = Some y" "j < 512" "(r, j) \<noteq> (p, i)" for r j y
  proof (intro load_cong other)
    have rl: "(r, PAGE_SIZE) \<in> set live" using space_pageD(6) [OF inv, of r "fst y" "snd y"] r(1) by simp
    show "entry_cell r j \<noteq> entry_cell p i" using cells_apart [OF space_okD(1) [OF inv] rl pp(6) r(2) p(2)] r(3) by simp
    show "\<not> (q \<le> entry_cell r j \<and> entry_cell r j < q + PAGE_SIZE)"
      using pages_apart [OF q(2), of r q "entry_cell r j"] entry_cell_in [OF r(2), of r] rl r(1) Gq by (cases "r = q") auto
  qed
  have new: "entry p i s2 = entry_address_bits h q OR f" by (simp add: s2_def)
  have tq: "entry_target h (entry p i s2) = q" using q(3) f(1) by (simp add: new entry_target_made flag_bits_def)
  have zq: "\<not> present (entry q j s2)" if "j < 512" for j
    using zero [of "entry_cell q j"] entry_cell_in [OF that, of q] by (simp add: load64_def)
  have inv2: "space_ok h root s2 ((q, PAGE_SIZE) # live) G2"
  proof -
    have "store_ok h s2 ((q, PAGE_SIZE) # live)"
      unfolding s2_def by (rule store_ok_store64 [OF q(2) _ p(2)]) (simp add: pp(6))
    moreover have "G2 root = Some (4, 0)" using space_okD(2) [OF inv] Gq by (auto simp: G2_def)
    moreover have "pages_ok h ((q, PAGE_SIZE) # live) G2"
    proof -
      have "span (Suc d) dvd b" using pp(2) span_dvd [of "Suc d" "Suc (Suc d)"] by (auto intro: dvd_trans)
      then show ?thesis using space_okD(3) [OF inv] pp(1) p(3) q(3,4) by (auto simp: pages_ok_def G2_def)
    qed
    moreover have "down_ok h s2 G2"
      unfolding down_ok_def
    proof (intro allI impI)
      fix r e c j assume r: "G2 r = Some (Suc e, c) \<and> j < 512 \<and> c + j * span (Suc e) < USER_END \<and> present (entry r j s2)"
      have rq: "r \<noteq> q" using zq r by auto
      then have Gr: "G r = Some (Suc e, c)" using r by (simp add: G2_def)
      show "G2 (entry_target h (entry r j s2)) = Some (e, c + j * span (Suc e)) \<and> (0 < e \<longrightarrow> entry r j s2 AND PS_BIT = 0)"
      proof (cases "(r, j) = (p, i)")
        case True
        then have "e = d" "c = b" using Gr p(1) by auto
        with True show ?thesis using tq f(2) by (simp add: G2_def new)
      next
        case False
        note d = space_downD [OF inv Gr, of j]
        show ?thesis using d r same [OF Gr _ False] Gq by (auto simp: G2_def)
      qed
    qed
    moreover have "up_ok h root s2 G2"
      unfolding up_ok_def
    proof (intro allI impI)
      fix r e c assume r: "G2 r = Some (e, c) \<and> r \<noteq> root"
      show "\<exists>q c' j. G2 q = Some (Suc e, c') \<and> j < 512 \<and> c = c' + j * span (Suc e) \<and> present (entry q j s2) \<and>
        entry_target h (entry q j s2) = r"
      proof (cases "r = q")
        case True
        then have "e = d" "c = child_base d b i" using r by (auto simp: G2_def)
        moreover have "G2 p = Some (Suc d, b)" using p(1) pq by (simp add: G2_def)
        moreover have "present (entry p i s2)" unfolding new by (rule present_made [OF f(1)])
        ultimately show ?thesis using True p(2) tq by blast
      next
        case False
        then have Gr: "G r = Some (e, c)" using r by (simp add: G2_def)
        obtain t c' j where t: "G t = Some (Suc e, c')" "j < 512" "c = c' + j * span (Suc e)" "present (entry t j s)"
          "entry_target h (entry t j s) = r"
          using space_upE [OF inv Gr] r by blast
        then have "(t, j) \<noteq> (p, i)" using e by auto
        then show ?thesis
          using t same [OF t(1,2)] Gq by (intro exI [of _ t] exI [of _ c'] exI [of _ j]) (auto simp: G2_def)
      qed
    qed
    ultimately show ?thesis by (simp add: space_ok_def)
  qed
  have out: "leaf_entry 4 h root a s2 = leaf_entry 4 h root a s" if "a < USER_END" "a \<notin> region d (child_base d b i)" for a
    by (rule leaf_outside [OF inv p(1,2) _ that]) (rule same)
  have old: "leaf_entry 4 h root a s = 0" and inn: "leaf_entry 4 h root a s2 = (if d = 0 then entry_address_bits h q OR f else 0)"
    if "a \<in> region d (child_base d b i)" for a
  proof -
    have a: "a \<in> region (Suc d) b" "tindex (Suc d) a = i"
      using that region_of_child [OF p(2)] index_in_child [OF pp(2) p(2)] by (simp_all add: region_child)
    show "leaf_entry 4 h root a s = 0" using leaf_at [OF inv pp(1) _ p(1) a(1)] a(2) e by simp
    have G2p: "G2 p = Some (Suc d, b)" using p(1) pq by (simp add: G2_def)
    have z: "leaf_entry d h q a s2 = 0" using zq by (cases d) simp_all
    show "leaf_entry 4 h root a s2 = (if d = 0 then entry_address_bits h q OR f else 0)"
      using leaf_at [OF inv2 pp(1) _ G2p a(1)] a(2) present_made [OF f(1)] new tq z by (simp add: Let_def)
  qed
  have inn': "\<forall>a. d = 0 \<and> a \<in> region d (child_base d b i) \<longrightarrow> leaf_entry 4 h root a s2 = entry_address_bits h q OR f"
    "\<forall>a. 0 < d \<and> a \<in> region d (child_base d b i) \<and> a < USER_END \<longrightarrow> leaf_entry 4 h root a s2 = leaf_entry 4 h root a s"
    by (intro allI impI, use inn in metis) (use inn old in simp)
  have count: "pmm_free_count s = Suc (pmm_free_count s2)" using q(7) by (simp add: s2_def)
  show ?thesis
    by (rule that [OF q(1) s2_def inv2 [unfolded G2_def] Gq _ new _ _ count q(3) _ inn'(2,1)])
      (use fresh zero other out in auto)
qed


lemma space_remove_page:
  assumes inv: "space_ok h root s live G" and p: "G p = Some (Suc d, b)" "i < 512" "child_base d b i < USER_END"
    and e: "present (entry p i s)" and t: "t = entry_target h (entry p i s)"
    and empty: "0 < d \<longrightarrow> table_empty t s"
  obtains s1 s2 where "free_page t s = Some s1" "s2 = store64 (entry_cell p i) 0 s1"
    "space_ok h root s2 (remove1 (t, PAGE_SIZE) live) (G(t := None))" "G t = Some (d, child_base d b i)"
    "(t, PAGE_SIZE) \<in> set live" "t \<noteq> root"
    "\<forall>x. x \<noteq> entry_cell p i \<and> \<not> (t \<le> x \<and> x < t + PAGE_SIZE) \<longrightarrow> words s2 x = words s x"
    "pmm_free_count s2 = Suc (pmm_free_count s)" "entry p i s2 = 0"
    "\<forall>a. a < USER_END \<and> a \<notin> region d (child_base d b i) \<longrightarrow> leaf_entry 4 h root a s2 = leaf_entry 4 h root a s"
    "\<forall>a. a \<in> region d (child_base d b i) \<longrightarrow> leaf_entry 4 h root a s2 = 0"
proof -
  note pp = space_pageD [OF inv p(1)]
  have Gt: "G t = Some (d, child_base d b i)" using space_downD(1) [OF inv p e] t by simp
  note tt = space_pageD [OF inv Gt]
  obtain s1 where s1: "free_page t s = Some s1" "store_ok h s1 (remove1 (t, PAGE_SIZE) live)"
    "\<forall>x. \<not> (t \<le> x \<and> x < t + PAGE_SIZE) \<longrightarrow> words s1 x = words s x" "pmm_free_count s1 = Suc (pmm_free_count s)"
    using store_ok_free [OF space_okD(1) [OF inv] tt(6,5,4)] by blast
  define s2 where "s2 = store64 (entry_cell p i) 0 s1"
  define G2 where "G2 = G(t := None)"
  have pt: "p \<noteq> t" using p(1) Gt by auto
  have troot: "t \<noteq> root" using Gt space_okD(2) [OF inv] pp(1) by auto
  have other: "words s2 x = words s x" if "x \<noteq> entry_cell p i" "\<not> (t \<le> x \<and> x < t + PAGE_SIZE)" for x
    using s1(3) that by (simp add: s2_def)
  have same: "entry r j s2 = entry r j s" if r: "G r = Some y" "j < 512" "(r, j) \<noteq> (p, i)" "r \<noteq> t" for r j y
  proof (intro load_cong other)
    have rl: "(r, PAGE_SIZE) \<in> set live" using space_pageD(6) [OF inv, of r "fst y" "snd y"] r(1) by simp
    show "entry_cell r j \<noteq> entry_cell p i" using cells_apart [OF space_okD(1) [OF inv] rl pp(6) r(2) p(2)] r(3) by simp
    show "\<not> (t \<le> entry_cell r j \<and> entry_cell r j < t + PAGE_SIZE)"
      using pages_apart [OF space_okD(1) [OF inv] rl tt(6) r(4), of "entry_cell r j"] entry_cell_in [OF r(2), of r] by simp
  qed
  have new: "entry p i s2 = 0" by (simp add: s2_def)
  have live2: "set (remove1 (t, PAGE_SIZE) live) = set live - {(t, PAGE_SIZE)}"
    using store_ok_blocks(1) [OF space_okD(1) [OF inv]] by (rule set_remove1_eq)
  have leaf_table: "\<not> present (entry t j s)" if "Suc e = d" "j < 512" for e j
    using empty that by (simp add: table_empty_def TABLE_ENTRY_COUNT_def)
  have inv2: "space_ok h root s2 (remove1 (t, PAGE_SIZE) live) G2"
  proof -
    have "store_ok h s2 (remove1 (t, PAGE_SIZE) live)"
      unfolding s2_def by (rule store_ok_store64 [OF s1(2) _ p(2)]) (simp add: live2 pp(6) pt)
    moreover have "G2 root = Some (4, 0)" using space_okD(2) [OF inv] troot by (simp add: G2_def)
    moreover have "pages_ok h (remove1 (t, PAGE_SIZE) live) G2"
      using space_okD(3) [OF inv] live2 by (auto simp: pages_ok_def G2_def)
    moreover have "down_ok h s2 G2"
      unfolding down_ok_def
    proof (intro allI impI)
      fix r e c j assume r: "G2 r = Some (Suc e, c) \<and> j < 512 \<and> c + j * span (Suc e) < USER_END \<and> present (entry r j s2)"
      have Gr: "G r = Some (Suc e, c)" "r \<noteq> t" using r by (auto simp: G2_def split: if_splits)
      have ne: "(r, j) \<noteq> (p, i)" using r new by auto
      have s: "entry r j s2 = entry r j s" using same [OF Gr(1) _ ne Gr(2)] r by simp
      note d = space_downD [OF inv Gr(1), of j]
      have "entry_target h (entry r j s) \<noteq> t"
      proof
        assume "entry_target h (entry r j s) = t"
        then have ec: "e = d" "c + j * span (Suc e) = child_base d b i" using d(1) r s Gt by auto
        have "child_base d b i \<in> region (Suc d) b" "child_base d b i \<in> region (Suc d) c"
          using region_of_child [OF p(2), of "child_base d b i" b d] region_of_child [of j "child_base d b i" c d] ec r
          by (simp, metis (no_types, lifting) add.commute add_less_cancel_left atLeastLessThan_iff le_refl less_add_same_cancel2 mult_Suc span_pos)
        then have "r = p \<and> c = b" using same_depth_page [OF inv pp(1) Gr(1) [unfolded ec(1)] p(1)] by simp
        then show False using ec ne by simp
      qed
      then show "G2 (entry_target h (entry r j s2)) = Some (e, c + j * span (Suc e)) \<and> (0 < e \<longrightarrow> entry r j s2 AND PS_BIT = 0)"
        using d r s by (simp add: G2_def)
    qed
    moreover have "up_ok h root s2 G2"
      unfolding up_ok_def
    proof (intro allI impI)
      fix r e c assume r: "G2 r = Some (e, c) \<and> r \<noteq> root"
      then have Gr: "G r = Some (e, c)" "r \<noteq> t" by (auto simp: G2_def split: if_splits)
      obtain q c' j where q: "G q = Some (Suc e, c')" "j < 512" "c = c' + j * span (Suc e)" "present (entry q j s)"
        "entry_target h (entry q j s) = r"
        using space_upE [OF inv Gr(1)] r by blast
      have ne: "(q, j) \<noteq> (p, i)" using q(5) t Gr(2) by auto
      have qt: "q \<noteq> t" using leaf_table [of e j] q Gt by auto
      show "\<exists>q c' j. G2 q = Some (Suc e, c') \<and> j < 512 \<and> c = c' + j * span (Suc e) \<and> present (entry q j s2) \<and>
        entry_target h (entry q j s2) = r"
        using q same [OF q(1,2) ne qt] qt by (intro exI [of _ q] exI [of _ c'] exI [of _ j]) (simp add: G2_def)
    qed
    ultimately show ?thesis by (simp add: space_ok_def)
  qed
  have out: "leaf_entry 4 h root a s2 = leaf_entry 4 h root a s" if "a < USER_END" "a \<notin> region d (child_base d b i)" for a
  proof (rule leaf_outside [OF inv p(1,2) _ that])
    fix q e c j assume q: "G q = Some (Suc e, c)" "j < 512" "(q, j) \<noteq> (p, i)" "(Suc e, c) \<noteq> (d, child_base d b i)"
    then show "entry q j s2 = entry q j s" using Gt by (intro same) auto
  qed
  have inn: "leaf_entry 4 h root a s2 = 0" if "a \<in> region d (child_base d b i)" for a
  proof -
    have a: "a \<in> region (Suc d) b" "tindex (Suc d) a = i"
      using that region_of_child [OF p(2)] index_in_child [OF pp(2) p(2)] by (simp_all add: region_child)
    have G2p: "G2 p = Some (Suc d, b)" using p(1) pt by (simp add: G2_def)
    show ?thesis using leaf_at [OF inv2 pp(1) _ G2p a(1)] a(2) new by simp
  qed
  show ?thesis
    by (rule that [OF s1(1) s2_def inv2 [unfolded G2_def] Gt tt(6) troot _ _ new])
      (use other out inn s1(4) in \<open>simp_all add: s2_def\<close>)
qed

lemma space_edit_entry:
  assumes inv: "space_ok h root s live G" and p: "G p = Some (1, b)" "i < 512" "child_base 0 b i < USER_END"
    and e: "present (entry p i s)" and f: "flag_bits f"
    and s2: "s2 = store64 (entry_cell p i) (entry_address_bits h (entry_target h (entry p i s)) OR f) s"
  shows "space_ok h root s2 live G" "entry p i s2 = (entry p i s AND TABLE_ENTRY_ADDRESS_MASK) OR f"
    "\<And>x. x \<noteq> entry_cell p i \<Longrightarrow> words s2 x = words s x" "pmm_free_count s2 = pmm_free_count s"
    "\<And>a. a < USER_END \<Longrightarrow> a \<notin> region 0 (child_base 0 b i) \<Longrightarrow> leaf_entry 4 h root a s2 = leaf_entry 4 h root a s"
    "\<And>a. a \<in> region 0 (child_base 0 b i) \<Longrightarrow>
      leaf_entry 4 h root a s2 = (leaf_entry 4 h root a s AND TABLE_ENTRY_ADDRESS_MASK) OR f"
proof -
  note pp = space_pageD [OF inv p(1)]
  define t where "t = entry_target h (entry p i s)"
  have p': "G p = Some (Suc 0, b)" using p(1) by simp
  have Gt: "G t = Some (0, child_base 0 b i)" using space_downD(1) [OF inv p' p(2,3) e] by (simp add: t_def)
  have other: "words s2 x = words s x" if "x \<noteq> entry_cell p i" for x using that by (simp add: s2)
  then show "\<And>x. x \<noteq> entry_cell p i \<Longrightarrow> words s2 x = words s x" .
  have same: "entry r j s2 = entry r j s" if r: "G r = Some y" "j < 512" "(r, j) \<noteq> (p, i)" for r j y
  proof (intro load_cong other)
    have rl: "(r, PAGE_SIZE) \<in> set live" using space_pageD(6) [OF inv, of r "fst y" "snd y"] r(1) by simp
    show "entry_cell r j \<noteq> entry_cell p i" using cells_apart [OF space_okD(1) [OF inv] rl pp(6) r(2) p(2)] r(3) by simp
  qed
  have "entry_address_bits h t = entry p i s AND TABLE_ENTRY_ADDRESS_MASK"
    by (simp add: entry_address_bits_def t_def entry_target_def phys_to_virt_def hhdm_virt_to_phys_def and.assoc)
  then show new: "entry p i s2 = (entry p i s AND TABLE_ENTRY_ADDRESS_MASK) OR f" by (simp add: s2 t_def)
  have tq: "entry_target h (entry p i s2) = t"
    using space_pageD(4) [OF inv Gt] f by (simp add: s2 entry_target_made flag_bits_def flip: t_def)
  have pr: "present (entry p i s2)" using f by (simp add: s2 present_made)
  have "store_ok h s2 live" unfolding s2 by (rule store_ok_store64 [OF space_okD(1) [OF inv] pp(6) p(2)])
  moreover have "down_ok h s2 G"
    unfolding down_ok_def
  proof (intro allI impI)
    fix r e c j assume r: "G r = Some (Suc e, c) \<and> j < 512 \<and> c + j * span (Suc e) < USER_END \<and> present (entry r j s2)"
    show "G (entry_target h (entry r j s2)) = Some (e, c + j * span (Suc e)) \<and> (0 < e \<longrightarrow> entry r j s2 AND PS_BIT = 0)"
    proof (cases "(r, j) = (p, i)")
      case True
      then show ?thesis using r p' Gt tq by auto
    next
      case False
      then show ?thesis using space_downD [OF inv, of r e c j] same [of r _ j] r by auto
    qed
  qed
  moreover have "up_ok h root s2 G"
    unfolding up_ok_def
  proof (intro allI impI)
    fix r e c assume r: "G r = Some (e, c) \<and> r \<noteq> root"
    then obtain q c' j where q: "G q = Some (Suc e, c')" "j < 512" "c = c' + j * span (Suc e)" "present (entry q j s)"
      "entry_target h (entry q j s) = r"
      using space_upE [OF inv] by metis
    show "\<exists>q c' j. G q = Some (Suc e, c') \<and> j < 512 \<and> c = c' + j * span (Suc e) \<and> present (entry q j s2) \<and>
      entry_target h (entry q j s2) = r"
    proof (cases "(q, j) = (p, i)")
      case True
      then show ?thesis using q tq pr t_def by (intro exI [of _ q] exI [of _ c'] exI [of _ j]) auto
    next
      case False
      then show ?thesis using q same [OF q(1,2)] by (intro exI [of _ q] exI [of _ c'] exI [of _ j]) auto
    qed
  qed
  ultimately show inv2: "space_ok h root s2 live G" using inv by (simp add: space_ok_def)
  show "pmm_free_count s2 = pmm_free_count s" by (simp add: s2)
  show "leaf_entry 4 h root a s2 = leaf_entry 4 h root a s" if "a < USER_END" "a \<notin> region 0 (child_base 0 b i)" for a
    by (rule leaf_outside [OF inv p' p(2) _ that]) (rule same)
  show "leaf_entry 4 h root a s2 = (leaf_entry 4 h root a s AND TABLE_ENTRY_ADDRESS_MASK) OR f"
    if "a \<in> region 0 (child_base 0 b i)" for a
  proof -
    have a: "a \<in> region 1 b" "tindex 1 a = i"
      using that region_of_child [OF p(2), of a b 0] index_in_child [of 1 b i a] pp(2) p(2) by (simp_all add: region_child)
    show ?thesis using leaf_at [OF inv pp(1) _ p(1) a(1)] leaf_at [OF inv2 pp(1) _ p(1) a(1)] a(2) e pr new by (simp add: Let_def)
  qed
qed


section \<open>Mapping a range\<close>

lemma mfold_some:
  assumes "\<And>x D s. x \<in> set xs \<Longrightarrow> x \<notin> D \<Longrightarrow> D \<subseteq> set xs \<Longrightarrow> P D s \<Longrightarrow> \<exists>s'. f x s = Some s' \<and> P (insert x D) s'"
    and "distinct xs" and "P {} s"
  shows "\<exists>s'. mfold f xs s = Some s' \<and> P (set xs) s'"
proof -
  have "\<exists>s'. mfold f ys s = Some s' \<and> P (D \<union> set ys) s'"
    if "set ys \<subseteq> set xs" "distinct ys" "D \<subseteq> set xs" "D \<inter> set ys = {}" "P D s" for ys D s
    using that
  proof (induction ys arbitrary: D s)
    case (Cons y ys)
    obtain s1 where s1: "f y s = Some s1" "P (insert y D) s1" using assms(1) [of y D s] Cons.prems by auto
    have "\<exists>s'. mfold f ys s1 = Some s' \<and> P (insert y D \<union> set ys) s'" by (rule Cons.IH) (use Cons.prems s1 in auto)
    then show ?case using s1 by simp
  qed simp
  from this [of xs "{}" s] assms(2,3) show ?thesis by simp
qed

lemma leaf_in_child:
  assumes "space_ok h root s live G" "G p = Some (Suc d, b)" "i < 512" "a \<in> region d (child_base d b i)"
  shows "leaf_entry 4 h root a s = (if \<not> present (entry p i s) then 0 else if d = 0 then entry p i s
    else leaf_entry d h (entry_target h (entry p i s)) a s)"
proof -
  note pp = space_pageD [OF assms(1,2)]
  have a: "a \<in> region (Suc d) b" "tindex (Suc d) a = i"
    using assms(4) region_of_child [OF assms(3)] index_in_child [OF pp(2) assms(3)] by (simp_all add: region_child)
  show ?thesis using leaf_at [OF assms(1) pp(1) _ assms(2) a(1)] a(2) by (simp add: Let_def)
qed

lemma entry_of_page:
  assumes inv: "space_ok h root s live G" and p: "G p = Some (Suc d, b)" "i < 512" and t: "G t = Some (d, child_base d b i)"
  shows "present (entry p i s)" "entry_target h (entry p i s) = t"
proof -
  have d: "Suc d \<le> 4" by (rule space_pageD(1) [OF inv p(1)])
  then have "t \<noteq> root" using t space_okD(2) [OF inv] by auto
  then obtain q c j where q: "G q = Some (Suc d, c)" "j < 512" "child_base d b i = c + j * span (Suc d)" "present (entry q j s)"
    "entry_target h (entry q j s) = t"
    using space_upE [OF inv t] by metis
  have "child_base d b i \<in> region (Suc d) b" using region_of_child [OF p(2), of "child_base d b i" b d] by simp
  moreover have "c + j * span (Suc d) \<in> region (Suc d) c" using region_of_child [OF q(2), of "c + j * span (Suc d)" c d] by simp
  ultimately have "p = q \<and> b = c" using same_depth_page [OF inv d p(1) q(1)] q(3) by simp
  moreover from this have "i = j" using q(3) by simp
  ultimately show "present (entry p i s)" "entry_target h (entry p i s) = t" using q(4,5) by simp_all
qed

text \<open>Tables other than the top one map something.\<close>

definition maps_something :: "u64 \<Rightarrow> nat \<Rightarrow> mem_state \<Rightarrow> nat \<Rightarrow> nat \<Rightarrow> bool" where
  "maps_something h root s d b \<longleftrightarrow> (\<exists>a\<in>region d b. a < USER_END \<and> leaf_entry 4 h root a s \<noteq> 0)"

definition lean :: "nat \<Rightarrow> u64 \<Rightarrow> nat \<Rightarrow> mem_state \<Rightarrow> ghost \<Rightarrow> bool" where
  "lean n h root s G \<longleftrightarrow> (\<forall>q e c. G q = Some (e, c) \<and> 1 \<le> e \<and> e < n \<longrightarrow> maps_something h root s e c)"

text \<open>The addresses \<open>A\<close> have been mapped, each page to a fresh frame full of zeros, and nothing else has changed
  but tables.\<close>

definition mapped :: "u64 \<Rightarrow> nat \<Rightarrow> u64 \<Rightarrow> nat set \<Rightarrow> mem_state \<Rightarrow> block list \<Rightarrow> ghost \<Rightarrow> mem_state \<Rightarrow> block list \<Rightarrow> ghost \<Rightarrow> bool" where
  "mapped h root f A s live G s' live' G' \<longleftrightarrow>
     space_ok h root s' live' G' \<and> G \<subseteq>\<^sub>m G' \<and> set live \<subseteq> set live' \<and>
     pmm_free_count s' + card (dom G') = pmm_free_count s + card (dom G) \<and>
     (\<forall>q n. q \<in> dom G' - dom G \<longrightarrow> (q, n) \<notin> set live) \<and>
     (\<forall>a<USER_END. a \<notin> A \<longrightarrow> leaf_entry 4 h root a s' = leaf_entry 4 h root a s) \<and>
     (\<forall>a\<in>A. \<exists>q b. leaf_entry 4 h root a s' = entry_address_bits h q OR f \<and> G' q = Some (0, b) \<and> a \<in> region 0 b \<and> G q = None) \<and>
     (\<forall>q b x. G q = None \<and> G' q = Some (0, b) \<and> q \<le> x \<and> x < q + PAGE_SIZE \<longrightarrow> words s' x = 0) \<and>
     (\<forall>q n x. (q, n) \<in> set live \<and> (\<forall>e c. G q = Some (e, c) \<longrightarrow> e = 0) \<and> q \<le> x \<and> x < q + n \<longrightarrow> words s' x = words s x)"

lemma mappedD:
  assumes "mapped h root f A s live G s' live' G'"
  shows "space_ok h root s' live' G'" "G \<subseteq>\<^sub>m G'" "set live \<subseteq> set live'"
    "q \<in> dom G' - dom G \<Longrightarrow> (q, n) \<notin> set live"
    "a < USER_END \<Longrightarrow> a \<notin> A \<Longrightarrow> leaf_entry 4 h root a s' = leaf_entry 4 h root a s"
    "a \<in> A \<Longrightarrow> \<exists>q b. leaf_entry 4 h root a s' = entry_address_bits h q OR f \<and> G' q = Some (0, b) \<and> a \<in> region 0 b \<and> G q = None"
    "G q = None \<Longrightarrow> G' q = Some (0, b) \<Longrightarrow> q \<le> x \<Longrightarrow> x < q + PAGE_SIZE \<Longrightarrow> words s' x = 0"
    "(q, n) \<in> set live \<Longrightarrow> \<forall>e c. G q = Some (e, c) \<longrightarrow> e = 0 \<Longrightarrow> q \<le> x \<Longrightarrow> x < q + n \<Longrightarrow> words s' x = words s x"
    "pmm_free_count s' + card (dom G') = pmm_free_count s + card (dom G)"
  using assms unfolding mapped_def by simp_all

lemma mapped_refl: "space_ok h root s live G \<Longrightarrow> mapped h root f {} s live G s live G"
  by (auto simp: mapped_def)

lemma mapped_space: "mapped h root f A s live G s' live' G' \<Longrightarrow> space_ok h root s' live' G'"
  by (simp add: mapped_def)

lemma mapped_page: "mapped h root f A s live G s' live' G' \<Longrightarrow> G p = Some x \<Longrightarrow> G' p = Some x"
  by (auto simp: mapped_def map_le_def dom_def)

lemma mapped_leaf: "mapped h root f A s live G s' live' G' \<Longrightarrow> a < USER_END \<Longrightarrow> a \<notin> A \<Longrightarrow>
    leaf_entry 4 h root a s' = leaf_entry 4 h root a s"
  by (simp add: mapped_def)

lemma mapped_trans:
  assumes m: "mapped h root f A s live G s1 live1 G1" "mapped h root f B s1 live1 G1 s2 live2 G2"
    and AB: "A \<inter> B = {}" "A \<subseteq> {..<USER_END}"
  shows "mapped h root f (A \<union> B) s live G s2 live2 G2"
  unfolding mapped_def
proof (intro conjI allI impI ballI)
  note m1 = mappedD [OF m(1)] and m2 = mappedD [OF m(2)]
  show "space_ok h root s2 live2 G2" by (rule m2(1))
  show "G \<subseteq>\<^sub>m G2" using m1(2) m2(2) by (rule map_le_trans)
  show live: "set live \<subseteq> set live2" using m1(3) m2(3) by (rule subset_trans)
  show "pmm_free_count s2 + card (dom G2) = pmm_free_count s + card (dom G)" using m1(9) m2(9) by simp
  fix q n assume q: "q \<in> dom G2 - dom G"
  show "(q, n) \<notin> set live"
  proof (cases "q \<in> dom G1")
    case True then show ?thesis using q m1(4) [of q n] by blast
  next
    case False
    then have "(q, n) \<notin> set live1" using q m2(4) [of q n] by blast
    then show ?thesis using m1(3) by blast
  qed
next
  fix a assume "a < USER_END" "a \<notin> A \<union> B"
  then show "leaf_entry 4 h root a s2 = leaf_entry 4 h root a s" using mapped_leaf [OF m(1), of a] mapped_leaf [OF m(2), of a] by simp
next
  fix a assume a: "a \<in> A \<union> B"
  show "\<exists>q b. leaf_entry 4 h root a s2 = entry_address_bits h q OR f \<and> G2 q = Some (0, b) \<and> a \<in> region 0 b \<and> G q = None"
  proof (cases "a \<in> A")
    case True
    then have "leaf_entry 4 h root a s2 = leaf_entry 4 h root a s1" using AB by (intro mapped_leaf [OF m(2)]) auto
    moreover obtain q b where q: "leaf_entry 4 h root a s1 = entry_address_bits h q OR f" "G1 q = Some (0, b)" "a \<in> region 0 b" "G q = None"
      using mappedD(6) [OF m(1) True] by blast
    moreover have "G2 q = Some (0, b)" using mapped_page [OF m(2) q(2)] .
    ultimately show ?thesis by auto
  next
    case False
    then obtain q b where q: "leaf_entry 4 h root a s2 = entry_address_bits h q OR f" "G2 q = Some (0, b)" "a \<in> region 0 b" "G1 q = None"
      using mappedD(6) [OF m(2), of a] a by blast
    then have "G q = None" using mapped_page [OF m(1), of q] by (cases "G q") auto
    with q show ?thesis by blast
  qed
next
  fix q b x assume q: "G q = None \<and> G2 q = Some (0, b) \<and> q \<le> x \<and> x < q + PAGE_SIZE"
  show "words s2 x = 0"
  proof (cases "G1 q")
    case None
    then show ?thesis using mappedD(7) [OF m(2), of q b x] q by blast
  next
    case (Some y)
    then have y: "G1 q = Some (0, b)" using mapped_page [OF m(2) Some] q by simp
    then have "words s1 x = 0" using mappedD(7) [OF m(1), of q b x] q by simp
    moreover have "(q, PAGE_SIZE) \<in> set live1" by (rule space_pageD(6) [OF mapped_space [OF m(1)] y])
    then have "words s2 x = words s1 x" using mappedD(8) [OF m(2), of q PAGE_SIZE x] y q by simp
    ultimately show ?thesis by simp
  qed
next
  fix q n x assume q: "(q, n) \<in> set live \<and> (\<forall>e c. G q = Some (e, c) \<longrightarrow> e = 0) \<and> q \<le> x \<and> x < q + n"
  have "e = 0" if "G1 q = Some (e, c)" for e c
  proof (cases "G q")
    case None
    then have "(q, n) \<notin> set live" using mappedD(4) [OF m(1), of q n] that by blast
    then show ?thesis using q by simp
  next
    case (Some y)
    then have "y = (e, c)" using mapped_page [OF m(1) Some] that by simp
    then show ?thesis using q Some by simp
  qed
  moreover have "(q, n) \<in> set live1" using mappedD(3) [OF m(1)] q by blast
  ultimately have "words s2 x = words s1 x" using mappedD(8) [OF m(2), of q n x] q by blast
  also have "words s1 x = words s x" using mappedD(8) [OF m(1), of q n x] q by blast
  finally show "words s2 x = words s x" .
qed

lemma mapped_lean:
  assumes m: "mapped h root f A s live G s' live' G'" and f: "flag_bits f" and l: "maps_something h root s d b"
  shows "maps_something h root s' d b"
proof -
  obtain a where a: "a \<in> region d b" "a < USER_END" "leaf_entry 4 h root a s \<noteq> 0" using l by (auto simp: maps_something_def)
  have "leaf_entry 4 h root a s' \<noteq> 0"
  proof (cases "a \<in> A")
    case True
    then obtain q where "leaf_entry 4 h root a s' = entry_address_bits h q OR f" using mappedD(6) [OF m] by blast
    then show ?thesis using present_made [OF f, of h q] by auto
  next
    case False
    then show ?thesis using mapped_leaf [OF m a(2)] a(3) by simp
  qed
  with a show ?thesis by (auto simp: maps_something_def)
qed


lemma space_finite: "space_ok h root s live G \<Longrightarrow> finite (dom G)"
proof (rule finite_subset)
  assume inv: "space_ok h root s live G"
  show "dom G \<subseteq> fst ` set live" using space_pageD(6) [OF inv] by force
qed simp

lemma block_avoids_page:
  assumes "store_ok h s live" "(p, PAGE_SIZE) \<in> set live" "(r, n) \<in> set live" "r \<noteq> p" "r \<le> x" "x < r + n"
  shows "\<not> (p \<le> x \<and> x < p + PAGE_SIZE)"
  using store_ok_blocks(2) [OF assms(1-3)] assms(4-) by (auto simp: disj_def)

lemma add_page_mapped:
  assumes inv: "space_ok h root s live G" and p: "G p = Some (Suc d, b)" "i < 512" "child_base d b i < USER_END"
    and e: "\<not> present (entry p i s)" and n: "0 < pmm_free_count s"
    and f: "flag_bits f" "0 < d \<Longrightarrow> f = INTERMEDIATE"
  obtains q s1 s2 where "mmu_alloc_page s = Some (q, s1)" "s2 = store64 (entry_cell p i) (entry_address_bits h q OR f) s1"
    "mapped h root g (if d = 0 then region 0 (child_base d b i) else {}) s live G s2 ((q, PAGE_SIZE) # live)
       (G(q \<mapsto> (d, child_base d b i))) \<or> (d = 0 \<and> g \<noteq> f)" "G q = None" "pmm_free_count s = Suc (pmm_free_count s2)"
proof -
  have ps: "(entry_address_bits h q OR f) AND PS_BIT = 0" if "0 < d" for q
    using f(2) that intermediate_no_ps by simp
  obtain q s1 s2 where q: "mmu_alloc_page s = Some (q, s1)" "s2 = store64 (entry_cell p i) (entry_address_bits h q OR f) s1"
    "space_ok h root s2 ((q, PAGE_SIZE) # live) (G(q \<mapsto> (d, child_base d b i)))" "G q = None" "\<forall>n. (q, n) \<notin> set live"
    "entry p i s2 = entry_address_bits h q OR f" "\<forall>x. q \<le> x \<and> x < q + PAGE_SIZE \<longrightarrow> words s2 x = 0"
    "\<forall>x. x \<noteq> entry_cell p i \<and> \<not> (q \<le> x \<and> x < q + PAGE_SIZE) \<longrightarrow> words s2 x = words s x"
    "pmm_free_count s = Suc (pmm_free_count s2)" "frame_ok h q"
    "\<forall>a. a < USER_END \<and> a \<notin> region d (child_base d b i) \<longrightarrow> leaf_entry 4 h root a s2 = leaf_entry 4 h root a s"
    "\<forall>a. 0 < d \<and> a \<in> region d (child_base d b i) \<and> a < USER_END \<longrightarrow> leaf_entry 4 h root a s2 = leaf_entry 4 h root a s"
    "\<forall>a. d = 0 \<and> a \<in> region d (child_base d b i) \<longrightarrow> leaf_entry 4 h root a s2 = entry_address_bits h q OR f"
    by (rule space_add_page [OF inv p e n f(1) ps])
  have "mapped h root g (if d = 0 then region 0 (child_base d b i) else {}) s live G s2 ((q, PAGE_SIZE) # live)
       (G(q \<mapsto> (d, child_base d b i)))" if g: "d = 0 \<longrightarrow> g = f"
    unfolding mapped_def
  proof (intro conjI allI impI ballI)
    show "G \<subseteq>\<^sub>m G(q \<mapsto> (d, child_base d b i))" using q(4) by (auto simp: map_le_def)
    have "card (insert q (dom G)) = Suc (card (dom G))"
      using q(4) space_finite [OF inv] by (intro card_insert_disjoint) auto
    then show "pmm_free_count s2 + card (dom (G(q \<mapsto> (d, child_base d b i)))) = pmm_free_count s + card (dom G)"
      using q(9) by simp
    show "leaf_entry 4 h root a s2 = leaf_entry 4 h root a s"
      if "a < USER_END" "a \<notin> (if d = 0 then region 0 (child_base d b i) else {})" for a
      using q(11) q(12) that by (cases "a \<in> region d (child_base d b i)") (auto split: if_splits)
    show "\<exists>r c. leaf_entry 4 h root a s2 = entry_address_bits h r OR g \<and> (G(q \<mapsto> (d, child_base d b i))) r = Some (0, c) \<and>
      a \<in> region 0 c \<and> G r = None" if "a \<in> (if d = 0 then region 0 (child_base d b i) else {})" for a
      using that q(4) q(13) g by (intro exI [of _ q] exI [of _ "child_base d b i"]) (auto split: if_splits)
    fix r n x assume r: "(r, n) \<in> set live \<and> (\<forall>e c. G r = Some (e, c) \<longrightarrow> e = 0) \<and> r \<le> x \<and> x < r + n"
    have "r \<noteq> p" using r p(1) by auto
    then have "\<not> (p \<le> x \<and> x < p + PAGE_SIZE)"
      using block_avoids_page [OF space_okD(1) [OF inv] space_pageD(6) [OF inv p(1)], of r n x] r by blast
    then have "x \<noteq> entry_cell p i" using entry_cell_in [OF p(2), of p] by auto
    moreover have "\<not> (q \<le> x \<and> x < q + PAGE_SIZE)"
      using block_avoids_page [OF space_okD(1) [OF q(3)], of q r n x] r q(5) by auto
    ultimately show "words s2 x = words s x" using q(8) by blast
  next
    show "(r, n) \<notin> set live" if "r \<in> dom (G(q \<mapsto> (d, child_base d b i))) - dom G" for r n
      using that q(5) by (cases "r = q") auto
    show "words s2 x = 0" if "G r = None \<and> (G(q \<mapsto> (d, child_base d b i))) r = Some (0, c) \<and> r \<le> x \<and> x < r + PAGE_SIZE" for r c x
      using that q(7) by (cases "r = q") auto
  qed (use q(3) in auto)
  then show ?thesis using that [OF q(1,2) _ q(4,9)] by blast
qed

text \<open>The number of pages in a set of addresses.\<close>

definition npages :: "nat set \<Rightarrow> nat" where "npages A = card {a \<in> A. span 1 dvd a}"

lemma npages_empty [simp]: "npages {} = 0"
  by (simp add: npages_def)

lemma npages_Un: "finite A \<Longrightarrow> finite B \<Longrightarrow> A \<inter> B = {} \<Longrightarrow> npages (A \<union> B) = npages A + npages B"
proof -
  assume "finite A" "finite B" "A \<inter> B = {}"
  moreover have "{a \<in> A \<union> B. span 1 dvd a} = {a \<in> A. span 1 dvd a} \<union> {a \<in> B. span 1 dvd a}" by auto
  ultimately show ?thesis unfolding npages_def by (simp only:) (rule card_Un_disjoint, auto)
qed

lemma npages_mono: "finite B \<Longrightarrow> A \<subseteq> B \<Longrightarrow> npages A \<le> npages B"
  unfolding npages_def by (rule card_mono) auto

lemma npages_fits:
  assumes "fits d b vb ve"
  shows "0 < npages (within vb ve)"
proof -
  have "unat vb \<in> {a \<in> within vb ve. span 1 dvd a}" using assms by (auto simp: fits_def within_def)
  then show ?thesis unfolding npages_def by (subst card_gt_0_iff) (auto simp: within_def)
qed

lemma npages_range:
  assumes "span 1 dvd unat vb" "span 1 dvd unat ve"
  shows "npages (within vb ve) = (unat ve - unat vb) div span 1"
proof -
  obtain k m where km: "unat vb = span 1 * k" "unat ve = span 1 * m" using assms by (auto simp: dvd_def)
  have "{a \<in> within vb ve. span 1 dvd a} = (\<lambda>j. span 1 * j) ` {k..<m}"
    by (auto simp: within_def km dvd_def)
  then have "npages (within vb ve) = m - k" unfolding npages_def by (simp add: card_image inj_on_def)
  also have "\<dots> = (unat ve - unat vb) div span 1" by (simp add: km flip: diff_mult_distrib2)
  finally show ?thesis .
qed


definition assigned :: "nat \<Rightarrow> u64 \<Rightarrow> nat \<Rightarrow> u64 \<Rightarrow> nat set \<Rightarrow> mem_state \<Rightarrow> block list \<Rightarrow> ghost \<Rightarrow> mem_state \<Rightarrow> block list \<Rightarrow> ghost \<Rightarrow> bool" where
  "assigned d h root f A s live G s' live' G' \<longleftrightarrow> mapped h root f A s live G s' live' G' \<and>
     pmm_free_count s \<le> pmm_free_count s' + d * npages A \<and>
     (\<forall>q e c. G q = None \<and> G' q = Some (e, c) \<and> 1 \<le> e \<longrightarrow> maps_something h root s' e c)"

lemma assigned_refl: "space_ok h root s live G \<Longrightarrow> assigned d h root f {} s live G s live G"
  by (auto simp: assigned_def mapped_refl)

lemma assigned_trans:
  assumes a: "assigned d h root f A s live G s1 live1 G1" "assigned d h root f B s1 live1 G1 s2 live2 G2"
    and AB: "A \<inter> B = {}" "A \<subseteq> {..<USER_END}" "B \<subseteq> {..<USER_END}" and f: "flag_bits f"
  shows "assigned d h root f (A \<union> B) s live G s2 live2 G2"
proof -
  note a1 = a(1) [unfolded assigned_def] and a2 = a(2) [unfolded assigned_def]
  have m: "mapped h root f (A \<union> B) s live G s2 live2 G2" using a1 a2 AB by (intro mapped_trans [of h root f A s live G s1 live1 G1]) auto
  have fin: "finite A" "finite B" using AB by (auto intro: finite_subset)
  have n: "d * npages (A \<union> B) = d * npages A + d * npages B" using npages_Un [OF fin AB(1)] by (simp add: distrib_left)
  have l: "maps_something h root s2 e c" if q: "G q = None" "G2 q = Some (e, c)" "1 \<le> e" for q e c
  proof (cases "G1 q")
    case None
    then show ?thesis using a2 q by blast
  next
    case (Some y)
    then have "G1 q = Some (e, c)" using mapped_page [of h root f B s1 live1 G1 s2 live2 G2 q y] a2 q by simp
    then have "maps_something h root s1 e c" using a1 q by blast
    then show ?thesis using mapped_lean [OF _ f] a2 by blast
  qed
  show ?thesis unfolding assigned_def using m a1 a2 n l by auto
qed

text \<open>The body of the loop of \<open>assign\<close>.\<close>

definition assign_body :: "nat \<Rightarrow> u64 \<Rightarrow> nat \<Rightarrow> u64 \<Rightarrow> u64 \<Rightarrow> u64 \<Rightarrow> nat \<Rightarrow> mem_state \<Rightarrow> mem_state option" where
  "assign_body d h table vbegin vend flags i s = do {
     kassert (i < TABLE_ENTRY_COUNT);
     let cell = entry_cell table i;
     let e = load64 cell s;
     if 0 < d then do {
       (next_page, s) \<leftarrow> (if \<not> present e then do {
           (p, s) \<leftarrow> mmu_alloc_page s;
           Some (p, store64 cell (entry_address_bits h p OR INTERMEDIATE) s)
         } else Some (entry_target h e, s));
       assign d h next_page (next_vbegin (Suc d) vbegin i) (next_vend (Suc d) vbegin vend i) flags s
     } else do {
       kassert (\<not> present e);
       (p, s) \<leftarrow> mmu_alloc_page s;
       Some (store64 cell (entry_address_bits h p OR flags) s)
     }
   }"

lemma assign_Suc: "assign (Suc d) h table vbegin vend flags s = mfold (assign_body d h table vbegin vend flags) (index_range (Suc d) vbegin vend) s"
  by (simp add: assign_body_def [abs_def])

abbreviation share :: "nat \<Rightarrow> nat \<Rightarrow> u64 \<Rightarrow> u64 \<Rightarrow> nat \<Rightarrow> nat set" where
  "share d b vb ve i \<equiv> within vb ve \<inter> region d (child_base d b i)"

lemma share_child:
  "Suc d \<le> 4 \<Longrightarrow> fits (Suc d) b vb ve \<Longrightarrow> i < 512 \<Longrightarrow>
    within (next_vbegin (Suc d) vb i) (next_vend (Suc d) vb ve i) = share d b vb ve i"
  by (simp add: within_child region_child)

lemma share_page:
  assumes f: "fits (Suc 0) b vb ve" and i: "i \<in> set (visits (Suc 0) b vb ve)"
  shows "share 0 b vb ve i = region 0 (child_base 0 b i)"
proof -
  have s1: "span 1 dvd b" using f span_dvd [of 1 "Suc (Suc 0)"] by (auto simp: fits_def intro: dvd_trans)
  obtain k l m where k: "b = span 1 * k" "unat vb = span 1 * l" "unat ve = span 1 * m"
    using f s1 by (auto simp: fits_def dvd_def)
  have "span 1 * l < span 1 * (k + Suc i)" "span 1 * (k + i) < span 1 * m"
    using visits_iff [OF f, where i = i] i k by (simp_all add: algebra_simps)
  then have "l < k + Suc i" "k + i < m" by (simp_all only: mult_less_cancel1)
  then have "l \<le> k + i" "Suc (k + i) \<le> m" by simp_all
  then have "span 1 * l \<le> span 1 * (k + i)" "span 1 * Suc (k + i) \<le> span 1 * m" by (simp_all only: mult_le_mono2)
  then show ?thesis by (auto simp: within_def region_def k algebra_simps)
qed

lemma share_empty_iff:
  assumes f: "fits (Suc d) b vb ve" and i: "i \<in> set (visits (Suc d) b vb ve)"
  shows "\<exists>a. a \<in> share d b vb ve i \<and> span 1 dvd a"
proof -
  have v: "unat vb < child_base d b i + span (Suc d)" "child_base d b i < unat ve" using i f by (simp_all add: visits_iff algebra_simps)
  have s1: "span 1 dvd b" using f span_dvd [of 1 "Suc (Suc d)"] by (auto simp: fits_def intro: dvd_trans)
  moreover have "span 1 dvd span (Suc d)" by (rule span_dvd) simp
  ultimately have "span 1 dvd child_base d b i" by simp
  then have "max (unat vb) (child_base d b i) \<in> share d b vb ve i \<and> span 1 dvd max (unat vb) (child_base d b i)"
    using v f by (auto simp: within_def region_def fits_def max_def)
  then show ?thesis by blast
qed

lemma share_pages:
  assumes "fits (Suc d) b vb ve" "i \<in> set (visits (Suc d) b vb ve)"
  shows "0 < npages (share d b vb ve i)"
  using share_empty_iff [OF assms] unfolding npages_def by (subst card_gt_0_iff) (auto simp: within_def)

lemma assign_step:
  assumes f: "flag_bits f" and inv: "space_ok h root s live G" and p: "G p = Some (Suc d, b)"
    and ft: "fits (Suc d) b vb ve" and i: "i \<in> set (visits (Suc d) b vb ve)"
    and unm: "\<forall>a\<in>share d b vb ve i. leaf_entry 4 h root a s = 0"
    and n: "Suc d * npages (share d b vb ve i) \<le> pmm_free_count s"
    and IH: "\<And>s live G t c vb ve. space_ok h root s live G \<Longrightarrow> G t = Some (d, c) \<Longrightarrow> 1 \<le> d \<Longrightarrow> fits d c vb ve \<Longrightarrow>
      \<forall>a\<in>within vb ve. leaf_entry 4 h root a s = 0 \<Longrightarrow> d * npages (within vb ve) \<le> pmm_free_count s \<Longrightarrow>
      \<exists>s' live' G'. assign d h t vb ve f s = Some s' \<and> assigned d h root f (within vb ve) s live G s' live' G'"
  shows "\<exists>s' live' G'. assign_body d h p vb ve f i s = Some s' \<and> assigned (Suc d) h root f (share d b vb ve i) s live G s' live' G'"
proof -
  note pp = space_pageD [OF inv p]
  have i512: "i < 512" using ft i by (rule visits_less)
  have cb: "child_base d b i < USER_END" using i ft by (auto simp: visits_iff fits_def)
  have pos: "0 < npages (share d b vb ve i)" by (rule share_pages [OF ft i])
  then have n0: "0 < pmm_free_count s" using n by (cases "pmm_free_count s") auto
  show ?thesis
  proof (cases d)
    case 0
    have sh: "share 0 b vb ve i = region 0 (child_base 0 b i)" using share_page ft i 0 by simp
    have "\<not> present (entry p i s)"
    proof
      assume "present (entry p i s)"
      moreover have "child_base 0 b i \<in> share d b vb ve i" using sh 0 by (simp add: region_def)
      ultimately have "entry p i s = 0" using unm leaf_in_child [OF inv p i512, of "child_base 0 b i"] 0 by auto
      with \<open>present (entry p i s)\<close> show False by simp
    qed
    moreover from this obtain q s1 s2 where q: "mmu_alloc_page s = Some (q, s1)"
      "s2 = store64 (entry_cell p i) (entry_address_bits h q OR f) s1"
      "mapped h root f (if d = 0 then region 0 (child_base d b i) else {}) s live G s2 ((q, PAGE_SIZE) # live)
         (G(q \<mapsto> (d, child_base d b i))) \<or> (d = 0 \<and> f \<noteq> f)" "G q = None" "pmm_free_count s = Suc (pmm_free_count s2)"
      using 0 by (elim add_page_mapped [OF inv p i512 cb _ n0 f, where g = f]) simp_all
    ultimately have "assign_body d h p vb ve f i s = Some s2" using 0 i512 by (simp add: assign_body_def TABLE_ENTRY_COUNT_def)
    moreover have "assigned (Suc d) h root f (share d b vb ve i) s live G s2 ((q, PAGE_SIZE) # live) (G(q \<mapsto> (d, child_base d b i)))"
      unfolding assigned_def using q pos 0 sh by auto
    ultimately show ?thesis by blast
  next
    case (Suc e)
    have d: "1 \<le> d" using Suc by simp
    have fc: "fits d (child_base d b i) (next_vbegin (Suc d) vb i) (next_vend (Suc d) vb ve i)"
      by (rule fits_child [OF d pp(1) ft i])
    have sh: "within (next_vbegin (Suc d) vb i) (next_vend (Suc d) vb ve i) = share d b vb ve i" by (rule share_child [OF pp(1) ft i512])
    show ?thesis
    proof (cases "present (entry p i s)")
      case True
      have t: "G (entry_target h (entry p i s)) = Some (d, child_base d b i)" using space_downD(1) [OF inv p i512 cb True] .
      obtain s' live' G' where "assign d h (entry_target h (entry p i s)) (next_vbegin (Suc d) vb i) (next_vend (Suc d) vb ve i) f s = Some s'"
        "assigned d h root f (share d b vb ve i) s live G s' live' G'"
        using IH [OF inv t d fc] unm n sh by auto
      then show ?thesis using True Suc i512 by (intro exI [of _ s'] exI [of _ live'] exI [of _ G'])
        (auto simp: assign_body_def TABLE_ENTRY_COUNT_def assigned_def)
    next
      case False
      obtain q s1 s2 where q: "mmu_alloc_page s = Some (q, s1)" "s2 = store64 (entry_cell p i) (entry_address_bits h q OR INTERMEDIATE) s1"
        "mapped h root f (if d = 0 then region 0 (child_base d b i) else {}) s live G s2 ((q, PAGE_SIZE) # live)
           (G(q \<mapsto> (d, child_base d b i))) \<or> (d = 0 \<and> f \<noteq> INTERMEDIATE)" "G q = None" "pmm_free_count s = Suc (pmm_free_count s2)"
        by (rule add_page_mapped [OF inv p i512 cb False n0 flag_bits_intermediate, where g = f]) auto
      define G2 where "G2 = G(q \<mapsto> (d, child_base d b i))"
      have m: "mapped h root f {} s live G s2 ((q, PAGE_SIZE) # live) G2" using q(3) d by (simp add: G2_def)
      have inv2: "space_ok h root s2 ((q, PAGE_SIZE) # live) G2" using m by (rule mapped_space)
      have G2q: "G2 q = Some (d, child_base d b i)" by (simp add: G2_def)
      have unm2: "\<forall>a\<in>share d b vb ve i. leaf_entry 4 h root a s2 = 0"
        using unm mapped_leaf [OF m] ft by (auto simp: within_def fits_def)
      have n2: "d * npages (share d b vb ve i) \<le> pmm_free_count s2" using n q(5) pos by (simp)
      obtain s' live' G' where a: "assign d h q (next_vbegin (Suc d) vb i) (next_vend (Suc d) vb ve i) f s2 = Some s'"
        "assigned d h root f (share d b vb ve i) s2 ((q, PAGE_SIZE) # live) G2 s' live' G'"
        using IH [OF inv2 G2q d fc] unm2 n2 sh by auto
      have "mapped h root f ({} \<union> share d b vb ve i) s live G s' live' G'"
        using m a(2) by (intro mapped_trans) (auto simp: assigned_def)
      then have m': "mapped h root f (share d b vb ve i) s live G s' live' G'" by simp
      have tab: "maps_something h root s' d (child_base d b i)"
      proof -
        obtain a where a: "a \<in> share d b vb ve i" using share_empty_iff [OF ft i] by blast
        then obtain r where "leaf_entry 4 h root a s' = entry_address_bits h r OR f" using mappedD(6) [OF m' a] by blast
        then have "leaf_entry 4 h root a s' \<noteq> 0" using present_made [OF f, of h r] by auto
        then show ?thesis using a ft unfolding maps_something_def by (intro bexI [of _ a]) (auto simp: within_def fits_def)
      qed
      have "maps_something h root s' e c" if r: "G r = None" "G' r = Some (e, c)" "1 \<le> e" for r e c
      proof (cases "r = q")
        case True
        have "mapped h root f (share d b vb ve i) s2 ((q, PAGE_SIZE) # live) G2 s' live' G'" using a(2) by (simp add: assigned_def)
        from mapped_page [OF this G2q] have "G' r = Some (d, child_base d b i)" using True by simp
        then show ?thesis using r tab by simp
      next
        case False
        then have "G2 r = None" using r by (simp add: G2_def)
        moreover have "\<forall>q e c. G2 q = None \<and> G' q = Some (e, c) \<and> 1 \<le> e \<longrightarrow> maps_something h root s' e c"
          using a(2) unfolding assigned_def by (elim conjE)
        ultimately show ?thesis using r by blast
      qed
      then have "assigned (Suc d) h root f (share d b vb ve i) s live G s' live' G'"
        using m' a(2) q(5) pos unfolding assigned_def by auto
      moreover have "assign_body d h p vb ve f i s = Some s'"
        using q(1,2) a(1) False Suc i512 by (simp add: assign_body_def TABLE_ENTRY_COUNT_def)
      ultimately show ?thesis by blast
    qed
  qed
qed

lemma assign_maps:
  assumes f: "flag_bits f"
  shows "space_ok h root s live G \<Longrightarrow> G p = Some (d, b) \<Longrightarrow> 1 \<le> d \<Longrightarrow> fits d b vb ve \<Longrightarrow>
    \<forall>a\<in>within vb ve. leaf_entry 4 h root a s = 0 \<Longrightarrow> d * npages (within vb ve) \<le> pmm_free_count s \<Longrightarrow>
    \<exists>s' live' G'. assign d h p vb ve f s = Some s' \<and> assigned d h root f (within vb ve) s live G s' live' G'"
proof (induction d arbitrary: s live G p b vb ve)
  case (Suc d)
  note inv = Suc.prems(1) and p = Suc.prems(2) and ft = Suc.prems(4)
  define A where "A D = (\<Union>i\<in>D. share d b vb ve i)" for D
  let ?P = "\<lambda>D s'. \<exists>live' G'. assigned (Suc d) h root f (A D) s live G s' live' G'"
  have all: "A (set (visits (Suc d) b vb ve)) = within vb ve"
    unfolding A_def using within_visits [OF ft] by (simp add: region_child)
  have user: "A D \<subseteq> {..<USER_END}" for D using ft by (auto simp: A_def within_def fits_def)
  have fin: "finite (A D)" for D using user by (rule finite_subset) simp
  have "\<exists>s'. mfold (assign_body d h p vb ve f) (visits (Suc d) b vb ve) s = Some s' \<and> ?P (set (visits (Suc d) b vb ve)) s'"
  proof (rule mfold_some)
    fix i D s1
    assume i: "i \<in> set (visits (Suc d) b vb ve)" "i \<notin> D" "D \<subseteq> set (visits (Suc d) b vb ve)" and "?P D s1"
    then obtain live1 G1 where a: "assigned (Suc d) h root f (A D) s live G s1 live1 G1" by blast
    have m: "mapped h root f (A D) s live G s1 live1 G1" using a by (simp add: assigned_def)
    have disj: "A D \<inter> share d b vb ve i = {}"
    proof -
      have "region d (child_base d b j) \<inter> region d (child_base d b i) = {}" if "j \<in> D" for j
        using that i visits_less [OF ft] by (intro children_disjoint [OF space_pageD(2) [OF inv p]]) auto
      then show ?thesis by (auto simp: A_def)
    qed
    have "\<exists>s2 live2 G2. assign_body d h p vb ve f i s1 = Some s2 \<and> assigned (Suc d) h root f (share d b vb ve i) s1 live1 G1 s2 live2 G2"
    proof (rule assign_step [OF f mapped_space [OF m] mapped_page [OF m p] ft i(1)])
      show "\<forall>a\<in>share d b vb ve i. leaf_entry 4 h root a s1 = 0"
      proof
        fix a assume a: "a \<in> share d b vb ve i"
        then have "a < USER_END" "a \<notin> A D" using disj ft by (auto simp: within_def fits_def)
        then show "leaf_entry 4 h root a s1 = 0" using mapped_leaf [OF m] Suc.prems(5) a by simp
      qed
      have "npages (A D) + npages (share d b vb ve i) = npages (A (insert i D))"
        using npages_Un [OF fin fin, of D "{i}"] disj by (simp add: A_def Un_commute)
      also have "\<dots> \<le> npages (within vb ve)"
        unfolding all [symmetric] using i by (intro npages_mono fin) (auto simp: A_def)
      finally have "Suc d * npages (A D) + Suc d * npages (share d b vb ve i) \<le> Suc d * npages (within vb ve)"
        by (simp only: add_mult_distrib2 [symmetric] mult_le_mono2)
      then show "Suc d * npages (share d b vb ve i) \<le> pmm_free_count s1"
        using Suc.prems(6) a by (simp add: assigned_def)
    qed (rule Suc.IH)
    then obtain s2 live2 G2 where b: "assign_body d h p vb ve f i s1 = Some s2"
      "assigned (Suc d) h root f (share d b vb ve i) s1 live1 G1 s2 live2 G2" by blast
    have "assigned (Suc d) h root f (A D \<union> share d b vb ve i) s live G s2 live2 G2"
      using user [of D] user [of "{i}"] by (intro assigned_trans [OF a b(2) disj _ _ f]) (simp_all add: A_def)
    then show "\<exists>s2. assign_body d h p vb ve f i s1 = Some s2 \<and> ?P (insert i D) s2"
      using b(1) by (auto simp: A_def Un_commute)
  qed (use assigned_refl [OF inv] in \<open>auto simp: A_def\<close>)
  then show ?case
    unfolding assign_Suc index_range_visits [OF Suc.prems(3) space_pageD(1) [OF inv p] ft] all by blast
qed simp


section \<open>Unmapping a range\<close>

text \<open>The addresses \<open>A\<close> have been unmapped and the pages that went away are free again.\<close>

definition unmapped :: "nat \<Rightarrow> u64 \<Rightarrow> nat \<Rightarrow> nat set \<Rightarrow> mem_state \<Rightarrow> block list \<Rightarrow> ghost \<Rightarrow> mem_state \<Rightarrow> block list \<Rightarrow> ghost \<Rightarrow> bool" where
  "unmapped d h root A s live G s' live' G' \<longleftrightarrow>
     space_ok h root s' live' G' \<and> G' \<subseteq>\<^sub>m G \<and> set live' = set live - (\<lambda>q. (q, PAGE_SIZE)) ` (dom G - dom G') \<and>
     (\<forall>q e c. G q = Some (e, c) \<and> G' q = None \<longrightarrow> e < d) \<and>
     (\<forall>a<USER_END. a \<notin> A \<longrightarrow> leaf_entry 4 h root a s' = leaf_entry 4 h root a s) \<and>
     (\<forall>a\<in>A. leaf_entry 4 h root a s' = 0) \<and>
     pmm_free_count s' + card (dom G') = pmm_free_count s + card (dom G) \<and>
     (\<forall>q n x. (q, n) \<in> set live \<and> (\<forall>e c. G q = Some (e, c) \<longrightarrow> e = 0 \<and> G' q = Some (e, c)) \<and> q \<le> x \<and> x < q + n \<longrightarrow>
        words s' x = words s x)"

lemma unmappedD:
  assumes "unmapped d h root A s live G s' live' G'"
  shows "space_ok h root s' live' G'" "G' \<subseteq>\<^sub>m G" "set live' = set live - (\<lambda>q. (q, PAGE_SIZE)) ` (dom G - dom G')"
    "G q = Some (e, c) \<Longrightarrow> G' q = None \<Longrightarrow> e < d"
    "a < USER_END \<Longrightarrow> a \<notin> A \<Longrightarrow> leaf_entry 4 h root a s' = leaf_entry 4 h root a s"
    "a \<in> A \<Longrightarrow> leaf_entry 4 h root a s' = 0"
    "pmm_free_count s' + card (dom G') = pmm_free_count s + card (dom G)"
    "(q, n) \<in> set live \<Longrightarrow> \<forall>e c. G q = Some (e, c) \<longrightarrow> e = 0 \<and> G' q = Some (e, c) \<Longrightarrow> q \<le> x \<Longrightarrow> x < q + n \<Longrightarrow>
      words s' x = words s x"
  using assms unfolding unmapped_def by simp_all blast

lemma unmapped_refl: "space_ok h root s live G \<Longrightarrow> unmapped d h root {} s live G s live G"
  by (auto simp: unmapped_def)

lemma unmapped_back: "unmapped d h root A s live G s' live' G' \<Longrightarrow> G' q = Some x \<Longrightarrow> G q = Some x"
  by (drule unmappedD(2)) (auto simp: map_le_def dom_def)

lemma unmapped_keeps: "unmapped d h root A s live G s' live' G' \<Longrightarrow> G q = Some (e, c) \<Longrightarrow> d \<le> e \<Longrightarrow> G' q = Some (e, c)"
  using unmappedD(4) [of d h root A s live G s' live' G' q e c] unmapped_back [of d h root A s live G s' live' G' q]
  by (cases "G' q") auto

lemma unmapped_extend:
  assumes m: "unmapped d h root A s live G s' live' G'" and d: "d \<le> d'" and A: "A \<subseteq> B" "B \<subseteq> {..<USER_END}"
    and z: "\<And>a. a \<in> B \<Longrightarrow> a \<notin> A \<Longrightarrow> leaf_entry 4 h root a s = 0"
  shows "unmapped d' h root B s live G s' live' G'"
  unfolding unmapped_def
proof (intro conjI allI impI ballI)
  note mm = unmappedD [OF m]
  show "leaf_entry 4 h root a s' = 0" if "a \<in> B" for a
    using mm(5,6) [of a] z [OF that] A that by (cases "a \<in> A") auto
  show "e < d'" if "G q = Some (e, c) \<and> G' q = None" for q e c
    using mm(4) [of q e c] that d by simp
  show "leaf_entry 4 h root a s' = leaf_entry 4 h root a s" if "a < USER_END" "a \<notin> B" for a
    using mm(5) [of a] that A by blast
  show "words s' x = words s x"
    if "(q, n) \<in> set live \<and> (\<forall>e c. G q = Some (e, c) \<longrightarrow> e = 0 \<and> G' q = Some (e, c)) \<and> q \<le> x \<and> x < q + n" for q n x
    using mm(8) [of q n x] that by blast
qed (rule unmappedD [OF m])+

lemma unmapped_trans:
  assumes m: "unmapped d h root A s live G s1 live1 G1" "unmapped d h root B s1 live1 G1 s2 live2 G2"
    and A: "A \<subseteq> {..<USER_END}"
  shows "unmapped d h root (A \<union> B) s live G s2 live2 G2"
  unfolding unmapped_def
proof (intro conjI allI impI ballI)
  note m1 = unmappedD [OF m(1)] and m2 = unmappedD [OF m(2)]
  show "space_ok h root s2 live2 G2" by (rule m2(1))
  show "G2 \<subseteq>\<^sub>m G" using m2(2) m1(2) by (rule map_le_trans)
  have dom: "dom G - dom G2 = (dom G - dom G1) \<union> (dom G1 - dom G2)" using m1(2) m2(2) by (auto dest: map_le_implies_dom_le)
  show "set live2 = set live - (\<lambda>q. (q, PAGE_SIZE)) ` (dom G - dom G2)" unfolding m2(3) m1(3) dom by blast
  show "e < d" if "G q = Some (e, c) \<and> G2 q = None" for q e c
  proof (cases "G1 q")
    case None
    then show ?thesis using m1(4) [of q e c] that by simp
  next
    case (Some y)
    then have "G1 q = Some (e, c)" using unmapped_back [OF m(1) Some] that by simp
    then show ?thesis using m2(4) [of q e c] that by simp
  qed
  show "leaf_entry 4 h root a s2 = leaf_entry 4 h root a s" if "a < USER_END" "a \<notin> A \<union> B" for a
    using m1(5) [of a] m2(5) [of a] that by simp
  show "leaf_entry 4 h root a s2 = 0" if "a \<in> A \<union> B" for a
    using m1(6) [of a] m2(5,6) [of a] that A by (cases "a \<in> B") auto
  show "pmm_free_count s2 + card (dom G2) = pmm_free_count s + card (dom G)" using m1(7) m2(7) by simp
  fix q n x assume q: "(q, n) \<in> set live \<and> (\<forall>e c. G q = Some (e, c) \<longrightarrow> e = 0 \<and> G2 q = Some (e, c)) \<and> q \<le> x \<and> x < q + n"
  have g1: "\<forall>e c. G q = Some (e, c) \<longrightarrow> e = 0 \<and> G1 q = Some (e, c)"
    using q unmapped_back [OF m(2), of q] by blast
  have "(q, n) \<in> set live1"
  proof -
    have "q \<notin> dom G - dom G1" using g1 by auto
    then show ?thesis using q by (auto simp: m1(3))
  qed
  moreover have "\<forall>e c. G1 q = Some (e, c) \<longrightarrow> e = 0 \<and> G2 q = Some (e, c)"
    using q unmapped_back [OF m(1), of q] by blast
  ultimately have "words s2 x = words s1 x" using m2(8) [of q n x] q by blast
  also have "words s1 x = words s x" using m1(8) [of q n x] q g1 by blast
  finally show "words s2 x = words s x" .
qed

lemma remove_unmapped:
  assumes inv: "space_ok h root s live G" and p: "G p = Some (Suc d, b)" "i < 512" "child_base d b i < USER_END"
    and e: "present (entry p i s)" and empty: "0 < d \<longrightarrow> table_empty (entry_target h (entry p i s)) s"
  obtains s1 s2 live2 G2 where "free_page (entry_target h (entry p i s)) s = Some s1" "s2 = store64 (entry_cell p i) 0 s1"
    "unmapped (Suc d) h root (if d = 0 then region 0 (child_base d b i) else {}) s live G s2 live2 G2"
    "G2 = G(entry_target h (entry p i s) := None)"
proof -
  define t where "t = entry_target h (entry p i s)"
  obtain s1 s2 where r: "free_page t s = Some s1" "s2 = store64 (entry_cell p i) 0 s1"
    "space_ok h root s2 (remove1 (t, PAGE_SIZE) live) (G(t := None))" "G t = Some (d, child_base d b i)"
    "(t, PAGE_SIZE) \<in> set live" "t \<noteq> root"
    "\<forall>x. x \<noteq> entry_cell p i \<and> \<not> (t \<le> x \<and> x < t + PAGE_SIZE) \<longrightarrow> words s2 x = words s x"
    "pmm_free_count s2 = Suc (pmm_free_count s)" "entry p i s2 = 0"
    "\<forall>a. a < USER_END \<and> a \<notin> region d (child_base d b i) \<longrightarrow> leaf_entry 4 h root a s2 = leaf_entry 4 h root a s"
    "\<forall>a. a \<in> region d (child_base d b i) \<longrightarrow> leaf_entry 4 h root a s2 = 0"
    by (rule space_remove_page [OF inv p e t_def empty [folded t_def]])
  let ?live = "remove1 (t, PAGE_SIZE) live"
  have dom: "dom G - dom (G(t := None)) = {t}" "dom G = insert t (dom (G(t := None)))" using r(4) by auto
  have count: "card (dom G) = Suc (card (dom (G(t := None))))"
    unfolding dom(2) using space_finite [OF r(3)] by (subst card_insert_disjoint) auto
  have live2: "set ?live = set live - {(t, PAGE_SIZE)}"
    using store_ok_blocks(1) [OF space_okD(1) [OF inv]] by (rule set_remove1_eq)
  have z: "leaf_entry 4 h root a s = 0" if a: "0 < d" "a \<in> region d (child_base d b i)" for a
  proof -
    obtain e where d: "d = Suc e" using a(1) by (cases d) auto
    have "\<not> present (entry t j s)" if "j < 512" for j
      using empty that d by (simp add: table_empty_def TABLE_ENTRY_COUNT_def t_def)
    then show ?thesis using leaf_in_child [OF inv p(1,2) a(2)] d by (simp add: t_def)
  qed
  have "unmapped (Suc d) h root (if d = 0 then region 0 (child_base d b i) else {}) s live G s2 ?live (G(t := None))"
    unfolding unmapped_def
  proof (intro conjI allI impI ballI)
    show "leaf_entry 4 h root a s2 = leaf_entry 4 h root a s"
      if "a < USER_END" "a \<notin> (if d = 0 then region 0 (child_base d b i) else {})" for a
      using r(10,11) z [of a] that by (cases "a \<in> region d (child_base d b i)") (auto split: if_splits)
    show "leaf_entry 4 h root a s2 = 0" if "a \<in> (if d = 0 then region 0 (child_base d b i) else {})" for a
      using r(11) that by (auto split: if_splits)
    fix q n x assume q: "(q, n) \<in> set live \<and> (\<forall>e c. G q = Some (e, c) \<longrightarrow> e = 0 \<and> (G(t := None)) q = Some (e, c)) \<and> q \<le> x \<and> x < q + n"
    have "q \<noteq> p" "q \<noteq> t" using q p(1) r(4) by auto
    then have "\<not> (p \<le> x \<and> x < p + PAGE_SIZE)" "\<not> (t \<le> x \<and> x < t + PAGE_SIZE)"
      using block_avoids_page [OF space_okD(1) [OF inv] _ , of _ q n x] space_pageD(6) [OF inv p(1)] r(5) q by blast+
    then show "words s2 x = words s x" using r(7) entry_cell_in [OF p(2), of p] by auto
  next
    show "e < Suc d" if "G q = Some (e, c) \<and> (G(t := None)) q = None" for q e c
      using that r(4) by (auto split: if_splits)
    show "set ?live = set live - (\<lambda>q. (q, PAGE_SIZE)) ` (dom G - dom (G(t := None)))" unfolding live2 dom(1) by simp
    show "pmm_free_count s2 + card (dom (G(t := None))) = pmm_free_count s + card (dom G)" using count r(8) by simp
    show "G(t := None) \<subseteq>\<^sub>m G" by (auto simp: map_le_def)
  qed (rule r(3))
  then show ?thesis by (rule that [OF r(1) [unfolded t_def] r(2)]) (simp add: t_def)
qed


text \<open>A table that still has an entry maps something, when the tables below it do.\<close>

lemma nonempty_maps:
  assumes inv: "space_ok h root s live G" and t: "G t = Some (Suc e, c)" "Suc e \<le> 3" and ne: "\<not> table_empty t s"
    and l: "lean (Suc e) h root s G"
  shows "maps_something h root s (Suc e) c"
proof -
  obtain j where j: "j < 512" "present (entry t j s)" using ne by (auto simp: table_empty_def TABLE_ENTRY_COUNT_def)
  note tt = space_pageD [OF inv t(1)]
  have below: "c + span (Suc (Suc e)) \<le> USER_END"
  proof -
    have "span (Suc (Suc e)) dvd USER_END" using t(2) unfolding span_def USER_END_def by (intro le_imp_power_dvd) simp
    then obtain k m where k: "c = span (Suc (Suc e)) * k" "USER_END = span (Suc (Suc e)) * m" using tt(2) by (auto simp: dvd_def)
    then have "span (Suc (Suc e)) * k < span (Suc (Suc e)) * m" using tt(3) by simp
    then have "k < m" by (simp only: mult_less_cancel1)
    then have "span (Suc (Suc e)) * Suc k \<le> span (Suc (Suc e)) * m" by (intro mult_le_mono2) simp
    then show ?thesis by (simp add: k)
  qed
  have sub: "region e (child_base e c j) \<subseteq> region (Suc e) c" using region_of_child [OF j(1)] by (auto simp: region_child)
  have user: "a < USER_END" if "a \<in> region (Suc e) c" for a using that below by (simp add: region_def)
  have cb: "child_base e c j \<in> region e (child_base e c j)" by (simp add: region_def)
  have g: "G (entry_target h (entry t j s)) = Some (e, child_base e c j)"
    using space_downD(1) [OF inv t(1) j(1) _ j(2)] user sub cb by blast
  show ?thesis
  proof (cases e)
    case 0
    have "leaf_entry 4 h root (child_base e c j) s = entry t j s" using leaf_in_child [OF inv t(1) j(1) cb] j(2) 0 by simp
    then have "leaf_entry 4 h root (child_base e c j) s \<noteq> 0" using j(2) by auto
    then show ?thesis unfolding maps_something_def using cb sub user by blast
  next
    case (Suc k)
    then have "maps_something h root s e (child_base e c j)" using l g unfolding lean_def by auto
    then show ?thesis unfolding maps_something_def using sub by blast
  qed
qed

lemma lean_unmapped:
  assumes m: "unmapped n h root A s live G s' live' G'" and inv: "space_ok h root s live G"
    and A: "A \<subseteq> region d b" and t: "G t = Some (d, b)"
    and l: "lean (Suc d) h root s G" "lean d h root s' G'"
    and T: "G' t = Some (d, b) \<Longrightarrow> 1 \<le> d \<Longrightarrow> maps_something h root s' d b"
  shows "lean (Suc d) h root s' G'"
  unfolding lean_def
proof (intro allI impI)
  fix q e c assume q: "G' q = Some (e, c) \<and> 1 \<le> e \<and> e < Suc d"
  show "maps_something h root s' e c"
  proof (cases "e < d")
    case True
    then show ?thesis using l(2) q unfolding lean_def by blast
  next
    case False
    then have e: "e = d" using q by simp
    have Gq: "G q = Some (d, c)" using unmapped_back [OF m] q e by simp
    show ?thesis
    proof (cases "q = t")
      case True
      then show ?thesis using T q e Gq t by simp
    next
      case False
      have "maps_something h root s d c" using l(1) Gq q e unfolding lean_def by blast
      then obtain a where a: "a \<in> region d c" "a < USER_END" "leaf_entry 4 h root a s \<noteq> 0" by (auto simp: maps_something_def)
      have "a \<notin> A" using same_depth_page [OF inv space_pageD(1) [OF inv t] t Gq, of a] a(1) False A by auto
      then have "leaf_entry 4 h root a s' \<noteq> 0" using unmappedD(5) [OF m a(2)] a(3) by simp
      then show ?thesis unfolding maps_something_def e using a by blast
    qed
  qed
qed

text \<open>The body of the loop of \<open>clear\<close>.\<close>

definition clear_body :: "nat \<Rightarrow> u64 \<Rightarrow> nat \<Rightarrow> u64 \<Rightarrow> u64 \<Rightarrow> nat \<Rightarrow> mem_state \<Rightarrow> mem_state option" where
  "clear_body d h table vbegin vend i s = do {
     kassert (i < TABLE_ENTRY_COUNT);
     let cell = entry_cell table i;
     let e = load64 cell s;
     if present e then do {
       let target = entry_target h e;
       (gone, s) \<leftarrow> (if d = 0 then Some (True, s)
         else clear d h target (next_vbegin (Suc d) vbegin i) (next_vend (Suc d) vbegin vend i) s);
       if gone then do { s \<leftarrow> free_page target s; Some (store64 cell 0 s) } else Some s
     } else Some s
   }"

lemma clear_Suc: "clear (Suc d) h table vbegin vend s =
    mfold (clear_body d h table vbegin vend) (index_range (Suc d) vbegin vend) s \<bind> (\<lambda>s. Some (table_empty table s, s))"
  by (simp add: clear_body_def [abs_def])

definition cleared :: "nat \<Rightarrow> u64 \<Rightarrow> nat \<Rightarrow> nat set \<Rightarrow> mem_state \<Rightarrow> block list \<Rightarrow> ghost \<Rightarrow> mem_state \<Rightarrow> block list \<Rightarrow> ghost \<Rightarrow> bool" where
  "cleared d h root A s live G s' live' G' \<longleftrightarrow> unmapped d h root A s live G s' live' G' \<and> lean d h root s' G'"

lemma clear_step:
  assumes inv: "space_ok h root s live G" and p: "G p = Some (Suc d, b)"
    and ft: "fits (Suc d) b vb ve" and i: "i \<in> set (visits (Suc d) b vb ve)" and l: "lean (Suc d) h root s G"
    and IH: "\<And>s live G t c vb ve. space_ok h root s live G \<Longrightarrow> G t = Some (d, c) \<Longrightarrow> 1 \<le> d \<Longrightarrow> fits d c vb ve \<Longrightarrow>
      lean d h root s G \<Longrightarrow>
      \<exists>s' live' G'. clear d h t vb ve s = Some (table_empty t s', s') \<and> cleared d h root (within vb ve) s live G s' live' G'"
  shows "\<exists>s' live' G'. clear_body d h p vb ve i s = Some s' \<and> cleared (Suc d) h root (share d b vb ve i) s live G s' live' G'"
proof -
  note pp = space_pageD [OF inv p]
  have i512: "i < 512" using ft i by (rule visits_less)
  have cb: "child_base d b i < USER_END" using i ft by (auto simp: visits_iff fits_def)
  have user: "share d b vb ve i \<subseteq> {..<USER_END}" using ft by (auto simp: within_def fits_def)
  show ?thesis
  proof (cases "present (entry p i s)")
    case False
    have "unmapped (Suc d) h root (share d b vb ve i) s live G s live G"
      by (rule unmapped_extend [OF unmapped_refl [OF inv, of "Suc d"] order_refl _ user])
        (use leaf_in_child [OF inv p i512] False in auto)
    then have "cleared (Suc d) h root (share d b vb ve i) s live G s live G" using l by (simp add: cleared_def)
    then show ?thesis using False i512 by (auto simp: clear_body_def TABLE_ENTRY_COUNT_def)
  next
    case True
    define t where "t = entry_target h (entry p i s)"
    have t: "G t = Some (d, child_base d b i)" using space_downD(1) [OF inv p i512 cb True] by (simp add: t_def)
    show ?thesis
    proof (cases d)
      case 0
      have sh: "share d b vb ve i = region 0 (child_base d b i)" using share_page ft i 0 by simp
      have em: "0 < d \<longrightarrow> table_empty (entry_target h (entry p i s)) s" using 0 by simp
      obtain s1 s2 live2 G2 where r: "free_page (entry_target h (entry p i s)) s = Some s1" "s2 = store64 (entry_cell p i) 0 s1"
        "unmapped (Suc d) h root (if d = 0 then region 0 (child_base d b i) else {}) s live G s2 live2 G2"
        "G2 = G(entry_target h (entry p i s) := None)"
        by (rule remove_unmapped [OF inv p i512 cb True em])
      have u: "unmapped (Suc d) h root (share d b vb ve i) s live G s2 live2 G2" using r(3) 0 sh by simp
      have "lean (Suc d) h root s2 G2" by (simp add: lean_def 0)
      moreover have "clear_body d h p vb ve i s = Some s2"
        using r(1,2) True 0 i512 by (simp add: clear_body_def TABLE_ENTRY_COUNT_def t_def)
      ultimately show ?thesis using u unfolding cleared_def by blast
    next
      case (Suc e)
      have d: "1 \<le> d" "d \<noteq> 0" using Suc by simp_all
      have fc: "fits d (child_base d b i) (next_vbegin (Suc d) vb i) (next_vend (Suc d) vb ve i)"
        by (rule fits_child [OF d(1) pp(1) ft i])
      have sh: "within (next_vbegin (Suc d) vb i) (next_vend (Suc d) vb ve i) = share d b vb ve i" by (rule share_child [OF pp(1) ft i512])
      have ld: "lean d h root s G" using l by (auto simp: lean_def)
      obtain s1 live1 G1 where c: "clear d h t (next_vbegin (Suc d) vb i) (next_vend (Suc d) vb ve i) s = Some (table_empty t s1, s1)"
        "unmapped d h root (share d b vb ve i) s live G s1 live1 G1" "lean d h root s1 G1"
        using IH [OF inv t d(1) fc ld] sh by (auto simp: cleared_def)
      have inv1: "space_ok h root s1 live1 G1" by (rule unmappedD(1) [OF c(2)])
      have G1: "G1 p = Some (Suc d, b)" "G1 t = Some (d, child_base d b i)"
        using unmapped_keeps [OF c(2) p] unmapped_keeps [OF c(2) t] by simp_all
      have e1: "present (entry p i s1)" "entry_target h (entry p i s1) = t" using entry_of_page [OF inv1 G1(1) i512 G1(2)] by simp_all
      have u1: "unmapped (Suc d) h root (share d b vb ve i) s live G s1 live1 G1"
        by (rule unmapped_extend [OF c(2) _ order_refl user]) auto
      show ?thesis
      proof (cases "table_empty t s1")
        case True
        then have em: "0 < d \<longrightarrow> table_empty (entry_target h (entry p i s1)) s1" by (simp add: e1(2))
        obtain s2 s3 live3 G3 where r: "free_page t s1 = Some s2" "s3 = store64 (entry_cell p i) 0 s2"
          "unmapped (Suc d) h root (if d = 0 then region 0 (child_base d b i) else {}) s1 live1 G1 s3 live3 G3" "G3 = G1(t := None)"
          by (rule remove_unmapped [OF inv1 G1(1) i512 cb e1(1) em, unfolded e1(2)])
        have "unmapped (Suc d) h root (share d b vb ve i \<union> {}) s live G s3 live3 G3"
          using r(3) d by (intro unmapped_trans [OF u1 _ user]) simp
        then have u: "unmapped (Suc d) h root (share d b vb ve i) s live G s3 live3 G3" by simp
        have leaf: "leaf_entry 4 h root a s3 = leaf_entry 4 h root a s1" if "a < USER_END" for a
          using unmappedD(5) [OF r(3) that] d by simp
        have "lean d h root s3 G3"
          unfolding lean_def
        proof (intro allI impI)
          fix q k c' assume "G3 q = Some (k, c') \<and> 1 \<le> k \<and> k < d"
          then have "maps_something h root s1 k c'" using c(3) unfolding lean_def r(4) by (auto split: if_splits)
          then show "maps_something h root s3 k c'" using leaf by (auto simp: maps_something_def)
        qed
        then have "lean (Suc d) h root s3 G3" by (intro lean_unmapped [OF u inv _ t l]) (auto simp: r(4))
        moreover have "clear_body d h p vb ve i s = Some s3"
          using c(1) r(1,2) True \<open>present (entry p i s)\<close> d i512 by (simp add: clear_body_def TABLE_ENTRY_COUNT_def flip: t_def)
        ultimately show ?thesis using u unfolding cleared_def by blast
      next
        case False
        have "maps_something h root s1 d (child_base d b i)"
          using nonempty_maps [OF inv1 _ _ False, of e] G1(2) c(3) Suc pp(1) by simp
        then have "lean (Suc d) h root s1 G1" by (intro lean_unmapped [OF c(2) inv _ t l c(3)]) auto
        moreover have "clear_body d h p vb ve i s = Some s1"
          using c(1) False \<open>present (entry p i s)\<close> d i512 by (simp add: clear_body_def TABLE_ENTRY_COUNT_def flip: t_def)
        ultimately show ?thesis using u1 unfolding cleared_def by blast
      qed
    qed
  qed
qed


text \<open>What the walks over a table share: the shares of its entries make up the range.\<close>

lemma shares:
  assumes inv: "space_ok h root s live G" and p: "G p = Some (Suc d, b)" and ft: "fits (Suc d) b vb ve"
  shows "(\<Union>i\<in>set (visits (Suc d) b vb ve). share d b vb ve i) = within vb ve" "(\<Union>i\<in>D. share d b vb ve i) \<subseteq> {..<USER_END}"
    "i \<in> set (visits (Suc d) b vb ve) \<Longrightarrow> i \<notin> D \<Longrightarrow> D \<subseteq> set (visits (Suc d) b vb ve) \<Longrightarrow>
      (\<Union>i\<in>D. share d b vb ve i) \<inter> share d b vb ve i = {}"
proof -
  show "(\<Union>i\<in>set (visits (Suc d) b vb ve). share d b vb ve i) = within vb ve"
    using within_visits [OF ft] by (simp add: region_child)
  show "(\<Union>i\<in>D. share d b vb ve i) \<subseteq> {..<USER_END}" using ft by (auto simp: within_def fits_def)
  assume i: "i \<in> set (visits (Suc d) b vb ve)" "i \<notin> D" "D \<subseteq> set (visits (Suc d) b vb ve)"
  have "region d (child_base d b j) \<inter> region d (child_base d b i) = {}" if "j \<in> D" for j
    using that i visits_less [OF ft] by (intro children_disjoint [OF space_pageD(2) [OF inv p]]) auto
  then show "(\<Union>i\<in>D. share d b vb ve i) \<inter> share d b vb ve i = {}" by auto
qed

lemma clear_unmaps:
  "space_ok h root s live G \<Longrightarrow> G p = Some (d, b) \<Longrightarrow> 1 \<le> d \<Longrightarrow> fits d b vb ve \<Longrightarrow> lean d h root s G \<Longrightarrow>
    \<exists>s' live' G'. clear d h p vb ve s = Some (table_empty p s', s') \<and> cleared d h root (within vb ve) s live G s' live' G'"
proof (induction d arbitrary: s live G p b vb ve)
  case (Suc d)
  note inv = Suc.prems(1) and p = Suc.prems(2) and ft = Suc.prems(4) and l = Suc.prems(5)
  note sh = shares [OF inv p ft]
  let ?A = "\<lambda>D. \<Union>i\<in>D. share d b vb ve i"
  let ?P = "\<lambda>D s'. \<exists>live' G'. cleared (Suc d) h root (?A D) s live G s' live' G'"
  have "\<exists>s'. mfold (clear_body d h p vb ve) (visits (Suc d) b vb ve) s = Some s' \<and> ?P (set (visits (Suc d) b vb ve)) s'"
  proof (rule mfold_some)
    fix i D s1
    assume i: "i \<in> set (visits (Suc d) b vb ve)" "i \<notin> D" "D \<subseteq> set (visits (Suc d) b vb ve)" and "?P D s1"
    then obtain live1 G1 where a: "unmapped (Suc d) h root (?A D) s live G s1 live1 G1" "lean (Suc d) h root s1 G1"
      by (auto simp: cleared_def)
    have "\<exists>s2 live2 G2. clear_body d h p vb ve i s1 = Some s2 \<and> cleared (Suc d) h root (share d b vb ve i) s1 live1 G1 s2 live2 G2"
      by (rule clear_step [OF unmappedD(1) [OF a(1)] unmapped_keeps [OF a(1) p order_refl] ft i(1) a(2)]) (rule Suc.IH)
    then obtain s2 live2 G2 where b: "clear_body d h p vb ve i s1 = Some s2"
      "cleared (Suc d) h root (share d b vb ve i) s1 live1 G1 s2 live2 G2" by blast
    have "unmapped (Suc d) h root (?A D \<union> share d b vb ve i) s live G s2 live2 G2"
      using b(2) sh(2) by (intro unmapped_trans [OF a(1)]) (simp_all add: cleared_def)
    then show "\<exists>s2. clear_body d h p vb ve i s1 = Some s2 \<and> ?P (insert i D) s2"
      using b by (auto simp: cleared_def Un_commute)
  qed (use unmapped_refl [OF inv] l in \<open>auto simp: cleared_def\<close>)
  then show ?case
    unfolding clear_Suc index_range_visits [OF Suc.prems(3) space_pageD(1) [OF inv p] ft] sh(1) by fastforce
qed simp

section \<open>Changing permissions\<close>

definition edited :: "u64 \<Rightarrow> nat \<Rightarrow> u64 \<Rightarrow> nat set \<Rightarrow> mem_state \<Rightarrow> block list \<Rightarrow> ghost \<Rightarrow> mem_state \<Rightarrow> bool" where
  "edited h root f A s live G s' \<longleftrightarrow> space_ok h root s' live G \<and> pmm_free_count s' = pmm_free_count s \<and>
     (\<forall>a<USER_END. leaf_entry 4 h root a s' = (if a \<in> A then (leaf_entry 4 h root a s AND TABLE_ENTRY_ADDRESS_MASK) OR f
        else leaf_entry 4 h root a s)) \<and>
     (\<forall>q n x. (q, n) \<in> set live \<and> (\<forall>e c. G q = Some (e, c) \<longrightarrow> e = 0) \<and> q \<le> x \<and> x < q + n \<longrightarrow> words s' x = words s x)"

lemma edited_trans:
  assumes "edited h root f A s live G s1" "edited h root f B s1 live G s2" "A \<inter> B = {}"
  shows "edited h root f (A \<union> B) s live G s2"
  using assms unfolding edited_def by (auto split: if_splits)

definition edit_body :: "nat \<Rightarrow> u64 \<Rightarrow> nat \<Rightarrow> u64 \<Rightarrow> u64 \<Rightarrow> u64 \<Rightarrow> nat \<Rightarrow> mem_state \<Rightarrow> mem_state option" where
  "edit_body d h table vbegin vend flags i s = do {
     kassert (i < TABLE_ENTRY_COUNT);
     let cell = entry_cell table i;
     let e = load64 cell s;
     kassert (present e);
     let target = entry_target h e;
     if 0 < d
     then edit d h target (next_vbegin (Suc d) vbegin i) (next_vend_edit (Suc d) vbegin vend i) flags s
     else Some (store64 cell (entry_address_bits h target OR flags) s)
   }"

lemma edit_Suc: "edit (Suc d) h table vbegin vend flags s =
    (if vbegin < vend then mfold (edit_body d h table vbegin vend flags) (index_range (Suc d) vbegin vend) s else None)"
  by (simp add: edit_body_def [abs_def])

lemma edit_step:
  assumes f: "flag_bits f" and inv: "space_ok h root s live G" and p: "G p = Some (Suc d, b)"
    and ft: "fits (Suc d) b vb ve" and i: "i \<in> set (visits (Suc d) b vb ve)"
    and m: "\<forall>a\<in>share d b vb ve i. leaf_entry 4 h root a s \<noteq> 0"
    and IH: "\<And>s t c vb ve. space_ok h root s live G \<Longrightarrow> G t = Some (d, c) \<Longrightarrow> 1 \<le> d \<Longrightarrow> fits d c vb ve \<Longrightarrow>
      \<forall>a\<in>within vb ve. leaf_entry 4 h root a s \<noteq> 0 \<Longrightarrow>
      \<exists>s'. edit d h t vb ve f s = Some s' \<and> edited h root f (within vb ve) s live G s'"
  shows "\<exists>s'. edit_body d h p vb ve f i s = Some s' \<and> edited h root f (share d b vb ve i) s live G s'"
proof -
  note pp = space_pageD [OF inv p]
  have i512: "i < 512" using ft i by (rule visits_less)
  have cb: "child_base d b i < USER_END" using i ft by (auto simp: visits_iff fits_def)
  obtain a where a: "a \<in> share d b vb ve i" using share_empty_iff [OF ft i] by blast
  then have pr: "present (entry p i s)" using m leaf_in_child [OF inv p i512, of a] by auto
  show ?thesis
  proof (cases d)
    case 0
    have sh: "share d b vb ve i = region 0 (child_base 0 b i)" using share_page ft i 0 by simp
    have p1: "G p = Some (1, b)" "child_base 0 b i < USER_END" using p cb 0 by simp_all
    define s2 where "s2 = store64 (entry_cell p i) (entry_address_bits h (entry_target h (entry p i s)) OR f) s"
    note e = space_edit_entry [OF inv p1(1) i512 p1(2) pr f s2_def]
    have "words s2 x = words s x" if "(q, n) \<in> set live" "\<forall>e c. G q = Some (e, c) \<longrightarrow> e = 0" "q \<le> x" "x < q + n" for q n x
    proof -
      have "q \<noteq> p" using that(2) p by auto
      from block_avoids_page [OF space_okD(1) [OF inv] pp(6) that(1) this that(3,4)] entry_cell_in [OF i512, of p]
      have "x \<noteq> entry_cell p i" by auto
      then show ?thesis by (rule e(3))
    qed
    then have "edited h root f (share d b vb ve i) s live G s2" unfolding edited_def sh using e(1,4,5,6) by auto
    then show ?thesis using pr 0 i512 by (simp add: edit_body_def TABLE_ENTRY_COUNT_def s2_def Let_def)
  next
    case (Suc e)
    have d: "1 \<le> d" using Suc by simp
    have t: "G (entry_target h (entry p i s)) = Some (d, child_base d b i)" using space_downD(1) [OF inv p i512 cb pr] .
    have fc: "fits d (child_base d b i) (next_vbegin (Suc d) vb i) (next_vend (Suc d) vb ve i)"
      by (rule fits_child [OF d pp(1) ft i])
    have sh: "within (next_vbegin (Suc d) vb i) (next_vend (Suc d) vb ve i) = share d b vb ve i" by (rule share_child [OF pp(1) ft i512])
    have eq: "next_vend_edit (Suc d) vb ve i = next_vend (Suc d) vb ve i" by (rule next_vend_edit_same [OF _ pp(1) ft i512]) simp
    show ?thesis using IH [OF inv t d fc] m pr d i512 unfolding sh by (auto simp: edit_body_def TABLE_ENTRY_COUNT_def eq)
  qed
qed

lemma edit_edits:
  assumes f: "flag_bits f"
  shows "space_ok h root s live G \<Longrightarrow> G p = Some (d, b) \<Longrightarrow> 1 \<le> d \<Longrightarrow> fits d b vb ve \<Longrightarrow>
    \<forall>a\<in>within vb ve. leaf_entry 4 h root a s \<noteq> 0 \<Longrightarrow>
    \<exists>s'. edit d h p vb ve f s = Some s' \<and> edited h root f (within vb ve) s live G s'"
proof (induction d arbitrary: s p b vb ve)
  case (Suc d)
  note inv = Suc.prems(1) and p = Suc.prems(2) and ft = Suc.prems(4)
  note sh = shares [OF inv p ft]
  let ?A = "\<lambda>D. \<Union>i\<in>D. share d b vb ve i"
  have "\<exists>s'. mfold (edit_body d h p vb ve f) (visits (Suc d) b vb ve) s = Some s' \<and>
    edited h root f (?A (set (visits (Suc d) b vb ve))) s live G s'"
  proof (rule mfold_some)
    fix i D s1
    assume i: "i \<in> set (visits (Suc d) b vb ve)" "i \<notin> D" "D \<subseteq> set (visits (Suc d) b vb ve)"
      and e: "edited h root f (?A D) s live G s1"
    have m: "\<forall>a\<in>share d b vb ve i. leaf_entry 4 h root a s1 \<noteq> 0"
    proof
      fix a assume a: "a \<in> share d b vb ve i"
      then have "a < USER_END" "a \<notin> ?A D" using sh(3) [OF i] ft by (auto simp: within_def fits_def)
      then show "leaf_entry 4 h root a s1 \<noteq> 0" using e Suc.prems(5) a by (auto simp: edited_def)
    qed
    have inv1: "space_ok h root s1 live G" using e by (simp add: edited_def)
    have "\<exists>s2. edit_body d h p vb ve f i s1 = Some s2 \<and> edited h root f (share d b vb ve i) s1 live G s2"
      by (rule edit_step [OF f inv1 p ft i(1) m]) (rule Suc.IH)
    then obtain s2 where b: "edit_body d h p vb ve f i s1 = Some s2" "edited h root f (share d b vb ve i) s1 live G s2" by blast
    have "edited h root f (?A D \<union> share d b vb ve i) s live G s2" by (rule edited_trans [OF e b(2) sh(3) [OF i]])
    then show "\<exists>s2. edit_body d h p vb ve f i s1 = Some s2 \<and> edited h root f (?A (insert i D)) s live G s2"
      using b by (auto simp: Un_commute)
  qed (use inv in \<open>auto simp: edited_def\<close>)
  moreover have "vb < ve" using ft by (simp add: fits_def word_less_nat_alt)
  ultimately show ?case
    unfolding edit_Suc index_range_visits [OF Suc.prems(3) space_pageD(1) [OF inv p] ft] sh(1) by auto
qed simp


section \<open>Address spaces\<close>

text \<open>An address space is sound when its pages satisfy the invariant and no table but the top one is empty.\<close>

definition address_space :: "u64 \<Rightarrow> u64 \<Rightarrow> mem_state \<Rightarrow> block list \<Rightarrow> ghost \<Rightarrow> bool" where
  "address_space h pm s live G \<longleftrightarrow> space_ok h (phys_to_virt h pm) s live G \<and> lean 4 h (phys_to_virt h pm) s G"

text \<open>The entry that maps a user address; 0 when there is none.\<close>

definition user_entry :: "u64 \<Rightarrow> u64 \<Rightarrow> u64 \<Rightarrow> mem_state \<Rightarrow> u64" where
  "user_entry h pm a s = leaf_entry 4 h (phys_to_virt h pm) (unat a) s"

definition addr_range :: "u64 \<Rightarrow> u64 \<Rightarrow> u64 set" where
  "addr_range address len = {a. unat address \<le> unat a \<and> unat a < unat address + unat len}"

definition user_range :: "u64 \<Rightarrow> u64 \<Rightarrow> bool" where
  "user_range address len \<longleftrightarrow> page_aligned (unat address) \<and> page_aligned (unat len) \<and> 0 < unat len \<and>
     unat address + unat len \<le> MEM_LOW_HALF_MAX"

lemma leaf_entry_4: "leaf_entry 4 h t a s =
    (let e = entry t (tindex 4 a) s in if \<not> present e then 0 else
     let e = entry (entry_target h e) (tindex 3 a) s in if \<not> present e then 0 else
     let e = entry (entry_target h e) (tindex 2 a) s in if \<not> present e then 0 else
     let e = entry (entry_target h e) (tindex 1 a) s in if \<not> present e then 0 else e)"
  by (simp add: numeral_eq_Suc Let_def)

lemma leaf_present: "leaf_entry d h t a s \<noteq> 0 \<Longrightarrow> present (leaf_entry d h t a s)"
  by (induction d arbitrary: t) (auto simp: Let_def split: if_splits)

lemma walk_down:
  assumes "space_ok h root s live G" "a < USER_END" "d = Suc e" "G p = Some (d, b)" "a \<in> region d b"
    "present (entry p (tindex d a) s)"
  shows "\<exists>c. G (entry_target h (entry p (tindex d a) s)) = Some (e, c) \<and> a \<in> region e c"
    "0 < e \<Longrightarrow> entry p (tindex d a) s AND PS_BIT = 0"
proof -
  have p: "G p = Some (Suc e, b)" and pr: "present (entry p (tindex (Suc e) a) s)" using assms by simp_all
  have r: "a \<in> {b + tindex (Suc e) a * span (Suc e) ..< b + Suc (tindex (Suc e) a) * span (Suc e)}"
    using region_index [OF space_pageD(2) [OF assms(1) p]] assms(3,5) by simp
  have c: "child_base e b (tindex (Suc e) a) < USER_END" using r assms(2) by simp
  note d = space_downD [OF assms(1) p tindex_less c pr]
  show "\<exists>c. G (entry_target h (entry p (tindex d a) s)) = Some (e, c) \<and> a \<in> region e c" using d(1) r assms(3) by (auto simp: region_child)
  show "0 < e \<Longrightarrow> entry p (tindex d a) s AND PS_BIT = 0" using d(2) assms(3) by simp
qed

lemma virt_to_phys_user:
  assumes inv: "address_space h pm s live G" and a: "unat a < MEM_LOW_HALF_MAX"
  shows "virt_to_phys h pm a s =
    (if user_entry h pm a s = 0 then 0 else (user_entry h pm a s AND TABLE_ENTRY_ADDRESS_MASK) OR (a AND 0xfff))"
proof -
  define root where "root = phys_to_virt h pm"
  define n where "n = unat a"
  have sp: "space_ok h root s live G" using inv by (simp add: address_space_def root_def)
  have n: "n < USER_END" using a by (simp add: n_def MEM_LOW_HALF_MAX_def USER_END_def)
  have ti: "table_index 4 a = tindex 4 n" "table_index 3 a = tindex 3 n" "table_index 2 a = tindex 2 n" "table_index 1 a = tindex 1 n"
    unfolding n_def by (rule table_index_nat; simp)+
  define e4 where "e4 = entry root (tindex 4 n) s"
  define e3 where "e3 = entry (entry_target h e4) (tindex 3 n) s"
  define e2 where "e2 = entry (entry_target h e3) (tindex 2 n) s"
  define e1 where "e1 = entry (entry_target h e2) (tindex 1 n) s"
  have r4: "n \<in> region 4 0" using n by (simp add: region_def USER_END_def span_vals)
  have ps: "(present e3 \<longrightarrow> e3 AND PS_BIT = 0) \<and> (present e3 \<longrightarrow> present e2 \<longrightarrow> e2 AND PS_BIT = 0)" if p4: "present e4"
  proof -
    obtain c3 where c3: "G (entry_target h e4) = Some (3, c3)" "n \<in> region 3 c3"
      using walk_down(1) [OF sp n, of 4 3 root 0] space_okD(2) [OF sp] r4 p4 unfolding e4_def by auto
    note w3 = walk_down [OF sp n, of 3 2, OF _ c3]
    have "e3 AND PS_BIT = 0" if "present e3" using w3(2) that by (simp add: e3_def)
    moreover have "e2 AND PS_BIT = 0" if p3: "present e3" and p2: "present e2"
    proof -
      obtain c2 where c2: "G (entry_target h e3) = Some (2, c2)" "n \<in> region 2 c2" using w3(1) p3 unfolding e3_def by auto
      show ?thesis using walk_down(2) [OF sp n, of 2 1, OF _ c2] p2 by (simp add: e2_def)
    qed
    ultimately show ?thesis by blast
  qed
  have v: "virt_to_phys h pm a s =
    (if \<not> present e4 then 0 else if \<not> present e3 then 0 else if e3 AND PS_BIT \<noteq> 0 then (e3 AND 0x000fffffc0000000) OR (a AND 0x3fffffff)
     else if \<not> present e2 then 0 else if e2 AND PS_BIT \<noteq> 0 then (e2 AND 0x000fffffffe00000) OR (a AND 0x1fffff)
     else if \<not> present e1 then 0 else (e1 AND 0x000ffffffffff000) OR (a AND 0xfff))"
    unfolding virt_to_phys_def Let_def root_def [symmetric] ti e4_def e3_def e2_def e1_def ..
  have u: "user_entry h pm a s = (if \<not> present e4 then 0 else if \<not> present e3 then 0 else if \<not> present e2 then 0 else if \<not> present e1 then 0 else e1)"
    unfolding user_entry_def leaf_entry_4 Let_def root_def [symmetric] n_def [symmetric] e4_def e3_def e2_def e1_def ..
  show ?thesis unfolding v u using ps by (auto simp: TABLE_ENTRY_ADDRESS_MASK_def)
qed

lemma user_range_fits:
  assumes "user_range address len"
  shows "fits 4 0 address (address + len)" "addr_range address len = {a. unat a \<in> within address (address + len)}"
    "unat (address + len) = unat address + unat len" "within address (address + len) \<subseteq> {..<USER_END}"
    "npages (within address (address + len)) = unat len div PAGE_SIZE"
    "validate_limits address len = Some ()"
proof -
  have le: "unat address + unat len \<le> 2 ^ 47" "0 < unat len" using assms by (auto simp: user_range_def MEM_LOW_HALF_MAX_def)
  then show e: "unat (address + len) = unat address + unat len" by (simp add: unat_word_ariths(1))
  have al: "span 1 dvd unat address" "span 1 dvd unat len"
    using assms by (auto simp: user_range_def page_aligned_def PAGE_SIZE_def span_def mod_0_imp_dvd)
  then show ft: "fits 4 0 address (address + len)"
    using le unfolding fits_def e by (simp add: USER_END_def span_def)
  show "addr_range address len = {a. unat a \<in> within address (address + len)}"
    by (auto simp: addr_range_def within_def e)
  show "within address (address + len) \<subseteq> {..<USER_END}" using le by (auto simp: within_def e USER_END_def)
  have "span 1 dvd unat (address + len)" using al by (simp add: e)
  from npages_range [OF al(1) this] show "npages (within address (address + len)) = unat len div PAGE_SIZE"
    by (simp add: e span_def PAGE_SIZE_def)
  have "unat ((address OR len) AND word_of_nat (PAGE_SIZE - 1)) = 0"
  proof -
    have m: "(word_of_nat (PAGE_SIZE - 1) :: u64) = mask 12" by (simp add: PAGE_SIZE_def mask_eq_exp_minus_1)
    have "take_bit 12 (unat address) = 0" "take_bit 12 (unat len) = 0"
      using al by (simp_all add: span_def take_bit_eq_mod)
    then have "take_bit 12 address = 0" "take_bit 12 len = 0"
      by (metis unsigned_take_bit_eq unsigned_eq_0_iff nat_less_le zero_le)+
    then show ?thesis unfolding m by (simp add: take_bit_eq_mask [symmetric] bit.conj_disj_distrib2)
  qed
  moreover have "0 < sint len"
  proof -
    have "unat len < 2 ^ 63" using le(1) by simp
    from sint_small [OF this] le(2) show ?thesis by linarith
  qed
  ultimately show "validate_limits address len = Some ()"
    using le by (simp add: validate_limits_def e MEM_LOW_HALF_MAX_def unsigned_eq_0_iff)
qed


lemma region_0: "region 0 b = {b ..< b + PAGE_SIZE}"
  by (simp add: region_def span_def PAGE_SIZE_def)

lemma page_base: "span 1 dvd b \<Longrightarrow> a \<in> region 0 b \<Longrightarrow> b = a div PAGE_SIZE * PAGE_SIZE"
  by (auto simp: region_0 span_def PAGE_SIZE_def dvd_def)

lemma page_base_in: "a \<in> region 0 (a div PAGE_SIZE * PAGE_SIZE)"
  unfolding region_0 using div_times_less_eq_dividend [of a PAGE_SIZE] dividend_less_div_times [of PAGE_SIZE a]
  by (simp add: PAGE_SIZE_def)

lemma page_base_within:
  assumes "fits d c vb ve" "a \<in> within vb ve"
  shows "a div PAGE_SIZE * PAGE_SIZE \<in> within vb ve"
proof -
  obtain k where k: "unat vb = PAGE_SIZE * k" using assms(1) by (auto simp: fits_def span_def PAGE_SIZE_def dvd_def)
  have "k \<le> a div PAGE_SIZE" using assms(2) k by (simp add: within_def less_eq_div_iff_mult_less_eq PAGE_SIZE_def mult.commute)
  then have "PAGE_SIZE * k \<le> PAGE_SIZE * (a div PAGE_SIZE)" by (rule mult_le_mono2)
  moreover have "PAGE_SIZE * (a div PAGE_SIZE) < unat ve"
    by (rule le_less_trans [of _ a]) (use assms(2) in \<open>simp_all add: within_def\<close>)
  ultimately show ?thesis using k by (simp add: within_def mult.commute)
qed

definition page_number :: "u64 \<Rightarrow> nat" where "page_number a = unat a div PAGE_SIZE"

lemma space_assign:
  assumes inv: "address_space h pm s live G" and r: "user_range address len"
    and unm: "\<forall>a\<in>addr_range address len. user_entry h pm a s = 0"
    and n: "4 * (unat len div PAGE_SIZE) \<le> pmm_free_count s"
  shows "\<exists>s' live' G' frame. mmu_assign h pm address len mode cache s = Some s' \<and> address_space h pm s' live' G' \<and>
    inj_on frame (page_number ` addr_range address len) \<and>
    (\<forall>a\<in>addr_range address len. let q = frame (page_number a) in
       virt_to_phys h pm a s' = hhdm_virt_to_phys h q OR (a AND 0xfff) \<and>
       user_entry h pm a s' AND NOT TABLE_ENTRY_ADDRESS_MASK = entry_flags cache mode \<and>
       (q, PAGE_SIZE) \<in> set live' \<and> (\<forall>n. (q, n) \<notin> set live) \<and> (\<forall>x. q \<le> x \<and> x < q + PAGE_SIZE \<longrightarrow> words s' x = 0)) \<and>
    (\<forall>a. a \<notin> addr_range address len \<and> unat a < MEM_LOW_HALF_MAX \<longrightarrow>
       virt_to_phys h pm a s' = virt_to_phys h pm a s \<and> user_entry h pm a s' = user_entry h pm a s) \<and>
    set live \<subseteq> set live' \<and>
    (\<forall>q n x. (q, n) \<in> set live \<and> (\<forall>e c. G q = Some (e, c) \<longrightarrow> e = 0) \<and> q \<le> x \<and> x < q + n \<longrightarrow> words s' x = words s x) \<and>
    pmm_free_count s' + card (dom G') = pmm_free_count s + card (dom G) \<and>
    pmm_free_count s \<le> pmm_free_count s' + 4 * (unat len div PAGE_SIZE)"
proof -
  define root where "root = phys_to_virt h pm"
  define f where "f = entry_flags cache mode"
  define W where "W = within address (address + len)"
  note u = user_range_fits [OF r, folded W_def]
  have f: "flag_bits f" unfolding f_def by (rule flag_bits_entry_flags)
  have sp: "space_ok h root s live G" "lean 4 h root s G" using inv by (simp_all add: address_space_def root_def)
  have "\<forall>a\<in>W. leaf_entry 4 h root a s = 0"
  proof
    fix a assume a: "a \<in> W"
    then have "unat (word_of_nat a :: u64) = a" using u(4) by (auto simp: USER_END_def unat_of_nat)
    then have "word_of_nat a \<in> addr_range address len" using a u(2) by simp
    from bspec [OF unm this] show "leaf_entry 4 h root a s = 0"
      using \<open>unat (word_of_nat a :: u64) = a\<close> by (simp add: user_entry_def root_def)
  qed
  then obtain s' live' G' where a: "assign 4 h root address (address + len) f s = Some s'"
    "assigned 4 h root f W s live G s' live' G'"
    using assign_maps [OF f sp(1) space_okD(2) [OF sp(1)] _ u(1)] n u(5) unfolding W_def by auto
  have m: "mapped h root f W s live G s' live' G'" using a(2) by (simp add: assigned_def)
  note mm = mappedD [OF m]
  have run: "mmu_assign h pm address len mode cache s = Some s'"
    using a(1) u(6) by (simp add: mmu_assign_def root_def f_def)
  have "lean 4 h root s' G'"
    unfolding lean_def
  proof (intro allI impI)
    fix q e c assume q: "G' q = Some (e, c) \<and> 1 \<le> e \<and> e < 4"
    show "maps_something h root s' e c"
    proof (cases "G q")
      case None
      then show ?thesis using a(2) q unfolding assigned_def by blast
    next
      case (Some y)
      then have "G q = Some (e, c)" using mapped_page [OF m Some] q by simp
      then have "maps_something h root s e c" using sp(2) q unfolding lean_def by blast
      then show ?thesis by (rule mapped_lean [OF m f])
    qed
  qed
  then have inv': "address_space h pm s' live' G'" using mm(1) by (simp add: address_space_def root_def)
  define frame where "frame k = entry_target h (leaf_entry 4 h root (k * PAGE_SIZE) s')" for k
  have fr: "leaf_entry 4 h root a s' = entry_address_bits h (frame (a div PAGE_SIZE)) OR f \<and>
    G' (frame (a div PAGE_SIZE)) = Some (0, a div PAGE_SIZE * PAGE_SIZE) \<and> G (frame (a div PAGE_SIZE)) = None" if aW: "a \<in> W" for a
  proof -
    have bW: "a div PAGE_SIZE * PAGE_SIZE \<in> W" using page_base_within [OF u(1)] aW by (simp add: W_def)
    obtain q b where q: "leaf_entry 4 h root (a div PAGE_SIZE * PAGE_SIZE) s' = entry_address_bits h q OR f" "G' q = Some (0, b)"
      "a div PAGE_SIZE * PAGE_SIZE \<in> region 0 b" "G q = None" using mm(6) [OF bW] by blast
    obtain q' b' where q': "leaf_entry 4 h root a s' = entry_address_bits h q' OR f" "G' q' = Some (0, b')" "a \<in> region 0 b'"
      using mm(6) [OF aW] by blast
    have al: "span 1 dvd b" "span 1 dvd b'" using space_pageD(2) [OF mm(1) q(2)] space_pageD(2) [OF mm(1) q'(2)] by simp_all
    have b: "b = a div PAGE_SIZE * PAGE_SIZE" "b' = a div PAGE_SIZE * PAGE_SIZE"
      using page_base [OF al(1) q(3)] page_base [OF al(2) q'(3)] by (simp_all add: PAGE_SIZE_def)
    have "q = q'" using same_depth_page [OF mm(1) _ q(2) q'(2), of b] b by (simp add: region_0 PAGE_SIZE_def)
    moreover have "frame (a div PAGE_SIZE) = q"
      unfolding frame_def q(1) using space_pageD(4) [OF mm(1) q(2)] f by (intro entry_target_made) (auto simp: flag_bits_def)
    ultimately show ?thesis using q q' b by simp
  qed
  have "inj_on frame (page_number ` addr_range address len)"
  proof (rule inj_onI)
    fix x y assume xy: "x \<in> page_number ` addr_range address len" "y \<in> page_number ` addr_range address len" "frame x = frame y"
    have g: "G' (frame z) = Some (0, z * PAGE_SIZE)" if "z \<in> page_number ` addr_range address len" for z
      using that fr u(2) by (auto simp: page_number_def)
    have "x * PAGE_SIZE = y * PAGE_SIZE" using g [OF xy(1)] g [OF xy(2)] unfolding xy(3) by auto
    then show "x = y" by (simp add: PAGE_SIZE_def)
  qed
  moreover have "let q = frame (page_number a) in virt_to_phys h pm a s' = hhdm_virt_to_phys h q OR (a AND 0xfff) \<and>
       user_entry h pm a s' AND NOT TABLE_ENTRY_ADDRESS_MASK = entry_flags cache mode \<and>
       (q, PAGE_SIZE) \<in> set live' \<and> (\<forall>n. (q, n) \<notin> set live) \<and> (\<forall>x. q \<le> x \<and> x < q + PAGE_SIZE \<longrightarrow> words s' x = 0)"
    if a: "a \<in> addr_range address len" for a
  proof -
    define q where "q = frame (page_number a)"
    have aW: "unat a \<in> W" using a u(2) by simp
    have q: "user_entry h pm a s' = entry_address_bits h q OR f" "G' q = Some (0, unat a div PAGE_SIZE * PAGE_SIZE)" "G q = None"
      using fr [OF aW] by (simp_all add: user_entry_def root_def q_def page_number_def)
    note qq = space_pageD [OF mm(1) q(2)]
    have low: "unat a < MEM_LOW_HALF_MAX" using aW u(4) by (auto simp: USER_END_def MEM_LOW_HALF_MAX_def)
    have "(entry_address_bits h q OR f) AND TABLE_ENTRY_ADDRESS_MASK = hhdm_virt_to_phys h q"
      using qq(4) f by (simp add: bit.conj_disj_distrib2 flag_bits_def entry_address_bits_def frame_ok_def)
    moreover have "entry_address_bits h q OR f \<noteq> 0" using present_made [OF f, of h q] by auto
    ultimately have "virt_to_phys h pm a s' = hhdm_virt_to_phys h q OR (a AND 0xfff)"
      using virt_to_phys_user [OF inv' low] q(1) by simp
    moreover have "user_entry h pm a s' AND NOT TABLE_ENTRY_ADDRESS_MASK = f"
      unfolding q(1) entry_address_bits_def using f by (simp add: entry_flag_bits flag_bits_def)
    ultimately show ?thesis
      using qq(6) mm(4) [of q] mm(7) [OF q(3,2)] q(2,3) unfolding q_def [symmetric] Let_def f_def by auto
  qed
  moreover have "virt_to_phys h pm a s' = virt_to_phys h pm a s \<and> user_entry h pm a s' = user_entry h pm a s" if "a \<notin> addr_range address len \<and> unat a < MEM_LOW_HALF_MAX" for a
  proof -
    have "user_entry h pm a s' = user_entry h pm a s"
      using mm(5) [of "unat a"] that u(2) by (simp add: user_entry_def root_def USER_END_def MEM_LOW_HALF_MAX_def)
    then show ?thesis using virt_to_phys_user [OF inv', of a] virt_to_phys_user [OF inv, of a] that by simp
  qed
  moreover have "pmm_free_count s \<le> pmm_free_count s' + 4 * (unat len div PAGE_SIZE)" using a(2) u(5) by (simp add: assigned_def)
  moreover have "\<forall>q n x. (q, n) \<in> set live \<and> (\<forall>e c. G q = Some (e, c) \<longrightarrow> e = 0) \<and> q \<le> x \<and> x < q + n \<longrightarrow> words s' x = words s x"
    using mm(8) by blast
  ultimately show ?thesis
    using run inv' mm(3,9) by (intro exI [of _ s'] exI [of _ live'] exI [of _ G'] exI [of _ frame]) blast
qed


text \<open>C2. Mapping a range works whenever its pages are unmapped and there is memory for the frames and the tables
  (at most four pages per page). Every page of the range then has a frame of its own, which no one else uses,
  is full of zeros and carries the requested permissions; no other user address, no other frame and no other
  memory of the kernel changes.\<close>

theorem mmu_assign_maps:
  assumes inv: "address_space h pm s live G" and r: "user_range address len"
    and unm: "\<forall>a\<in>addr_range address len. user_entry h pm a s = 0"
    and n: "4 * (unat len div PAGE_SIZE) \<le> pmm_free_count s"
  shows "\<exists>s' live' G' frame. mmu_assign h pm address len mode cache s = Some s' \<and> address_space h pm s' live' G' \<and>
    inj_on frame (page_number ` addr_range address len) \<and>
    (\<forall>a\<in>addr_range address len. let q = frame (page_number a) in
       virt_to_phys h pm a s' = hhdm_virt_to_phys h q OR (a AND 0xfff) \<and>
       user_entry h pm a s' AND NOT TABLE_ENTRY_ADDRESS_MASK = entry_flags cache mode \<and>
       (q, PAGE_SIZE) \<in> set live' \<and> (\<forall>n. (q, n) \<notin> set live) \<and> (\<forall>x. q \<le> x \<and> x < q + PAGE_SIZE \<longrightarrow> words s' x = 0)) \<and>
    (\<forall>a. a \<notin> addr_range address len \<and> unat a < MEM_LOW_HALF_MAX \<longrightarrow>
       virt_to_phys h pm a s' = virt_to_phys h pm a s \<and> user_entry h pm a s' = user_entry h pm a s) \<and>
    set live \<subseteq> set live' \<and>
    (\<forall>q n x. (q, n) \<in> set live \<and> (\<forall>e c. G q = Some (e, c) \<longrightarrow> e = 0) \<and> q \<le> x \<and> x < q + n \<longrightarrow> words s' x = words s x) \<and>
    pmm_free_count s' + card (dom G') = pmm_free_count s + card (dom G) \<and>
    pmm_free_count s \<le> pmm_free_count s' + 4 * (unat len div PAGE_SIZE)"
  by (rule space_assign [OF inv r unm n])

lemma space_clear:
  assumes inv: "address_space h pm s live G" and r: "user_range address len"
  shows "\<exists>s' live' G'. mmu_clear h pm address len s = Some s' \<and> address_space h pm s' live' G' \<and>
    (\<forall>a\<in>addr_range address len. virt_to_phys h pm a s' = 0 \<and> user_entry h pm a s' = 0) \<and>
    (\<forall>a. a \<notin> addr_range address len \<and> unat a < MEM_LOW_HALF_MAX \<longrightarrow>
       virt_to_phys h pm a s' = virt_to_phys h pm a s \<and> user_entry h pm a s' = user_entry h pm a s) \<and>
    G' \<subseteq>\<^sub>m G \<and> set live' = set live - (\<lambda>q. (q, PAGE_SIZE)) ` (dom G - dom G') \<and>
    pmm_free_count s' + card (dom G') = pmm_free_count s + card (dom G) \<and>
    (\<forall>q n x. (q, n) \<in> set live \<and> (\<forall>e c. G q = Some (e, c) \<longrightarrow> e = 0 \<and> q \<in> dom G') \<and> q \<le> x \<and> x < q + n \<longrightarrow>
       words s' x = words s x)"
proof -
  define root where "root = phys_to_virt h pm"
  define W where "W = within address (address + len)"
  note u = user_range_fits [OF r, folded W_def]
  have sp: "space_ok h root s live G" "lean 4 h root s G" using inv by (simp_all add: address_space_def root_def)
  obtain s' live' G' where c: "clear 4 h root address (address + len) s = Some (table_empty root s', s')"
    "cleared 4 h root W s live G s' live' G'"
    using clear_unmaps [OF sp(1) space_okD(2) [OF sp(1)] _ u(1) sp(2)] unfolding W_def by auto
  have m: "unmapped 4 h root W s live G s' live' G'" "lean 4 h root s' G'" using c(2) by (simp_all add: cleared_def)
  note mm = unmappedD [OF m(1)]
  have inv': "address_space h pm s' live' G'" using mm(1) m(2) by (simp add: address_space_def root_def)
  have "virt_to_phys h pm a s' = 0 \<and> user_entry h pm a s' = 0" if "a \<in> addr_range address len" for a
  proof -
    have "unat a \<in> W" using that u(2) by simp
    then have "user_entry h pm a s' = 0" "unat a < MEM_LOW_HALF_MAX"
      using mm(6) u(4) by (auto simp: user_entry_def root_def USER_END_def MEM_LOW_HALF_MAX_def)
    then show ?thesis using virt_to_phys_user [OF inv'] by simp
  qed
  moreover have "virt_to_phys h pm a s' = virt_to_phys h pm a s \<and> user_entry h pm a s' = user_entry h pm a s"
    if "a \<notin> addr_range address len \<and> unat a < MEM_LOW_HALF_MAX" for a
  proof -
    have "user_entry h pm a s' = user_entry h pm a s"
      using mm(5) [of "unat a"] that u(2) by (simp add: user_entry_def root_def USER_END_def MEM_LOW_HALF_MAX_def)
    then show ?thesis using virt_to_phys_user [OF inv', of a] virt_to_phys_user [OF inv, of a] that by simp
  qed
  moreover have "mmu_clear h pm address len s = Some s'"
    using c(1) u(6) by (simp add: mmu_clear_def root_def)
  moreover have "words s' x = words s x"
    if "(q, n) \<in> set live \<and> (\<forall>e c. G q = Some (e, c) \<longrightarrow> e = 0 \<and> q \<in> dom G') \<and> q \<le> x \<and> x < q + n" for q n x
    using that unmapped_back [OF m(1), of q] by (intro mm(8) [of q n]) auto
  ultimately show ?thesis using inv' mm(2,3,7) by (intro exI [of _ s'] exI [of _ live'] exI [of _ G']) blast
qed

text \<open>C3. Unmapping a range always works: afterwards no address of the range is mapped, every other user address
  is mapped as before, and the pages that held the range (frames, and tables that became empty) are back in
  the page allocator, one for one. Frames outside the range and all other memory keep their contents.\<close>

theorem mmu_clear_unmaps:
  assumes inv: "address_space h pm s live G" and r: "user_range address len"
  shows "\<exists>s' live' G'. mmu_clear h pm address len s = Some s' \<and> address_space h pm s' live' G' \<and>
    (\<forall>a\<in>addr_range address len. virt_to_phys h pm a s' = 0 \<and> user_entry h pm a s' = 0) \<and>
    (\<forall>a. a \<notin> addr_range address len \<and> unat a < MEM_LOW_HALF_MAX \<longrightarrow>
       virt_to_phys h pm a s' = virt_to_phys h pm a s \<and> user_entry h pm a s' = user_entry h pm a s) \<and>
    G' \<subseteq>\<^sub>m G \<and> set live' = set live - (\<lambda>q. (q, PAGE_SIZE)) ` (dom G - dom G') \<and>
    pmm_free_count s' + card (dom G') = pmm_free_count s + card (dom G) \<and>
    (\<forall>q n x. (q, n) \<in> set live \<and> (\<forall>e c. G q = Some (e, c) \<longrightarrow> e = 0 \<and> q \<in> dom G') \<and> q \<le> x \<and> x < q + n \<longrightarrow>
       words s' x = words s x)"
  by (rule space_clear [OF inv r])

lemma or_flags_nonzero:
  assumes "flag_bits f" shows "x OR f \<noteq> (0 :: u64)"
proof
  assume "x OR f = 0"
  then have "f AND PRESENT = 0" by (metis word_bw_lcs(2) and_zero_eq zero_and_eq bit.disj_zero_right or_eq_0_iff)
  then show False using assms by (simp add: flag_bits_def PRESENT_def)
qed

text \<open>An edit of flags leaves every entry that was in use in use, so no table becomes superfluous.\<close>

lemma edited_address_space:
  assumes inv: "address_space h pm s live G" and f: "flag_bits f" and e: "edited h (phys_to_virt h pm) f W s live G s'"
  shows "address_space h pm s' live G"
proof -
  define root where "root = phys_to_virt h pm"
  have lean: "lean 4 h root s G" using inv by (simp add: address_space_def root_def)
  have leaf: "leaf_entry 4 h root a s' = (if a \<in> W then (leaf_entry 4 h root a s AND TABLE_ENTRY_ADDRESS_MASK) OR f
      else leaf_entry 4 h root a s)" if "a < USER_END" for a using e that by (simp add: edited_def root_def)
  have "lean 4 h root s' G"
    unfolding lean_def
  proof (intro allI impI)
    fix q k c assume "G q = Some (k, c) \<and> 1 \<le> k \<and> k < 4"
    then have "maps_something h root s k c" using lean unfolding lean_def by blast
    then obtain a where "a \<in> region k c" "a < USER_END" "leaf_entry 4 h root a s \<noteq> 0" by (auto simp: maps_something_def)
    then show "maps_something h root s' k c" unfolding maps_something_def
      using leaf or_flags_nonzero [OF f] by (intro bexI [of _ a]) auto
  qed
  then show ?thesis using e by (simp add: address_space_def root_def edited_def)
qed

text \<open>C13. Changing the permissions of a mapped range changes exactly the flags of its entries: every address still
  leads to the same physical address, the memory and the pages of the space stay as they are, and no other
  user address is affected.\<close>

theorem mmu_edit_permissions:
  assumes inv: "address_space h pm s live G" and r: "user_range address len"
    and m: "\<forall>a\<in>addr_range address len. user_entry h pm a s \<noteq> 0"
  shows "\<exists>s'. mmu_edit h pm address len mode cache s = Some s' \<and> address_space h pm s' live G \<and>
    (\<forall>a\<in>addr_range address len. user_entry h pm a s' AND NOT TABLE_ENTRY_ADDRESS_MASK = entry_flags cache mode) \<and>
    (\<forall>a. a \<notin> addr_range address len \<and> unat a < MEM_LOW_HALF_MAX \<longrightarrow> user_entry h pm a s' = user_entry h pm a s) \<and>
    (\<forall>a. unat a < MEM_LOW_HALF_MAX \<longrightarrow> virt_to_phys h pm a s' = virt_to_phys h pm a s) \<and>
    pmm_free_count s' = pmm_free_count s \<and>
    (\<forall>q n x. (q, n) \<in> set live \<and> (\<forall>e c. G q = Some (e, c) \<longrightarrow> e = 0) \<and> q \<le> x \<and> x < q + n \<longrightarrow> words s' x = words s x)"
proof -
  define root where "root = phys_to_virt h pm"
  define f where "f = entry_flags cache mode"
  define W where "W = within address (address + len)"
  note u = user_range_fits [OF r, folded W_def]
  have f: "flag_bits f" unfolding f_def by (rule flag_bits_entry_flags)
  have sp: "space_ok h root s live G" "lean 4 h root s G" using inv by (simp_all add: address_space_def root_def)
  have "\<forall>a\<in>W. leaf_entry 4 h root a s \<noteq> 0"
  proof
    fix a assume a: "a \<in> W"
    then have w: "unat (word_of_nat a :: u64) = a" using u(4) by (auto simp: USER_END_def unat_of_nat)
    then have "word_of_nat a \<in> addr_range address len" using a u(2) by simp
    from bspec [OF m this] show "leaf_entry 4 h root a s \<noteq> 0" using w by (simp add: user_entry_def root_def)
  qed
  then obtain s' where e: "edit 4 h root address (address + len) f s = Some s'" "edited h root f W s live G s'"
    using edit_edits [OF f sp(1) space_okD(2) [OF sp(1)] _ u(1)] unfolding W_def by auto
  have leaf: "leaf_entry 4 h root a s' = (if a \<in> W then (leaf_entry 4 h root a s AND TABLE_ENTRY_ADDRESS_MASK) OR f
      else leaf_entry 4 h root a s)" if "a < USER_END" for a using e(2) that by (simp add: edited_def)
  note nz = or_flags_nonzero [OF f]
  have inv': "address_space h pm s' live G" by (rule edited_address_space [OF inv f e(2) [unfolded root_def]])
  have ue: "user_entry h pm a s' = (if a \<in> addr_range address len then (user_entry h pm a s AND TABLE_ENTRY_ADDRESS_MASK) OR f
      else user_entry h pm a s)" if "unat a < MEM_LOW_HALF_MAX" for a
    using leaf [of "unat a"] that u(2) by (simp add: user_entry_def root_def USER_END_def MEM_LOW_HALF_MAX_def)
  have low: "unat a < MEM_LOW_HALF_MAX" if "a \<in> addr_range address len" for a
    using that u(2,4) by (auto simp: USER_END_def MEM_LOW_HALF_MAX_def)
  have "user_entry h pm a s' AND NOT TABLE_ENTRY_ADDRESS_MASK = entry_flags cache mode" if "a \<in> addr_range address len" for a
    using ue [OF low [OF that]] that f entry_flag_bits by (simp add: flag_bits_def f_def)
  moreover have "virt_to_phys h pm a s' = virt_to_phys h pm a s" if "unat a < MEM_LOW_HALF_MAX" for a
  proof (cases "a \<in> addr_range address len")
    case True
    have "((x AND TABLE_ENTRY_ADDRESS_MASK) OR f) AND TABLE_ENTRY_ADDRESS_MASK = x AND TABLE_ENTRY_ADDRESS_MASK" for x
      using f by (simp add: bit.conj_disj_distrib2 and.assoc flag_bits_def)
    then show ?thesis
      using virt_to_phys_user [OF inv' that] virt_to_phys_user [OF inv that] ue [OF that] True bspec [OF m True] nz by simp
  next
    case False
    then show ?thesis using virt_to_phys_user [OF inv' that] virt_to_phys_user [OF inv that] ue [OF that] by simp
  qed
  moreover have "mmu_edit h pm address len mode cache s = Some s'"
    using e(1) u(6) by (simp add: mmu_edit_def root_def f_def)
  moreover have "\<forall>q n x. (q, n) \<in> set live \<and> (\<forall>e c. G q = Some (e, c) \<longrightarrow> e = 0) \<and> q \<le> x \<and> x < q + n \<longrightarrow> words s' x = words s x"
    "pmm_free_count s' = pmm_free_count s"
    using e(2) unfolding edited_def by blast+
  ultimately show ?thesis using inv' ue by (intro exI [of _ s']) simp
qed


section \<open>Creating and destroying\<close>

lemma frame_address:
  assumes "frame_ok h p"
  shows "phys_to_virt h (hhdm_virt_to_phys h p) = p"
  using assms by (simp add: phys_to_virt_def hhdm_virt_to_phys_def frame_ok_def unat_of_nat)

text \<open>A page whose lower half is empty is a sound, empty address space.\<close>

lemma empty_space:
  assumes "store_ok h s live" "(p, PAGE_SIZE) \<in> set live" "frame_ok h p" "page_aligned p"
    and z: "\<And>i. i < 256 \<Longrightarrow> \<not> present (entry p i s)"
  shows "space_ok h p s live [p \<mapsto> (4, 0)]"
proof -
  have "i < 256" if "i * span (Suc 3) < USER_END" for i
    using that by (simp add: span_def USER_END_def)
  then have "down_ok h s [p \<mapsto> (4, 0)]" using z unfolding down_ok_def by (auto split: if_splits)
  then show ?thesis
    using assms(1-4) by (auto simp: space_ok_def pages_ok_def up_ok_def USER_END_def split: if_splits)
qed

text \<open>A new address space is one page: it maps no user address, and its upper half, the kernel's, has the entries
  of the current one. Nothing that was live changes.\<close>

lemma space_create:
  assumes st: "store_ok h s live" and n: "0 < pmm_free_count s" and cur: "(phys_to_virt h cr3, PAGE_SIZE) \<in> set live"
  shows "\<exists>pm s'. mmu_create_address_space h cr3 0 s = Some (pm, s') \<and>
    address_space h pm s' ((phys_to_virt h pm, PAGE_SIZE) # live) [phys_to_virt h pm \<mapsto> (4, 0)] \<and>
    (\<forall>a. unat a < MEM_LOW_HALF_MAX \<longrightarrow> user_entry h pm a s' = 0 \<and> virt_to_phys h pm a s' = 0) \<and>
    (\<forall>i. 256 \<le> i \<and> i < 512 \<longrightarrow> entry (phys_to_virt h pm) i s' = entry (phys_to_virt h cr3) i s) \<and>
    (\<forall>q n x. (q, n) \<in> set live \<and> q \<le> x \<and> x < q + n \<longrightarrow> words s' x = words s x) \<and>
    pmm_free_count s = Suc (pmm_free_count s') \<and> (\<forall>n. (phys_to_virt h pm, n) \<notin> set live)"
proof -
  obtain p s1 where p: "mmu_alloc_page s = Some (p, s1)" "store_ok h s1 ((p, PAGE_SIZE) # live)" "frame_ok h p" "page_aligned p"
    "\<forall>x. p \<le> x \<and> x < p + PAGE_SIZE \<longrightarrow> words s1 x = 0"
    "\<forall>x. \<not> (p \<le> x \<and> x < p + PAGE_SIZE) \<longrightarrow> words s1 x = words s x" "pmm_free_count s = Suc (pmm_free_count s1)"
    using store_ok_alloc [OF st n] by blast
  define c where "c = phys_to_virt h cr3"
  define s2 where "s2 = copy_cells (p + PAGE_SIZE div 2) (c + PAGE_SIZE div 2) (PAGE_SIZE div 2) s1"
  define pm where "pm = hhdm_virt_to_phys h p"
  have pv: "phys_to_virt h pm = p" unfolding pm_def by (rule frame_address [OF p(3)])
  have fresh: "(p, n) \<notin> set live" for n
  proof
    assume l: "(p, n) \<in> set live"
    show False
    proof (cases "n = PAGE_SIZE")
      case True
      then show ?thesis using l store_ok_blocks(1) [OF p(2)] by simp
    next
      case False
      then have "disj (p, n) (p, PAGE_SIZE)" using l by (intro store_ok_blocks(2) [OF p(2)]) auto
      then show ?thesis using store_ok_blocks(4) [OF st l] by (simp add: disj_def PAGE_SIZE_def)
    qed
  qed
  have st2: "store_ok h s2 ((p, PAGE_SIZE) # live)"
    unfolding s2_def copy_cells_def
    by (rule store_ok_write [OF p(2), of p PAGE_SIZE]) (auto simp: PAGE_SIZE_def)
  have low: "words s2 x = 0" if "p \<le> x" "x < p + PAGE_SIZE div 2" for x
    using p(5) that by (simp add: s2_def copy_cells_def PAGE_SIZE_def)
  have apart: "\<not> (p \<le> x \<and> x < p + PAGE_SIZE)" if "(q, n) \<in> set live" "q \<le> x" "x < q + n" for q n x
    using block_avoids_page [OF p(2), of p q n x] that fresh by auto
  have keep: "words s2 x = words s x" if "(q, n) \<in> set live" "q \<le> x" "x < q + n" for q n x
    using apart [OF that] p(6) by (auto simp: s2_def copy_cells_def PAGE_SIZE_def)
  have high: "entry p i s2 = entry c i s" if i: "256 \<le> i" "i < 512" for i
  proof -
    have "words s1 (entry_cell c i) = words s (entry_cell c i)"
      using apart [OF cur [folded c_def]] entry_cell_in [OF i(2), of c] p(6) by blast
    moreover have "words s2 (entry_cell p i) = words s1 (entry_cell c i)"
      using i by (simp add: s2_def copy_cells_def entry_cell_def PAGE_SIZE_def)
    ultimately show ?thesis by (simp add: load64_def)
  qed
  have z: "\<not> present (entry p i s2)" if "i < 256" for i
    using low [of "entry_cell p i"] that by (simp add: load64_def entry_cell_def PAGE_SIZE_def)
  have sp: "space_ok h p s2 ((p, PAGE_SIZE) # live) [p \<mapsto> (4, 0)]"
    by (rule empty_space [OF st2 _ p(3,4) z]) simp_all
  then have inv: "address_space h pm s2 ((p, PAGE_SIZE) # live) [p \<mapsto> (4, 0)]"
    by (auto simp: address_space_def pv lean_def split: if_splits)
  have e: "user_entry h pm a s2 = 0" if "unat a < MEM_LOW_HALF_MAX" for a
  proof -
    have "unat a div span 4 < 256" using that by (simp add: span_def MEM_LOW_HALF_MAX_def div_less_iff_less_mult)
    then have "tindex 4 (unat a) < 256" by (simp add: tindex_def)
    then show ?thesis using z by (simp add: user_entry_def pv leaf_entry_4)
  qed
  have "mmu_create_address_space h cr3 0 s = Some (pm, s2)"
    using p(1) by (simp add: mmu_create_address_space_def s2_def c_def pm_def Let_def)
  moreover have "\<forall>a. unat a < MEM_LOW_HALF_MAX \<longrightarrow> user_entry h pm a s2 = 0 \<and> virt_to_phys h pm a s2 = 0"
    using e virt_to_phys_user [OF inv] by simp
  moreover have "pmm_free_count s = Suc (pmm_free_count s2)" using p(7) by (simp add: s2_def copy_cells_def)
  ultimately show ?thesis using inv high keep fresh by (intro exI [of _ pm] exI [of _ s2]) (auto simp: pv c_def)
qed

lemma frame_leaf:
  assumes inv: "space_ok h root s live G" and q: "G q = Some (0, c)"
  shows "leaf_entry 4 h root c s \<noteq> 0"
proof -
  have "q \<noteq> root" using q space_okD(2) [OF inv] by auto
  then obtain t b i where t: "G t = Some (Suc 0, b)" "i < 512" "c = child_base 0 b i" "present (entry t i s)"
    using space_upE [OF inv q] by metis
  have "c \<in> region 0 (child_base 0 b i)" by (simp add: t(3) region_def)
  from leaf_in_child [OF inv t(1,2) this] t(4) show ?thesis by auto
qed

lemma space_destroy:
  assumes inv: "address_space h pm s live G" and cur: "pm \<noteq> cr3"
  shows "\<exists>s' live'. mmu_destroy_address_space h cr3 pm s = Some s' \<and> store_ok h s' live' \<and>
    set live' = set live - (\<lambda>q. (q, PAGE_SIZE)) ` dom G \<and> pmm_free_count s' = pmm_free_count s + card (dom G) \<and>
    (\<forall>q n x. (q, n) \<in> set live \<and> q \<notin> dom G \<and> q \<le> x \<and> x < q + n \<longrightarrow> words s' x = words s x)"
proof -
  define root where "root = phys_to_virt h pm"
  define len :: u64 where "len = word_of_nat MEM_LOW_HALF_MAX"
  have l: "unat len = 2 ^ 47" by (simp add: len_def MEM_LOW_HALF_MAX_def)
  have r: "user_range 0 len" unfolding user_range_def l by (simp add: page_aligned_def PAGE_SIZE_def MEM_LOW_HALF_MAX_def)
  have all: "a \<in> addr_range 0 len \<longleftrightarrow> unat a < USER_END" for a by (simp add: addr_range_def l USER_END_def)
  obtain s1 live1 G1 where c: "mmu_clear h pm 0 len s = Some s1" "address_space h pm s1 live1 G1"
    "\<forall>a\<in>addr_range 0 len. virt_to_phys h pm a s1 = 0 \<and> user_entry h pm a s1 = 0" "G1 \<subseteq>\<^sub>m G"
    "set live1 = set live - (\<lambda>q. (q, PAGE_SIZE)) ` (dom G - dom G1)"
    "pmm_free_count s1 + card (dom G1) = pmm_free_count s + card (dom G)"
    "\<forall>q n x. (q, n) \<in> set live \<and> (\<forall>e c. G q = Some (e, c) \<longrightarrow> e = 0 \<and> q \<in> dom G1) \<and> q \<le> x \<and> x < q + n \<longrightarrow> words s1 x = words s x"
    using space_clear [OF inv r] by blast
  have sp: "space_ok h root s1 live1 G1" "lean 4 h root s1 G1" using c(2) by (simp_all add: address_space_def root_def)
  have none: "leaf_entry 4 h root a s1 = 0" if "a < USER_END" for a
  proof -
    have w: "unat (word_of_nat a :: u64) = a" using that by (simp add: USER_END_def unat_of_nat)
    then have "word_of_nat a \<in> addr_range 0 len" using that by (simp add: all)
    from bspec [OF c(3) this] w show ?thesis by (simp add: user_entry_def root_def)
  qed
  have only: "q = root" if q: "G1 q = Some (e, b)" for q e b
  proof -
    consider "e = 0" | "1 \<le> e" "e < 4" | "e = 4" using space_pageD(1) [OF sp(1) q] by linarith
    then show ?thesis
    proof cases
      case 1
      then show ?thesis using frame_leaf [OF sp(1), of q b] q none space_pageD(3) [OF sp(1) q] by simp
    next
      case 2
      then have "maps_something h root s1 e b" using sp(2) q unfolding lean_def by blast
      then show ?thesis using none by (auto simp: maps_something_def)
    next
      case 3
      have "b = 0"
      proof (rule ccontr)
        assume "b \<noteq> 0"
        then have "span (Suc 4) \<le> b" using space_pageD(2) [OF sp(1) q] 3 by (simp add: dvd_imp_le)
        then show False using space_pageD(3) [OF sp(1) q] by (simp add: span_def USER_END_def)
      qed
      then show ?thesis using same_depth_page [OF sp(1), of 4 q b root 0 0] q 3 space_okD(2) [OF sp(1)] by (simp add: region_def)
    qed
  qed
  have dom1: "dom G1 = {root}"
  proof (intro equalityI subsetI)
    show "q \<in> {root}" if "q \<in> dom G1" for q using only [of q] that by (cases "G1 q") auto
    show "q \<in> dom G1" if "q \<in> {root}" for q using that space_okD(2) [OF sp(1)] by auto
  qed
  have rootG: "root \<in> dom G" using inv by (auto simp: address_space_def space_ok_def root_def)
  note rr = space_pageD [OF sp(1) space_okD(2) [OF sp(1)]]
  obtain s2 where f: "free_page root s1 = Some s2" "store_ok h s2 (remove1 (root, PAGE_SIZE) live1)"
    "\<forall>x. \<not> (root \<le> x \<and> x < root + PAGE_SIZE) \<longrightarrow> words s2 x = words s1 x" "pmm_free_count s2 = Suc (pmm_free_count s1)"
    using store_ok_free [OF space_okD(1) [OF sp(1)] rr(6,5,4)] by blast
  have "mmu_destroy_address_space h cr3 pm s = Some s2"
    using cur c(1) f(1) by (simp add: mmu_destroy_address_space_def root_def len_def)
  moreover have "set (remove1 (root, PAGE_SIZE) live1) = set live - (\<lambda>q. (q, PAGE_SIZE)) ` dom G"
    using set_remove1_eq [OF store_ok_blocks(1) [OF space_okD(1) [OF sp(1)]], of "(root, PAGE_SIZE)"] rootG
    by (auto simp: c(5) dom1)
  moreover have "pmm_free_count s2 = pmm_free_count s + card (dom G)" using f(4) c(6) dom1 by simp
  moreover have "words s2 x = words s x" if q: "(q, n) \<in> set live" "q \<notin> dom G" "q \<le> x" "x < q + n" for q n x
  proof -
    have "words s1 x = words s x" using c(7) q by (metis domI)
    moreover have "(q, n) \<in> set live1" "q \<noteq> root" using q rootG by (auto simp: c(5))
    then have "words s2 x = words s1 x"
      using block_avoids_page [OF space_okD(1) [OF sp(1)] rr(6), of q n x] q f(3) by blast
    ultimately show ?thesis by simp
  qed
  ultimately show ?thesis using f(2) by (intro exI [of _ s2] exI [of _ "remove1 (root, PAGE_SIZE) live1"]) blast
qed


text \<open>Destroying an address space that is not the current one returns every page of it, frames and tables
  alike, to the page allocator, and touches no other memory.\<close>

theorem mmu_destroy_frees_all:
  assumes inv: "address_space h pm s live G" and cur: "pm \<noteq> cr3"
  shows "\<exists>s' live'. mmu_destroy_address_space h cr3 pm s = Some s' \<and> store_ok h s' live' \<and>
    set live' = set live - (\<lambda>q. (q, PAGE_SIZE)) ` dom G \<and> pmm_free_count s' = pmm_free_count s + card (dom G) \<and>
    (\<forall>q n x. (q, n) \<in> set live \<and> q \<notin> dom G \<and> q \<le> x \<and> x < q + n \<longrightarrow> words s' x = words s x)"
  by (rule space_destroy [OF inv cur])

section \<open>A small machine\<close>

text \<open>Eleven pages of memory at the physical address \<open>0x1000\<close>, the first of them the current top table.\<close>

definition small_h :: u64 where "small_h = 0xffff800000000000"

lemma small_frame: "i < 11 \<Longrightarrow> frame_ok small_h (0xffff800000001000 + i * PAGE_SIZE)"
proof -
  assume i: "i < 11"
  then have "i = 0 \<or> i = 1 \<or> i = 2 \<or> i = 3 \<or> i = 4 \<or> i = 5 \<or> i = 6 \<or> i = 7 \<or> i = 8 \<or> i = 9 \<or> i = 10" by arith
  then show ?thesis
    unfolding frame_ok_def hhdm_virt_to_phys_def small_h_def TABLE_ENTRY_ADDRESS_MASK_def PAGE_SIZE_def
    by (elim disjE) simp_all
qed

lemma small_machine: "\<exists>cr3 s. store_ok small_h s [(phys_to_virt small_h cr3, PAGE_SIZE)] \<and> pmm_free_count s = 10 \<and>
    (\<forall>c<10. pools s c = 0)"
proof -
  let ?v = "0xffff800000001000 :: nat"
  let ?h = "0xffff800000000000 :: u64" and ?b = "0x1000 :: u64" and ?l = "0xb000 :: u64"
  let ?new = "new_pages (unat ?b + unat ?h) (unat ?l div PAGE_SIZE)"
  have "\<exists>s. pmm_add_pages ?h ?b ?l (boot_state (\<lambda>_. 0)) = Some s \<and>
    mem_inv s ([] @ ?new) (\<lambda>_. []) [] \<and> tail_ok s ([] @ ?new) \<and>
    pmm_total_count s = pmm_total_count (boot_state (\<lambda>_. 0)) + unat ?l div PAGE_SIZE"
    by (rule pmm_add_pages_inv [OF mem_inv_boot])
      (simp_all add: tail_ok_def boot_state_def page_aligned_def PAGE_SIZE_def all_blocks_def page_blocks_def pool_blocks_def)
  then obtain s where s: "mem_inv s (new_pages ?v 11) (\<lambda>_. []) []" by (auto simp: PAGE_SIZE_def)
  have "kernel_pointer (fst b)" if "b \<in># all_blocks (new_pages ?v 11) (\<lambda>_. []) []" for b
    using that by (auto simp: all_blocks_def page_blocks_def pool_blocks_def new_pages_def kernel_pointer_def MEM_HIGH_HALF_MIN_def)
  moreover have "frame_ok small_h p" if "p \<in> set (new_pages ?v 11)" for p
    using that small_frame by (auto simp: new_pages_def)
  ultimately have st: "store_ok small_h s []" using s unfolding store_ok_def by blast
  have n: "pmm_free_count s = 11" "\<forall>c<10. pools s c = 0" using s by (simp_all add: mem_inv_def new_pages_def)
  obtain p s1 where s1: "mmu_alloc_page s = Some (p, s1)" "store_ok small_h s1 [(p, PAGE_SIZE)]" "frame_ok small_h p"
    "pmm_free_count s = Suc (pmm_free_count s1)"
    using store_ok_alloc [OF st] n by auto
  have "pools s1 = pools s" using s1(1) by (auto simp: mmu_alloc_page_def alloc_page_def Let_def split: if_splits bind_splits)
  then show ?thesis using s1(2-4) n frame_address [of small_h p] by (intro exI [of _ "hhdm_virt_to_phys small_h p"] exI [of _ s1]) simp
qed

lemma small_range: "user_range 0x400000 0x2000"
  by (simp add: user_range_def page_aligned_def PAGE_SIZE_def MEM_LOW_HALF_MAX_def)

lemma small_low: "a \<in> addr_range 0x400000 0x2000 \<Longrightarrow> unat a < MEM_LOW_HALF_MAX"
  by (simp add: addr_range_def MEM_LOW_HALF_MAX_def)

lemma small_space: "\<exists>cr3 pm s live G. pm \<noteq> cr3 \<and> address_space small_h pm s live G \<and> pmm_free_count s = 9 \<and> card (dom G) = 1 \<and>
  (\<forall>a. unat a < MEM_LOW_HALF_MAX \<longrightarrow> user_entry small_h pm a s = 0)"
proof -
  obtain cr3 s where s: "store_ok small_h s [(phys_to_virt small_h cr3, PAGE_SIZE)]" "pmm_free_count s = 10"
    using small_machine by blast
  obtain pm s' where p: "address_space small_h pm s' [(phys_to_virt small_h pm, PAGE_SIZE), (phys_to_virt small_h cr3, PAGE_SIZE)]
      [phys_to_virt small_h pm \<mapsto> (4, 0)]"
    "\<forall>a. unat a < MEM_LOW_HALF_MAX \<longrightarrow> user_entry small_h pm a s' = 0" "pmm_free_count s = Suc (pmm_free_count s')"
    "(phys_to_virt small_h pm, PAGE_SIZE) \<notin> set [(phys_to_virt small_h cr3, PAGE_SIZE)]"
    using space_create [OF s(1), of cr3] s(2) by auto
  have "pm \<noteq> cr3" using p(4) by auto
  then show ?thesis using p(1-3) s(2) by (intro exI [of _ cr3] exI [of _ pm] exI [of _ s'] exI) auto
qed


theorem mmu_assign_maps_witness:
  "\<exists>pm s s' frame. mmu_assign small_h pm 0x400000 0x2000 6 0 s = Some s' \<and>
    frame (page_number 0x400000) \<noteq> frame (page_number 0x401000) \<and>
    virt_to_phys small_h pm 0x401008 s' = hhdm_virt_to_phys small_h (frame (page_number 0x401008)) OR 8"
proof -
  obtain cr3 pm s live G where p: "address_space small_h pm s live G" "pmm_free_count s = 9"
    "\<forall>a. unat a < MEM_LOW_HALF_MAX \<longrightarrow> user_entry small_h pm a s = 0"
    using small_space by blast
  have u: "\<forall>a\<in>addr_range 0x400000 0x2000. user_entry small_h pm a s = 0" using p(3) small_low by blast
  have n: "4 * (unat (0x2000 :: u64) div PAGE_SIZE) \<le> pmm_free_count s" by (simp add: p(2) PAGE_SIZE_def)
  obtain s' live' G' frame where a: "mmu_assign small_h pm 0x400000 0x2000 6 0 s = Some s'"
    "inj_on frame (page_number ` addr_range 0x400000 0x2000)"
    "\<forall>a\<in>addr_range 0x400000 0x2000. let q = frame (page_number a) in virt_to_phys small_h pm a s' = hhdm_virt_to_phys small_h q OR (a AND 0xfff) \<and>
       user_entry small_h pm a s' AND NOT TABLE_ENTRY_ADDRESS_MASK = entry_flags 0 6 \<and>
       (q, PAGE_SIZE) \<in> set live' \<and> (\<forall>n. (q, n) \<notin> set live) \<and> (\<forall>x. q \<le> x \<and> x < q + PAGE_SIZE \<longrightarrow> words s' x = 0)"
    using mmu_assign_maps [OF p(1) small_range u n, of 6 0] by (elim exE conjE) (rule that)
  have r: "0x400000 \<in> addr_range 0x400000 0x2000" "0x401000 \<in> addr_range 0x400000 0x2000" "0x401008 \<in> addr_range 0x400000 0x2000"
    by (simp_all add: addr_range_def)
  have "page_number 0x400000 \<noteq> page_number 0x401000" by (simp add: page_number_def PAGE_SIZE_def)
  then have "frame (page_number 0x400000) \<noteq> frame (page_number 0x401000)" using a(2) r unfolding inj_on_def by blast
  moreover have "virt_to_phys small_h pm 0x401008 s' = hhdm_virt_to_phys small_h (frame (page_number 0x401008)) OR 8"
    using bspec [OF a(3) r(3)] by (simp add: Let_def)
  ultimately show ?thesis using a(1) by blast
qed

lemma small_mapped: "\<exists>cr3 pm s live G. pm \<noteq> cr3 \<and> address_space small_h pm s live G \<and>
  (\<forall>a\<in>addr_range 0x400000 0x2000. user_entry small_h pm a s \<noteq> 0)"
proof -
  obtain cr3 pm s live G where p: "pm \<noteq> cr3" "address_space small_h pm s live G" "pmm_free_count s = 9"
    "\<forall>a. unat a < MEM_LOW_HALF_MAX \<longrightarrow> user_entry small_h pm a s = 0"
    using small_space by blast
  have u: "\<forall>a\<in>addr_range 0x400000 0x2000. user_entry small_h pm a s = 0" using p(4) small_low by blast
  have n: "4 * (unat (0x2000 :: u64) div PAGE_SIZE) \<le> pmm_free_count s" by (simp add: p(3) PAGE_SIZE_def)
  obtain s' live' G' frame where a: "address_space small_h pm s' live' G'"
    "\<forall>a\<in>addr_range 0x400000 0x2000. let q = frame (page_number a) in virt_to_phys small_h pm a s' = hhdm_virt_to_phys small_h q OR (a AND 0xfff) \<and>
       user_entry small_h pm a s' AND NOT TABLE_ENTRY_ADDRESS_MASK = entry_flags 0 6 \<and>
       (q, PAGE_SIZE) \<in> set live' \<and> (\<forall>n. (q, n) \<notin> set live) \<and> (\<forall>x. q \<le> x \<and> x < q + PAGE_SIZE \<longrightarrow> words s' x = 0)"
    using space_assign [OF p(2) small_range u n, of 6 0] by (elim exE conjE) (rule that)
  have "entry_flags 0 6 \<noteq> 0" using flag_bits_entry_flags [of 0 6] by (auto simp: flag_bits_def PRESENT_def)
  then have "user_entry small_h pm x s' \<noteq> 0" if "x \<in> addr_range 0x400000 0x2000" for x
    using bspec [OF a(2) that] by (auto simp: Let_def)
  then show ?thesis using p(1) a(1) by blast
qed

theorem mmu_clear_unmaps_witness:
  "\<exists>pm s s'. user_entry small_h pm 0x401000 s \<noteq> 0 \<and> mmu_clear small_h pm 0x400000 0x2000 s = Some s' \<and>
    virt_to_phys small_h pm 0x401000 s' = 0"
proof -
  obtain cr3 pm s live G where p: "address_space small_h pm s live G"
    "\<forall>a\<in>addr_range 0x400000 0x2000. user_entry small_h pm a s \<noteq> 0" using small_mapped by blast
  have r: "0x401000 \<in> addr_range 0x400000 0x2000" by (simp add: addr_range_def)
  obtain s' where "mmu_clear small_h pm 0x400000 0x2000 s = Some s'"
    "\<forall>a\<in>addr_range 0x400000 0x2000. virt_to_phys small_h pm a s' = 0 \<and> user_entry small_h pm a s' = 0"
    using mmu_clear_unmaps [OF p(1) small_range] by (elim exE conjE) (rule that)
  then show ?thesis using p(2) r by blast
qed

theorem mmu_edit_permissions_witness:
  "\<exists>pm s s'. mmu_edit small_h pm 0x400000 0x2000 4 0 s = Some s' \<and>
    user_entry small_h pm 0x401000 s' AND NOT TABLE_ENTRY_ADDRESS_MASK = entry_flags 0 4"
proof -
  obtain cr3 pm s live G where p: "address_space small_h pm s live G"
    "\<forall>a\<in>addr_range 0x400000 0x2000. user_entry small_h pm a s \<noteq> 0" using small_mapped by blast
  have r: "0x401000 \<in> addr_range 0x400000 0x2000" by (simp add: addr_range_def)
  obtain s' where "mmu_edit small_h pm 0x400000 0x2000 4 0 s = Some s'"
    "\<forall>a\<in>addr_range 0x400000 0x2000. user_entry small_h pm a s' AND NOT TABLE_ENTRY_ADDRESS_MASK = entry_flags 0 4"
    using mmu_edit_permissions [OF p(1) small_range p(2), of 4 0] by (elim exE conjE) (rule that)
  then show ?thesis using r by blast
qed

theorem mmu_destroy_frees_all_witness:
  "\<exists>cr3 pm s s' k. 0 < k \<and> mmu_destroy_address_space small_h cr3 pm s = Some s' \<and> pmm_free_count s' = pmm_free_count s + k"
proof -
  obtain cr3 pm s live G where p: "pm \<noteq> cr3" "address_space small_h pm s live G" using small_mapped by blast
  have "space_ok small_h (phys_to_virt small_h pm) s live G" using p(2) by (simp add: address_space_def)
  then have "0 < card (dom G)" using space_finite space_okD(2) by (metis card_gt_0_iff domIff empty_iff option.distinct(1))
  then show ?thesis using mmu_destroy_frees_all [OF p(2,1)] by (elim exE conjE) (intro exI conjI)
qed

end
