(* ===== verification/Owned.thy ===== *)
theory Owned
  imports Alloc
begin

text \<open>
  The owning pointer \<open>owned\<close> of \<open>kernel/src/mem/alloc.hxx\<close>: \<open>make\<close> and the destructor over the heap of \<open>Alloc\<close>, and what
  they do to its books. An allocation takes the first block of its pool, or else a whole page of the page allocator, which
  the pool then keeps: pages and pools together never lose a byte.
\<close>

section \<open>What is in use\<close>

lemma heap_ok_perm:
  assumes "heap_ok s live" and "mset live' = mset live"
  shows "heap_ok s live'"
proof -
  have "set live' = set live" using assms(2) by (rule mset_eq_setD)
  then show ?thesis using assms by (simp add: heap_ok_def mem_inv_def all_blocks_def live_ok_def)
qed

text \<open>Blocks of a class that are in use, by the allocator's own statistics.\<close>

definition in_use :: "mem_state \<Rightarrow> nat \<Rightarrow> int" where
  "in_use s c = int (stat_total s c) - int (stat_free s c)"

definition of_class :: "nat \<Rightarrow> block list \<Rightarrow> nat" where
  "of_class c live = length (filter (\<lambda>b. snd b = class_size c) live)"

lemma of_class_simps [simp]:
  "of_class c [] = 0" "of_class c (b # bs) = (if snd b = class_size c then 1 else 0) + of_class c bs"
  by (simp_all add: of_class_def)

lemma of_class_perm:
  assumes "mset l' = mset l"
  shows "of_class c l' = of_class c l"
proof -
  have "of_class c xs = size (filter_mset (\<lambda>b. snd b = class_size c) (mset xs))" for xs
    by (simp add: of_class_def mset_filter [symmetric] del: mset_filter)
  then show ?thesis using assms by simp
qed

lemma of_class_remove1:
  "b \<in> set l \<Longrightarrow> of_class c l = (if snd b = class_size c then 1 else 0) + of_class c (remove1 b l)"
  by (induction l) auto

lemma alloc_page_stats:
  "alloc_page s = Some (p, s') \<Longrightarrow> stat_free s' = stat_free s \<and> stat_total s' = stat_total s"
  by (auto simp: alloc_page_def Let_def split: if_splits)

lemma kalloc_in_use:
  assumes inv: "mem_inv s ps fs live" and c: "c < 10" and run: "kalloc_class (int c) s = Some (p, s')"
  shows "in_use s' d = in_use s d + (if p \<noteq> 0 \<and> d = c then 1 else 0)"
proof (cases "pools s c = 0")
  case True
  have "2 ^ c \<le> (2 ^ 9 :: nat)" using c by (intro power_increasing) auto
  then have "1 \<le> 512 div (2 ^ c :: nat)" by (simp add: div_le_mono less_eq_div_iff_mult_less_eq)
  then show ?thesis using run c True
    by (auto simp: kalloc_class_def alloc_from_fresh_page_def debug_memset_def in_use_def PAGE_SIZE_def
      bind_eq_Some_conv Let_def split: if_splits prod.splits dest!: alloc_page_stats)
next
  case False
  have "stat_free s c \<noteq> 0" using inv c False by (auto simp: mem_inv_def)
  then show ?thesis using run c False by (auto simp: kalloc_class_def debug_memset_def in_use_def Let_def)
qed

lemma kfree_in_use:
  "kfree_class p (int c) s = Some s' \<Longrightarrow> c < 10 \<Longrightarrow> in_use s' d = in_use s d - (if d = c then 1 else 0)"
  by (auto simp: kfree_class_def debug_memset_def in_use_def Let_def split: if_splits)

section \<open>Exact effects\<close>

text \<open>The bytes of the free pages and of all blocks of one class.\<close>

definition class_bytes :: "nat \<Rightarrow> mem_state \<Rightarrow> nat" where
  "class_bytes c s = pmm_free_count s * PAGE_SIZE + class_size c * stat_total s c"

text \<open>No block of the class is to be had.\<close>

definition exhausted :: "nat \<Rightarrow> mem_state \<Rightarrow> bool" where
  "exhausted c s \<longleftrightarrow> pools s c = 0 \<and> pmm_free_count s = 0"

text \<open>The page that the next allocation takes from the page allocator.\<close>

definition fresh_page :: "nat \<Rightarrow> mem_state \<Rightarrow> nat" where
  "fresh_page c s = (if pools s c = 0 then 1 else 0)"

lemma fresh_page_le: "fresh_page c s \<le> 1"
  by (simp add: fresh_page_def)

definition same_blocks :: "block list \<Rightarrow> mem_state \<Rightarrow> mem_state \<Rightarrow> bool" where
  "same_blocks live s s' \<longleftrightarrow> (\<forall>q n x. (q, n) \<in> set live \<and> q \<le> x \<and> x < q + n \<longrightarrow> words s' x = words s x)"

definition other_classes :: "nat \<Rightarrow> mem_state \<Rightarrow> mem_state \<Rightarrow> bool" where
  "other_classes c s s' \<longleftrightarrow> (\<forall>d. d \<noteq> c \<longrightarrow> pools s' d = pools s d \<and> stat_total s' d = stat_total s d \<and> stat_free s' d = stat_free s d)"

lemma carve_outside:
  "carve page c offset lst w = (lst', w') \<Longrightarrow> \<not> (page \<le> x \<and> x < page + PAGE_SIZE) \<Longrightarrow> w' x = w x"
proof (induction page c offset lst w rule: carve.induct)
  case (1 page c offset lst w)
  show ?case
  proof (cases "offset < PAGE_SIZE")
    case True
    then have c: "carve page c (offset + class_size c) (page + offset) (w(page + offset := lst)) = (lst', w')"
      using "1.prems"(1) by (simp add: carve.simps [of page c offset])
    have "w' x = (w(page + offset := lst)) x" by (rule "1.IH" [OF True c "1.prems"(2)])
    then show ?thesis using True "1.prems"(2) by auto
  next
    case False
    then show ?thesis using "1.prems"(1) by (simp add: carve.simps [of page c offset])
  qed
qed

lemma msep_member: "msep M \<Longrightarrow> a \<in># M \<Longrightarrow> b \<in># M - {#a#} \<Longrightarrow> disj a b"
  by (simp add: msep_def)

lemma apart_from_free:
  assumes "mem_inv s ps fs live" and "b \<in># page_blocks ps + pool_blocks fs" and "(q, n) \<in> set live" "q \<le> x" "x < q + n"
  shows "\<not> (fst b \<le> x \<and> x < fst b + snd b)"
proof -
  have "msep ((page_blocks ps + pool_blocks fs) + mset live)" using assms(1) by (simp add: mem_inv_def all_blocks_def)
  then have "disj b (q, n)" using assms(2,3) unfolding msep_union by auto
  then show ?thesis using assms(4,5) by (auto simp: disj_def)
qed

lemma kalloc_class_exact:
  assumes inv: "mem_inv s ps fs live" and c: "c < 10" and kp: "\<forall>b\<in>#all_blocks ps fs live. kernel_pointer (fst b)"
    and some: "\<not> exhausted c s"
  shows "\<exists>p s' ps' fs'. kalloc_class (int c) s = Some (p, s') \<and> p \<noteq> 0 \<and> p mod class_size c = 0 \<and>
    mem_inv s' ps' fs' ((p, class_size c) # live) \<and> set ps' \<subseteq> set ps \<and>
    (\<forall>b\<in>#all_blocks ps' fs' ((p, class_size c) # live). kernel_pointer (fst b)) \<and>
    same_blocks live s s' \<and> other_classes c s s' \<and> class_bytes c s' = class_bytes c s \<and>
    pmm_free_count s = pmm_free_count s' + fresh_page c s"
proof (cases "pools s c = 0")
  case False
  have "fs c \<noteq> []" using inv c False by (auto simp: mem_inv_def)
  then obtain p xs where fc: "fs c = p # xs" by (cases "fs c") auto
  then have fs: "fs(c := p # xs) = fs" by (simp add: fun_upd_idem)
  from kalloc_class_hit [of s ps fs c p xs live, unfolded fs, OF inv c] obtain s' where
    s': "kalloc_class (int c) s = Some (p, s')" "p \<noteq> 0" "p mod class_size c = 0"
    "mem_inv s' ps (fs(c := xs)) ((p, class_size c) # live)" by (elim exE conjE)
  have "all_blocks ps (fs(c := p # xs)) live = all_blocks ps (fs(c := xs)) ((p, class_size c) # live)"
    by (simp add: all_blocks_def pool_blocks_Cons c)
  with kp have k: "\<forall>b\<in>#all_blocks ps (fs(c := xs)) ((p, class_size c) # live). kernel_pointer (fst b)"
    unfolding fs by simp
  have e: "s' = debug_memset p 0xbb c (s\<lparr>pools := (pools s)(c := words s p), stat_free := (stat_free s)(c := stat_free s c - 1)\<rparr>)"
    using s'(1) c False by (auto simp: kalloc_class_def Let_def)
  have "(p, class_size c) \<in># pool_blocks fs" using pool_blocks_mem [OF c] fc by simp
  then have "same_blocks live s s'"
    unfolding same_blocks_def e debug_memset_def using apart_from_free [OF inv, of "(p, class_size c)"] by (auto simp: fill_outside)
  moreover have "other_classes c s s'" "class_bytes c s' = class_bytes c s" "pmm_free_count s = pmm_free_count s' + fresh_page c s"
    using False by (simp_all add: e debug_memset_def other_classes_def class_bytes_def fresh_page_def)
  ultimately show ?thesis using s' k
    by (intro exI [of _ p] exI [of _ s'] exI [of _ ps] exI [of _ "fs(c := xs)"]) (simp only: order_refl simp_thms)
next
  case True
  have e: "fs c = []" using inv c True by (cases "fs c") (auto simp: mem_inv_def)
  have "length ps = pmm_free_count s" using inv by (simp add: mem_inv_def)
  then obtain p qs where ps: "ps = p # qs" using some True by (cases ps) (auto simp: exhausted_def)
  from kalloc_class_fresh [of s p qs fs live c, OF inv [unfolded ps] c e] obtain s' where
    s': "kalloc_class (int c) s = Some (p, s')" "p \<noteq> 0" "p mod class_size c = 0"
    "mem_inv s' qs (fs(c := cuts p c 1)) ((p, class_size c) # live)" by (elim exE conjE)
  have eq: "all_blocks qs (fs(c := cuts p c 1)) ((p, class_size c) # live) =
      mset (map (\<lambda>x. (x, class_size c)) (cuts p c 0)) + all_blocks qs fs live"
    using pool_blocks_upd [OF c, of fs "cuts p c 1"] e by (simp add: all_blocks_def cuts_def upt_conv_Cons)
  have kpc: "kernel_pointer x" if "x \<in> set (cuts p c 0)" for x
    using that kp ps by (auto simp: cuts_def all_blocks_def page_blocks_def kernel_pointer_def)
  have k: "\<forall>b\<in>#all_blocks qs (fs(c := cuts p c 1)) ((p, class_size c) # live). kernel_pointer (fst b)"
    unfolding eq using kpc kp ps by (auto simp: all_blocks_def page_blocks_def)
  have pl: "pmm_free_list s = p" using inv ps by (simp add: mem_inv_def)
  obtain lst w where carve: "carve p c (class_size c) 0 (fill p PAGE_SIZE 0xdd (words s)) = (lst, w)" by fastforce
  have fc: "0 < pmm_free_count s" using inv ps by (simp add: mem_inv_def)
  have e': "words s' = fill p (class_size c) 0xaa w" "other_classes c s s'" "pmm_free_count s' = pmm_free_count s - 1"
    "stat_total s' c = stat_total s c + page_entries c"
    using s'(1,2) c True pl carve fc page_entries_div [OF c]
    by (auto simp: kalloc_class_def alloc_from_fresh_page_def alloc_page_def debug_memset_def Let_def other_classes_def)
  have "class_size c \<le> PAGE_SIZE"
    using page_entries [OF c] page_entries_pos [of c] by (metis One_nat_def Suc_leI mult.left_neutral mult_le_mono1)
  then have out: "words s' x = words s x" if "\<not> (p \<le> x \<and> x < p + PAGE_SIZE)" for x
    using that carve_outside [OF carve that] by (auto simp: e'(1) fill_def)
  have "same_blocks live s s'"
    unfolding same_blocks_def using apart_from_free [OF inv, of "(p, PAGE_SIZE)"] out by (auto simp: page_blocks_def ps)
  moreover have "class_bytes c s' = class_bytes c s"
    using page_entries [OF c] fc by (cases "pmm_free_count s") (simp_all add: class_bytes_def e'(3,4) algebra_simps)
  moreover have "pmm_free_count s = pmm_free_count s' + fresh_page c s" using fc True by (simp add: e'(3) fresh_page_def)
  ultimately show ?thesis using s' k e'(2) by (intro exI [of _ p] exI [of _ s'] exI [of _ qs] exI [of _ "fs(c := cuts p c 1)"]) (auto simp: ps)
qed

lemma kalloc_class_exhausted:
  assumes "mem_inv s ps fs live" and "c < 10" and "exhausted c s"
  shows "kalloc_class (int c) s = Some (0, s)"
proof -
  have "fs c = []" using assms by (cases "fs c") (auto simp: mem_inv_def exhausted_def)
  moreover have "ps = []" using assms by (auto simp: mem_inv_def exhausted_def)
  ultimately show ?thesis using kalloc_class_empty assms(1,2) by blast
qed

lemma kfree_class_exact:
  assumes run: "kfree_class p (int c) s = Some s'" and c: "c < 10"
    and sep: "\<And>q n x. (q, n) \<in> set live \<Longrightarrow> q \<le> x \<Longrightarrow> x < q + n \<Longrightarrow> \<not> (p \<le> x \<and> x < p + class_size c)"
  shows "same_blocks live s s'" and "other_classes c s s'" and "class_bytes c s' = class_bytes c s"
    and "pmm_free_count s' = pmm_free_count s" and "pools s' c = p" and "p \<noteq> 0"
proof -
  have e: "p \<noteq> 0" "s' = (debug_memset p 0xcc c s)\<lparr>words := (words (debug_memset p 0xcc c s))(p := pools s c), pools := (pools s)(c := p),
      stat_free := (stat_free s)(c := stat_free s c + 1)\<rparr>"
    using run c by (auto simp: kfree_class_def debug_memset_def Let_def kassert_def split: if_splits)
  have "words s' x = words s x" if "\<not> (p \<le> x \<and> x < p + class_size c)" for x
    using that class_size_pos [of c] by (auto simp: e(2) debug_memset_def fill_def)
  then show "same_blocks live s s'" unfolding same_blocks_def using sep by metis
  show "other_classes c s s'" "class_bytes c s' = class_bytes c s" "pmm_free_count s' = pmm_free_count s" "pools s' c = p" "p \<noteq> 0"
    using e by (simp_all add: debug_memset_def other_classes_def class_bytes_def)
qed

section \<open>Make and destroy\<close>

text \<open>What the constructor or the destructor of the object does, given its address.\<close>

type_synonym object_fn = "nat \<Rightarrow> mem_state \<Rightarrow> mem_state option"

text \<open>\<open>~owned\<close>: the pointer it leaves, and the heap.\<close>

definition owned_destroy :: "object_fn \<Rightarrow> nat \<Rightarrow> nat \<Rightarrow> mem_state \<Rightarrow> (nat \<times> mem_state) option" where
  "owned_destroy dtor sclass ptr s =
     (if ptr \<noteq> 0 then do {
        s \<leftarrow> dtor ptr s;
        s \<leftarrow> kfree_class ptr (int sclass) s;
        Some (0, s)
      }
      else Some (ptr, s))"

definition owned_make :: "object_fn \<Rightarrow> nat \<Rightarrow> mem_state \<Rightarrow> ((errno + nat) \<times> mem_state) option" where
  "owned_make ctor sclass s = do {
     (ptr, s) \<leftarrow> kalloc_class (int sclass) s;
     if ptr = 0 then Some (Inl ENOMEM, s)
     else do {
       s \<leftarrow> ctor ptr s;
       Some (Inr ptr, s)
     }
   }"

end
