(* ===== verification/Vm.thy ===== *)
theory Vm
  imports Mmu Owned
begin

text \<open>
  User address spaces: \<open>kernel/src/user/vm.cxx\<close>.

  A VM has a page map and a singly linked list of areas. Nothing else points into the list, so the model has
  the list itself; each area has the address of its node (\<open>va_node\<close>), which the operations allocate from and give back to
  the heap of \<open>Alloc\<close>. A \<open>route\<close> (the pointer to insert at) is the pair of the areas before and after it.
  The page tables are those of \<open>Mmu\<close>, on the same memory \<open>s\<close>.
\<close>

section \<open>Areas\<close>

record vm_area =
  va_node :: nat
  va_begin :: u64
  va_end :: u64
  va_flags :: u32

record vm =
  vm_page_map :: u64
  vm_areas :: "vm_area list"

text \<open>The nodes of the list: \<open>sizeof(VM_area)\<close> is 32, and neither the constructor nor the destructor does anything to the heap.\<close>

definition VM_AREA_SIZE :: nat where "VM_AREA_SIZE = 32"
definition VM_AREA_CLASS :: nat where "VM_AREA_CLASS = nat (alloc_calc_size_class VM_AREA_SIZE)"

lemma VM_AREA_CLASS: "VM_AREA_CLASS = 2" "alloc_calc_size_class VM_AREA_SIZE = int VM_AREA_CLASS"
proof -
  have "bit_len 31 \<le> 5" "4 < bit_len 31" by (rule bit_len_mono_pow bit_len_ge_pow; simp)+
  then have "alloc_calc_size_class VM_AREA_SIZE = 2"
    by (simp add: alloc_calc_size_class_def VM_AREA_SIZE_def ALLOC_MAX_def PAGE_SIZE_def clzl_def)
  then show "VM_AREA_CLASS = 2" "alloc_calc_size_class VM_AREA_SIZE = int VM_AREA_CLASS" by (simp_all add: VM_AREA_CLASS_def)
qed

definition make_node :: "mem_state \<Rightarrow> ((errno + nat) \<times> mem_state) option" where
  "make_node = owned_make (\<lambda>_. Some) VM_AREA_CLASS"

definition destroy_node :: "nat \<Rightarrow> mem_state \<Rightarrow> mem_state option" where
  "destroy_node n s = map_option snd (owned_destroy (\<lambda>_. Some) VM_AREA_CLASS n s)"

definition free_node :: "nat \<Rightarrow> mem_state \<Rightarrow> mem_state option" where
  "free_node n s = kfree_class n (alloc_calc_size_class VM_AREA_SIZE) s"

definition ADDR_MIN :: u64 where "ADDR_MIN = word_of_nat PAGE_SIZE"
definition ADDR_MAX :: u64 where "ADDR_MAX = word_of_nat MEM_LOW_HALF_MAX"
definition ADDR_DEFAULT_HINT :: u64 where "ADDR_DEFAULT_HINT = 0xaaabbb * 1024 * 1024"

definition PROT_READ :: u32 where "PROT_READ = 1"
definition PROT_WRITE :: u32 where "PROT_WRITE = 2"
definition PROT_EXEC :: u32 where "PROT_EXEC = 4"

definition space_after :: "vm_area \<Rightarrow> vm_area list \<Rightarrow> u64" where
  "space_after x nx = (case nx of [] \<Rightarrow> ADDR_MAX | y # _ \<Rightarrow> va_begin y) - va_end x"

datatype overlap = After | Starts_with | Contains | Whole | Ends_with | Before

definition find_overlap :: "vm_area \<Rightarrow> u64 \<Rightarrow> u64 \<Rightarrow> overlap" where
  "find_overlap x ibegin iend =
     (if iend \<le> va_begin x then After
      else if va_end x \<le> ibegin then Before
      else (let contains_start = (ibegin \<le> va_begin x); contains_end = (va_end x \<le> iend) in
        if contains_start then (if contains_end then Whole else Starts_with)
        else (if contains_end then Ends_with else Contains)))"

definition page_aligned64 :: "u64 \<Rightarrow> bool" where
  "page_aligned64 a \<longleftrightarrow> a AND word_of_nat (PAGE_SIZE - 1) = 0"

definition assert_valid :: "u64 \<Rightarrow> u64 \<Rightarrow> unit option" where
  "assert_valid address len = kassert (page_aligned64 address \<and> page_aligned64 len \<and> 0 <s len)"

text \<open>The loop of \<open>vm_clear_for_insert\<close>: what is left of the spare node, and the areas before the route and those after
  it. The route is the one the code returns: when the range lies inside one area, it stays before that area.\<close>

fun clear_areas :: "u64 \<Rightarrow> u64 \<Rightarrow> nat \<Rightarrow> vm_area list \<Rightarrow> mem_state \<Rightarrow>
    (nat \<times> vm_area list \<times> vm_area list \<times> mem_state) option" where
  "clear_areas address iend spare [] s = Some (spare, [], [], s)"
| "clear_areas address iend spare (x # xs) s = (case find_overlap x address iend of
     After \<Rightarrow> Some (spare, [], x # xs, s)
   | Starts_with \<Rightarrow> do {
       let x = x\<lparr>va_begin := iend\<rparr>;
       kassert (va_begin x < va_end x);
       Some (spare, [], x # xs, s)
     }
   | Contains \<Rightarrow> Some (0, [], x\<lparr>va_end := address\<rparr> # x\<lparr>va_node := spare, va_begin := iend\<rparr> # xs, s)
   | Whole \<Rightarrow> do {
       s \<leftarrow> free_node (va_node x) s;
       clear_areas address iend spare xs s
     }
   | Ends_with \<Rightarrow> do {
       let x = x\<lparr>va_end := address\<rparr>;
       kassert (va_begin x < va_end x);
       (spare, ps, qs, s) \<leftarrow> clear_areas address iend spare xs s;
       Some (spare, x # ps, qs, s)
     }
   | Before \<Rightarrow> do {
       (spare, ps, qs, s) \<leftarrow> clear_areas address iend spare xs s;
       Some (spare, x # ps, qs, s)
     })"

definition vm_clear_for_insert ::
    "u64 \<Rightarrow> u64 \<Rightarrow> vm_area list \<Rightarrow> mem_state \<Rightarrow> ((errno + vm_area list \<times> vm_area list) \<times> mem_state) option" where
  "vm_clear_for_insert address iend areas s = do {
     (r, s) \<leftarrow> make_node s;
     case r of
       Inl e \<Rightarrow> Some (Inl e, s)
     | Inr spare \<Rightarrow> do {
         (spare, ps, qs, s) \<leftarrow> clear_areas address iend spare areas s;
         s \<leftarrow> destroy_node spare s;
         Some (Inr (ps, qs), s)
       }
   }"

text \<open>\<open>merge_regions_after\<close> on the part of the list that starts at the area.\<close>

function merge_regions_after :: "vm_area list \<Rightarrow> mem_state \<Rightarrow> (vm_area list \<times> mem_state) option" where
  "merge_regions_after (x # y # ys) s =
     (if va_end x = va_begin y \<and> va_flags x = va_flags y
      then do {
        s \<leftarrow> free_node (va_node y) s;
        merge_regions_after (x\<lparr>va_end := va_end y\<rparr> # ys) s
      }
      else Some (x # y # ys, s))"
| "merge_regions_after [x] s = Some ([x], s)"
| "merge_regions_after [] s = Some ([], s)"
  by pat_completeness auto
termination by (relation "measure (length \<circ> fst)") auto

text \<open>The search of \<open>vm_insert_area\<close>: \<open>None\<close> is \<open>EEXIST\<close>.\<close>

fun insert_pos :: "u64 \<Rightarrow> u64 \<Rightarrow> vm_area list \<Rightarrow> (vm_area list \<times> vm_area list) option" where
  "insert_pos address iend [] = Some ([], [])"
| "insert_pos address iend (x # xs) =
     (if address < va_end x
      then (if va_begin x \<le> address \<or> va_begin x < iend then None else Some ([], x # xs))
      else map_option (\<lambda>(ps, qs). (x # ps, qs)) (insert_pos address iend xs))"

definition vm_insert_area :: "u64 \<Rightarrow> u64 \<Rightarrow> vm_area list \<Rightarrow> mem_state \<Rightarrow>
    ((errno + nat \<times> vm_area list \<times> vm_area list) \<times> mem_state) option" where
  "vm_insert_area address iend areas s = do {
     (r, s) \<leftarrow> make_node s;
     case r of
       Inl e \<Rightarrow> Some (Inl e, s)
     | Inr n \<Rightarrow> (case insert_pos address iend areas of
         None \<Rightarrow> do { s \<leftarrow> destroy_node n s; Some (Inl EEXIST, s) }
       | Some (ps, qs) \<Rightarrow> Some (Inr (n, ps, qs), s))
   }"

definition prot_to_mode :: "u32 \<Rightarrow> u32" where
  "prot_to_mode prot =
     (let mode = 0;
          mode = (if prot \<noteq> 0 then mode OR MMU_MODE_USER else mode);
          mode = (if prot AND PROT_EXEC \<noteq> 0 then mode OR MMU_MODE_EXEC else mode)
      in (if prot AND PROT_WRITE \<noteq> 0 then mode OR MMU_MODE_WRITE else mode))"

section \<open>Operations\<close>

definition vm_init :: "u64 \<Rightarrow> u64 \<Rightarrow> vm \<Rightarrow> mem_state \<Rightarrow> (vm \<times> mem_state) option" where
  "vm_init h cr3 v s = do {
     (pm, s) \<leftarrow> mmu_create_address_space h cr3 (vm_page_map v) s;
     Some (v\<lparr>vm_page_map := pm\<rparr>, s)
   }"

definition vm_free :: "u64 \<Rightarrow> u64 \<Rightarrow> u64 \<Rightarrow> vm \<Rightarrow> mem_state \<Rightarrow> ((errno + unit) \<times> vm \<times> mem_state) option" where
  "vm_free h address len v s = do {
     assert_valid address len;
     if ADDR_MAX \<le> address \<or> ADDR_MAX < address + len then Some (Inl EINVAL, v, s)
     else do {
       (r, s) \<leftarrow> vm_clear_for_insert address (address + len) (vm_areas v) s;
       case r of
         Inl e \<Rightarrow> Some (Inl e, v, s)
       | Inr (ps, qs) \<Rightarrow> do {
           s \<leftarrow> mmu_clear h (vm_page_map v) address len s;
           Some (Inr (), v\<lparr>vm_areas := ps @ qs\<rparr>, s)
         }
     }
   }"

definition range_invalid :: "u64 \<Rightarrow> u64 \<Rightarrow> bool" where
  "range_invalid address len \<longleftrightarrow> address < ADDR_MIN \<or> ADDR_MAX \<le> address \<or> ADDR_MAX < address + len"

text \<open>The page tables are only touched when the area has some permission.\<close>

definition map_area :: "u64 \<Rightarrow> u64 \<Rightarrow> u64 \<Rightarrow> u64 \<Rightarrow> u32 \<Rightarrow> mem_state \<Rightarrow> mem_state option" where
  "map_area h pm address len prot s =
     (if prot \<noteq> 0 then mmu_assign h pm address len (prot_to_mode prot) 0 s else Some s)"

definition new_area :: "nat \<Rightarrow> u64 \<Rightarrow> u64 \<Rightarrow> u32 \<Rightarrow> vm_area" where
  "new_area n address len prot = \<lparr>va_node = n, va_begin = address, va_end = address + len, va_flags = prot_to_mode prot\<rparr>"

definition vm_alloc_fixed_noreplace ::
    "u64 \<Rightarrow> u64 \<Rightarrow> u64 \<Rightarrow> u32 \<Rightarrow> vm \<Rightarrow> mem_state \<Rightarrow> ((errno + unit) \<times> vm \<times> mem_state) option" where
  "vm_alloc_fixed_noreplace h address len prot v s = do {
     assert_valid address len;
     if range_invalid address len then Some (Inl EINVAL, v, s)
     else do {
       (r, s) \<leftarrow> vm_insert_area address (address + len) (vm_areas v) s;
       case r of
         Inl e \<Rightarrow> Some (Inl e, v, s)
       | Inr (n, ps, qs) \<Rightarrow> do {
           let v = v\<lparr>vm_areas := ps @ new_area n address len prot # qs\<rparr>;
           s \<leftarrow> map_area h (vm_page_map v) address len prot s;
           Some (Inr (), v, s)
         }
     }
   }"

definition vm_alloc_fixed_overwrite ::
    "u64 \<Rightarrow> u64 \<Rightarrow> u64 \<Rightarrow> u32 \<Rightarrow> vm \<Rightarrow> mem_state \<Rightarrow> ((errno + unit) \<times> vm \<times> mem_state) option" where
  "vm_alloc_fixed_overwrite h address len prot v s = do {
     assert_valid address len;
     if range_invalid address len then Some (Inl EINVAL, v, s)
     else do {
       (r, s) \<leftarrow> vm_clear_for_insert address (address + len) (vm_areas v) s;
       case r of
         Inl e \<Rightarrow> Some (Inl e, v, s)
       | Inr (ps, qs) \<Rightarrow> do {
           let v = v\<lparr>vm_areas := ps @ qs\<rparr>;
           s \<leftarrow> mmu_clear h (vm_page_map v) address len s;
           (r, s) \<leftarrow> make_node s;
           case r of
             Inl e \<Rightarrow> Some (Inl e, v, s)
           | Inr n \<Rightarrow> do {
               let v = v\<lparr>vm_areas := ps @ new_area n address len prot # qs\<rparr>;
               s \<leftarrow> map_area h (vm_page_map v) address len prot s;
               Some (Inr (), v, s)
             }
         }
     }
   }"

text \<open>The search of \<open>alloc_movable\<close>: \<open>i\<close> counts the areas passed, \<open>region\<close> is the best one so far with its
  position.\<close>

fun find_region :: "u64 \<Rightarrow> u64 \<Rightarrow> nat \<Rightarrow> (nat \<times> vm_area) option \<Rightarrow> vm_area list \<Rightarrow> (nat \<times> vm_area) option" where
  "find_region hint len i region [] = region"
| "find_region hint len i region (x # xs) =
     (if sint len \<le> sint (space_after x xs) then
        (if va_end x < hint then find_region hint len (i + 1) (Some (i, x)) xs
         else (case region of
           None \<Rightarrow> Some (i, x)
         | Some (j, r) \<Rightarrow> if va_end x - hint < hint - va_end r then Some (i, x) else region))
      else find_region hint len (i + 1) region xs)"

definition clamp :: "u64 \<Rightarrow> u64 \<Rightarrow> u64 \<Rightarrow> u64" where
  "clamp val lo hi = (if val < lo then lo else if hi < val then hi else val)"

definition list_begin :: vm_area where
  "list_begin = \<lparr>va_node = 0, va_begin = ADDR_MIN, va_end = ADDR_MIN, va_flags = 0xffffffff\<rparr>"

definition movable_hint :: "u64 \<Rightarrow> u64" where
  "movable_hint hint = (if hint < ADDR_MIN \<or> ADDR_MAX \<le> hint then ADDR_DEFAULT_HINT else hint)"

definition vm_alloc_movable ::
    "u64 \<Rightarrow> u64 \<Rightarrow> u64 \<Rightarrow> u32 \<Rightarrow> vm \<Rightarrow> mem_state \<Rightarrow> ((errno + u64) \<times> vm \<times> mem_state) option" where
  "vm_alloc_movable h hint len prot v s =
     (let hint = movable_hint hint in
      if ADDR_MAX < hint + len then Some (Inl EINVAL, v, s)
      else do {
        (r, s) \<leftarrow> make_node s;
        case r of
          Inl e \<Rightarrow> Some (Inl e, v, s)
        | Inr n \<Rightarrow> (let full = list_begin # vm_areas v in
            case find_region hint len 0 None full of
              None \<Rightarrow> do { s \<leftarrow> destroy_node n s; Some (Inl ENOMEM, v, s) }
            | Some (i, region) \<Rightarrow> do {
                let address = clamp hint (va_end region) (case drop (i + 1) full of [] \<Rightarrow> ADDR_MAX | y # _ \<Rightarrow> va_begin y);
                assert_valid address len;
                s \<leftarrow> map_area h (vm_page_map v) address len prot s;
                let full = take (i + 1) full @ new_area n address len prot # drop (i + 1) full;
                (merged, s) \<leftarrow> merge_regions_after (drop i full) s;
                Some (Inr address, v\<lparr>vm_areas := tl (take i full @ merged)\<rparr>, s)
              })
      })"

text \<open>The destructor, and \<open>clone\<close>, which copies areas until an allocation fails.\<close>

definition vm_destroy :: "u64 \<Rightarrow> u64 \<Rightarrow> vm \<Rightarrow> mem_state \<Rightarrow> (vm \<times> mem_state) option" where
  "vm_destroy h cr3 v s = do {
     s \<leftarrow> mmu_destroy_address_space h cr3 (vm_page_map v) s;
     s \<leftarrow> mfold free_node (map va_node (vm_areas v)) s;
     Some (\<lparr>vm_page_map = 0, vm_areas = []\<rparr>, s)
   }"

fun clone_areas :: "vm_area list \<Rightarrow> mem_state \<Rightarrow> ((errno + unit) \<times> vm_area list \<times> mem_state) option" where
  "clone_areas [] s = Some (Inr (), [], s)"
| "clone_areas (x # xs) s = do {
     (n, s) \<leftarrow> kalloc_class (alloc_calc_size_class VM_AREA_SIZE) s;
     if n = 0 then Some (Inl ENOMEM, [], s)
     else do {
       (r, ys, s) \<leftarrow> clone_areas xs s;
       Some (r, x\<lparr>va_node := n\<rparr> # ys, s)
     }
   }"

definition vm_clone :: "u64 \<Rightarrow> vm \<Rightarrow> vm \<Rightarrow> mem_state \<Rightarrow> ((errno + unit) \<times> vm \<times> mem_state) option" where
  "vm_clone h v to s = do {
     (pm, s) \<leftarrow> mmu_clone_address_space h (vm_page_map v) (vm_page_map to) s;
     (r, areas, s) \<leftarrow> clone_areas (vm_areas v) s;
     Some (r, \<lparr>vm_page_map = pm, vm_areas = (if areas = [] then vm_areas to else areas)\<rparr>, s)
   }"

definition range_flags :: "vm_area \<Rightarrow> string" where
  "range_flags a =
     [if va_flags a AND MMU_MODE_USER \<noteq> 0 then CHR ''u'' else CHR ''-'',
      if va_flags a AND MMU_MODE_WRITE \<noteq> 0 then CHR ''w'' else CHR ''-'',
      if va_flags a AND MMU_MODE_EXEC \<noteq> 0 then CHR ''x'' else CHR ''-'']"

section \<open>What the area list means\<close>

definition areas_ok :: "vm_area list \<Rightarrow> bool" where
  "areas_ok xs \<longleftrightarrow> sorted_wrt (\<lambda>x y. va_end x \<le> va_begin y) xs \<and>
     (\<forall>x\<in>set xs. va_begin x < va_end x \<and> va_end x \<le> ADDR_MAX)"

text \<open>The flags of the area that holds an address: the abstraction of the list.\<close>

fun flags_at :: "vm_area list \<Rightarrow> u64 \<Rightarrow> u32 option" where
  "flags_at [] t = None"
| "flags_at (x # xs) t = (if va_begin x \<le> t \<and> t < va_end x then Some (va_flags x) else flags_at xs t)"

lemma areas_ok_Cons [simp]:
  "areas_ok (x # xs) \<longleftrightarrow> va_begin x < va_end x \<and> va_end x \<le> ADDR_MAX \<and> (\<forall>y\<in>set xs. va_end x \<le> va_begin y) \<and> areas_ok xs"
  by (auto simp: areas_ok_def)

lemma areas_ok_Nil [simp]: "areas_ok []"
  by (simp add: areas_ok_def)

lemma areas_ok_append:
  "areas_ok (xs @ ys) \<longleftrightarrow> areas_ok xs \<and> areas_ok ys \<and> (\<forall>x\<in>set xs. \<forall>y\<in>set ys. va_end x \<le> va_begin y)"
  by (induction xs) auto

lemma flags_at_append:
  "flags_at (xs @ ys) t = (case flags_at xs t of None \<Rightarrow> flags_at ys t | Some f \<Rightarrow> Some f)"
  by (induction xs) auto

lemma flags_at_outside: "(\<And>x. x \<in> set xs \<Longrightarrow> \<not> (va_begin x \<le> t \<and> t < va_end x)) \<Longrightarrow> flags_at xs t = None"
  by (induction xs) auto

lemma flags_at_below: "(\<And>x. x \<in> set xs \<Longrightarrow> t < va_begin x) \<Longrightarrow> flags_at xs t = None"
  by (rule flags_at_outside) (auto simp: not_le)

lemma flags_at_above: "(\<And>x. x \<in> set xs \<Longrightarrow> va_end x \<le> t) \<Longrightarrow> flags_at xs t = None"
  by (rule flags_at_outside) (auto simp: not_less)

lemmas find_overlap_cases = find_overlap_def Let_def

lemma cut_cases:
  fixes a :: "'a :: linorder"
  assumes "a < e" and "b < a" and "e < d"
  obtains "t < a" "\<not> a \<le> t" "\<not> e \<le> t" "t < d" | "a \<le> t" "t < e" "\<not> t < a" "\<not> e \<le> t" "t < d"
    | "e \<le> t" "\<not> t < e" "\<not> t < a" "b \<le> t"
proof -
  consider "t < a" | "a \<le> t" "t < e" | "e \<le> t" by fastforce
  then show thesis
  proof cases
    case 1
    moreover have "\<not> a \<le> t" using 1 by simp
    moreover have "\<not> e \<le> t" "t < d" using 1 assms by order+
    ultimately show thesis using that(1) by blast
  next
    case 2
    moreover have "\<not> t < a" "\<not> e \<le> t" using 2 by auto
    moreover have "t < d" using 2 assms by order
    ultimately show thesis using that(2) by blast
  next
    case 3
    moreover have "\<not> t < e" using 3 by simp
    moreover have "\<not> t < a" "b \<le> t" using 3 assms by order+
    ultimately show thesis using that(3) by blast
  qed
qed

text \<open>The loop of \<open>vm_clear_for_insert\<close> cuts the list to \<open>ps @ qs\<close>, whatever the memory: it frees the nodes \<open>gone\<close>, and the
  spare node is either left or in the list.\<close>

definition cut_areas :: "u64 \<Rightarrow> u64 \<Rightarrow> nat \<Rightarrow> vm_area list \<Rightarrow> vm_area list \<Rightarrow> vm_area list \<Rightarrow> bool" where
  "cut_areas a e spare xs ps qs \<longleftrightarrow> (\<exists>gone left.
     (\<forall>s. clear_areas a e spare xs s = map_option (\<lambda>s. (left, ps, qs, s)) (mfold free_node gone s)) \<and>
     (left = spare \<or> left = 0 \<and> (\<exists>x\<in>set xs. find_overlap x a e = Contains)) \<and>
     mset (spare # map va_node xs) = mset (map va_node (ps @ qs)) + mset gone + (if left = 0 then {#} else {#left#}))"

lemma cut_areas_Nil: "spare \<noteq> 0 \<Longrightarrow> cut_areas a e spare [] [] []"
  unfolding cut_areas_def by (intro exI [of _ "[]"] exI [of _ spare]) simp

lemma cut_areas_keep:
  assumes "spare \<noteq> 0" and "\<And>s. clear_areas a e spare (x # xs) s = Some (spare, [], y # xs, s)" and "va_node y = va_node x"
  shows "cut_areas a e spare (x # xs) [] (y # xs)"
  unfolding cut_areas_def using assms by (intro exI [of _ "[]"] exI [of _ spare]) simp

lemma cut_areas_split:
  assumes "spare \<noteq> 0" and "find_overlap x a e = Contains"
  shows "cut_areas a e spare (x # xs) [] (x\<lparr>va_end := a\<rparr> # x\<lparr>va_node := spare, va_begin := e\<rparr> # xs)"
  unfolding cut_areas_def using assms by (intro exI [of _ "[]"] exI [of _ 0]) simp

lemma cut_areas_whole:
  assumes "cut_areas a e spare xs ps qs" and "find_overlap x a e = Whole"
  shows "cut_areas a e spare (x # xs) ps qs"
proof -
  obtain gone left where g: "\<forall>s. clear_areas a e spare xs s = map_option (\<lambda>s. (left, ps, qs, s)) (mfold free_node gone s)"
    "left = spare \<or> left = 0 \<and> (\<exists>x\<in>set xs. find_overlap x a e = Contains)"
    "mset (spare # map va_node xs) = mset (map va_node (ps @ qs)) + mset gone + (if left = 0 then {#} else {#left#})"
    using assms(1) unfolding cut_areas_def by blast
  have "clear_areas a e spare (x # xs) s = map_option (\<lambda>s. (left, ps, qs, s)) (mfold free_node (va_node x # gone) s)" for s
    using g(1) assms(2) by (cases "free_node (va_node x) s") simp_all
  moreover have "mset (spare # map va_node (x # xs)) = mset (map va_node (ps @ qs)) + mset (va_node x # gone) + (if left = 0 then {#} else {#left#})"
    using g(3) by simp
  ultimately show ?thesis using g(2) unfolding cut_areas_def by (intro exI [of _ "va_node x # gone"] exI [of _ left]) auto
qed

lemma cut_areas_step:
  assumes "cut_areas a e spare xs ps qs" and "va_node y = va_node x"
    and step: "\<And>s. clear_areas a e spare (x # xs) s =
      clear_areas a e spare xs s \<bind> (\<lambda>(left, ps, qs, s). Some (left, y # ps, qs, s))"
  shows "cut_areas a e spare (x # xs) (y # ps) qs"
proof -
  obtain gone left where g: "\<forall>s. clear_areas a e spare xs s = map_option (\<lambda>s. (left, ps, qs, s)) (mfold free_node gone s)"
    "left = spare \<or> left = 0 \<and> (\<exists>x\<in>set xs. find_overlap x a e = Contains)"
    "mset (spare # map va_node xs) = mset (map va_node (ps @ qs)) + mset gone + (if left = 0 then {#} else {#left#})"
    using assms(1) unfolding cut_areas_def by blast
  have "clear_areas a e spare (x # xs) s = map_option (\<lambda>s. (left, y # ps, qs, s)) (mfold free_node gone s)" for s
    using g(1) by (simp only: step) (cases "mfold free_node gone s", simp_all)
  moreover have "mset (spare # map va_node (x # xs)) = mset (map va_node ((y # ps) @ qs)) + mset gone + (if left = 0 then {#} else {#left#})"
    using g(3) assms(2) by simp
  ultimately show ?thesis using g(2) unfolding cut_areas_def by (intro exI [of _ gone] exI [of _ left]) auto
qed

lemma clear_areas_correct:
  assumes "areas_ok xs" and "a < e" and spare: "spare \<noteq> 0"
  shows "\<exists>ps qs. cut_areas a e spare xs ps qs \<and> areas_ok (ps @ qs) \<and>
    (\<forall>t. flags_at (ps @ qs) t = (if a \<le> t \<and> t < e then None else flags_at xs t)) \<and>
    ((\<forall>x\<in>set xs. find_overlap x a e \<noteq> Contains) \<longrightarrow>
      (\<forall>x\<in>set ps. va_end x \<le> a) \<and> (\<forall>x\<in>set qs. e \<le> va_begin x)) \<and>
    (\<forall>y\<in>set ps \<union> set qs. \<exists>x\<in>set xs. va_begin x \<le> va_begin y)"
  using assms(1,2)
proof (induction xs)
  case Nil
  show ?case using cut_areas_Nil [OF spare, of a e] by (intro exI [of _ "[]"]) simp
next
  case (Cons x xs)
  have "areas_ok xs" using Cons.prems(1) by simp
  from Cons.IH [OF this Cons.prems(2)] obtain ps qs where r: "cut_areas a e spare xs ps qs" "areas_ok (ps @ qs)"
    "\<And>t. flags_at (ps @ qs) t = (if a \<le> t \<and> t < e then None else flags_at xs t)"
    "(\<forall>x\<in>set xs. find_overlap x a e \<noteq> Contains) \<longrightarrow> (\<forall>x\<in>set ps. va_end x \<le> a) \<and> (\<forall>x\<in>set qs. e \<le> va_begin x)"
    "\<And>y. y \<in> set ps \<union> set qs \<Longrightarrow> \<exists>x\<in>set xs. va_begin x \<le> va_begin y"
    by blast
  have x: "va_begin x < va_end x" "va_end x \<le> ADDR_MAX" "\<And>y. y \<in> set xs \<Longrightarrow> va_end x \<le> va_begin y" "areas_ok xs"
    using Cons.prems by auto
  have lo: "va_end x \<le> va_begin y" if "y \<in> set ps \<union> set qs" for y
    using r(5) [OF that] x(3) by (meson order_trans)
  have gap: "flags_at xs t = None" if "t < va_end x" for t
    by (rule flags_at_below) (use x(3) that in \<open>meson less_le_trans\<close>)
  show ?case
  proof (cases "find_overlap x a e")
    case After
    then have ex: "e \<le> va_begin x" by (auto simp: find_overlap_cases split: if_splits)
    have "e \<le> va_begin y" if "y \<in> set xs" for y using ex x(1) x(3) [OF that] by order
    moreover have "flags_at (x # xs) t = None" if "t < e" for t
      by (rule flags_at_below) (use ex x(1,3) that in \<open>auto intro: less_le_trans order.strict_trans\<close>)
    moreover have "cut_areas a e spare (x # xs) [] (x # xs)" by (rule cut_areas_keep [OF spare]) (simp_all add: After)
    ultimately show ?thesis using Cons.prems ex by (intro exI [of _ "[]"] exI [of _ "x # xs"]) auto
  next
    case Starts_with
    then have b: "va_begin x < e" "a \<le> va_begin x" "e < va_end x" by (auto simp: find_overlap_cases split: if_splits)
    have "e \<le> va_begin y" if "y \<in> set xs" for y using b x(3) [OF that] by order
    moreover have "flags_at (x # xs) t = None" if "t < va_begin x" for t
      using that x(1) gap by auto
    moreover have "flags_at (x\<lparr>va_begin := e\<rparr> # xs) t = (if a \<le> t \<and> t < e then None else flags_at (x # xs) t)" for t
      using b x(1) gap by (auto simp: not_le not_less) ((order | simp)+)?
    moreover have "cut_areas a e spare (x # xs) [] (x\<lparr>va_begin := e\<rparr> # xs)"
      by (rule cut_areas_keep [OF spare]) (simp_all add: Starts_with b)
    ultimately show ?thesis using b x(2,3,4) by (intro exI [of _ "[]"] exI [of _ "x\<lparr>va_begin := e\<rparr> # xs"]) auto
  next
    case Contains
    then have b: "va_begin x < a" "e < va_end x" by (auto simp: find_overlap_cases split: if_splits)
    let ?qs = "x\<lparr>va_end := a\<rparr> # x\<lparr>va_node := spare, va_begin := e\<rparr> # xs"
    have "flags_at ?qs t = (if a \<le> t \<and> t < e then None else flags_at (x # xs) t)" for t
    proof -
      consider "t < a" "\<not> a \<le> t" "\<not> e \<le> t" "t < va_end x" | "a \<le> t" "t < e" "\<not> t < a" "\<not> e \<le> t" "t < va_end x"
        | "e \<le> t" "\<not> t < e" "\<not> t < a" "va_begin x \<le> t" by (rule cut_cases [OF Cons.prems(2) b, of t])
      then show ?thesis using gap [of t] by cases simp_all
    qed
    moreover have "a \<le> va_begin y" if "y \<in> set xs" for y using b Cons.prems(2) x(3) [OF that] by order
    moreover have "a \<le> ADDR_MAX" "va_begin x \<le> e" using b Cons.prems(2) x(2) by order+
    ultimately show ?thesis using cut_areas_split [OF spare Contains, of xs] Contains b x(2,3,4) Cons.prems(2)
      by (intro exI [of _ "[]"] exI [of _ ?qs]) auto
  next
    case Whole
    then have b: "a \<le> va_begin x" "va_end x \<le> e" by (auto simp: find_overlap_cases split: if_splits)
    have "flags_at (ps @ qs) t = (if a \<le> t \<and> t < e then None else flags_at (x # xs) t)" for t
      using b r(3) [of t] by (auto simp: not_le not_less) ((order | simp)+)?
    then show ?thesis using Whole cut_areas_whole [OF r(1) Whole] r(2,4,5) by (intro exI [of _ ps] exI [of _ qs]) auto
  next
    case Ends_with
    then have b: "va_begin x < a" "a < va_end x" "va_end x \<le> e" by (auto simp: find_overlap_cases split: if_splits)
    have "flags_at (x\<lparr>va_end := a\<rparr> # ps @ qs) t = (if a \<le> t \<and> t < e then None else flags_at (x # xs) t)" for t
      using b r(3) [of t] gap [of t] by (auto simp: not_le not_less) ((order | simp)+)?
    moreover have "a \<le> va_begin y" if "y \<in> set ps \<union> set qs" for y using b(2) lo [OF that] by order
    moreover have "a \<le> ADDR_MAX" using b x(2) by order
    moreover have "cut_areas a e spare (x # xs) (x\<lparr>va_end := a\<rparr> # ps) qs"
      by (rule cut_areas_step [OF r(1)]) (simp_all add: Ends_with b)
    ultimately show ?thesis using Ends_with b r(2,4,5) by (intro exI [of _ "x\<lparr>va_end := a\<rparr> # ps"] exI [of _ qs]) auto
  next
    case Before
    then have b: "va_end x \<le> a" by (auto simp: find_overlap_cases split: if_splits)
    have "flags_at (x # ps @ qs) t = (if a \<le> t \<and> t < e then None else flags_at (x # xs) t)" for t
      using b x(1) r(3) [of t] by (auto simp: not_le not_less) ((order | simp)+)?
    moreover have "cut_areas a e spare (x # xs) (x # ps) qs"
      by (rule cut_areas_step [OF r(1)]) (simp_all add: Before)
    ultimately show ?thesis using Before b r(2,4,5) x lo by (intro exI [of _ "x # ps"] exI [of _ qs]) auto
  qed
qed

lemma insert_pos_correct:
  assumes "areas_ok xs" and "a < e"
  shows "case insert_pos a e xs of
      None \<Rightarrow> \<exists>t. a \<le> t \<and> t < e \<and> flags_at xs t \<noteq> None
    | Some (ps, qs) \<Rightarrow> xs = ps @ qs \<and> (\<forall>x\<in>set ps. va_end x \<le> a) \<and> (\<forall>x\<in>set qs. e \<le> va_begin x)"
  using assms
proof (induction xs)
  case (Cons x xs)
  have x: "va_begin x < va_end x" "\<And>y. y \<in> set xs \<Longrightarrow> va_end x \<le> va_begin y" using Cons.prems by auto
  show ?case
  proof (cases "a < va_end x")
    case True
    show ?thesis
    proof (cases "va_begin x \<le> a \<or> va_begin x < e")
      case hit: True
      let ?t = "max a (va_begin x)"
      have "a \<le> ?t" "?t < e" "flags_at (x # xs) ?t \<noteq> None" using True hit Cons.prems(2) x(1) by (auto simp: max_def)
      then have "\<exists>t. a \<le> t \<and> t < e \<and> flags_at (x # xs) t \<noteq> None" by blast
      moreover have "insert_pos a e (x # xs) = None" using True hit by auto
      ultimately show ?thesis by (simp del: flags_at.simps)
    next
      case False
      then have "e \<le> va_begin x" by auto
      moreover have "e \<le> va_begin y" if "y \<in> set xs" for y using calculation x(1) x(2) [OF that] by order
      ultimately show ?thesis using True False by auto
    qed
  next
    case False
    have IH: "case insert_pos a e xs of
        None \<Rightarrow> \<exists>t. a \<le> t \<and> t < e \<and> flags_at xs t \<noteq> None
      | Some (ps, qs) \<Rightarrow> xs = ps @ qs \<and> (\<forall>x\<in>set ps. va_end x \<le> a) \<and> (\<forall>x\<in>set qs. e \<le> va_begin x)"
      using Cons by simp
    show ?thesis
    proof (cases "insert_pos a e xs")
      case None
      then obtain t where "a \<le> t" "t < e" "flags_at xs t \<noteq> None" using IH by auto
      then show ?thesis using None False by (auto intro!: exI [of _ t])
    next
      case (Some r)
      then show ?thesis using IH False by (cases r) auto
    qed
  qed
qed simp

text \<open>An area put between those that end before it and those that begin after it.\<close>

lemma place_area:
  assumes "areas_ok (ps @ qs)" and "\<And>y. y \<in> set ps \<Longrightarrow> va_end y \<le> va_begin x" and "\<And>y. y \<in> set qs \<Longrightarrow> va_end x \<le> va_begin y"
    and "va_begin x < va_end x" "va_end x \<le> ADDR_MAX"
  shows "areas_ok (ps @ x # qs)"
    and "flags_at (ps @ x # qs) t = (if va_begin x \<le> t \<and> t < va_end x then Some (va_flags x) else flags_at (ps @ qs) t)"
proof -
  show "areas_ok (ps @ x # qs)" using assms by (auto simp: areas_ok_append)
  have "flags_at ps t = None" if "va_begin x \<le> t"
    by (rule flags_at_above) (use assms(2) that in \<open>meson order_trans\<close>)
  then show "flags_at (ps @ x # qs) t = (if va_begin x \<le> t \<and> t < va_end x then Some (va_flags x) else flags_at (ps @ qs) t)"
    by (auto simp: flags_at_append split: option.split)
qed

lemma new_area_simps [simp]:
  "va_node (new_area n a l p) = n" "va_begin (new_area n a l p) = a" "va_end (new_area n a l p) = a + l"
  "va_flags (new_area n a l p) = prot_to_mode p"
  by (simp_all add: new_area_def)

text \<open>Merging gives the nodes \<open>gone\<close> back and changes no flags.\<close>

lemma merge_ok:
  "areas_ok xs \<Longrightarrow> \<exists>ys gone. (\<forall>s. merge_regions_after xs s = map_option (Pair ys) (mfold free_node gone s)) \<and>
     areas_ok ys \<and> (\<forall>t. flags_at ys t = flags_at xs t) \<and> (\<forall>y\<in>set ys. \<exists>x\<in>set xs. va_begin x \<le> va_begin y) \<and>
     mset (map va_node xs) = mset (map va_node ys) + mset gone"
proof (induction "length xs" arbitrary: xs)
  case (Suc n)
  consider x where "xs = [x]" | x y ys where "xs = x # y # ys" using Suc.hyps(2) by (cases xs rule: remdups_adj.cases) auto
  then show ?case
  proof cases
    case 1
    then show ?thesis using Suc.prems by (intro exI [of _ xs] exI [of _ "[]"]) auto
  next
    case xs: 2
    show ?thesis
    proof (cases "va_end x = va_begin y \<and> va_flags x = va_flags y")
      case True
      let ?x = "x\<lparr>va_end := va_end y\<rparr>"
      have ok: "areas_ok (?x # ys)" using Suc.prems xs True by (auto intro: order.strict_trans)
      have n: "n = length (?x # ys)" using Suc.hyps(2) xs by simp
      obtain zs gone where z: "\<forall>s. merge_regions_after (?x # ys) s = map_option (Pair zs) (mfold free_node gone s)" "areas_ok zs"
        "\<forall>t. flags_at zs t = flags_at (?x # ys) t" "\<forall>z\<in>set zs. \<exists>u\<in>set (?x # ys). va_begin u \<le> va_begin z"
        "mset (map va_node (?x # ys)) = mset (map va_node zs) + mset gone"
        using Suc.hyps(1) [OF n ok] by blast
      have "flags_at (?x # ys) t = flags_at xs t" for t
        using Suc.prems True unfolding xs by auto ((order | simp)+)?
      moreover have "merge_regions_after xs s = map_option (Pair zs) (mfold free_node (va_node y # gone) s)" for s
        using z(1) True unfolding xs by (cases "free_node (va_node y) s") simp_all
      moreover have "\<exists>u\<in>set xs. va_begin u \<le> va_begin z" if "z \<in> set zs" for z
        using bspec [OF z(4) that] unfolding xs by auto
      moreover have "mset (map va_node xs) = mset (map va_node zs) + mset (va_node y # gone)" using z(5) by (simp add: xs)
      ultimately show ?thesis using z(2,3) by (intro exI [of _ zs] exI [of _ "va_node y # gone"]) auto
    next
      case False
      then show ?thesis using Suc.prems xs by (intro exI [of _ xs] exI [of _ "[]"]) auto
    qed
  qed
qed simp

section \<open>Refinement: the operations on the abstract map\<close>

lemma valid_length: "assert_valid a len = Some () \<Longrightarrow> 0 < unat len"
  by (auto simp: assert_valid_def sint_pos_unat kassert_def split: if_splits)

lemma in_range_sum:
  assumes "\<not> (ADDR_MAX \<le> a \<or> ADDR_MAX < a + len)" and "assert_valid a len = Some ()"
  shows "a < a + len" and "a + len \<le> ADDR_MAX" and "unat (a + len) = unat a + unat len"
proof -
  have u: "unat len < 2 ^ 63" using assms(2) by (auto simp: assert_valid_def sint_pos_unat kassert_def split: if_splits)
  have "unat a < 2 ^ 47" using assms(1) by (simp add: ADDR_MAX_def MEM_LOW_HALF_MAX_def word_less_nat_alt word_le_nat_alt)
  then show s: "unat (a + len) = unat a + unat len" using u by (subst unat_add_lem [symmetric]) simp
  have "0 < unat len" by (rule valid_length [OF assms(2)])
  then show "a < a + len" using s by (simp add: word_less_nat_alt)
  show "a + len \<le> ADDR_MAX" using assms(1) by (simp add: not_less)
qed

unbundle bit_operations_syntax

section \<open>Small instances\<close>

lemma mfold_id: "(\<And>x. x \<in> set xs \<Longrightarrow> f x s = Some s) \<Longrightarrow> mfold f xs s = Some s"
  by (induction xs) simp_all

lemma clear_absent:
  "(\<And>i. i \<in> set (index_range (Suc d) vb ve) \<Longrightarrow> i < TABLE_ENTRY_COUNT \<and> \<not> present (load64 (entry_cell t i) s)) \<Longrightarrow>
   clear (Suc d) h t vb ve s = Some (table_empty t s, s)"
  by (simp add: mfold_id)

lemma range_low: "index_range 4 0x2000 0x3000 = [0]"
  by (simp add: index_range_def virt_shift_def table_base_def round_down_p2_def round_up_p2_def pointee_size_def)

text \<open>A memory with two free nodes and an empty page table at 0.\<close>

definition node_mem :: mem_state where
  "node_mem = \<lparr>words = (\<lambda>_. 0)(0x10000 := 0x20000), pmm_free_list = 0, pmm_tail = FreeListHead, pmm_free_count = 0,
     pmm_total_count = 0, pools = (\<lambda>_. 0)(2 := 0x10000), stat_free = (\<lambda>_. 0)(2 := 2), stat_total = (\<lambda>_. 0)(2 := 2)\<rparr>"

definition node_mem1 :: mem_state where
  "node_mem1 = debug_memset 0x10000 0xbb 2 (node_mem\<lparr>pools := (\<lambda>_. 0)(2 := 0x20000), stat_free := (\<lambda>_. 0)(2 := 1)\<rparr>)"

definition node_mem2 :: mem_state where
  "node_mem2 = debug_memset 0x20000 0xbb 2 (node_mem1\<lparr>pools := (\<lambda>_. 0), stat_free := (\<lambda>_. 0)\<rparr>)"

lemma node_mem: "make_node node_mem = Some (Inr 0x10000, node_mem1)" "make_node node_mem1 = Some (Inr 0x20000, node_mem2)"
proof -
  have "words node_mem1 0x20000 = 0"
    by (simp add: node_mem1_def node_mem_def debug_memset_def fill_def class_size_def)
  then show "make_node node_mem = Some (Inr 0x10000, node_mem1)" "make_node node_mem1 = Some (Inr 0x20000, node_mem2)"
    by (simp_all add: make_node_def owned_make_def VM_AREA_CLASS kalloc_class_def Let_def node_mem1_def node_mem2_def node_mem_def
        debug_memset_def fun_upd_idem)
qed

lemma low_clear: "words s 0 = 0 \<Longrightarrow> mmu_clear 0 0 0x2000 0x1000 s = Some s"
proof -
  assume "words s 0 = 0"
  then have "clear (Suc 3) 0 (phys_to_virt 0 0) 0x2000 0x3000 s = Some (table_empty (phys_to_virt 0 0) s, s)"
    by (intro clear_absent) (use range_low in \<open>simp add: eval_nat_numeral TABLE_ENTRY_COUNT_def load64_def entry_cell_def phys_to_virt_def\<close>)
  then have "clear 4 0 (phys_to_virt 0 0) 0x2000 0x3000 s = Some (table_empty (phys_to_virt 0 0) s, s)"
    by (simp only: Suc_numeral semiring_norm)
  then show ?thesis by (simp add: mmu_clear_def validate_limits_def PAGE_SIZE_def MEM_LOW_HALF_MAX_def)
qed

definition small_vm :: vm where
  "small_vm = \<lparr>vm_page_map = 0, vm_areas = [\<lparr>va_node = 0x30000, va_begin = 0x1000, va_end = 0x5000, va_flags = 0\<rparr>]\<rparr>"

lemma valid_small: "assert_valid 0x2000 0x1000 = Some ()"
  by (simp add: assert_valid_def page_aligned64_def PAGE_SIZE_def word_sless_alt)

section \<open>Mapping inside an area\<close>

lemma clear_areas_contains:
  assumes "areas_ok xs" and "x \<in> set xs" and "find_overlap x a e = Contains" and "a < e"
  shows "\<exists>pre post. xs = pre @ x # post \<and> (\<forall>spare s. clear_areas a e spare xs s =
    Some (0, pre, x\<lparr>va_end := a\<rparr> # x\<lparr>va_node := spare, va_begin := e\<rparr> # post, s))"
  using assms(1,2)
proof (induction xs)
  case (Cons y ys)
  have b: "va_begin x < a" "e < va_end x" using assms(3) by (auto simp: find_overlap_cases split: if_splits)
  show ?case
  proof (cases "y = x")
    case True
    then show ?thesis using assms(3) by (intro exI [of _ "[]"] exI [of _ ys]) simp
  next
    case False
    then have x: "x \<in> set ys" and y: "va_begin y < va_end y" "va_end y \<le> va_begin x" "areas_ok ys" using Cons.prems by auto
    have ye: "va_end y < e" "va_end y \<le> a" "\<not> e \<le> va_begin y" using b y assms(4) by order+
    then have "find_overlap y a e = Before" by (simp add: find_overlap_def)
    moreover obtain pre post where "ys = pre @ x # post" "\<forall>spare s. clear_areas a e spare ys s =
        Some (0, pre, x\<lparr>va_end := a\<rparr> # x\<lparr>va_node := spare, va_begin := e\<rparr> # post, s)"
      using Cons.IH [OF y(3) x] by blast
    ultimately show ?thesis by (intro exI [of _ "y # pre"] exI [of _ post]) simp
  qed
qed simp

lemma insert_pos_skip:
  "(\<And>x. x \<in> set ps \<Longrightarrow> va_end x \<le> a) \<Longrightarrow> insert_pos a e (ps @ qs) = map_option (\<lambda>(r, t). (ps @ r, t)) (insert_pos a e qs)"
proof (induction ps)
  case Nil
  show ?case by (cases "insert_pos a e qs") auto
next
  case (Cons x ps)
  have "\<not> a < va_end x" using Cons.prems [of x] by (simp add: not_less)
  then show ?case using Cons by (cases "insert_pos a e qs") auto
qed

text \<open>Mapping over the inside of an area breaks the list: \<open>VM::alloc_fixed_overwrite\<close> of a range strictly
  inside an area puts the new area before the left remainder, so the list is no longer sorted, and a later
  \<open>alloc_fixed_noreplace\<close> of the left remainder's addresses finds no overlap although they are mapped (the page
  tables then fail the assertion that the entries are free).\<close>

theorem vm_overwrite_inside_unsorts:
  assumes ok: "areas_ok (vm_areas v)" and valid: "assert_valid address len = Some ()" and inr: "\<not> range_invalid address len"
    and x: "x \<in> set (vm_areas v)" "find_overlap x address (address + len) = Contains"
    and run: "vm_alloc_fixed_overwrite h address len prot v s = Some (Inr (), v', s')"
  shows "\<not> areas_ok (vm_areas v') \<and> insert_pos (va_begin x) address (vm_areas v') \<noteq> None \<and>
    flags_at (vm_areas v') (va_begin x) \<noteq> None"
proof -
  have nr: "\<not> (ADDR_MAX \<le> address \<or> ADDR_MAX < address + len)" using inr by (simp add: range_invalid_def)
  note lt = in_range_sum [OF nr valid]
  have b: "va_begin x < address" "address + len < va_end x" using x(2) by (auto simp: find_overlap_cases split: if_splits)
  obtain pre post where c: "vm_areas v = pre @ x # post"
    "\<And>spare s. clear_areas address (address + len) spare (vm_areas v) s =
      Some (0, pre, x\<lparr>va_end := address\<rparr> # x\<lparr>va_node := spare, va_begin := address + len\<rparr> # post, s)"
    using clear_areas_contains [OF ok x lt(1)] by blast
  let ?l = "x\<lparr>va_end := address\<rparr>"
  obtain n spare where v': "vm_areas v' = pre @ new_area n address len prot # ?l # x\<lparr>va_node := spare, va_begin := address + len\<rparr> # post"
    using run inr valid by (auto simp: vm_alloc_fixed_overwrite_def vm_clear_for_insert_def c(2) Let_def split: bind_splits sum.splits)
  have pre: "va_end y \<le> va_begin x" if "y \<in> set pre" for y using ok that by (simp add: c(1) areas_ok_append)
  have bx: "va_begin x < address + len" using b lt by order
  then have "\<not> address + len \<le> va_begin x" by (simp add: not_le)
  then have "\<not> areas_ok (vm_areas v')" unfolding v' by (auto simp: areas_ok_append)
  moreover have "insert_pos (va_begin x) address (vm_areas v') \<noteq> None"
    using b bx unfolding v' by (simp add: insert_pos_skip [OF pre] not_le)
  moreover have "flags_at (vm_areas v') (va_begin x) \<noteq> None"
    using b unfolding v' by (auto simp: flags_at_append split: option.split)
  ultimately show ?thesis by blast
qed

theorem vm_overwrite_inside_unsorts_witness:
  "\<exists>v' s'. vm_alloc_fixed_overwrite 0 0x2000 0x1000 0 small_vm node_mem = Some (Inr (), v', s') \<and>
    \<not> areas_ok (vm_areas v') \<and> insert_pos 0x1000 0x2000 (vm_areas v') \<noteq> None"
proof -
  let ?x = "\<lparr>va_node = 0x30000, va_begin = 0x1000, va_end = 0x5000, va_flags = 0\<rparr>"
  have p: "areas_ok (vm_areas small_vm)" "\<not> range_invalid 0x2000 0x1000" "?x \<in> set (vm_areas small_vm)"
    "find_overlap ?x 0x2000 (0x2000 + 0x1000) = Contains"
    by (simp_all add: small_vm_def range_invalid_def ADDR_MIN_def ADDR_MAX_def MEM_LOW_HALF_MAX_def PAGE_SIZE_def find_overlap_def)
  have "words node_mem1 0 = 0" by (simp add: node_mem1_def node_mem_def debug_memset_def fill_def)
  then have "\<exists>v'. vm_alloc_fixed_overwrite 0 0x2000 0x1000 0 small_vm node_mem = Some (Inr (), v', node_mem2)"
    using p(2) low_clear
    by (simp add: vm_alloc_fixed_overwrite_def valid_small vm_clear_for_insert_def node_mem destroy_node_def owned_destroy_def
        small_vm_def find_overlap_def map_area_def)
  then obtain v' where "vm_alloc_fixed_overwrite 0 0x2000 0x1000 0 small_vm node_mem = Some (Inr (), v', node_mem2)" by blast
  with vm_overwrite_inside_unsorts [OF p(1) valid_small p(2-4) this] show ?thesis by auto
qed

section \<open>Choosing an address\<close>

lemma find_region_last:
  assumes "\<And>x. x \<in> set xs \<Longrightarrow> va_end x \<le> hint" and "xs \<noteq> []" and "areas_ok xs"
    and "sint len \<le> sint (ADDR_MAX - va_end (last xs))"
    and "\<And>j r. region = Some (j, r) \<Longrightarrow> va_end r < hint"
  shows "find_region hint len i region xs = Some (i + length xs - 1, last xs)"
  using assms
proof (induction xs arbitrary: i region)
  case (Cons x xs)
  show ?case
  proof (cases xs)
    case Nil
    have "0 < hint - va_end r" if "region = Some (j, r)" for j r
    proof -
      have "va_end r < hint" using Cons.prems(5) that by blast
      then have "hint - va_end r \<noteq> 0" by auto
      then show ?thesis by (simp only: word_gt_0 not_False_eq_True)
    qed
    moreover have "\<not> va_end x < hint \<Longrightarrow> va_end x = hint" using Cons.prems(1) [of x] by simp
    ultimately show ?thesis using Nil Cons.prems(4) by (auto simp: space_after_def split: option.split)
  next
    case (Cons y ys)
    have "va_end x \<le> va_begin y" "va_begin y < va_end y" "va_end y \<le> hint" using Cons.prems(1,3) Cons by auto
    then have xh: "va_end x < hint" by order
    have IH: "find_region hint len i' region' xs = Some (i' + length xs - 1, last xs)"
      if "\<And>j r. region' = Some (j, r) \<Longrightarrow> va_end r < hint" for i' region'
      by (rule Cons.IH) (use Cons.prems Cons that in auto)
    have "find_region hint len (i + 1) (Some (i, x)) xs = Some (i + 1 + length xs - 1, last xs)" by (rule IH) (use xh in simp)
    moreover have "find_region hint len (i + 1) region xs = Some (i + 1 + length xs - 1, last xs)"
      by (rule IH) (use Cons.prems(5) in blast)
    ultimately show ?thesis using xh Cons by simp
  qed
qed simp


lemma sint_le_small: "(a :: u64) \<le> b \<Longrightarrow> unat b < 2 ^ 63 \<Longrightarrow> sint a \<le> sint b"
proof -
  assume ab: "a \<le> b" and b: "unat b < 2 ^ 63"
  have p: "sint w = int (unat w)" if "unat w < 2 ^ 63" for w :: u64
  proof -
    have "sint w = signed_take_bit 63 (uint w)" by (simp add: sint_uint)
    also have "uint w = int (unat w)" by simp
    also have "signed_take_bit 63 (int (unat w)) = int (unat w)"
    proof (rule signed_take_bit_int_eq_self)
      show "- (2 ^ 63) \<le> int (unat w)" by (rule order_trans [of _ 0]) simp_all
      have "int (unat w) < int (2 ^ 63)" using that by (simp only: of_nat_less_iff)
      then show "int (unat w) < 2 ^ 63" by (simp only: of_nat_power of_nat_numeral)
    qed
    finally show ?thesis .
  qed
  have "unat a \<le> unat b" using ab by (simp add: word_le_nat_alt)
  then show "sint a \<le> sint b" using b by (simp only: p [of a] p [of b] of_nat_le_iff)
qed

text \<open>A hint above every area is honoured: \<open>VM::alloc_movable\<close> maps exactly at the hint, merging with the
  area that ends there when it has the same mode, the list stays sorted and disjoint and exactly the range is added.\<close>

theorem vm_movable_above:
  assumes ok: "areas_ok (vm_areas v)" and above: "\<And>x. x \<in> set (vm_areas v) \<Longrightarrow> ADDR_MIN \<le> va_begin x \<and> va_end x \<le> hint"
    and valid: "assert_valid hint len = Some ()" and inr: "\<not> range_invalid hint len"
    and node: "make_node s = Some (Inr n, s1)" and run: "vm_alloc_movable h hint len prot v s = Some (r, v', s')"
  shows "r = Inr hint \<and> areas_ok (vm_areas v') \<and>
    (\<forall>t. flags_at (vm_areas v') t = (if hint \<le> t \<and> t < hint + len then Some (prot_to_mode prot) else flags_at (vm_areas v) t))"
proof -
  have nr: "\<not> (ADDR_MAX \<le> hint \<or> ADDR_MAX < hint + len)" using inr by (simp add: range_invalid_def)
  note lt = in_range_sum [OF nr valid]
  have mh: "movable_hint hint = hint" using inr by (auto simp: movable_hint_def range_invalid_def)
  let ?full = "list_begin # vm_areas v"
  let ?r = "last ?full" and ?n = "length (vm_areas v)"
  have amin: "ADDR_MIN < ADDR_MAX" "ADDR_MIN \<le> hint"
    using inr by (auto simp: range_invalid_def ADDR_MIN_def ADDR_MAX_def PAGE_SIZE_def MEM_LOW_HALF_MAX_def not_less)
  have ends: "va_end x \<le> hint" if "x \<in> set ?full" for x using that above amin(2) by (auto simp: list_begin_def)
  have re: "va_end ?r \<le> hint" by (rule ends) (rule last_in_set, simp)
  have sp: "sint len \<le> sint (ADDR_MAX - va_end ?r)"
  proof (rule sint_le_small)
    note a = in_range_sum(3) [OF nr valid]
    have "unat (ADDR_MAX - va_end ?r) = unat ADDR_MAX - unat (va_end ?r)"
      by (rule unat_sub) (use re nr in \<open>auto simp: not_le\<close>)
    then show "len \<le> ADDR_MAX - va_end ?r" using a lt(2) re by (simp add: word_le_nat_alt)
    have "ADDR_MAX - va_end ?r \<le> ADDR_MAX" using re nr by (auto simp: word_le_nat_alt unat_sub not_le)
    then have "unat (ADDR_MAX - va_end ?r) \<le> unat ADDR_MAX" by (simp only: word_le_nat_alt)
    moreover have "unat ADDR_MAX < 2 ^ 63" by (simp add: ADDR_MAX_def MEM_LOW_HALF_MAX_def)
    ultimately show "unat (ADDR_MAX - va_end ?r) < 2 ^ 63" by (rule order_le_less_trans)
  qed
  have fr: "find_region hint len 0 None ?full = Some (?n, ?r)"
  proof (cases "vm_areas v")
    case Nil
    have "0 < hint - ADDR_MIN \<or> hint = ADDR_MIN" by (metis eq_iff_diff_eq_0 word_gt_0)
    then show ?thesis using Nil sp by (simp add: space_after_def)
  next
    case (Cons y ys)
    have "ADDR_MIN < hint" using above [of y] ok Cons by auto
    then have lb: "va_end list_begin < hint" by (simp add: list_begin_def)
    have "find_region hint len (0 + 1) rg (vm_areas v) = Some (0 + 1 + ?n - 1, last (vm_areas v))"
      if "\<And>j x. rg = Some (j, x) \<Longrightarrow> va_end x < hint" for rg
      by (rule find_region_last) (use ends Cons ok sp that in auto)
    from this [of None] this [of "Some (0, list_begin)"] show ?thesis using lb Cons by simp
  qed
  have cl: "clamp hint (va_end ?r) ADDR_MAX = hint" using re nr by (auto simp: clamp_def)
  let ?x = "new_area n hint len prot"
  define rg where "rg = ?r"
  note fr' = fr [folded rg_def] and cl' = cl [folded rg_def]
  have dr: "drop (?n + 1) ?full = []" "take (?n + 1) ?full = ?full" by simp_all
  have nn: "\<not> ADDR_MAX < hint + len" using nr by blast
  have "\<exists>s2 merged. r = Inr hint \<and> merge_regions_after (drop ?n (?full @ [?x])) s2 = Some (merged, s') \<and>
      vm_areas v' = tl (take ?n (?full @ [?x]) @ merged)"
    using run unfolding vm_alloc_movable_def mh Let_def node fr' option.case prod.case sum.case dr list.case cl' valid if_not_P [OF nn]
      bind.bind_lunit
    by (auto split: bind_splits) blast
  then obtain s2 merged where "r = Inr hint" and m: "merge_regions_after (drop ?n (?full @ [?x])) s2 = Some (merged, s')"
    and areas: "vm_areas v' = tl (take ?n (?full @ [?x]) @ merged)" by blast
  moreover have "areas_ok (vm_areas v') \<and>
    (\<forall>t. flags_at (vm_areas v') t = flags_at (vm_areas v @ [?x]) t)"
  proof (cases "vm_areas v" rule: rev_cases)
    case Nil
    have "prot_to_mode prot \<noteq> 0xffffffff"
      by (simp add: prot_to_mode_def Let_def MMU_MODE_EXEC_def MMU_MODE_WRITE_def MMU_MODE_USER_def)
    then show ?thesis using areas m Nil lt(1,2) by (auto simp: list_begin_def)
  next
    case (snoc ys y)
    have mm: "merge_regions_after [y, ?x] s2 = Some (merged, s')" "vm_areas v' = ys @ merged"
      using m unfolding areas snoc by simp_all
    have "areas_ok (ys @ [y, ?x])" using ok snoc lt(1,2) ends by (auto simp: areas_ok_append)
    moreover have "areas_ok [y, ?x]" using calculation by (simp add: areas_ok_append)
    moreover obtain zs gone where z: "\<forall>s. merge_regions_after [y, ?x] s = map_option (Pair zs) (mfold free_node gone s)" "areas_ok zs"
      "\<forall>t. flags_at zs t = flags_at [y, ?x] t" "\<forall>z\<in>set zs. \<exists>u\<in>set [y, ?x]. va_begin u \<le> va_begin z"
      using merge_ok [OF calculation(2)] by blast
    moreover have "merged = zs" using z(1) mm(1) by auto
    ultimately show ?thesis unfolding mm(2) snoc
      by (fastforce simp: areas_ok_append flags_at_append split: option.splits)
  qed
  ultimately show ?thesis using place_area [of "vm_areas v" "[]" ?x] ok above lt(1,2) by auto
qed

theorem vm_movable_above_witness:
  "\<exists>v' s'. vm_alloc_movable 0 0x5000 0x1000 0 small_vm node_mem = Some (Inr 0x5000, v', s') \<and>
    areas_ok (vm_areas v') \<and> flags_at (vm_areas v') 0x5fff = Some 0 \<and> flags_at (vm_areas v') 0x6000 = None"
proof -
  have ok: "areas_ok (vm_areas small_vm)" and inr: "\<not> range_invalid 0x5000 0x1000" and valid: "assert_valid 0x5000 0x1000 = Some ()"
    and above: "\<And>x. x \<in> set (vm_areas small_vm) \<Longrightarrow> ADDR_MIN \<le> va_begin x \<and> va_end x \<le> 0x5000"
    by (simp_all add: small_vm_def range_invalid_def ADDR_MIN_def ADDR_MAX_def PAGE_SIZE_def MEM_LOW_HALF_MAX_def
        assert_valid_def page_aligned64_def word_sless_alt)
  have run: "\<exists>v' s'. vm_alloc_movable 0 0x5000 0x1000 0 small_vm node_mem = Some (Inr 0x5000, v', s')"
    by (simp add: vm_alloc_movable_def movable_hint_def ADDR_MIN_def ADDR_MAX_def PAGE_SIZE_def MEM_LOW_HALF_MAX_def list_begin_def
        space_after_def clamp_def valid map_area_def small_vm_def node_mem new_area_def free_node_def VM_AREA_CLASS kfree_class_def Let_def)
  then obtain v' s' where v': "vm_alloc_movable 0 0x5000 0x1000 0 small_vm node_mem = Some (Inr 0x5000, v', s')" by blast
  from vm_movable_above [OF ok above valid inr node_mem(1) v'] v' show ?thesis by (simp add: prot_to_mode_def small_vm_def)
qed

text \<open>A hint just below an area is not: the address is clamped to the gap without regard to the length, so the
  new area runs into the next one. Here two pages are asked for one page below an area; the call succeeds at the hint and
  the two areas overlap.\<close>

theorem vm_movable_overlaps:
  "areas_ok [\<lparr>va_node = 0x30000, va_begin = 0x10000, va_end = 0x20000, va_flags = 4\<rparr>] \<and>
   (\<exists>v'. vm_alloc_movable h 0xf000 0x2000 0
        \<lparr>vm_page_map = pm, vm_areas = [\<lparr>va_node = 0x30000, va_begin = 0x10000, va_end = 0x20000, va_flags = 4\<rparr>]\<rparr> node_mem
        = Some (Inr 0xf000, v', node_mem1) \<and> \<not> areas_ok (vm_areas v'))"
  by (simp add: node_mem new_area_def vm_alloc_movable_def movable_hint_def ADDR_MIN_def ADDR_MAX_def PAGE_SIZE_def MEM_LOW_HALF_MAX_def list_begin_def
      space_after_def clamp_def assert_valid_def page_aligned64_def map_area_def prot_to_mode_def word_sless_alt)

end
