(* ===== verification/Area_Nodes.thy ===== *)
theory Area_Nodes
  imports Vm Page_Tables
begin

unbundle bit_operations_syntax

text \<open>
  The nodes of the areas (\<open>kernel/src/user/vm.cxx\<close>) beside the page tables (\<open>kernel/src/x86_64/mmu.c\<close>): both come from one
  page allocator. Allocating and freeing a node leaves every page table as it is, and the page tables leave the pools as
  they are; what an address space and its nodes hold is accounted for against the state \<open>b\<close> in which it holds nothing.
\<close>

section \<open>The page tables leave the pools alone\<close>

definition heap_part :: "mem_state \<Rightarrow> (nat \<Rightarrow> nat) \<times> (nat \<Rightarrow> nat) \<times> (nat \<Rightarrow> nat)" where
  "heap_part s = (pools s, stat_free s, stat_total s)"

lemma heap_part_words [simp]: "heap_part (s\<lparr>words := w\<rparr>) = heap_part s" "heap_part (store64 a v s) = heap_part s"
  by (simp_all add: heap_part_def store64_def)

lemma alloc_page_heap: "mmu_alloc_page s = Some (p, s') \<Longrightarrow> heap_part s' = heap_part s"
  by (auto simp: mmu_alloc_page_def alloc_page_def heap_part_def Let_def split: if_splits bind_splits)

lemma free_page_heap: "free_page p s = Some s' \<Longrightarrow> heap_part s' = heap_part s"
  by (auto simp: free_page_def heap_part_def split: if_splits)

lemma mfold_keeps:
  assumes "\<And>x s s'. f x s = Some s' \<Longrightarrow> g s' = g s" and "mfold f xs s = Some s'"
  shows "g s' = g s"
  using assms(2) by (induction xs arbitrary: s) (auto simp: bind_eq_Some_conv dest: assms(1))

lemma assign_heap: "assign d h t vb ve f s = Some s' \<Longrightarrow> heap_part s' = heap_part s"
proof (induction d arbitrary: t vb ve s s')
  case (Suc d)
  show ?case
    using Suc.prems unfolding assign.simps
    by (rule mfold_keeps [rotated]) (auto simp: Let_def bind_eq_Some_conv dest!: Suc.IH alloc_page_heap split: if_splits)
qed simp

lemma clear_heap: "clear d h t vb ve s = Some (e, s') \<Longrightarrow> heap_part s' = heap_part s"
proof (induction d arbitrary: t vb ve s s' e)
  case (Suc d)
  have "mfold (clear_body d h t vb ve) (index_range (Suc d) vb ve) s = Some s'"
    using Suc.prems unfolding clear_Suc by (auto simp: bind_eq_Some_conv simp del: clear.simps)
  then show ?case
    by (rule mfold_keeps [rotated]) (auto simp: clear_body_def Let_def bind_eq_Some_conv dest!: Suc.IH free_page_heap split: if_splits)
qed simp

lemma mmu_heap:
  "mmu_assign h pm a l m c s = Some s' \<Longrightarrow> heap_part s' = heap_part s"
  "mmu_clear h pm a l s = Some s' \<Longrightarrow> heap_part s' = heap_part s"
  "mmu_create_address_space h cr3 pm s = Some (pm', s') \<Longrightarrow> heap_part s' = heap_part s"
  "mmu_destroy_address_space h cr3 pm s = Some s' \<Longrightarrow> heap_part s' = heap_part s"
proof -
  show c: "heap_part s' = heap_part s" if "mmu_clear h pm a l s = Some s'" for a l s s'
    using that by (auto simp: mmu_clear_def bind_eq_Some_conv dest: clear_heap)
  show "mmu_assign h pm a l m c s = Some s' \<Longrightarrow> heap_part s' = heap_part s"
    by (auto simp: mmu_assign_def bind_eq_Some_conv dest: assign_heap)
  show "mmu_create_address_space h cr3 pm s = Some (pm', s') \<Longrightarrow> heap_part s' = heap_part s"
    by (auto simp: mmu_create_address_space_def copy_cells_def Let_def bind_eq_Some_conv dest!: alloc_page_heap split: if_splits)
  show "mmu_destroy_address_space h cr3 pm s = Some s' \<Longrightarrow> heap_part s' = heap_part s"
    by (auto simp: mmu_destroy_address_space_def bind_eq_Some_conv dest!: c free_page_heap split: if_splits)
qed

section \<open>A page table survives what happens elsewhere\<close>

lemma address_space_frame:
  assumes inv: "address_space h pm s live G" and st: "store_ok h s' live'"
    and pg: "\<And>p. p \<in> dom G \<Longrightarrow> (p, PAGE_SIZE) \<in> set live'"
    and w: "\<And>p x. p \<in> dom G \<Longrightarrow> p \<le> x \<Longrightarrow> x < p + PAGE_SIZE \<Longrightarrow> words s' x = words s x"
  shows "address_space h pm s' live' G" and "unat a < MEM_LOW_HALF_MAX \<Longrightarrow> user_entry h pm a s' = user_entry h pm a s"
proof -
  let ?root = "phys_to_virt h pm"
  have sp: "space_ok h ?root s live G" "lean 4 h ?root s G" using inv by (simp_all add: address_space_def)
  have e: "entry p i s' = entry p i s" if "G p = Some y" "i < 512" for p i y
    using entry_cell_in [OF that(2), of p] w [of p] that(1) by (intro load_cong) auto
  have leaf: "leaf_entry 4 h ?root a s' = leaf_entry 4 h ?root a s" if "a < USER_END" for a
    by (rule leaf_cong [OF sp(1) that, of 4 s' 4 ?root 0])
      (use e that space_okD(2) [OF sp(1)] in \<open>auto simp: region_def USER_END_def span_vals\<close>)
  have "down_ok h s' G" using space_okD(4) [OF sp(1)] e unfolding down_ok_def by metis
  moreover have "up_ok h ?root s' G" using space_okD(5) [OF sp(1)] e unfolding up_ok_def by metis
  moreover have "pages_ok h live' G" using space_okD(3) [OF sp(1)] pg unfolding pages_ok_def by blast
  moreover have "lean 4 h ?root s' G" using sp(2) leaf unfolding lean_def maps_something_def by metis
  ultimately show "address_space h pm s' live' G" using st space_okD(2) [OF sp(1)] by (simp add: address_space_def space_ok_def)
  show "user_entry h pm a s' = user_entry h pm a s" if "unat a < MEM_LOW_HALF_MAX"
    using leaf [of "unat a"] that by (simp add: user_entry_def USER_END_def MEM_LOW_HALF_MAX_def)
qed

section \<open>Nodes on the heap\<close>

abbreviation node_block :: "nat \<Rightarrow> block" where
  "node_block n \<equiv> (n, class_size VM_AREA_CLASS)"

definition has_nodes :: "nat list \<Rightarrow> block list \<Rightarrow> bool" where
  "has_nodes ns live \<longleftrightarrow> distinct ns \<and> (\<forall>n\<in>set ns. node_block n \<in> set live \<and> n mod class_size VM_AREA_CLASS = 0)"

text \<open>Against the state \<open>b\<close>, \<open>k\<close> pages are held from the page allocator and \<open>m\<close> nodes from their pool. The pool may have grown by
  pages that the page allocator no longer has; nothing else is different.\<close>

definition balance :: "mem_state \<Rightarrow> mem_state \<Rightarrow> nat \<Rightarrow> nat \<Rightarrow> bool" where
  "balance b s k m \<longleftrightarrow> class_bytes VM_AREA_CLASS s + k * PAGE_SIZE = class_bytes VM_AREA_CLASS b \<and>
     in_use s VM_AREA_CLASS = in_use b VM_AREA_CLASS + int m \<and> other_classes VM_AREA_CLASS b s"

lemma balance_refl: "balance s s 0 0"
  by (simp add: balance_def other_classes_def)

lemma balance_pages:
  assumes "balance b s k m" and "heap_part s' = heap_part s" and "pmm_free_count s' + k' = pmm_free_count s + k"
  shows "balance b s' k' m"
proof -
  have h: "pools s' = pools s" "stat_free s' = stat_free s" "stat_total s' = stat_total s" using assms(2) by (simp_all add: heap_part_def)
  have "pmm_free_count s' * PAGE_SIZE + k' * PAGE_SIZE = pmm_free_count s * PAGE_SIZE + k * PAGE_SIZE"
    using assms(3) by (metis add_mult_distrib)
  then show ?thesis using assms(1) h by (simp add: balance_def class_bytes_def in_use_def other_classes_def)
qed

lemma other_classes_trans: "other_classes c a b \<Longrightarrow> other_classes c b d \<Longrightarrow> other_classes c a d"
  by (simp add: other_classes_def)

lemma node_class [simp]: "VM_AREA_CLASS < 10"
  by (simp add: VM_AREA_CLASS)

lemma has_nodes_perm: "has_nodes ns live \<Longrightarrow> mset ns' = mset ns \<Longrightarrow> has_nodes ns' live"
  unfolding has_nodes_def by (metis mset_eq_imp_distinct_iff mset_eq_setD)

lemma has_nodes_mono: "has_nodes ns live \<Longrightarrow> (\<And>n. n \<in> set ns \<Longrightarrow> node_block n \<in> set live') \<Longrightarrow> has_nodes ns live'"
  by (simp add: has_nodes_def)

lemma node_not_page: "node_block n \<noteq> (p, PAGE_SIZE)"
  by (simp add: VM_AREA_CLASS class_size_def PAGE_SIZE_def)

lemma node_exhausted:
  assumes "store_ok h s live" and "exhausted VM_AREA_CLASS s"
  shows "make_node s = Some (Inl ENOMEM, s)"
proof -
  obtain ps fs where i: "mem_inv s ps fs live" using assms(1) by (rule store_okE)
  show ?thesis using kalloc_class_exhausted [OF i node_class assms(2)] by (simp add: make_node_def owned_make_def)
qed

lemma node_alloc:
  assumes st: "store_ok h s live" and ns: "has_nodes ns live" and bal: "balance b s k (length ns)"
    and some: "\<not> exhausted VM_AREA_CLASS s"
  shows "\<exists>n s'. make_node s = Some (Inr n, s') \<and> n \<noteq> 0 \<and> store_ok h s' (node_block n # live) \<and>
    has_nodes (n # ns) (node_block n # live) \<and> balance b s' k (length (n # ns)) \<and> same_blocks live s s' \<and>
    pmm_free_count s = pmm_free_count s' + fresh_page VM_AREA_CLASS s"
proof -
  obtain ps fs where i: "mem_inv s ps fs live" "\<forall>b\<in>#all_blocks ps fs live. kernel_pointer (fst b)" "\<forall>p\<in>set ps. frame_ok h p"
    using st by (rule store_okE)
  obtain n s' ps' fs' where r: "kalloc_class (int VM_AREA_CLASS) s = Some (n, s')" "n \<noteq> 0" "n mod class_size VM_AREA_CLASS = 0"
    "mem_inv s' ps' fs' (node_block n # live)" "set ps' \<subseteq> set ps" "\<forall>b\<in>#all_blocks ps' fs' (node_block n # live). kernel_pointer (fst b)"
    "same_blocks live s s'" "other_classes VM_AREA_CLASS s s'" "class_bytes VM_AREA_CLASS s' = class_bytes VM_AREA_CLASS s"
    "pmm_free_count s = pmm_free_count s' + fresh_page VM_AREA_CLASS s"
    using kalloc_class_exact [OF i(1) node_class i(2) some] by (elim exE conjE) (rule that)
  have st': "store_ok h s' (node_block n # live)"
    unfolding store_ok_def using r(4-6) i(3) by (intro exI [of _ ps'] exI [of _ fs']) auto
  then have "n \<notin> set ns" using store_ok_blocks(1) [OF st'] ns by (auto simp: has_nodes_def)
  then have "has_nodes (n # ns) (node_block n # live)" using ns r(3) by (simp add: has_nodes_def)
  moreover have "balance b s' k (length (n # ns))"
    using bal kalloc_in_use [OF i(1) node_class r(1), of VM_AREA_CLASS] r(2,8,9) by (auto simp: balance_def intro: other_classes_trans)
  moreover have "make_node s = Some (Inr n, s')" using r(1,2) by (simp add: make_node_def owned_make_def)
  ultimately show ?thesis using r(2,7,10) st' by blast
qed

lemma node_release:
  assumes st: "store_ok h s live" and ns: "has_nodes (n # ns) live" and bal: "balance b s k (length (n # ns))"
  shows "\<exists>s'. free_node n s = Some s' \<and> destroy_node n s = Some s' \<and> store_ok h s' (remove1 (node_block n) live) \<and>
    has_nodes ns (remove1 (node_block n) live) \<and> balance b s' k (length ns) \<and> same_blocks (remove1 (node_block n) live) s s' \<and>
    pmm_free_count s' = pmm_free_count s \<and> pools s' VM_AREA_CLASS \<noteq> 0"
proof -
  let ?c = VM_AREA_CLASS and ?live = "remove1 (node_block n) live"
  obtain ps fs where i: "mem_inv s ps fs live" "\<forall>b\<in>#all_blocks ps fs live. kernel_pointer (fst b)" "\<forall>p\<in>set ps. frame_ok h p"
    using st by (rule store_okE)
  have n: "node_block n \<in> set live" "n mod class_size ?c = 0" "n \<notin> set ns" "has_nodes ns live" using ns by (simp_all add: has_nodes_def)
  obtain s' where r: "kfree_class n (int ?c) s = Some s'" "mem_inv s' ps (fs(?c := n # fs ?c)) ?live"
    using kfree_class_inv [OF i(1) n(1) node_class n(2)] by blast
  have d: "distinct live" by (rule store_ok_blocks(1) [OF st])
  have "\<not> (n \<le> x \<and> x < n + class_size ?c)" if "(q, m) \<in> set ?live" "q \<le> x" "x < q + m" for q m x
  proof -
    have "(q, m) \<noteq> node_block n" "(q, m) \<in> set live" using that(1) d by auto
    then show ?thesis using store_ok_blocks(2) [OF st n(1), of "(q, m)"] that(2,3) by (auto simp: disj_def)
  qed
  note ex = kfree_class_exact [OF r(1) node_class, of ?live, OF this]
  have st': "store_ok h s' ?live"
    unfolding store_ok_def using r(2) i(2,3) all_blocks_kfree [OF n(1) node_class] by (intro exI [of _ ps] exI [of _ "fs(?c := n # fs ?c)"]) simp
  have "has_nodes ns ?live" by (rule has_nodes_mono [OF n(4)]) (use n(3,4) d in \<open>auto simp: has_nodes_def\<close>)
  moreover have "balance b s' k (length ns)"
    using bal kfree_in_use [OF r(1) node_class, of ?c] ex(2,3) by (auto simp: balance_def intro: other_classes_trans)
  moreover have "free_node n s = Some s'" "destroy_node n s = Some s'"
    using r(1) ex(6) by (simp_all add: free_node_def VM_AREA_CLASS(2) destroy_node_def owned_destroy_def)
  ultimately show ?thesis using st' ex by auto
qed

text \<open>All the nodes of a list.\<close>

lemma nodes_release:
  assumes "store_ok h s live" and "has_nodes (gone @ ns) live" and "balance b s k (length (gone @ ns))"
  shows "\<exists>s' live'. mfold free_node gone s = Some s' \<and> store_ok h s' live' \<and> has_nodes ns live' \<and> balance b s' k (length ns) \<and>
    same_blocks live' s s' \<and> set live' = set live - node_block ` set gone \<and> pmm_free_count s' = pmm_free_count s \<and>
    (pools s VM_AREA_CLASS \<noteq> 0 \<longrightarrow> pools s' VM_AREA_CLASS \<noteq> 0)"
  using assms
proof (induction gone arbitrary: s live)
  case Nil
  then show ?case by (auto simp: same_blocks_def)
next
  case (Cons n gone)
  let ?live = "remove1 (node_block n) live"
  obtain s1 where s1: "free_node n s = Some s1" "store_ok h s1 ?live" "has_nodes (gone @ ns) ?live" "balance b s1 k (length (gone @ ns))"
    "same_blocks ?live s s1" "pmm_free_count s1 = pmm_free_count s" "pools s1 VM_AREA_CLASS \<noteq> 0"
    using node_release [OF Cons.prems(1), of n "gone @ ns"] Cons.prems(2,3) by auto
  obtain s2 live2 where s2: "mfold free_node gone s1 = Some s2" "store_ok h s2 live2" "has_nodes ns live2" "balance b s2 k (length ns)"
    "same_blocks live2 s1 s2" "set live2 = set ?live - node_block ` set gone" "pmm_free_count s2 = pmm_free_count s1"
    "pools s1 VM_AREA_CLASS \<noteq> 0 \<longrightarrow> pools s2 VM_AREA_CLASS \<noteq> 0"
    using Cons.IH [OF s1(2-4)] by blast
  have "set live2 = set live - node_block ` set (n # gone)"
    using s2(6) store_ok_blocks(1) [OF Cons.prems(1)] by auto
  moreover have "same_blocks live2 s s2"
    using s1(5) s2(5,6) unfolding same_blocks_def by (metis DiffD1)
  ultimately show ?case using s1 s2 by (intro exI [of _ s2] exI [of _ live2]) simp
qed

end
