(* ===== verification/Address_Space.thy ===== *)
theory Address_Space
  imports Area_Nodes
begin

unbundle bit_operations_syntax

text \<open>
  Areas and page tables together: the list of areas of a \<open>VM\<close> (\<open>kernel/src/user/vm.cxx\<close>) and its page tables
  (\<open>kernel/src/x86_64/mmu.c\<close>) stay in step.

  The interface between the two is the locale \<open>page_map\<close>: what mapping and unmapping a range do to the permissions
  that the tables give to each address. It is interpreted on \<open>mmu_assign\<close> and \<open>mmu_clear\<close>; the operations of
  \<open>Vm\<close> then never panic on a page table entry. The area nodes come from the same allocator: what the address space and its
  nodes hold, and what the allocator has left, always add up.
\<close>

section \<open>The interface of a page map\<close>

abbreviation pages_of :: "u64 \<Rightarrow> nat" where "pages_of len \<equiv> unat len div PAGE_SIZE"

locale page_map =
  fixes sound :: "'s \<Rightarrow> bool" and view :: "'s \<Rightarrow> u64 \<Rightarrow> u64 option" and avail :: "'s \<Rightarrow> nat"
    and map_range :: "u64 \<Rightarrow> u64 \<Rightarrow> u32 \<Rightarrow> 's \<Rightarrow> 's option" and unmap_range :: "u64 \<Rightarrow> u64 \<Rightarrow> 's \<Rightarrow> 's option"
  assumes map_range: "sound s \<Longrightarrow> user_range a l \<Longrightarrow> \<forall>x\<in>addr_range a l. view s x = None \<Longrightarrow> 4 * pages_of l \<le> avail s \<Longrightarrow>
      \<exists>s'. map_range a l m s = Some s' \<and> sound s' \<and> avail s \<le> avail s' + 4 * pages_of l \<and>
        view s' = (\<lambda>x. if x \<in> addr_range a l then Some (entry_flags 0 m) else view s x)"
    and unmap_range: "sound s \<Longrightarrow> user_range a l \<Longrightarrow>
      \<exists>s'. unmap_range a l s = Some s' \<and> sound s' \<and> avail s \<le> avail s' \<and>
        view s' = (\<lambda>x. if x \<in> addr_range a l then None else view s x)"
begin

text \<open>Replacing whatever a range holds.\<close>

lemma remap_range:
  assumes "sound s" "user_range a l" "4 * pages_of l \<le> avail s"
  shows "\<exists>s1 s2. unmap_range a l s = Some s1 \<and> sound s1 \<and> map_range a l m s1 = Some s2 \<and> sound s2 \<and>
    view s1 = (\<lambda>x. if x \<in> addr_range a l then None else view s x) \<and>
    view s2 = (\<lambda>x. if x \<in> addr_range a l then Some (entry_flags 0 m) else view s x)"
proof -
  obtain s1 where s1: "unmap_range a l s = Some s1" "sound s1" "avail s \<le> avail s1"
    "view s1 = (\<lambda>x. if x \<in> addr_range a l then None else view s x)"
    using unmap_range [OF assms(1,2)] by blast
  have "\<forall>x\<in>addr_range a l. view s1 x = None" "4 * pages_of l \<le> avail s1" using s1(3,4) assms(3) by auto
  from map_range [OF s1(2) assms(2) this, of m] obtain s2 where s2: "map_range a l m s1 = Some s2" "sound s2"
    "view s2 = (\<lambda>x. if x \<in> addr_range a l then Some (entry_flags 0 m) else view s1 x)" by blast
  have "view s2 = (\<lambda>x. if x \<in> addr_range a l then Some (entry_flags 0 m) else view s x)" using s1(4) s2(3) by auto
  with s1 s2 show ?thesis by blast
qed

end

section \<open>The page tables implement it\<close>

text \<open>What the tables say about a user address.\<close>

definition page_view :: "u64 \<Rightarrow> u64 \<Rightarrow> mem_state \<Rightarrow> u64 \<Rightarrow> u64 option" where
  "page_view h pm s a = (if unat a < MEM_LOW_HALF_MAX \<and> user_entry h pm a s \<noteq> 0
     then Some (user_entry h pm a s AND NOT TABLE_ENTRY_ADDRESS_MASK) else None)"

text \<open>A sound address space with the nodes \<open>ns\<close>; \<open>b\<close> is the state of the allocator without it.\<close>

definition sound_space :: "u64 \<Rightarrow> u64 \<Rightarrow> mem_state \<Rightarrow> nat list \<Rightarrow> mem_state \<Rightarrow> bool" where
  "sound_space h pm b ns s \<longleftrightarrow> (\<exists>live G. address_space h pm s live G \<and> has_nodes ns live \<and> balance b s (card (dom G)) (length ns))"

lemma in_user_range: "user_range a l \<Longrightarrow> x \<in> addr_range a l \<Longrightarrow> unat x < MEM_LOW_HALF_MAX"
  by (auto simp: user_range_def addr_range_def)

lemma tables_map_range:
  assumes "sound_space h pm b ns s" "user_range a l" "\<forall>x\<in>addr_range a l. page_view h pm s x = None" "4 * pages_of l \<le> pmm_free_count s"
  shows "\<exists>s'. mmu_assign h pm a l m 0 s = Some s' \<and> sound_space h pm b ns s' \<and> pmm_free_count s \<le> pmm_free_count s' + 4 * pages_of l \<and>
    page_view h pm s' = (\<lambda>x. if x \<in> addr_range a l then Some (entry_flags 0 m) else page_view h pm s x)"
proof -
  obtain live G where sp: "address_space h pm s live G" "has_nodes ns live" "balance b s (card (dom G)) (length ns)"
    using assms(1) by (auto simp: sound_space_def)
  have un: "\<forall>x\<in>addr_range a l. user_entry h pm x s = 0"
    using assms(3) in_user_range [OF assms(2)] by (auto simp: page_view_def split: if_splits)
  obtain s' live' G' frame where a: "mmu_assign h pm a l m 0 s = Some s'" "address_space h pm s' live' G'"
    "\<forall>x\<in>addr_range a l. let q = frame (page_number x) in virt_to_phys h pm x s' = hhdm_virt_to_phys h q OR (x AND 0xfff) \<and>
       user_entry h pm x s' AND NOT TABLE_ENTRY_ADDRESS_MASK = entry_flags 0 m \<and>
       (q, PAGE_SIZE) \<in> set live' \<and> (\<forall>n. (q, n) \<notin> set live) \<and> (\<forall>x. q \<le> x \<and> x < q + PAGE_SIZE \<longrightarrow> words s' x = 0)"
    "\<forall>x. x \<notin> addr_range a l \<and> unat x < MEM_LOW_HALF_MAX \<longrightarrow>
       virt_to_phys h pm x s' = virt_to_phys h pm x s \<and> user_entry h pm x s' = user_entry h pm x s" "set live \<subseteq> set live'"
    "pmm_free_count s' + card (dom G') = pmm_free_count s + card (dom G)"
    "pmm_free_count s \<le> pmm_free_count s' + 4 * pages_of l"
    using space_assign [OF sp(1) assms(2) un assms(4), of m 0] by (elim exE conjE) (rule that)
  have inr: "user_entry h pm x s' AND NOT TABLE_ENTRY_ADDRESS_MASK = entry_flags 0 m" "user_entry h pm x s' \<noteq> 0" if x: "x \<in> addr_range a l" for x
  proof -
    show e: "user_entry h pm x s' AND NOT TABLE_ENTRY_ADDRESS_MASK = entry_flags 0 m" using bspec [OF a(3) x] by (simp add: Let_def)
    show "user_entry h pm x s' \<noteq> 0"
      using e flag_bits_entry_flags [of 0 m] by (auto simp: flag_bits_def PRESENT_def)
  qed
  have "page_view h pm s' x = (if x \<in> addr_range a l then Some (entry_flags 0 m) else page_view h pm s x)" for x
    using inr a(4) in_user_range [OF assms(2), of x] by (auto simp: page_view_def)
  moreover have "has_nodes ns live'" by (rule has_nodes_mono [OF sp(2)]) (use sp(2) a(5) in \<open>auto simp: has_nodes_def\<close>)
  then have "sound_space h pm b ns s'"
    using a(2) balance_pages [OF sp(3) mmu_heap(1) [OF a(1)] a(6)] unfolding sound_space_def by blast
  ultimately show ?thesis using a(1,7) by blast
qed

lemma tables_unmap_range:
  assumes "sound_space h pm b ns s" "user_range a l"
  shows "\<exists>s'. mmu_clear h pm a l s = Some s' \<and> sound_space h pm b ns s' \<and> pmm_free_count s \<le> pmm_free_count s' \<and>
    page_view h pm s' = (\<lambda>x. if x \<in> addr_range a l then None else page_view h pm s x)"
proof -
  obtain live G where sp: "address_space h pm s live G" "has_nodes ns live" "balance b s (card (dom G)) (length ns)"
    using assms(1) by (auto simp: sound_space_def)
  obtain s' live' G' where c: "mmu_clear h pm a l s = Some s'" "address_space h pm s' live' G'"
    "\<forall>x\<in>addr_range a l. virt_to_phys h pm x s' = 0 \<and> user_entry h pm x s' = 0"
    "\<forall>x. x \<notin> addr_range a l \<and> unat x < MEM_LOW_HALF_MAX \<longrightarrow>
       virt_to_phys h pm x s' = virt_to_phys h pm x s \<and> user_entry h pm x s' = user_entry h pm x s"
    "G' \<subseteq>\<^sub>m G" "set live' = set live - (\<lambda>q. (q, PAGE_SIZE)) ` (dom G - dom G')"
    "pmm_free_count s' + card (dom G') = pmm_free_count s + card (dom G)"
    using space_clear [OF sp(1) assms(2)] by (elim exE conjE) (rule that)
  have "page_view h pm s' x = (if x \<in> addr_range a l then None else page_view h pm s x)" for x
    using c(3,4) by (auto simp: page_view_def)
  moreover have "card (dom G') \<le> card (dom G)"
    using sp(1) c(5) by (intro card_mono space_finite map_le_implies_dom_le) (auto simp: address_space_def)
  moreover have "has_nodes ns live'"
    by (rule has_nodes_mono [OF sp(2)]) (use sp(2) c(6) node_not_page in \<open>auto simp: has_nodes_def\<close>)
  then have "sound_space h pm b ns s'"
    using c(2) balance_pages [OF sp(3) mmu_heap(2) [OF c(1)] c(7)] unfolding sound_space_def by blast
  ultimately show ?thesis using c(1,7) by (intro exI [of _ s']) auto
qed

interpretation tables: page_map "sound_space h pm b ns" "page_view h pm" pmm_free_count
    "\<lambda>a l m. mmu_assign h pm a l m 0" "mmu_clear h pm" for h pm b ns
  by unfold_locales (rule tables_map_range tables_unmap_range; assumption)+


section \<open>The nodes\<close>

lemma sound_space_perm: "sound_space h pm b ns s \<Longrightarrow> mset ns' = mset ns \<Longrightarrow> sound_space h pm b ns' s"
  unfolding sound_space_def by (metis has_nodes_perm mset_eq_length)

text \<open>Another state of the memory in which the pages of the space and their contents are the same.\<close>

lemma sound_space_frame:
  assumes inv: "address_space h pm s live G" and st: "store_ok h s' live'"
    and sub: "\<And>p. (p, PAGE_SIZE) \<in> set live \<Longrightarrow> (p, PAGE_SIZE) \<in> set live'" and w: "same_blocks live s s' \<or> same_blocks live' s s'"
    and ns: "has_nodes ns live'" "balance b s' (card (dom G)) (length ns)"
  shows "sound_space h pm b ns s'" and "page_view h pm s' = page_view h pm s"
proof -
  have pg: "(p, PAGE_SIZE) \<in> set live" "(p, PAGE_SIZE) \<in> set live'" if p: "p \<in> dom G" for p
  proof -
    show "(p, PAGE_SIZE) \<in> set live" using p space_pageD(6) [of h _ s live G p] inv by (auto simp: address_space_def)
    then show "(p, PAGE_SIZE) \<in> set live'" by (rule sub)
  qed
  have w': "words s' x = words s x" if "p \<in> dom G" "p \<le> x" "x < p + PAGE_SIZE" for p x
    using w pg [OF that(1)] that(2,3) unfolding same_blocks_def by blast
  have "address_space h pm s' live' G" by (rule address_space_frame(1) [OF inv st pg(2) w'])
  then show "sound_space h pm b ns s'" using ns unfolding sound_space_def by blast
  have "user_entry h pm a s' = user_entry h pm a s" if "unat a < MEM_LOW_HALF_MAX" for a
    by (rule address_space_frame(2) [OF inv st pg(2) w' that])
  then show "page_view h pm s' = page_view h pm s" by (intro ext) (simp add: page_view_def cong: conj_cong)
qed

lemma space_exhausted:
  assumes "sound_space h pm b ns s" and "exhausted VM_AREA_CLASS s"
  shows "make_node s = Some (Inl ENOMEM, s)"
proof -
  obtain live G where "address_space h pm s live G" using assms(1) by (auto simp: sound_space_def)
  then have "store_ok h s live" by (simp add: address_space_def space_ok_def)
  then show ?thesis by (rule node_exhausted [OF _ assms(2)])
qed

lemma space_make_node:
  assumes "sound_space h pm b ns s" and "\<not> exhausted VM_AREA_CLASS s"
  shows "\<exists>n s'. make_node s = Some (Inr n, s') \<and> n \<noteq> 0 \<and> sound_space h pm b (n # ns) s' \<and> page_view h pm s' = page_view h pm s \<and>
    pmm_free_count s = pmm_free_count s' + fresh_page VM_AREA_CLASS s"
proof -
  obtain live G where sp: "address_space h pm s live G" "has_nodes ns live" "balance b s (card (dom G)) (length ns)"
    using assms(1) by (auto simp: sound_space_def)
  have st: "store_ok h s live" using sp(1) by (simp add: address_space_def space_ok_def)
  obtain n s' where n: "make_node s = Some (Inr n, s')" "n \<noteq> 0" "store_ok h s' (node_block n # live)"
    "has_nodes (n # ns) (node_block n # live)" "balance b s' (card (dom G)) (length (n # ns))" "same_blocks live s s'"
    "pmm_free_count s = pmm_free_count s' + fresh_page VM_AREA_CLASS s"
    using node_alloc [OF st sp(2,3) assms(2)] by (elim exE conjE) (rule that)
  have "(p, PAGE_SIZE) \<in> set live \<Longrightarrow> (p, PAGE_SIZE) \<in> set (node_block n # live)" for p by simp
  note f = sound_space_frame [OF sp(1) n(3) this disjI1 [OF n(6)] n(4,5)]
  show ?thesis using n(1,2,7) f by blast
qed

lemma space_release_nodes:
  assumes "sound_space h pm b ns s" and "mset ns = mset gone + mset ns'"
  shows "\<exists>s'. mfold free_node gone s = Some s' \<and> sound_space h pm b ns' s' \<and> page_view h pm s' = page_view h pm s \<and>
    pmm_free_count s' = pmm_free_count s \<and> (pools s VM_AREA_CLASS \<noteq> 0 \<longrightarrow> pools s' VM_AREA_CLASS \<noteq> 0)"
proof -
  have "sound_space h pm b (gone @ ns') s" by (rule sound_space_perm [OF assms(1)]) (simp add: assms(2))
  then obtain live G where sp: "address_space h pm s live G" "has_nodes (gone @ ns') live" "balance b s (card (dom G)) (length (gone @ ns'))"
    by (auto simp: sound_space_def)
  have st: "store_ok h s live" using sp(1) by (simp add: address_space_def space_ok_def)
  obtain s' live' where n: "mfold free_node gone s = Some s'" "store_ok h s' live'" "has_nodes ns' live'"
    "balance b s' (card (dom G)) (length ns')" "same_blocks live' s s'" "set live' = set live - node_block ` set gone"
    "pmm_free_count s' = pmm_free_count s" "pools s VM_AREA_CLASS \<noteq> 0 \<longrightarrow> pools s' VM_AREA_CLASS \<noteq> 0"
    using nodes_release [OF st sp(2,3)] by (elim exE conjE) (rule that)
  have "(p, PAGE_SIZE) \<in> set live \<Longrightarrow> (p, PAGE_SIZE) \<in> set live'" for p using n(6) node_not_page by auto
  note f = sound_space_frame [OF sp(1) n(2) this disjI2 [OF n(5)] n(3,4)]
  show ?thesis using n f by blast
qed

lemma space_destroy_node:
  assumes "sound_space h pm b (n # ns) s"
  shows "\<exists>s'. destroy_node n s = Some s' \<and> sound_space h pm b ns s' \<and> page_view h pm s' = page_view h pm s \<and>
    pmm_free_count s' = pmm_free_count s \<and> pools s' VM_AREA_CLASS \<noteq> 0"
proof -
  obtain live G where sp: "address_space h pm s live G" "has_nodes (n # ns) live" "balance b s (card (dom G)) (length (n # ns))"
    using assms(1) by (auto simp: sound_space_def)
  have st: "store_ok h s live" using sp(1) by (simp add: address_space_def space_ok_def)
  let ?live = "remove1 (node_block n) live"
  obtain s' where n: "destroy_node n s = Some s'" "store_ok h s' ?live" "has_nodes ns ?live"
    "balance b s' (card (dom G)) (length ns)" "same_blocks ?live s s'" "pmm_free_count s' = pmm_free_count s" "pools s' VM_AREA_CLASS \<noteq> 0"
    using node_release [OF st sp(2,3)] by (elim exE conjE) (rule that)
  have "(p, PAGE_SIZE) \<in> set live \<Longrightarrow> (p, PAGE_SIZE) \<in> set ?live" for p using node_not_page [of n p] in_set_remove1 by metis
  note f = sound_space_frame [OF sp(1) n(2) this disjI2 [OF n(5)] n(3,4)]
  show ?thesis using n f by blast
qed

text \<open>\<open>vm_clear_for_insert\<close> on a sound address space: it needs one node and keeps it when it splits an area.\<close>

lemma clear_for_insert_ok:
  assumes sp: "sound_space h pm b (map va_node xs) s" and ok: "areas_ok xs" "a < e" and some: "\<not> exhausted VM_AREA_CLASS s"
  shows "\<exists>ps qs s'. vm_clear_for_insert a e xs s = Some (Inr (ps, qs), s') \<and> areas_ok (ps @ qs) \<and>
    (\<forall>t. flags_at (ps @ qs) t = (if a \<le> t \<and> t < e then None else flags_at xs t)) \<and>
    ((\<forall>x\<in>set xs. find_overlap x a e \<noteq> Contains) \<longrightarrow>
      (\<forall>x\<in>set ps. va_end x \<le> a) \<and> (\<forall>x\<in>set qs. e \<le> va_begin x) \<and> pools s' VM_AREA_CLASS \<noteq> 0) \<and>
    sound_space h pm b (map va_node (ps @ qs)) s' \<and> page_view h pm s' = page_view h pm s \<and>
    pmm_free_count s = pmm_free_count s' + fresh_page VM_AREA_CLASS s"
proof -
  obtain n s1 where n: "make_node s = Some (Inr n, s1)" "n \<noteq> 0" "sound_space h pm b (n # map va_node xs) s1"
    "page_view h pm s1 = page_view h pm s" "pmm_free_count s = pmm_free_count s1 + fresh_page VM_AREA_CLASS s"
    using space_make_node [OF sp some] by blast
  obtain ps qs where c: "cut_areas a e n xs ps qs" "areas_ok (ps @ qs)"
    "\<forall>t. flags_at (ps @ qs) t = (if a \<le> t \<and> t < e then None else flags_at xs t)"
    "(\<forall>x\<in>set xs. find_overlap x a e \<noteq> Contains) \<longrightarrow> (\<forall>x\<in>set ps. va_end x \<le> a) \<and> (\<forall>x\<in>set qs. e \<le> va_begin x)"
    using clear_areas_correct [OF ok n(2)] by blast
  obtain gone left where g: "\<And>s. clear_areas a e n xs s = map_option (\<lambda>s. (left, ps, qs, s)) (mfold free_node gone s)"
    "left = n \<or> left = 0 \<and> (\<exists>x\<in>set xs. find_overlap x a e = Contains)"
    "mset (n # map va_node xs) = mset (map va_node (ps @ qs)) + mset gone + (if left = 0 then {#} else {#left#})"
    using c(1) unfolding cut_areas_def by blast
  let ?rest = "(if left = 0 then [] else [left]) @ map va_node (ps @ qs)"
  have "mset (n # map va_node xs) = mset gone + mset ?rest" unfolding g(3) by simp
  from space_release_nodes [OF n(3) this] obtain s2 where s2: "mfold free_node gone s1 = Some s2" "sound_space h pm b ?rest s2"
    "page_view h pm s2 = page_view h pm s1" "pmm_free_count s2 = pmm_free_count s1" by blast
  have run: "vm_clear_for_insert a e xs s = destroy_node left s2 \<bind> (\<lambda>s. Some (Inr (ps, qs), s))"
    by (simp add: vm_clear_for_insert_def n(1) g(1) s2(1))
  show ?thesis
  proof (cases "left = 0")
    case True
    then have "destroy_node left s2 = Some s2" by (simp add: destroy_node_def owned_destroy_def)
    then show ?thesis using run c(2-4) s2 n(2,4,5) g(2) True by auto
  next
    case False
    then have "sound_space h pm b (left # map va_node (ps @ qs)) s2" using s2(2) by simp
    from space_destroy_node [OF this] obtain s3 where "destroy_node left s2 = Some s3" "sound_space h pm b (map va_node (ps @ qs)) s3"
      "page_view h pm s3 = page_view h pm s2" "pmm_free_count s3 = pmm_free_count s2" "pools s3 VM_AREA_CLASS \<noteq> 0" by blast
    then show ?thesis using run c(2-4) s2(3,4) n(4,5) by (intro exI [of _ ps] exI [of _ qs] exI [of _ s3]) simp
  qed
qed

section \<open>Areas and tables in step\<close>

text \<open>The permissions the area list promises; an area without permissions has no pages.\<close>

definition area_view :: "vm_area list \<Rightarrow> u64 \<Rightarrow> u64 option" where
  "area_view xs a = (case flags_at xs a of None \<Rightarrow> None | Some f \<Rightarrow> if f = 0 then None else Some (entry_flags 0 f))"

definition vm_ok :: "u64 \<Rightarrow> mem_state \<Rightarrow> vm \<Rightarrow> mem_state \<Rightarrow> bool" where
  "vm_ok h b v s \<longleftrightarrow> areas_ok (vm_areas v) \<and> sound_space h (vm_page_map v) b (map va_node (vm_areas v)) s \<and>
     page_view h (vm_page_map v) s = area_view (vm_areas v)"

lemma prot_to_mode_0 [simp]: "prot_to_mode prot = 0 \<longleftrightarrow> prot = 0"
proof
  assume m: "prot_to_mode prot = 0"
  show "prot = 0"
  proof (rule ccontr)
    assume "prot \<noteq> 0"
    then have "prot_to_mode prot AND MMU_MODE_USER = MMU_MODE_USER"
      by (auto simp: prot_to_mode_def Let_def MMU_MODE_USER_def MMU_MODE_EXEC_def MMU_MODE_WRITE_def bit.conj_disj_distrib2)
    then show False using m by (simp add: MMU_MODE_USER_def)
  qed
qed (simp add: prot_to_mode_def Let_def)

lemma valid_user_range:
  assumes valid: "assert_valid a l = Some ()" and nr: "\<not> (ADDR_MAX \<le> a \<or> ADDR_MAX < a + l)"
  shows "user_range a l" "x \<in> addr_range a l \<longleftrightarrow> a \<le> x \<and> x < a + l"
proof -
  have mask: "page_aligned (unat w)" if "page_aligned64 w" for w
  proof -
    have m: "(word_of_nat (PAGE_SIZE - 1) :: u64) = mask 12" by (simp add: PAGE_SIZE_def mask_eq_exp_minus_1)
    have "take_bit 12 w = 0" using that unfolding page_aligned64_def m by (simp add: take_bit_eq_mask)
    then have "take_bit 12 (unat w) = 0" by (metis unsigned_take_bit_eq unsigned_0)
    then show ?thesis by (simp add: page_aligned_def PAGE_SIZE_def take_bit_eq_mod)
  qed
  have al: "page_aligned64 a" "page_aligned64 l" using valid by (auto simp: assert_valid_def kassert_def split: if_splits)
  have "unat a + unat l \<le> MEM_LOW_HALF_MAX"
    using in_range_sum(2,3) [OF nr valid] by (simp add: ADDR_MAX_def MEM_LOW_HALF_MAX_def word_le_nat_alt)
  then show "user_range a l" using mask al valid_length [OF valid] by (simp add: user_range_def)
  show "x \<in> addr_range a l \<longleftrightarrow> a \<le> x \<and> x < a + l"
    using in_range_sum(3) [OF nr valid] by (auto simp: addr_range_def word_le_nat_alt word_less_nat_alt)
qed

lemma insert_gap:
  assumes "areas_ok xs" "a < e" "insert_pos a e xs = Some (ps, qs)" "a \<le> t" "t < e"
  shows "flags_at xs t = None"
proof -
  have s: "xs = ps @ qs" "\<forall>x\<in>set ps. va_end x \<le> a" "\<forall>x\<in>set qs. e \<le> va_begin x"
    using insert_pos_correct [OF assms(1,2)] assms(3) by auto
  show ?thesis unfolding s(1)
  proof (rule flags_at_outside)
    fix x assume "x \<in> set (ps @ qs)"
    then consider "va_end x \<le> a" | "e \<le> va_begin x" using s(2,3) by auto
    then show "\<not> (va_begin x \<le> t \<and> t < va_end x)" using assms(4,5) by cases auto
  qed
qed

lemma map_area_in_step:
  assumes sp: "sound_space h pm b ns s" and v: "page_view h pm s = area_view xs" and r: "user_range a l"
    and un: "\<forall>t\<in>addr_range a l. area_view xs t = None" and n: "4 * pages_of l \<le> pmm_free_count s"
    and new: "\<forall>t. flags_at xs' t = (if t \<in> addr_range a l then Some (prot_to_mode prot) else flags_at xs t)"
  shows "\<exists>s'. map_area h pm a l prot s = Some s' \<and> sound_space h pm b ns s' \<and> page_view h pm s' = area_view xs' \<and>
    pmm_free_count s \<le> pmm_free_count s' + 4 * pages_of l"
proof (cases "prot = 0")
  case True
  have "area_view xs' t = area_view xs t" for t using new un True by (auto simp: area_view_def prot_to_mode_def)
  then show ?thesis using True sp v by (auto simp: map_area_def)
next
  case False
  have "\<forall>t\<in>addr_range a l. page_view h pm s t = None" using un v by simp
  from tables.map_range [OF sp r this n, of "prot_to_mode prot"] obtain s' where
    s': "mmu_assign h pm a l (prot_to_mode prot) 0 s = Some s'" "sound_space h pm b ns s'" "pmm_free_count s \<le> pmm_free_count s' + 4 * pages_of l"
    "page_view h pm s' = (\<lambda>x. if x \<in> addr_range a l then Some (entry_flags 0 (prot_to_mode prot)) else page_view h pm s x)" by blast
  have "page_view h pm s' t = area_view xs' t" for t
    unfolding s'(4) v using new False by (auto simp: area_view_def)
  then show ?thesis using s'(1-3) False by (auto simp: map_area_def)
qed

lemma noreplace_keeps:
  assumes ok: "vm_ok h b v s" and valid: "assert_valid address len = Some ()"
    and n: "4 * pages_of len + fresh_page VM_AREA_CLASS s \<le> pmm_free_count s \<or> exhausted VM_AREA_CLASS s"
  shows "\<exists>r v' s'. vm_alloc_fixed_noreplace h address len prot v s = Some (r, v', s') \<and> vm_ok h b v' s' \<and>
    vm_page_map v' = vm_page_map v \<and> pmm_free_count s \<le> pmm_free_count s' + 4 * pages_of len + fresh_page VM_AREA_CLASS s \<and>
    (case r of
       Inr _ \<Rightarrow> \<forall>t. (address \<le> t \<and> t < address + len \<longrightarrow> flags_at (vm_areas v) t = None) \<and>
         flags_at (vm_areas v') t = (if address \<le> t \<and> t < address + len then Some (prot_to_mode prot) else flags_at (vm_areas v) t)
     | Inl e \<Rightarrow> v' = v \<and> (e = EINVAL \<and> range_invalid address len \<and> s' = s \<or> e = ENOMEM \<and> exhausted VM_AREA_CLASS s \<and> s' = s \<or>
         e = EEXIST \<and> (\<exists>t. address \<le> t \<and> t < address + len \<and> flags_at (vm_areas v) t \<noteq> None)))"
proof (cases "range_invalid address len \<or> exhausted VM_AREA_CLASS s")
  case True
  have sp: "sound_space h (vm_page_map v) b (map va_node (vm_areas v)) s" using ok by (simp add: vm_ok_def)
  show ?thesis using True valid ok space_exhausted [OF sp]
    by (cases "range_invalid address len") (auto simp: vm_alloc_fixed_noreplace_def vm_insert_area_def)
next
  case False
  note o = ok [unfolded vm_ok_def]
  let ?pm = "vm_page_map v" and ?xs = "vm_areas v"
  have nr: "\<not> (ADDR_MAX \<le> address \<or> ADDR_MAX < address + len)" and some: "\<not> exhausted VM_AREA_CLASS s"
    and inr: "\<not> range_invalid address len" using False by (simp_all add: range_invalid_def)
  note lt = in_range_sum [OF nr valid] and ur = valid_user_range [OF valid nr]
  obtain m s1 where m: "make_node s = Some (Inr m, s1)" "sound_space h ?pm b (m # map va_node ?xs) s1"
    "page_view h ?pm s1 = page_view h ?pm s" "pmm_free_count s = pmm_free_count s1 + fresh_page VM_AREA_CLASS s"
    using space_make_node [OF _ some] o by blast
  show ?thesis
  proof (cases "insert_pos address (address + len) ?xs")
    case None
    obtain s2 where s2: "destroy_node m s1 = Some s2" "sound_space h ?pm b (map va_node ?xs) s2" "page_view h ?pm s2 = page_view h ?pm s1"
      "pmm_free_count s2 = pmm_free_count s1" using space_destroy_node [OF m(2)] by blast
    have "vm_alloc_fixed_noreplace h address len prot v s = Some (Inl EEXIST, v, s2)"
      using valid inr None m(1) s2(1) by (simp add: vm_alloc_fixed_noreplace_def vm_insert_area_def)
    moreover have "vm_ok h b v s2" using o s2(2,3) m(3) by (simp add: vm_ok_def)
    moreover have "\<exists>t. address \<le> t \<and> t < address + len \<and> flags_at ?xs t \<noteq> None"
      using insert_pos_correct [of ?xs address "address + len"] o lt(1) None by simp
    ultimately show ?thesis using m(4) s2(4) by (intro exI [of _ "Inl EEXIST"] exI [of _ v] exI [of _ s2]) auto
  next
    case (Some pq)
    obtain ps qs where ip: "insert_pos address (address + len) ?xs = Some (ps, qs)" using Some by (cases pq) auto
    have s: "?xs = ps @ qs" "\<And>x. x \<in> set ps \<Longrightarrow> va_end x \<le> address" "\<And>x. x \<in> set qs \<Longrightarrow> address + len \<le> va_begin x"
      using insert_pos_correct [of ?xs address "address + len"] o lt(1) ip by auto
    define xs where "xs = ps @ new_area m address len prot # qs"
    have xs: "areas_ok xs" "\<forall>t. flags_at xs t = (if t \<in> addr_range address len then Some (prot_to_mode prot) else flags_at ?xs t)"
      using place_area [of ps qs "new_area m address len prot"] o s lt(1,2) unfolding xs_def ur(2) by auto
    have gap: "flags_at ?xs t = None" if "address \<le> t" "t < address + len" for t using insert_gap [OF _ lt(1) ip that] o by blast
    then have un: "\<forall>t\<in>addr_range address len. area_view ?xs t = None" by (auto simp: area_view_def ur(2))
    have sp1: "sound_space h ?pm b (map va_node xs) s1" by (rule sound_space_perm [OF m(2)]) (simp add: xs_def s(1))
    have v1: "page_view h ?pm s1 = area_view ?xs" using m(3) o by simp
    have n1: "4 * pages_of len \<le> pmm_free_count s1" using n some m(4) by simp
    obtain s' where s': "map_area h ?pm address len prot s1 = Some s'" "sound_space h ?pm b (map va_node xs) s'"
      "page_view h ?pm s' = area_view xs" "pmm_free_count s1 \<le> pmm_free_count s' + 4 * pages_of len"
      using map_area_in_step [OF sp1 v1 ur(1) un n1 xs(2)] by blast
    have "vm_alloc_fixed_noreplace h address len prot v s = Some (Inr (), v\<lparr>vm_areas := xs\<rparr>, s')"
      using valid inr ip m(1) s'(1) by (simp add: vm_alloc_fixed_noreplace_def vm_insert_area_def xs_def)
    moreover have "vm_ok h b (v\<lparr>vm_areas := xs\<rparr>) s'" using xs(1) s'(2,3) by (simp add: vm_ok_def)
    ultimately show ?thesis using xs(2) gap m(4) s'(4)
      by (intro exI [of _ "Inr ()"] exI [of _ "v\<lparr>vm_areas := xs\<rparr>"] exI [of _ s']) (simp add: ur(2))
  qed
qed

text \<open>C4. Mapping without replacement never panics and keeps the page tables in step with the area list: from a
  consistent \<open>VM\<close>, when there are four free pages for each page of the range and, if the pool of area nodes is empty, one
  more for a node (or no memory for a node at all), \<open>VM::alloc_fixed_noreplace\<close> of a page-aligned range of positive length
  returns, either with the whole range added to the area list and the page tables, or with an error, the area list and the
  mapping as they were. \<open>EINVAL\<close> is returned only for a range outside user space, \<open>ENOMEM\<close> only when there is no memory for a
  node, both with the memory untouched, and \<open>EEXIST\<close> only when some address of the range was taken. No page is lost: what
  the page allocator, the page tables and the pool of nodes hold adds up as before, and every node in use belongs to an area.\<close>

theorem vm_noreplace_in_step:
  assumes ok: "vm_ok h b v s" and valid: "assert_valid address len = Some ()"
    and n: "4 * pages_of len + fresh_page VM_AREA_CLASS s \<le> pmm_free_count s \<or> exhausted VM_AREA_CLASS s"
  shows "\<exists>r v' s'. vm_alloc_fixed_noreplace h address len prot v s = Some (r, v', s') \<and> vm_ok h b v' s' \<and>
    (case r of
       Inr _ \<Rightarrow> \<forall>t. (address \<le> t \<and> t < address + len \<longrightarrow> flags_at (vm_areas v) t = None) \<and>
         flags_at (vm_areas v') t = (if address \<le> t \<and> t < address + len then Some (prot_to_mode prot) else flags_at (vm_areas v) t)
     | Inl e \<Rightarrow> v' = v \<and> (e = EINVAL \<and> range_invalid address len \<and> s' = s \<or> e = ENOMEM \<and> exhausted VM_AREA_CLASS s \<and> s' = s \<or>
         e = EEXIST \<and> (\<exists>t. address \<le> t \<and> t < address + len \<and> flags_at (vm_areas v) t \<noteq> None)))"
proof -
  obtain r v' s' where "vm_alloc_fixed_noreplace h address len prot v s = Some (r, v', s')" "vm_ok h b v' s'"
    "case r of
       Inr _ \<Rightarrow> \<forall>t. (address \<le> t \<and> t < address + len \<longrightarrow> flags_at (vm_areas v) t = None) \<and>
         flags_at (vm_areas v') t = (if address \<le> t \<and> t < address + len then Some (prot_to_mode prot) else flags_at (vm_areas v) t)
     | Inl e \<Rightarrow> v' = v \<and> (e = EINVAL \<and> range_invalid address len \<and> s' = s \<or> e = ENOMEM \<and> exhausted VM_AREA_CLASS s \<and> s' = s \<or>
         e = EEXIST \<and> (\<exists>t. address \<le> t \<and> t < address + len \<and> flags_at (vm_areas v) t \<noteq> None))"
    using noreplace_keeps [OF ok valid n, of prot] by (elim exE conjE) (rule that)
  then show ?thesis by (intro exI [of _ r] exI [of _ v'] exI [of _ s'] conjI)
qed

lemma free_keeps:
  assumes ok: "vm_ok h b v s" and valid: "assert_valid address len = Some ()"
  shows "\<exists>r v' s'. vm_free h address len v s = Some (r, v', s') \<and> vm_ok h b v' s' \<and>
    vm_page_map v' = vm_page_map v \<and> pmm_free_count s \<le> pmm_free_count s' + fresh_page VM_AREA_CLASS s \<and>
    (case r of
       Inr _ \<Rightarrow> \<forall>t. flags_at (vm_areas v') t = (if address \<le> t \<and> t < address + len then None else flags_at (vm_areas v) t)
     | Inl e \<Rightarrow> v' = v \<and> s' = s \<and> (e = EINVAL \<and> (ADDR_MAX \<le> address \<or> ADDR_MAX < address + len) \<or>
         e = ENOMEM \<and> exhausted VM_AREA_CLASS s))"
proof (cases "(ADDR_MAX \<le> address \<or> ADDR_MAX < address + len) \<or> exhausted VM_AREA_CLASS s")
  case True
  have sp: "sound_space h (vm_page_map v) b (map va_node (vm_areas v)) s" using ok by (simp add: vm_ok_def)
  show ?thesis using True valid ok space_exhausted [OF sp]
    by (cases "ADDR_MAX \<le> address \<or> ADDR_MAX < address + len") (auto simp: vm_free_def vm_clear_for_insert_def)
next
  case False
  note o = ok [unfolded vm_ok_def]
  let ?pm = "vm_page_map v"
  have nr: "\<not> (ADDR_MAX \<le> address \<or> ADDR_MAX < address + len)" and some: "\<not> exhausted VM_AREA_CLASS s" using False by auto
  note lt = in_range_sum [OF nr valid] and ur = valid_user_range [OF valid nr]
  obtain ps qs s1 where c: "vm_clear_for_insert address (address + len) (vm_areas v) s = Some (Inr (ps, qs), s1)" "areas_ok (ps @ qs)"
    "\<forall>t. flags_at (ps @ qs) t = (if address \<le> t \<and> t < address + len then None else flags_at (vm_areas v) t)"
    "sound_space h ?pm b (map va_node (ps @ qs)) s1" "page_view h ?pm s1 = page_view h ?pm s"
    "pmm_free_count s = pmm_free_count s1 + fresh_page VM_AREA_CLASS s"
    using clear_for_insert_ok [OF _ _ lt(1) some, of h ?pm b "vm_areas v"] o by blast
  obtain s' where s': "mmu_clear h ?pm address len s1 = Some s'" "sound_space h ?pm b (map va_node (ps @ qs)) s'"
    "pmm_free_count s1 \<le> pmm_free_count s'"
    "page_view h ?pm s' = (\<lambda>x. if x \<in> addr_range address len then None else page_view h ?pm s1 x)"
    using tables.unmap_range [OF c(4) ur(1)] by blast
  have "page_view h ?pm s' t = area_view (ps @ qs) t" for t
    unfolding s'(4) c(5) using o c(3) by (auto simp: area_view_def ur(2))
  then have "vm_ok h b (v\<lparr>vm_areas := ps @ qs\<rparr>) s'" using c(2) s'(2) by (auto simp: vm_ok_def)
  moreover have "vm_free h address len v s = Some (Inr (), v\<lparr>vm_areas := ps @ qs\<rparr>, s')"
    using nr valid c(1) s'(1) by (simp add: vm_free_def)
  ultimately show ?thesis using c(3,6) s'(3)
    by (intro exI [of _ "Inr ()"] exI [of _ "v\<lparr>vm_areas := ps @ qs\<rparr>"] exI [of _ s']) simp
qed

text \<open>C5. Unmapping never panics: from a consistent \<open>VM\<close>, \<open>VM::free\<close> of any aligned range returns; unless it fails
  with \<open>EINVAL\<close> (a range beyond user space) or \<open>ENOMEM\<close> (no memory for an area node), changing nothing, exactly the
  addresses of the range have lost their areas and their pages, and the pages are free again.\<close>

theorem vm_free_in_step:
  assumes ok: "vm_ok h b v s" and valid: "assert_valid address len = Some ()"
  shows "\<exists>r v' s'. vm_free h address len v s = Some (r, v', s') \<and> vm_ok h b v' s' \<and>
    (case r of
       Inr _ \<Rightarrow> \<forall>t. flags_at (vm_areas v') t = (if address \<le> t \<and> t < address + len then None else flags_at (vm_areas v) t)
     | Inl e \<Rightarrow> v' = v \<and> s' = s \<and> (e = EINVAL \<and> (ADDR_MAX \<le> address \<or> ADDR_MAX < address + len) \<or>
         e = ENOMEM \<and> exhausted VM_AREA_CLASS s))"
  using free_keeps [OF ok valid] by blast

text \<open>C14. Mapping over what was there, a page-aligned range of positive length inside user space that does not lie strictly
  inside one area: if there are four free pages for each page of the range and, when the pool of area nodes is empty, one more
  for a node, \<open>VM::alloc_fixed_overwrite\<close> succeeds and never panics. The range gets the new permissions in the area list and
  in the page tables, everything else stays. No page is lost: what the page allocator, the page tables and the pool of nodes
  hold adds up as before, and every node in use belongs to an area.\<close>

theorem vm_overwrite_in_step:
  assumes ok: "vm_ok h b v s" and valid: "assert_valid address len = Some ()" and inr: "\<not> range_invalid address len"
    and notin: "\<forall>x\<in>set (vm_areas v). find_overlap x address (address + len) \<noteq> Contains"
    and n: "4 * pages_of len + fresh_page VM_AREA_CLASS s \<le> pmm_free_count s"
  shows "\<exists>v' s'. vm_alloc_fixed_overwrite h address len prot v s = Some (Inr (), v', s') \<and> vm_ok h b v' s' \<and>
    (\<forall>t. flags_at (vm_areas v') t = (if address \<le> t \<and> t < address + len then Some (prot_to_mode prot) else flags_at (vm_areas v) t))"
proof -
  note o = ok [unfolded vm_ok_def]
  have nr: "\<not> (ADDR_MAX \<le> address \<or> ADDR_MAX < address + len)" using inr by (simp add: range_invalid_def)
  note lt = in_range_sum [OF nr valid] and ur = valid_user_range [OF valid nr]
  let ?pm = "vm_page_map v"
  have some: "\<not> exhausted VM_AREA_CLASS s" using n valid_length [OF valid] by (auto simp: exhausted_def fresh_page_def split: if_splits)
  obtain ps qs s1 where c: "vm_clear_for_insert address (address + len) (vm_areas v) s = Some (Inr (ps, qs), s1)" "areas_ok (ps @ qs)"
    "\<forall>t. flags_at (ps @ qs) t = (if address \<le> t \<and> t < address + len then None else flags_at (vm_areas v) t)"
    "(\<forall>x\<in>set (vm_areas v). find_overlap x address (address + len) \<noteq> Contains) \<longrightarrow>
      (\<forall>x\<in>set ps. va_end x \<le> address) \<and> (\<forall>x\<in>set qs. address + len \<le> va_begin x) \<and> pools s1 VM_AREA_CLASS \<noteq> 0"
    "sound_space h ?pm b (map va_node (ps @ qs)) s1" "page_view h ?pm s1 = page_view h ?pm s"
    "pmm_free_count s = pmm_free_count s1 + fresh_page VM_AREA_CLASS s"
    using clear_for_insert_ok [OF conjunct1 [OF conjunct2 [OF o]] conjunct1 [OF o] lt(1) some] by (elim exE conjE) (rule that)
  have c4: "va_end x \<le> address" if "x \<in> set ps" for x using c(4) notin that by blast
  have c4': "address + len \<le> va_begin x" if "x \<in> set qs" for x using c(4) notin that by blast
  obtain s2 where s2: "mmu_clear h ?pm address len s1 = Some s2" "sound_space h ?pm b (map va_node (ps @ qs)) s2"
    "pmm_free_count s1 \<le> pmm_free_count s2"
    "page_view h ?pm s2 = (\<lambda>x. if x \<in> addr_range address len then None else page_view h ?pm s1 x)"
    using tables.unmap_range [OF c(5) ur(1)] by blast
  have pool: "pools s2 VM_AREA_CLASS \<noteq> 0" using c(4) notin mmu_heap(2) [OF s2(1)] by (simp add: heap_part_def)
  then have "\<not> exhausted VM_AREA_CLASS s2" by (simp add: exhausted_def)
  from space_make_node [OF s2(2) this] obtain m s3 where m: "make_node s2 = Some (Inr m, s3)"
    "sound_space h ?pm b (m # map va_node (ps @ qs)) s3" "page_view h ?pm s3 = page_view h ?pm s2"
    "pmm_free_count s2 = pmm_free_count s3" using pool by (auto simp: fresh_page_def)
  have v3: "page_view h ?pm s3 = area_view (ps @ qs)"
    unfolding m(3) s2(4) c(6) using o c(3) by (auto simp: area_view_def ur(2))
  define xs where "xs = ps @ new_area m address len prot # qs"
  have xs: "areas_ok xs" "\<forall>t. flags_at xs t = (if t \<in> addr_range address len then Some (prot_to_mode prot) else flags_at (ps @ qs) t)"
    using place_area [of ps qs "new_area m address len prot", OF c(2)] c4 c4' lt(1,2) unfolding xs_def ur(2) by auto
  have un: "\<forall>t\<in>addr_range address len. area_view (ps @ qs) t = None" using c(3) by (auto simp: area_view_def ur(2))
  have sp3: "sound_space h ?pm b (map va_node xs) s3" by (rule sound_space_perm [OF m(2)]) (simp add: xs_def)
  have n3: "4 * pages_of len \<le> pmm_free_count s3" using n c(7) s2(3) m(4) by simp
  obtain s4 where s4: "map_area h ?pm address len prot s3 = Some s4" "sound_space h ?pm b (map va_node xs) s4" "page_view h ?pm s4 = area_view xs"
    using map_area_in_step [OF sp3 v3 ur(1) un n3 xs(2)] by blast
  have "vm_alloc_fixed_overwrite h address len prot v s = Some (Inr (), v\<lparr>vm_areas := xs\<rparr>, s4)"
    using inr valid c(1) s2(1) m(1) s4(1) by (simp add: vm_alloc_fixed_overwrite_def xs_def)
  moreover have "vm_ok h b (v\<lparr>vm_areas := xs\<rparr>) s4" using xs(1) s4(2,3) by (simp add: vm_ok_def)
  moreover have "flags_at xs t = (if address \<le> t \<and> t < address + len then Some (prot_to_mode prot) else flags_at (vm_areas v) t)" for t
    using xs(2) c(3) by (simp add: ur(2))
  ultimately show ?thesis by (intro exI [of _ "v\<lparr>vm_areas := xs\<rparr>"] exI [of _ s4]) simp
qed


section \<open>The life of an address space\<close>

text \<open>A program's requests: mapping without replacement and unmapping.\<close>

datatype vm_op = Op_map u64 u64 u32 | Op_unmap u64 u64

fun vm_step :: "u64 \<Rightarrow> vm_op \<Rightarrow> vm \<times> mem_state \<Rightarrow> (vm \<times> mem_state) option" where
  "vm_step h (Op_map address len prot) (v, s) = map_option snd (vm_alloc_fixed_noreplace h address len prot v s)"
| "vm_step h (Op_unmap address len) (v, s) = map_option snd (vm_free h address len v s)"

fun vm_run :: "u64 \<Rightarrow> vm_op list \<Rightarrow> vm \<times> mem_state \<Rightarrow> (vm \<times> mem_state) option" where
  "vm_run h [] w = Some w"
| "vm_run h (x # xs) w = vm_step h x w \<bind> vm_run h xs"

fun op_valid :: "vm_op \<Rightarrow> bool" where
  "op_valid (Op_map address len prot) \<longleftrightarrow> assert_valid address len = Some ()"
| "op_valid (Op_unmap address len) \<longleftrightarrow> assert_valid address len = Some ()"

fun op_cost :: "vm_op \<Rightarrow> nat" where
  "op_cost (Op_map address len prot) = 4 * pages_of len + 1"
| "op_cost (Op_unmap address len) = 1"

lemma vm_run_keeps:
  "vm_ok h b v s \<Longrightarrow> \<forall>x\<in>set ops. op_valid x \<Longrightarrow> sum_list (map op_cost ops) \<le> pmm_free_count s \<Longrightarrow>
    \<exists>v' s'. vm_run h ops (v, s) = Some (v', s') \<and> vm_ok h b v' s' \<and> vm_page_map v' = vm_page_map v"
proof (induction ops arbitrary: v s)
  case (Cons x ops)
  note f1 = fresh_page_le [of VM_AREA_CLASS s]
  have "\<exists>v1 s1. vm_step h x (v, s) = Some (v1, s1) \<and> vm_ok h b v1 s1 \<and> vm_page_map v1 = vm_page_map v \<and>
    pmm_free_count s \<le> pmm_free_count s1 + op_cost x"
  proof (cases x)
    case (Op_map a l p)
    then have v: "assert_valid a l = Some ()" and n: "4 * pages_of l + fresh_page VM_AREA_CLASS s \<le> pmm_free_count s"
      using Cons.prems f1 by simp_all
    obtain r v1 s1 where "vm_alloc_fixed_noreplace h a l p v s = Some (r, v1, s1)" "vm_ok h b v1 s1" "vm_page_map v1 = vm_page_map v"
      "pmm_free_count s \<le> pmm_free_count s1 + 4 * pages_of l + fresh_page VM_AREA_CLASS s"
      using noreplace_keeps [OF Cons.prems(1) v disjI1 [OF n], of p] by (elim exE conjE) (rule that)
    then show ?thesis using Op_map f1 by (intro exI [of _ v1] exI [of _ s1]) simp
  next
    case (Op_unmap a l)
    then have v: "assert_valid a l = Some ()" using Cons.prems by simp
    obtain r v1 s1 where "vm_free h a l v s = Some (r, v1, s1)" "vm_ok h b v1 s1" "vm_page_map v1 = vm_page_map v"
      "pmm_free_count s \<le> pmm_free_count s1 + fresh_page VM_AREA_CLASS s"
      using free_keeps [OF Cons.prems(1) v] by (elim exE conjE) (rule that)
    then show ?thesis using Op_unmap f1 by (intro exI [of _ v1] exI [of _ s1]) simp
  qed
  then obtain v1 s1 where s1: "vm_step h x (v, s) = Some (v1, s1)" "vm_ok h b v1 s1" "vm_page_map v1 = vm_page_map v"
    "pmm_free_count s \<le> pmm_free_count s1 + op_cost x" by blast
  have "sum_list (map op_cost ops) \<le> pmm_free_count s1" using Cons.prems(3) s1(4) by simp
  from Cons.IH [OF s1(2) _ this] Cons.prems(2) s1 show ?case by auto
qed simp

text \<open>Destroying a \<open>VM\<close> gives back its pages and its nodes.\<close>

lemma destroy_balances:
  assumes sp: "sound_space h (vm_page_map v) b (map va_node (vm_areas v)) s" and cur: "vm_page_map v \<noteq> cr3"
  shows "\<exists>s'. vm_destroy h cr3 v s = Some (\<lparr>vm_page_map = 0, vm_areas = []\<rparr>, s') \<and> balance b s' 0 0"
proof -
  let ?pm = "vm_page_map v" and ?ns = "map va_node (vm_areas v)"
  obtain live G where i: "address_space h ?pm s live G" "has_nodes ?ns live" "balance b s (card (dom G)) (length ?ns)"
    using sp by (auto simp: sound_space_def)
  obtain s1 live1 where d: "mmu_destroy_address_space h cr3 ?pm s = Some s1" "store_ok h s1 live1"
    "set live1 = set live - (\<lambda>q. (q, PAGE_SIZE)) ` dom G" "pmm_free_count s1 = pmm_free_count s + card (dom G)"
    using space_destroy [OF i(1) cur] by blast
  have "has_nodes ?ns live1"
    by (rule has_nodes_mono [OF i(2)]) (use i(2) d(3) node_not_page in \<open>auto simp: has_nodes_def\<close>)
  moreover have "balance b s1 0 (length ?ns)" using balance_pages [OF i(3) mmu_heap(4) [OF d(1)]] d(4) by simp
  ultimately obtain s2 where "mfold free_node ?ns s1 = Some s2" "balance b s2 0 (length ([] :: nat list))"
    using nodes_release [OF d(2), of ?ns "[]"] unfolding append_Nil2 by blast
  then show ?thesis using d(1) by (simp add: vm_destroy_def)
qed

text \<open>C1. Nothing is leaked over the life of an address space: \<open>VM\<close> creation, any sequence of requests to map without
  replacement and to unmap (page-aligned ranges of positive length, successful or not), and destruction all run without a panic
  when there is one free page for the top table, four for each page to be mapped and one for each request. At the end no area
  node is in use that was not before, and every page is either free again or cut into free blocks of the pool of area
  nodes, which never gives a page back: the bytes of the free pages and of that pool add up to what they were, and the
  pools of the other size classes are untouched.\<close>

theorem vm_life_loses_nothing:
  assumes st: "store_ok h s live" and cur: "(phys_to_virt h cr3, PAGE_SIZE) \<in> set live"
    and valid: "\<forall>x\<in>set ops. op_valid x" and n: "1 + sum_list (map op_cost ops) \<le> pmm_free_count s"
  shows "\<exists>v0 s0 v1 s1 v2 s2. vm_init h cr3 \<lparr>vm_page_map = 0, vm_areas = []\<rparr> s = Some (v0, s0) \<and>
    vm_run h ops (v0, s0) = Some (v1, s1) \<and> vm_destroy h cr3 v1 s1 = Some (v2, s2) \<and>
    pmm_free_count s2 * PAGE_SIZE + class_size VM_AREA_CLASS * stat_total s2 VM_AREA_CLASS =
      pmm_free_count s * PAGE_SIZE + class_size VM_AREA_CLASS * stat_total s VM_AREA_CLASS \<and>
    in_use s2 VM_AREA_CLASS = in_use s VM_AREA_CLASS \<and>
    (\<forall>c. c \<noteq> VM_AREA_CLASS \<longrightarrow> pools s2 c = pools s c \<and> stat_total s2 c = stat_total s c \<and> stat_free s2 c = stat_free s c)"
proof -
  have n0: "0 < pmm_free_count s" using n by simp
  obtain pm s0 where c: "mmu_create_address_space h cr3 0 s = Some (pm, s0)"
    "address_space h pm s0 ((phys_to_virt h pm, PAGE_SIZE) # live) [phys_to_virt h pm \<mapsto> (4, 0)]"
    "\<forall>a. unat a < MEM_LOW_HALF_MAX \<longrightarrow> user_entry h pm a s0 = 0 \<and> virt_to_phys h pm a s0 = 0"
    "pmm_free_count s = Suc (pmm_free_count s0)" "\<forall>n. (phys_to_virt h pm, n) \<notin> set live"
    using space_create [OF st n0 cur] by (elim exE conjE) (rule that)
  define v0 where "v0 = \<lparr>vm_page_map = pm, vm_areas = []\<rparr>"
  have "balance s s0 (card (dom [phys_to_virt h pm \<mapsto> (4 :: nat, 0 :: nat)])) (length ([] :: nat list))"
    using balance_pages [OF balance_refl mmu_heap(3) [OF c(1)], of 1] c(4) by simp
  then have "sound_space h pm s [] s0"
    unfolding sound_space_def using c(2) has_nodes_def by (metis distinct.simps(1) empty_iff empty_set)
  moreover have "page_view h pm s0 = area_view []" using c(3) by (auto simp: page_view_def area_view_def)
  ultimately have ok: "vm_ok h s v0 s0" by (simp add: vm_ok_def v0_def)
  have "sum_list (map op_cost ops) \<le> pmm_free_count s0" using n c(4) by simp
  from vm_run_keeps [OF ok valid this] obtain v1 s1 where r: "vm_run h ops (v0, s0) = Some (v1, s1)"
    "vm_ok h s v1 s1" "vm_page_map v1 = pm" by (auto simp: v0_def)
  have "pm \<noteq> cr3" using c(5) cur by auto
  then obtain s2 where d: "vm_destroy h cr3 v1 s1 = Some (\<lparr>vm_page_map = 0, vm_areas = []\<rparr>, s2)" "balance s s2 0 0"
    using destroy_balances [of h v1 s s1 cr3] r(2,3) by (auto simp: vm_ok_def)
  have i: "vm_init h cr3 \<lparr>vm_page_map = 0, vm_areas = []\<rparr> s = Some (v0, s0)" using c(1) by (simp add: vm_init_def v0_def)
  have "pmm_free_count s2 * PAGE_SIZE + class_size VM_AREA_CLASS * stat_total s2 VM_AREA_CLASS =
      pmm_free_count s * PAGE_SIZE + class_size VM_AREA_CLASS * stat_total s VM_AREA_CLASS"
    "in_use s2 VM_AREA_CLASS = in_use s VM_AREA_CLASS"
    "\<forall>c. c \<noteq> VM_AREA_CLASS \<longrightarrow> pools s2 c = pools s c \<and> stat_total s2 c = stat_total s c \<and> stat_free s2 c = stat_free s c"
    using d(2) by (simp_all add: balance_def class_bytes_def other_classes_def)
  then show ?thesis using i r(1) d(1) by (intro exI conjI) assumption+
qed


section \<open>Small instances\<close>

lemma small_vm: "\<exists>b v s. vm_areas v = [] \<and> vm_ok small_h b v s \<and> pmm_free_count s = 9 \<and> pools s VM_AREA_CLASS = 0"
proof -
  obtain cr3 s where s: "store_ok small_h s [(phys_to_virt small_h cr3, PAGE_SIZE)]" "pmm_free_count s = 10" "pools s VM_AREA_CLASS = 0"
    using small_machine node_class by blast
  have n: "0 < pmm_free_count s" using s(2) by simp
  obtain pm s0 where c: "mmu_create_address_space small_h cr3 0 s = Some (pm, s0)"
    "address_space small_h pm s0 ((phys_to_virt small_h pm, PAGE_SIZE) # [(phys_to_virt small_h cr3, PAGE_SIZE)]) [phys_to_virt small_h pm \<mapsto> (4, 0)]"
    "\<forall>a. unat a < MEM_LOW_HALF_MAX \<longrightarrow> user_entry small_h pm a s0 = 0 \<and> virt_to_phys small_h pm a s0 = 0"
    "pmm_free_count s = Suc (pmm_free_count s0)"
    using space_create [OF s(1) n list.set_intros(1)] by (elim exE conjE) (rule that)
  have "balance s s0 (card (dom [phys_to_virt small_h pm \<mapsto> (4 :: nat, 0 :: nat)])) (length ([] :: nat list))"
    using balance_pages [OF balance_refl mmu_heap(3) [OF c(1)], of 1] c(4) by simp
  then have "sound_space small_h pm s [] s0"
    unfolding sound_space_def using c(2) has_nodes_def by (metis distinct.simps(1) empty_iff empty_set)
  moreover have "page_view small_h pm s0 = area_view []" using c(3) by (auto simp: page_view_def area_view_def)
  ultimately have "vm_ok small_h s \<lparr>vm_page_map = pm, vm_areas = []\<rparr> s0" by (simp add: vm_ok_def)
  moreover have "pools s0 VM_AREA_CLASS = 0" using mmu_heap(3) [OF c(1)] s(3) by (simp add: heap_part_def)
  ultimately show ?thesis using c(4) s(2)
    by (intro exI [of _ s] exI [of _ "\<lparr>vm_page_map = pm, vm_areas = []\<rparr>"] exI [of _ s0]) simp
qed

lemma small_valid: "assert_valid 0x400000 0x2000 = Some ()" "\<not> range_invalid 0x400000 0x2000"
  by (simp_all add: assert_valid_def page_aligned64_def PAGE_SIZE_def word_sless_alt range_invalid_def ADDR_MIN_def ADDR_MAX_def
      MEM_LOW_HALF_MAX_def)

theorem vm_noreplace_in_step_witness:
  "\<exists>v s v' s'. vm_alloc_fixed_noreplace small_h 0x400000 0x2000 3 v s = Some (Inr (), v', s') \<and>
    flags_at (vm_areas v') 0x401234 = Some (prot_to_mode 3)"
proof -
  obtain b v s where v: "vm_areas v = []" "vm_ok small_h b v s" "pmm_free_count s = 9" "pools s VM_AREA_CLASS = 0" using small_vm by blast
  have n: "4 * pages_of 0x2000 + fresh_page VM_AREA_CLASS s \<le> pmm_free_count s \<or> exhausted VM_AREA_CLASS s"
    using v(3,4) by (simp add: PAGE_SIZE_def fresh_page_def)
  obtain r v' s' where r: "vm_alloc_fixed_noreplace small_h 0x400000 0x2000 3 v s = Some (r, v', s')"
    "case r of
       Inr _ \<Rightarrow> \<forall>t. (0x400000 \<le> t \<and> t < 0x400000 + 0x2000 \<longrightarrow> flags_at (vm_areas v) t = None) \<and>
         flags_at (vm_areas v') t = (if 0x400000 \<le> t \<and> t < 0x400000 + 0x2000 then Some (prot_to_mode 3) else flags_at (vm_areas v) t)
     | Inl e \<Rightarrow> v' = v \<and> (e = EINVAL \<and> range_invalid 0x400000 0x2000 \<and> s' = s \<or> e = ENOMEM \<and> exhausted VM_AREA_CLASS s \<and> s' = s \<or>
         e = EEXIST \<and> (\<exists>t. 0x400000 \<le> t \<and> t < 0x400000 + 0x2000 \<and> flags_at (vm_areas v) t \<noteq> None))"
    using vm_noreplace_in_step [OF v(2) small_valid(1) n, of 3] by (elim exE conjE) (rule that)
  show ?thesis
  proof (cases r)
    case (Inl e)
    then show ?thesis using r(2) small_valid(2) v(1,3) by (simp add: exhausted_def)
  next
    case (Inr u)
    then have "flags_at (vm_areas v') 0x401234 = Some (prot_to_mode 3)" using r(2) by simp
    then show ?thesis using r(1) Inr by auto
  qed
qed

theorem vm_free_in_step_witness:
  "\<exists>v s v' s'. vm_free small_h 0x400000 0x2000 v s = Some (Inr (), v', s') \<and> flags_at (vm_areas v') 0x401234 = None"
proof -
  obtain b v s where v: "vm_ok small_h b v s" "pmm_free_count s = 9" using small_vm by blast
  obtain r v' s' where r: "vm_free small_h 0x400000 0x2000 v s = Some (r, v', s')"
    "case r of
       Inr _ \<Rightarrow> \<forall>t. flags_at (vm_areas v') t = (if 0x400000 \<le> t \<and> t < 0x400000 + 0x2000 then None else flags_at (vm_areas v) t)
     | Inl e \<Rightarrow> v' = v \<and> s' = s \<and> (e = EINVAL \<and> (ADDR_MAX \<le> 0x400000 \<or> ADDR_MAX < 0x400000 + 0x2000) \<or>
         e = ENOMEM \<and> exhausted VM_AREA_CLASS s)"
    using vm_free_in_step [OF v(1) small_valid(1)] by (elim exE conjE) (rule that)
  show ?thesis
  proof (cases r)
    case (Inl e)
    then show ?thesis using r(2) small_valid(2) v(2) by (simp add: range_invalid_def exhausted_def)
  next
    case (Inr u)
    then have "flags_at (vm_areas v') 0x401234 = None" using r(2) by simp
    then show ?thesis using r(1) Inr by auto
  qed
qed

theorem vm_overwrite_in_step_witness:
  "\<exists>v s v' s'. vm_alloc_fixed_overwrite small_h 0x400000 0x2000 1 v s = Some (Inr (), v', s') \<and>
    flags_at (vm_areas v') 0x401234 = Some (prot_to_mode 1)"
proof -
  obtain b v s where v: "vm_areas v = []" "vm_ok small_h b v s" "pmm_free_count s = 9" "pools s VM_AREA_CLASS = 0" using small_vm by blast
  have n: "4 * pages_of 0x2000 + fresh_page VM_AREA_CLASS s \<le> pmm_free_count s"
    "\<forall>x\<in>set (vm_areas v). find_overlap x 0x400000 (0x400000 + 0x2000) \<noteq> Contains"
    using v by (simp_all add: PAGE_SIZE_def fresh_page_def)
  obtain v' s' where "vm_alloc_fixed_overwrite small_h 0x400000 0x2000 1 v s = Some (Inr (), v', s')"
    "\<forall>t. flags_at (vm_areas v') t = (if 0x400000 \<le> t \<and> t < 0x400000 + 0x2000 then Some (prot_to_mode 1) else flags_at (vm_areas v) t)"
    using vm_overwrite_in_step [OF v(2) small_valid n(2,1), of 1] by (elim exE conjE) (rule that)
  then show ?thesis by (intro exI conjI) (assumption, simp)
qed

theorem vm_life_loses_nothing_witness:
  "\<exists>cr3 s v0 s0 v1 s1 v2 s2. vm_init small_h cr3 \<lparr>vm_page_map = 0, vm_areas = []\<rparr> s = Some (v0, s0) \<and>
    vm_run small_h [Op_map 0x400000 0x1000 3, Op_unmap 0x400000 0x1000] (v0, s0) = Some (v1, s1) \<and>
    vm_destroy small_h cr3 v1 s1 = Some (v2, s2) \<and> in_use s2 VM_AREA_CLASS = in_use s VM_AREA_CLASS \<and>
    pmm_free_count s2 * PAGE_SIZE + class_size VM_AREA_CLASS * stat_total s2 VM_AREA_CLASS =
      pmm_free_count s * PAGE_SIZE + class_size VM_AREA_CLASS * stat_total s VM_AREA_CLASS"
proof -
  obtain cr3 s where s: "store_ok small_h s [(phys_to_virt small_h cr3, PAGE_SIZE)]" "pmm_free_count s = 10"
    using small_machine by blast
  let ?ops = "[Op_map 0x400000 0x1000 3, Op_unmap 0x400000 0x1000]"
  have p: "(phys_to_virt small_h cr3, PAGE_SIZE) \<in> set [(phys_to_virt small_h cr3, PAGE_SIZE)]" "\<forall>x\<in>set ?ops. op_valid x"
    "1 + sum_list (map op_cost ?ops) \<le> pmm_free_count s"
    using s(2) by (simp_all add: assert_valid_def page_aligned64_def PAGE_SIZE_def word_sless_alt)
  from vm_life_loses_nothing [OF s(1) p] show ?thesis by blast
qed

end
