(* ===== verification/Module.thy ===== *)
theory Module
  imports Memory
begin

text \<open>
  Boot modules as files: \<open>kernel/src/user/module.cxx\<close>, and the search for a module by name of
  \<open>kernel/src/limine.c\<close>. The data of a module is kernel memory at \<open>mo_address\<close>; sizes and offsets are signed
  64-bit numbers.
\<close>

section \<open>Reading and seeking\<close>

record module =
  mo_address :: u64
  mo_size :: u64
  mo_offset :: u64

definition SEEK_SET :: u32 where "SEEK_SET = 1"
definition SEEK_CUR :: u32 where "SEEK_CUR = 2"
definition SEEK_END :: u32 where "SEEK_END = 3"

definition module_open :: "u64 \<Rightarrow> u64 \<Rightarrow> module option" where
  "module_open data sz = do { kassert (0 <s sz); Some \<lparr>mo_address = data, mo_size = sz, mo_offset = 0\<rparr> }"

definition module_read ::
    "translation \<Rightarrow> u64 \<Rightarrow> u64 \<Rightarrow> module \<Rightarrow> bytes \<Rightarrow> ((errno + u64) \<times> module \<times> bytes) option" where
  "module_read tr dest len mo m = do {
     kassert (0 <s len);
     let left = mo_size mo - mo_offset mo;
     let n = (if len <s left then len else left);
     if n = 0 then Some (Inr 0, mo, m)
     else do {
       (e, m) \<leftarrow> copy_to_user tr dest (mo_address mo + mo_offset mo) n m;
       case e of
         Some e \<Rightarrow> Some (Inl e, mo, m)
       | None \<Rightarrow> Some (Inr n, mo\<lparr>mo_offset := mo_offset mo + n\<rparr>, m)
     }
   }"

definition module_seek :: "u64 \<Rightarrow> u32 \<Rightarrow> module \<Rightarrow> (errno + u64) \<times> module" where
  "module_seek offset whence mo =
     (if whence = SEEK_SET \<or> whence = SEEK_CUR \<or> whence = SEEK_END then
        (let offset = (if whence = SEEK_CUR then offset + mo_offset mo
                       else if whence = SEEK_END then offset + mo_size mo else offset) in
         if offset <s 0 \<or> mo_size mo <s offset then (Inl EINVAL, mo)
         else (Inr offset, mo\<lparr>mo_offset := offset\<rparr>))
      else (Inl EINVAL, mo))"

section \<open>Finding a module\<close>

text \<open>The boot loader's module list: path, address and size of each. \<open>ISIZE_MAX\<close> bounds the size.\<close>

type_synonym boot_module = "u8 list \<times> u64 \<times> u64"

fun bootloader_open_module :: "bool \<Rightarrow> u8 list \<Rightarrow> boot_module list \<Rightarrow> module option option" where
  "bootloader_open_module mem_ok path [] = Some None"
| "bootloader_open_module mem_ok path ((p, data, sz) # ms) =
     (if p = path then do {
        kassert (0 \<le>s sz);
        kassert (0 <s sz);
        if mem_ok then map_option Some (module_open data sz) else Some None
      } else bootloader_open_module mem_ok path ms)"

section \<open>The file position stays inside the module\<close>

definition module_ok :: "module \<Rightarrow> bool" where
  "module_ok mo \<longleftrightarrow> 0 < unat (mo_size mo) \<and> unat (mo_size mo) < 2 ^ 63 \<and> unat (mo_offset mo) \<le> unat (mo_size mo)"

lemma signed_nonneg: "\<not> w <s 0 \<longleftrightarrow> unat (w :: u64) < 2 ^ 63"
proof (cases "w = 0")
  case False
  have "sint w \<noteq> 0" using False by (simp add: signed_eq_0_iff)
  then have "\<not> w <s 0 \<longleftrightarrow> 0 <s w" by (auto simp: word_sless_alt)
  also have "\<dots> \<longleftrightarrow> unat w < 2 ^ 63" using sint_pos_unat [of w] False by (simp add: unat_gt_0)
  finally show ?thesis .
qed (simp add: word_sless_alt)

text \<open>A module's position never leaves its data: a read keeps \<open>0 \<le> offset \<le> size\<close>, returns the lesser of
  what was asked for and what is left, moves the position by exactly what it returns (and not at all when
  the copy fails), and returns 0 only at the end.\<close>

theorem module_read_position:
  assumes ok: "module_ok mo" and run: "module_read tr dest len mo m = Some (r, mo', m')"
  shows "module_ok mo' \<and> (case r of
      Inl e \<Rightarrow> mo' = mo
    | Inr n \<Rightarrow> unat n = min (unat len) (unat (mo_size mo) - unat (mo_offset mo)) \<and>
        unat (mo_offset mo') = unat (mo_offset mo) + unat n \<and> (n = 0 \<longleftrightarrow> mo_offset mo = mo_size mo))"
proof -
  let ?left = "mo_size mo - mo_offset mo"
  let ?n = "if len <s ?left then len else ?left"
  have len: "0 < unat len" "unat len < 2 ^ 63" "0 <s len"
    using run sint_pos_unat [of len] by (auto simp: module_read_def)
  have le: "mo_offset mo \<le> mo_size mo" using ok by (simp add: module_ok_def word_le_nat_alt)
  have left: "unat ?left = unat (mo_size mo) - unat (mo_offset mo)" by (rule unat_sub [OF le])
  have left63: "unat ?left < 2 ^ 63" unfolding left using ok by (auto simp: module_ok_def)
  have n: "unat ?n = min (unat len) (unat (mo_size mo) - unat (mo_offset mo))"
    using signed_less [OF len(2) left63] left by (auto simp: min_def)
  have n0: "?n = 0 \<longleftrightarrow> mo_offset mo = mo_size mo"
  proof -
    have "?n = 0 \<longleftrightarrow> unat ?n = 0" by (simp only: unat_eq_zero)
    also have "\<dots> \<longleftrightarrow> unat (mo_offset mo) = unat (mo_size mo)" using n len(1) ok by (auto simp: module_ok_def)
    finally show ?thesis by (auto intro: unsigned_word_eqI)
  qed
  have sum: "unat (mo_offset mo + ?n) = unat (mo_offset mo) + unat ?n"
    by (rule unat_add_lem [THEN iffD1]) (use n ok in \<open>auto simp: module_ok_def\<close>)
  show ?thesis
  proof (cases "?n = 0")
    case True
    then have "r = Inr 0" "mo' = mo" using run len(3) unfolding module_read_def Let_def by auto
    then show ?thesis using True n n0 ok by auto
  next
    case False
    then obtain e m2 where c: "copy_to_user tr dest (mo_address mo + mo_offset mo) ?n m = Some (e, m2)"
      and r: "(case e of Some e \<Rightarrow> Some (Inl e, mo, m2) | None \<Rightarrow> Some (Inr ?n, mo\<lparr>mo_offset := mo_offset mo + ?n\<rparr>, m2)) = Some (r, mo', m')"
      using run len(3) unfolding module_read_def Let_def by (auto split: bind_splits simp del: mult_Suc)
    show ?thesis
    proof (cases e)
      case (Some e')
      then show ?thesis using r ok by auto
    next
      case None
      then have "r = Inr ?n" "mo' = mo\<lparr>mo_offset := mo_offset mo + ?n\<rparr>" using r by simp_all
      then show ?thesis using n n0 sum ok by (auto simp: module_ok_def)
    qed
  qed
qed

text \<open>Seeking lands inside the module's data or changes nothing: the new position is the one asked for,
  relative to the start, the position or the end, when that is between 0 and the size, and otherwise the
  result is \<open>EINVAL\<close>. The end itself is allowed.\<close>

theorem module_seek_position:
  assumes ok: "module_ok mo" and small: "unat offset < 2 ^ 62" "unat (mo_size mo) < 2 ^ 62"
  shows "module_seek offset whence mo =
    (let base = (if whence = SEEK_CUR then unat (mo_offset mo) else if whence = SEEK_END then unat (mo_size mo) else 0) in
     if (whence = SEEK_SET \<or> whence = SEEK_CUR \<or> whence = SEEK_END) \<and> base + unat offset \<le> unat (mo_size mo)
     then (Inr (word_of_nat (base + unat offset)), mo\<lparr>mo_offset := word_of_nat (base + unat offset)\<rparr>) else (Inl EINVAL, mo))"
proof -
  let ?base = "if whence = SEEK_CUR then mo_offset mo else if whence = SEEK_END then mo_size mo else 0"
  let ?o = "if whence = SEEK_CUR then offset + mo_offset mo else if whence = SEEK_END then offset + mo_size mo else offset"
  have b: "unat ?base < 2 ^ 62" using ok small by (auto simp: module_ok_def)
  have "unat offset + unat ?base < 2 ^ LENGTH(64)" using b small by simp
  then have s: "unat (offset + ?base) = unat offset + unat ?base" by (rule unat_add_lem [THEN iffD1])
  have o: "?o = offset + ?base" by simp
  have u: "unat ?o = unat ?base + unat offset" unfolding o s by simp
  have w: "?o = word_of_nat (unat ?base + unat offset)" using arg_cong [OF u, of "word_of_nat :: nat \<Rightarrow> u64"] by simp
  have small_o: "unat ?o < 2 ^ 63" unfolding u using b small by simp
  have neg: "\<not> ?o <s 0" using small_o signed_nonneg by blast
  have gt: "mo_size mo <s ?o \<longleftrightarrow> unat (mo_size mo) < unat ?base + unat offset"
    using signed_less [OF _ small_o, of "mo_size mo"] ok unfolding u by (simp add: module_ok_def)
  have ub: "unat ?base = (if whence = SEEK_CUR then unat (mo_offset mo) else if whence = SEEK_END then unat (mo_size mo) else 0)" by simp
  show ?thesis
    unfolding module_seek_def Let_def ub [symmetric]
    by (simp only: neg gt w [symmetric] if_False simp_thms not_less [symmetric]) auto
qed

theorem module_seek_position_witness:
  "module_seek 2 SEEK_CUR \<lparr>mo_address = 0x1000, mo_size = 10, mo_offset = 3\<rparr> = (Inr 5, \<lparr>mo_address = 0x1000, mo_size = 10, mo_offset = 5\<rparr>)"
  by (subst module_seek_position) (simp_all add: module_ok_def SEEK_CUR_def SEEK_SET_def SEEK_END_def Let_def)

theorem module_read_position_witness:
  "\<exists>mo' m'. module_read (\<lambda>a _. Inr (unat a)) 0x2000 7 \<lparr>mo_address = 0x1000, mo_size = 4, mo_offset = 3\<rparr> (\<lambda>_. 0) = Some (Inr 1, mo', m') \<and>
    module_ok mo' \<and> unat (mo_offset mo') = 4"
proof -
  let ?mo = "\<lparr>mo_address = 0x1000, mo_size = 4, mo_offset = 3\<rparr>"
  have "\<exists>mo' m'. module_read (\<lambda>a _. Inr (unat a)) 0x2000 7 ?mo (\<lambda>_. 0) = Some (Inr 1, mo', m')"
    by (simp add: module_read_def word_sless_alt copy_to_user_def check_user_range_def is_user_pointer_def MEM_LOW_HALF_MAX_def)
  then obtain mo' m' where run: "module_read (\<lambda>a _. Inr (unat a)) 0x2000 7 ?mo (\<lambda>_. 0) = Some (Inr 1, mo', m')" by blast
  have "module_ok ?mo" by (simp add: module_ok_def)
  from module_read_position [OF this run] run show ?thesis by auto
qed

end
