(* ===== verification/Syscall.thy ===== *)
theory Syscall
  imports Ipc Descriptor Vm Module Treap
begin

text \<open>
  System calls: \<open>kernel/src/user/syscall.cxx\<close>, with the processes of \<open>process.cxx\<close>, the default methods of
  handles of \<open>handle.cxx\<close> and \<open>syscall_entry\<close> of \<open>x86_64/entry.c\<close>.

  The state puts the components together: threads, servers and user memory (\<open>ipc_world\<close>), page tables and
  areas, descriptor tables and handles. What a handle is (a module, an interrupt line, a server) is a
  datatype, and the virtual methods are functions over it. A handle whose count reaches zero is closed after
  the operation that released it.

  Parameters: the machine of \<open>Ipc\<close>, the clock, the outcomes of allocations, the boot loader's modules, the
  Forth interpreter (assembly) and the address of the shared objects.
\<close>

section \<open>State\<close>

datatype object = ModuleObj module | IrqObj nat | IpcObj nat

datatype proc_state = SPAWNING | ACTIVE | DEAD

record proc =
  p_vm :: vm
  p_table :: table
  p_threads :: ttree
  p_state :: proc_state

definition new_proc :: proc where
  "new_proc = \<lparr>p_vm = \<lparr>vm_page_map = 0, vm_areas = []\<rparr>, p_table = empty_table,
     p_threads = \<lparr>tnodes = (\<lambda>_. null_node), troot = None, rng_state = 0\<rparr>, p_state = SPAWNING\<rparr>"

record sys =
  sy_ipc :: ipc_world
  sy_irqs :: "nat \<Rightarrow> irq_handle"
  sy_ioapic :: ioapic
  sy_pages :: mem_state
  sy_procs :: "nat \<Rightarrow> proc"
  sy_proc_of :: "tid \<Rightarrow> nat"
  sy_handles :: handles
  sy_objects :: "hid \<Rightarrow> object"

text \<open>What a call finds outside: the clock when it enters and when it leaves, the outcomes of allocations
  (of descriptor blocks, of the new module handle, thread, process and server with its handle, by number),
  the handles of the interrupt lines, the modules, and the result of the Forth interpreter with the value it leaves.\<close>

record env =
  e_machine :: machine
  e_now :: u64
  e_later :: u64
  e_blocks :: "bool list"
  e_handle :: "hid option"
  e_thread :: "tid option"
  e_xstate :: bool
  e_proc :: "nat option"
  e_server :: "(nat \<times> hid) option"
  e_irq :: "nat \<Rightarrow> hid"
  e_modules :: "boot_module list"
  e_forth :: "int \<times> u64"
  e_share :: u64
  e_buffer :: u64

section \<open>Parts of the state\<close>

definition sy_kernel :: "sys \<Rightarrow> kernel" where
  "sy_kernel s = pw_kernel (sy_ipc s)"

definition set_kernel :: "kernel \<Rightarrow> sys \<Rightarrow> sys" where
  "set_kernel k s = s\<lparr>sy_ipc := (sy_ipc s)\<lparr>pw_kernel := k\<rparr>\<rparr>"

definition set_ctx :: "(registers \<Rightarrow> registers) \<Rightarrow> sys \<Rightarrow> sys" where
  "set_ctx f s = set_kernel ((sy_kernel s)\<lparr>user_ctx := f (user_ctx (sy_kernel s))\<rparr>) s"

definition upd_proc :: "nat \<Rightarrow> (proc \<Rightarrow> proc) \<Rightarrow> sys \<Rightarrow> sys" where
  "upd_proc p f s = s\<lparr>sy_procs := (sy_procs s)(p := f (sy_procs s p))\<rparr>"

definition irq_part :: "sys \<Rightarrow> irq_world" where
  "irq_part s = \<lparr>iw_kernel = sy_kernel s, iw_handlers = sy_irqs s, iw_ioapic = sy_ioapic s\<rparr>"

definition put_irq :: "irq_world \<Rightarrow> sys \<Rightarrow> sys" where
  "put_irq w s = (set_kernel (iw_kernel w) s)\<lparr>sy_irqs := iw_handlers w, sy_ioapic := iw_ioapic w\<rparr>"

definition first_ok :: "bool list \<Rightarrow> bool" where
  "first_ok ms = (case ms of [] \<Rightarrow> False | m # _ \<Rightarrow> m)"

text \<open>The bytes at a kernel address, and the translation of the current address space.\<close>

definition cur_translation :: "env \<Rightarrow> sys \<Rightarrow> translation" where
  "cur_translation e s = m_translate (e_machine e) (cr3 (sy_kernel s))"

fun fetch :: "translation \<Rightarrow> u64 \<Rightarrow> nat \<Rightarrow> bytes \<Rightarrow> u8 list option" where
  "fetch tr a 0 m = Some []"
| "fetch tr a (Suc n) m = (case tr a False of
     Inl _ \<Rightarrow> None
   | Inr p \<Rightarrow> map_option (Cons (m p)) (fetch tr (a + 1) n m))"

section \<open>Handles\<close>

definition object_close :: "object \<Rightarrow> sys \<Rightarrow> sys option" where
  "object_close ob s = (case ob of
     ModuleObj m \<Rightarrow> Some s
   | IrqObj i \<Rightarrow> map_option (\<lambda>w. put_irq w s) (irq_close i (irq_part s))
   | IpcObj v \<Rightarrow> map_option (\<lambda>w. s\<lparr>sy_ipc := w\<rparr>) (ipc_handle_close v (sy_ipc s)))"

fun close_objects :: "hid list \<Rightarrow> sys \<Rightarrow> sys option" where
  "close_objects [] s = Some s"
| "close_objects (h # hs) s = do { s \<leftarrow> object_close (sy_objects s h) s; close_objects hs s }"

text \<open>An operation on the descriptor table of a process: the handles it released for good are then closed.\<close>

definition put_table :: "nat \<Rightarrow> table \<Rightarrow> handles \<Rightarrow> sys \<Rightarrow> sys option" where
  "put_table p t hs s =
     close_objects (drop (length (closed_log (sy_handles s))) (closed_log hs))
       ((upd_proc p (\<lambda>pr. pr\<lparr>p_table := t\<rparr>) s)\<lparr>sy_handles := hs\<rparr>)"

text \<open>The virtual methods, with the defaults of \<open>Handle\<close> where a class has none of its own.\<close>

definition handle_read :: "env \<Rightarrow> hid \<Rightarrow> u64 \<Rightarrow> u64 \<Rightarrow> sys \<Rightarrow> ((errno + u64) outcome \<times> sys) option" where
  "handle_read e h buf len s = (case sy_objects s h of
     ModuleObj mo \<Rightarrow> do {
       (r, mo, m) \<leftarrow> module_read (cur_translation e s) buf len mo (pw_mem (sy_ipc s));
       Some (Returned r, s\<lparr>sy_objects := (sy_objects s)(h := ModuleObj mo), sy_ipc := (sy_ipc s)\<lparr>pw_mem := m\<rparr>\<rparr>)
     }
   | IrqObj i \<Rightarrow> Some (Returned (Inl EINVAL), s)
   | IpcObj v \<Rightarrow> do {
       (r, w) \<leftarrow> ipc_read (e_machine e) (e_now e) v (sy_ipc s);
       Some (case r of Returned er \<Rightarrow> Returned (Inl er) | Departed \<Rightarrow> Departed, s\<lparr>sy_ipc := w\<rparr>)
     })"

definition handle_write :: "env \<Rightarrow> hid \<Rightarrow> u64 \<Rightarrow> u64 \<Rightarrow> sys \<Rightarrow> ((errno + u64) outcome \<times> sys) option" where
  "handle_write e h buf len s = (case sy_objects s h of
     ModuleObj mo \<Rightarrow> Some (Returned (Inl EINVAL), s)
   | IrqObj i \<Rightarrow> Some (Returned (Inl EINVAL), s)
   | IpcObj v \<Rightarrow> do {
       (r, w) \<leftarrow> ipc_write (e_machine e) (e_now e) v (sy_ipc s);
       Some (case r of Returned er \<Rightarrow> Returned (Inl er) | Departed \<Rightarrow> Departed, s\<lparr>sy_ipc := w\<rparr>)
     })"

definition handle_seek :: "hid \<Rightarrow> u64 \<Rightarrow> u32 \<Rightarrow> sys \<Rightarrow> (errno + u64) \<times> sys" where
  "handle_seek h offset whence s = (case sy_objects s h of
     ModuleObj mo \<Rightarrow> (case module_seek offset whence mo of
       (r, mo) \<Rightarrow> (r, s\<lparr>sy_objects := (sy_objects s)(h := ModuleObj mo)\<rparr>))
   | _ \<Rightarrow> (Inl ESPIPE, s))"

definition handle_ctl :: "env \<Rightarrow> hid \<Rightarrow> registers \<Rightarrow> u32 \<Rightarrow> sys \<Rightarrow> ((errno + u64) outcome \<times> sys) option" where
  "handle_ctl e h ctx op s = (case sy_objects s h of
     IrqObj i \<Rightarrow> do {
       (r, w) \<leftarrow> irq_ctl (m_idle_rip (e_machine e)) (m_kernel_stack (e_machine e)) (e_now e) (e_later e) i ctx op (irq_part s);
       Some (r, put_irq w s)
     }
   | _ \<Rightarrow> Some (Returned (Inl EINVAL), s))"

definition handle_ipc_call :: "env \<Rightarrow> hid \<Rightarrow> registers \<Rightarrow> sys \<Rightarrow> (errno outcome \<times> sys) option" where
  "handle_ipc_call e h ctx s = (case sy_objects s h of
     IpcObj v \<Rightarrow> do {
       (r, w) \<leftarrow> ipc_call (e_machine e) (e_now e) v ctx (sy_ipc s);
       Some (r, s\<lparr>sy_ipc := w\<rparr>)
     }
   | _ \<Rightarrow> Some (Returned EINVAL, s))"

section \<open>Processes\<close>

definition process_create :: "env \<Rightarrow> u64 \<Rightarrow> sys \<Rightarrow> ((errno + nat) \<times> sys) option" where
  "process_create e h s = (case e_proc e of
     None \<Rightarrow> Some (Inl ENOMEM, s)
   | Some p \<Rightarrow> do {
       (v, pages) \<leftarrow> vm_init h (cr3 (sy_kernel s)) (p_vm new_proc) (sy_pages s);
       Some (Inr p, (upd_proc p (\<lambda>_. new_proc\<lparr>p_vm := v\<rparr>) s)\<lparr>sy_pages := pages\<rparr>)
     })"

text \<open>The descent of \<open>spawn_thread\<close>: the first node without a child on the side of the new one, by address.\<close>

partial_function (option) find_leaf :: "nat \<Rightarrow> nat \<Rightarrow> ttree \<Rightarrow> (nat \<times> bool) option" where
  "find_leaf parent node t =
     (let dir = (parent < node) in
      case tn_child dir (tnodes t parent) of
        None \<Rightarrow> Some (parent, dir)
      | Some c \<Rightarrow> find_leaf c node t)"

definition thread_tree_insert :: "nat \<Rightarrow> ttree \<Rightarrow> ttree option" where
  "thread_tree_insert t tr = (case troot tr of
     Some r \<Rightarrow> do { (parent, dir) \<leftarrow> find_leaf r t tr; insert_at (Some parent) dir t tr }
   | None \<Rightarrow> insert_root t tr)"

definition process_spawn_thread :: "env \<Rightarrow> nat \<Rightarrow> u64 \<Rightarrow> u64 \<Rightarrow> u64 \<Rightarrow> sys \<Rightarrow> ((errno + tid) \<times> sys) option" where
  "process_spawn_thread e p code stack arg s = (case e_thread e of
     None \<Rightarrow> Some (Inl ENOMEM, s)
   | Some t \<Rightarrow>
       (case cpu_context_initialise_user (e_xstate e) t (vm_page_map (p_vm (sy_procs s p))) code stack (sy_kernel s) of
          (Some er, k) \<Rightarrow> Some (Inl er, set_kernel k s)
        | (None, k) \<Rightarrow> do {
            let s = set_kernel (upd_ctx t (reg_rdi_update (\<lambda>_. arg)) k) s;
            let tr = p_threads (sy_procs s p);
            tr \<leftarrow> thread_tree_insert t tr;
            Some (Inr t, (upd_proc p (\<lambda>pr. pr\<lparr>p_threads := tr\<rparr>) s)\<lparr>sy_proc_of := (sy_proc_of s)(t := p)\<rparr>)
          }))"

text \<open>\<open>fork\<close>: when a step fails, the destructor of the new process gives back its page tables and area nodes; the
  destructor of its descriptor table runs as well.\<close>

definition process_discard :: "u64 \<Rightarrow> nat \<Rightarrow> sys \<Rightarrow> sys option" where
  "process_discard h p s = do {
     hs \<leftarrow> table_destroy (p_table (sy_procs s p)) (sy_handles s);
     (v, pages) \<leftarrow> vm_destroy h (cr3 (sy_kernel s)) (p_vm (sy_procs s p)) (sy_pages s);
     s \<leftarrow> put_table p empty_table hs s;
     Some ((upd_proc p (\<lambda>pr. pr\<lparr>p_vm := v\<rparr>) s)\<lparr>sy_pages := pages\<rparr>)
   }"

definition process_fork :: "env \<Rightarrow> u64 \<Rightarrow> nat \<Rightarrow> sys \<Rightarrow> ((errno + nat) \<times> sys) option" where
  "process_fork e h p s = do {
     cur \<leftarrow> current (sy_kernel s);
     kassert (sy_proc_of s cur = p);
     case e_proc e of
       None \<Rightarrow> Some (Inl ENOMEM, s)
     | Some q \<Rightarrow> do {
         (r, v, pages) \<leftarrow> vm_clone h (p_vm (sy_procs s p)) (p_vm new_proc) (sy_pages s);
         let s = (upd_proc q (\<lambda>_. new_proc\<lparr>p_vm := v\<rparr>) s)\<lparr>sy_pages := pages\<rparr>;
         case r of
           Inl er \<Rightarrow> map_option (Pair (Inl er)) (process_discard h q s)
         | Inr _ \<Rightarrow> do {
             (r, t, hs) \<leftarrow> table_clone (e_blocks e) (p_table (sy_procs s p)) empty_table (sy_handles s);
             let s = (upd_proc q (\<lambda>pr. pr\<lparr>p_table := t\<rparr>) s)\<lparr>sy_handles := hs\<rparr>;
             case r of
               Inl er \<Rightarrow> map_option (Pair (Inl er)) (process_discard h q s)
             | Inr _ \<Rightarrow> (case e_thread e of
                 None \<Rightarrow> map_option (Pair (Inl ENOMEM)) (process_discard h q s)
               | Some t \<Rightarrow> do {
                   (er, k) \<leftarrow> cpu_context_clone_current (e_xstate e) t (sy_kernel s);
                   let s = set_kernel k s;
                   case er of
                     Some er \<Rightarrow> map_option (Pair (Inl er)) (process_discard h q s)
                   | None \<Rightarrow> do {
                       let k = upd_thread t (t_page_map_update (\<lambda>_. vm_page_map v)) k;
                       let k = upd_ctx t (reg_rax_update (\<lambda>_. 0)) k;
                       tr \<leftarrow> insert_root t (p_threads (sy_procs s q));
                       let s = upd_proc q (\<lambda>pr. pr\<lparr>p_threads := tr, p_state := ACTIVE\<rparr>) s;
                       k \<leftarrow> schedule_ready t k;
                       Some (Inr q, (set_kernel k s)\<lparr>sy_proc_of := (sy_proc_of s)(t := q)\<rparr>)
                     }
                 })
           }
       }
   }"

section \<open>The system calls\<close>

text \<open>Every handler gets the caller's registers \<open>ctx\<close> and process \<open>p\<close>. \<open>fd_of\<close> is the conversion of an argument
  to \<open>int\<close>.\<close>

type_synonym sys_result = "((errno + u64) outcome \<times> sys) option"

definition fd_of :: "u64 \<Rightarrow> int" where
  "fd_of a = sint (ucast a :: u32)"

definition fd_value :: "int \<Rightarrow> u64" where
  "fd_value fd = word_of_int fd"

definition sys_nop :: "sys \<Rightarrow> sys_result" where
  "sys_nop s = Some (Returned (Inr 0), s)"

definition sys_forth_interpret :: "env \<Rightarrow> sys \<Rightarrow> sys_result" where
  "sys_forth_interpret e s =
     (if 0 \<le> fst (e_forth e) then Some (Returned (Inr 0), set_ctx (reg_rdx_update (\<lambda>_. snd (e_forth e))) s)
      else Some (Returned (Inl EIO), s))"

definition sys_nsleep :: "env \<Rightarrow> registers \<Rightarrow> sys \<Rightarrow> sys_result" where
  "sys_nsleep e ctx s =
     (let duration = reg_rdi ctx in
      if duration \<le>s 0 then Some (Returned (Inl EINVAL), s)
      else do {
        let s = set_ctx (reg_rax_update (\<lambda>_. 0)) s;
        (t, k) \<leftarrow> cpu_context_save (sy_kernel s);
        k \<leftarrow> schedule_nanosleep (e_now e) t duration k;
        k \<leftarrow> schedule_or_exit (m_idle_rip (e_machine e)) (m_kernel_stack (e_machine e)) (e_later e) k;
        Some (Departed, set_kernel k s)
      })"

text \<open>A new handle put into a slot of the descriptor table.\<close>

definition install :: "nat \<Rightarrow> slot \<Rightarrow> hid \<Rightarrow> bool \<Rightarrow> sys \<Rightarrow> sys option" where
  "install p sl h cloexec s = do {
     let t = p_table (sy_procs s p);
     (d, hs) \<leftarrow> desc_assign h cloexec (read_slot t sl) (sy_handles s);
     put_table p (write_slot sl d t) hs s
   }"

definition sys_open_module :: "env \<Rightarrow> registers \<Rightarrow> nat \<Rightarrow> sys \<Rightarrow> sys_result" where
  "sys_open_module e ctx p s =
     (let (r, t) = table_alloc (first_ok (e_blocks e)) (p_table (sy_procs s p)) in
      let s = upd_proc p (\<lambda>pr. pr\<lparr>p_table := t\<rparr>) s in
      case r of
        Inl er \<Rightarrow> Some (Returned (Inl er), s)
      | Inr (sl, fd) \<Rightarrow>
          (let len = reg_rsi ctx in
           if 128 < len then Some (Returned (Inl ENAMETOOLONG), s)
           else do {
             (er, m) \<leftarrow> copy_from_user (cur_translation e s) (e_buffer e) (reg_rdi ctx) len (pw_mem (sy_ipc s));
             let s = s\<lparr>sy_ipc := (sy_ipc s)\<lparr>pw_mem := m\<rparr>\<rparr>;
             case er of
               Some er \<Rightarrow> Some (Returned (Inl er), s)
             | None \<Rightarrow> do {
                 path \<leftarrow> fetch (cur_translation e s) (e_buffer e) (unat len) m;
                 r \<leftarrow> bootloader_open_module (e_handle e \<noteq> None) path (e_modules e);
                 case (r, e_handle e) of
                   (Some mo, Some h) \<Rightarrow> do {
                     s \<leftarrow> install p sl h False (s\<lparr>sy_objects := (sy_objects s)(h := ModuleObj mo)\<rparr>);
                     Some (Returned (Inr (fd_value fd)), s)
                   }
                 | _ \<Rightarrow> Some (Returned (Inl ENOENT), s)
               }
           }))"

definition sys_user_share :: "env \<Rightarrow> sys \<Rightarrow> sys_result" where
  "sys_user_share e s = Some (Returned (Inr (e_share e)), s)"

definition sys_claim_irq :: "env \<Rightarrow> registers \<Rightarrow> nat \<Rightarrow> sys \<Rightarrow> sys_result" where
  "sys_claim_irq e ctx p s =
     (let (r, t) = table_alloc (first_ok (e_blocks e)) (p_table (sy_procs s p)) in
      let s = upd_proc p (\<lambda>pr. pr\<lparr>p_table := t\<rparr>) s in
      case r of
        Inl er \<Rightarrow> Some (Returned (Inl er), s)
      | Inr (sl, fd) \<Rightarrow>
          (let (r, w) = irq_claim (fd_of (reg_rdi ctx)) (irq_part s) in
           let s = put_irq w s in
           case r of
             Inl er \<Rightarrow> Some (Returned (Inl er), s)
           | Inr i \<Rightarrow> do {
               let h = e_irq e i;
               s \<leftarrow> install p sl h True (s\<lparr>sy_objects := (sy_objects s)(h := IrqObj i)\<rparr>);
               Some (Returned (Inr (fd_value fd)), s)
             }))"

definition sys_klog :: "env \<Rightarrow> registers \<Rightarrow> sys \<Rightarrow> sys_result" where
  "sys_klog e ctx s = do {
     let len = min (reg_rsi ctx) 1024;
     (er, m) \<leftarrow> copy_from_user (cur_translation e s) (e_buffer e) (reg_rdi ctx) len (pw_mem (sy_ipc s));
     let s = s\<lparr>sy_ipc := (sy_ipc s)\<lparr>pw_mem := m\<rparr>\<rparr>;
     Some (Returned (case er of Some er \<Rightarrow> Inl er | None \<Rightarrow> Inr len), s)
   }"

definition sys_panic :: "sys \<Rightarrow> sys_result" where
  "sys_panic s = None"

definition sys_fork :: "env \<Rightarrow> nat \<Rightarrow> sys \<Rightarrow> sys_result" where
  "sys_fork e p s = do {
     (r, s) \<leftarrow> process_fork e (m_hhdm (e_machine e)) p s;
     Some (Returned (case r of Inl er \<Rightarrow> Inl er | Inr _ \<Rightarrow> Inr 1), s)
   }"

definition O_CLOEXEC :: u64 where "O_CLOEXEC = 64"

definition sys_dup :: "env \<Rightarrow> registers \<Rightarrow> nat \<Rightarrow> sys \<Rightarrow> sys_result" where
  "sys_dup e ctx p s = do {
     (r, t, hs) \<leftarrow> fd_dup (first_ok (e_blocks e)) (fd_of (reg_rdi ctx)) (fd_of (reg_rsi ctx))
        (reg_rdx ctx AND O_CLOEXEC \<noteq> 0) (p_table (sy_procs s p)) (sy_handles s);
     s \<leftarrow> put_table p t hs s;
     Some (Returned (map_sum id fd_value r), s)
   }"

definition sys_close :: "registers \<Rightarrow> nat \<Rightarrow> sys \<Rightarrow> sys_result" where
  "sys_close ctx p s = do {
     (r, t, hs) \<leftarrow> table_close (fd_of (reg_rdi ctx)) (p_table (sy_procs s p)) (sy_handles s);
     s \<leftarrow> put_table p t hs s;
     Some (Returned (map_sum id (\<lambda>_. 0) r), s)
   }"

definition sys_exec_flush :: "registers \<Rightarrow> nat \<Rightarrow> sys \<Rightarrow> sys_result" where
  "sys_exec_flush ctx p s = do {
     (t, hs) \<leftarrow> table_cloexec (p_table (sy_procs s p)) (sy_handles s);
     s \<leftarrow> put_table p t hs s;
     Some (Returned (Inr 0), set_ctx (\<lambda>r. r\<lparr>reg_rcx := reg_rdi ctx, reg_rsp := reg_rsi ctx\<rparr>) s)
   }"

text \<open>The handle of a descriptor: \<open>desc->handle()\<close>.\<close>

definition get_handle :: "int \<Rightarrow> nat \<Rightarrow> sys \<Rightarrow> (errno + hid) option" where
  "get_handle fd p s = (case table_get fd (p_table (sy_procs s p)) of
     Inl er \<Rightarrow> Some (Inl er)
   | Inr sl \<Rightarrow> map_option Inr (desc_handle (read_slot (p_table (sy_procs s p)) sl)))"

definition ISIZE_MAX :: u64 where "ISIZE_MAX = 0x7fffffffffffffff"

definition sys_read :: "env \<Rightarrow> registers \<Rightarrow> nat \<Rightarrow> sys \<Rightarrow> sys_result" where
  "sys_read e ctx p s = do {
     let buffer = reg_rsi ctx;
     let len = min (reg_rdx ctx) ISIZE_MAX;
     r \<leftarrow> get_handle (fd_of (reg_rdi ctx)) p s;
     case r of
       Inl er \<Rightarrow> Some (Returned (Inl er), s)
     | Inr h \<Rightarrow> (case check_user_range buffer len of
         Some er \<Rightarrow> Some (Returned (Inl er), s)
       | None \<Rightarrow> handle_read e h buffer len s)
   }"

definition sys_write :: "env \<Rightarrow> registers \<Rightarrow> nat \<Rightarrow> sys \<Rightarrow> sys_result" where
  "sys_write e ctx p s = do {
     let buffer = reg_rsi ctx;
     let len = min (reg_rdx ctx) ISIZE_MAX;
     r \<leftarrow> get_handle (fd_of (reg_rdi ctx)) p s;
     case r of
       Inl er \<Rightarrow> Some (Returned (Inl er), s)
     | Inr h \<Rightarrow> (case check_user_range buffer len of
         Some er \<Rightarrow> Some (Returned (Inl er), s)
       | None \<Rightarrow> handle_write e h buffer len s)
   }"

definition sys_seek :: "registers \<Rightarrow> nat \<Rightarrow> sys \<Rightarrow> sys_result" where
  "sys_seek ctx p s = do {
     r \<leftarrow> get_handle (fd_of (reg_rdi ctx)) p s;
     case r of
       Inl er \<Rightarrow> Some (Returned (Inl er), s)
     | Inr h \<Rightarrow> (let (r, s) = handle_seek h (reg_rsi ctx) (ucast (reg_rdx ctx)) s in Some (Returned r, s))
   }"

definition sys_objctl :: "env \<Rightarrow> registers \<Rightarrow> nat \<Rightarrow> sys \<Rightarrow> sys_result" where
  "sys_objctl e ctx p s = do {
     r \<leftarrow> get_handle (fd_of (reg_rdi ctx)) p s;
     case r of
       Inl er \<Rightarrow> Some (Returned (Inl er), s)
     | Inr h \<Rightarrow> handle_ctl e h ctx (ucast (reg_rsi ctx)) s
   }"

definition MAP_FIXED :: u64 where "MAP_FIXED = 1"
definition MAP_FIXED_NOREPLACE :: u64 where "MAP_FIXED_NOREPLACE = 2"

definition put_vm :: "nat \<Rightarrow> vm \<Rightarrow> mem_state \<Rightarrow> sys \<Rightarrow> sys" where
  "put_vm p v pages s = (upd_proc p (\<lambda>pr. pr\<lparr>p_vm := v\<rparr>) s)\<lparr>sy_pages := pages\<rparr>"

definition sys_virtual_map :: "env \<Rightarrow> registers \<Rightarrow> nat \<Rightarrow> sys \<Rightarrow> sys_result" where
  "sys_virtual_map e ctx p s =
     (let len = round_up_p2 (reg_rsi ctx) (word_of_nat PAGE_SIZE);
          addr = reg_rdi ctx; prot = reg_rdx ctx; flags = reg_r10 ctx;
          h = m_hhdm (e_machine e); v = p_vm (sy_procs s p) in
      case check_user_range addr len of
        Some er \<Rightarrow> Some (Returned (Inl er), s)
      | None \<Rightarrow>
          if prot AND NOT (ucast (PROT_EXEC OR PROT_READ OR PROT_WRITE)) \<noteq> 0 then Some (Returned (Inl EINVAL), s)
          else if flags AND NOT (MAP_FIXED OR MAP_FIXED_NOREPLACE) \<noteq> 0 then Some (Returned (Inl EINVAL), s)
          else if flags AND (MAP_FIXED OR MAP_FIXED_NOREPLACE) \<noteq> 0 then
            (if \<not> page_aligned64 addr then Some (Returned (Inl EINVAL), s)
             else do {
               (r, v, pages) \<leftarrow>
                 (if flags AND MAP_FIXED \<noteq> 0
                  then vm_alloc_fixed_overwrite h addr len (ucast prot) v (sy_pages s)
                  else vm_alloc_fixed_noreplace h addr len (ucast prot) v (sy_pages s));
               Some (Returned (map_sum id (\<lambda>_. addr) r), put_vm p v pages s)
             })
          else do {
            (r, v, pages) \<leftarrow> vm_alloc_movable h (round_down_p2 addr (word_of_nat PAGE_SIZE)) len (ucast prot) v (sy_pages s);
            Some (Returned r, put_vm p v pages s)
          })"

definition sys_virtual_unmap :: "env \<Rightarrow> registers \<Rightarrow> nat \<Rightarrow> sys \<Rightarrow> sys_result" where
  "sys_virtual_unmap e ctx p s =
     (let len = round_up_p2 (reg_rsi ctx) (word_of_nat PAGE_SIZE); addr = reg_rdi ctx in
      if \<not> page_aligned64 addr then Some (Returned (Inl EINVAL), s)
      else case check_user_range addr len of
        Some er \<Rightarrow> Some (Returned (Inl er), s)
      | None \<Rightarrow> do {
          (r, v, pages) \<leftarrow> vm_free (m_hhdm (e_machine e)) addr len (p_vm (sy_procs s p)) (sy_pages s);
          Some (Returned (map_sum id (\<lambda>_. 0) r), put_vm p v pages s)
        })"

definition sys_thread_spawn :: "env \<Rightarrow> registers \<Rightarrow> nat \<Rightarrow> sys \<Rightarrow> sys_result" where
  "sys_thread_spawn e ctx p s = do {
     (r, s) \<leftarrow> process_spawn_thread e p (reg_rdi ctx) (reg_rsi ctx) (reg_rdx ctx) s;
     case r of
       Inl er \<Rightarrow> Some (Returned (Inl er), s)
     | Inr t \<Rightarrow> do {
         let s = set_ctx (reg_rdx_update (\<lambda>_. word_of_nat t)) s;
         k \<leftarrow> schedule_ready t (sy_kernel s);
         Some (Returned (Inr 0), set_kernel k s)
       }
   }"

definition sys_ipc_create :: "env \<Rightarrow> registers \<Rightarrow> nat \<Rightarrow> sys \<Rightarrow> sys_result" where
  "sys_ipc_create e ctx p s =
     (let n = reg_rsi ctx in
      if word_of_nat TRANSFER_MAX < n then Some (Returned (Inl E2BIG), s)
      else do {
        (er, m) \<leftarrow> copy_from_user (cur_translation e s) (e_buffer e) (reg_rdi ctx) n (pw_mem (sy_ipc s));
        let s = s\<lparr>sy_ipc := (sy_ipc s)\<lparr>pw_mem := m\<rparr>\<rparr>;
        case er of
          Some er \<Rightarrow> Some (Returned (Inl er), s)
        | None \<Rightarrow> do {
            given \<leftarrow> fetch (cur_translation e s) (e_buffer e) (unat n) m;
            let transfers = given @ replicate (TRANSFER_MAX - unat n) 0;
            let (r, t) = table_alloc (first_ok (e_blocks e)) (p_table (sy_procs s p));
            let s = upd_proc p (\<lambda>pr. pr\<lparr>p_table := t\<rparr>) s;
            case r of
              Inl er \<Rightarrow> Some (Returned (Inl er), s)
            | Inr (sl, fd) \<Rightarrow>
                (case (ipc_create (e_server e \<noteq> None) transfers, e_server e) of
                   (Inr sv, Some (v, h)) \<Rightarrow> do {
                     s \<leftarrow> install p sl h False (s\<lparr>sy_ipc := upd_server v (Some sv) (sy_ipc s),
                            sy_objects := (sy_objects s)(h := IpcObj v)\<rparr>);
                     Some (Returned (Inr (fd_value fd)), set_ctx (reg_rdx_update (\<lambda>_. word_of_nat v)) s)
                   }
                 | (Inl er, _) \<Rightarrow> Some (Returned (Inl er), s)
                 | (Inr sv, None) \<Rightarrow> None)
          }
      })"

definition sys_ipc_call :: "env \<Rightarrow> registers \<Rightarrow> nat \<Rightarrow> sys \<Rightarrow> sys_result" where
  "sys_ipc_call e ctx p s = do {
     r \<leftarrow> get_handle (fd_of (reg_rdi ctx)) p s;
     case r of
       Inl er \<Rightarrow> Some (Returned (Inl er), s)
     | Inr h \<Rightarrow> do {
         (r, s) \<leftarrow> handle_ipc_call e h ctx s;
         Some (case r of Returned er \<Rightarrow> Returned (Inl er) | Departed \<Rightarrow> Departed, s)
       }
   }"

text \<open>The server is the pointer the program passes, unchecked: a number that is no server is the undefined
  behaviour \<open>None\<close>.\<close>

definition sys_ipc_listen :: "env \<Rightarrow> registers \<Rightarrow> sys \<Rightarrow> sys_result" where
  "sys_ipc_listen e ctx s = do {
     (r, w) \<leftarrow> ipc_listen (e_machine e) (e_now e) (unat (reg_rdi ctx)) ctx (sy_ipc s);
     Some (case r of Returned er \<Rightarrow> Returned (Inl er) | Departed \<Rightarrow> Departed, s\<lparr>sy_ipc := w\<rparr>)
   }"

definition sys_ipc_respond :: "env \<Rightarrow> registers \<Rightarrow> sys \<Rightarrow> sys_result" where
  "sys_ipc_respond e ctx s = do {
     (r, w) \<leftarrow> ipc_respond (e_machine e) (e_now e) ctx (sy_ipc s);
     Some (case r of Returned er \<Rightarrow> Returned (map_sum id (\<lambda>_. 0) er) | Departed \<Rightarrow> Departed, s\<lparr>sy_ipc := w\<rparr>)
   }"

section \<open>Dispatch\<close>

definition SYSCALL_nop :: u64 where "SYSCALL_nop = 0x1200"
definition SYSCALL_ipc_respond :: u64 where "SYSCALL_ipc_respond = 0x1243"

text \<open>The table of handlers, by the number's distance from \<open>SYSCALL_nop\<close>; the other entries are null.\<close>

definition syscall_handler :: "nat \<Rightarrow> (env \<Rightarrow> registers \<Rightarrow> nat \<Rightarrow> sys \<Rightarrow> sys_result) option" where
  "syscall_handler i =
     (if i = 0x00 then Some (\<lambda>e ctx p s. sys_nop s)
      else if i = 0x01 then Some (\<lambda>e ctx p s. sys_forth_interpret e s)
      else if i = 0x02 then Some (\<lambda>e ctx p s. sys_nsleep e ctx s)
      else if i = 0x03 then Some sys_open_module
      else if i = 0x04 then Some (\<lambda>e ctx p s. sys_user_share e s)
      else if i = 0x05 then Some sys_claim_irq
      else if i = 0x06 then Some (\<lambda>e ctx p s. sys_klog e ctx s)
      else if i = 0x07 then Some (\<lambda>e ctx p s. sys_panic s)
      else if i = 0x08 then Some (\<lambda>e ctx p s. sys_fork e p s)
      else if i = 0x09 then Some sys_dup
      else if i = 0x0a then Some (\<lambda>e ctx p s. sys_close ctx p s)
      else if i = 0x0b then Some (\<lambda>e ctx p s. sys_exec_flush ctx p s)
      else if i = 0x10 then Some sys_read
      else if i = 0x11 then Some sys_write
      else if i = 0x12 then Some (\<lambda>e ctx p s. sys_seek ctx p s)
      else if i = 0x1f then Some sys_objctl
      else if i = 0x20 then Some sys_virtual_map
      else if i = 0x21 then Some sys_virtual_unmap
      else if i = 0x31 then Some sys_thread_spawn
      else if i = 0x40 then Some sys_ipc_create
      else if i = 0x41 then Some sys_ipc_call
      else if i = 0x42 then Some (\<lambda>e ctx p s. sys_ipc_listen e ctx s)
      else if i = 0x43 then Some (\<lambda>e ctx p s. sys_ipc_respond e ctx s)
      else None)"

definition syscall :: "env \<Rightarrow> registers \<Rightarrow> tid \<Rightarrow> sys \<Rightarrow> (u64 outcome \<times> sys) option" where
  "syscall e ctx t s =
     (let index = reg_rax ctx - SYSCALL_nop in
      if SYSCALL_ipc_respond - SYSCALL_nop + 1 \<le> index then Some (Returned (neg_errno ENOSYS), s)
      else (case syscall_handler (unat index) of
        None \<Rightarrow> Some (Returned (neg_errno ENOSYS), s)
      | Some handler \<Rightarrow> do {
          (r, s) \<leftarrow> handler e ctx (sy_proc_of s t) s;
          Some (case r of
            Returned (Inr v) \<Rightarrow> Returned v
          | Returned (Inl er) \<Rightarrow> Returned (neg_errno er)
          | Departed \<Rightarrow> Departed, s)
        }))"

definition syscall_entry :: "env \<Rightarrow> registers \<Rightarrow> sys \<Rightarrow> (unit outcome \<times> sys) option" where
  "syscall_entry e ctx s = do {
     t \<leftarrow> current (sy_kernel s);
     let s = set_ctx (\<lambda>_. ctx) s;
     (r, s) \<leftarrow> syscall e ctx t s;
     case r of
       Departed \<Rightarrow> Some (Departed, s)
     | Returned v \<Rightarrow> do {
         let s = set_ctx (reg_rax_update (\<lambda>_. v)) s;
         kassert (current (sy_kernel s) \<noteq> None);
         Some (Returned (), s)
       }
   }"

text \<open>\<open>syscall_get_name\<close>.\<close>

definition syscall_name :: "nat \<Rightarrow> string" where
  "syscall_name i =
     (if i = 0x00 then ''nop'' else if i = 0x01 then ''forth_interpret'' else if i = 0x02 then ''nsleep''
      else if i = 0x03 then ''open_module'' else if i = 0x04 then ''user_share'' else if i = 0x05 then ''claim_irq''
      else if i = 0x06 then ''klog'' else if i = 0x07 then ''panic'' else if i = 0x08 then ''fork'' else if i = 0x09 then ''dup''
      else if i = 0x0a then ''close'' else if i = 0x0b then ''exec_flush'' else if i = 0x10 then ''read''
      else if i = 0x11 then ''write'' else if i = 0x12 then ''seek'' else if i = 0x1f then ''objctl''
      else if i = 0x20 then ''virtual_map'' else if i = 0x21 then ''virtual_unmap'' else if i = 0x31 then ''thread_spawn''
      else if i = 0x40 then ''ipc_create'' else if i = 0x41 then ''ipc_call'' else if i = 0x42 then ''ipc_listen''
      else if i = 0x43 then ''ipc_respond'' else ''(unnamed)'')"

definition syscall_get_name :: "u64 \<Rightarrow> string" where
  "syscall_get_name n =
     (let index = n - SYSCALL_nop in
      if SYSCALL_ipc_respond - SYSCALL_nop + 1 \<le> index then ''(unnamed)'' else syscall_name (unat index))"


section \<open>Numbers and results\<close>

lemma handler_named: "syscall_handler i = None \<longleftrightarrow> syscall_name i = ''(unnamed)''"
  by (simp add: syscall_handler_def syscall_name_def)

text \<open>The dispatch table is consistent: a system call number has a handler exactly when it has a name, and
  every number without one, below, above or inside the range of the table, returns \<open>-ENOSYS\<close> to the caller in \<open>rax\<close>
  and changes nothing else.\<close>

theorem syscall_unknown_number:
  assumes unnamed: "syscall_get_name (reg_rax ctx) = ''(unnamed)''" and cur: "current (sy_kernel s) = Some t"
  shows "syscall_entry e ctx s = Some (Returned (), set_ctx (\<lambda>_. ctx\<lparr>reg_rax := neg_errno ENOSYS\<rparr>) s)"
proof -
  let ?s = "set_ctx (\<lambda>_. ctx) s"
  have "syscall e ctx t ?s = Some (Returned (neg_errno ENOSYS), ?s)"
  proof (cases "SYSCALL_ipc_respond - SYSCALL_nop + 1 \<le> reg_rax ctx - SYSCALL_nop")
    case True
    then show ?thesis by (simp add: syscall_def)
  next
    case False
    then have "syscall_handler (unat (reg_rax ctx - SYSCALL_nop)) = None"
      using unnamed unfolding handler_named by (simp add: syscall_get_name_def)
    then show ?thesis using False by (simp add: syscall_def)
  qed
  then show ?thesis using cur by (simp add: syscall_entry_def set_ctx_def set_kernel_def sy_kernel_def)
qed

text \<open>A small system for the witnesses.\<close>

definition small_sys :: sys where
  "small_sys = \<lparr>sy_ipc = (boot_world (\<lambda>_. 0))\<lparr>pw_kernel := boot_kernel\<lparr>current := Some 1\<rparr>\<rparr>,
     sy_irqs = (\<lambda>_. \<lparr>is_claimed = False, interrupt_occurred = False\<rparr>), sy_ioapic = (\<lambda>_. 0), sy_pages = node_mem,
     sy_procs = (\<lambda>_. new_proc\<lparr>p_vm := small_vm\<rparr>), sy_proc_of = (\<lambda>_. 0), sy_handles = \<lparr>ref_count = (\<lambda>_. 0), closed_log = []\<rparr>,
     sy_objects = (\<lambda>_. IrqObj 0)\<rparr>"

definition small_env :: env where
  "small_env = \<lparr>e_machine = small_machine, e_now = 0, e_later = 0, e_blocks = [True],
     e_handle = None, e_thread = None, e_xstate = True, e_proc = None, e_server = None,
     e_irq = (\<lambda>i. i), e_modules = [], e_forth = (0, 0), e_share = 0, e_buffer = 0\<rparr>"

theorem syscall_unknown_number_witness:
  "\<exists>s'. syscall_entry small_env (zero_registers\<lparr>reg_rax := 0x1222\<rparr>) small_sys = Some (Returned (), s') \<and>
    reg_rax (user_ctx (sy_kernel s')) = neg_errno ENOSYS"
proof -
  have "syscall_get_name (reg_rax (zero_registers\<lparr>reg_rax := 0x1222\<rparr>)) = ''(unnamed)''" "current (sy_kernel small_sys) = Some 1"
    by (simp_all add: syscall_get_name_def syscall_name_def SYSCALL_nop_def SYSCALL_ipc_respond_def small_sys_def sy_kernel_def)
  from syscall_unknown_number [OF this, of small_env] show ?thesis by (simp add: set_ctx_def set_kernel_def sy_kernel_def)
qed

text \<open>A descriptor that is not open is refused alike by every call that takes one: reading, writing, seeking,
  controlling, calling and closing all return \<open>-EBADF\<close> and change nothing, for negative, too large and unused numbers.\<close>

theorem syscall_bad_descriptor:
  assumes bad: "table_get (fd_of (reg_rdi ctx)) (p_table (sy_procs s p)) = Inl EBADF"
    and op: "i \<in> {0x10, 0x11, 0x12, 0x1f, 0x41, 0x0a}"
  shows "\<exists>handler s'. syscall_handler i = Some handler \<and> handler e ctx p s = Some (Returned (Inl EBADF), s') \<and>
    sy_ipc s' = sy_ipc s \<and> sy_handles s' = sy_handles s \<and> sy_objects s' = sy_objects s \<and> sy_procs s' = sy_procs s"
proof -
  have g: "get_handle (fd_of (reg_rdi ctx)) p s = Some (Inl EBADF)" using bad by (simp add: get_handle_def)
  have c: "table_close (fd_of (reg_rdi ctx)) (p_table (sy_procs s p)) (sy_handles s) =
      Some (Inl EBADF, p_table (sy_procs s p), sy_handles s)" using bad by (simp add: table_close_def)
  consider "i = 0x10" | "i = 0x11" | "i = 0x12" | "i = 0x1f" | "i = 0x41" | "i = 0x0a" using op by blast
  then show ?thesis
    by cases (simp_all add: syscall_handler_def sys_read_def sys_write_def sys_seek_def sys_objctl_def sys_ipc_call_def
        sys_close_def g c put_table_def upd_proc_def fun_upd_idem)
qed

theorem syscall_bad_descriptor_witness:
  "\<exists>handler s'. syscall_handler 0x10 = Some handler \<and>
    handler small_env (zero_registers\<lparr>reg_rdi := 0xffffffff\<rparr>) 0 small_sys = Some (Returned (Inl EBADF), s')"
proof -
  have "table_get (fd_of (reg_rdi (zero_registers\<lparr>reg_rdi := 0xffffffff\<rparr>))) (p_table (sy_procs small_sys 0)) = Inl EBADF"
    by (simp add: fd_of_def table_get_def)
  from syscall_bad_descriptor [OF this, where i = "0x10" and e = small_env] show ?thesis by blast
qed

section \<open>Mapping stays in user space\<close>

lemma find_region_spec:
  "find_region hint len i rg xs = Some (j, r) \<Longrightarrow>
   rg = Some (j, r) \<or> (\<exists>k. j = i + k \<and> k < length xs \<and> xs ! k = r \<and> sint len \<le> sint (space_after r (drop (k + 1) xs)))"
proof (induction xs arbitrary: i rg)
  case (Cons x xs)
  have step: "rg = Some (j, r) \<or> (\<exists>k. j = i + k \<and> k < length (x # xs) \<and> (x # xs) ! k = r \<and>
      sint len \<le> sint (space_after r (drop (k + 1) (x # xs))))"
    if f: "find_region hint len (i + 1) rg' xs = Some (j, r)" and
      rg': "rg' = rg \<or> rg' = Some (i, x) \<and> sint len \<le> sint (space_after x xs)" for rg'
    using Cons.IH [OF f] rg'
  proof (elim disjE exE conjE)
    fix k assume "j = i + 1 + k" "k < length xs" "xs ! k = r" "sint len \<le> sint (space_after r (drop (k + 1) xs))"
    then show ?thesis by (intro disjI2 exI [of _ "k + 1"]) simp
  next
    fix k assume "j = i + 1 + k" "k < length xs" "xs ! k = r" "sint len \<le> sint (space_after r (drop (k + 1) xs))"
    then show ?thesis by (intro disjI2 exI [of _ "k + 1"]) simp
  qed auto
  show ?case
  proof (cases "sint len \<le> sint (space_after x xs)")
    case True
    have here: ?thesis if "Some (i, x) = Some (j, r)" using True that by (intro disjI2 exI [of _ 0]) simp
    show ?thesis
    proof (cases "va_end x < hint")
      case True
      then show ?thesis using Cons.prems \<open>sint len \<le> sint (space_after x xs)\<close> by (intro step) auto
    next
      case False
      then show ?thesis using Cons.prems True here by (auto split: option.splits if_splits)
    qed
  next
    case False
    then show ?thesis using Cons.prems by (intro step) auto
  qed
qed simp

lemma region_space:
  fixes a b len :: u64
  assumes "0 <s len" and "sint len \<le> sint (b - a)" and "unat a \<le> 2 ^ 47" and "unat b \<le> 2 ^ 47"
  shows "unat a + unat len \<le> unat b"
proof -
  have l: "unat len < 2 ^ 63" "0 < sint len" using assms(1) sint_pos_unat [of len] by (auto simp: word_sless_alt)
  then have "0 <s b - a" using assms(2) by (simp add: word_sless_alt)
  then have d: "unat (b - a) < 2 ^ 63" by (simp add: sint_pos_unat)
  have "int (unat len) \<le> int (unat (b - a))" using assms(2) unfolding sint_small [OF l(1)] sint_small [OF d] .
  then have le: "unat len \<le> unat (b - a)" by (simp only: of_nat_le_iff)
  have "a \<le> b"
  proof (rule ccontr)
    assume "\<not> a \<le> b"
    then have lt: "unat b < unat a" by (simp add: word_le_nat_alt)
    have "unat (b - a) = unat b + 2 ^ 64 - unat a"
      using lt by (simp add: unat_sub_if_size word_size)
    then show False using d assms(3) lt by simp
  qed
  then have "unat (b - a) = unat b - unat a" by (rule unat_sub)
  then show ?thesis using le \<open>a \<le> b\<close> by (simp add: word_le_nat_alt)
qed

lemma vm_movable_bounds:
  assumes ok: "areas_ok (vm_areas v)" and run: "vm_alloc_movable h hint len prot v s = Some (Inr a, v', s')"
  shows "assert_valid a len = Some ()" and "unat a + unat len \<le> 2 ^ 47"
proof -
  let ?h = "movable_hint hint" and ?full = "list_begin # vm_areas v"
  have mh: "?h < ADDR_MAX" by (auto simp: movable_hint_def ADDR_MAX_def ADDR_MIN_def MEM_LOW_HALF_MAX_def PAGE_SIZE_def ADDR_DEFAULT_HINT_def)
  have hl: "\<not> ADDR_MAX < ?h + len" using run by (auto simp: vm_alloc_movable_def Let_def split: if_splits)
  then obtain i r where fr: "find_region ?h len 0 None ?full = Some (i, r)"
    using run by (auto simp: vm_alloc_movable_def Let_def split: if_splits option.splits bind_splits sum.splits)
  define nb where "nb = (case drop (i + 1) ?full of [] \<Rightarrow> ADDR_MAX | y # _ \<Rightarrow> va_begin y)"
  have a: "a = clamp ?h (va_end r) nb" and valid: "assert_valid (clamp ?h (va_end r) nb) len = Some ()"
    using run hl fr unfolding vm_alloc_movable_def Let_def nb_def by (auto split: if_splits bind_splits sum.splits)
  show "assert_valid a len = Some ()" using a valid by simp
  have len: "0 <s len" using valid by (auto simp: assert_valid_def kassert_def split: if_splits)
  obtain k where k: "i = k" "k < length ?full" "?full ! k = r" "sint len \<le> sint (space_after r (drop (k + 1) ?full))"
    using find_region_spec [OF fr] by auto
  have sp: "sint len \<le> sint (nb - va_end r)" using k(1,4) by (simp add: space_after_def nb_def)
  have amax: "unat ADDR_MAX = 2 ^ 47" by (simp add: ADDR_MAX_def MEM_LOW_HALF_MAX_def)
  have ends: "unat (va_end x) \<le> 2 ^ 47" "unat (va_begin x) \<le> 2 ^ 47" if "x \<in> set ?full" for x
    using that ok amax by (auto simp: areas_ok_def list_begin_def word_le_nat_alt word_less_nat_alt ADDR_MIN_def PAGE_SIZE_def)
  have re: "unat (va_end r) \<le> 2 ^ 47" using ends(1) [of r] k(2,3) nth_mem by blast
  have nbm: "unat nb \<le> 2 ^ 47"
  proof (cases "drop (i + 1) ?full")
    case (Cons y ys)
    then have "y \<in> set ?full" by (metis in_set_dropD list.set_intros(1))
    then show ?thesis using ends(2) Cons by (simp add: nb_def)
  qed (simp add: nb_def amax)
  have sum: "unat (?h + len) = unat ?h + unat len"
  proof -
    have "unat len < 2 ^ 63" using len by (simp add: sint_pos_unat)
    moreover have "unat ?h < 2 ^ 47" using mh amax by (simp add: word_less_nat_alt)
    ultimately have "unat ?h + unat len < 2 ^ LENGTH(64)" by simp
    then show ?thesis by (rule unat_add_lem [THEN iffD1])
  qed
  have hs: "unat ?h + unat len \<le> 2 ^ 47" using hl sum amax by (simp add: word_less_nat_alt)
  consider "a = va_end r" | "a = nb" "nb < ?h" | "a = ?h" using a by (auto simp: clamp_def split: if_splits)
  then show "unat a + unat len \<le> 2 ^ 47"
  proof cases
    case 1
    then show ?thesis using region_space [OF len sp re nbm] nbm by simp
  next
    case 2
    then show ?thesis using hs by (simp add: word_less_nat_alt)
  next
    case 3
    then show ?thesis using hs by simp
  qed
qed

lemma fixed_bounds:
  assumes "assert_valid a len = Some ()" and "\<not> range_invalid a len"
  shows "unat a + unat len \<le> 2 ^ 47"
proof -
  have nr: "\<not> (ADDR_MAX \<le> a \<or> ADDR_MAX < a + len)" using assms(2) by (simp add: range_invalid_def)
  have "unat (a + len) \<le> unat ADDR_MAX" using in_range_sum(2) [OF nr assms(1)] by (simp only: word_le_nat_alt)
  then show ?thesis unfolding in_range_sum(3) [OF nr assms(1)] by (simp add: ADDR_MAX_def MEM_LOW_HALF_MAX_def)
qed

text \<open>Mapping never leaves user space: whatever address, length, protection and flags a program passes to
  \<open>virtual_map\<close>, the range it is given is page aligned, not empty, and lies below the end of user
  space, even where the choice of the address ignores other areas.\<close>

theorem virtual_map_in_user_space:
  assumes ok: "areas_ok (vm_areas (p_vm (sy_procs s p)))"
    and run: "sys_virtual_map e ctx p s = Some (Returned (Inr a), s')"
  shows "page_aligned64 a \<and> 0 < unat (round_up_p2 (reg_rsi ctx) 4096) \<and> unat a + unat (round_up_p2 (reg_rsi ctx) 4096) \<le> 2 ^ 47"
proof -
  let ?len = "round_up_p2 (reg_rsi ctx) 4096" and ?v = "p_vm (sy_procs s p)"
  have ps: "word_of_nat PAGE_SIZE = (4096 :: u64)" by (simp add: PAGE_SIZE_def)
  have "assert_valid a ?len = Some () \<and> unat a + unat ?len \<le> 2 ^ 47"
  proof (cases "reg_r10 ctx AND (MAP_FIXED OR MAP_FIXED_NOREPLACE) \<noteq> 0")
    case False
    then have "\<exists>v' pages. vm_alloc_movable (m_hhdm (e_machine e)) (round_down_p2 (reg_rdi ctx) 4096) ?len (ucast (reg_rdx ctx)) ?v (sy_pages s)
        = Some (Inr a, v', pages)"
      using run unfolding sys_virtual_map_def Let_def ps by (auto split: option.splits if_splits bind_splits)
    then show ?thesis using vm_movable_bounds [OF ok] by blast
  next
    case True
    then have "a = reg_rdi ctx \<and> ((\<exists>v' pages. vm_alloc_fixed_overwrite (m_hhdm (e_machine e)) a ?len (ucast (reg_rdx ctx)) ?v (sy_pages s)
        = Some (Inr (), v', pages)) \<or> (\<exists>v' pages. vm_alloc_fixed_noreplace (m_hhdm (e_machine e)) a ?len (ucast (reg_rdx ctx)) ?v (sy_pages s)
        = Some (Inr (), v', pages)))"
      using run unfolding sys_virtual_map_def Let_def ps
      by (auto split: option.splits if_splits bind_splits sum.splits simp: map_sum_def)
    then have "assert_valid a ?len = Some () \<and> \<not> range_invalid a ?len"
      by (auto simp: vm_alloc_fixed_overwrite_def vm_alloc_fixed_noreplace_def split: bind_splits if_splits)
    then show ?thesis using fixed_bounds by blast
  qed
  then show ?thesis using valid_length by (auto simp: assert_valid_def kassert_def split: if_splits)
qed

theorem virtual_map_in_user_space_witness:
  "\<exists>s'. sys_virtual_map small_env (zero_registers\<lparr>reg_rdi := 0x5000, reg_rsi := 1\<rparr>) 0 small_sys = Some (Returned (Inr 0x5000), s') \<and>
    page_aligned64 0x5000"
proof -
  have ok: "areas_ok (vm_areas (p_vm (sy_procs small_sys 0)))"
    by (simp add: small_sys_def small_vm_def ADDR_MAX_def MEM_LOW_HALF_MAX_def)
  have "\<exists>s'. sys_virtual_map small_env (zero_registers\<lparr>reg_rdi := 0x5000, reg_rsi := 1\<rparr>) 0 small_sys = Some (Returned (Inr 0x5000), s')"
    by (simp add: sys_virtual_map_def small_env_def small_sys_def small_vm_def zero_registers_def round_up_p2_def round_down_p2_def
        check_user_range_def is_user_pointer_def word_sless_alt MAP_FIXED_def MAP_FIXED_NOREPLACE_def new_proc_def
        vm_alloc_movable_def movable_hint_def ADDR_MIN_def ADDR_MAX_def PAGE_SIZE_def MEM_LOW_HALF_MAX_def list_begin_def
        space_after_def clamp_def assert_valid_def page_aligned64_def map_area_def Let_def PROT_EXEC_def PROT_READ_def PROT_WRITE_def
        node_mem new_area_def free_node_def VM_AREA_CLASS kfree_class_def)
  then obtain s' where run: "sys_virtual_map small_env (zero_registers\<lparr>reg_rdi := 0x5000, reg_rsi := 1\<rparr>) 0 small_sys = Some (Returned (Inr 0x5000), s')"
    by blast
  from virtual_map_in_user_space [OF ok run] run show ?thesis by blast
qed

end
