(* ===== verification/Thread_Tree.thy ===== *)
theory Thread_Tree
  imports Syscall
begin

text \<open>
  The threads of a process: the tree that \<open>Process::spawn_thread\<close> (\<open>kernel/src/user/process.cxx\<close>) fills is a
  binary search tree by address. The descent \<open>find_leaf\<close> is the one of \<open>Syscall\<close>, the tree operations are
  those of \<open>Treap\<close>; the interface of a set of nodes is stated as a locale that extends the one of sequences.
\<close>

section \<open>The descent finds the place of a new thread\<close>

lemma find_leaf_place:
  assumes "path_shape t q c" "shape t (path_parent c) (path_dir c) q (Node l x r)"
    "\<forall>y\<in>set (path_before c). y < n" "\<forall>y\<in>set (path_after c). n < y" "sorted (inorder (plug c (Node l x r)))"
    "n \<notin> set_tree (plug c (Node l x r))"
  shows "\<exists>c' p dir other. find_leaf x n t = Some (p, dir) \<and> plug c (Node l x r) = plug c' (fork dir Leaf p other)
    \<and> tn_child dir (tnodes t p) = None
    \<and> (\<forall>y\<in>set (path_before ((dir, p, other) # c')). y < n) \<and> (\<forall>y\<in>set (path_after ((dir, p, other) # c')). n < y)"
  using assms
proof (induction "Node l x r" arbitrary: c q l x r)
  case (Node l x r)
  let ?dir = "x < n"
  let ?side = "if ?dir then r else l" and ?other = "if ?dir then l else r"
  let ?c = "(?dir, x, ?other) # c"
  have n: "n \<noteq> x" "n \<notin> set_tree ?other" using Node.prems(6) by auto
  have f: "fork ?dir ?side x ?other = Node l x r" by (auto simp: fork_def)
  then have pl: "plug c (Node l x r) = plug ?c ?side" by simp
  have so: "sorted (path_before c @ inorder l @ x # inorder r @ path_after c)"
    using Node.prems(5) by (simp add: inorder_plug)
  have lt: "\<forall>y\<in>set_tree l. y \<le> x" "\<forall>y\<in>set_tree r. x \<le> y"
    using so by (auto simp: sorted_append)
  have bef: "\<forall>y\<in>set (path_before ?c). y < n"
    using Node.prems(3) lt by (cases ?dir) (auto dest: order_le_less_trans)
  have aft: "\<forall>y\<in>set (path_after ?c). n < y"
  proof (cases ?dir)
    case False
    then have "n < x" using n by simp
    with Node.prems(4) lt False show ?thesis by (auto dest: order_less_le_trans)
  qed (use Node.prems(4) in auto)
  have sh: "tn_child ?dir (tnodes t x) = Some y \<Longrightarrow> path_shape t (Some y) ?c" for y
    using Node.prems(1,2) by (cases ?dir) auto
  show ?case
  proof (cases ?side)
    case Leaf
    then have free: "tn_child ?dir (tnodes t x) = None" using Node.prems(2) by (cases ?dir) auto
    then have "find_leaf x n t = Some (x, ?dir)" by (subst find_leaf.simps) (simp add: Let_def)
    moreover have "plug c (Node l x r) = plug c (fork ?dir Leaf x ?other)" using f Leaf by simp
    ultimately show ?thesis using free bef aft by blast
  next
    case side: (Node sl y sr)
    then have child: "tn_child ?dir (tnodes t x) = Some y" using Node.prems(2) by (cases ?dir) auto
    have step: "find_leaf x n t = find_leaf y n t" using child by (subst find_leaf.simps) (simp add: Let_def)
    have "shape t (path_parent ?c) (path_dir ?c) (Some y) (Node sl y sr)"
      using Node.prems(2) side by (cases ?dir) auto
    note prems = sh [OF child] this bef aft Node.prems(5) [unfolded pl side] Node.prems(6) [unfolded pl side]
    have "\<exists>c' p dir other. find_leaf y n t = Some (p, dir) \<and> plug ?c (Node sl y sr) = plug c' (fork dir Leaf p other)
      \<and> tn_child dir (tnodes t p) = None
      \<and> (\<forall>y\<in>set (path_before ((dir, p, other) # c')). y < n) \<and> (\<forall>y\<in>set (path_after ((dir, p, other) # c')). n < y)"
    proof (cases ?dir)
      case True
      then have "r = Node sl y sr" using side by simp
      from Node.hyps(2) [OF this prems] show ?thesis .
    next
      case False
      then have "l = Node sl y sr" using side by simp
      from Node.hyps(1) [OF this prems] show ?thesis .
    qed
    then show ?thesis unfolding step pl side .
  qed
qed

text \<open>A tree of threads with the given addresses, and nodes outside it that are free to be added.\<close>

definition thread_tree :: "ttree \<Rightarrow> nat list \<Rightarrow> bool" where
  "thread_tree t xs \<longleftrightarrow> treap_holds t xs \<and> sorted xs \<and> (\<forall>z. z \<notin> set xs \<longrightarrow> tn_parent (tnodes t z) = None)"

lemma thread_tree_distinct: "thread_tree t xs \<Longrightarrow> distinct xs"
  by (auto simp: thread_tree_def treap_holds_def treap_of_def tree_of_def)

lemma insort_between:
  "\<forall>y\<in>set xs. y < (n :: nat) \<Longrightarrow> \<forall>y\<in>set ys. n < y \<Longrightarrow> insort n (xs @ ys) = xs @ n # ys"
proof (induction xs)
  case Nil
  then show ?case by (cases ys) auto
next
  case (Cons x xs)
  then show ?case by auto
qed

lemma thread_tree_insert_law:
  assumes t: "thread_tree t xs" and n: "n \<notin> set xs"
  shows "\<exists>t'. thread_tree_insert n t = Some t' \<and> thread_tree t' (insort n xs)"
proof -
  obtain tr where tr: "treap_of t tr" "inorder tr = xs" using t by (auto simp: thread_tree_def treap_holds_def)
  have par: "tn_parent (tnodes t n) = None" and nt: "n \<notin> set_tree tr"
    using t n tr(2) by (auto simp: thread_tree_def simp flip: set_inorder)
  show ?thesis
  proof (cases tr)
    case Leaf
    then have root: "troot t = None" and xs: "xs = []" using tr by (auto simp: treap_of_def tree_of_def)
    from tree_insert_root [OF tr(1) [unfolded Leaf] par] obtain t' where t': "insert_at None False n t = Some t'"
      "treap_of t' (Node Leaf n Leaf)" "\<forall>z. z \<noteq> n \<longrightarrow> tnodes t' z = tnodes t z" by blast
    have "thread_tree_insert n t = Some t'" using root t'(1) by (simp add: thread_tree_insert_def insert_at_def)
    moreover have "thread_tree t' [n]"
      using t' t by (auto simp: thread_tree_def treap_holds_def xs)
    ultimately show ?thesis by (simp add: xs)
  next
    case (Node l x r)
    then have sh: "shape t None False (troot t) (Node l x r)" using tr by (simp add: treap_of_def tree_of_def)
    then have root: "troot t = Some x" by simp
    have "sorted xs" using t by (simp add: thread_tree_def)
    then have "\<exists>c' p dir other. find_leaf x n t = Some (p, dir) \<and> plug [] (Node l x r) = plug c' (fork dir Leaf p other)
        \<and> tn_child dir (tnodes t p) = None
        \<and> (\<forall>y\<in>set (path_before ((dir, p, other) # c')). y < n) \<and> (\<forall>y\<in>set (path_after ((dir, p, other) # c')). n < y)"
      by (intro find_leaf_place [of t "Some x"]) (use sh root nt Node tr(2) in auto)
    then obtain c p dir other where leaf: "find_leaf x n t = Some (p, dir)" "tr = plug c (fork dir Leaf p other)"
      and around: "\<forall>y\<in>set (path_before ((dir, p, other) # c)). y < n" "\<forall>y\<in>set (path_after ((dir, p, other) # c)). n < y"
      using Node by auto
    from insert_at_node [OF tr(1) [unfolded leaf(2)] nt [unfolded leaf(2)] par] obtain t' tr' where t':
      "insert_at (Some p) dir n t = Some t'" "treap_of t' tr'"
      "inorder tr' = path_before ((dir, p, other) # c) @ n # path_after ((dir, p, other) # c)"
      "\<forall>z. z \<notin> set_tree tr' \<longrightarrow> tnodes t' z = tnodes t z" by blast
    have xs: "xs = path_before ((dir, p, other) # c) @ path_after ((dir, p, other) # c)"
      using tr(2) leaf(2) by (auto simp: inorder_plug fork_def)
    have ins: "inorder tr' = insort n xs" unfolding t'(3) xs by (rule insort_between [OF around, symmetric])
    have set: "set_tree tr' = insert n (set xs)" using arg_cong [OF ins, of set] by (simp add: set_insort_key)
    have "thread_tree_insert n t = Some t'" using root leaf(1) t'(1) by (simp add: thread_tree_insert_def)
    moreover have "thread_tree t' (insort n xs)"
      using t t'(2,4) ins set by (auto simp: thread_tree_def treap_holds_def sorted_insort set_insort_key)
    ultimately show ?thesis by blast
  qed
qed

lemma thread_tree_remove_law:
  assumes t: "thread_tree t (xs @ n # ys)"
  shows "\<exists>t'. tree_remove n t = Some t' \<and> thread_tree t' (xs @ ys)"
proof -
  obtain tr where tr: "treap_of t tr" "inorder tr = xs @ n # ys" using t by (auto simp: thread_tree_def treap_holds_def)
  from treap_remove_sequence [OF this] obtain t' tr' where t': "tree_remove n t = Some t'" "treap_of t' tr'"
    "inorder tr' = xs @ ys" "tnodes t' n = null_node" "\<forall>z. z \<notin> set_tree tr \<longrightarrow> tnodes t' z = tnodes t z" by blast
  have "set_tree tr = insert n (set xs \<union> set ys)" using arg_cong [OF tr(2), of set] by simp
  then have "tn_parent (tnodes t' z) = None" if "z \<notin> set (xs @ ys)" for z
    using t t'(4,5) that by (cases "z = n") (auto simp: thread_tree_def null_node_def)
  then show ?thesis using t t'(1-3) by (auto simp: thread_tree_def treap_holds_def sorted_append)
qed

section \<open>A set of nodes behind an interface\<close>

text \<open>Operations of a client on a set of nodes, run on a store and on the set it stands for. Adding a node that
  is in the set, or dropping one that is not, is a use the code never makes.\<close>

datatype 'n set_op = Add 'n | Drop 'n

fun run_store :: "('n \<Rightarrow> 's \<Rightarrow> 's option) \<Rightarrow> ('n \<Rightarrow> 's \<Rightarrow> 's option) \<Rightarrow> 'n set_op list \<Rightarrow> 's \<Rightarrow> 's option" where
  "run_store ins del [] s = Some s"
| "run_store ins del (Add n # ops) s = Option.bind (ins n s) (run_store ins del ops)"
| "run_store ins del (Drop n # ops) s = Option.bind (del n s) (run_store ins del ops)"

fun run_set :: "'n set_op list \<Rightarrow> 'n set \<Rightarrow> 'n set option" where
  "run_set [] S = Some S"
| "run_set (Add n # ops) S = (if n \<in> S then None else run_set ops (insert n S))"
| "run_set (Drop n # ops) S = (if n \<in> S then run_set ops (S - {n}) else None)"

locale node_set = node_sequence holds first_node next_node drop_node
  for holds :: "'s \<Rightarrow> ('n :: linorder) list \<Rightarrow> bool"
    and first_node :: "'s \<Rightarrow> 'n option option"
    and next_node :: "'n \<Rightarrow> 's \<Rightarrow> 'n option option"
    and drop_node :: "'n \<Rightarrow> 's \<Rightarrow> 's option" +
  fixes add_node :: "'n \<Rightarrow> 's \<Rightarrow> 's option"
  assumes sorted_law: "holds s xs \<Longrightarrow> sorted xs \<and> distinct xs"
    and add_law: "holds s xs \<Longrightarrow> n \<notin> set xs \<Longrightarrow> \<exists>s'. add_node n s = Some s' \<and> holds s' (insort n xs)"

context node_set
begin

lemma run_refines:
  "holds s (sorted_list_of_set S) \<Longrightarrow> finite S \<Longrightarrow> run_set ops S = Some S' \<Longrightarrow>
    \<exists>s'. run_store add_node drop_node ops s = Some s' \<and> holds s' (sorted_list_of_set S') \<and> finite S'"
proof (induction ops arbitrary: s S)
  case Nil
  then show ?case by simp
next
  case (Cons op ops)
  show ?case
  proof (cases op)
    case (Add n)
    then have n: "n \<notin> S" "run_set ops (insert n S) = Some S'" using Cons.prems(3) by (auto split: if_split_asm)
    obtain s1 where s1: "add_node n s = Some s1" "holds s1 (insort n (sorted_list_of_set S))"
      using add_law [OF Cons.prems(1), of n] n Cons.prems(2) by auto
    have "holds s1 (sorted_list_of_set (insert n S))" using s1(2) n(1) Cons.prems(2) by simp
    from Cons.IH [OF this _ n(2)] s1(1) Cons.prems(2) Add show ?thesis by simp
  next
    case (Drop n)
    then have n: "n \<in> S" "run_set ops (S - {n}) = Some S'" using Cons.prems(3) by (auto split: if_split_asm)
    then obtain xs ys where eq: "sorted_list_of_set S = xs @ n # ys" 
      using Cons.prems(2) split_list [of n "sorted_list_of_set S"] by auto
    then have "n \<notin> set xs" using sorted_law [OF Cons.prems(1)] by auto
    then have "xs @ ys = remove1 n (sorted_list_of_set S)" by (simp add: eq remove1_append)
    then have "xs @ ys = sorted_list_of_set (S - {n})" by (simp add: sorted_list_of_set_remove Cons.prems(2))
    with drop_law [of s xs n ys] Cons.prems(1) eq obtain s1 where "drop_node n s = Some s1" "holds s1 (sorted_list_of_set (S - {n}))"
      by auto
    with Cons.IH [of s1 "S - {n}"] n(2) Cons.prems(2) Drop show ?thesis by simp
  qed
qed

lemma run_then_walk:
  assumes "holds s []" "run_set ops {} = Some S'"
  shows "\<exists>s' n. run_store add_node drop_node ops s = Some s' \<and> first_node s' = Some n
    \<and> walk_from (card S') next_node s' n = Some (sorted_list_of_set S')"
proof -
  obtain s' where s': "run_store add_node drop_node ops s = Some s'" "holds s' (sorted_list_of_set S')" "finite S'"
    using run_refines [of s "{}"] assms by auto
  then show ?thesis using walk_all [OF s'(2)] by auto
qed

end

interpretation threads: node_set thread_tree tree_begin tree_next tree_remove thread_tree_insert
proof
  show "thread_tree s xs \<Longrightarrow> tree_begin s = Some (first_or None xs)" for s xs
    by (rule treap.first_law) (simp add: thread_tree_def)
  show "thread_tree s (xs @ x # ys) \<Longrightarrow> tree_next x s = Some (first_or None ys)" for s xs x ys
    by (rule treap.next_law [of s xs]) (simp add: thread_tree_def)
  show "thread_tree s xs \<Longrightarrow> sorted xs \<and> distinct xs" for s xs
    using thread_tree_distinct by (auto simp: thread_tree_def)
qed (rule thread_tree_remove_law thread_tree_insert_law; assumption)+

text \<open>C12. The thread tree of a process is a set of threads ordered by address: any sequence of spawning new
  threads and removing present ones, from the empty tree of a new process, runs without a failed assertion,
  and a walk over the tree it leaves ends and visits exactly the threads that remain, in ascending order.\<close>

theorem thread_tree_refines_set:
  assumes "run_set ops {} = Some S"
  shows "\<exists>t n. run_store thread_tree_insert tree_remove ops (p_threads new_proc) = Some t \<and> tree_begin t = Some n
    \<and> walk_from (card S) tree_next t n = Some (sorted_list_of_set S)"
proof (rule threads.run_then_walk [OF _ assms])
  have "treap_of (p_threads new_proc) Leaf" by (simp add: treap_of_def tree_of_def new_proc_def)
  then show "thread_tree (p_threads new_proc) []"
    by (auto simp: thread_tree_def treap_holds_def new_proc_def null_node_def)
qed

lemma thread_tree_refines_set_witness:
  "\<exists>t n. run_store thread_tree_insert tree_remove [Add 0x30, Add 0x10, Add 0x20, Drop 0x30] (p_threads new_proc) = Some t
    \<and> tree_begin t = Some n \<and> walk_from 2 tree_next t n = Some [0x10, 0x20]"
proof -
  have "run_set [Add 0x30, Add 0x10, Add 0x20, Drop (0x30 :: nat)] {} = Some {0x10, 0x20}" by auto
  from thread_tree_refines_set [OF this] show ?thesis by (simp add: numeral_2_eq_2)
qed

end
