(* ===== verification/Printf.thy ===== *)
theory Printf
  imports Fluke_Prelude
begin

text \<open>
  Formatted output of the kernel: \<open>kernel/src/print/printf.c\<close>.

  The output is the string of all characters handed to \<open>write\<close> and \<open>putchar\<close>. A variable argument list is
  the list of the 64-bit slots that are left, and reading past its end is \<open>None\<close>, like a panic. \<open>m\<close> is the
  memory that string arguments point into. A format string is the list of its characters before the
  terminating NUL. Fields of C type \<open>int\<close> are integers whose overflow, undefined in C, is \<open>None\<close>.
\<close>

section \<open>Output and arguments\<close>

record pout =
  pargs :: "u64 list"
  pdata :: string

definition kwrite :: "string \<Rightarrow> pout \<Rightarrow> pout" where
  "kwrite data p = p\<lparr>pdata := pdata p @ data\<rparr>"

definition kputchar :: "char \<Rightarrow> pout \<Rightarrow> pout" where
  "kputchar c p = kwrite [c] p"

definition va_arg :: "pout \<Rightarrow> (u64 \<times> pout) option" where
  "va_arg p = (case pargs p of [] \<Rightarrow> None | a # as \<Rightarrow> Some (a, p\<lparr>pargs := as\<rparr>))"

text \<open>Reading a slot as \<open>unsigned\<close> and as \<open>int\<close>.\<close>

definition as_unsigned :: "u64 \<Rightarrow> u64" where
  "as_unsigned a = ucast (ucast a :: u32)"

definition as_int :: "u64 \<Rightarrow> int" where
  "as_int a = sint (ucast a :: u32)"

record fmt_specifier =
  precision :: int
  width :: int
  len_mod :: int
  zero_pad :: bool
  has_precision :: bool

definition afmt0 :: fmt_specifier where
  "afmt0 = \<lparr>precision = 0, width = 0, len_mod = 0, zero_pad = False, has_precision = False\<rparr>"

definition INT_MAX :: int where "INT_MAX = 0x7fffffff"

definition int_range :: "int \<Rightarrow> bool" where
  "int_range i \<longleftrightarrow> - INT_MAX - 1 \<le> i \<and> i \<le> INT_MAX"

section \<open>Numbers\<close>

function count_10 :: "u64 \<Rightarrow> nat" where
  "count_10 v = (if v = 0 then 0 else Suc (count_10 (v div 10)))"
  by pat_completeness auto
termination
  by (relation "measure unat") (auto simp: unat_div unat_gt_0)

function count_16 :: "u64 \<Rightarrow> nat" where
  "count_16 v = (if v = 0 then 0 else Suc (count_16 (v div 16)))"
  by pat_completeness auto
termination
  by (relation "measure unat") (auto simp: unat_div unat_gt_0)

definition digit_count_base_10 :: "u64 \<Rightarrow> nat" where
  "digit_count_base_10 v = (if v = 0 then 1 else count_10 v)"

definition digit_count_base_16 :: "u64 \<Rightarrow> nat" where
  "digit_count_base_16 v = (if v = 0 then 1 else count_16 v)"

fun fill_10 :: "nat \<Rightarrow> u64 \<Rightarrow> string \<Rightarrow> string" where
  "fill_10 0 v buffer = buffer"
| "fill_10 (Suc i) v buffer = fill_10 i (v div 10) (buffer[i := char_of (48 + unat (v mod 10))])"

fun fill_16 :: "nat \<Rightarrow> u64 \<Rightarrow> string \<Rightarrow> string" where
  "fill_16 0 v buffer = buffer"
| "fill_16 (Suc i) v buffer = fill_16 i (drop_bit 4 v) (buffer[i := ''0123456789abcdef'' ! unat (v AND 0xf)])"

definition num_buffer :: "nat \<Rightarrow> string option" where
  "num_buffer digits = do { kassert (digits < 32); Some ((replicate 32 (CHR 0x00))[digits := CHR 0x00]) }"

definition print_num_base_10 :: "u64 \<Rightarrow> nat \<Rightarrow> pout \<Rightarrow> pout option" where
  "print_num_base_10 v digits p = do {
     buffer \<leftarrow> num_buffer digits;
     Some (kwrite (take digits (fill_10 digits v buffer)) p)
   }"

definition print_num_base_16 :: "u64 \<Rightarrow> nat \<Rightarrow> pout \<Rightarrow> pout option" where
  "print_num_base_16 v digits p = do {
     buffer \<leftarrow> num_buffer digits;
     Some (kwrite (take digits (fill_16 digits v buffer)) p)
   }"

section \<open>Padding\<close>

fun print_char_rep :: "char \<Rightarrow> nat \<Rightarrow> pout \<Rightarrow> pout" where
  "print_char_rep ch count p =
     (if 32 \<le> count then print_char_rep ch (count - 32) (kwrite (replicate 32 ch) p)
      else kwrite (take count (replicate 32 ch)) p)"

definition pad :: "fmt_specifier \<Rightarrow> int \<Rightarrow> pout \<Rightarrow> pout" where
  "pad afmt characters p =
     (if characters < width afmt
      then print_char_rep (if zero_pad afmt then CHR ''0'' else CHR '' '') (nat (width afmt - characters)) p
      else p)"

section \<open>Conversions\<close>

definition read_number :: "fmt_specifier \<Rightarrow> pout \<Rightarrow> (u64 \<times> pout) option" where
  "read_number afmt p =
     (if len_mod afmt \<in> {-2, -1, 0} then map_option (\<lambda>(a, p). (as_unsigned a, p)) (va_arg p)
      else if len_mod afmt \<in> {1, 2} then va_arg p
      else None)"

definition print_unsigned :: "fmt_specifier \<Rightarrow> pout \<Rightarrow> pout option" where
  "print_unsigned afmt p = do {
     (v, p) \<leftarrow> read_number afmt p;
     let digits = digit_count_base_10 v;
     print_num_base_10 v digits (pad afmt (int digits) p)
   }"

definition print_hex :: "fmt_specifier \<Rightarrow> pout \<Rightarrow> pout option" where
  "print_hex afmt p = do {
     (v, p) \<leftarrow> read_number afmt p;
     let digits = digit_count_base_16 v;
     print_num_base_16 v digits (pad afmt (int digits) p)
   }"

text \<open>\<open>-value\<close> of the smallest \<open>isize\<close>, an overflow in C, is its two's complement negation.\<close>

definition print_signed :: "fmt_specifier \<Rightarrow> pout \<Rightarrow> pout option" where
  "print_signed afmt p = do {
     (v, p) \<leftarrow> (if len_mod afmt \<in> {-2, -1, 0} then map_option (\<lambda>(a, p). (word_of_int (as_int a), p)) (va_arg p)
       else if len_mod afmt \<in> {1, 2} then va_arg p
       else None);
     (v, afmt, p) \<leftarrow> (if v <s 0 then do {
         kassert (int_range (width afmt - 1));
         Some (- v, afmt\<lparr>width := width afmt - 1\<rparr>, kputchar (CHR ''-'') p)
       } else Some (v, afmt, p));
     let digits = digit_count_base_10 v;
     print_num_base_10 v digits (pad afmt (int digits) p)
   }"

function strnlen :: "(u64 \<Rightarrow> char) \<Rightarrow> u64 \<Rightarrow> u64 \<Rightarrow> nat" where
  "strnlen m a n = (if n = 0 then 0 else if m a = CHR 0x00 then 0 else Suc (strnlen m (a + 1) (n - 1)))"
  by pat_completeness auto
termination
  by (relation "measure (\<lambda>(m, a, n). unat n)") (auto simp: unat_minus_one unat_gt_0)

definition chars_at :: "(u64 \<Rightarrow> char) \<Rightarrow> u64 \<Rightarrow> nat \<Rightarrow> string" where
  "chars_at m a n = map (\<lambda>i. m (a + word_of_nat i)) [0..<n]"

definition print_string :: "(u64 \<Rightarrow> char) \<Rightarrow> fmt_specifier \<Rightarrow> pout \<Rightarrow> pout option" where
  "print_string m afmt p = do {
     (str, p) \<leftarrow> va_arg p;
     let limit = (if has_precision afmt then precision afmt else INT_MAX);
     let chars = strnlen m str (word_of_int limit);
     kassert (int_range (int chars));
     Some (kwrite (chars_at m str chars) (pad afmt (int chars) p))
   }"

definition print_char :: "pout \<Rightarrow> pout option" where
  "print_char p = do { (a, p) \<leftarrow> va_arg p; Some (kputchar (char_of (unat (ucast a :: u8))) p) }"

section \<open>Format specifiers\<close>

datatype fmt_state = FLAG | WIDTH | PRECISION

text \<open>A digit of the specifier, in the three states.\<close>

definition fmt_digit :: "char \<Rightarrow> fmt_state \<Rightarrow> fmt_specifier \<Rightarrow> (fmt_state \<times> fmt_specifier) option" where
  "fmt_digit c st afmt =
     (let digit = int (of_char c) - 48 in
      case st of
        FLAG \<Rightarrow> if c = CHR ''0'' then Some (WIDTH, afmt\<lparr>zero_pad := True\<rparr>)
                else do { kassert (int_range (width afmt * 10 + digit));
                          Some (WIDTH, afmt\<lparr>width := width afmt * 10 + digit\<rparr>) }
      | WIDTH \<Rightarrow> do { kassert (int_range (width afmt * 10 + digit));
                      Some (WIDTH, afmt\<lparr>width := width afmt * 10 + digit\<rparr>) }
      | PRECISION \<Rightarrow> do { kassert (int_range (precision afmt * 10 + digit));
                          Some (PRECISION, afmt\<lparr>precision := precision afmt * 10 + digit\<rparr>) })"

definition is_digit_char :: "char \<Rightarrow> bool" where
  "is_digit_char c \<longleftrightarrow> (48::nat) \<le> of_char c \<and> (of_char c :: nat) \<le> 57"

fun print_fmt_arg ::
    "(u64 \<Rightarrow> char) \<Rightarrow> fmt_state \<Rightarrow> fmt_specifier \<Rightarrow> string \<Rightarrow> pout \<Rightarrow> (string \<times> pout) option" where
  "print_fmt_arg m st afmt [] p = None"
| "print_fmt_arg m st afmt (c # fmt) p =
     (if c = CHR ''d'' \<or> c = CHR ''i'' then map_option (Pair fmt) (print_signed afmt p)
      else if c = CHR ''u'' then map_option (Pair fmt) (print_unsigned afmt p)
      else if c = CHR ''x'' then map_option (Pair fmt) (print_hex afmt p)
      else if c = CHR ''c'' then map_option (Pair fmt) (print_char p)
      else if c = CHR ''s'' then map_option (Pair fmt) (print_string m afmt p)
      else if c = CHR ''p''
        then map_option (Pair fmt) (print_hex (afmt\<lparr>width := 16, len_mod := 2, zero_pad := True\<rparr>) p)
      else if c = CHR ''%'' then Some (fmt, kputchar (CHR ''%'') p)
      else if c = CHR ''h'' then do {
        kassert (int_range (len_mod afmt - 1));
        print_fmt_arg m st (afmt\<lparr>len_mod := len_mod afmt - 1\<rparr>) fmt p }
      else if c = CHR ''l'' then do {
        kassert (int_range (len_mod afmt + 1));
        print_fmt_arg m st (afmt\<lparr>len_mod := len_mod afmt + 1\<rparr>) fmt p }
      else if c = CHR ''z'' then print_fmt_arg m st (afmt\<lparr>len_mod := 1\<rparr>) fmt p
      else if is_digit_char c then do {
        (st, afmt) \<leftarrow> fmt_digit c st afmt;
        print_fmt_arg m st afmt fmt p }
      else if c = CHR ''.'' then print_fmt_arg m PRECISION (afmt\<lparr>has_precision := True\<rparr>) fmt p
      else if c = CHR ''*'' then do {
        kassert (st = PRECISION);
        (a, p) \<leftarrow> va_arg p;
        print_fmt_arg m st (afmt\<lparr>has_precision := True, precision := as_int a\<rparr>) fmt p }
      else None)"

lemma if_SomeE:
  assumes "(if b then x else y) = z" "\<lbrakk>b; x = z\<rbrakk> \<Longrightarrow> P" "\<lbrakk>\<not> b; y = z\<rbrakk> \<Longrightarrow> P"
  shows P
  using assms by (cases b) auto

lemma print_fmt_arg_shorter:
  "print_fmt_arg m st afmt fmt p = Some (fmt', p') \<Longrightarrow> length fmt' < length fmt"
proof (induction fmt arbitrary: st afmt p)
  case Nil
  then show ?case by simp
next
  case (Cons c fmt)
  have IH: "print_fmt_arg m st afmt fmt p = Some (fmt', p') \<Longrightarrow> length fmt' < Suc (length fmt)" for st afmt p
    using Cons.IH less_SucI by blast
  show ?case
    using Cons.prems unfolding print_fmt_arg.simps
    by (elim if_SomeE) (auto dest!: IH simp: bind_eq_Some_conv map_option_eq_Some
        simp del: kassert_bind)
qed

text \<open>\<open>vprintf\<close>: \<open>i\<close> is the number of ordinary characters since \<open>fmt\<close>.\<close>

function vprintf_loop :: "(u64 \<Rightarrow> char) \<Rightarrow> string \<Rightarrow> nat \<Rightarrow> pout \<Rightarrow> pout option" where
  "vprintf_loop m fmt i p =
     (if length fmt \<le> i then Some (if 0 < i then kwrite (take i fmt) p else p)
      else if fmt ! i = CHR ''%'' then
        (case print_fmt_arg m FLAG afmt0 (drop (i + 1) fmt) (if 0 < i then kwrite (take i fmt) p else p) of
           None \<Rightarrow> None
         | Some (fmt, p) \<Rightarrow> vprintf_loop m fmt 0 p)
      else vprintf_loop m fmt (i + 1) p)"
  by pat_completeness auto
termination
  by (relation "measures [\<lambda>(m, fmt, i, p). length fmt, \<lambda>(m, fmt, i, p). length fmt - i]")
    (auto dest!: print_fmt_arg_shorter)

definition vprintf :: "(u64 \<Rightarrow> char) \<Rightarrow> string \<Rightarrow> pout \<Rightarrow> pout option" where
  "vprintf m fmt p = vprintf_loop m fmt 0 p"

definition printf :: "(u64 \<Rightarrow> char) \<Rightarrow> string \<Rightarrow> u64 list \<Rightarrow> string option" where
  "printf m fmt args = map_option pdata (vprintf m fmt \<lparr>pargs = args, pdata = []\<rparr>)"


text \<open>\<open>klog\<close>: the time of the message, then the message. \<open>time\<close> is what \<open>timestamp\<close> returns.\<close>

definition klog :: "(u64 \<Rightarrow> char) \<Rightarrow> u64 \<times> u64 \<Rightarrow> string \<Rightarrow> u64 list \<Rightarrow> string option" where
  "klog m time fmt args = do {
     prefix \<leftarrow> printf m ''[ %6zi.%06zu ] '' [fst time, snd time div 1000];
     message \<leftarrow> printf m fmt args;
     Some (prefix @ message)
   }"

section \<open>Reference: numerals\<close>

fun digits_of :: "nat \<Rightarrow> nat \<Rightarrow> nat list" where
  "digits_of b n = (if n < b \<or> b < 2 then [n] else digits_of b (n div b) @ [n mod b])"

declare digits_of.simps [simp del] count_10.simps [simp del] count_16.simps [simp del]
  print_char_rep.simps [simp del] strnlen.simps [simp del] vprintf_loop.simps [simp del]

lemma digits_of_small: "n < b \<Longrightarrow> digits_of b n = [n]"
  by (subst digits_of.simps) simp

definition value_of :: "nat \<Rightarrow> nat list \<Rightarrow> nat" where
  "value_of b ds = foldl (\<lambda>a d. a * b + d) 0 ds"

text \<open>The \<open>i\<close> lowest digits, with leading zeros.\<close>

fun low_digits :: "nat \<Rightarrow> nat \<Rightarrow> nat \<Rightarrow> nat list" where
  "low_digits b 0 n = []"
| "low_digits b (Suc i) n = low_digits b i (n div b) @ [n mod b]"

definition digit_char :: "nat \<Rightarrow> char" where
  "digit_char d = char_of (if d < 10 then 48 + d else 87 + d)"

definition digit_value :: "char \<Rightarrow> nat" where
  "digit_value c = (let n = of_char c in if n < 58 then n - 48 else n - 87)"

definition numeral_text :: "nat \<Rightarrow> nat \<Rightarrow> string" where
  "numeral_text b n = map digit_char (digits_of b n)"

definition read_numeral :: "nat \<Rightarrow> string \<Rightarrow> nat" where
  "read_numeral b s = value_of b (map digit_value s)"

lemma value_of_simps [simp]:
  "value_of b [] = 0"
  "value_of b (ds @ [d]) = value_of b ds * b + d"
  by (simp_all add: value_of_def)

lemma value_of_digits_of: "value_of b (digits_of b n) = n"
proof (induction n rule: less_induct)
  case (less n)
  show ?case
  proof (cases "n < b \<or> b < 2")
    case True
    then show ?thesis by (subst digits_of.simps) (simp add: value_of_def)
  next
    case False
    then have "n div b < n" by simp
    from less.IH [OF this] False show ?thesis by (subst digits_of.simps) simp
  qed
qed

lemma digits_of_less: "2 \<le> b \<Longrightarrow> d \<in> set (digits_of b n) \<Longrightarrow> d < b"
proof (induction b n rule: digits_of.induct)
  case (1 b n)
  then show ?case by (subst (asm) (2) digits_of.simps) (auto split: if_splits)
qed

lemma digits_of_nonempty [simp]: "digits_of b n \<noteq> []"
  by (subst digits_of.simps) simp

lemma hd_digits_of: "2 \<le> b \<Longrightarrow> n \<noteq> 0 \<Longrightarrow> hd (digits_of b n) \<noteq> 0"
proof (induction n rule: less_induct)
  case (less n)
  then show ?case
    by (subst digits_of.simps) (auto simp: hd_append div_greater_zero_iff)
qed

lemma digit_value_digit_char [simp]: "d < 16 \<Longrightarrow> digit_value (digit_char d) = d"
  by (simp add: digit_value_def digit_char_def Let_def)

lemma read_numeral_text: "2 \<le> b \<Longrightarrow> b \<le> 16 \<Longrightarrow> read_numeral b (numeral_text b n) = n"
proof -
  assume b: "2 \<le> b" "b \<le> 16"
  have "map (digit_value \<circ> digit_char) (digits_of b n) = digits_of b n"
    using b by (intro map_idI) (auto dest!: digits_of_less)
  then show ?thesis by (simp add: read_numeral_def numeral_text_def value_of_digits_of)
qed

lemma length_low_digits [simp]: "length (low_digits b i n) = i"
  by (induction i arbitrary: n) simp_all

lemma low_digits_less: "0 < b \<Longrightarrow> d \<in> set (low_digits b i n) \<Longrightarrow> d < b"
  by (induction i arbitrary: n) auto

lemma value_low_digits: "0 < b \<Longrightarrow> value_of b (low_digits b i n) = n mod b ^ i"
proof (induction i arbitrary: n)
  case 0
  then show ?case by simp
next
  case (Suc i)
  then show ?case
    by (simp add: mod_mult2_eq mult.commute power_Suc add.commute)
qed

lemma low_digits_length_digits_of: "2 \<le> b \<Longrightarrow> low_digits b (length (digits_of b n)) n = digits_of b n"
proof (induction n rule: less_induct)
  case (less n)
  show ?case
  proof (cases "n < b")
    case True
    then show ?thesis by (subst (1 2) digits_of.simps) simp
  next
    case False
    then have "n div b < n" using less.prems by simp
    from less.IH [OF this less.prems] False less.prems show ?thesis
      by (subst (1 2) digits_of.simps) simp
  qed
qed

section \<open>The number routines meet the reference\<close>

lemma count_10_0 [simp]: "count_10 0 = 0"
  by (subst count_10.simps) simp

lemma count_10_digits: "v \<noteq> 0 \<Longrightarrow> count_10 v = length (digits_of 10 (unat v))"
proof (induction v rule: count_10.induct)
  case (1 v)
  have d: "unat (v div 10) = unat v div 10" by (simp add: unat_div)
  show ?case
  proof (cases "unat v < 10")
    case True
    then have "v div 10 = 0" using d by (simp add: unat_eq_zero flip: unat_eq_zero)
    with True 1 show ?thesis by (subst count_10.simps, subst digits_of.simps) simp
  next
    case False
    then have "v div 10 \<noteq> 0" using d by (metis div_eq_0_iff unat_0 numeral_eq_iff zero_neq_numeral)
    with False 1 d show ?thesis by (subst count_10.simps, subst digits_of.simps) simp
  qed
qed

lemma count_16_0 [simp]: "count_16 0 = 0"
  by (subst count_16.simps) simp

lemma count_16_digits: "v \<noteq> 0 \<Longrightarrow> count_16 v = length (digits_of 16 (unat v))"
proof (induction v rule: count_16.induct)
  case (1 v)
  have d: "unat (v div 16) = unat v div 16" by (simp add: unat_div)
  show ?case
  proof (cases "unat v < 16")
    case True
    then have "v div 16 = 0" using d by (simp add: unat_eq_zero flip: unat_eq_zero)
    with True 1 show ?thesis by (subst count_16.simps, subst digits_of.simps) simp
  next
    case False
    then have "v div 16 \<noteq> 0" using d by (metis div_eq_0_iff unat_0 numeral_eq_iff zero_neq_numeral)
    with False 1 d show ?thesis by (subst count_16.simps, subst digits_of.simps) simp
  qed
qed

lemma digit_count_10: "digit_count_base_10 v = length (digits_of 10 (unat v))"
  by (cases "v = 0") (simp_all add: digit_count_base_10_def count_10_digits digits_of_small)

lemma digit_count_16: "digit_count_base_16 v = length (digits_of 16 (unat v))"
  by (cases "v = 0") (simp_all add: digit_count_base_16_def count_16_digits digits_of_small)


lemma drop_update_head: "i < length xs \<Longrightarrow> drop i (xs[i := c]) = c # drop (Suc i) xs"
  by (simp add: Cons_nth_drop_Suc [symmetric])

lemma fill_10_text:
  "i \<le> length buf \<Longrightarrow> fill_10 i v buf = map digit_char (low_digits 10 i (unat v)) @ drop i buf"
proof (induction i arbitrary: v buf)
  case 0
  then show ?case by simp
next
  case (Suc i)
  have "char_of (48 + unat (v mod 10)) = digit_char (unat v mod 10)"
    by (simp add: digit_char_def unat_mod)
  with Suc show ?case
    by (simp add: unat_div drop_update_head)
qed

lemma hex_char: "k < 16 \<Longrightarrow> ''0123456789abcdef'' ! k = digit_char k"
proof -
  have "\<forall>k\<in>set [0..<16]. ''0123456789abcdef'' ! k = digit_char k" by code_simp
  then show "k < 16 \<Longrightarrow> ?thesis" by simp
qed

lemma fill_16_text:
  "i \<le> length buf \<Longrightarrow> fill_16 i v buf = map digit_char (low_digits 16 i (unat v)) @ drop i buf"
proof (induction i arbitrary: v buf)
  case 0
  then show ?case by simp
next
  case (Suc i)
  have d: "unat (drop_bit 4 v) = unat v div 16"
    by (simp only: unat_drop_bit_eq) (simp add: drop_bit_eq_div)
  have "v AND 0xf = take_bit 4 v" by (simp add: take_bit_eq_mask mask_eq_exp_minus_1)
  then have "unat (v AND 0xf) = unat v mod 16"
    by (simp only: unsigned_take_bit_eq) (simp add: take_bit_eq_mod)
  then have "''0123456789abcdef'' ! unat (v AND 0xf) = digit_char (unat v mod 16)"
    by (simp add: hex_char)
  with Suc d show ?case
    by (simp add: drop_update_head)
qed

lemma digits_of_bound: "2 \<le> b \<Longrightarrow> n < b ^ k \<Longrightarrow> 0 < k \<Longrightarrow> length (digits_of b n) \<le> k"
proof (induction k arbitrary: n)
  case 0
  then show ?case by simp
next
  case (Suc k)
  show ?case
  proof (cases "n < b")
    case True
    then show ?thesis by (subst digits_of.simps) simp
  next
    case False
    then have k: "0 < k" using Suc.prems by (cases k) auto
    have "n div b < b ^ k" using Suc.prems by (simp add: less_mult_imp_div_less mult.commute)
    from Suc.IH [OF Suc.prems(1) this k] False Suc.prems show ?thesis by (subst digits_of.simps) simp
  qed
qed

lemma digits_64 [simp]: "length (digits_of 10 (unat (v :: u64))) < 32" "length (digits_of 16 (unat v)) < 32"
proof -
  have v: "unat v < 2 ^ 64" using unsigned_less [of v] by simp
  have "unat v < 10 ^ 20" "unat v < 16 ^ 16" using v by simp_all
  from digits_of_bound [OF _ this(1)] digits_of_bound [OF _ this(2)]
  show "length (digits_of 10 (unat v)) < 32" "length (digits_of 16 (unat v)) < 32" by simp_all
qed

lemma num_buffer_ok: "n < 32 \<Longrightarrow> \<exists>buf. num_buffer n = Some buf \<and> length buf = 32"
  by (simp add: num_buffer_def)

lemma print_num_10:
  "print_num_base_10 v (length (digits_of 10 (unat v))) p = Some (kwrite (numeral_text 10 (unat v)) p)"
proof -
  let ?n = "length (digits_of 10 (unat v))"
  obtain buf where buf: "num_buffer ?n = Some buf" "length buf = 32"
    using num_buffer_ok [OF digits_64(1)] by blast
  have "fill_10 ?n v buf = numeral_text 10 (unat v) @ drop ?n buf"
    using fill_10_text [of ?n buf v] digits_64(1) [of v] buf(2) low_digits_length_digits_of [of 10 "unat v"]
    by (simp add: numeral_text_def)
  then show ?thesis by (simp add: print_num_base_10_def buf numeral_text_def)
qed

lemma print_num_16:
  "print_num_base_16 v (length (digits_of 16 (unat v))) p = Some (kwrite (numeral_text 16 (unat v)) p)"
proof -
  let ?n = "length (digits_of 16 (unat v))"
  obtain buf where buf: "num_buffer ?n = Some buf" "length buf = 32"
    using num_buffer_ok [OF digits_64(2)] by blast
  have "fill_16 ?n v buf = numeral_text 16 (unat v) @ drop ?n buf"
    using fill_16_text [of ?n buf v] digits_64(2) [of v] buf(2) low_digits_length_digits_of [of 16 "unat v"]
    by (simp add: numeral_text_def)
  then show ?thesis by (simp add: print_num_base_16_def buf numeral_text_def)
qed

lemma kwrite_kwrite [simp]: "kwrite b (kwrite a p) = kwrite (a @ b) p"
  by (simp add: kwrite_def)

lemma print_char_rep_text: "print_char_rep ch n p = kwrite (replicate n ch) p"
proof (induction ch n p rule: print_char_rep.induct)
  case (1 ch n p)
  then show ?case
    by (subst print_char_rep.simps) (simp flip: replicate_add)
qed

lemma pad_text:
  "pad afmt n p = kwrite (replicate (nat (width afmt - n)) (if zero_pad afmt then CHR ''0'' else CHR '' '')) p"
  by (simp add: pad_def print_char_rep_text kwrite_def)

text \<open>The reference for a padded numeral.\<close>

definition padded :: "fmt_specifier \<Rightarrow> string \<Rightarrow> string" where
  "padded afmt s = replicate (nat (width afmt) - length s) (if zero_pad afmt then CHR ''0'' else CHR '' '') @ s"

lemma nat_diff_int_length: "nat (w - int n) = nat w - n"
  by simp

lemma print_unsigned_text:
  "print_unsigned afmt p = (case read_number afmt p of None \<Rightarrow> None
     | Some (v, p) \<Rightarrow> Some (kwrite (padded afmt (numeral_text 10 (unat v))) p))"
  by (simp add: print_unsigned_def digit_count_10 print_num_10 pad_text padded_def numeral_text_def nat_diff_int_length split: option.splits)

lemma print_hex_text:
  "print_hex afmt p = (case read_number afmt p of None \<Rightarrow> None
     | Some (v, p) \<Rightarrow> Some (kwrite (padded afmt (numeral_text 16 (unat v))) p))"
  by (simp add: print_hex_def digit_count_16 print_num_16 pad_text padded_def numeral_text_def nat_diff_int_length split: option.splits)

section \<open>Format strings\<close>

lemma kwrite_Nil [simp]: "kwrite [] p = p"
  by (simp add: kwrite_def)

lemma kwrite_fields [simp]: "pdata (kwrite s p) = pdata p @ s" "pargs (kwrite s p) = pargs p"
  by (simp_all add: kwrite_def)

lemma if_kwrite [simp]: "(if 0 < i then kwrite (take i fmt) p else p) = kwrite (take i fmt) p"
  by simp

lemma vprintf_loop_literal:
  "i \<le> length t \<Longrightarrow> CHR ''%'' \<notin> set t \<Longrightarrow> vprintf_loop m t i p = Some (kwrite t p)"
proof (induction "length t - i" arbitrary: i)
  case 0
  then show ?case by (subst vprintf_loop.simps) simp
next
  case (Suc k)
  then have i: "i < length t" by simp
  then have "t ! i \<noteq> CHR ''%''" using Suc.prems by (metis nth_mem)
  moreover have "vprintf_loop m t (i + 1) p = Some (kwrite t p)" using Suc i by simp
  ultimately show ?case using i by (subst vprintf_loop.simps) simp
qed

lemma vprintf_literal: "CHR ''%'' \<notin> set t \<Longrightarrow> vprintf m t p = Some (kwrite t p)"
  by (simp add: vprintf_def vprintf_loop_literal)

lemma vprintf_loop_percent:
  "i \<le> length t \<Longrightarrow> CHR ''%'' \<notin> set t \<Longrightarrow>
   vprintf_loop m (t @ CHR ''%'' # rest) i p =
     (case print_fmt_arg m FLAG afmt0 rest (kwrite t p) of None \<Rightarrow> None | Some (fmt, p) \<Rightarrow> vprintf m fmt p)"
proof (induction "length t - i" arbitrary: i)
  case 0
  then have "i = length t" by simp
  then show ?case by (subst vprintf_loop.simps) (simp add: vprintf_def nth_append split: option.split)
next
  case (Suc k)
  then have i: "i < length t" by simp
  then have "t ! i \<noteq> CHR ''%''" using Suc.prems by (metis nth_mem)
  moreover have "vprintf_loop m (t @ CHR ''%'' # rest) (i + 1) p =
     (case print_fmt_arg m FLAG afmt0 rest (kwrite t p) of None \<Rightarrow> None | Some (fmt, p) \<Rightarrow> vprintf m fmt p)"
    using Suc i by simp
  ultimately show ?case using i by (subst vprintf_loop.simps) (simp add: nth_append)
qed

lemma vprintf_percent:
  "CHR ''%'' \<notin> set t \<Longrightarrow>
   vprintf m (t @ CHR ''%'' # rest) p =
     (case print_fmt_arg m FLAG afmt0 rest (kwrite t p) of None \<Rightarrow> None | Some (fmt, p) \<Rightarrow> vprintf m fmt p)"
  by (simp add: vprintf_def [of m "t @ CHR ''%'' # rest"] vprintf_loop_percent)

text \<open>A width in the format string is read as the numeral it is.\<close>

lemma digit_char_eq: "d < 10 \<Longrightarrow> digit_char d = c \<longleftrightarrow> 48 + d = of_char c"
  by (simp add: digit_char_def char_of_eq_iff take_bit_nat_eq_self)

lemma digit_char_facts:
  assumes "d < 10"
  shows "is_digit_char (digit_char d)" "int (of_char (digit_char d)) - 48 = int d"
    "digit_char d = CHR ''0'' \<longleftrightarrow> d = 0"
    "digit_char d \<notin> {CHR ''d'', CHR ''i'', CHR ''u'', CHR ''x'', CHR ''c'', CHR ''s'', CHR ''p'', CHR ''%'',
       CHR ''h'', CHR ''l'', CHR ''z''}"
  using assms by (simp_all add: digit_char_eq) (simp_all add: is_digit_char_def digit_char_def)

lemma print_fmt_arg_digit:
  assumes "d < 10"
  shows "print_fmt_arg m st afmt (digit_char d # fmt) p =
    (fmt_digit (digit_char d) st afmt \<bind> (\<lambda>(st, afmt). print_fmt_arg m st afmt fmt p))"
  using digit_char_facts [OF assms] by simp

lemma foldl_digits_ge: "(a :: nat) \<le> foldl (\<lambda>a d. a * 10 + d) a ds"
proof (induction ds arbitrary: a)
  case Nil
  then show ?case by simp
next
  case (Cons d ds)
  have "a \<le> a * 10 + d" by simp
  also have "\<dots> \<le> foldl (\<lambda>a d. a * 10 + d) (a * 10 + d) ds" by (rule Cons)
  finally show ?case by simp
qed

lemma print_fmt_arg_width:
  assumes "\<forall>d\<in>set ds. d < 10" "width afmt = int a" "int (foldl (\<lambda>a d. a * 10 + d) a ds) \<le> INT_MAX"
  shows "print_fmt_arg m WIDTH afmt (map digit_char ds @ fmt) p =
    print_fmt_arg m WIDTH (afmt\<lparr>width := int (foldl (\<lambda>a d. a * 10 + d) a ds)\<rparr>) fmt p"
  using assms
proof (induction ds arbitrary: afmt a)
  case Nil
  then show ?case by (cases afmt) simp
next
  case (Cons d ds)
  have "int (a * 10 + d) \<le> INT_MAX"
    using Cons.prems foldl_digits_ge [of "a * 10 + d" ds] by simp
  then have r: "int_range (int a * 10 + int d)" by (simp add: int_range_def INT_MAX_def)
  have d: "d < 10" using Cons.prems by simp
  show ?case
    using Cons.IH [of "afmt\<lparr>width := int a * 10 + int d\<rparr>" "a * 10 + d"] Cons.prems r
    by (simp add: print_fmt_arg_digit [OF d] fmt_digit_def digit_char_facts [OF d] del: print_fmt_arg.simps)
qed

lemma print_fmt_arg_numeral:
  assumes "int w \<le> INT_MAX"
  shows "print_fmt_arg m FLAG afmt0 (numeral_text 10 w @ fmt) p =
    print_fmt_arg m WIDTH (afmt0\<lparr>width := int w, zero_pad := (w = 0)\<rparr>) fmt p"
proof (cases "w = 0")
  case True
  then show ?thesis
    using print_fmt_arg_digit [of 0 m FLAG afmt0 fmt p]
    by (simp add: numeral_text_def digits_of_small fmt_digit_def digit_char_facts afmt0_def del: print_fmt_arg.simps)
next
  case False
  obtain d ds where eq: "digits_of 10 w = d # ds" by (cases "digits_of 10 w") simp_all
  have all: "\<forall>d\<in>set (d # ds). d < 10" using digits_of_less [of 10 _ w] by (simp add: eq [symmetric])
  have d0: "d \<noteq> 0" using hd_digits_of [of 10 w] False by (simp add: eq)
  have val: "foldl (\<lambda>a d. a * 10 + d) d ds = w"
    using value_of_digits_of [of 10 w] by (simp add: eq value_of_def)
  have "int_range (int d)" using all by (simp add: int_range_def INT_MAX_def)
  then show ?thesis
    using all d0 print_fmt_arg_width [of ds "afmt0\<lparr>width := int d\<rparr>" d m fmt p] assms False
    by (simp add: numeral_text_def eq print_fmt_arg_digit fmt_digit_def digit_char_facts val
        afmt0_def del: print_fmt_arg.simps)
qed

section \<open>What a format prints\<close>

lemma printf_width_unsigned:
  assumes "int w \<le> INT_MAX"
  shows "printf m (''%'' @ numeral_text 10 w @ ''zu'') [v] =
    Some (replicate (w - length (numeral_text 10 (unat v))) (CHR '' '') @ numeral_text 10 (unat v))"
proof -
  let ?p = "\<lparr>pargs = [v], pdata = []\<rparr>"
  have "vprintf m (''%'' @ numeral_text 10 w @ ''zu'') ?p =
     Some (kwrite (padded (afmt0\<lparr>width := int w, zero_pad := (w = 0), len_mod := 1\<rparr>) (numeral_text 10 (unat v)))
       (?p\<lparr>pargs := []\<rparr>))"
    using vprintf_percent [of "[]" m "numeral_text 10 w @ ''zu''" ?p] print_fmt_arg_numeral [OF assms, of m "''zu''" ?p]
    by (simp add: print_unsigned_text read_number_def va_arg_def vprintf_literal is_digit_char_def)
  then show ?thesis by (simp add: printf_def padded_def afmt0_def)
qed


lemma numeral_text_read [simp]: "read_numeral 10 (numeral_text 10 n) = n" "read_numeral 16 (numeral_text 16 n) = n"
  by (simp_all add: read_numeral_text)

lemma numeral_text_nonempty [simp]: "numeral_text b n \<noteq> []"
  by (simp add: numeral_text_def)

lemma numeral_text_canonical: "n \<noteq> 0 \<Longrightarrow> hd (numeral_text 10 n) \<noteq> CHR ''0''"
  using digits_of_less [of 10 "hd (digits_of 10 n)" n] hd_digits_of [of 10 n]
  by (simp add: numeral_text_def hd_map digit_char_facts)

lemma printf_pointer_text:
  "printf m ''%p'' [v] = Some (replicate (16 - length (numeral_text 16 (unat v))) (CHR ''0'') @ numeral_text 16 (unat v))"
  using vprintf_percent [of "[]" m "''p''" "\<lparr>pargs = [v], pdata = []\<rparr>"]
  by (simp add: print_hex_text read_number_def va_arg_def vprintf_literal printf_def padded_def)

lemma read_leading_zeros: "read_numeral b (replicate k (CHR ''0'') @ s) = read_numeral b s"
proof (induction k)
  case 0
  then show ?case by simp
next
  case (Suc k)
  then show ?case by (simp add: read_numeral_def value_of_def digit_value_def)
qed

lemma length_hex_64: "length (numeral_text 16 (unat (v :: u64))) \<le> 16"
  using digits_of_bound [of 16 "unat v" 16] unsigned_less [of v] by (simp add: numeral_text_def)

text \<open>C39. A 64-bit value printed with a width is its decimal numeral, without superfluous zeros, padded with
  spaces on the left to that width, for every width an \<open>int\<close> can hold, itself read from the format string;
  reading the numeral back gives the value.\<close>

theorem printf_decimal_roundtrip:
  assumes "int w \<le> INT_MAX"
  shows "\<exists>s. printf m (''%'' @ numeral_text 10 w @ ''zu'') [v] = Some (replicate (w - length s) (CHR '' '') @ s)
    \<and> read_numeral 10 s = unat v \<and> (v = 0 \<and> s = ''0'' \<or> v \<noteq> 0 \<and> hd s \<noteq> CHR ''0'')"
proof (intro exI conjI)
  show "printf m (''%'' @ numeral_text 10 w @ ''zu'') [v] =
      Some (replicate (w - length (numeral_text 10 (unat v))) (CHR '' '') @ numeral_text 10 (unat v))"
    using assms by (rule printf_width_unsigned)
  show "v = 0 \<and> numeral_text 10 (unat v) = ''0'' \<or> v \<noteq> 0 \<and> hd (numeral_text 10 (unat v)) \<noteq> CHR ''0''"
    using numeral_text_canonical [of "unat v"]
    by (cases "v = 0") (simp_all add: numeral_text_def digits_of_small digit_char_eq unat_eq_zero)
qed simp

lemma printf_decimal_roundtrip_witness:
  "\<exists>s. printf (\<lambda>_. CHR 0x00) (''%'' @ numeral_text 10 6 @ ''zu'') [1234] = Some (replicate (6 - length s) (CHR '' '') @ s)
    \<and> read_numeral 10 s = unat (1234 :: u64)"
  using printf_decimal_roundtrip [of 6 "\<lambda>_. CHR 0x00" 1234] by (auto simp: INT_MAX_def)

text \<open>\<open>%p\<close> prints exactly sixteen hexadecimal digits, and they read back as the pointer.\<close>

theorem printf_pointer_roundtrip:
  "\<exists>s. printf m ''%p'' [v] = Some s \<and> length s = 16 \<and> read_numeral 16 s = unat v"
  using length_hex_64 [of v] by (simp add: printf_pointer_text read_leading_zeros)

lemma print_signed_nonneg:
  assumes "unat v < 2 ^ 63" "len_mod afmt = 1" "pargs p = v # as"
  shows "print_signed afmt p = Some (kwrite (padded afmt (numeral_text 10 (unat v))) (p\<lparr>pargs := as\<rparr>))"
proof -
  have "\<not> v <s 0" using sint_small [OF assms(1)] by (simp add: word_sless_alt)
  then show ?thesis
    using assms(2, 3)
    by (simp add: print_signed_def va_arg_def digit_count_10 print_num_10 pad_text padded_def
        numeral_text_def nat_diff_int_length)
qed

lemma print_unsigned_long:
  assumes "len_mod afmt = 1" "pargs p = v # as"
  shows "print_unsigned afmt p = Some (kwrite (padded afmt (numeral_text 10 (unat v))) (p\<lparr>pargs := as\<rparr>))"
  using assms by (simp add: print_unsigned_text read_number_def va_arg_def)

lemma klog_time_text:
  assumes "unat sec < 2 ^ 63"
  shows "printf m ''[ %6zi.%06zu ] '' [sec, us] =
    Some (''[ '' @ replicate (6 - length (numeral_text 10 (unat sec))) (CHR '' '') @ numeral_text 10 (unat sec)
      @ ''.'' @ replicate (6 - length (numeral_text 10 (unat us))) (CHR ''0'') @ numeral_text 10 (unat us) @ '' ] '')"
proof -
  let ?p0 = "\<lparr>pargs = [sec, us], pdata = ''[ ''\<rparr>"
  let ?a = "afmt0\<lparr>width := 6, len_mod := 1\<rparr>" and ?b = "afmt0\<lparr>zero_pad := True, width := 6, len_mod := 1\<rparr>"
  let ?p1 = "kwrite (padded ?a (numeral_text 10 (unat sec))) (?p0\<lparr>pargs := [us]\<rparr>)"
  let ?p2 = "kwrite ''.'' ?p1"
  have 1: "print_fmt_arg m FLAG afmt0 ''6zi.%06zu ] '' ?p0 = Some (''.%06zu ] '', ?p1)"
    using print_signed_nonneg [of sec ?a ?p0 "[us]"] assms
    by (simp add: is_digit_char_def fmt_digit_def afmt0_def int_range_def INT_MAX_def)
  have 2: "print_fmt_arg m FLAG afmt0 ''06zu ] '' ?p2 =
      Some ('' ] '', kwrite (padded ?b (numeral_text 10 (unat us))) (?p2\<lparr>pargs := []\<rparr>))"
    using print_unsigned_long [of ?b ?p2 us "[]"]
    by (simp add: is_digit_char_def fmt_digit_def afmt0_def int_range_def INT_MAX_def)
  let ?q = "\<lparr>pargs = [sec, us], pdata = []\<rparr>"
  let ?p3 = "kwrite (padded ?b (numeral_text 10 (unat us))) (?p2\<lparr>pargs := []\<rparr>)"
  have kw: "kwrite ''[ '' ?q = ?p0" by (simp add: kwrite_def)
  have "vprintf m (''[ '' @ CHR ''%'' # ''6zi.%06zu ] '') ?q = vprintf m (''.'' @ CHR ''%'' # ''06zu ] '') ?p1"
    by (subst vprintf_percent) (simp_all add: 1 kw del: print_fmt_arg.simps)
  also have "\<dots> = vprintf m '' ] '' ?p3"
    by (subst vprintf_percent, simp, subst 2) (simp only: option.case prod.case)
  also have "\<dots> = Some (kwrite '' ] '' ?p3)" by (rule vprintf_literal) simp
  finally show ?thesis by (simp add: printf_def padded_def afmt0_def)
qed

text \<open>The prefix of a log line has a fixed form: for the first million seconds it is eighteen characters,
  the seconds in columns two to seven and the microseconds in columns nine to fourteen, and the message
  follows unchanged.\<close>

theorem klog_prefix:
  assumes "sec < 1000000" "ns < 1000000000" "CHR ''%'' \<notin> set text"
  shows "\<exists>a b. klog m (sec, ns) text [] = Some (''[ '' @ a @ ''.'' @ b @ '' ] '' @ text) \<and> length a = 6 \<and> length b = 6
    \<and> read_numeral 10 (dropWhile (\<lambda>c. c = CHR '' '') a) = unat sec \<and> read_numeral 10 b = unat ns div 1000"
proof (intro exI conjI)
  let ?a = "replicate (6 - length (numeral_text 10 (unat sec))) (CHR '' '') @ numeral_text 10 (unat sec)"
  let ?us = "ns div 1000"
  let ?b = "replicate (6 - length (numeral_text 10 (unat ?us))) (CHR ''0'') @ numeral_text 10 (unat ?us)"
  have sec: "unat sec < 1000000" using assms(1) by (simp add: word_less_nat_alt)
  have us: "unat ?us < 1000000" "unat ?us = unat ns div 1000"
    using assms(2) by (simp_all add: word_less_nat_alt unat_div)
  show "klog m (sec, ns) text [] = Some (''[ '' @ ?a @ ''.'' @ ?b @ '' ] '' @ text)"
    using klog_time_text [of sec m ?us] sec assms(3)
    by (simp add: klog_def printf_def [of m "text"] vprintf_literal)
  show "length ?a = 6" and "length ?b = 6"
    using digits_of_bound [of 10 "unat sec" 6] digits_of_bound [of 10 "unat ?us" 6] sec us(1)
    by (simp_all add: numeral_text_def)
  show "read_numeral 10 ?b = unat ns div 1000" by (simp add: read_leading_zeros us)
  have "hd (numeral_text 10 (unat sec)) \<noteq> CHR '' ''"
    using digits_of_less [of 10 "hd (digits_of 10 (unat sec))" "unat sec"]
    by (simp add: numeral_text_def hd_map digit_char_eq)
  then have "dropWhile (\<lambda>c. c = CHR '' '') ?a = numeral_text 10 (unat sec)"
    by (cases "numeral_text 10 (unat sec)") (simp_all add: dropWhile_append)
  then show "read_numeral 10 (dropWhile (\<lambda>c. c = CHR '' '') ?a) = unat sec" by simp
qed

lemma klog_prefix_witness:
  "\<exists>a b. klog (\<lambda>_. CHR 0x00) (42, 123456789) ''hello'' [] = Some (''[ '' @ a @ ''.'' @ b @ '' ] '' @ ''hello'') \<and> length a = 6
    \<and> length b = 6 \<and> read_numeral 10 (dropWhile (\<lambda>c. c = CHR '' '') a) = unat (42 :: u64)"
proof -
  have "(42 :: u64) < 1000000" "(123456789 :: u64) < 1000000000" "CHR ''%'' \<notin> set ''hello''" by simp_all
  from klog_prefix [OF this, of "\<lambda>_. CHR 0x00"] show ?thesis by blast
qed

end
