(* ===== verification/Vfprintf.thy ===== *)
theory Vfprintf
  imports Printf
begin

text \<open>
  Formatted output of the C library: \<open>system/libc/src/stdio/vfprintf.c\<close> on top of \<open>libc_write.c\<close> and
  \<open>fputc.c\<close>.

  A stream is a value of type \<open>'f\<close>. The function pointer \<open>writefn\<close> of the streams is the parameter
  \<open>wr\<close>: it is given a stream and the characters, and returns the result and the new state of the world.
  \<open>longjmp\<close> to the handler of \<open>vfprintf\<close> is the left summand of a result. \<open>None\<close> is undefined behaviour:
  an argument that is not there, an overflow of an \<open>int\<close>, a \<open>writefn\<close> that claims to have written more
  than it was given.
\<close>

section \<open>Streams\<close>

type_synonym ('f, 'w) writefn = "'f \<Rightarrow> string \<Rightarrow> 'w \<Rightarrow> int \<times> 'w"

text \<open>\<open>__libc_write\<close>: the number of characters written, whether the stream's error flag is raised, and the
  world.\<close>

function libc_write :: "('f, 'w) writefn \<Rightarrow> 'f \<Rightarrow> string \<Rightarrow> 'w \<Rightarrow> (nat \<times> bool \<times> 'w) option" where
  "libc_write wr f data w =
     (if data = [] then Some (0, False, w)
      else (let chunk = (if INT_MAX < int (length data) then take (nat INT_MAX) data else data);
                (n, w) = wr f chunk w
            in if n \<le> 0 then Some (0, True, w)
               else if int (length chunk) < n then None
               else map_option (\<lambda>(k, e, w). (nat n + k, e, w)) (libc_write wr f (drop (nat n) data) w)))"
  by pat_completeness auto
termination
  by (relation "measure (\<lambda>(wr, f, data, w). length data)") auto

declare libc_write.simps [simp del]

record ('f, 'w) vout =
  vargs :: "u64 list"
  vdoubles :: "u64 list"
  vfile :: 'f
  vprinted :: nat
  verrno :: "errno option"
  verror :: "'f \<Rightarrow> bool"
  vworld :: 'w

type_synonym ('f, 'w) vresult = "(('f, 'w) vout + ('f, 'w) vout) option"

definition and_then :: "('f, 'w) vresult \<Rightarrow> (('f, 'w) vout \<Rightarrow> ('f, 'w) vresult) \<Rightarrow> ('f, 'w) vresult" where
  "and_then r k = (case r of None \<Rightarrow> None | Some (Inl out) \<Rightarrow> Some (Inl out) | Some (Inr out) \<Rightarrow> k out)"

definition verr :: "('f, 'w) vout \<Rightarrow> errno \<Rightarrow> ('f, 'w) vresult" where
  "verr out e = Some (Inl (out\<lparr>verrno := Some e\<rparr>))"

definition to_stream :: "('f, 'w) writefn \<Rightarrow> 'f \<Rightarrow> string \<Rightarrow> ('f, 'w) vout \<Rightarrow> (nat \<times> ('f, 'w) vout) option" where
  "to_stream wr f data out = do {
     (n, e, w) \<leftarrow> libc_write wr f data (vworld out);
     Some (n, out\<lparr>vworld := w, verror := (verror out)(f := verror out f \<or> e)\<rparr>)
   }"

definition fwrite_out :: "('f, 'w) writefn \<Rightarrow> string \<Rightarrow> ('f, 'w) vout \<Rightarrow> ('f, 'w) vresult" where
  "fwrite_out wr data out = do {
     (n, out) \<leftarrow> to_stream wr (vfile out) data out;
     if n \<noteq> length data then Some (Inl out)
     else (let out = out\<lparr>vprinted := vprinted out + length data\<rparr> in
           if INT_MAX < int (vprinted out) then verr out EOVERFLOW else Some (Inr out))
   }"

definition fwritec :: "('f, 'w) writefn \<Rightarrow> char \<Rightarrow> ('f, 'w) vout \<Rightarrow> ('f, 'w) vresult" where
  "fwritec wr c out = fwrite_out wr [c] out"

text \<open>\<open>putchar\<close>: \<open>fputc\<close> to \<open>stdout\<close>; its result is not used here.\<close>

definition libc_putchar :: "('f, 'w) writefn \<Rightarrow> 'f \<Rightarrow> char \<Rightarrow> ('f, 'w) vout \<Rightarrow> ('f, 'w) vresult" where
  "libc_putchar wr stdout c out = map_option (\<lambda>(n, out). Inr out) (to_stream wr stdout [c] out)"

definition vva_arg :: "('f, 'w) vout \<Rightarrow> (u64 \<times> ('f, 'w) vout) option" where
  "vva_arg out = (case vargs out of [] \<Rightarrow> None | a # as \<Rightarrow> Some (a, out\<lparr>vargs := as\<rparr>))"

definition vva_double :: "('f, 'w) vout \<Rightarrow> (u64 \<times> ('f, 'w) vout) option" where
  "vva_double out = (case vdoubles out of [] \<Rightarrow> None | a # as \<Rightarrow> Some (a, out\<lparr>vdoubles := as\<rparr>))"

section \<open>Numbers and padding\<close>

definition libc_digit_count_base_10 :: "u64 \<Rightarrow> nat" where
  "libc_digit_count_base_10 v = (if v = 0 then 1 else count_10 v)"

definition libc_digit_count_base_16 :: "u64 \<Rightarrow> nat" where
  "libc_digit_count_base_16 v = (if v = 0 then 1 else count_16 v)"

definition vprint_num_base_10 :: "('f, 'w) writefn \<Rightarrow> u64 \<Rightarrow> nat \<Rightarrow> ('f, 'w) vout \<Rightarrow> ('f, 'w) vresult" where
  "vprint_num_base_10 wr v digits out = do {
     buffer \<leftarrow> num_buffer digits;
     fwrite_out wr (take digits (fill_10 digits v buffer)) out
   }"

definition vprint_num_base_16 :: "('f, 'w) writefn \<Rightarrow> u64 \<Rightarrow> nat \<Rightarrow> ('f, 'w) vout \<Rightarrow> ('f, 'w) vresult" where
  "vprint_num_base_16 wr v digits out = do {
     buffer \<leftarrow> num_buffer digits;
     fwrite_out wr (take digits (fill_16 digits v buffer)) out
   }"

fun vprint_char_rep :: "('f, 'w) writefn \<Rightarrow> char \<Rightarrow> nat \<Rightarrow> ('f, 'w) vout \<Rightarrow> ('f, 'w) vresult" where
  "vprint_char_rep wr ch count out =
     (if 16 \<le> count then and_then (fwrite_out wr (replicate 16 ch) out) (vprint_char_rep wr ch (count - 16))
      else fwrite_out wr (take count (replicate 16 ch)) out)"

declare vprint_char_rep.simps [simp del]

definition vpad :: "('f, 'w) writefn \<Rightarrow> fmt_specifier \<Rightarrow> int \<Rightarrow> ('f, 'w) vout \<Rightarrow> ('f, 'w) vresult" where
  "vpad wr afmt characters out =
     (if characters < width afmt
      then vprint_char_rep wr (if zero_pad afmt then CHR ''0'' else CHR '' '') (nat (width afmt - characters)) out
      else Some (Inr out))"

section \<open>Conversions\<close>

definition vread_number :: "fmt_specifier \<Rightarrow> ('f, 'w) vout \<Rightarrow> (u64 \<times> ('f, 'w) vout) option" where
  "vread_number afmt out =
     (if 0 < len_mod afmt then vva_arg out else map_option (\<lambda>(a, out). (as_unsigned a, out)) (vva_arg out))"

definition vprint_unsigned :: "('f, 'w) writefn \<Rightarrow> fmt_specifier \<Rightarrow> ('f, 'w) vout \<Rightarrow> ('f, 'w) vresult" where
  "vprint_unsigned wr afmt out = do {
     (v, out) \<leftarrow> vread_number afmt out;
     let digits = libc_digit_count_base_10 v;
     and_then (vpad wr afmt (int digits) out) (vprint_num_base_10 wr v digits)
   }"

definition vprint_hex :: "('f, 'w) writefn \<Rightarrow> fmt_specifier \<Rightarrow> ('f, 'w) vout \<Rightarrow> ('f, 'w) vresult" where
  "vprint_hex wr afmt out = do {
     (v, out) \<leftarrow> vread_number afmt out;
     let digits = libc_digit_count_base_16 v;
     and_then (vpad wr afmt (int digits) out) (vprint_num_base_16 wr v digits)
   }"

text \<open>The character before a negative number is the letter \<open>o\<close>.\<close>

definition vprint_signed :: "('f, 'w) writefn \<Rightarrow> fmt_specifier \<Rightarrow> ('f, 'w) vout \<Rightarrow> ('f, 'w) vresult" where
  "vprint_signed wr afmt out = do {
     (v, out) \<leftarrow> (if 0 < len_mod afmt then vva_arg out
       else map_option (\<lambda>(a, out). (word_of_int (as_int a), out)) (vva_arg out));
     if v <s 0 then
       and_then (fwritec wr (CHR ''o'') out) (\<lambda>out. do {
         kassert (int_range (width afmt - 1));
         let digits = libc_digit_count_base_10 (- v);
         and_then (vpad wr (afmt\<lparr>width := width afmt - 1\<rparr>) (int digits) out) (vprint_num_base_10 wr (- v) digits) })
     else (let digits = libc_digit_count_base_10 v
           in and_then (vpad wr afmt (int digits) out) (vprint_num_base_10 wr v digits))
   }"

text \<open>\<open>strlen\<close> does not return when there is no NUL.\<close>

partial_function (option) strlen_from :: "(u64 \<Rightarrow> char) \<Rightarrow> u64 \<Rightarrow> nat \<Rightarrow> nat option" where
  "strlen_from m a n = (if m a = CHR 0x00 then Some n else strlen_from m (a + 1) (Suc n))"

definition vprint_string ::
    "(u64 \<Rightarrow> char) \<Rightarrow> ('f, 'w) writefn \<Rightarrow> fmt_specifier \<Rightarrow> ('f, 'w) vout \<Rightarrow> ('f, 'w) vresult" where
  "vprint_string m wr afmt out = do {
     (str, out) \<leftarrow> vva_arg out;
     chars \<leftarrow> (if has_precision afmt then Some (strnlen m str (word_of_int (precision afmt))) else strlen_from m str 0);
     if INT_MAX < int chars then verr out EOVERFLOW
     else and_then (vpad wr afmt (int chars) out) (fwrite_out wr (chars_at m str chars))
   }"

definition vprint_char :: "('f, 'w) writefn \<Rightarrow> ('f, 'w) vout \<Rightarrow> ('f, 'w) vresult" where
  "vprint_char wr out = do { (a, out) \<leftarrow> vva_arg out; fwritec wr (char_of (unat (ucast a :: u8))) out }"

definition vprint_double :: "('f, 'w) writefn \<Rightarrow> ('f, 'w) vout \<Rightarrow> ('f, 'w) vresult" where
  "vprint_double wr out = and_then (fwrite_out wr ''<double('' out) (\<lambda>out. do {
     (d, out) \<leftarrow> vva_double out;
     and_then (vprint_num_base_16 wr d 16 out) (fwrite_out wr '')>'') })"

section \<open>Format specifiers\<close>

text \<open>The conversion that ends a specifier, \<open>None\<close> for the characters that do not.\<close>

definition conversion ::
    "(u64 \<Rightarrow> char) \<Rightarrow> ('f, 'w) writefn \<Rightarrow> 'f \<Rightarrow> char \<Rightarrow> fmt_specifier \<Rightarrow> (('f, 'w) vout \<Rightarrow> ('f, 'w) vresult) option"
where
  "conversion m wr stdout c afmt =
     (if c = CHR ''d'' \<or> c = CHR ''i'' then Some (vprint_signed wr afmt)
      else if c = CHR ''u'' then Some (vprint_unsigned wr afmt)
      else if c = CHR ''x'' then Some (vprint_hex wr afmt)
      else if c = CHR ''c'' then Some (vprint_char wr)
      else if c = CHR ''s'' then Some (vprint_string m wr afmt)
      else if c = CHR ''p'' then Some (vprint_hex wr (afmt\<lparr>len_mod := 2\<rparr>))
      else if c = CHR ''%'' then Some (libc_putchar wr stdout (CHR ''%''))
      else if c \<in> set ''fFeEgGaA'' then Some (vprint_double wr)
      else None)"

text \<open>A character that changes the specifier; an invalid one is \<open>Inl EINVAL\<close>. \<open>*\<close> takes an argument.\<close>

definition modifier ::
    "char \<Rightarrow> fmt_state \<Rightarrow> fmt_specifier \<Rightarrow> ('f, 'w) vout
      \<Rightarrow> (('f, 'w) vout + (fmt_state \<times> fmt_specifier \<times> ('f, 'w) vout)) option" where
  "modifier c st afmt out =
     (if c = CHR ''h'' then do {
        kassert (int_range (len_mod afmt - 1));
        Some (Inr (st, afmt\<lparr>len_mod := len_mod afmt - 1\<rparr>, out)) }
      else if c = CHR ''l'' then do {
        kassert (int_range (len_mod afmt + 1));
        Some (Inr (st, afmt\<lparr>len_mod := len_mod afmt + 1\<rparr>, out)) }
      else if c = CHR ''z'' then Some (Inr (st, afmt\<lparr>len_mod := 1\<rparr>, out))
      else if is_digit_char c then map_option (\<lambda>(st, afmt). Inr (st, afmt, out)) (fmt_digit c st afmt)
      else if c = CHR ''.'' then Some (Inr (PRECISION, afmt\<lparr>has_precision := True\<rparr>, out))
      else if c = CHR ''*'' then
        (if st \<noteq> PRECISION then Some (Inl (out\<lparr>verrno := Some EINVAL\<rparr>))
         else do {
           (a, out) \<leftarrow> vva_arg out;
           Some (Inr (st, afmt\<lparr>has_precision := True, precision := as_int a\<rparr>, out)) })
      else Some (Inl (out\<lparr>verrno := Some EINVAL\<rparr>)))"

text \<open>The rest of the format is returned beside the result.\<close>

fun vprint_fmt_arg ::
    "(u64 \<Rightarrow> char) \<Rightarrow> ('f, 'w) writefn \<Rightarrow> 'f \<Rightarrow> fmt_state \<Rightarrow> fmt_specifier \<Rightarrow> string \<Rightarrow> ('f, 'w) vout
      \<Rightarrow> string \<times> ('f, 'w) vresult" where
  "vprint_fmt_arg m wr stdout st afmt [] out = ([], verr out EINVAL)"
| "vprint_fmt_arg m wr stdout st afmt (c # fmt) out =
     (case conversion m wr stdout c afmt of
        Some print \<Rightarrow> (fmt, print out)
      | None \<Rightarrow>
          (case modifier c st afmt out of
             None \<Rightarrow> (fmt, None)
           | Some (Inl out) \<Rightarrow> (fmt, Some (Inl out))
           | Some (Inr (st, afmt, out)) \<Rightarrow> vprint_fmt_arg m wr stdout st afmt fmt out))"

lemma vprint_fmt_arg_shorter:
  "length (fst (vprint_fmt_arg m wr stdout st afmt fmt out)) \<le> length fmt"
  by (induction fmt arbitrary: st afmt out)
    (auto split: option.split sum.split prod.split intro: le_SucI)

function vfprintf_loop ::
    "(u64 \<Rightarrow> char) \<Rightarrow> ('f, 'w) writefn \<Rightarrow> 'f \<Rightarrow> string \<Rightarrow> nat \<Rightarrow> ('f, 'w) vout \<Rightarrow> ('f, 'w) vresult" where
  "vfprintf_loop m wr stdout fmt i out =
     (if length fmt \<le> i then (if 0 < i then fwrite_out wr (take i fmt) out else Some (Inr out))
      else if fmt ! i = CHR ''%'' then
        (case (if 0 < i then fwrite_out wr (take i fmt) out else Some (Inr out)) of
           None \<Rightarrow> None
         | Some (Inl out) \<Rightarrow> Some (Inl out)
         | Some (Inr out) \<Rightarrow>
             (case vprint_fmt_arg m wr stdout FLAG afmt0 (drop (i + 1) fmt) out of
                (fmt, Some (Inr out)) \<Rightarrow> vfprintf_loop m wr stdout fmt 0 out
              | (fmt, r) \<Rightarrow> r))
      else vfprintf_loop m wr stdout fmt (i + 1) out)"
  by pat_completeness auto
termination
proof (relation "measures [\<lambda>(m, wr, sd, fmt, i, out). length fmt, \<lambda>(m, wr, sd, fmt, i, out). length fmt - i]")
  fix m :: "u64 \<Rightarrow> char" and wr :: "('f, 'w) writefn" and stdout fmt i out a out1 fmt1 r a1 out2
  assume "\<not> length fmt \<le> i" "(fmt1, r) = vprint_fmt_arg m wr stdout FLAG afmt0 (drop (i + 1) fmt) out1"
  then have "length fmt1 < length fmt"
    using vprint_fmt_arg_shorter [of m wr stdout FLAG afmt0 "drop (i + 1) fmt" out1] by (metis fst_conv length_drop
      diff_less le_less_trans add_gr_0 zero_less_one not_le less_le_trans le_zero_eq length_0_conv gr0I le0)
  then show "((m, wr, stdout, fmt1, 0, out2), (m, wr, stdout, fmt, i, out))
    \<in> measures [\<lambda>(m, wr, sd, fmt, i, out). length fmt, \<lambda>(m, wr, sd, fmt, i, out). length fmt - i]" by simp
qed auto

declare vfprintf_loop.simps [simp del]

text \<open>\<open>vfprintf\<close>: the result and the final state.\<close>

definition vfprintf ::
    "(u64 \<Rightarrow> char) \<Rightarrow> ('f, 'w) writefn \<Rightarrow> 'f \<Rightarrow> string \<Rightarrow> ('f, 'w) vout \<Rightarrow> (int \<times> ('f, 'w) vout) option" where
  "vfprintf m wr stdout fmt out =
     (case vfprintf_loop m wr stdout fmt 0 (out\<lparr>vprinted := 0\<rparr>) of
        None \<Rightarrow> None
      | Some (Inl out) \<Rightarrow> Some (-1, out)
      | Some (Inr out) \<Rightarrow> Some (int (vprinted out), out))"

text \<open>\<open>fprintf\<close> and \<open>printf\<close> drop the result of \<open>vfprintf\<close> and return zero.\<close>

definition fprintf ::
    "(u64 \<Rightarrow> char) \<Rightarrow> ('f, 'w) writefn \<Rightarrow> 'f \<Rightarrow> string \<Rightarrow> ('f, 'w) vout \<Rightarrow> (int \<times> ('f, 'w) vout) option" where
  "fprintf m wr stdout fmt out = do {
     (_, out) \<leftarrow> vfprintf m wr stdout fmt out;
     Some (0, out)
   }"

definition libc_printf ::
    "(u64 \<Rightarrow> char) \<Rightarrow> ('f, 'w) writefn \<Rightarrow> 'f \<Rightarrow> string \<Rightarrow> ('f, 'w) vout \<Rightarrow> (int \<times> ('f, 'w) vout) option" where
  "libc_printf m wr stdout fmt out = do {
     (_, out) \<leftarrow> vfprintf m wr stdout fmt (out\<lparr>vfile := stdout\<rparr>);
     Some (0, out)
   }"

section \<open>The number returned is the number written\<close>

text \<open>What the streams' write functions are relied on for: a positive result is the number of characters of
  the request appended to the stream, and otherwise nothing is written.\<close>

definition appends :: "('f, 'w) writefn \<Rightarrow> ('f \<Rightarrow> 'w \<Rightarrow> string) \<Rightarrow> bool" where
  "appends wr contents \<longleftrightarrow> (\<forall>f s w n w'. wr f s w = (n, w') \<longrightarrow>
     nat n \<le> length s \<and> contents f w' = contents f w @ take (nat n) s \<and> (\<forall>g. g \<noteq> f \<longrightarrow> contents g w' = contents g w))"

lemma appendsD:
  assumes "appends wr contents" "wr f s w = (n, w')"
  shows "nat n \<le> length s" "contents f w' = contents f w @ take (nat n) s"
    "g \<noteq> f \<Longrightarrow> contents g w' = contents g w"
  using assms unfolding appends_def by blast+

lemma libc_write_appends:
  assumes wr: "appends wr contents"
  shows "libc_write wr f data w = Some (k, e, w') \<Longrightarrow>
    k \<le> length data \<and> contents f w' = contents f w @ take k data \<and> (\<forall>g. g \<noteq> f \<longrightarrow> contents g w' = contents g w)"
proof (induction "length data" arbitrary: data w k e rule: less_induct)
  case less
  show ?case
  proof (cases "data = []")
    case True
    then show ?thesis using less.prems by (subst (asm) libc_write.simps) simp
  next
    case False
    let ?chunk = "if INT_MAX < int (length data) then take (nat INT_MAX) data else data"
    obtain n w1 where n: "wr f ?chunk w = (n, w1)" by fastforce
    note 1 = appendsD [OF wr n]
    have eq: "libc_write wr f data w = (if n \<le> 0 then Some (0, True, w1) else if int (length ?chunk) < n then None
        else map_option (\<lambda>(k, e, w). (nat n + k, e, w)) (libc_write wr f (drop (nat n) data) w1))"
      using False n by (subst libc_write.simps) (simp only: Let_def prod.case if_False)
    show ?thesis
    proof (cases "n \<le> 0")
      case True
      with 1 less.prems eq show ?thesis by auto
    next
      case pos: False
      with less.prems eq obtain k' where k: "libc_write wr f (drop (nat n) data) w1 = Some (k', e, w')" "k = nat n + k'"
        and le: "n \<le> int (length ?chunk)"
        by (auto split: if_split_asm)
      have "length (drop (nat n) data) < length data" using pos False by simp
      note 2 = less.hyps [OF this k(1)]
      have "take (nat n) ?chunk = take (nat n) data" using le by (auto simp: min_def INT_MAX_def split: if_split_asm)
      with 1 2 k(2) pos show ?thesis by (auto simp: take_add split: if_split_asm)
    qed
  qed
qed

definition emits :: "('f \<Rightarrow> 'w \<Rightarrow> string) \<Rightarrow> ('f, 'w) vout \<Rightarrow> ('f, 'w) vout \<Rightarrow> bool" where
  "emits contents a b \<longleftrightarrow> vfile b = vfile a \<and>
     (\<exists>s. contents (vfile a) (vworld b) = contents (vfile a) (vworld a) @ s \<and> vprinted b = vprinted a + length s)"

definition emitting :: "('f \<Rightarrow> 'w \<Rightarrow> string) \<Rightarrow> 'f \<Rightarrow> (('f, 'w) vout \<Rightarrow> ('f, 'w) vresult) \<Rightarrow> bool" where
  "emitting contents stdout p \<longleftrightarrow> (\<forall>a b. vfile a \<noteq> stdout \<longrightarrow> p a = Some (Inr b) \<longrightarrow> emits contents a b)"

lemma emits_refl [simp]: "emits contents a a"
  by (simp add: emits_def)

lemma emits_trans: "emits contents a b \<Longrightarrow> emits contents b c \<Longrightarrow> emits contents a c"
  by (auto simp: emits_def)

lemma emits_file: "emits contents a b \<Longrightarrow> vfile b = vfile a"
  by (simp add: emits_def)

lemma emits_cong: "vfile a' = vfile a \<Longrightarrow> vworld a' = vworld a \<Longrightarrow> vprinted a' = vprinted a \<Longrightarrow>
  emits contents a' b = emits contents a b"
  by (simp add: emits_def)

lemma and_then_Inr: "and_then r k = Some (Inr c) \<longleftrightarrow> (\<exists>b. r = Some (Inr b) \<and> k b = Some (Inr c))"
  by (auto simp: and_then_def split: option.split sum.split)

lemma emittingD: "emitting contents stdout p \<Longrightarrow> vfile a \<noteq> stdout \<Longrightarrow> p a = Some (Inr b) \<Longrightarrow> emits contents a b"
  by (simp add: emitting_def)

lemma emitting_and_then:
  assumes "emitting contents stdout p" "emitting contents stdout q"
  shows "emitting contents stdout (\<lambda>out. and_then (p out) q)"
  unfolding emitting_def and_then_Inr
proof (intro allI impI, elim exE conjE)
  fix a b c
  assume a: "vfile a \<noteq> stdout" and p: "p a = Some (Inr c)" and q: "q c = Some (Inr b)"
  from emittingD [OF assms(1) a p] have 1: "emits contents a c" .
  moreover have "emits contents c b" using emittingD [OF assms(2) _ q] emits_file [OF 1] a by simp
  ultimately show "emits contents a b" by (rule emits_trans)
qed

lemma emitting_fwrite_out: "appends wr contents \<Longrightarrow> emitting contents stdout (fwrite_out wr data)"
  by (auto simp: emitting_def fwrite_out_def to_stream_def bind_eq_Some_conv emits_def verr_def Let_def
      dest!: libc_write_appends split: if_split_asm)

lemma emitting_libc_putchar: "appends wr contents \<Longrightarrow> emitting contents stdout (libc_putchar wr stdout c)"
  by (auto simp: emitting_def libc_putchar_def to_stream_def bind_eq_Some_conv emits_def
      dest!: libc_write_appends split: if_split_asm)

lemma emitting_vprint_num:
  assumes "appends wr contents"
  shows "emitting contents stdout (vprint_num_base_10 wr v n)" "emitting contents stdout (vprint_num_base_16 wr v n)"
  using emitting_fwrite_out [OF assms, of stdout]
  by (auto simp: emitting_def vprint_num_base_10_def vprint_num_base_16_def bind_eq_Some_conv)

lemma emitting_vprint_char_rep:
  assumes "appends wr contents"
  shows "emitting contents stdout (vprint_char_rep wr ch n)"
proof (induction n rule: less_induct)
  case (less n)
  show ?case
  proof (cases "16 \<le> n")
    case True
    then have "emitting contents stdout (\<lambda>out. and_then (fwrite_out wr (replicate 16 ch) out) (vprint_char_rep wr ch (n - 16)))"
      by (intro emitting_and_then emitting_fwrite_out assms less) simp
    with True show ?thesis by (simp add: emitting_def vprint_char_rep.simps [of _ _ n])
  next
    case False
    then show ?thesis
      using emitting_fwrite_out [OF assms, of stdout "take n (replicate 16 ch)"]
      by (simp add: emitting_def vprint_char_rep.simps [of _ _ n])
  qed
qed

lemma emitting_vpad: "appends wr contents \<Longrightarrow> emitting contents stdout (vpad wr afmt n)"
  using emitting_vprint_char_rep [of wr contents stdout]
  by (auto simp: emitting_def vpad_def)

lemmas emitting_intros = emitting_and_then emitting_fwrite_out emitting_libc_putchar emitting_vprint_num emitting_vpad

text \<open>A conversion that first takes an argument.\<close>

lemma emitting_arg:
  assumes "\<And>v. emitting contents stdout (k v)"
  shows "emitting contents stdout (\<lambda>out. vva_arg out \<bind> (\<lambda>(v, out). k v out))"
    "emitting contents stdout (\<lambda>out. vva_double out \<bind> (\<lambda>(v, out). k v out))"
    "emitting contents stdout (\<lambda>out. vread_number afmt out \<bind> (\<lambda>(v, out). k v out))"
    "emitting contents stdout (\<lambda>out. (if 0 < len_mod afmt then vva_arg out
       else map_option (\<lambda>(a, out). (word_of_int (as_int a), out)) (vva_arg out)) \<bind> (\<lambda>(v, out). k v out))"
proof -
  have k: "vfile a \<noteq> stdout \<Longrightarrow> k v (a\<lparr>vargs := as\<rparr>) = Some (Inr b) \<Longrightarrow> emits contents a b" for v a as b
    using emittingD [OF assms, of "a\<lparr>vargs := as\<rparr>" v b] by (simp add: emits_def)
  have kd: "vfile a \<noteq> stdout \<Longrightarrow> k v (a\<lparr>vdoubles := as\<rparr>) = Some (Inr b) \<Longrightarrow> emits contents a b" for v a as b
    using emittingD [OF assms, of "a\<lparr>vdoubles := as\<rparr>" v b] by (simp add: emits_def)
  show "emitting contents stdout (\<lambda>out. vva_arg out \<bind> (\<lambda>(v, out). k v out))"
    using k by (auto simp: emitting_def vva_arg_def split: list.split_asm)
  show "emitting contents stdout (\<lambda>out. vva_double out \<bind> (\<lambda>(v, out). k v out))"
    using kd by (auto simp: emitting_def vva_double_def split: list.split_asm)
  show "emitting contents stdout (\<lambda>out. vread_number afmt out \<bind> (\<lambda>(v, out). k v out))"
    using k by (auto simp: emitting_def vread_number_def vva_arg_def split: list.split_asm if_split_asm)
  show "emitting contents stdout (\<lambda>out. (if 0 < len_mod afmt then vva_arg out
       else map_option (\<lambda>(a, out). (word_of_int (as_int a), out)) (vva_arg out)) \<bind> (\<lambda>(v, out). k v out))"
    using k by (auto simp: emitting_def vva_arg_def split: list.split_asm if_split_asm)
qed

lemma emitting_cong_arg: "(\<And>out. p out = q out) \<Longrightarrow> emitting contents stdout q \<Longrightarrow> emitting contents stdout p"
  by (simp add: emitting_def)

lemma emitting_kassert: "emitting contents stdout p \<Longrightarrow> emitting contents stdout (\<lambda>out. kassert b \<bind> (\<lambda>_. p out))"
  by (simp add: emitting_def)

lemma emitting_if: "emitting contents stdout p \<Longrightarrow> emitting contents stdout q \<Longrightarrow>
  emitting contents stdout (\<lambda>out. if b then p out else q out)"
  by (simp add: emitting_def)

lemma emitting_verr: "emitting contents stdout (\<lambda>out. verr out e)"
  by (simp add: emitting_def verr_def)

lemma emitting_option: "(\<And>x. emitting contents stdout (p x)) \<Longrightarrow> emitting contents stdout (\<lambda>out. r \<bind> (\<lambda>x. p x out))"
  by (cases r) (simp_all add: emitting_def)

lemma emitting_conversion:
  assumes "appends wr contents" "conversion m wr stdout c afmt = Some print"
  shows "emitting contents stdout print"
proof -
  note [intro!] = emitting_arg emitting_intros emitting_kassert emitting_if emitting_verr emitting_option
  have "emitting contents stdout (vprint_signed wr afmt)" for afmt :: fmt_specifier
    unfolding vprint_signed_def [abs_def] fwritec_def Let_def
    by (rule emitting_arg(4), rule emitting_if)
      (intro emitting_and_then emitting_kassert emitting_fwrite_out emitting_vpad emitting_vprint_num assms(1))+
  moreover have "emitting contents stdout (vprint_unsigned wr afmt)" for afmt :: fmt_specifier
    using assms(1) unfolding vprint_unsigned_def [abs_def] Let_def by blast
  moreover have "emitting contents stdout (vprint_hex wr afmt)" for afmt :: fmt_specifier
    using assms(1) unfolding vprint_hex_def [abs_def] Let_def by blast
  moreover have "emitting contents stdout (vprint_char wr)"
    using assms(1) unfolding vprint_char_def [abs_def] fwritec_def by blast
  moreover have "emitting contents stdout (vprint_string m wr afmt)" for afmt :: fmt_specifier
    unfolding vprint_string_def [abs_def]
    by (rule emitting_arg(1), rule emitting_option, rule emitting_if)
      (intro emitting_verr emitting_and_then emitting_fwrite_out emitting_vpad assms(1))+
  moreover have "emitting contents stdout (vprint_double wr)"
    using assms(1) unfolding vprint_double_def [abs_def] by blast
  moreover have "emitting contents stdout (libc_putchar wr stdout (CHR ''%''))"
    using assms(1) by blast
  ultimately show ?thesis
    using assms(2) unfolding conversion_def by (elim if_SomeE) auto
qed

lemma modifier_emits:
  "modifier c st afmt a = Some (Inr (st', afmt', b)) \<Longrightarrow> vfile b = vfile a \<and> vworld b = vworld a \<and> vprinted b = vprinted a"
  unfolding modifier_def
  by (elim if_SomeE) (auto simp: bind_eq_Some_conv vva_arg_def simp del: kassert_bind split: list.split_asm)

lemma emits_vprint_fmt_arg:
  assumes wr: "appends wr contents"
  shows "vfile a \<noteq> stdout \<Longrightarrow> vprint_fmt_arg m wr stdout st afmt fmt a = (fmt', Some (Inr b)) \<Longrightarrow> emits contents a b"
proof (induction fmt arbitrary: st afmt a)
  case Nil
  then show ?case by (simp add: verr_def)
next
  case (Cons c fmt)
  show ?case
  proof (cases "conversion m wr stdout c afmt")
    case (Some print)
    then show ?thesis using Cons.prems emittingD [OF emitting_conversion [OF wr Some]] by simp
  next
    case None
    with Cons.prems obtain st1 afmt1 a1 where md: "modifier c st afmt a = Some (Inr (st1, afmt1, a1))"
      and r: "vprint_fmt_arg m wr stdout st1 afmt1 fmt a1 = (fmt', Some (Inr b))"
      by (auto split: option.split_asm sum.split_asm)
    note f = modifier_emits [OF md]
    have "emits contents a1 b" using Cons.IH [OF _ r] Cons.prems(1) f by simp
    then show ?thesis using emits_cong [of a1 a contents b] f by simp
  qed
qed

lemma emits_vfprintf_loop:
  "appends wr contents \<Longrightarrow> vfile a \<noteq> stdout \<Longrightarrow> vfprintf_loop m wr stdout fmt i a = Some (Inr b) \<Longrightarrow> emits contents a b"
proof (induction m wr stdout fmt i a rule: vfprintf_loop.induct)
  case (1 m wr stdout fmt i a)
  note out = emittingD [OF emitting_fwrite_out [OF "1.prems"(1)] "1.prems"(2)]
  show ?case
  proof (cases "length fmt \<le> i")
    case True
    then show ?thesis
      using "1.prems" out by (subst (asm) vfprintf_loop.simps) (auto split: if_split_asm)
  next
    case False
    show ?thesis
    proof (cases "fmt ! i = CHR ''%''")
      case c: False
      with False "1.prems" have "vfprintf_loop m wr stdout fmt (i + 1) a = Some (Inr b)"
        by (subst (asm) vfprintf_loop.simps) simp
      with "1.IH"(2) False c "1.prems" show ?thesis by blast
    next
      case c: True
      let ?w = "if 0 < i then fwrite_out wr (take i fmt) a else Some (Inr a)"
      from False c "1.prems" obtain a1 fmt1 a2 where w: "?w = Some (Inr a1)"
        and f: "vprint_fmt_arg m wr stdout FLAG afmt0 (drop (i + 1) fmt) a1 = (fmt1, Some (Inr a2))"
        and r: "vfprintf_loop m wr stdout fmt1 0 a2 = Some (Inr b)"
        by (subst (asm) vfprintf_loop.simps) (auto split: option.split_asm sum.split_asm prod.split_asm)
      have 1: "emits contents a a1" using w out by (auto split: if_split_asm)
      have 2: "emits contents a1 a2"
        using emits_vprint_fmt_arg [OF "1.prems"(1) _ f] emits_file [OF 1] "1.prems"(2) by simp
      have "emits contents a2 b"
        using "1.IH"(1) [OF False c w refl f [symmetric] refl refl] r emits_file [OF 1] emits_file [OF 2] "1.prems" by simp
      with 1 2 show ?thesis by (blast intro: emits_trans)
    qed
  qed
qed

text \<open>C40. When \<open>vfprintf\<close> on a stream other than \<open>stdout\<close> returns, its result is \<open>-1\<close> or the number of
  characters it has appended to the stream, for every format and argument list and however the stream splits the
  writes, as long as a write function appends what it says it has written and touches no other stream. (A run that
  reads an argument that is not there, or whose arithmetic overflows, is undefined behaviour and not covered.)\<close>

theorem vfprintf_count:
  assumes "appends wr contents" "vfile out \<noteq> stdout" "vfprintf m wr stdout fmt out = Some (r, out')"
  shows "r = -1 \<or> (\<exists>s. contents (vfile out) (vworld out') = contents (vfile out) (vworld out) @ s \<and> r = int (length s))"
proof -
  let ?out = "out\<lparr>vprinted := 0\<rparr>"
  from assms(3) consider "r = -1" | "vfprintf_loop m wr stdout fmt 0 ?out = Some (Inr out')" "r = int (vprinted out')"
    by (auto simp: vfprintf_def split: option.split_asm sum.split_asm)
  then show ?thesis
  proof cases
    case 2
    then have "emits contents ?out out'" using emits_vfprintf_loop [OF assms(1), of ?out stdout] assms(2) by simp
    with 2 show ?thesis by (auto simp: emits_def)
  qed simp
qed

text \<open>A stream that takes at most four characters at a time.\<close>

definition four_at_a_time :: "(bool, bool \<Rightarrow> string) writefn" where
  "four_at_a_time f s w = (int (min 4 (length s)), w(f := w f @ take 4 s))"

definition fresh_out :: "u64 list \<Rightarrow> (bool, bool \<Rightarrow> string) vout" where
  "fresh_out as = \<lparr>vargs = as, vdoubles = [], vfile = False, vprinted = 0, verrno = None, verror = (\<lambda>_. False),
     vworld = (\<lambda>_. [])\<rparr>"

lemma appends_four_at_a_time: "appends four_at_a_time (\<lambda>f w. w f)"
  by (auto simp: appends_def four_at_a_time_def min_def)

definition vfprintf_example :: "string \<Rightarrow> u64 list \<Rightarrow> (int \<times> string \<times> string) option" where
  "vfprintf_example fmt as = map_option (\<lambda>(r, out). (r, vworld out False, vworld out True))
     (vfprintf (\<lambda>_. CHR 0x00) four_at_a_time True fmt (fresh_out as))"

lemma vfprintf_count_witness:
  "(\<exists>out'. vfprintf (\<lambda>_. CHR 0x00) four_at_a_time True ''port %05u'' (fresh_out [80]) = Some (10, out')
     \<and> (\<exists>s. vworld out' False = s \<and> 10 = int (length s)))"
proof -
  have "map_option fst (vfprintf (\<lambda>_. CHR 0x00) four_at_a_time True ''port %05u'' (fresh_out [80])) = Some 10"
    by code_simp
  then obtain out' where r: "vfprintf (\<lambda>_. CHR 0x00) four_at_a_time True ''port %05u'' (fresh_out [80]) = Some (10, out')"
    by auto
  from vfprintf_count [OF appends_four_at_a_time _ this] show ?thesis
    using r by (auto simp: fresh_out_def)
qed

text \<open>What the library prints differs from what it says: a negative number is written with the letter \<open>o\<close>
  for its sign, and \<open>%%\<close> sends its percent sign to \<open>stdout\<close>, not to the stream, and does not count it.\<close>

theorem vfprintf_wrong_output:
  "vfprintf_example ''%d'' [-5] = Some (2, ''o5'', []) \<and> vfprintf_example ''90%%'' [] = Some (2, ''90'', ''%'')"
  by code_simp

text \<open>\<open>fprintf\<close> writes the same characters but returns zero, not their number.\<close>

theorem fprintf_drops_count:
  "map_option (\<lambda>(r, out). (r, vworld out False)) (fprintf (\<lambda>_. CHR 0x00) four_at_a_time True ''port %05u'' (fresh_out [80]))
     = Some (0, ''port 00080'')"
  by code_simp

end
