(* ===== verification/Libc_String.thy ===== *)
theory Libc_String
  imports Fluke_Prelude
begin

text \<open>
  The string functions of the C library: \<open>system/libc/src/string/\<close>.

  The memory of a process is a partial function from addresses to bytes; an access to an address that is
  not mapped faults and the process does not go on: the result is \<open>None\<close>. \<open>size_t\<close> and pointers are
  64-bit words, so pointer arithmetic wraps.
\<close>

type_synonym cmem = "u64 \<Rightarrow> u8 option"

definition store :: "cmem \<Rightarrow> u64 \<Rightarrow> u8 \<Rightarrow> cmem option" where
  "store m p v = (case m p of None \<Rightarrow> None | Some _ \<Rightarrow> Some (m(p \<mapsto> v)))"

section \<open>strlen\<close>

text \<open>The byte-by-byte version that the file keeps under \<open>#if 0\<close>.\<close>

partial_function (option) strlen_loop :: "cmem \<Rightarrow> u64 \<Rightarrow> u64 \<Rightarrow> u64 option" where
  "strlen_loop m str n =
     (case m str of
        None \<Rightarrow> None
      | Some c \<Rightarrow> if c \<noteq> 0 then strlen_loop m (str + 1) (n + 1) else Some n)"

definition strlen_reference :: "cmem \<Rightarrow> u64 \<Rightarrow> u64 option" where
  "strlen_reference m str = strlen_loop m str 0"

text \<open>The version that is compiled: 16 bytes at a time, with the SSE2 comparison
  (\<open>_mm_cmpeq_epi8\<close> against zero) and mask (\<open>_mm_movemask_epi8\<close>) written as one function, and
  \<open>__builtin_ctz\<close> (whose argument is never zero here).\<close>

definition load128 :: "cmem \<Rightarrow> u64 \<Rightarrow> u8 list option" where
  "load128 m p = those (map (\<lambda>i. m (p + word_of_nat i)) [0..<16])"

definition zero_mask :: "u8 list \<Rightarrow> u32" where
  "zero_mask bs = horner_sum of_bool 2 (map (\<lambda>b. b = 0) bs)"

definition ctz :: "u32 \<Rightarrow> nat" where
  "ctz w = length (takeWhile (\<lambda>i. \<not> bit w i) [0..<32])"

partial_function (option) strlen_blocks :: "cmem \<Rightarrow> u64 \<Rightarrow> u64 \<Rightarrow> u64 option" where
  "strlen_blocks m str ptr = do {
     eq \<leftarrow> load128 m ptr;
     let mask = zero_mask eq;
     if mask \<noteq> 0 then Some (ptr - str + word_of_nat (ctz mask)) else strlen_blocks m str (ptr + 16)
   }"

definition strlen :: "cmem \<Rightarrow> u64 \<Rightarrow> u64 option" where
  "strlen m str =
     (let align_offset = str AND 0xf; ptr = str - align_offset in
      if align_offset \<noteq> 0 then do {
        eq \<leftarrow> load128 m ptr;
        let mask = drop_bit (unat align_offset) (zero_mask eq);
        if mask \<noteq> 0 then Some (word_of_nat (ctz mask)) else strlen_blocks m str (ptr + 16)
      } else strlen_blocks m str ptr)"

text \<open>The contents of a C string: the bytes before the first zero, which is \<open>k\<close> bytes after \<open>s\<close>.\<close>

definition cstring_at :: "cmem \<Rightarrow> u64 \<Rightarrow> nat \<Rightarrow> bool" where
  "cstring_at m s k \<longleftrightarrow>
     m (s + word_of_nat k) = Some 0 \<and> (\<forall>i<k. \<exists>c. m (s + word_of_nat i) = Some c \<and> c \<noteq> 0)"

text \<open>Memory that is mapped in whole blocks of 16 bytes, as memory mapped in pages is.\<close>

definition block_mapped :: "cmem \<Rightarrow> bool" where
  "block_mapped m \<longleftrightarrow> (\<forall>a. \<forall>i<16. m a \<noteq> None \<longrightarrow> m (word_of_nat (unat a div 16 * 16 + i)) \<noteq> None)"

lemma cstring_at_0: "cstring_at m s 0 \<longleftrightarrow> m s = Some 0"
  by (simp add: cstring_at_def)

lemma cstring_at_Suc:
  "cstring_at m s (Suc k) \<longleftrightarrow> (\<exists>c. m s = Some c \<and> c \<noteq> 0) \<and> cstring_at m (s + 1) k"
proof -
  have *: "(\<forall>i<Suc k. P i) \<longleftrightarrow> P 0 \<and> (\<forall>i<k. P (Suc i))" for P :: "nat \<Rightarrow> bool"
    using less_Suc_eq_0_disj by auto
  show ?thesis unfolding cstring_at_def * by (auto simp: add.assoc)
qed

lemma cstring_at_unique: "cstring_at m s k \<Longrightarrow> cstring_at m s l \<Longrightarrow> k = l"
  unfolding cstring_at_def by (metis linorder_neqE_nat option.inject)

text \<open>The first \<open>j\<close> bytes of the string are not zero: the rest is a string.\<close>

lemma cstring_at_add:
  assumes "\<And>i. i < j \<Longrightarrow> \<exists>c. m (s + word_of_nat i) = Some c \<and> c \<noteq> 0"
  shows "cstring_at m s (j + k) \<longleftrightarrow> cstring_at m (s + word_of_nat j) k"
  using assms
proof (induction j arbitrary: s)
  case 0 then show ?case by simp
next
  case (Suc j)
  have "\<exists>c. m s = Some c \<and> c \<noteq> 0" using Suc.prems [of 0] by simp
  moreover have "\<And>i. i < j \<Longrightarrow> \<exists>c. m (s + 1 + word_of_nat i) = Some c \<and> c \<noteq> 0"
    using Suc.prems [of "Suc i" for i] by (simp add: add.assoc)
  ultimately show ?case using Suc.IH [of "s + 1"] by (simp add: cstring_at_Suc add.assoc)
qed

lemma cstring_at_add_D:
  assumes "cstring_at m s k" "j \<le> k"
  shows "cstring_at m (s + word_of_nat j) (k - j)"
  using cstring_at_add [of j m s "k - j"] assms by (auto simp: cstring_at_def)

lemma strlen_loop_iff: "strlen_loop m s n = Some r \<longleftrightarrow> (\<exists>k. cstring_at m s k \<and> r = n + word_of_nat k)"
proof
  assume "strlen_loop m s n = Some r"
  then show "\<exists>k. cstring_at m s k \<and> r = n + word_of_nat k"
  proof (rule strlen_loop.raw_induct
      [where P = "\<lambda>m s n r. \<exists>k. cstring_at m s k \<and> r = n + word_of_nat k", rotated])
    fix loop m s n r
    assume 1: "\<And>m s n r. loop m s n = Some r \<Longrightarrow> \<exists>k. cstring_at m s k \<and> r = n + word_of_nat k"
      "(case m s of None \<Rightarrow> None | Some c \<Rightarrow> if c \<noteq> 0 then loop m (s + 1) (n + 1) else Some n) = Some r"
    show "\<exists>k. cstring_at m s k \<and> r = n + word_of_nat k"
    proof (cases "m s")
      case (Some c)
      show ?thesis
      proof (cases "c = 0")
        case True
        then show ?thesis using 1(2) Some by (intro exI [of _ 0]) (simp add: cstring_at_0)
      next
        case False
        then have "loop m (s + 1) (n + 1) = Some r" using 1(2) Some by simp
        then obtain k where "cstring_at m (s + 1) k" "r = n + 1 + word_of_nat k" using 1(1) by blast
        then show ?thesis using Some False by (intro exI [of _ "Suc k"]) (simp add: cstring_at_Suc)
      qed
    qed (use 1(2) in simp)
  qed
next
  assume "\<exists>k. cstring_at m s k \<and> r = n + word_of_nat k"
  then obtain k where "cstring_at m s k" "r = n + word_of_nat k" by blast
  then show "strlen_loop m s n = Some r"
  proof (induction k arbitrary: s n)
    case 0
    then show ?case by (subst strlen_loop.simps) (simp add: cstring_at_0)
  next
    case (Suc k)
    then show ?case by (subst strlen_loop.simps) (auto simp: cstring_at_Suc add.assoc)
  qed
qed

subsection \<open>One block\<close>

lemma those_map_iff:
  "those (map f xs) = Some ys \<longleftrightarrow> length ys = length xs \<and> (\<forall>i<length xs. f (xs ! i) = Some (ys ! i))"
proof (induction xs arbitrary: ys)
  case Nil then show ?case by auto
next
  case (Cons x xs)
  have *: "(\<forall>i<Suc n. P i) \<longleftrightarrow> P 0 \<and> (\<forall>i<n. P (Suc i))" for P :: "nat \<Rightarrow> bool" and n
    using less_Suc_eq_0_disj by auto
  show ?case
    by (cases ys) (auto simp: Cons.IH * split: option.splits)
qed

lemma load128_iff:
  "load128 m p = Some bs \<longleftrightarrow> length bs = 16 \<and> (\<forall>i<16. m (p + word_of_nat i) = Some (bs ! i))"
  by (auto simp: load128_def those_map_iff)

lemma bit_zero_mask: "bit (zero_mask bs) i \<longleftrightarrow> i < 32 \<and> i < length bs \<and> bs ! i = 0"
  by (auto simp: zero_mask_def bit_horner_sum_bit_word_iff)

lemma ctz_bit:
  assumes "(w :: u32) \<noteq> 0"
  shows "bit w (ctz w)" "ctz w < 32" "i < ctz w \<Longrightarrow> \<not> bit w i"
proof -
  obtain n where n: "bit w n" using assms by (auto simp: bit_eq_iff)
  then have n32: "n < 32" using bit_imp_le_length by fastforce
  show lt: "ctz w < 32"
  proof -
    have "takeWhile (\<lambda>i. \<not> bit w i) [0..<32] \<noteq> [0..<32]"
      using n n32 by (auto simp: takeWhile_eq_all_conv)
    moreover have "length (takeWhile (\<lambda>i. \<not> bit w i) [0..<32]) \<le> 32"
      using length_takeWhile_le [of _ "[0..<32]"] by simp
    ultimately show ?thesis unfolding ctz_def
      by (metis diff_zero le_neq_implies_less length_upt takeWhile_eq_take take_all_iff order_refl)
  qed
  then show "bit w (ctz w)"
    using nth_length_takeWhile [of "\<lambda>i. \<not> bit w i" "[0..<32]"] by (simp add: ctz_def)
  show "\<not> bit w i" if "i < ctz w"
    using takeWhile_nth [of i "\<lambda>i. \<not> bit w i" "[0..<32]"] nth_mem [of i "takeWhile (\<lambda>i. \<not> bit w i) [0..<32]"]
      that lt set_takeWhileD unfolding ctz_def by fastforce
qed

text \<open>The mask of a block, shifted past the bytes before the string, finds the end of the string if it
  is in the block, and otherwise shows that no byte of the block ends it.\<close>

lemma mask_found:
  assumes "load128 m p = Some bs" "drop_bit off (zero_mask bs) \<noteq> 0"
  shows "cstring_at m (p + word_of_nat off) (ctz (drop_bit off (zero_mask bs)))"
  unfolding cstring_at_def
proof (intro conjI allI impI)
  let ?w = "drop_bit off (zero_mask bs)"
  have len: "length bs = 16" and at: "\<And>i. i < 16 \<Longrightarrow> m (p + word_of_nat i) = Some (bs ! i)"
    using assms(1) by (auto simp: load128_iff)
  have b: "bit (zero_mask bs) (off + ctz ?w)" using ctz_bit(1) [OF assms(2)] by (simp add: bit_drop_bit_eq)
  then have in_block: "off + ctz ?w < 16" by (simp add: bit_zero_mask len)
  show "m (p + word_of_nat off + word_of_nat (ctz ?w)) = Some 0"
    using at [OF in_block] b by (simp add: bit_zero_mask add.assoc)
  fix i assume i: "i < ctz ?w"
  have "\<not> bit (zero_mask bs) (off + i)"
    using ctz_bit(3) [OF assms(2) i] by (simp add: bit_drop_bit_eq)
  moreover have "off + i < 16" using i in_block by simp
  ultimately show "\<exists>c. m (p + word_of_nat off + word_of_nat i) = Some c \<and> c \<noteq> 0"
    using at [of "off + i"] by (simp add: bit_zero_mask len add.assoc)
qed

lemma mask_not_found:
  assumes "load128 m p = Some bs" "drop_bit off (zero_mask bs) = 0" "off + i < 16"
  shows "\<exists>c. m (p + word_of_nat off + word_of_nat i) = Some c \<and> c \<noteq> 0"
proof -
  have "\<not> bit (drop_bit off (zero_mask bs)) i" using assms(2) by simp
  then have "bs ! (off + i) \<noteq> 0"
    using assms(1,3) by (simp add: bit_drop_bit_eq bit_zero_mask load128_iff)
  then show ?thesis using assms(1,3) by (auto simp: load128_iff add.assoc simp flip: of_nat_add)
qed

lemma unat_and_15: "unat ((a :: u64) AND 15) = unat a mod 16"
proof -
  have "a AND 15 = take_bit 4 a" by (simp add: take_bit_eq_mask mask_eq_exp_minus_1)
  also have "unat (take_bit 4 a) = take_bit 4 (unat a)" by (rule unsigned_take_bit_eq)
  finally show ?thesis by (simp add: take_bit_eq_mod)
qed

lemma block_start: "unat ((a :: u64) - (a AND 15)) = unat a div 16 * 16"
proof -
  have "a AND 15 \<le> a" by (rule word_and_le2)
  then show ?thesis by (simp add: unat_sub unat_and_15 minus_mod_eq_div_mult)
qed

lemma block_next: "unat (p :: u64) mod 16 = 0 \<Longrightarrow> unat (p + 16) mod 16 = 0"
  by (simp add: unat_word_ariths) (simp add: mod_mod_cancel mod_add_eq)

text \<open>Memory in which a block is mapped or not is block-mapped.\<close>

lemma block_mapped_blocks:
  assumes "\<And>a. m a \<noteq> None \<longleftrightarrow> P (unat a div 16)"
  shows "block_mapped m"
  unfolding block_mapped_def
proof (intro allI impI)
  fix a :: u64 and i :: nat
  assume i: "i < 16" and a: "m a \<noteq> None"
  let ?x = "unat a div 16 * 16 + i"
  have "unat a < 16 * 2 ^ 60" using unat64_less [of a] by simp
  then have "unat a div 16 < 2 ^ 60" by (simp add: less_mult_imp_div_less mult.commute)
  then have "?x < 2 ^ 64" using i by simp
  then have "unat (word_of_nat ?x :: u64) = ?x" by (subst unat_of_nat) simp
  then have "unat (word_of_nat ?x :: u64) div 16 = unat a div 16" using i by simp
  then show "m (word_of_nat ?x) \<noteq> None" using a assms by metis
qed

lemma load128_block:
  assumes "block_mapped m" "unat p mod 16 = 0" "i < 16" "m (p + word_of_nat i) \<noteq> None"
  shows "\<exists>bs. load128 m p = Some bs"
proof -
  let ?a = "p + word_of_nat i"
  obtain q where q: "unat p = 16 * q" using assms(2) by fastforce
  have a: "unat ?a = 16 * q + i"
  proof -
    have "unat p < 16 * 2 ^ 60" using unsigned_less [of p] by simp
    then have "q < 2 ^ 60" using q by simp
    then have "unat p + i < 2 ^ 64" using assms(3) q by simp
    then have "unat p + unat (word_of_nat i :: u64) < 2 ^ 64" using assms(3) by (simp add: unat_of_nat)
    then show ?thesis using assms(3) q by (subst unat_add_lem [THEN iffD1]) (simp_all add: unat_of_nat)
  qed
  have *: "unat ?a div 16 * 16 = unat p" unfolding a q using assms(3) by simp
  have "\<forall>j<16. m (word_of_nat (unat ?a div 16 * 16 + j)) \<noteq> None"
    using assms(1,4) unfolding block_mapped_def by blast
  then have "\<forall>j<16. m (p + word_of_nat j) \<noteq> None" unfolding * by simp
  then have "load128 m p = Some (map (\<lambda>j. the (m (p + word_of_nat j))) [0..<16])"
    by (auto simp: load128_iff)
  then show ?thesis by blast
qed

lemma strlen_blocks_only:
  "strlen_blocks m str ptr = Some r \<Longrightarrow> ptr = str + word_of_nat d \<Longrightarrow>
     \<forall>i<d. \<exists>c. m (str + word_of_nat i) = Some c \<and> c \<noteq> 0 \<Longrightarrow> \<exists>k. cstring_at m str k \<and> r = word_of_nat k"
proof -
  have "strlen_blocks m str ptr = Some r \<Longrightarrow>
    \<forall>d. ptr = str + word_of_nat d \<longrightarrow> (\<forall>i<d. \<exists>c. m (str + word_of_nat i) = Some c \<and> c \<noteq> 0) \<longrightarrow>
      (\<exists>k. cstring_at m str k \<and> r = word_of_nat k)"
  proof (rule strlen_blocks.raw_induct
      [where P = "\<lambda>m str ptr r. \<forall>d. ptr = str + word_of_nat d \<longrightarrow>
         (\<forall>i<d. \<exists>c. m (str + word_of_nat i) = Some c \<and> c \<noteq> 0) \<longrightarrow>
         (\<exists>k. cstring_at m str k \<and> r = word_of_nat k)", rotated], assumption, intro allI impI)
    fix loop m str ptr r d
    assume IH: "\<And>m str ptr r. loop m str ptr = Some r \<Longrightarrow>
        \<forall>d. ptr = str + word_of_nat d \<longrightarrow> (\<forall>i<d. \<exists>c. m (str + word_of_nat i) = Some c \<and> c \<noteq> 0) \<longrightarrow>
          (\<exists>k. cstring_at m str k \<and> r = word_of_nat k)"
      and run: "Option.bind (load128 m ptr) (\<lambda>eq. let mask = zero_mask eq in
         if mask \<noteq> 0 then Some (ptr - str + word_of_nat (ctz mask)) else loop m str (ptr + 16)) = Some r"
      and d: "ptr = str + word_of_nat d" "\<forall>i<d. \<exists>c. m (str + word_of_nat i) = Some c \<and> c \<noteq> 0"
    from run obtain bs where bs: "load128 m ptr = Some bs" by (cases "load128 m ptr") auto
    show "\<exists>k. cstring_at m str k \<and> r = word_of_nat k"
    proof (cases "zero_mask bs = 0")
      case False
      then have "cstring_at m ptr (ctz (zero_mask bs))" using mask_found [OF bs, of 0] by simp
      then have "cstring_at m str (d + ctz (zero_mask bs))" using d by (subst cstring_at_add) auto
      moreover have "r = word_of_nat (d + ctz (zero_mask bs))" using run bs False d by simp
      ultimately show ?thesis by blast
    next
      case True
      then have next_run: "loop m str (ptr + 16) = Some r" using run bs by simp
      have "\<exists>c. m (str + word_of_nat i) = Some c \<and> c \<noteq> 0" if "i < d + 16" for i
      proof (cases "i < d")
        case False
        then have "\<exists>c. m (ptr + word_of_nat (i - d)) = Some c \<and> c \<noteq> 0"
          using mask_not_found [OF bs, of 0 "i - d"] True that by simp
        then show ?thesis using d False by (simp add: add.assoc flip: of_nat_add)
      qed (use d in blast)
      then show ?thesis using IH [OF next_run] d(1) by (auto simp: add.assoc dest!: spec [of _ "d + 16"])
    qed
  qed
  then show "strlen_blocks m str ptr = Some r \<Longrightarrow> ptr = str + word_of_nat d \<Longrightarrow>
     \<forall>i<d. \<exists>c. m (str + word_of_nat i) = Some c \<and> c \<noteq> 0 \<Longrightarrow> \<exists>k. cstring_at m str k \<and> r = word_of_nat k"
    by blast
qed

lemma strlen_blocks_finds:
  assumes "block_mapped m" "cstring_at m str k" "d \<le> k" "unat (str + word_of_nat d) mod 16 = 0"
  shows "strlen_blocks m str (str + word_of_nat d) = Some (word_of_nat k)"
  using assms(3,4)
proof (induction "k - d" arbitrary: d rule: less_induct)
  case less
  let ?p = "str + word_of_nat d"
  have rest: "cstring_at m ?p (k - d)" using cstring_at_add_D [OF assms(2) less.prems(1)] .
  have "m ?p \<noteq> None"
  proof (cases "k - d")
    case 0 then show ?thesis using rest by (simp add: cstring_at_0)
  next
    case Suc then show ?thesis using rest by (auto simp: cstring_at_Suc)
  qed
  then obtain bs where bs: "load128 m ?p = Some bs"
    using load128_block [OF assms(1) less.prems(2), of 0] by auto
  show ?case
  proof (cases "zero_mask bs = 0")
    case False
    then have "cstring_at m ?p (ctz (zero_mask bs))" using mask_found [OF bs, of 0] by simp
    then have "ctz (zero_mask bs) = k - d" using rest by (rule cstring_at_unique)
    then show ?thesis using bs False less.prems(1) by (subst strlen_blocks.simps) (simp flip: of_nat_add)
  next
    case True
    have "16 \<le> k - d"
    proof (rule ccontr)
      assume "\<not> 16 \<le> k - d"
      then have "\<exists>c. m (?p + word_of_nat (k - d)) = Some c \<and> c \<noteq> 0"
        using mask_not_found [OF bs, of 0 "k - d"] True by simp
      then show False using rest by (auto simp: cstring_at_def)
    qed
    then have "strlen_blocks m str (str + word_of_nat (d + 16)) = Some (word_of_nat k)"
      by (intro less.hyps) (use block_next [OF less.prems(2)] in \<open>simp_all add: add.assoc\<close>)
    then show ?thesis using bs True by (subst strlen_blocks.simps) (simp add: add.assoc)
  qed
qed

lemma strlen_only:
  assumes "strlen m str = Some r"
  shows "\<exists>k. cstring_at m str k \<and> r = word_of_nat k"
proof (cases "str AND 15 = 0")
  case True
  then have "strlen_blocks m str str = Some r" using assms by (simp add: strlen_def)
  then show ?thesis using strlen_blocks_only [of m str str r 0] by simp
next
  case False
  let ?off = "unat (str AND 15)" and ?ptr = "str - (str AND 15)"
  have off: "?off < 16" by (simp add: unat_and_15)
  obtain bs where bs: "load128 m ?ptr = Some bs"
    using assms False by (cases "load128 m ?ptr") (auto simp: strlen_def)
  let ?mask = "drop_bit ?off (zero_mask bs)"
  have start: "?ptr + word_of_nat ?off = str" by simp
  show ?thesis
  proof (cases "?mask = 0")
    case m: False
    then have "r = word_of_nat (ctz ?mask)" using assms False bs by (simp add: strlen_def Let_def)
    then show ?thesis using mask_found [OF bs m] unfolding start by blast
  next
    case True
    then have "strlen_blocks m str (?ptr + 16) = Some r" using assms False bs by (simp add: strlen_def Let_def)
    moreover have "?ptr + 16 = str + word_of_nat (16 - ?off)" using off by (simp add: of_nat_diff)
    moreover have "\<forall>i<16 - ?off. \<exists>c. m (str + word_of_nat i) = Some c \<and> c \<noteq> 0"
      using mask_not_found [OF bs True] unfolding start by simp
    ultimately show ?thesis using strlen_blocks_only by metis
  qed
qed

lemma strlen_finds:
  assumes "block_mapped m" "cstring_at m str k"
  shows "strlen m str = Some (word_of_nat k)"
proof (cases "str AND 15 = 0")
  case True
  then have "unat str mod 16 = 0" using unat_and_15 [of str] by simp
  then show ?thesis using strlen_blocks_finds [OF assms, of 0] True by (simp add: strlen_def)
next
  case False
  let ?off = "unat (str AND 15)" and ?ptr = "str - (str AND 15)"
  have off: "?off < 16" by (simp add: unat_and_15)
  have start: "?ptr + word_of_nat ?off = str" by simp
  have aligned: "unat ?ptr mod 16 = 0" unfolding block_start by simp
  have "m str \<noteq> None"
  proof (cases k)
    case 0 then show ?thesis using assms(2) by (simp add: cstring_at_0)
  next
    case Suc then show ?thesis using assms(2) by (auto simp: cstring_at_Suc)
  qed
  then obtain bs where bs: "load128 m ?ptr = Some bs"
    using load128_block [OF assms(1) aligned off] unfolding start by blast
  let ?mask = "drop_bit ?off (zero_mask bs)"
  show ?thesis
  proof (cases "?mask = 0")
    case m: False
    then have "cstring_at m str (ctz ?mask)" using mask_found [OF bs m] unfolding start by blast
    then have "ctz ?mask = k" using assms(2) by (rule cstring_at_unique)
    then show ?thesis using False bs m by (simp add: strlen_def Let_def)
  next
    case True
    have "16 - ?off \<le> k"
    proof (rule ccontr)
      assume "\<not> 16 - ?off \<le> k"
      then have "\<exists>c. m (str + word_of_nat k) = Some c \<and> c \<noteq> 0"
        using mask_not_found [OF bs True, of k] unfolding start by simp
      then show False using assms(2) by (auto simp: cstring_at_def)
    qed
    moreover have next_ptr: "str + word_of_nat (16 - ?off) = ?ptr + 16" using off by (simp add: of_nat_diff)
    moreover have "unat (str + word_of_nat (16 - ?off)) mod 16 = 0"
      unfolding next_ptr by (rule block_next [OF aligned])
    ultimately have "strlen_blocks m str (?ptr + 16) = Some (word_of_nat k)"
      using strlen_blocks_finds [OF assms] by metis
    then show ?thesis using False bs True by (simp add: strlen_def Let_def)
  qed
qed

text \<open>C15. The SSE2 \<open>strlen\<close> is the byte-by-byte one: on memory that is mapped in whole 16-byte blocks (as
  pages are) the two give the same result for every address, and the wide one faults, or runs on, only
  where the narrow one does - although it reads bytes before the string and after its end.\<close>

theorem strlen_equivalent:
  assumes "block_mapped m"
  shows "strlen m str = strlen_reference m str"
proof -
  have "strlen m str = Some r \<longleftrightarrow> strlen_reference m str = Some r" for r
    using strlen_only [of m str r] strlen_finds [OF assms, of str]
    by (auto simp: strlen_reference_def strlen_loop_iff)
  then show ?thesis by (cases "strlen_reference m str") (metis not_Some_eq)+
qed

text \<open>Two mapped blocks at 4096, a string of five bytes across them.\<close>

definition hello_memory :: cmem where
  "hello_memory a = (if 4096 \<le> a \<and> a < 4128 then Some (if a < 4114 then 104 else 0) else None)"

lemma hello_mapped: "hello_memory a \<noteq> None \<longleftrightarrow> 4096 \<le> unat a \<and> unat a < 4128"
  by (simp add: hello_memory_def word_le_nat_alt word_less_nat_alt)

lemma hello_block_mapped: "block_mapped hello_memory"
proof (rule block_mapped_blocks)
  fix a
  show "hello_memory a \<noteq> None \<longleftrightarrow> 256 \<le> unat a div 16 \<and> unat a div 16 < 258"
    unfolding hello_mapped by auto
qed

theorem strlen_equivalent_witness:
  "block_mapped hello_memory \<and> strlen hello_memory 4109 = strlen_reference hello_memory 4109
   \<and> strlen_reference hello_memory 4109 = Some 5"
  using hello_block_mapped strlen_equivalent [OF hello_block_mapped]
  by (simp add: strlen_reference_def strlen_loop.simps hello_memory_def)

section \<open>Searching and comparing\<close>

lemma distance_decreases: "p \<noteq> (q :: u64) \<Longrightarrow> unat (q - (p + 1)) < unat (q - p)"
  using measure_unat [of "q - p"] by (simp add: algebra_simps)

function memchr_loop :: "cmem \<Rightarrow> u8 \<Rightarrow> u64 \<Rightarrow> u64 \<Rightarrow> u64 option option" where
  "memchr_loop m ch p pend =
     (if p = pend then Some None
      else case m p of
          None \<Rightarrow> None
        | Some c \<Rightarrow> if c = ch then Some (Some p) else memchr_loop m ch (p + 1) pend)"
  by pat_completeness auto

termination
  by (relation "measure (\<lambda>(m, ch, p, q). unat (q - p))") (simp_all add: distance_decreases)

declare memchr_loop.simps [simp del]

definition memchr :: "cmem \<Rightarrow> u64 \<Rightarrow> u32 \<Rightarrow> u64 \<Rightarrow> u64 option option" where
  "memchr m s ch n = memchr_loop m (ucast ch) s (s + n)"

definition strnlen :: "cmem \<Rightarrow> u64 \<Rightarrow> u64 \<Rightarrow> u64 option" where
  "strnlen m s maxlen = do {
     found \<leftarrow> memchr m s 0 maxlen;
     Some (case found of Some p \<Rightarrow> p - s | None \<Rightarrow> maxlen)
   }"

text \<open>\<open>char\<close> is signed on this machine: \<open>a[-1] > b[-1]\<close> is a signed comparison.\<close>

function memcmp :: "cmem \<Rightarrow> u64 \<Rightarrow> u64 \<Rightarrow> u64 \<Rightarrow> int option" where
  "memcmp m a b len =
     (if len = 0 then Some 0
      else case (m a, m b) of
          (Some x, Some y) \<Rightarrow>
            if x \<noteq> y then Some (if y <s x then 1 else - 1) else memcmp m (a + 1) (b + 1) (len - 1)
        | _ \<Rightarrow> None)"
  by pat_completeness auto

termination
  by (relation "measure (\<lambda>(m, a, b, n). unat n)") (simp_all add: measure_unat)

declare memcmp.simps [simp del]

partial_function (option) strcmp :: "cmem \<Rightarrow> u64 \<Rightarrow> u64 \<Rightarrow> int option" where
  "strcmp m a b =
     (case (m a, m b) of
        (Some x, Some y) \<Rightarrow>
          if x = y then (if x = 0 then Some 0 else strcmp m (a + 1) (b + 1))
          else Some (if y <s x then 1 else - 1)
      | _ \<Rightarrow> None)"

section \<open>Copying\<close>

text \<open>\<open>memcpy.S\<close> (\<open>rep movsb\<close>) copies upwards, byte by byte.\<close>

fun memcpy :: "cmem \<Rightarrow> u64 \<Rightarrow> u64 \<Rightarrow> nat \<Rightarrow> cmem option" where
  "memcpy m dest src 0 = Some m"
| "memcpy m dest src (Suc n) = do {
     c \<leftarrow> m src;
     m \<leftarrow> store m dest c;
     memcpy m (dest + 1) (src + 1) n
   }"

text \<open>The loop of \<open>memmove\<close>, downwards from one past the last byte.\<close>

fun copy_down :: "cmem \<Rightarrow> u64 \<Rightarrow> u64 \<Rightarrow> nat \<Rightarrow> cmem option" where
  "copy_down m d s 0 = Some m"
| "copy_down m d s (Suc n) = do {
     c \<leftarrow> m (s - 1);
     m \<leftarrow> store m (d - 1) c;
     copy_down m (d - 1) (s - 1) n
   }"

definition memmove :: "cmem \<Rightarrow> u64 \<Rightarrow> u64 \<Rightarrow> u64 \<Rightarrow> cmem option" where
  "memmove m dest src n =
     (if dest < src then memcpy m dest src (unat n)
      else if src + n \<le> dest then memcpy m dest src (unat n)
      else copy_down m (dest + n) (src + n) (unat n))"

text \<open>\<open>malloc\<close> is the library's copy of dlmalloc: a parameter, which changes memory (its own headers,
  pages it maps) and returns a pointer, 0 when there is no memory.\<close>

definition strdup :: "(cmem \<Rightarrow> u64 \<Rightarrow> u64 \<times> cmem) \<Rightarrow> cmem \<Rightarrow> u64 \<Rightarrow> (u64 \<times> cmem) option" where
  "strdup malloc m str = do {
     len \<leftarrow> strlen m str;
     let (ptr, m) = malloc m (len + 1);
     if ptr = 0 then Some (0, m)
     else do {
       m \<leftarrow> store m (ptr + len) 0;
       m \<leftarrow> memcpy m ptr str (unat len);
       Some (ptr, m)
     }
   }"

definition strndup :: "(cmem \<Rightarrow> u64 \<Rightarrow> u64 \<times> cmem) \<Rightarrow> cmem \<Rightarrow> u64 \<Rightarrow> u64 \<Rightarrow> (u64 \<times> cmem) option" where
  "strndup malloc m str maxlen = do {
     len \<leftarrow> strnlen m str maxlen;
     let (ptr, m) = malloc m (len + 1);
     if ptr = 0 then Some (0, m)
     else do {
       m \<leftarrow> store m (ptr + len) 0;
       m \<leftarrow> memcpy m ptr str (unat len);
       Some (ptr, m)
     }
   }"

subsection \<open>What a copy leaves\<close>

definition mapped :: "cmem \<Rightarrow> u64 \<Rightarrow> nat \<Rightarrow> bool" where
  "mapped m p n \<longleftrightarrow> (\<forall>i<n. m (p + word_of_nat i) \<noteq> None)"

text \<open>\<open>copied m m' dest src n\<close>: the \<open>n\<close> bytes at \<open>dest\<close> are what the bytes at \<open>src\<close> were, and nothing
  else has changed.\<close>

definition copied :: "cmem \<Rightarrow> cmem \<Rightarrow> u64 \<Rightarrow> u64 \<Rightarrow> nat \<Rightarrow> bool" where
  "copied m m' dest src n \<longleftrightarrow>
     (\<forall>i<n. m' (dest + word_of_nat i) = m (src + word_of_nat i)) \<and>
     (\<forall>a. (\<forall>i<n. a \<noteq> dest + word_of_nat i) \<longrightarrow> m' a = m a)"

lemma all_less_Suc: "(\<forall>i<Suc n. P i) \<longleftrightarrow> P 0 \<and> (\<forall>i<n. P (Suc i))"
  using less_Suc_eq_0_disj by auto

lemma offset_inj:
  assumes "i < 2 ^ 64" "j < 2 ^ 64" "(p :: u64) + word_of_nat i = p + word_of_nat j"
  shows "i = j"
  using assms by (simp add: word_of_nat_eq_iff take_bit_eq_mod)

lemma mapped_Suc: "mapped m p (Suc n) \<longleftrightarrow> m p \<noteq> None \<and> mapped m (p + 1) n"
  unfolding mapped_def all_less_Suc by (simp add: add.assoc)

lemma mapped_upd: "mapped m p n \<Longrightarrow> mapped (m(q \<mapsto> v)) p n"
  by (simp add: mapped_def)

lemma memcpy_copies:
  assumes "mapped m src n" "mapped m dest n" "n \<le> 2 ^ 64"
    and "\<forall>j<n. \<forall>i<j. dest + word_of_nat i \<noteq> src + word_of_nat j"
  shows "\<exists>m'. memcpy m dest src n = Some m' \<and> copied m m' dest src n"
  using assms
proof (induction n arbitrary: m dest src)
  case 0 then show ?case by (simp add: copied_def)
next
  case (Suc n)
  from Suc.prems(1) obtain c where c: "m src = Some c" by (auto simp: mapped_Suc)
  let ?m1 = "m(dest \<mapsto> c)"
  have dest: "m dest \<noteq> None" using Suc.prems(2) by (simp add: mapped_Suc)
  have later: "dest \<noteq> src + 1 + word_of_nat j" if "j < n" for j
  proof -
    have "dest + word_of_nat 0 \<noteq> src + word_of_nat (Suc j)" using Suc.prems(4) that by blast
    then show ?thesis by (simp add: add.assoc)
  qed
  have "\<forall>j<n. \<forall>i<j. dest + 1 + word_of_nat i \<noteq> src + 1 + word_of_nat j"
  proof (intro allI impI)
    fix i j :: nat assume "j < n" "i < j"
    then have "dest + word_of_nat (Suc i) \<noteq> src + word_of_nat (Suc j)" using Suc.prems(4) by blast
    then show "dest + 1 + word_of_nat i \<noteq> src + 1 + word_of_nat j" by (simp add: add.assoc)
  qed
  moreover have "mapped ?m1 (src + 1) n" "mapped ?m1 (dest + 1) n" "n \<le> 2 ^ 64"
    using Suc.prems(1-3) by (simp_all add: mapped_Suc mapped_upd del: fun_upd_apply)
  ultimately obtain m' where
    m': "memcpy ?m1 (dest + 1) (src + 1) n = Some m'" "copied ?m1 m' (dest + 1) (src + 1) n"
    using Suc.IH [of ?m1 "src + 1" "dest + 1"] by blast
  have "copied m m' dest src (Suc n)"
    unfolding copied_def all_less_Suc
  proof (intro conjI allI impI)
    have "dest \<noteq> dest + 1 + word_of_nat i" if "i < n" for i
      using offset_inj [of 0 "Suc i" dest] that Suc.prems(3) by (auto simp: add.assoc)
    then have "m' dest = ?m1 dest" using m'(2) unfolding copied_def by blast
    then show "m' (dest + word_of_nat 0) = m (src + word_of_nat 0)" using c by simp
    fix i assume "i < n"
    then have "m' (dest + 1 + word_of_nat i) = ?m1 (src + 1 + word_of_nat i)"
      using m'(2) unfolding copied_def by blast
    then show "m' (dest + word_of_nat (Suc i)) = m (src + word_of_nat (Suc i))"
      using later [OF \<open>i < n\<close>] by (simp add: add.assoc)
  next
    fix a assume a: "a \<noteq> dest + word_of_nat 0 \<and> (\<forall>i<n. a \<noteq> dest + word_of_nat (Suc i))"
    then have "m' a = ?m1 a" using m'(2) unfolding copied_def by (simp add: add.assoc)
    then show "m' a = m a" using a by simp
  qed
  then show ?case using m'(1) c dest by (auto simp: store_def)
qed

lemma copy_down_copies:
  assumes "mapped m src n" "mapped m dest n" "n \<le> 2 ^ 64"
    and "\<forall>j<n. \<forall>i<j. dest + word_of_nat j \<noteq> src + word_of_nat i"
  shows "\<exists>m'. copy_down m (dest + word_of_nat n) (src + word_of_nat n) n = Some m' \<and> copied m m' dest src n"
  using assms
proof (induction n arbitrary: m)
  case 0 then show ?case by (simp add: copied_def)
next
  case (Suc n)
  from Suc.prems(1) obtain c where c: "m (src + word_of_nat n) = Some c" by (auto simp: mapped_def)
  let ?m1 = "m(dest + word_of_nat n \<mapsto> c)"
  have dest: "m (dest + word_of_nat n) \<noteq> None" using Suc.prems(2) by (simp add: mapped_def)
  have "mapped ?m1 src n" "mapped ?m1 dest n" using Suc.prems(1,2) by (auto simp: mapped_def)
  moreover have "n \<le> 2 ^ 64" using Suc.prems(3) by simp
  moreover have "\<forall>j<n. \<forall>i<j. dest + word_of_nat j \<noteq> src + word_of_nat i"
    using Suc.prems(4) by (meson less_SucI)
  ultimately obtain m' where m': "copy_down ?m1 (dest + word_of_nat n) (src + word_of_nat n) n = Some m'"
      "copied ?m1 m' dest src n"
    using Suc.IH [of ?m1] by blast
  have "copied m m' dest src (Suc n)"
    unfolding copied_def
  proof (intro conjI allI impI)
    fix i assume i: "i < Suc n"
    show "m' (dest + word_of_nat i) = m (src + word_of_nat i)"
    proof (cases "i = n")
      case True
      have "dest + word_of_nat n \<noteq> dest + word_of_nat j" if "j < n" for j
        using offset_inj [of n j dest] that Suc.prems(3) by auto
      then have "m' (dest + word_of_nat n) = ?m1 (dest + word_of_nat n)"
        using m'(2) unfolding copied_def by blast
      then show ?thesis using True c by simp
    next
      case False
      then have "m' (dest + word_of_nat i) = ?m1 (src + word_of_nat i)"
        using m'(2) i unfolding copied_def by simp
      moreover have "dest + word_of_nat n \<noteq> src + word_of_nat i" using Suc.prems(4) i False by simp
      ultimately show ?thesis by simp
    qed
  next
    fix a assume a: "\<forall>i<Suc n. a \<noteq> dest + word_of_nat i"
    then have "m' a = ?m1 a" using m'(2) unfolding copied_def by simp
    then show "m' a = m a" using a by simp
  qed
  then show ?case using m'(1) c dest by (auto simp: store_def algebra_simps)
qed

lemma memmove_copies:
  assumes "mapped m src (unat n)" "mapped m dest (unat n)"
    and "unat src + unat n < 2 ^ 64" "unat dest + unat n \<le> 2 ^ 64"
  shows "\<exists>m'. memmove m dest src n = Some m' \<and> copied m m' dest src (unat n)"
proof -
  have n: "unat n \<le> 2 ^ 64" using assms(4) by (rule add_leD2)
  have src: "unat (src + word_of_nat i) = unat src + i" if "i \<le> unat n" for i
    using that assms(3) by (simp add: unat_word_ariths unat_of_nat)
  have dest: "unat (dest + word_of_nat i) = unat dest + i" if "i < unat n" for i
    using that assms(4) by (simp add: unat_word_ariths unat_of_nat)
  have up: "\<forall>j<unat n. \<forall>i<j. dest + word_of_nat i \<noteq> src + word_of_nat j"
    if "dest < src \<or> src + n \<le> dest"
  proof (intro allI impI notI)
    fix j i assume "j < unat n" "i < j" "dest + word_of_nat i = src + word_of_nat j"
    then have "unat dest + i = unat src + j" using src [of j] dest [of i] by simp
    then show False using that \<open>j < unat n\<close> \<open>i < j\<close> src [of "unat n"]
      by (auto simp: word_less_nat_alt word_le_nat_alt)
  qed
  show ?thesis
  proof (cases "dest < src \<or> src + n \<le> dest")
    case True
    then have "memmove m dest src n = memcpy m dest src (unat n)" by (auto simp: memmove_def)
    then show ?thesis using memcpy_copies [OF assms(1,2) n up [OF True]] by simp
  next
    case False
    have "\<forall>j<unat n. \<forall>i<j. dest + word_of_nat j \<noteq> src + word_of_nat i"
    proof (intro allI impI notI)
      fix j i assume "j < unat n" "i < j" "dest + word_of_nat j = src + word_of_nat i"
      then have "unat dest + j = unat src + i" using src [of i] dest [of j] by simp
      then show False using False \<open>i < j\<close> by (auto simp: word_less_nat_alt not_less)
    qed
    moreover have "memmove m dest src n = copy_down m (dest + n) (src + n) (unat n)"
      using False by (auto simp: memmove_def)
    ultimately show ?thesis using copy_down_copies [OF assms(1,2) n] by simp
  qed
qed

text \<open>C26. \<open>memmove\<close> copies also where the two areas overlap, in either direction: it never faults on
  mapped memory, the destination ends up with what the source held before the call, and nothing outside
  the destination changes.\<close>

theorem memmove_correct:
  assumes "mapped m src (unat n)" "mapped m dest (unat n)"
    and "unat src + unat n < 2 ^ 64" "unat dest + unat n \<le> 2 ^ 64"
  shows "\<exists>m'. memmove m dest src n = Some m' \<and> copied m m' dest src (unat n)"
  by (rule memmove_copies [OF assms])

lemma copied_at: "copied m m' dest src n \<Longrightarrow> i < n \<Longrightarrow> m' (dest + word_of_nat i) = m (src + word_of_nat i)"
  by (simp add: copied_def)

lemma copied_outside: "copied m m' dest src n \<Longrightarrow> (\<And>i. i < n \<Longrightarrow> a \<noteq> dest + word_of_nat i) \<Longrightarrow> m' a = m a"
  by (simp add: copied_def)

text \<open>Four bytes moved up by one inside a mapped block.\<close>

definition abcd_memory :: cmem where
  "abcd_memory = [4096 \<mapsto> 97, 4097 \<mapsto> 98, 4098 \<mapsto> 99, 4099 \<mapsto> 100, 4100 \<mapsto> 0]"

lemma less_4: "(\<forall>i<4. P i) \<longleftrightarrow> P 0 \<and> P 1 \<and> P 2 \<and> P (3 :: nat)"
  by (simp add: numeral_eq_Suc all_less_Suc)

theorem memmove_correct_witness:
  "\<exists>m'. memmove abcd_memory 4097 4096 4 = Some m' \<and> copied abcd_memory m' 4097 4096 (unat (4 :: u64))"
  by (rule memmove_correct) (simp_all add: mapped_def less_4 abcd_memory_def)

subsection \<open>Duplicated strings\<close>

lemma memchr_loop_found:
  "k < n \<Longrightarrow> n < 2 ^ 64 \<Longrightarrow> m (p + word_of_nat k) = Some ch \<Longrightarrow>
   \<forall>i<k. \<exists>c. m (p + word_of_nat i) = Some c \<and> c \<noteq> ch \<Longrightarrow>
   memchr_loop m ch p (p + word_of_nat n) = Some (Some (p + word_of_nat k))"
proof (induction k arbitrary: p n)
  case 0
  then have "p \<noteq> p + word_of_nat n" using offset_inj [of 0 n p] by auto
  then show ?case using 0 by (subst memchr_loop.simps) simp
next
  case (Suc k)
  obtain n' where n': "n = Suc n'" using Suc.prems(1) by (cases n) auto
  have "p \<noteq> p + word_of_nat n" using offset_inj [of 0 n p] Suc.prems(1,2) by auto
  moreover obtain c where "m p = Some c" "c \<noteq> ch" using Suc.prems(4) by (auto simp: all_less_Suc)
  moreover have "memchr_loop m ch (p + 1) (p + 1 + word_of_nat n') = Some (Some (p + 1 + word_of_nat k))"
    by (rule Suc.IH) (use Suc.prems n' in \<open>simp_all add: all_less_Suc add.assoc\<close>)
  ultimately show ?case unfolding n' by (subst memchr_loop.simps) (simp add: add.assoc)
qed

lemma memchr_loop_absent:
  "n < 2 ^ 64 \<Longrightarrow> \<forall>i<n. \<exists>c. m (p + word_of_nat i) = Some c \<and> c \<noteq> ch \<Longrightarrow>
   memchr_loop m ch p (p + word_of_nat n) = Some None"
proof (induction n arbitrary: p)
  case 0 then show ?case by (subst memchr_loop.simps) simp
next
  case (Suc n)
  have "p \<noteq> p + word_of_nat (Suc n)" using offset_inj [of 0 "Suc n" p] Suc.prems(1) by auto
  moreover obtain c where "m p = Some c" "c \<noteq> ch" using Suc.prems(2) by (auto simp: all_less_Suc)
  moreover have "memchr_loop m ch (p + 1) (p + 1 + word_of_nat n) = Some None"
    by (rule Suc.IH) (use Suc.prems in \<open>simp_all add: all_less_Suc add.assoc\<close>)
  ultimately show ?case by (subst memchr_loop.simps) (simp add: add.assoc)
qed

text \<open>\<open>strnlen\<close> never looks past \<open>maxlen\<close> bytes, so the string need not be terminated there.\<close>

lemma strnlen_string: "cstring_at m s k \<Longrightarrow> k < unat maxlen \<Longrightarrow> strnlen m s maxlen = Some (word_of_nat k)"
  using memchr_loop_found [of k "unat maxlen" m s 0] unat64_less [of maxlen]
  by (simp add: strnlen_def memchr_def cstring_at_def)

lemma strnlen_cut:
  "\<forall>i<unat maxlen. \<exists>c. m (s + word_of_nat i) = Some c \<and> c \<noteq> 0 \<Longrightarrow> strnlen m s maxlen = Some maxlen"
  using memchr_loop_absent [of "unat maxlen" m s 0] unat64_less [of maxlen]
  by (simp add: strnlen_def memchr_def)

text \<open>What \<open>strdup\<close> relies on for the block \<open>malloc\<close> returns: it is writable and does not meet the string,
  whose bytes are as before.\<close>

definition fresh_block :: "cmem \<Rightarrow> cmem \<Rightarrow> u64 \<Rightarrow> u64 \<Rightarrow> nat \<Rightarrow> bool" where
  "fresh_block m m1 ptr str n \<longleftrightarrow>
     mapped m1 ptr n \<and> n < 2 ^ 64 \<and> (\<forall>i<n. m1 (str + word_of_nat i) = m (str + word_of_nat i)) \<and>
     (\<forall>i<n. \<forall>j<n. ptr + word_of_nat i \<noteq> str + word_of_nat j)"

text \<open>The common end of the two functions: the terminator, then the bytes.\<close>

lemma duplicate_string:
  assumes fresh: "fresh_block m m1 ptr str (Suc k)"
    and bytes: "\<forall>i<k. \<exists>c. m (str + word_of_nat i) = Some c \<and> c \<noteq> 0"
  shows "\<exists>m2 m'. store m1 (ptr + word_of_nat k) 0 = Some m2 \<and> memcpy m2 ptr str k = Some m' \<and>
    cstring_at m' ptr k \<and> (\<forall>i<k. m' (ptr + word_of_nat i) = m (str + word_of_nat i)) \<and>
    (\<forall>a. (\<forall>i\<le>k. a \<noteq> ptr + word_of_nat i) \<longrightarrow> m' a = m1 a)"
proof -
  let ?m2 = "m1(ptr + word_of_nat k \<mapsto> 0)"
  have k: "Suc k < 2 ^ 64" using fresh by (simp add: fresh_block_def)
  have apart: "ptr + word_of_nat i \<noteq> str + word_of_nat j" if "i \<le> k" "j \<le> k" for i j
    using fresh that by (simp add: fresh_block_def less_Suc_eq_le)
  have same: "m1 (str + word_of_nat i) = m (str + word_of_nat i)" if "i < k" for i
    using fresh that by (simp add: fresh_block_def)
  have st: "store m1 (ptr + word_of_nat k) 0 = Some ?m2"
    using fresh by (auto simp: fresh_block_def mapped_def store_def)
  have at2: "?m2 (str + word_of_nat i) = m (str + word_of_nat i)" if "i < k" for i
    using apart [of k i] same [of i] that by auto
  have "mapped ?m2 str k" unfolding mapped_def
  proof (intro allI impI)
    fix i assume "i < k"
    then show "?m2 (str + word_of_nat i) \<noteq> None" using at2 bytes by fastforce
  qed
  moreover have "mapped ?m2 ptr k"
    using fresh by (simp add: fresh_block_def mapped_def)
  ultimately obtain m' where m': "memcpy ?m2 ptr str k = Some m'" "copied ?m2 m' ptr str k"
    using memcpy_copies [of ?m2 str k ptr] k apart by fastforce
  have at: "m' (ptr + word_of_nat i) = m (str + word_of_nat i)" if "i < k" for i
    using copied_at [OF m'(2) that] at2 [OF that] by simp
  have "ptr + word_of_nat k \<noteq> ptr + word_of_nat i" if "i < k" for i
    using offset_inj [of k i ptr] k that by auto
  then have last: "m' (ptr + word_of_nat k) = Some 0"
    using copied_outside [OF m'(2), of "ptr + word_of_nat k"] by simp
  have "m' a = m1 a" if "\<forall>i\<le>k. a \<noteq> ptr + word_of_nat i" for a
    using copied_outside [OF m'(2), of a] that by simp
  then show ?thesis using st m'(1) at bytes last by (auto simp: cstring_at_def)
qed

text \<open>\<open>strdup\<close> makes a copy: with a block from \<open>malloc\<close> it returns a string of the same length and
  the same bytes, terminated, and it writes nothing but that block.\<close>

theorem strdup_copies:
  assumes "block_mapped m" "cstring_at m str k"
    and "malloc m (word_of_nat k + 1) = (ptr, m1)" "ptr \<noteq> 0" "fresh_block m m1 ptr str (Suc k)"
  shows "\<exists>m'. strdup malloc m str = Some (ptr, m') \<and> cstring_at m' ptr k \<and>
    (\<forall>i<k. m' (ptr + word_of_nat i) = m (str + word_of_nat i)) \<and>
    (\<forall>a. (\<forall>i\<le>k. a \<noteq> ptr + word_of_nat i) \<longrightarrow> m' a = m1 a)"
proof -
  have bytes: "\<forall>i<k. \<exists>c. m (str + word_of_nat i) = Some c \<and> c \<noteq> 0"
    using assms(2) by (simp add: cstring_at_def)
  have "unat (word_of_nat k :: u64) = k" using assms(5) by (simp add: fresh_block_def unat_of_nat)
  then show ?thesis using duplicate_string [OF assms(5) bytes] strlen_finds [OF assms(1,2)] assms(3,4)
    by (auto simp: strdup_def)
qed

lemma less_5: "(\<forall>i<5. P i) \<longleftrightarrow> P 0 \<and> P 1 \<and> P 2 \<and> P 3 \<and> P (4 :: nat)"
  by (simp add: numeral_eq_Suc all_less_Suc)

lemma less_6: "(\<forall>i<6. P i) \<longleftrightarrow> P 0 \<and> P 1 \<and> P 2 \<and> P 3 \<and> P 4 \<and> P (5 :: nat)"
  by (simp add: numeral_eq_Suc all_less_Suc)

lemma hello_string: "cstring_at hello_memory 4109 5"
  by (simp add: cstring_at_def hello_memory_def less_5)

lemma hello_block: "fresh_block hello_memory hello_memory 4120 4109 (Suc 5)"
  by (simp add: fresh_block_def mapped_def hello_memory_def less_6)

theorem strdup_copies_witness:
  "\<exists>m'. strdup (\<lambda>m n. (4120, m)) hello_memory 4109 = Some (4120, m') \<and> cstring_at m' 4120 5"
proof -
  have "\<exists>m'. strdup (\<lambda>m n. (4120, m)) hello_memory 4109 = Some (4120, m') \<and> cstring_at m' 4120 5 \<and>
    (\<forall>i<5. m' (4120 + word_of_nat i) = hello_memory (4109 + word_of_nat i)) \<and>
    (\<forall>a. (\<forall>i\<le>5. a \<noteq> 4120 + word_of_nat i) \<longrightarrow> m' a = hello_memory a)"
    by (rule strdup_copies [OF hello_block_mapped hello_string]) (use hello_block in simp_all)
  then show ?thesis by blast
qed

text \<open>\<open>strndup\<close> of a longer string is its first \<open>maxlen\<close> bytes, terminated.\<close>

lemma strndup_cuts:
  assumes bytes: "\<forall>i<unat maxlen. \<exists>c. m (str + word_of_nat i) = Some c \<and> c \<noteq> 0"
    and "malloc m (maxlen + 1) = (ptr, m1)" "ptr \<noteq> 0" "fresh_block m m1 ptr str (Suc (unat maxlen))"
  shows "\<exists>m'. strndup malloc m str maxlen = Some (ptr, m') \<and> cstring_at m' ptr (unat maxlen) \<and>
    (\<forall>i<unat maxlen. m' (ptr + word_of_nat i) = m (str + word_of_nat i)) \<and>
    (\<forall>a. (\<forall>i\<le>unat maxlen. a \<noteq> ptr + word_of_nat i) \<longrightarrow> m' a = m1 a)"
  using duplicate_string [OF assms(4) bytes] strnlen_cut [OF bytes] assms(2,3)
  by (auto simp: strndup_def)

section \<open>Comparing\<close>

text \<open>A string with its bytes.\<close>

definition string_is :: "cmem \<Rightarrow> u64 \<Rightarrow> u8 list \<Rightarrow> bool" where
  "string_is m s cs \<longleftrightarrow>
     0 \<notin> set cs \<and> (\<forall>i<length cs. m (s + word_of_nat i) = Some (cs ! i)) \<and> m (s + word_of_nat (length cs)) = Some 0"

lemma string_is_Nil: "string_is m s [] \<longleftrightarrow> m s = Some 0"
  by (simp add: string_is_def)

lemma string_is_Cons: "string_is m s (c # cs) \<longleftrightarrow> c \<noteq> 0 \<and> m s = Some c \<and> string_is m (s + 1) cs"
  by (auto simp: string_is_def all_less_Suc add.assoc)

text \<open>The order of the first difference, as signed characters; the end of a string counts as 0.\<close>

fun compare_signed :: "u8 list \<Rightarrow> u8 list \<Rightarrow> int" where
  "compare_signed [] [] = 0"
| "compare_signed [] (y # ys) = (if y <s 0 then 1 else - 1)"
| "compare_signed (x # xs) [] = (if 0 <s x then 1 else - 1)"
| "compare_signed (x # xs) (y # ys) =
     (if x = y then compare_signed xs ys else if y <s x then 1 else - 1)"

lemma strcmp_compares:
  "string_is m a xs \<Longrightarrow> string_is m b ys \<Longrightarrow> strcmp m a b = Some (compare_signed xs ys)"
proof (induction xs ys arbitrary: a b rule: compare_signed.induct)
  case 1 then show ?case by (subst strcmp.simps) (simp add: string_is_Nil)
next
  case (2 y ys) then show ?case by (subst strcmp.simps) (simp add: string_is_Nil string_is_Cons)
next
  case (3 x xs) then show ?case by (subst strcmp.simps) (simp add: string_is_Nil string_is_Cons)
next
  case (4 x xs y ys) then show ?case by (subst strcmp.simps) (simp add: string_is_Cons)
qed

lemma compare_signed_0: "compare_signed xs ys = 0 \<longleftrightarrow> xs = ys"
  by (induction xs ys rule: compare_signed.induct) auto

text \<open>\<open>strcmp\<close> tells equal strings from different ones.\<close>

lemma strcmp_equal: "string_is m a xs \<Longrightarrow> string_is m b ys \<Longrightarrow> strcmp m a b = Some 0 \<longleftrightarrow> xs = ys"
  by (simp add: strcmp_compares compare_signed_0)

text \<open>The C library compares strings as if they were of \<open>unsigned char\<close>: there the byte 0xc3 (of a UTF-8
  sequence) comes after \<open>a\<close>. With the plain \<open>char\<close> of this code, which is signed, it comes before.\<close>

theorem strcmp_signed:
  assumes "string_is m a [0xc3]" "string_is m b [0x61]"
  shows "strcmp m a b = Some (- 1)"
  using strcmp_compares [OF assms] by (simp add: word_sless_alt)

theorem strcmp_signed_witness:
  "strcmp [16 \<mapsto> 0xc3, 17 \<mapsto> 0, 18 \<mapsto> 0x61, 19 \<mapsto> 0] 16 18 = Some (- 1)"
  by (rule strcmp_signed) (simp_all add: string_is_def)

end
