(* ===== verification/Libc_Calls.thy ===== *)
theory Libc_Calls
  imports Libc_String
begin

text \<open>
  The system call wrappers of the C library: \<open>system/libc/src/unistd\<close>, \<open>mman\<close>, \<open>fcntl\<close> and \<open>fluke\<close>.

  A process is its memory, its \<open>errno\<close> and the state of everything outside it. What the kernel does on the
  \<open>syscall\<close> instruction is the parameter \<open>sys\<close>: from the number and the arguments, the registers \<open>rax\<close> and
  \<open>rdx\<close> and the process afterwards. A call passes as many arguments as its \<open>SYSCALLV_N\<close> says; an \<open>int\<close>
  argument is sign-extended. \<open>None\<close> is a process that does not go on: a fault, a failed assertion, a loop
  that does not end.
\<close>

record 'k proc =
  pmem :: cmem
  perrno :: u32
  pkern :: 'k

type_synonym 'k syscalls = "u64 \<Rightarrow> u64 list \<Rightarrow> 'k proc \<Rightarrow> (u64 \<times> u64) \<times> 'k proc"

definition SYS_forth_interpret :: u64 where "SYS_forth_interpret = 0x1201"
definition SYS_nsleep :: u64 where "SYS_nsleep = 0x1202"
definition SYS_open_module :: u64 where "SYS_open_module = 0x1203"
definition SYS_user_share :: u64 where "SYS_user_share = 0x1204"
definition SYS_claim_irq :: u64 where "SYS_claim_irq = 0x1205"
definition SYS_klog :: u64 where "SYS_klog = 0x1206"
definition SYS_panic :: u64 where "SYS_panic = 0x1207"
definition SYS_fork :: u64 where "SYS_fork = 0x1208"
definition SYS_dup :: u64 where "SYS_dup = 0x1209"
definition SYS_close :: u64 where "SYS_close = 0x120a"
definition SYS_read :: u64 where "SYS_read = 0x1210"
definition SYS_write :: u64 where "SYS_write = 0x1211"
definition SYS_seek :: u64 where "SYS_seek = 0x1212"
definition SYS_objctl :: u64 where "SYS_objctl = 0x121f"
definition SYS_virtual_map :: u64 where "SYS_virtual_map = 0x1220"
definition SYS_virtual_unmap :: u64 where "SYS_virtual_unmap = 0x1221"
definition SYS_thread_spawn :: u64 where "SYS_thread_spawn = 0x1231"
definition SYS_ipc_create :: u64 where "SYS_ipc_create = 0x1240"
definition SYS_ipc_call :: u64 where "SYS_ipc_call = 0x1241"
definition SYS_ipc_respond :: u64 where "SYS_ipc_respond = 0x1243"

text \<open>\<open>_syscallv\<close>, without and with the second result.\<close>

definition syscallv :: "'k syscalls \<Rightarrow> u64 \<Rightarrow> u64 list \<Rightarrow> 'k proc \<Rightarrow> u64 \<times> 'k proc" where
  "syscallv sys op args p = (case sys op args p of ((rax, _), p) \<Rightarrow> (rax, p))"

text \<open>The end of a wrapper whose result is a \<open>long\<close>, or an \<open>int\<close>: a negative number is an error code.\<close>

definition long_result :: "u64 \<times> 'k proc \<Rightarrow> u64 \<times> 'k proc" where
  "long_result r = (case r of (ret, p) \<Rightarrow>
     if 0 \<le>s ret then (ret, p) else (- 1, p\<lparr>perrno := ucast (- ret)\<rparr>))"

definition int_result :: "u64 \<times> 'k proc \<Rightarrow> u32 \<times> 'k proc" where
  "int_result r = (case r of (rax, p) \<Rightarrow>
     let ret = ucast rax :: u32 in if 0 \<le>s ret then (ret, p) else (- 1, p\<lparr>perrno := - ret\<rparr>))"

definition int_status :: "u64 \<times> 'k proc \<Rightarrow> u32 \<times> 'k proc" where
  "int_status r = (case r of (rax, p) \<Rightarrow>
     let ret = ucast rax :: u32 in if 0 \<le>s ret then (0, p) else (- 1, p\<lparr>perrno := - ret\<rparr>))"

section \<open>Files\<close>

definition INT_MAX_size :: u64 where "INT_MAX_size = 0x7fffffff"

definition read_fd :: "'k syscalls \<Rightarrow> u32 \<Rightarrow> u64 \<Rightarrow> u64 \<Rightarrow> 'k proc \<Rightarrow> u64 \<times> 'k proc" where
  "read_fd sys fd buf len p =
     (let len = (if INT_MAX_size < len then INT_MAX_size else len)
      in long_result (syscallv sys SYS_read [scast fd, buf, len] p))"

definition write_fd :: "'k syscalls \<Rightarrow> u32 \<Rightarrow> u64 \<Rightarrow> u64 \<Rightarrow> 'k proc \<Rightarrow> u64 \<times> 'k proc" where
  "write_fd sys fd buf len p =
     (let len = (if INT_MAX_size < len then INT_MAX_size else len)
      in long_result (syscallv sys SYS_write [scast fd, buf, len] p))"

definition lseek :: "'k syscalls \<Rightarrow> u32 \<Rightarrow> u64 \<Rightarrow> u32 \<Rightarrow> 'k proc \<Rightarrow> u64 \<times> 'k proc" where
  "lseek sys fd offset whence p = long_result (syscallv sys SYS_seek [scast fd, offset, scast whence] p)"

definition close :: "'k syscalls \<Rightarrow> u32 \<Rightarrow> 'k proc \<Rightarrow> u32 \<times> 'k proc" where
  "close sys fd p = int_status (syscallv sys SYS_close [scast fd] p)"

definition EBADF_int :: u32 where "EBADF_int = word_of_nat (errno_code EBADF)"

definition dup_call :: "'k syscalls \<Rightarrow> u32 \<Rightarrow> u32 \<Rightarrow> u32 \<Rightarrow> 'k proc \<Rightarrow> u32 \<times> 'k proc" where
  "dup_call sys oldfd newfd flags p = int_result (syscallv sys SYS_dup [scast oldfd, scast newfd, scast flags] p)"

definition dup :: "'k syscalls \<Rightarrow> u32 \<Rightarrow> 'k proc \<Rightarrow> u32 \<times> 'k proc" where
  "dup sys oldfd p = dup_call sys oldfd (- 1) 0 p"

definition dup2 :: "'k syscalls \<Rightarrow> u32 \<Rightarrow> u32 \<Rightarrow> 'k proc \<Rightarrow> u32 \<times> 'k proc" where
  "dup2 sys oldfd newfd p =
     (if oldfd = newfd then (newfd, p)
      else if 0 \<le>s newfd then dup_call sys oldfd newfd 0 p
      else (- 1, p\<lparr>perrno := EBADF_int\<rparr>))"

definition dup3 :: "'k syscalls \<Rightarrow> u32 \<Rightarrow> u32 \<Rightarrow> u32 \<Rightarrow> 'k proc \<Rightarrow> u32 \<times> 'k proc" where
  "dup3 sys oldfd newfd flags p =
     (let p = (if 0 \<le>s newfd then snd (dup_call sys oldfd newfd flags p) else p)
      in (- 1, p\<lparr>perrno := EBADF_int\<rparr>))"

definition fork :: "'k syscalls \<Rightarrow> 'k proc \<Rightarrow> u32 \<times> 'k proc" where
  "fork sys p = int_result (syscallv sys SYS_fork [] p)"

section \<open>Opening\<close>

definition O_RDONLY :: u32 where "O_RDONLY = 0x2"
definition O_RDWR :: u32 where "O_RDWR = 0x4"
definition O_WRONLY :: u32 where "O_WRONLY = 0x10"
definition O_APPEND :: u32 where "O_APPEND = 0x20"
definition O_CLOEXEC :: u32 where "O_CLOEXEC = 0x40"
definition O_CREAT :: u32 where "O_CREAT = 0x100"
definition O_EXCL :: u32 where "O_EXCL = 0x400"
definition O_TRUNC :: u32 where "O_TRUNC = 0x8000"

definition IPC_openat :: u64 where
  "IPC_openat = push_bit 16 2 OR push_bit 8 1 OR 0x01 OR 0x08"

definition openat :: "'k syscalls \<Rightarrow> u32 \<Rightarrow> u64 \<Rightarrow> u32 \<Rightarrow> u32 \<Rightarrow> 'k proc \<Rightarrow> (u32 \<times> 'k proc) option" where
  "openat sys dirfd path oflag mode p = do {
     len \<leftarrow> strlen (pmem p) path;
     Some (int_result (syscallv sys SYS_ipc_call [ucast dirfd, path, len, IPC_openat, ucast oflag, ucast mode] p))
   }"

definition open_path :: "'k syscalls \<Rightarrow> u32 \<Rightarrow> u64 \<Rightarrow> u32 \<Rightarrow> u32 \<Rightarrow> 'k proc \<Rightarrow> (u32 \<times> 'k proc) option" where
  "open_path sys working_dirfd path oflag mode p = openat sys working_dirfd path oflag mode p"

definition creat :: "'k syscalls \<Rightarrow> u32 \<Rightarrow> u64 \<Rightarrow> u32 \<Rightarrow> 'k proc \<Rightarrow> (u32 \<times> 'k proc) option" where
  "creat sys working_dirfd path mode p =
     open_path sys working_dirfd path (O_WRONLY OR O_CREAT OR O_TRUNC) mode p"

section \<open>Memory\<close>

definition fluke_virtual_map :: "'k syscalls \<Rightarrow> u64 \<Rightarrow> u64 \<Rightarrow> u32 \<Rightarrow> u32 \<Rightarrow> 'k proc \<Rightarrow> u64 \<times> 'k proc" where
  "fluke_virtual_map sys address len prot flags p =
     syscallv sys SYS_virtual_map [address, len, scast prot, scast flags] p"

definition MAP_FAILED :: u64 where "MAP_FAILED = - 1"

definition mmap :: "'k syscalls \<Rightarrow> u64 \<Rightarrow> u64 \<Rightarrow> u32 \<Rightarrow> u32 \<Rightarrow> u32 \<Rightarrow> u64 \<Rightarrow> 'k proc \<Rightarrow> (u64 \<times> 'k proc) option" where
  "mmap sys hint len prot mflags fd off p = do {
     kassert (off = 0);
     kassert (fd = - 1);
     let (r, p) = fluke_virtual_map sys hint len prot mflags p;
     if 0 \<le>s r then Some (r, p) else Some (MAP_FAILED, p\<lparr>perrno := ucast (- r)\<rparr>)
   }"

definition munmap :: "'k syscalls \<Rightarrow> u64 \<Rightarrow> u64 \<Rightarrow> 'k proc \<Rightarrow> u32 \<times> 'k proc" where
  "munmap sys addr len p = int_status (syscallv sys SYS_virtual_unmap [addr, len] p)"

section \<open>The system's own calls\<close>

text \<open>These return error codes by value.\<close>

definition fluke_forth_interpret :: "'k syscalls \<Rightarrow> u64 \<Rightarrow> 'k proc \<Rightarrow> ((u64 \<times> u64) \<times> 'k proc) option" where
  "fluke_forth_interpret sys code_str p = do {
     len \<leftarrow> strlen (pmem p) code_str;
     Some (sys SYS_forth_interpret [code_str, len + 1] p)
   }"

definition fluke_ipc_create :: "'k syscalls \<Rightarrow> u64 \<Rightarrow> u32 \<Rightarrow> 'k proc \<Rightarrow> (u32 \<times> u64) \<times> 'k proc" where
  "fluke_ipc_create sys transfer_map ntransfer_map p =
     (case sys SYS_ipc_create [transfer_map, ucast ntransfer_map] p of
        ((ret, handle_out), p) \<Rightarrow> ((ucast ret, handle_out), p))"

definition fluke_ipc_respond :: "'k syscalls \<Rightarrow> u64 \<Rightarrow> u64 \<Rightarrow> u64 \<Rightarrow> u32 \<Rightarrow> 'k proc \<Rightarrow> u32 \<times> 'k proc" where
  "fluke_ipc_respond sys status aptr alen mode p =
     (case syscallv sys SYS_ipc_respond [status, aptr, alen, scast mode] p of (r, p) \<Rightarrow> (ucast r, p))"

definition fluke_irq_claim :: "'k syscalls \<Rightarrow> u32 \<Rightarrow> 'k proc \<Rightarrow> u32 \<times> 'k proc" where
  "fluke_irq_claim sys irq p = (case syscallv sys SYS_claim_irq [scast irq] p of (r, p) \<Rightarrow> (ucast r, p))"

definition fluke_irq_ack_wait :: "'k syscalls \<Rightarrow> u32 \<Rightarrow> u64 \<Rightarrow> 'k proc \<Rightarrow> u32 \<times> 'k proc" where
  "fluke_irq_ack_wait sys irqd wait_ns p =
     (case syscallv sys SYS_objctl [scast irqd, 1 OR 2, wait_ns] p of (r, p) \<Rightarrow> (ucast r, p))"

definition fluke_kopen :: "'k syscalls \<Rightarrow> u64 \<Rightarrow> 'k proc \<Rightarrow> (u32 \<times> 'k proc) option" where
  "fluke_kopen sys path p = do {
     len \<leftarrow> strlen (pmem p) path;
     Some (case syscallv sys SYS_open_module [path, len] p of (r, p) \<Rightarrow> (ucast r, p))
   }"

definition fluke_nsleep :: "'k syscalls \<Rightarrow> u64 \<Rightarrow> 'k proc \<Rightarrow> 'k proc" where
  "fluke_nsleep sys ns p = snd (syscallv sys SYS_nsleep [ns] p)"

partial_function (option) klog_loop :: "'k syscalls \<Rightarrow> u64 \<Rightarrow> u64 \<Rightarrow> 'k proc \<Rightarrow> 'k proc option" where
  "klog_loop sys msg len p =
     (if 0 < len
      then (case syscallv sys SYS_klog [msg, len] p of (n, p) \<Rightarrow> klog_loop sys (msg + n) (len - n) p)
      else Some p)"

definition fluke_klog :: "'k syscalls \<Rightarrow> u64 \<Rightarrow> 'k proc \<Rightarrow> 'k proc option" where
  "fluke_klog sys msg p = do { len \<leftarrow> strlen (pmem p) msg; klog_loop sys msg len p }"

text \<open>A \<open>long\<close> in memory: eight bytes, the lowest first.\<close>

fun bytes_of :: "nat \<Rightarrow> u64 \<Rightarrow> u8 list" where
  "bytes_of 0 v = []"
| "bytes_of (Suc n) v = ucast v # bytes_of n (drop_bit 8 v)"

fun word_of_bytes :: "u8 list \<Rightarrow> u64" where
  "word_of_bytes [] = 0"
| "word_of_bytes (b # bs) = ucast b OR push_bit 8 (word_of_bytes bs)"

fun load_bytes :: "cmem \<Rightarrow> u64 \<Rightarrow> nat \<Rightarrow> u8 list option" where
  "load_bytes m p 0 = Some []"
| "load_bytes m p (Suc n) = do { b \<leftarrow> m p; bs \<leftarrow> load_bytes m (p + 1) n; Some (b # bs) }"

fun store_bytes :: "cmem \<Rightarrow> u64 \<Rightarrow> u8 list \<Rightarrow> cmem option" where
  "store_bytes m p [] = Some m"
| "store_bytes m p (b # bs) = do { m \<leftarrow> store m p b; store_bytes m (p + 1) bs }"

definition load_long :: "cmem \<Rightarrow> u64 \<Rightarrow> u64 option" where
  "load_long m p = map_option word_of_bytes (load_bytes m p 8)"

definition store_long :: "cmem \<Rightarrow> u64 \<Rightarrow> u64 \<Rightarrow> cmem option" where
  "store_long m p v = store_bytes m p (bytes_of 8 v)"

definition fluke_thread_spawn :: "'k syscalls \<Rightarrow> u64 \<Rightarrow> u64 \<Rightarrow> u64 \<Rightarrow> 'k proc \<Rightarrow> (u32 \<times> 'k proc) option" where
  "fluke_thread_spawn sys func stack arg p = do {
     (stack, p) \<leftarrow> (if stack AND 0xf = 0
        then do { m \<leftarrow> store_long (pmem p) (stack - 8) 0; Some (stack - 8, p\<lparr>pmem := m\<rparr>) }
        else Some (stack, p));
     let (r, p) = syscallv sys SYS_thread_spawn [func, stack, arg] p;
     Some (ucast r, p)
   }"

text \<open>The table of shared objects: entries of a pointer and a name of 32 bytes, ended by a null pointer.\<close>

definition fluke_user_share :: "'k syscalls \<Rightarrow> 'k proc \<Rightarrow> u64 \<times> 'k proc" where
  "fluke_user_share sys p = syscallv sys SYS_user_share [] p"

partial_function (option) share_loop :: "cmem \<Rightarrow> u64 \<Rightarrow> u64 \<Rightarrow> u64 option" where
  "share_loop m name share = do {
     object \<leftarrow> load_long m share;
     if object \<noteq> 0 then do {
       c \<leftarrow> strcmp m name (share + 8);
       if c = 0 then Some object else share_loop m name share
     } else Some 0
   }"

definition fluke_user_share_name :: "'k syscalls \<Rightarrow> u64 \<Rightarrow> 'k proc \<Rightarrow> (u64 \<times> 'k proc) option" where
  "fluke_user_share_name sys name p =
     (let (share, p) = fluke_user_share sys p
      in map_option (\<lambda>r. (r, p)) (share_loop (pmem p) name share))"

section \<open>Errors\<close>

lemma ucast_minus_1: "(ucast (- 1 :: u64) :: u32) = - 1"
  by (rule bit_eqI) (simp add: bit_ucast_iff)

lemma neg_errno_negative: "\<not> 0 \<le>s neg_errno e" "\<not> 0 \<le>s (ucast (neg_errno e) :: u32)"
  by (cases e; simp add: neg_errno_def word_sle_eq ucast_minus_1) (cases e; simp add: neg_errno_def word_sle_eq ucast_minus_1)

lemma neg_errno_code:
  "(ucast (- neg_errno e) :: u32) = word_of_nat (errno_code e)"
  "- (ucast (neg_errno e) :: u32) = word_of_nat (errno_code e)"
  by (cases e; simp add: neg_errno_def ucast_minus_1) (cases e; simp add: neg_errno_def ucast_minus_1)

lemma ucast_back: "(ucast (ucast (x :: u32) :: u64) :: u32) = x"
  by (rule bit_eqI) (auto simp: bit_ucast_iff dest: bit_imp_le_length)

lemma results_of_error:
  "long_result (neg_errno e, p) = (- 1, p\<lparr>perrno := word_of_nat (errno_code e)\<rparr>)"
  "int_result (neg_errno e, p) = (- 1, p\<lparr>perrno := word_of_nat (errno_code e)\<rparr>)"
  "int_status (neg_errno e, p) = (- 1, p\<lparr>perrno := word_of_nat (errno_code e)\<rparr>)"
  by (simp_all add: long_result_def int_result_def int_status_def neg_errno_negative neg_errno_code)

lemma results_of_success:
  "0 \<le>s r \<Longrightarrow> long_result (r, p) = (r, p)"
  "0 \<le>s (ucast r :: u32) \<Longrightarrow> int_result (r, p) = (ucast r, p)"
  "0 \<le>s (ucast r :: u32) \<Longrightarrow> int_status (r, p) = (0, p)"
  by (simp_all add: long_result_def int_result_def int_status_def)

text \<open>What a program sees of an error: the result is \<open>-1\<close> and \<open>errno\<close> is the kernel's error code.\<close>

definition reports :: "errno \<Rightarrow> 'a :: len word \<times> 'k proc \<Rightarrow> bool" where
  "reports e r \<longleftrightarrow> fst r = - 1 \<and> perrno (snd r) = word_of_nat (errno_code e)"

lemma syscallv_error:
  assumes "fst (fst (sys op args p)) = neg_errno e"
  shows "\<exists>p'. syscallv sys op args p = (neg_errno e, p')"
  using assms by (cases "sys op args p") (auto simp: syscallv_def)

lemma reports_results:
  assumes "fst (fst (sys op args p)) = neg_errno e"
  shows "reports e (long_result (syscallv sys op args p))" "reports e (int_result (syscallv sys op args p))"
    "reports e (int_status (syscallv sys op args p))"
  using syscallv_error [of sys op args p e, OF assms] by (auto simp: results_of_error reports_def)

text \<open>The kernel's errors reach the program: whatever error a call ends with, the wrapper returns \<open>-1\<close> with
  \<open>errno\<close> set to that very code (the negated code in \<open>rax\<close> is never taken for a result, also where the
  wrapper cuts it to an \<open>int\<close>).\<close>

theorem wrappers_report_errors:
  assumes "\<And>op args. fst (fst (sys op args p)) = neg_errno e"
  shows "reports e (read_fd sys fd buf len p)" "reports e (write_fd sys fd buf len p)"
    "reports e (lseek sys fd offset whence p)" "reports e (close sys fd p)" "reports e (dup sys fd p)"
    "reports e (fork sys p)" "reports e (munmap sys addr len p)"
    "\<exists>r. mmap sys hint len prot flags (- 1) 0 p = Some r \<and> reports e r"
    "strlen (pmem p) path = Some n \<Longrightarrow> \<exists>r. openat sys fd path oflag mode p = Some r \<and> reports e r"
proof -
  note r = reports_results [of sys, OF assms]
  show "reports e (read_fd sys fd buf len p)" "reports e (write_fd sys fd buf len p)"
    "reports e (lseek sys fd offset whence p)" "reports e (close sys fd p)" "reports e (dup sys fd p)"
    "reports e (fork sys p)" "reports e (munmap sys addr len p)"
    by (simp_all add: read_fd_def write_fd_def lseek_def close_def dup_def dup_call_def fork_def munmap_def Let_def r)
  obtain p' where "syscallv sys SYS_virtual_map [hint, len, scast prot, scast flags] p = (neg_errno e, p')"
    using syscallv_error [of sys, OF assms] by blast
  then show "\<exists>r. mmap sys hint len prot flags (- 1) 0 p = Some r \<and> reports e r"
    by (simp add: mmap_def fluke_virtual_map_def neg_errno_negative neg_errno_code MAP_FAILED_def reports_def)
  show "\<exists>r. openat sys fd path oflag mode p = Some r \<and> reports e r" if "strlen (pmem p) path = Some n"
    using that r(2) by (simp add: openat_def)
qed

text \<open>\<open>dup3\<close> goes on to its error exit after the call: the descriptor is duplicated, and the caller is told
  that it was not.\<close>

theorem dup3_fails_after_success:
  assumes "0 \<le>s newfd" "syscallv sys SYS_dup [scast oldfd, scast newfd, scast flags] p = (ucast newfd, p')"
  shows "dup_call sys oldfd newfd flags p = (newfd, p')"
    and "dup3 sys oldfd newfd flags p = (- 1, p'\<lparr>perrno := word_of_nat (errno_code EBADF)\<rparr>)"
  using assms by (simp_all add: dup3_def dup_call_def int_result_def EBADF_int_def ucast_back)

text \<open>\<open>_fluke_klog\<close> takes an error code for a number of characters written: the pointer moves back before
  the message, the length grows, and it calls again.\<close>

theorem klog_error_grows:
  assumes "0 < len" "syscallv sys SYS_klog [msg, len] p = (neg_errno e, p')"
  shows "klog_loop sys msg len p =
    klog_loop sys (msg - word_of_nat (errno_code e)) (len + word_of_nat (errno_code e)) p'"
  using assms by (subst klog_loop.simps) (simp add: neg_errno_def)

text \<open>\<open>_fluke_user_share_name\<close> never moves on to the second entry of the table: a name that is not the first
  one's makes it run for ever.\<close>

theorem share_name_stuck:
  assumes "load_long m share = Some object" "object \<noteq> 0"
    and "string_is m name xs" "string_is m (share + 8) ys" "xs \<noteq> ys"
  shows "share_loop m name share = None"
proof -
  have c: "strcmp m name (share + 8) = Some (compare_signed xs ys)" "compare_signed xs ys \<noteq> 0"
    using strcmp_compares [OF assms(3,4)] assms(5) compare_signed_0 by auto
  have "share_loop m' name' share' = Some r \<Longrightarrow> m' = m \<and> name' = name \<and> share' = share \<longrightarrow> False" for m' name' share' r
  proof (rule share_loop.raw_induct
      [where P = "\<lambda>m' name' share' r. m' = m \<and> name' = name \<and> share' = share \<longrightarrow> False", rotated], assumption, intro impI)
    fix loop m' name' share' r
    assume IH: "\<And>m' name' share' r. loop m' name' share' = Some r \<Longrightarrow>
        m' = m \<and> name' = name \<and> share' = share \<longrightarrow> False"
      and body: "Option.bind (load_long m' share') (\<lambda>object.
          if object \<noteq> 0 then Option.bind (strcmp m' name' (share' + 8))
            (\<lambda>c. if c = 0 then Some object else loop m' name' share') else Some 0) = Some r"
      and same: "m' = m \<and> name' = name \<and> share' = share"
    have "loop m name share = Some r" using body same assms(1,2) c by simp
    then show False using IH by blast
  qed
  then show ?thesis by (cases "share_loop m name share") auto
qed

section \<open>Longs in memory\<close>

lemma length_bytes_of [simp]: "length (bytes_of n v) = n"
  by (induction n arbitrary: v) simp_all

lemma word_of_bytes_of: "word_of_bytes (bytes_of n v) = take_bit (8 * n) v"
proof (induction n arbitrary: v)
  case 0 then show ?case by simp
next
  case (Suc n)
  then show ?case
    by (intro bit_eqI) (auto simp: bit_or_iff bit_push_bit_iff bit_take_bit_iff bit_drop_bit_eq bit_ucast_iff)
qed

lemma load_bytes_iff:
  "load_bytes m p n = Some bs \<longleftrightarrow> length bs = n \<and> (\<forall>i<n. m (p + word_of_nat i) = Some (bs ! i))"
proof (induction n arbitrary: p bs)
  case 0 then show ?case by auto
next
  case (Suc n)
  show ?case
    by (cases bs) (auto simp: Suc.IH all_less_Suc add.assoc bind_eq_Some_conv)
qed

lemma store_bytes_stores:
  "mapped m p (length bs) \<Longrightarrow> length bs \<le> 2 ^ 64 \<Longrightarrow>
   \<exists>m'. store_bytes m p bs = Some m' \<and> (\<forall>i<length bs. m' (p + word_of_nat i) = Some (bs ! i)) \<and>
     (\<forall>a. (\<forall>i<length bs. a \<noteq> p + word_of_nat i) \<longrightarrow> m' a = m a)"
proof (induction bs arbitrary: m p)
  case Nil then show ?case by simp
next
  case (Cons b bs)
  have "mapped (m(p \<mapsto> b)) (p + 1) (length bs)"
    using Cons.prems by (simp add: mapped_Suc mapped_upd del: fun_upd_apply)
  then obtain m' where m': "store_bytes (m(p \<mapsto> b)) (p + 1) bs = Some m'"
      "\<forall>i<length bs. m' (p + 1 + word_of_nat i) = Some (bs ! i)"
      "\<forall>a. (\<forall>i<length bs. a \<noteq> p + 1 + word_of_nat i) \<longrightarrow> m' a = (m(p \<mapsto> b)) a"
    using Cons.IH [of "m(p \<mapsto> b)" "p + 1"] Cons.prems(2) by (auto simp del: fun_upd_apply)
  have "p \<noteq> p + 1 + word_of_nat i" if "i < length bs" for i
    using offset_inj [of 0 "Suc i" p] that Cons.prems(2) by (auto simp: add.assoc)
  then have "m' p = Some b" using m'(3) by simp
  moreover have "m p \<noteq> None" using Cons.prems(1) by (simp add: mapped_Suc)
  ultimately show ?case using m' by (auto simp: store_def all_less_Suc add.assoc)
qed

lemma load_long_bytes:
  assumes "\<forall>i<8. m (p + word_of_nat i) = Some (bytes_of 8 v ! i)"
  shows "load_long m p = Some v"
proof -
  have "load_bytes m p 8 = Some (bytes_of 8 v)" using assms by (simp add: load_bytes_iff)
  moreover have "take_bit 64 v = v" by (rule take_bit_word_eq_self) simp
  ultimately show ?thesis by (simp add: load_long_def word_of_bytes_of)
qed

lemma load_long_cong:
  assumes "\<And>i. i < 8 \<Longrightarrow> m' (p' + word_of_nat i) = m (p + word_of_nat i)"
  shows "load_long m' p' = load_long m p"
proof -
  have "load_bytes m' p' n = load_bytes m p n"
    if "\<forall>i<n. m' (p' + word_of_nat i) = m (p + word_of_nat i)" for n
    using that
  proof (induction n arbitrary: p p')
    case (Suc n)
    then have "load_bytes m' (p' + 1) n = load_bytes m (p + 1) n"
      by (intro Suc.IH) (simp add: all_less_Suc add.assoc)
    then show ?case using Suc.prems by (simp add: all_less_Suc)
  qed simp
  then show ?thesis using assms by (simp add: load_long_def)
qed

text \<open>Storing a \<open>long\<close>: it can be read back, and only its eight bytes change.\<close>

lemma store_long_stores:
  assumes "mapped m p 8"
  shows "\<exists>m'. store_long m p v = Some m' \<and> load_long m' p = Some v \<and>
    (\<forall>a. (\<forall>i<8. a \<noteq> p + word_of_nat i) \<longrightarrow> m' a = m a) \<and> (\<forall>a. m' a = None \<longleftrightarrow> m a = None)"
proof -
  obtain m' where m': "store_bytes m p (bytes_of 8 v) = Some m'"
      "\<forall>i<8. m' (p + word_of_nat i) = Some (bytes_of 8 v ! i)"
      "\<forall>a. (\<forall>i<8. a \<noteq> p + word_of_nat i) \<longrightarrow> m' a = m a"
    using store_bytes_stores [of m p "bytes_of 8 v"] assms by auto
  have "m' a = None \<longleftrightarrow> m a = None" for a
    using m'(2,3) assms unfolding mapped_def by (metis option.distinct(1))
  then show ?thesis using m' load_long_bytes by (auto simp: store_long_def)
qed

end
