(* ===== verification/Exec.thy ===== *)
theory Exec
  imports Libc_Calls
begin

text \<open>
  Replacing the program of a process: \<open>system/libc/src/unistd/fexecve.c\<close>, which checks the file and builds
  the initial stack of the new program.

  A local variable whose address is taken is at an address of the model's choice (the parameters \<open>header\<close>
  and \<open>name\<close>); the \<open>stack_builder\<close> is a record. The left summand of a result is a state in which \<open>_longjmp\<close> has been
  called on the builder's jump buffer; where that leads is settled in \<open>build_stack\<close>, which called \<open>_setjmp\<close>.
\<close>

section \<open>The file\<close>

text \<open>\<open>read_into\<close>: reads until the buffer is full, \<open>False\<close> when it cannot.\<close>

partial_function (option) read_into ::
    "'k syscalls \<Rightarrow> u32 \<Rightarrow> u64 \<Rightarrow> u64 \<Rightarrow> 'k proc \<Rightarrow> (bool \<times> 'k proc) option"
where
  "read_into sys fd out len p =
     (case read_fd sys fd out len p of (n, p) \<Rightarrow>
        if n <s 0 then Some (False, p)
        else if n = 0 then Some (False, p\<lparr>perrno := word_of_nat (errno_code ENOEXEC)\<rparr>)
        else if len - n = 0 then Some (True, p)
        else read_into sys fd (out + n) (len - n) p)"

record elf_ehdr =
  e_ident :: "u8 list"
  e_type :: u16
  e_machine :: u16
  e_version :: u32
  e_entry :: u64
  e_phoff :: u64
  e_ehsize :: u16
  e_phentsize :: u16
  e_phnum :: u16

definition SEEK_SET :: u32 where "SEEK_SET = 1"

definition EHDR_SIZE :: nat where "EHDR_SIZE = 64"
definition PHDR_SIZE :: nat where "PHDR_SIZE = 56"

text \<open>The fields of the structure in memory.\<close>

definition field :: "u8 list \<Rightarrow> nat \<Rightarrow> nat \<Rightarrow> u64" where
  "field bs offset n = word_of_bytes (take n (drop offset bs))"

definition ehdr_of :: "u8 list \<Rightarrow> elf_ehdr" where
  "ehdr_of bs = \<lparr>e_ident = take 16 bs, e_type = ucast (field bs 16 2), e_machine = ucast (field bs 18 2),
     e_version = ucast (field bs 20 4), e_entry = field bs 24 8, e_phoff = field bs 32 8,
     e_ehsize = ucast (field bs 52 2), e_phentsize = ucast (field bs 54 2), e_phnum = ucast (field bs 56 2)\<rparr>"

definition ELF_IDENT :: "u8 list" where
  "ELF_IDENT = [0x7f, 0x45, 0x4c, 0x46, 2, 1, 1, 0]"

definition check_elf_valid :: "elf_ehdr \<Rightarrow> bool" where
  "check_elf_valid elf \<longleftrightarrow>
     take (length ELF_IDENT) (e_ident elf) = ELF_IDENT
     \<and> e_type elf = 2
     \<and> e_machine elf = 62
     \<and> e_version elf = 1
     \<and> e_entry elf \<noteq> 0
     \<and> e_phoff elf \<noteq> 0
     \<and> e_ehsize elf = word_of_nat EHDR_SIZE
     \<and> e_phentsize elf = word_of_nat PHDR_SIZE
     \<and> e_phnum elf > 0"

section \<open>The initial stack\<close>

definition STACK_SIZE :: nat where "STACK_SIZE = 80 * 1024"
definition ARG_LIMIT :: nat where "ARG_LIMIT = 32768"

record stack_builder =
  sb_base :: u64
  sb_top :: u64
  sb_arg_next :: u64
  sb_data_area :: u64
  sb_on_error :: "u64 list"

text \<open>A jump buffer is eight words. \<open>_longjmp\<close> loads the registers and the return address from the buffer it is given: it comes
  back to the \<open>_setjmp\<close> that saved \<open>saved\<close> only when these are the words in the buffer. With any other words there is no
  telling where it goes (\<open>None\<close>); from a buffer of zeros it takes a null stack pointer and faults on its first store.\<close>

definition longjmp :: "u64 list \<Rightarrow> u64 list \<Rightarrow> 'a \<Rightarrow> 'a option" where
  "longjmp saved buf x = (if buf = saved then Some x else None)"

text \<open>\<open>memset(s, 0, sizeof(*s))\<close>: all the fields of the builder, the jump buffer included.\<close>

definition zero_builder :: stack_builder where
  "zero_builder = \<lparr>sb_base = 0, sb_top = 0, sb_arg_next = 0, sb_data_area = 0, sb_on_error = replicate 8 0\<rparr>"

type_synonym 'k build = "((stack_builder \<times> 'k proc) + (stack_builder \<times> 'k proc)) option"

definition and_build :: "'k build \<Rightarrow> (stack_builder \<Rightarrow> 'k proc \<Rightarrow> 'k build) \<Rightarrow> 'k build" where
  "and_build r f = (case r of None \<Rightarrow> None | Some (Inl x) \<Rightarrow> Some (Inl x) | Some (Inr (s, p)) \<Rightarrow> f s p)"

definition create_stack :: "'k syscalls \<Rightarrow> u64 \<Rightarrow> stack_builder \<Rightarrow> 'k proc \<Rightarrow> 'k build" where
  "create_stack sys tsc s p = do {
     let stack_hint = 0x7e0000000000 OR (0xfffffff000 AND push_bit 12 tsc);
     (stack_base, p) \<leftarrow> mmap sys stack_hint (word_of_nat STACK_SIZE) (1 OR 2) 0 (- 1) 0 p;
     if stack_base = MAP_FAILED then Some (Inl (s, p))
     else Some (Inr (s\<lparr>sb_base := stack_base, sb_arg_next := stack_base,
            sb_data_area := stack_base + word_of_nat STACK_SIZE, sb_top := stack_base + word_of_nat STACK_SIZE\<rparr>, p))
   }"

definition overflow :: "stack_builder \<Rightarrow> 'k proc \<Rightarrow> 'k build" where
  "overflow s p = Some (Inl (s, p\<lparr>perrno := word_of_nat (errno_code E2BIG)\<rparr>))"

definition check_space :: "stack_builder \<Rightarrow> u64 \<Rightarrow> 'k proc \<Rightarrow> 'k build" where
  "check_space s additional p =
     (let space = sb_data_area s - sb_arg_next s; used = word_of_nat STACK_SIZE - space
      in if word_of_nat ARG_LIMIT \<le> used + additional then overflow s p else Some (Inr (s, p)))"

definition push_arg :: "u64 \<Rightarrow> stack_builder \<Rightarrow> 'k proc \<Rightarrow> 'k build" where
  "push_arg v s p = and_build (check_space s 8 p) (\<lambda>s p. do {
     m \<leftarrow> store_long (pmem p) (sb_arg_next s) v;
     Some (Inr (s\<lparr>sb_arg_next := sb_arg_next s + 8\<rparr>, p\<lparr>pmem := m\<rparr>))
   })"

definition push_data_string :: "u64 \<Rightarrow> stack_builder \<Rightarrow> 'k proc \<Rightarrow> 'k build" where
  "push_data_string str s p = do {
     len \<leftarrow> strlen (pmem p) str;
     and_build (check_space s (len + 1) p) (\<lambda>s p. do {
       let s = s\<lparr>sb_data_area := sb_data_area s - (len + 1)\<rparr>;
       m \<leftarrow> memcpy (pmem p) (sb_data_area s) str (unat len);
       m \<leftarrow> store m (sb_data_area s + len) 0;
       Some (Inr (s, p\<lparr>pmem := m\<rparr>))
     })
   }"

partial_function (option) add_array :: "u64 \<Rightarrow> stack_builder \<Rightarrow> 'k proc \<Rightarrow> 'k build" where
  "add_array a s p = do {
     str \<leftarrow> load_long (pmem p) a;
     if str \<noteq> 0 then do {
       r \<leftarrow> and_build (push_data_string str s p) (\<lambda>s p. push_arg (sb_data_area s) s p);
       case r of Inl x \<Rightarrow> Some (Inl x) | Inr (s, p) \<Rightarrow> add_array (a + 8) s p
     } else push_arg 0 s p
   }"

definition finish_stack :: "stack_builder \<Rightarrow> 'k proc \<Rightarrow> (u64 \<times> stack_builder \<times> 'k proc) option" where
  "finish_stack s p = do {
     let s = s\<lparr>sb_data_area := sb_data_area s AND NOT 7\<rparr>;
     let arg_size = sb_arg_next s - sb_base s;
     let s = (if (sb_data_area s - arg_size) AND 8 \<noteq> 0 then s\<lparr>sb_data_area := sb_data_area s - 8\<rparr> else s);
     let stack_ptr = sb_data_area s - arg_size;
     m \<leftarrow> memmove (pmem p) stack_ptr (sb_base s) arg_size;
     Some (stack_ptr, s, p\<lparr>pmem := m\<rparr>)
   }"

text \<open>The body of the function, from the \<open>memset\<close> up to \<open>finish_stack\<close>, and the function with its error exit; \<open>jb\<close> is what
  \<open>_setjmp\<close> has saved in the buffer. The division is of a difference that is not negative.\<close>

definition fill_stack :: "'k syscalls \<Rightarrow> u64 \<Rightarrow> u64 \<Rightarrow> u64 \<Rightarrow> 'k proc \<Rightarrow> 'k build" where
  "fill_stack sys tsc argv envp p =
     and_build (create_stack sys tsc zero_builder p) (\<lambda>s p.
     and_build (push_arg 0 s p) (\<lambda>s p.
     and_build (add_array argv s p) (\<lambda>s p. do {
       let argc = (sb_arg_next s - 16 - sb_base s) div 8;
       m \<leftarrow> store_long (pmem p) (sb_base s) argc;
       and_build (add_array envp s (p\<lparr>pmem := m\<rparr>)) (push_arg 0)
     })))"

definition build_stack ::
    "'k syscalls \<Rightarrow> u64 \<Rightarrow> u64 list \<Rightarrow> u64 \<Rightarrow> u64 \<Rightarrow> 'k proc \<Rightarrow> (u64 \<times> stack_builder \<times> 'k proc) option"
where
  "build_stack sys tsc jb argv envp p = do {
     r \<leftarrow> fill_stack sys tsc argv envp p;
     case r of
       Inr (s, p) \<Rightarrow> finish_stack s p
     | Inl (s, p) \<Rightarrow> do {
         (s, p) \<leftarrow> longjmp jb (sb_on_error s) (s, p);
         Some (0, s, if sb_base s \<noteq> 0 then snd (munmap sys (sb_base s) (sb_top s - sb_base s) p) else p)
       }
   }"

section \<open>fexecve\<close>

text \<open>Either the function returns, or it goes to the loader in the shared pages with its four arguments.\<close>

datatype exec_result = Exec_returns u32 | Exec_jumps u64 u32 u64 u64 u64

definition exec :: "'k syscalls \<Rightarrow> u64 \<Rightarrow> u32 \<Rightarrow> u64 \<Rightarrow> stack_builder \<Rightarrow> 'k proc \<Rightarrow> (exec_result \<times> 'k proc) option" where
  "exec sys name fd sp s p = do {
     (loadelf, p) \<leftarrow> fluke_user_share_name sys name p;
     Some (Exec_jumps loadelf fd sp (sb_base s) (sb_top s), p)
   }"

definition fexecve ::
    "'k syscalls \<Rightarrow> u64 \<Rightarrow> u64 list \<Rightarrow> u64 \<Rightarrow> u64 \<Rightarrow> u32 \<Rightarrow> u64 \<Rightarrow> u64 \<Rightarrow> 'k proc \<Rightarrow> (exec_result \<times> 'k proc) option"
where
  "fexecve sys tsc jb header name fd argv envp p = do {
     let (r, p) = lseek sys fd 0 SEEK_SET p;
     if r = - 1 then Some (Exec_returns (- 1), p)
     else do {
       (ok, p) \<leftarrow> read_into sys fd header (word_of_nat EHDR_SIZE) p;
       if \<not> ok then Some (Exec_returns (- 1), p)
       else do {
         bs \<leftarrow> load_bytes (pmem p) header EHDR_SIZE;
         if \<not> check_elf_valid (ehdr_of bs) then Some (Exec_returns (- 1), p)
         else do {
           (sp, s, p) \<leftarrow> build_stack sys tsc jb argv envp p;
           if sp = 0 then Some (Exec_returns (- 1), p) else exec sys name fd sp s p
         }
       }
     }
   }"

section \<open>What the stack builder keeps\<close>

lemma string_is_cong:
  assumes "string_is m p cs" "\<And>i. i \<le> length cs \<Longrightarrow> m' (p + word_of_nat i) = m (p + word_of_nat i)"
  shows "string_is m' p cs"
  using assms by (simp add: string_is_def)

lemma string_is_length: "string_is m p cs \<Longrightarrow> length cs < 2 ^ 64"
proof (rule ccontr)
  assume s: "string_is m p cs" and "\<not> length cs < 2 ^ 64"
  define k where "k = length cs - 2 ^ 64"
  have k: "length cs = k + 2 ^ 64" using \<open>\<not> length cs < 2 ^ 64\<close> by (simp add: k_def)
  have "(word_of_nat (length cs) :: u64) = word_of_nat k"
    unfolding k by (simp add: word_of_nat_eq_iff take_bit_eq_mod)
  then have "m (p + word_of_nat k) = Some 0" using s by (simp add: string_is_def)
  moreover have "m (p + word_of_nat k) = Some (cs ! k)" "cs ! k \<in> set cs"
    using s k by (simp_all add: string_is_def)
  ultimately show False using s by (simp add: string_is_def)
qed

lemma string_is_cstring: "string_is m p cs \<Longrightarrow> cstring_at m p (length cs)"
  unfolding string_is_def cstring_at_def by (metis nth_mem)

definition words_at :: "cmem \<Rightarrow> u64 \<Rightarrow> u64 list \<Rightarrow> bool" where
  "words_at m p ws \<longleftrightarrow> (\<forall>i<length ws. load_long m (p + word_of_nat (8 * i)) = Some (ws ! i))"

lemma words_at_snoc:
  "words_at m p (ws @ [v]) \<longleftrightarrow> words_at m p ws \<and> load_long m (p + word_of_nat (8 * length ws)) = Some v"
  by (auto simp: words_at_def nth_append less_Suc_eq)

lemma words_at_append:
  "words_at m p (ws @ vs) \<longleftrightarrow> words_at m p ws \<and> words_at m (p + word_of_nat (8 * length ws)) vs"
proof (induction vs rule: rev_induct)
  case Nil then show ?case by (simp add: words_at_def)
next
  case (snoc v vs)
  have "words_at m p (ws @ vs @ [v]) \<longleftrightarrow>
      words_at m p (ws @ vs) \<and> load_long m (p + word_of_nat (8 * length (ws @ vs))) = Some v"
    using words_at_snoc [of m p "ws @ vs" v] by simp
  also have "word_of_nat (8 * length (ws @ vs)) = (word_of_nat (8 * length ws) + word_of_nat (8 * length vs) :: u64)"
    by (simp add: distrib_left)
  finally show ?case using snoc.IH words_at_snoc [of m "p + word_of_nat (8 * length ws)" vs v]
    by (simp only: add.assoc conj_assoc)
qed

lemma words_at_cong:
  assumes "words_at m p ws" "\<And>i. i < 8 * length ws \<Longrightarrow> m' (p' + word_of_nat i) = m (p + word_of_nat i)"
  shows "words_at m' p' ws"
  unfolding words_at_def
proof (intro allI impI)
  fix i assume i: "i < length ws"
  have "load_long m' (p' + word_of_nat (8 * i)) = load_long m (p + word_of_nat (8 * i))"
  proof (rule load_long_cong)
    fix j :: nat assume "j < 8"
    then show "m' (p' + word_of_nat (8 * i) + word_of_nat j) = m (p + word_of_nat (8 * i) + word_of_nat j)"
      using assms(2) [of "8 * i + j"] i by (simp add: add.assoc)
  qed
  then show "load_long m' (p' + word_of_nat (8 * i)) = Some (ws ! i)"
    using assms(1) i by (simp add: words_at_def)
qed

definition in_region :: "u64 \<Rightarrow> u64 \<Rightarrow> bool" where
  "in_region base a \<longleftrightarrow> (\<exists>j<STACK_SIZE. a = base + word_of_nat j)"

text \<open>The memory \<open>m1\<close> that \<open>mmap\<close> has left, with the stack mapped at \<open>base\<close>.\<close>

definition stack_mapped :: "cmem \<Rightarrow> u64 \<Rightarrow> bool" where
  "stack_mapped m1 base \<longleftrightarrow>
     block_mapped m1 \<and> mapped m1 base STACK_SIZE \<and> unat base + STACK_SIZE < 2 ^ 64 \<and> unat base mod 16 = 0"

text \<open>\<open>built m1 base e ws ss s m\<close>: the words \<open>ws\<close> have been pushed at the bottom of the stack and the strings
  \<open>ss\<close> at its top, down to the offset \<open>e\<close>; the rest of memory is as it was.\<close>

definition string_in :: "cmem \<Rightarrow> u64 \<Rightarrow> nat \<Rightarrow> u64 \<times> u8 list \<Rightarrow> bool" where
  "string_in m base e x \<longleftrightarrow> (case x of (q, cs) \<Rightarrow>
     \<exists>j. q = base + word_of_nat j \<and> e \<le> j \<and> j + length cs < STACK_SIZE \<and> string_is m q cs)"

definition built ::
    "cmem \<Rightarrow> u64 \<Rightarrow> nat \<Rightarrow> u64 list \<Rightarrow> (u64 \<times> u8 list) list \<Rightarrow> stack_builder \<Rightarrow> cmem \<Rightarrow> bool"
where
  "built m1 base e ws ss s m \<longleftrightarrow>
     s = \<lparr>sb_base = base, sb_top = base + word_of_nat STACK_SIZE, sb_arg_next = base + word_of_nat (8 * length ws),
          sb_data_area = base + word_of_nat e, sb_on_error = replicate 8 0\<rparr> \<and>
     e \<le> STACK_SIZE \<and> STACK_SIZE + 8 * length ws < ARG_LIMIT + e \<and>
     words_at m base ws \<and> (\<forall>x\<in>set ss. string_in m base e x) \<and>
     (\<forall>a. \<not> in_region base a \<longrightarrow> m a = m1 a) \<and> (\<forall>a. m a = None \<longleftrightarrow> m1 a = None)"

lemma builtD:
  assumes "built m1 base e ws ss s m"
  shows "sb_base s = base" "sb_top s = base + word_of_nat STACK_SIZE"
    "sb_arg_next s = base + word_of_nat (8 * length ws)" "sb_data_area s = base + word_of_nat e"
    "e \<le> STACK_SIZE" "STACK_SIZE + 8 * length ws < ARG_LIMIT + e" "8 * length ws \<le> e" "words_at m base ws"
    "\<And>x. x \<in> set ss \<Longrightarrow> string_in m base e x" "\<And>a. \<not> in_region base a \<Longrightarrow> m a = m1 a"
    "\<And>a. m a = None \<longleftrightarrow> m1 a = None"
  using assms unfolding built_def STACK_SIZE_def ARG_LIMIT_def by (auto; fail)+

lemma offset_inj_stack:
  "i < STACK_SIZE \<Longrightarrow> j < STACK_SIZE \<Longrightarrow> (p :: u64) + word_of_nat i = p + word_of_nat j \<Longrightarrow> i = j"
  using offset_inj [of i j p] by (simp add: STACK_SIZE_def)

lemma block_mapped_cong: "block_mapped m1 \<Longrightarrow> (\<And>a. m a = None \<longleftrightarrow> m1 a = None) \<Longrightarrow> block_mapped m"
  by (simp add: block_mapped_def)

text \<open>A change confined to the gap between the words and the strings keeps both.\<close>

lemma built_change:
  assumes b: "built m1 base e ws ss s m"
    and gap: "\<And>a. (\<And>j. 8 * length ws \<le> j \<Longrightarrow> j < e \<Longrightarrow> a \<noteq> base + word_of_nat j) \<Longrightarrow> m' a = m a"
    and dom: "\<And>a. m' a = None \<longleftrightarrow> m a = None"
  shows "built m1 base e ws ss s m'"
proof -
  note d = builtD [OF b]
  have e: "e \<le> STACK_SIZE" by (rule d(5))
  have low: "m' (base + word_of_nat i) = m (base + word_of_nat i)" if "i < 8 * length ws" for i
  proof (rule gap)
    fix j assume "8 * length ws \<le> j" "j < e"
    then show "base + word_of_nat i \<noteq> base + word_of_nat j"
      using offset_inj_stack [of i j base] that e by auto
  qed
  have high: "m' (base + word_of_nat i) = m (base + word_of_nat i)" if "e \<le> i" "i < STACK_SIZE" for i
  proof (rule gap)
    fix j assume "8 * length ws \<le> j" "j < e"
    then show "base + word_of_nat i \<noteq> base + word_of_nat j"
      using offset_inj_stack [of i j base] that e by auto
  qed
  have "words_at m' base ws" using words_at_cong [OF d(8)] low by blast
  moreover have "string_in m' base e x" if x: "x \<in> set ss" for x
  proof -
    obtain q cs where qcs: "x = (q, cs)" by (cases x)
    then obtain j where j: "q = base + word_of_nat j" "e \<le> j" "j + length cs < STACK_SIZE" "string_is m q cs"
      using d(9) [OF x] by (auto simp: string_in_def)
    have "string_is m' q cs"
    proof (rule string_is_cong [OF j(4)])
      fix i assume "i \<le> length cs"
      then show "m' (q + word_of_nat i) = m (q + word_of_nat i)"
        using high [of "j + i"] j by (simp add: add.assoc)
    qed
    then show ?thesis using j qcs by (auto simp: string_in_def)
  qed
  moreover have "m' a = m1 a" if "\<not> in_region base a" for a
  proof -
    have "m' a = m a" using gap [of a] that e by (auto simp: in_region_def)
    then show ?thesis using d(10) [OF that] by simp
  qed
  ultimately show ?thesis using b dom by (simp add: built_def)
qed

lemma check_space_built:
  assumes "built m1 base e ws ss s m" "unat n + STACK_SIZE + ARG_LIMIT < 2 ^ 64"
  shows "check_space s n p =
    (if ARG_LIMIT + e \<le> STACK_SIZE + 8 * length ws + unat n then overflow s p else Some (Inr (s, p)))"
proof -
  note d = builtD [OF assms(1)]
  let ?used = "STACK_SIZE - (e - 8 * length ws) + unat n"
  have "sb_data_area s - sb_arg_next s = word_of_nat (e - 8 * length ws)"
    using d by (simp add: of_nat_diff)
  then have used: "word_of_nat STACK_SIZE - (sb_data_area s - sb_arg_next s) + n = word_of_nat ?used"
    using d(5,7) by (simp add: of_nat_diff)
  have "unat (word_of_nat ?used :: u64) = ?used"
    using assms(2) by (subst unat_of_nat) simp
  then have "word_of_nat ARG_LIMIT \<le> (word_of_nat ?used :: u64) \<longleftrightarrow> ARG_LIMIT \<le> ?used"
    unfolding word_le_nat_alt by (simp add: ARG_LIMIT_def)
  moreover have "ARG_LIMIT \<le> ?used \<longleftrightarrow> ARG_LIMIT + e \<le> STACK_SIZE + 8 * length ws + unat n"
    using d(5,7) by linarith
  ultimately show ?thesis by (simp only: check_space_def Let_def used)
qed

lemma region_mapped:
  assumes "stack_mapped m1 base" "built m1 base e ws ss s m" "i + n \<le> STACK_SIZE"
  shows "mapped m (base + word_of_nat i) n"
  unfolding mapped_def
proof (intro allI impI)
  fix j assume "j < n"
  then have "m1 (base + word_of_nat (i + j)) \<noteq> None"
    using assms(1,3) unfolding stack_mapped_def mapped_def by (meson add_less_cancel_left order_less_le_trans)
  then show "m (base + word_of_nat i + word_of_nat j) \<noteq> None"
    using builtD(11) [OF assms(2)] by (simp add: add.assoc)
qed

definition advanced :: "stack_builder \<Rightarrow> stack_builder" where
  "advanced s = s\<lparr>sb_arg_next := sb_arg_next s + 8\<rparr>"

lemma push_arg_overflow:
  assumes "built m1 base e ws ss s m" "ARG_LIMIT + e \<le> STACK_SIZE + 8 * length ws + 8"
  shows "push_arg v s p = overflow s p"
  using check_space_built [OF assms(1), of 8 p] assms(2)
  by (simp add: push_arg_def and_build_def overflow_def STACK_SIZE_def ARG_LIMIT_def)

lemma push_arg_built:
  assumes sm: "stack_mapped m1 base" and b: "built m1 base e ws ss s (pmem p)"
    and room: "STACK_SIZE + 8 * length ws + 8 < ARG_LIMIT + e"
  shows "\<exists>m'. push_arg v s p = Some (Inr (advanced s, p\<lparr>pmem := m'\<rparr>)) \<and> built m1 base e (ws @ [v]) ss (advanced s) m'"
proof -
  note d = builtD [OF b]
  have gap: "8 * length ws + 8 \<le> e" using room by (simp add: STACK_SIZE_def ARG_LIMIT_def)
  let ?at = "base + word_of_nat (8 * length ws)"
  have "mapped (pmem p) ?at 8" using region_mapped [OF sm b, of "8 * length ws" 8] gap d(5) by simp
  then obtain m' where m': "store_long (pmem p) ?at v = Some m'" "load_long m' ?at = Some v"
      "\<And>a. (\<And>i. i < 8 \<Longrightarrow> a \<noteq> ?at + word_of_nat i) \<Longrightarrow> m' a = pmem p a" "\<And>a. m' a = None \<longleftrightarrow> pmem p a = None"
    using store_long_stores by metis
  have "built m1 base e ws ss s m'"
  proof (rule built_change [OF b _ m'(4)])
    fix a assume a: "\<And>j. 8 * length ws \<le> j \<Longrightarrow> j < e \<Longrightarrow> a \<noteq> base + word_of_nat j"
    show "m' a = pmem p a"
    proof (rule m'(3))
      fix i :: nat assume "i < 8"
      then show "a \<noteq> ?at + word_of_nat i" using a [of "8 * length ws + i"] gap by (simp add: add.assoc)
    qed
  qed
  then have "built m1 base e (ws @ [v]) ss (advanced s) m'"
    using m'(2) room unfolding built_def words_at_snoc advanced_def by (simp add: algebra_simps)
  moreover have "check_space s 8 p = Some (Inr (s, p))"
    using check_space_built [OF b, of 8 p] room by (simp add: STACK_SIZE_def ARG_LIMIT_def)
  moreover have "push_arg v s p = Some (Inr (advanced s, p\<lparr>pmem := m'\<rparr>))" if "check_space s 8 p = Some (Inr (s, p))"
    using that m'(1) d(3) by (simp add: push_arg_def and_build_def advanced_def)
  ultimately show ?thesis by blast
qed

text \<open>A string outside the stack.\<close>

definition outside :: "u64 \<Rightarrow> u64 \<Rightarrow> nat \<Rightarrow> bool" where
  "outside base str n \<longleftrightarrow> (\<forall>i<n. \<not> in_region base (str + word_of_nat i))"

definition lowered :: "u64 \<Rightarrow> nat \<Rightarrow> stack_builder \<Rightarrow> stack_builder" where
  "lowered base e s = s\<lparr>sb_data_area := base + word_of_nat e\<rparr>"

lemma string_length_size:
  assumes "length cs < 2 ^ 32"
  shows "unat (word_of_nat (length cs) :: u64) = length cs" "unat (word_of_nat (length cs) + 1 :: u64) = length cs + 1"
proof -
  show "unat (word_of_nat (length cs) :: u64) = length cs" using assms by (simp add: unat_of_nat)
  have "unat (word_of_nat (length cs + 1) :: u64) = length cs + 1" using assms by (subst unat_of_nat) simp
  then show "unat (word_of_nat (length cs) + 1 :: u64) = length cs + 1" by (simp add: add.commute)
qed

lemma strlen_built:
  assumes "stack_mapped m1 base" "built m1 base e ws ss s m" "string_is m str cs"
  shows "strlen m str = Some (word_of_nat (length cs))"
proof (rule strlen_finds)
  show "block_mapped m"
    using block_mapped_cong [of m1 m] assms(1) builtD(11) [OF assms(2)] by (simp add: stack_mapped_def)
  show "cstring_at m str (length cs)" by (rule string_is_cstring [OF assms(3)])
qed

lemma push_string_overflow:
  assumes sm: "stack_mapped m1 base" and b: "built m1 base e ws ss s (pmem p)"
    and str: "string_is (pmem p) str cs" "length cs < 2 ^ 32"
    and full: "ARG_LIMIT + e \<le> STACK_SIZE + 8 * length ws + (length cs + 1)"
  shows "push_data_string str s p = overflow s p"
  using check_space_built [OF b, of "word_of_nat (length cs) + 1" p] full
  by (simp add: push_data_string_def and_build_def overflow_def strlen_built [OF sm b str(1)] string_length_size(2) [OF str(2)])
    (use str(2) in \<open>simp add: STACK_SIZE_def ARG_LIMIT_def\<close>)

lemma push_string_built:
  assumes sm: "stack_mapped m1 base" and b: "built m1 base e ws ss s (pmem p)"
    and str: "string_is (pmem p) str cs" "length cs < 2 ^ 32" "outside base str (length cs + 1)"
    and room: "STACK_SIZE + 8 * length ws + (length cs + 1) < ARG_LIMIT + e"
  defines "e' \<equiv> e - (length cs + 1)"
  shows "\<exists>m'. push_data_string str s p = Some (Inr (lowered base e' s, p\<lparr>pmem := m'\<rparr>)) \<and>
    built m1 base e' ws (ss @ [(base + word_of_nat e', cs)]) (lowered base e' s) m'"
proof -
  note d = builtD [OF b]
  let ?n = "length cs"
  let ?q = "base + word_of_nat e' :: u64"
  have e: "e = e' + ?n + 1" "8 * length ws < e'"
    using room by (simp_all add: e'_def STACK_SIZE_def ARG_LIMIT_def)
  have size: "e' + ?n < STACK_SIZE" using e(1) d(5) by simp
  have bytes: "(pmem p) (str + word_of_nat i) = Some (cs ! i)" if "i < ?n" for i
    using str(1) that by (simp add: string_is_def)
  have apart: "?q + word_of_nat i \<noteq> str + word_of_nat j" if "i \<le> ?n" "j \<le> ?n" for i j
  proof
    assume "?q + word_of_nat i = str + word_of_nat j"
    then have "in_region base (str + word_of_nat j)"
      using size that(1) by (auto simp: in_region_def add.assoc intro!: exI [of _ "e' + i"])
    then show False using str(3) that(2) by (simp add: outside_def)
  qed
  have "mapped (pmem p) str ?n" using bytes by (simp add: mapped_def)
  moreover have dest: "mapped (pmem p) ?q (?n + 1)" using region_mapped [OF sm b, of e' "?n + 1"] size by simp
  then have "mapped (pmem p) ?q ?n" by (simp add: mapped_def)
  ultimately obtain m2 where m2: "memcpy (pmem p) ?q str ?n = Some m2" "copied (pmem p) m2 ?q str ?n"
    using memcpy_copies [of "pmem p" str ?n ?q] apart size by (fastforce simp: STACK_SIZE_def)
  define m' where "m' = m2(?q + word_of_nat ?n \<mapsto> 0)"
  have outer: "?q + word_of_nat ?n \<noteq> ?q + word_of_nat i" if "i < ?n" for i
    using offset_inj_stack [of ?n i ?q] that size by auto
  then have at_end: "m2 (?q + word_of_nat ?n) = (pmem p) (?q + word_of_nat ?n)"
    using copied_outside [OF m2(2)] by blast
  then have st: "store m2 (?q + word_of_nat ?n) 0 = Some m'"
    using dest by (auto simp: store_def m'_def mapped_def)
  have there: "m' (?q + word_of_nat i) = Some (cs ! i)" if "i < ?n" for i
    using copied_at [OF m2(2) that] bytes [OF that] outer [OF that] by (simp add: m'_def)
  have elsewhere: "m' a = (pmem p) a" if "\<And>j. e' \<le> j \<Longrightarrow> j < e \<Longrightarrow> a \<noteq> base + word_of_nat j" for a
  proof -
    have a: "a \<noteq> ?q + word_of_nat i" if "i \<le> ?n" for i
      using \<open>\<And>j. e' \<le> j \<Longrightarrow> j < e \<Longrightarrow> a \<noteq> base + word_of_nat j\<close> [of "e' + i"] that e(1) by (simp add: add.assoc)
    then have "m2 a = (pmem p) a" using copied_outside [OF m2(2), of a] by simp
    then show ?thesis using a [of ?n] by (simp add: m'_def)
  qed
  have dom: "m' a = None \<longleftrightarrow> pmem p a = None" for a
  proof (cases "\<exists>i\<le>?n. a = ?q + word_of_nat i")
    case True
    then obtain i where i: "i \<le> ?n" "a = ?q + word_of_nat i" by blast
    have "m' a \<noteq> None" using there [of i] i by (cases "i = ?n") (auto simp: m'_def)
    moreover have "pmem p a \<noteq> None" using dest i by (simp add: mapped_def)
    ultimately show ?thesis by blast
  next
    case False
    then have "m' a = pmem p a" using copied_outside [OF m2(2), of a] by (auto simp: m'_def)
    then show ?thesis by simp
  qed
  have "built m1 base e ws ss s m'"
    by (rule built_change [OF b _ dom], rule elsewhere) (use e in auto)
  moreover have "string_is m' ?q cs" using there str(1) by (simp add: string_is_def m'_def)
  then have "string_in m' base e' (?q, cs)" using size by (auto simp: string_in_def)
  moreover have "string_in m' base e' x" if "string_in m' base e x" for x
    using that e(1) by (fastforce simp: string_in_def)
  ultimately have b': "built m1 base e' ws (ss @ [(?q, cs)]) (lowered base e' s) m'"
    using room e size by (auto simp: built_def lowered_def)
  define L where "L = (word_of_nat ?n :: u64)"
  have "base + word_of_nat e - (L + 1) = ?q" unfolding e(1) L_def by simp
  then have 1: "sb_data_area s - (L + 1) = ?q" by (simp add: d(4))
  then have 4: "sb_data_area s - 1 = ?q + L" by (simp add: algebra_simps)
  have 2: "strlen (pmem p) str = Some L" "unat L = ?n" "unat (L + 1) = ?n + 1"
    using strlen_built [OF sm b str(1)] string_length_size [OF str(2)] by (simp_all add: L_def)
  have 3: "check_space s (L + 1) p = Some (Inr (s, p))"
    using check_space_built [OF b, of "L + 1" p] room str(2) unfolding 2(3) by (simp add: STACK_SIZE_def ARG_LIMIT_def)
  have "push_data_string str s p = Some (Inr (lowered base e' s, p\<lparr>pmem := m'\<rparr>))"
    using m2(1) st by (simp add: push_data_string_def and_build_def Let_def 1 2 3 4 lowered_def flip: L_def)
  then show ?thesis using b' by blast
qed

section \<open>Argument arrays\<close>

text \<open>A null-terminated array of pointers to strings, as \<open>argv\<close> and \<open>envp\<close> are.\<close>

fun args_at :: "cmem \<Rightarrow> u64 \<Rightarrow> u8 list list \<Rightarrow> bool" where
  "args_at m a [] \<longleftrightarrow> load_long m a = Some 0"
| "args_at m a (cs # css) \<longleftrightarrow>
     (\<exists>q. load_long m a = Some q \<and> q \<noteq> 0 \<and> string_is m q cs) \<and> args_at m (a + 8) css"

lemma args_at_pointers:
  assumes "words_at m a (qs @ [0])" "list_all2 (\<lambda>q cs. q \<noteq> 0 \<and> string_is m q cs) qs css"
  shows "args_at m a css"
  using assms
proof (induction css arbitrary: a qs)
  case Nil then show ?case by (simp add: words_at_def)
next
  case (Cons cs css)
  then obtain q qs' where q: "qs = q # qs'" "q \<noteq> 0" "string_is m q cs"
      "list_all2 (\<lambda>q cs. q \<noteq> 0 \<and> string_is m q cs) qs' css"
    by (cases qs) auto
  have "load_long m a = Some q \<and> words_at m (a + 8) (qs' @ [0])"
    using words_at_append [of m a "[q]" "qs' @ [0]"] Cons.prems(1) q(1) by (simp add: words_at_def)
  then show ?case using Cons.IH [of "a + 8" qs'] q by auto
qed

text \<open>The bytes of the stack that an array needs: each string with its terminator and its pointer, and the
  null pointer.\<close>

definition string_bytes :: "u8 list list \<Rightarrow> nat" where
  "string_bytes css = sum_list (map (\<lambda>cs. length cs + 1) css)"

definition array_bytes :: "u8 list list \<Rightarrow> nat" where
  "array_bytes css = string_bytes css + 8 * length css + 8"

lemma array_bytes_simps:
  "array_bytes [] = 8" "array_bytes (cs # css) = length cs + 9 + array_bytes css"
  "string_bytes [] = 0" "string_bytes (cs # css) = length cs + 1 + string_bytes css"
  by (simp_all add: array_bytes_def string_bytes_def)

lemma load_long_mono: "m0 \<subseteq>\<^sub>m m \<Longrightarrow> load_long m0 a = Some v \<Longrightarrow> load_long m a = Some v"
proof -
  assume le: "m0 \<subseteq>\<^sub>m m" and v: "load_long m0 a = Some v"
  then obtain bs where "load_bytes m0 a 8 = Some bs" "word_of_bytes bs = v" by (auto simp: load_long_def)
  moreover have "load_bytes m a n = Some bs" if "load_bytes m0 a n = Some bs" for n bs
    using that le unfolding load_bytes_iff map_le_def by (metis domI)
  ultimately show ?thesis by (auto simp: load_long_def)
qed

lemma string_is_mono: "m0 \<subseteq>\<^sub>m m \<Longrightarrow> string_is m0 p cs \<Longrightarrow> string_is m p cs"
  unfolding string_is_def map_le_def by (metis domI)

text \<open>The memory \<open>m0\<close> before the call has nothing where \<open>mmap\<close> puts the stack, and keeps its contents.\<close>

definition fresh_stack :: "cmem \<Rightarrow> cmem \<Rightarrow> u64 \<Rightarrow> bool" where
  "fresh_stack m0 m1 base \<longleftrightarrow> stack_mapped m1 base \<and> m0 \<subseteq>\<^sub>m m1 \<and> (\<forall>a. in_region base a \<longrightarrow> m0 a = None)"

lemma built_mono:
  assumes "fresh_stack m0 m1 base" "built m1 base e ws ss s m"
  shows "m0 \<subseteq>\<^sub>m m"
  unfolding map_le_def
proof
  fix a assume "a \<in> dom m0"
  then have "\<not> in_region base a" "m1 a = m0 a"
    using assms(1) unfolding fresh_stack_def map_le_def by auto
  then show "m0 a = m a" using builtD(10) [OF assms(2)] by simp
qed

lemma string_outside:
  assumes "fresh_stack m0 m1 base" "string_is m0 q cs"
  shows "outside base q (length cs + 1)"
  unfolding outside_def
proof (intro allI impI)
  fix i assume "i < length cs + 1"
  then have "m0 (q + word_of_nat i) \<noteq> None" using assms(2) by (cases "i = length cs") (auto simp: string_is_def)
  then show "\<not> in_region base (q + word_of_nat i)" using assms(1) by (auto simp: fresh_stack_def)
qed

text \<open>\<open>add_array\<close> when there is room for the whole array: the pointers are pushed in order, each to a copy
  of its string.\<close>

lemma add_array_built:
  assumes fresh: "fresh_stack m0 m1 base"
  shows "args_at m0 a css \<Longrightarrow> built m1 base e ws ss s (pmem p) \<Longrightarrow>
    STACK_SIZE + 8 * length ws + array_bytes css < ARG_LIMIT + e \<Longrightarrow>
    \<exists>s' m' qs. add_array a s p = Some (Inr (s', p\<lparr>pmem := m'\<rparr>)) \<and> length qs = length css \<and> 0 \<notin> set qs \<and>
      built m1 base (e - string_bytes css) (ws @ qs @ [0]) (ss @ zip qs css) s' m'"
proof (induction css arbitrary: a e ws ss s p)
  case Nil
  have sm: "stack_mapped m1 base" using fresh by (simp add: fresh_stack_def)
  have "load_long (pmem p) a = Some 0"
    using Nil(1) load_long_mono [OF built_mono [OF fresh Nil(2)]] by simp
  moreover obtain m' where "push_arg 0 s p = Some (Inr (advanced s, p\<lparr>pmem := m'\<rparr>))"
      "built m1 base e (ws @ [0]) ss (advanced s) m'"
    using push_arg_built [OF sm Nil(2), of 0] Nil(3) by (auto simp: array_bytes_simps)
  ultimately show ?case by (subst add_array.simps) (auto simp: array_bytes_simps intro!: exI [of _ "[]"])
next
  case (Cons cs css)
  have sm: "stack_mapped m1 base" using fresh by (simp add: fresh_stack_def)
  obtain q where q: "load_long m0 a = Some q" "q \<noteq> 0" "string_is m0 q cs" and rest: "args_at m0 (a + 8) css"
    using Cons.prems(1) by auto
  note le = built_mono [OF fresh Cons.prems(2)]
  have small: "length cs < 2 ^ 32" using Cons.prems(3) builtD(5) [OF Cons.prems(2)]
    by (simp add: array_bytes_simps STACK_SIZE_def ARG_LIMIT_def)
  let ?e = "e - (length cs + 1)"
  let ?q = "base + word_of_nat ?e :: u64"
  have room: "STACK_SIZE + 8 * length ws + (length cs + 1) < ARG_LIMIT + e"
    using Cons.prems(3) by (simp add: array_bytes_simps)
  obtain m1' where 1: "push_data_string q s p = Some (Inr (lowered base ?e s, p\<lparr>pmem := m1'\<rparr>))"
      "built m1 base ?e ws (ss @ [(?q, cs)]) (lowered base ?e s) m1'"
    using push_string_built [OF sm Cons.prems(2) string_is_mono [OF le q(3)] small string_outside [OF fresh q(3)] room]
    by blast
  have big: "length cs + 1 \<le> e" "0 < ?e"
    using room by (simp_all add: STACK_SIZE_def ARG_LIMIT_def)
  let ?p1 = "p\<lparr>pmem := m1'\<rparr>" and ?s1 = "lowered base ?e s"
  have room2: "STACK_SIZE + 8 * length ws + 8 < ARG_LIMIT + ?e"
    using Cons.prems(3) big by (simp add: array_bytes_simps)
  obtain m2 where 2: "push_arg ?q ?s1 ?p1 = Some (Inr (advanced ?s1, ?p1\<lparr>pmem := m2\<rparr>))"
      "built m1 base ?e (ws @ [?q]) (ss @ [(?q, cs)]) (advanced ?s1) m2"
    using push_arg_built [OF sm, of ?e ws "ss @ [(?q, cs)]" ?s1 ?p1 ?q] 1(2) room2 by auto
  have room3: "STACK_SIZE + 8 * length (ws @ [?q]) + array_bytes css < ARG_LIMIT + ?e"
    using Cons.prems(3) big by (simp add: array_bytes_simps)
  obtain s' m' qs where 3: "add_array (a + 8) (advanced ?s1) (p\<lparr>pmem := m2\<rparr>) = Some (Inr (s', p\<lparr>pmem := m'\<rparr>))"
      "length qs = length css" "0 \<notin> set qs"
      "built m1 base (?e - string_bytes css) ((ws @ [?q]) @ qs @ [0]) ((ss @ [(?q, cs)]) @ zip qs css) s' m'"
    using Cons.IH [OF rest, of ?e "ws @ [?q]" "ss @ [(?q, cs)]" "advanced ?s1" "p\<lparr>pmem := m2\<rparr>"] 2(2) room3 by auto
  have "?q \<noteq> 0"
  proof -
    have "unat base + ?e < 2 ^ 64"
      using sm builtD(5) [OF 1(2)] by (simp add: stack_mapped_def)
    then have "unat ?q = unat base + ?e" by (simp add: unat_word_ariths unat_of_nat)
    then show ?thesis using big(2) by auto
  qed
  moreover have "sb_data_area ?s1 = ?q" by (simp add: lowered_def)
  moreover have "load_long (pmem p) a = Some q" by (rule load_long_mono [OF le q(1)])
  ultimately show ?case
    using q(2) 1(1) 2(1) 3 by (subst add_array.simps)
      (auto simp: and_build_def array_bytes_simps diff_diff_left intro!: exI [of _ "?q # qs"])
qed

text \<open>And when there is not.\<close>

definition short_strings :: "u8 list list \<Rightarrow> bool" where
  "short_strings css \<longleftrightarrow> (\<forall>cs\<in>set css. length cs < 2 ^ 32)"

definition too_big :: "'k proc \<Rightarrow> u64 \<Rightarrow> 'k build \<Rightarrow> bool" where
  "too_big p base r \<longleftrightarrow> (\<exists>s' m'. r = Some (Inl (s', p\<lparr>pmem := m', perrno := word_of_nat (errno_code E2BIG)\<rparr>)) \<and>
     sb_base s' = base \<and> sb_on_error s' = replicate 8 0)"

lemma too_big_overflow: "built m1 base e ws ss s (pmem p) \<Longrightarrow> too_big p base (overflow s p)"
  by (auto simp: too_big_def overflow_def built_def intro!: exI [of _ "pmem p"])

lemma too_big_pmem: "too_big (p\<lparr>pmem := m\<rparr>) base r \<Longrightarrow> too_big p base r"
  by (simp add: too_big_def)

lemma add_array_overflow:
  assumes fresh: "fresh_stack m0 m1 base"
  shows "args_at m0 a css \<Longrightarrow> built m1 base e ws ss s (pmem p) \<Longrightarrow> short_strings css \<Longrightarrow>
    ARG_LIMIT + e \<le> STACK_SIZE + 8 * length ws + array_bytes css \<Longrightarrow> too_big p base (add_array a s p)"
proof (induction css arbitrary: a e ws ss s p)
  case Nil
  have "load_long (pmem p) a = Some 0"
    using Nil(1) load_long_mono [OF built_mono [OF fresh Nil(2)]] by simp
  then show ?case using push_arg_overflow [OF Nil(2), of 0 p] too_big_overflow [OF Nil(2)] Nil(4)
    by (subst add_array.simps) (simp add: array_bytes_simps)
next
  case (Cons cs css)
  have sm: "stack_mapped m1 base" using fresh by (simp add: fresh_stack_def)
  obtain q where q: "load_long m0 a = Some q" "q \<noteq> 0" "string_is m0 q cs" and rest: "args_at m0 (a + 8) css"
    using Cons.prems(1) by auto
  note le = built_mono [OF fresh Cons.prems(2)]
  have small: "length cs < 2 ^ 32" and shorts: "short_strings css" using Cons.prems(3) by (simp_all add: short_strings_def)
  have at: "load_long (pmem p) a = Some q" by (rule load_long_mono [OF le q(1)])
  show ?case
  proof (cases "ARG_LIMIT + e \<le> STACK_SIZE + 8 * length ws + (length cs + 1)")
    case True
    have "push_data_string q s p = overflow s p"
      by (rule push_string_overflow [OF sm Cons.prems(2) string_is_mono [OF le q(3)] small True])
    moreover have "too_big p base (overflow s p)" by (rule too_big_overflow [OF Cons.prems(2)])
    ultimately show ?thesis using at q(2) by (subst add_array.simps) (auto simp: and_build_def overflow_def)
  next
    case False
    let ?e = "e - (length cs + 1)"
    let ?q = "base + word_of_nat ?e :: u64"
    obtain m1' where 1: "push_data_string q s p = Some (Inr (lowered base ?e s, p\<lparr>pmem := m1'\<rparr>))"
        "built m1 base ?e ws (ss @ [(?q, cs)]) (lowered base ?e s) m1'"
      using push_string_built [OF sm Cons.prems(2) string_is_mono [OF le q(3)] small string_outside [OF fresh q(3)]] False
      by (auto simp: not_le)
    have big: "length cs + 1 \<le> e" "0 < ?e" using False by (simp_all add: STACK_SIZE_def ARG_LIMIT_def)
    let ?p1 = "p\<lparr>pmem := m1'\<rparr>" and ?s1 = "lowered base ?e s"
    have da: "sb_data_area ?s1 = ?q" by (simp add: lowered_def)
    show ?thesis
    proof (cases "ARG_LIMIT + ?e \<le> STACK_SIZE + 8 * length ws + 8")
      case True
      have b1: "built m1 base ?e ws (ss @ [(?q, cs)]) ?s1 (pmem ?p1)" using 1(2) by simp
      have "push_arg ?q ?s1 ?p1 = overflow ?s1 ?p1" by (rule push_arg_overflow [OF b1 True])
      moreover have "too_big p base (overflow ?s1 ?p1)" by (rule too_big_pmem [OF too_big_overflow [OF b1]])
      ultimately show ?thesis using at q(2) 1(1) da by (subst add_array.simps) (auto simp: and_build_def overflow_def)
    next
      case fits: False
      obtain m2 where 2: "push_arg ?q ?s1 ?p1 = Some (Inr (advanced ?s1, ?p1\<lparr>pmem := m2\<rparr>))"
          "built m1 base ?e (ws @ [?q]) (ss @ [(?q, cs)]) (advanced ?s1) m2"
        using push_arg_built [OF sm, of ?e ws "ss @ [(?q, cs)]" ?s1 ?p1 ?q] 1(2) fits by (auto simp: not_le)
      have full: "ARG_LIMIT + ?e \<le> STACK_SIZE + 8 * length (ws @ [?q]) + array_bytes css"
        using Cons.prems(4) big by (simp add: array_bytes_simps)
      have "too_big p base (add_array (a + 8) (advanced ?s1) (p\<lparr>pmem := m2\<rparr>))"
        by (rule too_big_pmem [OF Cons.IH [OF rest _ shorts full]]) (use 2(2) in simp)
      then show ?thesis using at q(2) 1(1) 2(1) da by (subst add_array.simps) (simp add: and_build_def)
    qed
  qed
qed

section \<open>The finished stack\<close>

lemma unat_and_not_7: "unat ((w :: u64) AND NOT 7) = unat w div 8 * 8"
  using unat_and_not_mask [of w 3] by (simp add: mask_eq_exp_minus_1)

lemma unat_stack: "stack_mapped m1 base \<Longrightarrow> j \<le> STACK_SIZE \<Longrightarrow> unat (base + word_of_nat j) = unat base + j"
  by (simp add: stack_mapped_def unat_word_ariths unat_of_nat)

lemma finish_stack_area:
  "finish_stack s p =
     (let n = sb_arg_next s - sb_base s; low = sb_data_area s AND NOT 7;
          area = (if (low - n) AND 8 \<noteq> 0 then low - 8 else low) in do {
        m \<leftarrow> memmove (pmem p) (area - n) (sb_base s) n;
        Some (area - n, s\<lparr>sb_data_area := area\<rparr>, p\<lparr>pmem := m\<rparr>)
      })"
  by (cases s) (simp add: finish_stack_def Let_def)

text \<open>Where the words end up: \<open>n\<close> bytes below the strings, at a multiple of 16.\<close>

definition final_offset :: "nat \<Rightarrow> nat \<Rightarrow> nat" where
  "final_offset e n = (let e = e div 8 * 8 in if odd ((e - n) div 8) then e - 8 - n else e - n)"

lemma final_offset:
  assumes "n mod 8 = 0" "n + 16 \<le> e"
  shows "final_offset e n + n \<le> e" "final_offset e n mod 16 = 0" "0 < final_offset e n \<or> n + 16 = e div 8 * 8"
proof -
  obtain k where k: "n = 8 * k" using assms(1) by fastforce
  define l where "l = e div 8"
  have l: "k + 2 \<le> l" "8 * l \<le> e" using assms(2) k by (simp_all add: l_def)
  have f: "final_offset e n = (if odd (l - k) then 8 * (l - k - 1) else 8 * (l - k))"
  proof -
    have "l * 8 - 8 * k = 8 * (l - k)" "l * 8 - 8 - 8 * k = 8 * (l - k - 1)" by (simp_all add: algebra_simps)
    then show ?thesis unfolding final_offset_def Let_def l_def [symmetric] k by simp
  qed
  show "final_offset e n + n \<le> e" unfolding f unfolding k using l by auto
  show "final_offset e n mod 16 = 0"
    unfolding f by (auto elim!: oddE evenE)
  show "0 < final_offset e n \<or> n + 16 = e div 8 * 8" unfolding f using l by auto
qed

lemma finish_built:
  assumes fresh: "fresh_stack m0 m1 base" and b: "built m1 base e ws ss s (pmem p)"
  defines "sp \<equiv> base + word_of_nat (final_offset e (8 * length ws))"
  shows "\<exists>s' m'. finish_stack s p = Some (sp, s', p\<lparr>pmem := m'\<rparr>) \<and>
    sb_base s' = base \<and> sb_top s' = base + word_of_nat STACK_SIZE \<and>
    words_at m' sp ws \<and> (\<forall>(q, cs)\<in>set ss. string_is m' q cs) \<and> m0 \<subseteq>\<^sub>m m'"
proof -
  let ?n = "8 * length ws"
  have sm: "stack_mapped m1 base" using fresh by (simp add: fresh_stack_def)
  note d = builtD [OF b]
  have n: "?n mod 8 = 0" "?n + 16 \<le> e" using d(6) by (simp_all add: STACK_SIZE_def ARG_LIMIT_def)
  define f where "f = final_offset e ?n"
  note fo = final_offset [OF n, folded f_def]
  have base16: "unat base mod 16 = 0" and wrap: "unat base + STACK_SIZE < 2 ^ 64" using sm by (simp_all add: stack_mapped_def)
  obtain b16 where b16: "unat base = 16 * b16" using base16 by fastforce
  let ?e8 = "e div 8 * 8"
  have e8: "?n + 8 \<le> ?e8" "?e8 \<le> e" using n by presburger+
  have "unat (base + word_of_nat e) div 8 * 8 = unat base + ?e8"
    unfolding unat_stack [OF sm d(5)] b16 by presburger
  then have "unat ((base + word_of_nat e) AND NOT 7) = unat (base + word_of_nat ?e8)"
    unfolding unat_and_not_7 using unat_stack [OF sm, of ?e8] e8 d(5) by simp
  then have down: "(base + word_of_nat e) AND NOT 7 = base + word_of_nat ?e8" by (simp only: word_unat_eq_iff)
  have sub: "base + word_of_nat ?e8 - word_of_nat ?n = base + word_of_nat (?e8 - ?n)"
    using e8 by (simp add: of_nat_diff)
  have odd_iff: "(base + word_of_nat (?e8 - ?n)) AND 8 \<noteq> 0 \<longleftrightarrow> odd ((?e8 - ?n) div 8)"
  proof -
    have "unat (base + word_of_nat (?e8 - ?n)) = 16 * b16 + (?e8 - ?n)"
      using unat_stack [OF sm, of "?e8 - ?n"] e8 d(5) b16 by simp
    then show ?thesis unfolding and_8 by simp
  qed
  define s' where "s' = s\<lparr>sb_data_area := base + word_of_nat (f + ?n)\<rparr>"
  have fn: "f + ?n = (if odd ((?e8 - ?n) div 8) then ?e8 - 8 else ?e8)"
    using e8 by (auto simp: f_def final_offset_def Let_def)
  have area: "(if ((base + word_of_nat ?e8) - word_of_nat ?n) AND 8 \<noteq> 0
      then base + word_of_nat ?e8 - 8 else base + word_of_nat ?e8) = base + word_of_nat (f + ?n)"
    unfolding sub odd_iff fn using e8 by (simp add: of_nat_diff)
  have size: "unat (word_of_nat ?n :: u64) = ?n"
    using n(2) d(5) by (subst unat_of_nat) (simp add: STACK_SIZE_def)
  have in_stack: "f + ?n \<le> STACK_SIZE" using fo(1) d(5) by simp
  have src: "mapped (pmem p) base ?n" using region_mapped [OF sm b, of 0 ?n] in_stack by simp
  have dest: "mapped (pmem p) sp ?n"
    using region_mapped [OF sm b, of f ?n] in_stack by (simp add: sp_def f_def)
  have sp: "unat sp = unat base + f" using unat_stack [OF sm, of f] in_stack by (simp add: sp_def f_def)
  obtain m' where m': "memmove (pmem p) sp base (word_of_nat ?n) = Some m'" "copied (pmem p) m' sp base ?n"
    using memmove_copies [of "pmem p" base "word_of_nat ?n" sp] src dest sp wrap in_stack unfolding size by auto
  have "finish_stack s p = Some (sp, s', p\<lparr>pmem := m'\<rparr>)"
  proof -
    have size_of: "sb_arg_next s - sb_base s = word_of_nat ?n" using d by simp
    have spq: "base + word_of_nat (f + ?n) - word_of_nat ?n = sp" by (simp add: sp_def f_def)
    show ?thesis unfolding finish_stack_area Let_def size_of unfolding d(1,4) down area spq
      using m'(1) by (simp only: bind.simps s'_def)
  qed
  moreover have "words_at m' sp ws" using words_at_cong [OF d(8)] copied_at [OF m'(2)] by blast
  moreover have outer: "m' a = pmem p a" if "\<And>j. f \<le> j \<Longrightarrow> j < f + ?n \<Longrightarrow> a \<noteq> base + word_of_nat j" for a
  proof (rule copied_outside [OF m'(2)])
    fix i assume "i < ?n"
    then show "a \<noteq> sp + word_of_nat i" using that [of "f + i"] by (simp add: sp_def f_def add.assoc)
  qed
  moreover have "string_is m' q cs" if x: "(q, cs) \<in> set ss" for q cs
  proof -
    obtain j where j: "q = base + word_of_nat j" "e \<le> j" "j + length cs < STACK_SIZE" "string_is (pmem p) q cs"
      using d(9) [OF x] by (auto simp: string_in_def)
    show ?thesis
    proof (rule string_is_cong [OF j(4)], rule outer)
      fix i k assume "i \<le> length cs" "f \<le> k" "k < f + ?n"
      then show "q + word_of_nat i \<noteq> base + word_of_nat k"
        using offset_inj_stack [of "j + i" k base] j fo(1) in_stack by (auto simp: add.assoc)
    qed
  qed
  moreover have "m0 \<subseteq>\<^sub>m m'"
    unfolding map_le_def
  proof
    fix a assume a: "a \<in> dom m0"
    then have "\<not> in_region base a" using fresh by (auto simp: fresh_stack_def)
    then have "m' a = pmem p a" using in_stack by (intro outer) (auto simp: in_region_def)
    then show "m0 a = m' a" using built_mono [OF fresh b] a by (simp add: map_le_def)
  qed
  ultimately show ?thesis by (auto simp: s'_def d)
qed

section \<open>build_stack\<close>

definition stack_bytes :: "u8 list list \<Rightarrow> u8 list list \<Rightarrow> nat" where
  "stack_bytes as es = 8 + array_bytes as + array_bytes es + 8"

text \<open>A call of \<open>build_stack\<close>: \<open>mmap\<close> has mapped the stack at \<open>base\<close>, where there was nothing, and the two
  arrays are in memory.\<close>

definition stack_call ::
    "'k syscalls \<Rightarrow> u64 \<Rightarrow> u64 \<Rightarrow> u64 \<Rightarrow> 'k proc \<Rightarrow> u64 \<Rightarrow> 'k proc \<Rightarrow> u8 list list \<Rightarrow> u8 list list \<Rightarrow> bool"
where
  "stack_call sys tsc argv envp p base p1 as es \<longleftrightarrow>
     syscallv sys SYS_virtual_map
       [0x7e0000000000 OR (0xfffffff000 AND push_bit 12 tsc), word_of_nat STACK_SIZE, 3, 0] p = (base, p1) \<and>
     0 \<le>s base \<and> fresh_stack (pmem p) (pmem p1) base \<and>
     args_at (pmem p) argv as \<and> args_at (pmem p) envp es"

lemma create_stack_built:
  assumes "stack_call sys tsc argv envp p base p1 as es"
  shows "\<exists>s. create_stack sys tsc zero_builder p = Some (Inr (s, p1)) \<and> built (pmem p1) base STACK_SIZE [] [] s (pmem p1)"
proof -
  have base: "base \<noteq> - 1" using assms by (auto simp: stack_call_def word_sle_eq)
  have "mmap sys (0x7e0000000000 OR (0xfffffff000 AND push_bit 12 tsc)) (word_of_nat STACK_SIZE) (1 OR 2) 0 (- 1) 0 p = Some (base, p1)"
    using assms by (simp add: stack_call_def mmap_def fluke_virtual_map_def)
  then show ?thesis using base
    by (auto simp: zero_builder_def create_stack_def MAP_FAILED_def built_def words_at_def STACK_SIZE_def ARG_LIMIT_def)
qed

text \<open>Writing \<open>argc\<close> over the first word.\<close>

lemma built_first:
  assumes sm: "stack_mapped m1 base" and b: "built m1 base e (w # ws) ss s m"
  shows "\<exists>m'. store_long m base v = Some m' \<and> built m1 base e (v # ws) ss s m'"
proof -
  note d = builtD [OF b]
  have "mapped m base 8"
    using region_mapped [OF sm b, of 0 8] by (simp add: STACK_SIZE_def)
  then obtain m' where m': "store_long m base v = Some m'" "load_long m' base = Some v"
      "\<And>a. (\<And>i. i < 8 \<Longrightarrow> a \<noteq> base + word_of_nat i) \<Longrightarrow> m' a = m a" "\<And>a. m' a = None \<longleftrightarrow> m a = None"
    using store_long_stores by metis
  have later: "m' (base + word_of_nat i) = m (base + word_of_nat i)" if "8 \<le> i" "i < STACK_SIZE" for i
  proof (rule m'(3))
    fix j :: nat assume "j < 8"
    then show "base + word_of_nat i \<noteq> base + word_of_nat j"
      using offset_inj_stack [of i j base] that by (auto simp: STACK_SIZE_def)
  qed
  have len: "8 + 8 * length ws \<le> e" "e \<le> STACK_SIZE" using d(5,7) by simp_all
  have "words_at m (base + 8) ws" using words_at_append [of m base "[w]" ws] d(8) by simp
  then have "words_at m' (base + 8) ws"
  proof (rule words_at_cong)
    fix i assume "i < 8 * length ws"
    then show "m' (base + 8 + word_of_nat i) = m (base + 8 + word_of_nat i)"
      using later [of "8 + i"] len by (simp add: add.assoc)
  qed
  then have "words_at m' base (v # ws)"
    using words_at_append [of m' base "[v]" ws] m'(2) by (simp add: words_at_def)
  moreover have "string_in m' base e x" if x: "x \<in> set ss" for x
  proof -
    obtain q cs where qcs: "x = (q, cs)" by (cases x)
    then obtain j where j: "q = base + word_of_nat j" "e \<le> j" "j + length cs < STACK_SIZE" "string_is m q cs"
      using d(9) [OF x] by (auto simp: string_in_def)
    have "string_is m' q cs"
    proof (rule string_is_cong [OF j(4)])
      fix i assume "i \<le> length cs"
      then show "m' (q + word_of_nat i) = m (q + word_of_nat i)"
        using later [of "j + i"] j len by (simp add: add.assoc)
    qed
    then show ?thesis using j qcs by (auto simp: string_in_def)
  qed
  moreover have "m' a = m1 a" if "\<not> in_region base a" for a
  proof -
    have "m' a = m a" using that by (intro m'(3)) (auto simp: in_region_def STACK_SIZE_def)
    then show ?thesis using d(10) [OF that] by simp
  qed
  ultimately show ?thesis using b m'(1,4) by (simp add: built_def)
qed

lemma argc_value:
  assumes "built m1 base e (w # qs @ [0]) ss s m"
  shows "(sb_arg_next s - 16 - sb_base s) div 8 = word_of_nat (length qs)"
proof -
  note d = builtD [OF assms]
  have len: "8 * length qs + 16 \<le> STACK_SIZE" using d(5,7) by simp
  have "sb_arg_next s - 16 - sb_base s = word_of_nat (8 * length qs)" using d(1,3) by simp
  moreover have u8: "unat (word_of_nat (8 * length qs) div 8 :: u64) = length qs"
  proof -
    have u: "unat (word_of_nat (8 * length qs) :: u64) = 8 * length qs"
      using len by (subst unat_of_nat) (simp add: STACK_SIZE_def)
    show ?thesis unfolding unat_div u by simp
  qed
  moreover have "unat (word_of_nat (length qs) :: u64) = length qs"
    using len by (subst unat_of_nat) (simp add: STACK_SIZE_def)
  with u8 have "word_of_nat (8 * length qs) div 8 = (word_of_nat (length qs) :: u64)" by (simp only: word_unat_eq_iff)
  ultimately show ?thesis by simp
qed

lemma and_build_Inr: "r = Some (Inr (s, p)) \<Longrightarrow> and_build r f = f s p"
  by (simp add: and_build_def)

lemma fill_stack_built:
  assumes call: "stack_call sys tsc argv envp p base p1 as es" and room: "stack_bytes as es < ARG_LIMIT"
  shows "\<exists>s m' qs rs e. fill_stack sys tsc argv envp p = Some (Inr (s, p1\<lparr>pmem := m'\<rparr>)) \<and>
    length qs = length as \<and> length rs = length es \<and> 0 \<notin> set qs \<and> 0 \<notin> set rs \<and>
    built (pmem p1) base e (word_of_nat (length as) # qs @ [0] @ rs @ [0, 0]) (zip qs as @ zip rs es) s m'"
proof -
  have fresh: "fresh_stack (pmem p) (pmem p1) base" and arrays: "args_at (pmem p) argv as" "args_at (pmem p) envp es"
    using call by (simp_all add: stack_call_def)
  have sm: "stack_mapped (pmem p1) base" using fresh by (simp add: fresh_stack_def)
  have total: "24 + array_bytes as + string_bytes es + 8 * length es < ARG_LIMIT"
    using room by (simp add: stack_bytes_def array_bytes_def)
  obtain s0 where s0: "create_stack sys tsc zero_builder p = Some (Inr (s0, p1))"
      "built (pmem p1) base STACK_SIZE [] [] s0 (pmem p1)"
    using create_stack_built [OF call] by blast
  obtain m1 where 1: "push_arg 0 s0 p1 = Some (Inr (advanced s0, p1\<lparr>pmem := m1\<rparr>))"
      "built (pmem p1) base STACK_SIZE [0] [] (advanced s0) m1"
    using push_arg_built [OF sm s0(2)] by (auto simp: ARG_LIMIT_def)
  obtain s2 m2 qs where 2: "add_array argv (advanced s0) (p1\<lparr>pmem := m1\<rparr>) = Some (Inr (s2, p1\<lparr>pmem := m2\<rparr>))"
      "length qs = length as" "0 \<notin> set qs"
      "built (pmem p1) base (STACK_SIZE - string_bytes as) (0 # qs @ [0]) (zip qs as) s2 m2"
    using add_array_built [OF fresh arrays(1), of STACK_SIZE "[0]" "[]" "advanced s0" "p1\<lparr>pmem := m1\<rparr>"] 1(2) total by auto
  have "string_bytes as \<le> STACK_SIZE" using total by (simp add: array_bytes_def ARG_LIMIT_def STACK_SIZE_def)
  then obtain e2 where e2: "STACK_SIZE - string_bytes as = e2" "STACK_SIZE = e2 + string_bytes as" by simp
  have room2: "STACK_SIZE + 8 * length (word_of_nat (length as) # qs @ [0]) + array_bytes es < ARG_LIMIT + e2"
    using total 2(2) e2(2) by (simp add: array_bytes_def)
  note 2 = 2 [unfolded e2(1)]
  obtain m3 where 3: "store_long m2 base (word_of_nat (length as)) = Some m3"
      "built (pmem p1) base e2 (word_of_nat (length as) # qs @ [0]) (zip qs as) s2 m3"
    using built_first [OF sm 2(4)] by blast
  obtain s4 m4 rs where 4: "add_array envp s2 (p1\<lparr>pmem := m3\<rparr>) = Some (Inr (s4, p1\<lparr>pmem := m4\<rparr>))"
      "length rs = length es" "0 \<notin> set rs"
      "built (pmem p1) base (e2 - string_bytes es) ((word_of_nat (length as) # qs @ [0]) @ rs @ [0]) (zip qs as @ zip rs es) s4 m4"
    using add_array_built [OF fresh arrays(2), of e2 "word_of_nat (length as) # qs @ [0]" "zip qs as" s2 "p1\<lparr>pmem := m3\<rparr>"]
      3(2) room2 by auto
  have e4: "STACK_SIZE + 8 * length ((word_of_nat (length as) # qs @ [0]) @ rs @ [0]) + 8 < ARG_LIMIT + (e2 - string_bytes es)"
    using total 2(2) 4(2) e2(2) by (simp add: array_bytes_def ARG_LIMIT_def STACK_SIZE_def)
  obtain m5 where 5: "push_arg 0 s4 (p1\<lparr>pmem := m4\<rparr>) = Some (Inr (advanced s4, p1\<lparr>pmem := m5\<rparr>))"
      "built (pmem p1) base (e2 - string_bytes es) (((word_of_nat (length as) # qs @ [0]) @ rs @ [0]) @ [0]) (zip qs as @ zip rs es) (advanced s4) m5"
    using push_arg_built [OF sm, of "e2 - string_bytes es" "(word_of_nat (length as) # qs @ [0]) @ rs @ [0]" "zip qs as @ zip rs es" s4
      "p1\<lparr>pmem := m4\<rparr>" 0] 4(4) e4 by auto
  have argc: "(sb_arg_next s2 - 16 - base) div 8 = word_of_nat (length as)"
    using argc_value [OF 2(4)] builtD(1) [OF 2(4)] 2(2) by simp
  have "fill_stack sys tsc argv envp p = Some (Inr (advanced s4, p1\<lparr>pmem := m5\<rparr>))"
    using 3(1) builtD(1) [OF 2(4)]
    by (simp add: fill_stack_def and_build_Inr [OF s0(1)] and_build_Inr [OF 1(1)] and_build_Inr [OF 2(1)] and_build_Inr [OF 4(1)]
        Let_def argc 5(1))
  then show ?thesis using 5(2) 2(2,3) 4(2,3) by auto
qed

text \<open>When it does not fit, at whatever point.\<close>

lemma too_big_bind: "too_big p base r \<Longrightarrow> too_big p base (and_build r f)"
  by (auto simp: too_big_def and_build_def)

lemma fill_stack_overflow:
  assumes call: "stack_call sys tsc argv envp p base p1 as es"
    and short: "short_strings as" "short_strings es" and full: "ARG_LIMIT \<le> stack_bytes as es"
  shows "too_big p1 base (fill_stack sys tsc argv envp p)"
proof -
  have fresh: "fresh_stack (pmem p) (pmem p1) base" and arrays: "args_at (pmem p) argv as" "args_at (pmem p) envp es"
    using call by (simp_all add: stack_call_def)
  have sm: "stack_mapped (pmem p1) base" using fresh by (simp add: fresh_stack_def)
  obtain s0 where s0: "create_stack sys tsc zero_builder p = Some (Inr (s0, p1))"
      "built (pmem p1) base STACK_SIZE [] [] s0 (pmem p1)"
    using create_stack_built [OF call] by blast
  obtain m1 where 1: "push_arg 0 s0 p1 = Some (Inr (advanced s0, p1\<lparr>pmem := m1\<rparr>))"
      "built (pmem p1) base STACK_SIZE [0] [] (advanced s0) m1"
    using push_arg_built [OF sm s0(2)] by (auto simp: ARG_LIMIT_def)
  have b1: "built (pmem p1) base STACK_SIZE [0] [] (advanced s0) (pmem (p1\<lparr>pmem := m1\<rparr>))" using 1(2) by simp
  have start: "fill_stack sys tsc argv envp p =
      and_build (add_array argv (advanced s0) (p1\<lparr>pmem := m1\<rparr>)) (\<lambda>s p. do {
        let argc = (sb_arg_next s - 16 - sb_base s) div 8;
        m \<leftarrow> store_long (pmem p) (sb_base s) argc;
        and_build (add_array envp s (p\<lparr>pmem := m\<rparr>)) (push_arg 0) })"
    by (simp add: fill_stack_def and_build_Inr [OF s0(1)] and_build_Inr [OF 1(1)])
  show ?thesis
  proof (cases "ARG_LIMIT \<le> 8 + array_bytes as")
    case True
    then have "too_big p1 base (add_array argv (advanced s0) (p1\<lparr>pmem := m1\<rparr>))"
      by (intro too_big_pmem [OF add_array_overflow [OF fresh arrays(1) b1 short(1)]]) simp
    then show ?thesis unfolding start by (rule too_big_bind)
  next
    case fits: False
    obtain s2 m2 qs where 2: "add_array argv (advanced s0) (p1\<lparr>pmem := m1\<rparr>) = Some (Inr (s2, p1\<lparr>pmem := m2\<rparr>))"
        "length qs = length as"
        "built (pmem p1) base (STACK_SIZE - string_bytes as) (0 # qs @ [0]) (zip qs as) s2 m2"
      using add_array_built [OF fresh arrays(1) b1] fits by auto
    have "string_bytes as \<le> STACK_SIZE" using fits by (simp add: array_bytes_def ARG_LIMIT_def STACK_SIZE_def)
    then obtain e2 where e2: "STACK_SIZE - string_bytes as = e2" "STACK_SIZE = e2 + string_bytes as" by simp
    note 2 = 2 [unfolded e2(1)]
    obtain m3 where 3: "store_long m2 base (word_of_nat (length as)) = Some m3"
        "built (pmem p1) base e2 (word_of_nat (length as) # qs @ [0]) (zip qs as) s2 m3"
      using built_first [OF sm 2(3)] by blast
    let ?ws = "word_of_nat (length as) # qs @ [0]"
    have b3: "built (pmem p1) base e2 ?ws (zip qs as) s2 (pmem (p1\<lparr>pmem := m3\<rparr>))" using 3(2) by simp
    have argc: "(sb_arg_next s2 - 16 - base) div 8 = word_of_nat (length as)"
      using argc_value [OF 2(3)] builtD(1) [OF 2(3)] 2(2) by simp
    have middle: "fill_stack sys tsc argv envp p = and_build (add_array envp s2 (p1\<lparr>pmem := m3\<rparr>)) (push_arg 0)"
      unfolding start using 3(1) builtD(1) [OF 2(3)] by (simp add: and_build_Inr [OF 2(1)] Let_def argc)
    show ?thesis
    proof (cases "ARG_LIMIT + e2 \<le> STACK_SIZE + 8 * length ?ws + array_bytes es")
      case True
      then have "too_big p1 base (add_array envp s2 (p1\<lparr>pmem := m3\<rparr>))"
        by (intro too_big_pmem [OF add_array_overflow [OF fresh arrays(2) b3 short(2)]])
      then show ?thesis unfolding middle by (rule too_big_bind)
    next
      case False
      then have "STACK_SIZE + 8 * length ?ws + array_bytes es < ARG_LIMIT + e2" by simp
      from add_array_built [OF fresh arrays(2) b3 this]
      obtain s4 m4 rs where 4: "add_array envp s2 (p1\<lparr>pmem := m3\<rparr>) = Some (Inr (s4, p1\<lparr>pmem := m4\<rparr>))"
          "length rs = length es"
          "built (pmem p1) base (e2 - string_bytes es) (?ws @ rs @ [0]) (zip qs as @ zip rs es) s4 m4"
        by auto
      have b4: "built (pmem p1) base (e2 - string_bytes es) (?ws @ rs @ [0]) (zip qs as @ zip rs es) s4 (pmem (p1\<lparr>pmem := m4\<rparr>))"
        using 4(3) by simp
      have "ARG_LIMIT + (e2 - string_bytes es) \<le> STACK_SIZE + 8 * length (?ws @ rs @ [0]) + 8"
      proof -
        have "string_bytes es \<le> e2" using False e2(2) by (simp add: array_bytes_def ARG_LIMIT_def STACK_SIZE_def)
        then show ?thesis using full 2(2) 4(2) e2(2) by (simp add: stack_bytes_def array_bytes_def)
      qed
      then have "push_arg 0 s4 (p1\<lparr>pmem := m4\<rparr>) = overflow s4 (p1\<lparr>pmem := m4\<rparr>)" by (rule push_arg_overflow [OF b4])
      then show ?thesis unfolding middle and_build_Inr [OF 4(1)]
        using too_big_pmem [OF too_big_overflow [OF b4]] by simp
    qed
  qed
qed

lemma build_stack_arguments:
  assumes "stack_call sys tsc argv envp p base p1 as es" and "stack_bytes as es < ARG_LIMIT"
  shows "\<exists>sp s m'. build_stack sys tsc jb argv envp p = Some (sp, s, p1\<lparr>pmem := m'\<rparr>) \<and>
    unat base < unat sp \<and> unat sp < unat base + STACK_SIZE \<and> unat sp mod 16 = 0 \<and>
    load_long m' sp = Some (word_of_nat (length as)) \<and> args_at m' (sp + 8) as \<and>
    args_at m' (sp + 8 + 8 * (word_of_nat (length as) + 1)) es \<and>
    load_long m' (sp + 8 + 8 * (word_of_nat (length as) + 1) + 8 * (word_of_nat (length es) + 1)) = Some 0 \<and>
    pmem p \<subseteq>\<^sub>m m'"
proof -
  have fresh: "fresh_stack (pmem p) (pmem p1) base" using assms(1) by (simp add: stack_call_def)
  then have sm: "stack_mapped (pmem p1) base" by (simp add: fresh_stack_def)
  obtain s m qs rs e where f: "fill_stack sys tsc argv envp p = Some (Inr (s, p1\<lparr>pmem := m\<rparr>))"
      "length qs = length as" "length rs = length es" "0 \<notin> set qs" "0 \<notin> set rs"
      "built (pmem p1) base e (word_of_nat (length as) # qs @ [0] @ rs @ [0, 0]) (zip qs as @ zip rs es) s m"
    using fill_stack_built [OF assms] by blast
  let ?ws = "word_of_nat (length as) # qs @ [0] @ rs @ [0, 0]"
  define sp where "sp = base + word_of_nat (final_offset e (8 * length ?ws))"
  obtain s' m' where g: "finish_stack s (p1\<lparr>pmem := m\<rparr>) = Some (sp, s', p1\<lparr>pmem := m'\<rparr>)" "words_at m' sp ?ws"
      "\<forall>(q, cs)\<in>set (zip qs as @ zip rs es). string_is m' q cs" "pmem p \<subseteq>\<^sub>m m'"
  proof -
    have b: "built (pmem p1) base e ?ws (zip qs as @ zip rs es) s (pmem (p1\<lparr>pmem := m\<rparr>))" using f(6) by simp
    show thesis using finish_built [OF fresh b] that unfolding sp_def by auto
  qed
  have run: "build_stack sys tsc jb argv envp p = Some (sp, s', p1\<lparr>pmem := m'\<rparr>)"
    using f(1) g(1) by (simp add: build_stack_def)
  have size: "STACK_SIZE + 8 * length ?ws < ARG_LIMIT + e" "e \<le> STACK_SIZE" using builtD(5,6) [OF f(6)] by blast+
  have n: "8 * length ?ws mod 8 = 0" "8 * length ?ws + 16 \<le> e" "8 * length ?ws + 40 < e"
    using size(1) by (simp_all add: STACK_SIZE_def ARG_LIMIT_def)
  note fo = final_offset [OF n(1,2)]
  have "8 * length ?ws + 16 < e div 8 * 8" using n(3) by linarith
  then have pos: "0 < final_offset e (8 * length ?ws)" using fo(3) by simp
  have le: "final_offset e (8 * length ?ws) < STACK_SIZE" using fo(1) size(2) by simp
  have at: "unat sp = unat base + final_offset e (8 * length ?ws)"
    unfolding sp_def using le by (intro unat_stack [OF sm]) simp
  have "unat sp mod 16 = 0"
    using sm fo(2) unfolding at stack_mapped_def by (meson dvd_add mod_0_imp_dvd mod_eq_0_iff_dvd)
  moreover have "list_all2 (\<lambda>q cs. q \<noteq> 0 \<and> string_is m' q cs) qs as"
    using f(2,4) g(3) by (auto simp: list_all2_iff dest: set_zip_leftD)
  moreover have "list_all2 (\<lambda>q cs. q \<noteq> 0 \<and> string_is m' q cs) rs es"
    using f(3,5) g(3) by (auto simp: list_all2_iff dest: set_zip_leftD)
  moreover have "load_long m' sp = Some (word_of_nat (length as))" "words_at m' (sp + 8) (qs @ [0])"
      "words_at m' (sp + 8 + 8 * (word_of_nat (length as) + 1)) (rs @ [0])"
      "load_long m' (sp + 8 + 8 * (word_of_nat (length as) + 1) + 8 * (word_of_nat (length es) + 1)) = Some 0"
    using words_at_append [of m' sp "[word_of_nat (length as)]" "(qs @ [0]) @ (rs @ [0]) @ [0]"]
      words_at_append [of m' "sp + 8" "qs @ [0]" "(rs @ [0]) @ [0]"]
      words_at_append [of m' "sp + 8 + 8 * (word_of_nat (length as) + 1)" "rs @ [0]" "[0]"] g(2) f(2,3)
    by (simp_all add: words_at_def [of _ _ "[x]" for x] algebra_simps)
  ultimately show ?thesis using run at pos le g(4) args_at_pointers by auto
qed

text \<open>A program that is executed gets its arguments: when everything fits in \<open>ARG_MAX\<close>, \<open>build_stack\<close>
  returns a stack pointer that is a multiple of 16 and inside the new stack, with the argument count, the
  null-terminated arrays of pointers to copies of all the strings of \<open>argv\<close> and \<open>envp\<close> in their order, and
  the null auxiliary vector at the places where the startup code of the new program looks for them; nothing
  that was in memory before changes.\<close>

theorem build_stack_passes_arguments:
  assumes "stack_call sys tsc argv envp p base p1 as es" and "stack_bytes as es < ARG_LIMIT"
  shows "\<exists>sp s m'. build_stack sys tsc jb argv envp p = Some (sp, s, p1\<lparr>pmem := m'\<rparr>) \<and>
    unat base < unat sp \<and> unat sp < unat base + STACK_SIZE \<and> unat sp mod 16 = 0 \<and>
    load_long m' sp = Some (word_of_nat (length as)) \<and> args_at m' (sp + 8) as \<and>
    args_at m' (sp + 8 + 8 * (word_of_nat (length as) + 1)) es \<and>
    load_long m' (sp + 8 + 8 * (word_of_nat (length as) + 1) + 8 * (word_of_nat (length es) + 1)) = Some 0 \<and>
    pmem p \<subseteq>\<^sub>m m'"
  using build_stack_arguments [OF assms] .

text \<open>C28. A call with too many or too long arguments does not fail, it crashes. At whichever string or pointer the space runs out,
  \<open>errno\<close> is set to \<open>E2BIG\<close> and \<open>_longjmp\<close> is called on the builder's jump buffer; but \<open>build_stack\<close> has cleared the whole
  builder with \<open>memset\<close> after \<open>_setjmp\<close> had filled the buffer, so the buffer holds zeros, control never comes back to the
  handler that would return null and unmap the new stack, and \<open>build_stack\<close> does not return. (\<open>jb\<close>, what \<open>_setjmp\<close>
  saved, is not all zeros: it has a return address and a stack pointer.)\<close>

theorem build_stack_too_big:
  assumes "stack_call sys tsc argv envp p base p1 as es" "short_strings as" "short_strings es"
    and "ARG_LIMIT \<le> stack_bytes as es" and "jb \<noteq> replicate 8 0"
  shows "\<exists>s m'. fill_stack sys tsc argv envp p =
      Some (Inl (s, p1\<lparr>pmem := m', perrno := word_of_nat (errno_code E2BIG)\<rparr>)) \<and>
    sb_base s = base \<and> sb_on_error s = replicate 8 0 \<and> build_stack sys tsc jb argv envp p = None"
  using fill_stack_overflow [OF assms(1-4)] assms(5) by (auto simp: too_big_def build_stack_def longjmp_def)

text \<open>The same happens when the system has no memory for the new stack.\<close>

theorem build_stack_no_memory:
  assumes "syscallv sys SYS_virtual_map [0x7e0000000000 OR (0xfffffff000 AND push_bit 12 tsc), word_of_nat STACK_SIZE, 3, 0] p
      = (neg_errno e, p1)" and "jb \<noteq> replicate 8 0"
  shows "build_stack sys tsc jb argv envp p = None"
  using assms by (simp add: build_stack_def fill_stack_def create_stack_def mmap_def fluke_virtual_map_def neg_errno_negative
    and_build_def longjmp_def zero_builder_def)

text \<open>A file that is not an executable makes \<open>fexecve\<close> return \<open>-1\<close> without setting \<open>errno\<close>, which should
  be \<open>ENOEXEC\<close>, as it is for a file that is too short.\<close>

theorem fexecve_bad_file_keeps_errno:
  assumes "lseek sys fd 0 SEEK_SET p = (0, p1)"
    and "read_into sys fd header (word_of_nat EHDR_SIZE) p1 = Some (True, p2)"
    and "load_bytes (pmem p2) header EHDR_SIZE = Some bs" "\<not> check_elf_valid (ehdr_of bs)"
  shows "fexecve sys tsc jb header name fd argv envp p = Some (Exec_returns (- 1), p2)"
  using assms by (simp add: fexecve_def)

text \<open>A buffer as \<open>_setjmp\<close> may fill it.\<close>

definition saved_jump :: "u64 list" where
  "saved_jump = [0x401000, 0, 0, 0, 0, 0, 0x7fff0000, 0x7ffeff00]"

lemma saved_jump_nonzero: "saved_jump \<noteq> replicate 8 0"
proof
  assume "saved_jump = replicate 8 0"
  then have "hd saved_jump = hd (replicate 8 0)" by simp
  then show False by (simp add: saved_jump_def)
qed

text \<open>A small call: \<open>argv\<close> with one string, an empty \<open>envp\<close>, and a stack at 0x100000.\<close>

definition arg_memory :: cmem where
  "arg_memory a = (if 4096 \<le> a \<and> a < 4144
     then Some (if a = 4096 \<or> a = 4097 then 0x10 else if a = 4112 then 97 else 0) else None)"

definition with_stack :: "cmem \<Rightarrow> cmem" where
  "with_stack m a = (if 0x100000 \<le> a \<and> a < 0x114000 then Some 0 else m a)"

definition small_sys :: "unit syscalls" where
  "small_sys op args p =
     (if op = SYS_virtual_map then ((0x100000, 0), p\<lparr>pmem := with_stack (pmem p)\<rparr>) else ((0, 0), p))"

definition small_proc :: "unit proc" where
  "small_proc = \<lparr>pmem = arg_memory, perrno = 0, pkern = ()\<rparr>"

lemma arg_mapped: "arg_memory a \<noteq> None \<longleftrightarrow> 4096 \<le> unat a \<and> unat a < 4144"
  by (simp add: arg_memory_def word_le_nat_alt word_less_nat_alt)

lemma in_small_region: "in_region 0x100000 a \<longleftrightarrow> 0x100000 \<le> a \<and> a < 0x114000"
proof
  assume "in_region 0x100000 a"
  then obtain j where j: "j < 81920" "a = 0x100000 + word_of_nat j" by (auto simp: in_region_def STACK_SIZE_def)
  have "unat a = 0x100000 + j" unfolding j(2) using j(1) by (simp add: unat_word_ariths unat_of_nat)
  then show "0x100000 \<le> a \<and> a < 0x114000" using j(1) by (simp add: word_le_nat_alt word_less_nat_alt)
next
  assume "0x100000 \<le> a \<and> a < 0x114000"
  then have a: "0x100000 \<le> unat a" "unat a < 0x114000" by (simp_all add: word_le_nat_alt word_less_nat_alt)
  then have "a = 0x100000 + word_of_nat (unat a - 0x100000)" by (simp add: of_nat_diff)
  then show "in_region 0x100000 a" using a by (auto simp: in_region_def STACK_SIZE_def intro!: exI [of _ "unat a - 0x100000"])
qed

lemma with_stack_fresh:
  assumes "block_mapped m" "\<And>a. m a \<noteq> None \<Longrightarrow> unat a < 0x100000"
  shows "fresh_stack m (with_stack m) 0x100000"
proof -
  have out: "m a = None" if "in_region 0x100000 a" for a
    using that assms(2) [of a] by (force simp: in_small_region word_le_nat_alt)
  have "block_mapped (\<lambda>a. if 0x100000 \<le> a \<and> a < 0x114000 then Some 0 else (None :: u8 option))"
  proof (rule block_mapped_blocks)
    fix a :: u64
    show "(if 0x100000 \<le> a \<and> a < 0x114000 then Some 0 else (None :: u8 option)) \<noteq> None \<longleftrightarrow>
        0x10000 \<le> unat a div 16 \<and> unat a div 16 < 0x11400"
      by (auto simp: word_le_nat_alt word_less_nat_alt)
  qed
  then have "block_mapped (with_stack m)"
    using assms(1) unfolding block_mapped_def with_stack_def by (metis option.distinct(1))
  moreover have "mapped (with_stack m) 0x100000 STACK_SIZE"
    unfolding mapped_def
  proof (intro allI impI)
    fix i assume "i < STACK_SIZE"
    then have "in_region 0x100000 (0x100000 + word_of_nat i)" by (auto simp: in_region_def)
    then show "with_stack m (0x100000 + word_of_nat i) \<noteq> None" by (simp add: in_small_region with_stack_def)
  qed
  moreover have "m \<subseteq>\<^sub>m with_stack m" using out by (auto simp: map_le_def with_stack_def in_small_region)
  ultimately show ?thesis using out by (simp add: fresh_stack_def stack_mapped_def STACK_SIZE_def)
qed

lemma small_fresh: "fresh_stack arg_memory (with_stack arg_memory) 0x100000"
proof (rule with_stack_fresh)
  show "block_mapped arg_memory"
  proof (rule block_mapped_blocks)
    fix a
    show "arg_memory a \<noteq> None \<longleftrightarrow> 256 \<le> unat a div 16 \<and> unat a div 16 < 259"
      unfolding arg_mapped by auto
  qed
  show "unat a < 0x100000" if "arg_memory a \<noteq> None" for a using that unfolding arg_mapped by simp
qed

lemma less_8: "(\<forall>i<8. P i) \<longleftrightarrow> P 0 \<and> P 1 \<and> P 2 \<and> P 3 \<and> P 4 \<and> P 5 \<and> P 6 \<and> P (7 :: nat)"
  by (simp add: numeral_eq_Suc all_less_Suc)

lemma bytes_of_8: "bytes_of 8 v = [ucast v, ucast (drop_bit 8 v), ucast (drop_bit 16 v), ucast (drop_bit 24 v),
    ucast (drop_bit 32 v), ucast (drop_bit 40 v), ucast (drop_bit 48 v), ucast (drop_bit 56 v)]"
  by (simp add: numeral_eq_Suc)

lemma small_args: "args_at arg_memory 4096 [[97]]" "args_at arg_memory 4120 []"
proof -
  have "load_long arg_memory 4096 = Some 4112" "load_long arg_memory 4104 = Some 0" "load_long arg_memory 4120 = Some 0"
    by (rule load_long_bytes; simp add: less_8 bytes_of_8 arg_memory_def)+
  then show "args_at arg_memory 4096 [[97]]" "args_at arg_memory 4120 []"
    by (simp_all add: string_is_def arg_memory_def)
qed

lemma small_call:
  "stack_call small_sys 0 4096 4120 small_proc 0x100000 (small_proc\<lparr>pmem := with_stack arg_memory\<rparr>) [[97]] []"
  using small_fresh small_args by (simp add: stack_call_def syscallv_def small_sys_def small_proc_def word_sle_eq)

theorem build_stack_passes_arguments_witness:
  "\<exists>sp s m'. build_stack small_sys 0 saved_jump 4096 4120 small_proc = Some (sp, s, small_proc\<lparr>pmem := m'\<rparr>) \<and>
    load_long m' sp = Some 1 \<and> args_at m' (sp + 8) [[97]]"
proof -
  have "stack_bytes [[97]] [] < ARG_LIMIT" by (simp add: stack_bytes_def array_bytes_def string_bytes_def ARG_LIMIT_def)
  from build_stack_passes_arguments [OF small_call this, of saved_jump] show ?thesis by auto
qed

text \<open>And a call with an argument of 40000 characters.\<close>

definition big_memory :: cmem where
  "big_memory a = (if 4096 \<le> a \<and> a < 49152
     then Some (if a = 4097 then 0x20 else if 8192 \<le> a \<and> a < 48192 then 97 else 0) else None)"

definition big_proc :: "unit proc" where
  "big_proc = \<lparr>pmem = big_memory, perrno = 0, pkern = ()\<rparr>"

lemma big_fresh: "fresh_stack big_memory (with_stack big_memory) 0x100000"
proof (rule with_stack_fresh)
  have m: "big_memory a \<noteq> None \<longleftrightarrow> 4096 \<le> unat a \<and> unat a < 49152" for a
    by (simp add: big_memory_def word_le_nat_alt word_less_nat_alt)
  show "block_mapped big_memory"
  proof (rule block_mapped_blocks)
    fix a
    show "big_memory a \<noteq> None \<longleftrightarrow> 256 \<le> unat a div 16 \<and> unat a div 16 < 3072"
      unfolding m by auto
  qed
  show "unat a < 0x100000" if "big_memory a \<noteq> None" for a using that unfolding m by simp
qed

lemma big_args: "args_at big_memory 4096 [replicate 40000 97]" "args_at big_memory 4120 []"
proof -
  have "load_long big_memory 4096 = Some 8192" "load_long big_memory 4104 = Some 0" "load_long big_memory 4120 = Some 0"
    by (rule load_long_bytes; simp add: less_8 bytes_of_8 big_memory_def)+
  moreover have "string_is big_memory 8192 (replicate 40000 97)"
    unfolding string_is_def
  proof (intro conjI allI impI)
    fix i assume "i < length (replicate 40000 (97 :: u8))"
    then have i: "i < 40000" by simp
    then have "unat (8192 + word_of_nat i :: u64) = 8192 + i" by (simp add: unat_word_ariths unat_of_nat)
    moreover have "big_memory x = Some 97" if "unat x = 8192 + i" for x
      using that i by (auto simp: big_memory_def word_le_nat_alt word_less_nat_alt)
    ultimately show "big_memory (8192 + word_of_nat i) = Some (replicate 40000 97 ! i)" using i by simp
  qed (simp_all add: big_memory_def)
  ultimately show "args_at big_memory 4096 [replicate 40000 97]" "args_at big_memory 4120 []" by auto
qed

lemma big_call:
  "stack_call small_sys 0 4096 4120 big_proc 0x100000 (big_proc\<lparr>pmem := with_stack big_memory\<rparr>) [replicate 40000 97] []"
  using big_fresh big_args by (simp add: stack_call_def syscallv_def small_sys_def big_proc_def word_sle_eq)

theorem build_stack_too_big_witness:
  "\<exists>s m'. fill_stack small_sys 0 4096 4120 big_proc =
      Some (Inl (s, big_proc\<lparr>pmem := m', perrno := word_of_nat (errno_code E2BIG)\<rparr>)) \<and>
    sb_base s = 0x100000 \<and> sb_on_error s = replicate 8 0 \<and>
    build_stack small_sys 0 saved_jump 4096 4120 big_proc = None"
  using build_stack_too_big [OF big_call, of saved_jump] saved_jump_nonzero
  by (simp add: short_strings_def stack_bytes_def array_bytes_def string_bytes_def ARG_LIMIT_def)

end
