(* ===== verification/Stdio.thy ===== *)
theory Stdio
  imports Libc_Calls
begin

text \<open>
  Streams of the C library: \<open>system/libc/src/stdio\<close> (formatted output is in its own theory).

  A \<open>FILE*\<close> points into the table \<open>streams\<close>: it is an index, \<open>None\<close> the null pointer. The function
  pointers of a stream are those the code stores there; calling a null one is a crash, \<open>None\<close>. A local
  variable whose address is passed to a system call is at the address \<open>tmp\<close>.
\<close>

datatype io_function = Fn_badf | Fn_read | Fn_write | Fn_close

record FILE =
  f_fd :: u64
  f_error :: bool
  f_eof :: bool
  f_writefn :: "io_function option"
  f_readfn :: "io_function option"
  f_closefn :: "io_function option"

definition zero_file :: FILE where
  "zero_file = \<lparr>f_fd = 0, f_error = False, f_eof = False, f_writefn = None, f_readfn = None, f_closefn = None\<rparr>"

record 'k libc =
  l_proc :: "'k proc"
  l_streams :: "FILE list"
  l_stdin :: "nat option"
  l_stdout :: "nat option"
  l_stderr :: "nat option"

definition set_file :: "nat \<Rightarrow> (FILE \<Rightarrow> FILE) \<Rightarrow> 'k libc \<Rightarrow> 'k libc" where
  "set_file i g l = l\<lparr>l_streams := (l_streams l)[i := g (l_streams l ! i)]\<rparr>"

definition set_errno :: "errno \<Rightarrow> 'k libc \<Rightarrow> 'k libc" where
  "set_errno e l = l\<lparr>l_proc := (l_proc l)\<lparr>perrno := word_of_nat (errno_code e)\<rparr>\<rparr>"

definition EOF :: u32 where "EOF = - 1"
definition INT_MAX32 :: u32 where "INT_MAX32 = 0x7fffffff"

section \<open>Opening and closing\<close>

text \<open>\<open>plus\<close> is not initialised: its first value is the parameter. \<open>Inl\<close> is the label \<open>fail\<close>.\<close>

partial_function (option) parse_mode_loop ::
    "cmem \<Rightarrow> u64 \<Rightarrow> u32 \<Rightarrow> bool \<Rightarrow> (unit + u32 \<times> bool) option"
where
  "parse_mode_loop m p flags is_plus = do {
     c \<leftarrow> m p;
     if c = 0x2b then (if is_plus then Some (Inl ()) else parse_mode_loop m (p + 1) flags True)
     else if c = 0x78 then
       (if flags AND O_EXCL \<noteq> 0 then Some (Inl ()) else parse_mode_loop m (p + 1) (flags OR O_EXCL) is_plus)
     else if c = 0x65 then
       (if flags AND O_CLOEXEC \<noteq> 0 then Some (Inl ()) else parse_mode_loop m (p + 1) (flags OR O_CLOEXEC) is_plus)
     else if c = 0x62 then parse_mode_loop m (p + 1) flags is_plus
     else if c = 0 then Some (Inr (flags, is_plus))
     else Some (Inl ())
   }"

definition parse_mode_string :: "bool \<Rightarrow> u64 \<Rightarrow> 'k libc \<Rightarrow> (u32 \<times> 'k libc) option" where
  "parse_mode_string is_plus mode l = do {
     first \<leftarrow> pmem (l_proc l) mode;
     r \<leftarrow> parse_mode_loop (pmem (l_proc l)) (mode + 1) 0 is_plus;
     Some (case r of
         Inl _ \<Rightarrow> (0, set_errno EINVAL l)
       | Inr (flags, is_plus) \<Rightarrow>
           if first = 0x72 then (flags OR (if is_plus then O_RDWR else O_RDONLY), l)
           else if first = 0x77 then (flags OR (if is_plus then O_RDWR else O_WRONLY) OR O_CREAT OR O_TRUNC, l)
           else if first = 0x61 then (flags OR (if is_plus then O_RDWR else O_WRONLY) OR O_CREAT OR O_APPEND, l)
           else (0, set_errno EINVAL l))
   }"

definition is_open :: "FILE \<Rightarrow> bool" where
  "is_open f \<longleftrightarrow> f_closefn f \<noteq> None"

fun first_closed :: "nat \<Rightarrow> FILE list \<Rightarrow> nat option" where
  "first_closed i [] = None"
| "first_closed i (f # fs) = (if is_open f then first_closed (Suc i) fs else Some i)"

definition libc_alloc_stream :: "'k libc \<Rightarrow> nat option \<times> 'k libc" where
  "libc_alloc_stream l =
     (case first_closed 0 (l_streams l) of Some i \<Rightarrow> (Some i, l) | None \<Rightarrow> (None, set_errno EMFILE l))"

definition libc_fdopen :: "u32 \<Rightarrow> u32 \<Rightarrow> 'k libc \<Rightarrow> nat option \<times> 'k libc" where
  "libc_fdopen fd oflags l =
     (let (f, l) = libc_alloc_stream l in
      case f of
        None \<Rightarrow> (None, l)
      | Some i \<Rightarrow> (Some i, set_file i (\<lambda>_. \<lparr>f_fd = scast fd, f_error = False, f_eof = False,
            f_writefn = Some (if oflags AND (O_WRONLY OR O_RDWR) \<noteq> 0 then Fn_write else Fn_badf),
            f_readfn = Some (if oflags AND (O_RDONLY OR O_RDWR) \<noteq> 0 then Fn_read else Fn_badf),
            f_closefn = Some Fn_close\<rparr>) l))"

definition fdopen :: "bool \<Rightarrow> u32 \<Rightarrow> u64 \<Rightarrow> 'k libc \<Rightarrow> (nat option \<times> 'k libc) option" where
  "fdopen is_plus fd mode l =
     (if fd = - 1 then Some (None, set_errno EBADF l)
      else do {
        (oflags, l) \<leftarrow> parse_mode_string is_plus mode l;
        Some (if oflags \<noteq> 0 then libc_fdopen fd oflags l else (None, l))
      })"

definition on_proc :: "('k proc \<Rightarrow> 'a \<times> 'k proc) \<Rightarrow> 'k libc \<Rightarrow> 'a \<times> 'k libc" where
  "on_proc f l = (case f (l_proc l) of (r, p) \<Rightarrow> (r, l\<lparr>l_proc := p\<rparr>))"

definition fopen ::
    "'k syscalls \<Rightarrow> u32 \<Rightarrow> bool \<Rightarrow> u64 \<Rightarrow> u64 \<Rightarrow> 'k libc \<Rightarrow> (nat option \<times> 'k libc) option"
where
  "fopen sys working_dirfd is_plus path mode l = do {
     (oflags, l) \<leftarrow> parse_mode_string is_plus mode l;
     if oflags = 0 then Some (None, l)
     else do {
       (fd, p) \<leftarrow> openat sys working_dirfd path oflags 0x1b6 (l_proc l);
       let l = l\<lparr>l_proc := p\<rparr>;
       if fd = - 1 then Some (None, l) else Some (libc_fdopen fd oflags l)
     }
   }"

definition libc_init_stdio :: "'k libc \<Rightarrow> 'k libc" where
  "libc_init_stdio l =
     (let (i, l) = libc_fdopen 0 O_RDONLY l; l = l\<lparr>l_stdin := i\<rparr>;
          (i, l) = libc_fdopen 1 O_WRONLY l; l = l\<lparr>l_stdout := i\<rparr>;
          (i, l) = libc_fdopen 2 O_WRONLY l
      in l\<lparr>l_stderr := i\<rparr>)"

definition fclose :: "'k syscalls \<Rightarrow> nat \<Rightarrow> 'k libc \<Rightarrow> (u32 \<times> 'k libc) option" where
  "fclose sys f l =
     (case f_closefn (l_streams l ! f) of
        None \<Rightarrow> None
      | Some _ \<Rightarrow>
          (case on_proc (close sys (ucast (f_fd (l_streams l ! f)))) l of (r, l) \<Rightarrow>
             Some (if 0 \<le>s r then 0 else - 1, set_file f (\<lambda>_. zero_file) l)))"

definition fseeko :: "'k syscalls \<Rightarrow> nat \<Rightarrow> u64 \<Rightarrow> u32 \<Rightarrow> 'k libc \<Rightarrow> u32 \<times> 'k libc" where
  "fseeko sys f offset whence l =
     (case on_proc (lseek sys (ucast (f_fd (l_streams l ! f))) offset whence) l of (r, l) \<Rightarrow>
        (if 0 \<le>s r then 0 else - 1, l))"

section \<open>Reading and writing\<close>

text \<open>A call through \<open>readfn\<close> or \<open>writefn\<close>: the result is cut to an \<open>int\<close>.\<close>

definition call_io ::
    "'k syscalls \<Rightarrow> io_function \<Rightarrow> u64 \<Rightarrow> u64 \<Rightarrow> u64 \<Rightarrow> 'k libc \<Rightarrow> u32 \<times> 'k libc"
where
  "call_io sys fn fd data n l =
     (case fn of
        Fn_badf \<Rightarrow> (- 1, set_errno EBADF l)
      | Fn_read \<Rightarrow> (case on_proc (read_fd sys (ucast fd) data n) l of (r, l) \<Rightarrow> (ucast r, l))
      | Fn_write \<Rightarrow> (case on_proc (write_fd sys (ucast fd) data n) l of (r, l) \<Rightarrow> (ucast r, l))
      | Fn_close \<Rightarrow> on_proc (close sys (ucast fd)) l)"

definition chunk :: "u64 \<Rightarrow> u64" where
  "chunk remaining = (if INT_MAX_size < remaining then INT_MAX_size else remaining)"

partial_function (option) libc_read_loop ::
    "'k syscalls \<Rightarrow> nat \<Rightarrow> io_function \<Rightarrow> u64 \<Rightarrow> u64 \<Rightarrow> u64 \<Rightarrow> u64 \<Rightarrow> 'k libc \<Rightarrow> (u64 \<times> 'k libc) option"
where
  "libc_read_loop sys f readfn ctx data sz remaining l =
     (if 0 < remaining
      then (case call_io sys readfn ctx data (chunk remaining) l of (n, l) \<Rightarrow>
        if n <s 0 then Some (sz - remaining, set_file f (\<lambda>f. f\<lparr>f_error := True\<rparr>) l)
        else if n = 0 then Some (sz - remaining, set_file f (\<lambda>f. f\<lparr>f_eof := True\<rparr>) l)
        else libc_read_loop sys f readfn ctx (data + ucast n) sz (remaining - ucast n) l)
      else Some (sz, l))"

definition libc_read :: "'k syscalls \<Rightarrow> nat \<Rightarrow> u64 \<Rightarrow> u64 \<Rightarrow> 'k libc \<Rightarrow> (u64 \<times> 'k libc) option" where
  "libc_read sys f data sz l =
     (if f_eof (l_streams l ! f) then Some (0, l)
      else if 0 < sz then do {
        readfn \<leftarrow> f_readfn (l_streams l ! f);
        libc_read_loop sys f readfn (f_fd (l_streams l ! f)) data sz sz l
      } else Some (sz, l))"

partial_function (option) file_write_loop ::
    "'k syscalls \<Rightarrow> nat \<Rightarrow> io_function \<Rightarrow> u64 \<Rightarrow> u64 \<Rightarrow> u64 \<Rightarrow> u64 \<Rightarrow> 'k libc \<Rightarrow> (u64 \<times> 'k libc) option"
where
  "file_write_loop sys f writefn ctx data sz remaining l =
     (if 0 < remaining
      then (case call_io sys writefn ctx data (chunk remaining) l of (n, l) \<Rightarrow>
        if n <s 0 \<or> n = 0 then Some (sz - remaining, set_file f (\<lambda>f. f\<lparr>f_error := True\<rparr>) l)
        else file_write_loop sys f writefn ctx (data + ucast n) sz (remaining - ucast n) l)
      else Some (sz, l))"

definition file_write :: "'k syscalls \<Rightarrow> nat \<Rightarrow> u64 \<Rightarrow> u64 \<Rightarrow> 'k libc \<Rightarrow> (u64 \<times> 'k libc) option" where
  "file_write sys f data sz l =
     (if 0 < sz then do {
        writefn \<leftarrow> f_writefn (l_streams l ! f);
        file_write_loop sys f writefn (f_fd (l_streams l ! f)) data sz sz l
      } else Some (sz, l))"

text \<open>\<open>__builtin_umull_overflow\<close>.\<close>

definition umull :: "u64 \<Rightarrow> u64 \<Rightarrow> u64 option" where
  "umull a b = (if unat a * unat b < 2 ^ 64 then Some (a * b) else None)"

definition fread :: "'k syscalls \<Rightarrow> u64 \<Rightarrow> u64 \<Rightarrow> u64 \<Rightarrow> nat \<Rightarrow> 'k libc \<Rightarrow> (u64 \<times> 'k libc) option" where
  "fread sys buf item_size nitems f l =
     (case umull item_size nitems of
        None \<Rightarrow> Some (0, set_errno EOVERFLOW l)
      | Some sz \<Rightarrow>
          if sz = 0 then Some (0, l)
          else do { (n, l) \<leftarrow> libc_read sys f buf sz l; Some (n div item_size, l) })"

definition fwrite :: "'k syscalls \<Rightarrow> u64 \<Rightarrow> u64 \<Rightarrow> u64 \<Rightarrow> nat \<Rightarrow> 'k libc \<Rightarrow> (u64 \<times> 'k libc) option" where
  "fwrite sys buf item_size nitems f l =
     (case umull item_size nitems of
        None \<Rightarrow> Some (0, set_errno EOVERFLOW l)
      | Some sz \<Rightarrow>
          if sz = 0 then Some (0, l)
          else do { (n, l) \<leftarrow> file_write sys f buf sz l; Some (n div item_size, l) })"

definition fgetc :: "'k syscalls \<Rightarrow> u64 \<Rightarrow> nat \<Rightarrow> 'k libc \<Rightarrow> (u32 \<times> 'k libc) option" where
  "fgetc sys tmp f l = do {
     (n, l) \<leftarrow> libc_read sys f tmp 1 l;
     if n \<noteq> 0 then do { c \<leftarrow> pmem (l_proc l) tmp; Some (ucast c, l) } else Some (EOF, l)
   }"

definition getchar :: "'k syscalls \<Rightarrow> u64 \<Rightarrow> 'k libc \<Rightarrow> (u32 \<times> 'k libc) option" where
  "getchar sys tmp l = do { f \<leftarrow> l_stdin l; fgetc sys tmp f l }"

definition store_byte :: "u64 \<Rightarrow> u8 \<Rightarrow> 'k libc \<Rightarrow> 'k libc option" where
  "store_byte a v l = do { m \<leftarrow> store (pmem (l_proc l)) a v; Some (l\<lparr>l_proc := (l_proc l)\<lparr>pmem := m\<rparr>\<rparr>) }"

definition fputc :: "'k syscalls \<Rightarrow> u64 \<Rightarrow> u32 \<Rightarrow> nat \<Rightarrow> 'k libc \<Rightarrow> (u32 \<times> 'k libc) option" where
  "fputc sys tmp ch f l = do {
     let c = ucast ch;
     l \<leftarrow> store_byte tmp c l;
     (n, l) \<leftarrow> file_write sys f tmp 1 l;
     Some (if n \<noteq> 0 then ucast c else EOF, l)
   }"

definition putchar :: "'k syscalls \<Rightarrow> u64 \<Rightarrow> u32 \<Rightarrow> 'k libc \<Rightarrow> (u32 \<times> 'k libc) option" where
  "putchar sys tmp ch l = do { f \<leftarrow> l_stdout l; fputc sys tmp ch f l }"

definition fputs :: "'k syscalls \<Rightarrow> u64 \<Rightarrow> nat \<Rightarrow> 'k libc \<Rightarrow> (u32 \<times> 'k libc) option" where
  "fputs sys str f l = do {
     len \<leftarrow> strlen (pmem (l_proc l)) str;
     (n, l) \<leftarrow> file_write sys f str len l;
     Some (if n = len then 1 else EOF, l)
   }"

definition puts :: "'k syscalls \<Rightarrow> u64 \<Rightarrow> u64 \<Rightarrow> 'k libc \<Rightarrow> (u32 \<times> 'k libc) option" where
  "puts sys tmp str l = do {
     f \<leftarrow> l_stdout l;
     (r, l) \<leftarrow> fputs sys str f l;
     if 0 <s r then putchar sys tmp 10 l else Some (EOF, l)
   }"

section \<open>Lines\<close>

text \<open>\<open>realloc\<close> is the library's copy of dlmalloc: a parameter.\<close>

partial_function (option) getdelim_loop ::
    "'k syscalls \<Rightarrow> (u64 \<Rightarrow> u64 \<Rightarrow> 'k libc \<Rightarrow> u64 \<times> 'k libc) \<Rightarrow> u64 \<Rightarrow> u64 \<Rightarrow> u64 \<Rightarrow> u8 \<Rightarrow> nat \<Rightarrow>
     u64 \<Rightarrow> u64 \<Rightarrow> u64 \<Rightarrow> 'k libc \<Rightarrow> (u64 \<times> 'k libc) option"
where
  "getdelim_loop sys realloc tmp lineptr nptr delim f line len cap l = do {
     (line, cap, l) \<leftarrow>
       (if cap \<le> len + 1
        then (let cap = (if cap < 16 then 16 else cap * 3 div 2); (line, l) = realloc line cap l in
              if line = 0 then Some (line, cap, l)
              else do {
                m \<leftarrow> store_long (pmem (l_proc l)) lineptr line;
                m \<leftarrow> store_long m nptr cap;
                Some (line, cap, l\<lparr>l_proc := (l_proc l)\<lparr>pmem := m\<rparr>\<rparr>)
              })
        else Some (line, cap, l));
     if line = 0 then Some (- 1, l)
     else do {
       (ch, l) \<leftarrow> fgetc sys tmp f l;
       if ch = EOF \<and> f_error (l_streams l ! f) then Some (- 1, l)
       else if ch = EOF then do {
         kassert (len < cap);
         l \<leftarrow> store_byte (line + len) 0 l;
         Some (if 0 < len then len else - 1, l)
       }
       else do {
         l \<leftarrow> store_byte (line + len) (ucast ch) l;
         let len = len + 1;
         if ucast ch = delim then do {
           kassert (len < cap);
           l \<leftarrow> store_byte (line + len) 0 l;
           Some (if 0 < len then len else - 1, l)
         } else getdelim_loop sys realloc tmp lineptr nptr delim f line len cap l
       }
     }
   }"

definition getdelim ::
    "'k syscalls \<Rightarrow> (u64 \<Rightarrow> u64 \<Rightarrow> 'k libc \<Rightarrow> u64 \<times> 'k libc) \<Rightarrow> u64 \<Rightarrow> u64 \<Rightarrow> u64 \<Rightarrow> u32 \<Rightarrow> nat \<Rightarrow>
     'k libc \<Rightarrow> (u64 \<times> 'k libc) option"
where
  "getdelim sys realloc tmp lineptr nptr delim f l =
     (if lineptr = 0 \<or> nptr = 0 then Some (- 1, set_errno EINVAL l)
      else do {
        line \<leftarrow> load_long (pmem (l_proc l)) lineptr;
        cap \<leftarrow> (if line \<noteq> 0 then load_long (pmem (l_proc l)) nptr else Some 0);
        getdelim_loop sys realloc tmp lineptr nptr (ucast delim) f line 0 cap l
      })"

definition getline ::
    "'k syscalls \<Rightarrow> (u64 \<Rightarrow> u64 \<Rightarrow> 'k libc \<Rightarrow> u64 \<times> 'k libc) \<Rightarrow> u64 \<Rightarrow> u64 \<Rightarrow> u64 \<Rightarrow> nat \<Rightarrow>
     'k libc \<Rightarrow> (u64 \<times> 'k libc) option"
where
  "getline sys realloc tmp lineptr nptr f l = getdelim sys realloc tmp lineptr nptr 10 f l"

section \<open>Reading through short reads\<close>

text \<open>What the kernel does for a file whose remaining contents are \<open>src\<close>: a read returns some of the next bytes, at
  least one unless there are none, and changes nothing else.\<close>

definition read_some :: "('k \<Rightarrow> u8 list) \<Rightarrow> u64 \<Rightarrow> nat \<Rightarrow> 'k proc \<Rightarrow> 'k proc \<Rightarrow> bool" where
  "read_some src buf k p p' \<longleftrightarrow>
     k \<le> length (src (pkern p)) \<and> src (pkern p') = drop k (src (pkern p)) \<and> perrno p' = perrno p \<and>
     (\<forall>i<k. pmem p' (buf + word_of_nat i) = Some (src (pkern p) ! i)) \<and>
     (\<forall>a. (\<forall>i<k. a \<noteq> buf + word_of_nat i) \<longrightarrow> pmem p' a = pmem p a)"

definition reads_from :: "'k syscalls \<Rightarrow> u64 \<Rightarrow> ('k \<Rightarrow> u8 list) \<Rightarrow> bool" where
  "reads_from sys fd src \<longleftrightarrow> (\<forall>buf n p. 0 < n \<longrightarrow> n \<le> INT_MAX_size \<longrightarrow> mapped (pmem p) buf (unat n) \<longrightarrow>
     (\<exists>k p'. syscallv sys SYS_read [fd, buf, n] p = (word_of_nat k, p') \<and> k \<le> unat n \<and>
        (k = 0 \<longleftrightarrow> src (pkern p) = []) \<and> read_some src buf k p p'))"

lemma read_some_trans:
  assumes "read_some src buf k p p'" "read_some src (buf + word_of_nat k) j p' p''" "k + j \<le> 2 ^ 64"
  shows "read_some src buf (k + j) p p''"
proof -
  have later: "pmem p'' (buf + word_of_nat i) = pmem p' (buf + word_of_nat i)" if "i < k" for i
  proof -
    have "buf + word_of_nat i \<noteq> buf + word_of_nat k + word_of_nat l" if "l < j" for l
      using offset_inj [of i "k + l" buf] that \<open>i < k\<close> assms(3) by (auto simp: add.assoc)
    then show ?thesis using assms(2) unfolding read_some_def by blast
  qed
  have "pmem p'' (buf + word_of_nat i) = Some (src (pkern p) ! i)" if i: "i < k + j" for i
  proof (cases "i < k")
    case True then show ?thesis using later [OF True] assms(1) by (simp add: read_some_def)
  next
    case False
    then have "i - k < j" using i by simp
    then have "pmem p'' (buf + word_of_nat k + word_of_nat (i - k)) = Some (src (pkern p') ! (i - k))"
      using assms(2) unfolding read_some_def by blast
    then show ?thesis using False assms(1) i by (simp add: read_some_def add.assoc flip: of_nat_add)
  qed
  moreover have "pmem p'' a = pmem p a" if a: "\<forall>i<k + j. a \<noteq> buf + word_of_nat i" for a
  proof -
    have "pmem p' a = pmem p a" using assms(1) a by (simp add: read_some_def)
    moreover have "a \<noteq> buf + word_of_nat k + word_of_nat i" if "i < j" for i
      using a [rule_format, of "k + i"] that by (simp add: add.assoc)
    then have "pmem p'' a = pmem p' a" using assms(2) unfolding read_some_def by blast
    ultimately show ?thesis by simp
  qed
  moreover have "drop (k + j) (src (pkern p)) = src (pkern p'')"
    using assms(1,2) by (simp add: read_some_def add.commute)
  moreover have "k + j \<le> length (src (pkern p))" using assms(1,2) by (simp add: read_some_def le_diff_conv2 add.commute)
  ultimately show ?thesis using assms(1,2) by (simp add: read_some_def)
qed

lemma read_some_mapped: "read_some src buf k p p' \<Longrightarrow> mapped (pmem p) b n \<Longrightarrow> mapped (pmem p') b n"
  unfolding read_some_def mapped_def by (metis option.distinct(1))

lemma sint_small32: "unat (w :: u32) < 2 ^ 31 \<Longrightarrow> sint w = int (unat w)"
proof -
  assume w: "unat w < 2 ^ 31"
  have "sint w = signed_take_bit 31 (uint w)" by (simp add: sint_uint)
  also have "uint w = int (unat w)" by simp
  also have "signed_take_bit 31 (int (unat w)) = int (unat w)"
  proof (rule signed_take_bit_int_eq_self)
    show "- (2 ^ 31) \<le> int (unat w)" by (rule order_trans [of _ 0]) simp_all
    have "int (unat w) < int (2 ^ 31)" using w by (simp only: of_nat_less_iff)
    then show "int (unat w) < 2 ^ 31" by (simp only: of_nat_power of_nat_numeral)
  qed
  finally show ?thesis .
qed

lemma small_int:
  assumes "k \<le> 0x7fffffff"
  shows "0 \<le>s (word_of_nat k :: u64)" "ucast (word_of_nat k :: u64) = (word_of_nat k :: u32)"
    "\<not> (word_of_nat k :: u32) <s 0" "(word_of_nat k :: u32) = 0 \<longleftrightarrow> k = 0"
    "ucast (word_of_nat k :: u32) = (word_of_nat k :: u64)"
proof -
  have u: "unat (word_of_nat k :: u64) = k" "unat (word_of_nat k :: u32) = k"
    using assms by (simp_all add: unat_of_nat)
  have "sint (word_of_nat k :: u64) = int k" using sint_small [of "word_of_nat k"] assms u(1) by simp
  then show "0 \<le>s (word_of_nat k :: u64)" by (simp add: word_sle_eq)
  show c: "ucast (word_of_nat k :: u64) = (word_of_nat k :: u32)"
    using u assms by (simp add: word_unat_eq_iff unsigned_ucast_eq take_bit_nat_eq_self)
  show "ucast (word_of_nat k :: u32) = (word_of_nat k :: u64)"
    using u assms by (simp add: word_unat_eq_iff unsigned_ucast_eq take_bit_nat_eq_self)
  show "(word_of_nat k :: u32) = 0 \<longleftrightarrow> k = 0" using u(2) by (metis unat_eq_zero)
  have "sint (word_of_nat k :: u32) = int k" using sint_small32 [of "word_of_nat k"] assms u(2) by simp
  then show "\<not> (word_of_nat k :: u32) <s 0" by (simp add: word_sless_alt)
qed

lemma small_int_scast:
  assumes "k \<le> 0x7fffffff"
  shows "scast (word_of_nat k :: u32) = (word_of_nat k :: u64)"
proof -
  have "unat (word_of_nat k :: u32) = k" using assms by (simp add: unat_of_nat)
  then have "sint (word_of_nat k :: u32) = int k" using sint_small32 [of "word_of_nat k"] assms by simp
  then show ?thesis by (metis of_int_of_nat_eq scast_eq)
qed

lemma io_chunk_bounds: "0 < r \<Longrightarrow> 0 < chunk r \<and> chunk r \<le> INT_MAX_size \<and> chunk r \<le> r"
  by (auto simp: chunk_def INT_MAX_size_def)

text \<open>One call of \<open>readfn\<close>.\<close>

lemma call_read:
  assumes law: "reads_from sys (scast (ucast ctx :: u32)) src" and n: "0 < n" "n \<le> INT_MAX_size"
    and room: "mapped (pmem (l_proc l)) buf (unat n)"
  shows "\<exists>k p'. call_io sys Fn_read ctx buf n l = (word_of_nat k, l\<lparr>l_proc := p'\<rparr>) \<and> k \<le> unat n \<and> k \<le> 0x7fffffff \<and>
    (k = 0 \<longleftrightarrow> src (pkern (l_proc l)) = []) \<and> read_some src buf k (l_proc l) p'"
proof -
  obtain k p' where kp: "syscallv sys SYS_read [scast (ucast ctx :: u32), buf, n] (l_proc l) = (word_of_nat k, p')"
      "k \<le> unat n" "k = 0 \<longleftrightarrow> src (pkern (l_proc l)) = []" "read_some src buf k (l_proc l) p'"
    using law n room unfolding reads_from_def by blast
  have k: "k \<le> 0x7fffffff" using kp(2) n(2) by (simp add: word_le_nat_alt INT_MAX_size_def)
  have "read_fd sys (ucast ctx) buf n (l_proc l) = (word_of_nat k, p')"
    using n(2) kp(1) small_int(1) [OF k] by (auto simp: read_fd_def long_result_def Let_def)
  then show ?thesis using kp k small_int(2) [OF k] by (auto simp: call_io_def on_proc_def)
qed

lemma read_loop:
  assumes law: "reads_from sys (scast (ucast ctx :: u32)) src"
  shows "mapped (pmem (l_proc l)) data (unat remaining) \<Longrightarrow>
    \<exists>p' fs. libc_read_loop sys f Fn_read ctx data sz remaining l =
        Some (sz - remaining + word_of_nat (min (unat remaining) (length (src (pkern (l_proc l))))), l\<lparr>l_proc := p', l_streams := fs\<rparr>) \<and>
      read_some src data (min (unat remaining) (length (src (pkern (l_proc l))))) (l_proc l) p' \<and>
      fs = (if length (src (pkern (l_proc l))) < unat remaining
            then (l_streams l)[f := (l_streams l ! f)\<lparr>f_eof := True\<rparr>] else l_streams l)"
proof (induction "unat remaining" arbitrary: remaining data l rule: less_induct)
  case less
  let ?src = "src (pkern (l_proc l))"
  show ?case
  proof (cases "remaining = 0")
    case True
    then show ?thesis by (subst libc_read_loop.simps) (auto simp: read_some_def intro!: exI [of _ "l_proc l"])
  next
    case False
    then have pos: "0 < remaining" by (simp add: word_gt_0)
    note ch = io_chunk_bounds [OF pos]
    have le: "unat (chunk remaining) \<le> unat remaining" using ch by (simp add: word_le_nat_alt)
    have "mapped (pmem (l_proc l)) data (unat (chunk remaining))" using less.prems le by (simp add: mapped_def)
    then obtain k p' where k: "call_io sys Fn_read ctx data (chunk remaining) l = (word_of_nat k, l\<lparr>l_proc := p'\<rparr>)"
        "k \<le> unat (chunk remaining)" "k \<le> 0x7fffffff" "k = 0 \<longleftrightarrow> ?src = []" "read_some src data k (l_proc l) p'"
      using call_read [OF law] ch by blast
    show ?thesis
    proof (cases "k = 0")
      case True
      then have "?src = []" using k(4) by simp
      moreover have "0 < unat remaining" using pos by (simp add: word_less_nat_alt)
      ultimately show ?thesis using k pos True
        by (subst libc_read_loop.simps) (auto simp: set_file_def)
    next
      case more: False
      define r where "r = remaining - word_of_nat k"
      have kr: "k \<le> unat remaining" using k(2) le by simp
      have uk: "unat (word_of_nat k :: u64) = k" using k(3) by (simp add: unat_of_nat)
      have r: "unat r = unat remaining - k"
        unfolding r_def using kr uk by (simp add: unat_sub word_le_nat_alt)
      have step: "libc_read_loop sys f Fn_read ctx data sz remaining l =
          libc_read_loop sys f Fn_read ctx (data + word_of_nat k) sz r (l\<lparr>l_proc := p'\<rparr>)"
        using pos k(1) small_int(3-5) [OF k(3)] more by (subst libc_read_loop.simps) (simp add: r_def)
      have src': "src (pkern p') = drop k ?src" "k \<le> length ?src" using k(5) by (simp_all add: read_some_def)
      have "mapped (pmem p') (data + word_of_nat k) (unat r)"
        unfolding mapped_def
      proof (intro allI impI)
        fix i assume "i < unat r"
        then have "pmem (l_proc l) (data + word_of_nat (k + i)) \<noteq> None"
          using less.prems r unfolding mapped_def by (metis add.commute less_diff_conv)
        then show "pmem p' (data + word_of_nat k + word_of_nat i) \<noteq> None"
          using read_some_mapped [OF k(5), of "data + word_of_nat (k + i)" 1] by (simp add: mapped_def add.assoc)
      qed
      moreover have "unat r < unat remaining" using r more kr by simp
      ultimately obtain p'' fs where IH:
          "libc_read_loop sys f Fn_read ctx (data + word_of_nat k) sz r (l\<lparr>l_proc := p'\<rparr>) =
             Some (sz - r + word_of_nat (min (unat r) (length (drop k ?src))), l\<lparr>l_proc := p'', l_streams := fs\<rparr>)"
          "read_some src (data + word_of_nat k) (min (unat r) (length (drop k ?src))) p' p''"
          "fs = (if length (drop k ?src) < unat r
            then (l_streams l)[f := (l_streams l ! f)\<lparr>f_eof := True\<rparr>] else l_streams l)"
        using less.hyps [of r "l\<lparr>l_proc := p'\<rparr>" "data + word_of_nat k"] src'(1) by (auto cong: if_cong)
      have sum: "k + min (unat r) (length (drop k ?src)) = min (unat remaining) (length ?src)"
        using r kr src'(2) by auto
      have "read_some src data (min (unat remaining) (length ?src)) (l_proc l) p''"
      proof -
        have "unat remaining \<le> 2 ^ 64" using unat64_less [of remaining] by simp
        then show ?thesis using read_some_trans [OF k(5) IH(2)] unfolding sum by simp
      qed
      moreover have "sz - r + word_of_nat (min (unat r) (length (drop k ?src))) = sz - remaining + word_of_nat (min (unat remaining) (length ?src))"
        unfolding sum [symmetric] r_def by simp
      moreover have "length (drop k ?src) < unat r \<longleftrightarrow> length ?src < unat remaining" using r kr src'(2) by auto
      ultimately show ?thesis unfolding step IH(1) using IH(3) by auto
    qed
  qed
qed

text \<open>C27. \<open>fread\<close> reads the whole of what was asked for or all there is, however few bytes the kernel returns
  at a time: the bytes of the file are in the buffer in their order, the file is left after them, the count
  is the number of whole items read, and the end-of-file mark of the stream is set exactly when the file was
  too short. Nothing outside the bytes read changes, and the loop ends.\<close>

theorem fread_reads_all:
  assumes "reads_from sys (scast (ucast (f_fd (l_streams l ! f)) :: u32)) src"
    and "\<not> f_eof (l_streams l ! f)" "f_readfn (l_streams l ! f) = Some Fn_read"
    and "umull item_size nitems = Some sz" "0 < sz" "mapped (pmem (l_proc l)) buf (unat sz)"
  shows "\<exists>p' fs. let contents = src (pkern (l_proc l)); k = min (unat sz) (length contents) in
    fread sys buf item_size nitems f l = Some (word_of_nat k div item_size, l\<lparr>l_proc := p', l_streams := fs\<rparr>) \<and>
    (\<forall>i<k. pmem p' (buf + word_of_nat i) = Some (contents ! i)) \<and>
    (\<forall>a. (\<forall>i<k. a \<noteq> buf + word_of_nat i) \<longrightarrow> pmem p' a = pmem (l_proc l) a) \<and>
    src (pkern p') = drop k contents \<and>
    fs = (if length contents < unat sz then (l_streams l)[f := (l_streams l ! f)\<lparr>f_eof := True\<rparr>] else l_streams l)"
proof -
  obtain p' fs where "libc_read_loop sys f Fn_read (f_fd (l_streams l ! f)) buf sz sz l =
        Some (sz - sz + word_of_nat (min (unat sz) (length (src (pkern (l_proc l))))), l\<lparr>l_proc := p', l_streams := fs\<rparr>)"
      "read_some src buf (min (unat sz) (length (src (pkern (l_proc l))))) (l_proc l) p'"
      "fs = (if length (src (pkern (l_proc l))) < unat sz
            then (l_streams l)[f := (l_streams l ! f)\<lparr>f_eof := True\<rparr>] else l_streams l)"
    using read_loop [OF assms(1,6)] by blast
  then show ?thesis using assms(2-5)
    by (intro exI [of _ p'] exI [of _ fs]) (auto simp: fread_def libc_read_def Let_def read_some_def word_gt_0)
qed

text \<open>A file of five bytes, of which the kernel gives two at a time.\<close>

definition two_at_a_time :: "u8 list syscalls" where
  "two_at_a_time op args p =
     (if op = SYS_read \<and> length args = 3 then
        (let n = min 2 (min (unat (args ! 2)) (length (pkern p)));
             m = (\<lambda>a. if unat (a - args ! 1) < n then Some (pkern p ! unat (a - args ! 1)) else pmem p a)
         in ((word_of_nat n, 0), p\<lparr>pmem := m, pkern := drop n (pkern p)\<rparr>))
      else ((0, 0), p))"

lemma two_at_a_time_reads: "reads_from two_at_a_time fd (\<lambda>k. k)"
  unfolding reads_from_def
proof (intro allI impI)
  fix buf n :: u64 and p :: "u8 list proc"
  assume n: "0 < n"
  define k where "k = min 2 (min (unat n) (length (pkern p)))"
  let ?p' = "snd (syscallv two_at_a_time SYS_read [fd, buf, n] p)"
  have eq: "syscallv two_at_a_time SYS_read [fd, buf, n] p = (word_of_nat k, p\<lparr>pmem := \<lambda>a.
      if unat (a - buf) < k then Some (pkern p ! unat (a - buf)) else pmem p a, pkern := drop k (pkern p)\<rparr>)"
    by (simp add: syscallv_def two_at_a_time_def k_def Let_def cong: if_cong)
  let ?q = "p\<lparr>pmem := \<lambda>a. if unat (a - buf) < k then Some (pkern p ! unat (a - buf)) else pmem p a, pkern := drop k (pkern p)\<rparr>"
  have small: "unat (word_of_nat i :: u64) = i" if "i < k" for i
    using that by (simp add: k_def unat_of_nat)
  have "read_some (\<lambda>k. k) buf k p ?q"
    unfolding read_some_def
  proof (intro conjI allI impI)
    show "k \<le> length (pkern p)" by (simp add: k_def)
    fix i assume "i < k"
    then show "pmem ?q (buf + word_of_nat i) = Some (pkern p ! i)" using small by simp
  next
    fix a assume a: "\<forall>i<k. a \<noteq> buf + word_of_nat i"
    have "a = buf + word_of_nat (unat (a - buf))" by simp
    then have "\<not> unat (a - buf) < k" using a by blast
    then show "pmem ?q a = pmem p a" by simp
  qed simp_all
  moreover have "0 < unat n" using n by (simp add: word_less_nat_alt)
  then have "k = 0 \<longleftrightarrow> pkern p = []" "k \<le> unat n" by (auto simp: k_def min_def split: if_splits)
  ultimately show "\<exists>k p'. syscallv two_at_a_time SYS_read [fd, buf, n] p = (word_of_nat k, p') \<and> k \<le> unat n \<and>
      (k = 0 \<longleftrightarrow> pkern p = []) \<and> read_some (\<lambda>k. k) buf k p p'"
    unfolding eq by blast
qed

definition hello_libc :: "u8 list libc" where
  "hello_libc = \<lparr>l_proc = \<lparr>pmem = (\<lambda>a. if 4096 \<le> a \<and> a < 4112 then Some 0 else None), perrno = 0,
       pkern = [104, 101, 108, 108, 111]\<rparr>,
     l_streams = [\<lparr>f_fd = 3, f_error = False, f_eof = False, f_writefn = Some Fn_badf, f_readfn = Some Fn_read,
       f_closefn = Some Fn_close\<rparr>], l_stdin = None, l_stdout = None, l_stderr = None\<rparr>"

lemma hello_buffer: "mapped (pmem (l_proc hello_libc)) 4096 8"
  unfolding mapped_def
proof (intro allI impI)
  fix i :: nat assume "i < 8"
  then have "unat (4096 + word_of_nat i :: u64) = 4096 + i" by (simp add: unat_word_ariths unat_of_nat)
  moreover have "pmem (l_proc hello_libc) x \<noteq> None" if "unat x = 4096 + i" for x
    using that \<open>i < 8\<close> by (simp add: hello_libc_def word_le_nat_alt word_less_nat_alt)
  ultimately show "pmem (l_proc hello_libc) (4096 + word_of_nat i) \<noteq> None" by blast
qed

theorem fread_reads_all_witness:
  "\<exists>l'. fread two_at_a_time 4096 2 4 0 hello_libc = Some (2, l') \<and> f_eof (l_streams l' ! 0)"
proof -
  have "\<exists>p' fs. let contents = pkern (l_proc hello_libc); k = min (unat (8 :: u64)) (length contents) in
    fread two_at_a_time 4096 2 4 0 hello_libc = Some (word_of_nat k div 2, hello_libc\<lparr>l_proc := p', l_streams := fs\<rparr>) \<and>
    (\<forall>i<k. pmem p' (4096 + word_of_nat i) = Some (contents ! i)) \<and>
    (\<forall>a. (\<forall>i<k. a \<noteq> 4096 + word_of_nat i) \<longrightarrow> pmem p' a = pmem (l_proc hello_libc) a) \<and>
    pkern p' = drop k contents \<and>
    fs = (if length contents < unat (8 :: u64) then (l_streams hello_libc)[0 := (l_streams hello_libc ! 0)\<lparr>f_eof := True\<rparr>]
          else l_streams hello_libc)"
    by (rule fread_reads_all [where src = "\<lambda>k. k"])
      (use hello_buffer in \<open>simp_all add: two_at_a_time_reads hello_libc_def umull_def\<close>)
  then show ?thesis by (auto simp: hello_libc_def Let_def)
qed

section \<open>Opening\<close>

text \<open>\<open>parse_mode_string\<close> with \<open>plus\<close> starting as \<open>false\<close>: the modes of the C library.\<close>

lemma parse_modes:
  assumes "string_is (pmem (l_proc l)) mode cs"
  shows "cs = [0x72] \<Longrightarrow> parse_mode_string False mode l = Some (O_RDONLY, l)"
    and "cs = [0x72, 0x2b] \<Longrightarrow> parse_mode_string False mode l = Some (O_RDWR, l)"
    and "cs = [0x77] \<Longrightarrow> parse_mode_string False mode l = Some (O_WRONLY OR O_CREAT OR O_TRUNC, l)"
    and "cs = [0x61, 0x2b] \<Longrightarrow> parse_mode_string False mode l = Some (O_RDWR OR O_CREAT OR O_APPEND, l)"
  using assms by (auto simp: parse_mode_string_def string_is_Cons string_is_Nil parse_mode_loop.simps)

text \<open>But \<open>plus\<close> is never set before it is read. When its byte on the stack happens not to be zero, a file
  opened with \<open>r\<close> is opened for writing as well, and \<open>r+\<close> is refused.\<close>

theorem fopen_mode_uninitialised:
  assumes "string_is (pmem (l_proc l)) mode [0x72]" "string_is (pmem (l_proc l)) mode2 [0x72, 0x2b]"
  shows "parse_mode_string True mode l = Some (O_RDWR, l)"
    and "parse_mode_string True mode2 l = Some (0, set_errno EINVAL l)"
  using assms by (auto simp: parse_mode_string_def string_is_Cons string_is_Nil parse_mode_loop.simps)

text \<open>An empty mode string is not looked at past its first byte as it should be: the loop starts at the byte
  after the terminator, so what it returns depends on what lies behind the string.\<close>

lemma fopen_empty_mode_reads_on:
  assumes "string_is m mode []" "m (mode + 1) = None"
  shows "pmem (l_proc l) = m \<Longrightarrow> parse_mode_string False mode l = None"
  using assms by (simp add: parse_mode_string_def string_is_Nil parse_mode_loop.simps)

text \<open>A stream is taken from a closed entry of the table, and the others are left alone; when all entries are open
  there is an error. \<open>fopen\<close> has opened the descriptor by then, and does not close it.\<close>

lemma first_closed_Some:
  "first_closed n fs = Some i \<Longrightarrow> n \<le> i \<and> i < n + length fs \<and> \<not> is_open (fs ! (i - n)) \<and> (\<forall>j<i - n. is_open (fs ! j))"
proof (induction n fs rule: first_closed.induct)
  case (2 n f fs)
  show ?case
  proof (cases "is_open f")
    case True
    then have "Suc n \<le> i \<and> i < Suc n + length fs \<and> \<not> is_open (fs ! (i - Suc n)) \<and> (\<forall>j<i - Suc n. is_open (fs ! j))"
      using 2 by simp
    then show ?thesis using True by (auto simp: nth_Cons' Suc_le_eq)
  qed (use 2 in auto)
qed simp

lemma first_closed_None: "first_closed n fs = None \<longleftrightarrow> (\<forall>f\<in>set fs. is_open f)"
  by (induction n fs rule: first_closed.induct) auto

lemma fdopen_takes_closed:
  assumes "libc_fdopen fd oflags l = (Some i, l')"
  shows "i < length (l_streams l) \<and> \<not> is_open (l_streams l ! i) \<and> is_open (l_streams l' ! i) \<and>
    (\<forall>j. j \<noteq> i \<longrightarrow> l_streams l' ! j = l_streams l ! j)"
proof -
  have i: "first_closed 0 (l_streams l) = Some i"
    using assms by (auto simp: libc_fdopen_def libc_alloc_stream_def set_file_def split: option.splits)
  note first_closed_Some [OF this]
  then show ?thesis using assms i
    by (auto simp: libc_fdopen_def libc_alloc_stream_def set_file_def is_open_def)
qed

theorem fopen_leaks_descriptor:
  assumes "\<forall>f\<in>set (l_streams l). is_open f" "parse_mode_string is_plus mode l = Some (oflags, l)" "oflags \<noteq> 0"
    and "openat sys dirfd path oflags 0x1b6 (l_proc l) = Some (fd, p)" "fd \<noteq> - 1"
  shows "fopen sys dirfd is_plus path mode l = Some (None, set_errno EMFILE (l\<lparr>l_proc := p\<rparr>))"
proof -
  have "first_closed 0 (l_streams l) = None" using assms(1) by (simp add: first_closed_None)
  then show ?thesis using assms(2-) by (simp add: fopen_def libc_fdopen_def libc_alloc_stream_def)
qed

end
