(* ===== verification/Libc_Start.thy ===== *)
theory Libc_Start
  imports Exec Stdio
begin

text \<open>
  The start and the end of a program: \<open>system/libc/src/start_main.c\<close>, \<open>stdlib/atexit.c\<close>, \<open>exit.c\<close> and
  \<open>abort.c\<close>.

  What a function of the program does when it is called is the parameter \<open>call\<close>, from its address. It may
  register further exit functions, so the array of \<open>atexit\<close> is part of the state it changes.
\<close>

record 'k program =
  pr_libc :: "'k libc"
  pr_atexit :: "u64 list"

type_synonym 'k code = "u64 \<Rightarrow> 'k program \<Rightarrow> 'k program option"

definition ATEXIT_MAX :: nat where "ATEXIT_MAX = 64"

fun first_free :: "nat \<Rightarrow> u64 list \<Rightarrow> nat option" where
  "first_free i [] = None"
| "first_free i (f # fs) = (if f = 0 then Some i else first_free (Suc i) fs)"

definition atexit :: "u64 \<Rightarrow> 'k program \<Rightarrow> int \<times> 'k program" where
  "atexit p s =
     (if p = 0 then (0, s)
      else case first_free 0 (pr_atexit s) of
          Some i \<Rightarrow> (0, s\<lparr>pr_atexit := (pr_atexit s)[i := p]\<rparr>)
        | None \<Rightarrow> (- 1, s))"

text \<open>\<open>for (int i=64; i --> 0;)\<close>\<close>

fun do_atexit_loop :: "'k code \<Rightarrow> nat \<Rightarrow> 'k program \<Rightarrow> 'k program option" where
  "do_atexit_loop call 0 s = Some s"
| "do_atexit_loop call (Suc i) s = do {
     s \<leftarrow> (if pr_atexit s ! i \<noteq> 0 then call (pr_atexit s ! i) s else Some s);
     do_atexit_loop call i s
   }"

definition do_atexit :: "'k code \<Rightarrow> 'k program \<Rightarrow> 'k program option" where
  "do_atexit call s = do_atexit_loop call ATEXIT_MAX s"

text \<open>\<open>exit\<close>: the state in which \<open>_Exit\<close> is called with the status.\<close>

definition exit_program :: "'k code \<Rightarrow> u32 \<Rightarrow> 'k program \<Rightarrow> (u32 \<times> 'k program) option" where
  "exit_program call status s = do { s \<leftarrow> do_atexit call s; Some (status, s) }"

definition program_mem :: "'k program \<Rightarrow> cmem" where
  "program_mem s = pmem (l_proc (pr_libc s))"

partial_function (option) do_init_array :: "'k code \<Rightarrow> u64 \<Rightarrow> u64 \<Rightarrow> 'k program \<Rightarrow> 'k program option" where
  "do_init_array call f fend s =
     (if f \<noteq> fend then do {
        p \<leftarrow> load_long (program_mem s) f;
        s \<leftarrow> call p s;
        do_init_array call (f + 8) fend s
      } else Some s)"

partial_function (option) do_fini_array :: "'k code \<Rightarrow> u64 \<Rightarrow> u64 \<Rightarrow> 'k program \<Rightarrow> 'k program option" where
  "do_fini_array call f fstart s =
     (if f \<noteq> fstart then do {
        p \<leftarrow> load_long (program_mem s) (f - 8);
        s \<leftarrow> call p s;
        do_fini_array call (f - 8) fstart s
      } else Some s)"

text \<open>\<open>argc\<close>, \<open>argv\<close> and \<open>envp\<close>, from the initial stack pointer.\<close>

definition start_arguments :: "cmem \<Rightarrow> u64 \<Rightarrow> (u32 \<times> u64 \<times> u64) option" where
  "start_arguments m stack_vars = do {
     n \<leftarrow> load_long m stack_vars;
     let argc = (ucast n :: u32);
     let argv = stack_vars + 8;
     let envp = argv + 8 * (scast (argc + 1) :: u64);
     Some (argc, argv, envp)
   }"

definition libc_start_main ::
    "'k code \<Rightarrow> u64 \<Rightarrow> (u32 \<Rightarrow> u64 \<Rightarrow> u64 \<Rightarrow> 'k program \<Rightarrow> (u32 \<times> 'k program) option) \<Rightarrow> u64 \<Rightarrow> u64 \<Rightarrow>
     u64 \<Rightarrow> u64 \<Rightarrow> u64 \<Rightarrow> 'k program \<Rightarrow> (u32 \<times> 'k program) option"
where
  "libc_start_main call stack_vars main init fini init_start init_end fini_array s = do {
     s \<leftarrow> call init s;
     let s = snd (atexit fini s);
     let s = s\<lparr>pr_libc := libc_init_stdio (pr_libc s)\<rparr>;
     s \<leftarrow> do_init_array call init_start init_end s;
     let s = snd (atexit fini_array s);
     (argc, argv, envp) \<leftarrow> start_arguments (program_mem s) stack_vars;
     main argc argv envp s
   }"

definition abort_message :: "'k syscalls \<Rightarrow> u64 \<Rightarrow> 'k proc \<Rightarrow> 'k proc" where
  "abort_message sys message p = snd (write_fd sys 2 message 15 p)"

section \<open>Exit functions run in reverse\<close>

definition registered :: "u64 list \<Rightarrow> u64 list \<Rightarrow> bool" where
  "registered fs arr \<longleftrightarrow> 0 \<notin> set fs \<and> arr = fs @ replicate (ATEXIT_MAX - length fs) 0 \<and> length fs \<le> ATEXIT_MAX"

lemma first_free_append: "0 \<notin> set fs \<Longrightarrow> first_free n (fs @ 0 # gs) = Some (n + length fs)"
  by (induction fs arbitrary: n) auto

lemma atexit_registers:
  assumes "registered fs (pr_atexit s)" "length fs < ATEXIT_MAX" "p \<noteq> 0"
  shows "\<exists>s'. atexit p s = (0, s') \<and> registered (fs @ [p]) (pr_atexit s') \<and> pr_libc s' = pr_libc s"
proof -
  obtain k where k: "ATEXIT_MAX - length fs = Suc k" using assms(2) by (metis Suc_diff_Suc)
  then have "first_free 0 (pr_atexit s) = Some (length fs)"
    using assms(1) first_free_append [of fs 0] by (simp add: registered_def)
  moreover have "ATEXIT_MAX - length (fs @ [p]) = k" using k by simp
  ultimately show ?thesis using assms k by (simp add: atexit_def registered_def)
qed

lemma atexit_full:
  assumes "registered fs (pr_atexit s)" "length fs = ATEXIT_MAX" "p \<noteq> 0"
  shows "atexit p s = (- 1, s)"
proof -
  have "first_free n fs = None" if "0 \<notin> set fs" for n fs using that by (induction fs arbitrary: n) auto
  then show ?thesis using assms by (simp add: atexit_def registered_def)
qed

text \<open>Calling the functions of a list one after the other.\<close>

fun call_all :: "'k code \<Rightarrow> u64 list \<Rightarrow> 'k program \<Rightarrow> 'k program option" where
  "call_all call [] s = Some s"
| "call_all call (f # fs) s = do { s \<leftarrow> call f s; call_all call fs s }"

lemma call_all_append: "call_all call (fs @ gs) s = do { s \<leftarrow> call_all call fs s; call_all call gs s }"
  by (induction fs arbitrary: s) (simp_all add: bind_assoc split: bind_splits)

lemma do_atexit_unused:
  "\<forall>j. n \<le> j \<longrightarrow> j < n + k \<longrightarrow> pr_atexit s ! j = 0 \<Longrightarrow> do_atexit_loop call (n + k) s = do_atexit_loop call n s"
  by (induction k) auto

lemma do_atexit_used:
  assumes keep: "\<And>f s s'. call f s = Some s' \<Longrightarrow> pr_atexit s' = pr_atexit s"
  shows "n \<le> length fs \<Longrightarrow> registered fs (pr_atexit s) \<Longrightarrow> do_atexit_loop call n s = call_all call (rev (take n fs)) s"
proof (induction n arbitrary: s)
  case 0 then show ?case by simp
next
  case (Suc n)
  then have at: "pr_atexit s ! n = fs ! n" "fs ! n \<noteq> 0"
    by (auto simp: registered_def nth_append) (metis Suc_le_eq nth_mem)
  have "rev (take (Suc n) fs) = fs ! n # rev (take n fs)" using Suc.prems(1) by (simp add: take_Suc_conv_app_nth)
  moreover have "do_atexit_loop call n s' = call_all call (rev (take n fs)) s'" if "call (fs ! n) s = Some s'" for s'
    using Suc keep [OF that] by simp
  ultimately show ?case using at by (cases "call (fs ! n) s") simp_all
qed

text \<open>At the end of the program the functions given to \<open>atexit\<close> are called, each once, the last one first.\<close>

theorem exit_runs_in_reverse:
  assumes "\<And>f s s'. call f s = Some s' \<Longrightarrow> pr_atexit s' = pr_atexit s" and "registered fs (pr_atexit s)"
  shows "exit_program call status s = map_option (\<lambda>s. (status, s)) (call_all call (rev fs) s)"
proof -
  have "length fs \<le> ATEXIT_MAX" using assms(2) by (simp add: registered_def)
  then have "do_atexit_loop call ATEXIT_MAX s = do_atexit_loop call (length fs) s"
    using do_atexit_unused [of "length fs" "ATEXIT_MAX - length fs" s call] assms(2)
    by (auto simp: registered_def nth_append)
  then have "do_atexit call s = call_all call (rev fs) s"
    using do_atexit_used [OF assms(1) order_refl assms(2)] by (simp add: do_atexit_def)
  then show ?thesis by (simp add: exit_program_def) (cases "call_all call (rev fs) s"; simp)
qed

section \<open>Arguments, from one program to the next\<close>

text \<open>C6. What one program gives to \<open>fexecve\<close> is what the next one's \<open>main\<close> gets: on the stack that
  \<open>build_stack\<close> leaves, the startup code finds the number of arguments, and two null-terminated arrays with
  the strings of \<open>argv\<close> and \<open>envp\<close>, in their order; the stack pointer is aligned to 16 as the ABI asks.\<close>

theorem arguments_roundtrip:
  assumes "stack_call sys tsc argv envp p base p1 as es" and "stack_bytes as es < ARG_LIMIT"
  shows "\<exists>sp s m' argv' envp'. build_stack sys tsc jb argv envp p = Some (sp, s, p1\<lparr>pmem := m'\<rparr>) \<and>
    unat sp mod 16 = 0 \<and> start_arguments m' sp = Some (word_of_nat (length as), argv', envp') \<and> args_at m' argv' as \<and> args_at m' envp' es"
proof -
  obtain sp s m' where b: "build_stack sys tsc jb argv envp p = Some (sp, s, p1\<lparr>pmem := m'\<rparr>)"
      "unat sp mod 16 = 0" "load_long m' sp = Some (word_of_nat (length as))" "args_at m' (sp + 8) as"
      "args_at m' (sp + 8 + 8 * (word_of_nat (length as) + 1)) es"
    using build_stack_arguments [OF assms, of jb] by (elim exE conjE) (rule that)
  have "length as < 2 ^ 30" using assms(2) by (simp add: stack_bytes_def array_bytes_def ARG_LIMIT_def)
  then have k: "length as + 1 \<le> 0x7fffffff" by simp
  have 1: "ucast (word_of_nat (length as) :: u64) = (word_of_nat (length as) :: u32)"
    using small_int(2) [of "length as"] k by simp
  have "scast (word_of_nat (length as + 1) :: u32) = (word_of_nat (length as + 1) :: u64)"
    using small_int_scast [OF k] .
  then have 2: "scast (word_of_nat (length as) + 1 :: u32) = (word_of_nat (length as) + 1 :: u64)"
    by (simp add: add.commute)
  have "start_arguments m' sp = Some (word_of_nat (length as), sp + 8, sp + 8 + 8 * (word_of_nat (length as) + 1))"
    using b(3) by (simp add: start_arguments_def 1 2)
  then show ?thesis using b(1,2,4,5)
    by (intro exI conjI)
qed

theorem arguments_roundtrip_witness:
  "\<exists>sp s m' argv' envp'. build_stack small_sys 0 saved_jump 4096 4120 small_proc = Some (sp, s, small_proc\<lparr>pmem := m'\<rparr>) \<and>
    start_arguments m' sp = Some (1, argv', envp') \<and> args_at m' argv' [[97]] \<and> args_at m' envp' []"
proof -
  have "stack_bytes [[97]] [] < ARG_LIMIT" by (simp add: stack_bytes_def array_bytes_def string_bytes_def ARG_LIMIT_def)
  from arguments_roundtrip [OF small_call this, of saved_jump] obtain sp s m' argv' envp' where
    "build_stack small_sys 0 saved_jump 4096 4120 small_proc = Some (sp, s, small_proc\<lparr>pmem := m'\<rparr>)"
    "start_arguments m' sp = Some (1, argv', envp')" "args_at m' argv' [[97]]" "args_at m' envp' []"
    by (auto simp del: args_at.simps)
  then show ?thesis by blast
qed

end
