(* ===== verification/Loader.thy ===== *)
theory Loader
  imports Exec Mmu
begin

text \<open>
  The second half of \<open>fexecve\<close>: \<open>kernel/src/share/elf_loader.c\<close>, code that the kernel maps into every process
  and that runs there on the new stack. It unmaps the old program, maps the segments of the new one, reads
  them from the file and enters it.

  The left summand of a result is the state in which \<open>fail\<close> has been called (it halts, and so ends the process);
  \<open>None\<close> is a fault. The local variables \<open>elf\<close> and \<open>phdr\<close> are at addresses of the model's choice.
\<close>

type_synonym ('k, 'a) load = "('k proc + 'a) option"

definition and_load :: "('k, 'a) load \<Rightarrow> ('a \<Rightarrow> ('k, 'b) load) \<Rightarrow> ('k, 'b) load" where
  "and_load r f = (case r of None \<Rightarrow> None | Some (Inl p) \<Rightarrow> Some (Inl p) | Some (Inr x) \<Rightarrow> f x)"

lemma and_load_simps [simp]:
  "and_load None f = None" "and_load (Some (Inl p)) f = Some (Inl p)" "and_load (Some (Inr x)) f = f x"
  by (simp_all add: and_load_def)

lemma and_load_Some:
  "and_load r f = Some v \<longleftrightarrow> (\<exists>p. r = Some (Inl p) \<and> v = Inl p) \<or> (\<exists>x. r = Some (Inr x) \<and> f x = Some v)"
  by (auto simp: and_load_def split: option.splits sum.splits)

record elf_phdr =
  p_type :: u32
  p_flags :: u32
  p_offset :: u64
  p_vaddr :: u64
  p_filesz :: u64
  p_memsz :: u64

definition phdr_of :: "u8 list \<Rightarrow> elf_phdr" where
  "phdr_of bs = \<lparr>p_type = ucast (field bs 0 4), p_flags = ucast (field bs 4 4), p_offset = field bs 8 8,
     p_vaddr = field bs 16 8, p_filesz = field bs 32 8, p_memsz = field bs 40 8\<rparr>"

definition PT_LOAD :: u32 where "PT_LOAD = 1"
definition PT_INTERP :: u32 where "PT_INTERP = 3"
definition PF_X :: u32 where "PF_X = 1"
definition SYS_exec_flush :: u64 where "SYS_exec_flush = 0x120b"
definition PAGE :: u64 where "PAGE = 4096"

text \<open>\<open>PROT_READ\<close>, \<open>PROT_WRITE\<close> and \<open>PROT_EXEC\<close> are the bits 0, 1 and 2; \<open>MAP_FIXED\<close> is 1.\<close>

definition map_fixed :: "'k syscalls \<Rightarrow> u64 \<Rightarrow> u64 \<Rightarrow> u32 \<Rightarrow> 'k proc \<Rightarrow> ('k, 'k proc) load" where
  "map_fixed sys base sz flags p =
     (case syscallv sys SYS_virtual_map [base, sz, scast flags, 1] p of (r, p) \<Rightarrow>
        if r \<noteq> base then Some (Inl p) else Some (Inr p))"

definition unmap :: "'k syscalls \<Rightarrow> u64 \<Rightarrow> u64 \<Rightarrow> 'k proc \<Rightarrow> ('k, 'k proc) load" where
  "unmap sys base sz p =
     (case syscallv sys SYS_virtual_unmap [base, sz] p of (r, p) \<Rightarrow> if r <s 0 then Some (Inl p) else Some (Inr p))"

partial_function (option) load_loop :: "'k syscalls \<Rightarrow> u32 \<Rightarrow> u64 \<Rightarrow> u64 \<Rightarrow> 'k proc \<Rightarrow> ('k, 'k proc) load" where
  "load_loop sys fd buffer len p =
     (if 0 <s len
      then (case syscallv sys SYS_read [scast fd, buffer, len] p of (n, p) \<Rightarrow>
        if n \<le>s 0 then Some (Inl p) else load_loop sys fd (buffer + n) (len - n) p)
      else Some (Inr p))"

definition load_into :: "'k syscalls \<Rightarrow> u32 \<Rightarrow> u64 \<Rightarrow> u64 \<Rightarrow> u64 \<Rightarrow> 'k proc \<Rightarrow> ('k, 'k proc) load" where
  "load_into sys fd buffer len offset p =
     (case syscallv sys SYS_seek [scast fd, offset, 1] p of (n, p) \<Rightarrow>
        if n <s 0 then Some (Inl p) else load_loop sys fd buffer len p)"

definition segment_base :: "elf_phdr \<Rightarrow> u64" where
  "segment_base ph = round_down_p2 (p_vaddr ph) PAGE"

definition segment_end :: "elf_phdr \<Rightarrow> u64" where
  "segment_end ph = round_up_p2 (p_vaddr ph + p_memsz ph) PAGE"

definition load_segment :: "'k syscalls \<Rightarrow> u32 \<Rightarrow> elf_phdr \<Rightarrow> 'k proc \<Rightarrow> ('k, 'k proc) load" where
  "load_segment sys fd ph p =
     (let flags = 1 OR 2 OR (if p_flags ph AND PF_X \<noteq> 0 then 4 else 0)
      in and_load (map_fixed sys (segment_base ph) (segment_end ph - segment_base ph) flags p)
           (load_into sys fd (p_vaddr ph) (p_filesz ph) (p_offset ph)))"

text \<open>The loop over the program headers, from \<open>i\<close> on; \<open>at\<close> is the address of the local \<open>phdr\<close>, and \<open>phoff\<close>
  and \<open>phnum\<close> are \<open>int\<close>s.\<close>

definition read_phdr :: "'k syscalls \<Rightarrow> u32 \<Rightarrow> u64 \<Rightarrow> u32 \<Rightarrow> nat \<Rightarrow> 'k proc \<Rightarrow> ('k, elf_phdr \<times> 'k proc) load" where
  "read_phdr sys fd at phoff i p =
     and_load (load_into sys fd at (word_of_nat PHDR_SIZE) (scast phoff + word_of_nat (i * PHDR_SIZE)) p) (\<lambda>p. do {
       bs \<leftarrow> load_bytes (pmem p) at PHDR_SIZE;
       Some (Inr (phdr_of bs, p))
     })"

fun load_headers ::
    "'k syscalls \<Rightarrow> u32 \<Rightarrow> u64 \<Rightarrow> u32 \<Rightarrow> nat list \<Rightarrow> u64 \<Rightarrow> 'k proc \<Rightarrow> ('k, 'k proc) load"
where
  "load_headers sys fd at phoff [] last_loaded p = Some (Inr p)"
| "load_headers sys fd at phoff (i # is) last_loaded p =
     and_load (read_phdr sys fd at phoff i p) (\<lambda>(ph, p).
       if p_type ph = PT_LOAD then
         (if round_down_p2 (p_vaddr ph) PAGE < last_loaded then Some (Inl p)
          else and_load (load_segment sys fd ph p) (load_headers sys fd at phoff is (p_vaddr ph + p_memsz ph)))
       else if p_type ph = PT_INTERP then Some (Inl p)
       else load_headers sys fd at phoff is last_loaded p)"

definition load_elf_segments :: "'k syscalls \<Rightarrow> u32 \<Rightarrow> u64 \<Rightarrow> elf_ehdr \<Rightarrow> 'k proc \<Rightarrow> ('k, 'k proc) load" where
  "load_elf_segments sys fd at elf p =
     load_headers sys fd at (ucast (e_phoff elf)) [0..<unat (e_phnum elf)] PAGE p"

text \<open>The last system call does not return when it succeeds: the program has been entered.\<close>

definition exec_elf_stage2 ::
    "'k syscalls \<Rightarrow> u64 \<Rightarrow> u64 \<Rightarrow> u32 \<Rightarrow> u64 \<Rightarrow> u64 \<Rightarrow> u64 \<Rightarrow> 'k proc \<Rightarrow> ('k, (u64 \<times> u64) \<times> 'k proc) load"
where
  "exec_elf_stage2 sys elf_at phdr_at fd stack_ptr stack_base stack_top p =
     and_load (load_into sys fd elf_at (word_of_nat EHDR_SIZE) 0 p) (\<lambda>p. do {
       bs \<leftarrow> load_bytes (pmem p) elf_at EHDR_SIZE;
       let elf = ehdr_of bs;
       and_load (unmap sys 0 stack_base p) (\<lambda>p.
       and_load (unmap sys stack_top (0x800000000000 - stack_top) p) (\<lambda>p.
       and_load (load_elf_segments sys fd phdr_at elf p) (\<lambda>p.
         Some (Inr ((e_entry elf, stack_ptr), snd (syscallv sys SYS_exec_flush [e_entry elf, stack_ptr] p))))))
     })"

section \<open>Segments do not overlap\<close>

text \<open>\<open>log\<close> is the history of the mappings that the kernel has made for a process: those whose call returned the base it asked for.\<close>

definition records :: "'k syscalls \<Rightarrow> ('k \<Rightarrow> (u64 \<times> u64) list) \<Rightarrow> bool" where
  "records sys log \<longleftrightarrow> (\<forall>op args p r p'. syscallv sys op args p = (r, p') \<longrightarrow>
     log (pkern p') = log (pkern p) @ (if op = SYS_virtual_map \<and> r = args ! 0 then [(args ! 0, args ! 1)] else []))"

text \<open>The kernel maps at a fixed place only below the end of user space. (For a base that is not a page's the call may return the
  base and mean an error code: \<open>- EFAULT\<close> is the answer to a request at \<open>- EFAULT\<close>.)\<close>

definition user_space_maps :: "'k syscalls \<Rightarrow> bool" where
  "user_space_maps sys \<longleftrightarrow> (\<forall>base n fl p p'. syscallv sys SYS_virtual_map [base, n, fl, 1] p = (base, p') \<longrightarrow>
     unat base mod 4096 = 0 \<longrightarrow> unat base + unat n \<le> 2 ^ 47)"

text \<open>The state at the end of a part of the loader, however it has ended.\<close>

definition at_end :: "('a \<Rightarrow> 'k proc) \<Rightarrow> 'k proc + 'a \<Rightarrow> 'k proc" where
  "at_end f r = (case r of Inl p \<Rightarrow> p | Inr x \<Rightarrow> f x)"

lemma at_end_simps [simp]: "at_end f (Inl p) = p" "at_end f (Inr x) = f x"
  by (simp_all add: at_end_def)

lemma load_loop_log:
  assumes "records sys log" "load_loop sys fd buffer len p = Some r"
  shows "log (pkern (at_end (\<lambda>p. p) r)) = log (pkern p)"
proof -
  have "load_loop s fd buffer len p = Some r \<Longrightarrow> s = sys \<longrightarrow> log (pkern (at_end (\<lambda>p. p) r)) = log (pkern p)" for s fd buffer len p r
  proof (rule load_loop.raw_induct
      [where P = "\<lambda>s fd buffer len p r. s = sys \<longrightarrow> log (pkern (at_end (\<lambda>p. p) r)) = log (pkern p)", rotated], assumption, intro impI)
    fix loop s fd buffer len p r
    assume IH: "\<And>s fd buffer len p r. loop s fd buffer len p = Some r \<Longrightarrow> s = sys \<longrightarrow> log (pkern (at_end (\<lambda>p. p) r)) = log (pkern p)"
      and body: "(if 0 <s len then case syscallv s SYS_read [scast fd, buffer, len] p of (n, p) \<Rightarrow>
          if n \<le>s 0 then Some (Inl p) else loop s fd (buffer + n) (len - n) p else Some (Inr p)) = Some r"
      and s: "s = sys"
    obtain n p1 where call: "syscallv sys SYS_read [scast fd, buffer, len] p = (n, p1)"
      by (cases "syscallv sys SYS_read [scast fd, buffer, len] p")
    then have "log (pkern p1) = log (pkern p)"
      using assms(1) unfolding records_def by (simp add: SYS_read_def SYS_virtual_map_def)
    then show "log (pkern (at_end (\<lambda>p. p) r)) = log (pkern p)"
      using body IH [of sys] call s by (auto split: if_splits)
  qed
  then show ?thesis using assms(2) by blast
qed

lemma load_into_log:
  assumes "records sys log" "load_into sys fd buffer len offset p = Some r"
  shows "log (pkern (at_end (\<lambda>p. p) r)) = log (pkern p)"
proof -
  obtain n p1 where call: "syscallv sys SYS_seek [scast fd, offset, 1] p = (n, p1)"
    by (cases "syscallv sys SYS_seek [scast fd, offset, 1] p")
  then have "log (pkern p1) = log (pkern p)"
    using assms(1) unfolding records_def by (simp add: SYS_seek_def SYS_virtual_map_def)
  then show ?thesis using assms(2) call load_loop_log [OF assms(1)] by (auto simp: load_into_def split: if_splits)
qed

lemma read_phdr_log:
  assumes "records sys log" "read_phdr sys fd at phoff i p = Some r"
  shows "log (pkern (at_end snd r)) = log (pkern p)"
  using assms(2) load_into_log [OF assms(1)] by (fastforce simp: read_phdr_def bind_eq_Some_conv and_load_Some)

lemma round_page:
  "unat (round_down_p2 v PAGE) = unat v div 4096 * 4096"
  "unat (round_up_p2 v PAGE) = unat (v + 4095) div 4096 * 4096"
proof -
  have "round_up_p2 v PAGE = (v + 4095) AND NOT (mask 12)" "round_down_p2 v PAGE = v AND NOT (mask 12)"
    by (simp_all add: round_up_p2_def round_down_p2_def PAGE_def mask_eq_exp_minus_1 add.commute)
  then show "unat (round_down_p2 v PAGE) = unat v div 4096 * 4096"
    "unat (round_up_p2 v PAGE) = unat (v + 4095) div 4096 * 4096"
    using unat_and_not_mask [of v 12] unat_and_not_mask [of "v + 4095" 12] by simp_all
qed

lemma unat_sum: "unat x + unat y < 2 ^ 64 \<Longrightarrow> unat (x + y :: u64) = unat x + unat y"
  by (simp add: unat_word_ariths)

lemma wrapped_sum: "\<not> unat x + unat y < 2 ^ 64 \<Longrightarrow> unat (x + y :: u64) < unat y"
proof -
  assume big: "\<not> unat x + unat y < 2 ^ 64"
  have "(a + b) mod n < b" if "\<not> a + b < n" "a < n" "b < n" for a b n :: nat
    using that by (simp add: mod_if [of "a + b"])
  from this [OF big unat64_less unat64_less] show ?thesis by (simp add: unat_word_ariths)
qed

text \<open>A mapping that the kernel has accepted ends where the segment ends, rounded up, and the next segment, if
  it is not refused, begins there or later - also when \<open>p_vaddr + p_memsz\<close> has wrapped.\<close>

lemma segment_range:
  assumes "user_space_maps sys" "map_fixed sys (segment_base ph) (segment_end ph - segment_base ph) fl p = Some (Inr p')"
    and "4096 \<le> unat (segment_base ph)"
  shows "unat (segment_base ph) + unat (segment_end ph - segment_base ph) = unat (segment_end ph)"
    "unat (segment_end ph) \<le> 2 ^ 47"
    "\<And>b. unat b mod 4096 = 0 \<Longrightarrow> p_vaddr ph + p_memsz ph \<le> b \<Longrightarrow> unat (segment_end ph) \<le> unat b"
proof -
  let ?b = "segment_base ph" and ?e = "segment_end ph" and ?s = "p_vaddr ph + p_memsz ph"
  have "syscallv sys SYS_virtual_map [?b, ?e - ?b, scast fl, 1] p = (?b, p')"
    using assms(2) by (auto simp: map_fixed_def split: prod.splits if_splits)
  moreover have "unat ?b mod 4096 = 0" unfolding segment_base_def round_page by simp
  ultimately have le: "unat ?b + unat (?e - ?b) \<le> 2 ^ 47"
    by (rule assms(1) [unfolded user_space_maps_def, rule_format])
  have sum: "unat ?b + unat (?e - ?b) = unat ?e"
  proof -
    have "unat ?b + unat (?e - ?b) < 2 ^ 64" using le by simp
    then have "unat (?b + (?e - ?b)) = unat ?b + unat (?e - ?b)" by (rule unat_sum)
    then show ?thesis by simp
  qed
  then show "unat ?b + unat (?e - ?b) = unat ?e" "unat ?e \<le> 2 ^ 47" using le by simp_all
  have e: "unat ?e = unat (?s + 4095) div 4096 * 4096" unfolding segment_end_def round_page ..
  have nowrap: "unat (?s + 4095) = unat ?s + 4095"
  proof (rule ccontr)
    assume "unat (?s + 4095) \<noteq> unat ?s + 4095"
    then have big: "\<not> unat ?s + unat (4095 :: u64) < 2 ^ 64" using unat_sum [of ?s 4095] by auto
    have "unat (?s + 4095) < 4096" using wrapped_sum [OF big] by simp
    then have "unat ?e = 0" unfolding e by simp
    then show False using sum assms(3) by simp
  qed
  fix b :: u64 assume b: "unat b mod 4096 = 0" "?s \<le> b"
  then obtain k where k: "unat b = 4096 * k" by fastforce
  have "unat ?s \<le> 4096 * k" using b(2) k by (simp add: word_le_nat_alt)
  then have "(unat ?s + 4095) div 4096 \<le> k" by simp
  then show "unat ?e \<le> unat b" unfolding e nowrap k by simp
qed

definition before :: "u64 \<times> u64 \<Rightarrow> u64 \<times> u64 \<Rightarrow> bool" where
  "before r r' \<longleftrightarrow> unat (fst r) + unat (snd r) \<le> unat (fst r')"

definition good_range :: "nat \<Rightarrow> u64 \<times> u64 \<Rightarrow> bool" where
  "good_range low r \<longleftrightarrow> low \<le> unat (fst r) \<and> unat (fst r) mod 4096 = 0 \<and> unat (fst r) + unat (snd r) \<le> 2 ^ 47"

lemma map_fixed_log:
  assumes "records sys log" "map_fixed sys base n fl p = Some r"
  shows "log (pkern (at_end (\<lambda>p. p) r)) = log (pkern p) @ (case r of Inl _ \<Rightarrow> [] | Inr _ \<Rightarrow> [(base, n)])"
proof -
  obtain v p1 where call: "syscallv sys SYS_virtual_map [base, n, scast fl, 1] p = (v, p1)"
    by (cases "syscallv sys SYS_virtual_map [base, n, scast fl, 1] p")
  then have "log (pkern p1) = log (pkern p) @ (if v = base then [(base, n)] else [])"
    using assms(1) unfolding records_def by fastforce
  then show ?thesis using assms(2) call by (auto simp: map_fixed_def split: if_splits)
qed

lemma load_headers_disjoint:
  assumes rec: "records sys log" and maps: "user_space_maps sys"
  shows "load_headers sys fd at phoff is last_loaded p = Some r \<Longrightarrow> 4096 \<le> low \<Longrightarrow>
    (\<forall>b. unat b mod 4096 = 0 \<longrightarrow> last_loaded \<le> b \<longrightarrow> low \<le> unat b) \<Longrightarrow>
    \<exists>rs. log (pkern (at_end (\<lambda>p. p) r)) = log (pkern p) @ rs \<and> (\<forall>x\<in>set rs. good_range low x) \<and> sorted_wrt before rs"
proof (induction "is" arbitrary: last_loaded p low)
  case Nil then show ?case by auto
next
  case (Cons i "is")
  obtain v where v: "read_phdr sys fd at phoff i p = Some v"
    using Cons.prems(1) by (cases "read_phdr sys fd at phoff i p") auto
  note log1 = read_phdr_log [OF rec v]
  show ?case
  proof (cases v)
    case (Inl q)
    then show ?thesis using Cons.prems(1) v log1 by auto
  next
    case (Inr x)
    obtain ph p1 where x: "x = (ph, p1)" by force
    then have log1: "log (pkern p1) = log (pkern p)" using log1 Inr by simp
    consider "p_type ph \<noteq> PT_LOAD" "p_type ph \<noteq> PT_INTERP" | "p_type ph \<noteq> PT_LOAD" "p_type ph = PT_INTERP"
      | "p_type ph = PT_LOAD" "segment_base ph < last_loaded" | "p_type ph = PT_LOAD" "last_loaded \<le> segment_base ph"
      by (meson linorder_not_le)
    then show ?thesis
    proof cases
      case 1
      then have "load_headers sys fd at phoff is last_loaded p1 = Some r" using Cons.prems(1) v Inr x by simp
      from Cons.IH [OF this Cons.prems(2,3)] show ?thesis using log1 by simp
    next
      case 2
      then show ?thesis using Cons.prems(1) v Inr x log1 by auto
    next
      case 3
      then show ?thesis using Cons.prems(1) v Inr x log1 by (auto simp: segment_base_def)
    next
      case 4
      let ?b = "segment_base ph" and ?e = "segment_end ph"
      define fl :: u32 where "fl = 1 OR 2 OR (if p_flags ph AND PF_X \<noteq> 0 then 4 else 0)"
      have run: "and_load (and_load (map_fixed sys ?b (?e - ?b) fl p1) (load_into sys fd (p_vaddr ph) (p_filesz ph) (p_offset ph)))
          (load_headers sys fd at phoff is (p_vaddr ph + p_memsz ph)) = Some r"
        using Cons.prems(1) v Inr x 4 by (simp add: load_segment_def fl_def segment_base_def not_less [symmetric] del: not_less)
      obtain w where w: "map_fixed sys ?b (?e - ?b) fl p1 = Some w" using run by (cases "map_fixed sys ?b (?e - ?b) fl p1") auto
      note log2 = map_fixed_log [OF rec w]
      show ?thesis
      proof (cases w)
        case (Inl q)
        then show ?thesis using run w log1 log2 by auto
      next
        case w2: (Inr p2)
        have al: "unat ?b mod 4096 = 0" unfolding segment_base_def round_page by simp
        have low: "low \<le> unat ?b" by (rule Cons.prems(3) [rule_format, OF al 4(2)])
        then have b4: "4096 \<le> unat ?b" using Cons.prems(2) by simp
        note s = segment_range [OF maps w [unfolded w2] b4]
        have good: "good_range low (?b, ?e - ?b)" using low al s(1,2) by (simp add: good_range_def)
        have log2: "log (pkern p2) = log (pkern p) @ [(?b, ?e - ?b)]" using log1 log2 w2 by simp
        obtain y where y: "load_into sys fd (p_vaddr ph) (p_filesz ph) (p_offset ph) p2 = Some y"
          using run w w2 by (cases "load_into sys fd (p_vaddr ph) (p_filesz ph) (p_offset ph) p2") auto
        note log3 = load_into_log [OF rec y]
        show ?thesis
        proof (cases y)
          case (Inl q)
          then have "log (pkern (at_end (\<lambda>p. p) r)) = log (pkern p) @ [(?b, ?e - ?b)]" using run w w2 y log2 log3 by simp
          then show ?thesis using good by (intro exI [of _ "[(?b, ?e - ?b)]"] conjI) simp_all
        next
          case y3: (Inr p3)
          then have more: "load_headers sys fd at phoff is (p_vaddr ph + p_memsz ph) p3 = Some r" using run w w2 y by simp
          have "\<forall>b. unat b mod 4096 = 0 \<longrightarrow> p_vaddr ph + p_memsz ph \<le> b \<longrightarrow> unat ?e \<le> unat b" using s(3) by blast
          moreover have "4096 \<le> unat ?e" using s(1) b4 by simp
          ultimately obtain rs where rs: "log (pkern (at_end (\<lambda>p. p) r)) = log (pkern p3) @ rs" "\<forall>x\<in>set rs. good_range (unat ?e) x"
            "sorted_wrt before rs"
            using Cons.IH [OF more] by blast
          have "log (pkern (at_end (\<lambda>p. p) r)) = log (pkern p) @ (?b, ?e - ?b) # rs" using rs(1) log2 log3 y3 by simp
          moreover have "good_range low x \<and> before (?b, ?e - ?b) x" if "x \<in> set rs" for x
            using rs(2) that s(1) low by (fastforce simp: good_range_def before_def)
          ultimately show ?thesis using rs(3) good by (intro exI [of _ "(?b, ?e - ?b) # rs"]) auto
        qed
      qed
    qed
  qed
qed

text \<open>C25. Whatever the file says, and whether the load completes or ends in \<open>fail\<close> at any point, the loader never has one
  segment mapped over another: the mappings that the kernel has made for it are of whole pages at or above the first page and below the end
  of user space, in ascending order, each beginning where the one before it has ended or later. The kernel is relied on to
  refuse a fixed mapping of pages beyond user space.\<close>

theorem segments_disjoint:
  assumes "records sys log" "user_space_maps sys" "load_elf_segments sys fd at elf p = Some r"
  shows "\<exists>rs. log (pkern (at_end (\<lambda>p. p) r)) = log (pkern p) @ rs \<and> (\<forall>x\<in>set rs. good_range 4096 x) \<and> sorted_wrt before rs"
  by (rule load_headers_disjoint [OF assms(1,2) assms(3) [unfolded load_elf_segments_def]])
    (simp_all add: PAGE_def word_le_nat_alt)

text \<open>A file with one segment, of 16 bytes at 0x400000, of which 8 are in the file; its header is at 0x7000.\<close>

definition header_byte :: "nat \<Rightarrow> u8" where
  "header_byte i = (if i = 0 then 1 else if i = 18 then 0x40 else if i = 32 then 8 else if i = 40 then 0x10 else 0)"

definition header_memory :: cmem where
  "header_memory a = (if 0x7000 \<le> a \<and> a < 0x7038 then Some (header_byte (unat a - 0x7000)) else None)"

definition logging_sys :: "(u64 \<times> u64) list syscalls" where
  "logging_sys op args p =
     (if op = SYS_virtual_map
      then ((if unat (args ! 0) + unat (args ! 1) \<le> 2 ^ 47 then args ! 0 else args ! 0 + 1, 0),
            if unat (args ! 0) + unat (args ! 1) \<le> 2 ^ 47 then p\<lparr>pkern := pkern p @ [(args ! 0, args ! 1)]\<rparr> else p)
      else ((if op = SYS_read then args ! 2 else 0, 0), p))"

definition one_segment :: elf_ehdr where
  "one_segment = \<lparr>e_ident = ELF_IDENT, e_type = 2, e_machine = 62, e_version = 1, e_entry = 0x400000,
     e_phoff = 64, e_ehsize = 64, e_phentsize = 56, e_phnum = 1\<rparr>"

lemma logging_sys_records: "records logging_sys (\<lambda>k. k)"
  by (auto simp: records_def logging_sys_def syscallv_def split: if_splits)

lemma logging_sys_maps: "user_space_maps logging_sys"
  by (auto simp: user_space_maps_def logging_sys_def syscallv_def split: if_splits)

lemma one_segment_header: "load_bytes header_memory 0x7000 56 = Some (map header_byte [0..<56])"
  unfolding load_bytes_iff
proof (intro conjI allI impI)
  fix i :: nat assume i: "i < 56"
  then have "unat (0x7000 + word_of_nat i :: u64) = 0x7000 + i" by (simp add: unat_word_ariths unat_of_nat)
  then show "header_memory (0x7000 + word_of_nat i) = Some (map header_byte [0..<56] ! i)"
    using i by (simp add: header_memory_def word_le_nat_alt word_less_nat_alt)
qed simp

lemma header_fields: "phdr_of (map header_byte [0..<56]) =
    \<lparr>p_type = 1, p_flags = 0, p_offset = 0, p_vaddr = 0x400000, p_filesz = 8, p_memsz = 16\<rparr>"
  by (simp add: phdr_of_def field_def take_map drop_map upt_conv_Cons header_byte_def push_bit_eq_mult)

lemma one_segment_loads:
  "load_elf_segments logging_sys 3 0x7000 one_segment \<lparr>pmem = header_memory, perrno = 0, pkern = []\<rparr> =
     Some (Inr \<lparr>pmem = header_memory, perrno = 0, pkern = [(0x400000, 0x1000)]\<rparr>)"
proof -
  have loop: "load_loop logging_sys 3 b n p = Some (Inr p)" if "0 <s n" for b n p
    using that by (simp add: load_loop.simps [of logging_sys 3 b n] load_loop.simps [of logging_sys 3 "b + n" 0]
      syscallv_def logging_sys_def SYS_read_def SYS_virtual_map_def)
  have pos: "0 <s (56 :: u64)" "0 <s (8 :: u64)" by (simp_all add: word_sless_alt)
  show ?thesis using one_segment_header
    by (simp add: load_elf_segments_def one_segment_def read_phdr_def load_into_def loop pos header_fields syscallv_def
      logging_sys_def SYS_seek_def SYS_read_def SYS_virtual_map_def PHDR_SIZE_def PT_LOAD_def PAGE_def load_segment_def
      map_fixed_def segment_base_def segment_end_def round_up_p2_def round_down_p2_def PF_X_def)
qed

theorem segments_disjoint_witness:
  "\<exists>r rs. load_elf_segments logging_sys 3 0x7000 one_segment \<lparr>pmem = header_memory, perrno = 0, pkern = []\<rparr> = Some r \<and>
     pkern (at_end (\<lambda>p. p) r) = rs \<and> rs = [(0x400000, 0x1000)] \<and> (\<forall>x\<in>set rs. good_range 4096 x) \<and> sorted_wrt before rs"
  using segments_disjoint [OF logging_sys_records logging_sys_maps one_segment_loads] one_segment_loads by simp

end
