(* ===== verification/Font.thy ===== *)
theory Font
  imports Fluke_Prelude
begin

text \<open>
  The glyphs of the console, \<open>kernel/src/font/font.c\<close>: 96 characters from the space on, eight lines of eight
  pixels each, the lowest bit of a line on the left.
\<close>

definition font_8x8 :: "u8 list list" where
  "font_8x8 =
    [[0x00, 0x00, 0x00, 0x00, 0x00, 0x00, 0x00, 0x00],
     [0x18, 0x18, 0x18, 0x18, 0x00, 0x00, 0x18, 0x00],
     [0x66, 0x66, 0x66, 0x00, 0x00, 0x00, 0x00, 0x00],
     [0x66, 0x66, 0xff, 0x66, 0xff, 0x66, 0x66, 0x00],
     [0x18, 0x7c, 0x06, 0x3c, 0x60, 0x3e, 0x18, 0x00],
     [0x46, 0x66, 0x30, 0x18, 0x0c, 0x66, 0x62, 0x00],
     [0x3c, 0x66, 0x3c, 0x1c, 0xe6, 0x66, 0xfc, 0x00],
     [0x60, 0x30, 0x18, 0x00, 0x00, 0x00, 0x00, 0x00],
     [0x30, 0x18, 0x0c, 0x0c, 0x0c, 0x18, 0x30, 0x00],
     [0x0c, 0x18, 0x30, 0x30, 0x30, 0x18, 0x0c, 0x00],
     [0x00, 0x66, 0x3c, 0xff, 0x3c, 0x66, 0x00, 0x00],
     [0x00, 0x18, 0x18, 0x7e, 0x18, 0x18, 0x00, 0x00],
     [0x00, 0x00, 0x00, 0x00, 0x00, 0x18, 0x18, 0x0c],
     [0x00, 0x00, 0x00, 0x7e, 0x00, 0x00, 0x00, 0x00],
     [0x00, 0x00, 0x00, 0x00, 0x00, 0x18, 0x18, 0x00],
     [0x00, 0xc0, 0x60, 0x30, 0x18, 0x0c, 0x06, 0x00],
     [0x3c, 0x66, 0x76, 0x6e, 0x66, 0x66, 0x3c, 0x00],
     [0x18, 0x18, 0x1c, 0x18, 0x18, 0x18, 0x7e, 0x00],
     [0x3c, 0x66, 0x60, 0x30, 0x0c, 0x06, 0x7e, 0x00],
     [0x3c, 0x66, 0x60, 0x38, 0x60, 0x66, 0x3c, 0x00],
     [0x60, 0x70, 0x78, 0x66, 0xfe, 0x60, 0x60, 0x00],
     [0x7e, 0x06, 0x3e, 0x60, 0x60, 0x66, 0x3c, 0x00],
     [0x3c, 0x66, 0x06, 0x3e, 0x66, 0x66, 0x3c, 0x00],
     [0x7e, 0x66, 0x30, 0x18, 0x18, 0x18, 0x18, 0x00],
     [0x3c, 0x66, 0x66, 0x3c, 0x66, 0x66, 0x3c, 0x00],
     [0x3c, 0x66, 0x66, 0x7c, 0x60, 0x66, 0x3c, 0x00],
     [0x00, 0x00, 0x18, 0x00, 0x00, 0x18, 0x00, 0x00],
     [0x00, 0x00, 0x18, 0x00, 0x00, 0x18, 0x18, 0x0c],
     [0x70, 0x18, 0x0c, 0x06, 0x0c, 0x18, 0x70, 0x00],
     [0x00, 0x00, 0x7e, 0x00, 0x7e, 0x00, 0x00, 0x00],
     [0x0e, 0x18, 0x30, 0x60, 0x30, 0x18, 0x0e, 0x00],
     [0x3c, 0x66, 0x60, 0x30, 0x18, 0x00, 0x18, 0x00],
     [0x3c, 0x66, 0x76, 0x76, 0x06, 0x46, 0x3c, 0x00],
     [0x18, 0x24, 0x7e, 0x66, 0x66, 0x66, 0x66, 0x00],
     [0x3e, 0x66, 0x66, 0x3e, 0x66, 0x66, 0x3e, 0x00],
     [0x3c, 0x66, 0x06, 0x06, 0x06, 0x66, 0x3c, 0x00],
     [0x1e, 0x36, 0x66, 0x66, 0x66, 0x36, 0x1e, 0x00],
     [0x7e, 0x06, 0x06, 0x1e, 0x06, 0x06, 0x7e, 0x00],
     [0x7e, 0x06, 0x06, 0x1e, 0x06, 0x06, 0x06, 0x00],
     [0x3c, 0x66, 0x06, 0x76, 0x66, 0x66, 0x3c, 0x00],
     [0x66, 0x66, 0x66, 0x7e, 0x66, 0x66, 0x66, 0x00],
     [0x3c, 0x18, 0x18, 0x18, 0x18, 0x18, 0x3c, 0x00],
     [0x78, 0x30, 0x30, 0x30, 0x30, 0x36, 0x1c, 0x00],
     [0x66, 0x36, 0x1e, 0x0e, 0x1e, 0x36, 0x66, 0x00],
     [0x06, 0x06, 0x06, 0x06, 0x06, 0x06, 0x7e, 0x00],
     [0xc6, 0xee, 0xfe, 0xd6, 0xc6, 0xc6, 0xc6, 0x00],
     [0x66, 0x6e, 0x7e, 0x76, 0x66, 0x66, 0x66, 0x00],
     [0x3c, 0x66, 0x66, 0x66, 0x66, 0x66, 0x3c, 0x00],
     [0x3e, 0x66, 0x66, 0x3e, 0x06, 0x06, 0x06, 0x00],
     [0x3c, 0x66, 0x66, 0x66, 0x66, 0x3c, 0x70, 0x00],
     [0x3e, 0x66, 0x66, 0x3e, 0x1e, 0x36, 0x66, 0x00],
     [0x3c, 0x66, 0x06, 0x3c, 0x60, 0x66, 0x3c, 0x00],
     [0x7e, 0x18, 0x18, 0x18, 0x18, 0x18, 0x18, 0x00],
     [0x66, 0x66, 0x66, 0x66, 0x66, 0x66, 0x3c, 0x00],
     [0x66, 0x66, 0x66, 0x66, 0x66, 0x3c, 0x18, 0x00],
     [0xc6, 0xc6, 0xc6, 0xd6, 0xfe, 0xee, 0xc6, 0x00],
     [0x66, 0x66, 0x3c, 0x18, 0x3c, 0x66, 0x66, 0x00],
     [0x66, 0x66, 0x66, 0x3c, 0x18, 0x18, 0x18, 0x00],
     [0x7e, 0x60, 0x30, 0x18, 0x0c, 0x06, 0x7e, 0x00],
     [0x3c, 0x0c, 0x0c, 0x0c, 0x0c, 0x0c, 0x3c, 0x00],
     [0x02, 0x06, 0x0c, 0x18, 0x30, 0x60, 0x40, 0x00],
     [0x3c, 0x30, 0x30, 0x30, 0x30, 0x30, 0x3c, 0x00],
     [0x18, 0x3c, 0x66, 0x42, 0x00, 0x00, 0x00, 0x00],
     [0x00, 0x00, 0x00, 0x00, 0x00, 0x00, 0x7e, 0x00],
     [0x06, 0x0c, 0x18, 0x00, 0x00, 0x00, 0x00, 0x00],
     [0x00, 0x00, 0x3c, 0x60, 0x7c, 0x62, 0x7c, 0x00],
     [0x00, 0x06, 0x06, 0x3e, 0x66, 0x66, 0x3e, 0x00],
     [0x00, 0x00, 0x3c, 0x06, 0x06, 0x06, 0x3c, 0x00],
     [0x00, 0x60, 0x60, 0x7c, 0x66, 0x66, 0x7c, 0x00],
     [0x00, 0x00, 0x3c, 0x66, 0x7e, 0x06, 0x3c, 0x00],
     [0x00, 0x70, 0x18, 0x7c, 0x18, 0x18, 0x18, 0x00],
     [0x00, 0x00, 0x7c, 0x66, 0x66, 0x7c, 0x60, 0x3e],
     [0x00, 0x06, 0x06, 0x3e, 0x66, 0x66, 0x66, 0x00],
     [0x00, 0x18, 0x00, 0x1c, 0x18, 0x18, 0x3c, 0x00],
     [0x00, 0x60, 0x00, 0x60, 0x60, 0x60, 0x3c, 0x00],
     [0x00, 0x06, 0x06, 0x36, 0x1e, 0x36, 0x66, 0x00],
     [0x00, 0x1c, 0x18, 0x18, 0x18, 0x18, 0x3c, 0x00],
     [0x00, 0x00, 0x66, 0xfe, 0xfe, 0xd6, 0xc6, 0x00],
     [0x00, 0x00, 0x3e, 0x66, 0x66, 0x66, 0x66, 0x00],
     [0x00, 0x00, 0x3c, 0x66, 0x66, 0x66, 0x3c, 0x00],
     [0x00, 0x00, 0x3e, 0x66, 0x66, 0x3e, 0x06, 0x06],
     [0x00, 0x00, 0x7c, 0x66, 0x66, 0x7c, 0x60, 0x60],
     [0x00, 0x00, 0x3e, 0x66, 0x06, 0x06, 0x06, 0x00],
     [0x00, 0x00, 0x7c, 0x06, 0x3c, 0x60, 0x3e, 0x00],
     [0x00, 0x18, 0x7e, 0x18, 0x18, 0x18, 0x70, 0x00],
     [0x00, 0x00, 0x66, 0x66, 0x66, 0x66, 0x7c, 0x00],
     [0x00, 0x00, 0x66, 0x66, 0x66, 0x3c, 0x18, 0x00],
     [0x00, 0x00, 0xc6, 0xd6, 0xfe, 0x7c, 0x6c, 0x00],
     [0x00, 0x00, 0x66, 0x3c, 0x18, 0x3c, 0x66, 0x00],
     [0x00, 0x00, 0x66, 0x66, 0x66, 0x7c, 0x30, 0x1e],
     [0x00, 0x00, 0x7e, 0x30, 0x18, 0x0c, 0x7e, 0x00],
     [0x38, 0x0c, 0x0c, 0x07, 0x0c, 0x0c, 0x38, 0x00],
     [0x18, 0x18, 0x18, 0x18, 0x18, 0x18, 0x18, 0x18],
     [0x1c, 0x30, 0x30, 0xe0, 0x30, 0x30, 0x1c, 0x00],
     [0x00, 0x00, 0x0c, 0x9a, 0xb2, 0x60, 0x00, 0x00],
     [0x00, 0x00, 0x00, 0x00, 0x00, 0x00, 0x00, 0x00]]"

lemma font_length: "length font_8x8 = 96"
  by (simp add: font_8x8_def)

lemma font_lines: "list_all (\<lambda>glyph. length glyph = 8) font_8x8"
  by (simp add: font_8x8_def)

end
