(* ===== verification/Console.thy ===== *)
theory Console
  imports Font "HOL-Library.Signed_Division"
begin

text \<open>
  The text console on the framebuffer: \<open>kernel/src/print/console.c\<close>, and the destinations of printed text,
  \<open>kernel/src/print/print.c\<close>.

  A C \<open>int\<close> is an \<open>int\<close> here and \<open>i32\<close> writes out where the code computes with 32 bits; video memory is a map
  from addresses to bytes. \<open>None\<close> is a panic.
\<close>

unbundle bit_operations_syntax

definition i32 :: "int \<Rightarrow> int" where
  "i32 x = signed_take_bit 31 x"

lemma i32_id: "- (2 ^ 31) \<le> x \<Longrightarrow> x < 2 ^ 31 \<Longrightarrow> i32 x = x"
  unfolding i32_def by (rule signed_take_bit_int_eq_self) simp_all

record framebuffer =
  fb_address :: u64
  fb_width :: int
  fb_height :: int
  fb_pitch :: int

record console =
  con_x :: int
  con_y :: int
  con_maxx :: int
  con_maxy :: int
  con_fg :: u32
  con_bg :: u32

record display =
  fb :: framebuffer
  con :: console
  fb_ready :: bool
  video :: "u64 \<Rightarrow> u8"

definition COLOR_BLACK :: u32 where "COLOR_BLACK = 0x000000"
definition COLOR_WHITE :: u32 where "COLOR_WHITE = 0xe5e5e5"

definition console_palette :: "u32 list" where
  "console_palette =
    [0x000000, 0xcd0000, 0x00cd00, 0xcdcd00, 0x0000ee, 0xcd00cd, 0x00cdcd, 0xe5e5e5,
     0x7f7f7f, 0xff0000, 0x00ff00, 0xffff00, 0x5c5cff, 0xff00ff, 0x00ffff, 0xffffff]"

definition console_init :: "framebuffer \<Rightarrow> display \<Rightarrow> display option" where
  "console_init pfb d =
     (if fb_ready d then None
      else Some (d\<lparr>fb := pfb, fb_ready := True,
        con := \<lparr>con_x = 0, con_y = 0, con_maxx = fb_width pfb sdiv 8, con_maxy = fb_height pfb sdiv 8,
          con_fg = COLOR_WHITE, con_bg = COLOR_BLACK\<rparr>\<rparr>))"

text \<open>A pixel is four bytes.\<close>

definition set_pixel :: "u64 \<Rightarrow> u32 \<Rightarrow> display \<Rightarrow> display" where
  "set_pixel a c d = d\<lparr>video := (video d)
     (a := ucast c, a + 1 := ucast (drop_bit 8 c), a + 2 := ucast (drop_bit 16 c), a + 3 := ucast (drop_bit 24 c))\<rparr>"

definition put_line :: "u64 \<Rightarrow> u8 \<Rightarrow> u32 \<Rightarrow> u32 \<Rightarrow> display \<Rightarrow> display" where
  "put_line corner line fg bg d =
     fold (\<lambda>i. set_pixel (corner + word_of_nat (4 * i)) (if bit line i then fg else bg)) [0..<8] d"

definition putcharat_unchecked :: "u8 \<Rightarrow> int \<Rightarrow> int \<Rightarrow> u32 \<Rightarrow> u32 \<Rightarrow> display \<Rightarrow> display" where
  "putcharat_unchecked ch x y fg bg d =
     (let pitch = fb_pitch (fb d);
          corner = fb_address (fb d) + word_of_int (i32 (i32 (8 * y) * pitch)) + word_of_int (i32 (32 * x))
      in fold (\<lambda>j. put_line (corner + word_of_int (i32 (int j * pitch))) (font_8x8 ! (unat ch - 32) ! j) fg bg) [0..<8] d)"

definition printable :: "u8 \<Rightarrow> bool" where
  "printable ch \<longleftrightarrow> 32 \<le>s ch \<and> ch <s 127"

definition console_putcharat :: "u8 \<Rightarrow> int \<Rightarrow> int \<Rightarrow> u32 \<Rightarrow> u32 \<Rightarrow> display \<Rightarrow> display" where
  "console_putcharat ch x y fg bg d =
     (if 0 \<le> x \<and> x < con_maxx (con d) \<and> 0 \<le> y \<and> y < con_maxy (con d)
      then putcharat_unchecked (if printable ch then ch else 32) x y fg bg d
      else d)"

definition CLAMP :: "int \<Rightarrow> int \<Rightarrow> int \<Rightarrow> int" where
  "CLAMP v mn mx = (if v < mn then mn else if mx < v then mx else v)"

definition console_move :: "int \<Rightarrow> int \<Rightarrow> display \<Rightarrow> display" where
  "console_move x y d = d\<lparr>con := (con d)\<lparr>con_x := CLAMP x 0 (con_maxx (con d)), con_y := CLAMP y 0 (con_maxx (con d))\<rparr>\<rparr>"

definition console_setcolor :: "u32 \<Rightarrow> u32 \<Rightarrow> display \<Rightarrow> display" where
  "console_setcolor fg bg d = d\<lparr>con := (con d)\<lparr>con_fg := fg, con_bg := bg\<rparr>\<rparr>"

text \<open>One line of pixels in the background colour.\<close>

definition clear_row :: "int \<Rightarrow> display \<Rightarrow> display" where
  "clear_row row d =
     fold (\<lambda>x. set_pixel (fb_address (fb d) + word_of_int (i32 (row * fb_pitch (fb d))) + word_of_int (i32 (4 * x)))
       (con_bg (con d))) [0..fb_width (fb d) - 1] d"

definition console_clear :: "display \<Rightarrow> display" where
  "console_clear d = fold clear_row [0..fb_height (fb d) - 1] d"

definition clear_line :: "int \<Rightarrow> display \<Rightarrow> display" where
  "clear_line y d = fold (\<lambda>j. clear_row (i32 (i32 (8 * y) + int j))) [0..<8] d"

definition console_newline :: "display \<Rightarrow> display" where
  "console_newline d =
     (let y = i32 (con_y (con d) + 1);
          y = (if con_maxy (con d) \<le> y then 0 else y)
      in clear_line y (d\<lparr>con := (con d)\<lparr>con_x := 0, con_y := y\<rparr>\<rparr>))"

definition console_write :: "u8 \<Rightarrow> display \<Rightarrow> display option" where
  "console_write ch d =
     (if con_maxx (con d) = 0 \<or> con_maxy (con d) = 0 then None
      else if ch = 10 then Some (console_newline d)
      else let d = (if con_maxx (con d) \<le> con_x (con d) then console_newline d else d);
               d = putcharat_unchecked (if printable ch then ch else 32) (con_x (con d)) (con_y (con d))
                     (con_fg (con d)) (con_bg (con d)) d
           in Some (d\<lparr>con := (con d)\<lparr>con_x := i32 (con_x (con d) + 1)\<rparr>\<rparr>))"

section \<open>What is drawn, and where\<close>

text \<open>The bytes of the framebuffer, and a mode in which no product of the code overflows.\<close>

definition in_framebuffer :: "framebuffer \<Rightarrow> u64 \<Rightarrow> bool" where
  "in_framebuffer f a \<longleftrightarrow> (\<exists>i < nat (fb_pitch f * fb_height f). a = fb_address f + word_of_nat i)"

definition sound_framebuffer :: "framebuffer \<Rightarrow> bool" where
  "sound_framebuffer f \<longleftrightarrow> 8 \<le> fb_width f \<and> 8 \<le> fb_height f \<and> 4 * fb_width f \<le> fb_pitch f
     \<and> fb_pitch f * fb_height f < 2 ^ 31"

definition confined :: "display \<Rightarrow> display \<Rightarrow> bool" where
  "confined d d' \<longleftrightarrow> fb d' = fb d \<and> con d' = con d \<and> fb_ready d' = fb_ready d
     \<and> (\<forall>a. \<not> in_framebuffer (fb d) a \<longrightarrow> video d' a = video d a)"

lemma confined_refl [simp]: "confined d d"
  by (simp add: confined_def)

lemma confined_trans: "confined d d' \<Longrightarrow> confined d' d'' \<Longrightarrow> confined d d''"
  by (simp add: confined_def)

lemma confined_fold:
  assumes "\<And>x d'. x \<in> set xs \<Longrightarrow> confined d d' \<Longrightarrow> confined d' (f x d')"
  shows "confined d (fold f xs d)"
proof -
  have "confined d d' \<Longrightarrow> set ys \<subseteq> set xs \<Longrightarrow> confined d (fold f ys d')" for d' ys
  proof (induction ys arbitrary: d')
    case (Cons y ys)
    then have "confined d (f y d')" using assms confined_trans by auto
    then show ?case using Cons by simp
  qed simp
  from this [OF confined_refl] show ?thesis by simp
qed

text \<open>The pixel in column \<open>x\<close> of row \<open>r\<close> is inside.\<close>

lemma pixel_inside:
  assumes "0 \<le> r" "r < fb_height f" "0 \<le> x" "x < fb_width f" "4 * fb_width f \<le> fb_pitch f" "k < 4"
  shows "in_framebuffer f (fb_address f + word_of_int (r * fb_pitch f + 4 * x) + word_of_nat k)"
proof -
  let ?i = "nat (r * fb_pitch f + 4 * x) + k"
  have p: "0 \<le> fb_pitch f" using assms by linarith
  then have ge: "0 \<le> r * fb_pitch f + 4 * x" using assms by simp
  have "(r + 1) * fb_pitch f \<le> fb_height f * fb_pitch f" using assms p by (intro mult_right_mono) simp_all
  then have "r * fb_pitch f + 4 * x + int k < fb_pitch f * fb_height f"
    using assms by (simp add: algebra_simps)
  then have "?i < nat (fb_pitch f * fb_height f)" using ge by linarith
  moreover have "fb_address f + word_of_int (r * fb_pitch f + 4 * x) + word_of_nat k = fb_address f + word_of_nat ?i"
    using ge by (simp add: word_of_nat_eq_iff of_nat_nat)
  ultimately show ?thesis unfolding in_framebuffer_def by blast
qed

lemma set_pixel_confined:
  assumes "sound_framebuffer (fb d)" "0 \<le> r" "r < fb_height (fb d)" "0 \<le> x" "x < fb_width (fb d)"
    and "a = fb_address (fb d) + word_of_int (r * fb_pitch (fb d) + 4 * x)"
  shows "confined d (set_pixel a c d)"
proof -
  have "in_framebuffer (fb d) (a + word_of_nat k)" if "k < 4" for k
    unfolding assms(6) using assms that by (intro pixel_inside) (auto simp: sound_framebuffer_def)
  from this [of 0] this [of 1] this [of 2] this [of 3] show ?thesis
    by (auto simp: confined_def set_pixel_def)
qed

lemma row_offset:
  assumes "sound_framebuffer f" "0 \<le> r" "r < fb_height f"
  shows "i32 (r * fb_pitch f) = r * fb_pitch f" "0 \<le> r * fb_pitch f" "r * fb_pitch f < 2 ^ 31"
proof -
  have p: "0 \<le> fb_pitch f" using assms(1) unfolding sound_framebuffer_def by linarith
  have "r * fb_pitch f \<le> fb_height f * fb_pitch f" using assms p by (intro mult_right_mono) simp_all
  also have "fb_height f * fb_pitch f < 2 ^ 31" using assms(1) by (simp add: sound_framebuffer_def mult.commute)
  finally show 2: "r * fb_pitch f < 2 ^ 31" .
  show 1: "0 \<le> r * fb_pitch f" using assms p by simp
  show "i32 (r * fb_pitch f) = r * fb_pitch f" using 1 2 by (intro i32_id) simp_all
qed

lemma sound_width: "sound_framebuffer f \<Longrightarrow> 4 * fb_width f < 2 ^ 31"
  using row_offset(2,3) [of f 1] unfolding sound_framebuffer_def by simp

lemma sound_height: "sound_framebuffer f \<Longrightarrow> fb_height f < 2 ^ 31"
proof -
  assume s: "sound_framebuffer f"
  then have "fb_height f * 1 \<le> fb_height f * fb_pitch f" unfolding sound_framebuffer_def by (intro mult_left_mono) linarith+
  also have "fb_height f * fb_pitch f < 2 ^ 31" using s by (simp add: sound_framebuffer_def mult.commute)
  finally show ?thesis by simp
qed

lemma clear_row_confined:
  assumes "sound_framebuffer (fb d)" "0 \<le> r" "r < fb_height (fb d)"
  shows "confined d (clear_row r d)"
  unfolding clear_row_def
proof (rule confined_fold)
  fix x d' assume x: "x \<in> set [0..fb_width (fb d) - 1]" and d': "confined d d'"
  have "i32 (4 * x) = 4 * x" using x sound_width [OF assms(1)] by (intro i32_id) simp_all
  then show "confined d' (set_pixel (fb_address (fb d) + word_of_int (i32 (r * fb_pitch (fb d))) + word_of_int (i32 (4 * x))) (con_bg (con d)) d')"
    using x d' assms row_offset(1) [OF assms] by (intro set_pixel_confined [of d' r x]) (auto simp: confined_def)
qed

lemma clear_line_confined:
  assumes "sound_framebuffer (fb d)" "0 \<le> y" "8 * y + 8 \<le> fb_height (fb d)"
  shows "confined d (clear_line y d)"
  unfolding clear_line_def
proof (rule confined_fold)
  fix j d' assume j: "j \<in> set [0..<8::nat]" and d': "confined d d'"
  have "i32 (8 * y) = 8 * y" "i32 (8 * y + int j) = 8 * y + int j"
    using j assms sound_height [OF assms(1)] by (auto intro!: i32_id)
  then show "confined d' (clear_row (i32 (i32 (8 * y) + int j)) d')"
    using j d' assms by (simp only:) (rule clear_row_confined, auto simp: confined_def)
qed

lemma putcharat_confined:
  assumes sound: "sound_framebuffer (fb d)" and x: "0 \<le> x" "8 * x + 8 \<le> fb_width (fb d)"
    and y: "0 \<le> y" "8 * y + 8 \<le> fb_height (fb d)"
  shows "confined d (putcharat_unchecked ch x y fg bg d)"
proof -
  let ?p = "fb_pitch (fb d)" and ?a = "fb_address (fb d)"
  have 1: "i32 (8 * y) = 8 * y" "i32 (32 * x) = 32 * x"
    using x y sound_width [OF sound] sound_height [OF sound] by (auto intro!: i32_id)
  have 2: "i32 (8 * y * ?p) = 8 * y * ?p" using y by (intro row_offset [OF sound]) simp_all
  have 3: "i32 (int j * ?p) = int j * ?p" if "j < 8" for j
    using that sound by (intro row_offset [OF sound]) (simp_all add: sound_framebuffer_def)
  show ?thesis unfolding putcharat_unchecked_def Let_def 1 2
  proof (rule confined_fold)
    fix j d' assume j: "j \<in> set [0..<8::nat]" and d': "confined d d'"
    let ?row = "?a + word_of_int (8 * y * ?p) + word_of_int (32 * x) + word_of_int (i32 (int j * ?p))"
    show "confined d' (put_line ?row (font_8x8 ! (unat ch - 32) ! j) fg bg d')"
      unfolding put_line_def
    proof (rule confined_fold)
      fix i d'' assume i: "i \<in> set [0..<8::nat]" and d'': "confined d' d''"
      have fb: "fb d'' = fb d" using d' d'' by (simp add: confined_def)
      have "?row + word_of_nat (4 * i) = ?a + word_of_int ((8 * y + int j) * ?p + 4 * (8 * x + int i))"
        using j by (simp add: 3 algebra_simps)
      then show "confined d'' (set_pixel (?row + word_of_nat (4 * i)) (if bit (font_8x8 ! (unat ch - 32) ! j) i then fg else bg) d'')"
        using i j x y sound by (intro set_pixel_confined [of d'' "8 * y + int j" "8 * x + int i"]) (auto simp: fb)
    qed
  qed
qed

section \<open>The cursor\<close>

definition console_ok :: "display \<Rightarrow> bool" where
  "console_ok d \<longleftrightarrow> sound_framebuffer (fb d)
     \<and> con_maxx (con d) = fb_width (fb d) div 8 \<and> con_maxy (con d) = fb_height (fb d) div 8
     \<and> 0 \<le> con_x (con d) \<and> con_x (con d) \<le> con_maxx (con d) \<and> 0 \<le> con_y (con d) \<and> con_y (con d) < con_maxy (con d)"

definition drawn :: "display \<Rightarrow> display \<Rightarrow> bool" where
  "drawn d d' \<longleftrightarrow> fb d' = fb d \<and> (\<forall>a. \<not> in_framebuffer (fb d) a \<longrightarrow> video d' a = video d a)"

lemma newline_ok:
  assumes "console_ok d"
  shows "console_ok (console_newline d)" "drawn d (console_newline d)" "con_x (con (console_newline d)) = 0"
proof -
  note ok = assms [unfolded console_ok_def]
  let ?y = "if con_maxy (con d) \<le> con_y (con d) + 1 then 0 else con_y (con d) + 1"
  let ?d = "d\<lparr>con := (con d)\<lparr>con_x := 0, con_y := ?y\<rparr>\<rparr>"
  have "i32 (con_y (con d) + 1) = con_y (con d) + 1"
    using ok sound_height [of "fb d"] by (intro i32_id) auto
  then have nl: "console_newline d = clear_line ?y ?d" by (simp add: console_newline_def Let_def)
  have y: "0 \<le> ?y" "?y < con_maxy (con d)" using ok by (auto simp: sound_framebuffer_def)
  have c: "confined ?d (clear_line ?y ?d)"
    using ok y by (intro clear_line_confined) auto
  show "console_ok (console_newline d)" "drawn d (console_newline d)" "con_x (con (console_newline d)) = 0"
    using c ok y unfolding nl by (auto simp: confined_def console_ok_def drawn_def)
qed

section \<open>The picture\<close>

text \<open>The colour of the pixel in column \<open>x\<close> of row \<open>r\<close>.\<close>

definition pixel_address :: "framebuffer \<Rightarrow> int \<Rightarrow> int \<Rightarrow> u64" where
  "pixel_address f r x = fb_address f + word_of_int (r * fb_pitch f + 4 * x)"

definition pixel :: "display \<Rightarrow> int \<Rightarrow> int \<Rightarrow> u32" where
  "pixel d r x =
     (let a = pixel_address (fb d) r x
      in ucast (video d a) OR push_bit 8 (ucast (video d (a + 1))) OR push_bit 16 (ucast (video d (a + 2)))
         OR push_bit 24 (ucast (video d (a + 3))))"

definition on_screen :: "framebuffer \<Rightarrow> int \<Rightarrow> int \<Rightarrow> bool" where
  "on_screen f r x \<longleftrightarrow> 0 \<le> r \<and> r < fb_height f \<and> 0 \<le> x \<and> x < fb_width f"

lemma colour_bytes:
  "ucast (ucast c :: u8) OR push_bit 8 (ucast (ucast (drop_bit 8 c) :: u8)) OR push_bit 16 (ucast (ucast (drop_bit 16 c) :: u8))
     OR push_bit 24 (ucast (ucast (drop_bit 24 c) :: u8)) = (c :: u32)"
proof (rule bit_word_eqI)
  fix n assume "n < LENGTH(32)"
  then consider "n < 8" | "8 \<le> n" "n < 16" | "16 \<le> n" "n < 24" | "24 \<le> n" "n < 32" by force
  then show "bit (ucast (ucast c :: u8) OR push_bit 8 (ucast (ucast (drop_bit 8 c) :: u8)) OR push_bit 16 (ucast (ucast (drop_bit 16 c) :: u8))
     OR push_bit 24 (ucast (ucast (drop_bit 24 c) :: u8)) :: u32) n = bit c n"
    by cases (auto simp: bit_simps)
qed

lemma word_of_int_inj31:
  "0 \<le> a \<Longrightarrow> a < 2 ^ 31 \<Longrightarrow> 0 \<le> b \<Longrightarrow> b < 2 ^ 31 \<Longrightarrow> (word_of_int a :: u64) = word_of_int b \<Longrightarrow> a = b"
  by (simp add: word_of_int_eq_iff take_bit_int_eq_self)

text \<open>Different pixels have no byte in common.\<close>

lemma bytes_distinct:
  assumes "sound_framebuffer f" "on_screen f r x" "on_screen f r' x'" "0 \<le> k" "k < 4" "0 \<le> k'" "k' < 4"
    and eq: "pixel_address f r x + word_of_int k = pixel_address f r' x' + word_of_int k'"
  shows "r = r' \<and> x = x' \<and> k = k'"
proof -
  let ?p = "fb_pitch f"
  have offset: "(r * ?p + (4 * x + k)) div ?p = r" "(r * ?p + (4 * x + k)) mod ?p = 4 * x + k"
      "0 \<le> r * ?p + (4 * x + k)" "r * ?p + (4 * x + k) < 2 ^ 31"
    if "on_screen f r x" "0 \<le> k" "k < 4" for r x k
  proof -
    have c: "0 \<le> 4 * x + k" "4 * x + k < ?p"
      using that assms(1) by (auto simp: on_screen_def sound_framebuffer_def)
    then show "(r * ?p + (4 * x + k)) div ?p = r" "(r * ?p + (4 * x + k)) mod ?p = 4 * x + k" by simp_all
    have r: "0 \<le> r" "r + 1 \<le> fb_height f" using that by (auto simp: on_screen_def)
    then show "0 \<le> r * ?p + (4 * x + k)" using c by simp
    have "(r + 1) * ?p \<le> fb_height f * ?p" using r c by (intro mult_right_mono) simp_all
    also have "fb_height f * ?p < 2 ^ 31" using assms(1) by (simp add: sound_framebuffer_def mult.commute)
    finally show "r * ?p + (4 * x + k) < 2 ^ 31" using c by (simp add: distrib_right)
  qed
  have "(word_of_int (r * ?p + (4 * x + k)) :: u64) = word_of_int (r' * ?p + (4 * x' + k'))"
    using eq by (simp add: pixel_address_def algebra_simps)
  then have same: "r * ?p + (4 * x + k) = r' * ?p + (4 * x' + k')"
    by (intro word_of_int_inj31 offset(3,4) assms)
  have "r = r'" using offset(1) [OF assms(2,4,5)] offset(1) [OF assms(3,6,7)] same by simp
  moreover from this have "4 * x + k = 4 * x' + k'" using same by simp
  then have "x = x'" "k = k'" using assms(4-7) by presburger+
  ultimately show ?thesis by simp
qed

lemma pixel_set_pixel:
  assumes "sound_framebuffer (fb d)" "on_screen (fb d) r x" "on_screen (fb d) r' x'"
  shows "pixel (set_pixel (pixel_address (fb d) r x) c d) r' x' = (if r' = r \<and> x' = x then c else pixel d r' x')"
proof (cases "r' = r \<and> x' = x")
  case True
  let ?a = "pixel_address (fb d) r x"
  have "?a + word_of_int k \<noteq> ?a + word_of_int k'" if "0 \<le> k" "k < 4" "0 \<le> k'" "k' < 4" "k \<noteq> k'" for k k'
    using bytes_distinct [OF assms(1,2,2)] that by blast
  from this [of 0 1] this [of 0 2] this [of 0 3] this [of 1 2] this [of 1 3] this [of 2 3] True show ?thesis
    by (simp add: pixel_def set_pixel_def Let_def colour_bytes)
next
  case False
  have "pixel_address (fb d) r' x' + word_of_int k \<noteq> pixel_address (fb d) r x + word_of_int k'"
    if "0 \<le> k" "k < 4" "0 \<le> k'" "k' < 4" for k k'
    using bytes_distinct [OF assms(1,3,2)] that False by blast
  from this [of 0 0] this [of 0 1] this [of 0 2] this [of 0 3] this [of 1 0] this [of 1 1] this [of 1 2] this [of 1 3]
    this [of 2 0] this [of 2 1] this [of 2 2] this [of 2 3] this [of 3 0] this [of 3 1] this [of 3 2] this [of 3 3]
  show ?thesis unfolding if_not_P [OF False] by (simp add: pixel_def set_pixel_def Let_def)
qed

lemma set_pixel_frame [simp]: "fb (set_pixel a c d) = fb d" "con (set_pixel a c d) = con d"
  by (simp_all add: set_pixel_def)

text \<open>Pixels set one after the other: the last one counts.\<close>

lemma pixel_fold:
  assumes "sound_framebuffer (fb d)" "\<And>i. i \<in> set xs \<Longrightarrow> on_screen (fb d) (R i) (X i)" "on_screen (fb d) r x"
  shows "fb (fold (\<lambda>i. set_pixel (pixel_address (fb d) (R i) (X i)) (col i)) xs d) = fb d"
    "\<nexists>i. i \<in> set xs \<and> R i = r \<and> X i = x \<Longrightarrow>
       pixel (fold (\<lambda>i. set_pixel (pixel_address (fb d) (R i) (X i)) (col i)) xs d) r x = pixel d r x"
    "i \<in> set xs \<Longrightarrow> R i = r \<Longrightarrow> X i = x \<Longrightarrow> inj_on (\<lambda>i. (R i, X i)) (set xs) \<Longrightarrow>
       pixel (fold (\<lambda>i. set_pixel (pixel_address (fb d) (R i) (X i)) (col i)) xs d) r x = col i"
proof -
  let ?f = "\<lambda>xs. fold (\<lambda>i. set_pixel (pixel_address (fb d) (R i) (X i)) (col i)) xs d"
  have all: "fb (?f xs) = fb d \<and>
      pixel (?f xs) r x = (if \<exists>i\<in>set xs. R i = r \<and> X i = x then col (last (filter (\<lambda>i. R i = r \<and> X i = x) xs)) else pixel d r x)"
    if "\<And>i. i \<in> set xs \<Longrightarrow> on_screen (fb d) (R i) (X i)" for xs
    using that
  proof (induction xs rule: rev_induct)
    case (snoc i xs)
    then have IH: "fb (?f xs) = fb d" "pixel (?f xs) r x =
        (if \<exists>i\<in>set xs. R i = r \<and> X i = x then col (last (filter (\<lambda>i. R i = r \<and> X i = x) xs)) else pixel d r x)" by auto
    have "pixel (?f (xs @ [i])) r x = (if r = R i \<and> x = X i then col i else pixel (?f xs) r x)"
      using pixel_set_pixel [of "?f xs" "R i" "X i" r x "col i"] snoc.prems [of i] assms(1,3) IH(1) by simp
    then show ?case using IH by auto
  qed simp
  show "fb (?f xs) = fb d" using all assms(2) by blast
  show "\<nexists>i. i \<in> set xs \<and> R i = r \<and> X i = x \<Longrightarrow> pixel (?f xs) r x = pixel d r x" using all [of xs] assms(2) by auto
  assume i: "i \<in> set xs" "R i = r" "X i = x" and inj: "inj_on (\<lambda>i. (R i, X i)) (set xs)"
  have "last (filter (\<lambda>i. R i = r \<and> X i = x) xs) = i"
  proof -
    have "filter (\<lambda>i. R i = r \<and> X i = x) xs \<noteq> []" using i by (auto simp: filter_empty_conv)
    then have "last (filter (\<lambda>i. R i = r \<and> X i = x) xs) \<in> {j \<in> set xs. R j = r \<and> X j = x}"
      using last_in_set by fastforce
    then show ?thesis using inj i by (auto simp: inj_on_def)
  qed
  then show "pixel (?f xs) r x = col i" using all [of xs] assms(2) i by auto
qed

definition glyph_bit :: "u8 \<Rightarrow> int \<Rightarrow> int \<Rightarrow> bool" where
  "glyph_bit ch j i \<longleftrightarrow> bit (font_8x8 ! (unat ch - 32) ! nat j) (nat i)"

definition in_cell :: "int \<Rightarrow> int \<Rightarrow> int \<Rightarrow> int \<Rightarrow> bool" where
  "in_cell x y r px \<longleftrightarrow> 8 * y \<le> r \<and> r < 8 * y + 8 \<and> 8 * x \<le> px \<and> px < 8 * x + 8"

lemma put_line_pixel:
  assumes "sound_framebuffer (fb d)" "on_screen (fb d) r (8 * x)" "on_screen (fb d) r (8 * x + 7)" "on_screen (fb d) r' px"
  shows "fb (put_line (pixel_address (fb d) r (8 * x)) line fg bg d) = fb d"
    "pixel (put_line (pixel_address (fb d) r (8 * x)) line fg bg d) r' px =
       (if r' = r \<and> 8 * x \<le> px \<and> px < 8 * x + 8 then (if bit line (nat (px - 8 * x)) then fg else bg) else pixel d r' px)"
proof -
  let ?col = "\<lambda>i. if bit line i then fg else bg"
  have line: "put_line (pixel_address (fb d) r (8 * x)) line fg bg d =
      fold (\<lambda>i. set_pixel (pixel_address (fb d) r (8 * x + int i)) (?col i)) [0..<8] d"
    by (simp add: put_line_def pixel_address_def algebra_simps)
  have on: "on_screen (fb d) r (8 * x + int i)" if "i \<in> set [0..<8]" for i
    using assms(2,3) that by (auto simp: on_screen_def)
  note fold = pixel_fold [where d = d and xs = "[0..<8]" and R = "\<lambda>i. r" and X = "\<lambda>i. 8 * x + int i" and r = r' and x = px and col = ?col,
      OF assms(1) on assms(4)]
  show "fb (put_line (pixel_address (fb d) r (8 * x)) line fg bg d) = fb d" unfolding line by (rule fold(1))
  show "pixel (put_line (pixel_address (fb d) r (8 * x)) line fg bg d) r' px =
       (if r' = r \<and> 8 * x \<le> px \<and> px < 8 * x + 8 then (if bit line (nat (px - 8 * x)) then fg else bg) else pixel d r' px)"
  proof (cases "r' = r \<and> 8 * x \<le> px \<and> px < 8 * x + 8")
    case True
    then have "nat (px - 8 * x) \<in> set [0..<8]" "8 * x + int (nat (px - 8 * x)) = px" by auto
    from fold(3) [OF _ this(1) _ this(2)] True show ?thesis unfolding line by (simp add: inj_on_def)
  next
    case False
    then have "\<nexists>i. i \<in> set [0..<8] \<and> r = r' \<and> 8 * x + int i = px" by auto
    from fold(2) [OF _ this] show ?thesis unfolding line if_not_P [OF False] .
  qed
qed

lemma putcharat_pixel:
  assumes sound: "sound_framebuffer (fb d)" and x: "0 \<le> x" "8 * x + 8 \<le> fb_width (fb d)"
    and y: "0 \<le> y" "8 * y + 8 \<le> fb_height (fb d)" and on: "on_screen (fb d) r px"
  shows "pixel (putcharat_unchecked ch x y fg bg d) r px =
    (if in_cell x y r px then (if glyph_bit ch (r - 8 * y) (px - 8 * x) then fg else bg) else pixel d r px)"
proof -
  let ?f = "fb d" and ?p = "fb_pitch (fb d)"
  have 1: "i32 (8 * y) = 8 * y" "i32 (32 * x) = 32 * x"
    using x y sound_width [OF sound] sound_height [OF sound] by (auto intro!: i32_id)
  have 2: "i32 (8 * y * ?p) = 8 * y * ?p" using y by (intro row_offset [OF sound]) simp_all
  have 3: "i32 (int j * ?p) = int j * ?p" if "j < 8" for j
    using that sound by (intro row_offset [OF sound]) (simp_all add: sound_framebuffer_def)
  have row: "fb_address ?f + word_of_int (8 * y * ?p) + word_of_int (32 * x) + word_of_int (i32 (int j * ?p)) =
      pixel_address ?f (8 * y + int j) (8 * x)" if "j < 8" for j
    using that by (simp add: 3 pixel_address_def algebra_simps)
  let ?lines = "\<lambda>n. fold (\<lambda>j. put_line (pixel_address ?f (8 * y + int j) (8 * x)) (font_8x8 ! (unat ch - 32) ! j) fg bg) [0..<n] d"
  have "fb (?lines n) = ?f \<and> pixel (?lines n) r px =
      (if in_cell x y r px \<and> r < 8 * y + int n then (if glyph_bit ch (r - 8 * y) (px - 8 * x) then fg else bg) else pixel d r px)"
    if "n \<le> 8" for n
    using that
  proof (induction n)
    case 0 then show ?case by (auto simp: in_cell_def)
  next
    case (Suc n)
    have line: "on_screen ?f (8 * y + int n) (8 * x)" "on_screen ?f (8 * y + int n) (8 * x + 7)"
      using x y Suc.prems by (auto simp: on_screen_def)
    have f: "fb (?lines n) = ?f" using Suc by simp
    note put = put_line_pixel [of "?lines n", unfolded f, OF sound line on]
    show ?case using Suc put by (auto simp: in_cell_def glyph_bit_def)
  qed
  from this [of 8] have "pixel (?lines 8) r px =
      (if in_cell x y r px then (if glyph_bit ch (r - 8 * y) (px - 8 * x) then fg else bg) else pixel d r px)"
    by (simp add: in_cell_def cong: if_cong)
  moreover have "putcharat_unchecked ch x y fg bg d = ?lines 8"
    unfolding putcharat_unchecked_def Let_def 1 2
    by (rule fold_cong [OF refl refl], subst row) simp_all
  ultimately show ?thesis by simp
qed

lemma clear_row_pixel:
  assumes sound: "sound_framebuffer (fb d)" and row: "0 \<le> row" "row < fb_height (fb d)" and on: "on_screen (fb d) r px"
  shows "pixel (clear_row row d) r px = (if r = row then con_bg (con d) else pixel d r px)"
proof -
  let ?xs = "[0..fb_width (fb d) - 1]"
  have "i32 (4 * x) = 4 * x" if "x \<in> set ?xs" for x using that sound_width [OF sound] by (intro i32_id) simp_all
  then have clear: "clear_row row d = fold (\<lambda>x. set_pixel (pixel_address (fb d) row x) (con_bg (con d))) ?xs d"
    unfolding clear_row_def row_offset(1) [OF sound row]
    by (intro fold_cong refl) (simp_all add: pixel_address_def algebra_simps)
  have in_row: "on_screen (fb d) row x" if "x \<in> set ?xs" for x using that row by (simp add: on_screen_def)
  note fold = pixel_fold [where d = d and xs = ?xs and R = "\<lambda>x. row" and X = "\<lambda>x. x" and col = "\<lambda>x. con_bg (con d)",
      OF sound in_row on]
  show ?thesis
  proof (cases "r = row")
    case True
    then have "px \<in> set ?xs" using on by (simp add: on_screen_def)
    from fold(3) [OF _ this] True show ?thesis unfolding clear by (simp add: inj_on_def)
  next
    case False
    then show ?thesis using fold(2) unfolding clear by auto
  qed
qed

lemma clear_line_pixel:
  assumes sound: "sound_framebuffer (fb d)" and y: "0 \<le> y" "8 * y + 8 \<le> fb_height (fb d)" and on: "on_screen (fb d) r px"
  shows "pixel (clear_line y d) r px = (if 8 * y \<le> r \<and> r < 8 * y + 8 then con_bg (con d) else pixel d r px)"
proof -
  have row: "i32 (i32 (8 * y) + int j) = 8 * y + int j" if "j < 8" for j
    using that y sound_height [OF sound] by (simp add: i32_id)
  let ?rows = "\<lambda>n. fold (\<lambda>j. clear_row (8 * y + int j)) [0..<n] d"
  have "confined d (?rows n) \<and>
      pixel (?rows n) r px = (if 8 * y \<le> r \<and> r < 8 * y + int n then con_bg (con d) else pixel d r px)"
    if "n \<le> 8" for n
    using that
  proof (induction n)
    case (Suc n)
    then have f: "fb (?rows n) = fb d" "con (?rows n) = con d" "confined d (?rows n)" by (auto simp: confined_def)
    have r: "0 \<le> 8 * y + int n" "8 * y + int n < fb_height (fb (?rows n))" using y Suc.prems f(1) by auto
    have "confined (?rows n) (clear_row (8 * y + int n) (?rows n))"
      by (rule clear_row_confined) (use r f(1) sound in auto)
    moreover have "pixel (clear_row (8 * y + int n) (?rows n)) r px =
        (if r = 8 * y + int n then con_bg (con d) else pixel (?rows n) r px)"
      using clear_row_pixel [of "?rows n" "8 * y + int n" r px] r f sound on by simp
    ultimately show ?case using Suc f(3) confined_trans by auto
  qed auto
  from this [of 8] have "pixel (?rows 8) r px = (if 8 * y \<le> r \<and> r < 8 * y + 8 then con_bg (con d) else pixel d r px)" by simp
  moreover have "clear_line y d = ?rows 8" unfolding clear_line_def by (rule fold_cong [OF refl refl]) (simp add: row)
  ultimately show ?thesis by simp
qed

text \<open>The line after that of the cursor; after the last one it is the first.\<close>

definition line_below :: "display \<Rightarrow> int" where
  "line_below d = (if con_y (con d) + 1 = con_maxy (con d) then 0 else con_y (con d) + 1)"

text \<open>A newline goes to the beginning of the next line and clears it.\<close>

lemma newline_shows:
  assumes "console_ok d" "on_screen (fb d) r px"
  shows "con (console_newline d) = (con d)\<lparr>con_x := 0, con_y := line_below d\<rparr>"
    "pixel (console_newline d) r px =
      (if 8 * line_below d \<le> r \<and> r < 8 * line_below d + 8 then con_bg (con d) else pixel d r px)"
proof -
  note ok = assms(1) [unfolded console_ok_def]
  let ?d = "d\<lparr>con := (con d)\<lparr>con_x := 0, con_y := line_below d\<rparr>\<rparr>"
  have "i32 (con_y (con d) + 1) = con_y (con d) + 1"
    using ok sound_height [of "fb d"] by (intro i32_id) auto
  then have nl: "console_newline d = clear_line (line_below d) ?d"
    using ok by (simp add: console_newline_def line_below_def Let_def)
  have y: "0 \<le> line_below d" "8 * line_below d + 8 \<le> fb_height (fb d)"
    using ok by (auto simp: line_below_def sound_framebuffer_def)
  have "confined ?d (clear_line (line_below d) ?d)" using ok y by (intro clear_line_confined) auto
  then show "con (console_newline d) = (con d)\<lparr>con_x := 0, con_y := line_below d\<rparr>" unfolding nl by (simp add: confined_def)
  have "pixel ?d r px = pixel d r px" by (simp add: pixel_def)
  then show "pixel (console_newline d) r px =
      (if 8 * line_below d \<le> r \<and> r < 8 * line_below d + 8 then con_bg (con d) else pixel d r px)"
    using clear_line_pixel [of ?d "line_below d" r px] ok y assms(2) unfolding nl by simp
qed

section \<open>Properties\<close>

text \<open>A cursor that is on the screen stays on it: whatever character is written, \<open>console_write\<close> does not
  panic, leaves the cursor on the screen, or one past the end of its line, and changes no byte outside the
  framebuffer. In a mode in which the products fit an \<open>int\<close>.\<close>

lemma console_write_ok:
  assumes "console_ok d"
  shows "\<exists>d'. console_write ch d = Some d' \<and> console_ok d' \<and> drawn d d'"
proof (cases "ch = 10")
  case True
  have "con_maxx (con d) \<noteq> 0" "con_maxy (con d) \<noteq> 0" using assms by (auto simp: console_ok_def sound_framebuffer_def)
  then show ?thesis using newline_ok [OF assms] True by (simp add: console_write_def)
next
  case False
  have max: "con_maxx (con d) \<noteq> 0" "con_maxy (con d) \<noteq> 0" using assms by (auto simp: console_ok_def sound_framebuffer_def)
  let ?d = "if con_maxx (con d) \<le> con_x (con d) then console_newline d else d"
  let ?c = "if printable ch then ch else 32"
  have nl: "console_ok ?d" "drawn d ?d" "con_x (con ?d) < con_maxx (con ?d)"
    using newline_ok [OF assms] assms by (auto simp: drawn_def console_ok_def sound_framebuffer_def)
  note ok = nl(1) [unfolded console_ok_def]
  let ?e = "putcharat_unchecked ?c (con_x (con ?d)) (con_y (con ?d)) (con_fg (con ?d)) (con_bg (con ?d)) ?d"
  have "confined ?d ?e" using ok nl(3) by (intro putcharat_confined) auto
  moreover have "i32 (con_x (con ?d) + 1) = con_x (con ?d) + 1"
    using ok nl(3) sound_width [of "fb ?d"] by (intro i32_id) auto
  moreover have "console_write ch d = Some (?e\<lparr>con := (con ?e)\<lparr>con_x := i32 (con_x (con ?e) + 1)\<rparr>\<rparr>)"
    using False max by (simp add: console_write_def Let_def)
  ultimately show ?thesis using nl by (auto simp: confined_def console_ok_def drawn_def)
qed

lemma write_in_line:
  assumes "console_ok d" "con_x (con d) < con_maxx (con d)" "ch \<noteq> 10" "on_screen (fb d) r px"
  shows "\<exists>d'. console_write ch d = Some d' \<and> con d' = (con d)\<lparr>con_x := con_x (con d) + 1\<rparr> \<and>
    pixel d' r px =
      (if in_cell (con_x (con d)) (con_y (con d)) r px
       then (if glyph_bit (if printable ch then ch else 32) (r - 8 * con_y (con d)) (px - 8 * con_x (con d))
             then con_fg (con d) else con_bg (con d))
       else pixel d r px)"
proof -
  note ok = assms(1) [unfolded console_ok_def]
  let ?c = "if printable ch then ch else 32" and ?x = "con_x (con d)" and ?y = "con_y (con d)"
  let ?e = "putcharat_unchecked ?c ?x ?y (con_fg (con d)) (con_bg (con d)) d"
  have cell: "0 \<le> ?x" "8 * ?x + 8 \<le> fb_width (fb d)" "0 \<le> ?y" "8 * ?y + 8 \<le> fb_height (fb d)" using ok assms(2) by auto
  have "con ?e = con d" "fb ?e = fb d" using putcharat_confined [of d ?x ?y] ok cell by (simp_all add: confined_def)
  moreover have "i32 (?x + 1) = ?x + 1" using cell sound_width [of "fb d"] ok by (intro i32_id) auto
  ultimately have "console_write ch d = Some (?e\<lparr>con := (con d)\<lparr>con_x := ?x + 1\<rparr>\<rparr>)"
    using assms(2,3) ok by (simp add: console_write_def Let_def)
  moreover have "pixel (?e\<lparr>con := c\<rparr>) r px = pixel ?e r px" for c by (simp add: pixel_def)
  ultimately show ?thesis using putcharat_pixel [OF _ cell assms(4)] ok by simp
qed

text \<open>Past the end of a line the character is that of a newline first.\<close>

lemma write_wraps:
  assumes "console_ok d" "con_maxx (con d) \<le> con_x (con d)" "ch \<noteq> 10"
  shows "console_write ch d = console_write ch (console_newline d)"
proof -
  note n = newline_ok [OF assms(1)]
  have "0 < con_maxx (con d)" "con_maxy (con d) \<noteq> 0" using assms(1) by (auto simp: console_ok_def sound_framebuffer_def)
  moreover have "con_maxx (con (console_newline d)) = con_maxx (con d)" "con_maxy (con (console_newline d)) = con_maxy (con d)"
    using n(1,2) assms(1) by (simp_all add: console_ok_def drawn_def)
  ultimately show ?thesis using assms(2,3) n(3) by (simp add: console_write_def Let_def)
qed

text \<open>C16. What is written is what is seen. A character other than a newline appears in its glyph and the current colours (one that is
  not printable as a space) in the cell of the cursor, or, when the cursor is past the end of its line, in the first
  cell of the next line (the first line after the last), which is cleared to the background colour before. Every other
  pixel of the screen keeps its colour, and the cursor is one cell after the character. The console is in a consistent state: the
  cursor on the screen or one past the end of its line, in a mode in which the products fit an \<open>int\<close>.\<close>

theorem console_write_shows:
  assumes "console_ok d" "ch \<noteq> 10" "on_screen (fb d) r px"
  shows "\<exists>d'. console_write ch d = Some d' \<and>
    (let wrap = con_maxx (con d) \<le> con_x (con d);
         x = (if wrap then 0 else con_x (con d));
         y = (if wrap then line_below d else con_y (con d))
     in con d' = (con d)\<lparr>con_y := y, con_x := x + 1\<rparr> \<and>
        pixel d' r px =
          (if in_cell x y r px
           then (if glyph_bit (if printable ch then ch else 32) (r - 8 * y) (px - 8 * x) then con_fg (con d) else con_bg (con d))
           else if wrap \<and> 8 * y \<le> r \<and> r < 8 * y + 8 then con_bg (con d)
           else pixel d r px))"
proof (cases "con_maxx (con d) \<le> con_x (con d)")
  case False
  then show ?thesis using write_in_line [OF assms(1) _ assms(2,3)] by (simp add: Let_def cong: if_cong split del: if_split)
next
  case True
  let ?n = "console_newline d"
  note n = newline_ok [OF assms(1)] and shown = newline_shows [OF assms(1,3)]
  have "con_x (con ?n) < con_maxx (con ?n)" using n(1,3) by (auto simp: console_ok_def sound_framebuffer_def)
  moreover have "on_screen (fb ?n) r px" using n(2) assms(3) by (simp add: drawn_def)
  ultimately show ?thesis
    using write_in_line [OF n(1) _ assms(2), of r px] write_wraps [OF assms(1) True assms(2)] True shown
    by (simp add: Let_def cong: if_cong split del: if_split)
qed

definition small_display :: display where
  "small_display = \<lparr>fb = \<lparr>fb_address = 0x1000, fb_width = 16, fb_height = 8, fb_pitch = 64\<rparr>,
     con = \<lparr>con_x = 0, con_y = 0, con_maxx = 2, con_maxy = 1, con_fg = COLOR_WHITE, con_bg = COLOR_BLACK\<rparr>,
     fb_ready = True, video = (\<lambda>_. 0xff)\<rparr>"

lemma small_display_ok: "console_ok small_display"
  by (simp add: console_ok_def small_display_def sound_framebuffer_def)

text \<open>The same screen after its only line is full.\<close>

definition full_display :: display where
  "full_display = small_display\<lparr>con := (con small_display)\<lparr>con_x := 2\<rparr>\<rparr>"

lemma full_display_ok: "console_ok full_display"
  by (simp add: console_ok_def full_display_def small_display_def sound_framebuffer_def)

theorem console_write_shows_witness:
  "(\<exists>d'. console_write 65 small_display = Some d' \<and> con_x (con d') = 1 \<and>
      pixel d' 0 0 = (if glyph_bit 65 0 0 then COLOR_WHITE else COLOR_BLACK)) \<and>
   (\<exists>d'. console_write 65 full_display = Some d' \<and> con_x (con d') = 1 \<and> pixel d' 0 9 = COLOR_BLACK)"
proof -
  have "(65 :: u8) \<noteq> 10" "on_screen (fb small_display) 0 0" "on_screen (fb full_display) 0 9"
    by (simp_all add: small_display_def full_display_def on_screen_def)
  from console_write_shows [OF small_display_ok this(1,2)] console_write_shows [OF full_display_ok this(1,3)] show ?thesis
    by (auto simp: small_display_def full_display_def in_cell_def printable_def word_sle_eq word_sless_alt line_below_def Let_def)
qed

text \<open>\<open>console_move\<close> clamps the row with the number of columns, and lets a coordinate be one too large. On a
  screen with more columns than rows the next character is drawn below the framebuffer; here the first byte
  after it is overwritten.\<close>

theorem console_move_escapes:
  "console_ok small_display \<and> \<not> in_framebuffer (fb small_display) 0x1200 \<and>
   video small_display 0x1200 = 0xff \<and>
   map_option (\<lambda>d. video d 0x1200) (console_write 32 (console_move 0 1 small_display)) = Some 0"
proof (intro conjI)
  have "(0x1200 :: u64) \<noteq> 0x1000 + word_of_nat i" if "i < 512" for i
  proof
    assume "(0x1200 :: u64) = 0x1000 + word_of_nat i"
    then have "unat (0x1200 :: u64) = unat (0x1000 + word_of_nat i :: u64)" by (rule arg_cong)
    also have "\<dots> = 0x1000 + i" using that by (simp add: unat_word_ariths unat_of_nat)
    finally show False using that by simp
  qed
  then show "\<not> in_framebuffer (fb small_display) 0x1200" by (auto simp: in_framebuffer_def small_display_def)
qed (rule small_display_ok, simp add: small_display_def, code_simp)

end
