(* ===== verification/Serial.thy ===== *)
theory Serial
  imports Console
begin

text \<open>
  The serial port, \<open>kernel/src/x86_64/serial.c\<close>, and the destinations of kernel output, \<open>kernel/src/print/print.c\<close>.

  The devices behind the I/O ports are the parameters \<open>inb\<close> and \<open>outb\<close> on a state \<open>'s\<close>: a read may change the
  device. \<open>None\<close> is a panic or, for the polling loop, a wait that does not end.
\<close>

type_synonym 's in_port = "u16 \<Rightarrow> 's \<Rightarrow> u8 \<times> 's"
type_synonym 's out_port = "u16 \<Rightarrow> u8 \<Rightarrow> 's \<Rightarrow> 's"

section \<open>Registers\<close>

definition REG_BAUD_LOW :: u16 where "REG_BAUD_LOW = 0"
definition REG_BAUD_HIGH :: u16 where "REG_BAUD_HIGH = 1"
definition REG_INTERRUPT_ENABLE :: u16 where "REG_INTERRUPT_ENABLE = 1"
definition REG_FIFO_CONTROL :: u16 where "REG_FIFO_CONTROL = 2"
definition REG_LINE_CONTROL :: u16 where "REG_LINE_CONTROL = 3"
definition REG_MODEM_CONTROL :: u16 where "REG_MODEM_CONTROL = 4"
definition REG_LINE_STATUS :: u16 where "REG_LINE_STATUS = 5"
definition REG_SCRATCH :: u16 where "REG_SCRATCH = 7"

definition FIFO_SETUP :: u8 where "FIFO_SETUP = 0x01 OR 0x02 OR 0x04 OR 0x80"
definition LINE_CTRL_DIV_LATCH :: u8 where "LINE_CTRL_DIV_LATCH = 0x80"
definition LINE_CTRL_8N1 :: u8 where "LINE_CTRL_8N1 = 0x03"
definition MODEM_CTRL_DTR :: u8 where "MODEM_CTRL_DTR = 0x01"
definition MODEM_CTRL_RTS :: u8 where "MODEM_CTRL_RTS = 0x02"
definition MODEM_CTRL_LOOPBACK :: u8 where "MODEM_CTRL_LOOPBACK = 0x10"
definition LINE_STATUS_DATA_READY :: u8 where "LINE_STATUS_DATA_READY = 0x01"
definition LINE_STATUS_TX_EMPTY :: u8 where "LINE_STATUS_TX_EMPTY = 0x40"

definition MAX_BAUD_RATE :: u32 where "MAX_BAUD_RATE = 115200"
definition BAUD_RATE :: u32 where "BAUD_RATE = 9600"
definition SCRATCH_TEST_BYTE :: u8 where "SCRATCH_TEST_BYTE = 0xAB"
definition LOOP_TEST_BYTE :: u8 where "LOOP_TEST_BYTE = 0xCD"

section \<open>Detection and set-up\<close>

definition set_div_latch :: "'s in_port \<Rightarrow> 's out_port \<Rightarrow> u16 \<Rightarrow> bool \<Rightarrow> 's \<Rightarrow> 's" where
  "set_div_latch inb outb port enabled s =
     (let line_control = port + REG_LINE_CONTROL;
          (val, s) = inb line_control s;
          new = (if enabled then val OR LINE_CTRL_DIV_LATCH else val AND NOT LINE_CTRL_DIV_LATCH)
      in if new \<noteq> val then outb line_control new s else s)"

definition serial_detect_setup :: "'s in_port \<Rightarrow> 's out_port \<Rightarrow> u16 \<Rightarrow> 's \<Rightarrow> bool \<times> 's" where
  "serial_detect_setup inb outb port s =
     (let s = outb (port + REG_SCRATCH) SCRATCH_TEST_BYTE s;
          (v, s) = inb (port + REG_SCRATCH) s
      in if SCRATCH_TEST_BYTE \<noteq> v then (False, s)
         else let
           s = set_div_latch inb outb port False s;
           s = outb (port + REG_INTERRUPT_ENABLE) 0 s;
           s = set_div_latch inb outb port True s;
           baud = ucast (MAX_BAUD_RATE div BAUD_RATE) :: u16;
           s = outb (port + REG_BAUD_LOW) (ucast (baud AND 0xff)) s;
           s = outb (port + REG_BAUD_HIGH) (ucast (drop_bit 8 baud)) s;
           s = outb (port + REG_LINE_CONTROL) LINE_CTRL_8N1 s;
           s = outb (port + REG_FIFO_CONTROL) FIFO_SETUP s;
           s = outb (port + REG_MODEM_CONTROL) (MODEM_CTRL_DTR OR MODEM_CTRL_RTS OR MODEM_CTRL_LOOPBACK) s;
           s = outb port LOOP_TEST_BYTE s;
           (v, s) = inb port s
         in if v \<noteq> LOOP_TEST_BYTE then (False, s)
            else (True, outb (port + REG_MODEM_CONTROL) (MODEM_CTRL_DTR OR MODEM_CTRL_RTS) s))"

definition serial_address :: "u16 list" where
  "serial_address = [0x3f8, 0x2f8, 0x3e8, 0x2e8]"

text \<open>The state of the driver: its \<open>port\<close>, 0 for none, and the mark of \<open>INIT_ONCE\<close>.\<close>

record serial =
  port :: u16
  serial_done :: bool

fun serial_search :: "'s in_port \<Rightarrow> 's out_port \<Rightarrow> u16 list \<Rightarrow> 's \<Rightarrow> u16 \<times> 's" where
  "serial_search inb outb [] s = (0, s)"
| "serial_search inb outb (a # as) s =
     (case serial_detect_setup inb outb a s of (found, s) \<Rightarrow> if found then (a, s) else serial_search inb outb as s)"

definition serial_init :: "'s in_port \<Rightarrow> 's out_port \<Rightarrow> serial \<Rightarrow> 's \<Rightarrow> (int \<times> serial \<times> 's) option" where
  "serial_init inb outb d s =
     (if serial_done d then None
      else case serial_search inb outb serial_address s of (a, s) \<Rightarrow>
        Some (uint a, d\<lparr>serial_done := True, port := (if a = 0 then port d else a)\<rparr>, s))"

section \<open>Transfer\<close>

partial_function (option) serial_wait :: "'s in_port \<Rightarrow> u16 \<Rightarrow> 's \<Rightarrow> 's option" where
  "serial_wait inb p s =
     (case inb (p + REG_LINE_STATUS) s of (v, s) \<Rightarrow>
        if v AND LINE_STATUS_TX_EMPTY = 0 then serial_wait inb p s else Some s)"

definition serial_send :: "'s in_port \<Rightarrow> 's out_port \<Rightarrow> u16 \<Rightarrow> u8 \<Rightarrow> 's \<Rightarrow> 's option" where
  "serial_send inb outb p c s = do { s \<leftarrow> serial_wait inb p s; Some (outb p c s) }"

definition serial_write :: "'s in_port \<Rightarrow> 's out_port \<Rightarrow> serial \<Rightarrow> u8 \<Rightarrow> 's \<Rightarrow> 's option" where
  "serial_write inb outb d c s = do {
     kassert (port d \<noteq> 0);
     s \<leftarrow> (if c = 10 then serial_send inb outb (port d) 13 s else Some s);
     serial_send inb outb (port d) c s
   }"

text \<open>\<open>EOF\<close> is -1.\<close>

definition serial_read :: "'s in_port \<Rightarrow> serial \<Rightarrow> 's \<Rightarrow> (int \<times> 's) option" where
  "serial_read inb d s = do {
     kassert (port d \<noteq> 0);
     let (v, s) = inb (port d + REG_LINE_STATUS) s;
     if v AND LINE_STATUS_DATA_READY \<noteq> 0
     then (case inb (port d) s of (c, s) \<Rightarrow> Some (uint c, s))
     else Some (- 1, s)
   }"

section \<open>Output\<close>

definition PRINT_DEST_SERIAL :: u32 where "PRINT_DEST_SERIAL = 1"
definition PRINT_DEST_CONSOLE :: u32 where "PRINT_DEST_CONSOLE = 2"

record 's out_state =
  stdout_dest :: u32
  screen :: display
  serial_port :: serial
  device :: 's

definition print_dest_enable :: "u32 \<Rightarrow> 's out_state \<Rightarrow> 's out_state" where
  "print_dest_enable dest out = out\<lparr>stdout_dest := stdout_dest out OR dest\<rparr>"

definition print_dest_disable :: "u32 \<Rightarrow> 's out_state \<Rightarrow> 's out_state" where
  "print_dest_disable dest out = out\<lparr>stdout_dest := stdout_dest out AND NOT dest\<rparr>"

definition to_console :: "u8 \<Rightarrow> 's out_state \<Rightarrow> 's out_state option" where
  "to_console c out = map_option (\<lambda>d. out\<lparr>screen := d\<rparr>) (console_write c (screen out))"

definition to_serial :: "'s in_port \<Rightarrow> 's out_port \<Rightarrow> u8 \<Rightarrow> 's out_state \<Rightarrow> 's out_state option" where
  "to_serial inb outb c out = map_option (\<lambda>s. out\<lparr>device := s\<rparr>) (serial_write inb outb (serial_port out) c (device out))"

fun write_all :: "(u8 \<Rightarrow> 'o \<Rightarrow> 'o option) \<Rightarrow> u8 list \<Rightarrow> 'o \<Rightarrow> 'o option" where
  "write_all put [] out = Some out"
| "write_all put (c # cs) out = do { out \<leftarrow> put c out; write_all put cs out }"

definition write_out :: "'s in_port \<Rightarrow> 's out_port \<Rightarrow> u8 list \<Rightarrow> 's out_state \<Rightarrow> 's out_state option" where
  "write_out inb outb data out = do {
     out \<leftarrow> (if stdout_dest out AND PRINT_DEST_CONSOLE \<noteq> 0 then write_all to_console data out else Some out);
     (if stdout_dest out AND PRINT_DEST_SERIAL \<noteq> 0 then write_all (to_serial inb outb) data out else Some out)
   }"

definition putchar_out :: "'s in_port \<Rightarrow> 's out_port \<Rightarrow> u32 \<Rightarrow> 's out_state \<Rightarrow> (u32 \<times> 's out_state) option" where
  "putchar_out inb outb c out = do {
     out \<leftarrow> (if stdout_dest out AND PRINT_DEST_CONSOLE \<noteq> 0 then to_console (ucast c) out else Some out);
     out \<leftarrow> (if stdout_dest out AND PRINT_DEST_SERIAL \<noteq> 0 then to_serial inb outb (ucast c) out else Some out);
     Some (c, out)
   }"

text \<open>The argument of \<open>puts\<close> is the string before its zero.\<close>

definition puts_out :: "'s in_port \<Rightarrow> 's out_port \<Rightarrow> u8 list \<Rightarrow> 's out_state \<Rightarrow> (u32 \<times> 's out_state) option" where
  "puts_out inb outb str out = do {
     out \<leftarrow> write_out inb outb str out;
     (_, out) \<leftarrow> putchar_out inb outb 10 out;
     Some (0, out)
   }"

section \<open>What arrives\<close>

text \<open>A transmitter at \<open>p\<close>, as its manual promises: while it is busy it has ever less to do before it is empty, reading its
  status sends nothing, and a byte written to it is sent. \<open>sent\<close> is what has been sent.\<close>

definition transmitter :: "'s in_port \<Rightarrow> 's out_port \<Rightarrow> u16 \<Rightarrow> ('s \<Rightarrow> nat) \<Rightarrow> ('s \<Rightarrow> u8 list) \<Rightarrow> bool" where
  "transmitter inb outb p busy sent \<longleftrightarrow>
     (\<forall>s v s'. inb (p + REG_LINE_STATUS) s = (v, s') \<longrightarrow>
        sent s' = sent s \<and> (v AND LINE_STATUS_TX_EMPTY = 0 \<longrightarrow> busy s' < busy s))
     \<and> (\<forall>c s. sent (outb p c s) = sent s @ [c])"

text \<open>A line feed is sent as a carriage return and a line feed.\<close>

definition crlf :: "u8 \<Rightarrow> u8 list" where
  "crlf c = (if c = 10 then [13, 10] else [c])"

lemma serial_wait_ends:
  assumes "transmitter inb outb p busy sent"
  shows "\<exists>s'. serial_wait inb p s = Some s' \<and> sent s' = sent s"
proof (induction "busy s" arbitrary: s rule: less_induct)
  case less
  obtain v t where t: "inb (p + REG_LINE_STATUS) s = (v, t)" by (cases "inb (p + REG_LINE_STATUS) s")
  then have law: "sent t = sent s" "v AND LINE_STATUS_TX_EMPTY = 0 \<Longrightarrow> busy t < busy s"
    using assms unfolding transmitter_def by blast+
  show ?case
  proof (cases "v AND LINE_STATUS_TX_EMPTY = 0")
    case True
    from less [OF law(2) [OF True]] show ?thesis using t law(1) True by (simp add: serial_wait.simps [of inb p s])
  next
    case False
    then show ?thesis using t law(1) by (simp add: serial_wait.simps [of inb p s])
  qed
qed

lemma serial_send_sends:
  assumes "transmitter inb outb p busy sent"
  shows "\<exists>s'. serial_send inb outb p c s = Some s' \<and> sent s' = sent s @ [c]"
  using serial_wait_ends [OF assms, of s] assms by (auto simp: serial_send_def transmitter_def)

lemma serial_write_sends:
  assumes "transmitter inb outb (port d) busy sent" "port d \<noteq> 0"
  shows "\<exists>s'. serial_write inb outb d c s = Some s' \<and> sent s' = sent s @ crlf c"
proof (cases "c = 10")
  case False
  then show ?thesis using assms serial_send_sends [OF assms(1), of c s] by (auto simp: serial_write_def crlf_def)
next
  case True
  obtain t where t: "serial_send inb outb (port d) 13 s = Some t" "sent t = sent s @ [13]"
    using serial_send_sends [OF assms(1), of 13 s] by blast
  then show ?thesis using assms True serial_send_sends [OF assms(1), of 10 t] by (auto simp: serial_write_def crlf_def)
qed

lemma write_console:
  "console_ok (screen out) \<Longrightarrow> \<exists>d. write_all to_console data out = Some (out\<lparr>screen := d\<rparr>) \<and> console_ok d \<and> drawn (screen out) d"
proof (induction data arbitrary: out)
  case Nil
  then show ?case by (auto simp: drawn_def intro!: exI [of _ "screen out"])
next
  case (Cons c cs)
  obtain d where d: "console_write c (screen out) = Some d" "console_ok d" "drawn (screen out) d"
    using console_write_ok [OF Cons.prems] by blast
  then have "to_console c out = Some (out\<lparr>screen := d\<rparr>)" by (simp add: to_console_def)
  moreover obtain e where "write_all to_console cs (out\<lparr>screen := d\<rparr>) = Some (out\<lparr>screen := e\<rparr>)" "console_ok e" "drawn d e"
    using Cons.IH [of "out\<lparr>screen := d\<rparr>"] d by auto
  ultimately show ?case using d by (auto simp: drawn_def)
qed

lemma write_serial:
  "transmitter inb outb (port (serial_port out)) busy sent \<Longrightarrow> port (serial_port out) \<noteq> 0 \<Longrightarrow>
   \<exists>s. write_all (to_serial inb outb) data out = Some (out\<lparr>device := s\<rparr>) \<and> sent s = sent (device out) @ concat (map crlf data)"
proof (induction data arbitrary: out)
  case Nil
  then show ?case by (auto intro!: exI [of _ "device out"])
next
  case (Cons c cs)
  obtain t where t: "serial_write inb outb (serial_port out) c (device out) = Some t" "sent t = sent (device out) @ crlf c"
    using serial_write_sends [OF Cons.prems] by blast
  then have "to_serial inb outb c out = Some (out\<lparr>device := t\<rparr>)" by (simp add: to_serial_def)
  moreover obtain u where "write_all (to_serial inb outb) cs (out\<lparr>device := t\<rparr>) = Some (out\<lparr>device := u\<rparr>)"
      "sent u = sent t @ concat (map crlf cs)"
    using Cons.IH [of "out\<lparr>device := t\<rparr>"] Cons.prems t by auto
  ultimately show ?case using t by auto
qed

lemma write_arrives:
  assumes ok: "console_ok (screen out)"
    and tx: "transmitter inb outb (port (serial_port out)) busy sent" "port (serial_port out) \<noteq> 0"
  shows "\<exists>d s. write_out inb outb data out = Some (out\<lparr>screen := d, device := s\<rparr>) \<and> console_ok d \<and> drawn (screen out) d
    \<and> sent s = sent (device out) @ (if stdout_dest out AND PRINT_DEST_SERIAL \<noteq> 0 then concat (map crlf data) else [])"
proof -
  obtain d where d: "(if stdout_dest out AND PRINT_DEST_CONSOLE \<noteq> 0 then write_all to_console data out else Some out) =
      Some (out\<lparr>screen := d\<rparr>)" "console_ok d" "drawn (screen out) d"
  proof (cases "stdout_dest out AND PRINT_DEST_CONSOLE = 0")
    case True
    then show ?thesis using that [of "screen out"] ok by (simp add: drawn_def)
  next
    case False
    then show ?thesis using write_console [OF ok, of data] that by auto
  qed
  obtain s where s: "(if stdout_dest out AND PRINT_DEST_SERIAL \<noteq> 0 then write_all (to_serial inb outb) data (out\<lparr>screen := d\<rparr>)
        else Some (out\<lparr>screen := d\<rparr>)) = Some (out\<lparr>screen := d, device := s\<rparr>)"
      "sent s = sent (device out) @ (if stdout_dest out AND PRINT_DEST_SERIAL \<noteq> 0 then concat (map crlf data) else [])"
  proof (cases "stdout_dest out AND PRINT_DEST_SERIAL = 0")
    case True
    then show ?thesis using that [of "device out"] by simp
  next
    case False
    then show ?thesis using write_serial [of inb outb "out\<lparr>screen := d\<rparr>" busy sent data] tx that by auto
  qed
  have "write_out inb outb data out = Some (out\<lparr>screen := d, device := s\<rparr>)"
    unfolding write_out_def d(1) using s(1) by simp
  then show ?thesis using d(2,3) s(2) by blast
qed

lemma write_all_single [simp]: "write_all put [c] out = put c out"
  by (cases "put c out") simp_all

lemma map_bind_pair: "map_option (Pair c) (Option.bind m f) = Option.bind m (\<lambda>x. Option.bind (f x) (\<lambda>y. Some (c, y)))"
  by (cases m) (simp_all add: map_conv_bind_option comp_def)

lemma putchar_writes: "putchar_out inb outb c out = map_option (Pair c) (write_out inb outb [ucast c] out)"
  unfolding putchar_out_def write_out_def write_all_single map_bind_pair ..

text \<open>C17. Kernel output arrives: with a console whose cursor is on the screen and a serial port that was found, \<open>puts\<close>
  panics nowhere and waits for ever nowhere; the serial line gets exactly the bytes of the string and a newline,
  each line feed preceded by a carriage return, if it is one of the destinations, and nothing otherwise; the console's
  cursor stays on the screen and nothing outside the framebuffer is written.\<close>

theorem puts_arrives:
  assumes "console_ok (screen out)" "transmitter inb outb (port (serial_port out)) busy sent" "port (serial_port out) \<noteq> 0"
  shows "\<exists>out'. puts_out inb outb str out = Some (0, out') \<and> console_ok (screen out') \<and> drawn (screen out) (screen out')
    \<and> sent (device out') = sent (device out) @
        (if stdout_dest out AND PRINT_DEST_SERIAL \<noteq> 0 then concat (map crlf str) @ [13, 10] else [])"
proof -
  obtain d s where 1: "write_out inb outb str out = Some (out\<lparr>screen := d, device := s\<rparr>)" "console_ok d" "drawn (screen out) d"
      "sent s = sent (device out) @ (if stdout_dest out AND PRINT_DEST_SERIAL \<noteq> 0 then concat (map crlf str) else [])"
    using write_arrives [OF assms] by blast
  obtain e t where 2: "write_out inb outb [10] (out\<lparr>screen := d, device := s\<rparr>) = Some (out\<lparr>screen := e, device := t\<rparr>)"
      "console_ok e" "drawn d e" "sent t = sent s @ (if stdout_dest out AND PRINT_DEST_SERIAL \<noteq> 0 then crlf 10 else [])"
    using write_arrives [of "out\<lparr>screen := d, device := s\<rparr>" inb outb busy sent "[10]"] 1(2) assms(2,3) by auto
  have "puts_out inb outb str out = Some (0, out\<lparr>screen := e, device := t\<rparr>)"
    using 1(1) 2(1) by (simp add: puts_out_def putchar_writes)
  then show ?thesis using 1(2-) 2(2-) by (auto simp: crlf_def drawn_def)
qed

text \<open>A port at 0x3f8 whose transmitter is busy for three polls after each byte.\<close>

record slow_uart =
  polls :: nat
  line :: "u8 list"

definition slow_inb :: "slow_uart in_port" where
  "slow_inb p s = (if 0 < polls s then (0, s\<lparr>polls := polls s - 1\<rparr>) else (0x60, s))"

definition slow_outb :: "slow_uart out_port" where
  "slow_outb p c s = s\<lparr>polls := 3, line := line s @ [c]\<rparr>"

theorem puts_arrives_witness:
  "\<exists>out'. puts_out slow_inb slow_outb [104, 105]
      \<lparr>stdout_dest = 3, screen = small_display, serial_port = \<lparr>port = 0x3f8, serial_done = True\<rparr>, device = \<lparr>polls = 1, line = []\<rparr>\<rparr> =
      Some (0, out') \<and> console_ok (screen out') \<and> line (device out') = [104, 105, 13, 10]"
proof -
  let ?out = "\<lparr>stdout_dest = 3, screen = small_display, serial_port = \<lparr>port = 0x3f8, serial_done = True\<rparr>, device = \<lparr>polls = 1, line = []\<rparr>\<rparr>"
  have "transmitter slow_inb slow_outb (port (serial_port ?out)) polls line"
    by (auto simp: transmitter_def slow_inb_def slow_outb_def LINE_STATUS_TX_EMPTY_def split: if_splits)
  from puts_arrives [OF _ this, of "[104, 105]"] show ?thesis
    using small_display_ok by (auto simp: PRINT_DEST_SERIAL_def crlf_def)
qed

end
