(* ===== verification/Timers.thy ===== *)
theory Timers
  imports Serial
begin

text \<open>
  Time: the time-stamp counter (\<open>kernel/src/x86_64/tsc.c\<close>, \<open>time.h\<close>) and the local APIC's timer (\<open>apic.c\<close>).

  The hardware is a state \<open>'s\<close> with the parameters \<open>rdtsc\<close>, \<open>cpuid\<close>, \<open>inb\<close> and \<open>outb\<close>; the registers of the APIC are
  read with \<open>areg\<close> and written with \<open>aset\<close>. \<open>None\<close> is a panic, a divide exception, or a wait that does not end.
\<close>

type_synonym u128 = "128 word"

section \<open>The time-stamp counter\<close>

record calibration =
  period_high :: u64
  period_low :: u64
  frequency :: u64
  offset :: u64

record cpuid_result =
  eax :: u32
  ebx :: u32
  ecx :: u32
  edx :: u32

definition read_tsc_cpuid :: "(u32 \<Rightarrow> u32 \<Rightarrow> cpuid_result) \<Rightarrow> u64" where
  "read_tsc_cpuid cpuid =
     (if edx (cpuid 0x80000007 0) AND 0x100 = 0 then 0
      else let r = cpuid 0x15 0
        in if eax r = 0 \<or> ebx r = 0 \<or> ecx r = 0 then 0
           else (ucast (ecx r) * ucast (ebx r)) div ucast (eax r))"

text \<open>Waiting for the output of the timer, bit 5 of port 0x61, to be \<open>high\<close> or low.\<close>

partial_function (option) wait_output :: "'s in_port \<Rightarrow> bool \<Rightarrow> 's \<Rightarrow> 's option" where
  "wait_output inb high s =
     (case inb 0x61 s of (v, s) \<Rightarrow> if (v AND 0x20 \<noteq> 0) = high then Some s else wait_output inb high s)"

definition time_tsc_with_pit_10ms :: "'s in_port \<Rightarrow> 's out_port \<Rightarrow> ('s \<Rightarrow> u64 \<times> 's) \<Rightarrow> 's \<Rightarrow> (u64 \<times> 's) option" where
  "time_tsc_with_pit_10ms inb outb rdtsc s = do {
     let (v, s) = inb 0x61 s;
     let s = outb 0x61 (v AND 0xc) s;
     let s = outb 0x43 0b10110000 s;
     let s = outb 0x42 (ucast ((11931 :: u32) AND 0xff)) s;
     let s = outb 0x42 (ucast (drop_bit 8 (11931 :: u32))) s;
     let (v, s) = inb 0x61 s;
     let s = outb 0x61 (v OR 1) s;
     let (t0, s) = rdtsc s;
     s \<leftarrow> wait_output inb False s;
     s \<leftarrow> wait_output inb True s;
     let (t1, s) = rdtsc s;
     let (v, s) = inb 0x61 s;
     let s = outb 0x61 (v AND 0xc) s;
     Some (t1 - t0, s)
   }"

text \<open>The instruction \<open>div\<close>, which raises an exception when the quotient has no place in 64 bits.\<close>

definition udiv :: "u64 \<Rightarrow> u64 \<Rightarrow> u64 \<Rightarrow> (u64 \<times> u64) option" where
  "udiv upper lower divisor =
     (if divisor \<le> upper then None
      else let n = unat upper * 2 ^ 64 + unat lower
        in Some (word_of_nat (n div unat divisor), word_of_nat (n mod unat divisor)))"

definition tsc_calibrate :: "u64 \<Rightarrow> u64 \<Rightarrow> calibration option" where
  "tsc_calibrate freq now = do {
     d1 \<leftarrow> udiv 0 1000000000 freq;
     let period_h = fst d1;
     d2 \<leftarrow> udiv (snd d1) 0 freq;
     let period_l = fst d2;
     Some \<lparr>period_high = period_h, period_low = period_l, frequency = freq, offset = now\<rparr>
   }"

text \<open>\<open>tsc_done\<close> is the mark of \<open>INIT_ONCE\<close>; the counter is read after the divisions.\<close>

record time_state =
  tsc_calibration :: calibration
  tsc_done :: bool

definition tsc_init ::
    "'s in_port \<Rightarrow> 's out_port \<Rightarrow> ('s \<Rightarrow> u64 \<times> 's) \<Rightarrow> (u32 \<Rightarrow> u32 \<Rightarrow> cpuid_result) \<Rightarrow> time_state \<Rightarrow> 's \<Rightarrow> (time_state \<times> 's) option"
where
  "tsc_init inb outb rdtsc cpuid t s = do {
     kassert (\<not> tsc_done t);
     let freq = read_tsc_cpuid cpuid;
     (freq, s) \<leftarrow> (if freq \<noteq> 0 then Some (freq, s)
       else do { (ticks, s) \<leftarrow> time_tsc_with_pit_10ms inb outb rdtsc s; Some (ticks * 100, s) });
     let (now, s') = rdtsc s;
     c \<leftarrow> tsc_calibrate freq now;
     Some (t\<lparr>tsc_done := True, tsc_calibration := c\<rparr>, s')
   }"

text \<open>The reading of the counter is an argument of the two functions of \<open>time.h\<close>.\<close>

definition nanoseconds :: "calibration \<Rightarrow> u64 \<Rightarrow> u64" where
  "nanoseconds c now =
     (let ticks = ucast (now - offset c) :: u128
      in ucast (ticks * ucast (period_high c) + drop_bit 64 (ticks * ucast (period_low c))))"

record time =
  t_seconds :: u64
  t_nanoseconds :: u64

definition timestamp :: "calibration \<Rightarrow> u64 \<Rightarrow> time" where
  "timestamp c now =
     (let ns = nanoseconds c now in \<lparr>t_seconds = ns div 1000000000, t_nanoseconds = ns mod 1000000000\<rparr>)"

section \<open>Accuracy\<close>

lemma tsc_calibrate_period:
  assumes "tsc_calibrate freq now = Some c"
  shows "freq \<noteq> 0" "frequency c = freq" "offset c = now"
    "unat (period_high c) = 10 ^ 9 div unat freq"
    "unat (period_low c) = 10 ^ 9 mod unat freq * 2 ^ 64 div unat freq"
proof -
  let ?f = "unat freq"
  have f: "freq \<noteq> 0" using assms by (auto simp: tsc_calibrate_def udiv_def split: if_splits)
  then have pos: "0 < ?f" by (simp add: unat_gt_0)
  have f64: "?f < 2 ^ 64" by (rule unat64_less)
  have r: "10 ^ 9 mod ?f < ?f" using pos by simp
  then have r64: "10 ^ 9 mod ?f < (2 :: nat) ^ 64" using f64 by (rule less_trans)
  then have ur: "unat (word_of_nat (10 ^ 9 mod ?f) :: u64) = 10 ^ 9 mod ?f" by (simp add: unat_of_nat)
  have d1: "udiv 0 1000000000 freq = Some (word_of_nat (10 ^ 9 div ?f), word_of_nat (10 ^ 9 mod ?f))"
    using f by (simp add: udiv_def)
  have "\<not> freq \<le> word_of_nat (10 ^ 9 mod ?f)" using r ur by (simp add: word_le_nat_alt)
  then have d2: "udiv (word_of_nat (10 ^ 9 mod ?f)) 0 freq =
      Some (word_of_nat (10 ^ 9 mod ?f * 2 ^ 64 div ?f), word_of_nat (10 ^ 9 mod ?f * 2 ^ 64 mod ?f))"
    unfolding udiv_def ur by (simp add: Let_def)
  have c: "c = \<lparr>period_high = word_of_nat (10 ^ 9 div ?f), period_low = word_of_nat (10 ^ 9 mod ?f * 2 ^ 64 div ?f),
      frequency = freq, offset = now\<rparr>"
    using assms d2 unfolding tsc_calibrate_def d1 by simp
  have "10 ^ 9 div ?f \<le> 10 ^ 9" by (rule div_le_dividend)
  then have "10 ^ 9 div ?f < (2 :: nat) ^ 64" by (rule le_less_trans) simp
  moreover have "10 ^ 9 mod ?f * 2 ^ 64 div ?f < (2 :: nat) ^ 64"
    using r pos by (simp add: div_less_iff_less_mult mult.commute)
  ultimately show "freq \<noteq> 0" "frequency c = freq" "offset c = now"
    "unat (period_high c) = 10 ^ 9 div ?f" "unat (period_low c) = 10 ^ 9 mod ?f * 2 ^ 64 div ?f"
    using f unfolding c by (simp_all add: unat_of_nat)
qed

text \<open>In numbers: the product with the 64.64 period, its fraction cut off.\<close>

lemma nanoseconds_value:
  "unat (nanoseconds c now) =
    (unat (now - offset c) * unat (period_high c) + unat (now - offset c) * unat (period_low c) div 2 ^ 64) mod 2 ^ 64"
proof -
  let ?t = "unat (now - offset c)" and ?h = "unat (period_high c)" and ?l = "unat (period_low c)"
  have small: "(a :: nat) * b < 2 ^ 128" if "a < 2 ^ 64" "b < 2 ^ 64" for a b
    using mult_strict_mono [OF that] by simp
  have up: "unat (ucast w :: u128) = unat w" for w :: u64
    using unat64_less [of w] by (simp add: unsigned_ucast_eq take_bit_nat_eq_self)
  have l: "unat (drop_bit 64 (ucast (now - offset c) * ucast (period_low c) :: u128)) = ?t * ?l div 2 ^ 64"
    using small [OF unat64_less [of "now - offset c"] unat64_less [of "period_low c"]]
    by (simp only: unat_drop_bit_eq drop_bit_eq_div unat_word_ariths up) simp
  have h: "unat (ucast (now - offset c) * ucast (period_high c) :: u128) = ?t * ?h"
    using small [OF unat64_less unat64_less] by (simp add: unat_word_ariths up)
  have "unat (nanoseconds c now) = (?t * ?h + ?t * ?l div 2 ^ 64) mod 2 ^ 128 mod 2 ^ 64"
    unfolding nanoseconds_def Let_def by (simp only: unsigned_ucast_eq take_bit_eq_mod unat_word_ariths(1) h l) simp
  also have "\<dots> = (?t * ?h + ?t * ?l div 2 ^ 64) mod 2 ^ 64" by (rule mod_mod_cancel) simp
  finally show ?thesis .
qed

lemma fixed_point:
  fixes t f G M :: nat
  assumes "0 < f" "t < M"
  defines "ns \<equiv> t * (G div f) + t * (G mod f * M div f) div M"
  shows "ns * f \<le> t * G" "t * G < (ns + 2) * f"
proof -
  let ?h = "G div f" and ?r = "G mod f" and ?q = "t * (G mod f * M div f) div M"
  let ?l = "?r * M div f"
  have M: "0 < M" using assms(2) by simp
  have split: "t * G = t * ?h * f + t * ?r" by (metis add_mult_distrib2 div_mult_mod_eq mult.assoc)
  have "?q * f * M \<le> t * ?l * f" using div_times_less_eq_dividend [of "t * ?l" M] by (simp add: mult.commute mult.left_commute)
  also have "\<dots> \<le> t * (?r * M)" using div_times_less_eq_dividend [of "?r * M" f] by (simp add: mult.assoc)
  finally have "?q * f \<le> t * ?r" using M by (simp flip: mult.assoc)
  then show "ns * f \<le> t * G" unfolding split ns_def by (simp add: algebra_simps)
  have "?r * M \<le> (?l + 1) * f" using dividend_less_div_times [OF assms(1), of "?r * M"] by (simp add: algebra_simps)
  then have "t * ?r * M \<le> t * ((?l + 1) * f)" unfolding mult.assoc by (rule mult_le_mono2)
  also have "\<dots> = t * ?l * f + t * f" by (simp add: algebra_simps)
  also have "\<dots> < (?q + 1) * M * f + M * f"
  proof (rule add_le_less_mono)
    show "t * ?l * f \<le> (?q + 1) * M * f" using dividend_less_div_times [OF M, of "t * ?l"] by (intro mult_right_mono) simp_all
    show "t * f < M * f" using assms by simp
  qed
  also have "\<dots> = (?q + 2) * f * M" by (simp add: algebra_simps)
  finally have "t * ?r < (?q + 2) * f" by simp
  then show "t * G < (ns + 2) * f" unfolding split ns_def by (simp add: algebra_simps)
qed

text \<open>C18. The clock is accurate: once the counter is calibrated, the nanoseconds that \<open>nanoseconds\<close> computes from any
  reading are the true time since the calibration, rounded down, or one less; \<open>timestamp\<close> splits them into seconds and
  less than a billion nanoseconds. As long as that time fits 64 bits, some 580 years.\<close>

theorem nanoseconds_accurate:
  assumes "tsc_calibrate freq now0 = Some c" "unat (now - now0) * 10 ^ 9 < 2 ^ 64 * unat freq"
  shows "unat (nanoseconds c now) * unat freq \<le> unat (now - now0) * 10 ^ 9
    \<and> unat (now - now0) * 10 ^ 9 < (unat (nanoseconds c now) + 2) * unat freq
    \<and> unat (t_seconds (timestamp c now)) * 10 ^ 9 + unat (t_nanoseconds (timestamp c now)) = unat (nanoseconds c now)
    \<and> unat (t_nanoseconds (timestamp c now)) < 10 ^ 9"
proof -
  let ?t = "unat (now - now0)" and ?f = "unat freq"
  let ?ns = "?t * (10 ^ 9 div ?f) + ?t * (10 ^ 9 mod ?f * 2 ^ 64 div ?f) div 2 ^ 64"
  note c = tsc_calibrate_period [OF assms(1)]
  have f: "0 < ?f" using c(1) by (simp add: unat_gt_0)
  note fp = fixed_point [OF f unat64_less, of "now - now0" "10 ^ 9"]
  have "?ns * ?f < 2 ^ 64 * ?f" using fp(1) assms(2) by (rule le_less_trans)
  then have "?ns < 2 ^ 64" by simp
  then have ns: "unat (nanoseconds c now) = ?ns" unfolding nanoseconds_value c(3-5) by (rule mod_less)
  have 1: "unat (nanoseconds c now) * ?f \<le> ?t * 10 ^ 9" "?t * 10 ^ 9 < (unat (nanoseconds c now) + 2) * ?f"
    unfolding ns by (rule fp)+
  have 2: "unat (t_seconds (timestamp c now)) * 10 ^ 9 + unat (t_nanoseconds (timestamp c now)) = unat (nanoseconds c now)"
    "unat (t_nanoseconds (timestamp c now)) < 10 ^ 9"
    by (simp_all add: timestamp_def Let_def unat_div unat_mod)
  show ?thesis by (intro conjI 1 2)
qed

text \<open>Three gigahertz, a microsecond after the calibration.\<close>

theorem nanoseconds_accurate_witness:
  "\<exists>c. tsc_calibrate 3000000000 100 = Some c \<and> nanoseconds c 3100 \<in> {999, 1000}"
proof -
  obtain c where c: "tsc_calibrate 3000000000 100 = Some c" by (auto simp: tsc_calibrate_def udiv_def)
  have "unat (3100 - 100 :: u64) * 10 ^ 9 < 2 ^ 64 * unat (3000000000 :: u64)" by simp
  note all = nanoseconds_accurate [OF c this]
  note ns = conjunct1 [OF all] conjunct1 [OF conjunct2 [OF all]]
  have "unat (nanoseconds c 3100) = 999 \<or> unat (nanoseconds c 3100) = 1000" using ns by simp presburger
  then have "nanoseconds c 3100 = 999 \<or> nanoseconds c 3100 = 1000" by (auto simp: word_unat_eq_iff)
  then show ?thesis using c by blast
qed

section \<open>The local APIC\<close>

definition APIC_ID :: u32 where "APIC_ID = 0x20"
definition APIC_VERSION :: u32 where "APIC_VERSION = 0x30"
definition APIC_EOI :: u32 where "APIC_EOI = 0xb0"
definition APIC_SPURIOUS_INTERRUPTS :: u32 where "APIC_SPURIOUS_INTERRUPTS = 0xf0"
definition APIC_LVT_TIMER :: u32 where "APIC_LVT_TIMER = 0x320"
definition APIC_TIMER_INITIAL :: u32 where "APIC_TIMER_INITIAL = 0x380"
definition APIC_TIMER_CURRENT :: u32 where "APIC_TIMER_CURRENT = 0x390"
definition APIC_TIMER_DIVIDE :: u32 where "APIC_TIMER_DIVIDE = 0x3e0"
definition LVT_MASK :: u32 where "LVT_MASK = push_bit 16 1"
definition LVT_TIMER_PERIODIC :: u32 where "LVT_TIMER_PERIODIC = push_bit 17 1"
definition DIVISOR_1 :: u32 where "DIVISOR_1 = 0b1011"
definition VECTOR_SPURIOUS :: u32 where "VECTOR_SPURIOUS = 255"
definition VECTOR_TIMER :: u32 where "VECTOR_TIMER = 254"

type_synonym 's areg = "u32 \<Rightarrow> 's \<Rightarrow> u32"
type_synonym 's aset = "u32 \<Rightarrow> u32 \<Rightarrow> 's \<Rightarrow> 's"

text \<open>\<open>clock\<close> is a call of \<open>nanoseconds\<close>.\<close>

partial_function (option) wait_until :: "('s \<Rightarrow> u64 \<times> 's) \<Rightarrow> u64 \<Rightarrow> 's \<Rightarrow> 's option" where
  "wait_until clock timeout s =
     (case clock s of (t, s) \<Rightarrow> if t < timeout then wait_until clock timeout s else Some s)"

text \<open>The result is the new \<open>apic_frequency\<close>.\<close>

definition apic_measure_frequency :: "'s areg \<Rightarrow> 's aset \<Rightarrow> ('s \<Rightarrow> u64 \<times> 's) \<Rightarrow> 's \<Rightarrow> (u32 \<times> 's) option" where
  "apic_measure_frequency areg aset clock s = do {
     let s = aset APIC_LVT_TIMER LVT_MASK s;
     let s = aset APIC_TIMER_DIVIDE DIVISOR_1 s;
     let (t, s) = clock s;
     let timeout = t + 10000000;
     let start = (- 1 :: u32);
     let s = aset APIC_TIMER_INITIAL start s;
     s \<leftarrow> wait_until clock timeout s;
     let end_count = areg APIC_TIMER_CURRENT s;
     let s = aset APIC_TIMER_INITIAL 0 s;
     let counts_per_10ms = start - end_count;
     Some (counts_per_10ms * 100, s)
   }"

definition apic_send_eoi :: "'s aset \<Rightarrow> 's \<Rightarrow> 's" where
  "apic_send_eoi aset s = aset APIC_EOI 0 s"

definition apic_set_tickrate :: "'s aset \<Rightarrow> u32 \<Rightarrow> u32 \<Rightarrow> 's \<Rightarrow> 's" where
  "apic_set_tickrate aset apic_frequency hz s =
     (let s = (if 0 <s hz
           then let s = aset APIC_TIMER_DIVIDE DIVISOR_1 s;
                    s = aset APIC_LVT_TIMER (LVT_TIMER_PERIODIC OR VECTOR_TIMER) s
                in aset APIC_TIMER_INITIAL (apic_frequency div hz) s
           else let s = aset APIC_LVT_TIMER (LVT_MASK OR VECTOR_TIMER) s
                in aset APIC_TIMER_INITIAL 0 s)
      in aset APIC_SPURIOUS_INTERRUPTS (push_bit 8 1 OR VECTOR_SPURIOUS) s)"

end
