(* ===== verification/Segments.thy ===== *)
theory Segments
  imports Fluke_Prelude
begin

text \<open>
  The processor's descriptor tables, \<open>kernel/src/x86_64/descriptors.c\<close>, with the per-processor structures of
  \<open>tls.c\<close>.

  A structure with bit-fields is a record of its fields. The registers that \<open>lgdt\<close>, \<open>lidt\<close>, \<open>ltr\<close>, \<open>wrmsr\<close> and the
  far return load are a record; \<open>xmalloc\<close> is a parameter that gives an address, or \<open>None\<close> for its panic, and
  the structures it places are in maps from addresses.
\<close>

unbundle bit_operations_syntax

definition GDT_KERNEL_CODE :: u16 where "GDT_KERNEL_CODE = 0x08"
definition GDT_KERNEL_DATA :: u16 where "GDT_KERNEL_DATA = 0x10"
definition GDT_USER_DATA :: u16 where "GDT_USER_DATA = 0x23"
definition GDT_USER64_CODE :: u16 where "GDT_USER64_CODE = 0x2b"

definition ACCESS_CODE :: u8 where "ACCESS_CODE = 0b10011011"
definition ACCESS_DATA :: u8 where "ACCESS_DATA = 0b10010011"
definition ACCESS_USER :: u8 where "ACCESS_USER = 0b01100000"
definition ACCESS_TSS :: u8 where "ACCESS_TSS = 0b10001001"
definition FLAG_CODE64 :: u8 where "FLAG_CODE64 = 0b0010"

record gdt_segment =
  gs_limit_15_0 :: u16
  gs_base_15_0 :: u16
  gs_base_23_16 :: u8
  gs_access :: u8
  gs_limit_19_16 :: u8
  gs_flags :: u8
  gs_base_31_24 :: u8

definition no_segment :: gdt_segment where
  "no_segment = \<lparr>gs_limit_15_0 = 0, gs_base_15_0 = 0, gs_base_23_16 = 0, gs_access = 0, gs_limit_19_16 = 0,
     gs_flags = 0, gs_base_31_24 = 0\<rparr>"

record gdt_tss_entry =
  gt_segment :: gdt_segment
  gt_base_63_32 :: u32

record gdt =
  kernel_code :: gdt_segment
  kernel_data :: gdt_segment
  user_32_code :: gdt_segment
  user_64_data :: gdt_segment
  user_64_code :: gdt_segment
  gdt_tss :: gdt_tss_entry

text \<open>The offsets of the entries, which the static assertions of the source compare with the selectors.\<close>

definition GDT_SIZE :: nat where "GDT_SIZE = 64"
definition TSS_OFFSET :: u16 where "TSS_OFFSET = 0x30"
definition TSS_SIZE :: nat where "TSS_SIZE = 0x68"
definition IDT_SIZE :: nat where "IDT_SIZE = 4096"

record tss =
  tss_rsp :: "u64 list"
  tss_ist :: "u64 list"
  tss_io_map_base :: u16

definition GATE_INTERRUPT :: u8 where "GATE_INTERRUPT = 0b1110"

record idt_entry =
  ie_offset_15_0 :: u16
  ie_selector :: u16
  ie_ist :: u8
  ie_gate_type :: u8
  ie_dpl :: u8
  ie_present :: bool
  ie_offset_31_16 :: u16
  ie_offset_63_32 :: u32

definition early_gdt :: gdt where
  "early_gdt = \<lparr>
     kernel_code = no_segment\<lparr>gs_access := ACCESS_CODE, gs_flags := FLAG_CODE64\<rparr>,
     kernel_data = no_segment\<lparr>gs_access := ACCESS_DATA\<rparr>,
     user_32_code = no_segment, user_64_data = no_segment, user_64_code = no_segment,
     gdt_tss = \<lparr>gt_segment = no_segment, gt_base_63_32 = 0\<rparr>\<rparr>"

text \<open>The registers; a table register holds the limit and the address.\<close>

record registers =
  r_gdtr :: "u16 \<times> u64"
  r_idtr :: "u16 \<times> u64"
  r_tr :: u16
  r_cs :: u16
  r_ss :: u16
  r_ds :: u16
  r_msr :: "u32 \<Rightarrow> u64"

record 'm cpu_tables =
  regs :: registers
  idt :: "idt_entry list"
  gdt_at :: "u64 \<Rightarrow> gdt"
  tss_at :: "u64 \<Rightarrow> tss"
  kheap :: 'm

definition lgdt :: "u64 \<Rightarrow> registers \<Rightarrow> registers" where
  "lgdt addr r = r\<lparr>r_gdtr := (word_of_nat (GDT_SIZE - 1), addr), r_cs := GDT_KERNEL_CODE, r_ss := GDT_KERNEL_DATA, r_ds := 0\<rparr>"

definition lidt :: "u64 \<Rightarrow> registers \<Rightarrow> registers" where
  "lidt addr r = r\<lparr>r_idtr := (word_of_nat (IDT_SIZE - 1), addr)\<rparr>"

definition ltr :: "registers \<Rightarrow> registers" where
  "ltr r = r\<lparr>r_tr := TSS_OFFSET\<rparr>"

definition wrmsr :: "u32 \<Rightarrow> u64 \<Rightarrow> registers \<Rightarrow> registers" where
  "wrmsr reg v r = r\<lparr>r_msr := (r_msr r)(reg := v)\<rparr>"

section \<open>Early descriptors\<close>

text \<open>\<open>stubs\<close> is the address of \<open>isr_stubs_loc_asm\<close>, and \<open>loc\<close> its contents, which are offsets from that address.\<close>

definition isr_location :: "u64 \<Rightarrow> u32 list \<Rightarrow> nat \<Rightarrow> u64" where
  "isr_location stubs loc i = stubs + scast (loc ! i)"

definition idt_gate :: "u64 \<Rightarrow> idt_entry" where
  "idt_gate location = \<lparr>ie_offset_15_0 = ucast location, ie_selector = GDT_KERNEL_CODE, ie_ist = 0,
     ie_gate_type = GATE_INTERRUPT, ie_dpl = 0, ie_present = True,
     ie_offset_31_16 = ucast (drop_bit 16 location), ie_offset_63_32 = ucast (drop_bit 32 location)\<rparr>"

definition load_early_descriptors :: "u64 \<Rightarrow> u64 \<Rightarrow> u64 \<Rightarrow> u32 list \<Rightarrow> 'm cpu_tables \<Rightarrow> 'm cpu_tables" where
  "load_early_descriptors early_addr idt_addr stubs loc c =
     c\<lparr>gdt_at := (gdt_at c)(early_addr := early_gdt),
       idt := map (\<lambda>i. idt_gate (isr_location stubs loc i)) [0..<256],
       regs := lidt idt_addr (lgdt early_addr (regs c))\<rparr>"

section \<open>The descriptors of a processor\<close>

definition MSR_EFER :: u32 where "MSR_EFER = 0xc0000080"
definition MSR_STAR :: u32 where "MSR_STAR = 0xc0000081"
definition MSR_LSTAR :: u32 where "MSR_LSTAR = 0xc0000082"
definition MSR_CSTAR :: u32 where "MSR_CSTAR = 0xc0000083"
definition MSR_SFMASK :: u32 where "MSR_SFMASK = 0xc0000084"
definition MSR_GS_BASE :: u32 where "MSR_GS_BASE = 0xc0000101"
definition MSR_EFER_SCE :: u64 where "MSR_EFER_SCE = 1"

definition star_contents :: u64 where
  "star_contents = push_bit 32 (ucast GDT_KERNEL_CODE) OR push_bit 48 (ucast (GDT_USER64_CODE - 16))"

definition enable_syscall :: "u64 \<Rightarrow> registers \<Rightarrow> registers" where
  "enable_syscall entry r =
     (let r = wrmsr MSR_CSTAR 0 r;
          r = wrmsr MSR_LSTAR entry r;
          r = wrmsr MSR_SFMASK 0x257fd5 r;
          r = wrmsr MSR_STAR star_contents r
      in wrmsr MSR_EFER (MSR_EFER_SCE OR r_msr r MSR_EFER) r)"

definition processor_gdt :: "u64 \<Rightarrow> gdt" where
  "processor_gdt tss_address = \<lparr>
     kernel_code = no_segment\<lparr>gs_access := ACCESS_CODE, gs_flags := FLAG_CODE64\<rparr>,
     kernel_data = no_segment\<lparr>gs_access := ACCESS_DATA\<rparr>,
     user_32_code = no_segment,
     user_64_data = no_segment\<lparr>gs_access := ACCESS_DATA OR ACCESS_USER\<rparr>,
     user_64_code = no_segment\<lparr>gs_access := ACCESS_CODE OR ACCESS_USER, gs_flags := FLAG_CODE64\<rparr>,
     gdt_tss = \<lparr>gt_segment = no_segment\<lparr>
         gs_access := ACCESS_TSS,
         gs_base_15_0 := ucast tss_address,
         gs_base_23_16 := ucast (drop_bit 16 tss_address),
         gs_base_31_24 := ucast (drop_bit 24 tss_address),
         gs_limit_15_0 := word_of_nat TSS_SIZE\<rparr>,
       gt_base_63_32 = ucast (drop_bit 32 tss_address)\<rparr>\<rparr>"

definition processor_tss :: "u64 \<Rightarrow> tss" where
  "processor_tss exception_stack =
     \<lparr>tss_rsp = [exception_stack, 0, 0], tss_ist = replicate 7 0, tss_io_map_base = word_of_nat TSS_SIZE\<rparr>"

definition load_descriptors ::
    "(nat \<Rightarrow> 'm \<Rightarrow> (u64 \<times> 'm) option) \<Rightarrow> u64 \<Rightarrow> u64 \<Rightarrow> u64 \<Rightarrow> 'm cpu_tables \<Rightarrow> 'm cpu_tables option"
where
  "load_descriptors xmalloc idt_addr entry exception_stack c = do {
     (tss_address, h) \<leftarrow> xmalloc TSS_SIZE (kheap c);
     let c = c\<lparr>kheap := h, tss_at := (tss_at c)(tss_address := processor_tss exception_stack)\<rparr>;
     (gdt_address, h) \<leftarrow> xmalloc GDT_SIZE (kheap c);
     let c = c\<lparr>kheap := h, gdt_at := (gdt_at c)(gdt_address := processor_gdt tss_address)\<rparr>;
     Some (c\<lparr>regs := enable_syscall entry (ltr (lidt idt_addr (lgdt gdt_address (regs c))))\<rparr>)
   }"

section \<open>What the processor reads\<close>

text \<open>The processor's view: the entry of a selector, its privilege level and kind, and the addresses it puts
  together from the fields.\<close>

definition selected :: "gdt \<Rightarrow> u16 \<Rightarrow> gdt_segment option" where
  "selected g sel =
     (if unat sel div 8 = 1 then Some (kernel_code g) else if unat sel div 8 = 2 then Some (kernel_data g)
      else if unat sel div 8 = 3 then Some (user_32_code g) else if unat sel div 8 = 4 then Some (user_64_data g)
      else if unat sel div 8 = 5 then Some (user_64_code g) else if unat sel div 8 = 6 then Some (gt_segment (gdt_tss g)) else None)"

definition requested_level :: "u16 \<Rightarrow> nat" where "requested_level sel = unat sel mod 4"
definition segment_level :: "gdt_segment \<Rightarrow> nat" where "segment_level s = unat (drop_bit 5 (gs_access s) AND 3)"
definition is_present :: "gdt_segment \<Rightarrow> bool" where "is_present s \<longleftrightarrow> bit (gs_access s) 7"
definition is_code64 :: "gdt_segment \<Rightarrow> bool" where
  "is_code64 s \<longleftrightarrow> bit (gs_access s) 4 \<and> bit (gs_access s) 3 \<and> bit (gs_flags s) 1"
definition is_writable_data :: "gdt_segment \<Rightarrow> bool" where
  "is_writable_data s \<longleftrightarrow> bit (gs_access s) 4 \<and> \<not> bit (gs_access s) 3 \<and> bit (gs_access s) 1"

definition gate_target :: "idt_entry \<Rightarrow> u64" where
  "gate_target e = ucast (ie_offset_15_0 e) OR push_bit 16 (ucast (ie_offset_31_16 e)) OR push_bit 32 (ucast (ie_offset_63_32 e))"

definition tss_base :: "gdt_tss_entry \<Rightarrow> u64" where
  "tss_base e = ucast (gs_base_15_0 (gt_segment e)) OR push_bit 16 (ucast (gs_base_23_16 (gt_segment e)))
     OR push_bit 24 (ucast (gs_base_31_24 (gt_segment e))) OR push_bit 32 (ucast (gt_base_63_32 e))"

text \<open>What \<open>syscall\<close> and \<open>sysret\<close> load, from \<open>MSR_STAR\<close>.\<close>

definition syscall_cs :: "registers \<Rightarrow> u16" where "syscall_cs r = ucast (drop_bit 32 (r_msr r MSR_STAR)) AND NOT 3"
definition syscall_ss :: "registers \<Rightarrow> u16" where "syscall_ss r = ucast (drop_bit 32 (r_msr r MSR_STAR)) + 8"
definition sysret_cs :: "registers \<Rightarrow> u16" where "sysret_cs r = (ucast (drop_bit 48 (r_msr r MSR_STAR)) + 16) OR 3"
definition sysret_ss :: "registers \<Rightarrow> u16" where "sysret_ss r = (ucast (drop_bit 48 (r_msr r MSR_STAR)) + 8) OR 3"

lemma gate_target_location: "gate_target (idt_gate a) = a"
proof (rule bit_word_eqI)
  fix n assume "n < LENGTH(64)"
  then consider "n < 16" | "16 \<le> n" "n < 32" | "32 \<le> n" "n < 64" by force
  then show "bit (gate_target (idt_gate a)) n = bit a n"
    by cases (auto simp: gate_target_def idt_gate_def bit_simps)
qed

lemma tss_base_address: "tss_base (gdt_tss (processor_gdt a)) = a"
proof (rule bit_word_eqI)
  fix n assume "n < LENGTH(64)"
  then consider "n < 16" | "16 \<le> n" "n < 24" | "24 \<le> n" "n < 32" | "32 \<le> n" "n < 64" by force
  then show "bit (tss_base (gdt_tss (processor_gdt a))) n = bit a n"
    by cases (auto simp: tss_base_def processor_gdt_def no_segment_def bit_simps)
qed

text \<open>C20. Interrupts arrive at their handlers: after the early set-up each of the 256 gates is a present interrupt gate
  into the kernel's code segment, and the address the processor puts together from its three fields is that of
  the handler's stub.\<close>

theorem interrupt_gates_roundtrip:
  fixes early_addr idt_addr stubs :: u64 and loc :: "u32 list" and c :: "'m cpu_tables"
  assumes "i < 256"
  defines "c' \<equiv> load_early_descriptors early_addr idt_addr stubs loc c"
  shows "gate_target (idt c' ! i) = isr_location stubs loc i \<and> ie_present (idt c' ! i) \<and>
    ie_gate_type (idt c' ! i) = GATE_INTERRUPT \<and> ie_selector (idt c' ! i) = r_cs (regs c') \<and>
    (\<exists>s. selected (gdt_at c' early_addr) (r_cs (regs c')) = Some s \<and> is_present s \<and> is_code64 s \<and> segment_level s = 0)"
proof -
  have g: "idt c' ! i = idt_gate (isr_location stubs loc i)" "r_cs (regs c') = GDT_KERNEL_CODE" "gdt_at c' early_addr = early_gdt"
    using assms by (simp_all add: load_early_descriptors_def lidt_def lgdt_def)
  have "selected early_gdt GDT_KERNEL_CODE = Some (kernel_code early_gdt)" by (simp add: selected_def GDT_KERNEL_CODE_def)
  moreover have "is_present (kernel_code early_gdt)" "is_code64 (kernel_code early_gdt)" "segment_level (kernel_code early_gdt) = 0"
    by (simp_all add: early_gdt_def no_segment_def is_present_def is_code64_def segment_level_def ACCESS_CODE_def FLAG_CODE64_def)
  ultimately show ?thesis unfolding g gate_target_location by (simp add: idt_gate_def)
qed

text \<open>The state at the start, for the witnesses.\<close>

definition reset_tables :: "u64 cpu_tables" where
  "reset_tables = \<lparr>regs = \<lparr>r_gdtr = (0, 0), r_idtr = (0, 0), r_tr = 0, r_cs = 0, r_ss = 0, r_ds = 0, r_msr = (\<lambda>_. 0)\<rparr>,
     idt = [], gdt_at = (\<lambda>_. early_gdt), tss_at = (\<lambda>_. processor_tss 0), kheap = 0x10000\<rparr>"

theorem interrupt_gates_roundtrip_witness:
  "gate_target (idt (load_early_descriptors 0x1000 0x2000 0xffffffff80004000 (replicate 256 0xfffffff0)
     reset_tables) ! 14) = 0xffffffff80003ff0"
  using interrupt_gates_roundtrip [where i = 14 and early_addr = "0x1000" and idt_addr = "0x2000"
    and stubs = "0xffffffff80004000" and loc = "replicate 256 0xfffffff0"
    and c = reset_tables]
  by (simp add: isr_location_def)

text \<open>C19. The processor's selectors are consistent: after \<open>x86_64_load_descriptors\<close> a system call enters the kernel's
  code and data segments and its return gives the user's, with the privilege they must have; the segments are
  present, 64-bit code or writable data, at the level of their selectors; and the task register leads, by the base
  address the processor puts together from four fields, to the task state with the exception stack.\<close>

theorem descriptors_consistent:
  assumes "load_descriptors xmalloc idt_addr entry stack c = Some c'"
  defines "r \<equiv> regs c'"
  defines "g \<equiv> gdt_at c' (snd (r_gdtr r))"
  shows "(syscall_cs r = GDT_KERNEL_CODE \<and> syscall_ss r = GDT_KERNEL_DATA \<and> sysret_cs r = GDT_USER64_CODE \<and> sysret_ss r = GDT_USER_DATA
     \<and> r_msr r MSR_LSTAR = entry \<and> bit (r_msr r MSR_EFER) 0)
    \<and> (\<forall>sel\<in>{GDT_KERNEL_CODE, GDT_USER64_CODE}. \<exists>s. selected g sel = Some s \<and> is_present s \<and> is_code64 s \<and> segment_level s = requested_level sel)
    \<and> (\<forall>sel\<in>{GDT_KERNEL_DATA, GDT_USER_DATA}. \<exists>s. selected g sel = Some s \<and> is_present s \<and> is_writable_data s \<and> segment_level s = requested_level sel)
    \<and> selected g (r_tr r) = Some (gt_segment (gdt_tss g)) \<and> tss_rsp (tss_at c' (tss_base (gdt_tss g))) ! 0 = stack"
proof -
  obtain a h b h' where x: "xmalloc TSS_SIZE (kheap c) = Some (a, h)" "xmalloc GDT_SIZE h = Some (b, h')"
    using assms(1) by (auto simp: load_descriptors_def bind_eq_Some_conv)
  then have c': "regs c' = enable_syscall entry (ltr (lidt idt_addr (lgdt b (regs c))))"
      "gdt_at c' = (gdt_at c)(b := processor_gdt a)" "tss_at c' = (tss_at c)(a := processor_tss stack)"
    using assms(1) by (auto simp: load_descriptors_def)
  have g: "g = processor_gdt a" unfolding g_def r_def c' by (simp add: enable_syscall_def Let_def wrmsr_def ltr_def lidt_def lgdt_def)
  have star: "r_msr r MSR_STAR = star_contents" "r_tr r = TSS_OFFSET" "r_msr r MSR_LSTAR = entry" "bit (r_msr r MSR_EFER) 0"
    unfolding r_def c'
    by (simp_all add: enable_syscall_def Let_def wrmsr_def ltr_def bit_or_iff MSR_EFER_def MSR_STAR_def MSR_LSTAR_def
      MSR_CSTAR_def MSR_SFMASK_def MSR_EFER_SCE_def)
  have sc: "star_contents = 0x001b000800000000"
    by (simp add: star_contents_def GDT_KERNEL_CODE_def GDT_USER64_CODE_def)
  have 1: "syscall_cs r = GDT_KERNEL_CODE \<and> syscall_ss r = GDT_KERNEL_DATA \<and> sysret_cs r = GDT_USER64_CODE \<and> sysret_ss r = GDT_USER_DATA
    \<and> r_msr r MSR_LSTAR = entry \<and> bit (r_msr r MSR_EFER) 0"
    unfolding syscall_cs_def syscall_ss_def sysret_cs_def sysret_ss_def star(1) sc
    using star(3,4) by (simp add: syscall_cs_def syscall_ss_def sysret_cs_def sysret_ss_def GDT_KERNEL_CODE_def GDT_KERNEL_DATA_def
      GDT_USER64_CODE_def GDT_USER_DATA_def)
  have 2: "\<forall>sel\<in>{GDT_KERNEL_CODE, GDT_USER64_CODE}. \<exists>s. selected g sel = Some s \<and> is_present s \<and> is_code64 s \<and> segment_level s = requested_level sel"
    "\<forall>sel\<in>{GDT_KERNEL_DATA, GDT_USER_DATA}. \<exists>s. selected g sel = Some s \<and> is_present s \<and> is_writable_data s \<and> segment_level s = requested_level sel"
    unfolding g
    by (simp_all add: selected_def processor_gdt_def no_segment_def is_present_def is_code64_def is_writable_data_def
      segment_level_def requested_level_def GDT_KERNEL_CODE_def GDT_KERNEL_DATA_def GDT_USER64_CODE_def GDT_USER_DATA_def
      ACCESS_CODE_def ACCESS_DATA_def ACCESS_USER_def FLAG_CODE64_def)
  have 3: "selected g (r_tr r) = Some (gt_segment (gdt_tss g)) \<and> tss_rsp (tss_at c' (tss_base (gdt_tss g))) ! 0 = stack"
    unfolding g star c' tss_base_address by (simp add: selected_def TSS_OFFSET_def processor_tss_def)
  show ?thesis using 1 2 3 by simp
qed

theorem descriptors_consistent_witness:
  "\<exists>c'. load_descriptors (\<lambda>n a. Some (a, a + 128)) 0x2000 0x3000 0x7000 reset_tables = Some c' \<and>
    sysret_cs (regs c') = 0x2b \<and> tss_rsp (tss_at c' 0x10000) ! 0 = 0x7000"
proof -
  obtain c' where c': "load_descriptors (\<lambda>n a. Some (a, a + 128)) 0x2000 0x3000 0x7000 reset_tables = Some c'"
    by (simp add: load_descriptors_def reset_tables_def)
  have "tss_rsp (tss_at c' 0x10000) ! 0 = 0x7000" using c' by (auto simp: load_descriptors_def processor_tss_def reset_tables_def)
  then show ?thesis using c' descriptors_consistent [OF c'] by (simp add: GDT_USER64_CODE_def)
qed

text \<open>A limit is the offset of the last byte, as \<open>lgdt\<close> and \<open>lidt\<close> have it; the task state's is its size, one more.\<close>

lemma tss_limit_too_large:
  "unat (gs_limit_15_0 (gt_segment (gdt_tss (processor_gdt a)))) = TSS_SIZE
   \<and> unat (fst (r_gdtr (lgdt b r))) = GDT_SIZE - 1 \<and> unat (fst (r_idtr (lidt b r))) = IDT_SIZE - 1"
  by (simp add: processor_gdt_def lgdt_def lidt_def TSS_SIZE_def GDT_SIZE_def IDT_SIZE_def)

section \<open>The processors\<close>

record tls =
  tls_self :: u64
  tls_kernel_stack :: u64
  tls_user_stack :: u64
  tls_lapic_id :: u8
  tls_current_thread :: u64
  tls_user_context :: u64

text \<open>\<open>cpu_array\<close> is the block of the kernel heap, as its cells, of which the first \<open>cpu_count\<close> are used;
  \<open>cpu_length\<close> is the static \<open>length\<close>. A new block's cells have whatever contents they have.\<close>

record cpus =
  cpu_array :: "u64 list"
  cpu_count :: nat
  cpu_length :: nat

definition push_cpu ::
    "(nat \<Rightarrow> 'm \<Rightarrow> (u64 list \<times> 'm) option) \<Rightarrow> (nat \<Rightarrow> 'm \<Rightarrow> 'm option) \<Rightarrow> u64 \<Rightarrow> cpus \<Rightarrow> 'm \<Rightarrow> (cpus \<times> 'm) option"
where
  "push_cpu xmalloc kfree cpu s h = do {
     (s, h) \<leftarrow> (if cpu_count s = cpu_length s
       then do {
         let new_length = max (cpu_length s * 2) 4;
         let old_size = cpu_length s * 8;
         let new_size = new_length * 8;
         kassert (new_size \<le> 4096);
         (cells, h) \<leftarrow> xmalloc new_size h;
         (cells, h) \<leftarrow> (if 0 < cpu_length s
           then do { h \<leftarrow> kfree old_size h; Some (take (cpu_length s) (cpu_array s) @ drop (cpu_length s) cells, h) }
           else Some (cells, h));
         Some (s\<lparr>cpu_array := cells, cpu_length := new_length\<rparr>, h)
       }
       else Some (s, h));
     Some (s\<lparr>cpu_array := (cpu_array s)[cpu_count s := cpu], cpu_count := cpu_count s + 1\<rparr>, h)
   }"

definition cpu_create_tls ::
    "(nat \<Rightarrow> 'm \<Rightarrow> (u64 \<times> 'm) option) \<Rightarrow> (nat \<Rightarrow> 'm \<Rightarrow> (u64 list \<times> 'm) option) \<Rightarrow> (nat \<Rightarrow> 'm \<Rightarrow> 'm option) \<Rightarrow>
     u8 \<Rightarrow> u64 \<Rightarrow> (u64 \<Rightarrow> tls) \<Rightarrow> cpus \<Rightarrow> registers \<Rightarrow> 'm \<Rightarrow> ((u64 \<Rightarrow> tls) \<times> cpus \<times> registers \<times> 'm) option"
where
  "cpu_create_tls xmalloc xmalloc_cells kfree lapic_id kernel_stack tlss s r h = do {
     (a, h) \<leftarrow> xmalloc 48 h;
     let tlss = tlss(a := \<lparr>tls_self = a, tls_kernel_stack = kernel_stack, tls_user_stack = 0, tls_lapic_id = lapic_id,
       tls_current_thread = 0, tls_user_context = 0\<rparr>);
     let r = wrmsr MSR_GS_BASE a r;
     (s, h) \<leftarrow> push_cpu xmalloc_cells kfree a s h;
     Some (tlss, s, r, h)
   }"

definition get_tls :: "(u64 \<Rightarrow> tls) \<Rightarrow> registers \<Rightarrow> u64" where
  "get_tls tlss r = tls_self (tlss (r_msr r MSR_GS_BASE))"

definition get_tls_current_thread :: "(u64 \<Rightarrow> tls) \<Rightarrow> registers \<Rightarrow> u64" where
  "get_tls_current_thread tlss r = tls_current_thread (tlss (r_msr r MSR_GS_BASE))"

definition cpus_ok :: "cpus \<Rightarrow> bool" where
  "cpus_ok s \<longleftrightarrow> length (cpu_array s) = cpu_length s \<and> cpu_count s \<le> cpu_length s"

text \<open>The array of processors grows by doubling and keeps the processors it has, in order.\<close>

lemma push_cpu_appends:
  assumes ok: "cpus_ok s" and cells: "\<And>n h b h'. xmalloc n h = Some (b, h') \<Longrightarrow> length b = n div 8"
    and push: "push_cpu xmalloc kfree cpu s h = Some (s', h')"
  shows "cpus_ok s' \<and> take (cpu_count s') (cpu_array s') = take (cpu_count s) (cpu_array s) @ [cpu]"
proof -
  have set: "take (Suc n) (xs[n := y]) = take n xs @ [y]" if "n < length xs" for n xs and y :: u64
    using that by (simp add: take_Suc_conv_app_nth)
  show ?thesis
  proof (cases "cpu_count s = cpu_length s")
    case False
    then show ?thesis using ok push by (auto simp: push_cpu_def cpus_ok_def set)
  next
    case True
    let ?n = "max (cpu_length s * 2) 4"
    obtain b h1 where b: "xmalloc (?n * 8) h = Some (b, h1)"
      using push True by (auto simp: push_cpu_def Let_def bind_eq_Some_conv split: if_splits)
    then have len: "length b = ?n" using cells by fastforce
    show ?thesis
    proof (cases "cpu_length s = 0")
      case zero: True
      then have s': "s' = s\<lparr>cpu_array := b[0 := cpu], cpu_length := ?n, cpu_count := 1\<rparr>"
        using push True b by (auto simp: push_cpu_def Let_def)
      show ?thesis using len zero True by (cases b) (auto simp: s' cpus_ok_def)
    next
      case False
      then have s': "s' = s\<lparr>cpu_array := (cpu_array s @ drop (cpu_length s) b)[cpu_length s := cpu], cpu_length := ?n, cpu_count := cpu_length s + 1\<rparr>"
        using push True b ok by (auto simp: push_cpu_def Let_def cpus_ok_def bind_eq_Some_conv split: if_splits)
      have "length (cpu_array s @ drop (cpu_length s) b) = ?n" using len ok by (simp add: cpus_ok_def)
      then show ?thesis using ok True False unfolding s' by (auto simp: cpus_ok_def set)
    qed
  qed
qed

end
