(* ===== verification/Symbols.thy ===== *)
theory Symbols
  imports Memory Printf Libc_Calls
begin

text \<open>
  The kernel's symbol table, \<open>kernel/src/symbols.c\<close>: the text that \<open>nm\<close> prints is put into the kernel, and each
  of its lines is made into a structure in place, which overlays the line.

  Kernel memory is a map from addresses to bytes, and an address a number. Lines end: \<open>None\<close> is a search for
  the end of a line, or a walk over the list, that does not.
\<close>

type_synonym kmem = "nat \<Rightarrow> u8"

definition load64 :: "kmem \<Rightarrow> nat \<Rightarrow> u64" where
  "load64 m p = word_of_bytes (map (\<lambda>i. m (p + i)) [0..<8])"

definition store64 :: "nat \<Rightarrow> u64 \<Rightarrow> kmem \<Rightarrow> kmem" where
  "store64 p v m = (\<lambda>a. if p \<le> a \<and> a < p + 8 then bytes_of 8 v ! (a - p) else m a)"

section \<open>The structure\<close>

definition MAX_SYMBOL_LENGTH :: nat where "MAX_SYMBOL_LENGTH = 127"

definition sym_next :: "kmem \<Rightarrow> nat \<Rightarrow> u64" where "sym_next m s = load64 m s"
definition sym_address :: "kmem \<Rightarrow> nat \<Rightarrow> u64" where "sym_address m s = load64 m (s + 8)"
definition sym_type :: "kmem \<Rightarrow> nat \<Rightarrow> u8" where "sym_type m s = m (s + 17)"
definition sym_length :: "kmem \<Rightarrow> nat \<Rightarrow> u8" where "sym_length m s = m (s + 18)"
definition sym_name :: "nat \<Rightarrow> nat" where "sym_name s = s + 19"

section \<open>Reading the text\<close>

text \<open>A \<open>char\<close> is signed, and a sum of \<open>int\<close>s is extended to an \<open>unsigned long\<close>.\<close>

definition hex_value :: "u8 \<Rightarrow> u64" where
  "hex_value ch = (if 57 <s ch then 10 + scast ch - 97 else scast ch - 48)"

definition read_address :: "kmem \<Rightarrow> nat \<Rightarrow> u64" where
  "read_address m p = fold (\<lambda>i addr. push_bit 4 addr + hex_value (m (p + i))) [0..<16] 0"

text \<open>\<open>memchr\<close> for a newline, without a bound that matters.\<close>

partial_function (option) find_newline :: "kmem \<Rightarrow> nat \<Rightarrow> nat option" where
  "find_newline m p = (if m p = 10 then Some p else find_newline m (p + 1))"

text \<open>\<open>sym->next = v\<close>: at first \<open>sym\<close>, which is \<open>prev\<close> here, is the local variable \<open>head\<close>, of which the second component is the
  \<open>next\<close> field.\<close>

definition set_next :: "nat option \<Rightarrow> u64 \<Rightarrow> kmem \<times> u64 \<Rightarrow> kmem \<times> u64" where
  "set_next prev v mh = (case prev of None \<Rightarrow> (fst mh, v) | Some s \<Rightarrow> (store64 s v (fst mh), snd mh))"

partial_function (option) symbol_loop :: "nat option \<Rightarrow> nat \<Rightarrow> kmem \<times> u64 \<Rightarrow> (kmem \<times> u64) option" where
  "symbol_loop prev symbols_text mh =
     (let m = fst mh in
      if m symbols_text = 10 then Some (set_next prev 0 mh)
      else do {
        let addr = read_address m symbols_text;
        let name = symbols_text + 19;
        e \<leftarrow> find_newline m name;
        let len = e - name;
        let m = m(name + len := 0);
        let (m, h) = set_next prev (word_of_nat symbols_text) (m, snd mh);
        let m = store64 (symbols_text + 8) addr m;
        let m = m(symbols_text + 18 := word_of_nat (min len MAX_SYMBOL_LENGTH));
        symbol_loop (Some symbols_text) (name + len + 1) (m, h)
      })"

text \<open>The result is \<open>symbol_list\<close>; \<open>done\<close> is the mark of \<open>INIT_ONCE\<close>.\<close>

definition symbol_table_init :: "bool \<Rightarrow> nat \<Rightarrow> kmem \<Rightarrow> (kmem \<times> u64) option" where
  "symbol_table_init initialised symbols_text m = (if initialised then None else symbol_loop None symbols_text (m, 0))"

section \<open>Looking up\<close>

definition isupper :: "u8 \<Rightarrow> bool" where "isupper ch \<longleftrightarrow> 65 \<le>s ch \<and> ch <s 91"

text \<open>\<open>name\<close> is the bytes that are compared.\<close>

definition sym_matches :: "kmem \<Rightarrow> nat \<Rightarrow> u8 list \<Rightarrow> bool" where
  "sym_matches m s name \<longleftrightarrow> sint (sym_length m s) = int (length name) \<and> isupper (sym_type m s)
     \<and> (\<forall>i<length name. m (sym_name s + i) = name ! i)"

partial_function (option) find_symbol :: "kmem \<Rightarrow> u64 \<Rightarrow> u8 list \<Rightarrow> u64 option" where
  "find_symbol m s name =
     (if s = 0 then Some 0
      else if sym_matches m (unat s) name then Some s
      else find_symbol m (sym_next m (unat s)) name)"

text \<open>The argument of \<open>ksym_s\<close> is a string, without its zero.\<close>

definition ksym_s :: "kmem \<Rightarrow> u64 \<Rightarrow> u8 list \<Rightarrow> u64 option" where
  "ksym_s m symbol_list name = find_symbol m symbol_list (take MAX_SYMBOL_LENGTH name)"

definition ksym_n :: "kmem \<Rightarrow> u64 \<Rightarrow> u8 list \<Rightarrow> u64 option" where
  "ksym_n m symbol_list name = find_symbol m symbol_list (take MAX_SYMBOL_LENGTH name)"

datatype symbol_match = User_space | Match "u64"

partial_function (option) last_before :: "kmem \<Rightarrow> u64 \<Rightarrow> u64 \<Rightarrow> u64 \<Rightarrow> u64 option" where
  "last_before m address s match =
     (if s = 0 then Some match
      else if address \<le> sym_address m (unat s) then Some match
      else last_before m address (sym_next m (unat s)) s)"

definition symbol_of_address :: "kmem \<Rightarrow> u64 \<Rightarrow> u64 \<Rightarrow> symbol_match option" where
  "symbol_of_address m symbol_list address =
     (if is_user_pointer address then Some User_space
      else map_option Match (last_before m address symbol_list 0))"

section \<open>The table is what the text says\<close>

text \<open>A line of \<open>nm\<close>: the address in sixteen digits, the type and the name.\<close>

record nm_symbol =
  nm_address :: u64
  nm_type :: u8
  nm_name :: "u8 list"

definition nm_line :: "nm_symbol \<Rightarrow> u8 list" where
  "nm_line x = map (\<lambda>d. of_char (digit_char d)) (low_digits 16 16 (unat (nm_address x))) @ [32, nm_type x, 32] @ nm_name x @ [10]"

definition holds :: "kmem \<Rightarrow> nat \<Rightarrow> u8 list \<Rightarrow> bool" where
  "holds m p bs \<longleftrightarrow> (\<forall>i<length bs. m (p + i) = bs ! i)"

definition nm_text :: "nm_symbol list \<Rightarrow> u8 list" where
  "nm_text xs = concat (map nm_line xs) @ [10]"

text \<open>The list in memory that begins at \<open>p\<close>.\<close>

fun symbol_chain :: "kmem \<Rightarrow> u64 \<Rightarrow> nm_symbol list \<Rightarrow> bool" where
  "symbol_chain m p [] \<longleftrightarrow> p = 0"
| "symbol_chain m p (x # xs) \<longleftrightarrow> p \<noteq> 0 \<and> sym_address m (unat p) = nm_address x \<and> sym_type m (unat p) = nm_type x
     \<and> sym_length m (unat p) = word_of_nat (min (length (nm_name x)) MAX_SYMBOL_LENGTH)
     \<and> holds m (sym_name (unat p)) (nm_name x @ [0]) \<and> symbol_chain m (sym_next m (unat p)) xs"

lemma load64_cong: "(\<And>a. p \<le> a \<Longrightarrow> a < p + 8 \<Longrightarrow> m' a = m a) \<Longrightarrow> load64 m' p = load64 m p"
  unfolding load64_def by (intro arg_cong [where f = word_of_bytes] map_cong) auto

lemma load64_store64 [simp]: "load64 (store64 p v m) p = v"
proof -
  have "map (\<lambda>i. store64 p v m (p + i)) [0..<8] = bytes_of 8 v"
    by (rule nth_equalityI) (simp_all add: store64_def)
  moreover have "take_bit 64 v = v" by (rule take_bit_word_eq_self) simp
  ultimately show ?thesis by (simp add: load64_def word_of_bytes_of)
qed

lemma store_other: "a < p \<or> p + 8 \<le> a \<Longrightarrow> store64 p v m a = m a"
  by (auto simp: store64_def)

lemma hex_value_digit: "d < 16 \<Longrightarrow> hex_value (of_char (digit_char d)) = word_of_nat d"
proof -
  have "\<forall>d\<in>set [0..<16]. hex_value (of_char (digit_char d)) = word_of_nat d"
    by code_simp
  then show "d < 16 \<Longrightarrow> ?thesis" by simp
qed

lemma read_address_digits:
  assumes "holds m p (map (\<lambda>d. of_char (digit_char d)) (low_digits 16 16 n))"
  shows "read_address m p = word_of_nat n"
proof -
  let ?ds = "low_digits 16 16 n"
  have d: "hex_value (m (p + i)) = word_of_nat (?ds ! i)" if "i < 16" for i
  proof -
    have "?ds ! i < 16" using low_digits_less [of 16 "?ds ! i" 16 n] that by (simp add: nth_mem)
    moreover have "m (p + i) = of_char (digit_char (?ds ! i))" using assms that by (simp add: holds_def)
    ultimately show ?thesis using hex_value_digit by simp
  qed
  have "fold (\<lambda>i addr. push_bit 4 addr + hex_value (m (p + i))) [0..<k] 0 = word_of_nat (value_of 16 (take k ?ds))"
    if "k \<le> 16" for k
    using that
  proof (induction k)
    case (Suc k)
    have "take (Suc k) ?ds = take k ?ds @ [?ds ! k]" using Suc.prems by (intro take_Suc_conv_app_nth) simp
    then show ?case using Suc d by (simp add: push_bit_eq_mult mult.commute)
  qed simp
  from this [of 16] show ?thesis by (simp add: read_address_def value_low_digits word_of_nat_eq_iff take_bit_eq_mod)
qed

lemma find_newline_end:
  assumes "holds m p (name @ [10])" "10 \<notin> set name"
  shows "find_newline m p = Some (p + length name)"
  using assms
proof (induction name arbitrary: p)
  case Nil
  then show ?case by (simp add: holds_def find_newline.simps [of m p])
next
  case (Cons c name)
  then have "m p = c" "holds m (Suc p) (name @ [10])"
    by (auto simp: holds_def nth_Cons split: nat.splits dest: spec [of _ 0] spec [of _ "Suc _"])
  then show ?case using Cons by (simp add: find_newline.simps [of m p])
qed

lemma holds_append: "holds m p (xs @ ys) \<longleftrightarrow> holds m p xs \<and> holds m (p + length xs) ys"
proof
  assume h: "holds m p (xs @ ys)"
  have "m (p + i) = xs ! i" if "i < length xs" for i
    using h that unfolding holds_def by (auto simp: nth_append dest!: spec [of _ i])
  moreover have "m (p + length xs + i) = ys ! i" if "i < length ys" for i
    using h that unfolding holds_def by (auto simp: nth_append add.assoc dest!: spec [of _ "length xs + i"])
  ultimately show "holds m p xs \<and> holds m (p + length xs) ys" by (simp add: holds_def)
next
  assume h: "holds m p xs \<and> holds m (p + length xs) ys"
  show "holds m p (xs @ ys)" unfolding holds_def
  proof (intro allI impI)
    fix i assume i: "i < length (xs @ ys)"
    show "m (p + i) = (xs @ ys) ! i"
    proof (cases "i < length xs")
      case True
      then show ?thesis using h by (simp add: holds_def nth_append)
    next
      case False
      have "m (p + length xs + j) = ys ! j" if "j < length ys" for j using h that by (simp add: holds_def)
      from this [of "i - length xs"] show ?thesis using False i by (simp add: nth_append)
    qed
  qed
qed

lemma holds_cong: "(\<And>a. p \<le> a \<Longrightarrow> a < p + length bs \<Longrightarrow> m' a = m a) \<Longrightarrow> holds m' p bs \<longleftrightarrow> holds m p bs"
  by (simp add: holds_def)

lemma holds_single [simp]: "holds m p [b] \<longleftrightarrow> m p = b"
  by (simp add: holds_def)

lemma length_nm_line [simp]: "length (nm_line x) = 20 + length (nm_name x)"
  by (simp add: nm_line_def)

lemma nm_line_parts:
  assumes "holds m t (nm_line x)"
  shows "m t \<noteq> 10" "read_address m t = nm_address x" "m (t + 17) = nm_type x" "holds m (t + 19) (nm_name x @ [10])"
proof -
  let ?ds = "low_digits 16 16 (unat (nm_address x))"
  have split: "holds m t (map (\<lambda>d. of_char (digit_char d)) ?ds)" "holds m (t + 16) [32, nm_type x, 32]"
      "holds m (t + 19) (nm_name x @ [10])"
    using assms unfolding nm_line_def holds_append by (simp_all add: add.commute add.left_commute)
  show "holds m (t + 19) (nm_name x @ [10])" by (rule split(3))
  show "m (t + 17) = nm_type x" using split(2) by (auto simp: holds_def add.commute dest!: spec [of _ 1])
  show "read_address m t = nm_address x" using read_address_digits [OF split(1)] by simp
  have "?ds ! 0 < 16" using low_digits_less [of 16 "?ds ! 0" 16 "unat (nm_address x)"] by (simp add: nth_mem)
  moreover have "\<forall>d\<in>set [0..<16]. (of_char (digit_char d) :: u8) \<noteq> 10" by code_simp
  ultimately have "(of_char (digit_char (?ds ! 0)) :: u8) \<noteq> 10" by simp
  moreover have "m t = of_char (digit_char (?ds ! 0))" using split(1) by (auto simp: holds_def dest!: spec [of _ 0])
  ultimately show "m t \<noteq> 10" by simp
qed

text \<open>The writes of one round of the loop.\<close>

definition build_symbol :: "nat option \<Rightarrow> nat \<Rightarrow> nat \<Rightarrow> u64 \<Rightarrow> kmem \<times> u64 \<Rightarrow> kmem \<times> u64" where
  "build_symbol prev t n addr mh =
     (case set_next prev (word_of_nat t) ((fst mh)(t + 19 + n := 0), snd mh) of (m, h) \<Rightarrow>
        ((store64 (t + 8) addr m)(t + 18 := word_of_nat (min n MAX_SYMBOL_LENGTH)), h))"

lemma symbol_loop_step:
  assumes "holds m t (nm_line x)" "10 \<notin> set (nm_name x)"
  shows "symbol_loop prev t (m, h) =
    symbol_loop (Some t) (t + 20 + length (nm_name x)) (build_symbol prev t (length (nm_name x)) (nm_address x) (m, h))"
  using nm_line_parts [OF assms(1)] find_newline_end [of m "t + 19" "nm_name x"] assms(2)
  by (subst symbol_loop.simps) (simp add: Let_def build_symbol_def split_beta add.commute add.left_commute)

lemma build_symbol_memory:
  fixes m :: kmem
  assumes "\<forall>q. prev = Some q \<longrightarrow> q + 19 \<le> t" "build_symbol prev t n addr (m, h) = (m', h')"
  shows "t + 19 + n < a \<Longrightarrow> m' a = m a"
    "a < t \<Longrightarrow> (\<And>q. prev = Some q \<Longrightarrow> a < q \<or> q + 8 \<le> a) \<Longrightarrow> m' a = m a"
    "m' (t + 17) = m (t + 17)" "m' (t + 18) = word_of_nat (min n MAX_SYMBOL_LENGTH)"
    "i < n \<Longrightarrow> m' (t + 19 + i) = m (t + 19 + i)" "m' (t + 19 + n) = 0"
    "load64 m' (t + 8) = addr"
    "case prev of None \<Rightarrow> h' = word_of_nat t | Some q \<Rightarrow> h' = h \<and> load64 m' q = word_of_nat t"
proof -
  have m': "m' = (store64 (t + 8) addr (fst (set_next prev (word_of_nat t) (m(t + 19 + n := 0), h))))
      (t + 18 := word_of_nat (min n MAX_SYMBOL_LENGTH))"
    "h' = snd (set_next prev (word_of_nat t) (m(t + 19 + n := 0), h))"
    using assms(2) by (auto simp: build_symbol_def split: prod.splits)
  show "load64 m' (t + 8) = addr"
  proof -
    have "load64 m' (t + 8) = load64 (store64 (t + 8) addr (fst (set_next prev (word_of_nat t) (m(t + 19 + n := 0), h)))) (t + 8)"
      unfolding m' by (rule load64_cong) simp
    then show ?thesis by simp
  qed
  show "t + 19 + n < a \<Longrightarrow> m' a = m a"
    "a < t \<Longrightarrow> (\<And>q. prev = Some q \<Longrightarrow> a < q \<or> q + 8 \<le> a) \<Longrightarrow> m' a = m a"
    "m' (t + 17) = m (t + 17)" "m' (t + 18) = word_of_nat (min n MAX_SYMBOL_LENGTH)"
    "i < n \<Longrightarrow> m' (t + 19 + i) = m (t + 19 + i)" "m' (t + 19 + n) = 0"
    unfolding m' by (cases prev; force simp: set_next_def store64_def dest: assms(1) [rule_format])+
  show "case prev of None \<Rightarrow> h' = word_of_nat t | Some q \<Rightarrow> h' = h \<and> load64 m' q = word_of_nat t"
  proof (cases prev)
    case (Some q)
    have "load64 m' q = load64 (store64 q (word_of_nat t) (m(t + 19 + n := 0))) q"
      using assms(1) Some unfolding m' Some by (intro load64_cong) (auto simp: set_next_def store64_def)
    then show ?thesis using Some m' by (simp add: set_next_def)
  qed (simp add: m' set_next_def)
qed

lemma symbol_loop_chain:
  "holds m t (nm_text xs) \<Longrightarrow> (\<forall>x\<in>set xs. 10 \<notin> set (nm_name x)) \<Longrightarrow> 0 < t \<Longrightarrow> t + length (nm_text xs) < 2 ^ 64 \<Longrightarrow>
   (\<And>q. prev = Some q \<Longrightarrow> q + 19 \<le> t) \<Longrightarrow>
   \<exists>m' h'. symbol_loop prev t (m, h) = Some (m', h')
     \<and> symbol_chain m' (case prev of None \<Rightarrow> h' | Some q \<Rightarrow> load64 m' q) xs
     \<and> (prev \<noteq> None \<longrightarrow> h' = h)
     \<and> (\<forall>a<t. (\<forall>q. prev = Some q \<longrightarrow> a < q \<or> q + 8 \<le> a) \<longrightarrow> m' a = m a)"
proof (induction xs arbitrary: m t h prev)
  case Nil
  then have "m t = 10" by (simp add: nm_text_def)
  then have "symbol_loop prev t (m, h) = Some (set_next prev 0 (m, h))" by (subst symbol_loop.simps) simp
  then show ?case by (auto simp: set_next_def store_other split: option.splits)
next
  case (Cons x xs)
  let ?n = "length (nm_name x)"
  have line: "holds m t (nm_line x)" "holds m (t + 20 + ?n) (nm_text xs)"
    using Cons.prems(1) by (simp_all add: nm_text_def holds_append add.assoc)
  obtain m4 h4 where b: "build_symbol prev t ?n (nm_address x) (m, h) = (m4, h4)" by fastforce
  have "\<forall>q. prev = Some q \<longrightarrow> q + 19 \<le> t" using Cons.prems(5) by blast
  note mem = build_symbol_memory [OF this b]
  have "holds m4 (t + 20 + ?n) (nm_text xs)" using line(2) mem(1) by (subst holds_cong) simp_all
  then obtain m' h' where IH: "symbol_loop (Some t) (t + 20 + ?n) (m4, h4) = Some (m', h')"
      "symbol_chain m' (load64 m' t) xs" "h' = h4"
      "\<And>a. a < t + 20 + ?n \<Longrightarrow> a < t \<or> t + 8 \<le> a \<Longrightarrow> m' a = m4 a"
    using Cons.IH [of m4 "t + 20 + ?n" "Some t" h4] Cons.prems(2-4) by (auto simp: nm_text_def)
  have loop: "symbol_loop prev t (m, h) = Some (m', h')"
    using symbol_loop_step [OF line(1), of prev h] Cons.prems(2) b IH(1) by simp
  have t: "unat (word_of_nat t :: u64) = t" "(word_of_nat t :: u64) \<noteq> 0"
  proof -
    show u: "unat (word_of_nat t :: u64) = t" using Cons.prems(4) by (simp add: unat_of_nat)
    then show "(word_of_nat t :: u64) \<noteq> 0" using Cons.prems(3) by auto
  qed
  have p: "(case prev of None \<Rightarrow> h' | Some q \<Rightarrow> load64 m' q) = word_of_nat t"
  proof (cases prev)
    case (Some q)
    then have "load64 m' q = load64 m4 q" using Cons.prems(5) [OF Some] by (intro load64_cong IH(4)) auto
    then show ?thesis using Some mem(8) by simp
  qed (use mem(8) IH(3) in simp)
  have fields: "sym_address m' t = nm_address x" "sym_type m' t = nm_type x"
      "sym_length m' t = word_of_nat (min ?n MAX_SYMBOL_LENGTH)"
  proof -
    have "load64 m' (t + 8) = load64 m4 (t + 8)" by (intro load64_cong IH(4)) auto
    then show "sym_address m' t = nm_address x" using mem(7) by (simp add: sym_address_def)
    show "sym_type m' t = nm_type x" using IH(4) [of "t + 17"] mem(3) nm_line_parts(3) [OF line(1)] by (simp add: sym_type_def)
    show "sym_length m' t = word_of_nat (min ?n MAX_SYMBOL_LENGTH)" using IH(4) [of "t + 18"] mem(4) by (simp add: sym_length_def)
  qed
  have name: "holds m' (sym_name t) (nm_name x @ [0])"
  proof -
    have "m' (t + 19 + i) = nm_name x ! i" if "i < ?n" for i
      using IH(4) [of "t + 19 + i"] mem(5) [OF that] that nm_line_parts(4) [OF line(1)] by (simp add: holds_def nth_append)
    moreover have "m' (t + 19 + ?n) = 0" using IH(4) [of "t + 19 + ?n"] mem(6) by simp
    ultimately show ?thesis by (auto simp: sym_name_def holds_def nth_append less_Suc_eq)
  qed
  have "symbol_chain m' (word_of_nat t) (x # xs)"
    using t fields name IH(2) by (simp add: sym_next_def)
  moreover have "prev \<noteq> None \<longrightarrow> h' = h" using mem(8) IH(3) by (auto split: option.splits)
  moreover have "m' a = m a" if "a < t" "\<forall>q. prev = Some q \<longrightarrow> a < q \<or> q + 8 \<le> a" for a
    using IH(4) [of a] mem(2) [of a] that by simp
  ultimately show ?case using loop p by auto
qed

text \<open>C21. The symbol table is what the text says: after \<open>symbol_table_init\<close> on the text of \<open>nm\<close>, in whose place it is
  built, the list holds one structure per line, in order, with the address whose digits the line has, its type, its
  length up to 127, and its whole name, ended by a zero; nothing before the text has changed.\<close>

theorem symbol_table_roundtrip:
  assumes "holds m t (nm_text xs)" "\<forall>x\<in>set xs. 10 \<notin> set (nm_name x)" "0 < t" "t + length (nm_text xs) < 2 ^ 64"
  shows "\<exists>m' symbol_list. symbol_table_init False t m = Some (m', symbol_list) \<and> symbol_chain m' symbol_list xs
    \<and> (\<forall>a<t. m' a = m a)"
  using symbol_loop_chain [OF assms, of None 0] by (auto simp: symbol_table_init_def)

definition two_symbols :: "nm_symbol list" where
  "two_symbols = [\<lparr>nm_address = 0xffffffff80001000, nm_type = 84, nm_name = [105, 110, 105, 116]\<rparr>,
     \<lparr>nm_address = 0xffffffff80001a30, nm_type = 116, nm_name = [120]\<rparr>]"

theorem symbol_table_roundtrip_witness:
  "\<exists>m' symbol_list. symbol_table_init False 4096 (\<lambda>a. nm_text two_symbols ! (a - 4096)) = Some (m', symbol_list)
     \<and> symbol_chain m' symbol_list two_symbols"
proof -
  have "holds (\<lambda>a. nm_text two_symbols ! (a - 4096)) 4096 (nm_text two_symbols)" by (simp add: holds_def)
  moreover have "\<forall>x\<in>set two_symbols. 10 \<notin> set (nm_name x)" by (simp add: two_symbols_def)
  moreover have "4096 + length (nm_text two_symbols) < (2 :: nat) ^ 64" by (simp add: nm_text_def two_symbols_def)
  ultimately show ?thesis using symbol_table_roundtrip [of _ 4096 two_symbols] by fastforce
qed

section \<open>Looking up by name\<close>

lemma sym_matches_name:
  assumes "symbol_chain m p (x # xs)" "length name \<le> MAX_SYMBOL_LENGTH"
  shows "sym_matches m (unat p) name \<longleftrightarrow> isupper (nm_type x) \<and> take MAX_SYMBOL_LENGTH (nm_name x) = name"
proof -
  let ?k = "min (length (nm_name x)) MAX_SYMBOL_LENGTH"
  have "sint (word_of_nat ?k :: u8) = int ?k"
    by (simp add: MAX_SYMBOL_LENGTH_def signed_of_nat signed_take_bit_int_eq_self)
  then have len: "sint (sym_length m (unat p)) = int (length name) \<longleftrightarrow> ?k = length name" using assms(1) by simp
  have bytes: "m (sym_name (unat p) + i) = nm_name x ! i" if "i < length (nm_name x)" for i
    using assms(1) that by (simp add: holds_def nth_append)
  have "(\<forall>i<length name. m (sym_name (unat p) + i) = name ! i) \<longleftrightarrow> take MAX_SYMBOL_LENGTH (nm_name x) = name"
    if "?k = length name"
  proof -
    have "m (sym_name (unat p) + i) = take MAX_SYMBOL_LENGTH (nm_name x) ! i" if "i < length name" for i
      using bytes [of i] that \<open>?k = length name\<close> by simp
    then show ?thesis using that by (auto simp: list_eq_iff_nth_eq)
  qed
  moreover have "?k = length name" if "take MAX_SYMBOL_LENGTH (nm_name x) = name" using that by auto
  ultimately show ?thesis using assms(1) len by (auto simp: sym_matches_def)
qed

text \<open>A name is looked up as the first global symbol whose name, cut to 127 characters, it is, when cut itself.\<close>

theorem find_symbol_chain:
  "symbol_chain m p xs \<Longrightarrow> length name \<le> MAX_SYMBOL_LENGTH \<Longrightarrow> \<exists>q. find_symbol m p name = Some q \<and>
     (case find (\<lambda>x. isupper (nm_type x) \<and> take MAX_SYMBOL_LENGTH (nm_name x) = name) xs of
        None \<Rightarrow> q = 0
      | Some x \<Rightarrow> q \<noteq> 0 \<and> sym_address m (unat q) = nm_address x)"
proof (induction xs arbitrary: p)
  case Nil
  then show ?case by (simp add: find_symbol.simps [of m 0])
next
  case (Cons x xs)
  show ?case
  proof (cases "sym_matches m (unat p) name")
    case True
    then show ?thesis using Cons.prems sym_matches_name [OF Cons.prems] by (simp add: find_symbol.simps [of m p])
  next
    case False
    then show ?thesis
      using Cons.IH [of "sym_next m (unat p)"] Cons.prems sym_matches_name [OF Cons.prems] by (auto simp: find_symbol.simps [of m p])
  qed
qed

section \<open>The symbol of an address\<close>

text \<open>The lookup stops at the first symbol that does not begin before the address, and gives the one before it.\<close>

lemma last_before_chain:
  "symbol_chain m p xs \<Longrightarrow> \<exists>q. last_before m address p match = Some q \<and>
     (if xs = [] \<or> address \<le> nm_address (hd xs) then q = match
      else sym_address m (unat q) = nm_address (last (takeWhile (\<lambda>x. nm_address x < address) xs)))"
proof (induction xs arbitrary: p match)
  case Nil
  then show ?case by (simp add: last_before.simps [of m address 0])
next
  case (Cons x xs)
  show ?case
  proof (cases "address \<le> nm_address x")
    case True
    then show ?thesis using Cons.prems by (simp add: last_before.simps [of m address p])
  next
    case False
    obtain q where q: "last_before m address (sym_next m (unat p)) p = Some q"
        "if xs = [] \<or> address \<le> nm_address (hd xs) then q = p
         else sym_address m (unat q) = nm_address (last (takeWhile (\<lambda>x. nm_address x < address) xs))"
      using Cons.IH [of "sym_next m (unat p)" p] Cons.prems by auto
    have "last_before m address p match = Some q"
      using q(1) Cons.prems False by (simp add: last_before.simps [of m address p])
    moreover have "sym_address m (unat q) = nm_address (last (takeWhile (\<lambda>x. nm_address x < address) (x # xs)))"
      using q(2) Cons.prems False by (cases xs) (auto simp: not_le split: if_splits)
    ultimately show ?thesis using False by simp
  qed
qed

end
