(* ===== verification/Forth_Lib.thy ===== *)
theory Forth_Lib
  imports Symbols
begin

text \<open>
  The library of the kernel's Forth interpreter, \<open>kernel/src/forth/forth_lib.c\<close>: the dictionary, the parser and the
  numbers. The inner interpreter \<open>forth_exec\<close> is assembly (\<open>forth.s\<close>) and a parameter.

  Memory is as in the symbol table. The stack is the list of the cells of its array, of which the first
  \<open>stack_use\<close> are used; \<open>None\<close> is an access outside it, a panic, or a walk over a dictionary that does not end. An
  \<open>isize\<close> of the context is an integer; its field \<open>state\<close>, which only the assembly uses, is \<open>compiling\<close>.
\<close>

record forth_context =
  here :: nat
  dictionary :: u64
  tib :: nat
  ntib :: int
  to_in :: int
  compiling :: int

text \<open>A header in memory: the \<open>next\<close> pointer, \<open>immediate\<close>, \<open>name_length\<close> and the name.\<close>

definition NAME_OFFSET :: nat where "NAME_OFFSET = 10"
definition fh_next :: "kmem \<Rightarrow> nat \<Rightarrow> u64" where "fh_next m h = load64 m h"
definition fh_name_length :: "kmem \<Rightarrow> nat \<Rightarrow> u8" where "fh_name_length m h = m (h + 9)"
definition fh_name :: "nat \<Rightarrow> nat" where "fh_name h = h + NAME_OFFSET"

definition get_cell :: "nat \<Rightarrow> u64 list \<Rightarrow> u64 option" where
  "get_cell i stack = (if i < length stack then Some (stack ! i) else None)"

definition put_cell :: "nat \<Rightarrow> u64 \<Rightarrow> u64 list \<Rightarrow> u64 list option" where
  "put_cell i v stack = (if i < length stack then Some (stack[i := v]) else None)"

text \<open>Stack cell \<open>stack_use - k\<close>.\<close>

definition below :: "nat \<Rightarrow> nat \<Rightarrow> nat option" where
  "below stack_use k = (if k \<le> stack_use then Some (stack_use - k) else None)"

definition clamp_length :: "u64 \<Rightarrow> nat" where
  "clamp_length len = nat (if sint len < 0 then 0 else if 126 < sint len then 126 else sint len)"

definition mem_equal :: "kmem \<Rightarrow> nat \<Rightarrow> nat \<Rightarrow> nat \<Rightarrow> bool" where
  "mem_equal m a b len \<longleftrightarrow> (\<forall>i<len. m (a + i) = m (b + i))"

partial_function (option) lookup_word :: "kmem \<Rightarrow> u64 \<Rightarrow> nat \<Rightarrow> nat \<Rightarrow> u64 option" where
  "lookup_word m e name len =
     (if e = 0 then Some 0
      else if unat (fh_name_length m (unat e)) = len \<and> mem_equal m (fh_name (unat e)) name len then Some e
      else lookup_word m (fh_next m (unat e)) name len)"

section \<open>Parsing\<close>

text \<open>A loop over the input: what is left of it, and where.\<close>

fun scan :: "(u8 \<Rightarrow> bool) \<Rightarrow> kmem \<Rightarrow> nat \<Rightarrow> nat \<Rightarrow> nat \<times> nat" where
  "scan p m 0 a = (0, a)"
| "scan p m (Suc remainder) a = (if p (m a) then scan p m remainder (a + 1) else (Suc remainder, a))"

definition forth_parse_name :: "kmem \<Rightarrow> forth_context \<Rightarrow> u64 list \<Rightarrow> nat \<Rightarrow> (forth_context \<times> u64 list \<times> nat) option" where
  "forth_parse_name m ctx stack stack_use = do {
     let (remainder, first) = scan (\<lambda>c. c \<le>s 32) m (nat (ntib ctx - to_in ctx)) (nat (int (tib ctx) + to_in ctx));
     let (remainder, last) = scan (\<lambda>c. 32 <s c) m remainder first;
     let ctx = ctx\<lparr>to_in := int last - int (tib ctx) + (if 0 < remainder then 1 else 0)\<rparr>;
     stack \<leftarrow> put_cell stack_use (word_of_nat first) stack;
     stack \<leftarrow> put_cell (stack_use + 1) (word_of_nat (last - first)) stack;
     Some (ctx, stack, stack_use + 2)
   }"

definition forth_parse_char :: "kmem \<Rightarrow> forth_context \<Rightarrow> u64 list \<Rightarrow> nat \<Rightarrow> (forth_context \<times> u64 list \<times> nat) option" where
  "forth_parse_char m ctx stack stack_use = do {
     top \<leftarrow> below stack_use 1;
     delimiter \<leftarrow> get_cell top stack;
     let first = nat (int (tib ctx) + to_in ctx);
     let (remainder, last) = scan (\<lambda>c. c \<noteq> ucast delimiter) m (nat (ntib ctx - to_in ctx)) first;
     let ctx = ctx\<lparr>to_in := int last - int (tib ctx) + (if 0 < remainder then 1 else 0)\<rparr>;
     stack \<leftarrow> put_cell top (word_of_nat first) stack;
     stack \<leftarrow> put_cell stack_use (word_of_nat (last - first)) stack;
     Some (ctx, stack, stack_use + 1)
   }"

definition forth_find_name :: "kmem \<Rightarrow> forth_context \<Rightarrow> u64 list \<Rightarrow> nat \<Rightarrow> (u64 list \<times> nat) option" where
  "forth_find_name m ctx stack stack_use = do {
     a \<leftarrow> below stack_use 2;
     name \<leftarrow> get_cell a stack;
     len \<leftarrow> get_cell (a + 1) stack;
     w \<leftarrow> lookup_word m (dictionary ctx) (unat name) (clamp_length len);
     stack \<leftarrow> put_cell a w stack;
     Some (stack, stack_use - 1)
   }"

text \<open>The loop over the digits; \<open>None\<close> when a character is none. A \<open>char\<close> is signed.\<close>

fun num_loop :: "kmem \<Rightarrow> nat \<Rightarrow> nat \<Rightarrow> u64 \<Rightarrow> u64 option" where
  "num_loop m buf 0 v = Some v"
| "num_loop m buf (Suc n) v =
     (let ch = m buf in
      if 48 \<le>s ch \<and> ch \<le>s 57 then num_loop m (buf + 1) n (v * 16 + scast ch - 48)
      else if 97 \<le>s ch \<and> ch \<le>s 102 then num_loop m (buf + 1) n (v * 16 + 10 + scast ch - 97)
      else None)"

definition forth_str_to_num :: "kmem \<Rightarrow> u64 list \<Rightarrow> nat \<Rightarrow> (u64 list \<times> nat) option" where
  "forth_str_to_num m stack stack_use = do {
     a \<leftarrow> below stack_use 2;
     buf \<leftarrow> get_cell a stack;
     len \<leftarrow> get_cell (a + 1) stack;
     case num_loop m (unat buf) (nat (sint len)) 0 of
       None \<Rightarrow> do { stack \<leftarrow> put_cell (a + 1) 0 stack; Some (stack, stack_use) }
     | Some v \<Rightarrow> do {
         stack \<leftarrow> put_cell a v stack;
         stack \<leftarrow> put_cell (a + 1) 1 stack;
         Some (stack, stack_use)
       }
   }"

text \<open>The name is the bytes at \<open>name\<close>.\<close>

definition forth_find_symbol :: "kmem \<Rightarrow> u64 \<Rightarrow> nat \<Rightarrow> nat \<Rightarrow> u64 option" where
  "forth_find_symbol m symbol_list name len = ksym_n m symbol_list (map (\<lambda>i. m (name + i)) [0..<len])"

section \<open>Printing\<close>

definition forth_c_print :: "(u64 \<Rightarrow> char) \<Rightarrow> u64 \<Rightarrow> string option" where
  "forth_c_print chars x = printf chars ''%zx '' [x]"

fun print_cells :: "(u64 \<Rightarrow> char) \<Rightarrow> u64 list \<Rightarrow> string option" where
  "print_cells chars [] = Some []"
| "print_cells chars (x # xs) = do { s \<leftarrow> printf chars ''%zx '' [x]; r \<leftarrow> print_cells chars xs; Some (s @ r) }"

definition forth_print_stack :: "(u64 \<Rightarrow> char) \<Rightarrow> u64 list \<Rightarrow> nat \<Rightarrow> string option" where
  "forth_print_stack chars stack stack_usage =
     (if length stack < stack_usage then None
      else do { s \<leftarrow> print_cells chars (take stack_usage stack); Some (''[ '' @ s @ '']'' @ [CHR 0x0A]) })"

section \<open>The dictionary\<close>

definition forth_header_to_xt :: "kmem \<Rightarrow> nat \<Rightarrow> nat" where
  "forth_header_to_xt m h = h + (NAME_OFFSET + unat (fh_name_length m h) + 8) div 8 * 8"

fun copy_bytes :: "nat \<Rightarrow> nat \<Rightarrow> nat \<Rightarrow> kmem \<Rightarrow> kmem" where
  "copy_bytes dest src 0 m = m"
| "copy_bytes dest src (Suc n) m = copy_bytes (dest + 1) (src + 1) n (m(dest := m src))"

definition write_header :: "nat \<Rightarrow> u64 \<Rightarrow> nat \<Rightarrow> nat \<Rightarrow> kmem \<Rightarrow> kmem" where
  "write_header header next name len m =
     (let m = store64 header next m;
          m = m(header + 8 := 0);
          m = m(header + 9 := word_of_nat len);
          m = copy_bytes (fh_name header) name len m
      in m(fh_name header + len := 0))"

definition forth_make_header ::
    "forth_context \<Rightarrow> u64 list \<Rightarrow> nat \<Rightarrow> kmem \<Rightarrow> (forth_context \<times> u64 list \<times> nat \<times> kmem) option"
where
  "forth_make_header ctx stack stack_usage m = do {
     a \<leftarrow> below stack_usage 2;
     name \<leftarrow> get_cell a stack;
     len \<leftarrow> get_cell (a + 1) stack;
     let header = here ctx;
     let m = write_header header (dictionary ctx) (unat name) (clamp_length len) m;
     let ctx = ctx\<lparr>here := forth_header_to_xt m header\<rparr>;
     stack \<leftarrow> put_cell a (word_of_nat header) stack;
     Some (ctx, stack, stack_usage - 1, m)
   }"

section \<open>Running the interpreter\<close>

text \<open>\<open>exec ctx program stack stack_usage m\<close> is \<open>forth_exec\<close>: its result, which is negative after an abort, and
  the context, the stack and the memory it leaves. \<open>program\<close> is the address of the two words. The data space of
  \<open>forth_interpret\<close> is an array on its stack at \<open>space\<close>; the words it defines are forgotten with it.\<close>

type_synonym forth_exec =
  "forth_context \<Rightarrow> nat \<Rightarrow> u64 list \<Rightarrow> nat \<Rightarrow> kmem \<Rightarrow> (int \<times> forth_context \<times> u64 list \<times> kmem) option"

definition DATA_SPACE :: nat where "DATA_SPACE = 4096"

definition forth_interpret ::
    "forth_exec \<Rightarrow> (u64 \<Rightarrow> char) \<Rightarrow> nat \<Rightarrow> u64 \<Rightarrow> nat \<Rightarrow> nat \<Rightarrow> int \<Rightarrow> u64 list \<Rightarrow> kmem \<Rightarrow> (int \<times> string \<times> u64 list \<times> kmem) option"
where
  "forth_interpret exec chars program forth_headers space txt n stack m = do {
     let m = (\<lambda>a. if space \<le> a \<and> a < space + DATA_SPACE then 0 else m a);
     let ctx = \<lparr>here = space, dictionary = forth_headers, tib = txt, ntib = n, to_in = 0, compiling = 0\<rparr>;
     (r, ctx, stack, m) \<leftarrow> exec ctx program stack 0 m;
     if r < 0 then Some (- 1, [], stack, m)
     else do {
       out \<leftarrow> forth_print_stack chars stack (nat r);
       Some (r, out, stack, m)
     }
   }"

text \<open>The stack of \<open>forth_init\<close> is the array from its second cell on. The result is the new \<open>forth_headers\<close>.\<close>

definition forth_init ::
    "forth_exec \<Rightarrow> nat \<Rightarrow> u64 \<Rightarrow> nat \<Rightarrow> nat \<Rightarrow> nat \<Rightarrow> u64 list \<Rightarrow> kmem \<Rightarrow> (u64 \<times> kmem) option"
where
  "forth_init exec program forth_headers space init_code code_size init_stack m = do {
     let ctx = \<lparr>here = space, dictionary = forth_headers, tib = init_code, ntib = int code_size, to_in = 0, compiling = 0\<rparr>;
     (ret, ctx, _, m) \<leftarrow> exec ctx program (take 31 init_stack) 0 m;
     kassert (ret = 0);
     kassert (here ctx \<le> space + DATA_SPACE);
     Some (dictionary ctx, m)
   }"

section \<open>The parser takes the input apart into words\<close>

definition blank :: "u8 \<Rightarrow> bool" where "blank c \<longleftrightarrow> c \<le>s 32"

definition next_word :: "u8 list \<Rightarrow> u8 list" where
  "next_word cs = takeWhile (\<lambda>c. \<not> blank c) (dropWhile blank cs)"

definition after_word :: "u8 list \<Rightarrow> u8 list" where
  "after_word cs = drop 1 (dropWhile (\<lambda>c. \<not> blank c) (dropWhile blank cs))"

lemma blank_neg: "(\<lambda>c. 32 <s c) = (\<lambda>c. \<not> blank c)"
  by (auto simp: blank_def word_sle_eq word_sless_alt)

lemma holds_Cons: "holds m p (b # bs) \<longleftrightarrow> m p = b \<and> holds m (p + 1) bs"
  using holds_append [of m p "[b]" bs] by simp

lemma scan_list:
  "holds m a cs \<Longrightarrow> scan p m (length cs) a = (length (dropWhile p cs), a + length (takeWhile p cs))"
  by (induction cs arbitrary: a) (auto simp: holds_Cons)

lemma holds_take_drop:
  assumes "holds m p cs"
  shows "holds m (p + length (takeWhile q cs)) (dropWhile q cs)" "holds m p (takeWhile q cs)"
proof -
  have "holds m p (takeWhile q cs @ dropWhile q cs)" using assms by simp
  then show "holds m (p + length (takeWhile q cs)) (dropWhile q cs)" "holds m p (takeWhile q cs)"
    unfolding holds_append by simp_all
qed

text \<open>What a context has left to read.\<close>

definition reads :: "kmem \<Rightarrow> forth_context \<Rightarrow> u8 list \<Rightarrow> bool" where
  "reads m ctx cs \<longleftrightarrow> 0 \<le> to_in ctx \<and> ntib ctx = to_in ctx + int (length cs) \<and> holds m (nat (int (tib ctx) + to_in ctx)) cs"

lemma parse_name_word:
  assumes r: "reads m ctx cs" and space: "stack_use + 1 < length stack"
  shows "\<exists>ctx' a. forth_parse_name m ctx stack stack_use =
      Some (ctx', stack[stack_use := word_of_nat a, stack_use + 1 := word_of_nat (length (next_word cs))], stack_use + 2)
    \<and> holds m a (next_word cs) \<and> reads m ctx' (after_word cs)
    \<and> a + length (next_word cs) \<le> nat (int (tib ctx) + to_in ctx) + length cs"
proof -
  define a0 where "a0 = nat (int (tib ctx) + to_in ctx)"
  let ?a = a0 and ?bs = "dropWhile blank cs"
  define first where "first = a0 + length (takeWhile blank cs)"
  let ?first = first and ?w = "next_word cs"
  have cs: "holds m ?a cs" and n: "nat (ntib ctx - to_in ctx) = length cs" and pos: "0 \<le> to_in ctx"
    using r by (auto simp: reads_def a0_def)
  note b = holds_take_drop [OF cs, of blank, folded first_def]
  have w: "holds m ?first ?w" unfolding next_word_def by (rule holds_take_drop(2) [OF b(1)])
  define rest where "rest = dropWhile (\<lambda>c. \<not> blank c) ?bs"
  have rest: "holds m (?first + length ?w) rest"
    unfolding next_word_def rest_def by (rule holds_take_drop(1) [OF b(1)])
  have len: "length cs = length (takeWhile blank cs) + length ?w + length rest"
    unfolding next_word_def rest_def
    by (metis length_append takeWhile_dropWhile_id add.assoc)
  have scans: "scan (\<lambda>c. c \<le>s 32) m (nat (ntib ctx - to_in ctx)) ?a = (length ?bs, ?first)"
      "scan (\<lambda>c. 32 <s c) m (length ?bs) ?first = (length rest, ?first + length ?w)"
    unfolding n blank_neg using scan_list [OF cs, of blank] scan_list [OF b(1), of "\<lambda>c. \<not> blank c"]
    by (simp_all add: blank_def [abs_def] next_word_def rest_def first_def)
  let ?ctx = "ctx\<lparr>to_in := int (?first + length ?w) - int (tib ctx) + (if 0 < length rest then 1 else 0)\<rparr>"
  have "forth_parse_name m ctx stack stack_use =
      Some (?ctx, stack[stack_use := word_of_nat ?first, stack_use + 1 := word_of_nat (length ?w)], stack_use + 2)"
    using space unfolding forth_parse_name_def a0_def [symmetric]
    by (simp only: scans Let_def case_prod_conv) (simp add: put_cell_def)
  moreover have "reads m ?ctx (after_word cs)"
  proof (cases rest)
    case Nil
    then have "after_word cs = []" by (simp add: after_word_def rest_def [symmetric])
    then show ?thesis using r len pos Nil by (auto simp: reads_def holds_def first_def a0_def)
  next
    case (Cons d ds)
    then have "holds m (?first + length ?w + 1) ds" using rest by (simp add: holds_Cons)
    moreover have "after_word cs = ds" using Cons by (simp add: after_word_def rest_def)
    moreover have "nat (int (tib ctx) + to_in ?ctx) = ?first + length ?w + 1" using Cons pos by (simp add: first_def a0_def)
    moreover have "ntib ?ctx = to_in ?ctx + int (length ds)" using r len Cons pos by (auto simp: reads_def first_def a0_def)
    ultimately show ?thesis using pos Cons by (simp add: reads_def first_def a0_def)
  qed
  moreover have "?first + length ?w \<le> ?a + length cs" using len by (simp add: first_def)
  ultimately show ?thesis using w unfolding a0_def [symmetric] by blast
qed

section \<open>Numbers\<close>

lemma num_loop_digits:
  "holds m buf (map (\<lambda>d. of_char (digit_char d)) ds) \<Longrightarrow> \<forall>d\<in>set ds. d < 16 \<Longrightarrow>
   num_loop m buf (length ds) v = Some (foldl (\<lambda>a d. a * 16 + word_of_nat d) v ds)"
proof (induction ds arbitrary: buf v)
  case (Cons d ds)
  have "\<forall>d\<in>set [0..<16]. let ch = of_char (digit_char d) :: u8 in
      if 48 \<le>s ch \<and> ch \<le>s 57 then scast ch - 48 = (word_of_nat d :: u64)
      else 97 \<le>s ch \<and> ch \<le>s 102 \<and> 10 + scast ch - 97 = (word_of_nat d :: u64)"
    by code_simp
  then have d: "let ch = of_char (digit_char d) :: u8 in
      if 48 \<le>s ch \<and> ch \<le>s 57 then scast ch - 48 = (word_of_nat d :: u64)
      else 97 \<le>s ch \<and> ch \<le>s 102 \<and> 10 + scast ch - 97 = (word_of_nat d :: u64)"
    using Cons.prems(2) by simp
  have "num_loop m buf (length (d # ds)) v = num_loop m (buf + 1) (length ds) (v * 16 + word_of_nat d)"
    using d Cons.prems(1) by (simp add: holds_Cons Let_def add_diff_eq [symmetric] add.assoc split: if_splits)
  then show ?case using Cons by (simp add: holds_Cons)
qed simp

lemma foldl_value: "foldl (\<lambda>a d. a * 16 + word_of_nat d) (word_of_nat v :: u64) ds = word_of_nat (foldl (\<lambda>a d. a * 16 + d) v ds)"
proof (induction ds arbitrary: v)
  case (Cons d ds)
  show ?case using Cons [of "v * 16 + d"] by simp
qed simp

lemma printf_zx: "printf chars ''%zx '' [v] = Some (numeral_text 16 (unat v) @ '' '')"
  using vprintf_percent [of "[]" chars "''zx ''" "\<lparr>pargs = [v], pdata = []\<rparr>"]
  by (simp add: print_hex_text read_number_def va_arg_def vprintf_literal printf_def padded_def afmt0_def)

lemma digits_not_blank: "d < 16 \<Longrightarrow> \<not> blank (of_char (digit_char d))"
proof -
  have "\<forall>d\<in>set [0..<16]. \<not> blank (of_char (digit_char d))" by code_simp
  then show "d < 16 \<Longrightarrow> ?thesis" by simp
qed

lemma word_of_number:
  fixes v :: nat and rest :: "u8 list"
  defines "t \<equiv> map (\<lambda>d. of_char (digit_char d)) (digits_of 16 v) :: u8 list"
  shows "next_word (t @ 32 # rest) = t" "after_word (t @ 32 # rest) = rest"
proof -
  have nb: "\<not> blank c" if "c \<in> set t" for c
    using that digits_of_less [of 16 _ v] digits_not_blank by (auto simp: t_def)
  have sp: "blank (32 :: u8)" by (simp add: blank_def)
  have ne: "t \<noteq> []" by (simp add: t_def)
  have "dropWhile blank (t @ 32 # rest) = t @ 32 # rest" using nb ne by (cases t) auto
  moreover have "takeWhile (\<lambda>c. \<not> blank c) (t @ 32 # rest) = t" "dropWhile (\<lambda>c. \<not> blank c) (t @ 32 # rest) = 32 # rest"
    using nb sp by (simp_all add: takeWhile_append2 dropWhile_append2)
  ultimately show "next_word (t @ 32 # rest) = t" "after_word (t @ 32 # rest) = rest"
    by (simp_all add: next_word_def after_word_def)
qed

text \<open>C23. What the interpreter prints it reads: when the input continues with what the word for printing has printed for a
  number, the parser and \<open>forth_str_to_num\<close> take it in and leave that number and a true flag on the stack; the input is
  consumed up to the space.\<close>

theorem forth_number_roundtrip:
  assumes "forth_c_print chars x = Some t" "reads m ctx (map of_char t @ rest)" "stack_use + 1 < length stack"
    and "nat (int (tib ctx) + to_in ctx) + length (map of_char t @ rest :: u8 list) < 2 ^ 63"
  shows "\<exists>ctx' stack1 stack2. forth_parse_name m ctx stack stack_use = Some (ctx', stack1, stack_use + 2)
    \<and> forth_str_to_num m stack1 (stack_use + 2) = Some (stack2, stack_use + 2)
    \<and> stack2 = stack[stack_use := x, stack_use + 1 := 1] \<and> reads m ctx' rest"
proof -
  let ?ds = "digits_of 16 (unat x)"
  let ?t = "map (\<lambda>d. of_char (digit_char d)) ?ds :: u8 list"
  have t: "map of_char t = ?t @ [32]"
    using assms(1) by (auto simp: forth_c_print_def printf_zx numeral_text_def)
  note word = word_of_number [of "unat x" rest]
  obtain ctx' a where p: "forth_parse_name m ctx stack stack_use =
        Some (ctx', stack[stack_use := word_of_nat a, stack_use + 1 := word_of_nat (length ?t)], stack_use + 2)"
      "holds m a ?t" "reads m ctx' rest" "a + length ?t < 2 ^ 63"
    using parse_name_word [OF assms(2,3)] assms(4) unfolding t by (auto simp: word)
  let ?stack1 = "stack[stack_use := word_of_nat a, stack_use + 1 := word_of_nat (length ?t)]"
  have a: "unat (word_of_nat a :: u64) = a" "nat (sint (word_of_nat (length ?t) :: u64)) = length ?t"
    using p(4) by (simp_all add: unat_of_nat sint_small)
  have "num_loop m a (length ?ds) 0 = Some x"
    using num_loop_digits [OF p(2)] digits_of_less [of 16 _ "unat x"] foldl_value [of 0 ?ds]
      value_of_digits_of [of 16 "unat x"] by (simp add: value_of_def)
  then have "forth_str_to_num m ?stack1 (stack_use + 2) = Some (?stack1[stack_use := x, stack_use + 1 := 1], stack_use + 2)"
    using assms(3) a by (simp add: forth_str_to_num_def below_def get_cell_def put_cell_def)
  moreover have "?stack1[stack_use := x, stack_use + 1 := 1] = stack[stack_use := x, stack_use + 1 := 1]"
    by (simp add: list_update_swap)
  ultimately show ?thesis using p(1,3) by auto
qed

definition number_text :: "u8 list" where "number_text = [102, 102, 32]"

definition number_input :: forth_context where
  "number_input = \<lparr>here = 0, dictionary = 0, tib = 4096, ntib = 3, to_in = 0, compiling = 0\<rparr>"

theorem forth_number_roundtrip_witness:
  "\<exists>ctx' stack1. forth_parse_name (\<lambda>a. number_text ! (a - 4096)) number_input [0, 0] 0 = Some (ctx', stack1, 2)
    \<and> forth_str_to_num (\<lambda>a. number_text ! (a - 4096)) stack1 2 = Some ([255, 1], 2)"
proof -
  have t: "forth_c_print (\<lambda>_. CHR 0x00) 255 = Some ''ff ''"
  proof -
    have "numeral_text 16 255 = ''ff''" by code_simp
    then show ?thesis by (simp add: forth_c_print_def printf_zx)
  qed
  have "reads (\<lambda>a. number_text ! (a - 4096)) number_input (map of_char ''ff '' @ [])"
    by (simp add: reads_def number_input_def holds_def number_text_def)
  from forth_number_roundtrip [OF t this, of 0 "[0, 0]"] show ?thesis
    by (auto simp: number_input_def simp del: add_2_eq_Suc')
qed

section \<open>The dictionary\<close>

text \<open>The words of a dictionary in memory: the address of each header, and its name.\<close>

fun dict :: "kmem \<Rightarrow> u64 \<Rightarrow> (nat \<times> u8 list) list \<Rightarrow> bool" where
  "dict m e [] \<longleftrightarrow> e = 0"
| "dict m e ((h, w) # ws) \<longleftrightarrow> e \<noteq> 0 \<and> unat e = h \<and> unat (fh_name_length m h) = length w \<and> holds m (fh_name h) w
     \<and> dict m (fh_next m h) ws"

definition find_word :: "u8 list \<Rightarrow> (nat \<times> u8 list) list \<Rightarrow> nat" where
  "find_word name ws = (case find (\<lambda>(h, w). w = name) ws of None \<Rightarrow> 0 | Some (h, _) \<Rightarrow> h)"

lemma mem_equal_name:
  "holds m a w \<Longrightarrow> holds m b name \<Longrightarrow> length w = length name \<Longrightarrow> mem_equal m a b (length name) \<longleftrightarrow> w = name"
  by (auto simp: mem_equal_def holds_def list_eq_iff_nth_eq)

lemma lookup_word_dict:
  "dict m e ws \<Longrightarrow> holds m a name \<Longrightarrow> \<exists>r. lookup_word m e a (length name) = Some r \<and> unat r = find_word name ws"
proof (induction ws arbitrary: e)
  case Nil
  then show ?case by (simp add: lookup_word.simps [of m 0] find_word_def)
next
  case (Cons x ws)
  obtain h w where x: "x = (h, w)" by fastforce
  show ?case
  proof (cases "w = name")
    case True
    then show ?thesis using Cons.prems x mem_equal_name [of m "fh_name h" w a name]
      by (simp add: lookup_word.simps [of m e] find_word_def)
  next
    case False
    then show ?thesis using Cons x mem_equal_name [of m "fh_name h" w a name]
      by (auto simp: lookup_word.simps [of m e] find_word_def)
  qed
qed

lemma copy_bytes_other: "a < d \<or> d + n \<le> a \<Longrightarrow> copy_bytes d s n m a = m a"
  by (induction n arbitrary: d s m) auto

lemma copy_bytes_nth: "s + n \<le> d \<or> d + n \<le> s \<Longrightarrow> i < n \<Longrightarrow> copy_bytes d s n m (d + i) = m (s + i)"
proof (induction n arbitrary: d s m i)
  case (Suc n)
  show ?case
  proof (cases i)
    case 0
    then show ?thesis by (simp add: copy_bytes_other)
  next
    case (Suc j)
    have "copy_bytes (d + 1) (s + 1) n (m(d := m s)) (d + 1 + j) = (m(d := m s)) (s + 1 + j)"
      by (rule Suc.IH) (use Suc.prems \<open>i = Suc j\<close> in auto)
    then show ?thesis using Suc.prems \<open>i = Suc j\<close> by auto
  qed
qed simp

definition header_end :: "nat \<times> u8 list \<Rightarrow> nat" where
  "header_end x = fst x + NAME_OFFSET + length (snd x) + 1"

definition apart :: "nat \<Rightarrow> nat \<Rightarrow> nat \<Rightarrow> nat \<Rightarrow> bool" where
  "apart a a' b b' \<longleftrightarrow> a' \<le> b \<or> b' \<le> a"

lemma dict_cong:
  "(\<And>a. a < low \<or> high \<le> a \<Longrightarrow> m' a = m a) \<Longrightarrow> \<forall>x\<in>set ws. apart (fst x) (header_end x) low high \<Longrightarrow> dict m e ws \<Longrightarrow> dict m' e ws"
proof (induction ws arbitrary: e)
  case (Cons x ws)
  obtain h w where x: "x = (h, w)" by fastforce
  have same: "m' a = m a" if "h \<le> a" "a < header_end x" for a
    using Cons.prems(1) [of a] Cons.prems(2) that x by (auto simp: apart_def)
  have "load64 m' h = load64 m h" using same x by (intro load64_cong) (auto simp: header_end_def NAME_OFFSET_def)
  moreover have "m' (h + 9) = m (h + 9)" using same x by (simp add: header_end_def NAME_OFFSET_def)
  moreover have "holds m' (fh_name h) w \<longleftrightarrow> holds m (fh_name h) w"
    using same x by (intro holds_cong) (auto simp: header_end_def fh_name_def)
  ultimately show ?case using Cons x by (simp add: fh_next_def fh_name_length_def)
qed simp

lemma write_header_memory:
  fixes m :: kmem and header name len :: nat and nx :: u64
  defines "m' \<equiv> write_header header nx name len m"
  assumes apart: "apart name (name + len) header (header + NAME_OFFSET + len + 1)"
  shows "a < header \<or> header + NAME_OFFSET + len + 1 \<le> a \<Longrightarrow> m' a = m a"
    "fh_next m' header = nx" "fh_name_length m' header = word_of_nat len"
    "i < len \<Longrightarrow> m' (fh_name header + i) = m (name + i)" "m' (fh_name header + len) = 0"
proof -
  let ?m0 = "(store64 header nx m)(header + 8 := 0, header + 9 := word_of_nat len)"
  have m': "m' = (copy_bytes (fh_name header) name len ?m0)(fh_name header + len := 0)"
    by (simp add: m'_def write_header_def Let_def)
  show "a < header \<or> header + NAME_OFFSET + len + 1 \<le> a \<Longrightarrow> m' a = m a"
    unfolding m' by (auto simp: copy_bytes_other fh_name_def NAME_OFFSET_def store64_def)
  have "load64 m' header = load64 (store64 header nx m) header"
    unfolding m' by (rule load64_cong) (simp add: copy_bytes_other fh_name_def NAME_OFFSET_def)
  then show "fh_next m' header = nx" by (simp add: fh_next_def)
  show "fh_name_length m' header = word_of_nat len"
    unfolding m' fh_name_length_def by (simp add: copy_bytes_other fh_name_def NAME_OFFSET_def)
  show "m' (fh_name header + len) = 0" unfolding m' by simp
  assume i: "i < len"
  have "m' (fh_name header + i) = ?m0 (name + i)"
    using i apart copy_bytes_nth [of name len "fh_name header" i ?m0]
    unfolding m' apart_def fh_name_def NAME_OFFSET_def fun_upd_apply by auto
  also have "?m0 (name + i) = m (name + i)"
    using i apart by (auto simp: apart_def NAME_OFFSET_def store64_def)
  finally show "m' (fh_name header + i) = m (name + i)" .
qed

text \<open>C22. A word that is defined is found: after \<open>forth_make_header\<close> a dictionary that begins at the new header holds the
  new word before all it held, so that looking up any name finds the newest word of that name, or none; the header
  is on the stack, and the space for the code begins at the next multiple of eight after the name and its zero.\<close>

theorem forth_define_then_find:
  assumes dict: "dict m (dictionary ctx) ws" and name: "holds m (unat a) name" "length name \<le> 126"
    and cells: "stack_usage \<le> length stack" "2 \<le> stack_usage" "stack ! (stack_usage - 2) = a"
      "stack ! (stack_usage - 1) = word_of_nat (length name)"
    and room: "0 < here ctx" "here ctx < 2 ^ 64"
    and free: "\<forall>x\<in>set ws. apart (fst x) (header_end x) (here ctx) (header_end (here ctx, name))"
      "apart (unat a) (unat a + length name) (here ctx) (header_end (here ctx, name))"
  shows "\<exists>ctx' stack' m' e. forth_make_header ctx stack stack_usage m = Some (ctx', stack', stack_usage - 1, m')
    \<and> stack' ! (stack_usage - 2) = e \<and> unat e = here ctx \<and> dict m' e ((here ctx, name) # ws)
    \<and> (\<forall>b q. holds m' b q \<longrightarrow> (\<exists>r. lookup_word m' e b (length q) = Some r \<and> unat r = find_word q ((here ctx, name) # ws)))
    \<and> header_end (here ctx, name) \<le> here ctx' \<and> (8 dvd here ctx \<longrightarrow> 8 dvd here ctx' \<and> here ctx' < header_end (here ctx, name) + 8)"
proof -
  let ?h = "here ctx" and ?n = "length name" and ?e = "word_of_nat (here ctx) :: u64"
  define m' where "m' = write_header ?h (dictionary ctx) (unat a) ?n m"
  have "apart (unat a) (unat a + ?n) ?h (?h + NAME_OFFSET + ?n + 1)" using free(2) by (simp add: header_end_def)
  note mem = write_header_memory [OF this, where nx = "dictionary ctx" and m = m, folded m'_def]
  have e: "unat ?e = ?h" "?e \<noteq> 0"
  proof -
    show u: "unat ?e = ?h" using room by (simp add: unat_of_nat)
    then show "?e \<noteq> 0" using room by auto
  qed
  have len: "unat (fh_name_length m' ?h) = ?n" using mem(3) name(2) by (simp add: unat_of_nat)
  have d: "dict m' ?e ((?h, name) # ws)"
  proof -
    have "dict m' (dictionary ctx) ws"
      by (rule dict_cong [OF _ _ dict, of ?h "header_end (?h, name)"]) (use mem(1) free(1) in \<open>auto simp: header_end_def\<close>)
    moreover have "holds m' (fh_name ?h) name" using mem(4) name(1) by (simp add: holds_def)
    ultimately show ?thesis using e len mem(2) by simp
  qed
  have idx: "stack_usage - 2 < length stack" "stack_usage - Suc 0 < length stack" "Suc (stack_usage - 2) = stack_usage - Suc 0"
    using cells(1,2) by linarith+
  have "clamp_length (word_of_nat ?n) = ?n"
    using name(2) by (simp add: clamp_length_def sint_small unat_of_nat)
  then have make: "forth_make_header ctx stack stack_usage m =
      Some (ctx\<lparr>here := forth_header_to_xt m' ?h\<rparr>, stack[stack_usage - 2 := ?e], stack_usage - 1, m')"
    using cells idx by (simp add: forth_make_header_def below_def get_cell_def put_cell_def m'_def Let_def)
  have xt: "forth_header_to_xt m' ?h = ?h + (18 + ?n) div 8 * 8" using len by (simp add: forth_header_to_xt_def NAME_OFFSET_def)
  have "header_end (?h, name) \<le> forth_header_to_xt m' ?h" "forth_header_to_xt m' ?h < header_end (?h, name) + 8"
    unfolding xt by (simp_all add: header_end_def NAME_OFFSET_def)
  moreover have "8 dvd ?h \<longrightarrow> 8 dvd forth_header_to_xt m' ?h" unfolding xt by simp
  ultimately show ?thesis
    using make cells(1,2) e(1) d lookup_word_dict [OF d] by (intro exI [of _ "ctx\<lparr>here := forth_header_to_xt m' ?h\<rparr>"]
      exI [of _ "stack[stack_usage - 2 := ?e]"] exI [of _ m'] exI [of _ ?e]) auto
qed

definition word_input :: forth_context where
  "word_input = \<lparr>here = 8192, dictionary = 0, tib = 0, ntib = 0, to_in = 0, compiling = 0\<rparr>"

definition word_memory :: kmem where
  "word_memory a = (if a = 4096 then 97 else if a = 4097 then 98 else 0)"

theorem forth_define_then_find_witness:
  "\<exists>ctx' stack' m'. forth_make_header word_input [4096, 2] 2 word_memory = Some (ctx', stack', 1, m') \<and>
     lookup_word m' 8192 (fh_name 8192) 2 = Some 8192"
proof -
  have "holds word_memory (unat (4096 :: u64)) [97, 98]" by (simp add: holds_def word_memory_def less_Suc_eq nth_Cons')
  from forth_define_then_find [of word_memory word_input "[]" 4096 "[97, 98]" 2 "[4096, 2]", OF _ this]
  obtain ctx' stack' m' e where *: "forth_make_header word_input [4096, 2] 2 word_memory = Some (ctx', stack', 1, m')"
      "unat e = 8192" "dict m' e [(8192, [97, 98])]"
      "\<forall>b q. holds m' b q \<longrightarrow> (\<exists>r. lookup_word m' e b (length q) = Some r \<and> unat r = find_word q [(8192, [97, 98])])"
    by (auto simp: word_input_def apart_def header_end_def)
  have e: "e = 8192" using *(2) by (simp add: word_unat_eq_iff)
  have "holds m' (fh_name 8192) [97, 98]" using *(3) by simp
  from *(4) [rule_format, OF this] obtain r where "lookup_word m' 8192 (fh_name 8192) 2 = Some r" "unat r = 8192"
    by (auto simp: e find_word_def numeral_2_eq_2)
  then have "lookup_word m' 8192 (fh_name 8192) 2 = Some 8192" by (simp add: word_unat_eq_iff)
  then show ?thesis using *(1) by blast
qed

end
