(* ===== verification/Init_Program.thy ===== *)
theory Init_Program
  imports Serial Printf
begin

text \<open>
  The first program, \<open>programs/init.c\<close>: the terminal it serves over the serial port, the listing of the ram disk and the
  commands of its prompt.

  The I/O ports are the parameters \<open>inb\<close> and \<open>outb\<close> of the serial port's theory. The ram disk is a file with its
  contents and a position; the hash table of \<open>khashl.h\<close>, a library, is a map. \<open>None\<close> is a wait or a loop that does not end, or
  a number without an end.
\<close>

section \<open>The terminal\<close>

definition tty_port :: u16 where "tty_port = 0x3f8"

definition serial_setup :: "'s out_port \<Rightarrow> 's \<Rightarrow> 's" where
  "serial_setup outb s = outb (tty_port + 1) 1 (outb (tty_port + 4) 0xb (outb (tty_port + 1) 0 s))"

text \<open>The wait and the transfer are those of the kernel's \<open>serial_write\<close>, written out again in the program.\<close>

definition tty_writechar :: "'s in_port \<Rightarrow> 's out_port \<Rightarrow> u8 \<Rightarrow> 's \<Rightarrow> 's option" where
  "tty_writechar inb outb ch s = do { s \<leftarrow> serial_wait inb tty_port s; Some (outb tty_port ch s) }"

text \<open>\<open>irq_wait\<close> is \<open>_fluke_irq_ack_wait\<close> with its time of a second.\<close>

partial_function (option) tty_wait_input :: "'s in_port \<Rightarrow> ('s \<Rightarrow> 's) \<Rightarrow> 's \<Rightarrow> 's option" where
  "tty_wait_input inb irq_wait s =
     (case inb (tty_port + 5) s of (v, s) \<Rightarrow> if v AND 0x01 = 0 then tty_wait_input inb irq_wait (irq_wait s) else Some s)"

fun tty_read_loop :: "'s in_port \<Rightarrow> 's out_port \<Rightarrow> ('s \<Rightarrow> 's) \<Rightarrow> nat \<Rightarrow> 's \<Rightarrow> (u8 list \<times> 's) option" where
  "tty_read_loop inb outb irq_wait 0 s = Some ([], s)"
| "tty_read_loop inb outb irq_wait (Suc n) s = do {
     s \<leftarrow> tty_wait_input inb irq_wait s;
     let (ch, s) = inb tty_port s;
     let ch = (if ch = 13 then 10 else ch);
     s \<leftarrow> tty_writechar inb outb ch s;
     (buf, s) \<leftarrow> tty_read_loop inb outb irq_wait n s;
     Some (ch # buf, s)
   }"

text \<open>The result is the response: its first register and its string. A negative length is a huge one; none is
  longer than the buffer.\<close>

definition tty_read :: "'s in_port \<Rightarrow> 's out_port \<Rightarrow> ('s \<Rightarrow> 's) \<Rightarrow> u64 \<Rightarrow> 's \<Rightarrow> (u64 \<times> u8 list \<times> 's) option" where
  "tty_read inb outb irq_wait alen s = do {
     let alen = (if 256 < alen then 256 else alen);
     (buf, s) \<leftarrow> tty_read_loop inb outb irq_wait (unat alen) s;
     Some (alen, buf, s)
   }"

fun tty_write_loop :: "'s in_port \<Rightarrow> 's out_port \<Rightarrow> u8 list \<Rightarrow> 's \<Rightarrow> 's option" where
  "tty_write_loop inb outb [] s = Some s"
| "tty_write_loop inb outb (ch # chs) s = do { s \<leftarrow> tty_writechar inb outb ch s; tty_write_loop inb outb chs s }"

text \<open>The argument is the string of the call, of \<open>alen\<close> bytes, and the result the response's first register.\<close>

definition tty_write :: "'s in_port \<Rightarrow> 's out_port \<Rightarrow> u8 list \<Rightarrow> 's \<Rightarrow> (u64 \<times> 's) option" where
  "tty_write inb outb str s = map_option (Pair (word_of_nat (length str))) (tty_write_loop inb outb str s)"

section \<open>The ram disk\<close>

text \<open>The sizes of the fields of \<open>ustar_record\<close>, all arrays of characters.\<close>

definition ustar_fields :: "(string \<times> nat) list" where
  "ustar_fields = [(''name'', 100), (''mode'', 8), (''uid'', 8), (''gid'', 8), (''size'', 12), (''mtime'', 12), (''chksum'', 8),
     (''typeflag'', 1), (''linkname'', 100), (''magic'', 6), (''version'', 2), (''uname'', 32), (''gname'', 32),
     (''devmajor'', 8), (''devminor'', 8), (''prefix'', 155)]"

definition SIZE_OFFSET :: nat where "SIZE_OFFSET = 124"







text \<open>\<open>fread\<close> is asked for 512 bytes, but the record has 500: the last twelve go to the memory beyond the variable. \<open>beyond\<close> is
  what is there; the model keeps it apart from the program's other variables.\<close>

definition RECORD_SIZE :: nat where "RECORD_SIZE = 500"

definition overrun :: "u8 list \<Rightarrow> u8 list \<Rightarrow> u8 list" where
  "overrun bs beyond = drop RECORD_SIZE bs @ drop (length bs - RECORD_SIZE) beyond"



section \<open>The prompt\<close>

datatype command = Ls | Mf | Time | Exit | Boom | No_command

definition chomp :: "string \<Rightarrow> string" where
  "chomp txt = (if last txt = CHR 0x0A then butlast txt else txt)"

text \<open>The line as \<open>getline\<close> returns it, which is not empty.\<close>

definition command_of :: "string \<Rightarrow> command" where
  "command_of getline_text =
     (let txt = chomp getline_text in
      if txt = ''ls'' then Ls else if txt = ''mf'' then Mf else if txt = ''time'' then Time
      else if txt = ''exit'' then Exit else if txt = ''boom'' then Boom else No_command)"

section \<open>The terminal sends what is written\<close>

lemma tty_write_sends:
  assumes "transmitter inb outb tty_port busy sent"
  shows "\<exists>s'. tty_write inb outb str s = Some (word_of_nat (length str), s') \<and> sent s' = sent s @ str"
proof -
  have "\<exists>s'. tty_write_loop inb outb str s = Some s' \<and> sent s' = sent s @ str" for s
  proof (induction str arbitrary: s)
    case (Cons c cs)
    obtain t where "tty_writechar inb outb c s = Some t" "sent t = sent s @ [c]"
      using serial_send_sends [OF assms, of c s] by (auto simp: tty_writechar_def serial_send_def)
    then show ?case using Cons [of t] by auto
  qed simp
  then show ?thesis by (auto simp: tty_write_def)
qed

section \<open>The listing\<close>

















lemma overrun_size [simp]: "length r = 512 \<Longrightarrow> length beyond = 12 \<Longrightarrow> overrun r beyond = drop 500 r"
  by (simp add: overrun_def RECORD_SIZE_def)






text \<open>The record that \<open>fread\<close> fills with 512 bytes has 500: its last twelve go beyond the variable.\<close>

lemma ustar_record_too_small: "sum_list (map snd ustar_fields) = RECORD_SIZE \<and> RECORD_SIZE = 500 \<and> SIZE_OFFSET = sum_list (map snd (take 4 ustar_fields))"
  by (simp add: ustar_fields_def SIZE_OFFSET_def RECORD_SIZE_def)

end
