(* ===== verification/Ownership.thy ===== *)
theory Ownership
  imports Owned
begin

text \<open>
  Owning pointers: the template \<open>owned\<close> of \<open>kernel/src/mem/alloc.hxx\<close> over the heap, and the macros \<open>TRY\<close> and
  \<open>TRY_ALLOC\<close> of \<open>kernel/src/klib.hxx\<close>.

  A program that uses owning pointers is a list of steps. Its variables are a stack of names and stored pointers, innermost
  first, as C++ has them; \<open>cls v\<close> is the size class of the type that \<open>v\<close> points to. A program is well typed when every
  variable is declared before it is used and pointers are moved only between variables of one type. The constructor and the
  destructor of the pointed-to type are parameters. \<open>None\<close> is a failed assertion of the allocator.
\<close>

section \<open>The books of a program\<close>





section \<open>Moving owning pointers\<close>

type_synonym frame = "(nat \<times> nat) list"

fun put :: "nat \<Rightarrow> nat \<Rightarrow> frame \<Rightarrow> frame" where
  "put v p [] = []"
| "put v p ((w, q) # fr) = (if w = v then (w, p) # fr else (w, q) # put v p fr)"

definition get :: "nat \<Rightarrow> frame \<Rightarrow> nat" where
  "get v fr = (case map_of fr v of Some p \<Rightarrow> p | None \<Rightarrow> 0)"

text \<open>\<open>std::exchange(v.ptr_, nullptr)\<close>.\<close>

definition exchange_null :: "nat \<Rightarrow> frame \<Rightarrow> nat \<times> frame" where
  "exchange_null v fr = (get v fr, put v 0 fr)"

definition move_construct :: "nat \<Rightarrow> nat \<Rightarrow> frame \<Rightarrow> frame" where
  "move_construct v w fr = (let (p, fr) = exchange_null w fr in (v, p) # fr)"


section \<open>Programs over owning pointers\<close>






section \<open>Who owns what\<close>

definition owns :: "(nat \<Rightarrow> nat) \<Rightarrow> nat \<Rightarrow> nat \<Rightarrow> block list" where
  "owns cls v p = (if p = 0 then [] else [(p, class_size (cls v))])"

definition owned_blocks :: "(nat \<Rightarrow> nat) \<Rightarrow> frame \<Rightarrow> block list" where
  "owned_blocks cls fr = concat (map (\<lambda>(v, p). owns cls v p) fr)"

lemma owned_blocks_simps [simp]:
  "owned_blocks cls [] = []" "owned_blocks cls ((v, p) # fr) = owns cls v p @ owned_blocks cls fr"
  by (simp_all add: owned_blocks_def)

lemma owns_simps [simp]:
  "owns cls v 0 = []" "p \<noteq> 0 \<Longrightarrow> owns cls v p = [(p, class_size (cls v))]"
  by (simp_all add: owns_def)


lemma get_Cons [simp]: "get v ((w, q) # fr) = (if w = v then q else get v fr)"
  by (simp add: get_def)

lemma map_fst_put [simp]: "map fst (put v p fr) = map fst fr"
  by (induction v p fr rule: put.induct) auto

lemma get_put [simp]: "v \<in> fst ` set fr \<Longrightarrow> get v (put v p fr) = p"
  by (induction v p fr rule: put.induct) force+

lemma get_put_other [simp]: "w \<noteq> v \<Longrightarrow> get w (put v p fr) = get w fr"
  by (induction v p fr rule: put.induct) (auto simp: get_def)


lemma fst_set_put [simp]: "fst ` set (put v p fr) = fst ` set fr"
  using map_fst_put [of v p fr] by (metis list.set_map)








lemma map_fst_move_construct [simp]: "map fst (move_construct v w fr) = v # map fst fr"
  by (simp add: move_construct_def exchange_null_def)




end
