(* ===== verification/Boot.thy ===== *)
theory Boot
  imports Console Syscall
begin

text \<open>
  Starting up: the answers of the boot loader (\<open>kernel/src/limine.c\<close>), the floating point unit (\<open>x86_64/cpu.c\<close>), the pages
  the kernel shares with every process (\<open>share/share.c\<close>) and the first process (\<open>user/init.cxx\<close>).

  An answer that the boot loader may not have given is an option; \<open>None\<close> as a result is a panic.
\<close>

section \<open>The answers of the boot loader\<close>

record limine_framebuffer =
  lf_address :: u64
  lf_width :: u64
  lf_height :: u64
  lf_pitch :: u64
  lf_bpp :: u16

text \<open>The fields of the kernel's structure are \<open>int\<close>s.\<close>

definition to_int :: "u64 \<Rightarrow> int" where
  "to_int v = sint (ucast v :: u32)"

definition bootloader_init_display :: "limine_framebuffer list option \<Rightarrow> display \<Rightarrow> display option" where
  "bootloader_init_display response d =
     (case response of
        None \<Rightarrow> None
      | Some [] \<Rightarrow> None
      | Some (f # _) \<Rightarrow>
          if lf_bpp f \<noteq> 32 then None
          else console_init \<lparr>fb_address = lf_address f, fb_width = to_int (lf_width f), fb_height = to_int (lf_height f),
                 fb_pitch = to_int (lf_pitch f)\<rparr> d)"

definition LIMINE_MEMMAP_USABLE :: u64 where "LIMINE_MEMMAP_USABLE = 0"

text \<open>An entry of the memory map: base, length and type.\<close>

type_synonym memmap_entry = "u64 \<times> u64 \<times> u64"

text \<open>The table of the names that are printed. An entry with a type beyond the table has no defined meaning: \<open>None\<close>.\<close>

definition memmap_type :: "string list" where
  "memmap_type = [''usable'', ''reserved'', ''acpi'', ''acpi nvs'', ''bad memory'', ''bootloader reclaimable'',
     ''kernel and modules'', ''framebuffer'']"

fun add_memory_map :: "u64 \<Rightarrow> memmap_entry list \<Rightarrow> mem_state \<Rightarrow> mem_state option" where
  "add_memory_map hhdm_offset [] s = Some s"
| "add_memory_map hhdm_offset ((base, len, ty) # es) s = do {
     kassert (unat ty < length memmap_type);
     s \<leftarrow> (if ty = LIMINE_MEMMAP_USABLE then pmm_add_pages hhdm_offset base len s else Some s);
     add_memory_map hhdm_offset es s
   }"

record boot_answers =
  ba_info :: "(string \<times> string) option"
  ba_hhdm :: "u64 option"
  ba_memmap :: "memmap_entry list option"
  ba_cmdline :: "u8 list option"
  ba_modules :: "boot_module list option"

text \<open>The result is \<open>hhdm_offset\<close> with the memory; what is printed is left out.\<close>

definition bootloader_run_setup :: "boot_answers \<Rightarrow> mem_state \<Rightarrow> (u64 \<times> mem_state) option" where
  "bootloader_run_setup r s = do {
     kassert (ba_info r \<noteq> None);
     hhdm_offset \<leftarrow> ba_hhdm r;
     entries \<leftarrow> ba_memmap r;
     s \<leftarrow> add_memory_map hhdm_offset entries s;
     kassert (ba_cmdline r \<noteq> None);
     kassert (ba_modules r \<noteq> None);
     Some (hhdm_offset, s)
   }"

section \<open>The floating point unit\<close>

definition CR0_MP :: u64 where "CR0_MP = push_bit 1 1"
definition CR0_EM :: u64 where "CR0_EM = push_bit 2 1"
definition CR4_OSFXSR :: u64 where "CR4_OSFXSR = push_bit 9 1"

text \<open>On the registers \<open>CR0\<close> and \<open>CR4\<close>.\<close>

definition fpu_initialise :: "u64 \<times> u64 \<Rightarrow> u64 \<times> u64" where
  "fpu_initialise r =
     (let cr0 = fst r AND NOT CR0_EM; cr0 = cr0 OR CR0_MP; cr4 = snd r OR CR4_OSFXSR in (cr0, cr4))"

text \<open>The saved state: its control words; everything else in it is zero.\<close>

record fxsave_region =
  fx_fcw :: u16
  fx_mxcsr :: u32

definition fpu_initial :: fxsave_region where
  "fpu_initial = \<lparr>fx_fcw = 0x033f, fx_mxcsr = 0x00001f80\<rparr>"

definition fpu_alloc :: "nat \<Rightarrow> (nat \<Rightarrow> fxsave_region) \<Rightarrow> nat \<times> (nat \<Rightarrow> fxsave_region)" where
  "fpu_alloc fpu at = (if fpu \<noteq> 0 then (fpu, at(fpu := fpu_initial)) else (fpu, at))"

section \<open>The shared pages\<close>

text \<open>\<open>share_done\<close> is the mark of \<open>INIT_ONCE\<close>; \<open>page_map\<close> is the current page map, which stays current.\<close>

definition user_share_init :: "bool \<Rightarrow> u64 \<Rightarrow> u64 \<Rightarrow> u64 \<Rightarrow> u64 \<Rightarrow> mem_state \<Rightarrow> mem_state option" where
  "user_share_init share_done h page_map usertext usertext_end s = do {
     kassert (\<not> share_done);
     mmu_edit h page_map usertext (((usertext_end - usertext) + 4095) AND NOT 4095) (MMU_MODE_USER OR MMU_MODE_EXEC) 0 s
   }"

text \<open>The table of shared objects, with its empty last entry; \<open>func\<close> is the address of \<open>user_share_exec_elf\<close>.\<close>

definition user_share_get_objects :: "u64 \<Rightarrow> (u64 \<times> string option) list" where
  "user_share_get_objects func = [(func, Some ''exec_loadelf''), (0, None)]"

section \<open>The first process\<close>

text \<open>\<open>h\<close> is the offset of the direct map, \<open>func\<close> the address of \<open>user_share_exec_elf\<close> and \<open>cmdline\<close> the command line, which
  names the module; \<open>e\<close> has the outcomes of the allocations and the modules, as for a system call. The result is an
  error or the new thread.\<close>

definition try_user_init :: "env \<Rightarrow> u64 \<Rightarrow> u64 \<Rightarrow> u8 list \<Rightarrow> sys \<Rightarrow> ((errno + tid) \<times> sys) option" where
  "try_user_init e h func cmdline s = do {
     (r, s) \<leftarrow> process_create e h s;
     case r of Inl er \<Rightarrow> Some (Inl er, s) | Inr p \<Rightarrow> do {
       (r, v, pages) \<leftarrow> vm_alloc_movable h 0 4096 (1 OR 2) (p_vm (sy_procs s p)) (sy_pages s);
       let s = put_vm p v pages s;
       case r of Inl er \<Rightarrow> Some (Inl er, s) | Inr stack \<Rightarrow> do {
         let stack_pointer = stack + 4096 - 128;
         let (r, t) = table_alloc (first_ok (e_blocks e)) (p_table (sy_procs s p));
         let s = upd_proc p (\<lambda>pr. pr\<lparr>p_table := t\<rparr>) s;
         case r of Inl er \<Rightarrow> Some (Inl er, s) | Inr (sl, fd) \<Rightarrow> do {
           (r, s) \<leftarrow> process_spawn_thread e p func stack_pointer (fd_value fd) s;
           case r of Inl er \<Rightarrow> Some (Inl er, s) | Inr thread \<Rightarrow> do {
             let s = set_kernel (upd_ctx thread (\<lambda>c. c\<lparr>reg_rsi := stack_pointer, reg_rdx := stack, reg_rcx := stack + 4096,
               reg_r10 := stack + 4096\<rparr>) (sy_kernel s)) s;
             r \<leftarrow> bootloader_open_module (e_handle e \<noteq> None) cmdline (e_modules e);
             mo \<leftarrow> r;
             handle \<leftarrow> e_handle e;
             s \<leftarrow> install p sl handle True (s\<lparr>sy_objects := (sy_objects s)(handle := ModuleObj mo)\<rparr>);
             let s = upd_proc p (\<lambda>pr. pr\<lparr>p_state := ACTIVE\<rparr>) s;
             k \<leftarrow> schedule_ready thread (sy_kernel s);
             Some (Inr thread, set_kernel k s)
           }
         }
       }
     }
   }"

definition user_init :: "env \<Rightarrow> u64 \<Rightarrow> u64 \<Rightarrow> u8 list \<Rightarrow> sys \<Rightarrow> sys option" where
  "user_init e h func cmdline s = map_option snd (try_user_init e h func cmdline s)"

lemma first_descriptor: "table_alloc ok empty_table = (Inr (Slot0 0, 0), empty_table)"
  by (simp add: table_alloc_def empty_table_def L0_def desc_is_open_def numeral_eq_Suc)

text \<open>Installing a handle in a free slot closes nothing.\<close>

lemma install_free:
  assumes "install p sl hn cl s = Some s'"
  shows "\<not> desc_is_open (read_slot (p_table (sy_procs s p)) sl) \<and>
    s' = (upd_proc p (\<lambda>pr. pr\<lparr>p_table := write_slot sl (Some (hn, cl)) (p_table (sy_procs s p))\<rparr>) s)
      \<lparr>sy_handles := handle_dup hn (sy_handles s)\<rparr>"
  using assms by (auto simp: install_def desc_assign_def put_table_def handle_dup_def bind_eq_Some_conv Let_def split: if_splits)

lemma spawn_facts:
  assumes "process_spawn_thread e p code stack arg s = Some (Inr t, s')"
  shows "t_ctx (threads (sy_kernel s') t) = zero_registers\<lparr>reg_cs := GDT_USER64_CODE, reg_ss := GDT_USER_DATA,
      reg_rflags := 0x3202, reg_rip := code, reg_rsp := stack, reg_rdi := arg\<rparr>"
    and "t_page_map (threads (sy_kernel s') t) = vm_page_map (p_vm (sy_procs s p))" and "sy_proc_of s' t = p"
    and "p_table (sy_procs s' p) = p_table (sy_procs s p)" and "p_vm (sy_procs s' p) = p_vm (sy_procs s p)"
  using assms by (auto simp: process_spawn_thread_def cpu_context_initialise_user_def bind_eq_Some_conv Let_def
    upd_ctx_def upd_thread_def set_kernel_def sy_kernel_def upd_proc_def split: option.splits if_splits)

lemma schedule_ready_threads:
  "schedule_ready t k = Some k' \<Longrightarrow> threads k' = (threads k)(t := (threads k t)\<lparr>t_state := READY\<rparr>)"
  by (auto simp: schedule_ready_def kqueue_push_def set_state_def upd_thread_def bind_eq_Some_conv split: if_splits)

text \<open>The first thread starts at the loader in the shared pages with the loader's arguments in its registers: the descriptor of the
  program, the stack pointer, and the ends of the stack. It runs in the new process, whose only descriptor is the module
  that the command line names, and is ready.\<close>

lemma init_thread:
  assumes "try_user_init e h func cmdline s = Some (Inr t, s')"
  shows "\<exists>p stack hn mo. e_proc e = Some p \<and> sy_proc_of s' t = p \<and> p_state (sy_procs s' p) = ACTIVE \<and>
    bootloader_open_module True cmdline (e_modules e) = Some (Some mo) \<and> sy_objects s' hn = ModuleObj mo \<and>
    p_table (sy_procs s' p) = write_slot (Slot0 0) (Some (hn, True)) empty_table \<and>
    t_state (threads (sy_kernel s') t) = READY \<and>
    t_page_map (threads (sy_kernel s') t) = vm_page_map (p_vm (sy_procs s' p)) \<and>
    t_ctx (threads (sy_kernel s') t) = zero_registers\<lparr>reg_cs := GDT_USER64_CODE, reg_ss := GDT_USER_DATA, reg_rflags := 0x3202,
      reg_rip := func, reg_rsp := stack + 3968, reg_rdi := 0, reg_rsi := stack + 3968, reg_rdx := stack,
      reg_rcx := stack + 4096, reg_r10 := stack + 4096\<rparr>"
proof -
  obtain r s1 where c: "process_create e h s = Some (r, s1)" using assms by (auto simp: try_user_init_def bind_eq_Some_conv)
  then obtain p where p: "r = Inr p" using assms by (cases r) (simp_all add: try_user_init_def)
  then have ep: "e_proc e = Some p" and tab: "p_table (sy_procs s1 p) = empty_table"
    using c by (auto simp: process_create_def bind_eq_Some_conv upd_proc_def new_proc_def split: option.splits)
  obtain r' v pages where v: "vm_alloc_movable h 0 4096 (1 OR 2) (p_vm (sy_procs s1 p)) (sy_pages s1) = Some (r', v, pages)"
    using assms c p by (auto simp: try_user_init_def bind_eq_Some_conv)
  then obtain stack where stack: "r' = Inr stack" using assms c p by (cases r') (simp_all add: try_user_init_def Let_def)
  define s2 where "s2 = upd_proc p (\<lambda>pr. pr\<lparr>p_table := empty_table\<rparr>) (put_vm p v pages s1)"
  have tab2: "p_table (sy_procs s2 p) = empty_table" by (simp add: s2_def put_vm_def upd_proc_def)
  have tab1: "p_table (sy_procs (put_vm p v pages s1) p) = empty_table" using tab by (simp add: put_vm_def upd_proc_def)
  let ?sp = "3968 + stack"
  have rest: "process_spawn_thread e p func ?sp 0 s2 = Some (r3, s3) \<Longrightarrow> r3 = Inr t \<and> (\<exists>mo hn s6 k.
      bootloader_open_module (e_handle e \<noteq> None) cmdline (e_modules e) = Some (Some mo) \<and> e_handle e = Some hn \<and>
      install p (Slot0 0) hn True ((set_kernel (upd_ctx t (\<lambda>c. c\<lparr>reg_rsi := ?sp, reg_rdx := stack, reg_rcx := stack + 4096,
        reg_r10 := stack + 4096\<rparr>) (sy_kernel s3)) s3)\<lparr>sy_objects := (sy_objects s3)(hn := ModuleObj mo)\<rparr>) = Some s6 \<and>
      schedule_ready t (sy_kernel (upd_proc p (\<lambda>pr. pr\<lparr>p_state := ACTIVE\<rparr>) s6)) = Some k \<and>
      s' = set_kernel k (upd_proc p (\<lambda>pr. pr\<lparr>p_state := ACTIVE\<rparr>) s6))" for r3 s3
    using assms c p v stack tab1
    by (auto simp: try_user_init_def bind_eq_Some_conv Let_def first_descriptor fd_value_def s2_def set_kernel_def split: sum.splits)
  have "\<exists>r3 s3. process_spawn_thread e p func ?sp 0 s2 = Some (r3, s3)"
    using assms c p v stack tab1
    by (auto simp: try_user_init_def bind_eq_Some_conv Let_def first_descriptor fd_value_def s2_def)
  then obtain s3 where sp: "process_spawn_thread e p func ?sp 0 s2 = Some (Inr t, s3)" using rest by blast
  from rest [OF sp] obtain mo hn s6 k where
    mo: "bootloader_open_module (e_handle e \<noteq> None) cmdline (e_modules e) = Some (Some mo)" "e_handle e = Some hn" and
    ins: "install p (Slot0 0) hn True ((set_kernel (upd_ctx t (\<lambda>c. c\<lparr>reg_rsi := ?sp, reg_rdx := stack, reg_rcx := stack + 4096,
        reg_r10 := stack + 4096\<rparr>) (sy_kernel s3)) s3)\<lparr>sy_objects := (sy_objects s3)(hn := ModuleObj mo)\<rparr>) = Some s6" and
    k: "schedule_ready t (sy_kernel (upd_proc p (\<lambda>pr. pr\<lparr>p_state := ACTIVE\<rparr>) s6)) = Some k"
      "s' = set_kernel k (upd_proc p (\<lambda>pr. pr\<lparr>p_state := ACTIVE\<rparr>) s6)" by blast
  note facts = spawn_facts [OF sp]
  show ?thesis
    using ep mo facts tab2 install_free [OF ins] schedule_ready_threads [OF k(1)] k(2)
    by (intro exI [of _ p] exI [of _ stack] exI [of _ hn] exI [of _ mo])
      (simp add: set_kernel_def sy_kernel_def upd_ctx_def upd_thread_def upd_proc_def add.commute)
qed

section \<open>The memory map\<close>

text \<open>The usable regions: base and length, as numbers.\<close>

definition usable :: "memmap_entry list \<Rightarrow> block list" where
  "usable es = map (\<lambda>(b, l, ty). (unat b, unat l)) (filter (\<lambda>(b, l, ty). ty = LIMINE_MEMMAP_USABLE) es)"

definition page_count :: "block list \<Rightarrow> nat" where
  "page_count rs = sum_list (map (\<lambda>(b, l). l div PAGE_SIZE) rs)"

lemma page_count_simps [simp]:
  "page_count [] = 0" "page_count ((b, l) # rs) = l div PAGE_SIZE + page_count rs"
  by (simp_all add: page_count_def)

lemma usable_simps [simp]:
  "usable [] = []"
  "usable ((b, l, ty) # es) = (if ty = LIMINE_MEMMAP_USABLE then (unat b, unat l) # usable es else usable es)"
  by (simp_all add: usable_def)

lemma new_page_inside:
  assumes "x \<in> set (new_pages v (len div PAGE_SIZE))"
  shows "inside (x, PAGE_SIZE) (v, len)"
proof -
  obtain i where i: "x = v + i * PAGE_SIZE" "i < len div PAGE_SIZE" using assms unfolding new_pages_def by fastforce
  then have "Suc i * PAGE_SIZE \<le> len div PAGE_SIZE * PAGE_SIZE" by (intro mult_le_mono1) simp
  also have "\<dots> \<le> len" by simp
  finally show ?thesis using i by (simp add: inside_def)
qed

lemma only_pages: "all_blocks ps (\<lambda>_. []) [] = page_blocks ps"
  by (simp add: all_blocks_def pool_blocks_def)

lemma in_page_blocks: "b \<in># page_blocks ps \<longleftrightarrow> (\<exists>p\<in>set ps. b = (p, PAGE_SIZE))"
  by (auto simp: page_blocks_def)

text \<open>The state while memory is added: the free pages are \<open>ps\<close>, and nothing has been handed out.\<close>

definition filling :: "mem_state \<Rightarrow> nat list \<Rightarrow> bool" where
  "filling s ps \<longleftrightarrow> mem_inv s ps (\<lambda>_. []) [] \<and> tail_ok s ps \<and> pmm_total_count s = length ps \<and>
     (\<forall>p\<in>set ps. kernel_pointer p \<and> p < 2 ^ 64)"

lemma filling_boot: "filling (boot_state w) []"
  using mem_inv_boot [of w] by (simp add: filling_def tail_ok_def) (simp add: boot_state_def)

text \<open>The pages are aligned and distinct, so there are fewer than the counters can hold.\<close>

lemma distinct_page_blocks: "msep (page_blocks ps) \<Longrightarrow> distinct ps"
  by (induction ps) (auto simp: page_blocks_def disj_def PAGE_SIZE_def)

lemma filling_few_pages:
  assumes "filling s ps" shows "length ps \<le> 2 ^ 52"
proof -
  have m: "mem_inv s ps (\<lambda>_. []) []" "\<forall>p\<in>set ps. p < 2 ^ 64" using assms by (auto simp: filling_def)
  then have "distinct ps" "\<forall>p\<in>set ps. p mod PAGE_SIZE = 0"
    using distinct_page_blocks [of ps] by (simp_all add: mem_inv_def only_pages page_aligned_def)
  then have "inj_on (\<lambda>p. p div PAGE_SIZE) (set ps)"
    by (intro inj_onI) (metis add.right_neutral div_mult_mod_eq)
  moreover have "(\<lambda>p. p div PAGE_SIZE) ` set ps \<subseteq> {..<2 ^ 52}"
    using m(2) by (auto simp: PAGE_SIZE_def less_mult_imp_div_less)
  ultimately have "card (set ps) \<le> card {..<2 ^ 52 :: nat}" by (intro card_inj_on_le) simp_all
  then show ?thesis using \<open>distinct ps\<close> by (simp add: distinct_card)
qed

text \<open>What is expected of the regions: they are page aligned, do not overlap, and end below the end of the address space in the
  direct map, whose offset \<open>h\<close> is in the upper half.\<close>

definition regions_ok :: "u64 \<Rightarrow> block list \<Rightarrow> bool" where
  "regions_ok h rs \<longleftrightarrow> page_aligned (unat h) \<and> kernel_pointer (unat h) \<and>
     (\<forall>(b, l)\<in>set rs. page_aligned b \<and> page_aligned l \<and> b + unat h + l < 2 ^ 64) \<and> sorted_wrt disj rs"

lemma add_region_filling:
  assumes fl: "filling s ps" and h: "page_aligned (unat h)" "kernel_pointer (unat h)"
    and al: "page_aligned (unat b)" "page_aligned (unat l)" and top: "unat b + unat h + unat l < 2 ^ 64"
    and fresh: "\<forall>p\<in>set ps. disj (unat b + unat h, unat l) (p, PAGE_SIZE)"
  shows "\<exists>s'. pmm_add_pages h b l s = Some s' \<and> filling s' (ps @ new_pages (unat b + unat h) (unat l div PAGE_SIZE))"
proof -
  let ?new = "new_pages (unat b + unat h) (unat l div PAGE_SIZE)"
  have hh: "0 < h" "unat l < 2 ^ 63" using h(2) top by (auto simp: kernel_pointer_def MEM_HIGH_HALF_MIN_def word_gt_0)
  have c: "pmm_total_count s + unat l div PAGE_SIZE < 2 ^ 64" "length ps + unat l div PAGE_SIZE < 2 ^ 64"
    using fl filling_few_pages [OF fl] hh(2) by (auto simp: filling_def PAGE_SIZE_def)
  have i: "mem_inv s ps (\<lambda>_. []) []" "tail_ok s ps" using fl by (simp_all add: filling_def)
  have "\<forall>x\<in>#all_blocks ps (\<lambda>_. []) []. disj (unat b + unat h, unat l) x"
    using fresh by (auto simp: only_pages in_page_blocks)
  from pmm_add_pages_inv [OF i al h(1) hh(1) top hh(2) c this] obtain s' where s': "pmm_add_pages h b l s = Some s'"
    "mem_inv s' (ps @ ?new) (\<lambda>_. []) []" "tail_ok s' (ps @ ?new)"
    "pmm_total_count s' = pmm_total_count s + unat l div PAGE_SIZE" by blast
  have "kernel_pointer x \<and> x < 2 ^ 64" if "x \<in> set ?new" for x
    using new_page_inside [OF that] h(2) top that
    by (auto simp: new_pages_def kernel_pointer_def inside_def PAGE_SIZE_def)
  then show ?thesis using s' fl by (auto simp: filling_def)
qed

lemma disj_shift [simp]: "disj (a + h, l) (b + h, m) \<longleftrightarrow> disj (a, l) (b, m)"
  by (auto simp: disj_def)

lemma add_memory_map_filling:
  assumes "filling s ps" and "regions_ok h (usable es)" and "\<forall>(b, l, ty)\<in>set es. unat ty < length memmap_type"
    and "\<forall>(b, l)\<in>set (usable es). \<forall>p\<in>set ps. disj (b + unat h, l) (p, PAGE_SIZE)"
  shows "\<exists>s' ps'. add_memory_map h es s = Some s' \<and> filling s' (ps @ ps') \<and> length ps' = page_count (usable es)"
  using assms
proof (induction h es s arbitrary: ps rule: add_memory_map.induct)
  case (1 h s)
  then show ?case by auto
next
  case (2 h b l ty es s)
  show ?case
  proof (cases "ty = LIMINE_MEMMAP_USABLE")
    case False
    with 2 show ?thesis by (auto simp: regions_ok_def)
  next
    case True
    let ?b = "unat b" and ?l = "unat l" and ?h = "unat h"
    let ?new = "new_pages (?b + ?h) (?l div PAGE_SIZE)"
    have ok: "page_aligned ?h" "kernel_pointer ?h" "page_aligned ?b" "page_aligned ?l" "?b + ?h + ?l < 2 ^ 64"
      "\<forall>p\<in>set ps. disj (?b + ?h, ?l) (p, PAGE_SIZE)"
      using 2(3,5) True by (auto simp: regions_ok_def)
    from add_region_filling [OF 2(2) ok] obtain s' where s': "pmm_add_pages h b l s = Some s'" "filling s' (ps @ ?new)" by blast
    have "disj (b' + ?h, l') (p, PAGE_SIZE)" if "(b', l') \<in> set (usable es)" "p \<in> set ?new" for b' l' p
    proof (rule disj_sym, rule disj_inside)
      show "disj (?b + ?h, ?l) (b' + ?h, l')" using 2(3) True that by (auto simp: regions_ok_def)
      show "inside (p, PAGE_SIZE) (?b + ?h, ?l)" by (rule new_page_inside) (rule that)
    qed
    then have "\<exists>s'' ps'. add_memory_map h es s' = Some s'' \<and> filling s'' ((ps @ ?new) @ ps') \<and>
      length ps' = page_count (usable es)"
      using 2(3-5) True s' by (intro "2.IH") (auto simp: regions_ok_def)
    then obtain s'' ps' where "add_memory_map h es s' = Some s''" "filling s'' ((ps @ ?new) @ ps')"
      "length ps' = page_count (usable es)" by blast
    then show ?thesis using s' True 2(4) by (intro exI [of _ s''] exI [of _ "?new @ ps'"]) auto
  qed
qed

lemma filling_heap_ok:
  assumes "filling s ps" shows "heap_ok s []" and "pmm_free_count s = length ps"
proof -
  have m: "mem_inv s ps (\<lambda>_. []) []" "\<forall>p\<in>set ps. kernel_pointer p" using assms by (auto simp: filling_def)
  then have "\<forall>b\<in>#all_blocks ps (\<lambda>_. []) []. kernel_pointer (fst b)" by (auto simp: only_pages in_page_blocks)
  then show "heap_ok s []" using m(1) by (intro heap_okI) (auto simp: live_ok_def)
  show "pmm_free_count s = length ps" using m(1) by (simp add: mem_inv_def)
qed

definition answers_complete :: "boot_answers \<Rightarrow> bool" where
  "answers_complete r \<longleftrightarrow> ba_info r \<noteq> None \<and> ba_hhdm r \<noteq> None \<and> ba_memmap r \<noteq> None \<and> ba_cmdline r \<noteq> None \<and> ba_modules r \<noteq> None"

text \<open>C9. Starting the machine when the boot loader gives all its answers and a memory map whose entries have one of the eight types
  that the kernel has a name for (types 0 to 7) and whose usable regions are page aligned, do not overlap and end below
  the end of the 64-bit address space when they are mapped at the page-aligned offset \<open>h\<close> in the upper half: the heap's
  invariant holds for the state that results, and it counts every usable page once, free and in total.\<close>

theorem boot_memory:
  assumes "answers_complete r" and "ba_hhdm r = Some h" and "ba_memmap r = Some es" and "regions_ok h (usable es)"
    and "\<forall>(b, l, ty)\<in>set es. unat ty < length memmap_type"
  shows "\<exists>s. bootloader_run_setup r (boot_state w) = Some (h, s) \<and> heap_ok s [] \<and>
    pmm_free_count s = page_count (usable es) \<and> pmm_total_count s = page_count (usable es)"
proof -
  obtain s ps where s: "add_memory_map h es (boot_state w) = Some s" "filling s ps" "length ps = page_count (usable es)"
    using add_memory_map_filling [OF filling_boot assms(4,5), of w] by auto
  then show ?thesis using assms(1-3) filling_heap_ok [OF s(2)]
    by (auto simp: bootloader_run_setup_def answers_complete_def filling_def)
qed

theorem boot_memory_witness:
  "\<exists>s. bootloader_run_setup \<lparr>ba_info = Some (''Limine'', ''9''), ba_hhdm = Some 0xffff800000000000,
     ba_memmap = Some [(0, 4096, 1), (4096, 8192, 0), (0x100000, 4096, 0)], ba_cmdline = Some [], ba_modules = Some []\<rparr>
     (boot_state (\<lambda>_. 0)) = Some (0xffff800000000000, s) \<and> heap_ok s [] \<and> pmm_free_count s = 3 \<and> pmm_total_count s = 3"
proof -
  let ?es = "[(0, 4096, 1), (4096, 8192, 0), (0x100000, 4096, 0)] :: memmap_entry list"
  let ?r = "\<lparr>ba_info = Some (''Limine'', ''9''), ba_hhdm = Some 0xffff800000000000, ba_memmap = Some ?es,
    ba_cmdline = Some [], ba_modules = Some []\<rparr>"
  show ?thesis
    using boot_memory [of ?r "0xffff800000000000" ?es "\<lambda>_. 0"]
    by (simp add: LIMINE_MEMMAP_USABLE_def answers_complete_def regions_ok_def page_aligned_def kernel_pointer_def MEM_HIGH_HALF_MIN_def
      PAGE_SIZE_def disj_def memmap_type_def)
qed

text \<open>The protocol has a ninth type of entry, for the tables of the firmware, which the kernel's table of names lacks: the read
  of the name is out of bounds.\<close>

definition LIMINE_MEMMAP_ACPI_TABLES :: u64 where "LIMINE_MEMMAP_ACPI_TABLES = 8"

theorem memmap_type_overrun: "add_memory_map h ((b, l, LIMINE_MEMMAP_ACPI_TABLES) # es) s = None"
  by (simp add: memmap_type_def LIMINE_MEMMAP_ACPI_TABLES_def)

end
