(* ===== verification/Reports.thy ===== *)
theory Reports
  imports Symbols Schedule Console
begin

text \<open>
  Exceptions and panics: \<open>kernel/src/panic.c\<close> and the exception entries of \<open>kernel/src/x86_64/entry.c\<close>.

  A report is the list of what is done to the output, in order: enabling the console, choosing colours, and text. An exception
  of the kernel either continues with changed registers, or ends in a panic, which halts the machine. \<open>None\<close> is a walk over the stack
  frames or the symbols that does not end.
\<close>

section \<open>Reports\<close>

datatype report = Enable_console | Set_color u32 u32 | Print string

definition COLOR_BLUE :: u32 where "COLOR_BLUE = 0x0000ee"
definition COLOR_BRIGHT_RED :: u32 where "COLOR_BRIGHT_RED = 0xff0000"
definition COLOR_BRIGHT_MAGENTA :: u32 where "COLOR_BRIGHT_MAGENTA = 0xff00ff"

text \<open>What the reports read: kernel memory, the list of symbols, the address of the symbol that stands for user space, and the
  time. \<open>__memcpy_catch_fault_op\<close> and \<open>__memcpy_catch_fault_err\<close> are labels in the assembly of the copy.\<close>

record report_env =
  re_memory :: kmem
  re_symbols :: u64
  re_user_space :: u64
  re_time :: "u64 \<times> u64"
  memcpy_op :: u64
  memcpy_err :: u64

definition mem_chars :: "report_env \<Rightarrow> u64 \<Rightarrow> char" where
  "mem_chars e a = char_of (unat (re_memory e (unat a)))"

definition printf_in :: "report_env \<Rightarrow> string \<Rightarrow> u64 list \<Rightarrow> string option" where
  "printf_in e = printf (mem_chars e)"

definition klog_in :: "report_env \<Rightarrow> string \<Rightarrow> u64 list \<Rightarrow> string option" where
  "klog_in e = klog (mem_chars e) (re_time e)"

text \<open>The symbol as a pointer; its name and the distance from its address are printed.\<close>

definition symbol_at :: "report_env \<Rightarrow> u64 \<Rightarrow> u64 option" where
  "symbol_at e address = do {
     r \<leftarrow> symbol_of_address (re_memory e) (re_symbols e) address;
     Some (case r of User_space \<Rightarrow> re_user_space e | Match s \<Rightarrow> s)
   }"

definition symbol_args :: "report_env \<Rightarrow> u64 \<Rightarrow> u64 \<Rightarrow> u64 list" where
  "symbol_args e s address = [word_of_nat (sym_name (unat s)), address - sym_address (re_memory e) (unat s)]"

section \<open>Panics\<close>

definition backtrace_line :: "report_env \<Rightarrow> u64 \<Rightarrow> string option" where
  "backtrace_line e frame = do {
     out1 \<leftarrow> printf_in e ''| %p | '' [frame];
     let return_address = load64 (re_memory e) (unat frame + 8);
     out2 \<leftarrow> printf_in e ''%p | '' [return_address];
     match \<leftarrow> symbol_at e return_address;
     out3 \<leftarrow> (if match \<noteq> 0 then printf_in e ''%s+0x%zx'' (symbol_args e match return_address) else Some []);
     Some (out1 @ out2 @ out3 @ [CHR 0x0A])
   }"

partial_function (option) backtrace_loop :: "report_env \<Rightarrow> u64 \<Rightarrow> string option" where
  "backtrace_loop e frame =
     (if frame = 0 then Some []
      else do {
        out \<leftarrow> backtrace_line e frame;
        rest \<leftarrow> backtrace_loop e (load64 (re_memory e) (unat frame));
        Some (out @ rest)
      })"

definition show_backtrace :: "report_env \<Rightarrow> u64 \<Rightarrow> string option" where
  "show_backtrace e frame = do {
     rest \<leftarrow> backtrace_loop e frame;
     Some (''| frame            | return           | symbol'' @ [CHR 0x0A] @ rest)
   }"

text \<open>\<open>here\<close> is the frame of \<open>show_backtrace_here\<close>. After the reports the machine halts.\<close>

definition panic :: "report_env \<Rightarrow> u64 \<Rightarrow> string \<Rightarrow> report list option" where
  "panic e here reason = do {
     trace \<leftarrow> show_backtrace e here;
     Some [Enable_console, Set_color COLOR_WHITE COLOR_BLUE,
       Print ([CHR 0x0A] @ ''KERNEL PANIC: '' @ reason @ [CHR 0x0A] @ ''backtrace:'' @ [CHR 0x0A]), Print trace]
   }"

section \<open>Exceptions\<close>

definition print_registers :: "report_env \<Rightarrow> registers \<Rightarrow> string option" where
  "print_registers e ctx = do {
     out1 \<leftarrow> printf_in e ''    RIP %016zx  '' [reg_rip ctx];
     sy \<leftarrow> symbol_at e (reg_rip ctx);
     out2 \<leftarrow> (if sy \<noteq> 0 then printf_in e (''%s+%zx'' @ [CHR 0x0A]) (symbol_args e sy (reg_rip ctx)) else Some [CHR 0x0A]);
     out3 \<leftarrow> printf_in e (''    RAX %016zx  RBX %016zx  RCX %016zx  RDX %016zx'' @ [CHR 0x0A])
       [reg_rax ctx, reg_rbx ctx, reg_rcx ctx, reg_rdx ctx];
     out4 \<leftarrow> printf_in e (''    RSI %016zx  RDI %016zx  RBP %016zx  RSP %016zx'' @ [CHR 0x0A])
       [reg_rsi ctx, reg_rdi ctx, reg_rbp ctx, reg_rsp ctx];
     out5 \<leftarrow> printf_in e (''    R8  %016zx  R9  %016zx  R10 %016zx  R11 %016zx'' @ [CHR 0x0A])
       [reg_r8 ctx, reg_r9 ctx, reg_r10 ctx, reg_r11 ctx];
     out6 \<leftarrow> printf_in e (''    R12 %016zx  R13 %016zx  R14 %016zx  R15 %016zx'' @ [CHR 0x0A])
       [reg_r12 ctx, reg_r13 ctx, reg_r14 ctx, reg_r15 ctx];
     Some (out1 @ out2 @ out3 @ out4 @ out5 @ out6)
   }"

text \<open>\<open>cr2\<close> is the address of the fault.\<close>

definition print_page_fault_info :: "report_env \<Rightarrow> u64 \<Rightarrow> registers \<Rightarrow> string option" where
  "print_page_fault_info e cr2 ctx = do {
     out \<leftarrow> printf_in e (''Page fault'' @ [CHR 0x0A] @ ''    address %zx '') [cr2];
     let err = reg_error_code ctx;
     Some (out @ (if err AND 1 \<noteq> 0 then ''protection'' else ''not-present'') @ '' ''
       @ (if err AND 2 \<noteq> 0 then ''write'' else ''read'') @ '' ''
       @ (if err AND 4 \<noteq> 0 then ''user'' else ''supervisor'') @ '' ''
       @ (if err AND 16 \<noteq> 0 then ''instruction'' else ''data'') @ [CHR 0x0A])
   }"

datatype exception_result = Resumed registers "report list" | Halted "report list"

text \<open>The report of an exception that nothing handles: the registers, and the fault if it is one.\<close>

definition report_exception :: "report_env \<Rightarrow> u64 \<Rightarrow> u8 \<Rightarrow> registers \<Rightarrow> string option" where
  "report_exception e cr2 exception ctx = do {
     out1 \<leftarrow> (if exception = 14 then print_page_fault_info e cr2 ctx else Some []);
     out2 \<leftarrow> print_registers e ctx;
     Some (out1 @ out2)
   }"

definition exception_kernel_entry :: "report_env \<Rightarrow> u64 \<Rightarrow> u64 \<Rightarrow> u8 \<Rightarrow> registers \<Rightarrow> exception_result option" where
  "exception_kernel_entry e cr2 here exception ctx =
     (case (if exception = 14 \<and> reg_rip ctx = memcpy_op e
        then catch_page_fault (ucast (reg_error_code ctx)) (ucast (reg_rax ctx)) else None) of
        Some throw \<Rightarrow> do {
          out \<leftarrow> klog_in e (''Caught memcpy fault %x'' @ [CHR 0x0A]) [ucast throw];
          Some (Resumed (ctx\<lparr>reg_rax := ucast throw, reg_rip := memcpy_err e\<rparr>) [Print out])
        }
      | None \<Rightarrow> do {
          out1 \<leftarrow> klog_in e (''Exception'' @ [CHR 0x0A] @ ''Exn %u  error 0x%zx  cs %zu  ss %zu:'' @ [CHR 0x0A])
            [ucast exception, reg_error_code ctx, reg_cs ctx, reg_ss ctx];
          out2 \<leftarrow> report_exception e cr2 exception ctx;
          trace \<leftarrow> show_backtrace e (reg_rbp ctx);
          p \<leftarrow> panic e here ''Unhandled kernel exception'';
          Some (Halted ([Set_color COLOR_BRIGHT_RED COLOR_BLACK, Print out1, Print out2, Print trace] @ p))
        })"

definition exception_user_entry :: "report_env \<Rightarrow> u64 \<Rightarrow> u64 \<Rightarrow> u8 \<Rightarrow> registers \<Rightarrow> exception_result option" where
  "exception_user_entry e cr2 here exception ctx = do {
     out1 \<leftarrow> klog_in e (''Exception %u  error %zx  cs %zu  ss %zu:'' @ [CHR 0x0A])
       [ucast exception, reg_error_code ctx, reg_cs ctx, reg_ss ctx];
     out2 \<leftarrow> report_exception e cr2 exception ctx;
     p \<leftarrow> panic e here ''Unhandled user exception'';
     Some (Halted ([Set_color COLOR_BRIGHT_MAGENTA COLOR_BLACK, Print out1, Print out2] @ p))
   }"

section \<open>Backtraces\<close>

text \<open>The frames \<open>fs\<close>, innermost first: each holds the address of the next, the last zero.\<close>

fun frames :: "report_env \<Rightarrow> u64 \<Rightarrow> u64 list \<Rightarrow> bool" where
  "frames e p [] \<longleftrightarrow> p = 0"
| "frames e p (f # fs) \<longleftrightarrow> p = f \<and> f \<noteq> 0 \<and> frames e (load64 (re_memory e) (unat f)) fs"

text \<open>On such a stack the backtrace ends and has one line for each frame, in order.\<close>

lemma backtrace_of_frames:
  assumes "frames e p fs" and "\<forall>f\<in>set fs. backtrace_line e f = Some (ln f)"
  shows "backtrace_loop e p = Some (concat (map ln fs))"
  using assms by (induction fs arbitrary: p) (auto simp: backtrace_loop.simps)

text \<open>A frame that leads back to itself is printed for ever: the walk has no bound, so a damaged stack turns a panic into an
  endless report.\<close>

lemma backtrace_loops:
  assumes "p \<noteq> 0" and "load64 (re_memory e) (unat p) = p"
  shows "backtrace_loop e p = None"
proof -
  have "backtrace_loop e p = Some out \<Longrightarrow> False" for out
  proof (induction "length out" arbitrary: out rule: less_induct)
    case less
    from less.prems assms obtain a b where ab: "backtrace_line e p = Some a" "backtrace_loop e p = Some b" "out = a @ b"
      by (subst (asm) backtrace_loop.simps) (auto simp: bind_eq_Some_conv)
    then have "a \<noteq> []" by (auto simp: backtrace_line_def bind_eq_Some_conv Let_def)
    with ab less.hyps show False by auto
  qed
  then show ?thesis by (cases "backtrace_loop e p") auto
qed

text \<open>The kernel goes on after an exception only when it is a page fault of the copy that the copy asked to catch; then the
  copy returns the kind of the fault, and nothing else in the registers changes.\<close>

lemma kernel_resumes_exactly:
  assumes "exception_kernel_entry e cr2 here exception ctx = Some (Resumed ctx' out)"
  shows "exception = 14 \<and> reg_rip ctx = memcpy_op e \<and>
    (\<exists>throw. catch_page_fault (ucast (reg_error_code ctx)) (ucast (reg_rax ctx)) = Some throw \<and>
      throw AND ucast (reg_rax ctx) = throw \<and> ctx' = ctx\<lparr>reg_rax := ucast throw, reg_rip := memcpy_err e\<rparr>)"
  using assms by (auto simp: exception_kernel_entry_def catch_page_fault_def bind_eq_Some_conv Let_def
    split: option.splits if_splits)

lemma user_exception_halts:
  "exception_user_entry e cr2 here exception ctx = Some r \<Longrightarrow> \<exists>out. r = Halted out"
  by (auto simp: exception_user_entry_def bind_eq_Some_conv)

text \<open>The lookup takes the last symbol strictly before the address, as suits a return address. The address where an exception
  happened is looked up in the same way: at the first instruction of the first symbol it finds none, and in general the
  symbol before.\<close>

lemma first_instruction_unnamed:
  assumes "\<not> is_user_pointer a" and "re_symbols e \<noteq> 0" and "sym_address (re_memory e) (unat (re_symbols e)) = a"
  shows "symbol_at e a = Some 0"
  using assms by (simp add: symbol_at_def symbol_of_address_def last_before.simps)

end
