(* ===== verification/Spec2Isabelle.thy ===== *)
theory Spec2Isabelle
  imports Fluke_Prelude Queue Alloc Descriptor Memory Schedule Interrupt Ipc
    Mmu Page_Tables Vm Address_Space Module Treap Syscall Thread_Tree Printf Vfprintf
    Libc_String Libc_Calls Exec Stdio Libc_Start Loader Font Console Serial Timers Segments Symbols Forth_Lib Init_Program Ownership Boot Reports
begin

text \<open>
  Fluke, a kernel for x86-64 with its C library and its first program. This development models the C and C++ code of the
  kernel (\<open>kernel/src\<close>), of the library (\<open>system/libc/src\<close>) and of the init program (\<open>programs/init.c\<close>), and proves the
  properties that make the parts correct. All paths are below \<open>src/\<close>; definitions have the names of the code.

  \<^bold>\<open>The program.\<close> The boot loader starts the kernel with a memory map and some modules. The kernel gives the usable
  memory to its page allocator, sets up the descriptor tables, the floating point unit, its page tables and the interrupt
  controllers, starts one process from a module and schedules from then on. A process has a table of descriptors, an address
  space and threads; a thread enters the kernel by a system call or an interrupt and leaves it with registers in its saved
  context. Descriptors lead to handles, which are counted references to objects: a module that is read as a file, a hardware
  interrupt that is waited for, or the client or the server side of inter-process calls. The library is linked into every
  program and turns C functions into system calls; a program replaces itself by another with the help of code that the kernel
  maps into every address space.

  \<^bold>\<open>How the code is translated.\<close> A structure is a record, an enumeration a datatype, an unsigned integer of \<open>n\<close> bits a
  word of \<open>n\<close> bits (kernel addresses in the allocators and the page tables are \<open>nat\<close>, where the comment there says why no
  arithmetic can wrap). A function that changes memory or global variables takes a state and returns the new one. An
  \<open>error_code\<close> result is a sum, \<open>Inl\<close> the error. A panic, a failed assertion, and a loop without an end are \<open>None\<close>, so that
  a theorem whose conclusion is \<open>Some\<close> says that none of them happens. Loops are structural recursion where they can be,
  \<open>function\<close> with a measure where they cannot, and \<open>partial_function (option)\<close> where the code need not end. The only fuel is that of the walks in
  \<open>Treap\<close>, where the number of nodes is shown to be enough.
  Pointers are addresses in an explicit store, and the structures that the code threads through them are recovered by
  invariants that relate the store to lists, sets and maps.

  \<^bold>\<open>Containers and memory of the kernel.\<close>
  \<^item> \<open>Fluke_Prelude\<close>: the words, the error codes (\<open>include/fluke/defs/errno.h\<close>), assertions, and the lemmas on options, lists
    and words that the others share.
  \<^item> \<open>Queue\<close> (\<open>containers/queue.c\<close>): the doubly linked queue in its store of nodes, refined to lists. The locale \<open>wait_queues\<close>
    has the contract that the scheduler uses, and is interpreted on the code's model.
  \<^item> \<open>Treap\<close> (\<open>containers/tree.cxx\<close>): insertion, removal, rotation and iteration on pointers; order, heap order and parent
    links are kept. \<open>Thread_Tree\<close> takes it, by the locales \<open>node_sequence\<close> and \<open>node_set\<close>, to the set of a process's threads.
  \<^item> \<open>Alloc\<close> (\<open>mem/pmm.c\<close>, \<open>mem/alloc.c\<close>): free lists in the free memory itself. The invariant \<open>heap_ok\<close> says that free pages,
    free blocks and the blocks that callers hold are disjoint, and every sequence of operations keeps it.
  \<^item> \<open>Ownership\<close> (\<open>mem/alloc.hxx\<close>, \<open>klib.hxx\<close>): owning pointers over that heap, programs of moves, releases and scopes with
    the early return of \<open>TRY\<close>, and their type soundness: nothing is freed twice and nothing is lost.
  \<^item> \<open>Memory\<close> (\<open>mem/memory.c\<close>, \<open>memcpy_catch_fault.s\<close>, \<open>x86_64/entry.c\<close>): checks of user ranges and the copies that catch page
    faults; the translation of addresses is a parameter.

  \<^bold>\<open>Address spaces.\<close>
  \<^item> \<open>Mmu\<close> (\<open>x86_64/mmu.c\<close>) has the operations on page tables, \<open>Page_Tables\<close> their correctness: a ghost map gives every table
    page its level and place, and mapping, unmapping, changing, cloning and destroying are refined to maps from addresses to
    entries; the pages they take and give back are accounted for.
  \<^item> \<open>Vm\<close> (\<open>user/vm.cxx\<close>) has the list of areas, \<open>Address_Space\<close> the two together: by the locale \<open>page_map\<close>, interpreted on the
    tables, areas and page tables stay in step, and the pages of a whole life of an address space come back.

  \<^bold>\<open>Objects, threads, and system calls.\<close>
  \<^item> \<open>Descriptor\<close> (\<open>user/handle.cxx\<close>, \<open>user/descriptor.cxx\<close>): reference counts and the table of two levels, refined to an array
    by the locale \<open>descriptor_array\<close>. \<open>Module\<close> (\<open>user/module.cxx\<close>): modules as files.
  \<^item> \<open>Schedule\<close> (\<open>user/schedule.cxx\<close>, \<open>user/thread.cxx\<close>, \<open>x86_64/cpu.c\<close>): run queue, sleepers, waking and context switches; the
    invariant \<open>sched_inv\<close> relates the queues to the states of the threads.
  \<^item> \<open>Interrupt\<close> (\<open>user/irq.cxx\<close>, \<open>x86_64/ioapic.c\<close>, \<open>entry.c\<close>) and \<open>Ipc\<close> (\<open>user/ipc.cxx\<close>): waiting for interrupts, and servers,
    channels, calls and responses, over the scheduler and the user memory; the states
    reachable from boot, and that their steps do not panic.
  \<^item> \<open>Syscall\<close> (\<open>user/syscall.cxx\<close>, \<open>user/process.cxx\<close>): every handler, the dispatch, creating processes, threads and forks.

  \<^bold>\<open>Processor, devices, output, and start.\<close>
  \<^item> \<open>Segments\<close> (\<open>x86_64/descriptors.c\<close>, \<open>tls.c\<close>): the descriptor tables as bytes and what the processor reads from them.
  \<^item> \<open>Timers\<close> (\<open>x86_64/tsc.c\<close>, \<open>apic.c\<close>): calibration with its division of 128 bits, and the error bound of the nanoseconds.
  \<^item> \<open>Serial\<close> (\<open>x86_64/serial.c\<close>, \<open>print/print.c\<close>), \<open>Console\<close> (\<open>print/console.c\<close>), \<open>Font\<close>: output to the port and to the screen.
    Ports are functions on a device state; \<open>transmitter\<close> is what is assumed of a device that sends.
  \<^item> \<open>Printf\<close> (\<open>print/printf.c\<close>), \<open>Symbols\<close> (\<open>symbols.c\<close>), \<open>Forth_Lib\<close> (\<open>forth/forth_lib.c\<close>): formatted output, the table of
    symbols made in place from text, and the dictionary and the numbers of the Forth interpreter.
  \<^item> \<open>Boot\<close> (\<open>limine.c\<close>, \<open>x86_64/cpu.c\<close>, \<open>share/share.c\<close>, \<open>user/init.cxx\<close>): the answers of the boot loader, the memory map, and the
    first process with the registers its thread starts with.
  \<^item> \<open>Reports\<close> (\<open>panic.c\<close>, \<open>x86_64/entry.c\<close>): exceptions and panics, which of them return, and the backtrace.

  \<^bold>\<open>The library and the first program.\<close>
  \<^item> \<open>Libc_String\<close> (\<open>string\<close>), \<open>Libc_Calls\<close> (\<open>unistd\<close>, \<open>mman\<close>, \<open>fcntl\<close>, \<open>fluke\<close>): strings on a memory of bytes, \<open>strlen\<close> by
    blocks of sixteen against a reference; the wrappers with \<open>errno\<close>.
  \<^item> \<open>Stdio\<close>, \<open>Vfprintf\<close> (\<open>stdio\<close>): streams, whose reads and writes may be short, and formatted output on them.
  \<^item> \<open>Exec\<close> (\<open>unistd/fexecve.c\<close>), \<open>Loader\<close> (\<open>share/elf_loader.c\<close>), \<open>Libc_Start\<close> (\<open>start_main.c\<close>, \<open>stdlib\<close>): the stack of a new
    program is built, its segments loaded, its arguments found again, its exit functions run.
  \<^item> \<open>Init_Program\<close> (\<open>programs/init.c\<close>): the terminal, the listing of a tar archive, the commands of the prompt.

  \<^bold>\<open>What the theorems show.\<close> Invariants: every operation of the allocators, the scheduler, the treaps, the areas and the page
  tables keeps the well-formedness of its state. Refinement: page tables to maps, treaps and thread trees to sets, descriptor
  tables to arrays, queues to lists. Round trips: arguments through a new program's stack, symbols through their table,
  numbers through printing and reading, gates through their bytes, archives through their listing. Safety: copies touch only
  the range they were given, calls between processes do not panic (under two conditions that the code
  does not check, which the theorem states), an interrupt leaves the scheduler consistent, segments of
  a program do not overlap. Bounds: user ranges without wrap-around, the accuracy of the clock. Where the code does not do
  what it means to, a lemma shows it on a concrete case.

  \<^bold>\<open>Parameters.\<close> What is not C code of this repository is an argument of the definitions that use it: the processor's
  page walk (of which only the agreement with the tables is used), its ports, \<open>cpuid\<close> and time-stamp counter, the random
  numbers of the treap's priorities, the outcomes of allocations in the kernel (a free block or null), system calls as seen
  from the library (\<open>mmap\<close> answers a fresh, mapped, aligned region or an error; \<open>read\<close> and \<open>write\<close> move at most what they
  were asked to), \<open>malloc\<close> and \<open>realloc\<close>, and the inner interpreter of Forth. Each assumption on a parameter is a premise of
  the theorem that needs it, and the theorem's witness instantiates it.

  \<^bold>\<open>Not modelled.\<close> \<open>system/libc/src/malloc.c\<close> and \<open>programs/khashl.h\<close> are libraries of others, as is the protocol header
  \<open>include/limine.h\<close> beyond the structures the kernel reads. Assembly (the entries in \<open>start.s\<close> and \<open>entry_asm.s\<close>, the Forth
  machine in \<open>forth.s\<close>, \<open>crt1.S\<close>, \<open>setjmp.S\<close>, \<open>memcpy.S\<close>, \<open>memset.S\<close>, the stubs of system calls) is not translated; where C code
  depends on it, its effect is described at the definition. \<open>main.c\<close> only orders the calls; \<open>programs/hello.c\<close> is a demonstration. The code starts one processor and
  enters the kernel with interrupts masked (interrupt gates, and the flag mask of system calls in \<open>descriptors.c\<close>), so the
  operations of the kernel are atomic steps here.
\<close>

end
